(* ===== verification/Prelude.thy ===== *)
theory Prelude
  imports Complex_Main "HOL-Library.Word"
begin

text \<open>
  Shared vocabulary of the development: the machine-integer types of the C++ sources, checked
  vector access, the little-endian memory image of an integer (what \<^verbatim>\<open>memcpy\<close> of a
  \<^verbatim>\<open>uint32_t\<close> or \<^verbatim>\<open>uint64_t\<close> writes on the little-endian targets the sources insist on),
  and the generic lemmas on words, lists and options the component theories use.
\<close>

section \<open>Machine integers\<close>

type_synonym u8 = "8 word"
type_synonym u16 = "16 word"
type_synonym u32 = "32 word"
type_synonym u64 = "64 word"
type_synonym u128 = "128 word"
type_synonym u512 = "512 word"
type_synonym bytes = "u8 list"

named_theorems word_nat \<open>moving word arithmetic to the natural numbers\<close>
named_theorems csr_simps \<open>well-formed relation batches\<close>

lemma unat_add_exact:
  fixes a b :: "'a::len word"
  assumes "unat a + unat b < 2 ^ LENGTH('a)"
  shows "unat (a + b) = unat a + unat b"
  using assms by (simp add: unat_word_ariths)

lemma unat_sub_exact:
  fixes a b :: "'a::len word"
  assumes "b \<le> a"
  shows "unat (a - b) = unat a - unat b"
  using assms by (simp add: unat_sub)

lemma unat_min [word_nat]:
  fixes a b :: "'a::len word"
  shows "unat (min a b) = min (unat a) (unat b)"
  by (simp add: min_def word_le_nat_alt)

lemma unat_max [word_nat]:
  fixes a b :: "'a::len word"
  shows "unat (max a b) = max (unat a) (unat b)"
  by (simp add: max_def word_le_nat_alt)

lemma unat_lt64 [simp]: "unat (x :: u64) < 18446744073709551616"
  using unsigned_less [of x] by simp

lemma unat_lt32 [simp]: "unat (x :: u32) < 4294967296"
  using unsigned_less [of x] by simp

lemma unat_mult_exact:
  fixes a b :: "'a::len word"
  assumes "unat a * unat b < 2 ^ LENGTH('a)"
  shows "unat (a * b) = unat a * unat b"
  using assms by (simp add: unat_word_ariths)

lemma unat_ucast_up:
  fixes x :: "'a::len word"
  assumes "LENGTH('a) \<le> LENGTH('b::len)"
  shows "unat (ucast x :: 'b word) = unat x"
proof -
  have "unat x < 2 ^ LENGTH('a)" by (rule unsigned_less)
  also have "\<dots> \<le> 2 ^ LENGTH('b)" using assms by (simp add: power_increasing)
  finally show ?thesis by (simp add: unsigned_ucast_eq take_bit_eq_mod)
qed

lemma unat_ucast_32_64 [simp]: "unat (ucast (x :: u32) :: u64) = unat x"
  by (rule unat_ucast_up) simp

section \<open>Machine floating point\<close>

text \<open>
  A \<^verbatim>\<open>double\<close> is a rational number. How the machine rounds the exact result of an operation
  (\<open>fl\<close>) and converts to \<^verbatim>\<open>uint64_t\<close> (\<open>d2u\<close>) is not part of the sources: both are an argument
  of the definitions that use floating point, and theorems hold for every choice. \<open>exact_float\<close>
  is the instance with no rounding.
\<close>

record float_env =
  fl :: "rat \<Rightarrow> rat"
  d2u :: "rat \<Rightarrow> u64"

definition of_u64 :: "u64 \<Rightarrow> rat" where
  "of_u64 x = of_nat (unat x)"

definition exact_float :: float_env where
  "exact_float = \<lparr>fl = (\<lambda>x. x), d2u = (\<lambda>x. of_int \<lfloor>x\<rfloor>)\<rparr>"

section \<open>Checked vector access\<close>

text \<open>
  \<^verbatim>\<open>v[i]\<close> on a \<^verbatim>\<open>std::vector\<close> is undefined behaviour out of range: the model makes it a value,
  \<open>None\<close>, so that a theorem that an operation returns \<open>Some\<close> also says that it reads in range.
\<close>

definition vec_at :: "'a list \<Rightarrow> nat \<Rightarrow> 'a option" where
  "vec_at xs i = (if i < length xs then Some (xs ! i) else None)"

lemma vec_at_Some_iff [simp]: "vec_at xs i = Some x \<longleftrightarrow> i < length xs \<and> xs ! i = x"
  by (auto simp: vec_at_def)

lemma vec_at_in_range [simp]: "i < length xs \<Longrightarrow> vec_at xs i = Some (xs ! i)"
  by (simp add: vec_at_def)

lemma vec_at_None_iff [simp]: "vec_at xs i = None \<longleftrightarrow> length xs \<le> i"
  by (auto simp: vec_at_def)

text \<open>
  A loop whose body may fail, over the list of its iterations, and the half-open slice
  \<^verbatim>\<open>[begin + s, begin + e)\<close> of a vector.
\<close>

primrec ofold :: "('a \<Rightarrow> 's \<Rightarrow> 's option) \<Rightarrow> 'a list \<Rightarrow> 's \<Rightarrow> 's option" where
  "ofold f [] s = Some s"
| "ofold f (x # xs) s = (case f x s of None \<Rightarrow> None | Some s' \<Rightarrow> ofold f xs s')"

definition slice :: "nat \<Rightarrow> nat \<Rightarrow> 'a list \<Rightarrow> 'a list" where
  "slice s e xs = take (e - s) (drop s xs)"

lemma ofold_append:
  "ofold f (xs @ ys) s = (case ofold f xs s of None \<Rightarrow> None | Some s' \<Rightarrow> ofold f ys s')"
  by (induction xs arbitrary: s) (auto split: option.split)

lemma ofold_Some_fold:
  assumes "\<And>x s. x \<in> set xs \<Longrightarrow> f x s = Some (g x s)"
  shows "ofold f xs s = Some (fold g xs s)"
  using assms by (induction xs arbitrary: s) auto

lemma ofold_map: "ofold f (map h xs) s = ofold (\<lambda>x. f (h x)) xs s"
  by (induction xs arbitrary: s) (auto split: option.split)

lemma ofold_cong [fundef_cong]:
  "xs = ys \<Longrightarrow> s = t \<Longrightarrow> (\<And>x u. x \<in> set ys \<Longrightarrow> f x u = g x u) \<Longrightarrow> ofold f xs s = ofold g ys t"
  by (induction xs arbitrary: ys s t) (auto split: option.split)

text \<open>A loop that keeps an invariant relating its state to an abstract fold.\<close>

lemma ofold_refine:
  assumes "R s a"
    and "\<And>x s a. x \<in> set xs \<Longrightarrow> R s a \<Longrightarrow> \<exists>s'. f x s = Some s' \<and> R s' (g x a)"
  shows "\<exists>s'. ofold f xs s = Some s' \<and> R s' (fold g xs a)"
  using assms
proof (induction xs arbitrary: s a)
  case Nil
  then show ?case by simp
next
  case (Cons x xs)
  obtain s' where s': "f x s = Some s'" "R s' (g x a)"
    using Cons.prems by (meson list.set_intros(1))
  have "\<exists>s''. ofold f xs s' = Some s'' \<and> R s'' (fold g xs (g x a))"
    using s'(2) Cons.prems(2) by (intro Cons.IH) auto
  with s'(1) show ?case by simp
qed

lemma length_slice: "e \<le> length xs \<Longrightarrow> length (slice s e xs) = e - s"
  by (simp add: slice_def)

lemma slice_self_append: "slice (length xs) (length (xs @ ys)) (xs @ ys) = ys"
  by (simp add: slice_def)

lemma slice_append_left: "e \<le> length xs \<Longrightarrow> slice s e (xs @ ys) = slice s e xs"
  by (simp add: slice_def)

lemma slice_eq_map: "e \<le> length xs \<Longrightarrow> slice s e xs = map ((!) xs) [s..<e]"
  by (rule nth_equalityI) (auto simp: slice_def)

lemma slice_append:
  assumes "s \<le> m" and "m \<le> e"
  shows "slice s m xs @ slice m e xs = slice s e xs"
proof -
  have "e - s = (m - s) + (e - m)" using assms by simp
  then show ?thesis using assms by (simp only: slice_def take_add drop_drop) simp
qed

section \<open>Little-endian memory images\<close>

text \<open>\<open>to_le n w\<close> is the first \<open>n\<close> bytes of the little-endian memory image of \<open>w\<close>.\<close>

primrec to_le :: "nat \<Rightarrow> 'a::len word \<Rightarrow> bytes" where
  "to_le 0 w = []"
| "to_le (Suc n) w = ucast w # to_le n (drop_bit 8 w)"

fun of_le_nat :: "bytes \<Rightarrow> nat" where
  "of_le_nat [] = 0"
| "of_le_nat (b # bs) = unat b + 256 * of_le_nat bs"

definition of_le :: "bytes \<Rightarrow> 'a::len word" where
  "of_le bs = of_nat (of_le_nat bs)"

lemma length_to_le [simp]: "length (to_le n w) = n"
  by (induction n arbitrary: w) auto

lemma unat_ucast_byte: "unat (ucast w :: u8) = unat w mod 256"
  by (simp add: unsigned_ucast_eq take_bit_eq_mod)

lemma unat_drop_bit_byte: "unat (drop_bit 8 w) = unat w div 256"
proof -
  have "unat (drop_bit 8 w) = drop_bit 8 (unat w)" by (rule unat_drop_bit_eq)
  also have "\<dots> = unat w div 256" by (simp add: drop_bit_eq_div)
  finally show ?thesis .
qed

lemma of_le_nat_to_le: "of_le_nat (to_le n w) = unat w mod 256 ^ n"
proof (induction n arbitrary: w)
  case 0
  then show ?case by simp
next
  case (Suc n)
  have "unat w mod 256 ^ Suc n = unat w mod 256 + 256 * (unat w div 256 mod 256 ^ n)"
    by (simp add: mod_mult2_eq)
  then show ?case
    by (simp add: Suc.IH unat_ucast_byte unat_drop_bit_byte)
qed

lemma of_le_to_le:
  fixes w :: "'a::len word"
  assumes "LENGTH('a) \<le> 8 * n"
  shows "of_le (to_le n w) = w"
proof -
  have "unat w < 2 ^ LENGTH('a)" by (rule unsigned_less)
  also have "\<dots> \<le> 2 ^ (8 * n)" using assms by (simp add: power_increasing)
  also have "\<dots> = (256::nat) ^ n" by (simp add: power_mult)
  finally show ?thesis by (simp add: of_le_def of_le_nat_to_le)
qed

lemma of_le_nat_bound: "of_le_nat bs < 256 ^ length bs"
proof (induction bs)
  case Nil
  then show ?case by simp
next
  case (Cons b bs)
  have "unat b < 256" using unsigned_less [of b] by simp
  with Cons show ?case by simp
qed

lemma of_le_nat_inj: "length v = length w \<Longrightarrow> of_le_nat v = of_le_nat w \<Longrightarrow> v = w"
proof (induction v w rule: list_induct2)
  case Nil
  then show ?case by simp
next
  case (Cons b bs c cs)
  have "unat b < 256" "unat c < 256" using unsigned_less [of b] unsigned_less [of c] by simp_all
  then have "unat b = unat c"
    using arg_cong [OF Cons.prems, of "\<lambda>x. x mod 256"] by simp
  moreover from this have "of_le_nat bs = of_le_nat cs" using Cons.prems by simp
  ultimately show ?case using Cons.IH by (simp add: word_unat_eq_iff)
qed

lemma of_le_inj:
  assumes "length v = length w" "8 * length v \<le> LENGTH('a::len)" "(of_le v :: 'a word) = of_le w"
  shows "v = w"
proof -
  have small: "of_le_nat x < 2 ^ LENGTH('a)" if "8 * length x \<le> LENGTH('a)" for x
  proof -
    have "of_le_nat x < 256 ^ length x" by (rule of_le_nat_bound)
    also have "\<dots> = 2 ^ (8 * length x)" by (simp add: power_mult)
    also have "\<dots> \<le> 2 ^ LENGTH('a)" using that by (intro power_increasing) auto
    finally show ?thesis .
  qed
  have "of_le_nat v = of_le_nat w"
    using assms small [of v] small [of w] by (simp add: of_le_def word_of_nat_eq_iff take_bit_eq_mod)
  with assms(1) show ?thesis by (rule of_le_nat_inj)
qed

lemma to_le_of_le:
  assumes "length bs = n" "8 * n = LENGTH('a::len)"
  shows "to_le n (of_le bs :: 'a word) = bs"
  by (rule of_le_inj [where 'a = 'a]) (use assms in \<open>simp_all add: of_le_to_le\<close>)

section \<open>Reachable states and inductive invariants\<close>

inductive reachable :: "('s \<Rightarrow> bool) \<Rightarrow> ('s \<Rightarrow> 's \<Rightarrow> bool) \<Rightarrow> 's \<Rightarrow> bool"
  for init :: "'s \<Rightarrow> bool" and step :: "'s \<Rightarrow> 's \<Rightarrow> bool" where
  reach_init: "init s \<Longrightarrow> reachable init step s"
| reach_step: "reachable init step s \<Longrightarrow> step s t \<Longrightarrow> reachable init step t"

text \<open>
  The contract between a component's step relation and its safety properties: an invariant
  that holds at the start and that every step keeps holds in every reachable state.
\<close>

locale inductive_invariant =
  fixes init :: "'s \<Rightarrow> bool" and step :: "'s \<Rightarrow> 's \<Rightarrow> bool" and inv :: "'s \<Rightarrow> bool"
  assumes inv_init: "init s \<Longrightarrow> inv s"
    and inv_step: "inv s \<Longrightarrow> step s t \<Longrightarrow> inv t"
begin

lemma reachable_inv: "reachable init step s \<Longrightarrow> inv s"
  by (induction rule: reachable.induct) (auto intro: inv_init inv_step)

end

end
