(* ===== verification/Work_Pool.thy ===== *)
theory Work_Pool
  imports Prelude
begin

text \<open>
  The coordinator's pool of polynomial work units, \<^verbatim>\<open>src/cluster/work_pool.h\<close> and
  \<^verbatim>\<open>src/cluster/work_pool.cpp\<close>: a linear cursor over the a-value indices, the list of
  checked-out chunks and the list of reclaimed ranges that are served before the cursor moves.
  Every public operation takes the pool's mutex for its whole body, so an execution of the
  threaded pool is a sequence of whole operations, which \<open>pool_step\<close> describes.

  The theorems relate the pool to a ghost set of finished a-value indices: every index below
  the cursor has exactly one owner (in flight, returned or finished), and the cursor a
  checkpoint stores has only finished indices below it.
\<close>

section \<open>State and operations\<close>

record work_unit =
  wu_start :: u64
  wu_count :: u64

record checked_out_work =
  chunk_id :: u32
  co_unit :: work_unit
  worker_id :: u8
  checkout_time :: nat

record work_pool =
  wp_next :: u64
  wp_end :: u64
  unit_size :: u32
  next_chunk_id :: u32
  in_flight :: "checked_out_work list"
  returned :: "work_unit list"

definition WorkPool :: "u64 \<Rightarrow> u64 \<Rightarrow> u32 \<Rightarrow> work_pool" where
  "WorkPool a_start total_a usize =
     \<lparr>wp_next = a_start, wp_end = a_start + total_a, unit_size = usize,
      next_chunk_id = 0, in_flight = [], returned = []\<rparr>"

text \<open>The clock reading of \<^verbatim>\<open>steady_clock::now()\<close> is the argument \<open>now\<close>.\<close>

definition checkoutWork ::
    "nat \<Rightarrow> u64 \<Rightarrow> u8 \<Rightarrow> work_pool \<Rightarrow> checked_out_work option \<times> work_pool" where
  "checkoutWork now cnt wid p =
     (if returned p \<noteq> [] then
        let wu = last (returned p);
            popped = butlast (returned p);
            (wu', ret) =
              (if wu_count wu > cnt
               then (wu\<lparr>wu_count := cnt\<rparr>,
                     popped @ [\<lparr>wu_start = wu_start wu + cnt, wu_count = wu_count wu - cnt\<rparr>])
               else (wu, popped));
            cw = \<lparr>chunk_id = next_chunk_id p, co_unit = wu', worker_id = wid,
                  checkout_time = now\<rparr>
        in (Some cw, p\<lparr>returned := ret, next_chunk_id := next_chunk_id p + 1,
                       in_flight := in_flight p @ [cw]\<rparr>)
      else if wp_next p \<ge> wp_end p then (None, p)
      else
        let actual = min cnt (wp_end p - wp_next p);
            cw = \<lparr>chunk_id = next_chunk_id p,
                  co_unit = \<lparr>wu_start = wp_next p, wu_count = actual\<rparr>,
                  worker_id = wid, checkout_time = now\<rparr>
        in (Some cw, p\<lparr>wp_next := wp_next p + actual, next_chunk_id := next_chunk_id p + 1,
                       in_flight := in_flight p @ [cw]\<rparr>))"

definition requestWork_default :: "nat \<Rightarrow> work_pool \<Rightarrow> work_unit option \<times> work_pool" where
  "requestWork_default now p =
     (case checkoutWork now (ucast (unit_size p)) 0 p of
        (None, p') \<Rightarrow> (None, p')
      | (Some cw, p') \<Rightarrow> (Some (co_unit cw), p'))"

definition requestWork :: "nat \<Rightarrow> u64 \<Rightarrow> work_pool \<Rightarrow> work_unit option \<times> work_pool" where
  "requestWork now requested_count p =
     (case checkoutWork now requested_count 0 p of
        (None, p') \<Rightarrow> (None, p')
      | (Some cw, p') \<Rightarrow> (Some (co_unit cw), p'))"

text \<open>The search loop the three operations on one chunk share: the first entry with the id.\<close>

fun take_chunk ::
    "u32 \<Rightarrow> checked_out_work list \<Rightarrow> (checked_out_work \<times> checked_out_work list) option" where
  "take_chunk cid [] = None"
| "take_chunk cid (c # cs) =
     (if chunk_id c = cid then Some (c, cs)
      else map_option (\<lambda>(d, ds). (d, c # ds)) (take_chunk cid cs))"

definition completeChunk :: "u32 \<Rightarrow> work_pool \<Rightarrow> work_pool" where
  "completeChunk cid p =
     (case take_chunk cid (in_flight p) of
        None \<Rightarrow> p
      | Some (c, rest) \<Rightarrow> p\<lparr>in_flight := rest\<rparr>)"

fun reclaim_loop ::
    "u8 \<Rightarrow> checked_out_work list \<Rightarrow> work_unit list \<Rightarrow> u64
      \<Rightarrow> checked_out_work list \<times> work_unit list \<times> u64" where
  "reclaim_loop wid [] ret n = ([], ret, n)"
| "reclaim_loop wid (c # cs) ret n =
     (if worker_id c = wid
      then reclaim_loop wid cs (ret @ [co_unit c]) (n + wu_count (co_unit c))
      else (case reclaim_loop wid cs ret n of (infl, ret', n') \<Rightarrow> (c # infl, ret', n')))"

definition reclaimWork :: "u8 \<Rightarrow> work_pool \<Rightarrow> u64 \<times> work_pool" where
  "reclaimWork wid p =
     (case reclaim_loop wid (in_flight p) (returned p) 0 of
        (infl, ret, n) \<Rightarrow> (n, p\<lparr>in_flight := infl, returned := ret\<rparr>))"

definition returnChunk :: "u32 \<Rightarrow> work_pool \<Rightarrow> u64 \<times> work_pool" where
  "returnChunk cid p =
     (case take_chunk cid (in_flight p) of
        None \<Rightarrow> (0, p)
      | Some (c, rest) \<Rightarrow>
          (wu_count (co_unit c),
           p\<lparr>returned := returned p @ [co_unit c], in_flight := rest\<rparr>))"

definition reclaimPartial :: "u32 \<Rightarrow> u64 \<Rightarrow> work_pool \<Rightarrow> work_pool" where
  "reclaimPartial cid consumed_count p =
     (case take_chunk cid (in_flight p) of
        None \<Rightarrow> p
      | Some (c, rest) \<Rightarrow>
          let u = co_unit c;
              actual_consumed = min consumed_count (wu_count u);
              remainder = wu_count u - actual_consumed;
              ret = (if remainder > 0
                     then returned p @ [\<lparr>wu_start = wu_start u + actual_consumed,
                                         wu_count = remainder\<rparr>]
                     else returned p)
          in p\<lparr>returned := ret, in_flight := rest\<rparr>)"

definition inFlightChunks :: "work_pool \<Rightarrow> checked_out_work list" where
  "inFlightChunks p = in_flight p"

definition remaining :: "work_pool \<Rightarrow> u64" where
  "remaining p =
     (let linear = (if wp_next p < wp_end p then wp_end p - wp_next p else 0)
      in linear + sum_list (map wu_count (returned p)))"

definition exhausted :: "work_pool \<Rightarrow> bool" where
  "exhausted p \<longleftrightarrow> wp_next p \<ge> wp_end p \<and> returned p = []"

definition inFlight :: "work_pool \<Rightarrow> u64" where
  "inFlight p = sum_list (map (\<lambda>cw. wu_count (co_unit cw)) (in_flight p))"

definition inFlightFor :: "u8 \<Rightarrow> work_pool \<Rightarrow> u64" where
  "inFlightFor wid p =
     sum_list (map (\<lambda>cw. wu_count (co_unit cw))
       (filter (\<lambda>cw. worker_id cw = wid) (in_flight p)))"

definition remainingOrInFlight :: "work_pool \<Rightarrow> u64" where
  "remainingOrInFlight p = remaining p + inFlight p"

definition nextCursor :: "work_pool \<Rightarrow> u64" where
  "nextCursor p = wp_next p"

definition endCursor :: "work_pool \<Rightarrow> u64" where
  "endCursor p = wp_end p"

definition completedPrefixCursor :: "work_pool \<Rightarrow> u64" where
  "completedPrefixCursor p =
     fold (\<lambda>wu c. min c (wu_start wu)) (returned p)
       (fold (\<lambda>cw c. min c (wu_start (co_unit cw))) (in_flight p) (wp_next p))"

text \<open>\<^verbatim>\<open>setCursor\<close> asserts a clean pool and a cursor inside it; a failed assert is \<open>None\<close>.\<close>

definition setCursor :: "u64 \<Rightarrow> work_pool \<Rightarrow> work_pool option" where
  "setCursor cursor p =
     (if in_flight p = [] \<and> returned p = [] \<and> cursor \<le> wp_end p
      then Some (p\<lparr>wp_next := cursor\<rparr>) else None)"

section \<open>Executions with a ledger of finished a-values\<close>

definition span :: "work_unit \<Rightarrow> nat set" where
  "span u = {unat (wu_start u) ..< unat (wu_start u) + unat (wu_count u)}"

definition outstanding :: "work_pool \<Rightarrow> work_unit list" where
  "outstanding p = map co_unit (in_flight p) @ returned p"

text \<open>
  The a-values an operation reports as sieved: the whole chunk for \<^verbatim>\<open>completeChunk\<close>, the
  consumed prefix for \<^verbatim>\<open>reclaimPartial\<close>, nothing for the other operations.
\<close>

definition finished_by_complete :: "u32 \<Rightarrow> work_pool \<Rightarrow> nat set" where
  "finished_by_complete cid p =
     (case take_chunk cid (in_flight p) of None \<Rightarrow> {} | Some (c, _) \<Rightarrow> span (co_unit c))"

definition finished_by_partial :: "u32 \<Rightarrow> u64 \<Rightarrow> work_pool \<Rightarrow> nat set" where
  "finished_by_partial cid consumed p =
     (case take_chunk cid (in_flight p) of None \<Rightarrow> {}
      | Some (c, _) \<Rightarrow> span ((co_unit c)\<lparr>wu_count := min consumed (wu_count (co_unit c))\<rparr>))"

type_synonym ledger = "work_pool \<times> nat set"

inductive pool_step :: "ledger \<Rightarrow> ledger \<Rightarrow> bool" where
  step_checkout: "pool_step (p, d) (snd (checkoutWork now cnt wid p), d)"
| step_complete: "pool_step (p, d) (completeChunk cid p, d \<union> finished_by_complete cid p)"
| step_return: "pool_step (p, d) (snd (returnChunk cid p), d)"
| step_reclaim: "pool_step (p, d) (snd (reclaimWork wid p), d)"
| step_partial:
    "pool_step (p, d) (reclaimPartial cid n p, d \<union> finished_by_partial cid n p)"

definition fresh_pool :: "u64 \<Rightarrow> u64 \<Rightarrow> ledger \<Rightarrow> bool" where
  "fresh_pool a_start total_a l \<longleftrightarrow>
     unat a_start + unat total_a < 2 ^ 64 \<and>
     (\<exists>usize. l = (WorkPool a_start total_a usize, {}))"

text \<open>How many owners index \<open>i\<close> has among a list of units.\<close>

fun owners :: "nat \<Rightarrow> work_unit list \<Rightarrow> nat" where
  "owners i [] = 0"
| "owners i (u # us) = (if i \<in> span u then 1 else 0) + owners i us"

definition unit_ok :: "nat \<Rightarrow> work_pool \<Rightarrow> work_unit \<Rightarrow> bool" where
  "unit_ok a0 p u \<longleftrightarrow>
     a0 \<le> unat (wu_start u) \<and> unat (wu_start u) + unat (wu_count u) \<le> unat (wp_next p)"

definition pool_inv :: "nat \<Rightarrow> nat \<Rightarrow> ledger \<Rightarrow> bool" where
  "pool_inv a0 n = (\<lambda>(p, d).
     a0 \<le> unat (wp_next p) \<and> unat (wp_next p) \<le> a0 + n \<and> unat (wp_end p) = a0 + n \<and>
     (\<forall>u \<in> set (outstanding p). unit_ok a0 p u) \<and>
     (\<forall>i. owners i (outstanding p) + (if i \<in> d then 1 else 0)
            = (if a0 \<le> i \<and> i < unat (wp_next p) then 1 else 0)))"

section \<open>Preservation of the ledger invariant\<close>

lemma owners_append [simp]: "owners i (us @ vs) = owners i us + owners i vs"
  by (induction us) auto

lemma owners_pos: "u \<in> set us \<Longrightarrow> i \<in> span u \<Longrightarrow> 1 \<le> owners i us"
  by (induction us) auto

lemma owners_0_notin: "owners i us = 0 \<Longrightarrow> u \<in> set us \<Longrightarrow> i \<notin> span u"
  by (induction us) auto

text \<open>Splitting a range at an offset inside it: the two parts own what the whole owned.\<close>

lemma split_owner:
  assumes "k \<le> wu_count u" and "unat (wu_start u) + unat (wu_count u) < 2 ^ 64"
  shows "(if i \<in> span u then 1 else 0 :: nat)
       = (if i \<in> span (u\<lparr>wu_count := k\<rparr>) then 1 else 0)
       + (if i \<in> span \<lparr>wu_start = wu_start u + k, wu_count = wu_count u - k\<rparr> then 1 else 0)"
    and "unat (wu_start u + k) = unat (wu_start u) + unat k"
    and "unat (wu_count u - k) = unat (wu_count u) - unat k"
proof -
  have k: "unat k \<le> unat (wu_count u)" using assms(1) by (simp add: word_le_nat_alt)
  show s: "unat (wu_start u + k) = unat (wu_start u) + unat k"
    by (rule unat_add_exact) (use k assms(2) in simp)
  show c: "unat (wu_count u - k) = unat (wu_count u) - unat k"
    by (rule unat_sub_exact) (rule assms(1))
  show "(if i \<in> span u then 1 else 0 :: nat)
       = (if i \<in> span (u\<lparr>wu_count := k\<rparr>) then 1 else 0)
       + (if i \<in> span \<lparr>wu_start = wu_start u + k, wu_count = wu_count u - k\<rparr> then 1 else 0)"
    using k s c by (auto simp: span_def)
qed

lemma take_chunk_split:
  "take_chunk cid cs = Some (c, rest) \<Longrightarrow>
     \<exists>pre post. cs = pre @ c # post \<and> rest = pre @ post \<and> chunk_id c = cid
       \<and> cid \<notin> chunk_id ` set pre"
proof (induction cs arbitrary: rest)
  case Nil
  then show ?case by simp
next
  case (Cons a cs)
  show ?case
  proof (cases "chunk_id a = cid")
    case True
    with Cons.prems have "c = a" "rest = cs" by auto
    with True show ?thesis by (intro exI [of _ "[]"] exI [of _ cs]) simp
  next
    case False
    with Cons.prems obtain ds where "take_chunk cid cs = Some (c, ds)" and r: "rest = a # ds"
      by auto
    with Cons.IH obtain pre post where
      "cs = pre @ c # post" "ds = pre @ post" "chunk_id c = cid" "cid \<notin> chunk_id ` set pre"
      by blast
    with r False show ?thesis by (intro exI [of _ "a # pre"] exI [of _ post]) simp
  qed
qed

lemma take_chunk_None_iff: "take_chunk cid cs = None \<longleftrightarrow> cid \<notin> chunk_id ` set cs"
  by (induction cs) auto

text \<open>An operation that only moves outstanding ranges around keeps the invariant.\<close>

lemma pool_inv_exchange:
  assumes "pool_inv a0 n (p, d)"
    and "wp_next p' = wp_next p" and "wp_end p' = wp_end p"
    and "\<And>u. u \<in> set (outstanding p') \<Longrightarrow> unit_ok a0 p u"
    and "\<And>i. owners i (outstanding p') + (if i \<in> d' then 1 else 0)
              = owners i (outstanding p) + (if i \<in> d then 1 else 0)"
  shows "pool_inv a0 n (p', d')"
  using assms by (simp add: pool_inv_def unit_ok_def)

lemma outstanding_split:
  assumes "take_chunk cid (in_flight p) = Some (c, rest)"
  shows "owners i (outstanding p)
           = owners i (map co_unit rest) + owners i (returned p)
             + (if i \<in> span (co_unit c) then 1 else 0)"
    and "set (outstanding p)
           = insert (co_unit c) (co_unit ` set rest \<union> set (returned p))"
  using take_chunk_split [OF assms] by (auto simp: outstanding_def)

lemma unit_ok_no_wrap: "unit_ok a0 p u \<Longrightarrow> unat (wu_start u) + unat (wu_count u) < 2 ^ 64"
  by (rule le_less_trans [of _ "unat (wp_next p)"]) (simp_all add: unit_ok_def)

lemma pool_inv_unit_ok: "pool_inv a0 n (p, d) \<Longrightarrow> u \<in> set (outstanding p) \<Longrightarrow> unit_ok a0 p u"
  by (simp add: pool_inv_def)

lemma pool_inv_owner:
  "pool_inv a0 n (p, d) \<Longrightarrow> owners i (outstanding p) + (if i \<in> d then 1 else 0)
     = (if a0 \<le> i \<and> i < unat (wp_next p) then 1 else 0)"
  by (simp add: pool_inv_def)

lemma pool_inv_owner_le:
  "pool_inv a0 n (p, d) \<Longrightarrow> owners i (outstanding p) + (if i \<in> d then 1 else 0) \<le> 1"
  by (simp add: pool_inv_def)

text \<open>What a chunk found in flight owns is not finished yet.\<close>

lemma in_flight_not_finished:
  assumes "pool_inv a0 n (p, d)" and "take_chunk cid (in_flight p) = Some (c, rest)"
    and "i \<in> span (co_unit c)"
  shows "i \<notin> d"
  using pool_inv_owner_le [OF assms(1), of i] outstanding_split(1) [OF assms(2), of i] assms(3)
  by (auto split: if_splits)

lemma completeChunk_inv:
  assumes inv: "pool_inv a0 n (p, d)"
  shows "pool_inv a0 n (completeChunk cid p, d \<union> finished_by_complete cid p)"
proof (cases "take_chunk cid (in_flight p)")
  case None
  with inv show ?thesis by (simp add: completeChunk_def finished_by_complete_def)
next
  case (Some cr)
  obtain c rest where t: "take_chunk cid (in_flight p) = Some (c, rest)"
    using Some by (cases cr) auto
  have eq: "owners i (outstanding (completeChunk cid p))
      + (if i \<in> d \<union> finished_by_complete cid p then 1 else 0)
      = owners i (outstanding p) + (if i \<in> d then 1 else 0)" for i
    using outstanding_split(1) [OF t, of i] in_flight_not_finished [OF inv t, of i]
    by (auto simp: completeChunk_def finished_by_complete_def t outstanding_def)
  have sub: "u \<in> set (outstanding p)" if "u \<in> set (outstanding (completeChunk cid p))" for u
    using that outstanding_split(2) [OF t] by (auto simp: completeChunk_def t outstanding_def)
  show ?thesis
    by (rule pool_inv_exchange [OF inv _ _ pool_inv_unit_ok [OF inv sub] eq])
      (simp_all add: completeChunk_def t)
qed

lemma returnChunk_inv:
  assumes inv: "pool_inv a0 n (p, d)"
  shows "pool_inv a0 n (snd (returnChunk cid p), d)"
proof (cases "take_chunk cid (in_flight p)")
  case None
  with inv show ?thesis by (simp add: returnChunk_def)
next
  case (Some cr)
  obtain c rest where t: "take_chunk cid (in_flight p) = Some (c, rest)"
    using Some by (cases cr) auto
  have eq: "owners i (outstanding (snd (returnChunk cid p))) + (if i \<in> d then 1 else 0)
      = owners i (outstanding p) + (if i \<in> d then 1 else 0)" for i
    using outstanding_split(1) [OF t, of i] by (simp add: returnChunk_def t outstanding_def)
  have sub: "u \<in> set (outstanding p)" if "u \<in> set (outstanding (snd (returnChunk cid p)))" for u
    using that outstanding_split(2) [OF t] by (auto simp: returnChunk_def t outstanding_def)
  show ?thesis
    by (rule pool_inv_exchange [OF inv _ _ pool_inv_unit_ok [OF inv sub] eq])
      (simp_all add: returnChunk_def t)
qed

lemma reclaim_loop_spec:
  "reclaim_loop wid cs ret n0 =
     (filter (\<lambda>c. worker_id c \<noteq> wid) cs,
      ret @ map co_unit (filter (\<lambda>c. worker_id c = wid) cs),
      n0 + sum_list (map (\<lambda>c. wu_count (co_unit c)) (filter (\<lambda>c. worker_id c = wid) cs)))"
  by (induction wid cs ret n0 rule: reclaim_loop.induct) (auto simp: add.assoc)

lemma owners_filter_split:
  "owners i (map co_unit (filter P cs)) + owners i (map co_unit (filter (\<lambda>c. \<not> P c) cs))
     = owners i (map co_unit cs)"
  by (induction cs) auto

lemma reclaimWork_inv:
  assumes inv: "pool_inv a0 n (p, d)"
  shows "pool_inv a0 n (snd (reclaimWork wid p), d)"
proof (rule pool_inv_exchange [OF inv])
  show "owners i (outstanding (snd (reclaimWork wid p))) + (if i \<in> d then 1 else 0)
          = owners i (outstanding p) + (if i \<in> d then 1 else 0)" for i
    using owners_filter_split [of i "\<lambda>c. worker_id c = wid" "in_flight p"]
    by (simp add: reclaimWork_def reclaim_loop_spec outstanding_def)
next
  show "unit_ok a0 p u" if "u \<in> set (outstanding (snd (reclaimWork wid p)))" for u
    using that inv by (auto simp: reclaimWork_def reclaim_loop_spec outstanding_def pool_inv_def)
qed (simp_all add: reclaimWork_def reclaim_loop_spec)

lemma reclaimPartial_inv:
  assumes inv: "pool_inv a0 n (p, d)"
  shows "pool_inv a0 n (reclaimPartial cid k p, d \<union> finished_by_partial cid k p)"
proof (cases "take_chunk cid (in_flight p)")
  case None
  with inv show ?thesis by (simp add: reclaimPartial_def finished_by_partial_def)
next
  case (Some cr)
  obtain c rest where t: "take_chunk cid (in_flight p) = Some (c, rest)"
    using Some by (cases cr) auto
  let ?u = "co_unit c" and ?k = "min k (wu_count (co_unit c))"
  have ok: "unit_ok a0 p ?u"
    using inv outstanding_split(2) [OF t] by (auto simp: pool_inv_def)
  note sp = split_owner [of ?k ?u, OF min.cobounded2 unit_ok_no_wrap [OF ok]]
  note disj = in_flight_not_finished [OF inv t]
  have fin: "finished_by_partial cid k p = span (?u\<lparr>wu_count := ?k\<rparr>)"
    by (simp add: finished_by_partial_def t)
  have sub: "span (?u\<lparr>wu_count := ?k\<rparr>) \<subseteq> span ?u"
    by (auto simp: span_def word_nat)
  have empty: "span \<lparr>wu_start = wu_start ?u + ?k, wu_count = wu_count ?u - ?k\<rparr> = {}"
    if "\<not> wu_count ?u - ?k > 0"
    using that by (simp add: span_def word_gt_0)
  have okr: "unit_ok a0 p \<lparr>wu_start = wu_start ?u + ?k, wu_count = wu_count ?u - ?k\<rparr>"
    using ok sp(2,3) by (auto simp: unit_ok_def word_nat)
  have eq: "owners i (outstanding (reclaimPartial cid k p))
      + (if i \<in> d \<union> finished_by_partial cid k p then 1 else 0)
      = owners i (outstanding p) + (if i \<in> d then 1 else 0)" for i
    using sp(1) [of i] disj [of i] sub empty outstanding_split(1) [OF t, of i]
    by (auto simp: reclaimPartial_def t Let_def fin outstanding_def split: if_splits)
  have ok': "unit_ok a0 p u" if "u \<in> set (outstanding (reclaimPartial cid k p))" for u
    using that okr pool_inv_unit_ok [OF inv, of u] outstanding_split(2) [OF t]
    by (auto simp: reclaimPartial_def t Let_def outstanding_def split: if_splits)
  show ?thesis
    by (rule pool_inv_exchange [OF inv _ _ ok' eq]) (simp_all add: reclaimPartial_def t Let_def)
qed

lemma owners_returned_last:
  "returned p \<noteq> [] \<Longrightarrow>
     owners i (returned p)
       = owners i (butlast (returned p)) + (if i \<in> span (last (returned p)) then 1 else 0)"
  by (subst append_butlast_last_id [symmetric], assumption) (simp del: append_butlast_last_id)

lemma checkoutWork_inv_split:
  assumes inv: "pool_inv a0 n (p, d)" and ne: "returned p \<noteq> []"
    and lt: "cnt < wu_count (last (returned p))"
  shows "pool_inv a0 n (snd (checkoutWork now cnt wid p), d)"
proof -
  define wu where "wu = last (returned p)"
  let ?r = "\<lparr>wu_start = wu_start wu + cnt, wu_count = wu_count wu - cnt\<rparr>"
  have mem: "wu \<in> set (outstanding p)" using ne by (simp add: outstanding_def wu_def)
  note ok = pool_inv_unit_ok [OF inv mem]
  have le: "cnt \<le> wu_count wu" using lt by (simp add: wu_def)
  note sp = split_owner [OF le unit_ok_no_wrap [OF ok]]
  have out: "outstanding (snd (checkoutWork now cnt wid p))
      = map co_unit (in_flight p) @ [wu\<lparr>wu_count := cnt\<rparr>] @ butlast (returned p) @ [?r]"
    using ne lt by (simp add: checkoutWork_def Let_def outstanding_def wu_def)
  have eq: "owners i (outstanding (snd (checkoutWork now cnt wid p))) + (if i \<in> d then 1 else 0)
      = owners i (outstanding p) + (if i \<in> d then 1 else 0)" for i
    using sp(1) [of i] owners_returned_last [OF ne, of i]
    unfolding out by (simp add: outstanding_def wu_def)
  have "unat cnt \<le> unat (wu_count wu)" using le by (simp add: word_le_nat_alt)
  with ok sp(2,3) have ok2: "unit_ok a0 p (wu\<lparr>wu_count := cnt\<rparr>)" "unit_ok a0 p ?r"
    by (auto simp: unit_ok_def)
  have ok': "unit_ok a0 p u" if "u \<in> set (outstanding (snd (checkoutWork now cnt wid p)))" for u
    using that ok2 pool_inv_unit_ok [OF inv, of u] in_set_butlastD [of u "returned p"]
    unfolding out by (auto simp: outstanding_def)
  show ?thesis
    by (rule pool_inv_exchange [OF inv _ _ ok' eq])
      (use ne lt in \<open>simp_all add: checkoutWork_def Let_def\<close>)
qed

lemma checkoutWork_inv_whole:
  assumes inv: "pool_inv a0 n (p, d)" and ne: "returned p \<noteq> []"
    and le: "\<not> cnt < wu_count (last (returned p))"
  shows "pool_inv a0 n (snd (checkoutWork now cnt wid p), d)"
proof -
  have out: "outstanding (snd (checkoutWork now cnt wid p))
      = map co_unit (in_flight p) @ [last (returned p)] @ butlast (returned p)"
    using ne le by (simp add: checkoutWork_def Let_def outstanding_def)
  have eq: "owners i (outstanding (snd (checkoutWork now cnt wid p))) + (if i \<in> d then 1 else 0)
      = owners i (outstanding p) + (if i \<in> d then 1 else 0)" for i
    using owners_returned_last [OF ne, of i] unfolding out by (simp add: outstanding_def)
  have ok': "unit_ok a0 p u" if "u \<in> set (outstanding (snd (checkoutWork now cnt wid p)))" for u
    using that pool_inv_unit_ok [OF inv, of u] in_set_butlastD [of u "returned p"] ne
    unfolding out by (auto simp: outstanding_def)
  show ?thesis
    by (rule pool_inv_exchange [OF inv _ _ ok' eq])
      (use ne le in \<open>simp_all add: checkoutWork_def Let_def\<close>)
qed

lemma linear_checkout_arith:
  assumes le: "wp_next p \<le> wp_end p" and k: "k = min cnt (wp_end p - wp_next p)"
  shows "unat (wp_next p + k) = unat (wp_next p) + unat k"
    and "unat (wp_next p) + unat k \<le> unat (wp_end p)"
proof -
  have "unat k \<le> unat (wp_end p - wp_next p)" unfolding k by (simp add: word_nat)
  with le show b: "unat (wp_next p) + unat k \<le> unat (wp_end p)"
    by (simp add: unat_sub_exact word_le_nat_alt)
  show "unat (wp_next p + k) = unat (wp_next p) + unat k"
    by (rule unat_add_exact) (rule le_less_trans [OF b], simp)
qed

lemma checkoutWork_inv_linear:
  assumes inv: "pool_inv a0 n (p, d)" and em: "returned p = []" and lt: "wp_next p < wp_end p"
  shows "pool_inv a0 n (snd (checkoutWork now cnt wid p), d)"
proof -
  define k where "k = min cnt (wp_end p - wp_next p)"
  let ?u = "\<lparr>wu_start = wp_next p, wu_count = k\<rparr>"
  have nle: "\<not> wp_end p \<le> wp_next p" using lt by simp
  note ar = linear_checkout_arith [OF order.strict_implies_order [OF lt] k_def]
  have out: "outstanding (snd (checkoutWork now cnt wid p)) = outstanding p @ [?u]"
    using em nle by (simp add: checkoutWork_def Let_def outstanding_def k_def)
  have fields: "wp_next (snd (checkoutWork now cnt wid p)) = wp_next p + k"
    "wp_end (snd (checkoutWork now cnt wid p)) = wp_end p"
    using em nle by (simp_all add: checkoutWork_def Let_def k_def)
  have a0: "a0 \<le> unat (wp_next p)" using inv by (simp add: pool_inv_def)
  have own: "owners i (outstanding p) + (if i \<in> d then 1 else 0)
      = (if a0 \<le> i \<and> i < unat (wp_next p) then 1 else 0)" for i
    using inv by (simp add: pool_inv_def)
  have "owners i (outstanding p @ [?u]) + (if i \<in> d then 1 else 0)
      = (if a0 \<le> i \<and> i < unat (wp_next p) + unat k then 1 else 0)" for i
    using own [of i] a0 by (auto simp: span_def split: if_splits)
  with inv ar show ?thesis
    by (auto simp: pool_inv_def out fields unit_ok_def)
qed

lemma checkoutWork_inv:
  assumes inv: "pool_inv a0 n (p, d)"
  shows "pool_inv a0 n (snd (checkoutWork now cnt wid p), d)"
proof (cases "returned p = []")
  case False
  then show ?thesis
    using checkoutWork_inv_split [OF inv] checkoutWork_inv_whole [OF inv] by blast
next
  case True
  then show ?thesis
    using checkoutWork_inv_linear [OF inv True] inv
    by (cases "wp_next p < wp_end p") (simp_all add: checkoutWork_def not_less)
qed

lemma fresh_pool_inv:
  "fresh_pool a_start total_a l \<Longrightarrow> pool_inv (unat a_start) (unat total_a) l"
  by (auto simp: fresh_pool_def pool_inv_def WorkPool_def outstanding_def unat_add_exact)

lemma pool_step_inv: "pool_step l l' \<Longrightarrow> pool_inv a0 n l \<Longrightarrow> pool_inv a0 n l'"
  by (induction rule: pool_step.induct)
    (auto intro: checkoutWork_inv completeChunk_inv returnChunk_inv reclaimWork_inv
      reclaimPartial_inv)

interpretation pool: inductive_invariant
    "fresh_pool a t" pool_step "pool_inv (unat a) (unat t)" for a t
  by unfold_locales (auto intro: fresh_pool_inv pool_step_inv)

section \<open>Consequences: cursors, counters, hand-out\<close>

lemma fold_min_le: "fold (\<lambda>x c. min c (f x)) xs (c :: u64) \<le> c"
proof (induction xs arbitrary: c)
  case Nil
  then show ?case by simp
next
  case (Cons x xs)
  show ?case using Cons.IH [of "min c (f x)"] by simp
qed

lemma fold_min_le_elem: "x \<in> set xs \<Longrightarrow> fold (\<lambda>x c. min c (f x)) xs (c :: u64) \<le> f x"
  by (induction xs arbitrary: c) (auto intro: order_trans [OF fold_min_le])

lemma fold_min_cases:
  "fold (\<lambda>x c. min c (f x)) xs (c :: u64) = c \<or> fold (\<lambda>x c. min c (f x)) xs c \<in> f ` set xs"
proof (induction xs arbitrary: c)
  case Nil
  then show ?case by simp
next
  case (Cons x xs)
  show ?case using Cons.IH [of "min c (f x)"] by (auto simp: min_def split: if_splits)
qed

lemma completedPrefixCursor_le_next: "completedPrefixCursor p \<le> wp_next p"
  unfolding completedPrefixCursor_def by (rule order_trans [OF fold_min_le fold_min_le])

lemma completedPrefixCursor_le_start:
  "u \<in> set (outstanding p) \<Longrightarrow> completedPrefixCursor p \<le> wu_start u"
  unfolding completedPrefixCursor_def outstanding_def
  by (auto intro: fold_min_le_elem order_trans [OF fold_min_le fold_min_le_elem])

lemma completedPrefixCursor_cases:
  "completedPrefixCursor p = wp_next p \<or> completedPrefixCursor p \<in> wu_start ` set (outstanding p)"
  using fold_min_cases [of wu_start "returned p"
      "fold (\<lambda>cw c. min c (wu_start (co_unit cw))) (in_flight p) (wp_next p)"]
    fold_min_cases [of "\<lambda>cw. wu_start (co_unit cw)" "in_flight p" "wp_next p"]
  by (auto simp: completedPrefixCursor_def outstanding_def)

lemma owners_below_starts:
  "(\<And>u. u \<in> set us \<Longrightarrow> i < unat (wu_start u)) \<Longrightarrow> owners i us = 0"
  by (induction us) (force simp: span_def)+

lemma completed_prefix_below:
  assumes "pool_inv a0 n (p, d)"
  shows "{a0 ..< unat (completedPrefixCursor p)} \<subseteq> d"
proof
  fix i assume i: "i \<in> {a0 ..< unat (completedPrefixCursor p)}"
  have "i < unat (wu_start u)" if "u \<in> set (outstanding p)" for u
    using completedPrefixCursor_le_start [OF that] i by (simp add: word_le_nat_alt)
  then have "owners i (outstanding p) = 0" by (rule owners_below_starts)
  moreover have "a0 \<le> i \<and> i < unat (wp_next p)"
    using i completedPrefixCursor_le_next [of p] by (simp add: word_le_nat_alt)
  ultimately show "i \<in> d" using pool_inv_owner [OF assms, of i] by (simp split: if_splits)
qed

lemma finite_finished: "pool_inv a0 n (p, d) \<Longrightarrow> d \<subseteq> {a0 ..< unat (wp_next p)}"
  by (force simp: pool_inv_def split: if_splits)

lemma sum_owners:
  "(\<And>u. u \<in> set us \<Longrightarrow> span u \<subseteq> {lo..<hi}) \<Longrightarrow>
     (\<Sum>i\<in>{lo..<hi}. owners i us) = sum_list (map (\<lambda>u. unat (wu_count u)) us)"
proof (induction us)
  case Nil
  then show ?case by simp
next
  case (Cons u us)
  have "(\<Sum>i\<in>{lo..<hi}. if i \<in> span u then 1 else 0 :: nat) = card (span u)"
    using Cons.prems [of u] by (simp add: sum.If_cases Int_absorb1)
  with Cons show ?case by (simp add: sum.distrib span_def)
qed

lemma sum_list_words_exact:
  "sum_list (map (\<lambda>x. unat (f x)) xs) < 2 ^ 64 \<Longrightarrow>
     unat (sum_list (map f xs) :: u64) = sum_list (map (\<lambda>x. unat (f x)) xs)"
  by (induction xs) (simp_all add: unat_add_exact)

text \<open>The unsigned counters, read as numbers: nothing wraps in a reachable pool.\<close>

lemma pool_counts:
  assumes inv: "pool_inv a0 n (p, d)"
  shows "sum_list (map (\<lambda>u. unat (wu_count u)) (outstanding p)) + card d
           = unat (wp_next p) - a0"
proof -
  let ?I = "{a0 ..< unat (wp_next p)}"
  have sub: "span u \<subseteq> ?I" if "u \<in> set (outstanding p)" for u
    using pool_inv_unit_ok [OF inv that] by (auto simp: span_def unit_ok_def)
  have "d \<subseteq> ?I" by (rule finite_finished [OF inv])
  then have "(\<Sum>i\<in>?I. if i \<in> d then 1 else 0 :: nat) = card d"
    by (simp add: sum.If_cases Int_absorb1)
  moreover have "(\<Sum>i\<in>?I. owners i (outstanding p) + (if i \<in> d then 1 else 0)) = card ?I"
    using inv by (simp add: pool_inv_def)
  ultimately show ?thesis
    using sum_owners [OF sub] by (simp add: sum.distrib)
qed

text \<open>
  A run used by the witnesses: ten a-values from index 2; worker 1 takes [2,6), worker 2 takes
  [6,9) and completes it, then worker 1's chunk is recalled after one a-value.
\<close>

definition example_pool :: work_pool where
  "example_pool =
     \<lparr>wp_next = 9, wp_end = 12, unit_size = 64, next_chunk_id = 2, in_flight = [],
      returned = [\<lparr>wu_start = 3, wu_count = 3\<rparr>]\<rparr>"

lemma example_run:
  "reachable (fresh_pool 2 10) pool_step (example_pool, {6 ..< 9} \<union> {2 ..< 3})"
proof -
  let ?p0 = "WorkPool 2 10 64"
  let ?p1 = "snd (checkoutWork 0 4 1 ?p0)"
  let ?p2 = "snd (checkoutWork 0 3 2 ?p1)"
  let ?p3 = "completeChunk 1 ?p2"
  have "fresh_pool 2 10 (?p0, {})" by (auto simp: fresh_pool_def)
  then have "reachable (fresh_pool 2 10) pool_step (?p0, {})" by (rule reach_init)
  then have "reachable (fresh_pool 2 10) pool_step (?p1, {})"
    by (rule reach_step) (rule step_checkout)
  then have "reachable (fresh_pool 2 10) pool_step (?p2, {})"
    by (rule reach_step) (rule step_checkout)
  then have "reachable (fresh_pool 2 10) pool_step (?p3, {} \<union> finished_by_complete 1 ?p2)"
    by (rule reach_step) (rule step_complete)
  then have "reachable (fresh_pool 2 10) pool_step
      (reclaimPartial 0 1 ?p3, {} \<union> finished_by_complete 1 ?p2 \<union> finished_by_partial 0 1 ?p3)"
    by (rule reach_step) (rule step_partial)
  moreover have "finished_by_complete 1 ?p2 = {6 ..< 9}"
    by (simp add: finished_by_complete_def checkoutWork_def WorkPool_def span_def min_def Let_def)
  moreover have "finished_by_partial 0 1 ?p3 = {2 ..< 3}"
    by (simp add: finished_by_partial_def completeChunk_def checkoutWork_def WorkPool_def
        span_def min_def Let_def)
  moreover have "reclaimPartial 0 1 ?p3 = example_pool"
    by (simp add: reclaimPartial_def completeChunk_def checkoutWork_def WorkPool_def
        example_pool_def min_def Let_def)
  ultimately show ?thesis by simp
qed

lemma sum_list_butlast_last:
  "xs \<noteq> [] \<Longrightarrow>
     sum_list (map f xs) = sum_list (map f (butlast xs)) + (f (last xs) :: 'a::comm_monoid_add)"
  by (induction xs rule: rev_induct) auto

lemma remaining_after_linear:
  assumes "wp_next p \<le> wp_end p" and "k = min cnt (wp_end p - wp_next p)"
  shows "(if wp_next p + k < wp_end p then wp_end p - (wp_next p + k) else 0)
       = wp_end p - wp_next p - k"
proof (cases "wp_next p + k < wp_end p")
  case True
  then show ?thesis by simp
next
  case False
  then have "wp_next p + k = wp_end p"
    using linear_checkout_arith [OF assms] by (simp add: word_less_nat_alt word_unat_eq_iff)
  then show ?thesis using False by (simp add: algebra_simps)
qed

section \<open>Properties\<close>

text \<open>C2: in every state the pool can reach, each a-value index below the cursor has exactly
  one owner: it is finished and in no outstanding range, or it is in exactly one range that is
  in flight or returned. No index at or above the cursor is owned. So no a-value is lost and
  none is handed out twice, whatever the interleaving of checkouts, completions, failed sends,
  recalls and worker deaths.\<close>

theorem work_pool_partition:
  assumes "reachable (fresh_pool a_start total_a) pool_step (p, finished)"
  shows "owners i (outstanding p) + (if i \<in> finished then 1 else 0)
       = (if unat a_start \<le> i \<and> i < unat (wp_next p) then 1 else 0)"
  using pool.reachable_inv [OF assms] by (simp add: pool_inv_def)

theorem work_pool_partition_witness:
  "owners 4 (outstanding example_pool) + (if 4 \<in> {6 ..< 9} \<union> {2 ..< 3 :: nat} then 1 else 0)
     = (1 :: nat)"
  using work_pool_partition [OF example_run, of 4] by (simp add: example_pool_def)

text \<open>C3: the cursor a coordinator checkpoint stores is safe and as large as it can be: every
  a-value index from the pool's start up to \<^verbatim>\<open>completedPrefixCursor()\<close> is finished, the cursor
  is not beyond the linear cursor, and when it is below the linear cursor and no outstanding
  range is empty, the index at the cursor itself is not finished.\<close>

theorem completed_prefix_cursor_exact:
  assumes "reachable (fresh_pool a_start total_a) pool_step (p, finished)"
  shows "{unat a_start ..< unat (completedPrefixCursor p)} \<subseteq> finished
       \<and> a_start \<le> completedPrefixCursor p \<and> completedPrefixCursor p \<le> wp_next p
       \<and> (completedPrefixCursor p \<noteq> wp_next p \<and> (\<forall>u\<in>set (outstanding p). wu_count u \<noteq> 0)
           \<longrightarrow> unat (completedPrefixCursor p) \<notin> finished)"
proof (intro conjI impI)
  note inv = pool.reachable_inv [OF assms]
  show le: "completedPrefixCursor p \<le> wp_next p" by (rule completedPrefixCursor_le_next)
  show "a_start \<le> completedPrefixCursor p"
    using completedPrefixCursor_cases [of p] inv pool_inv_unit_ok [OF inv]
    by (auto simp: pool_inv_def unit_ok_def word_le_nat_alt)
  show "{unat a_start ..< unat (completedPrefixCursor p)} \<subseteq> finished"
    by (rule completed_prefix_below [OF inv])
next
  note inv = pool.reachable_inv [OF assms]
  assume h: "completedPrefixCursor p \<noteq> wp_next p \<and> (\<forall>u\<in>set (outstanding p). wu_count u \<noteq> 0)"
  then obtain u where u: "u \<in> set (outstanding p)" "completedPrefixCursor p = wu_start u"
    using completedPrefixCursor_cases [of p] by auto
  with h have "unat (wu_start u) \<in> span u" by (auto simp: span_def unat_gt_0)
  then have "1 \<le> owners (unat (completedPrefixCursor p)) (outstanding p)"
    using owners_pos [OF u(1), of "unat (wu_start u)"] u(2) by simp
  then show "unat (completedPrefixCursor p) \<notin> finished"
    using pool_inv_owner_le [OF inv, of "unat (completedPrefixCursor p)"] by (auto split: if_splits)
qed

theorem completed_prefix_cursor_exact_witness:
  "unat (completedPrefixCursor example_pool) = 3
     \<and> {2 ..< 3} \<subseteq> {6 ..< 9} \<union> {2 ..< 3 :: nat} \<and> 3 \<notin> {6 ..< 9} \<union> {2 ..< 3 :: nat}"
proof -
  have "completedPrefixCursor example_pool = 3"
    by (simp add: completedPrefixCursor_def example_pool_def min_def)
  with completed_prefix_cursor_exact [OF example_run] show ?thesis
    by (simp add: example_pool_def outstanding_def)
qed

text \<open>Resuming from a checkpoint never skips work. A fresh pool accepts the stored prefix
  cursor (the asserts of \<^verbatim>\<open>setCursor\<close> hold), and every a-value index of the original pool that
  was not finished at the checkpoint lies in the range the resumed pool will hand out.\<close>

theorem resume_covers_unfinished:
  assumes "reachable (fresh_pool a_start total_a) pool_step (p, finished)"
  shows "\<exists>q. setCursor (completedPrefixCursor p) (WorkPool a_start total_a usize) = Some q
       \<and> {unat a_start ..< unat a_start + unat total_a} - finished
           \<subseteq> {unat (wp_next q) ..< unat (wp_end q)}"
proof -
  note inv = pool.reachable_inv [OF assms]
  have end_eq: "wp_end p = a_start + total_a"
  proof -
    have "reachable (fresh_pool a_start total_a) pool_step l \<Longrightarrow>
        wp_end (fst l) = a_start + total_a" for l
      by (induction rule: reachable.induct)
        (auto simp: fresh_pool_def WorkPool_def checkoutWork_def completeChunk_def returnChunk_def
          reclaimWork_def reclaim_loop_spec reclaimPartial_def Let_def
          elim!: pool_step.cases split: option.splits)
    from this [OF assms] show ?thesis by simp
  qed
  have ex: "{unat a_start ..< unat (completedPrefixCursor p)} \<subseteq> finished"
    "completedPrefixCursor p \<le> wp_end p"
    using completed_prefix_below [OF inv] completedPrefixCursor_le_next [of p] inv
    by (auto simp: pool_inv_def word_le_nat_alt)
  have "unat (wp_end p) = unat a_start + unat total_a" using inv by (simp add: pool_inv_def)
  with ex end_eq show ?thesis
    by (auto simp: setCursor_def WorkPool_def not_less)
qed

theorem resume_covers_unfinished_witness:
  "\<exists>q. setCursor 3 (WorkPool 2 10 64) = Some q
     \<and> {2 ..< 12} - ({6 ..< 9} \<union> {2 ..< 3}) \<subseteq> {unat (wp_next q) ..< unat (wp_end q)}"
proof -
  have "completedPrefixCursor example_pool = 3"
    by (simp add: completedPrefixCursor_def example_pool_def min_def)
  with resume_covers_unfinished [OF example_run, of 64] show ?thesis by simp
qed

text \<open>C4: the counters add up and never wrap: in every reachable state the a-values remaining,
  the a-values in flight and the finished ones are exactly the pool's size, as numbers.\<close>

theorem work_pool_conservation:
  assumes "reachable (fresh_pool a_start total_a) pool_step (p, finished)"
  shows "unat (remaining p) + unat (inFlight p) + card finished = unat total_a"
proof -
  note inv = pool.reachable_inv [OF assms]
  let ?r = "sum_list (map (\<lambda>u. unat (wu_count u)) (returned p))"
  let ?f = "sum_list (map (\<lambda>c. unat (wu_count (co_unit c))) (in_flight p))"
  have cnt: "?f + ?r + card finished = unat (wp_next p) - unat a_start"
    using pool_counts [OF inv] by (simp add: outstanding_def o_def)
  have bnd: "unat (wp_next p) \<le> unat (wp_end p)" "unat a_start \<le> unat (wp_next p)"
    and en: "unat (wp_end p) = unat a_start + unat total_a" using inv by (auto simp: pool_inv_def)
  have f: "unat (inFlight p) = ?f"
    unfolding inFlight_def by (rule sum_list_words_exact)
      (rule le_less_trans [of _ "unat (wp_next p)"], use cnt in simp_all)
  have r: "unat (sum_list (map wu_count (returned p))) = ?r"
    by (rule sum_list_words_exact) (rule le_less_trans [of _ "unat (wp_next p)"], use cnt in simp_all)
  have lin: "unat (if wp_next p < wp_end p then wp_end p - wp_next p else 0)
      = unat (wp_end p) - unat (wp_next p)"
    using bnd unat_sub_exact [of "wp_next p" "wp_end p"]
    by (auto simp: word_less_nat_alt word_le_nat_alt)
  have "unat (remaining p) = unat (wp_end p) - unat (wp_next p) + ?r"
    unfolding remaining_def Let_def
    by (subst unat_add_exact)
      (use lin r cnt bnd unsigned_less [of "wp_end p"] in
        \<open>simp_all add: le_less_trans [of _ "unat (wp_end p)"]\<close>)
  with f cnt bnd en show ?thesis by simp
qed

theorem work_pool_conservation_witness:
  "unat (remaining example_pool) + unat (inFlight example_pool)
     + card ({6 ..< 9} \<union> {2 ..< 3 :: nat}) = 10"
  using work_pool_conservation [OF example_run] by simp

text \<open>The contract of a checkout. It fails exactly when the pool is exhausted, and then
  changes nothing. Otherwise the chunk carries the next chunk id and the caller's worker id, is
  never larger than requested, is appended to the in-flight list, and the in-flight total grows
  by exactly what the remaining total loses.\<close>

theorem checkoutWork_contract:
  "(case checkoutWork now cnt wid p of
      (None, q) \<Rightarrow> exhausted p \<and> q = p
    | (Some cw, q) \<Rightarrow>
        \<not> exhausted p \<and> chunk_id cw = next_chunk_id p \<and> worker_id cw = wid
        \<and> wu_count (co_unit cw) \<le> cnt
        \<and> in_flight q = in_flight p @ [cw] \<and> next_chunk_id q = next_chunk_id p + 1
        \<and> inFlight q = inFlight p + wu_count (co_unit cw)
        \<and> remaining q = remaining p - wu_count (co_unit cw))"
proof (cases "returned p = []")
  case False
  with sum_list_butlast_last [OF False, of wu_count] show ?thesis
    by (auto simp: checkoutWork_def Let_def exhausted_def inFlight_def remaining_def not_less)
next
  case True
  define k where "k = min cnt (wp_end p - wp_next p)"
  have kle: "k \<le> cnt" by (simp add: k_def)
  have "remaining (p\<lparr>wp_next := wp_next p + k\<rparr>) = remaining p - k" if "wp_next p < wp_end p"
    using remaining_after_linear [OF order.strict_implies_order [OF that] k_def] that True
    by (auto simp: remaining_def split: if_splits)
  with True show ?thesis
    by (auto simp: checkoutWork_def Let_def exhausted_def inFlight_def remaining_def
        simp flip: k_def intro: kle)
qed

text \<open>When a worker dies, reclaiming its work returns everything it held and nothing else:
  the reported number is what was in flight for it, afterwards nothing is, every other worker's
  share is untouched, and the a-values move from the in-flight total to the remaining total.\<close>

theorem reclaimWork_contract:
  "(case reclaimWork wid p of (n, q) \<Rightarrow>
      n = inFlightFor wid p \<and> inFlightFor wid q = 0
      \<and> (w \<noteq> wid \<longrightarrow> inFlightFor w q = inFlightFor w p)
      \<and> remaining q = remaining p + n \<and> inFlight q = inFlight p - n
      \<and> wp_next q = wp_next p)"
proof -
  have "sum_list (map f (filter P cs)) + sum_list (map f (filter (\<lambda>c. \<not> P c) cs))
      = sum_list (map f cs)" for f :: "checked_out_work \<Rightarrow> u64" and P cs
    by (induction cs) (auto simp: algebra_simps)
  from this [of "\<lambda>c. wu_count (co_unit c)" "\<lambda>c. worker_id c = wid" "in_flight p"]
  show ?thesis
    by (auto simp: reclaimWork_def reclaim_loop_spec inFlightFor_def inFlight_def remaining_def
        o_def algebra_simps intro!: arg_cong [where f = "\<lambda>xs. sum_list (map _ xs)"] filter_cong)
qed

theorem reclaimWork_contract_witness:
  "(case reclaimWork 1 (snd (checkoutWork 0 4 1 (WorkPool 2 10 64))) of (n, q) \<Rightarrow>
      n = 4 \<and> inFlightFor 1 q = 0 \<and> inFlightFor 2 q = 0)"
  using reclaimWork_contract [of 1 "snd (checkoutWork 0 4 1 (WorkPool 2 10 64))" 2]
  by (simp add: inFlightFor_def checkoutWork_def WorkPool_def min_def Let_def split: prod.splits)

end
