(* ===== verification/Chunk_Scheduler.thy ===== *)
theory Chunk_Scheduler
  imports Prelude
begin

text \<open>
  The adaptive chunk scheduler, \<^verbatim>\<open>src/cluster/chunk_scheduler.h\<close> and
  \<^verbatim>\<open>src/cluster/chunk_scheduler.cpp\<close>: the initial split of the a-value space into one
  contiguous range per node, and the size of the next overflow chunk from the observed
  throughput of the workers.

  A \<^verbatim>\<open>double\<close> is a rational number; the rounding of each floating-point operation and the
  conversion to \<^verbatim>\<open>uint64_t\<close> belong to the machine and are the two components of the
  \<open>float_env\<close> every definition that computes with them takes. Integer arithmetic is kept at its
  width, so it wraps where the C++ arithmetic wraps.
\<close>

section \<open>State and operations\<close>

datatype init_balance_mode = SM_COUNT | MANUAL

record worker_throughput =
  rels_per_sec :: rat
  a_vals_per_sec :: rat
  chunks_completed :: u32
  total_rels :: u64
  total_a_vals :: u64

definition empty_throughput :: worker_throughput where
  "empty_throughput = \<lparr>rels_per_sec = 0, a_vals_per_sec = 0, chunks_completed = 0,
     total_rels = 0, total_a_vals = 0\<rparr>"

definition update_throughput ::
    "float_env \<Rightarrow> u64 \<Rightarrow> u64 \<Rightarrow> rat \<Rightarrow> rat \<Rightarrow> worker_throughput \<Rightarrow> worker_throughput" where
  "update_throughput F rels a_vals elapsed_s alpha t =
     (if elapsed_s \<le> 0 then t
      else
        let srps = fl F (fl F (of_u64 rels) / elapsed_s);
            saps = fl F (fl F (of_u64 a_vals) / elapsed_s);
            ema = (\<lambda>x old. fl F (fl F (alpha * x) + fl F (fl F (1 - alpha) * old)))
        in t\<lparr>rels_per_sec :=
               (if chunks_completed t = 0 then srps else ema srps (rels_per_sec t)),
             a_vals_per_sec :=
               (if chunks_completed t = 0 then saps else ema saps (a_vals_per_sec t)),
             chunks_completed := chunks_completed t + 1,
             total_rels := total_rels t + rels,
             total_a_vals := total_a_vals t + a_vals\<rparr>)"

text \<open>
  The scheduler. The \<^verbatim>\<open>unordered_map\<close> of throughputs is an association list in its iteration
  order. \<open>cap_windows\<close> is the value the process parsed once from the environment variable
  \<^verbatim>\<open>MPQS_DEBUG_MAX_CHUNK_WINDOWS\<close>; 0 is the default, disabled.
\<close>

record chunk_scheduler =
  num_workers :: u32
  total_a :: u64
  hyper :: u32
  quantum :: u32
  init_mode :: init_balance_mode
  throughputs :: "(u8 \<times> worker_throughput) list"
  cap_windows :: u64

definition ChunkScheduler :: "u64 \<Rightarrow> u32 \<Rightarrow> u64 \<Rightarrow> u32 \<Rightarrow> u32 \<Rightarrow> chunk_scheduler" where
  "ChunkScheduler cap nw ta hypercube_size q =
     \<lparr>num_workers = nw, total_a = ta, hyper = hypercube_size, quantum = q, init_mode = SM_COUNT,
      throughputs = [],
      cap_windows = cap\<rparr>"

definition setInitialMode :: "init_balance_mode \<Rightarrow> chunk_scheduler \<Rightarrow> chunk_scheduler" where
  "setInitialMode m s = s\<lparr>init_mode := m\<rparr>"

definition initialMode :: "chunk_scheduler \<Rightarrow> init_balance_mode" where
  "initialMode s = init_mode s"

text \<open>The rounding step the sources repeat: up to the next multiple, in 64-bit arithmetic.\<close>

definition round_up :: "u64 \<Rightarrow> u64 \<Rightarrow> u64" where
  "round_up m x = ((x + m - 1) div m) * m"

definition roundToQuantum :: "chunk_scheduler \<Rightarrow> u64 \<Rightarrow> u64" where
  "roundToQuantum s x = (if quantum s \<le> 1 then x else round_up (ucast (quantum s)) x)"

definition alignToHypercube :: "chunk_scheduler \<Rightarrow> u64 \<Rightarrow> u64" where
  "alignToHypercube s x = (if hyper s = 0 then x else round_up (ucast (hyper s)) x)"

definition applyDebugWindowCap :: "chunk_scheduler \<Rightarrow> u64 \<Rightarrow> u64" where
  "applyDebugWindowCap s x =
     (if cap_windows s = 0 then x
      else min x (cap_windows s * (if hyper s > 0 then ucast (hyper s) else 1)))"

definition kMinChunkFallback :: u64 where
  "kMinChunkFallback = 16"

definition kCalibrationChunks :: nat where
  "kCalibrationChunks = 2"

definition minChunk :: "chunk_scheduler \<Rightarrow> u64" where
  "minChunk s = max (max (ucast (hyper s)) (4 * ucast (quantum s))) kMinChunkFallback"

definition maxChunk :: "chunk_scheduler \<Rightarrow> u64" where
  "maxChunk s =
     (let divisor = 2 * (ucast (num_workers s) + 1)
      in max (minChunk s) (if divisor > 0 then total_a s div divisor else total_a s))"

definition baseChunk :: "chunk_scheduler \<Rightarrow> u64" where
  "baseChunk s =
     (let divisor = 10 * (ucast (num_workers s) + 1);
          base = (if divisor > 0 then total_a s div divisor else total_a s)
      in max (minChunk s) (min base (maxChunk s)))"

fun upsert_throughput ::
    "u8 \<Rightarrow> (worker_throughput \<Rightarrow> worker_throughput) \<Rightarrow> (u8 \<times> worker_throughput) list
      \<Rightarrow> (u8 \<times> worker_throughput) list" where
  "upsert_throughput w f [] = [(w, f empty_throughput)]"
| "upsert_throughput w f ((v, t) # ts) =
     (if v = w then (v, f t) # ts else (v, t) # upsert_throughput w f ts)"

definition kEmaAlpha :: rat where
  "kEmaAlpha = 3 / 10"

definition recordCompletion ::
    "float_env \<Rightarrow> u8 \<Rightarrow> u64 \<Rightarrow> u64 \<Rightarrow> rat \<Rightarrow> chunk_scheduler \<Rightarrow> chunk_scheduler" where
  "recordCompletion F wid rels a_vals elapsed_s s =
     s\<lparr>throughputs :=
        upsert_throughput wid (update_throughput F rels a_vals elapsed_s (fl F kEmaAlpha))
          (throughputs s)\<rparr>"

definition throughput :: "chunk_scheduler \<Rightarrow> u8 \<Rightarrow> worker_throughput" where
  "throughput s wid =
     (case map_of (throughputs s) wid of Some t \<Rightarrow> t | None \<Rightarrow> empty_throughput)"

fun sum_calibrated ::
    "float_env \<Rightarrow> (u8 \<times> worker_throughput) list \<Rightarrow> rat \<Rightarrow> u32 \<Rightarrow> rat \<times> u32" where
  "sum_calibrated F [] aps n = (aps, n)"
| "sum_calibrated F ((_, t) # ts) aps n =
     (if unat (chunks_completed t) \<ge> kCalibrationChunks
      then sum_calibrated F ts (fl F (aps + a_vals_per_sec t)) (n + 1)
      else sum_calibrated F ts aps n)"

definition clamp :: "u64 \<Rightarrow> u64 \<Rightarrow> u64 \<Rightarrow> u64" where
  "clamp x lo hi = (if x < lo then lo else if hi < x then hi else x)"

definition nextChunkSize :: "float_env \<Rightarrow> chunk_scheduler \<Rightarrow> u8 \<Rightarrow> u64" where
  "nextChunkSize F s wid =
     (case map_of (throughputs s) wid of
        None \<Rightarrow> applyDebugWindowCap s (baseChunk s)
      | Some t \<Rightarrow>
          if unat (chunks_completed t) < kCalibrationChunks
          then applyDebugWindowCap s (baseChunk s)
          else
            let (total_aps, n) = sum_calibrated F (throughputs s) 0 0;
                mean_aps = (if n > 0 then fl F (total_aps / of_nat (unat n)) else 1);
                ratio = (if mean_aps > 0 then fl F (a_vals_per_sec t / mean_aps) else 1);
                confidence = min 1 (fl F (of_nat (unat (chunks_completed t)) / 4));
                sz = d2u F (fl F (fl F (fl F (of_u64 (baseChunk s)) * ratio) * confidence));
                aligned = roundToQuantum s (alignToHypercube s sz)
            in applyDebugWindowCap s (clamp aligned (minChunk s) (maxChunk s)))"

section \<open>Contiguous ranges\<close>

record contiguous_range =
  node_id :: u8
  cr_start :: u64
  cr_count :: u64

definition window_estimate :: "u32 \<Rightarrow> u32 \<Rightarrow> u32 \<Rightarrow> u64" where
  "window_estimate num_nodes target_rels H =
     max (4 * ucast num_nodes)
       (((ucast target_rels + ucast (5 * H) - 1) div ucast (5 * H)) * 2)"

text \<open>The body of both loops after the number of windows of the node is known.\<close>

definition range_count ::
    "float_env \<Rightarrow> chunk_scheduler \<Rightarrow> u32 \<Rightarrow> u32 \<Rightarrow> rat \<Rightarrow> u64 \<Rightarrow> u64 \<Rightarrow> u64" where
  "range_count F s H Q headroom_pct max_count windows =
     (let cnt0 = windows * ucast H;
          cnt1 =
            (if headroom_pct > 0 then
               let extended = d2u F (of_int \<lceil>fl F (fl F (of_u64 cnt0) * fl F (1 + fl F (headroom_pct / 100)))\<rceil>);
                   c1 = round_up (ucast H) extended;
                   c2 = (if Q > 1 then round_up (ucast Q) c1 else c1)
               in if c2 > max_count then
                    let c3 = (max_count div ucast H) * ucast H
                    in if Q > 1 then (c3 div ucast Q) * ucast Q else c3
                  else c2
             else if Q > 1 then round_up (ucast Q) cnt0 else cnt0)
      in applyDebugWindowCap s cnt1)"

fun assign_ranges :: "nat \<Rightarrow> u64 \<Rightarrow> u64 list \<Rightarrow> contiguous_range list" where
  "assign_ranges i cursor [] = []"
| "assign_ranges i cursor (c # cs) =
     \<lparr>node_id = of_nat i, cr_start = cursor, cr_count = c\<rparr> # assign_ranges (Suc i) (cursor + c) cs"

definition sm_windows :: "u64 \<Rightarrow> u32 \<Rightarrow> u32 \<Rightarrow> u64" where
  "sm_windows w_est s_total sm =
     (let w = (w_est * ucast sm + ucast s_total - 1) div ucast s_total
      in if w = 0 then 1 else w)"

definition computeContiguousRanges ::
    "float_env \<Rightarrow> chunk_scheduler \<Rightarrow> u32 list \<Rightarrow> u32 \<Rightarrow> u32 \<Rightarrow> u32 \<Rightarrow> rat
      \<Rightarrow> contiguous_range list" where
  "computeContiguousRanges F s sm_counts target_rels H Q headroom_pct =
     (let num_nodes = (of_nat (length sm_counts) :: u32)
      in if num_nodes = 0 \<or> H = 0 then []
         else
           let w_est = window_estimate num_nodes target_rels H;
               total = sum_list sm_counts;
               s_total = (if total = 0 then num_nodes else total);
               max_count = 2 * w_est * ucast H
           in assign_ranges 0 0
                (map (\<lambda>sm. range_count F s H Q headroom_pct max_count (sm_windows w_est s_total sm))
                  sm_counts))"

definition computeContiguousRanges_weighted ::
    "float_env \<Rightarrow> chunk_scheduler \<Rightarrow> rat list \<Rightarrow> u32 \<Rightarrow> u32 \<Rightarrow> u32 \<Rightarrow> rat
      \<Rightarrow> contiguous_range list" where
  "computeContiguousRanges_weighted F s weights target_rels H Q headroom_pct =
     (let num_nodes = (of_nat (length weights) :: u32)
      in if num_nodes = 0 \<or> H = 0 then []
         else
           let t_total = fold (\<lambda>t acc. fl F (acc + t)) weights 0
           in if t_total \<le> 0
              then computeContiguousRanges F s (replicate (length weights) 1) target_rels H Q headroom_pct
              else
                let w_est = window_estimate num_nodes target_rels H;
                    max_count = 2 * w_est * ucast H
                in assign_ranges 0 0
                     (map (\<lambda>t. range_count F s H Q headroom_pct max_count
                         (max 1 (d2u F (of_int \<lceil>fl F (fl F (of_u64 w_est) * fl F (t / t_total))\<rceil>))))
                       weights))"

section \<open>Ranges are laid out end to end\<close>

lemma length_assign_ranges [simp]: "length (assign_ranges i c cs) = length cs"
  by (induction i c cs rule: assign_ranges.induct) auto

lemma assign_ranges_nth:
  "k < length cs \<Longrightarrow>
     assign_ranges i c cs ! k
       = \<lparr>node_id = of_nat (i + k), cr_start = c + sum_list (take k cs), cr_count = cs ! k\<rparr>"
proof (induction i c cs arbitrary: k rule: assign_ranges.induct)
  case (1 i cursor)
  then show ?case by simp
next
  case (2 i cursor c cs)
  then show ?case by (cases k) (simp_all add: add.assoc)
qed

lemma map_count_assign_ranges [simp]: "map cr_count (assign_ranges i c cs) = cs"
  by (induction i c cs rule: assign_ranges.induct) auto

lemma both_overloads_assign:
  "\<exists>cs. computeContiguousRanges F s sm tgt H Q hp = assign_ranges 0 0 cs"
  "\<exists>cs. computeContiguousRanges_weighted F s ws tgt H Q hp = assign_ranges 0 0 cs"
  by (auto simp: computeContiguousRanges_def computeContiguousRanges_weighted_def Let_def
      intro: exI [of _ "[]"])

section \<open>Rounding and the proportional split\<close>

lemma ceil_div_nat_ge: "0 < (s::nat) \<Longrightarrow> x \<le> ((x + s - 1) div s) * s"
proof -
  assume s: "0 < s"
  have "(x + s - 1) div s * s + (x + s - 1) mod s = x + s - 1" by (rule div_mult_mod_eq)
  moreover have "(x + s - 1) mod s < s" using s by simp
  ultimately show ?thesis by linarith
qed

lemma unat_round_up:
  assumes m: "m \<noteq> 0" and no: "unat x + unat m < 2 ^ 64"
  shows "unat (round_up m x) = ((unat x + unat m - 1) div unat m) * unat m"
    and "unat x \<le> unat (round_up m x)"
    and "m dvd round_up m x"
proof -
  have pos: "0 < unat m" using m by (simp add: unat_gt_0)
  have a: "unat (x + m - 1) = unat x + unat m - 1"
    using unat_add_exact [of x m] no pos
    by (simp add: unat_sub_exact word_le_nat_alt)
  have b: "unat ((x + m - 1) div m) = (unat x + unat m - 1) div unat m"
    by (simp add: unat_div a)
  have c: "unat ((x + m - 1) div m) * unat m < 2 ^ LENGTH(64)"
    unfolding b by (rule le_less_trans [OF div_times_less_eq_dividend]) (use no in simp)
  show d: "unat (round_up m x) = ((unat x + unat m - 1) div unat m) * unat m"
    unfolding round_up_def using unat_mult_exact [OF c] unfolding b .
  show "unat x \<le> unat (round_up m x)"
    unfolding d by (rule ceil_div_nat_ge [OF pos])
  show "m dvd round_up m x" unfolding round_up_def by simp
qed

lemma sum_ceil_div_ge:
  "0 < (s::nat) \<Longrightarrow> sum_list (map (\<lambda>x. w * x) xs) \<le> s * sum_list (map (\<lambda>x. (w * x + s - 1) div s) xs)"
proof (induction xs)
  case Nil
  then show ?case by simp
next
  case (Cons x xs)
  have "w * x \<le> s * ((w * x + s - 1) div s)"
    using ceil_div_nat_ge [OF Cons.prems, of "w * x"] by (simp add: mult.commute)
  with Cons show ?case by (simp add: distrib_left)
qed

lemma member_le_sum_list_nat: "x \<in> set xs \<Longrightarrow> (x::nat) \<le> sum_list xs"
  by (induction xs) auto

lemma unat_sum_list_exact:
  "sum_list (map unat xs) < 2 ^ LENGTH('a) \<Longrightarrow>
     unat (sum_list (xs :: 'a::len word list)) = sum_list (map unat xs)"
  by (induction xs) (simp_all add: unat_add_exact)

text \<open>The window count of one node, as a number: its rounded-up share, at least one.\<close>

lemma unat_sm_windows:
  assumes s: "0 < unat st" and no: "unat w * unat st + unat st < 2 ^ 64" and sm: "unat sm \<le> unat st"
  shows "unat (sm_windows w st sm) = max 1 ((unat w * unat sm + unat st - 1) div unat st)"
proof -
  have le: "unat w * unat sm \<le> unat w * unat st" using sm by (rule mult_le_mono2)
  have ust: "unat (ucast st :: u64) = unat st" and usm: "unat (ucast sm :: u64) = unat sm"
    by simp_all
  have m: "unat (w * ucast sm :: u64) = unat w * unat sm"
    by (rule unat_mult_exact [of w "ucast sm", unfolded usm])
       (rule le_less_trans [OF le], use no in simp)
  have a: "unat (w * ucast sm + ucast st :: u64) = unat w * unat sm + unat st"
  proof -
    have "unat w * unat sm + unat st < 2 ^ 64" using le no by linarith
    then show ?thesis using unat_add_exact [of "w * ucast sm" "ucast st :: u64"] by (simp add: m ust)
  qed
  have b: "unat (w * ucast sm + ucast st - 1 :: u64) = unat w * unat sm + unat st - 1"
    using unat_sub_exact [of 1 "w * ucast sm + ucast st :: u64"] s
    by (simp add: a word_le_nat_alt)
  have d: "unat ((w * ucast sm + ucast st - 1) div ucast st :: u64)
      = (unat w * unat sm + unat st - 1) div unat st"
    by (simp add: unat_div b ust)
  show ?thesis
    unfolding sm_windows_def Let_def
    using d by (auto simp: word_unat_eq_iff max_def)
qed

text \<open>The split without headroom, quantum or debug cap, as numbers.\<close>

lemma unat_range_count_plain:
  assumes "cap_windows s = 0" and "Q \<le> 1" and "unat w * unat H < 2 ^ 64"
  shows "unat (range_count F s H Q 0 mc w) = unat w * unat H"
  using assms by (auto simp: range_count_def applyDebugWindowCap_def unat_mult_exact Let_def)

lemma ceil_share_le: "0 < (s::nat) \<Longrightarrow> x \<le> s \<Longrightarrow> (w * x + s - 1) div s \<le> w"
proof -
  assume s: "0 < s" and "x \<le> s"
  then have "w * x \<le> w * s" by simp
  then have "w * x + s - 1 \<le> w * s + (s - 1)" using s by linarith
  then have "(w * x + s - 1) div s \<le> (w * s + (s - 1)) div s" by (rule div_le_mono)
  also have "\<dots> = w" using s by (subst div_mult_self3) simp_all
  finally show ?thesis .
qed

section \<open>Chunk size bounds\<close>

lemma minChunk_le_maxChunk: "minChunk s \<le> maxChunk s"
  by (simp add: maxChunk_def Let_def)

lemma clamp_bounds: "lo \<le> hi \<Longrightarrow> lo \<le> clamp x lo hi \<and> clamp x lo hi \<le> hi"
  by (auto simp: clamp_def)

lemma baseChunk_bounds: "minChunk s \<le> baseChunk s \<and> baseChunk s \<le> maxChunk s"
  using minChunk_le_maxChunk [of s] by (simp add: baseChunk_def Let_def)

section \<open>Properties of the initial split\<close>

lemma interval_index:
  fixes cs :: "nat list"
  assumes "a < sum_list cs"
  shows "\<exists>!k. k < length cs \<and> sum_list (take k cs) \<le> a \<and> a < sum_list (take k cs) + cs ! k"
  using assms
proof (induction cs arbitrary: a)
  case Nil
  then show ?case by simp
next
  case (Cons c cs)
  show ?case
  proof (cases "a < c")
    case True
    show ?thesis
    proof (rule ex1I [of _ 0])
      show "\<And>k. k < length (c # cs) \<and> sum_list (take k (c # cs)) \<le> a
          \<and> a < sum_list (take k (c # cs)) + (c # cs) ! k \<Longrightarrow> k = 0"
        using True by (case_tac k) auto
    qed (use True in simp)
  next
    case False
    then obtain k where k: "k < length cs" "sum_list (take k cs) \<le> a - c"
        "a - c < sum_list (take k cs) + cs ! k"
      and uniq: "\<And>j. j < length cs \<and> sum_list (take j cs) \<le> a - c
          \<and> a - c < sum_list (take j cs) + cs ! j \<Longrightarrow> j = k"
    proof -
      have "a - c < sum_list cs" using False Cons.prems by simp
      from Cons.IH [OF this] that show ?thesis by (elim ex1E) blast
    qed
    show ?thesis
    proof (rule ex1I [of _ "Suc k"])
      fix j
      assume j: "j < length (c # cs) \<and> sum_list (take j (c # cs)) \<le> a
          \<and> a < sum_list (take j (c # cs)) + (c # cs) ! j"
      then obtain i where i: "j = Suc i" using False by (cases j) auto
      with j False have "i = k" by (intro uniq) auto
      with i show "j = Suc k" by simp
    qed (use k False in auto)
  qed
qed

lemma sum_list_take_le: "sum_list (take k cs) \<le> (sum_list cs :: nat)"
  using sum_list_append [of "take k cs" "drop k cs"] by simp

lemma assign_ranges_owner:
  assumes "(\<Sum>c\<leftarrow>cs. unat c) < 2 ^ 64" and "a < (\<Sum>c\<leftarrow>cs. unat c)"
  shows "\<exists>!k. k < length cs
    \<and> unat (cr_start (assign_ranges 0 0 cs ! k)) \<le> a
    \<and> a < unat (cr_start (assign_ranges 0 0 cs ! k)) + unat (cr_count (assign_ranges 0 0 cs ! k))"
proof -
  have start: "unat (sum_list (take k cs)) = sum_list (take k (map unat cs))" for k
    using le_less_trans [OF sum_list_take_le [of k "map unat cs"] assms(1)]
    by (simp add: unat_sum_list_exact take_map)
  show ?thesis
    using interval_index [OF assms(2)]
    by (simp add: assign_ranges_nth start cong: conj_cong)
qed

text \<open>
  The initial ranges tile the a-value space: range \<open>k\<close> belongs to node \<open>k\<close>, and as long as
  the total number of a-values does not overflow 64 bits, every a-index below the total lies in
  the range of exactly one node, whichever of the two overloads computed the split and
  whatever the floating-point unit does.
\<close>

theorem contiguous_ranges_tile:
  assumes "rs = computeContiguousRanges F s sm tgt H Q hp
      \<or> rs = computeContiguousRanges_weighted F s ws tgt H Q hp"
    and "(\<Sum>r\<leftarrow>rs. unat (cr_count r)) < 2 ^ 64"
    and "a < (\<Sum>r\<leftarrow>rs. unat (cr_count r))"
  shows "(\<forall>k < length rs. node_id (rs ! k) = of_nat k)
    \<and> (\<exists>!k. k < length rs \<and> unat (cr_start (rs ! k)) \<le> a
          \<and> a < unat (cr_start (rs ! k)) + unat (cr_count (rs ! k)))"
proof -
  obtain cs where rs: "rs = assign_ranges 0 0 cs"
    using assms(1) both_overloads_assign by metis
  have "map (unat \<circ> cr_count) rs = map unat cs"
    unfolding rs by (simp flip: map_map)
  then have "(\<Sum>r\<leftarrow>rs. unat (cr_count r)) = (\<Sum>c\<leftarrow>cs. unat c)"
    by (simp add: comp_def)
  with assms(2,3) assign_ranges_owner [of cs a] show ?thesis
    by (simp add: rs assign_ranges_nth)
qed

lemma window_share_bounds:
  fixes w s x :: nat
  assumes "0 < s" and "x \<le> s"
  defines "t \<equiv> max 1 ((w * x + s - 1) div s)"
  shows "w * x \<le> s * t" and "s * t \<le> w * x + s" and "t \<le> w + 1"
proof -
  have d: "s * ((w * x + s - 1) div s) \<le> w * x + s - 1"
    by (simp add: mult.commute div_times_less_eq_dividend)
  then have "s * ((w * x + s - 1) div s) \<le> w * x + s" by linarith
  then show "s * t \<le> w * x + s" unfolding t_def by (auto simp: max_def)
  show "w * x \<le> s * t"
    by (rule order_trans [OF ceil_div_nat_ge [OF assms(1), of "w * x"]])
       (simp add: t_def mult.commute)
  show "t \<le> w + 1"
    using ceil_share_le [OF assms(1,2), of w] unfolding t_def by simp
qed

lemma window_shares_sum:
  fixes w s :: nat
  assumes "0 < s" and "\<forall>x \<in> set xs. x \<le> s"
  shows "w * sum_list xs \<le> s * (\<Sum>x\<leftarrow>xs. max 1 ((w * x + s - 1) div s))"
    and "s * (\<Sum>x\<leftarrow>xs. max 1 ((w * x + s - 1) div s)) \<le> w * sum_list xs + s * length xs"
  using assms(2)
proof (induction xs)
  case Nil
  { case 1 show ?case by simp }
  { case 2 show ?case by simp }
next
  case (Cons x xs)
  have x: "x \<le> s" if "\<forall>y \<in> set (x # xs). y \<le> s" using that by simp
  { case 1
    show ?case
      using Cons.IH(1) 1 window_share_bounds(1) [OF assms(1) x [OF 1], of w]
      by (simp add: distrib_left) }
  { case 2
    show ?case
      using Cons.IH(2) 2 window_share_bounds(2) [OF assms(1) x [OF 2], of w]
      by (simp add: distrib_left) }
qed

lemma plain_counts:
  assumes cap: "cap_windows s = 0" and Q: "Q \<le> 1" and st: "0 < unat st"
    and le: "\<forall>x \<in> set sm. unat x \<le> unat st"
    and fit: "unat w * unat st + unat st < 2 ^ 64" "(unat w + 1) * unat H < 2 ^ 64"
  shows "map (\<lambda>x. unat (range_count F s H Q 0 mc (sm_windows w st x))) sm
    = map (\<lambda>x. max 1 ((unat w * unat x + unat st - 1) div unat st) * unat H) sm"
proof (rule map_cong [OF refl])
  fix x assume "x \<in> set sm"
  then have x: "unat x \<le> unat st" using le by blast
  note sw = unat_sm_windows [OF st fit(1) x]
  have "unat (sm_windows w st x) * unat H \<le> (unat w + 1) * unat H"
    unfolding sw using window_share_bounds(3) [OF st x, of "unat w"] by (rule mult_le_mono1)
  with fit(2) have "unat (sm_windows w st x) * unat H < 2 ^ 64" by linarith
  from unat_range_count_plain [OF cap Q this] sw
  show "unat (range_count F s H Q 0 mc (sm_windows w st x))
      = max 1 ((unat w * unat x + unat st - 1) div unat st) * unat H"
    by simp
qed

lemma scaled_ranges:
  assumes "map unat cs = map (\<lambda>t. t * h) ts" and "\<forall>t \<in> set ts. 1 \<le> t"
  shows "(\<Sum>r\<leftarrow>assign_ranges 0 0 cs. unat (cr_count r)) = sum_list ts * h"
    and "\<forall>r \<in> set (assign_ranges 0 0 cs). h \<le> unat (cr_count r) \<and> h dvd unat (cr_count r)"
proof -
  have "map (\<lambda>r. unat (cr_count r)) (assign_ranges 0 0 cs) = map unat cs"
    by (simp only: map_map [unfolded comp_def, symmetric] map_count_assign_ranges)
  then have rc: "map (\<lambda>r. unat (cr_count r)) (assign_ranges 0 0 cs) = map (\<lambda>t. t * h) ts"
    using assms(1) by simp
  then show "(\<Sum>r\<leftarrow>assign_ranges 0 0 cs. unat (cr_count r)) = sum_list ts * h"
    by (simp add: sum_list_mult_const)
  show "\<forall>r \<in> set (assign_ranges 0 0 cs). h \<le> unat (cr_count r) \<and> h dvd unat (cr_count r)"
  proof
    fix r assume "r \<in> set (assign_ranges 0 0 cs)"
    then have "unat (cr_count r) \<in> set (map (\<lambda>r. unat (cr_count r)) (assign_ranges 0 0 cs))"
      by simp
    then obtain t where "t \<in> set ts" "unat (cr_count r) = t * h" unfolding rc by auto
    with assms(2) show "h \<le> unat (cr_count r) \<and> h dvd unat (cr_count r)" by auto
  qed
qed

lemma computeContiguousRanges_split:
  assumes "H \<noteq> 0" and "length sm < 2 ^ 32"
    and "0 < (\<Sum>x\<leftarrow>sm. unat x)" and "(\<Sum>x\<leftarrow>sm. unat x) < 2 ^ 32"
    and W: "W = window_estimate (of_nat (length sm)) tgt H"
  shows "computeContiguousRanges F s sm tgt H Q hp
    = assign_ranges 0 0
        (map (\<lambda>x. range_count F s H Q hp (2 * W * ucast H) (sm_windows W (sum_list sm) x)) sm)"
proof -
  have "unat (sum_list sm) = (\<Sum>x\<leftarrow>sm. unat x)"
    using assms(4) by (simp add: unat_sum_list_exact)
  then have "sum_list sm \<noteq> 0" using assms(3) by (metis less_irrefl unat_0)
  moreover have "0 < length sm" using assms(3) by (cases sm) auto
  then have "(of_nat (length sm) :: u32) \<noteq> 0"
    using assms(2) by (simp add: word_unat_eq_iff unat_of_nat)
  ultimately show ?thesis
    using assms(1) unfolding computeContiguousRanges_def W by (simp add: Let_def)
qed

text \<open>
  Size of the proportional split with the default headroom: every node receives at least
  one window, all counts are multiples of the hypercube size \<open>H\<close>, and the total is at least
  the estimated number of windows and exceeds it by at most one window per node.
\<close>

theorem contiguous_ranges_proportional:
  assumes H: "H \<noteq> 0" and Q: "Q \<le> 1" and cap: "cap_windows s = 0"
    and nodes: "length sm < 2 ^ 32"
    and sms: "0 < (\<Sum>x\<leftarrow>sm. unat x)" "(\<Sum>x\<leftarrow>sm. unat x) < 2 ^ 32"
    and W: "W = unat (window_estimate (of_nat (length sm)) tgt H)"
    and fit: "(W + 1) * (\<Sum>x\<leftarrow>sm. unat x) < 2 ^ 64" "(W + 1) * unat H < 2 ^ 64"
    and rs: "rs = computeContiguousRanges F s sm tgt H Q 0"
  shows "length rs = length sm
    \<and> (\<forall>r \<in> set rs. unat H \<le> unat (cr_count r) \<and> unat H dvd unat (cr_count r))
    \<and> W * unat H \<le> (\<Sum>r\<leftarrow>rs. unat (cr_count r))
    \<and> (\<Sum>r\<leftarrow>rs. unat (cr_count r)) \<le> (W + length sm) * unat H"
proof -
  define cs where "cs = map (\<lambda>x. range_count F s H Q 0
      (2 * window_estimate (of_nat (length sm)) tgt H * ucast H)
      (sm_windows (window_estimate (of_nat (length sm)) tgt H) (sum_list sm) x)) sm"
  define ts where
    "ts = map (\<lambda>x. max 1 ((W * x + unat (sum_list sm) - 1) div unat (sum_list sm))) (map unat sm)"
  have ust: "unat (sum_list sm) = (\<Sum>x\<leftarrow>sm. unat x)"
    using sms by (simp add: unat_sum_list_exact)
  have pos: "0 < unat (sum_list sm)" using ust sms(1) by simp
  have le: "\<forall>x \<in> set sm. unat x \<le> unat (sum_list sm)"
    unfolding ust by (auto intro: member_le_sum_list_nat)
  have "map unat cs = map (\<lambda>t. t * unat H) ts"
    using plain_counts [OF cap Q pos le] fit unfolding cs_def ts_def W ust
    by (simp add: comp_def algebra_simps)
  moreover have "\<forall>t \<in> set ts. 1 \<le> t" unfolding ts_def by auto
  ultimately have cs: "(\<Sum>r\<leftarrow>assign_ranges 0 0 cs. unat (cr_count r)) = sum_list ts * unat H"
      "\<forall>r \<in> set (assign_ranges 0 0 cs). unat H \<le> unat (cr_count r) \<and> unat H dvd unat (cr_count r)"
    by (fact scaled_ranges)+
  have "\<forall>x \<in> set (map unat sm). x \<le> unat (sum_list sm)" using le by simp
  from window_shares_sum [OF pos this, of W]
  have "unat (sum_list sm) * W \<le> unat (sum_list sm) * sum_list ts"
      "unat (sum_list sm) * sum_list ts \<le> unat (sum_list sm) * (W + length sm)"
    unfolding ts_def by (simp_all add: ust [symmetric] comp_def mult.commute distrib_left)
  with pos have "W \<le> sum_list ts" "sum_list ts \<le> W + length sm" by simp_all
  moreover have "rs = assign_ranges 0 0 cs"
    unfolding rs cs_def by (rule computeContiguousRanges_split [OF H nodes sms refl])
  ultimately show ?thesis
    using cs mult_le_mono1 [of W "sum_list ts" "unat H"]
      mult_le_mono1 [of "sum_list ts" "W + length sm" "unat H"]
    by (simp add: cs_def)
qed

definition example_sched :: chunk_scheduler where
  "example_sched = ChunkScheduler 0 2 100000 8 1"

lemma example_split:
  "computeContiguousRanges F example_sched [10, 20, 10] 400 8 1 0
   = [\<lparr>node_id = 0, cr_start = 0, cr_count = 40\<rparr>, \<lparr>node_id = 1, cr_start = 40, cr_count = 80\<rparr>,
      \<lparr>node_id = 2, cr_start = 120, cr_count = 40\<rparr>]"
  by (simp add: computeContiguousRanges_def example_sched_def ChunkScheduler_def range_count_def
      sm_windows_def window_estimate_def applyDebugWindowCap_def Let_def)

section \<open>Properties of the chunk size\<close>

lemma next_chunk_range:
  "nextChunkSize F s wid \<le> maxChunk s
   \<and> (cap_windows s = 0 \<longrightarrow> minChunk s \<le> nextChunkSize F s wid \<and> 16 \<le> nextChunkSize F s wid)"
proof -
  have cap: "applyDebugWindowCap s x \<le> maxChunk s
      \<and> (cap_windows s = 0 \<longrightarrow> minChunk s \<le> applyDebugWindowCap s x)"
    if "minChunk s \<le> x \<and> x \<le> maxChunk s" for x
    using that by (auto simp: applyDebugWindowCap_def min_def)
  have "nextChunkSize F s wid \<le> maxChunk s
      \<and> (cap_windows s = 0 \<longrightarrow> minChunk s \<le> nextChunkSize F s wid)"
    unfolding nextChunkSize_def Let_def
    by (auto intro!: cap [THEN conjunct1] cap [THEN conjunct2, rule_format]
        baseChunk_bounds clamp_bounds minChunk_le_maxChunk split: option.split prod.split)
  moreover have "16 \<le> minChunk s" by (simp add: minChunk_def kMinChunkFallback_def)
  ultimately show ?thesis by (auto intro: order_trans)
qed

text \<open>
  Bounds of the next chunk: whatever the measured throughputs are and however the machine
  rounds, a chunk never exceeds \<open>maxChunk\<close>; with the debug cap disabled it is at least
  \<open>minChunk\<close>, hence never empty, so the work pool is never asked for a chunk of size 0.
\<close>

theorem nextChunkSize_bounds:
  "nextChunkSize F s wid \<le> maxChunk s
   \<and> (cap_windows s = 0 \<longrightarrow> minChunk s \<le> nextChunkSize F s wid \<and> 16 \<le> nextChunkSize F s wid)"
  by (rule next_chunk_range)

theorem contiguous_ranges_tile_witness:
  "\<exists>!k. k < length (computeContiguousRanges exact_float example_sched [10, 20, 10] 400 8 1 0)
     \<and> unat (cr_start (computeContiguousRanges exact_float example_sched [10, 20, 10] 400 8 1 0 ! k)) \<le> 100
     \<and> 100 < unat (cr_start (computeContiguousRanges exact_float example_sched [10, 20, 10] 400 8 1 0 ! k))
           + unat (cr_count (computeContiguousRanges exact_float example_sched [10, 20, 10] 400 8 1 0 ! k))"
  by (rule contiguous_ranges_tile [of _ exact_float example_sched "[10, 20, 10]" 400 8 1 0 "[]" 100,
        THEN conjunct2])
     (simp_all add: example_split)

theorem contiguous_ranges_proportional_witness:
  "20 * unat (8 :: u32)
     \<le> (\<Sum>r\<leftarrow>computeContiguousRanges exact_float example_sched [10, 20, 10] 400 8 1 0. unat (cr_count r))
   \<and> (\<Sum>r\<leftarrow>computeContiguousRanges exact_float example_sched [10, 20, 10] 400 8 1 0. unat (cr_count r))
     \<le> (20 + length [10 :: u32, 20, 10]) * unat (8 :: u32)"
  by (rule contiguous_ranges_proportional [of 8 1 example_sched "[10, 20, 10]" 20 400 _ exact_float,
        OF _ _ _ _ _ _ _ _ _ refl, THEN conjunct2, THEN conjunct2])
     (simp_all add: example_sched_def ChunkScheduler_def window_estimate_def)

theorem nextChunkSize_bounds_witness:
  "cap_windows example_sched = 0 \<and> 16 \<le> nextChunkSize exact_float example_sched 1
    \<and> nextChunkSize exact_float example_sched 1 \<le> 16666"
  using nextChunkSize_bounds [of exact_float example_sched 1]
  by (simp add: example_sched_def ChunkScheduler_def maxChunk_def minChunk_def
      kMinChunkFallback_def Let_def)

section \<open>Where the split leaves its documented alignment\<close>

text \<open>
  \<open>ContiguousRange\<close> documents start and count as multiples of \<open>H\<close>. Rounding to a quantum that
  neither divides nor is divided by \<open>H\<close> breaks this: with \<open>H = 8\<close> and \<open>Q = 3\<close> the first node
  gets 42 a-values and the second starts at index 42.
\<close>

lemma contiguous_ranges_misaligned:
  "map cr_count (computeContiguousRanges F example_sched [10, 20, 10] 400 8 3 0) = [42, 81, 42]
   \<and> map cr_start (computeContiguousRanges F example_sched [10, 20, 10] 400 8 3 0) = [0, 42, 123]"
  by (simp add: computeContiguousRanges_def example_sched_def ChunkScheduler_def range_count_def
      sm_windows_def window_estimate_def applyDebugWindowCap_def round_up_def Let_def)

text \<open>
  With headroom, a quantum above the cap rounds the capped count down to nothing: the node's
  range is empty, although the code gives every node at least one window.
\<close>

lemma contiguous_range_empty:
  "map cr_count (computeContiguousRanges exact_float example_sched [10] 1 8 100 50) = [0]"
  by (simp add: computeContiguousRanges_def example_sched_def ChunkScheduler_def range_count_def
      sm_windows_def window_estimate_def applyDebugWindowCap_def round_up_def exact_float_def
      of_u64_def Let_def)

text \<open>
  If no node reports a multiprocessor count, the fallback sets the divisor to the number of
  nodes but leaves the zero counts in the dividend: every node gets one window instead of an
  equal share of the estimate (20 windows here).
\<close>

lemma zero_counts_not_split_equally:
  "map cr_count (computeContiguousRanges F example_sched [0, 0] 400 8 1 0) = [8, 8]
   \<and> window_estimate 2 400 8 = 20"
  by (simp add: computeContiguousRanges_def example_sched_def ChunkScheduler_def range_count_def
      sm_windows_def window_estimate_def applyDebugWindowCap_def Let_def)

end
