(* ===== verification/Relation_Batch.thy ===== *)
theory Relation_Batch
  imports Prelude "HOL-Library.Monad_Syntax" "HOL-Library.Multiset"
begin

unbundle bit_operations_syntax

text \<open>
  The host-side container of sieve relations, \<^verbatim>\<open>HostRelationBatch\<close> of
  \<^verbatim>\<open>src/common/mpqs_soa.h\<close> and \<^verbatim>\<open>src/common/mpqs_soa.cu\<close>, and the deduplication hash of
  \<^verbatim>\<open>src/common/relation_hash.h\<close>. A batch is a structure of arrays: one entry per relation in
  the algebra arrays, and the factors of all relations in one pair of arrays cut by
  \<open>factor_offsets\<close> (compressed sparse rows).

  A read outside an array is the value \<open>None\<close>. Two well-formedness predicates matter:
  \<open>batch_ok\<close>, enough for reading (arrays may be longer than the counter, since \<open>resize\<close>
  never shrinks), and \<open>batch_exact\<close>, what the appending operations establish. \<open>rels\<close> is the
  abstract view, the list of relations a batch stands for.
\<close>

section \<open>Data\<close>

record batch =
  sqrt_Q :: "u512 list"
  signs :: "u8 list"
  val_2_exps :: "u32 list"
  large_primes :: "u128 list"
  char_bits :: "u32 list"
  factor_offsets :: "u64 list"
  factor_indices :: "u32 list"
  factor_counts :: "u8 list"
  num_relations :: u64
  num_factors :: u64

definition empty_batch :: batch where
  "empty_batch = \<lparr>sqrt_Q = [], signs = [], val_2_exps = [], large_primes = [], char_bits = [],
     factor_offsets = [], factor_indices = [], factor_counts = [],
     num_relations = 0, num_factors = 0\<rparr>"

definition grow :: "nat \<Rightarrow> 'a::zero list \<Rightarrow> 'a list" where
  "grow n xs = (if length xs < n then xs @ replicate (n - length xs) 0 else xs)"

definition resize :: "u64 \<Rightarrow> u64 \<Rightarrow> batch \<Rightarrow> batch" where
  "resize n_rels n_factors b =
     b\<lparr>num_relations := n_rels, num_factors := n_factors,
       sqrt_Q := grow (unat n_rels) (sqrt_Q b),
       signs := grow (unat n_rels) (signs b),
       val_2_exps := grow (unat n_rels) (val_2_exps b),
       large_primes := grow (unat n_rels) (large_primes b),
       char_bits := grow (unat n_rels) (char_bits b),
       factor_offsets := grow (unat (n_rels + 1)) (factor_offsets b),
       factor_indices := grow (unat n_factors) (factor_indices b),
       factor_counts := grow (unat n_factors) (factor_counts b)\<rparr>"

definition clear :: "batch \<Rightarrow> batch" where
  "clear b = b\<lparr>num_relations := 0, num_factors := 0, sqrt_Q := [], signs := [],
     val_2_exps := [], large_primes := [], char_bits := [], factor_offsets := [],
     factor_indices := [], factor_counts := []\<rparr>"

text \<open>
  The dedup hash. \<open>int32_t\<close> values are 32-bit words, on which the multiplication by the sign
  wraps. The one overflow, a negative relation with exponent 31 of 2, is undefined in C++; the model
  gives the wrapped value there.
\<close>

definition HASH_MAGIC :: u32 where
  "HASH_MAGIC = 0x9e3779b9"

definition computeRelationHash :: "batch \<Rightarrow> nat \<Rightarrow> u64 option" where
  "computeRelationHash b i = do {
     s \<leftarrow> vec_at (factor_offsets b) i;
     e \<leftarrow> vec_at (factor_offsets b) (i + 1);
     let len = (ucast (e - s) :: u16);
     (exp_xor, body_xor) \<leftarrow>
       ofold (\<lambda>k (ex, body). do {
           c \<leftarrow> vec_at (factor_counts b) k;
           ix \<leftarrow> vec_at (factor_indices b) k;
           Some (ex XOR (ucast c :: u16), body XOR (ix * HASH_MAGIC))
         }) [unat s..<unat e] (0, 0);
     sg \<leftarrow> vec_at (signs b) i;
     v2 \<leftarrow> vec_at (val_2_exps b) i;
     let sign_val = (if sg \<noteq> 1 then - 1 else 1 :: u32);
     let shift_val = sign_val * push_bit (unat (v2 AND 0x1F)) 1;
     let body = body_xor XOR shift_val;
     Some (push_bit 48 (ucast len) OR push_bit 32 (ucast exp_xor) OR ucast body)
   }"

text \<open>
  Appending one relation of another batch (\<^verbatim>\<open>appendSingleRelation\<close>, shared by the accumulator
  and the checkpoint code).
\<close>

definition appendSingleRelation :: "batch \<Rightarrow> batch \<Rightarrow> nat \<Rightarrow> batch option" where
  "appendSingleRelation dest src idx = do {
     q \<leftarrow> vec_at (sqrt_Q src) idx;
     sg \<leftarrow> vec_at (signs src) idx;
     v2 \<leftarrow> vec_at (val_2_exps src) idx;
     lp \<leftarrow> vec_at (large_primes src) idx;
     let cb = (if idx < length (char_bits src) then char_bits src ! idx else 0);
     fstart \<leftarrow> vec_at (factor_offsets src) idx;
     fend \<leftarrow> vec_at (factor_offsets src) (idx + 1);
     (ixs, cts) \<leftarrow>
       ofold (\<lambda>f (ixs, cts). do {
           ix \<leftarrow> vec_at (factor_indices src) f;
           ct \<leftarrow> vec_at (factor_counts src) f;
           Some (ixs @ [ix], cts @ [ct])
         }) [unat fstart..<unat fend] (factor_indices dest, factor_counts dest);
     let nf = num_factors dest + (fend - fstart);
     Some (dest\<lparr>sqrt_Q := sqrt_Q dest @ [q], signs := signs dest @ [sg],
       val_2_exps := val_2_exps dest @ [v2], large_primes := large_primes dest @ [lp],
       char_bits := char_bits dest @ [cb], factor_indices := ixs, factor_counts := cts,
       num_factors := nf, factor_offsets := factor_offsets dest @ [nf],
       num_relations := num_relations dest + 1\<rparr>)
   }"

section \<open>Abstract view\<close>

record relation =
  r_sqrt_Q :: u512
  r_sign :: u8
  r_val_2_exp :: u32
  r_large_prime :: u128
  r_char_bits :: u32
  r_factors :: "(u32 \<times> u8) list"

abbreviation n_rels :: "batch \<Rightarrow> nat" where
  "n_rels b \<equiv> unat (num_relations b)"

definition row :: "batch \<Rightarrow> nat \<Rightarrow> (u32 \<times> u8) list" where
  "row b i = (let s = unat (factor_offsets b ! i); e = unat (factor_offsets b ! (i + 1))
     in zip (slice s e (factor_indices b)) (slice s e (factor_counts b)))"

definition rel_at :: "batch \<Rightarrow> nat \<Rightarrow> relation" where
  "rel_at b i = \<lparr>r_sqrt_Q = sqrt_Q b ! i, r_sign = signs b ! i,
     r_val_2_exp = val_2_exps b ! i, r_large_prime = large_primes b ! i,
     r_char_bits = (if i < length (char_bits b) then char_bits b ! i else 0),
     r_factors = row b i\<rparr>"

definition rels :: "batch \<Rightarrow> relation list" where
  "rels b = map (rel_at b) [0..<n_rels b]"

definition offsets_ok :: "batch \<Rightarrow> bool" where
  "offsets_ok b \<longleftrightarrow> n_rels b < length (factor_offsets b)
     \<and> (\<forall>i \<in> {0..<n_rels b}. factor_offsets b ! i \<le> factor_offsets b ! (i + 1)
          \<and> unat (factor_offsets b ! (i + 1)) \<le> length (factor_indices b)
          \<and> unat (factor_offsets b ! (i + 1)) \<le> length (factor_counts b))"

definition batch_ok :: "batch \<Rightarrow> bool" where
  "batch_ok b \<longleftrightarrow> n_rels b \<le> length (sqrt_Q b) \<and> n_rels b \<le> length (signs b)
     \<and> n_rels b \<le> length (val_2_exps b) \<and> n_rels b \<le> length (large_primes b) \<and> offsets_ok b"

definition batch_exact :: "batch \<Rightarrow> bool" where
  "batch_exact b \<longleftrightarrow> length (sqrt_Q b) = n_rels b \<and> length (signs b) = n_rels b
     \<and> length (val_2_exps b) = n_rels b \<and> length (large_primes b) = n_rels b
     \<and> length (char_bits b) = n_rels b \<and> length (factor_offsets b) = n_rels b + 1
     \<and> factor_offsets b ! n_rels b = num_factors b
     \<and> length (factor_indices b) = unat (num_factors b)
     \<and> length (factor_counts b) = unat (num_factors b)
     \<and> offsets_ok b"

text \<open>The hash as a function of the relation.\<close>

definition body_hash :: "(u32 \<times> u8) list \<Rightarrow> u16 \<times> u32" where
  "body_hash fs = fold (\<lambda>(ix, c) (ex, body). (ex XOR ucast c, body XOR (ix * HASH_MAGIC))) fs (0, 0)"

definition relation_hash :: "relation \<Rightarrow> u64" where
  "relation_hash r =
     (let (ex, body) = body_hash (r_factors r);
          sign_val = (if r_sign r \<noteq> 1 then - 1 else 1 :: u32)
      in push_bit 48 (ucast (of_nat (length (r_factors r)) :: u16))
         OR push_bit 32 (ucast ex)
         OR ucast (body XOR (sign_val * push_bit (unat (r_val_2_exp r AND 0x1F)) 1)))"

section \<open>Reading a well-formed batch\<close>

lemma batch_exact_ok: "batch_exact b \<Longrightarrow> batch_ok b"
  by (auto simp: batch_exact_def batch_ok_def)

lemma offsets_okD:
  assumes "offsets_ok b" and "i < n_rels b"
  shows "i + 1 < length (factor_offsets b)"
    and "unat (factor_offsets b ! i) \<le> unat (factor_offsets b ! (i + 1))"
    and "unat (factor_offsets b ! (i + 1)) \<le> length (factor_indices b)"
    and "unat (factor_offsets b ! (i + 1)) \<le> length (factor_counts b)"
  using assms by (auto simp: offsets_ok_def word_le_nat_alt)

lemma row_eq_map:
  assumes "offsets_ok b" and "i < n_rels b"
  shows "row b i = map (\<lambda>k. (factor_indices b ! k, factor_counts b ! k))
           [unat (factor_offsets b ! i)..<unat (factor_offsets b ! (i + 1))]"
  using offsets_okD [OF assms] by (simp add: row_def Let_def slice_eq_map zip_map_map zip_same_conv_map)

lemma length_row:
  assumes "offsets_ok b" and "i < n_rels b"
  shows "length (row b i) = unat (factor_offsets b ! (i + 1) - factor_offsets b ! i)"
  using offsets_okD [OF assms] by (simp add: row_eq_map [OF assms] unat_sub word_le_nat_alt)

text \<open>A loop over the factors of one relation reads in range and sees exactly its row.\<close>

lemma ofold_row:
  assumes "offsets_ok b" and "i < n_rels b"
    and "\<And>k st. k < length (factor_indices b) \<Longrightarrow> k < length (factor_counts b) \<Longrightarrow>
           f k st = Some (g (factor_indices b ! k, factor_counts b ! k) st)"
  shows "ofold f [unat (factor_offsets b ! i)..<unat (factor_offsets b ! (i + 1))] st
    = Some (fold g (row b i) st)"
proof -
  have "ofold f [unat (factor_offsets b ! i)..<unat (factor_offsets b ! (i + 1))] st
      = Some (fold (\<lambda>k. g (factor_indices b ! k, factor_counts b ! k))
          [unat (factor_offsets b ! i)..<unat (factor_offsets b ! (i + 1))] st)"
    by (rule ofold_Some_fold) (use offsets_okD [OF assms(1,2)] in \<open>auto intro!: assms(3)\<close>)
  then show ?thesis by (simp add: row_eq_map [OF assms(1,2)] fold_map comp_def)
qed

theorem computeRelationHash_eq:
  assumes "batch_ok b" and "i < n_rels b"
  shows "computeRelationHash b i = Some (relation_hash (rel_at b i))"
proof -
  have off: "offsets_ok b" and len: "i < length (signs b)" "i < length (val_2_exps b)"
    using assms by (auto simp: batch_ok_def)
  note bounds = offsets_okD [OF off assms(2)]
  have loop: "ofold (\<lambda>k (ex, body). do {
           c \<leftarrow> vec_at (factor_counts b) k;
           ix \<leftarrow> vec_at (factor_indices b) k;
           Some (ex XOR (ucast c :: u16), body XOR (ix * HASH_MAGIC))
         }) [unat (factor_offsets b ! i)..<unat (factor_offsets b ! (i + 1))] (0, 0)
      = Some (body_hash (row b i))"
    unfolding body_hash_def by (rule ofold_row [OF off assms(2)]) (auto split: prod.split)
  have l16: "(ucast (factor_offsets b ! (i + 1) - factor_offsets b ! i) :: u16)
      = of_nat (length (row b i))"
    by (simp add: length_row [OF off assms(2)])
  show ?thesis
    unfolding computeRelationHash_def relation_hash_def rel_at_def
    using bounds len loop l16 by (simp add: Let_def split: prod.split)
qed

section \<open>Appending\<close>

lemma fold_snoc_pair:
  "fold (\<lambda>(ix, ct) (ixs, cts). (ixs @ [ix], cts @ [ct])) fs (xs, ys)
   = (xs @ map fst fs, ys @ map snd fs)"
  by (induction fs arbitrary: xs ys) auto

lemma rel_at_cong:
  assumes "sqrt_Q b' = sqrt_Q b @ qs" "signs b' = signs b @ sgs"
    "val_2_exps b' = val_2_exps b @ vs" "large_primes b' = large_primes b @ lps"
    "char_bits b' = char_bits b @ cbs" "factor_offsets b' = factor_offsets b @ offs"
    "factor_indices b' = factor_indices b @ ixs" "factor_counts b' = factor_counts b @ cts"
    and "batch_exact b" and "i < n_rels b"
  shows "rel_at b' i = rel_at b i"
proof -
  have off: "offsets_ok b" using assms(9) by (simp add: batch_exact_def)
  from offsets_okD [OF off assms(10)] show ?thesis
    using assms by (simp add: rel_at_def row_def batch_exact_def nth_append slice_append_left Let_def)
qed

text \<open>The new batch after a relation with the given fields is pushed at the end.\<close>

definition push_relation :: "batch \<Rightarrow> relation \<Rightarrow> batch" where
  "push_relation b r =
     b\<lparr>sqrt_Q := sqrt_Q b @ [r_sqrt_Q r], signs := signs b @ [r_sign r],
       val_2_exps := val_2_exps b @ [r_val_2_exp r],
       large_primes := large_primes b @ [r_large_prime r],
       char_bits := char_bits b @ [r_char_bits r],
       factor_indices := factor_indices b @ map fst (r_factors r),
       factor_counts := factor_counts b @ map snd (r_factors r),
       num_factors := num_factors b + of_nat (length (r_factors r)),
       factor_offsets := factor_offsets b @ [num_factors b + of_nat (length (r_factors r))],
       num_relations := num_relations b + 1\<rparr>"

lemma appendSingleRelation_eq:
  assumes "batch_ok src" and "i < n_rels src"
  shows "appendSingleRelation dest src i = Some (push_relation dest (rel_at src i))"
proof -
  have off: "offsets_ok src" using assms(1) by (simp add: batch_ok_def)
  have len: "i < length (sqrt_Q src)" "i < length (signs src)" "i < length (val_2_exps src)"
      "i < length (large_primes src)"
    using assms by (auto simp: batch_ok_def)
  have loop: "ofold (\<lambda>f (ixs, cts). do {
           ix \<leftarrow> vec_at (factor_indices src) f;
           ct \<leftarrow> vec_at (factor_counts src) f;
           Some (ixs @ [ix], cts @ [ct])
         }) [unat (factor_offsets src ! i)..<unat (factor_offsets src ! (i + 1))]
           (factor_indices dest, factor_counts dest)
      = Some (factor_indices dest @ map fst (row src i), factor_counts dest @ map snd (row src i))"
    unfolding fold_snoc_pair [symmetric]
    by (rule ofold_row [OF off assms(2)]) (auto split: prod.split)
  have nf: "of_nat (length (row src i)) = factor_offsets src ! (i + 1) - factor_offsets src ! i"
    by (simp add: length_row [OF off assms(2)])
  show ?thesis
    unfolding appendSingleRelation_def push_relation_def rel_at_def
    using len offsets_okD [OF off assms(2)] loop nf by (simp add: Let_def)
qed

text \<open>Enough index space for the relations of a list: the arrays stay below \<open>2 ^ 64\<close> entries.\<close>

definition has_room :: "batch \<Rightarrow> relation list \<Rightarrow> bool" where
  "has_room b rs \<longleftrightarrow> n_rels b + length rs < 2 ^ 64
     \<and> unat (num_factors b) + (\<Sum>r\<leftarrow>rs. length (r_factors r)) < 2 ^ 64"

lemma push_relation_counters:
  assumes "has_room b (r # rs)"
  shows "n_rels (push_relation b r) = Suc (n_rels b)"
    and "unat (num_factors (push_relation b r)) = unat (num_factors b) + length (r_factors r)"
proof -
  have n: "n_rels b + 1 < 2 ^ 64" and f: "unat (num_factors b) + length (r_factors r) < 2 ^ 64"
    using assms by (auto simp: has_room_def)
  show "n_rels (push_relation b r) = Suc (n_rels b)"
    using unat_add_exact [of "num_relations b" 1] n by (simp add: push_relation_def)
  have l: "unat (of_nat (length (r_factors r)) :: u64) = length (r_factors r)"
    using f by (simp add: unat_of_nat)
  show "unat (num_factors (push_relation b r)) = unat (num_factors b) + length (r_factors r)"
    using unat_add_exact [of "num_factors b" "of_nat (length (r_factors r))"] f
    by (simp add: push_relation_def l)
qed

lemma has_room_push: "has_room b (r # rs) \<Longrightarrow> has_room (push_relation b r) rs"
  by (simp add: push_relation_counters has_room_def [of "push_relation b r"])
     (simp add: has_room_def)

lemma push_relation_exact:
  assumes ex: "batch_exact b" and room: "has_room b (r # rs)"
  shows "batch_exact (push_relation b r)"
    and "rels (push_relation b r) = rels b @ [r]"
proof -
  let ?b = "push_relation b r"
  note cnt = push_relation_counters [OF room]
  have off: "offsets_ok b" using ex by (simp add: batch_exact_def)
  have offs: "factor_offsets ?b = factor_offsets b @ [num_factors ?b]"
    and ixs: "factor_indices ?b = factor_indices b @ map fst (r_factors r)"
    and cts: "factor_counts ?b = factor_counts b @ map snd (r_factors r)"
    by (simp_all add: push_relation_def)
  have len: "length (factor_offsets b) = Suc (n_rels b)"
      "factor_offsets b ! n_rels b = num_factors b"
      "length (factor_indices b) = unat (num_factors b)"
      "length (factor_counts b) = unat (num_factors b)"
    using ex by (auto simp: batch_exact_def)
  have old: "i < n_rels b \<Longrightarrow> factor_offsets ?b ! i = factor_offsets b ! i
      \<and> factor_offsets ?b ! Suc i = factor_offsets b ! Suc i" for i
    by (simp add: offs nth_append len)
  have new: "factor_offsets ?b ! n_rels b = num_factors b"
      "factor_offsets ?b ! Suc (n_rels b) = num_factors ?b"
    by (simp_all add: offs nth_append len)
  have "offsets_ok ?b"
    unfolding offsets_ok_def
  proof (intro conjI ballI)
    fix i assume i: "i \<in> {0..<n_rels ?b}"
    have b: "factor_offsets ?b ! i \<le> factor_offsets ?b ! (i + 1)
        \<and> unat (factor_offsets ?b ! (i + 1)) \<le> unat (num_factors ?b)"
    proof (cases "i < n_rels b")
      case True
      then show ?thesis
        using offsets_okD [OF off True] old [OF True] len(3) by (simp add: word_le_nat_alt cnt)
    next
      case False
      then have "i = n_rels b" using i by (simp add: cnt)
      then show ?thesis using new by (simp add: word_le_nat_alt cnt)
    qed
    then show "factor_offsets ?b ! i \<le> factor_offsets ?b ! (i + 1)" ..
    show "unat (factor_offsets ?b ! (i + 1)) \<le> length (factor_indices ?b)"
        "unat (factor_offsets ?b ! (i + 1)) \<le> length (factor_counts ?b)"
      using b by (simp_all add: cnt ixs cts len)
  qed (simp add: cnt offs len)
  then show "batch_exact ?b"
    using ex new unfolding batch_exact_def cnt offs ixs cts
    by (simp add: push_relation_def)
  have "row ?b (n_rels b) = r_factors r"
    using new by (simp add: row_def Let_def cnt ixs cts slice_def len zip_map_fst_snd)
  then have "rel_at ?b (n_rels b) = r"
    using ex by (simp add: rel_at_def push_relation_def batch_exact_def nth_append)
  moreover have "rel_at ?b i = rel_at b i" if "i < n_rels b" for i
    by (rule rel_at_cong [OF _ _ _ _ _ _ _ _ ex that]) (simp_all add: push_relation_def)
  ultimately show "rels ?b = rels b @ [r]"
    by (simp add: rels_def cnt)
qed

lemma length_rels [simp]: "length (rels b) = n_rels b"
  by (simp add: rels_def)

lemma nth_rels [simp]: "i < n_rels b \<Longrightarrow> rels b ! i = rel_at b i"
  by (simp add: rels_def)

lemma sentinel_batch_exact:
  "batch_exact (empty_batch\<lparr>factor_offsets := [0]\<rparr>)" "rels (empty_batch\<lparr>factor_offsets := [0]\<rparr>) = []"
  by (simp_all add: batch_exact_def offsets_ok_def empty_batch_def rels_def)

text \<open>
  C8. Appending relation \<open>i\<close> of any readable batch to a well-formed one never reads out of
  range, keeps the compressed rows well formed (offsets monotone, last offset equal to the
  factor counter and to the array lengths) and adds exactly that relation at the end of the
  abstract list.
\<close>

theorem appendSingleRelation_refines:
  assumes "batch_ok src" and "i < n_rels src" and "batch_exact dest"
    and "n_rels dest + 1 < 2 ^ 64"
    and "unat (num_factors dest) + length (r_factors (rel_at src i)) < 2 ^ 64"
  shows "\<exists>dest'. appendSingleRelation dest src i = Some dest' \<and> batch_exact dest'
    \<and> rels dest' = rels dest @ [rels src ! i]"
proof -
  have "has_room dest [rel_at src i]" using assms(4,5) by (simp add: has_room_def)
  from push_relation_exact [OF assms(3) this] show ?thesis
    using appendSingleRelation_eq [OF assms(1,2)] assms(2) by simp
qed

section \<open>The hash does not depend on the order of the factors\<close>

lemma body_hash_perm:
  assumes "mset fs = mset gs"
  shows "body_hash fs = body_hash gs"
proof -
  let ?f = "\<lambda>(ix, c) (ex, body). (ex XOR ucast c :: u16, body XOR (ix * HASH_MAGIC) :: u32)"
  have comm: "?f x \<circ> ?f y = ?f y \<circ> ?f x" for x y :: "u32 \<times> u8"
    by (auto simp: fun_eq_iff xor.assoc xor.commute xor.left_commute split: prod.split)
  have "fold ?f fs = fold ?f gs"
    by (rule fold_multiset_equiv [OF _ assms]) (rule comm)
  then show ?thesis unfolding body_hash_def by simp
qed

text \<open>
  The dedup hash is a function of the factorisation: two relations, in whatever batches
  and at whatever positions, whose factors agree up to order (the GPU emits them in arbitrary
  order), whose signs agree as positive or not, and whose powers of two agree, have the same
  hash; the square root, the large prime and the character bits do not enter it.
\<close>

theorem computeRelationHash_factor_order:
  assumes "batch_ok b" "i < n_rels b" and "batch_ok c" "j < n_rels c"
    and "mset (r_factors (rels b ! i)) = mset (r_factors (rels c ! j))"
    and "r_sign (rels b ! i) = 1 \<longleftrightarrow> r_sign (rels c ! j) = 1"
    and "r_val_2_exp (rels b ! i) = r_val_2_exp (rels c ! j)"
  shows "computeRelationHash b i = computeRelationHash c j
    \<and> computeRelationHash b i = Some (relation_hash (rels b ! i))"
proof -
  have "length (r_factors (rels b ! i)) = length (r_factors (rels c ! j))"
    using assms(5) by (rule mset_eq_length)
  then have "relation_hash (rels b ! i) = relation_hash (rels c ! j)"
    using body_hash_perm [OF assms(5)] assms(6,7) by (simp add: relation_hash_def)
  then show ?thesis
    using computeRelationHash_eq [OF assms(1,2)] computeRelationHash_eq [OF assms(3,4)] assms(2,4)
    by simp
qed

section \<open>A concrete batch\<close>

definition sample_batch :: batch where
  "sample_batch = \<lparr>sqrt_Q = [7, 9], signs = [1, 1], val_2_exps = [4, 4], large_primes = [1, 1],
     char_bits = [0, 5], factor_offsets = [0, 2, 4], factor_indices = [3, 5, 5, 3],
     factor_counts = [1, 2, 2, 1], num_relations = 2, num_factors = 4\<rparr>"

lemma less_2_cases: "(\<forall>i \<in> {0..<2}. P i) \<longleftrightarrow> P 0 \<and> P (Suc 0)"
  by (auto simp: numeral_2_eq_2 atLeast0_lessThan_Suc)

lemma sample_batch_exact: "batch_exact sample_batch"
  by (simp add: batch_exact_def offsets_ok_def sample_batch_def less_2_cases)

lemma sample_rels:
  "rel_at sample_batch 0 = \<lparr>r_sqrt_Q = 7, r_sign = 1, r_val_2_exp = 4, r_large_prime = 1,
     r_char_bits = 0, r_factors = [(3, 1), (5, 2)]\<rparr>"
  "rel_at sample_batch (Suc 0) = \<lparr>r_sqrt_Q = 9, r_sign = 1, r_val_2_exp = 4, r_large_prime = 1,
     r_char_bits = 5, r_factors = [(5, 2), (3, 1)]\<rparr>"
  by (simp_all add: rel_at_def row_def slice_def sample_batch_def)

lemma sample_batch_size: "n_rels sample_batch = 2" "num_factors sample_batch = 4"
  by (simp_all add: sample_batch_def)

theorem appendSingleRelation_refines_witness:
  "\<exists>dest'. appendSingleRelation sample_batch sample_batch 1 = Some dest' \<and> batch_exact dest'
    \<and> rels dest' = rels sample_batch @ [rels sample_batch ! 1]"
  by (rule appendSingleRelation_refines)
     (simp_all add: batch_exact_ok sample_batch_exact sample_batch_size sample_rels)

theorem computeRelationHash_factor_order_witness:
  "computeRelationHash sample_batch 0 = computeRelationHash sample_batch 1
   \<and> computeRelationHash sample_batch 0 = Some (relation_hash (rels sample_batch ! 0))"
  by (rule computeRelationHash_factor_order)
     (simp_all add: batch_exact_ok sample_batch_exact sample_batch_size sample_rels)

end
