(* ===== verification/Accumulator.thy ===== *)
theory Accumulator
  imports Relation_Batch
begin

text \<open>
  The coordinator's relation funnel, \<^verbatim>\<open>src/cluster/accumulator.h\<close>: the queue into which the
  sieve thread and the network thread push batches, the accumulator that deduplicates them
  by hash, and the hand-off of the final batch. Every queue operation holds the queue's mutex
  and the accumulator belongs to one thread, so both are explicit state passing.

  \<open>fresh\<close> is the specification of deduplication on lists of relations: the first relation of
  each hash survives.
\<close>

section \<open>Accumulator queue\<close>

record accumulator_queue =
  local_relations :: "batch list"
  local_partials :: "batch list"
  remote_relations :: "(u8 \<times> batch) list"
  remote_partials :: "(u8 \<times> batch) list"
  sieve_done :: bool

record drain_result =
  dr_local_relations :: "batch list"
  dr_local_partials :: "batch list"
  dr_remote_relations :: "(u8 \<times> batch) list"
  dr_remote_partials :: "(u8 \<times> batch) list"

definition AccumulatorQueue :: accumulator_queue where
  "AccumulatorQueue = \<lparr>local_relations = [], local_partials = [], remote_relations = [],
     remote_partials = [], sieve_done = False\<rparr>"

definition pushRelations :: "batch \<Rightarrow> accumulator_queue \<Rightarrow> accumulator_queue" where
  "pushRelations b q = q\<lparr>local_relations := local_relations q @ [b]\<rparr>"

definition pushPartials :: "batch \<Rightarrow> accumulator_queue \<Rightarrow> accumulator_queue" where
  "pushPartials b q = q\<lparr>local_partials := local_partials q @ [b]\<rparr>"

definition pushRemoteRelations :: "batch \<Rightarrow> u8 \<Rightarrow> accumulator_queue \<Rightarrow> accumulator_queue" where
  "pushRemoteRelations b wid q = q\<lparr>remote_relations := remote_relations q @ [(wid, b)]\<rparr>"

definition pushRemotePartials :: "batch \<Rightarrow> u8 \<Rightarrow> accumulator_queue \<Rightarrow> accumulator_queue" where
  "pushRemotePartials b wid q = q\<lparr>remote_partials := remote_partials q @ [(wid, b)]\<rparr>"

definition drain_empty :: "drain_result \<Rightarrow> bool" where
  "drain_empty d \<longleftrightarrow> dr_local_relations d = [] \<and> dr_local_partials d = []
     \<and> dr_remote_relations d = [] \<and> dr_remote_partials d = []"

definition drain :: "accumulator_queue \<Rightarrow> drain_result \<times> accumulator_queue" where
  "drain q =
     (\<lparr>dr_local_relations = local_relations q, dr_local_partials = local_partials q,
       dr_remote_relations = remote_relations q, dr_remote_partials = remote_partials q\<rparr>,
      q\<lparr>local_relations := [], local_partials := [], remote_relations := [],
        remote_partials := []\<rparr>)"

definition signalSieveDone :: "accumulator_queue \<Rightarrow> accumulator_queue" where
  "signalSieveDone q = q\<lparr>sieve_done := True\<rparr>"

definition isSieveDone :: "accumulator_queue \<Rightarrow> bool" where
  "isSieveDone q = sieve_done q"

section \<open>Relation accumulator\<close>

record accumulator =
  target :: u64
  effective_target :: u64
  accumulated :: batch
  seen :: "u64 set"
  per_source :: "u8 \<rightharpoonup> u64"

definition RelationAccumulator :: "float_env \<Rightarrow> u64 \<Rightarrow> rat \<Rightarrow> accumulator" where
  "RelationAccumulator F target_relations dedup_margin =
     \<lparr>target = target_relations,
      effective_target = d2u F (of_int \<lceil>fl F (fl F (of_u64 target_relations) * dedup_margin)\<rceil>),
      accumulated = empty_batch\<lparr>factor_offsets := factor_offsets empty_batch @ [0]\<rparr>,
      seen = {}, per_source = Map.empty\<rparr>"

definition bump :: "u8 \<Rightarrow> (u8 \<rightharpoonup> u64) \<Rightarrow> (u8 \<rightharpoonup> u64)" where
  "bump sid m = m(sid \<mapsto> (case m sid of None \<Rightarrow> 0 | Some n \<Rightarrow> n) + 1)"

definition addRelations :: "batch \<Rightarrow> u8 \<Rightarrow> accumulator \<Rightarrow> accumulator option" where
  "addRelations b source_id =
     ofold (\<lambda>i a. do {
         h \<leftarrow> computeRelationHash b i;
         if h \<in> seen a then Some a
         else do {
           acc' \<leftarrow> appendSingleRelation (accumulated a) b i;
           Some (a\<lparr>seen := insert h (seen a), accumulated := acc',
                   per_source := bump source_id (per_source a)\<rparr>)
         }
       }) [0..<n_rels b]"

definition addLPRelations :: "batch \<Rightarrow> accumulator \<Rightarrow> accumulator option" where
  "addLPRelations b = addRelations b 255"

definition totalRelations :: "accumulator \<Rightarrow> u64" where
  "totalRelations a = num_relations (accumulated a)"

definition targetReached :: "accumulator \<Rightarrow> bool" where
  "targetReached a \<longleftrightarrow> num_relations (accumulated a) \<ge> effective_target a"

definition relationsFrom :: "u8 \<Rightarrow> accumulator \<Rightarrow> u64" where
  "relationsFrom sid a = (case per_source a sid of Some n \<Rightarrow> n | None \<Rightarrow> 0)"

text \<open>
  What a moved-from batch is: the vectors are empty, the two plain counters keep their value.
\<close>

definition moved_from :: "batch \<Rightarrow> batch" where
  "moved_from b = empty_batch\<lparr>num_relations := num_relations b, num_factors := num_factors b\<rparr>"

definition extractFinal :: "accumulator \<Rightarrow> batch \<times> accumulator" where
  "extractFinal a = (accumulated a, a\<lparr>accumulated := moved_from (accumulated a)\<rparr>)"

definition peek :: "accumulator \<Rightarrow> batch" where
  "peek a = accumulated a"

definition effectiveTarget :: "accumulator \<Rightarrow> u64" where
  "effectiveTarget a = effective_target a"

definition rawTarget :: "accumulator \<Rightarrow> u64" where
  "rawTarget a = target a"

section \<open>Final hand-off\<close>

type_synonym handoff = "batch option"

definition deliver :: "batch \<Rightarrow> handoff \<Rightarrow> handoff" where
  "deliver b h = Some b"

text \<open>\<open>None\<close> while the waiting thread stays blocked on the condition variable.\<close>

definition await :: "handoff \<Rightarrow> (batch \<times> handoff) option" where
  "await h = map_option (\<lambda>b. (b, Some (moved_from b))) h"

section \<open>Deduplication, on lists\<close>

fun fresh :: "u64 set \<Rightarrow> relation list \<Rightarrow> relation list" where
  "fresh S [] = []"
| "fresh S (r # rs) =
     (if relation_hash r \<in> S then fresh S rs
      else r # fresh (insert (relation_hash r) S) rs)"

lemma set_fresh_subset: "set (fresh S rs) \<subseteq> set rs"
  by (induction S rs rule: fresh.induct) auto

lemma hashes_fresh: "S \<union> relation_hash ` set (fresh S rs) = S \<union> relation_hash ` set rs"
  by (induction S rs rule: fresh.induct) auto

lemma fresh_disjoint: "S \<inter> relation_hash ` set (fresh S rs) = {}"
  by (induction S rs rule: fresh.induct) auto

lemma distinct_fresh: "distinct (map relation_hash (fresh S rs))"
proof (induction S rs rule: fresh.induct)
  case (2 S r rs)
  then show ?case using fresh_disjoint [of "insert (relation_hash r) S" rs] by auto
qed simp

lemma fresh_append: "fresh S (xs @ ys) = fresh S xs @ fresh (S \<union> relation_hash ` set xs) ys"
  by (induction S xs rule: fresh.induct) (auto simp: insert_absorb)

definition acc_inv :: "accumulator \<Rightarrow> bool" where
  "acc_inv a \<longleftrightarrow> batch_exact (accumulated a)
     \<and> seen a = relation_hash ` set (rels (accumulated a))
     \<and> distinct (map relation_hash (rels (accumulated a)))"

text \<open>One iteration of the ingestion loop, on an abstract relation.\<close>

definition add_one :: "u8 \<Rightarrow> relation \<Rightarrow> accumulator \<Rightarrow> accumulator" where
  "add_one sid r a =
     (if relation_hash r \<in> seen a then a
      else a\<lparr>seen := insert (relation_hash r) (seen a),
             accumulated := push_relation (accumulated a) r,
             per_source := bump sid (per_source a)\<rparr>)"

lemma addRelations_fold:
  assumes "batch_ok b"
  shows "addRelations b sid a = Some (fold (add_one sid) (rels b) a)"
proof -
  have "addRelations b sid a = Some (fold (\<lambda>i. add_one sid (rel_at b i)) [0..<n_rels b] a)"
    unfolding addRelations_def
    by (rule ofold_Some_fold)
       (simp add: computeRelationHash_eq assms appendSingleRelation_eq add_one_def)
  then show ?thesis by (simp add: rels_def fold_map comp_def)
qed

lemma has_room_Cons: "has_room b (r # rs) \<Longrightarrow> has_room b rs"
  by (simp add: has_room_def)

lemma relationsFrom_add_one:
  "relation_hash r \<notin> seen a \<Longrightarrow>
     relationsFrom t (add_one sid r a) = relationsFrom t a + (if t = sid then 1 else 0)"
  by (auto simp: relationsFrom_def add_one_def bump_def split: option.split)

lemma add_one_inv:
  assumes "acc_inv a" and "has_room (accumulated a) (r # rs)"
  shows "acc_inv (add_one sid r a)"
    and "rels (accumulated (add_one sid r a)) = rels (accumulated a) @ fresh (seen a) [r]"
    and "has_room (accumulated (add_one sid r a)) rs"
proof -
  have ex: "batch_exact (accumulated a)" using assms(1) by (simp add: acc_inv_def)
  note push = push_relation_exact [OF ex assms(2)] has_room_push [OF assms(2)]
  show "acc_inv (add_one sid r a)"
    using assms(1) push by (auto simp: acc_inv_def add_one_def)
  show "rels (accumulated (add_one sid r a)) = rels (accumulated a) @ fresh (seen a) [r]"
    using push by (simp add: add_one_def)
  show "has_room (accumulated (add_one sid r a)) rs"
    using push has_room_Cons [OF assms(2)] by (simp add: add_one_def)
qed

lemma fold_add_one:
  assumes "acc_inv a" and "has_room (accumulated a) rs"
  shows "acc_inv (fold (add_one sid) rs a)
    \<and> rels (accumulated (fold (add_one sid) rs a)) = rels (accumulated a) @ fresh (seen a) rs
    \<and> (\<forall>t. relationsFrom t (fold (add_one sid) rs a)
          = relationsFrom t a + (if t = sid then of_nat (length (fresh (seen a) rs)) else 0))
    \<and> effective_target (fold (add_one sid) rs a) = effective_target a"
  using assms
proof (induction rs arbitrary: a)
  case Nil
  then show ?case by simp
next
  case (Cons r rs)
  let ?a = "add_one sid r a"
  note step = add_one_inv [OF Cons.prems, of sid]
  have IH: "acc_inv (fold (add_one sid) rs ?a)"
      "rels (accumulated (fold (add_one sid) rs ?a)) = rels (accumulated ?a) @ fresh (seen ?a) rs"
      "\<And>t. relationsFrom t (fold (add_one sid) rs ?a)
          = relationsFrom t ?a + (if t = sid then of_nat (length (fresh (seen ?a) rs)) else 0)"
      "effective_target (fold (add_one sid) rs ?a) = effective_target ?a"
    using Cons.IH [OF step(1,3)] by auto
  show ?case
  proof (cases "relation_hash r \<in> seen a")
    case True
    then have "?a = a" by (simp add: add_one_def)
    with IH True show ?thesis by simp
  next
    case False
    then have "seen ?a = insert (relation_hash r) (seen a)" "effective_target ?a = effective_target a"
      by (simp_all add: add_one_def)
    with IH step(2) False relationsFrom_add_one [OF False] show ?thesis by simp
  qed
qed

lemma RelationAccumulator_inv:
  "acc_inv (RelationAccumulator F n m)" "rels (accumulated (RelationAccumulator F n m)) = []"
  "seen (RelationAccumulator F n m) = {}" "per_source (RelationAccumulator F n m) = Map.empty"
  using sentinel_batch_exact
  by (simp_all add: acc_inv_def RelationAccumulator_def empty_batch_def)

text \<open>
  C6. Ingesting a batch is total on readable batches and deduplicates: what is accumulated
  grows by the first relation of every hash not seen before, in order; the seen set stays the
  set of accumulated hashes, no hash occurs twice, the rows stay well formed, and exactly the
  source of the batch is credited with the number of new relations.
\<close>

theorem addRelations_refines:
  assumes "acc_inv a" and "batch_ok b" and "has_room (accumulated a) (rels b)"
  shows "\<exists>a'. addRelations b sid a = Some a' \<and> acc_inv a'
    \<and> rels (accumulated a') = rels (accumulated a) @ fresh (seen a) (rels b)
    \<and> (\<forall>t. relationsFrom t a'
          = relationsFrom t a + (if t = sid then of_nat (length (fresh (seen a) (rels b))) else 0))"
  using fold_add_one [OF assms(1,3), of sid] addRelations_fold [OF assms(2), of sid a] by blast

section \<open>Ingesting many batches\<close>

definition ingest :: "(u8 \<times> batch) list \<Rightarrow> accumulator \<Rightarrow> accumulator option" where
  "ingest = ofold (\<lambda>(sid, b). addRelations b sid)"

definition all_rels :: "(u8 \<times> batch) list \<Rightarrow> relation list" where
  "all_rels bs = concat (map (\<lambda>(sid, b). rels b) bs)"

lemma fold_add_one_room:
  "acc_inv a \<Longrightarrow> has_room (accumulated a) (rs @ ss) \<Longrightarrow>
     has_room (accumulated (fold (add_one sid) rs a)) ss"
proof (induction rs arbitrary: a)
  case Nil
  then show ?case by simp
next
  case (Cons r rs)
  have room: "has_room (accumulated a) (r # (rs @ ss))" using Cons.prems(2) by simp
  from Cons.IH [OF add_one_inv(1,3) [OF Cons.prems(1) room]] show ?case by simp
qed

lemma has_room_prefix: "has_room b (rs @ ss) \<Longrightarrow> has_room b rs"
  by (simp add: has_room_def)

lemma ingest_fresh:
  assumes "acc_inv a" and "\<forall>(sid, b) \<in> set bs. batch_ok b"
    and "has_room (accumulated a) (all_rels bs)"
  shows "\<exists>a'. ingest bs a = Some a' \<and> acc_inv a'
    \<and> rels (accumulated a') = rels (accumulated a) @ fresh (seen a) (all_rels bs)"
  using assms
proof (induction bs arbitrary: a)
  case Nil
  then show ?case by (simp add: ingest_def all_rels_def)
next
  case (Cons sb bs)
  obtain sid b where sb: "sb = (sid, b)" by (cases sb)
  let ?a = "fold (add_one sid) (rels b) a"
  have ok: "batch_ok b" using Cons.prems(2) sb by simp
  have room: "has_room (accumulated a) (rels b @ all_rels bs)"
    using Cons.prems(3) by (simp add: all_rels_def sb)
  note one = fold_add_one [OF Cons.prems(1) has_room_prefix [OF room], of sid]
  have seen: "seen ?a = seen a \<union> relation_hash ` set (rels b)"
    using one Cons.prems(1) hashes_fresh [of "seen a" "rels b"]
    by (auto simp: acc_inv_def image_Un)
  obtain a' where "ingest bs ?a = Some a'" "acc_inv a'"
      "rels (accumulated a') = rels (accumulated ?a) @ fresh (seen ?a) (all_rels bs)"
    using Cons.IH [of ?a] one Cons.prems(2) fold_add_one_room [OF Cons.prems(1) room] by auto
  then show ?case
    using one seen addRelations_fold [OF ok, of sid a]
    by (auto simp: ingest_def all_rels_def sb fresh_append)
qed

lemma acc_inv_card:
  "acc_inv a \<Longrightarrow> unat (totalRelations a) = card (relation_hash ` set (rels (accumulated a)))"
  using distinct_card [of "map relation_hash (rels (accumulated a))"]
  by (simp add: acc_inv_def totalRelations_def)

text \<open>
  C5. The result of accumulation does not depend on how relations reach the coordinator:
  starting from a fresh accumulator, ingesting any sequence of readable batches succeeds, and
  the number of relations it reports is the number of distinct hashes among all of them. Two
  sequences with the same relations in a different order, split into different batches,
  credited to different sources or delivered more than once end with the same count, hence
  reach the target at the same point.
\<close>

theorem accumulation_order_independent:
  assumes "\<forall>(sid, b) \<in> set bs. batch_ok b" and "\<forall>(sid, b) \<in> set cs. batch_ok b"
    and "has_room (accumulated (RelationAccumulator F n m)) (all_rels bs)"
    and "has_room (accumulated (RelationAccumulator F n m)) (all_rels cs)"
    and "set (all_rels bs) = set (all_rels cs)"
  shows "\<exists>a c. ingest bs (RelationAccumulator F n m) = Some a
    \<and> ingest cs (RelationAccumulator F n m) = Some c
    \<and> unat (totalRelations a) = card (relation_hash ` set (all_rels bs))
    \<and> totalRelations a = totalRelations c \<and> seen a = seen c"
proof -
  let ?i = "RelationAccumulator F n m"
  note init = RelationAccumulator_inv [of F n m]
  obtain a where a: "ingest bs ?i = Some a" "acc_inv a" "rels (accumulated a) = fresh {} (all_rels bs)"
    using ingest_fresh [OF init(1) assms(1,3)] init by auto
  obtain c where c: "ingest cs ?i = Some c" "acc_inv c" "rels (accumulated c) = fresh {} (all_rels cs)"
    using ingest_fresh [OF init(1) assms(2,4)] init by auto
  have hb: "relation_hash ` set (fresh {} (all_rels bs)) = relation_hash ` set (all_rels bs)"
    and hc: "relation_hash ` set (fresh {} (all_rels cs)) = relation_hash ` set (all_rels cs)"
    using hashes_fresh [of "{}"] by auto
  have "unat (totalRelations a) = unat (totalRelations c)" "seen a = seen c"
    using acc_inv_card [OF a(2)] acc_inv_card [OF c(2)] a(2,3) c(2,3) hb hc assms(5)
    by (auto simp: acc_inv_def)
  with a c hb acc_inv_card [OF a(2)] show ?thesis
    by (auto simp: word_unat_eq_iff)
qed

section \<open>The queue loses nothing\<close>

datatype q_op = Push_relations batch | Push_partials batch | Push_remote_relations batch u8
  | Push_remote_partials batch u8 | Drain | Sieve_done

fun q_apply :: "q_op \<Rightarrow> drain_result list \<times> accumulator_queue \<Rightarrow> drain_result list \<times> accumulator_queue" where
  "q_apply (Push_relations b) (ds, q) = (ds, pushRelations b q)"
| "q_apply (Push_partials b) (ds, q) = (ds, pushPartials b q)"
| "q_apply (Push_remote_relations b w) (ds, q) = (ds, pushRemoteRelations b w q)"
| "q_apply (Push_remote_partials b w) (ds, q) = (ds, pushRemotePartials b w q)"
| "q_apply Drain (ds, q) = (case drain q of (d, q') \<Rightarrow> (ds @ [d], q'))"
| "q_apply Sieve_done (ds, q) = (ds, signalSieveDone q)"

text \<open>
  One of the four channels of the queue: \<open>chan\<close> is its content, \<open>out\<close> its part of a drain and
  \<open>pushed\<close> what an operation adds to it.
\<close>

locale drained_channel =
  fixes chan :: "accumulator_queue \<Rightarrow> 'x list"
    and out :: "drain_result \<Rightarrow> 'x list"
    and pushed :: "q_op \<Rightarrow> 'x list"
  assumes balance: "concat (map out (fst (q_apply op (ds, q)))) @ chan (snd (q_apply op (ds, q)))
      = concat (map out ds) @ chan q @ pushed op"
begin

lemma run_balance:
  "concat (map out (fst (fold q_apply ops s))) @ chan (snd (fold q_apply ops s))
     = concat (map out (fst s)) @ chan (snd s) @ concat (map pushed ops)"
proof (induction ops arbitrary: s)
  case Nil
  then show ?case by simp
next
  case (Cons op ops)
  show ?case using Cons.IH [of "q_apply op s"] balance [of op "fst s" "snd s"] by simp
qed

end

fun pushed_relations :: "q_op \<Rightarrow> batch list" where
  "pushed_relations (Push_relations b) = [b]"
| "pushed_relations _ = []"

fun pushed_partials :: "q_op \<Rightarrow> batch list" where
  "pushed_partials (Push_partials b) = [b]"
| "pushed_partials _ = []"

fun pushed_remote_relations :: "q_op \<Rightarrow> (u8 \<times> batch) list" where
  "pushed_remote_relations (Push_remote_relations b w) = [(w, b)]"
| "pushed_remote_relations _ = []"

fun pushed_remote_partials :: "q_op \<Rightarrow> (u8 \<times> batch) list" where
  "pushed_remote_partials (Push_remote_partials b w) = [(w, b)]"
| "pushed_remote_partials _ = []"

lemmas queue_ops = pushRelations_def pushPartials_def pushRemoteRelations_def
  pushRemotePartials_def drain_def signalSieveDone_def

interpretation lr: drained_channel local_relations dr_local_relations pushed_relations
proof
  show "concat (map dr_local_relations (fst (q_apply op (ds, q)))) @ local_relations (snd (q_apply op (ds, q)))
      = concat (map dr_local_relations ds) @ local_relations q @ pushed_relations op" for op ds q
    by (cases op) (simp_all add: queue_ops)
qed

interpretation lp: drained_channel local_partials dr_local_partials pushed_partials
proof
  show "concat (map dr_local_partials (fst (q_apply op (ds, q)))) @ local_partials (snd (q_apply op (ds, q)))
      = concat (map dr_local_partials ds) @ local_partials q @ pushed_partials op" for op ds q
    by (cases op) (simp_all add: queue_ops)
qed

interpretation rr: drained_channel remote_relations dr_remote_relations pushed_remote_relations
proof
  show "concat (map dr_remote_relations (fst (q_apply op (ds, q)))) @ remote_relations (snd (q_apply op (ds, q)))
      = concat (map dr_remote_relations ds) @ remote_relations q @ pushed_remote_relations op" for op ds q
    by (cases op) (simp_all add: queue_ops)
qed

interpretation rp: drained_channel remote_partials dr_remote_partials pushed_remote_partials
proof
  show "concat (map dr_remote_partials (fst (q_apply op (ds, q)))) @ remote_partials (snd (q_apply op (ds, q)))
      = concat (map dr_remote_partials ds) @ remote_partials q @ pushed_remote_partials op" for op ds q
    by (cases op) (simp_all add: queue_ops)
qed

text \<open>
  C7. The queue neither loses, duplicates nor reorders batches: for any interleaving of the
  producers' pushes with the consumer's drains, and on each of the four channels, what all
  drains returned together with what a final drain returns is what was pushed, in push order;
  worker ids stay attached to their batches.
\<close>

theorem accumulator_queue_lossless:
  assumes "fold q_apply ops ([], AccumulatorQueue) = (ds, q)"
  shows "concat (map dr_local_relations ds) @ dr_local_relations (fst (drain q))
      = concat (map pushed_relations ops)
    \<and> concat (map dr_local_partials ds) @ dr_local_partials (fst (drain q))
      = concat (map pushed_partials ops)
    \<and> concat (map dr_remote_relations ds) @ dr_remote_relations (fst (drain q))
      = concat (map pushed_remote_relations ops)
    \<and> concat (map dr_remote_partials ds) @ dr_remote_partials (fst (drain q))
      = concat (map pushed_remote_partials ops)"
  using lr.run_balance [of ops "([], AccumulatorQueue)", unfolded assms]
    lp.run_balance [of ops "([], AccumulatorQueue)", unfolded assms]
    rr.run_balance [of ops "([], AccumulatorQueue)", unfolded assms]
    rp.run_balance [of ops "([], AccumulatorQueue)", unfolded assms]
  by (simp add: AccumulatorQueue_def drain_def)

section \<open>Extraction and hand-off\<close>

text \<open>
  The final batch reaches the sieve thread intact: extracting from the accumulator and
  delivering makes the waiting thread return exactly the accumulated relations, whose rows
  are well formed and whose hashes are pairwise different; a thread that waits before any
  delivery stays blocked.
\<close>

theorem final_handoff_intact:
  assumes "acc_inv a"
  shows "await None = None
    \<and> (\<exists>b h. await (deliver (fst (extractFinal a)) None) = Some (b, h)
        \<and> batch_exact b \<and> rels b = rels (peek a)
        \<and> length (rels b) = unat (totalRelations a) \<and> distinct (map relation_hash (rels b)))"
  using assms
  by (simp add: await_def deliver_def extractFinal_def peek_def acc_inv_def totalRelations_def)

text \<open>
  After \<open>extractFinal\<close> the accumulator is not empty by its own account: the vectors have been
  moved out but the counter that \<open>totalRelations\<close> and \<open>targetReached\<close> read keeps its value.
\<close>

lemma extractFinal_keeps_count:
  "totalRelations (snd (extractFinal a)) = totalRelations a
   \<and> sqrt_Q (peek (snd (extractFinal a))) = []
   \<and> targetReached (snd (extractFinal a)) = targetReached a"
  by (simp add: extractFinal_def moved_from_def totalRelations_def peek_def targetReached_def
      empty_batch_def)

section \<open>Witnesses\<close>

definition sample_acc :: accumulator where
  "sample_acc = RelationAccumulator exact_float 10 1"

lemma sample_room:
  "has_room (accumulated sample_acc) (rels sample_batch)"
  "has_room (accumulated sample_acc) (rels sample_batch @ rels sample_batch)"
  by (simp_all add: has_room_def sample_acc_def RelationAccumulator_def empty_batch_def rels_def
      sample_batch_size sample_rels upt_rec)

theorem addRelations_refines_witness:
  "\<exists>a'. addRelations sample_batch 3 sample_acc = Some a' \<and> acc_inv a'
    \<and> rels (accumulated a') = rels (accumulated sample_acc) @ fresh (seen sample_acc) (rels sample_batch)
    \<and> (\<forall>t. relationsFrom t a' = relationsFrom t sample_acc
          + (if t = 3 then of_nat (length (fresh (seen sample_acc) (rels sample_batch))) else 0))"
  by (rule addRelations_refines)
     (simp_all add: sample_room batch_exact_ok sample_batch_exact,
      simp add: sample_acc_def RelationAccumulator_inv)

theorem accumulation_order_independent_witness:
  "\<exists>a c. ingest [(0, sample_batch)] (RelationAccumulator exact_float 10 1) = Some a
    \<and> ingest [(1, sample_batch), (2, sample_batch)] (RelationAccumulator exact_float 10 1) = Some c
    \<and> unat (totalRelations a) = card (relation_hash ` set (all_rels [(0, sample_batch)]))
    \<and> totalRelations a = totalRelations c \<and> seen a = seen c"
  by (rule accumulation_order_independent)
     (use sample_room in \<open>simp_all add: all_rels_def batch_exact_ok sample_batch_exact sample_acc_def\<close>)

theorem accumulator_queue_lossless_witness:
  "\<exists>ds q. fold q_apply [Push_relations empty_batch, Drain, Push_remote_relations sample_batch 4]
        ([], AccumulatorQueue) = (ds, q)
    \<and> concat (map dr_local_relations ds) @ dr_local_relations (fst (drain q)) = [empty_batch]
    \<and> concat (map dr_remote_relations ds) @ dr_remote_relations (fst (drain q)) = [(4, sample_batch)]"
  using accumulator_queue_lossless
    [of "[Push_relations empty_batch, Drain, Push_remote_relations sample_batch 4]"]
  by (simp add: queue_ops AccumulatorQueue_def)

theorem final_handoff_intact_witness:
  "acc_inv sample_acc
   \<and> (\<exists>b h. await (deliver (fst (extractFinal sample_acc)) None) = Some (b, h) \<and> rels b = [])"
proof -
  have inv: "acc_inv sample_acc" by (simp add: sample_acc_def RelationAccumulator_inv)
  with final_handoff_intact [OF inv] show ?thesis
    by (auto simp: sample_acc_def peek_def RelationAccumulator_inv)
qed

end
