(* ===== verification/Gf2_Algebra.thy ===== *)
theory Gf2_Algebra
  imports Main "HOL-Library.Multiset"
begin

text \<open>
  Linear algebra over GF(2), shared by the merge tree and the matrix filter. A vector is the
  set of its nonzero coordinates and addition is the symmetric difference \<open>sdiff\<close>. \<open>odd_in\<close> is the
  sum of a list of unit vectors, \<open>row_sum\<close> the sum of a list of rows and \<open>gsum\<close> the sum of a set
  of rows.

  \<open>represents\<close> is the contract of every reduction step of the matrix filter: the surviving rows
  are sums of original rows, and every linear dependency among the original rows is still a
  combination of the surviving ones.
\<close>

section \<open>Addition over GF(2)\<close>

definition sdiff :: "'a set \<Rightarrow> 'a set \<Rightarrow> 'a set" where
  "sdiff A B = (A - B) \<union> (B - A)"

definition odd_in :: "'a list \<Rightarrow> 'a set" where
  "odd_in xs = {x. odd (count_list xs x)}"

definition row_sum :: "('r \<Rightarrow> 'c set) \<Rightarrow> 'r list \<Rightarrow> 'c set" where
  "row_sum R ls = {c. odd (length (filter (\<lambda>l. c \<in> R l) ls))}"

lemma in_sdiff: "x \<in> sdiff A B \<longleftrightarrow> (x \<in> A) \<noteq> (x \<in> B)"
  by (auto simp: sdiff_def)

lemma row_sum_Nil [simp]: "row_sum R [] = {}"
  by (simp add: row_sum_def)

lemma row_sum_append: "row_sum R (xs @ ys) = sdiff (row_sum R xs) (row_sum R ys)"
  by (auto simp: row_sum_def in_sdiff)

lemma row_sum_single [simp]: "row_sum R [l] = R l"
  by (auto simp: row_sum_def)

lemma row_sum_Cons: "row_sum R (l # ls) = sdiff (R l) (row_sum R ls)"
  using row_sum_append [of R "[l]" ls] by simp

lemma odd_in_append: "odd_in (xs @ ys) = sdiff (odd_in xs) (odd_in ys)"
  by (auto simp: odd_in_def in_sdiff)

text \<open>Only the elements of odd multiplicity matter for a sum of rows.\<close>

lemma odd_in_subset: "odd_in xs \<subseteq> set xs"
proof
  fix x assume "x \<in> odd_in xs"
  then have "count_list xs x \<noteq> 0" by (auto simp: odd_in_def intro: ccontr)
  then show "x \<in> set xs" by (metis count_list_0_iff)
qed

lemma finite_odd_in [simp]: "finite (odd_in xs)"
  by (rule finite_subset [OF odd_in_subset]) simp

lemma odd_length_filter_iff:
  "odd (length (filter P ls)) \<longleftrightarrow> odd (card {l \<in> odd_in ls. P l})"
proof (induction ls)
  case Nil
  then show ?case by (simp add: odd_in_def)
next
  case (Cons a ls)
  have eq: "odd_in (a # ls) = sdiff {a} (odd_in ls)"
    by (auto simp: odd_in_def in_sdiff)
  let ?S = "{l \<in> odd_in ls. P l}"
  have fin: "finite ?S" by simp
  show ?case
  proof (cases "P a")
    case True
    have "{l \<in> odd_in (a # ls). P l} = (if a \<in> odd_in ls then ?S - {a} else insert a ?S)"
      unfolding eq using True by (auto simp: in_sdiff)
    moreover have "a \<in> odd_in ls \<Longrightarrow> 0 < card ?S"
      using True fin by (auto simp: card_gt_0_iff)
    ultimately show ?thesis
      using Cons.IH True fin by (auto simp: card_Diff_singleton_if split: if_splits)
  next
    case False
    have "{l \<in> odd_in (a # ls). P l} = ?S"
      unfolding eq using False by (auto simp: in_sdiff)
    with Cons.IH False show ?thesis by simp
  qed
qed

lemma row_sum_odd_in:
  assumes "set res = odd_in ls" and "distinct res"
  shows "row_sum R res = row_sum R ls"
proof -
  have "odd_in res = odd_in ls"
    using assms by (auto simp: odd_in_def count_list_eq_length_filter [symmetric]
        distinct_count_atmost_1 count_mset)
  then show ?thesis unfolding row_sum_def by (simp add: odd_length_filter_iff)
qed

section \<open>Sums over sets of rows\<close>

definition gsum :: "('r \<Rightarrow> 'c set) \<Rightarrow> 'r set \<Rightarrow> 'c set" where
  "gsum R D = {c. odd (card {l \<in> D. c \<in> R l})}"

lemma row_sum_gsum: "row_sum R ls = gsum R (odd_in ls)"
  by (simp add: row_sum_def gsum_def odd_length_filter_iff)

lemma gsum_empty [simp]: "gsum R {} = {}"
  by (simp add: gsum_def)

lemma gsum_insert:
  assumes "finite D" and "l \<notin> D"
  shows "gsum R (insert l D) = sdiff (R l) (gsum R D)"
proof -
  have "card {k \<in> insert l D. c \<in> R k} = card {k \<in> D. c \<in> R k} + (if c \<in> R l then 1 else 0)" for c
  proof -
    have "{k \<in> insert l D. c \<in> R k} = (if c \<in> R l then insert l {k \<in> D. c \<in> R k} else {k \<in> D. c \<in> R k})"
      by auto
    then show ?thesis using assms by (simp add: card_insert_if)
  qed
  then show ?thesis by (auto simp: gsum_def in_sdiff)
qed

lemma gsum_cong: "(\<And>l. l \<in> D \<Longrightarrow> R l = S l) \<Longrightarrow> gsum R D = gsum S D"
  unfolding gsum_def by (metis (mono_tags, lifting) Collect_cong)

lemma sdiff_simps [simp]:
  "sdiff A A = {}" "sdiff A {} = A" "sdiff {} A = A"
  by (auto simp: sdiff_def)

lemma sdiff_commute: "sdiff A B = sdiff B A"
  by (auto simp: sdiff_def)

lemma sdiff_assoc: "sdiff (sdiff A B) C = sdiff A (sdiff B C)"
  by (auto simp: sdiff_def)

lemma sdiff_left_commute: "sdiff A (sdiff B C) = sdiff B (sdiff A C)"
  by (auto simp: sdiff_def)

lemma sdiff_cancel [simp]: "sdiff A (sdiff A B) = B"
  by (auto simp: sdiff_def)

lemma finite_sdiff [simp]: "finite A \<Longrightarrow> finite B \<Longrightarrow> finite (sdiff A B)"
  by (simp add: sdiff_def)

lemmas sdiff_ac = sdiff_commute sdiff_assoc sdiff_left_commute

lemma gsum_remove:
  assumes "finite D" and "l \<in> D"
  shows "gsum R D = sdiff (R l) (gsum R (D - {l}))"
  using gsum_insert [of "D - {l}" l R] assms by (simp add: insert_absorb)

lemma gsum_toggle:
  assumes "finite D"
  shows "gsum R (sdiff D {l}) = sdiff (R l) (gsum R D)"
proof (cases "l \<in> D")
  case True
  then have "sdiff D {l} = D - {l}" by (auto simp: sdiff_def)
  then show ?thesis using gsum_remove [OF assms True, of R] by simp
next
  case False
  then have "sdiff D {l} = insert l D" by (auto simp: sdiff_def)
  then show ?thesis using gsum_insert [OF assms False, of R] by simp
qed

lemma gsum_sdiff:
  assumes "finite A" and "finite B"
  shows "gsum R (sdiff A B) = sdiff (gsum R A) (gsum R B)"
  using assms(2,1)
proof (induction B arbitrary: A)
  case empty
  then show ?case by simp
next
  case (insert l B)
  have "sdiff A (insert l B) = sdiff (sdiff A B) {l}"
    using insert.hyps(2) by (auto simp: sdiff_def)
  then have "gsum R (sdiff A (insert l B)) = sdiff (R l) (sdiff (gsum R A) (gsum R B))"
    using insert by (simp add: gsum_toggle)
  also have "\<dots> = sdiff (gsum R A) (gsum R (insert l B))"
    using insert.hyps by (simp add: gsum_insert sdiff_left_commute)
  finally show ?case .
qed

lemma gsum_finite:
  assumes "finite D" and "\<And>l. l \<in> D \<Longrightarrow> finite (R l)"
  shows "finite (gsum R D)"
  using assms by (induction D) (simp_all add: gsum_insert)

text \<open>Sums of sums: the sum of the rows \<open>R\<close> over a combination of combinations \<open>L\<close>.\<close>

lemma gsum_gsum:
  assumes "finite T" and "\<And>t. t \<in> T \<Longrightarrow> finite (L t)"
  shows "gsum R (gsum L T) = gsum (\<lambda>t. gsum R (L t)) T"
  using assms
proof (induction T)
  case empty
  then show ?case by simp
next
  case (insert t T)
  have "finite (gsum L T)" using insert by (intro gsum_finite) auto
  with insert show ?case by (simp add: gsum_insert gsum_sdiff)
qed

lemma gsum_subset: "(\<And>l. l \<in> D \<Longrightarrow> R l \<subseteq> U) \<Longrightarrow> gsum R D \<subseteq> U"
proof
  fix c assume sub: "\<And>l. l \<in> D \<Longrightarrow> R l \<subseteq> U" and "c \<in> gsum R D"
  then have "card {l \<in> D. c \<in> R l} \<noteq> 0" by (auto simp: gsum_def intro: ccontr)
  then have "{l \<in> D. c \<in> R l} \<noteq> {}" by (metis card.empty)
  with sub show "c \<in> U" by auto
qed

lemma gsum_reindex:
  assumes "inj_on f D"
  shows "gsum R (f ` D) = gsum (\<lambda>d. R (f d)) D"
proof -
  have "card {l \<in> f ` D. c \<in> R l} = card {d \<in> D. c \<in> R (f d)}" for c
  proof -
    have "{l \<in> f ` D. c \<in> R l} = f ` {d \<in> D. c \<in> R (f d)}" by auto
    moreover have "inj_on f {d \<in> D. c \<in> R (f d)}" using assms by (auto intro: inj_on_subset)
    ultimately show ?thesis by (simp add: card_image)
  qed
  then show ?thesis by (simp add: gsum_def)
qed

lemma gsum_rename:
  assumes "finite D" and "inj_on f (\<Union>l \<in> D. R l)"
  shows "gsum (\<lambda>l. f ` R l) D = f ` gsum R D"
  using assms
proof (induction D)
  case empty
  then show ?case by simp
next
  case (insert l D)
  have inj: "inj_on f (R l \<union> (\<Union>l \<in> D. R l))" using insert.prems by simp
  have sub: "gsum R D \<subseteq> (\<Union>l \<in> D. R l)" by (rule gsum_subset) auto
  have "f ` (R l - gsum R D) = f ` R l - f ` gsum R D" "f ` (gsum R D - R l) = f ` gsum R D - f ` R l"
    by (rule inj_on_image_set_diff [OF inj]; use sub in blast)+
  then have "f ` sdiff (R l) (gsum R D) = sdiff (f ` R l) (f ` gsum R D)"
    by (simp add: sdiff_def image_Un)
  moreover have "gsum (\<lambda>l. f ` R l) D = f ` gsum R D"
    by (rule insert.IH) (use inj in \<open>auto intro: inj_on_subset\<close>)
  ultimately show ?case using insert.hyps by (simp add: gsum_insert)
qed

text \<open>Adding row \<open>p\<close> to row \<open>r\<close> changes a sum by toggling \<open>p\<close> in the selection.\<close>

lemma gsum_row_add:
  assumes "finite T" and "p \<noteq> r"
  shows "gsum (X(r := sdiff (X p) (X r))) T = gsum X (if r \<in> T then sdiff T {p} else T)"
proof (cases "r \<in> T")
  case False
  then have "gsum (X(r := sdiff (X p) (X r))) T = gsum X T" by (intro gsum_cong) auto
  with False show ?thesis by simp
next
  case True
  have out: "gsum (X(r := sdiff (X p) (X r))) (T - {r}) = gsum X (T - {r})" by (intro gsum_cong) auto
  have "gsum (X(r := sdiff (X p) (X r))) T = sdiff (sdiff (X p) (X r)) (gsum X (T - {r}))"
    using gsum_remove [OF assms(1) True, of "X(r := sdiff (X p) (X r))"] by (simp add: out)
  also have "\<dots> = sdiff (X p) (gsum X T)"
    using gsum_remove [OF assms(1) True, of X] by (simp add: sdiff_assoc)
  finally show ?thesis using True assms(1) by (simp add: gsum_toggle)
qed

section \<open>Reduction steps preserve the null space\<close>

text \<open>
  \<open>A\<close> is the finite set of surviving rows, \<open>R r\<close> the columns of row \<open>r\<close> and \<open>L r\<close> the set of
  original relations row \<open>r\<close> is the sum of; \<open>U\<close> is the set of original relations and \<open>orig\<close> their
  columns. Columns of the reduced matrix may be numbered differently, so rows are compared
  through the selections that sum to zero.
\<close>

definition dependency :: "('l \<Rightarrow> 'c set) \<Rightarrow> 'l set \<Rightarrow> 'l set \<Rightarrow> bool" where
  "dependency orig U D \<longleftrightarrow> D \<subseteq> U \<and> gsum orig D = {}"

definition represents ::
    "('l \<Rightarrow> 'c set) \<Rightarrow> 'l set \<Rightarrow> 'r set \<Rightarrow> ('r \<Rightarrow> 'd set) \<Rightarrow> ('r \<Rightarrow> 'l set) \<Rightarrow> bool" where
  "represents orig U A R L \<longleftrightarrow> finite U \<and> finite A \<and> (\<forall>r \<in> A. L r \<subseteq> U)
     \<and> (\<forall>T \<subseteq> A. gsum R T = {} \<longleftrightarrow> gsum orig (gsum L T) = {})
     \<and> (\<forall>D. dependency orig U D \<longrightarrow> (\<exists>T \<subseteq> A. gsum L T = D))"

lemma representsD:
  assumes "represents orig U A R L"
  shows "finite U" and "finite A" and "r \<in> A \<Longrightarrow> L r \<subseteq> U" and "T \<subseteq> A \<Longrightarrow> finite T" and "T \<subseteq> A \<Longrightarrow> gsum L T \<subseteq> U"
    and "T \<subseteq> A \<Longrightarrow> gsum R T = {} \<longleftrightarrow> gsum orig (gsum L T) = {}"
    and "dependency orig U D \<Longrightarrow> \<exists>T \<subseteq> A. gsum L T = D"
proof -
  show "T \<subseteq> A \<Longrightarrow> gsum L T \<subseteq> U"
    using assms by (intro gsum_subset) (auto simp: represents_def)
qed (use assms in \<open>auto simp: represents_def intro: finite_subset\<close>)

lemma representsI:
  assumes "finite U" and "finite A" and "\<And>r. r \<in> A \<Longrightarrow> L r \<subseteq> U"
    and "\<And>T. T \<subseteq> A \<Longrightarrow> gsum R T = {} \<longleftrightarrow> gsum orig (gsum L T) = {}"
    and "\<And>D. dependency orig U D \<Longrightarrow> \<exists>T \<subseteq> A. gsum L T = D"
  shows "represents orig U A R L"
  using assms by (simp add: represents_def)

text \<open>The dependencies among the original rows are exactly the expanded kernel vectors.\<close>

lemma represents_kernel:
  assumes "represents orig U A R L"
  shows "dependency orig U D \<longleftrightarrow> (\<exists>T \<subseteq> A. gsum R T = {} \<and> gsum L T = D)"
proof
  assume d: "dependency orig U D"
  then obtain T where "T \<subseteq> A" "gsum L T = D" using representsD(7) [OF assms] by blast
  with d show "\<exists>T \<subseteq> A. gsum R T = {} \<and> gsum L T = D"
    using representsD(6) [OF assms] by (auto simp: dependency_def)
next
  assume "\<exists>T \<subseteq> A. gsum R T = {} \<and> gsum L T = D"
  then show "dependency orig U D"
    using representsD(5,6) [OF assms] by (auto simp: dependency_def)
qed

lemma gsum_singletons: "finite D \<Longrightarrow> gsum (\<lambda>l. {l}) D = D"
  by (induction D rule: finite_induct) (auto simp: gsum_insert sdiff_def)

lemma represents_init:
  assumes "finite U" and "\<And>l. l \<in> U \<Longrightarrow> R l = orig l"
  shows "represents orig U U R (\<lambda>l. {l})"
proof -
  have "gsum R T = gsum orig T" if "T \<subseteq> U" for T
    using that assms(2) by (intro gsum_cong) auto
  then show ?thesis
    using assms(1) finite_subset [OF _ assms(1)]
    by (auto simp: represents_def dependency_def gsum_singletons)
qed

lemma represents_add:
  assumes rep: "represents orig U A R L" and p: "p \<in> A" "r \<in> A" "p \<noteq> r"
  shows "represents orig U A (R(r := sdiff (R p) (R r))) (L(r := sdiff (L p) (L r)))"
proof -
  let ?R = "R(r := sdiff (R p) (R r))" and ?L = "L(r := sdiff (L p) (L r))"
  let ?t = "\<lambda>T. if r \<in> T then sdiff T {p} else T"
  have fin: "T \<subseteq> A \<Longrightarrow> finite T" for T by (rule representsD(4) [OF rep])
  have sub: "T \<subseteq> A \<Longrightarrow> ?t T \<subseteq> A" for T using p by (auto simp: sdiff_def)
  have tt: "?t (?t T) = T" for T
  proof (cases "r \<in> T")
    case True
    then have "r \<in> sdiff T {p}" using p(3) by (auto simp: sdiff_def)
    with True show ?thesis by (simp add: sdiff_assoc)
  qed simp
  have kernel: "gsum ?R T = {} \<longleftrightarrow> gsum orig (gsum ?L T) = {}" if "T \<subseteq> A" for T
    unfolding gsum_row_add [OF fin [OF that] p(3)] by (rule representsD(6) [OF rep sub [OF that]])
  have complete: "\<exists>T \<subseteq> A. gsum ?L T = D" if dep: "dependency orig U D" for D
  proof -
    obtain T where T: "T \<subseteq> A" "gsum L T = D" using representsD(7) [OF rep dep] by blast
    have "gsum ?L (?t T) = gsum L (?t (?t T))"
      by (rule gsum_row_add [OF fin [OF sub [OF T(1)]] p(3)])
    then have "gsum ?L (?t T) = D" unfolding tt T(2) .
    with sub [OF T(1)] show ?thesis by blast
  qed
  have "sdiff (L p) (L r) \<subseteq> U" using representsD(3) [OF rep] p by (auto simp: sdiff_def)
  with kernel complete rep show ?thesis by (simp add: represents_def)
qed

text \<open>A row that alone contains some column belongs to no dependency and can be dropped.\<close>

lemma represents_drop:
  assumes rep: "represents orig U A R L" and p: "p \<in> A" "c \<in> R p"
    and alone: "\<And>r. r \<in> A \<Longrightarrow> c \<in> R r \<Longrightarrow> r = p"
  shows "represents orig U (A - {p}) R L"
proof -
  have complete: "\<exists>T \<subseteq> A - {p}. gsum L T = D" if dep: "dependency orig U D" for D
  proof -
    obtain T where T: "T \<subseteq> A" "gsum L T = D" using representsD(7) [OF rep dep] by blast
    have "gsum R T = {}" using representsD(6) [OF rep T(1)] T(2) dep by (simp add: dependency_def)
    then have "even (card {r \<in> T. c \<in> R r})" by (auto simp: gsum_def)
    moreover have "{r \<in> T. c \<in> R r} = (if p \<in> T then {p} else {})"
      using T(1) p(2) alone by auto
    ultimately have "p \<notin> T" by (auto split: if_splits)
    with T show ?thesis by blast
  qed
  have sub: "T \<subseteq> A - {p} \<Longrightarrow> T \<subseteq> A" for T by blast
  show ?thesis
    by (rule representsI)
       (use representsD(1,2,3) [OF rep] representsD(6) [OF rep sub] complete in auto)
qed

lemma represents_cong:
  assumes "represents orig U A R L"
    and "\<And>r. r \<in> A \<Longrightarrow> R r = R' r" and "\<And>r. r \<in> A \<Longrightarrow> L r = L' r"
  shows "represents orig U A R' L'"
proof -
  have "gsum R T = gsum R' T" "gsum L T = gsum L' T" if "T \<subseteq> A" for T
    using assms(2,3) that by (auto intro!: gsum_cong)
  note eq = this
  show ?thesis
  proof (rule representsI)
    show "\<And>r. r \<in> A \<Longrightarrow> L' r \<subseteq> U" using representsD(3) [OF assms(1)] assms(3) by simp
    show "\<And>T. T \<subseteq> A \<Longrightarrow> gsum R' T = {} \<longleftrightarrow> gsum orig (gsum L' T) = {}"
      using representsD(6) [OF assms(1)] eq by simp
    show "\<exists>T \<subseteq> A. gsum L' T = D" if "dependency orig U D" for D
      using representsD(7) [OF assms(1) that] eq by auto
  qed (use representsD(1,2) [OF assms(1)] in auto)
qed

text \<open>Renaming columns and renumbering rows.\<close>

lemma represents_rename:
  assumes rep: "represents orig U A R L" and f: "bij_betw f B A"
    and g: "inj_on g (\<Union>r \<in> A. R r)"
  shows "represents orig U B (\<lambda>b. g ` R (f b)) (\<lambda>b. L (f b))"
proof -
  have finB: "finite B" using f representsD(2) [OF rep] by (simp add: bij_betw_finite)
  have inj: "inj_on f T" and img: "f ` T \<subseteq> A" and fin: "finite T" if "T \<subseteq> B" for T
    using that f finB by (auto simp: bij_betw_def intro: inj_on_subset finite_subset)
  have sums: "gsum (\<lambda>b. g ` R (f b)) T = g ` gsum R (f ` T)"
      "gsum (\<lambda>b. L (f b)) T = gsum L (f ` T)" if "T \<subseteq> B" for T
  proof -
    have "inj_on g (\<Union>b \<in> T. R (f b))" using img [OF that] by (intro inj_on_subset [OF g]) auto
    then show "gsum (\<lambda>b. g ` R (f b)) T = g ` gsum R (f ` T)"
      using gsum_rename [of T g "\<lambda>b. R (f b)"] fin [OF that] gsum_reindex [OF inj [OF that], of R] by simp
    show "gsum (\<lambda>b. L (f b)) T = gsum L (f ` T)"
      using gsum_reindex [OF inj [OF that], of L] by simp
  qed
  have complete: "\<exists>T \<subseteq> B. gsum (\<lambda>b. L (f b)) T = D" if dep: "dependency orig U D" for D
  proof -
    obtain S where "S \<subseteq> A" "gsum L S = D" using representsD(7) [OF rep dep] by blast
    then obtain T where "T \<subseteq> B" "f ` T = S" using f by (metis bij_betw_def subset_image_iff)
    with sums(2) \<open>gsum L S = D\<close> show ?thesis by blast
  qed
  have "\<And>b. b \<in> B \<Longrightarrow> L (f b) \<subseteq> U"
    using f representsD(3) [OF rep] by (auto simp: bij_betw_def)
  then show ?thesis
    using representsD(1) [OF rep] finB complete
  proof (intro representsI)
    show "\<And>T. T \<subseteq> B \<Longrightarrow> gsum (\<lambda>b. g ` R (f b)) T = {}
        \<longleftrightarrow> gsum orig (gsum (\<lambda>b. L (f b)) T) = {}"
      using sums img representsD(6) [OF rep] by simp
  qed
qed

end
