(* ===== verification/Merge_Tree.thy ===== *)
theory Merge_Tree
  imports Prelude Gf2_Algebra "HOL-Library.Monad_Syntax"
begin

unbundle bit_operations_syntax

text \<open>
  The merge history of the matrix preprocessing, \<^verbatim>\<open>src/matrix/merge_tree.h\<close> and
  \<^verbatim>\<open>src/matrix/merge_tree.cpp\<close>: leaves are original relations, an internal node stands for the
  sum over GF(2) of its two children, and a kernel vector of the reduced matrix is expanded
  back to the relations it selects.

  Row and column numbers (\<^verbatim>\<open>uint32_t\<close> values that are only compared and used as indices) are
  natural numbers.
\<close>

section \<open>The tree and its expansion\<close>

record tree_node =
  left :: nat
  right :: nat

record merge_tree =
  num_leaves :: nat
  internal_nodes :: "tree_node list"

text \<open>
  The traversal loop of \<^verbatim>\<open>MergeTree::expand\<close>. The stack is a list with its top first. A node
  index outside the tree (the failing \<^verbatim>\<open>assert\<close>) is \<open>None\<close>, and so would be a loop that does not
  end.
\<close>

partial_function (option) expand_loop ::
    "merge_tree \<Rightarrow> nat list \<Rightarrow> nat list \<Rightarrow> nat list option" where
  "expand_loop t work out =
     (case work of
        [] \<Rightarrow> Some out
      | idx # work' \<Rightarrow>
          if idx < num_leaves t then expand_loop t work' (out @ [idx])
          else case vec_at (internal_nodes t) (idx - num_leaves t) of
                 None \<Rightarrow> None
               | Some nd \<Rightarrow> expand_loop t (right nd # left nd # work') out)"

definition expand :: "merge_tree \<Rightarrow> nat \<Rightarrow> nat list option" where
  "expand t node_idx = expand_loop t [node_idx] []"

text \<open>The frequency table of the leaves: \<^verbatim>\<open>freq[leaf]++\<close> on 32-bit counters.\<close>

fun freq_incr :: "nat \<Rightarrow> (nat \<times> u32) list \<Rightarrow> (nat \<times> u32) list" where
  "freq_incr l [] = [(l, 1)]"
| "freq_incr l ((k, n) # fs) = (if k = l then (k, n + 1) # fs else (k, n) # freq_incr l fs)"

definition bit_set :: "u64 list \<Rightarrow> nat \<Rightarrow> bool" where
  "bit_set packed i \<longleftrightarrow> (packed ! (i div 64)) AND (push_bit (i mod 64) 1) \<noteq> 0"

text \<open>
  The loop of \<^verbatim>\<open>expandKernelVector\<close> over the reduced rows, with its \<^verbatim>\<open>break\<close> at the end of the bit
  vector.
\<close>

fun kernel_loop ::
    "u64 list \<Rightarrow> nat list \<Rightarrow> merge_tree \<Rightarrow> nat list \<Rightarrow> (nat \<times> u32) list \<Rightarrow> (nat \<times> u32) list option" where
  "kernel_loop packed row_map t [] freq = Some freq"
| "kernel_loop packed row_map t (i # is) freq =
     (if i div 64 \<ge> length packed then Some freq
      else if \<not> bit_set packed i then kernel_loop packed row_map t is freq
      else do {
        nd \<leftarrow> vec_at row_map i;
        leaves \<leftarrow> expand t nd;
        kernel_loop packed row_map t is (fold freq_incr leaves freq)
      })"

definition expandKernelVector ::
    "u64 list \<Rightarrow> nat \<Rightarrow> nat list \<Rightarrow> merge_tree \<Rightarrow> nat list option" where
  "expandKernelVector packed_bits num_reduced_rows row_map t = do {
     freq \<leftarrow> kernel_loop packed_bits row_map t [0..<num_reduced_rows] [];
     Some (sort (map fst (filter (\<lambda>(leaf, n). n AND 1 \<noteq> 0) freq)))
   }"

section \<open>Expansion returns and yields the leaves\<close>

text \<open>A tree is well formed when the children of an internal node have smaller indices.\<close>

definition wf_tree :: "merge_tree \<Rightarrow> bool" where
  "wf_tree t \<longleftrightarrow> (\<forall>k \<in> {0..<length (internal_nodes t)}.
     left (internal_nodes t ! k) < num_leaves t + k \<and> right (internal_nodes t ! k) < num_leaves t + k)"

definition in_tree :: "merge_tree \<Rightarrow> nat \<Rightarrow> bool" where
  "in_tree t idx \<longleftrightarrow> idx < num_leaves t + length (internal_nodes t)"

function leaves :: "merge_tree \<Rightarrow> nat \<Rightarrow> nat list" where
  "leaves t idx =
     (if idx < num_leaves t then [idx]
      else let nd = internal_nodes t ! (idx - num_leaves t)
           in if left nd < idx \<and> right nd < idx then leaves t (right nd) @ leaves t (left nd) else [])"
  by pat_completeness auto
termination by (relation "measure snd") auto

declare leaves.simps [simp del]

lemma leaves_leaf: "idx < num_leaves t \<Longrightarrow> leaves t idx = [idx]"
  by (simp add: leaves.simps)

lemma wf_treeD:
  assumes "wf_tree t" and "in_tree t idx" and "\<not> idx < num_leaves t"
  shows "idx - num_leaves t < length (internal_nodes t)"
    and "left (internal_nodes t ! (idx - num_leaves t)) < idx"
    and "right (internal_nodes t ! (idx - num_leaves t)) < idx"
proof -
  have k: "idx - num_leaves t \<in> {0..<length (internal_nodes t)}" "num_leaves t + (idx - num_leaves t) = idx"
    using assms(2,3) by (auto simp: in_tree_def)
  then show "idx - num_leaves t < length (internal_nodes t)" by simp
  show "left (internal_nodes t ! (idx - num_leaves t)) < idx"
      "right (internal_nodes t ! (idx - num_leaves t)) < idx"
    using bspec [OF assms(1) [unfolded wf_tree_def] k(1)] k(2) by simp_all
qed

lemma leaves_node:
  assumes "wf_tree t" and "in_tree t idx" and "\<not> idx < num_leaves t"
  shows "leaves t idx = leaves t (right (internal_nodes t ! (idx - num_leaves t)))
      @ leaves t (left (internal_nodes t ! (idx - num_leaves t)))"
  using assms wf_treeD [OF assms] by (subst leaves.simps) (simp add: Let_def)

lemma leaves_bound: "x \<in> set (leaves t idx) \<Longrightarrow> x < num_leaves t"
  by (induction t idx rule: leaves.induct) (subst (asm) leaves.simps, auto simp: Let_def split: if_splits)

lemma expand_loop_step:
  assumes "wf_tree t"
  shows "in_tree t idx \<Longrightarrow> expand_loop t (idx # work) out = expand_loop t work (out @ leaves t idx)"
proof (induction idx arbitrary: work out rule: less_induct)
  case (less idx)
  show ?case
  proof (cases "idx < num_leaves t")
    case True
    then show ?thesis by (subst expand_loop.simps) (simp add: leaves_leaf)
  next
    case False
    let ?nd = "internal_nodes t ! (idx - num_leaves t)"
    note nd = wf_treeD [OF assms less.prems False]
    have "in_tree t (left ?nd)" "in_tree t (right ?nd)"
      using nd(2,3) less.prems by (auto simp: in_tree_def)
    then show ?thesis
      using False nd less.IH
      by (subst expand_loop.simps) (simp add: leaves_node [OF assms less.prems False])
  qed
qed

lemma expand_leaves: "wf_tree t \<Longrightarrow> in_tree t idx \<Longrightarrow> expand t idx = Some (leaves t idx)"
  unfolding expand_def by (simp add: expand_loop_step) (simp add: expand_loop.simps)

section \<open>Kernel vectors\<close>

text \<open>The frequency table counts modulo \<open>2 ^ 32\<close>, which does not disturb parity.\<close>

definition freq_ok :: "nat list \<Rightarrow> (nat \<times> u32) list \<Rightarrow> bool" where
  "freq_ok ls freq \<longleftrightarrow> distinct (map fst freq) \<and> fst ` set freq = set ls
     \<and> (\<forall>(l, n) \<in> set freq. n = of_nat (count_list ls l))"

lemma freq_incr_keys:
  "distinct (map fst fs) \<Longrightarrow> distinct (map fst (freq_incr l fs))"
  "fst ` set (freq_incr l fs) = insert l (fst ` set fs)"
  by (induction l fs rule: freq_incr.induct) (auto simp: image_iff)

lemma freq_incr_member:
  "distinct (map fst fs) \<Longrightarrow> (k, n) \<in> set (freq_incr l fs) \<Longrightarrow>
     (k \<noteq> l \<and> (k, n) \<in> set fs) \<or> (k = l \<and> (\<exists>m. (l, m) \<in> set fs \<and> n = m + 1))
     \<or> (k = l \<and> l \<notin> fst ` set fs \<and> n = 1)"
  by (induction l fs rule: freq_incr.induct) (auto simp: image_iff split: if_splits)

lemma freq_ok_incr:
  assumes "freq_ok ls fs"
  shows "freq_ok (l # ls) (freq_incr l fs)"
proof -
  have d: "distinct (map fst fs)" and k: "fst ` set fs = set ls"
    and c: "\<And>l n. (l, n) \<in> set fs \<Longrightarrow> n = of_nat (count_list ls l)"
    using assms by (auto simp: freq_ok_def)
  have "n = of_nat (count_list (l # ls) k)" if kn: "(k, n) \<in> set (freq_incr l fs)" for k n
    using freq_incr_member [OF d kn]
  proof (elim disjE conjE exE)
    assume "l \<notin> fst ` set fs" "k = l" "n = 1"
    then have "count_list ls l = 0" by (simp add: k count_list_0_iff)
    then show ?thesis using \<open>k = l\<close> \<open>n = 1\<close> by simp
  qed (auto dest: c simp: add.commute)
  then show ?thesis
    using freq_incr_keys(1) [OF d, of l] freq_incr_keys(2) [of l fs] k by (auto simp: freq_ok_def)
qed

lemma freq_ok_cong:
  assumes "freq_ok ls fs" and "mset ls = mset ms"
  shows "freq_ok ms fs"
proof -
  have "set ls = set ms" "\<And>l. count_list ls l = count_list ms l"
    using assms(2) by (metis set_mset_mset, metis count_mset)
  with assms(1) show ?thesis by (auto simp: freq_ok_def)
qed

lemma freq_ok_fold:
  "freq_ok ls fs \<Longrightarrow> freq_ok (ls @ ms) (fold freq_incr ms fs)"
proof (induction ms arbitrary: ls fs)
  case Nil
  then show ?case by simp
next
  case (Cons m ms)
  have "freq_ok ((m # ls) @ ms) (fold freq_incr ms (freq_incr m fs))"
    by (rule Cons.IH) (rule freq_ok_incr [OF Cons.prems])
  then have "freq_ok (ls @ m # ms) (fold freq_incr ms (freq_incr m fs))"
    by (rule freq_ok_cong) simp
  then show ?case by simp
qed

text \<open>The leaves selected by a bit vector.\<close>

definition selected :: "u64 list \<Rightarrow> nat \<Rightarrow> nat list" where
  "selected packed n = filter (\<lambda>i. i div 64 < length packed \<and> bit_set packed i) [0..<n]"

definition selected_leaves :: "u64 list \<Rightarrow> nat \<Rightarrow> nat list \<Rightarrow> merge_tree \<Rightarrow> nat list" where
  "selected_leaves packed n row_map t = concat (map (\<lambda>i. leaves t (row_map ! i)) (selected packed n))"

lemma kernel_loop_eq:
  assumes "wf_tree t" and "sorted is"
    and "\<forall>i \<in> set is. i < length row_map \<and> in_tree t (row_map ! i)"
  shows "kernel_loop packed row_map t is freq
    = Some (fold freq_incr (concat (map (\<lambda>i. leaves t (row_map ! i))
        (filter (\<lambda>i. i div 64 < length packed \<and> bit_set packed i) is))) freq)"
  using assms(2,3)
proof (induction "is" arbitrary: freq)
  case Nil
  then show ?case by simp
next
  case (Cons i "is")
  show ?case
  proof (cases "i div 64 \<ge> length packed")
    case True
    have "\<not> j div 64 < length packed" if "j \<in> set is" for j
      using True that Cons.prems(1) div_le_mono [of i j 64] by auto
    then have "filter (\<lambda>i. i div 64 < length packed \<and> bit_set packed i) is = []"
      by (auto simp: filter_empty_conv)
    with True show ?thesis by simp
  next
    case False
    then show ?thesis
      using Cons by (auto simp: expand_leaves [OF assms(1)])
  qed
qed

lemma and_1_odd: "(n :: u32) AND 1 \<noteq> 0 \<longleftrightarrow> odd n"
  by (simp add: and_one_eq odd_iff_mod_2_eq_one)

lemma odd_of_nat_u32: "odd (of_nat k :: u32) \<longleftrightarrow> odd k"
  by simp

lemma expandKernelVector_odd:
  assumes "wf_tree t" and "n \<le> length row_map" and "\<forall>nd \<in> set row_map. in_tree t nd"
  shows "\<exists>res. expandKernelVector packed n row_map t = Some res
    \<and> sorted_wrt (<) res \<and> set res = odd_in (selected_leaves packed n row_map t)
    \<and> (\<forall>l \<in> set res. l < num_leaves t)"
proof -
  define ls where "ls = selected_leaves packed n row_map t"
  define fs where "fs = fold freq_incr ls []"
  have "\<forall>i \<in> set [0..<n]. i < length row_map \<and> in_tree t (row_map ! i)"
    using assms(2,3) by auto
  then have loop: "kernel_loop packed row_map t [0..<n] [] = Some fs"
    unfolding fs_def ls_def selected_leaves_def selected_def
    by (intro kernel_loop_eq [OF assms(1)]) simp_all
  have "freq_ok [] []" by (simp add: freq_ok_def)
  from freq_ok_fold [OF this, of ls] have ok: "freq_ok ls fs" by (simp add: fs_def)
  define res where "res = sort (map fst (filter (\<lambda>(leaf, n). n AND 1 \<noteq> 0) fs))"
  have "distinct res" using ok unfolding res_def freq_ok_def by (simp add: distinct_map_filter)
  then have s: "sorted_wrt (<) res" by (simp add: strict_sorted_iff res_def)
  have "l \<in> set res \<longleftrightarrow> odd (count_list ls l)" for l
  proof -
    have "l \<in> set res \<longleftrightarrow> (\<exists>n. (l, n) \<in> set fs \<and> odd n)"
      unfolding res_def by (force simp: and_1_odd)
    also have "\<dots> \<longleftrightarrow> l \<in> set ls \<and> odd (count_list ls l)"
      using ok unfolding freq_ok_def by (force simp: image_iff)
    also have "\<dots> \<longleftrightarrow> odd (count_list ls l)"
      by (metis count_list_0_iff even_zero)
    finally show ?thesis .
  qed
  then have set: "set res = odd_in ls" by (auto simp: odd_in_def)
  have "\<forall>l \<in> set res. l < num_leaves t"
    using set odd_in_subset [of ls] leaves_bound
    unfolding ls_def selected_leaves_def by fastforce
  with s set loop show ?thesis
    unfolding expandKernelVector_def res_def ls_def by simp
qed

text \<open>
  C9. Expanding a kernel vector returns (the traversal ends, never leaves the tree and never
  reads outside the row map) and computes over GF(2): the result is the strictly sorted list of
  the original relations that occur an odd number of times below the selected reduced rows,
  even when a 32-bit occurrence counter wraps around.
\<close>

theorem expandKernelVector_correct:
  assumes "wf_tree t" and "n \<le> length row_map" and "\<forall>nd \<in> set row_map. in_tree t nd"
  shows "\<exists>res. expandKernelVector packed n row_map t = Some res
    \<and> sorted_wrt (<) res \<and> set res = odd_in (selected_leaves packed n row_map t)
    \<and> (\<forall>l \<in> set res. l < num_leaves t)"
  by (rule expandKernelVector_odd [OF assms])

definition sample_tree :: merge_tree where
  "sample_tree = \<lparr>num_leaves = 3, internal_nodes = [\<lparr>left = 0, right = 1\<rparr>, \<lparr>left = 3, right = 1\<rparr>]\<rparr>"

theorem expandKernelVector_correct_witness:
  "\<exists>res. expandKernelVector [3] 2 [4, 2] sample_tree = Some res \<and> sorted_wrt (<) res
    \<and> set res = odd_in (selected_leaves [3] 2 [4, 2] sample_tree) \<and> (\<forall>l \<in> set res. l < 3)"
  using expandKernelVector_correct [of sample_tree 2 "[4, 2]" "[3]"]
  by (simp add: sample_tree_def wf_tree_def in_tree_def atLeastLessThan_upt)

end
