(* ===== verification/Merge_Filter.thy ===== *)
theory Merge_Filter
  imports Merge_Tree
begin

text \<open>
  The structured elimination that shrinks the relation matrix before linear algebra,
  \<^verbatim>\<open>src/matrix/merge_filter.h\<close> and \<^verbatim>\<open>src/matrix/merge_filter.cpp\<close>: removal of singleton columns,
  merging of weight-2 columns and pivoting on columns of higher weight, with the matrix format
  and its validator from \<^verbatim>\<open>src/matrix/matrix_constructor.h\<close> and \<^verbatim>\<open>matrix_constructor.cu\<close>.

  Row and column indices are natural numbers, column weights are the 32-bit counters of the
  code, and a read outside a vector or a failed \<^verbatim>\<open>assert\<close> is \<open>None\<close>. Logging is left out.
\<close>

section \<open>Matrices\<close>

record csr =
  row_offsets :: "nat list"
  col_indices :: "nat list"
  n_rows :: nat
  n_cols :: nat

definition UINT32_MAX :: nat where
  "UINT32_MAX = 4294967295"

text \<open>
  The validator. The inner loop over the entries of one row checks bounds and strict increase;
  \<open>prev\<close> is the entry before, \<open>None\<close> at the start of the row.
\<close>

fun validate_entries :: "nat \<Rightarrow> nat option \<Rightarrow> nat list \<Rightarrow> bool" where
  "validate_entries n prev [] = True"
| "validate_entries n prev (c # cs) =
     (if c \<ge> n then False
      else if (case prev of None \<Rightarrow> False | Some p \<Rightarrow> c \<le> p) then False
      else validate_entries n (Some c) cs)"

fun validate_rows :: "csr \<Rightarrow> nat list \<Rightarrow> bool" where
  "validate_rows M [] = True"
| "validate_rows M (i # is) =
     (let start = row_offsets M ! i; fin = row_offsets M ! (i + 1)
      in if start > fin then False
         else if \<not> validate_entries (n_cols M) None (slice start fin (col_indices M)) then False
         else validate_rows M is)"

definition ValidateHostMatrixCSR :: "csr \<Rightarrow> bool" where
  "ValidateHostMatrixCSR M =
     (if length (row_offsets M) \<noteq> n_rows M + 1 then False
      else if row_offsets M ! 0 \<noteq> 0 then False
      else if last (row_offsets M) \<noteq> length (col_indices M) then False
      else validate_rows M [0..<n_rows M])"

text \<open>The entries of row \<open>r\<close>, as every loop over a row reads them.\<close>

definition csr_row :: "csr \<Rightarrow> nat \<Rightarrow> nat list option" where
  "csr_row M r = do {
     b \<leftarrow> vec_at (row_offsets M) r;
     e \<leftarrow> vec_at (row_offsets M) (r + 1);
     if b < e \<and> length (col_indices M) < e then None else Some (slice b e (col_indices M))
   }"

text \<open>A loop over the columns of a row that changes one entry of a per-column vector each.\<close>

definition for_cols :: "('a \<Rightarrow> 'a) \<Rightarrow> nat list \<Rightarrow> 'a list \<Rightarrow> 'a list option" where
  "for_cols f = ofold (\<lambda>c xs. if c < length xs then Some (xs[c := f (xs ! c)]) else None)"

abbreviation incr_cols :: "nat list \<Rightarrow> u32 list \<Rightarrow> u32 list option" where
  "incr_cols \<equiv> for_cols (\<lambda>w. w + 1)"

abbreviation decr_cols :: "nat list \<Rightarrow> u32 list \<Rightarrow> u32 list option" where
  "decr_cols \<equiv> for_cols (\<lambda>w. w - 1)"

section \<open>Column and row compaction\<close>

text \<open>
  \<open>compact_cols ws c k\<close> numbers the columns from \<open>c\<close> on whose weight is positive, starting at
  \<open>k\<close>: the old-to-new table, with \<^verbatim>\<open>UINT32_MAX\<close> for dropped columns, and the list of kept columns.
\<close>

fun compact_cols :: "u32 list \<Rightarrow> nat \<Rightarrow> nat \<Rightarrow> nat list \<times> nat list" where
  "compact_cols [] c k = ([], [])"
| "compact_cols (w # ws) c k =
     (if w > 0 then (case compact_cols ws (c + 1) (k + 1) of (o2n, m) \<Rightarrow> (k # o2n, c # m))
      else (case compact_cols ws (c + 1) k of (o2n, m) \<Rightarrow> (UINT32_MAX # o2n, m)))"

fun remap_row :: "nat list \<Rightarrow> nat list \<Rightarrow> nat list option" where
  "remap_row o2n [] = Some []"
| "remap_row o2n (c # cs) = do {
     nc \<leftarrow> vec_at o2n c;
     if nc = UINT32_MAX then None else do { rest \<leftarrow> remap_row o2n cs; Some (nc # rest) }
   }"

text \<open>
  The rebuild loop over the surviving rows: appends each remapped row (sorted again where
  \<open>resort\<close> says so) and its end offset, a 32-bit value.
\<close>

definition rebuild_rows ::
    "bool \<Rightarrow> nat list \<Rightarrow> nat list list \<Rightarrow> (nat list \<times> nat list) option" where
  "rebuild_rows resort o2n rws =
     ofold (\<lambda>rw (offs, cols). do {
         cs \<leftarrow> remap_row o2n rw;
         let cols' = cols @ (if resort then sort cs else cs);
         Some (offs @ [length cols' mod 2 ^ 32], cols')
       }) rws ([0], [])"

section \<open>Singleton removal\<close>

record singleton_result =
  sr_reduced :: csr
  sr_row_map :: "nat list"
  sr_col_map :: "nat list"
  sr_iterations :: nat
  sr_rows_removed :: nat
  sr_cols_removed :: nat

definition kMaxSingletonIterations :: nat where
  "kMaxSingletonIterations = 100"

definition initial_col_weight :: "csr \<Rightarrow> u32 list option" where
  "initial_col_weight M =
     ofold (\<lambda>r w. do { rw \<leftarrow> csr_row M r; incr_cols rw w }) [0..<n_rows M] (replicate (n_cols M) 0)"

fun has_singleton :: "u32 list \<Rightarrow> nat list \<Rightarrow> bool option" where
  "has_singleton w [] = Some False"
| "has_singleton w (c # cs) = do {
     x \<leftarrow> vec_at w c;
     if x = 1 then Some True else has_singleton w cs
   }"

definition singleton_row ::
    "csr \<Rightarrow> nat \<Rightarrow> bool list \<times> u32 list \<times> nat \<Rightarrow> (bool list \<times> u32 list \<times> nat) option" where
  "singleton_row M r = (\<lambda>(alive, w, removed). do {
     a \<leftarrow> vec_at alive r;
     if \<not> a then Some (alive, w, removed)
     else do {
       rw \<leftarrow> csr_row M r;
       hs \<leftarrow> has_singleton w rw;
       if hs then do { w' \<leftarrow> decr_cols rw w; Some (alive[r := False], w', removed + 1) }
       else Some (alive, w, removed)
     }
   })"

definition singleton_pass ::
    "csr \<Rightarrow> bool list \<times> u32 list \<Rightarrow> (bool list \<times> u32 list \<times> nat) option" where
  "singleton_pass M = (\<lambda>(alive, w). ofold (singleton_row M) [0..<n_rows M] (alive, w, 0))"

text \<open>The fixpoint loop, with the number of iterations it may still make.\<close>

fun singleton_loop ::
    "nat \<Rightarrow> csr \<Rightarrow> bool list \<Rightarrow> u32 list \<Rightarrow> nat \<Rightarrow> nat \<Rightarrow> (bool list \<times> u32 list \<times> nat \<times> nat) option" where
  "singleton_loop 0 M alive w tot iter = Some (alive, w, tot, iter)"
| "singleton_loop (Suc k) M alive w tot iter = do {
     (alive', w', removed) \<leftarrow> singleton_pass M (alive, w);
     if removed = 0 then Some (alive', w', tot + removed, iter + 1)
     else singleton_loop k M alive' w' (tot + removed) (iter + 1)
   }"

definition alive_rows :: "bool list \<Rightarrow> nat list" where
  "alive_rows alive = filter (\<lambda>r. alive ! r) [0..<length alive]"

definition removeSingletons :: "csr \<Rightarrow> singleton_result option" where
  "removeSingletons M = do {
     w0 \<leftarrow> initial_col_weight M;
     (alive, w, total_removed, iteration) \<leftarrow>
       singleton_loop kMaxSingletonIterations M (replicate (n_rows M) True) w0 0 0;
     let (o2n, cmap) = compact_cols w 0 0;
     let rmap = alive_rows alive;
     rws \<leftarrow> those (map (csr_row M) rmap);
     (offs, cols) \<leftarrow> rebuild_rows False o2n rws;
     if n_rows M - total_removed \<noteq> length rmap then None
     else Some \<lparr>sr_reduced = \<lparr>row_offsets = offs, col_indices = cols,
                   n_rows = n_rows M - total_removed, n_cols = length cmap\<rparr>,
                sr_row_map = rmap, sr_col_map = cmap, sr_iterations = iteration,
                sr_rows_removed = total_removed, sr_cols_removed = n_cols M - length cmap\<rparr>
   }"

section \<open>Weight-2 merges\<close>

fun xor_rows :: "nat list \<Rightarrow> nat list \<Rightarrow> nat list" where
  "xor_rows [] bs = bs"
| "xor_rows as [] = as"
| "xor_rows (a # as) (b # bs) =
     (if a < b then a # xor_rows as (b # bs)
      else if a > b then b # xor_rows (a # as) bs
      else xor_rows as bs)"

record merge_result =
  mr_reduced :: csr
  mr_row_map :: "nat list"
  mr_merge_tree :: merge_tree
  mr_merges_performed :: nat
  mr_rows_removed :: nat

record merge_state =
  ms_rows :: "nat list list"
  ms_tree :: merge_tree
  node_of :: "nat list"
  row_alive :: "bool list"
  col_weight :: "u32 list"
  col_rows :: "nat list list"
  ms_merges :: nat

definition csr_rows :: "csr \<Rightarrow> nat list list option" where
  "csr_rows M = those (map (csr_row M) [0..<n_rows M])"

text \<open>Column weights and the inverted index from columns to rows, filled in one pass.\<close>

definition index_columns ::
    "nat \<Rightarrow> nat list list \<Rightarrow> (u32 list \<times> nat list list) option" where
  "index_columns nc rws =
     ofold (\<lambda>r (w, cr). do {
         rw \<leftarrow> vec_at rws r;
         w' \<leftarrow> incr_cols rw w;
         cr' \<leftarrow> for_cols (\<lambda>rs. rs @ [r]) rw cr;
         Some (w', cr')
       }) [0..<length rws] (replicate nc 0, replicate nc [])"

definition add_node :: "nat \<Rightarrow> nat \<Rightarrow> merge_tree \<Rightarrow> nat \<times> merge_tree" where
  "add_node a b t =
     (let t' = t\<lparr>internal_nodes := internal_nodes t @ [\<lparr>left = a, right = b\<rparr>]\<rparr>
      in ((num_leaves t' + length (internal_nodes t') - 1) mod 2 ^ 32, t'))"

text \<open>
  The search for the two live rows of a column; \<open>None\<close> for a row not found stands for
  \<^verbatim>\<open>UINT32_MAX\<close>, which is not a row number.
\<close>

fun find_two :: "bool list \<Rightarrow> nat list \<Rightarrow> nat option \<Rightarrow> (nat option \<times> nat option) option" where
  "find_two alive [] r1 = Some (r1, None)"
| "find_two alive (r # rs) r1 = do {
     a \<leftarrow> vec_at alive r;
     if \<not> a then find_two alive rs r1
     else case r1 of None \<Rightarrow> find_two alive rs (Some r) | Some _ \<Rightarrow> Some (r1, Some r)
   }"

text \<open>\<^verbatim>\<open>std::binary_search\<close> in a sorted row is membership.\<close>

definition in_row :: "nat list \<Rightarrow> nat \<Rightarrow> bool" where
  "in_row rw c \<longleftrightarrow> c \<in> set rw"

definition merge_pair :: "merge_state \<Rightarrow> nat \<Rightarrow> nat \<Rightarrow> (merge_state \<times> nat list) option" where
  "merge_pair st r1 r2 = do {
     old1 \<leftarrow> vec_at (ms_rows st) r1;
     old2 \<leftarrow> vec_at (ms_rows st) r2;
     n1 \<leftarrow> vec_at (node_of st) r1;
     n2 \<leftarrow> vec_at (node_of st) r2;
     _ \<leftarrow> vec_at (row_alive st) r2;
     let new_row = xor_rows old1 old2;
     let (new_node, t) = add_node n1 n2 (ms_tree st);
     w1 \<leftarrow> decr_cols old1 (col_weight st);
     w2 \<leftarrow> decr_cols old2 w1;
     cr1 \<leftarrow> for_cols (filter (\<lambda>r. r \<noteq> r2)) old2 (col_rows st);
     cr2 \<leftarrow> for_cols (filter (\<lambda>r. r \<noteq> r1)) (filter (\<lambda>c. \<not> in_row new_row c) old1) cr1;
     w3 \<leftarrow> incr_cols new_row w2;
     cr3 \<leftarrow> for_cols (\<lambda>rs. rs @ [r1]) (filter (\<lambda>c. \<not> in_row old1 c) new_row) cr2;
     Some (st\<lparr>ms_rows := ((ms_rows st)[r1 := new_row])[r2 := []],
              ms_tree := t, node_of := (node_of st)[r1 := new_node],
              row_alive := (row_alive st)[r2 := False],
              col_weight := w3, col_rows := cr3, ms_merges := ms_merges st + 1\<rparr>,
           old1 @ old2 @ new_row)
   }"

text \<open>
  The set of weight-2 columns is kept sorted, as \<^verbatim>\<open>std::set\<close> iterates it. The columns touched by
  a merge enter it when their weight has become 2.
\<close>

definition insert_w2 :: "u32 list \<Rightarrow> nat list \<Rightarrow> nat list \<Rightarrow> nat list option" where
  "insert_w2 w touched w2 =
     ofold (\<lambda>c s. do { x \<leftarrow> vec_at w c; Some (if x = 2 then insort_insert c s else s) }) touched w2"

lemma find_two_alive:
  "find_two alive rs r1 = Some (a, Some r2) \<Longrightarrow> r2 < length alive \<and> alive ! r2 \<and> r2 \<in> set rs"
  by (induction alive rs r1 rule: find_two.induct)
     (auto simp: bind_eq_Some_conv split: if_splits option.splits)

lemma merge_pair_alive:
  "merge_pair st r1 r2 = Some (st', touched) \<Longrightarrow> row_alive st' = (row_alive st)[r2 := False]"
  by (auto simp: merge_pair_def bind_eq_Some_conv Let_def split: prod.splits)

lemma count_True_update:
  "r < length xs \<Longrightarrow> xs ! r \<Longrightarrow> count_list (xs[r := False]) True < count_list xs True"
proof (induction xs arbitrary: r)
  case Nil
  then show ?case by simp
next
  case (Cons x xs)
  then show ?case by (cases r) auto
qed

text \<open>
  The worklist loop. A merge kills a live row, so the loop ends: the number of live rows
  decreases, or it stays and the worklist gets shorter.
\<close>

function merge2_loop :: "merge_state \<Rightarrow> nat list \<Rightarrow> merge_state option" where
  "merge2_loop st [] = Some st"
| "merge2_loop st (c # w2) =
     (case vec_at (col_weight st) c of
        None \<Rightarrow> None
      | Some x \<Rightarrow>
          if x \<noteq> 2 then merge2_loop st w2
          else case vec_at (col_rows st) c of
                 None \<Rightarrow> None
               | Some rs \<Rightarrow>
                   (case find_two (row_alive st) rs None of
                      None \<Rightarrow> None
                    | Some (Some r1, Some r2) \<Rightarrow>
                        (case merge_pair st r1 r2 of
                           None \<Rightarrow> None
                         | Some (st', touched) \<Rightarrow>
                             (case insert_w2 (col_weight st') touched w2 of
                                None \<Rightarrow> None
                              | Some w2' \<Rightarrow> merge2_loop st' w2'))
                    | Some (Some r1, None) \<Rightarrow> merge2_loop st w2
                    | Some (None, _) \<Rightarrow> merge2_loop st w2))"
  by pat_completeness auto
termination
  by (relation "measures [\<lambda>(st, w2). count_list (row_alive st) True, \<lambda>(st, w2). length w2]")
     (auto dest!: find_two_alive merge_pair_alive simp: count_True_update)

definition weight2_cols :: "u32 list \<Rightarrow> nat list" where
  "weight2_cols w = filter (\<lambda>c. w ! c = 2) [0..<length w]"

text \<open>The rebuild of a compacted matrix from the final state (steps 6 and 7 of both merge passes).\<close>

definition rebuild :: "bool \<Rightarrow> merge_state \<Rightarrow> (csr \<times> nat list) option" where
  "rebuild resort st = do {
     let (o2n, cmap) = compact_cols (col_weight st) 0 0;
     let live = alive_rows (row_alive st);
     rws \<leftarrow> those (map (vec_at (ms_rows st)) live);
     nodes \<leftarrow> those (map (vec_at (node_of st)) live);
     (offs, cols) \<leftarrow> rebuild_rows resort o2n rws;
     Some (\<lparr>row_offsets = offs, col_indices = cols, n_rows = length nodes,
             n_cols = length cmap\<rparr>, nodes)
   }"

definition initial_state ::
    "nat \<Rightarrow> nat list list \<Rightarrow> merge_tree \<Rightarrow> nat list \<Rightarrow> merge_state option" where
  "initial_state nc rws t nodes = do {
     (w, cr) \<leftarrow> index_columns nc rws;
     Some \<lparr>ms_rows = rws, ms_tree = t, node_of = nodes,
           row_alive = replicate (length rws) True, col_weight = w, col_rows = cr, ms_merges = 0\<rparr>
   }"

definition mergeWeight2 :: "csr \<Rightarrow> nat list \<Rightarrow> merge_result option" where
  "mergeWeight2 M input_row_map = do {
     rws \<leftarrow> csr_rows M;
     let t = \<lparr>num_leaves = (if input_row_map = [] then 0
                            else (Max (set input_row_map) + 1) mod 2 ^ 32),
             internal_nodes = []\<rparr>;
     nodes \<leftarrow> those (map (vec_at input_row_map) [0..<n_rows M]);
     st0 \<leftarrow> initial_state (n_cols M) rws t nodes;
     st \<leftarrow> merge2_loop st0 (weight2_cols (col_weight st0));
     (reduced, rmap) \<leftarrow> rebuild False st;
     Some \<lparr>mr_reduced = reduced, mr_row_map = rmap, mr_merge_tree = ms_tree st,
           mr_merges_performed = ms_merges st, mr_rows_removed = ms_merges st\<rparr>
   }"

section \<open>Higher-weight merges\<close>

definition lightest :: "merge_state \<Rightarrow> nat list \<Rightarrow> nat" where
  "lightest st containing =
     fold (\<lambda>i best. if length (ms_rows st ! (containing ! i)) < length (ms_rows st ! (containing ! best))
                    then i else best) [1..<length containing] 0"

fun plan_merges ::
    "merge_state \<Rightarrow> nat \<Rightarrow> nat \<Rightarrow> nat list \<Rightarrow> (nat \<times> nat list) list \<Rightarrow> (bool \<times> (nat \<times> nat list) list) option" where
  "plan_merges st effective_max pivot [] plan = Some (True, plan)"
| "plan_merges st effective_max pivot (r # rs) plan = do {
     prow \<leftarrow> vec_at (ms_rows st) pivot;
     rrow \<leftarrow> vec_at (ms_rows st) r;
     let candidate = xor_rows prow rrow;
     if length candidate > effective_max then Some (False, plan)
     else plan_merges st effective_max pivot rs (plan @ [(r, candidate)])
   }"

definition commit_merge :: "nat \<Rightarrow> nat \<times> nat list \<Rightarrow> merge_state \<Rightarrow> merge_state option" where
  "commit_merge pivot = (\<lambda>(r, candidate) st. do {
     np \<leftarrow> vec_at (node_of st) pivot;
     nr \<leftarrow> vec_at (node_of st) r;
     let (new_node, t) = add_node np nr (ms_tree st);
     old \<leftarrow> vec_at (ms_rows st) r;
     w1 \<leftarrow> decr_cols old (col_weight st);
     cr1 \<leftarrow> for_cols (filter (\<lambda>x. x \<noteq> r)) (filter (\<lambda>c. \<not> in_row candidate c) old) (col_rows st);
     w2 \<leftarrow> incr_cols candidate w1;
     cr2 \<leftarrow> for_cols (\<lambda>rs. rs @ [r]) (filter (\<lambda>c. \<not> in_row old c) candidate) cr1;
     Some (st\<lparr>ms_rows := (ms_rows st)[r := candidate], ms_tree := t,
              node_of := (node_of st)[r := new_node], col_weight := w2, col_rows := cr2\<rparr>)
   })"

definition delete_pivot :: "nat \<Rightarrow> merge_state \<Rightarrow> merge_state option" where
  "delete_pivot pivot st = do {
     prow \<leftarrow> vec_at (ms_rows st) pivot;
     w \<leftarrow> decr_cols prow (col_weight st);
     cr \<leftarrow> for_cols (filter (\<lambda>x. x \<noteq> pivot)) prow (col_rows st);
     _ \<leftarrow> vec_at (row_alive st) pivot;
     Some (st\<lparr>row_alive := (row_alive st)[pivot := False], ms_rows := (ms_rows st)[pivot := []],
              col_weight := w, col_rows := cr, ms_merges := ms_merges st + 1\<rparr>)
   }"

definition eliminate_column :: "nat \<Rightarrow> nat \<Rightarrow> nat \<Rightarrow> merge_state \<Rightarrow> merge_state option" where
  "eliminate_column k_max effective_max c st = do {
     x \<leftarrow> vec_at (col_weight st) c;
     if x = 0 then Some st
     else if unat x > k_max then Some st
     else do {
       rs \<leftarrow> vec_at (col_rows st) c;
       flags \<leftarrow> those (map (vec_at (row_alive st)) rs);
       let containing = filter (\<lambda>r. row_alive st ! r) rs;
       if length containing < 2 then Some st
       else do {
         let pivot_idx = lightest st containing;
         let pivot = containing ! pivot_idx;
         let others = take pivot_idx containing @ drop (Suc pivot_idx) containing;
         (feasible, plan) \<leftarrow> plan_merges st effective_max pivot others [];
         if feasible \<and> plan \<noteq> [] then do {
           st' \<leftarrow> ofold (commit_merge pivot) plan st;
           delete_pivot pivot st'
         }
         else Some st
       }
     }
   }"

definition weight_pass :: "nat \<Rightarrow> nat \<Rightarrow> nat \<Rightarrow> merge_state \<Rightarrow> merge_state option" where
  "weight_pass k_max effective_max w st =
     ofold (eliminate_column k_max effective_max)
       (filter (\<lambda>c. col_weight st ! c = of_nat w) [0..<length (col_weight st)]) st"

definition mergeHigherWeight ::
    "float_env \<Rightarrow> merge_result \<Rightarrow> nat \<Rightarrow> nat \<Rightarrow> merge_result option" where
  "mergeHigherWeight F input k_max max_weight = do {
     rws \<leftarrow> csr_rows (mr_reduced input);
     let total_nnz = sum_list (map length rws);
     let avg_initial = fl F (of_nat total_nnz / of_nat (max 1 (n_rows (mr_reduced input))));
     let effective_max = max max_weight (unat (ucast (d2u F (fl F (2 * avg_initial))) :: u32));
     st0 \<leftarrow> initial_state (n_cols (mr_reduced input)) rws (mr_merge_tree input) (mr_row_map input);
     st \<leftarrow> ofold (weight_pass k_max effective_max) [3..<Suc k_max] st0;
     (reduced, rmap) \<leftarrow> rebuild True st;
     Some \<lparr>mr_reduced = reduced, mr_row_map = rmap, mr_merge_tree = ms_tree st,
           mr_merges_performed = ms_merges st, mr_rows_removed = ms_merges st\<rparr>
   }"

section \<open>Rows and column loops\<close>

lemma xor_rows_Nil2 [simp]: "xor_rows as [] = as"
  by (cases as) simp_all

lemma set_xor_rows_subset: "set (xor_rows as bs) \<subseteq> set as \<union> set bs"
  by (induction as bs rule: xor_rows.induct) auto

text \<open>\<open>xor_rows\<close> is addition over GF(2) on strictly sorted rows.\<close>

lemma xor_rows_correct:
  "sorted_wrt (<) as \<Longrightarrow> sorted_wrt (<) bs \<Longrightarrow>
     sorted_wrt (<) (xor_rows as bs) \<and> set (xor_rows as bs) = sdiff (set as) (set bs)"
proof (induction as bs rule: xor_rows.induct)
  case (3 a as b bs)
  consider "a < b" | "b < a" | "a = b" by linarith
  then show ?case
  proof cases
    case 1
    then have "a \<notin> set (b # bs)" "a \<notin> set as" using "3.prems" by auto
    then show ?thesis
      using 1 "3.IH"(1) "3.prems" set_xor_rows_subset [of as "b # bs"] by (auto simp: sdiff_def)
  next
    case 2
    then have "b \<notin> set (a # as)" "b \<notin> set bs" using "3.prems" by auto
    then show ?thesis
      using 2 "3.IH"(2) "3.prems" set_xor_rows_subset [of "a # as" bs] by (auto simp: sdiff_def)
  next
    case 3
    then have "a \<notin> set as" "a \<notin> set bs" using "3.prems" by auto
    then show ?thesis using 3 "3.IH"(3) "3.prems" by (auto simp: sdiff_def)
  qed
qed (simp_all add: sdiff_def)

lemma sorted_lt_distinct: "sorted_wrt (<) (xs :: nat list) \<Longrightarrow> distinct xs"
  by (simp add: strict_sorted_iff)

lemma for_cols_eq:
  "distinct cols \<Longrightarrow> \<forall>c \<in> set cols. c < length xs \<Longrightarrow>
     \<exists>ys. for_cols f cols xs = Some ys \<and> length ys = length xs
       \<and> (\<forall>c < length xs. ys ! c = (if c \<in> set cols then f (xs ! c) else xs ! c))"
proof (induction cols arbitrary: xs)
  case Nil
  then show ?case by (simp add: for_cols_def)
next
  case (Cons c cols)
  then have c: "c < length xs" "c \<notin> set cols" by auto
  from Cons.IH [of "xs[c := f (xs ! c)]"] Cons.prems obtain ys where
    "for_cols f cols (xs[c := f (xs ! c)]) = Some ys" "length ys = length xs"
    "\<forall>d < length xs. ys ! d = (if d \<in> set cols then f (xs[c := f (xs ! c)] ! d) else xs[c := f (xs ! c)] ! d)"
    by auto
  with c show ?case by (auto simp: for_cols_def nth_list_update)
qed

text \<open>The same, in the form the loops of the merge passes use: the result is determined pointwise.\<close>

definition upd_cols :: "('a \<Rightarrow> 'a) \<Rightarrow> nat set \<Rightarrow> 'a list \<Rightarrow> 'a list" where
  "upd_cols f C xs = map (\<lambda>c. if c \<in> C then f (xs ! c) else xs ! c) [0..<length xs]"

lemma upd_cols_simps [simp]:
  "length (upd_cols f C xs) = length xs"
  "c < length xs \<Longrightarrow> upd_cols f C xs ! c = (if c \<in> C then f (xs ! c) else xs ! c)"
  by (simp_all add: upd_cols_def)

lemma for_cols_upd:
  assumes "distinct cols" and "\<forall>c \<in> set cols. c < length xs"
  shows "for_cols f cols xs = Some (upd_cols f (set cols) xs)"
proof -
  obtain ys where ys: "for_cols f cols xs = Some ys" "length ys = length xs"
      "\<forall>c < length xs. ys ! c = (if c \<in> set cols then f (xs ! c) else xs ! c)"
    using for_cols_eq [OF assms, of f] by auto
  then have "ys = upd_cols f (set cols) xs" by (intro nth_equalityI) auto
  with ys(1) show ?thesis by simp
qed

section \<open>Merge trees grow at the end\<close>

lemma add_node_eq:
  assumes "num_leaves t + length (internal_nodes t) < 2 ^ 32"
  shows "add_node a b t = (num_leaves t + length (internal_nodes t),
           t\<lparr>internal_nodes := internal_nodes t @ [\<lparr>left = a, right = b\<rparr>]\<rparr>)"
  using assms by (simp add: add_node_def Let_def)

lemma wf_tree_add:
  assumes "wf_tree t" and "in_tree t a" and "in_tree t b"
  shows "wf_tree (t\<lparr>internal_nodes := internal_nodes t @ [\<lparr>left = a, right = b\<rparr>]\<rparr>)"
  using assms by (auto simp: wf_tree_def in_tree_def nth_append less_Suc_eq)

lemma leaves_add_old:
  assumes "wf_tree t"
  shows "in_tree t idx \<Longrightarrow>
    leaves (t\<lparr>internal_nodes := internal_nodes t @ [nd]\<rparr>) idx = leaves t idx"
proof (induction idx rule: less_induct)
  case (less idx)
  show ?case
  proof (cases "idx < num_leaves t")
    case True
    then show ?thesis by (simp add: leaves_leaf)
  next
    case False
    note nd = wf_treeD [OF assms less.prems False]
    have "in_tree t (left (internal_nodes t ! (idx - num_leaves t)))"
        "in_tree t (right (internal_nodes t ! (idx - num_leaves t)))"
      using nd less.prems by (auto simp: in_tree_def)
    then show ?thesis
      using nd less.IH False leaves_node [OF assms less.prems False]
      by (subst leaves.simps) (simp add: Let_def nth_append)
  qed
qed

lemma leaves_add_new:
  assumes "wf_tree t" and "in_tree t a" and "in_tree t b"
  shows "leaves (t\<lparr>internal_nodes := internal_nodes t @ [\<lparr>left = a, right = b\<rparr>]\<rparr>)
      (num_leaves t + length (internal_nodes t)) = leaves t b @ leaves t a"
  using leaves_add_old [OF assms(1,2)] leaves_add_old [OF assms(1,3)] assms(2,3)
  by (subst leaves.simps) (simp add: Let_def in_tree_def)

section \<open>The invariant of the merge passes\<close>

definition live :: "merge_state \<Rightarrow> nat set" where
  "live st = {r. r < length (ms_rows st) \<and> row_alive st ! r}"

definition occ :: "merge_state \<Rightarrow> nat \<Rightarrow> nat set" where
  "occ st c = {r \<in> live st. c \<in> set (ms_rows st ! r)}"

definition columns_ok :: "merge_state \<Rightarrow> bool" where
  "columns_ok st \<longleftrightarrow> (\<forall>c < length (col_weight st).
     distinct (col_rows st ! c) \<and> set (col_rows st ! c) = occ st c
     \<and> col_weight st ! c = of_nat (card (occ st c)))"

definition rows_ok :: "merge_state \<Rightarrow> bool" where
  "rows_ok st \<longleftrightarrow> (\<forall>r < length (ms_rows st). sorted_wrt (<) (ms_rows st ! r)
     \<and> (\<forall>c \<in> set (ms_rows st ! r). c < length (col_weight st)))"

definition tree_ok :: "merge_state \<Rightarrow> bool" where
  "tree_ok st \<longleftrightarrow> wf_tree (ms_tree st) \<and> (\<forall>r \<in> live st. in_tree (ms_tree st) (node_of st ! r))"

definition shape_ok :: "merge_state \<Rightarrow> bool" where
  "shape_ok st \<longleftrightarrow> length (node_of st) = length (ms_rows st)
     \<and> length (row_alive st) = length (ms_rows st)
     \<and> length (col_rows st) = length (col_weight st) \<and> length (ms_rows st) < 2 ^ 32"

definition leaf_set :: "merge_state \<Rightarrow> nat \<Rightarrow> nat set" where
  "leaf_set st r = odd_in (leaves (ms_tree st) (node_of st ! r))"

definition state_represents :: "(nat \<Rightarrow> nat set) \<Rightarrow> nat set \<Rightarrow> merge_state \<Rightarrow> bool" where
  "state_represents orig U st \<longleftrightarrow>
     represents orig U (live st) (\<lambda>r. set (ms_rows st ! r)) (leaf_set st)"

definition merge_inv :: "(nat \<Rightarrow> nat set) \<Rightarrow> nat set \<Rightarrow> merge_state \<Rightarrow> bool" where
  "merge_inv orig U st \<longleftrightarrow> shape_ok st \<and> rows_ok st \<and> columns_ok st \<and> tree_ok st
     \<and> state_represents orig U st"

lemmas merge_inv_defs = merge_inv_def shape_ok_def rows_ok_def columns_ok_def tree_ok_def

lemma finite_live [simp]: "finite (live st)"
  by (simp add: live_def)

lemma finite_occ [simp]: "finite (occ st c)"
  by (simp add: occ_def)

lemma card_occ_bound: "shape_ok st \<Longrightarrow> card (occ st c) < 2 ^ 32"
proof -
  assume "shape_ok st"
  have "card (occ st c) \<le> card {0..<length (ms_rows st)}"
    by (rule card_mono) (auto simp: occ_def live_def)
  with \<open>shape_ok st\<close> show ?thesis by (simp add: shape_ok_def)
qed

lemma col_weight_card:
  assumes "merge_inv orig U st" and "c < length (col_weight st)"
  shows "unat (col_weight st ! c) = card (occ st c)"
proof -
  have "shape_ok st" "col_weight st ! c = of_nat (card (occ st c))"
    using assms by (auto simp: merge_inv_defs)
  with card_occ_bound [of st c] show ?thesis by (simp add: unat_of_nat)
qed

lemma of_nat_card_remove:
  "finite A \<Longrightarrow> of_nat (card (A - {r})) = (of_nat (card A) - (if r \<in> A then 1 else 0) :: u32)"
  using card_Suc_Diff1 [of A r]
  by (auto simp: card_Diff_singleton_if algebra_simps)

lemma of_nat_card_insert:
  "finite A \<Longrightarrow> of_nat (card (insert r A)) = (of_nat (card A) + (if r \<in> A then 0 else 1) :: u32)"
  by (auto simp: card_insert_if insert_absorb)

lemma live_row:
  assumes "merge_inv orig U st" and "r \<in> live st"
  shows "r < length (ms_rows st)" "r < length (node_of st)" "r < length (row_alive st)"
    "row_alive st ! r" "sorted_wrt (<) (ms_rows st ! r)" "distinct (ms_rows st ! r)"
    "\<forall>c \<in> set (ms_rows st ! r). c < length (col_weight st)"
    "\<forall>c \<in> set (ms_rows st ! r). c < length (col_rows st)"
    "in_tree (ms_tree st) (node_of st ! r)"
  using assms by (auto simp: merge_inv_defs live_def intro: sorted_lt_distinct)

text \<open>Replacing one live row by another, with the updates of the weights and of the index.\<close>

definition reindex :: "nat \<Rightarrow> nat set \<Rightarrow> nat set \<Rightarrow> nat list list \<Rightarrow> nat list list" where
  "reindex r old new cr =
     upd_cols (\<lambda>rs. rs @ [r]) (new - old) (upd_cols (filter (\<lambda>x. x \<noteq> r)) (old - new) cr)"

definition reweigh :: "nat set \<Rightarrow> nat set \<Rightarrow> u32 list \<Rightarrow> u32 list" where
  "reweigh old new w = upd_cols (\<lambda>x. x + 1) new (upd_cols (\<lambda>x. x - 1) old w)"

text \<open>
  The two primitive effects of the passes: row \<open>p\<close> is added to row \<open>r\<close>, recorded by a new tree
  node \<open>nd\<close>, and row \<open>p\<close> is deleted.
\<close>

definition row_added :: "merge_state \<Rightarrow> tree_node \<Rightarrow> nat \<Rightarrow> nat list \<Rightarrow> merge_state" where
  "row_added st nd r new =
     st\<lparr>ms_rows := (ms_rows st)[r := new],
        ms_tree := (ms_tree st)\<lparr>internal_nodes := internal_nodes (ms_tree st) @ [nd]\<rparr>,
        node_of := (node_of st)[r := num_leaves (ms_tree st) + length (internal_nodes (ms_tree st))],
        col_weight := reweigh (set (ms_rows st ! r)) (set new) (col_weight st),
        col_rows := reindex r (set (ms_rows st ! r)) (set new) (col_rows st)\<rparr>"

definition row_deleted :: "merge_state \<Rightarrow> nat \<Rightarrow> merge_state" where
  "row_deleted st p =
     st\<lparr>row_alive := (row_alive st)[p := False], ms_rows := (ms_rows st)[p := []],
        col_weight := upd_cols (\<lambda>x. x - 1) (set (ms_rows st ! p)) (col_weight st),
        col_rows := upd_cols (filter (\<lambda>x. x \<noteq> p)) (set (ms_rows st ! p)) (col_rows st),
        ms_merges := ms_merges st + 1\<rparr>"

lemma xor_row_facts:
  assumes inv: "merge_inv orig U st" and p: "p \<in> live st" and r: "r \<in> live st"
    and new: "new = xor_rows (ms_rows st ! p) (ms_rows st ! r)"
  shows "sorted_wrt (<) new" "distinct new"
    "set new = sdiff (set (ms_rows st ! p)) (set (ms_rows st ! r))"
    "\<forall>c \<in> set new. c < length (col_weight st) \<and> c < length (col_rows st)"
proof -
  note lp = live_row [OF inv p] and lr = live_row [OF inv r]
  show s: "sorted_wrt (<) new" "set new = sdiff (set (ms_rows st ! p)) (set (ms_rows st ! r))"
    using xor_rows_correct [OF lp(5) lr(5)] by (auto simp: new)
  show "distinct new" using s(1) by (rule sorted_lt_distinct)
  show "\<forall>c \<in> set new. c < length (col_weight st) \<and> c < length (col_rows st)"
    using s(2) lp(7,8) lr(7,8) by (auto simp: sdiff_def)
qed

lemma commit_merge_eq:
  assumes inv: "merge_inv orig U st" and p: "p \<in> live st" and r: "r \<in> live st"
    and room: "num_leaves (ms_tree st) + length (internal_nodes (ms_tree st)) < 2 ^ 32"
    and new: "new = xor_rows (ms_rows st ! p) (ms_rows st ! r)"
  shows "commit_merge p (r, new) st
    = Some (row_added st \<lparr>left = node_of st ! p, right = node_of st ! r\<rparr> r new)"
  unfolding commit_merge_def row_added_def
  using live_row [OF inv p] live_row [OF inv r] xor_row_facts [OF inv p r new]
  by (simp add: add_node_eq [OF room] for_cols_upd in_row_def reweigh_def reindex_def set_diff_eq)

lemma delete_pivot_eq:
  assumes inv: "merge_inv orig U st" and p: "p \<in> live st"
  shows "delete_pivot p st = Some (row_deleted st p)"
  unfolding delete_pivot_def row_deleted_def
  using live_row [OF inv p] by (simp add: for_cols_upd)

lemma reweigh_card:
  assumes "w ! c = of_nat (card A)" and "finite A" and "c < length w"
    and "r \<in> A \<longleftrightarrow> c \<in> old"
  shows "reweigh old new w ! c = of_nat (card ((A - {r}) \<union> (if c \<in> new then {r} else {})))"
  using assms by (auto simp: reweigh_def of_nat_card_remove of_nat_card_insert)

lemma reindex_nth:
  assumes "distinct (cr ! c)" and "set (cr ! c) = A" and "c < length cr"
    and "r \<in> A \<longleftrightarrow> c \<in> old"
  shows "distinct (reindex r old new cr ! c)
    \<and> set (reindex r old new cr ! c) = (A - {r}) \<union> (if c \<in> new then {r} else {})"
  using assms by (auto simp: reindex_def)

lemma occ_replace:
  assumes "r \<in> live st" and "ms_rows st' = (ms_rows st)[r := new]" and "row_alive st' = row_alive st"
  shows "live st' = live st"
    and "occ st' c = (occ st c - {r}) \<union> (if c \<in> set new then {r} else {})"
  using assms by (auto simp: live_def occ_def nth_list_update)

lemma in_tree_add: "in_tree t a \<Longrightarrow> in_tree (t\<lparr>internal_nodes := internal_nodes t @ [nd]\<rparr>) a"
  by (simp add: in_tree_def)

lemma row_added_inv:
  assumes inv: "merge_inv orig U st" and p: "p \<in> live st" and r: "r \<in> live st" and "p \<noteq> r"
    and new: "new = xor_rows (ms_rows st ! p) (ms_rows st ! r)"
    and nd: "nd = \<lparr>left = node_of st ! p, right = node_of st ! r\<rparr>
      \<or> nd = \<lparr>left = node_of st ! r, right = node_of st ! p\<rparr>"
  shows "merge_inv orig U (row_added st nd r new)" and "live (row_added st nd r new) = live st"
proof -
  let ?st = "row_added st nd r new"
  note lp = live_row [OF inv p] and lr = live_row [OF inv r]
  note cset = xor_row_facts [OF inv p r new]
  have st': "ms_rows ?st = (ms_rows st)[r := new]" "row_alive ?st = row_alive st"
    by (simp_all add: row_added_def)
  have wf: "wf_tree (ms_tree st)" using inv by (simp add: merge_inv_defs)
  have len: "length (col_weight ?st) = length (col_weight st)" "length (col_rows ?st) = length (col_rows st)"
    by (simp_all add: row_added_def reweigh_def reindex_def)
  note occ' = occ_replace [OF r st']
  show "live ?st = live st" by (rule occ'(1))
  have shape: "shape_ok ?st" using inv len by (simp add: merge_inv_defs row_added_def)
  have rows: "rows_ok ?st"
    using inv cset lr(1) by (auto simp: merge_inv_defs st' len(1) nth_list_update)
  have cols: "columns_ok ?st"
    unfolding columns_ok_def
  proof (intro allI impI)
    fix c assume "c < length (col_weight ?st)"
    then have c: "c < length (col_weight st)" "c < length (col_rows st)"
      using inv len by (auto simp: merge_inv_defs)
    have old: "distinct (col_rows st ! c)" "set (col_rows st ! c) = occ st c"
        "col_weight st ! c = of_nat (card (occ st c))"
      using inv c by (auto simp: merge_inv_defs)
    have mem: "r \<in> occ st c \<longleftrightarrow> c \<in> set (ms_rows st ! r)" using r by (simp add: occ_def)
    show "distinct (col_rows ?st ! c) \<and> set (col_rows ?st ! c) = occ ?st c
        \<and> col_weight ?st ! c = of_nat (card (occ ?st c))"
      using reindex_nth [OF old(1,2) c(2) mem] reweigh_card [OF old(3) finite_occ c(1) mem]
      unfolding occ'(2) by (simp add: row_added_def)
  qed
  have "in_tree (ms_tree st) (node_of st ! a)" if "a \<in> live st" for a
    using that by (rule live_row(9) [OF inv])
  then have tree: "tree_ok ?st"
    unfolding tree_ok_def occ'(1)
    using wf_tree_add [OF wf lp(9) lr(9)] wf_tree_add [OF wf lr(9) lp(9)] nd lr(2)
    by (auto simp: row_added_def nth_list_update in_tree_def less_Suc_eq)
  have leaf_old: "leaf_set ?st a = leaf_set st a" if "a \<in> live st" "a \<noteq> r" for a
    using that live_row(9) [OF inv that(1)]
    by (simp add: leaf_set_def row_added_def leaves_add_old [OF wf])
  have leaf_new: "leaf_set ?st r = sdiff (leaf_set st p) (leaf_set st r)"
    using lr(2) nd leaves_add_new [OF wf lp(9) lr(9)] leaves_add_new [OF wf lr(9) lp(9)]
    by (auto simp: leaf_set_def row_added_def odd_in_append sdiff_commute)
  have "represents orig U (live st) ((\<lambda>a. set (ms_rows st ! a))(r := sdiff (set (ms_rows st ! p)) (set (ms_rows st ! r))))
      ((leaf_set st)(r := sdiff (leaf_set st p) (leaf_set st r)))"
    using represents_add [of orig U "live st" "\<lambda>a. set (ms_rows st ! a)" "leaf_set st" p r] inv p r assms(4)
    by (simp add: merge_inv_def state_represents_def)
  then have "state_represents orig U ?st"
    unfolding state_represents_def occ'(1)
    by (rule represents_cong) (auto simp: st' leaf_old leaf_new cset(3) lr(1))
  with shape rows cols tree show "merge_inv orig U ?st" by (simp add: merge_inv_def)
qed

lemma row_deleted_inv:
  assumes inv: "merge_inv orig U st" and p: "p \<in> live st" and alone: "occ st d = {p}"
  shows "merge_inv orig U (row_deleted st p)" and "live (row_deleted st p) = live st - {p}"
    and "occ (row_deleted st p) c = occ st c - {p}"
proof -
  let ?st = "row_deleted st p"
  note lp = live_row [OF inv p]
  show live': "live ?st = live st - {p}"
    using lp by (auto simp: row_deleted_def live_def nth_list_update)
  show occ': "occ ?st c = occ st c - {p}" for c
    by (auto simp: occ_def live') (auto simp: row_deleted_def nth_list_update)
  have len: "length (col_weight ?st) = length (col_weight st)" "length (col_rows ?st) = length (col_rows st)"
    by (simp_all add: row_deleted_def)
  have shape: "shape_ok ?st" using inv len by (simp add: merge_inv_defs row_deleted_def)
  have rows: "rows_ok ?st"
    using inv lp(1) by (auto simp: merge_inv_defs row_deleted_def nth_list_update)
  have tree: "tree_ok ?st"
    using inv by (auto simp: merge_inv_defs live') (auto simp: row_deleted_def)
  have cols: "columns_ok ?st"
    unfolding columns_ok_def
  proof (intro allI impI)
    fix c assume "c < length (col_weight ?st)"
    then have c: "c < length (col_weight st)" "c < length (col_rows st)"
      using inv len by (auto simp: merge_inv_defs)
    have old: "distinct (col_rows st ! c)" "set (col_rows st ! c) = occ st c"
        "col_weight st ! c = of_nat (card (occ st c))"
      using inv c by (auto simp: merge_inv_defs)
    have mem: "p \<in> occ st c \<longleftrightarrow> c \<in> set (ms_rows st ! p)" using p by (simp add: occ_def)
    show "distinct (col_rows ?st ! c) \<and> set (col_rows ?st ! c) = occ ?st c
        \<and> col_weight ?st ! c = of_nat (card (occ ?st c))"
      unfolding occ' using old mem c by (auto simp: row_deleted_def of_nat_card_remove)
  qed
  have "represents orig U (live st - {p}) (\<lambda>r. set (ms_rows st ! r)) (leaf_set st)"
    using inv p alone
    by (intro represents_drop [where c = d]) (auto simp: merge_inv_def state_represents_def occ_def)
  then have "state_represents orig U ?st"
    unfolding state_represents_def live'
    by (rule represents_cong) (auto simp: row_deleted_def leaf_set_def nth_list_update)
  with shape rows cols tree show "merge_inv orig U ?st" by (simp add: merge_inv_def)
qed

section \<open>Weight-2 merges keep the invariant\<close>

lemma xor_rows_commute: "xor_rows as bs = xor_rows bs as"
  by (induction as bs rule: xor_rows.induct) auto

lemma merge_pair_eq:
  assumes inv: "merge_inv orig U st" and r1: "r1 \<in> live st" and r2: "r2 \<in> live st" and "r1 \<noteq> r2"
    and room: "num_leaves (ms_tree st) + length (internal_nodes (ms_tree st)) < 2 ^ 32"
    and new: "new = xor_rows (ms_rows st ! r2) (ms_rows st ! r1)"
  shows "merge_pair st r1 r2
    = Some (row_deleted (row_added st \<lparr>left = node_of st ! r1, right = node_of st ! r2\<rparr> r1 new) r2,
            ms_rows st ! r1 @ ms_rows st ! r2 @ new)"
proof -
  note l1 = live_row [OF inv r1] and l2 = live_row [OF inv r2]
  note nf = xor_row_facts [OF inv r2 r1 new]
  define w where "w = upd_cols (\<lambda>x. x + 1) (set new) (upd_cols (\<lambda>x. x - 1) (set (ms_rows st ! r2))
      (upd_cols (\<lambda>x. x - 1) (set (ms_rows st ! r1)) (col_weight st)))"
  define cr where "cr = upd_cols (\<lambda>rs. rs @ [r1]) (set new - set (ms_rows st ! r1))
      (upd_cols (filter (\<lambda>x. x \<noteq> r1)) (set (ms_rows st ! r1) - set new)
        (upd_cols (filter (\<lambda>x. x \<noteq> r2)) (set (ms_rows st ! r2)) (col_rows st)))"
  have w: "w = upd_cols (\<lambda>x. x - 1) (set (ms_rows st ! r2))
      (reweigh (set (ms_rows st ! r1)) (set new) (col_weight st))"
    by (rule nth_equalityI) (simp_all add: w_def reweigh_def)
  have cr: "cr = upd_cols (filter (\<lambda>x. x \<noteq> r2)) (set (ms_rows st ! r2))
      (reindex r1 (set (ms_rows st ! r1)) (set new) (col_rows st))"
    using assms(4) by (intro nth_equalityI) (auto simp: cr_def reindex_def conj_commute)
  have "merge_pair st r1 r2 = Some (st\<lparr>ms_rows := ((ms_rows st)[r1 := new])[r2 := []],
      ms_tree := (ms_tree st)\<lparr>internal_nodes := internal_nodes (ms_tree st)
        @ [\<lparr>left = node_of st ! r1, right = node_of st ! r2\<rparr>]\<rparr>,
      node_of := (node_of st)[r1 := num_leaves (ms_tree st) + length (internal_nodes (ms_tree st))],
      row_alive := (row_alive st)[r2 := False], col_weight := w, col_rows := cr,
      ms_merges := ms_merges st + 1\<rparr>, ms_rows st ! r1 @ ms_rows st ! r2 @ new)"
    unfolding merge_pair_def w_def cr_def
    using l1 l2 nf xor_rows_commute [of "ms_rows st ! r1" "ms_rows st ! r2"]
    by (simp add: add_node_eq [OF room] for_cols_upd in_row_def set_diff_eq new [symmetric])
  then show ?thesis
    using assms(4) by (simp add: row_deleted_def row_added_def w cr)
qed

lemma merge_pair_inv:
  assumes inv: "merge_inv orig U st" and "r1 \<noteq> r2" and occ: "occ st c = {r1, r2}"
    and room: "num_leaves (ms_tree st) + length (internal_nodes (ms_tree st)) < 2 ^ 32"
  shows "\<exists>st' touched. merge_pair st r1 r2 = Some (st', touched) \<and> merge_inv orig U st'
    \<and> live st' = live st - {r2} \<and> c \<in> set touched
    \<and> (\<forall>d \<in> set touched. d < length (col_weight st))
    \<and> (\<forall>d. d \<notin> set touched \<longrightarrow> d < length (col_weight st) \<longrightarrow> col_weight st' ! d = col_weight st ! d)
    \<and> length (col_weight st') = length (col_weight st) \<and> ms_merges st' = ms_merges st + 1
    \<and> length (ms_rows st') = length (ms_rows st)
    \<and> num_leaves (ms_tree st') = num_leaves (ms_tree st)
    \<and> length (internal_nodes (ms_tree st')) = length (internal_nodes (ms_tree st)) + 1"
proof -
  have r: "r1 \<in> live st" "r2 \<in> live st" and c: "c \<in> set (ms_rows st ! r1)" "c \<in> set (ms_rows st ! r2)"
    using occ by (auto simp: occ_def)
  define new where "new = xor_rows (ms_rows st ! r2) (ms_rows st ! r1)"
  define nd where "nd = \<lparr>left = node_of st ! r1, right = node_of st ! r2\<rparr>"
  note nf = xor_row_facts [OF inv r(2,1) new_def]
  note eq = merge_pair_eq [OF inv r assms(2) room new_def, folded nd_def]
  have nd: "nd = \<lparr>left = node_of st ! r2, right = node_of st ! r1\<rparr>
      \<or> nd = \<lparr>left = node_of st ! r1, right = node_of st ! r2\<rparr>"
    by (simp add: nd_def)
  note added = row_added_inv [OF inv r(2,1) assms(2) [symmetric] new_def nd]
  have "c \<notin> set new" using nf(3) c by (simp add: in_sdiff)
  then have alone: "occ (row_added st nd r1 new) c = {r2}"
    using occ occ_replace(2) [OF r(1), of "row_added st nd r1 new" new c] assms(2)
    by (auto simp: row_added_def)
  have r2': "r2 \<in> live (row_added st nd r1 new)" using added(2) r(2) by simp
  note deleted = row_deleted_inv [OF added(1) r2' alone]
  define st' where "st' = row_deleted (row_added st nd r1 new) r2"
  define touched where "touched = ms_rows st ! r1 @ ms_rows st ! r2 @ new"
  have 1: "merge_pair st r1 r2 = Some (st', touched)" using eq by (simp add: st'_def touched_def)
  have 2: "merge_inv orig U st'" "live st' = live st - {r2}"
    using deleted(1,2) added(2) by (simp_all add: st'_def)
  have 3: "c \<in> set touched" using c by (simp add: touched_def)
  have 4: "\<forall>d \<in> set touched. d < length (col_weight st)"
    using live_row(7) [OF inv r(1)] live_row(7) [OF inv r(2)] nf(4) by (auto simp: touched_def)
  have 5: "\<forall>d. d \<notin> set touched \<longrightarrow> d < length (col_weight st) \<longrightarrow> col_weight st' ! d = col_weight st ! d"
    using assms(2) by (simp add: st'_def touched_def row_deleted_def row_added_def reweigh_def)
  have 6: "length (col_weight st') = length (col_weight st)" "ms_merges st' = ms_merges st + 1"
      "length (ms_rows st') = length (ms_rows st)" "num_leaves (ms_tree st') = num_leaves (ms_tree st)"
      "length (internal_nodes (ms_tree st')) = length (internal_nodes (ms_tree st)) + 1"
    by (simp_all add: st'_def row_deleted_def row_added_def reweigh_def)
  show ?thesis
    by (rule exI [of _ st'], rule exI [of _ touched]) (intro conjI 1 2 3 4 5 6)
qed

lemma insert_w2_eq:
  "\<forall>c \<in> set touched. c < length w \<Longrightarrow>
     \<exists>s. insert_w2 w touched w2 = Some s \<and> set s = set w2 \<union> {c \<in> set touched. w ! c = 2}"
proof (induction touched arbitrary: w2)
  case Nil
  then show ?case by (simp add: insert_w2_def)
next
  case (Cons c touched)
  from Cons.IH [of "if w ! c = 2 then insort_insert c w2 else w2"] Cons.prems
  show ?case by (auto simp: insert_w2_def set_insort_insert split: if_splits)
qed

lemma find_two_pair:
  assumes "distinct rs" and "set rs = {a, b}" and "a \<noteq> b" and "\<forall>r \<in> set rs. r < length alive \<and> alive ! r"
  shows "\<exists>r1 r2. find_two alive rs None = Some (Some r1, Some r2) \<and> {r1, r2} = {a, b} \<and> r1 \<noteq> r2"
proof -
  have "length rs = 2" using distinct_card [OF assms(1)] assms(2,3) by simp
  then obtain x y where rs: "rs = [x, y]" by (auto simp: numeral_2_eq_2 length_Suc_conv)
  have "x \<noteq> y" "{x, y} = {a, b}" using assms(1,2) by (simp_all add: rs)
  moreover have "find_two alive rs None = Some (Some x, Some y)" using assms(4) by (simp add: rs)
  ultimately show ?thesis by blast
qed

text \<open>What the worklist loop needs: the worklist covers the weight-2 columns and new nodes fit.\<close>

definition worklist_ok :: "merge_state \<Rightarrow> nat list \<Rightarrow> bool" where
  "worklist_ok st w2 \<longleftrightarrow> (\<forall>c \<in> set w2. c < length (col_weight st))
     \<and> (\<forall>c < length (col_weight st). col_weight st ! c = 2 \<longrightarrow> c \<in> set w2)"

definition nodes_fit :: "merge_state \<Rightarrow> bool" where
  "nodes_fit st \<longleftrightarrow>
     num_leaves (ms_tree st) + length (internal_nodes (ms_tree st)) + card (live st) \<le> 2 ^ 32"

lemma weight2_pair:
  assumes inv: "merge_inv orig U st" and c: "c < length (col_weight st)" and w: "col_weight st ! c = 2"
  shows "\<exists>r1 r2. vec_at (col_rows st) c = Some (col_rows st ! c)
    \<and> find_two (row_alive st) (col_rows st ! c) None = Some (Some r1, Some r2)
    \<and> r1 \<noteq> r2 \<and> occ st c = {r1, r2}"
proof -
  have cr: "distinct (col_rows st ! c)" "set (col_rows st ! c) = occ st c" "c < length (col_rows st)"
    using inv c by (auto simp: merge_inv_defs)
  have "card (occ st c) = 2" using col_weight_card [OF inv c] w by simp
  then obtain a b where ab: "occ st c = {a, b}" "a \<noteq> b" by (meson card_2_iff)
  have "\<forall>r \<in> set (col_rows st ! c). r < length (row_alive st) \<and> row_alive st ! r"
    using cr(2) live_row(3,4) [OF inv] by (auto simp: occ_def)
  from find_two_pair [OF cr(1) _ ab(2) this] ab cr(2,3) show ?thesis by fastforce
qed

lemma merge2_loop_inv:
  assumes "merge_inv orig U st" and "worklist_ok st w2" and "nodes_fit st"
  shows "\<exists>st'. merge2_loop st w2 = Some st' \<and> merge_inv orig U st'
    \<and> (\<forall>c < length (col_weight st'). col_weight st' ! c \<noteq> 2)
    \<and> ms_merges st' + card (live st') = ms_merges st + card (live st)
    \<and> num_leaves (ms_tree st') = num_leaves (ms_tree st)
    \<and> length (internal_nodes (ms_tree st')) + card (live st') = length (internal_nodes (ms_tree st)) + card (live st)
    \<and> length (col_weight st') = length (col_weight st)
    \<and> length (ms_rows st') = length (ms_rows st)"
  using assms
proof (induction st w2 rule: merge2_loop.induct)
  case (1 st)
  then show ?case by (auto simp: worklist_ok_def)
next
  case (2 st c w2)
  have c: "c < length (col_weight st)" using "2.prems"(2) by (simp add: worklist_ok_def)
  show ?case
  proof (cases "col_weight st ! c = 2")
    case False
    then have "worklist_ok st w2" using "2.prems"(2) by (auto simp: worklist_ok_def)
    with "2.IH"(1) [of "col_weight st ! c"] "2.prems" False c show ?thesis by simp
  next
    case True
    obtain r1 r2 where cr: "vec_at (col_rows st) c = Some (col_rows st ! c)"
      and two: "find_two (row_alive st) (col_rows st ! c) None = Some (Some r1, Some r2)"
      and ne: "r1 \<noteq> r2" and occ: "occ st c = {r1, r2}"
      using weight2_pair [OF "2.prems"(1) c True] by blast
    have sub: "{r1, r2} \<subseteq> live st" using occ by (auto simp: occ_def)
    then have card2: "2 \<le> card (live st)" using card_mono [OF finite_live sub] ne by simp
    then have room: "num_leaves (ms_tree st) + length (internal_nodes (ms_tree st)) < 2 ^ 32"
      using "2.prems"(3) by (simp add: nodes_fit_def)
    obtain st' touched where m: "merge_pair st r1 r2 = Some (st', touched)" "merge_inv orig U st'"
        "live st' = live st - {r2}" "c \<in> set touched"
        "\<forall>d \<in> set touched. d < length (col_weight st)"
        "\<forall>d. d \<notin> set touched \<longrightarrow> d < length (col_weight st) \<longrightarrow> col_weight st' ! d = col_weight st ! d"
        "length (col_weight st') = length (col_weight st)" "ms_merges st' = ms_merges st + 1"
        "length (ms_rows st') = length (ms_rows st)"
        "num_leaves (ms_tree st') = num_leaves (ms_tree st)"
        "length (internal_nodes (ms_tree st')) = length (internal_nodes (ms_tree st)) + 1"
      using merge_pair_inv [OF "2.prems"(1) ne occ room] by blast
    have card': "card (live st') + 1 = card (live st)"
      using m(3) sub card2 by (simp add: card_Diff_singleton_if)
    obtain s where s: "insert_w2 (col_weight st') touched w2 = Some s"
        "set s = set w2 \<union> {d \<in> set touched. col_weight st' ! d = 2}"
      using insert_w2_eq [of touched "col_weight st'" w2] m(5,7) by auto
    have wl: "worklist_ok st' s"
      unfolding worklist_ok_def
    proof (intro conjI ballI allI impI)
      fix d assume "d \<in> set s"
      then show "d < length (col_weight st')"
        using s(2) m(5,7) "2.prems"(2) by (auto simp: worklist_ok_def)
    next
      fix d assume d: "d < length (col_weight st')" "col_weight st' ! d = 2"
      then show "d \<in> set s"
        using s(2) m(4,6,7) "2.prems"(2) by (cases "d \<in> set touched") (auto simp: worklist_ok_def)
    qed
    have fit: "nodes_fit st'" using "2.prems"(3) card' m(10,11) by (simp add: nodes_fit_def)
    have "merge2_loop st (c # w2) = merge2_loop st' s"
      using c True cr two m(1) s(1) by simp
    moreover have "\<exists>st''. merge2_loop st' s = Some st'' \<and> merge_inv orig U st''
        \<and> (\<forall>c < length (col_weight st''). col_weight st'' ! c \<noteq> 2)
        \<and> ms_merges st'' + card (live st'') = ms_merges st' + card (live st')
        \<and> num_leaves (ms_tree st'') = num_leaves (ms_tree st')
        \<and> length (internal_nodes (ms_tree st'')) + card (live st'') = length (internal_nodes (ms_tree st')) + card (live st')
        \<and> length (col_weight st'') = length (col_weight st')
        \<and> length (ms_rows st'') = length (ms_rows st')"
      by (rule "2.IH"(4) [of "col_weight st ! c" "col_rows st ! c" "(Some r1, Some r2)" "Some r1" "Some r2"
            r1 r2 "(st', touched)" st' touched s])
         (use c True cr two m(1,2) s(1) wl fit in simp_all)
    ultimately show ?thesis using card' m(7,8,9,10,11) by auto
  qed
qed

section \<open>The initial state\<close>

definition rows_good :: "nat \<Rightarrow> nat list list \<Rightarrow> bool" where
  "rows_good nc rws \<longleftrightarrow> (\<forall>rw \<in> set rws. sorted_wrt (<) rw \<and> (\<forall>c \<in> set rw. c < nc))"

lemma rows_goodD:
  "rows_good nc rws \<Longrightarrow> r < length rws \<Longrightarrow>
     sorted_wrt (<) (rws ! r) \<and> distinct (rws ! r) \<and> (\<forall>c \<in> set (rws ! r). c < nc)"
  using nth_mem [of r rws] by (auto simp: rows_good_def sorted_lt_distinct)

definition column_of :: "nat list list \<Rightarrow> nat \<Rightarrow> nat \<Rightarrow> nat set" where
  "column_of rws k c = {r. r < k \<and> c \<in> set (rws ! r)}"

lemma column_of_Suc:
  "column_of rws (Suc k) c = (if c \<in> set (rws ! k) then insert k (column_of rws k c) else column_of rws k c)"
  by (auto simp: column_of_def less_Suc_eq)

lemma finite_column_of [simp]: "finite (column_of rws k c)"
  by (simp add: column_of_def)

lemma index_columns_prefix:
  assumes "rows_good nc rws" and "k \<le> length rws"
  shows "\<exists>w cr. ofold (\<lambda>r (w, cr). do {
         rw \<leftarrow> vec_at rws r;
         w' \<leftarrow> incr_cols rw w;
         cr' \<leftarrow> for_cols (\<lambda>rs. rs @ [r]) rw cr;
         Some (w', cr')
       }) [0..<k] (replicate nc 0, replicate nc []) = Some (w, cr)
    \<and> length w = nc \<and> length cr = nc
    \<and> (\<forall>c < nc. w ! c = of_nat (card (column_of rws k c)) \<and> distinct (cr ! c)
         \<and> set (cr ! c) = column_of rws k c)"
  using assms(2)
proof (induction k)
  case 0
  then show ?case by (simp add: column_of_def)
next
  case (Suc k)
  then obtain w cr where IH: "ofold (\<lambda>r (w, cr). do {
         rw \<leftarrow> vec_at rws r;
         w' \<leftarrow> incr_cols rw w;
         cr' \<leftarrow> for_cols (\<lambda>rs. rs @ [r]) rw cr;
         Some (w', cr')
       }) [0..<k] (replicate nc 0, replicate nc []) = Some (w, cr)"
      "length w = nc" "length cr = nc"
      "\<forall>c < nc. w ! c = of_nat (card (column_of rws k c)) \<and> distinct (cr ! c)
         \<and> set (cr ! c) = column_of rws k c"
    by auto
  have k: "k < length rws" using Suc.prems by simp
  note row = rows_goodD [OF assms(1) k]
  have new: "k \<notin> column_of rws k c" for c by (simp add: column_of_def)
  show ?case
    using IH k row new
    by (simp add: ofold_append for_cols_upd column_of_Suc of_nat_card_insert)
qed

lemma initial_state_inv:
  assumes good: "rows_good nc rws" and n: "length rws < 2 ^ 32" and nodes: "length nodes = length rws"
    and tree: "wf_tree t" "\<forall>nd \<in> set nodes. in_tree t nd"
    and rep: "represents orig U {0..<length rws} (\<lambda>r. set (rws ! r)) (\<lambda>r. odd_in (leaves t (nodes ! r)))"
  shows "\<exists>st. initial_state nc rws t nodes = Some st \<and> merge_inv orig U st
    \<and> live st = {0..<length rws} \<and> ms_tree st = t \<and> ms_merges st = 0
    \<and> length (col_weight st) = nc \<and> length (ms_rows st) = length rws"
proof -
  obtain w cr where ix: "index_columns nc rws = Some (w, cr)" "length w = nc" "length cr = nc"
      "\<forall>c < nc. w ! c = of_nat (card (column_of rws (length rws) c)) \<and> distinct (cr ! c)
         \<and> set (cr ! c) = column_of rws (length rws) c"
    using index_columns_prefix [OF good le_refl] unfolding index_columns_def by auto
  define st where "st = \<lparr>ms_rows = rws, ms_tree = t, node_of = nodes,
      row_alive = replicate (length rws) True, col_weight = w, col_rows = cr, ms_merges = 0\<rparr>"
  have live: "live st = {0..<length rws}" by (auto simp: live_def st_def)
  have occ: "occ st c = column_of rws (length rws) c" for c
    by (auto simp: occ_def live) (auto simp: column_of_def st_def)
  have "columns_ok st" using ix by (simp add: columns_ok_def occ) (simp add: st_def)
  moreover have "rows_ok st" using rows_goodD [OF good] ix(2) by (simp add: rows_ok_def st_def)
  moreover have "tree_ok st" using tree nodes by (simp add: tree_ok_def live) (simp add: st_def)
  moreover have "shape_ok st" using nodes n ix(2,3) by (simp add: shape_ok_def st_def)
  moreover have "state_represents orig U st"
    unfolding state_represents_def live using rep by (simp add: st_def leaf_set_def [abs_def])
  ultimately have "merge_inv orig U st" by (simp add: merge_inv_def)
  with ix live show ?thesis by (simp add: initial_state_def st_def)
qed

section \<open>Compaction\<close>

definition kept :: "u32 list \<Rightarrow> nat set" where
  "kept w = {c. c < length w \<and> w ! c > 0}"

lemma compact_cols_correct:
  "compact_cols ws c k = (o2n, m) \<Longrightarrow>
     length o2n = length ws \<and> length m \<le> length ws
     \<and> (\<forall>i < length ws. ws ! i > 0 \<longrightarrow> k \<le> o2n ! i \<and> o2n ! i < k + length m \<and> m ! (o2n ! i - k) = c + i)
     \<and> (\<forall>j < length ws. ws ! j > 0 \<longrightarrow> (\<forall>i < j. ws ! i > 0 \<longrightarrow> o2n ! i < o2n ! j))"
proof (induction ws c k arbitrary: o2n m rule: compact_cols.induct)
  case (1 c k)
  then show ?case by simp
next
  case (2 w ws c k)
  show ?case
  proof (cases "w > 0")
    case True
    obtain o2n' m' where r: "compact_cols ws (c + 1) (k + 1) = (o2n', m')" by fastforce
    with "2.prems" True have om: "o2n = k # o2n'" "m = c # m'" by auto
    note IH = "2.IH"(1) [OF True r]
    have "k \<le> o2n ! i \<and> o2n ! i < k + length m \<and> m ! (o2n ! i - k) = c + i"
      if i: "i < length (w # ws)" "(w # ws) ! i > 0" for i
    proof (cases i)
      case 0
      then show ?thesis by (simp add: om)
    next
      case (Suc j)
      with i IH have "k + 1 \<le> o2n' ! j" "o2n' ! j < k + 1 + length m'"
          "m' ! (o2n' ! j - (k + 1)) = c + 1 + j" by auto
      with Suc show ?thesis by (simp add: om nth_Cons')
    qed
    moreover have "o2n ! i < o2n ! j"
      if "j < length (w # ws)" "(w # ws) ! j > 0" "i < j" "(w # ws) ! i > 0" for i j
      using that IH by (cases i; cases j) (auto simp: om)
    ultimately show ?thesis using IH om by auto
  next
    case False
    obtain o2n' m' where r: "compact_cols ws (c + 1) k = (o2n', m')" by fastforce
    with "2.prems" False have om: "o2n = UINT32_MAX # o2n'" "m = m'" by auto
    note IH = "2.IH"(2) [OF False r]
    have "k \<le> o2n ! i \<and> o2n ! i < k + length m \<and> m ! (o2n ! i - k) = c + i"
      if "i < length (w # ws)" "(w # ws) ! i > 0" for i
      using that False IH by (cases i) (auto simp: om)
    moreover have "o2n ! i < o2n ! j"
      if "j < length (w # ws)" "(w # ws) ! j > 0" "i < j" "(w # ws) ! i > 0" for i j
      using that False IH by (cases i; cases j) (auto simp: om)
    ultimately show ?thesis using IH om by auto
  qed
qed

lemma remap_row_eq:
  "\<forall>c \<in> set rw. c < length o2n \<and> o2n ! c \<noteq> UINT32_MAX \<Longrightarrow> remap_row o2n rw = Some (map ((!) o2n) rw)"
  by (induction rw) auto

lemma strict_mono_map_sorted:
  "sorted_wrt (<) rw \<Longrightarrow> (\<And>c d. c \<in> set rw \<Longrightarrow> d \<in> set rw \<Longrightarrow> c < d \<Longrightarrow> f c < (f d :: nat))
     \<Longrightarrow> sorted_wrt (<) (map f rw)"
  by (induction rw) auto

definition offsets_of :: "nat list list \<Rightarrow> nat list" where
  "offsets_of rws = map (\<lambda>i. length (concat (take i rws))) [0..<Suc (length rws)]"

lemma offsets_of_simps [simp]:
  "length (offsets_of rws) = Suc (length rws)" "last (offsets_of rws) = length (concat rws)"
  "i \<le> length rws \<Longrightarrow> offsets_of rws ! i = length (concat (take i rws))"
  by (simp add: offsets_of_def, simp add: offsets_of_def,
      simp add: offsets_of_def del: upt_Suc)

lemma offsets_of_snoc: "offsets_of (rws @ [rw]) = offsets_of rws @ [length (concat (rws @ [rw]))]"
  by (simp add: offsets_of_def)

lemma rebuild_rows_eq:
  assumes "\<And>rw. rw \<in> set rws \<Longrightarrow> remap_row o2n rw = Some (f rw) \<and> sorted (f rw)"
    and "length (concat (map f rws)) < 2 ^ 32"
  shows "rebuild_rows resort o2n rws = Some (offsets_of (map f rws), concat (map f rws))"
  using assms
proof (induction rws rule: rev_induct)
  case Nil
  then show ?case by (simp add: rebuild_rows_def offsets_of_def)
next
  case (snoc rw rws)
  then have "rebuild_rows resort o2n rws = Some (offsets_of (map f rws), concat (map f rws))" by auto
  moreover have "sort (f rw) = f rw" using snoc.prems(1) [of rw] by (simp add: sorted_sort_id)
  ultimately show ?case
    using snoc.prems by (simp add: rebuild_rows_def ofold_append offsets_of_snoc Let_def)
qed

lemma rebuild_rows_cols:
  assumes "\<And>rw. rw \<in> set rws \<Longrightarrow> remap_row o2n rw = Some (f rw) \<and> sorted (f rw)"
  shows "\<exists>offs. rebuild_rows resort o2n rws = Some (offs, concat (map f rws))"
  using assms
proof (induction rws rule: rev_induct)
  case Nil
  then show ?case by (simp add: rebuild_rows_def)
next
  case (snoc rw rws)
  then obtain offs where "rebuild_rows resort o2n rws = Some (offs, concat (map f rws))" by fastforce
  moreover have "sort (f rw) = f rw" using snoc.prems [of rw] by (simp add: sorted_sort_id)
  ultimately show ?case
    using snoc.prems by (simp add: rebuild_rows_def ofold_append Let_def)
qed

section \<open>Valid matrices\<close>

definition crow :: "csr \<Rightarrow> nat \<Rightarrow> nat list" where
  "crow M i = slice (row_offsets M ! i) (row_offsets M ! (i + 1)) (col_indices M)"

lemma validate_entries_iff:
  "validate_entries n prev cs \<longleftrightarrow> (\<forall>c \<in> set cs. c < n)
     \<and> sorted_wrt (<) (case prev of None \<Rightarrow> cs | Some p \<Rightarrow> p # cs)"
proof (induction n prev cs rule: validate_entries.induct)
  case (1 n prev)
  then show ?case by (simp split: option.split)
next
  case (2 n prev c cs)
  then show ?case by (auto split: option.split)
qed

lemma validate_rows_iff:
  "validate_rows M is \<longleftrightarrow> (\<forall>i \<in> set is. row_offsets M ! i \<le> row_offsets M ! (i + 1)
     \<and> (\<forall>c \<in> set (crow M i). c < n_cols M) \<and> sorted_wrt (<) (crow M i))"
  by (induction M "is" rule: validate_rows.induct)
     (auto simp: Let_def validate_entries_iff crow_def)

lemma validate_iff:
  "ValidateHostMatrixCSR M \<longleftrightarrow> length (row_offsets M) = n_rows M + 1 \<and> row_offsets M ! 0 = 0
     \<and> last (row_offsets M) = length (col_indices M)
     \<and> (\<forall>i < n_rows M. row_offsets M ! i \<le> row_offsets M ! (i + 1)
          \<and> (\<forall>c \<in> set (crow M i). c < n_cols M) \<and> sorted_wrt (<) (crow M i))"
  unfolding ValidateHostMatrixCSR_def validate_rows_iff by auto

lemma valid_last:
  assumes "ValidateHostMatrixCSR M"
  shows "row_offsets M ! n_rows M = length (col_indices M)"
proof -
  have "row_offsets M \<noteq> []" using assms by (auto simp: validate_iff)
  then have "last (row_offsets M) = row_offsets M ! (length (row_offsets M) - 1)"
    by (rule last_conv_nth)
  moreover have "length (row_offsets M) - 1 = n_rows M" "last (row_offsets M) = length (col_indices M)"
    using assms by (simp_all add: validate_iff)
  ultimately show ?thesis by simp
qed

lemma valid_row:
  assumes "ValidateHostMatrixCSR M" and "i < n_rows M"
  shows "\<forall>c \<in> set (crow M i). c < n_cols M" "distinct (crow M i)" "sorted_wrt (<) (crow M i)"
  using assms by (auto simp: validate_iff intro: sorted_lt_distinct)

lemma valid_offsets_le:
  assumes "ValidateHostMatrixCSR M" and "i \<le> n_rows M"
  shows "row_offsets M ! i \<le> length (col_indices M)"
  using assms(2)
proof (induction rule: inc_induct)
  case base
  then show ?case using valid_last [OF assms(1)] by simp
next
  case (step i)
  then show ?case using assms(1) by (fastforce simp: validate_iff)
qed

lemma valid_csr_row:
  assumes "ValidateHostMatrixCSR M" and "i < n_rows M"
  shows "csr_row M i = Some (crow M i)"
  using assms valid_offsets_le [OF assms(1), of "i + 1"]
  by (simp add: csr_row_def crow_def validate_iff)

lemma those_Some: "(\<And>x. x \<in> set xs \<Longrightarrow> f x = Some (g x)) \<Longrightarrow> those (map f xs) = Some (map g xs)"
  by (induction xs) auto

lemma valid_csr_rows:
  assumes "ValidateHostMatrixCSR M"
  shows "csr_rows M = Some (map (crow M) [0..<n_rows M])"
    and "rows_good (n_cols M) (map (crow M) [0..<n_rows M])"
  using assms valid_csr_row [OF assms]
  by (auto simp: csr_rows_def rows_good_def validate_iff intro: those_Some)

lemma concat_slice:
  assumes "i < length rws"
  shows "slice (length (concat (take i rws))) (length (concat (take (Suc i) rws))) (concat rws) = rws ! i"
proof -
  have "concat rws = concat (take i rws) @ rws ! i @ concat (drop (Suc i) rws)"
    using id_take_nth_drop [OF assms] by (metis concat.simps(2) concat_append)
  then show ?thesis using assms by (simp add: slice_def take_Suc_conv_app_nth)
qed

text \<open>A matrix built from good rows is valid and has these rows.\<close>

lemma built_csr:
  assumes "M = \<lparr>row_offsets = offsets_of rws, col_indices = concat rws, n_rows = length rws, n_cols = nc\<rparr>"
    and "rows_good nc rws"
  shows "i < length rws \<Longrightarrow> crow M i = rws ! i" and "ValidateHostMatrixCSR M"
proof -
  have crow: "crow M i = rws ! i" if "i < length rws" for i
    using concat_slice [OF that] that by (simp add: assms(1) crow_def)
  then show "i < length rws \<Longrightarrow> crow M i = rws ! i" .
  have mono: "length (concat (take i rws)) \<le> length (concat (take (Suc i) rws))" if "i < length rws" for i
    using that by (simp add: take_Suc_conv_app_nth)
  show "ValidateHostMatrixCSR M"
    unfolding validate_iff
    using crow rows_goodD [OF assms(2)] mono unfolding assms(1) by simp
qed

section \<open>The compacted matrix\<close>

lemma alive_rows_facts:
  assumes "length (row_alive st) = length (ms_rows st)"
  shows "set (alive_rows (row_alive st)) = live st" "distinct (alive_rows (row_alive st))"
    "length (alive_rows (row_alive st)) = card (live st)"
    "bij_betw ((!) (alive_rows (row_alive st))) {0..<card (live st)} (live st)"
proof -
  show s: "set (alive_rows (row_alive st)) = live st"
    using assms by (auto simp: alive_rows_def live_def)
  show d: "distinct (alive_rows (row_alive st))" by (simp add: alive_rows_def)
  show l: "length (alive_rows (row_alive st)) = card (live st)"
    using distinct_card [OF d] by (simp add: s)
  show "bij_betw ((!) (alive_rows (row_alive st))) {0..<card (live st)} (live st)"
    by (rule bij_betw_nth [OF d]) (simp_all add: l s lessThan_atLeast0)
qed

lemma live_row_kept:
  assumes inv: "merge_inv orig U st" and r: "r \<in> live st" and c: "c \<in> set (ms_rows st ! r)"
  shows "c \<in> kept (col_weight st)"
proof -
  have "r \<in> occ st c" using r c by (simp add: occ_def)
  then have "0 < card (occ st c)" by (auto simp: card_gt_0_iff)
  moreover have len: "c < length (col_weight st)" using live_row(7) [OF inv r] c by blast
  ultimately have "0 < unat (col_weight st ! c)" using col_weight_card [OF inv len] by simp
  with len show ?thesis by (simp add: kept_def word_gt_0 unat_gt_0)
qed

lemma kept_remap:
  assumes "compact_cols w 0 0 = (o2n, m)" and "length w < 2 ^ 32"
  shows "c \<in> kept w \<Longrightarrow> c < length o2n \<and> o2n ! c \<noteq> UINT32_MAX \<and> o2n ! c < length m"
    and "c \<in> kept w \<Longrightarrow> d \<in> kept w \<Longrightarrow> c < d \<Longrightarrow> o2n ! c < o2n ! d"
    and "inj_on ((!) o2n) (kept w)"
proof -
  note cc = compact_cols_correct [OF assms(1)]
  show 1: "c \<in> kept w \<Longrightarrow> c < length o2n \<and> o2n ! c \<noteq> UINT32_MAX \<and> o2n ! c < length m" for c
    using cc assms(2) by (fastforce simp: kept_def UINT32_MAX_def)
  show mono: "c \<in> kept w \<Longrightarrow> d \<in> kept w \<Longrightarrow> c < d \<Longrightarrow> o2n ! c < o2n ! d" for c d
    using cc by (auto simp: kept_def)
  show "inj_on ((!) o2n) (kept w)"
    by (rule inj_onI) (metis mono less_irrefl linorder_neqE_nat)
qed

definition matrix_represents ::
    "(nat \<Rightarrow> nat set) \<Rightarrow> nat set \<Rightarrow> csr \<Rightarrow> nat list \<Rightarrow> merge_tree \<Rightarrow> bool" where
  "matrix_represents orig U M nodes t \<longleftrightarrow>
     represents orig U {0..<n_rows M} (\<lambda>i. set (crow M i)) (\<lambda>i. odd_in (leaves t (nodes ! i)))"

text \<open>The weight of a column of the compacted matrix, and that it is a weight of the state.\<close>

definition column_weight :: "csr \<Rightarrow> nat \<Rightarrow> nat" where
  "column_weight M k = card {i. i < n_rows M \<and> k \<in> set (crow M i)}"

lemma column_weight_rename:
  assumes f: "bij_betw f {0..<n_rows M} (live st)"
    and g: "inj_on g (\<Union>r \<in> live st. set (ms_rows st ! r))"
    and rows: "\<And>i. i < n_rows M \<Longrightarrow> set (crow M i) = g ` set (ms_rows st ! f i)"
  shows "column_weight M k = 0 \<or> (\<exists>c \<in> (\<Union>r \<in> live st. set (ms_rows st ! r)). column_weight M k = card (occ st c))"
proof (cases "\<exists>i < n_rows M. k \<in> set (crow M i)")
  case False
  then have "column_weight M k = 0" by (auto simp: column_weight_def)
  then show ?thesis ..
next
  case True
  then obtain i c where i: "i < n_rows M" "c \<in> set (ms_rows st ! f i)" "k = g c" using rows by auto
  have live: "f j \<in> live st" if "j < n_rows M" for j using f that by (auto simp: bij_betw_def)
  have "k \<in> set (crow M j) \<longleftrightarrow> c \<in> set (ms_rows st ! f j)" if "j < n_rows M" for j
    using rows [OF that] i live [OF that] live [OF i(1)] inj_onD [OF g] by auto
  then have "f ` {j. j < n_rows M \<and> k \<in> set (crow M j)} = occ st c"
    using f live by (auto simp: occ_def bij_betw_def image_iff)
      (metis (no_types, lifting) atLeastLessThan_iff imageE)
  moreover have "inj_on f {j. j < n_rows M \<and> k \<in> set (crow M j)}"
    using f by (auto simp: bij_betw_def intro: inj_on_subset)
  ultimately have "column_weight M k = card (occ st c)"
    by (metis card_image column_weight_def)
  then show ?thesis using i live by auto
qed

lemma rebuild_correct:
  assumes inv: "merge_inv orig U st" and nc: "length (col_weight st) < 2 ^ 32"
  shows "\<exists>M nodes. rebuild resort st = Some (M, nodes) \<and> n_rows M = card (live st)
    \<and> length nodes = n_rows M \<and> (\<forall>nd \<in> set nodes. in_tree (ms_tree st) nd)
    \<and> n_cols M \<le> length (col_weight st)
    \<and> nodes = map ((!) (node_of st)) (alive_rows (row_alive st))
    \<and> length (col_indices M) = (\<Sum>r \<in> live st. length (ms_rows st ! r))
    \<and> (length (col_indices M) < 2 ^ 32 \<longrightarrow>
         ValidateHostMatrixCSR M \<and> matrix_represents orig U M nodes (ms_tree st)
         \<and> (\<forall>k. column_weight M k = 0
              \<or> (\<exists>c < length (col_weight st). column_weight M k = unat (col_weight st ! c))))"
proof -
  obtain o2n m where cc: "compact_cols (col_weight st) 0 0 = (o2n, m)" by fastforce
  note km = kept_remap [OF cc nc]
  have shape: "length (row_alive st) = length (ms_rows st)" using inv by (simp add: merge_inv_defs)
  define lv where "lv = alive_rows (row_alive st)"
  note lv = alive_rows_facts [OF shape, folded lv_def]
  define nodes where "nodes = map ((!) (node_of st)) lv"
  define f where "f = map ((!) o2n)"
  define rws where "rws = map ((!) (ms_rows st)) lv"
  have in_lv: "r \<in> live st" if "r \<in> set lv" for r using that lv(1) by simp
  have those: "those (map (vec_at (ms_rows st)) lv) = Some rws"
      "those (map (vec_at (node_of st)) lv) = Some nodes"
    unfolding rws_def nodes_def
    by (rule those_Some; use in_lv live_row(1,2) [OF inv] in simp)+
  have rw: "sorted_wrt (<) (f rw) \<and> remap_row o2n rw = Some (f rw) \<and> (\<forall>c \<in> set (f rw). c < length m)"
    if "rw \<in> set rws" for rw
  proof -
    obtain r where r: "r \<in> live st" "rw = ms_rows st ! r" using \<open>rw \<in> set rws\<close> in_lv by (auto simp: rws_def)
    then have kept: "c \<in> kept (col_weight st)" if "c \<in> set rw" for c
      using that live_row_kept [OF inv] by blast
    then show ?thesis
      using r live_row(5) [OF inv r(1)] km unfolding f_def
      by (auto intro!: remap_row_eq strict_mono_map_sorted)
  qed
  then have rs: "remap_row o2n rw = Some (f rw) \<and> sorted (f rw)" if "rw \<in> set rws" for rw
    using that by (simp add: strict_sorted_iff)
  obtain offs where rb: "rebuild_rows resort o2n rws = Some (offs, concat (map f rws))"
    using rebuild_rows_cols [OF rs] by blast
  define M where "M = \<lparr>row_offsets = offs, col_indices = concat (map f rws), n_rows = length nodes, n_cols = length m\<rparr>"
  have eq: "rebuild resort st = Some (M, nodes)"
    unfolding rebuild_def using cc those rb by (simp add: lv_def [symmetric] M_def)
  have len: "n_rows M = card (live st)" "length nodes = n_rows M" "length rws = n_rows M"
    by (simp_all add: M_def nodes_def rws_def lv(3))
  have good: "ValidateHostMatrixCSR M \<and> matrix_represents orig U M nodes (ms_tree st)
      \<and> (\<forall>k. column_weight M k = 0
           \<or> (\<exists>c < length (col_weight st). column_weight M k = unat (col_weight st ! c)))"
    if fit: "length (col_indices M) < 2 ^ 32"
  proof -
    have "offs = offsets_of (map f rws)"
      using rebuild_rows_eq [OF rs, of rws resort] rb fit by (simp add: M_def)
    moreover have "length nodes = length (map f rws)" by (simp add: nodes_def rws_def)
    ultimately have M: "M = \<lparr>row_offsets = offsets_of (map f rws), col_indices = concat (map f rws),
        n_rows = length (map f rws), n_cols = length m\<rparr>"
      by (simp add: M_def)
    note built = built_csr [OF M]
    have rg: "rows_good (length m) (map f rws)" using rw by (auto simp: rows_good_def)
    have "represents orig U {0..<card (live st)} (\<lambda>i. (!) o2n ` set (ms_rows st ! (lv ! i))) (\<lambda>i. leaf_set st (lv ! i))"
      by (rule represents_rename [OF _ lv(4)])
         (use inv km(3) live_row_kept [OF inv] in \<open>auto simp: merge_inv_def state_represents_def intro: inj_on_subset\<close>)
    then have "represents orig U {0..<card (live st)} (\<lambda>i. set (crow M i)) (\<lambda>i. odd_in (leaves (ms_tree st) (nodes ! i)))"
      by (rule represents_cong)
         (use built(1) [OF rg] lv(3) in \<open>simp_all add: rws_def f_def leaf_set_def nodes_def\<close>)
    moreover have "column_weight M k = 0
        \<or> (\<exists>c \<in> (\<Union>r \<in> live st. set (ms_rows st ! r)). column_weight M k = card (occ st c))" for k
    proof (rule column_weight_rename [where g = "(!) o2n"])
      show "bij_betw ((!) lv) {0..<n_rows M} (live st)" using lv(4) by (simp add: len(1))
      show "inj_on ((!) o2n) (\<Union>r \<in> live st. set (ms_rows st ! r))"
        using km(3) live_row_kept [OF inv] by (auto intro: inj_on_subset)
      show "set (crow M i) = (!) o2n ` set (ms_rows st ! (lv ! i))" if "i < n_rows M" for i
        using that built(1) [OF rg] lv(3) len by (simp add: rws_def f_def)
    qed
    then have "column_weight M k = 0
        \<or> (\<exists>c < length (col_weight st). column_weight M k = unat (col_weight st ! c))" for k
      using live_row(7) [OF inv] col_weight_card [OF inv] by fastforce
    ultimately show ?thesis using built(2) [OF rg] by (simp add: matrix_represents_def len)
  qed
  have "\<forall>nd \<in> set nodes. in_tree (ms_tree st) nd"
    using in_lv live_row(9) [OF inv] by (auto simp: nodes_def)
  moreover have "n_cols M \<le> length (col_weight st)"
    using compact_cols_correct [OF cc] by (simp add: M_def)
  moreover have "length (col_indices M) = (\<Sum>r \<in> live st. length (ms_rows st ! r))"
    using sum_list_distinct_conv_sum_set [OF lv(2), of "\<lambda>r. length (ms_rows st ! r)"] lv(1)
    by (simp add: M_def length_concat rws_def f_def comp_def)
  ultimately show ?thesis
    by (intro exI [of _ M] exI [of _ nodes] conjI impI eq len) (use good in \<open>simp_all add: nodes_def lv_def\<close>)
qed

section \<open>Weight-2 merging, as a whole\<close>

lemma worklist_initial: "worklist_ok st (weight2_cols (col_weight st))"
  by (auto simp: worklist_ok_def weight2_cols_def)

lemma leaf_row_map:
  assumes "length rm = n" and "\<forall>l \<in> set rm. l < num_leaves t"
  shows "i < n \<Longrightarrow> leaves t (rm ! i) = [rm ! i]" and "\<forall>nd \<in> set rm. in_tree t nd"
  using assms by (auto simp: leaves_leaf in_tree_def trans_less_add1)

text \<open>
  The relations a singleton-free matrix stands for: row \<open>i\<close> is original relation \<open>rm ! i\<close>, and no
  dependency uses any other relation.
\<close>

definition rows_represent :: "(nat \<Rightarrow> nat set) \<Rightarrow> nat set \<Rightarrow> csr \<Rightarrow> nat list \<Rightarrow> bool" where
  "rows_represent orig U M rm \<longleftrightarrow>
     represents orig U {0..<n_rows M} (\<lambda>i. set (crow M i)) (\<lambda>i. {rm ! i})"

lemma odd_in_single [simp]: "odd_in [x] = {x}"
  by (auto simp: odd_in_def)

lemma mergeWeight2_correct:
  assumes valid: "ValidateHostMatrixCSR M" and rm: "length rm = n_rows M"
    and rep: "rows_represent orig U M rm"
    and size: "n_rows M < 2 ^ 32" "n_cols M < 2 ^ 32" "\<forall>l \<in> set rm. l + n_rows M < 2 ^ 32"
  shows "\<exists>res. mergeWeight2 M rm = Some res
    \<and> n_rows (mr_reduced res) + mr_merges_performed res = n_rows M
    \<and> length (mr_row_map res) = n_rows (mr_reduced res)
    \<and> wf_tree (mr_merge_tree res) \<and> (\<forall>nd \<in> set (mr_row_map res). in_tree (mr_merge_tree res) nd)
    \<and> (\<forall>N. (\<forall>l \<in> set rm. l < N) \<longrightarrow> num_leaves (mr_merge_tree res) \<le> N)
    \<and> length (internal_nodes (mr_merge_tree res)) + n_rows (mr_reduced res) = n_rows M
    \<and> n_cols (mr_reduced res) \<le> n_cols M
    \<and> (length (col_indices (mr_reduced res)) < 2 ^ 32 \<longrightarrow> ValidateHostMatrixCSR (mr_reduced res)
        \<and> matrix_represents orig U (mr_reduced res) (mr_row_map res) (mr_merge_tree res)
        \<and> (\<forall>k. column_weight (mr_reduced res) k \<noteq> 2))"
proof -
  let ?rws = "map (crow M) [0..<n_rows M]"
  define t where "t = \<lparr>num_leaves = (if rm = [] then 0 else (Max (set rm) + 1) mod 2 ^ 32), internal_nodes = []\<rparr>"
  have leaf: "\<forall>l \<in> set rm. l < num_leaves t" and fit: "num_leaves t + n_rows M \<le> 2 ^ 32"
    and least: "\<And>N. \<forall>l \<in> set rm. l < N \<Longrightarrow> num_leaves t \<le> N"
  proof -
    have "Max (set rm) + n_rows M < 2 ^ 32" "0 < n_rows M" if "rm \<noteq> []"
      using that size(3) rm by (simp, cases rm, auto)
    note mx = this
    have nl: "num_leaves t = Max (set rm) + 1" "Max (set rm) + 1 + n_rows M \<le> 2 ^ 32" if "rm \<noteq> []"
    proof -
      have "Max (set rm) + 1 < 2 ^ 32" "Max (set rm) + 1 + n_rows M \<le> 2 ^ 32"
        using mx [OF that] by linarith+
      then show "num_leaves t = Max (set rm) + 1" "Max (set rm) + 1 + n_rows M \<le> 2 ^ 32"
        using that by (simp_all add: t_def)
    qed
    show "\<forall>l \<in> set rm. l < num_leaves t"
    proof
      fix l assume "l \<in> set rm"
      then have "rm \<noteq> []" "l \<le> Max (set rm)" by auto
      then show "l < num_leaves t" using nl(1) by simp
    qed
    show "num_leaves t \<le> N" if "\<forall>l \<in> set rm. l < N" for N
      using nl(1) that by (cases "rm = []") (auto simp: t_def Suc_le_eq)
    show "num_leaves t + n_rows M \<le> 2 ^ 32"
      using nl size(1) by (cases "rm = []") (auto simp: t_def)
  qed
  note lr = leaf_row_map [OF rm leaf]
  have wf: "wf_tree t" by (simp add: wf_tree_def t_def)
  have "represents orig U {0..<n_rows M} (\<lambda>r. set (?rws ! r)) (\<lambda>r. odd_in (leaves t (rm ! r)))"
    using rep unfolding rows_represent_def by (rule represents_cong) (simp_all add: lr(1))
  then obtain st0 where st0: "initial_state (n_cols M) ?rws t rm = Some st0" "merge_inv orig U st0"
      "live st0 = {0..<n_rows M}" "ms_tree st0 = t" "ms_merges st0 = 0"
      "length (col_weight st0) = n_cols M"
    using initial_state_inv [OF valid_csr_rows(2) [OF valid], of rm t orig U] size(1) rm wf lr(2) by auto
  have "nodes_fit st0" using fit by (simp add: nodes_fit_def st0 t_def)
  then obtain st where st: "merge2_loop st0 (weight2_cols (col_weight st0)) = Some st" "merge_inv orig U st"
      "ms_merges st + card (live st) = n_rows M" "length (col_weight st) = n_cols M"
      "\<forall>c < length (col_weight st). col_weight st ! c \<noteq> 2"
      "num_leaves (ms_tree st) = num_leaves t"
      "length (internal_nodes (ms_tree st)) + card (live st) = n_rows M"
    using merge2_loop_inv [OF st0(2) worklist_initial] st0 by (auto simp: t_def)
  obtain R nodes where R: "rebuild False st = Some (R, nodes)" "n_rows R = card (live st)"
      "length nodes = n_rows R" "\<forall>nd \<in> set nodes. in_tree (ms_tree st) nd"
      "n_cols R \<le> length (col_weight st)"
      "length (col_indices R) < 2 ^ 32 \<longrightarrow> ValidateHostMatrixCSR R \<and> matrix_represents orig U R nodes (ms_tree st)
        \<and> (\<forall>k. column_weight R k = 0 \<or> (\<exists>c < length (col_weight st). column_weight R k = unat (col_weight st ! c)))"
    using rebuild_correct [OF st(2) size(2) [folded st(4)], of False] by blast
  have "those (map (vec_at rm) [0..<length rm]) = Some (map ((!) rm) [0..<length rm])"
    by (rule those_Some) simp
  then have "those (map (vec_at rm) [0..<n_rows M]) = Some rm" by (simp only: map_nth rm [symmetric])
  then have "mergeWeight2 M rm = Some \<lparr>mr_reduced = R, mr_row_map = nodes, mr_merge_tree = ms_tree st,
      mr_merges_performed = ms_merges st, mr_rows_removed = ms_merges st\<rparr>"
    using valid_csr_rows(1) [OF valid] st0(1) st(1) R(1) by (simp add: mergeWeight2_def t_def)
  moreover have "wf_tree (ms_tree st)" using st(2) by (simp add: merge_inv_defs)
  moreover have "\<forall>k. column_weight R k \<noteq> 2" if "length (col_indices R) < 2 ^ 32"
  proof
    fix k
    have "unat (col_weight st ! c) \<noteq> 2" if "c < length (col_weight st)" for c
      using st(5) that by (simp add: word_unat_eq_iff)
    with R(6) that show "column_weight R k \<noteq> 2" by (metis zero_neq_numeral)
  qed
  ultimately show ?thesis using R st(3,4,6,7) least by (simp add: add.commute)
qed

section \<open>Higher-weight merging\<close>

lemma row_added_simps:
  "ms_rows (row_added st nd r new) = (ms_rows st)[r := new]"
  "length (col_weight (row_added st nd r new)) = length (col_weight st)"
  "ms_merges (row_added st nd r new) = ms_merges st"
  "num_leaves (ms_tree (row_added st nd r new)) = num_leaves (ms_tree st)"
  "length (internal_nodes (ms_tree (row_added st nd r new))) = Suc (length (internal_nodes (ms_tree st)))"
  "row_alive (row_added st nd r new) = row_alive st"
  by (simp_all add: row_added_def reweigh_def)

lemma commit_all:
  assumes "merge_inv orig U st" and "p \<in> live st" and "c \<in> set (ms_rows st ! p)"
    and "distinct rs" and "p \<notin> set rs" and "\<forall>r \<in> set rs. r \<in> live st \<and> c \<in> set (ms_rows st ! r)"
    and "num_leaves (ms_tree st) + length (internal_nodes (ms_tree st)) + length rs \<le> 2 ^ 32"
  shows "\<exists>st'. ofold (commit_merge p) (map (\<lambda>r. (r, xor_rows (ms_rows st ! p) (ms_rows st ! r))) rs) st = Some st'
    \<and> merge_inv orig U st' \<and> live st' = live st \<and> occ st' c = occ st c - set rs
    \<and> length (col_weight st') = length (col_weight st) \<and> ms_merges st' = ms_merges st
    \<and> num_leaves (ms_tree st') = num_leaves (ms_tree st)
    \<and> length (internal_nodes (ms_tree st')) = length (internal_nodes (ms_tree st)) + length rs"
  using assms
proof (induction rs arbitrary: st)
  case Nil
  then show ?case by simp
next
  case (Cons r rs)
  note inv = Cons.prems(1) and p = Cons.prems(2)
  have r: "r \<in> live st" "c \<in> set (ms_rows st ! r)" "p \<noteq> r" using Cons.prems(5,6) by auto
  have room: "num_leaves (ms_tree st) + length (internal_nodes (ms_tree st)) < 2 ^ 32"
    using Cons.prems(7) by simp
  define new where "new = xor_rows (ms_rows st ! p) (ms_rows st ! r)"
  define s where "s = row_added st \<lparr>left = node_of st ! p, right = node_of st ! r\<rparr> r new"
  have eq: "commit_merge p (r, new) st = Some s"
    using commit_merge_eq [OF inv p r(1) room new_def] by (simp add: s_def)
  have s: "merge_inv orig U s" "live s = live st"
    using row_added_inv [OF inv p r(1,3) new_def] by (simp_all add: s_def)
  have rows: "ms_rows s ! p = ms_rows st ! p" "\<And>q. q \<in> set rs \<Longrightarrow> ms_rows s ! q = ms_rows st ! q"
    using r(3) Cons.prems(4) by (auto simp: s_def row_added_simps intro!: nth_list_update_neq)
  have "c \<notin> set new" using xor_row_facts(3) [OF inv p r(1) new_def] Cons.prems(3) r(2) by (simp add: in_sdiff)
  then have occ: "occ s c = occ st c - {r}"
    using occ_replace(2) [OF r(1), of s new c] by (simp add: s_def row_added_simps)
  have cnt: "length (col_weight s) = length (col_weight st)" "ms_merges s = ms_merges st"
      "num_leaves (ms_tree s) = num_leaves (ms_tree st)"
      "length (internal_nodes (ms_tree s)) = Suc (length (internal_nodes (ms_tree st)))"
    by (simp_all add: s_def row_added_simps)
  have m: "map (\<lambda>q. (q, xor_rows (ms_rows s ! p) (ms_rows s ! q))) rs
      = map (\<lambda>q. (q, xor_rows (ms_rows st ! p) (ms_rows st ! q))) rs"
    using rows by simp
  have "\<exists>st'. ofold (commit_merge p) (map (\<lambda>q. (q, xor_rows (ms_rows s ! p) (ms_rows s ! q))) rs) s = Some st'
      \<and> merge_inv orig U st' \<and> live st' = live s \<and> occ st' c = occ s c - set rs
      \<and> length (col_weight st') = length (col_weight s) \<and> ms_merges st' = ms_merges s
      \<and> num_leaves (ms_tree st') = num_leaves (ms_tree s)
      \<and> length (internal_nodes (ms_tree st')) = length (internal_nodes (ms_tree s)) + length rs"
    by (rule Cons.IH) (use s p rows Cons.prems in \<open>simp_all add: cnt\<close>)
  then show ?case
    using eq s(2) occ unfolding m by (auto simp: new_def cnt)
qed

lemma plan_merges_eq:
  assumes "\<forall>r \<in> set rs. r < length (ms_rows st)" and "p < length (ms_rows st)"
  shows "\<exists>b plan'. plan_merges st mx p rs plan = Some (b, plan')
    \<and> (b \<longrightarrow> plan' = plan @ map (\<lambda>r. (r, xor_rows (ms_rows st ! p) (ms_rows st ! r))) rs)"
  using assms by (induction st mx p rs plan rule: plan_merges.induct) (auto simp: Let_def)

lemma lightest_bound:
  assumes "containing \<noteq> []"
  shows "lightest st containing < length containing"
proof -
  have "fold (\<lambda>i best. if P i best then i else best) is b < n" if "\<forall>i \<in> set is. i < n" "b < n"
    for P and "is" :: "nat list" and b n
    using that by (induction "is" arbitrary: b) auto
  then show ?thesis using assms unfolding lightest_def by simp
qed

lemma remove_nth_facts:
  assumes "i < length xs" and "distinct xs"
  defines "ys \<equiv> take i xs @ drop (Suc i) xs"
  shows "distinct ys" "xs ! i \<notin> set ys" "set xs = insert (xs ! i) (set ys)" "length ys + 1 = length xs"
proof -
  have xs: "xs = take i xs @ xs ! i # drop (Suc i) xs" by (rule id_take_nth_drop [OF assms(1)])
  have d: "distinct (take i xs @ xs ! i # drop (Suc i) xs)" using assms(2) xs by simp
  show "distinct ys" "xs ! i \<notin> set ys" using d unfolding ys_def by auto
  have "set xs = set (take i xs @ xs ! i # drop (Suc i) xs)" using xs by simp
  then show "set xs = insert (xs ! i) (set ys)" unfolding ys_def by auto
  show "length ys + 1 = length xs" using assms(1) unfolding ys_def by simp
qed

text \<open>Room for the nodes of the remaining eliminations: at most \<open>k\<close> per live row.\<close>

definition nodes_fit_k :: "nat \<Rightarrow> merge_state \<Rightarrow> bool" where
  "nodes_fit_k k st \<longleftrightarrow>
     num_leaves (ms_tree st) + length (internal_nodes (ms_tree st)) + k * card (live st) \<le> 2 ^ 32"

lemma eliminate_column_inv:
  assumes inv: "merge_inv orig U st" and c: "c < length (col_weight st)" and fit: "nodes_fit_k k st"
  shows "\<exists>st'. eliminate_column k mx c st = Some st' \<and> merge_inv orig U st' \<and> nodes_fit_k k st'
    \<and> length (col_weight st') = length (col_weight st)
    \<and> ms_merges st' + card (live st') = ms_merges st + card (live st)"
proof -
  have cr: "c < length (col_rows st)" "distinct (col_rows st ! c)" "set (col_rows st ! c) = occ st c"
    using inv c by (auto simp: merge_inv_defs)
  have alive: "r \<in> live st \<and> r < length (row_alive st) \<and> row_alive st ! r" if "r \<in> set (col_rows st ! c)" for r
    using that cr(3) live_row(3,4) [OF inv] by (auto simp: occ_def)
  define cs where "cs = col_rows st ! c"
  have flags: "those (map (vec_at (row_alive st)) cs) = Some (map ((!) (row_alive st)) cs)"
    by (rule those_Some) (use alive in \<open>simp add: cs_def\<close>)
  have filt: "filter (\<lambda>r. row_alive st ! r) cs = cs" using alive by (simp add: cs_def)
  have wc: "unat (col_weight st ! c) = length cs"
    using col_weight_card [OF inv c] distinct_card [OF cr(2)] cr(3) by (simp add: cs_def)
  show ?thesis
  proof (cases "col_weight st ! c = 0 \<or> k < length cs \<or> length cs < 2")
    case True
    then have "eliminate_column k mx c st = Some st"
      using c cr(1) wc flags filt by (auto simp: eliminate_column_def cs_def Let_def)
    with inv fit show ?thesis by auto
  next
    case False
    define i where "i = lightest st cs"
    define others where "others = take i cs @ drop (Suc i) cs"
    define p where "p = cs ! i"
    have i: "i < length cs" unfolding i_def using False by (intro lightest_bound) auto
    note rem = remove_nth_facts [OF i cr(2) [folded cs_def], folded others_def p_def]
    have rows: "r \<in> live st" "c \<in> set (ms_rows st ! r)" if "r \<in> insert p (set others)" for r
      using that rem(3) cr(3) by (auto simp: cs_def occ_def)
    obtain b plan where plan: "plan_merges st mx p others [] = Some (b, plan)"
        "b \<longrightarrow> plan = map (\<lambda>r. (r, xor_rows (ms_rows st ! p) (ms_rows st ! r))) others"
      using plan_merges_eq [of others st p mx "[]"] rows live_row(1) [OF inv] by auto
    have elim: "eliminate_column k mx c st =
        (if b \<and> plan \<noteq> [] then do { st' \<leftarrow> ofold (commit_merge p) plan st; delete_pivot p st' } else Some st)"
      using c cr(1) wc False flags filt plan(1)
      by (auto simp: eliminate_column_def cs_def [symmetric] Let_def i_def [symmetric] p_def [symmetric]
          others_def [symmetric])
    show ?thesis
    proof (cases "b \<and> plan \<noteq> []")
      case False
      with elim inv fit show ?thesis by auto
    next
      case True
      have "finite (live st)" "p \<in> live st" using rows by auto
      then have pos: "0 < card (live st)" by (auto simp: card_gt_0_iff)
      then have "k + k * (card (live st) - 1) = k * card (live st)" by (cases "card (live st)") auto
      moreover have "length others + 1 \<le> k" using rem(4) False by simp
      ultimately have room: "num_leaves (ms_tree st) + length (internal_nodes (ms_tree st)) + length others
          + k * (card (live st) - 1) \<le> 2 ^ 32"
        using fit by (simp add: nodes_fit_k_def)
      obtain st' where st': "ofold (commit_merge p) plan st = Some st'" "merge_inv orig U st'"
          "live st' = live st" "occ st' c = occ st c - set others"
          "length (col_weight st') = length (col_weight st)" "ms_merges st' = ms_merges st"
          "num_leaves (ms_tree st') = num_leaves (ms_tree st)"
          "length (internal_nodes (ms_tree st')) = length (internal_nodes (ms_tree st)) + length others"
        using commit_all [of orig U st p c others] inv rem(1,2) rows room plan(2) True by auto
      have p': "p \<in> live st'" using st'(3) rows(1) by simp
      have alone: "occ st' c = {p}" using st'(4) cr(3) rem(2,3) by (auto simp: cs_def)
      note del = row_deleted_inv [OF st'(2) p' alone]
      have card': "card (live (row_deleted st' p)) = card (live st) - 1"
        using del(2) st'(3) p' by (simp add: card_Diff_singleton_if)
      have "nodes_fit_k k (row_deleted st' p)"
        using room card' st'(7,8) by (simp add: nodes_fit_k_def) (simp add: row_deleted_def)
      moreover have "eliminate_column k mx c st = Some (row_deleted st' p)"
        using elim True st'(1) delete_pivot_eq [OF st'(2) p'] by simp
      ultimately show ?thesis
        using del(1) card' pos st'(5,6) by (simp add: row_deleted_def)
    qed
  qed
qed

lemma ofold_invariant:
  assumes "P s" and "\<And>x s. x \<in> set xs \<Longrightarrow> P s \<Longrightarrow> \<exists>s'. f x s = Some s' \<and> P s'"
  shows "\<exists>s'. ofold f xs s = Some s' \<and> P s'"
  using ofold_refine [of "\<lambda>s _. P s" s "()" xs f "\<lambda>_ _. ()"] assms by auto

definition higher_inv :: "(nat \<Rightarrow> nat set) \<Rightarrow> nat set \<Rightarrow> nat \<Rightarrow> nat \<Rightarrow> nat \<Rightarrow> merge_state \<Rightarrow> bool" where
  "higher_inv orig U k nc n st \<longleftrightarrow> merge_inv orig U st \<and> nodes_fit_k k st
     \<and> length (col_weight st) = nc \<and> ms_merges st + card (live st) = n"

lemma weight_pass_inv:
  assumes "higher_inv orig U k nc n st"
  shows "\<exists>st'. weight_pass k mx w st = Some st' \<and> higher_inv orig U k nc n st'"
  unfolding weight_pass_def
proof (rule ofold_invariant [of "higher_inv orig U k nc n"])
  show "higher_inv orig U k nc n st" by (rule assms)
next
  fix c s
  assume "c \<in> set (filter (\<lambda>c. col_weight st ! c = of_nat w) [0..<length (col_weight st)])"
    and s: "higher_inv orig U k nc n s"
  then have "c < length (col_weight s)" using assms by (simp add: higher_inv_def)
  from eliminate_column_inv [OF _ this, of orig U k mx] s
  show "\<exists>s'. eliminate_column k mx c s = Some s' \<and> higher_inv orig U k nc n s'"
    by (auto simp: higher_inv_def)
qed

lemma mergeHigherWeight_correct:
  assumes valid: "ValidateHostMatrixCSR (mr_reduced inp)"
    and rm: "length (mr_row_map inp) = n_rows (mr_reduced inp)"
    and tree: "wf_tree (mr_merge_tree inp)" "\<forall>nd \<in> set (mr_row_map inp). in_tree (mr_merge_tree inp) nd"
    and rep: "matrix_represents orig U (mr_reduced inp) (mr_row_map inp) (mr_merge_tree inp)"
    and size: "n_rows (mr_reduced inp) < 2 ^ 32" "n_cols (mr_reduced inp) < 2 ^ 32"
      "num_leaves (mr_merge_tree inp) + length (internal_nodes (mr_merge_tree inp))
         + k * n_rows (mr_reduced inp) \<le> 2 ^ 32"
  shows "\<exists>res. mergeHigherWeight F inp k mx = Some res
    \<and> n_rows (mr_reduced res) + mr_rows_removed res = n_rows (mr_reduced inp)
    \<and> length (mr_row_map res) = n_rows (mr_reduced res)
    \<and> wf_tree (mr_merge_tree res) \<and> (\<forall>nd \<in> set (mr_row_map res). in_tree (mr_merge_tree res) nd)
    \<and> (length (col_indices (mr_reduced res)) < 2 ^ 32 \<longrightarrow> ValidateHostMatrixCSR (mr_reduced res)
        \<and> matrix_represents orig U (mr_reduced res) (mr_row_map res) (mr_merge_tree res))"
proof -
  let ?M = "mr_reduced inp" and ?t = "mr_merge_tree inp" and ?rm = "mr_row_map inp"
  let ?rws = "map (crow ?M) [0..<n_rows ?M]"
  define em where "em = max mx (unat (ucast (d2u F (fl F (2 * fl F (of_nat (sum_list (map length ?rws))
      / of_nat (max 1 (n_rows ?M)))))) :: u32))"
  have "represents orig U {0..<n_rows ?M} (\<lambda>r. set (?rws ! r)) (\<lambda>r. odd_in (leaves ?t (?rm ! r)))"
    using rep unfolding matrix_represents_def by (rule represents_cong) simp_all
  then obtain st0 where st0: "initial_state (n_cols ?M) ?rws ?t ?rm = Some st0" "merge_inv orig U st0"
      "live st0 = {0..<n_rows ?M}" "ms_tree st0 = ?t" "ms_merges st0 = 0"
      "length (col_weight st0) = n_cols ?M"
    using initial_state_inv [OF valid_csr_rows(2) [OF valid], of ?rm ?t orig U] size(1) rm tree by auto
  have "higher_inv orig U k (n_cols ?M) (n_rows ?M) st0"
    using size(3) st0 by (simp add: higher_inv_def nodes_fit_k_def)
  then obtain st where st: "ofold (weight_pass k em) [3..<Suc k] st0 = Some st"
      "higher_inv orig U k (n_cols ?M) (n_rows ?M) st"
    using ofold_invariant [of "higher_inv orig U k (n_cols ?M) (n_rows ?M)" st0 "[3..<Suc k]" "weight_pass k em"]
      weight_pass_inv by blast
  then have inv: "merge_inv orig U st" and len: "length (col_weight st) < 2 ^ 32"
      and cnt: "ms_merges st + card (live st) = n_rows ?M"
    using size(2) by (auto simp: higher_inv_def)
  obtain R nodes where R: "rebuild True st = Some (R, nodes)" "n_rows R = card (live st)"
      "length nodes = n_rows R" "\<forall>nd \<in> set nodes. in_tree (ms_tree st) nd"
      "length (col_indices R) < 2 ^ 32 \<longrightarrow> ValidateHostMatrixCSR R \<and> matrix_represents orig U R nodes (ms_tree st)"
    using rebuild_correct [OF inv len, of True] by blast
  have "mergeHigherWeight F inp k mx = Some \<lparr>mr_reduced = R, mr_row_map = nodes, mr_merge_tree = ms_tree st,
      mr_merges_performed = ms_merges st, mr_rows_removed = ms_merges st\<rparr>"
    unfolding mergeHigherWeight_def
    using valid_csr_rows(1) [OF valid] st0(1) st(1) R(1) by (simp add: em_def Let_def)
  moreover have "wf_tree (ms_tree st)" using inv by (simp add: merge_inv_defs)
  ultimately show ?thesis using R cnt by (simp add: add.commute)
qed

section \<open>Singleton removal keeps every dependency\<close>

definition matrix_rows :: "csr \<Rightarrow> nat \<Rightarrow> nat set" where
  "matrix_rows M r = set (crow M r)"

text \<open>
  The state of the singleton loop, seen as a state of the merge passes with an empty tree, so
  that the facts about those carry over.
\<close>

definition sing_state :: "csr \<Rightarrow> bool list \<Rightarrow> u32 list \<Rightarrow> merge_state" where
  "sing_state M alive w =
     \<lparr>ms_rows = map (crow M) [0..<n_rows M],
      ms_tree = \<lparr>num_leaves = n_rows M, internal_nodes = []\<rparr>, node_of = [0..<n_rows M],
      row_alive = alive, col_weight = w,
      col_rows = map (\<lambda>c. filter (\<lambda>r. alive ! r \<and> c \<in> set (crow M r)) [0..<n_rows M]) [0..<length w],
      ms_merges = 0\<rparr>"

definition sing_inv :: "csr \<Rightarrow> bool list \<Rightarrow> u32 list \<Rightarrow> bool" where
  "sing_inv M alive w \<longleftrightarrow> length alive = n_rows M \<and> length w = n_cols M
     \<and> merge_inv (matrix_rows M) {0..<n_rows M} (sing_state M alive w)"

lemma sing_state_facts:
  assumes "length alive = n_rows M"
  shows "live (sing_state M alive w) = {r. r < n_rows M \<and> alive ! r}"
    and "occ (sing_state M alive w) c = {r. r < n_rows M \<and> alive ! r \<and> c \<in> set (crow M r)}"
    and "r < n_rows M \<Longrightarrow> leaf_set (sing_state M alive w) r = {r}"
  using assms by (auto simp: live_def occ_def sing_state_def leaf_set_def leaves_leaf)

lemma sing_invI:
  assumes valid: "ValidateHostMatrixCSR M" and n: "n_rows M < 2 ^ 32"
    and len: "length alive = n_rows M" "length w = n_cols M"
    and weights: "\<And>c. c < n_cols M \<Longrightarrow> w ! c = of_nat (card (occ (sing_state M alive w) c))"
    and rep: "represents (matrix_rows M) {0..<n_rows M} (live (sing_state M alive w))
      (matrix_rows M) (\<lambda>r. {r})"
  shows "sing_inv M alive w"
proof -
  let ?st = "sing_state M alive w"
  have "rows_ok ?st"
    using rows_goodD [OF valid_csr_rows(2) [OF valid]] len by (auto simp: rows_ok_def sing_state_def)
  moreover have "columns_ok ?st"
    unfolding columns_ok_def
  proof (intro allI impI)
    fix c assume "c < length (col_weight ?st)"
    then have c: "c < n_cols M" using len by (simp add: sing_state_def)
    then have "distinct (col_rows ?st ! c) \<and> set (col_rows ?st ! c) = occ ?st c"
      unfolding sing_state_facts(2) [OF len(1)] using len(2) by (auto simp: sing_state_def)
    moreover have "col_weight ?st ! c = of_nat (card (occ ?st c))"
      using weights [OF c] by (simp add: sing_state_def)
    ultimately show "distinct (col_rows ?st ! c) \<and> set (col_rows ?st ! c) = occ ?st c
        \<and> col_weight ?st ! c = of_nat (card (occ ?st c))" by simp
  qed
  moreover have "tree_ok ?st"
    unfolding tree_ok_def sing_state_facts(1) [OF len(1)]
    by (simp add: sing_state_def wf_tree_def in_tree_def)
  moreover have "shape_ok ?st" using len n by (simp add: shape_ok_def sing_state_def)
  moreover have "state_represents (matrix_rows M) {0..<n_rows M} ?st"
    unfolding state_represents_def
    by (rule represents_cong [OF rep])
       (use len in \<open>simp_all add: sing_state_facts, simp add: sing_state_def matrix_rows_def\<close>)
  ultimately show ?thesis using len by (simp add: sing_inv_def merge_inv_def)
qed

lemma sing_inv_rep:
  assumes "sing_inv M alive w"
  shows "represents (matrix_rows M) {0..<n_rows M} (live (sing_state M alive w)) (matrix_rows M) (\<lambda>r. {r})"
proof -
  have "length alive = n_rows M" using assms by (simp add: sing_inv_def)
  note facts = sing_state_facts [OF this]
  have "represents (matrix_rows M) {0..<n_rows M} (live (sing_state M alive w))
      (\<lambda>r. set (ms_rows (sing_state M alive w) ! r)) (leaf_set (sing_state M alive w))"
    using assms by (simp add: sing_inv_def merge_inv_def state_represents_def)
  then show ?thesis
    by (rule represents_cong) (simp_all add: facts, simp add: sing_state_def matrix_rows_def)
qed

lemma sing_kill:
  assumes valid: "ValidateHostMatrixCSR M" and n: "n_rows M < 2 ^ 32"
    and inv: "sing_inv M alive w" and r: "r < n_rows M" "alive ! r"
    and c: "c \<in> set (crow M r)" "w ! c = 1"
  shows "sing_inv M (alive[r := False]) (upd_cols (\<lambda>x. x - 1) (set (crow M r)) w)"
    and "live (sing_state M (alive[r := False]) w') = live (sing_state M alive w) - {r}"
proof -
  let ?a = "alive[r := False]" and ?w = "upd_cols (\<lambda>x. x - 1) (set (crow M r)) w"
  have len: "length alive = n_rows M" "length w = n_cols M"
    and mi: "merge_inv (matrix_rows M) {0..<n_rows M} (sing_state M alive w)"
    using inv by (auto simp: sing_inv_def)
  have len': "length ?a = n_rows M" using len by simp
  note f = sing_state_facts [OF len(1)] and f' = sing_state_facts [OF len']
  show live': "live (sing_state M ?a w') = live (sing_state M alive w) - {r}" for w'
    unfolding f f' using len r by (auto simp: nth_list_update split: if_splits)
  have occ': "occ (sing_state M ?a w') d = occ (sing_state M alive w) d - {r}" for d w'
    unfolding f f' using len r by (auto simp: nth_list_update split: if_splits)
  have cn: "c < n_cols M" using valid r(1) c(1) by (auto simp: validate_iff)
  have weights: "w ! d = of_nat (card (occ (sing_state M alive w) d))" if "d < n_cols M" for d
    using mi that len by (simp add: merge_inv_defs) (simp add: sing_state_def)
  have "card (occ (sing_state M alive w) c) = 1"
    using col_weight_card [OF mi, of c] cn len c(2) by (simp add: sing_state_def)
  moreover have "r \<in> occ (sing_state M alive w) c" unfolding f using r c by simp
  ultimately have alone: "occ (sing_state M alive w) c = {r}" by (metis card_1_singletonE singletonD)
  have "represents (matrix_rows M) {0..<n_rows M} (live (sing_state M alive w) - {r}) (matrix_rows M) (\<lambda>r. {r})"
  proof (rule represents_drop [OF sing_inv_rep [OF inv]])
    show "r \<in> live (sing_state M alive w)" "c \<in> matrix_rows M r"
      using r c by (simp_all add: f matrix_rows_def)
    show "q = r" if "q \<in> live (sing_state M alive w)" "c \<in> matrix_rows M q" for q
      using alone that by (auto simp: f matrix_rows_def)
  qed
  moreover have "?w ! d = of_nat (card (occ (sing_state M ?a ?w) d))" if "d < n_cols M" for d
    unfolding occ' using that len weights r by (simp add: of_nat_card_remove f)
  ultimately show "sing_inv M ?a ?w"
    using len by (intro sing_invI [OF valid n]) (simp_all add: live')
qed

lemma has_singleton_eq:
  "\<forall>c \<in> set rw. c < length w \<Longrightarrow> has_singleton w rw = Some (\<exists>c \<in> set rw. w ! c = 1)"
  by (induction rw) auto

definition no_singleton :: "csr \<Rightarrow> bool list \<Rightarrow> u32 list \<Rightarrow> nat \<Rightarrow> bool" where
  "no_singleton M alive w r \<longleftrightarrow> (alive ! r \<longrightarrow> (\<forall>c \<in> set (crow M r). w ! c \<noteq> 1))"

abbreviation live_count :: "csr \<Rightarrow> bool list \<Rightarrow> nat" where
  "live_count M alive \<equiv> card {r. r < n_rows M \<and> alive ! r}"

lemma singleton_row_inv:
  assumes valid: "ValidateHostMatrixCSR M" and n: "n_rows M < 2 ^ 32"
    and inv: "sing_inv M alive w" and r: "r < n_rows M"
  shows "\<exists>alive' w' removed'. singleton_row M r (alive, w, removed) = Some (alive', w', removed')
    \<and> sing_inv M alive' w' \<and> removed' + live_count M alive' = removed + live_count M alive
    \<and> removed \<le> removed' \<and> (removed' = removed \<longrightarrow> alive' = alive \<and> w' = w \<and> no_singleton M alive w r)"
proof -
  have len: "length alive = n_rows M" "length w = n_cols M" using inv by (auto simp: sing_inv_def)
  have rng: "\<forall>c \<in> set (crow M r). c < length w" "distinct (crow M r)"
    using valid r len by (auto simp: validate_iff intro: sorted_lt_distinct)
  note hs = has_singleton_eq [OF rng(1)] and row = valid_csr_row [OF valid r]
  show ?thesis
  proof (cases "alive ! r \<and> (\<exists>c \<in> set (crow M r). w ! c = 1)")
    case False
    then have "singleton_row M r (alive, w, removed) = Some (alive, w, removed)" "no_singleton M alive w r"
      using r len row hs by (auto simp: singleton_row_def no_singleton_def)
    with inv show ?thesis by auto
  next
    case True
    then obtain c where c: "c \<in> set (crow M r)" "w ! c = 1" by blast
    let ?a = "alive[r := False]" and ?w = "upd_cols (\<lambda>x. x - 1) (set (crow M r)) w"
    have eq: "singleton_row M r (alive, w, removed) = Some (?a, ?w, removed + 1)"
      using True r len row hs rng by (auto simp: singleton_row_def for_cols_upd)
    have kill: "sing_inv M ?a ?w" using sing_kill(1) [OF valid n inv r _ c] True by simp
    have "{q. q < n_rows M \<and> ?a ! q} = {q. q < n_rows M \<and> alive ! q} - {r}"
      using len r by (auto simp: nth_list_update split: if_splits)
    moreover have "r \<in> {q. q < n_rows M \<and> alive ! q}" using True r by simp
    moreover have "0 < live_count M alive" using True r by (auto simp: card_gt_0_iff)
    ultimately have "Suc (live_count M ?a) = live_count M alive" by (simp add: card_Diff_singleton_if)
    with eq kill show ?thesis by auto
  qed
qed

lemma singleton_pass_prefix:
  assumes valid: "ValidateHostMatrixCSR M" and n: "n_rows M < 2 ^ 32" and inv: "sing_inv M alive w"
    and "k \<le> n_rows M"
  shows "\<exists>alive' w' removed. ofold (singleton_row M) [0..<k] (alive, w, 0) = Some (alive', w', removed)
    \<and> sing_inv M alive' w' \<and> removed + live_count M alive' = live_count M alive
    \<and> (removed = 0 \<longrightarrow> alive' = alive \<and> w' = w \<and> (\<forall>r < k. no_singleton M alive w r))"
  using assms(4)
proof (induction k)
  case 0
  then show ?case using inv by simp
next
  case (Suc k)
  then obtain a w1 m where IH: "ofold (singleton_row M) [0..<k] (alive, w, 0) = Some (a, w1, m)"
      "sing_inv M a w1" "m + live_count M a = live_count M alive"
      "m = 0 \<longrightarrow> a = alive \<and> w1 = w \<and> (\<forall>r < k. no_singleton M alive w r)"
    by auto
  obtain a' w2 m' where st: "singleton_row M k (a, w1, m) = Some (a', w2, m')" "sing_inv M a' w2"
      "m' + live_count M a' = m + live_count M a" "m \<le> m'"
      "m' = m \<longrightarrow> a' = a \<and> w2 = w1 \<and> no_singleton M a w1 k"
    using singleton_row_inv [OF valid n IH(2), of k m] Suc.prems by auto
  show ?case using IH st by (auto simp: ofold_append less_Suc_eq)
qed

lemma singleton_loop_inv:
  assumes valid: "ValidateHostMatrixCSR M" and n: "n_rows M < 2 ^ 32"
  shows "sing_inv M alive w \<Longrightarrow>
    \<exists>alive' w' tot' iter'. singleton_loop k M alive w tot iter = Some (alive', w', tot', iter')
    \<and> sing_inv M alive' w' \<and> tot' + live_count M alive' = tot + live_count M alive
    \<and> iter' \<le> iter + k \<and> (iter' < iter + k \<longrightarrow> (\<forall>r < n_rows M. no_singleton M alive' w' r))"
proof (induction k arbitrary: alive w tot iter)
  case 0
  then show ?case by simp
next
  case (Suc k)
  obtain a w1 m where pass: "singleton_pass M (alive, w) = Some (a, w1, m)" "sing_inv M a w1"
      "m + live_count M a = live_count M alive"
      "m = 0 \<longrightarrow> a = alive \<and> w1 = w \<and> (\<forall>r < n_rows M. no_singleton M alive w r)"
    using singleton_pass_prefix [OF valid n Suc.prems le_refl] by (auto simp: singleton_pass_def)
  show ?case
  proof (cases "m = 0")
    case True
    with pass show ?thesis by auto
  next
    case False
    from Suc.IH [OF pass(2), of "tot + m" "iter + 1"] False pass(1,3) show ?thesis by fastforce
  qed
qed

lemma initial_col_weight_prefix:
  assumes valid: "ValidateHostMatrixCSR M" and "k \<le> n_rows M"
  shows "\<exists>w. ofold (\<lambda>r w. do { rw \<leftarrow> csr_row M r; incr_cols rw w }) [0..<k] (replicate (n_cols M) 0) = Some w
    \<and> length w = n_cols M \<and> (\<forall>c < n_cols M. w ! c = of_nat (card {r. r < k \<and> c \<in> set (crow M r)}))"
  using assms(2)
proof (induction k)
  case 0
  then show ?case by simp
next
  case (Suc k)
  then obtain w where IH: "ofold (\<lambda>r w. do { rw \<leftarrow> csr_row M r; incr_cols rw w }) [0..<k] (replicate (n_cols M) 0) = Some w"
      "length w = n_cols M" "\<forall>c < n_cols M. w ! c = of_nat (card {r. r < k \<and> c \<in> set (crow M r)})"
    by auto
  have row: "csr_row M k = Some (crow M k)" "\<forall>c \<in> set (crow M k). c < n_cols M" "distinct (crow M k)"
    using Suc.prems valid_csr_row [OF valid, of k] valid_row [OF valid, of k] by simp_all
  have "{r. r < Suc k \<and> c \<in> set (crow M r)}
      = (if c \<in> set (crow M k) then insert k {r. r < k \<and> c \<in> set (crow M r)} else {r. r < k \<and> c \<in> set (crow M r)})" for c
    by (auto simp: less_Suc_eq)
  then show ?case using IH row by (simp add: ofold_append for_cols_upd)
qed

lemma initial_sing_inv:
  assumes valid: "ValidateHostMatrixCSR M" and n: "n_rows M < 2 ^ 32"
  shows "\<exists>w. initial_col_weight M = Some w \<and> sing_inv M (replicate (n_rows M) True) w"
proof -
  obtain w where w: "initial_col_weight M = Some w" "length w = n_cols M"
      "\<forall>c < n_cols M. w ! c = of_nat (card {r. r < n_rows M \<and> c \<in> set (crow M r)})"
    using initial_col_weight_prefix [OF valid le_refl] by (auto simp: initial_col_weight_def)
  have len: "length (replicate (n_rows M) True) = n_rows M" by simp
  note f = sing_state_facts [OF len]
  have live: "live (sing_state M (replicate (n_rows M) True) w) = {0..<n_rows M}" by (auto simp: f)
  have occ: "occ (sing_state M (replicate (n_rows M) True) w) c = {r. r < n_rows M \<and> c \<in> set (crow M r)}" for c
    by (auto simp: f)
  have "sing_inv M (replicate (n_rows M) True) w"
    by (rule sing_invI [OF valid n]) (use w in \<open>simp_all add: live occ represents_init\<close>)
  with w(1) show ?thesis by blast
qed

lemma valid_nnz:
  assumes valid: "ValidateHostMatrixCSR M"
  shows "(\<Sum>r < n_rows M. length (crow M r)) = length (col_indices M)"
proof -
  have len: "length (crow M r) = row_offsets M ! (r + 1) - row_offsets M ! r" if "r < n_rows M" for r
    using valid_offsets_le [OF valid, of "r + 1"] that by (simp add: crow_def length_slice)
  have "(\<Sum>r < k. length (crow M r)) = row_offsets M ! k" if "k \<le> n_rows M" for k
    using that
  proof (induction k)
    case 0
    then show ?case using valid by (simp add: validate_iff)
  next
    case (Suc k)
    then show ?case using len [of k] valid by (simp add: validate_iff)
  qed
  then show ?thesis using valid_last [OF valid] by simp
qed

text \<open>The final compaction of \<open>removeSingletons\<close> is the rebuild of the merge passes.\<close>

lemma sing_rebuild:
  assumes valid: "ValidateHostMatrixCSR M" and size: "n_rows M < 2 ^ 32" "n_cols M < 2 ^ 32"
      "length (col_indices M) < 2 ^ 32"
    and inv: "sing_inv M alive w"
  shows "\<exists>o2n cmap rws offs cols R. compact_cols w 0 0 = (o2n, cmap)
    \<and> those (map (csr_row M) (alive_rows alive)) = Some rws
    \<and> rebuild_rows False o2n rws = Some (offs, cols)
    \<and> R = \<lparr>row_offsets = offs, col_indices = cols, n_rows = live_count M alive, n_cols = length cmap\<rparr>
    \<and> length (alive_rows alive) = live_count M alive \<and> (\<forall>l \<in> set (alive_rows alive). l < n_rows M)
    \<and> ValidateHostMatrixCSR R \<and> n_cols R \<le> n_cols M
    \<and> rows_represent (matrix_rows M) {0..<n_rows M} R (alive_rows alive)
    \<and> (\<forall>k. column_weight R k = 0 \<or> (\<exists>c < length w. column_weight R k = unat (w ! c)))"
proof -
  let ?st = "sing_state M alive w" and ?lv = "alive_rows alive"
  have len: "length alive = n_rows M" "length w = n_cols M"
    and mi: "merge_inv (matrix_rows M) {0..<n_rows M} ?st" using inv by (auto simp: sing_inv_def)
  note f = sing_state_facts [OF len(1)]
  have stf: "col_weight ?st = w" "row_alive ?st = alive" "node_of ?st = [0..<n_rows M]"
      "ms_rows ?st = map (crow M) [0..<n_rows M]"
      "ms_tree ?st = \<lparr>num_leaves = n_rows M, internal_nodes = []\<rparr>" by (simp_all add: sing_state_def)
  have lv: "\<forall>l \<in> set ?lv. l < n_rows M" "length ?lv = live_count M alive"
    using len alive_rows_facts(3) [of ?st] by (auto simp: alive_rows_def f stf)
  have csum: "(\<Sum>r \<in> live ?st. length (ms_rows ?st ! r)) \<le> length (col_indices M)"
  proof -
    have "(\<Sum>r \<in> live ?st. length (ms_rows ?st ! r)) = (\<Sum>r \<in> live ?st. length (crow M r))"
      by (rule sum.cong) (auto simp: f stf)
    also have "\<dots> \<le> (\<Sum>r < n_rows M. length (crow M r))" by (rule sum_mono2) (auto simp: f)
    finally show ?thesis by (simp add: valid_nnz [OF valid])
  qed
  obtain R nodes where R: "rebuild False ?st = Some (R, nodes)" "n_cols R \<le> n_cols M"
      "nodes = map ((!) [0..<n_rows M]) ?lv" "n_rows R = live_count M alive"
      "ValidateHostMatrixCSR R" "matrix_represents (matrix_rows M) {0..<n_rows M} R nodes (ms_tree ?st)"
      "\<forall>k. column_weight R k = 0 \<or> (\<exists>c < length w. column_weight R k = unat (w ! c))"
  proof -
    have nc: "length (col_weight ?st) < 2 ^ 32" using len(2) size(2) by (simp add: stf)
    obtain R nodes where r: "rebuild False ?st = Some (R, nodes)" "n_cols R \<le> length (col_weight ?st)"
        "nodes = map ((!) (node_of ?st)) (alive_rows (row_alive ?st))" "n_rows R = card (live ?st)"
        "length (col_indices R) = (\<Sum>r \<in> live ?st. length (ms_rows ?st ! r))"
        "length (col_indices R) < 2 ^ 32 \<longrightarrow> ValidateHostMatrixCSR R
          \<and> matrix_represents (matrix_rows M) {0..<n_rows M} R nodes (ms_tree ?st)
          \<and> (\<forall>k. column_weight R k = 0
               \<or> (\<exists>c < length (col_weight ?st). column_weight R k = unat (col_weight ?st ! c)))"
      using rebuild_correct [OF mi nc, of False] by blast
    have "length (col_indices R) < 2 ^ 32" using r(5) csum size(3) by linarith
    with r(6) have "ValidateHostMatrixCSR R"
        "matrix_represents (matrix_rows M) {0..<n_rows M} R nodes (ms_tree ?st)"
        "\<forall>k. column_weight R k = 0 \<or> (\<exists>c < length w. column_weight R k = unat (w ! c))"
      by (simp_all add: stf(1))
    moreover have "n_rows R = live_count M alive" using r(4) by (simp add: f)
    ultimately show ?thesis using that r(1,2,3) len(2) by (simp add: stf)
  qed
  have nodes: "nodes = ?lv" using R(3) lv(1) by (simp add: map_idI)
  have "rows_represent (matrix_rows M) {0..<n_rows M} R ?lv"
    using R(6) unfolding rows_represent_def matrix_represents_def nodes
    by (rule represents_cong) (use lv in \<open>simp_all add: R(4) stf leaves_leaf\<close>)
  moreover have "those (map (csr_row M) ?lv) = Some (map (crow M) ?lv)"
    by (rule those_Some) (use lv(1) valid_csr_row [OF valid] in simp)
  moreover have "those (map (vec_at (ms_rows ?st)) ?lv) = Some (map (crow M) ?lv)"
      "those (map (vec_at (node_of ?st)) ?lv) = Some ?lv"
    using those_Some [of ?lv "vec_at (ms_rows ?st)" "crow M"] those_Some [of ?lv "vec_at (node_of ?st)" id] lv(1)
    by (simp_all add: stf)
  ultimately show ?thesis
    using R lv unfolding rebuild_def stf
    by (auto simp: Let_def bind_eq_Some_conv split: prod.splits)
qed

lemma no_singleton_weight:
  assumes "sing_inv M alive w" and "\<forall>r < n_rows M. no_singleton M alive w r" and c: "c < length w"
  shows "unat (w ! c) \<noteq> 1"
proof
  let ?st = "sing_state M alive w"
  assume one: "unat (w ! c) = 1"
  have len: "length alive = n_rows M" and mi: "merge_inv (matrix_rows M) {0..<n_rows M} ?st"
    using assms(1) by (auto simp: sing_inv_def)
  have "card (occ ?st c) = 1" using col_weight_card [OF mi, of c] c one by (simp add: sing_state_def)
  then obtain r where "r \<in> occ ?st c" by (metis card_1_singletonE singletonI)
  then have "r < n_rows M" "alive ! r" "c \<in> set (crow M r)" by (auto simp: sing_state_facts [OF len])
  moreover have "w ! c = 1" using one by (simp add: word_unat_eq_iff)
  ultimately show False using assms(2) by (auto simp: no_singleton_def)
qed

lemma removeSingletons_correct:
  assumes valid: "ValidateHostMatrixCSR M" and size: "n_rows M < 2 ^ 32" "n_cols M < 2 ^ 32"
      "length (col_indices M) < 2 ^ 32"
  shows "\<exists>res. removeSingletons M = Some res \<and> ValidateHostMatrixCSR (sr_reduced res)
    \<and> n_rows (sr_reduced res) + sr_rows_removed res = n_rows M
    \<and> n_cols (sr_reduced res) \<le> n_cols M
    \<and> length (sr_row_map res) = n_rows (sr_reduced res) \<and> (\<forall>l \<in> set (sr_row_map res). l < n_rows M)
    \<and> rows_represent (matrix_rows M) {0..<n_rows M} (sr_reduced res) (sr_row_map res)
    \<and> (sr_iterations res < kMaxSingletonIterations \<longrightarrow> (\<forall>k. column_weight (sr_reduced res) k \<noteq> 1))"
proof -
  obtain w0 where w0: "initial_col_weight M = Some w0" "sing_inv M (replicate (n_rows M) True) w0"
    using initial_sing_inv [OF valid size(1)] by blast
  obtain alive w tot iter where lp: "singleton_loop kMaxSingletonIterations M (replicate (n_rows M) True) w0 0 0
        = Some (alive, w, tot, iter)" "sing_inv M alive w"
      "tot + live_count M alive = live_count M (replicate (n_rows M) True)"
      "iter < kMaxSingletonIterations \<longrightarrow> (\<forall>r < n_rows M. no_singleton M alive w r)"
    using singleton_loop_inv [OF valid size(1) w0(2), of kMaxSingletonIterations 0 0] by auto
  have "{r. r < n_rows M \<and> replicate (n_rows M) True ! r} = {0..<n_rows M}" by auto
  then have tot: "n_rows M - tot = live_count M alive" "tot \<le> n_rows M" using lp(3) by auto
  obtain o2n cmap rws offs cols R where rb: "compact_cols w 0 0 = (o2n, cmap)"
      "those (map (csr_row M) (alive_rows alive)) = Some rws"
      "rebuild_rows False o2n rws = Some (offs, cols)"
      "R = \<lparr>row_offsets = offs, col_indices = cols, n_rows = live_count M alive, n_cols = length cmap\<rparr>"
      "length (alive_rows alive) = live_count M alive" "\<forall>l \<in> set (alive_rows alive). l < n_rows M"
      "ValidateHostMatrixCSR R" "n_cols R \<le> n_cols M"
      "rows_represent (matrix_rows M) {0..<n_rows M} R (alive_rows alive)"
      "\<forall>k. column_weight R k = 0 \<or> (\<exists>c < length w. column_weight R k = unat (w ! c))"
    using sing_rebuild [OF valid size lp(2)] by blast
  have "removeSingletons M = Some \<lparr>sr_reduced = R, sr_row_map = alive_rows alive, sr_col_map = cmap,
      sr_iterations = iter, sr_rows_removed = tot, sr_cols_removed = n_cols M - length cmap\<rparr>"
    using w0(1) lp(1) rb(1,2,3,4,5) tot by (simp add: removeSingletons_def)
  moreover have "n_rows R = live_count M alive" using rb(4) by simp
  moreover have "column_weight R k \<noteq> 1" if "iter < kMaxSingletonIterations" for k
    using rb(10) no_singleton_weight [OF lp(2)] lp(4) that by (metis zero_neq_one)
  ultimately show ?thesis using rb(5,6,7,8,9) tot by simp
qed

section \<open>Kernel vectors of the reduced matrix\<close>

definition kernel_vector :: "csr \<Rightarrow> u64 list \<Rightarrow> bool" where
  "kernel_vector M packed \<longleftrightarrow> gsum (matrix_rows M) (set (selected packed (n_rows M))) = {}"

lemma odd_in_concat:
  "distinct is \<Longrightarrow> odd_in (concat (map f is)) = gsum (\<lambda>i. odd_in (f i)) (set is)"
proof (induction "is")
  case Nil
  then show ?case by (simp add: odd_in_def)
next
  case (Cons i "is")
  then show ?case by (simp add: odd_in_append gsum_insert)
qed

lemma bit_set_bit: "bit_set packed i \<longleftrightarrow> bit (packed ! (i div 64)) (i mod 64)"
  by (simp add: bit_set_def bit_iff_and_push_bit_not_eq_0)

text \<open>Every set of rows is the selection of some bit vector.\<close>

definition pack :: "nat set \<Rightarrow> nat \<Rightarrow> u64 list" where
  "pack T n = map (\<lambda>j. horner_sum of_bool 2 (map (\<lambda>b. 64 * j + b \<in> T) [0..<64])) [0..<Suc (n div 64)]"

lemma selected_pack:
  assumes "T \<subseteq> {0..<n}"
  shows "set (selected (pack T n) n) = T"
proof -
  have "i div 64 < length (pack T n) \<and> (bit_set (pack T n) i \<longleftrightarrow> i \<in> T)" if "i < n" for i
  proof -
    have len: "i div 64 < Suc (n div 64)" using that div_le_mono [of i n 64] by simp
    have "bit_set (pack T n) i \<longleftrightarrow> 64 * (i div 64) + i mod 64 \<in> T"
      unfolding bit_set_bit pack_def using len
      by (simp add: bit_horner_sum_bit_word_iff del: upt_Suc mult_div_mod_eq)
    with len show ?thesis by (simp add: pack_def)
  qed
  with assms show ?thesis by (auto simp: selected_def)
qed

lemma expand_represented:
  assumes "wf_tree t" and "length nodes = n_rows M" and "\<forall>nd \<in> set nodes. in_tree t nd"
  shows "expandKernelVector packed (n_rows M) nodes t
    = Some (sorted_list_of_set (gsum (\<lambda>i. odd_in (leaves t (nodes ! i))) (set (selected packed (n_rows M)))))"
proof -
  obtain res where res: "expandKernelVector packed (n_rows M) nodes t = Some res" "sorted_wrt (<) res"
      "set res = odd_in (selected_leaves packed (n_rows M) nodes t)"
    using expandKernelVector_odd [OF assms(1) _ assms(3), of "n_rows M" packed] assms(2) by auto
  have "distinct (selected packed (n_rows M))" by (simp add: selected_def)
  then have "set res = gsum (\<lambda>i. odd_in (leaves t (nodes ! i))) (set (selected packed (n_rows M)))"
    using res(3) by (simp add: selected_leaves_def odd_in_concat)
  with res(1,2) show ?thesis by (metis sorted_list_of_set.idem_if_sorted_distinct strict_sorted_iff)
qed

lemma represented_kernel:
  assumes rep: "matrix_represents orig U M nodes t" and t: "wf_tree t" "length nodes = n_rows M"
    "\<forall>nd \<in> set nodes. in_tree t nd" and D: "finite D"
  shows "dependency orig U D \<longleftrightarrow> (\<exists>packed. kernel_vector M packed
    \<and> expandKernelVector packed (n_rows M) nodes t = Some (sorted_list_of_set D))"
proof -
  let ?L = "\<lambda>i. odd_in (leaves t (nodes ! i))"
  have rep': "represents orig U {0..<n_rows M} (matrix_rows M) ?L"
    using rep by (simp add: matrix_represents_def matrix_rows_def [abs_def])
  have fin: "finite (gsum ?L S)" if "finite S" for S by (rule gsum_finite [OF that]) simp
  have "(\<exists>T \<subseteq> {0..<n_rows M}. gsum (matrix_rows M) T = {} \<and> gsum ?L T = D)
      \<longleftrightarrow> (\<exists>packed. kernel_vector M packed \<and> gsum ?L (set (selected packed (n_rows M))) = D)"
  proof
    assume "\<exists>T \<subseteq> {0..<n_rows M}. gsum (matrix_rows M) T = {} \<and> gsum ?L T = D"
    then obtain T where "T \<subseteq> {0..<n_rows M}" "gsum (matrix_rows M) T = {}" "gsum ?L T = D" by blast
    then show "\<exists>packed. kernel_vector M packed \<and> gsum ?L (set (selected packed (n_rows M))) = D"
      by (intro exI [of _ "pack T (n_rows M)"]) (simp add: kernel_vector_def selected_pack)
  next
    assume "\<exists>packed. kernel_vector M packed \<and> gsum ?L (set (selected packed (n_rows M))) = D"
    then obtain packed where "kernel_vector M packed" "gsum ?L (set (selected packed (n_rows M))) = D" by blast
    moreover have "set (selected packed (n_rows M)) \<subseteq> {0..<n_rows M}" by (auto simp: selected_def)
    ultimately show "\<exists>T \<subseteq> {0..<n_rows M}. gsum (matrix_rows M) T = {} \<and> gsum ?L T = D"
      by (auto simp: kernel_vector_def)
  qed
  then show ?thesis
    unfolding represents_kernel [OF rep'] expand_represented [OF t]
    using D fin by (metis List.finite_set option.inject sorted_list_of_set_inject)
qed

section \<open>Properties\<close>

text \<open>
  Row addition: on strictly sorted rows \<open>xor_rows\<close> is addition over GF(2). The result is
  strictly sorted, its columns are those of exactly one of the two rows, and adding a row twice
  restores the other.
\<close>

theorem xor_rows_addition:
  assumes "sorted_wrt (<) as" and "sorted_wrt (<) bs"
  shows "sorted_wrt (<) (xor_rows as bs) \<and> set (xor_rows as bs) = (set as - set bs) \<union> (set bs - set as)
    \<and> xor_rows as (xor_rows as bs) = bs"
proof -
  note x = xor_rows_correct [OF assms]
  note y = xor_rows_correct [OF assms(1) x [THEN conjunct1]]
  have "set (xor_rows as (xor_rows as bs)) = set bs" using x y by simp
  with y assms(2) have "xor_rows as (xor_rows as bs) = bs"
    by (metis strict_sorted_equal)
  with x show ?thesis by (simp add: sdiff_def)
qed

theorem xor_rows_addition_witness:
  "set (xor_rows [1, 3, 7] [3, 4]) = {1, 7, 4} \<and> xor_rows [1, 3, 7] (xor_rows [1, 3, 7] [3, 4]) = [3, 4]"
  using xor_rows_addition [of "[1, 3, 7]" "[3, 4]"] by auto

text \<open>
  Singleton removal is total on valid matrices, returns a valid matrix and loses no
  dependency: a set of original rows sums to zero over GF(2) exactly when it is the image under
  the row map of a set of remaining rows that sums to zero. When the loop ends before its
  iteration limit, no column of weight 1 is left.
\<close>

theorem removeSingletons_null_space:
  assumes "ValidateHostMatrixCSR M" and "n_rows M < 2 ^ 32" and "n_cols M < 2 ^ 32"
    and "length (col_indices M) < 2 ^ 32"
  shows "\<exists>res. removeSingletons M = Some res \<and> ValidateHostMatrixCSR (sr_reduced res)
    \<and> n_rows (sr_reduced res) + sr_rows_removed res = n_rows M
    \<and> (\<forall>D. dependency (matrix_rows M) {0..<n_rows M} D \<longleftrightarrow>
          (\<exists>T \<subseteq> {0..<n_rows (sr_reduced res)}. gsum (matrix_rows (sr_reduced res)) T = {}
             \<and> gsum (\<lambda>i. {sr_row_map res ! i}) T = D))
    \<and> (sr_iterations res < kMaxSingletonIterations \<longrightarrow> (\<forall>k. column_weight (sr_reduced res) k \<noteq> 1))"
proof -
  obtain res where res: "removeSingletons M = Some res" "ValidateHostMatrixCSR (sr_reduced res)"
      "n_rows (sr_reduced res) + sr_rows_removed res = n_rows M"
      "rows_represent (matrix_rows M) {0..<n_rows M} (sr_reduced res) (sr_row_map res)"
      "sr_iterations res < kMaxSingletonIterations \<longrightarrow> (\<forall>k. column_weight (sr_reduced res) k \<noteq> 1)"
    using removeSingletons_correct [OF assms] by blast
  have "represents (matrix_rows M) {0..<n_rows M} {0..<n_rows (sr_reduced res)}
      (matrix_rows (sr_reduced res)) (\<lambda>i. {sr_row_map res ! i})"
    using res(4) by (simp add: rows_represent_def matrix_rows_def [abs_def])
  from represents_kernel [OF this] res show ?thesis by blast
qed

lemma filter_passes:
  assumes valid: "ValidateHostMatrixCSR M" and cols: "n_cols M < 2 ^ 32"
    and nnz: "length (col_indices M) < 2 ^ 32" and rows: "(k + 3) * n_rows M < 2 ^ 32"
  shows "\<exists>s m2. removeSingletons M = Some s \<and> mergeWeight2 (sr_reduced s) (sr_row_map s) = Some m2
    \<and> (length (col_indices (mr_reduced m2)) < 2 ^ 32 \<longrightarrow>
        (\<exists>m3. mergeHigherWeight F m2 k mx = Some m3 \<and> length (mr_row_map m3) = n_rows (mr_reduced m3)
          \<and> wf_tree (mr_merge_tree m3) \<and> (\<forall>nd \<in> set (mr_row_map m3). in_tree (mr_merge_tree m3) nd)
          \<and> (length (col_indices (mr_reduced m3)) < 2 ^ 32 \<longrightarrow> ValidateHostMatrixCSR (mr_reduced m3)
              \<and> matrix_represents (matrix_rows M) {0..<n_rows M} (mr_reduced m3) (mr_row_map m3) (mr_merge_tree m3))))"
proof -
  let ?o = "matrix_rows M" and ?U = "{0..<n_rows M}"
  have n: "n_rows M < 2 ^ 32" "3 * n_rows M < 2 ^ 32" using rows by (auto simp: algebra_simps)
  obtain s where s: "removeSingletons M = Some s" "ValidateHostMatrixCSR (sr_reduced s)"
      "n_rows (sr_reduced s) + sr_rows_removed s = n_rows M" "n_cols (sr_reduced s) \<le> n_cols M"
      "length (sr_row_map s) = n_rows (sr_reduced s)" "\<forall>l \<in> set (sr_row_map s). l < n_rows M"
      "rows_represent ?o ?U (sr_reduced s) (sr_row_map s)"
    using removeSingletons_correct [OF valid n(1) cols nnz] by blast
  have sz: "n_rows (sr_reduced s) < 2 ^ 32" "n_cols (sr_reduced s) < 2 ^ 32"
      "\<forall>l \<in> set (sr_row_map s). l + n_rows (sr_reduced s) < 2 ^ 32"
  proof -
    show "n_rows (sr_reduced s) < 2 ^ 32" "n_cols (sr_reduced s) < 2 ^ 32" using s(3,4) n(1) cols by linarith+
    show "\<forall>l \<in> set (sr_row_map s). l + n_rows (sr_reduced s) < 2 ^ 32" using s(3,6) n(2) by fastforce
  qed
  obtain m2 where m2: "mergeWeight2 (sr_reduced s) (sr_row_map s) = Some m2"
      "length (mr_row_map m2) = n_rows (mr_reduced m2)" "wf_tree (mr_merge_tree m2)"
      "\<forall>nd \<in> set (mr_row_map m2). in_tree (mr_merge_tree m2) nd"
      "num_leaves (mr_merge_tree m2) \<le> n_rows M"
      "length (internal_nodes (mr_merge_tree m2)) + n_rows (mr_reduced m2) = n_rows (sr_reduced s)"
      "n_cols (mr_reduced m2) \<le> n_cols (sr_reduced s)"
      "length (col_indices (mr_reduced m2)) < 2 ^ 32 \<longrightarrow> ValidateHostMatrixCSR (mr_reduced m2)
        \<and> matrix_represents ?o ?U (mr_reduced m2) (mr_row_map m2) (mr_merge_tree m2)"
    using mergeWeight2_correct [OF s(2,5,7) sz] s(6) by blast
  have "k * n_rows (mr_reduced m2) \<le> k * n_rows M" using m2(6) s(3) by (intro mult_le_mono2) simp
  moreover have "k * n_rows M + 3 * n_rows M < 2 ^ 32" using rows by (simp add: distrib_right)
  ultimately have sz2: "n_rows (mr_reduced m2) < 2 ^ 32" "n_cols (mr_reduced m2) < 2 ^ 32"
      "num_leaves (mr_merge_tree m2) + length (internal_nodes (mr_merge_tree m2))
         + k * n_rows (mr_reduced m2) \<le> 2 ^ 32"
    using m2(5,6,7) s(3) n sz(2) by linarith+
  have "\<exists>m3. mergeHigherWeight F m2 k mx = Some m3 \<and> length (mr_row_map m3) = n_rows (mr_reduced m3)
      \<and> wf_tree (mr_merge_tree m3) \<and> (\<forall>nd \<in> set (mr_row_map m3). in_tree (mr_merge_tree m3) nd)
      \<and> (length (col_indices (mr_reduced m3)) < 2 ^ 32 \<longrightarrow> ValidateHostMatrixCSR (mr_reduced m3)
          \<and> matrix_represents ?o ?U (mr_reduced m3) (mr_row_map m3) (mr_merge_tree m3))"
    if fit: "length (col_indices (mr_reduced m2)) < 2 ^ 32"
    using mergeHigherWeight_correct [OF _ m2(2,3,4) _ sz2, of ?o ?U F mx] m2(8) fit by blast
  with s(1) m2(1) show ?thesis by blast
qed

text \<open>
  C1. The filter keeps the null space end to end. On a valid matrix of admissible size the
  three passes succeed, and as long as the number of nonzeros still fits the 32-bit offsets, a
  set \<open>D\<close> of original relations is a dependency if and only if some kernel vector of the reduced
  matrix expands, through the merge tree, to exactly the sorted list of \<open>D\<close>. So every kernel
  vector found by linear algebra gives a product of relations that is a square on the factor
  base, and no dependency is lost, whatever pivots, fill-in limits and floating-point averages
  the passes used.
\<close>

theorem merge_filter_null_space:
  assumes valid: "ValidateHostMatrixCSR M" and cols: "n_cols M < 2 ^ 32"
    and nnz: "length (col_indices M) < 2 ^ 32" and rows: "(k + 3) * n_rows M < 2 ^ 32"
  shows "\<exists>s m2. removeSingletons M = Some s \<and> mergeWeight2 (sr_reduced s) (sr_row_map s) = Some m2
    \<and> (length (col_indices (mr_reduced m2)) < 2 ^ 32 \<longrightarrow>
        (\<exists>m3. mergeHigherWeight F m2 k mx = Some m3
          \<and> (length (col_indices (mr_reduced m3)) < 2 ^ 32 \<longrightarrow>
              (\<forall>D. finite D \<longrightarrow> (dependency (matrix_rows M) {0..<n_rows M} D \<longleftrightarrow>
                (\<exists>packed. kernel_vector (mr_reduced m3) packed
                  \<and> expandKernelVector packed (n_rows (mr_reduced m3)) (mr_row_map m3) (mr_merge_tree m3)
                      = Some (sorted_list_of_set D)))))))"
proof -
  have "dependency (matrix_rows M) {0..<n_rows M} D \<longleftrightarrow> (\<exists>packed. kernel_vector (mr_reduced m3) packed
      \<and> expandKernelVector packed (n_rows (mr_reduced m3)) (mr_row_map m3) (mr_merge_tree m3) = Some (sorted_list_of_set D))"
    if "length (mr_row_map m3) = n_rows (mr_reduced m3)" "wf_tree (mr_merge_tree m3)"
      "\<forall>nd \<in> set (mr_row_map m3). in_tree (mr_merge_tree m3) nd" "finite D"
      "matrix_represents (matrix_rows M) {0..<n_rows M} (mr_reduced m3) (mr_row_map m3) (mr_merge_tree m3)" for m3 D
    using represented_kernel that by blast
  with filter_passes [OF assms, of F mx] show ?thesis by blast
qed

text \<open>
  C10. Weight-2 merging, on a matrix whose rows are original relations: each merge removes one
  row and records one tree node, the result is valid and no column of weight exactly 2 is left.
\<close>

theorem mergeWeight2_exhaustive:
  assumes "ValidateHostMatrixCSR M" and "length rm = n_rows M" and "distinct rm"
    and "n_rows M < 2 ^ 32" and "n_cols M < 2 ^ 32" and "\<forall>l \<in> set rm. l + n_rows M < 2 ^ 32"
  shows "\<exists>res. mergeWeight2 M rm = Some res
    \<and> n_rows (mr_reduced res) + mr_merges_performed res = n_rows M
    \<and> length (internal_nodes (mr_merge_tree res)) = mr_merges_performed res
    \<and> (length (col_indices (mr_reduced res)) < 2 ^ 32 \<longrightarrow> ValidateHostMatrixCSR (mr_reduced res)
        \<and> (\<forall>k. column_weight (mr_reduced res) k \<noteq> 2))"
proof -
  define pos where "pos l = (THE i. i < n_rows M \<and> rm ! i = l)" for l
  have bij: "bij_betw ((!) rm) {0..<n_rows M} (set rm)"
    by (rule bij_betw_nth [OF assms(3)]) (simp_all add: assms(2) lessThan_atLeast0)
  have pos: "pos (rm ! i) = i" if "i < n_rows M" for i
    unfolding pos_def using that bij by (intro the_equality) (auto simp: bij_betw_def inj_on_def)
  have "represents (\<lambda>l. set (crow M (pos l))) (set rm) (set rm) (\<lambda>l. set (crow M (pos l))) (\<lambda>l. {l})"
    by (rule represents_init) simp_all
  then have "represents (\<lambda>l. set (crow M (pos l))) (set rm) {0..<n_rows M}
      (\<lambda>i. id ` set (crow M (pos (rm ! i)))) (\<lambda>i. {rm ! i})"
    by (rule represents_rename [OF _ bij]) simp
  then have "rows_represent (\<lambda>l. set (crow M (pos l))) (set rm) M rm"
    unfolding rows_represent_def by (rule represents_cong) (simp_all add: pos)
  from mergeWeight2_correct [OF assms(1,2) this assms(4,5,6)] show ?thesis by fastforce
qed

definition sample_matrix :: csr where
  "sample_matrix = \<lparr>row_offsets = [0, 2, 5, 7, 9], col_indices = [0, 1, 0, 1, 2, 1, 2, 2, 3],
     n_rows = 4, n_cols = 4\<rparr>"

lemma sample_matrix_valid: "ValidateHostMatrixCSR sample_matrix"
  by (simp add: ValidateHostMatrixCSR_def sample_matrix_def slice_def upt_rec)

lemma sample_matrix_size:
  "n_rows sample_matrix = 4" "n_cols sample_matrix = 4" "length (col_indices sample_matrix) = 9"
  by (simp_all add: sample_matrix_def)

theorem removeSingletons_null_space_witness:
  "\<exists>res. removeSingletons sample_matrix = Some res \<and> ValidateHostMatrixCSR (sr_reduced res)
    \<and> (dependency (matrix_rows sample_matrix) {0..<4} {} \<longleftrightarrow>
          (\<exists>T \<subseteq> {0..<n_rows (sr_reduced res)}. gsum (matrix_rows (sr_reduced res)) T = {}
             \<and> gsum (\<lambda>i. {sr_row_map res ! i}) T = {}))"
  using removeSingletons_null_space [OF sample_matrix_valid] by (auto simp: sample_matrix_size)

theorem merge_filter_null_space_witness:
  "\<exists>s m2. removeSingletons sample_matrix = Some s \<and> mergeWeight2 (sr_reduced s) (sr_row_map s) = Some m2
    \<and> (length (col_indices (mr_reduced m2)) < 2 ^ 32 \<longrightarrow>
        (\<exists>m3. mergeHigherWeight exact_float m2 10 200 = Some m3
          \<and> (length (col_indices (mr_reduced m3)) < 2 ^ 32 \<longrightarrow>
              (\<forall>D. finite D \<longrightarrow> (dependency (matrix_rows sample_matrix) {0..<4} D \<longleftrightarrow>
                (\<exists>packed. kernel_vector (mr_reduced m3) packed
                  \<and> expandKernelVector packed (n_rows (mr_reduced m3)) (mr_row_map m3) (mr_merge_tree m3)
                      = Some (sorted_list_of_set D)))))))"
  using merge_filter_null_space [OF sample_matrix_valid, of 10 exact_float 200]
  by (simp only: sample_matrix_size) simp

theorem mergeWeight2_exhaustive_witness:
  "\<exists>res. mergeWeight2 sample_matrix [0, 1, 2, 3] = Some res
    \<and> n_rows (mr_reduced res) + mr_merges_performed res = 4"
  using mergeWeight2_exhaustive [OF sample_matrix_valid, of "[0, 1, 2, 3]"]
  by (auto simp: sample_matrix_size)

text \<open>
  The documented outcome, every surviving column of weight 0 or at least 3, does not hold: a
  merge of two rows that share a third column of weight 3 leaves that column with weight 1.
  Here column 1 of a matrix without singletons occurs in the first three rows; after the merge
  of the first two (now an empty row) it occurs in one row, as the first column of the result.
\<close>

definition shared_matrix :: csr where
  "shared_matrix = \<lparr>row_offsets = [0, 2, 4, 7, 9, 11], col_indices = [0, 1, 0, 1, 1, 2, 3, 2, 3, 2, 3],
     n_rows = 5, n_cols = 4\<rparr>"

lemma shared_matrix_weight_one:
  "ValidateHostMatrixCSR shared_matrix \<and>
   map_option (\<lambda>res. (row_offsets (mr_reduced res), col_indices (mr_reduced res)))
     (mergeWeight2 shared_matrix [0, 1, 2, 3, 4]) = Some ([0, 0, 3, 5, 7], [0, 1, 2, 1, 2, 1, 2])"
proof -
  have rows: "csr_rows shared_matrix = Some [[0, 1], [0, 1], [1, 2, 3], [2, 3], [2, 3]]"
    by (simp add: csr_rows_def csr_row_def shared_matrix_def slice_def upt_rec)
  have ix: "index_columns 4 [[0, 1], [0, 1], [1, 2, 3], [2, 3], [2, 3]]
      = Some ([2, 3, 3, 3], [[0, 1], [0, 1, 2], [2, 3, 4], [2, 3, 4]])"
    by (simp add: index_columns_def for_cols_def upt_rec numeral_eq_Suc)
  define st0 where "st0 = \<lparr>ms_rows = [[0, 1], [0, 1], [1, 2, 3], [2, 3], [2, 3]],
      ms_tree = \<lparr>num_leaves = 5, internal_nodes = []\<rparr>, node_of = [0, 1, 2, 3, 4],
      row_alive = [True, True, True, True, True], col_weight = [2, 3, 3, 3],
      col_rows = [[0, 1], [0, 1, 2], [2, 3, 4], [2, 3, 4]], ms_merges = 0\<rparr>"
  define st where "st = \<lparr>ms_rows = [[], [], [1, 2, 3], [2, 3], [2, 3]],
      ms_tree = \<lparr>num_leaves = 5, internal_nodes = [\<lparr>left = 0, right = 1\<rparr>]\<rparr>, node_of = [5, 1, 2, 3, 4],
      row_alive = [True, False, True, True, True], col_weight = [0, 1, 3, 3],
      col_rows = [[], [2], [2, 3, 4], [2, 3, 4]], ms_merges = 1\<rparr>"
  have init: "initial_state 4 [[0, 1], [0, 1], [1, 2, 3], [2, 3], [2, 3]]
      \<lparr>num_leaves = 5, internal_nodes = []\<rparr> [0, 1, 2, 3, 4] = Some st0"
    unfolding initial_state_def ix st0_def by simp
  have loop: "merge2_loop st0 (weight2_cols (col_weight st0)) = Some st"
    by (simp add: st0_def st_def weight2_cols_def upt_rec merge_pair_def for_cols_def insert_w2_def
        in_row_def add_node_def Let_def)
  have reb: "map_option (\<lambda>(M, ns). (row_offsets M, col_indices M)) (rebuild False st)
      = Some ([0, 0, 3, 5, 7], [0, 1, 2, 1, 2, 1, 2])"
    by (simp add: rebuild_def st_def alive_rows_def upt_rec rebuild_rows_def UINT32_MAX_def Let_def)
  have valid: "ValidateHostMatrixCSR shared_matrix"
    by (simp add: ValidateHostMatrixCSR_def shared_matrix_def slice_def upt_rec)
  have "those (map (vec_at [0, 1, 2, 3, 4]) [0..<n_rows shared_matrix]) = Some [0, 1, 2, 3, 4 :: nat]"
    by (simp add: shared_matrix_def upt_rec)
  moreover have "n_cols shared_matrix = 4" by (simp add: shared_matrix_def)
  ultimately show ?thesis
    using reb valid by (auto simp: mergeWeight2_def rows init [simplified] loop split: prod.splits)
qed

end
