(* ===== verification/Tcp_Frame.thy ===== *)
theory Tcp_Frame
  imports Prelude
begin

text \<open>
  The framed TCP transport of the cluster (\<^verbatim>\<open>src/src/cluster/tcp_transport.cpp\<close> and the frame
  layout of \<^verbatim>\<open>cluster_common.h\<close>): the table-driven CRC32, the socket wrapper with its descriptor,
  the sending loop over partial \<^verbatim>\<open>send\<close> calls and the buffered receiving loop over \<^verbatim>\<open>recv\<close> calls.

  The operating system is an explicit sequence of call results: a list of \<open>send_event\<close> or
  \<open>recv_event\<close> values, one per system call, that the loops consume in order. A loop that still
  waits when the sequence ends is reported as blocked.
\<close>

unbundle bit_operations_syntax

section \<open>CRC32\<close>

definition crc_poly :: u32 where
  "crc_poly = 0xEDB88320"

definition crc_step :: "u32 \<Rightarrow> u32" where
  "crc_step crc = drop_bit 1 crc XOR (if crc AND 1 \<noteq> 0 then crc_poly else 0)"

definition crc32_table :: "u32 list" where
  "crc32_table = map (\<lambda>i. (crc_step ^^ 8) (of_nat i)) [0..<256]"

definition crc_byte :: "u8 \<Rightarrow> u32 \<Rightarrow> u32" where
  "crc_byte b crc = drop_bit 8 crc XOR crc32_table ! unat ((crc XOR ucast b) AND 0xFF)"

definition computeCRC32 :: "bytes \<Rightarrow> u32" where
  "computeCRC32 p = fold crc_byte p 0xFFFFFFFF XOR 0xFFFFFFFF"

section \<open>Frame layout\<close>

definition kProtocolMagic :: u16 where
  "kProtocolMagic = 0x4D52"

definition kCRC32Size :: nat where
  "kCRC32Size = 4"

definition sizeof_FrameHeader :: nat where
  "sizeof_FrameHeader = 11"

record frame_header =
  magic :: u16
  hdr_msg_type :: u8
  seq_no :: u32
  payload_len :: u32

text \<open>The packed structure as it lies in memory, and the \<^verbatim>\<open>memcpy\<close> out of a buffer.\<close>

definition header_bytes :: "frame_header \<Rightarrow> bytes" where
  "header_bytes h = to_le 2 (magic h) @ [hdr_msg_type h] @ to_le 4 (seq_no h) @ to_le 4 (payload_len h)"

definition read_header :: "bytes \<Rightarrow> frame_header" where
  "read_header bs = \<lparr>magic = of_le (take 2 bs), hdr_msg_type = bs ! 2,
                     seq_no = of_le (take 4 (drop 3 bs)), payload_len = of_le (take 4 (drop 7 bs))\<rparr>"

section \<open>The socket and its descriptor\<close>

record tcp_socket =
  sock_fd :: int
  send_seq :: u32
  recv_buf :: bytes

definition TcpSocket :: tcp_socket where
  "TcpSocket = \<lparr>sock_fd = -1, send_seq = 0, recv_buf = []\<rparr>"

definition TcpSocket_fd :: "int \<Rightarrow> tcp_socket" where
  "TcpSocket_fd f = \<lparr>sock_fd = f, send_seq = 0, recv_buf = []\<rparr>"

definition isValid :: "tcp_socket \<Rightarrow> bool" where
  "isValid s \<longleftrightarrow> sock_fd s \<ge> 0"

text \<open>
  The descriptors the process holds open are a set; \<^verbatim>\<open>::close\<close> removes one, \<^verbatim>\<open>::socket\<close> and
  \<^verbatim>\<open>::accept\<close> add the descriptor they return. The results of the system calls are arguments.
\<close>

type_synonym open_fds = "int set"

definition sys_open :: "int \<Rightarrow> open_fds \<Rightarrow> open_fds" where
  "sys_open f os = (if f < 0 then os else insert f os)"

definition close_sock :: "tcp_socket \<Rightarrow> open_fds \<Rightarrow> tcp_socket \<times> open_fds" where
  "close_sock s os =
     (if sock_fd s \<ge> 0 then (s\<lparr>sock_fd := -1\<rparr>, os - {sock_fd s}) else (s, os))"

text \<open>Move construction and move assignment: the source keeps no descriptor and an empty buffer. Assigning a
  socket to itself, where \<open>same\<close> holds and both arguments are the one object, changes nothing.\<close>

definition moved_from :: "tcp_socket \<Rightarrow> tcp_socket" where
  "moved_from src = src\<lparr>sock_fd := -1, send_seq := 0, recv_buf := []\<rparr>"

definition move_construct :: "tcp_socket \<Rightarrow> tcp_socket \<times> tcp_socket" where
  "move_construct src =
     (\<lparr>sock_fd = sock_fd src, send_seq = send_seq src, recv_buf = recv_buf src\<rparr>, moved_from src)"

definition move_assign ::
    "bool \<Rightarrow> tcp_socket \<Rightarrow> tcp_socket \<Rightarrow> open_fds \<Rightarrow> tcp_socket \<times> tcp_socket \<times> open_fds" where
  "move_assign same dst src os =
     (if same then (dst, src, os)
      else let (dst', os') = close_sock dst os
           in (dst'\<lparr>sock_fd := sock_fd src, send_seq := send_seq src, recv_buf := recv_buf src\<rparr>,
               moved_from src, os'))"

definition listen ::
    "int \<Rightarrow> int \<Rightarrow> int \<Rightarrow> tcp_socket \<Rightarrow> open_fds \<Rightarrow> bool \<times> tcp_socket \<times> open_fds" where
  "listen socket_rc bind_rc listen_rc s os =
     (let s1 = s\<lparr>sock_fd := socket_rc\<rparr>; os1 = sys_open socket_rc os
      in if socket_rc < 0 then (False, s1, os1)
         else if bind_rc < 0 then (let (s2, os2) = close_sock s1 os1 in (False, s2, os2))
         else if listen_rc < 0 then (let (s2, os2) = close_sock s1 os1 in (False, s2, os2))
         else (True, s1, os1))"

definition accept :: "int \<Rightarrow> open_fds \<Rightarrow> tcp_socket \<times> open_fds" where
  "accept accept_rc os =
     (if accept_rc < 0 then (TcpSocket, os) else (TcpSocket_fd accept_rc, sys_open accept_rc os))"

text \<open>
  \<^verbatim>\<open>connect\<close>: \<open>numeric\<close> says whether \<^verbatim>\<open>inet_pton\<close> accepted the host, \<open>resolved\<close> whether
  \<^verbatim>\<open>getaddrinfo\<close> found an address (asked only when the host is not numeric).
\<close>

definition connect ::
    "int \<Rightarrow> bool \<Rightarrow> bool \<Rightarrow> int \<Rightarrow> tcp_socket \<Rightarrow> open_fds \<Rightarrow> bool \<times> tcp_socket \<times> open_fds" where
  "connect socket_rc numeric resolved connect_rc s os =
     (let s1 = s\<lparr>sock_fd := socket_rc\<rparr>; os1 = sys_open socket_rc os
      in if socket_rc < 0 then (False, s1, os1)
         else if \<not> numeric \<and> \<not> resolved then (let (s2, os2) = close_sock s1 os1 in (False, s2, os2))
         else if connect_rc < 0 then (let (s2, os2) = close_sock s1 os1 in (False, s2, os2))
         else (True, s1, os1))"

section \<open>Sending\<close>

text \<open>
  One value per \<^verbatim>\<open>::send\<close> call. \<open>Sent n\<close> is a call that found room for \<open>n\<close> bytes: it takes
  \<open>n\<close> bytes or all that is left, whichever is less, and returns that number.
\<close>

datatype send_event = Sent nat | Send_EINTR | Send_EAGAIN | Send_error

datatype 'a outcome = Returned 'a | Blocked

text \<open>
  \<^verbatim>\<open>sendExact\<close>: the bytes already on the wire, the count sent, the number of consecutive
  \<^verbatim>\<open>EAGAIN\<close> answers; it gives the result, the bytes put on the wire and the events left.
\<close>

fun send_loop ::
    "bytes \<Rightarrow> nat \<Rightarrow> nat \<Rightarrow> send_event list \<Rightarrow> bool outcome \<times> nat \<times> send_event list" where
  "send_loop buf sent eagain_retries evs =
     (if sent < length buf then
        (case evs of
           [] \<Rightarrow> (Blocked, sent, [])
         | Send_EINTR # evs' \<Rightarrow> send_loop buf sent eagain_retries evs'
         | Send_EAGAIN # evs' \<Rightarrow>
             if eagain_retries + 1 > 1000 then (Returned False, sent, evs')
             else send_loop buf sent (eagain_retries + 1) evs'
         | Send_error # evs' \<Rightarrow> (Returned False, sent, evs')
         | Sent k # evs' \<Rightarrow>
             let n = min k (length buf - sent)
             in if n = 0 then (Returned False, sent, evs') else send_loop buf (sent + n) 0 evs')
      else (Returned True, sent, evs))"

declare send_loop.simps [simp del]

definition sendExact ::
    "bytes \<Rightarrow> send_event list \<Rightarrow> bool outcome \<times> bytes \<times> send_event list" where
  "sendExact buf evs = (case send_loop buf 0 0 evs of (r, sent, evs') \<Rightarrow> (r, take sent buf, evs'))"

text \<open>
  The frame that \<^verbatim>\<open>sendMsg\<close> builds: header, payload (zero bytes when the pointer is null) and the
  CRC of both. A payload pointer to fewer than \<open>len\<close> bytes is read out of range: \<open>None\<close>.
\<close>

definition frame_buf :: "u32 \<Rightarrow> u8 \<Rightarrow> bytes option \<Rightarrow> u32 \<Rightarrow> bytes option" where
  "frame_buf seq ty payload len =
     (let hdr = header_bytes \<lparr>magic = kProtocolMagic, hdr_msg_type = ty, seq_no = seq, payload_len = len\<rparr>
      in case payload of
           None \<Rightarrow> Some (hdr @ replicate (unat len) 0)
         | Some p \<Rightarrow> if unat len \<le> length p then Some (hdr @ take (unat len) p) else None)"

definition sendMsg ::
    "u8 \<Rightarrow> bytes option \<Rightarrow> u32 \<Rightarrow> tcp_socket \<Rightarrow> send_event list
      \<Rightarrow> (bool outcome \<times> tcp_socket \<times> bytes \<times> send_event list) option" where
  "sendMsg ty payload len s evs =
     (case frame_buf (send_seq s) ty payload len of
        None \<Rightarrow> None
      | Some buf \<Rightarrow>
          let s' = s\<lparr>send_seq := send_seq s + 1\<rparr>;
              crc = computeCRC32 buf
          in case sendExact buf evs of
               (Returned True, wire, evs') \<Rightarrow>
                 (case sendExact (to_le 4 crc) evs' of
                    (r, wire', evs'') \<Rightarrow> Some (r, s', wire @ wire', evs''))
             | (r, wire, evs') \<Rightarrow> Some (r, s', wire, evs'))"

section \<open>Receiving\<close>

text \<open>
  One value per \<^verbatim>\<open>::recv\<close> call: \<open>Received bs\<close> delivers the bytes \<open>bs\<close>, none at the end of the
  stream (the call returns 0).
\<close>

datatype recv_event = Received bytes | Recv_EINTR | Recv_EAGAIN | Recv_error

datatype recv_status = GOT_MSG | TIMEOUT | CLOSED

definition kMaxPayloadBytes :: u32 where
  "kMaxPayloadBytes = 64 * 1024 * 1024"

datatype frame_check =
    Incomplete
  | Desync
  | Bad_crc nat
  | Complete u8 bytes nat

text \<open>The look at the buffer at the head of the receiving loop.\<close>

definition check_frame :: "bytes \<Rightarrow> frame_check" where
  "check_frame buf =
     (if length buf \<ge> sizeof_FrameHeader then
        let hdr = read_header buf
        in if magic hdr \<noteq> kProtocolMagic then Desync
           else if payload_len hdr > kMaxPayloadBytes then Desync
           else
             let hdr_plus_payload = sizeof_FrameHeader + unat (payload_len hdr);
                 frame_total = hdr_plus_payload + kCRC32Size
             in if length buf \<ge> frame_total then
                  let wire_crc = of_le (take 4 (drop hdr_plus_payload buf)) :: u32;
                      computed_crc = computeCRC32 (take hdr_plus_payload buf)
                  in if wire_crc \<noteq> computed_crc then Bad_crc frame_total
                     else Complete (hdr_msg_type hdr)
                            (slice sizeof_FrameHeader hdr_plus_payload buf) frame_total
                else Incomplete
      else Incomplete)"

text \<open>
  \<^verbatim>\<open>recvMsg\<close>: the status that is reported, the message on \<open>GOT_MSG\<close>, the socket and the events
  not yet consumed.
\<close>

fun recvMsg ::
    "tcp_socket \<Rightarrow> recv_event list
      \<Rightarrow> recv_status outcome \<times> (u8 \<times> bytes) option \<times> tcp_socket \<times> recv_event list" where
  "recvMsg s evs =
     (case check_frame (recv_buf s) of
        Desync \<Rightarrow> (Returned TIMEOUT, None, s\<lparr>recv_buf := []\<rparr>, evs)
      | Bad_crc n \<Rightarrow> (Returned TIMEOUT, None, s\<lparr>recv_buf := drop n (recv_buf s)\<rparr>, evs)
      | Complete ty payload n \<Rightarrow>
          (Returned GOT_MSG, Some (ty, payload), s\<lparr>recv_buf := drop n (recv_buf s)\<rparr>, evs)
      | Incomplete \<Rightarrow>
          (case evs of
             [] \<Rightarrow> (Blocked, None, s, [])
           | Received bs # evs' \<Rightarrow>
               if bs \<noteq> [] then recvMsg (s\<lparr>recv_buf := recv_buf s @ bs\<rparr>) evs'
               else (Returned CLOSED, None, s, evs')
           | Recv_EINTR # evs' \<Rightarrow> recvMsg s evs'
           | Recv_EAGAIN # evs' \<Rightarrow> (Returned TIMEOUT, None, s, evs')
           | Recv_error # evs' \<Rightarrow> (Returned CLOSED, None, s, evs')))"

declare recvMsg.simps [simp del]

section \<open>CRC32: the step function over GF(2)\<close>

lemma bit_crc_step:
  "bit (crc_step x) i \<longleftrightarrow> i < 32 \<and> (bit x (Suc i) \<noteq> (bit x 0 \<and> bit crc_poly i))"
  by (auto simp: crc_step_def bit_simps and_one_eq mod_2_eq_odd bit_0 dest: bit_imp_le_length)

lemma crc_step_xor: "crc_step (x XOR y) = crc_step x XOR crc_step y"
  by (rule bit_word_eqI) (auto simp: bit_crc_step bit_xor_iff)

lemma crc_step_kernel:
  assumes "crc_step z = 0"
  shows "z = 0"
proof (rule bit_word_eqI)
  fix i assume "i < LENGTH(32)"
  then have i: "i < 32" by simp
  have all: "bit z (Suc j) = (bit z 0 \<and> bit crc_poly j)" if "j < 32" for j
    using that assms bit_crc_step [of z j] by simp
  have top: "bit crc_poly 31" by (simp add: crc_poly_def)
  have "\<not> bit z 0"
    using all [of 31] top bit_imp_le_length [of z 32] by auto
  then show "bit z i = bit 0 i"
    using all [of "i - 1"] i by (cases i) auto
qed

lemma xor_cancel_left: "(a :: 'a::len word) XOR b = a XOR c \<longleftrightarrow> b = c"
  by (auto simp: bit_eq_iff bit_xor_iff)

lemma xor_eq_zero: "(a :: 'a::len word) XOR b = 0 \<longleftrightarrow> a = b"
  by (auto simp: bit_eq_iff bit_xor_iff)

lemma crc_step_inj: "crc_step x = crc_step y \<longleftrightarrow> x = y"
  using crc_step_kernel [of "x XOR y"] by (auto simp: crc_step_xor xor_eq_zero)

lemma crc_steps_inj: "(crc_step ^^ n) x = (crc_step ^^ n) y \<longleftrightarrow> x = y"
  by (induction n) (simp_all add: crc_step_inj)

lemma crc_steps_xor: "(crc_step ^^ n) (x XOR y) = (crc_step ^^ n) x XOR (crc_step ^^ n) y"
  by (induction n) (simp_all add: crc_step_xor)

text \<open>On a state whose low bits are zero the register only shifts.\<close>

lemma bit_crc_steps_shift:
  assumes "\<And>i. i < n \<Longrightarrow> \<not> bit z i"
  shows "bit ((crc_step ^^ n) z) i = bit z (i + n)"
  using assms
proof (induction n arbitrary: i)
  case 0
  then show ?case by simp
next
  case (Suc n)
  have IH: "bit ((crc_step ^^ n) z) j = bit z (j + n)" for j
    using Suc by simp
  have "\<not> bit z n" using Suc.prems by simp
  then show ?case
    using bit_imp_le_length [of z "Suc (i + n)"] by (auto simp: bit_crc_step IH)
qed

lemma crc_steps_push:
  assumes "unat y < 2 ^ (32 - n)"
  shows "(crc_step ^^ n) (push_bit n y) = y"
proof (rule bit_word_eqI)
  fix i assume i: "i < LENGTH(32)"
  have shifted: "bit ((crc_step ^^ n) (push_bit n y)) i \<longleftrightarrow> i + n < 32 \<and> bit y i"
    by (subst bit_crc_steps_shift) (auto simp: bit_push_bit_iff)
  have "\<not> bit y i" if "32 \<le> i + n"
  proof -
    have "(2 :: nat) ^ (32 - n) \<le> 2 ^ i" using that by (intro power_increasing) auto
    with assms have "unat y < 2 ^ i" by (rule order_less_le_trans)
    then have "\<not> bit (unat y) i" by (simp add: bit_iff_odd)
    then show ?thesis by (simp add: bit_unsigned_iff)
  qed
  with shifted show "bit ((crc_step ^^ n) (push_bit n y)) i = bit y i"
    by (cases "i + n < 32") auto
qed

section \<open>CRC32: the table-driven routine\<close>

lemma crc_steps_split:
  "(crc_step ^^ 8) x = drop_bit 8 x XOR (crc_step ^^ 8) (x AND mask 8)"
proof -
  have x: "x = (x AND NOT (mask 8)) XOR (x AND mask 8)"
    by (rule bit_word_eqI) (auto simp: bit_and_iff bit_not_iff bit_xor_iff)
  have "(crc_step ^^ 8) (x AND NOT (mask 8)) = drop_bit 8 x"
    by (rule bit_word_eqI)
      (subst bit_crc_steps_shift; auto simp: bit_and_iff bit_not_iff bit_mask_iff bit_drop_bit_eq
        add.commute dest: bit_imp_le_length)
  then show ?thesis by (subst x) (simp only: crc_steps_xor)
qed

lemma byte_mask: "(0xFF :: u32) = mask 8"
  by (simp add: mask_eq_exp_minus_1)

lemma crc_byte_eq: "crc_byte b crc = (crc_step ^^ 8) (crc XOR ucast b)"
proof -
  let ?k = "(crc XOR ucast b) AND 0xFF"
  have "unat ?k < 256"
    using word_and_le1 [of "crc XOR ucast b" "0xFF"] by (simp add: word_le_nat_alt)
  then have "crc32_table ! unat ?k = (crc_step ^^ 8) ?k"
    by (simp add: crc32_table_def)
  moreover have "drop_bit 8 (crc XOR ucast b) = drop_bit 8 crc"
    by (rule bit_word_eqI) (auto simp: bit_simps dest: bit_imp_le_length)
  ultimately show ?thesis
    using crc_steps_split [of "crc XOR ucast b"] by (simp only: crc_byte_def byte_mask)
qed

text \<open>
  The reference: the shift register fed one message bit at a time, least significant bit of
  each byte first.
\<close>

definition crc_bit :: "bool \<Rightarrow> u32 \<Rightarrow> u32" where
  "crc_bit b crc = crc_step (crc XOR of_bool b)"

definition byte_bits :: "u8 \<Rightarrow> bool list" where
  "byte_bits b = map (bit b) [0..<8]"

definition crc_serial :: "bytes \<Rightarrow> u32" where
  "crc_serial p = fold crc_bit (concat (map byte_bits p)) 0xFFFFFFFF XOR 0xFFFFFFFF"

lemma fold_crc_bits:
  assumes "n \<le> 32"
  shows "fold crc_bit (map (bit w) [0..<n]) x = (crc_step ^^ n) (x XOR take_bit n w)"
  using assms
proof (induction n)
  case 0
  then show ?case by simp
next
  case (Suc n)
  have split: "take_bit (Suc n) w = take_bit n w XOR push_bit n (of_bool (bit w n))"
    by (rule bit_word_eqI) (auto simp: bit_simps less_Suc_eq)
  have "(crc_step ^^ n) (push_bit n (of_bool (bit w n) :: u32)) = of_bool (bit w n)"
    using Suc.prems one_less_power [of "2 :: nat" "32 - n"] by (intro crc_steps_push) auto
  then have "(crc_step ^^ n) (x XOR take_bit (Suc n) w) = (crc_step ^^ n) (x XOR take_bit n w) XOR of_bool (bit w n)"
    by (simp add: split crc_steps_xor xor.assoc)
  then show ?case using Suc by (simp add: crc_bit_def)
qed

lemma crc_byte_serial: "crc_byte b crc = fold crc_bit (byte_bits b) crc"
proof -
  have low: "map (bit b) [0..<8] = map (bit (ucast b :: u32)) [0..<8]"
    by (rule map_cong) (auto simp: bit_simps)
  have "take_bit 8 (ucast b :: u32) = ucast b"
    by (rule bit_word_eqI) (auto simp: bit_simps dest: bit_imp_le_length)
  then show ?thesis
    unfolding byte_bits_def low by (subst fold_crc_bits) (simp_all add: crc_byte_eq)
qed

text \<open>
  C13. The table-driven CRC32 is the bit-serial CRC-32 (reflected polynomial 0xEDB88320, initial
  value and final complement of all ones) of the message, for every message.
\<close>

theorem computeCRC32_serial: "computeCRC32 p = crc_serial p"
proof -
  have "fold crc_byte p c = fold crc_bit (concat (map byte_bits p)) c" for c
    by (induction p arbitrary: c) (simp_all add: crc_byte_serial)
  then show ?thesis by (simp add: computeCRC32_def crc_serial_def)
qed

section \<open>CRC32: burst errors\<close>

lemma fold_crc_byte_inj: "fold crc_byte p x = fold crc_byte p y \<longleftrightarrow> x = y"
  by (induction p arbitrary: x y)
    (simp_all add: crc_byte_eq crc_steps_inj xor.commute [of _ "ucast _"] xor_cancel_left)

text \<open>Up to four bytes are absorbed as one little-endian register value.\<close>

lemma fold_crc_byte_word:
  assumes "length v \<le> 4"
  shows "fold crc_byte v s = (crc_step ^^ (8 * length v)) (s XOR of_le v)"
  using assms
proof (induction v arbitrary: s)
  case Nil
  then show ?case by (simp add: of_le_def)
next
  case (Cons b bs)
  have "of_le_nat bs < 256 ^ length bs" by (rule of_le_nat_bound)
  also have "\<dots> \<le> 256 ^ 3" using Cons.prems by (intro power_increasing) auto
  finally have bound: "unat (of_le bs :: u32) < 2 ^ (32 - 8)"
    by (simp add: of_le_def unat_of_nat)
  have shift: "(of_le (b # bs) :: u32) = ucast b XOR push_bit 8 (of_le bs)"
  proof -
    have "(of_le (b # bs) :: u32) = ucast b + push_bit 8 (of_le bs)"
      by (simp add: of_le_def push_bit_eq_mult)
    also have "\<dots> = ucast b OR push_bit 8 (of_le bs)"
      by (rule disjunctive_add) (auto simp: bit_simps dest: bit_imp_le_length)
    also have "\<dots> = ucast b XOR push_bit 8 (of_le bs)"
      by (rule bit_word_eqI) (auto simp: bit_simps dest: bit_imp_le_length)
    finally show ?thesis .
  qed
  have "fold crc_byte (b # bs) s = (crc_step ^^ (8 * length bs)) (crc_byte b s XOR of_le bs)"
    using Cons by simp
  also have "crc_byte b s = (crc_step ^^ 8) (s XOR ucast b)" by (rule crc_byte_eq)
  also have "(of_le bs :: u32) = (crc_step ^^ 8) (push_bit 8 (of_le bs))"
    using bound by (simp only: crc_steps_push)
  also have "(crc_step ^^ 8) (s XOR ucast b) XOR (crc_step ^^ 8) (push_bit 8 (of_le bs))
      = (crc_step ^^ 8) (s XOR of_le (b # bs))"
    by (simp only: shift crc_steps_xor xor.assoc)
  finally show ?case by (simp add: funpow_add [symmetric, THEN fun_cong, simplified] add.commute)
qed

lemma fold_crc_burst:
  assumes "length v = length v'" and "length v \<le> 4"
    and "fold crc_byte (u @ v @ w) s = fold crc_byte (u @ v' @ w) s"
  shows "v = v'"
proof -
  have "(of_le v :: u32) = of_le v'"
    using assms by (simp add: fold_crc_byte_inj fold_crc_byte_word crc_steps_inj xor_cancel_left)
  with assms(1,2) show ?thesis by (intro of_le_inj [where 'a = 32]) simp_all
qed

text \<open>
  A message followed by its CRC leaves the register at a fixed value, and only then do the last
  four bytes hold the CRC.
\<close>

definition crc_residue :: u32 where
  "crc_residue = (crc_step ^^ 32) 0xFFFFFFFF"

lemma crc_valid_iff:
  assumes "length c = 4"
  shows "of_le c = computeCRC32 body \<longleftrightarrow> fold crc_byte (body @ c) 0xFFFFFFFF = crc_residue"
proof -
  let ?s = "fold crc_byte body 0xFFFFFFFF"
  have "fold crc_byte (body @ c) 0xFFFFFFFF = (crc_step ^^ 32) (?s XOR of_le c)"
    using assms by (simp add: fold_crc_byte_word)
  then have "fold crc_byte (body @ c) 0xFFFFFFFF = crc_residue \<longleftrightarrow> ?s XOR of_le c = 0xFFFFFFFF"
    by (simp only: crc_residue_def crc_steps_inj)
  also have "\<dots> \<longleftrightarrow> ?s XOR (?s XOR of_le c) = ?s XOR 0xFFFFFFFF"
    by (simp only: xor_cancel_left)
  finally show ?thesis by (simp add: computeCRC32_def xor.assoc [symmetric])
qed

section \<open>Frames on the wire\<close>

lemma length_header_bytes [simp]: "length (header_bytes h) = 11"
  by (simp add: header_bytes_def)

lemma read_header_bytes: "read_header (header_bytes h @ rest) = h"
proof -
  have "drop 3 (to_le 2 m @ t # xs) = xs" for m :: u16 and t xs
    by (simp add: numeral_eq_Suc)
  moreover have "drop 7 (to_le 2 m @ t # to_le 4 q @ xs) = xs" for m :: u16 and t xs and q :: u32
    by simp
  ultimately show ?thesis
    by (simp add: read_header_def header_bytes_def nth_append of_le_to_le)
qed

definition body_bytes :: "u32 \<Rightarrow> u8 \<Rightarrow> bytes \<Rightarrow> bytes" where
  "body_bytes seq ty p =
     header_bytes \<lparr>magic = kProtocolMagic, hdr_msg_type = ty, seq_no = seq,
                   payload_len = of_nat (length p)\<rparr> @ p"

definition wire_frame :: "u32 \<Rightarrow> u8 \<Rightarrow> bytes \<Rightarrow> bytes" where
  "wire_frame seq ty p = body_bytes seq ty p @ to_le 4 (computeCRC32 (body_bytes seq ty p))"

definition fits :: "bytes \<Rightarrow> bool" where
  "fits p \<longleftrightarrow> length p \<le> 67108864"

lemma length_body_bytes [simp]: "length (body_bytes seq ty p) = 11 + length p"
  by (simp add: body_bytes_def)

lemma length_wire_frame [simp]: "length (wire_frame seq ty p) = 15 + length p"
  by (simp add: wire_frame_def)

lemma fits_payload_len:
  assumes "fits p"
  shows "unat (of_nat (length p) :: u32) = length p" "\<not> kMaxPayloadBytes < of_nat (length p)"
proof -
  show len: "unat (of_nat (length p) :: u32) = length p"
    using assms by (simp add: fits_def unat_of_nat)
  have "unat kMaxPayloadBytes = 67108864" by (simp add: kMaxPayloadBytes_def)
  then show "\<not> kMaxPayloadBytes < of_nat (length p)"
    using assms by (simp add: word_less_nat_alt len fits_def)
qed

text \<open>
  What the receiver needs to know of a stretch of the stream: it is recognised as one frame,
  whatever follows it, and no proper prefix of it is taken for one. The result is the message,
  or nothing when the CRC does not fit.
\<close>

definition frame_item :: "bytes \<Rightarrow> (u8 \<times> bytes) option \<Rightarrow> bool" where
  "frame_item fr r \<longleftrightarrow> fr \<noteq> [] \<and>
     (\<forall>rest. check_frame (fr @ rest) =
        (case r of Some (ty, p) \<Rightarrow> Complete ty p (length fr) | None \<Rightarrow> Bad_crc (length fr))) \<and>
     (\<forall>k < length fr. check_frame (take k fr) = Incomplete)"

text \<open>The check of any body with the right magic and length, followed by any four CRC bytes.\<close>

lemma check_frame_body:
  assumes "fits p" and "length c = 4" and "magic h = kProtocolMagic"
    and "payload_len h = of_nat (length p)"
  shows "check_frame (header_bytes h @ p @ c @ rest) =
           (if of_le c \<noteq> computeCRC32 (header_bytes h @ p) then Bad_crc (15 + length p)
            else Complete (hdr_msg_type h) p (15 + length p))"
proof -
  have crc: "take 4 (drop (11 + length p) (header_bytes h @ p @ c @ rest)) = c"
    using assms(2) by simp
  have body: "take (11 + length p) (header_bytes h @ p @ c @ rest) = header_bytes h @ p"
    by simp
  have pay: "slice 11 (11 + length p) (header_bytes h @ p @ c @ rest) = p"
    by (simp add: slice_def)
  show ?thesis
    using fits_payload_len [OF assms(1)] assms(2)
    by (simp add: check_frame_def read_header_bytes crc body pay sizeof_FrameHeader_def
        kCRC32Size_def Let_def assms(3,4) del: take_append drop_append)
qed

lemma check_frame_prefix:
  assumes "fits p" and "k < 15 + length p" and "length c = 4" and "magic h = kProtocolMagic"
    and "payload_len h = of_nat (length p)"
  shows "check_frame (take k (header_bytes h @ p @ c)) = Incomplete"
proof (cases "11 \<le> k")
  case True
  then have "take k (header_bytes h @ p @ c) = header_bytes h @ take (k - 11) (p @ c)" by simp
  then have "read_header (take k (header_bytes h @ p @ c)) = h"
    by (simp only: read_header_bytes)
  then show ?thesis
    using assms fits_payload_len [OF assms(1)]
    by (simp add: check_frame_def sizeof_FrameHeader_def kCRC32Size_def Let_def del: take_append)
next
  case False
  then show ?thesis by (simp add: check_frame_def sizeof_FrameHeader_def)
qed

lemma frame_item_body:
  assumes "fits p" and "length c = 4" and "magic h = kProtocolMagic"
    and "payload_len h = of_nat (length p)"
  shows "frame_item (header_bytes h @ p @ c)
           (if of_le c \<noteq> computeCRC32 (header_bytes h @ p) then None else Some (hdr_msg_type h, p))"
  unfolding frame_item_def
proof (intro conjI allI impI)
  show "header_bytes h @ p @ c \<noteq> []" using assms(2) by auto
next
  fix k assume "k < length (header_bytes h @ p @ c)"
  then have "k < 15 + length p" using assms(2) by simp
  from check_frame_prefix [OF assms(1) this assms(2-4)]
  show "check_frame (take k (header_bytes h @ p @ c)) = Incomplete" .
qed (use assms check_frame_body [OF assms] in simp)

lemma frame_item_wire: "fits p \<Longrightarrow> frame_item (wire_frame seq ty p) (Some (ty, p))"
  using frame_item_body [of p "to_le 4 (computeCRC32 (body_bytes seq ty p))"
      "\<lparr>magic = kProtocolMagic, hdr_msg_type = ty, seq_no = seq, payload_len = of_nat (length p)\<rparr>"]
  by (simp add: wire_frame_def body_bytes_def of_le_to_le)

section \<open>The receiving loop on a stream of frames\<close>

text \<open>
  The bytes a sequence of receive events carries, and the sequences in which the connection
  stays up. The client calls \<open>recvMsg\<close> again after every message and after every time-out.
\<close>

fun stream :: "recv_event list \<Rightarrow> bytes" where
  "stream [] = []"
| "stream (Received bs # evs) = bs @ stream evs"
| "stream (_ # evs) = stream evs"

definition stays_up :: "recv_event list \<Rightarrow> bool" where
  "stays_up evs \<longleftrightarrow> Received [] \<notin> set evs \<and> Recv_error \<notin> set evs"

definition recv_weight :: "tcp_socket \<Rightarrow> recv_event list \<Rightarrow> nat" where
  "recv_weight s evs = length (recv_buf s) + length (stream evs) + length evs"

lemma stream_Cons_le: "length (stream (e # evs)) \<ge> length (stream evs)"
  by (cases e) auto

lemma check_frame_consumes:
  "check_frame buf = Bad_crc n \<Longrightarrow> 0 < n \<and> n \<le> length buf"
  "check_frame buf = Complete ty p n \<Longrightarrow> 0 < n \<and> n \<le> length buf"
  "check_frame buf = Desync \<Longrightarrow> buf \<noteq> []"
  by (auto simp: check_frame_def Let_def sizeof_FrameHeader_def split: if_splits)

lemma recvMsg_decreases:
  "recvMsg s evs = (Returned st, m, s', evs') \<Longrightarrow> st \<noteq> CLOSED \<Longrightarrow> recv_weight s' evs' < recv_weight s evs"
proof (induction s evs rule: recvMsg.induct)
  case (1 s evs)
  show ?case
  proof (cases "check_frame (recv_buf s)")
    case Incomplete
    with "1.prems" "1.IH" show ?thesis
      by (subst (asm) recvMsg.simps)
        (fastforce simp: recv_weight_def split: list.splits recv_event.splits if_splits)
  qed (use "1.prems" check_frame_consumes [of "recv_buf s"] in
      \<open>auto simp: recvMsg.simps [of s] recv_weight_def\<close>)
qed

function receive_all :: "tcp_socket \<Rightarrow> recv_event list \<Rightarrow> (u8 \<times> bytes) list \<times> tcp_socket" where
  "receive_all s evs =
     (case recvMsg s evs of
        (Returned GOT_MSG, Some m, s', evs') \<Rightarrow>
          (case receive_all s' evs' of (ms, t) \<Rightarrow> (m # ms, t))
      | (Returned TIMEOUT, _, s', evs') \<Rightarrow> receive_all s' evs'
      | (_, _, s', _) \<Rightarrow> ([], s'))"
  by pat_completeness auto
termination
  by (relation "measure (\<lambda>(s, evs). recv_weight s evs)") (auto dest: recvMsg_decreases [OF sym])

declare receive_all.simps [simp del]

definition no_buf :: "tcp_socket \<Rightarrow> tcp_socket" where
  "no_buf s = s\<lparr>recv_buf := []\<rparr>"

lemma no_buf_update [simp]: "no_buf (s\<lparr>recv_buf := b\<rparr>) = no_buf s"
  by (simp add: no_buf_def)

lemma no_buf_id: "recv_buf s = [] \<Longrightarrow> no_buf s = s"
  by (simp add: no_buf_def)

text \<open>
  One call on a stream that still holds the given frames: it blocks at the end of the stream,
  or it times out and keeps everything, or it takes exactly the first frame.
\<close>

definition takes_frame ::
    "(bytes \<times> (u8 \<times> bytes) option) list \<Rightarrow> tcp_socket
      \<Rightarrow> recv_status outcome \<times> (u8 \<times> bytes) option \<times> tcp_socket \<times> recv_event list \<Rightarrow> bool" where
  "takes_frame items s res =
     (case res of (out, m, s', evs') \<Rightarrow>
        no_buf s' = no_buf s \<and> stays_up evs' \<and>
        (out = Blocked \<and> items = [] \<and> recv_buf s' = []
         \<or> out = Returned TIMEOUT \<and> recv_buf s' @ stream evs' = concat (map fst items)
         \<or> (\<exists>fr r items'. items = (fr, r) # items' \<and> m = r \<and>
              out = Returned (if r = None then TIMEOUT else GOT_MSG) \<and>
              recv_buf s' @ stream evs' = concat (map fst items'))))"

definition items_ok :: "(bytes \<times> (u8 \<times> bytes) option) list \<Rightarrow> bool" where
  "items_ok items \<longleftrightarrow> (\<forall>it \<in> set items. frame_item (fst it) (snd it))"

lemma buffered_frame:
  assumes "buf @ later = concat (map fst items)"
    and "items_ok items"
  obtains (whole) fr r items' rest where "items = (fr, r) # items'" "frame_item fr r" "buf = fr @ rest"
      "rest @ later = concat (map fst items')"
  | (part) "check_frame buf = Incomplete" "later = [] \<longrightarrow> items = [] \<and> buf = []"
proof (cases items)
  case Nil
  then show thesis using part assms(1) by (simp add: check_frame_def sizeof_FrameHeader_def)
next
  case (Cons it items')
  obtain fr r where it: "it = (fr, r)" by (cases it)
  have fr: "frame_item fr r" using assms(2) Cons it by (simp add: items_ok_def)
  have eq: "buf @ later = fr @ concat (map fst items')" using assms(1) Cons it by simp
  show thesis
  proof (cases "length fr \<le> length buf")
    case True
    with eq obtain rest where "buf = fr @ rest" "rest @ later = concat (map fst items')"
      by (auto simp: append_eq_append_conv2)
    then show thesis using whole Cons it fr by blast
  next
    case False
    with eq have "buf = take (length buf) fr" by (auto simp: append_eq_append_conv2)
    moreover have "check_frame (take (length buf) fr) = Incomplete"
      using fr False by (simp add: frame_item_def)
    moreover have "later \<noteq> []" using eq False by auto
    ultimately show thesis using part Cons by simp
  qed
qed

lemma recvMsg_items:
  assumes "recv_buf s @ stream evs = concat (map fst items)" and "stays_up evs"
    and "items_ok items"
  shows "takes_frame items s (recvMsg s evs)"
  using assms(1,2)
proof (induction s evs rule: recvMsg.induct)
  case (1 s evs)
  from "1.prems"(1) assms(3) show ?case
  proof (cases rule: buffered_frame)
    case (whole fr r items' rest)
    then have "check_frame (recv_buf s) =
        (case r of Some (ty, p) \<Rightarrow> Complete ty p (length fr) | None \<Rightarrow> Bad_crc (length fr))"
      by (simp add: frame_item_def)
    then show ?thesis
      using whole "1.prems"(2)
      by (subst recvMsg.simps) (auto simp: takes_frame_def split: option.splits prod.splits)
  next
    case part
    show ?thesis
    proof (cases evs)
      case Nil
      then have "items = [] \<and> recv_buf s = []" using part by simp
      then show ?thesis using part Nil by (subst recvMsg.simps) (simp add: takes_frame_def stays_up_def)
    next
      case (Cons e evs')
      have up: "stays_up evs'" using "1.prems"(2) Cons by (simp add: stays_up_def)
      show ?thesis
      proof (cases e)
        case (Received bs)
        have bs: "bs \<noteq> []" using "1.prems"(2) Cons Received by (auto simp: stays_up_def)
        have "takes_frame items (s\<lparr>recv_buf := recv_buf s @ bs\<rparr>) (recvMsg (s\<lparr>recv_buf := recv_buf s @ bs\<rparr>) evs')"
          using "1.IH"(1) [OF part(1) Cons Received bs] "1.prems"(1) up Cons Received by simp
        then show ?thesis
          using part(1) Cons Received bs by (subst recvMsg.simps) (simp add: takes_frame_def)
      next
        case Recv_EINTR
        have "takes_frame items s (recvMsg s evs')"
          using "1.IH"(2) [OF part(1) Cons Recv_EINTR] "1.prems"(1) up Cons Recv_EINTR by simp
        then show ?thesis using part(1) Cons Recv_EINTR by (subst recvMsg.simps) simp
      next
        case Recv_EAGAIN
        then show ?thesis
          using part(1) Cons up "1.prems"(1) by (subst recvMsg.simps) (simp add: takes_frame_def)
      next
        case Recv_error
        then show ?thesis using "1.prems"(2) Cons by (simp add: stays_up_def)
      qed
    qed
  qed
qed

text \<open>All frames are delivered in order, however the stream is cut into calls.\<close>

lemma receive_all_items:
  assumes "recv_buf s @ stream evs = concat (map fst items)" and "stays_up evs"
    and "items_ok items"
  shows "receive_all s evs = (List.map_filter snd items, no_buf s)"
  using assms
proof (induction s evs arbitrary: items rule: receive_all.induct)
  case (1 s evs)
  obtain out m s' evs' where call: "recvMsg s evs = (out, m, s', evs')" by (metis prod_cases4)
  have step: "takes_frame items s (out, m, s', evs')"
    using recvMsg_items [OF "1.prems"] call by simp
  then have buf: "no_buf s' = no_buf s" and up: "stays_up evs'" by (simp_all add: takes_frame_def)
  from step consider
      (blocked) "out = Blocked" "items = []" "recv_buf s' = []"
    | (timeout) "out = Returned TIMEOUT" "recv_buf s' @ stream evs' = concat (map fst items)"
    | (frame) fr r items' where "items = (fr, r) # items'" "m = r"
        "out = Returned (if r = None then TIMEOUT else GOT_MSG)"
        "recv_buf s' @ stream evs' = concat (map fst items')"
    by (auto simp: takes_frame_def)
  then show ?case
  proof cases
    case blocked
    then have "s' = no_buf s" using buf no_buf_id [of s'] by simp
    then show ?thesis using blocked call by (subst receive_all.simps) (simp add: map_filter_simps)
  next
    case timeout
    then have "receive_all s' evs' = (List.map_filter snd items, no_buf s')"
      using "1.IH"(2) [OF call [symmetric]] up "1.prems"(3) by auto
    then show ?thesis using timeout call buf by (subst receive_all.simps) simp
  next
    case frame
    note fr = frame
    have items: "items_ok items'" using fr(1) "1.prems"(3) by (simp add: items_ok_def)
    show ?thesis
    proof (cases r)
      case None
      then have "receive_all s' evs' = (List.map_filter snd items', no_buf s')"
        using "1.IH"(2) [OF call [symmetric]] up items fr(3,4) by auto
      then show ?thesis
        using None fr call buf by (subst receive_all.simps) (simp add: map_filter_simps)
    next
      case (Some msg)
      then have "receive_all s' evs' = (List.map_filter snd items', no_buf s')"
        using "1.IH"(1) [OF call [symmetric]] up items fr(2-4) by auto
      then show ?thesis
        using Some fr call buf by (subst receive_all.simps) (simp add: map_filter_simps)
    qed
  qed
qed

text \<open>One call on a stream that starts with a frame, whatever comes after it, and all frames at the head of
  a stream: they are delivered before anything that follows.\<close>

lemma recvMsg_first:
  assumes "recv_buf s @ stream evs = fr @ tail" and "frame_item fr r" and "stays_up evs"
  shows "\<exists>s' evs' m out. recvMsg s evs = (out, m, s', evs') \<and> stays_up evs'
    \<and> (out = Returned TIMEOUT \<and> recv_buf s' @ stream evs' = fr @ tail
       \<or> m = r \<and> out = Returned (if r = None then TIMEOUT else GOT_MSG) \<and> recv_buf s' @ stream evs' = tail)"
  using assms(1,3)
proof (induction s evs rule: recvMsg.induct)
  case (1 s evs)
  show ?case
  proof (cases "length fr \<le> length (recv_buf s)")
    case True
    then obtain rest where rest: "recv_buf s = fr @ rest" "rest @ stream evs = tail"
      using "1.prems"(1) by (auto simp: append_eq_append_conv2)
    then have "check_frame (recv_buf s) = (case r of Some (ty, p) \<Rightarrow> Complete ty p (length fr) | None \<Rightarrow> Bad_crc (length fr))"
      using assms(2) by (simp add: frame_item_def)
    then show ?thesis using rest "1.prems"(2) by (subst recvMsg.simps) (auto split: option.splits prod.splits)
  next
    case False
    then have "recv_buf s = take (length (recv_buf s)) fr" using "1.prems"(1) by (auto simp: append_eq_append_conv2)
    moreover have "check_frame (take (length (recv_buf s)) fr) = Incomplete" using assms(2) False by (simp add: frame_item_def)
    ultimately have inc: "check_frame (recv_buf s) = Incomplete" by simp
    have "stream evs \<noteq> []" using False "1.prems"(1) by auto
    then obtain e evs' where Cons: "evs = e # evs'" by (cases evs) auto
    have up: "stays_up evs'" using "1.prems"(2) Cons by (simp add: stays_up_def)
    show ?thesis
    proof (cases e)
      case (Received bs)
      have bs: "bs \<noteq> []" using "1.prems"(2) Cons Received by (auto simp: stays_up_def)
      show ?thesis
        using "1.IH"(1) [OF inc Cons Received bs] "1.prems"(1) up inc Cons Received bs by (subst recvMsg.simps) simp
    next
      case Recv_EINTR
      show ?thesis
        using "1.IH"(2) [OF inc Cons Recv_EINTR] "1.prems"(1) up inc Cons Recv_EINTR by (subst recvMsg.simps) simp
    next
      case Recv_EAGAIN
      then show ?thesis using inc Cons up "1.prems"(1) by (subst recvMsg.simps) simp
    next
      case Recv_error
      then show ?thesis using "1.prems"(2) Cons by (simp add: stays_up_def)
    qed
  qed
qed

lemma receive_all_head:
  assumes "recv_buf s @ stream evs = concat (map fst items) @ tail" and "stays_up evs" and "items_ok items"
  shows "\<exists>ms. fst (receive_all s evs) = List.map_filter snd items @ ms"
  using assms
proof (induction s evs arbitrary: items rule: receive_all.induct)
  case (1 s evs)
  show ?case
  proof (cases items)
    case (Cons it items')
    obtain fr r where it: "it = (fr, r)" by (cases it)
    have fr: "frame_item fr r" "items_ok items'" using "1.prems"(3) Cons it by (simp_all add: items_ok_def)
    have eq: "recv_buf s @ stream evs = fr @ (concat (map fst items') @ tail)" using "1.prems"(1) Cons it by simp
    obtain out m s' evs' where call: "recvMsg s evs = (out, m, s', evs')" and up: "stays_up evs'"
      and cs: "out = Returned TIMEOUT \<and> recv_buf s' @ stream evs' = fr @ (concat (map fst items') @ tail)
       \<or> m = r \<and> out = Returned (if r = None then TIMEOUT else GOT_MSG) \<and> recv_buf s' @ stream evs' = concat (map fst items') @ tail"
      using recvMsg_first [OF eq fr(1) "1.prems"(2)] by blast
    from cs consider
        (wait) "out = Returned TIMEOUT" "recv_buf s' @ stream evs' = concat (map fst items) @ tail"
      | (skip) "r = None" "out = Returned TIMEOUT" "recv_buf s' @ stream evs' = concat (map fst items') @ tail"
      | (got) msg where "r = Some msg" "m = Some msg" "out = Returned GOT_MSG" "recv_buf s' @ stream evs' = concat (map fst items') @ tail"
      using Cons it by (cases r) auto
    then show ?thesis
    proof cases
      case wait
      then obtain ms where "fst (receive_all s' evs') = List.map_filter snd items @ ms"
        using "1.IH"(2) [OF call [symmetric]] up "1.prems"(3) by blast
      then show ?thesis using wait call by (subst receive_all.simps) simp
    next
      case skip
      then obtain ms where "fst (receive_all s' evs') = List.map_filter snd items' @ ms"
        using "1.IH"(2) [OF call [symmetric]] up fr(2) by blast
      then show ?thesis using skip call Cons it by (subst receive_all.simps) (simp add: map_filter_simps)
    next
      case got
      then obtain ms where "fst (receive_all s' evs') = List.map_filter snd items' @ ms"
        using "1.IH"(1) [OF call [symmetric]] up fr(2) by blast
      then show ?thesis using got call Cons it by (subst receive_all.simps) (cases "receive_all s' evs'", simp add: map_filter_simps)
    qed
  qed (simp add: map_filter_simps)
qed

section \<open>Corrupted frames\<close>

lemma header_bytes_read:
  assumes "11 \<le> length bs"
  shows "header_bytes (read_header bs) = take 11 bs"
proof -
  have 1: "to_le 2 (of_le (take 2 bs) :: u16) = take 2 bs" using assms by (intro to_le_of_le) auto
  have 2: "to_le 4 (of_le (take 4 (drop k bs)) :: u32) = take 4 (drop k bs)" if "k \<le> 7" for k
    using assms that by (intro to_le_of_le) auto
  have "take 11 bs = take 2 bs @ take 1 (drop 2 bs) @ take 4 (drop 3 bs) @ take 4 (drop 7 bs)"
    using take_add [of 2 9 bs] take_add [of 1 8 "drop 2 bs"] take_add [of 4 4 "drop 3 bs"]
    by (simp add: numeral_3_eq_3)
  moreover have "take 1 (drop 2 bs) = [bs ! 2]" using assms by (simp add: take_Suc_conv_app_nth hd_drop_conv_nth take_Suc)
  ultimately show ?thesis by (simp add: header_bytes_def read_header_def 1 2)
qed

text \<open>
  A change of at most four consecutive bytes of a frame that leaves the magic and the length field alone.
\<close>

definition burst :: "bytes \<Rightarrow> bytes \<Rightarrow> bool" where
  "burst fr fr' \<longleftrightarrow> fr \<noteq> fr' \<and>
     (\<exists>u v v' w. fr = u @ v @ w \<and> fr' = u @ v' @ w \<and> length v = length v' \<and> length v \<le> 4) \<and>
     take 2 fr' = take 2 fr \<and> take 4 (drop 7 fr') = take 4 (drop 7 fr)"

text \<open>A change of the magic is seen at once, and the receiver then drops all it has buffered, frames behind
  the damaged one included; a changed length makes it wait for, and then drop or misread, bytes of later
  frames. For both there is no guarantee on what is delivered afterwards.\<close>

lemma changed_magic_desync: "11 \<le> length fr' \<Longrightarrow> take 2 fr' \<noteq> to_le 2 kProtocolMagic \<Longrightarrow> check_frame (fr' @ rest) = Desync"
proof -
  assume a: "11 \<le> length fr'" "take 2 fr' \<noteq> to_le 2 kProtocolMagic"
  have "to_le 2 (of_le (take 2 fr') :: u16) = take 2 fr'" using a(1) by (intro to_le_of_le) simp_all
  then have "magic (read_header (fr' @ rest)) \<noteq> kProtocolMagic" using a by (auto simp: read_header_def)
  then show ?thesis using a(1) by (simp add: check_frame_def sizeof_FrameHeader_def Let_def)
qed

lemma burst_byte:
  assumes "x \<noteq> y" and "11 \<le> length u"
  shows "burst (u @ [x] @ w) (u @ [y] @ w)"
proof -
  have "\<exists>a v v' b. u @ [x] @ w = a @ v @ b \<and> u @ [y] @ w = a @ v' @ b \<and> length v = length v' \<and> length v \<le> 4"
    by (rule exI [of _ u], rule exI [of _ "[x]"], rule exI [of _ "[y]"], rule exI [of _ w]) simp
  then show ?thesis using assms by (simp add: burst_def)
qed

lemma frame_item_burst:
  assumes "fits p" and "burst (wire_frame seq ty p) fr'"
  shows "frame_item fr' None"
proof -
  let ?fr = "wire_frame seq ty p"
  define h where "h = read_header fr'"
  define p' where "p' = take (length p) (drop 11 fr')"
  define c' where "c' = drop (11 + length p) fr'"
  from assms(2) obtain u v v' w where w: "?fr = u @ v @ w" "fr' = u @ v' @ w"
      "length v = length v'" "length v \<le> 4" and ne: "?fr \<noteq> fr'"
    unfolding burst_def by blast
  have len: "length fr' = 15 + length p" using w(1-3) length_wire_frame [of seq ty p] by simp
  have "fr' = take 11 fr' @ p' @ c'"
    by (simp add: p'_def c'_def add.commute [of 11] drop_drop [symmetric] append_take_drop_id del: drop_drop)
  then have fr': "fr' = header_bytes h @ p' @ c'" using len by (simp add: h_def header_bytes_read)
  have p': "fits p'" "length p' = length p" and c': "length c' = 4"
    using assms(1) len by (simp_all add: p'_def c'_def fits_def)
  have hdr: "read_header ?fr = \<lparr>magic = kProtocolMagic, hdr_msg_type = ty, seq_no = seq,
                   payload_len = of_nat (length p)\<rparr>"
    by (simp add: wire_frame_def body_bytes_def read_header_bytes)
  have fields: "magic h = kProtocolMagic" "payload_len h = of_nat (length p')"
    using assms(2) hdr p'(2) by (simp_all add: h_def read_header_def burst_def)
  have "fold crc_byte ?fr 0xFFFFFFFF = crc_residue"
    using crc_valid_iff [of "to_le 4 (computeCRC32 (body_bytes seq ty p))" "body_bytes seq ty p"]
    by (simp add: wire_frame_def of_le_to_le)
  moreover have "fold crc_byte ?fr 0xFFFFFFFF \<noteq> fold crc_byte fr' 0xFFFFFFFF"
    using fold_crc_burst [OF w(3,4), of u w] ne by (auto simp: w(1,2))
  ultimately have "of_le c' \<noteq> computeCRC32 (header_bytes h @ p')"
    using crc_valid_iff [OF c', of "header_bytes h @ p'"] by (simp add: fr')
  then show ?thesis using frame_item_body [OF p'(1) c' fields] by (simp add: fr')
qed

section \<open>The sending loop\<close>

text \<open>
  The event sequences under which a send makes progress: every accepted send takes at least one
  byte, no error, and never more than 1000 \<^verbatim>\<open>EAGAIN\<close> answers in a row.
\<close>

fun send_ready :: "nat \<Rightarrow> send_event list \<Rightarrow> bool" where
  "send_ready r [] = True"
| "send_ready r (Sent k # evs) = (0 < k \<and> send_ready 0 evs)"
| "send_ready r (Send_EINTR # evs) = send_ready r evs"
| "send_ready r (Send_EAGAIN # evs) = (r < 1000 \<and> send_ready (r + 1) evs)"
| "send_ready r (Send_error # evs) = False"

fun room :: "send_event list \<Rightarrow> nat" where
  "room [] = 0"
| "room (Sent k # evs) = k + room evs"
| "room (_ # evs) = room evs"

lemma send_loop_cases:
  "\<not> sent < length buf \<Longrightarrow> send_loop buf sent r evs = (Returned True, sent, evs)"
  "sent < length buf \<Longrightarrow> send_loop buf sent r [] = (Blocked, sent, [])"
  "sent < length buf \<Longrightarrow> send_loop buf sent r (Send_EINTR # evs) = send_loop buf sent r evs"
  "sent < length buf \<Longrightarrow> send_loop buf sent r (Send_EAGAIN # evs) =
     (if r < 1000 then send_loop buf sent (r + 1) evs else (Returned False, sent, evs))"
  "sent < length buf \<Longrightarrow> send_loop buf sent r (Send_error # evs) = (Returned False, sent, evs)"
  "sent < length buf \<Longrightarrow> send_loop buf sent r (Sent k # evs) =
     (if k = 0 then (Returned False, sent, evs)
      else send_loop buf (sent + min k (length buf - sent)) 0 evs)"
  by (subst send_loop.simps; auto simp: Let_def min_def)+

lemma send_loop_result:
  assumes "sent \<le> length buf"
  shows "case send_loop buf sent r evs of (out, n, evs') \<Rightarrow>
           n \<le> length buf \<and> (out = Returned True \<longleftrightarrow> n = length buf)"
  using assms
proof (induction evs arbitrary: sent r)
  case Nil
  then show ?case by (cases "sent < length buf") (simp_all add: send_loop_cases)
next
  case (Cons e evs)
  show ?case
  proof (cases "sent < length buf")
    case True
    then show ?thesis using Cons.IH by (cases e) (simp_all add: send_loop_cases)
  qed (use Cons.prems in \<open>simp add: send_loop_cases\<close>)
qed

lemma send_loop_progress:
  assumes "sent \<le> length buf" and "send_ready r evs" and "length buf - sent \<le> room evs"
  shows "fst (send_loop buf sent r evs) = Returned True"
  using assms
proof (induction evs arbitrary: sent r)
  case Nil
  then show ?case by (simp add: send_loop_cases)
next
  case (Cons e evs)
  show ?case
  proof (cases "sent < length buf")
    case True
    then show ?thesis using Cons by (cases e) (simp_all add: send_loop_cases)
  qed (simp add: send_loop_cases)
qed

lemma sendExact_all: "sendExact buf evs = (Returned True, wire, evs') \<Longrightarrow> wire = buf"
  using send_loop_result [of 0 buf 0 evs] by (auto simp: sendExact_def split: prod.splits)

text \<open>
  For every sequence of results of the send calls, what sendExact has put on the wire is a
  prefix of the buffer, and it reports success exactly when that is the whole buffer. When the
  socket keeps accepting bytes, with at most 1000 EAGAIN answers in a row, it does succeed.
\<close>

theorem sendExact_delivers:
  "case sendExact buf evs of (out, wire, evs') \<Rightarrow>
     (\<exists>rest. buf = wire @ rest) \<and> (out = Returned True \<longleftrightarrow> wire = buf) \<and>
     (send_ready 0 evs \<and> length buf \<le> room evs \<longrightarrow> out = Returned True)"
proof -
  obtain out n evs' where loop: "send_loop buf 0 0 evs = (out, n, evs')" by (metis prod_cases3)
  have "n \<le> length buf" "out = Returned True \<longleftrightarrow> n = length buf"
    using send_loop_result [of 0 buf 0 evs] loop by simp_all
  moreover have "buf = take n buf @ drop n buf" by simp
  moreover have "out = Returned True" if "send_ready 0 evs" "length buf \<le> room evs"
    using send_loop_progress [of 0 buf 0 evs] that loop by simp
  ultimately show ?thesis
    by (auto simp: sendExact_def loop intro: exI [of _ "drop n buf"])
qed

theorem sendExact_delivers_witness:
  "send_ready 0 [Sent 2, Send_EAGAIN, Sent 9]
   \<and> fst (sendExact [1, 2, 3] [Sent 2, Send_EAGAIN, Sent 9]) = Returned True"
  using sendExact_delivers [of "[1, 2, 3]" "[Sent 2, Send_EAGAIN, Sent 9]"]
  by (auto split: prod.splits)

section \<open>The connection end to end\<close>

text \<open>Sending a list of messages over one socket, every call reporting success.\<close>

fun send_all :: "(u8 \<times> bytes) list \<Rightarrow> tcp_socket \<Rightarrow> send_event list \<Rightarrow> (tcp_socket \<times> bytes \<times> send_event list) option" where
  "send_all [] s evs = Some (s, [], evs)"
| "send_all ((ty, p) # ms) s evs =
     (case sendMsg ty (Some p) (of_nat (length p)) s evs of
        Some (Returned True, s', wire, evs') \<Rightarrow>
          (case send_all ms s' evs' of
             Some (s'', wire', evs'') \<Rightarrow> Some (s'', wire @ wire', evs'')
           | None \<Rightarrow> None)
      | _ \<Rightarrow> None)"

lemma sendMsg_wire:
  assumes "fits p" and "sendMsg ty (Some p) (of_nat (length p)) s evs = Some (Returned True, s', wire, evs')"
  shows "wire = wire_frame (send_seq s) ty p"
  using assms fits_payload_len(1) [OF assms(1)]
  by (auto simp: sendMsg_def frame_buf_def wire_frame_def body_bytes_def Let_def
      split: prod.splits outcome.splits bool.splits dest!: sendExact_all)

lemma send_all_frames:
  assumes "send_all ms s evs = Some (s', wire, evs')" and "\<forall>m \<in> set ms. fits (snd m)"
  shows "\<exists>items. wire = concat (map fst items) \<and> items_ok items \<and> map snd items = map Some ms"
  using assms
proof (induction ms arbitrary: s evs wire)
  case Nil
  then show ?case by (intro exI [of _ "[]"]) (simp add: items_ok_def)
next
  case (Cons m ms)
  obtain ty p where m: "m = (ty, p)" by (cases m)
  have fit: "fits p" "\<forall>m \<in> set ms. fits (snd m)" using Cons.prems(2) m by auto
  from Cons.prems(1) obtain s1 w1 e1 w2 where
      first: "sendMsg ty (Some p) (of_nat (length p)) s evs = Some (Returned True, s1, w1, e1)"
      and rest: "send_all ms s1 e1 = Some (s', w2, evs')" and wire: "wire = w1 @ w2"
    by (auto simp: m split: option.splits prod.splits outcome.splits bool.splits)
  from Cons.IH [OF rest fit(2)] obtain items where
      items: "w2 = concat (map fst items)" "items_ok items" "map snd items = map Some ms" by blast
  show ?case
    using items wire sendMsg_wire [OF fit(1) first] frame_item_wire [OF fit(1), of "send_seq s" ty] m
    by (intro exI [of _ "(wire_frame (send_seq s) ty p, Some (ty, p)) # items"])
      (simp add: items_ok_def)
qed

lemma map_filter_snd_Some: "map snd items = map Some ms \<Longrightarrow> List.map_filter snd items = ms"
  by (induction items arbitrary: ms) (auto simp: map_filter_simps)

text \<open>
  C11. Whatever the send calls answered, and however the receiving side cuts the byte stream into
  recv calls, interrupts and time-outs: when every sendMsg of a sequence of messages reported
  success, repeated recvMsg on the peer delivers exactly these messages, in order, and leaves an
  empty buffer. No payload exceeds the receiver's limit of 64 MiB.
\<close>

theorem tcp_stream_roundtrip:
  assumes "send_all ms s evs = Some (s', wire, evs')" and "\<forall>m \<in> set ms. fits (snd m)"
    and "recv_buf r = []" and "stream revs = wire" and "stays_up revs"
  shows "receive_all r revs = (ms, r)"
proof -
  from send_all_frames [OF assms(1,2)] obtain items where
      "wire = concat (map fst items)" "items_ok items" "map snd items = map Some ms" by blast
  then show ?thesis
    using receive_all_items [of r revs items] assms(3-5) map_filter_snd_Some [of items ms]
    by (simp add: no_buf_id)
qed

text \<open>
  C12. Damaged frames. A frame in which at most four consecutive bytes were changed, none of them in its magic
  or its length field, is discarded as a whole: the messages before and after it are delivered, in order,
  and nothing else. Whatever bytes take the place of a frame (a damaged magic or length and longer
  changes included), the messages before it are delivered first, in order.
\<close>

theorem corrupted_frame_discarded:
  assumes "send_all before s evs = Some (s1, wire1, evs1)" and "\<forall>m \<in> set before. fits (snd m)"
    and "send_all later s2 evs2 = Some (s3, wire2, evs3)" and "\<forall>m \<in> set later. fits (snd m)"
    and "recv_buf r = []" and "stream revs = wire1 @ bad @ wire2" and "stays_up revs"
  shows "(\<forall>seq ty p. burst (wire_frame seq ty p) bad \<and> fits p \<longrightarrow> receive_all r revs = (before @ later, r))
    \<and> (\<exists>ms. fst (receive_all r revs) = before @ ms)"
proof -
  from send_all_frames [OF assms(1,2)] obtain i1 where
      i1: "wire1 = concat (map fst i1)" "items_ok i1" "map snd i1 = map Some before" by blast
  from send_all_frames [OF assms(3,4)] obtain i2 where
      i2: "wire2 = concat (map fst i2)" "items_ok i2" "map snd i2 = map Some later" by blast
  have "receive_all r revs = (before @ later, r)" if "burst (wire_frame seq ty p) bad" "fits p" for seq ty p
  proof -
    have "items_ok (i1 @ (bad, None) # i2)"
      using i1(2) i2(2) frame_item_burst [OF that(2,1)] by (auto simp: items_ok_def)
    moreover have "List.map_filter snd (i1 @ (bad, None) # i2) = before @ later"
      using map_filter_snd_Some [OF i1(3)] map_filter_snd_Some [OF i2(3)]
      by (simp add: map_filter_def)
    ultimately show ?thesis
      using receive_all_items [of r revs "i1 @ (bad, None) # i2"] assms(5-7) i1(1) i2(1)
      by (simp add: no_buf_id)
  qed
  moreover have "\<exists>ms. fst (receive_all r revs) = before @ ms"
    using receive_all_head [of r revs i1 "bad @ wire2"] assms(5-7) i1 map_filter_snd_Some [OF i1(3)] by simp
  ultimately show ?thesis by blast
qed

theorem tcp_stream_roundtrip_witness:
  "receive_all TcpSocket [Received (take 3 (wire_frame 0 0x30 [7])), Recv_EAGAIN, Recv_EINTR,
       Received (drop 3 (wire_frame 0 0x30 [7]))] = ([(0x30, [7])], TcpSocket)"
proof -
  let ?f = "wire_frame 0 0x30 [7]"
  have "frame_buf 0 0x30 (Some [7]) 1 = Some (body_bytes 0 0x30 [7])"
    by (simp add: frame_buf_def body_bytes_def Let_def)
  moreover have "sendExact b [Sent (length b), Sent 4] = (Returned True, b, [Sent 4])" if "b \<noteq> []" for b
    using that by (simp add: sendExact_def send_loop_cases)
  moreover have "sendExact c [Sent 4] = (Returned True, c, [])" if "length c = 4" for c
    using that by (simp add: sendExact_def send_loop_cases)
  moreover have "body_bytes 0 0x30 [7] \<noteq> []" by (simp add: body_bytes_def)
  ultimately have sent: "send_all [(0x30, [7])] TcpSocket [Sent (length (body_bytes 0 0x30 [7])), Sent 4]
      = Some (TcpSocket\<lparr>send_seq := 1\<rparr>, ?f, [])"
    by (simp add: sendMsg_def TcpSocket_def wire_frame_def del: length_body_bytes)
  have "length ?f = 16" by simp
  then have "?f \<noteq> []" "drop 3 ?f \<noteq> []" by (auto simp del: length_wire_frame)
  then show ?thesis
    by (intro tcp_stream_roundtrip [OF sent]) (auto simp: fits_def TcpSocket_def stays_up_def)
qed

theorem corrupted_frame_discarded_witness:
  "receive_all TcpSocket [Received (body_bytes 0 0x30 [8] @ drop 12 (wire_frame 0 0x30 [7]))]
     = ([], TcpSocket)"
proof -
  let ?h = "header_bytes \<lparr>magic = kProtocolMagic, hdr_msg_type = 0x30, seq_no = 0, payload_len = 1\<rparr>"
  let ?c = "to_le 4 (computeCRC32 (body_bytes 0 0x30 [7]))"
  have good: "wire_frame 0 0x30 [7] = ?h @ [7] @ ?c"
    by (simp add: wire_frame_def body_bytes_def)
  have bad: "body_bytes 0 0x30 [8] @ drop 12 (wire_frame 0 0x30 [7]) = ?h @ [8] @ ?c"
    by (simp add: wire_frame_def body_bytes_def)
  have "burst (wire_frame 0 0x30 [7]) (body_bytes 0 0x30 [8] @ drop 12 (wire_frame 0 0x30 [7]))"
    unfolding bad unfolding good by (rule burst_byte) simp_all
  then show ?thesis
    using corrupted_frame_discarded [of "[]" TcpSocket "[]" TcpSocket "[]" "[]" "[]"
        TcpSocket "[]" TcpSocket "[]" "[]" TcpSocket "[Received (?h @ [8] @ ?c)]" "?h @ [8] @ ?c", THEN conjunct1,
        rule_format, of 0 "0x30" "[7]"]
    unfolding bad by (simp add: fits_def TcpSocket_def stays_up_def)
qed

section \<open>Descriptor ownership\<close>

text \<open>
  A socket owns its descriptor when that is open, and the other open descriptors are those the
  rest of the program holds.
\<close>

definition owns :: "tcp_socket \<Rightarrow> open_fds \<Rightarrow> open_fds \<Rightarrow> bool" where
  "owns s others os \<longleftrightarrow> (if isValid s then sock_fd s \<notin> others \<and> os = insert (sock_fd s) others else os = others)"

text \<open>
  Descriptors are neither leaked nor closed twice: closing releases exactly the socket's own
  descriptor; listen and connect on a socket that holds none either succeed and own the new
  descriptor or fail and leave none open; accept owns the connection it returns; a move assignment
  closes the old descriptor of its target and takes over the source's.
\<close>

theorem socket_descriptor_balance:
  assumes "fd \<notin> others" and "\<not> isValid fresh"
  shows "(owns s others os \<longrightarrow>
            (case close_sock s os of (s', os') \<Rightarrow> os' = others \<and> \<not> isValid s')) \<and>
         (case listen fd b l fresh others of (ok, s', os') \<Rightarrow> owns s' others os' \<and> ok = isValid s') \<and>
         (case connect fd num res c fresh others of (ok, s', os') \<Rightarrow> owns s' others os' \<and> ok = isValid s') \<and>
         (case accept fd others of (s', os') \<Rightarrow> owns s' others os') \<and>
         (owns dst (insert fd others) os \<and> sock_fd src = fd \<and> isValid src \<longrightarrow>
            (case move_assign False dst src os of (dst', src', os') \<Rightarrow> owns dst' others os' \<and> \<not> isValid src')) \<and>
         move_assign True s s os = (s, s, os)"
proof (intro conjI impI)
  show "case close_sock s os of (s', os') \<Rightarrow> os' = others \<and> \<not> isValid s'" if "owns s others os"
    using that by (simp add: close_sock_def owns_def isValid_def split: if_splits)
  show "case listen fd b l fresh others of (ok, s', os') \<Rightarrow> owns s' others os' \<and> ok = isValid s'"
    using assms(1) by (simp add: listen_def close_sock_def owns_def isValid_def sys_open_def Let_def)
  show "case connect fd num res c fresh others of (ok, s', os') \<Rightarrow> owns s' others os' \<and> ok = isValid s'"
    using assms(1) by (simp add: connect_def close_sock_def owns_def isValid_def sys_open_def Let_def)
  show "case accept fd others of (s', os') \<Rightarrow> owns s' others os'"
    using assms(1)
    by (simp add: accept_def owns_def isValid_def sys_open_def TcpSocket_def TcpSocket_fd_def)
  show "move_assign True s s os = (s, s, os)" by (simp add: move_assign_def)
  show "case move_assign False dst src os of (dst', src', os') \<Rightarrow> owns dst' others os' \<and> \<not> isValid src'"
    if "owns dst (insert fd others) os \<and> sock_fd src = fd \<and> isValid src"
    using that assms(1)
    by (auto simp: move_assign_def moved_from_def close_sock_def owns_def isValid_def split: if_splits)
qed

theorem socket_descriptor_balance_witness:
  "owns (fst (accept 7 {0, 1, 2})) {0, 1, 2} (snd (accept 7 {0, 1, 2}))"
  using socket_descriptor_balance [of 7 "{0, 1, 2}" TcpSocket TcpSocket "{}" 0 0 True True 0 TcpSocket TcpSocket]
  by (simp add: TcpSocket_def isValid_def split: prod.splits)

text \<open>
  The sender has no limit of its own: a frame whose payload exceeds the receiver's maximum is
  sent, and the receiver drops it together with everything it has buffered behind it.
\<close>

lemma oversized_frame_desync:
  assumes "67108864 < length p" and "length p < 2 ^ 32"
  shows "check_frame (wire_frame seq ty p @ rest) = Desync"
proof -
  have len: "unat (of_nat (length p) :: u32) = length p"
    using assms(2) by (simp add: unat_of_nat)
  have "unat kMaxPayloadBytes = 67108864" by (simp add: kMaxPayloadBytes_def)
  then have "kMaxPayloadBytes < of_nat (length p)"
    using assms(1) by (simp add: word_less_nat_alt len)
  then show ?thesis
    by (simp add: check_frame_def wire_frame_def body_bytes_def read_header_bytes
        sizeof_FrameHeader_def Let_def)
qed

end
