(* ===== verification/Serialization.thy ===== *)
theory Serialization
  imports Relation_Batch
begin

text \<open>
  The wire formats of \<^verbatim>\<open>src/src/cluster/serialization.cpp\<close>: relation batches, incremental batches
  and the work assignment with the factor-base fingerprint.

  A destination buffer is a list of bytes of fixed length; a write past its end, and a read past
  the end of a source vector, is the value \<open>None\<close>. The bounds-checked reader of the receiving side
  is a record with the position and the sticky \<open>ok\<close> flag: a failed read leaves the destination as
  it was and reading goes on.
\<close>

unbundle bit_operations_syntax

section \<open>Buffers\<close>

definition writeBytes :: "bytes \<Rightarrow> bytes \<times> nat \<Rightarrow> (bytes \<times> nat) option" where
  "writeBytes src st =
     (case st of (buf, off) \<Rightarrow>
        if off + length src \<le> length buf
        then Some (take off buf @ src @ drop (off + length src) buf, off + length src)
        else None)"

text \<open>The memory image of the elements of an array, and back.\<close>

definition arr :: "nat \<Rightarrow> 'a::len word list \<Rightarrow> bytes" where
  "arr k xs = concat (map (to_le k) xs)"

fun un_arr :: "nat \<Rightarrow> nat \<Rightarrow> bytes \<Rightarrow> 'a::len word list" where
  "un_arr k 0 bs = []"
| "un_arr k (Suc n) bs = of_le (take k bs) # un_arr k n (drop k bs)"

definition write_array ::
    "nat \<Rightarrow> nat \<Rightarrow> 'a::len word list \<Rightarrow> bytes \<times> nat \<Rightarrow> (bytes \<times> nat) option" where
  "write_array k n xs st = (if n \<le> length xs then writeBytes (arr k (take n xs)) st else None)"

record safe_reader =
  rd_data :: bytes
  rd_pos :: nat
  rd_ok :: bool

definition SafeReader :: "bytes \<Rightarrow> safe_reader" where
  "SafeReader bs = \<lparr>rd_data = bs, rd_pos = 0, rd_ok = True\<rparr>"

definition readBytes :: "nat \<Rightarrow> safe_reader \<Rightarrow> bytes option \<times> safe_reader" where
  "readBytes n r =
     (if rd_pos r + n > length (rd_data r) then (None, r\<lparr>rd_ok := False\<rparr>)
      else (Some (slice (rd_pos r) (rd_pos r + n) (rd_data r)), r\<lparr>rd_pos := rd_pos r + n\<rparr>))"

text \<open>Reading one integer, and reading \<open>n\<close> elements into the front of a vector.\<close>

definition read_int :: "nat \<Rightarrow> 'a::len word \<Rightarrow> safe_reader \<Rightarrow> 'a word \<times> safe_reader" where
  "read_int k old r =
     (case readBytes k r of (None, r') \<Rightarrow> (old, r') | (Some bs, r') \<Rightarrow> (of_le bs, r'))"

definition read_array ::
    "nat \<Rightarrow> nat \<Rightarrow> 'a::len word list \<Rightarrow> safe_reader \<Rightarrow> 'a word list \<times> safe_reader" where
  "read_array k n old r =
     (case readBytes (n * k) r of
        (None, r') \<Rightarrow> (old, r')
      | (Some bs, r') \<Rightarrow> (un_arr k n bs @ drop n old, r'))"

section \<open>Relation batches\<close>

definition sentinel :: "batch \<Rightarrow> u64 \<Rightarrow> u64" where
  "sentinel b n = (if unat n < length (factor_offsets b) then factor_offsets b ! unat n else 0)"

definition serializeRelationBatch :: "batch \<Rightarrow> u64 \<Rightarrow> (bytes \<times> nat) option" where
  "serializeRelationBatch b cnt = do {
     let nf = (if cnt > 0 then sentinel b cnt else 0);
     let tot = 8 + cnt * (64 + 1 + 4 + 16 + 4) + (cnt + 1) * 8 + nf * 4 + nf * 1;
     let n = unat cnt;
     let st = (replicate (unat tot) 0, 0);
     st \<leftarrow> writeBytes (to_le 4 (ucast cnt :: u32)) st;
     st \<leftarrow> writeBytes (to_le 4 (ucast nf :: u32)) st;
     if cnt > 0 then do {
       st \<leftarrow> write_array 64 n (sqrt_Q b) st;
       st \<leftarrow> write_array 1 n (signs b) st;
       st \<leftarrow> write_array 4 n (val_2_exps b) st;
       st \<leftarrow> write_array 16 n (large_primes b) st;
       st \<leftarrow> (if length (char_bits b) \<ge> n then write_array 4 n (char_bits b) st
              else write_array 4 n (replicate n (0 :: u32)) st);
       st \<leftarrow> write_array 8 (n + 1) (factor_offsets b) st;
       if nf > 0 then do {
         st \<leftarrow> write_array 4 (unat nf) (factor_indices b) st;
         write_array 1 (unat nf) (factor_counts b) st
       } else Some st
     } else Some st
   }"

text \<open>
  The receiving side: the number of relations reported and the batch as it is left. The element
  count of the offset array is computed in 32 bits.
\<close>

definition read_batch_arrays :: "u32 \<Rightarrow> u32 \<Rightarrow> safe_reader \<Rightarrow> batch \<Rightarrow> batch \<times> safe_reader" where
  "read_batch_arrays nrel nfac r out =
     (let n = unat nrel; m = unat nfac;
          (q, r) = read_array 64 n (sqrt_Q out) r;
          (sg, r) = read_array 1 n (signs out) r;
          (v2, r) = read_array 4 n (val_2_exps out) r;
          (lp, r) = read_array 16 n (large_primes out) r;
          (cb, r) = read_array 4 n (char_bits out) r;
          (fo, r) = read_array 8 (unat (nrel + 1)) (factor_offsets out) r;
          out = out\<lparr>sqrt_Q := q, signs := sg, val_2_exps := v2, large_primes := lp,
                    char_bits := cb, factor_offsets := fo\<rparr>
      in if nfac > 0 then
           let (ix, r) = read_array 4 m (factor_indices out) r;
               (ct, r) = read_array 1 m (factor_counts out) r
           in (out\<lparr>factor_indices := ix, factor_counts := ct\<rparr>, r)
         else (out, r))"

definition deserializeRelationBatch :: "bytes \<Rightarrow> batch \<Rightarrow> u64 \<times> batch" where
  "deserializeRelationBatch bs out =
     (if length bs < 8 then (0, out)
      else
        let (nrel, r) = read_int 4 (0 :: u32) (SafeReader bs);
            (nfac, r) = read_int 4 (0 :: u32) r
        in if \<not> rd_ok r then (0, out)
           else
             let out = resize (ucast nrel) (ucast nfac) out
             in if nrel > 0 then
                  let (out, r) = read_batch_arrays nrel nfac r out
                  in if \<not> rd_ok r then (0, out)
                     else (ucast nrel, out\<lparr>num_relations := ucast nrel, num_factors := ucast nfac\<rparr>)
                else (ucast nrel, out\<lparr>num_relations := ucast nrel, num_factors := ucast nfac\<rparr>))"

section \<open>Incremental batches\<close>

definition serializeIncrementalBatch ::
    "batch \<Rightarrow> u64 \<Rightarrow> batch \<Rightarrow> u64 \<Rightarrow> (bytes \<times> nat) option" where
  "serializeIncrementalBatch full_batch full_count partial_batch partial_count = do {
     (full_buf, full_len) \<leftarrow> serializeRelationBatch full_batch full_count;
     (partial_buf, partial_len) \<leftarrow> serializeRelationBatch partial_batch partial_count;
     let tot = 4 + full_len + 4 + partial_len;
     let st = (replicate tot 0, 0);
     st \<leftarrow> writeBytes (to_le 4 (of_nat full_len :: u32)) st;
     st \<leftarrow> writeBytes (take full_len full_buf) st;
     st \<leftarrow> writeBytes (to_le 4 (of_nat partial_len :: u32)) st;
     st \<leftarrow> writeBytes (take partial_len partial_buf) st;
     Some (fst st, tot)
   }"

definition deserializeIncrementalBatch ::
    "bytes \<Rightarrow> batch \<Rightarrow> batch \<Rightarrow> bool \<times> batch \<times> batch" where
  "deserializeIncrementalBatch bs full_out partial_out =
     (if length bs < 8 then (False, full_out, partial_out)
      else
        let (full_len, r) = read_int 4 (0 :: u32) (SafeReader bs)
        in if \<not> rd_ok r \<or> rd_pos r + unat full_len > length bs then (False, full_out, partial_out)
           else
             let full_out = snd (deserializeRelationBatch
                   (slice (rd_pos r) (rd_pos r + unat full_len) bs) full_out);
                 r = r\<lparr>rd_pos := rd_pos r + unat full_len\<rparr>;
                 (partial_len, r) = read_int 4 (0 :: u32) r
             in if \<not> rd_ok r \<or> rd_pos r + unat partial_len > length bs
                then (False, full_out, partial_out)
                else (True, full_out, snd (deserializeRelationBatch
                        (slice (rd_pos r) (rd_pos r + unat partial_len) bs) partial_out)))"

section \<open>Work assignment\<close>

record factoring_data =
  fd_N :: u512
  fd_a_target :: u512
  fd_a :: u512
  fd_B_values :: "u512 list"
  factorBase :: "u32 list"
  rootN :: "u32 list"
  fd_a_factors :: "u32 list"
  fd_current_a_index :: u32
  fd_max_a_index :: u32
  fd_lowerHalfStart :: u32
  fd_upperHalfStart :: u32
  fd_M :: u32
  fd_F :: u32
  fd_size :: u32

record a_factors_snapshot =
  snap_a_factors :: "u32 list"
  snap_lowerHalfStart :: u32
  snap_upperHalfStart :: u32
  snap_shc_dim :: u32

text \<open>The reference parameters of a work assignment that are not part of the factoring data.\<close>

record work_params =
  sieve_batch_size :: u32
  threshold_override :: u64
  lp1_bound :: u64
  poly_range_start :: u64
  poly_range_count :: u64
  target_relations :: u64

definition fnv_mix :: "bytes \<Rightarrow> u64 \<Rightarrow> u64" where
  "fnv_mix bs h = fold (\<lambda>b h. (h XOR ucast b) * 1099511628211) bs h"

definition computeFactorBaseHash :: "factoring_data \<Rightarrow> u64" where
  "computeFactorBaseHash fd =
     fnv_mix (arr 4 (rootN fd))
       (fnv_mix (arr 4 (factorBase fd))
         (fnv_mix (to_le 4 (of_nat (length (factorBase fd)) :: u32)) 1469598103934665603))"

definition serializeWorkAssign ::
    "factoring_data \<Rightarrow> work_params \<Rightarrow> a_factors_snapshot option \<Rightarrow> (bytes \<times> nat) option" where
  "serializeWorkAssign fd w snapshot = do {
     let fb_size = (of_nat (length (factorBase fd)) :: u32);
     let snapshot_size = (case snapshot of None \<Rightarrow> 0 | Some s \<Rightarrow> 4 + unat (snap_shc_dim s) * 4 + 2 * 4);
     let tot = 124 + 8 + snapshot_size;
     let st = (replicate tot 0, 0);
     st \<leftarrow> writeBytes (to_le 64 (fd_N fd)) st;
     st \<leftarrow> writeBytes (to_le 4 fb_size) st;
     st \<leftarrow> writeBytes (to_le 4 (fd_M fd)) st;
     st \<leftarrow> writeBytes (to_le 4 (fd_F fd)) st;
     st \<leftarrow> writeBytes (to_le 4 (sieve_batch_size w)) st;
     st \<leftarrow> writeBytes (to_le 1 (of_nat (length (fd_a_factors fd)) :: u8)) st;
     st \<leftarrow> writeBytes [0, 0, 0] st;
     st \<leftarrow> writeBytes (to_le 8 (threshold_override w)) st;
     st \<leftarrow> writeBytes (to_le 8 (lp1_bound w)) st;
     st \<leftarrow> writeBytes (to_le 8 (poly_range_start w)) st;
     st \<leftarrow> writeBytes (to_le 8 (poly_range_count w)) st;
     st \<leftarrow> writeBytes (to_le 8 (target_relations w)) st;
     st \<leftarrow> writeBytes (to_le 8 (computeFactorBaseHash fd)) st;
     case snapshot of
       None \<Rightarrow> Some st
     | Some s \<Rightarrow> do {
         st \<leftarrow> writeBytes (to_le 4 (snap_shc_dim s)) st;
         st \<leftarrow> (if snap_shc_dim s > 0
                then write_array 4 (unat (snap_shc_dim s)) (snap_a_factors s) st else Some st);
         st \<leftarrow> writeBytes (to_le 4 (snap_lowerHalfStart s)) st;
         writeBytes (to_le 4 (snap_upperHalfStart s)) st
       }
   }"

text \<open>
  The optional snapshot at the end: a short buffer keeps what was read so far. \<open>std::vector::resize\<close>
  cuts or zero-extends the vector before it is read into.
\<close>

definition vec_resize :: "nat \<Rightarrow> u32 list \<Rightarrow> u32 list" where
  "vec_resize n xs = take n xs @ replicate (n - length xs) 0"

definition read_snapshot :: "safe_reader \<Rightarrow> a_factors_snapshot \<Rightarrow> a_factors_snapshot" where
  "read_snapshot r s =
     (if rd_pos r < length (rd_data r) then
        case readBytes 4 r of
          (None, _) \<Rightarrow> s
        | (Some dim_bs, r) \<Rightarrow>
            let dim = (of_le dim_bs :: u32);
                s = s\<lparr>snap_shc_dim := dim\<rparr>;
                s = (if dim > 0 then s\<lparr>snap_a_factors := vec_resize (unat dim) (snap_a_factors s)\<rparr> else s)
            in case (if dim > 0 then readBytes (unat dim * 4) r else (Some [], r)) of
                 (None, _) \<Rightarrow> s
               | (Some bs, r) \<Rightarrow>
                   let s = (if dim > 0 then s\<lparr>snap_a_factors := un_arr 4 (unat dim) bs\<rparr> else s)
                   in case readBytes 4 r of
                        (None, _) \<Rightarrow> s
                      | (Some lo, r) \<Rightarrow>
                          let s = s\<lparr>snap_lowerHalfStart := of_le lo\<rparr>
                          in case readBytes 4 r of
                               (None, _) \<Rightarrow> s
                             | (Some hi, _) \<Rightarrow> s\<lparr>snap_upperHalfStart := of_le hi\<rparr>
      else s)"

record assign_out =
  ao_fd :: factoring_data
  ao_params :: work_params
  ao_fb_hash :: u64
  ao_snapshot :: "a_factors_snapshot option"

definition deserializeWorkAssign :: "bytes \<Rightarrow> assign_out \<Rightarrow> bool \<times> assign_out" where
  "deserializeWorkAssign bs out =
     (if length bs < 132 then (False, out)
      else
        let fd = ao_fd out; w = ao_params out;
            (n, r) = read_int 64 (fd_N fd) (SafeReader bs);
            (fb_size, r) = read_int 4 (0 :: u32) r;
            (m, r) = read_int 4 (fd_M fd) r;
            (f, r) = read_int 4 (fd_F fd) r;
            (sbs, r) = read_int 4 (sieve_batch_size w) r;
            (shc_dim, r) = read_int 1 (0 :: u8) r;
            r = r\<lparr>rd_pos := rd_pos r + 3\<rparr>;
            (thr, r) = read_int 8 (threshold_override w) r;
            (lp1, r) = read_int 8 (lp1_bound w) r;
            (ps, r) = read_int 8 (poly_range_start w) r;
            (pc, r) = read_int 8 (poly_range_count w) r;
            (tr, r) = read_int 8 (target_relations w) r;
            fd = fd\<lparr>fd_N := n, fd_M := m, fd_F := f\<rparr>;
            w = \<lparr>sieve_batch_size = sbs, threshold_override = thr, lp1_bound = lp1,
                 poly_range_start = ps, poly_range_count = pc, target_relations = tr\<rparr>;
            out = out\<lparr>ao_fd := fd, ao_params := w\<rparr>
        in if \<not> rd_ok r then (False, out)
           else
             let (h, r) = read_int 8 (ao_fb_hash out) r;
                 out = out\<lparr>ao_fd := fd\<lparr>fd_size := fb_size\<rparr>, ao_fb_hash := h\<rparr>
             in if \<not> rd_ok r then (False, out)
                else (True, out\<lparr>ao_snapshot := map_option (read_snapshot r) (ao_snapshot out)\<rparr>))"

section \<open>Array images\<close>

lemma length_arr [simp]: "length (arr k xs) = k * length xs"
  by (induction xs) (auto simp: arr_def)

lemma arr_Nil [simp]: "arr k [] = []"
  by (simp add: arr_def)

lemma arr_Cons [simp]: "arr k (x # xs) = to_le k x @ arr k xs"
  by (simp add: arr_def)

lemma un_arr_arr:
  fixes xs :: "'a::len word list"
  assumes "LENGTH('a) \<le> 8 * k"
  shows "un_arr k (length xs) (arr k xs @ rest) = xs"
  using assms by (induction xs arbitrary: rest) (auto simp: of_le_to_le)

section \<open>Writing into a fresh buffer\<close>

definition wbuf :: "bytes \<Rightarrow> nat \<Rightarrow> bytes \<times> nat" where
  "wbuf w n = (w @ replicate n 0, length w)"

lemma wbuf_init: "(replicate n 0, 0) = wbuf [] n"
  by (simp add: wbuf_def)

lemma writeBytes_wbuf [simp]:
  "length src \<le> n \<Longrightarrow> writeBytes src (wbuf w n) = Some (wbuf (w @ src) (n - length src))"
  by (simp add: writeBytes_def wbuf_def)

lemma write_array_wbuf [simp]:
  "m \<le> length xs \<Longrightarrow> k * m \<le> n \<Longrightarrow>
     write_array k m xs (wbuf w n) = Some (wbuf (w @ arr k (take m xs)) (n - k * m))"
  by (simp add: write_array_def min_absorb2)

section \<open>Reading a well-formed buffer\<close>

definition rdr :: "bytes \<Rightarrow> bytes \<Rightarrow> safe_reader" where
  "rdr pre rest = \<lparr>rd_data = pre @ rest, rd_pos = length pre, rd_ok = True\<rparr>"

lemma SafeReader_rdr: "SafeReader bs = rdr [] bs"
  by (simp add: SafeReader_def rdr_def)

lemma rdr_sel [simp]: "rd_ok (rdr pre rest)" "rd_pos (rdr pre rest) = length pre"
    "rd_data (rdr pre rest) = pre @ rest"
  by (simp_all add: rdr_def)

lemma readBytes_rdr:
  "length x = n \<Longrightarrow> readBytes n (rdr pre (x @ rest)) = (Some x, rdr (pre @ x) rest)"
  by (simp add: readBytes_def rdr_def slice_def)

lemma read_int_rdr [simp]:
  fixes w :: "'a::len word"
  assumes "LENGTH('a) \<le> 8 * k"
  shows "read_int k old (rdr pre (to_le k w @ rest)) = (w, rdr (pre @ to_le k w) rest)"
  using assms by (simp add: read_int_def readBytes_rdr of_le_to_le)

lemma read_array_rdr [simp]:
  fixes xs :: "'a::len word list"
  assumes "LENGTH('a) \<le> 8 * k" and "length xs = n"
  shows "read_array k n old (rdr pre (arr k xs @ rest)) = (xs @ drop n old, rdr (pre @ arr k xs) rest)"
  using assms un_arr_arr [of k xs "[]"] by (simp add: read_array_def readBytes_rdr mult.commute)

section \<open>Reading a truncated buffer\<close>

text \<open>A sequence of reads that all succeeded has advanced over every byte it asked for.\<close>

definition advanced :: "nat \<Rightarrow> safe_reader \<Rightarrow> safe_reader \<Rightarrow> bool" where
  "advanced n r r' \<longleftrightarrow> rd_data r' = rd_data r \<and>
     (rd_ok r' \<longrightarrow> rd_ok r \<and> rd_pos r' = rd_pos r + n \<and> (rd_pos r \<le> length (rd_data r) \<longrightarrow> rd_pos r' \<le> length (rd_data r)))"

lemma advanced_trans: "advanced m r r' \<Longrightarrow> advanced n r' r'' \<Longrightarrow> advanced (m + n) r r''"
  by (auto simp: advanced_def)

lemma advanced_readBytes: "advanced n r (snd (readBytes n r))"
  by (simp add: advanced_def readBytes_def)

lemma advanced_read_array: "advanced (n * k) r (snd (read_array k n old r))"
  using advanced_readBytes [of "n * k" r]
  by (cases "readBytes (n * k) r"; cases "fst (readBytes (n * k) r)") (simp_all add: read_array_def)

section \<open>Relation batches: the image\<close>

definition char_image :: "batch \<Rightarrow> nat \<Rightarrow> u32 list" where
  "char_image b n = (if length (char_bits b) \<ge> n then take n (char_bits b) else replicate n 0)"

definition batch_image :: "batch \<Rightarrow> u64 \<Rightarrow> u64 \<Rightarrow> bytes" where
  "batch_image b cnt nf =
     (let n = unat cnt; m = unat nf in
      to_le 4 (ucast cnt :: u32) @ to_le 4 (ucast nf :: u32) @
      (if cnt > 0 then
         arr 64 (take n (sqrt_Q b)) @ arr 1 (take n (signs b)) @ arr 4 (take n (val_2_exps b)) @
         arr 16 (take n (large_primes b)) @ arr 4 (char_image b n) @
         arr 8 (take (n + 1) (factor_offsets b)) @
         arr 4 (take m (factor_indices b)) @ arr 1 (take m (factor_counts b))
       else []))"

text \<open>A batch whose first \<open>cnt\<close> relations can be shipped: both counts fit the 32-bit header.\<close>

definition shippable :: "batch \<Rightarrow> u64 \<Rightarrow> bool" where
  "shippable b cnt \<longleftrightarrow> batch_ok b \<and> cnt \<le> num_relations b \<and> unat cnt < 2 ^ 32 - 1 \<and>
     unat (sentinel b cnt) < 2 ^ 32 \<and>
     (char_bits b = [] \<or> unat cnt \<le> length (char_bits b))"

definition shipped_factors :: "batch \<Rightarrow> u64 \<Rightarrow> u64" where
  "shipped_factors b cnt = (if cnt > 0 then sentinel b cnt else 0)"

lemma shipped_factors_zero [simp]: "shipped_factors b 0 = 0"
  by (simp add: shipped_factors_def)

lemma word_pos_unat: "(0 :: 'a::len word) < w \<longleftrightarrow> 0 < unat w"
  by (simp add: word_less_nat_alt)

lemma shippableD:
  assumes "shippable b cnt"
  shows "unat cnt \<le> length (sqrt_Q b)" "unat cnt \<le> length (signs b)" "unat cnt \<le> length (val_2_exps b)"
    "unat cnt \<le> length (large_primes b)" "unat cnt + 1 \<le> length (factor_offsets b)"
    "unat (shipped_factors b cnt) \<le> length (factor_indices b)"
    "unat (shipped_factors b cnt) \<le> length (factor_counts b)"
    "unat (shipped_factors b cnt) < 2 ^ 32"
proof -
  have ok: "batch_ok b" and le: "unat cnt \<le> n_rels b" and f: "unat (sentinel b cnt) < 2 ^ 32"
    using assms by (auto simp: shippable_def word_le_nat_alt)
  show "unat cnt \<le> length (sqrt_Q b)" "unat cnt \<le> length (signs b)" "unat cnt \<le> length (val_2_exps b)"
    "unat cnt \<le> length (large_primes b)" "unat cnt + 1 \<le> length (factor_offsets b)"
    using ok le by (auto simp: batch_ok_def offsets_ok_def)
  then have sent: "sentinel b cnt = factor_offsets b ! unat cnt" by (simp add: sentinel_def)
  show "unat (shipped_factors b cnt) < 2 ^ 32" using f by (simp add: shipped_factors_def)
  have "unat (factor_offsets b ! unat cnt) \<le> length (factor_indices b) \<and>
        unat (factor_offsets b ! unat cnt) \<le> length (factor_counts b)" if "0 < unat cnt"
    using offsets_okD [of b "unat cnt - 1"] ok le that by (simp add: batch_ok_def)
  then show "unat (shipped_factors b cnt) \<le> length (factor_indices b)"
    "unat (shipped_factors b cnt) \<le> length (factor_counts b)"
    by (auto simp: shipped_factors_def sent word_pos_unat)
qed

lemma length_char_image [simp]: "length (char_image b n) = n"
  by (simp add: char_image_def)

definition image_size :: "nat \<Rightarrow> nat \<Rightarrow> nat" where
  "image_size n m = (if n = 0 then 8 else 8 + n * 89 + (n + 1) * 8 + m * 5)"

lemma length_batch_image:
  assumes "shippable b cnt"
  shows "length (batch_image b cnt (shipped_factors b cnt))
           = image_size (unat cnt) (unat (shipped_factors b cnt))"
  using shippableD [OF assms]
  by (simp add: batch_image_def image_size_def word_pos_unat min_absorb2 Let_def)

lemma serialize_total:
  assumes "shippable b cnt"
  shows "unat (8 + cnt * (64 + 1 + 4 + 16 + 4) + (cnt + 1) * 8 + shipped_factors b cnt * 4 + shipped_factors b cnt * 1)
    = 8 + unat cnt * 89 + (unat cnt + 1) * 8 + unat (shipped_factors b cnt) * 5"
proof -
  define m where "m = shipped_factors b cnt"
  have n: "unat cnt < 2 ^ 32" and m: "unat m < 2 ^ 32"
    using shippableD(8) [OF assms] assms by (auto simp: shippable_def m_def)
  have e: "8 + cnt * (64 + 1 + 4 + 16 + 4) + (cnt + 1) * 8 + m * 4 + m * 1
      = of_nat (8 + unat cnt * 89 + (unat cnt + 1) * 8 + unat m * 5)"
    by simp
  show ?thesis unfolding m_def [symmetric] e using n m by (simp add: unat_of_nat del: of_nat_add of_nat_mult)
qed

lemma serializeRelationBatch_image:
  assumes "shippable b cnt"
  shows "serializeRelationBatch b cnt
     = Some (batch_image b cnt (shipped_factors b cnt) @ (if cnt = 0 then replicate 8 0 else []),
             image_size (unat cnt) (unat (shipped_factors b cnt)))"
proof -
  define m where "m = shipped_factors b cnt"
  note d = shippableD [OF assms, folded m_def]
  have tot: "unat (8 + cnt * (64 + 1 + 4 + 16 + 4) + (cnt + 1) * 8 + m * 4 + m * 1)
      = 8 + unat cnt * 89 + (unat cnt + 1) * 8 + unat m * 5"
    using serialize_total [OF assms] by (simp only: m_def)
  have nf: "(if 0 < cnt then sentinel b cnt else 0) = m" by (simp add: m_def shipped_factors_def)
  have m0: "cnt = 0 \<Longrightarrow> unat m = 0" by (simp add: m_def shipped_factors_def)
  have chars: "(if unat cnt \<le> length (char_bits b) then write_array 4 (unat cnt) (char_bits b) (wbuf w k)
       else write_array 4 (unat cnt) (replicate (unat cnt) (0 :: u32)) (wbuf w k))
     = Some (wbuf (w @ arr 4 (char_image b (unat cnt))) (k - 4 * unat cnt))" if "4 * unat cnt \<le> k" for w k
    using that by (simp add: char_image_def)
  have facs: "(if 0 < m then do {
         st \<leftarrow> write_array 4 (unat m) (factor_indices b) (wbuf w k);
         write_array 1 (unat m) (factor_counts b) st
       } else Some (wbuf w k))
     = Some (wbuf (w @ arr 4 (take (unat m) (factor_indices b)) @ arr 1 (take (unat m) (factor_counts b))) (k - 5 * unat m))"
    if "5 * unat m \<le> k" for w k
    using that d(6,7) by (auto simp: word_pos_unat)
  show ?thesis
    unfolding serializeRelationBatch_def Let_def nf tot wbuf_init m_def [symmetric]
    using d by (cases "cnt = 0")
      (simp_all add: chars facs word_pos_unat batch_image_def image_size_def min_absorb2 Let_def,
       simp_all add: wbuf_def m0 unat_gt_0)
qed

section \<open>Relation batches: the round trip\<close>

lemma length_grow: "n \<le> length (grow n xs)"
  by (simp add: grow_def)

definition fill :: "batch \<Rightarrow> nat \<Rightarrow> nat \<Rightarrow> batch \<Rightarrow> batch" where
  "fill b n m out =
     out\<lparr>sqrt_Q := take n (sqrt_Q b) @ drop n (sqrt_Q out),
         signs := take n (signs b) @ drop n (signs out),
         val_2_exps := take n (val_2_exps b) @ drop n (val_2_exps out),
         large_primes := take n (large_primes b) @ drop n (large_primes out),
         char_bits := char_image b n @ drop n (char_bits out),
         factor_offsets := take (n + 1) (factor_offsets b) @ drop (n + 1) (factor_offsets out),
         factor_indices := take m (factor_indices b) @ drop m (factor_indices out),
         factor_counts := take m (factor_counts b) @ drop m (factor_counts out)\<rparr>"

lemma shippable_ucast:
  assumes "shippable b cnt"
  shows "unat (ucast cnt :: u32) = unat cnt" "unat (ucast cnt + 1 :: u32) = unat cnt + 1"
    "unat (ucast (shipped_factors b cnt) :: u32) = unat (shipped_factors b cnt)"
    "ucast (ucast cnt :: u32) = cnt" "ucast (ucast (shipped_factors b cnt) :: u32) = shipped_factors b cnt"
proof -
  show n: "unat (ucast cnt :: u32) = unat cnt" and "unat (ucast cnt + 1 :: u32) = unat cnt + 1"
    using assms by (auto simp: shippable_def unsigned_ucast_eq take_bit_eq_mod unat_word_ariths)
  show m: "unat (ucast (shipped_factors b cnt) :: u32) = unat (shipped_factors b cnt)"
    using shippableD(8) [OF assms] by (simp add: unsigned_ucast_eq take_bit_eq_mod)
  show "ucast (ucast cnt :: u32) = cnt"
    using n by (simp add: word_unat_eq_iff del: unat_ucast_32_64) simp
  show "ucast (ucast (shipped_factors b cnt) :: u32) = shipped_factors b cnt"
    using m by (simp add: word_unat_eq_iff del: unat_ucast_32_64) simp
qed

definition body_image :: "batch \<Rightarrow> nat \<Rightarrow> nat \<Rightarrow> bytes" where
  "body_image b n m = arr 64 (take n (sqrt_Q b)) @ arr 1 (take n (signs b)) @
      arr 4 (take n (val_2_exps b)) @ arr 16 (take n (large_primes b)) @
      arr 4 (char_image b n) @ arr 8 (take (n + 1) (factor_offsets b)) @
      arr 4 (take m (factor_indices b)) @ arr 1 (take m (factor_counts b))"

lemma batch_image_split:
  "batch_image b cnt nf = to_le 4 (ucast cnt :: u32) @ to_le 4 (ucast nf :: u32) @
     (if cnt > 0 then body_image b (unat cnt) (unat nf) else [])"
  by (simp add: batch_image_def body_image_def Let_def)

lemma read_batch_arrays_image:
  assumes "shippable b cnt" and "m = unat (shipped_factors b cnt)"
  shows "read_batch_arrays (ucast cnt) (ucast (shipped_factors b cnt)) (rdr pre (body_image b (unat cnt) m @ junk)) out
     = (fill b (unat cnt) m out, rdr (pre @ body_image b (unat cnt) m) junk)"
proof -
  note d = shippableD [OF assms(1), folded assms(2)]
  note u = shippable_ucast [OF assms(1), folded assms(2)]
  show ?thesis
    using d unfolding body_image_def
    by (cases "0 < m") (simp_all add: read_batch_arrays_def u word_pos_unat Let_def min_absorb2 fill_def)
qed

definition received :: "batch \<Rightarrow> u64 \<Rightarrow> batch \<Rightarrow> batch" where
  "received b cnt out =
     (let m = shipped_factors b cnt; o1 = resize cnt m out
      in if cnt = 0 then o1 else fill b (unat cnt) (unat m) o1)"

lemma deserializeRelationBatch_image:
  assumes "shippable b cnt"
  shows "deserializeRelationBatch (batch_image b cnt (shipped_factors b cnt) @ junk) out
     = (cnt, received b cnt out)"
proof -
  note u = shippable_ucast [OF assms]
  show ?thesis
    unfolding batch_image_split
    by (simp add: deserializeRelationBatch_def SafeReader_rdr u word_pos_unat unat_gt_0 received_def
        read_batch_arrays_image [OF assms refl] Let_def)
      (simp add: fill_def resize_def)
qed

lemma offsets_mono:
  assumes "offsets_ok b" and "j \<le> n_rels b" and "i \<le> j"
  shows "unat (factor_offsets b ! i) \<le> unat (factor_offsets b ! j)"
  using assms(3,2)
proof (induction rule: dec_induct)
  case (step k)
  then show ?case using offsets_okD(2) [OF assms(1), of k] by simp
qed simp

lemma rel_at_fill:
  assumes "shippable b cnt" and "i < unat cnt"
  shows "rel_at (fill b (unat cnt) (unat (shipped_factors b cnt)) out) i = rel_at b i"
proof -
  let ?n = "unat cnt" and ?m = "unat (shipped_factors b cnt)"
  let ?f = "fill b ?n ?m out"
  note d = shippableD [OF assms(1)]
  have ok: "offsets_ok b" "?n \<le> n_rels b" using assms(1) by (auto simp: shippable_def batch_ok_def word_le_nat_alt)
  have off: "factor_offsets ?f ! i = factor_offsets b ! i"
      "factor_offsets ?f ! (i + 1) = factor_offsets b ! (i + 1)"
    using assms(2) d(5) by (simp_all add: fill_def nth_append)
  have m: "?m = unat (factor_offsets b ! ?n)"
    using assms(2) d(5) by (simp add: shipped_factors_def sentinel_def word_pos_unat)
  have le: "unat (factor_offsets b ! (i + 1)) \<le> ?m"
    unfolding m using offsets_mono [OF ok] assms(2) by simp
  have sl: "slice s e (take ?m xs @ ys) = slice s e xs" if "e \<le> ?m" "?m \<le> length xs" for s e and xs ys :: "'z list"
    using that by (cases "s \<le> e") (simp_all add: slice_append_left, simp_all add: slice_def take_drop min_absorb1)
  have "row ?f i = row b i"
    unfolding row_def off Let_def using le d(6,7) by (simp add: fill_def sl)
  moreover have "char_bits ?f ! i = (if i < length (char_bits b) then char_bits b ! i else 0)"
    using assms by (auto simp: fill_def char_image_def shippable_def nth_append)
  ultimately show ?thesis
    using assms(2) d(1-4) by (simp add: rel_at_def) (simp add: fill_def nth_append)
qed

lemma received_view:
  assumes "shippable b cnt"
  shows "batch_ok (received b cnt out)" and "rels (received b cnt out) = take (unat cnt) (rels b)"
    and "num_relations (received b cnt out) = cnt"
proof -
  let ?n = "unat cnt" and ?m = "unat (shipped_factors b cnt)"
  note d = shippableD [OF assms]
  have ok: "offsets_ok b" "?n \<le> n_rels b"
    using assms by (auto simp: shippable_def batch_ok_def word_le_nat_alt)
  show num: "num_relations (received b cnt out) = cnt"
    by (simp add: received_def fill_def resize_def Let_def)
  show "rels (received b cnt out) = take ?n (rels b)"
  proof (cases "cnt = 0")
    case True
    then show ?thesis using num by (simp add: rels_def)
  next
    case False
    then have "received b cnt out = fill b ?n ?m (resize cnt (shipped_factors b cnt) out)"
      by (simp add: received_def Let_def)
    then show ?thesis
      using ok(2) num rel_at_fill [OF assms] by (simp add: rels_def take_map)
  qed
  have succ: "unat (cnt + 1) = ?n + 1"
    using assms by (simp add: shippable_def unat_word_ariths)
  show "batch_ok (received b cnt out)"
  proof (cases "cnt = 0")
    case True
    then show ?thesis
      by (simp add: received_def batch_ok_def offsets_ok_def resize_def grow_def Let_def)
  next
    case False
    let ?r = "received b cnt out"
    have r: "?r = fill b ?n ?m (resize cnt (shipped_factors b cnt) out)"
      using False by (simp add: received_def Let_def)
    have m: "?m = unat (factor_offsets b ! ?n)"
      using False d(5) by (simp add: shipped_factors_def sentinel_def word_pos_unat unat_gt_0)
    have off: "factor_offsets ?r ! i = factor_offsets b ! i" if "i \<le> ?n" for i
      using that d(5) by (simp add: r fill_def nth_append)
    have len: "?m \<le> length (factor_indices ?r)" "?m \<le> length (factor_counts ?r)"
        "?n < length (factor_offsets ?r)" "?n \<le> length (sqrt_Q ?r)" "?n \<le> length (signs ?r)"
        "?n \<le> length (val_2_exps ?r)" "?n \<le> length (large_primes ?r)"
      using d by (simp_all add: r fill_def)
    have "offsets_ok ?r"
      unfolding offsets_ok_def num
    proof (intro conjI ballI)
      fix i assume "i \<in> {0..<?n}"
      then have i: "i < ?n" by simp
      have le: "unat (factor_offsets b ! (i + 1)) \<le> ?m"
        unfolding m using offsets_mono [OF ok] i by simp
      show "factor_offsets ?r ! i \<le> factor_offsets ?r ! (i + 1)"
        using i offsets_okD(2) [OF ok(1), of i] ok(2) by (simp add: off word_le_nat_alt)
      show "unat (factor_offsets ?r ! (i + 1)) \<le> length (factor_indices ?r)"
           "unat (factor_offsets ?r ! (i + 1)) \<le> length (factor_counts ?r)"
        using i le len(1,2) by (simp_all add: off)
    qed (rule len(3))
    then show ?thesis using len num by (simp add: batch_ok_def)
  qed
qed

text \<open>
  C14. Shipping the first relations of a batch: serialisation stays inside its buffer and succeeds,
  and deserialising its bytes, whatever follows them and whatever the receiving batch held before,
  reports the same count and gives a well-formed batch with exactly these relations (roots, signs,
  exponents, large primes, character bits and factor lists).
\<close>

theorem relation_batch_roundtrip:
  assumes "shippable b cnt"
  shows "\<exists>buf len. serializeRelationBatch b cnt = Some (buf, len) \<and> len \<le> length buf \<and>
           (\<forall>junk out. \<exists>out'. deserializeRelationBatch (take len buf @ junk) out = (cnt, out') \<and>
              batch_ok out' \<and> rels out' = take (unat cnt) (rels b))"
  using serializeRelationBatch_image [OF assms] deserializeRelationBatch_image [OF assms]
    length_batch_image [OF assms] received_view(1,2) [OF assms]
  by simp

theorem relation_batch_roundtrip_witness:
  "\<exists>buf len. serializeRelationBatch sample_batch 1 = Some (buf, len) \<and> len \<le> length buf \<and>
     (\<forall>junk out. \<exists>out'. deserializeRelationBatch (take len buf @ junk) out = (1, out') \<and>
        batch_ok out' \<and> rels out' = take (unat (1 :: u64)) (rels sample_batch))"
  by (rule relation_batch_roundtrip)
    (use batch_exact_ok [OF sample_batch_exact] in \<open>simp add: shippable_def sample_batch_def sentinel_def word_le_nat_alt\<close>)

section \<open>Relation batches: truncation\<close>

lemma advanced_read_batch_arrays:
  "advanced (unat n * 64 + unat n * 1 + unat n * 4 + unat n * 16 + unat n * 4 + unat (n + 1) * 8
      + (if m > 0 then unat m * 4 + unat m * 1 else 0)) r (snd (read_batch_arrays n m r out))"
  (is "advanced ?k r _")
proof -
  obtain a1 r1 where 1: "read_array 64 (unat n) (sqrt_Q out) r = (a1, r1)" by fastforce
  obtain a2 r2 where 2: "read_array 1 (unat n) (signs out) r1 = (a2, r2)" by fastforce
  obtain a3 r3 where 3: "read_array 4 (unat n) (val_2_exps out) r2 = (a3, r3)" by fastforce
  obtain a4 r4 where 4: "read_array 16 (unat n) (large_primes out) r3 = (a4, r4)" by fastforce
  obtain a5 r5 where 5: "read_array 4 (unat n) (char_bits out) r4 = (a5, r5)" by fastforce
  obtain a6 r6 where 6: "read_array 8 (unat (n + 1)) (factor_offsets out) r5 = (a6, r6)" by fastforce
  obtain a7 r7 where 7: "read_array 4 (unat m) (factor_indices out) r6 = (a7, r7)" by fastforce
  obtain a8 r8 where 8: "read_array 1 (unat m) (factor_counts out) r7 = (a8, r8)" by fastforce
  note adv = advanced_read_array [of "unat n" 64 r "sqrt_Q out", unfolded 1 snd_conv]
    advanced_read_array [of "unat n" 1 r1 "signs out", unfolded 2 snd_conv]
    advanced_read_array [of "unat n" 4 r2 "val_2_exps out", unfolded 3 snd_conv]
    advanced_read_array [of "unat n" 16 r3 "large_primes out", unfolded 4 snd_conv]
    advanced_read_array [of "unat n" 4 r4 "char_bits out", unfolded 5 snd_conv]
    advanced_read_array [of "unat (n + 1)" 8 r5 "factor_offsets out", unfolded 6 snd_conv]
    advanced_read_array [of "unat m" 4 r6 "factor_indices out", unfolded 7 snd_conv]
    advanced_read_array [of "unat m" 1 r7 "factor_counts out", unfolded 8 snd_conv]
  have base: "advanced (unat n * 64 + unat n * 1 + unat n * 4 + unat n * 16 + unat n * 4 + unat (n + 1) * 8) r r6"
    by (intro advanced_trans [OF _ adv(6)] advanced_trans [OF _ adv(5)] advanced_trans [OF _ adv(4)]
        advanced_trans [OF _ adv(3)] advanced_trans [OF _ adv(2)] adv(1))
  have "advanced (unat m * 4 + unat m * 1) r6 r8"
    by (intro advanced_trans [OF _ adv(8)] adv(7))
  then show ?thesis
    using base advanced_trans [OF base] unfolding read_batch_arrays_def
    by (cases "m > 0") (simp_all add: 1 2 3 4 5 6 7 8 Let_def del: One_nat_def)
qed

text \<open>
  Every proper prefix of a serialised batch is recognised as truncated: the reported count is 0.
\<close>

theorem truncated_batch_rejected:
  assumes "shippable b cnt" and "serializeRelationBatch b cnt = Some (buf, len)" and "k < len"
  shows "fst (deserializeRelationBatch (take k buf) out) = 0"
proof (cases "8 \<le> k")
  case False
  then show ?thesis by (simp add: deserializeRelationBatch_def min_less_iff_disj)
next
  case True
  let ?m = "shipped_factors b cnt"
  let ?body = "if cnt > 0 then body_image b (unat cnt) (unat ?m) else []"
  note u = shippable_ucast [OF assms(1)]
  have len: "len = image_size (unat cnt) (unat ?m)" and
      buf: "take k buf = take k (batch_image b cnt ?m)"
    using assms(2,3) serializeRelationBatch_image [OF assms(1)] length_batch_image [OF assms(1)] by auto
  have pos: "0 < unat cnt" using len assms(3) True by (auto simp: image_size_def split: if_splits)
  define rest where "rest = take (k - 8) ?body"
  define bs where "bs = take k buf"
  have bs: "bs = to_le 4 (ucast cnt :: u32) @ to_le 4 (ucast ?m :: u32) @ rest"
    using True by (simp add: bs_def buf batch_image_split rest_def)
  have "length bs = k"
    using assms(3) len length_batch_image [OF assms(1)] by (simp add: bs_def buf)
  define r where "r = rdr (to_le 4 (ucast cnt :: u32) @ to_le 4 (ucast ?m :: u32)) rest"
  define o1 where "o1 = resize (ucast (ucast cnt :: u32)) (ucast (ucast ?m :: u32)) out"
  have "\<not> rd_ok (snd (read_batch_arrays (ucast cnt) (ucast ?m) r o1))"
  proof
    assume "rd_ok (snd (read_batch_arrays (ucast cnt) (ucast ?m) r o1))"
    with advanced_read_batch_arrays [of "ucast cnt" "ucast ?m" r o1] \<open>length bs = k\<close>
    have "image_size (unat cnt) (unat ?m) \<le> k"
      using pos by (auto simp: advanced_def r_def bs u image_size_def word_pos_unat split: if_splits)
    then show False using len assms(3) by simp
  qed
  then obtain o2 r2 where arrays: "read_batch_arrays (ucast cnt) (ucast ?m) r o1 = (o2, r2)" and bad: "\<not> rd_ok r2"
    by (cases "read_batch_arrays (ucast cnt) (ucast ?m) r o1") simp
  then show ?thesis
    using pos True \<open>length bs = k\<close> unfolding bs_def [symmetric]
    by (simp add: deserializeRelationBatch_def bs SafeReader_rdr u word_pos_unat Let_def r_def o1_def)
qed

theorem truncated_batch_rejected_witness:
  "\<exists>buf len. serializeRelationBatch sample_batch 1 = Some (buf, len) \<and> 100 < len \<and>
     fst (deserializeRelationBatch (take 100 buf) empty_batch) = 0"
proof -
  have ship: "shippable sample_batch 1"
    using batch_exact_ok [OF sample_batch_exact]
    by (simp add: shippable_def sample_batch_def sentinel_def word_le_nat_alt)
  obtain buf len where ser: "serializeRelationBatch sample_batch 1 = Some (buf, len)" "100 < len"
    using serializeRelationBatch_image [OF ship] by (simp add: image_size_def)
  then show ?thesis using truncated_batch_rejected [OF ship ser] by blast
qed

section \<open>Incremental batches: the round trip\<close>

lemma serialize_prefix:
  assumes "shippable b cnt"
  shows "\<exists>x. serializeRelationBatch b cnt = Some (batch_image b cnt (shipped_factors b cnt) @ x,
     length (batch_image b cnt (shipped_factors b cnt)))"
  using serializeRelationBatch_image [OF assms] length_batch_image [OF assms] by simp

lemma incremental_batch_received:
  assumes "shippable b cnt" and "shippable p k"
    and "image_size (unat cnt) (unat (shipped_factors b cnt)) < 2 ^ 32"
    and "image_size (unat k) (unat (shipped_factors p k)) < 2 ^ 32"
  shows "\<exists>buf len full' part'. serializeIncrementalBatch b cnt p k = Some (buf, len) \<and> length buf = len \<and>
     deserializeIncrementalBatch buf full_out part_out = (True, full', part') \<and>
     batch_ok full' \<and> rels full' = take (unat cnt) (rels b) \<and>
     batch_ok part' \<and> rels part' = take (unat k) (rels p)"
proof -
  define A where "A = batch_image b cnt (shipped_factors b cnt)"
  define B where "B = batch_image p k (shipped_factors p k)"
  obtain x1 where 1: "serializeRelationBatch b cnt = Some (A @ x1, length A)"
    using serialize_prefix [OF assms(1)] unfolding A_def by blast
  obtain x2 where 2: "serializeRelationBatch p k = Some (B @ x2, length B)"
    using serialize_prefix [OF assms(2)] unfolding B_def by blast
  have len: "unat (of_nat (length A) :: u32) = length A" "unat (of_nat (length B) :: u32) = length B"
    using assms(3,4) length_batch_image [OF assms(1)] length_batch_image [OF assms(2)]
    by (simp_all add: A_def B_def unat_of_nat)
  let ?buf = "to_le 4 (of_nat (length A) :: u32) @ A @ to_le 4 (of_nat (length B) :: u32) @ B"
  have ser: "serializeIncrementalBatch b cnt p k = Some (?buf, length ?buf)"
    unfolding serializeIncrementalBatch_def 1 2 Let_def wbuf_init by simp (simp add: wbuf_def)
  have adv: "rdr (to_le 4 (of_nat (length A) :: u32)) (A @ v)\<lparr>rd_pos := 4 + length A\<rparr>
      = rdr (to_le 4 (of_nat (length A) :: u32) @ A) v" for v
    by (simp add: rdr_def)
  have des: "deserializeIncrementalBatch ?buf full_out part_out
      = (True, received b cnt full_out, received p k part_out)"
    using deserializeRelationBatch_image [OF assms(1), of "[]"] deserializeRelationBatch_image [OF assms(2), of "[]"]
    by (simp add: deserializeIncrementalBatch_def SafeReader_rdr len Let_def slice_def adv
        A_def [symmetric] B_def [symmetric])
  show ?thesis
    using ser des received_view(1,2) [OF assms(1)] received_view(1,2) [OF assms(2)]
    by (intro exI [of _ ?buf] exI [of _ "length ?buf"] exI [of _ "received b cnt full_out"]
        exI [of _ "received p k part_out"]) simp
qed

text \<open>
  The combined message of full relations and partial relations: when both images fit their
  32-bit length prefixes, the receiver accepts it and both batches hold exactly the relations that
  were sent.
\<close>

theorem incremental_batch_roundtrip:
  assumes "shippable b cnt" and "shippable p k"
    and "image_size (unat cnt) (unat (shipped_factors b cnt)) < 2 ^ 32"
    and "image_size (unat k) (unat (shipped_factors p k)) < 2 ^ 32"
  shows "\<exists>buf len full' part'. serializeIncrementalBatch b cnt p k = Some (buf, len) \<and> length buf = len \<and>
     deserializeIncrementalBatch buf full_out part_out = (True, full', part') \<and>
     batch_ok full' \<and> rels full' = take (unat cnt) (rels b) \<and>
     batch_ok part' \<and> rels part' = take (unat k) (rels p)"
  by (rule incremental_batch_received [OF assms])

text \<open>
  The outer message does not look at the result of the inner one: a message whose inner batch is
  cut off is accepted, and the receiving batch claims relations that were never sent.
\<close>

lemma readBytes_end: "0 < n \<Longrightarrow> readBytes n \<lparr>rd_data = pre, rd_pos = length pre, rd_ok = q\<rparr>
    = (None, \<lparr>rd_data = pre, rd_pos = length pre, rd_ok = False\<rparr>)"
  by (simp add: readBytes_def)

lemma headerless_batch:
  "deserializeRelationBatch (to_le 4 (1 :: u32) @ to_le 4 (0 :: u32)) out = (0, resize 1 0 out)"
proof -
  have e: "rdr pre [] = \<lparr>rd_data = pre, rd_pos = length pre, rd_ok = True\<rparr>" for pre
    by (simp add: rdr_def)
  have arr: "read_array k n old \<lparr>rd_data = pre, rd_pos = length pre, rd_ok = q\<rparr>
      = (old, \<lparr>rd_data = pre, rd_pos = length pre, rd_ok = False\<rparr>)" if "0 < n * k"
    for k n pre q and old :: "'z::len word list"
    using that by (simp add: read_array_def readBytes_end)
  have two: "unat (1 + 1 :: u32) = 2" by simp
  have "read_batch_arrays 1 0 (rdr pre []) b = (b, \<lparr>rd_data = pre, rd_pos = length pre, rd_ok = False\<rparr>)" for pre b
    unfolding read_batch_arrays_def Let_def e two by (simp add: arr)
  then have "read_batch_arrays 1 0 (rdr (to_le 4 (1 :: u32) @ to_le 4 (0 :: u32)) []) b
      = (b, \<lparr>rd_data = to_le 4 (1 :: u32) @ to_le 4 (0 :: u32), rd_pos = 8, rd_ok = False\<rparr>)" for b
    by simp
  then show ?thesis
    using read_int_rdr [of 4 0 "[]" "1 :: u32" "to_le 4 (0 :: u32)"]
      read_int_rdr [of 4 0 "to_le 4 (1 :: u32)" "0 :: u32" "[]"]
    by (simp add: deserializeRelationBatch_def SafeReader_rdr Let_def del: to_le.simps)
qed

lemma incremental_accepts_malformed:
  "deserializeIncrementalBatch (to_le 4 (8 :: u32) @ (to_le 4 (1 :: u32) @ to_le 4 (0 :: u32)) @
       to_le 4 (8 :: u32) @ (to_le 4 (1 :: u32) @ to_le 4 (0 :: u32))) out out'
   = (True, resize 1 0 out, resize 1 0 out')"
proof -
  define X where "X = to_le 4 (1 :: u32) @ to_le 4 (0 :: u32)"
  have X: "length X = 8" by (simp add: X_def)
  have adv: "rdr x (u @ v)\<lparr>rd_pos := length x + length u\<rparr> = rdr (x @ u) v" for x u v
    by (simp add: rdr_def)
  have adv4: "rdr (to_le 4 (8 :: u32)) (X @ v)\<lparr>rd_pos := 12\<rparr> = rdr (to_le 4 (8 :: u32) @ X) v" for v
    using adv [of "to_le 4 (8 :: u32)" X v] X by simp
  show ?thesis
    unfolding X_def [symmetric]
    using X headerless_batch [folded X_def]
      read_int_rdr [of 4 0 "[]" "8 :: u32" "X @ to_le 4 (8 :: u32) @ X"]
      read_int_rdr [of 4 0 "to_le 4 (8 :: u32) @ X" "8 :: u32" "X"]
    by (simp add: deserializeIncrementalBatch_def SafeReader_rdr Let_def slice_def adv4 del: to_le.simps)
qed

theorem incremental_batch_roundtrip_witness:
  "\<exists>buf len full' part'. serializeIncrementalBatch sample_batch 1 sample_batch 2 = Some (buf, len) \<and> length buf = len \<and>
     deserializeIncrementalBatch buf empty_batch empty_batch = (True, full', part') \<and>
     batch_ok full' \<and> rels full' = take (unat (1 :: u64)) (rels sample_batch) \<and>
     batch_ok part' \<and> rels part' = take (unat (2 :: u64)) (rels sample_batch)"
  by (rule incremental_batch_roundtrip)
    (use batch_exact_ok [OF sample_batch_exact] in
      \<open>simp_all add: shippable_def sample_batch_def sentinel_def word_le_nat_alt shipped_factors_def image_size_def\<close>)

section \<open>Work assignment: the round trip\<close>

lemma wbuf_image: "fst (wbuf w 0) = w" "snd (wbuf w n) = length w"
  by (simp_all add: wbuf_def)

definition assign_image :: "factoring_data \<Rightarrow> work_params \<Rightarrow> bytes" where
  "assign_image fd w =
     to_le 64 (fd_N fd) @ to_le 4 (of_nat (length (factorBase fd)) :: u32) @ to_le 4 (fd_M fd) @
     to_le 4 (fd_F fd) @ to_le 4 (sieve_batch_size w) @
     to_le 1 (of_nat (length (fd_a_factors fd)) :: u8) @ [0, 0, 0] @
     to_le 8 (threshold_override w) @ to_le 8 (lp1_bound w) @ to_le 8 (poly_range_start w) @
     to_le 8 (poly_range_count w) @ to_le 8 (target_relations w) @ to_le 8 (computeFactorBaseHash fd)"

definition snapshot_image :: "a_factors_snapshot \<Rightarrow> bytes" where
  "snapshot_image s =
     to_le 4 (snap_shc_dim s) @ arr 4 (take (unat (snap_shc_dim s)) (snap_a_factors s)) @
     to_le 4 (snap_lowerHalfStart s) @ to_le 4 (snap_upperHalfStart s)"

lemma length_assign_image: "length (assign_image fd w) = 132"
  by (simp add: assign_image_def del: to_le.simps)

definition work_image :: "factoring_data \<Rightarrow> work_params \<Rightarrow> a_factors_snapshot option \<Rightarrow> bytes" where
  "work_image fd w snap = assign_image fd w @ (case snap of None \<Rightarrow> [] | Some s \<Rightarrow> snapshot_image s)"

lemma serializeWorkAssign_image:
  assumes "\<And>s. snap = Some s \<Longrightarrow> unat (snap_shc_dim s) \<le> length (snap_a_factors s)"
  shows "serializeWorkAssign fd w snap = Some (work_image fd w snap, length (work_image fd w snap))"
proof (cases snap)
  case None
  then show ?thesis
    unfolding serializeWorkAssign_def Let_def wbuf_init work_image_def assign_image_def
    by (simp del: to_le.simps) (simp add: wbuf_def del: to_le.simps)
next
  case (Some s)
  have dim: "(if 0 < snap_shc_dim s then write_array 4 (unat (snap_shc_dim s)) (snap_a_factors s) (wbuf x n)
        else Some (wbuf x n)) = Some (wbuf (x @ arr 4 (take (unat (snap_shc_dim s)) (snap_a_factors s)))
               (n - 4 * unat (snap_shc_dim s)))" if "4 * unat (snap_shc_dim s) \<le> n" for x n
    using that assms(1) [OF Some] by (auto simp: word_pos_unat)
  show ?thesis
    unfolding serializeWorkAssign_def Let_def wbuf_init work_image_def assign_image_def snapshot_image_def Some
    by (simp add: dim del: to_le.simps) (simp add: wbuf_def assms(1) [OF Some] min_absorb2 del: to_le.simps)
qed

lemma readBytes_rdr_last: "length x = n \<Longrightarrow> readBytes n (rdr pre x) = (Some x, rdr (pre @ x) [])"
  using readBytes_rdr [of x n pre "[]"] by simp

lemma read_snapshot_image:
  assumes "unat (snap_shc_dim s) = length (snap_a_factors s)"
    and "snap_shc_dim s = 0 \<longrightarrow> snap_a_factors old = []"
  shows "read_snapshot (rdr pre (snapshot_image s)) old = s"
proof (cases "snap_shc_dim s = 0")
  case True
  then show ?thesis
    using assms by (simp add: read_snapshot_def snapshot_image_def readBytes_rdr readBytes_rdr_last of_le_to_le Let_def del: to_le.simps)
next
  case False
  have a: "un_arr 4 (length (snap_a_factors s)) (arr 4 (snap_a_factors s)) = snap_a_factors s"
    using un_arr_arr [of 4 "snap_a_factors s" "[]"] by simp
  have len: "length (arr 4 (snap_a_factors s)) = length (snap_a_factors s) * 4" by simp
  have "unat (snap_shc_dim s) \<noteq> 0" using False by (simp add: unat_eq_zero)
  then have "snap_a_factors s \<noteq> []" using assms(1) by auto
  then show ?thesis
    using False assms(1) unfolding read_snapshot_def snapshot_image_def
    by (simp add: readBytes_rdr readBytes_rdr_last readBytes_rdr [OF len] of_le_to_le a Let_def unat_gt_0 word_pos_unat del: to_le.simps length_arr)
qed

lemma deserializeWorkAssign_image:
  "deserializeWorkAssign (assign_image fd w @ rest) out =
     (True, out\<lparr>ao_fd := (ao_fd out)\<lparr>fd_N := fd_N fd, fd_M := fd_M fd, fd_F := fd_F fd,
                          fd_size := of_nat (length (factorBase fd))\<rparr>,
                ao_params := w, ao_fb_hash := computeFactorBaseHash fd,
                ao_snapshot := map_option (read_snapshot (rdr (assign_image fd w) rest)) (ao_snapshot out)\<rparr>)"
proof -
  have pad: "rdr x ([0, 0, 0] @ v)\<lparr>rd_pos := rd_pos (rdr x ([0, 0, 0] @ v)) + 3\<rparr> = rdr (x @ [0, 0, 0]) v" for x v
    by (simp add: rdr_def)
  have len: "\<not> length (assign_image fd w @ rest) < 132" by (simp add: length_assign_image)
  show ?thesis
    unfolding deserializeWorkAssign_def if_not_P [OF len] SafeReader_rdr assign_image_def append_assoc Let_def
    by (simp add: pad del: to_le.simps append_Cons append_Nil rdr_sel(2)) (simp del: to_le.simps)
qed

text \<open>
  A work assignment arrives intact: the worker reads back N, M, F, the factor-base size, all
  sieve parameters and the coordinator's factor-base fingerprint, and the snapshot of the a-factors
  when one was sent; without one, or when the worker asked for none, its snapshot stays as it was.
\<close>

theorem work_assign_roundtrip:
  assumes "\<forall>s. snap = Some s \<longrightarrow> unat (snap_shc_dim s) = length (snap_a_factors s) \<and> snap_shc_dim s \<noteq> 0"
  shows "\<exists>buf len out'. serializeWorkAssign fd w snap = Some (buf, len) \<and> len = length buf \<and>
           deserializeWorkAssign buf out = (True, out') \<and> ao_params out' = w \<and>
           ao_fd out' = (ao_fd out)\<lparr>fd_N := fd_N fd, fd_M := fd_M fd, fd_F := fd_F fd,
                                    fd_size := of_nat (length (factorBase fd))\<rparr> \<and>
           ao_fb_hash out' = computeFactorBaseHash fd \<and>
           ao_snapshot out' = (if ao_snapshot out = None \<or> snap = None then ao_snapshot out else snap)"
proof -
  have ser: "serializeWorkAssign fd w snap = Some (work_image fd w snap, length (work_image fd w snap))"
    using assms by (intro serializeWorkAssign_image) auto
  have none: "map_option (read_snapshot (rdr pre [])) old = old" for pre old
    by (cases old) (simp_all add: read_snapshot_def)
  show ?thesis
  proof (cases snap)
    case None
    then show ?thesis
      using ser deserializeWorkAssign_image [of fd w "[]" out] by (simp add: work_image_def none)
  next
    case (Some s)
    then have snap: "read_snapshot (rdr pre (snapshot_image s)) old = s" for pre old
      using assms read_snapshot_image by simp
    show ?thesis
      using Some ser deserializeWorkAssign_image [of fd w "snapshot_image s" out]
      by (cases "ao_snapshot out") (simp_all add: work_image_def snap)
  qed
qed

definition sample_fd :: factoring_data where
  "sample_fd = \<lparr>fd_N = 8051, fd_a_target = 0, fd_a = 0, fd_B_values = [], factorBase = [2, 5, 7],
     rootN = [1, 1, 1], fd_a_factors = [1, 2], fd_current_a_index = 0, fd_max_a_index = 0,
     fd_lowerHalfStart = 0, fd_upperHalfStart = 0, fd_M = 64, fd_F = 8, fd_size = 3\<rparr>"

definition sample_params :: work_params where
  "sample_params = \<lparr>sieve_batch_size = 4, threshold_override = 0, lp1_bound = 100,
     poly_range_start = 0, poly_range_count = 16, target_relations = 10\<rparr>"

theorem work_assign_roundtrip_witness:
  "\<exists>buf len out'. serializeWorkAssign sample_fd sample_params
       (Some \<lparr>snap_a_factors = [1, 2], snap_lowerHalfStart = 0, snap_upperHalfStart = 2, snap_shc_dim = 2\<rparr>)
       = Some (buf, len) \<and> len = length buf \<and>
     deserializeWorkAssign buf \<lparr>ao_fd = sample_fd, ao_params = sample_params, ao_fb_hash = 0, ao_snapshot = None\<rparr>
       = (True, out') \<and> ao_params out' = sample_params"
  using work_assign_roundtrip [of "Some \<lparr>snap_a_factors = [1, 2], snap_lowerHalfStart = 0,
      snap_upperHalfStart = 2, snap_shc_dim = 2\<rparr>" sample_fd sample_params
      "\<lparr>ao_fd = sample_fd, ao_params = sample_params, ao_fb_hash = 0, ao_snapshot = None\<rparr>"]
  by fastforce

end
