(* ===== verification/Batch_Merge.thy ===== *)
theory Batch_Merge
  imports Serialization
begin

text \<open>
  The merge of several relation batches into one, \<^verbatim>\<open>mergeRelationBatches\<close> of
  \<^verbatim>\<open>src/src/cluster/serialization.cpp\<close>. The output arrays are allocated at their final size and
  filled at two cursors; a copy that would leave an array is the value \<open>None\<close>. The merge is shown
  to append the relations of the inputs one after the other.
\<close>

section \<open>Merging batches\<close>

definition blit :: "'a list \<Rightarrow> nat \<Rightarrow> 'a list \<Rightarrow> nat \<Rightarrow> 'a list option" where
  "blit dst k src n =
     (if k + n \<le> length dst \<and> n \<le> length src
      then Some (take k dst @ take n src @ drop (k + n) dst) else None)"

definition merge_totals :: "(batch \<times> u64) list \<Rightarrow> u64 \<times> u64" where
  "merge_totals bs =
     fold (\<lambda>(b, n) (r, f). if n = 0 then (r, f) else (r + n, f + sentinel b n)) bs (0, 0)"

definition merge_offsets :: "u64 \<Rightarrow> u64 \<Rightarrow> u64 list \<Rightarrow> u64 \<Rightarrow> u64 list \<Rightarrow> u64 list option" where
  "merge_offsets rel_cursor fac_cursor src n dst =
     (if rel_cursor = 0 then blit dst 0 src (unat n + 1)
      else ofold (\<lambda>j d. do {
             x \<leftarrow> vec_at src j;
             _ \<leftarrow> vec_at d (unat rel_cursor + j);
             Some (d[unat rel_cursor + j := x + fac_cursor])
           }) [1..<unat n + 1] dst)"

definition merge_one :: "batch \<times> u64 \<Rightarrow> batch \<times> u64 \<times> u64 \<Rightarrow> (batch \<times> u64 \<times> u64) option" where
  "merge_one bn st =
     (case (bn, st) of ((b, n), (out, rel_cursor, fac_cursor)) \<Rightarrow>
        if n = 0 then Some (out, rel_cursor, fac_cursor)
        else do {
          let nfac = sentinel b n;
          let rc = unat rel_cursor; let fc = unat fac_cursor;
          q \<leftarrow> blit (sqrt_Q out) rc (sqrt_Q b) (unat n);
          sg \<leftarrow> blit (signs out) rc (signs b) (unat n);
          v2 \<leftarrow> blit (val_2_exps out) rc (val_2_exps b) (unat n);
          lp \<leftarrow> blit (large_primes out) rc (large_primes b) (unat n);
          cb \<leftarrow> (if length (char_bits b) \<ge> unat n
                 then blit (char_bits out) rc (char_bits b) (unat n) else Some (char_bits out));
          ix \<leftarrow> (if nfac > 0 then blit (factor_indices out) fc (factor_indices b) (unat nfac)
                 else Some (factor_indices out));
          ct \<leftarrow> (if nfac > 0 then blit (factor_counts out) fc (factor_counts b) (unat nfac)
                 else Some (factor_counts out));
          fo \<leftarrow> merge_offsets rel_cursor fac_cursor (factor_offsets b) n (factor_offsets out);
          Some (out\<lparr>sqrt_Q := q, signs := sg, val_2_exps := v2, large_primes := lp, char_bits := cb,
                    factor_indices := ix, factor_counts := ct, factor_offsets := fo\<rparr>,
                rel_cursor + n, fac_cursor + nfac)
        })"

definition mergeRelationBatches :: "(batch \<times> u64) list \<Rightarrow> batch option" where
  "mergeRelationBatches bs =
     (case merge_totals bs of (total_rels, total_factors) \<Rightarrow>
        if total_rels = 0 then Some empty_batch
        else do {
          (out, _, _) \<leftarrow> ofold merge_one bs (resize total_rels total_factors empty_batch, 0, 0);
          _ \<leftarrow> vec_at (factor_offsets out) (unat total_rels);
          Some (out\<lparr>factor_offsets := (factor_offsets out)[unat total_rels := total_factors],
                    num_relations := total_rels, num_factors := total_factors\<rparr>)
        })"

section \<open>Appending a prefix of another batch\<close>

definition mergeable :: "batch \<times> u64 \<Rightarrow> bool" where
  "mergeable bn = (case bn of (b, n) \<Rightarrow> batch_ok b \<and> n \<le> num_relations b \<and> factor_offsets b ! 0 = 0 \<and>
     (char_bits b = [] \<or> unat n \<le> length (char_bits b)))"

definition push_all :: "relation list \<Rightarrow> batch \<Rightarrow> batch" where
  "push_all rs E = fold (\<lambda>r b. push_relation b r) rs E"

lemma push_all_snoc: "push_all (rs @ [r]) E = push_relation (push_all rs E) r"
  by (simp add: push_all_def)

lemma push_all_append: "push_all (rs @ ss) E = push_all ss (push_all rs E)"
  by (simp add: push_all_def)

lemma push_all_exact:
  "batch_exact E \<Longrightarrow> has_room E rs \<Longrightarrow> batch_exact (push_all rs E) \<and> rels (push_all rs E) = rels E @ rs"
proof (induction rs arbitrary: E)
  case Nil
  then show ?case by (simp add: push_all_def)
next
  case (Cons r rs)
  have "push_all (r # rs) E = push_all rs (push_relation E r)" by (simp add: push_all_def)
  then show ?case
    using Cons.IH [of "push_relation E r"] push_relation_exact [OF Cons.prems] has_room_push [OF Cons.prems(2)]
    by simp
qed

lemma take_slice: "s \<le> e \<Longrightarrow> take s xs @ slice s e xs = take e xs"
  using slice_append [of 0 s e xs] by (simp add: slice_def)

definition appended :: "batch \<Rightarrow> nat \<Rightarrow> batch \<Rightarrow> batch" where
  "appended b n E =
     (let m = factor_offsets b ! n in
      E\<lparr>sqrt_Q := sqrt_Q E @ take n (sqrt_Q b), signs := signs E @ take n (signs b),
        val_2_exps := val_2_exps E @ take n (val_2_exps b),
        large_primes := large_primes E @ take n (large_primes b),
        char_bits := char_bits E @ char_image b n,
        factor_indices := factor_indices E @ take (unat m) (factor_indices b),
        factor_counts := factor_counts E @ take (unat m) (factor_counts b),
        num_factors := num_factors E + m,
        factor_offsets := factor_offsets E @ map (\<lambda>i. num_factors E + factor_offsets b ! (i + 1)) [0..<n],
        num_relations := num_relations E + of_nat n\<rparr>)"

lemma push_all_take:
  assumes "batch_ok b" and "k \<le> n_rels b" and "factor_offsets b ! 0 = 0"
    and "char_bits b = [] \<or> k \<le> length (char_bits b)" and "n \<le> k"
  shows "push_all (take n (rels b)) E = appended b n E"
  using assms(5)
proof (induction n)
  case 0
  then show ?case using assms(3) by (simp add: push_all_def appended_def char_image_def)
next
  case (Suc n)
  have n: "n < n_rels b" using Suc.prems assms(2) by simp
  have off: "offsets_ok b" using assms(1) by (simp add: batch_ok_def)
  note o = offsets_okD [OF off n]
  have len: "n < length (sqrt_Q b)" "n < length (signs b)" "n < length (val_2_exps b)" "n < length (large_primes b)"
    using n assms(1) by (auto simp: batch_ok_def)
  have fs: "map fst (row b n) = slice (unat (factor_offsets b ! n)) (unat (factor_offsets b ! (n + 1))) (factor_indices b)"
    "map snd (row b n) = slice (unat (factor_offsets b ! n)) (unat (factor_offsets b ! (n + 1))) (factor_counts b)"
    using o by (simp_all add: row_def Let_def length_slice)
  have lr: "of_nat (length (row b n)) = factor_offsets b ! (n + 1) - factor_offsets b ! n"
    by (simp add: length_row [OF off n])
  have ch: "char_image b (Suc n) = char_image b n @ [if n < length (char_bits b) then char_bits b ! n else 0]"
    using Suc.prems assms(4) by (auto simp: char_image_def take_Suc_conv_app_nth replicate_append_same)
  have "take (Suc n) (rels b) = take n (rels b) @ [rel_at b n]"
    using n by (simp add: take_Suc_conv_app_nth)
  then have "push_all (take (Suc n) (rels b)) E = push_relation (appended b n E) (rel_at b n)"
    using Suc by (simp add: push_all_snoc)
  also have "\<dots> = appended b (Suc n) E"
    using len o(2) unfolding push_relation_def appended_def rel_at_def Let_def
    by (simp add: take_Suc_conv_app_nth ch fs lr take_slice del: upt_Suc add: upt_Suc_append)
  finally show ?case .
qed

section \<open>One input of the merge\<close>

text \<open>The output while the merge runs: what has been appended so far, padded to the final sizes.\<close>

definition padded :: "u64 \<Rightarrow> u64 \<Rightarrow> batch \<Rightarrow> batch" where
  "padded tr tf E =
     (let k = unat tr - n_rels E; m = unat tf - unat (num_factors E) in
      E\<lparr>sqrt_Q := sqrt_Q E @ replicate k 0, signs := signs E @ replicate k 0,
        val_2_exps := val_2_exps E @ replicate k 0, large_primes := large_primes E @ replicate k 0,
        char_bits := char_bits E @ replicate k 0, factor_offsets := factor_offsets E @ replicate k 0,
        factor_indices := factor_indices E @ replicate m 0,
        factor_counts := factor_counts E @ replicate m 0,
        num_relations := tr, num_factors := tf\<rparr>)"

lemma blit_padded:
  "length E = k \<Longrightarrow> n \<le> length src \<Longrightarrow> n \<le> m \<Longrightarrow>
     blit (E @ replicate m 0) k src n = Some (E @ take n src @ replicate (m - n) 0)"
  by (simp add: blit_def)

lemma shift_offsets:
  assumes "length E = rc + 1" and "n \<le> m" and "n < length src"
  shows "ofold (\<lambda>j d. do {
             x \<leftarrow> vec_at src j;
             _ \<leftarrow> vec_at d (rc + j);
             Some (d[rc + j := x + fc])
           }) [1..<n + 1] (E @ replicate m 0)
     = Some (E @ map (\<lambda>i. (fc :: u64) + src ! (i + 1)) [0..<n] @ replicate (m - n) 0)"
  using assms(2,3)
proof (induction n)
  case 0
  then show ?case by simp
next
  case (Suc n)
  let ?D = "E @ map (\<lambda>i. fc + src ! (i + 1)) [0..<n] @ replicate (m - n) 0"
  have m: "m - n = Suc (m - Suc n)" using Suc.prems by simp
  have upd: "?D[rc + Suc n := src ! Suc n + fc]
      = E @ map (\<lambda>i. fc + src ! (i + 1)) [0..<Suc n] @ replicate (m - Suc n) 0"
    using assms(1) by (simp add: list_update_append m add.commute)
  have "[1..<Suc n + 1] = [1..<n + 1] @ [Suc n]" by simp
  then show ?case
    using Suc.IH Suc.prems assms(1) upd by (simp only: ofold_append) (simp add: vec_at_def)
qed

lemma merge_offsets_padded:
  assumes "batch_exact E" and "n_rels E = 0 \<longrightarrow> factor_offsets E = [0]"
    and "unat n \<le> k" and "unat n < length src" and "src ! 0 = 0"
  shows "merge_offsets (num_relations E) (num_factors E) src n (factor_offsets E @ replicate k 0)
     = Some (factor_offsets E @ map (\<lambda>i. num_factors E + src ! (i + 1)) [0..<unat n] @ replicate (k - unat n) 0)"
proof (cases "num_relations E = 0")
  case True
  then have E: "factor_offsets E = [0]" "num_factors E = 0"
    using assms(1,2) by (auto simp: batch_exact_def)
  have "take (unat n + 1) src = 0 # map (\<lambda>i. src ! (i + 1)) [0..<unat n]"
  proof (rule nth_equalityI)
    fix i assume "i < length (take (unat n + 1) src)"
    then show "take (unat n + 1) src ! i = (0 # map (\<lambda>i. src ! (i + 1)) [0..<unat n]) ! i"
      using assms(5) by (cases i) auto
  qed (use assms(4) in simp)
  then show ?thesis
    using True E assms(3,4) by (simp add: merge_offsets_def blit_def)
next
  case False
  have "length (factor_offsets E) = n_rels E + 1" using assms(1) by (simp add: batch_exact_def)
  then show ?thesis
    using False shift_offsets [OF _ assms(3,4), of "factor_offsets E" "n_rels E" "num_factors E"]
    by (simp add: merge_offsets_def)
qed

lemma merge_one_appends:
  assumes E: "batch_exact E" and b: "mergeable (b, n)"
    and "n_rels E + unat n \<le> unat tr" and "unat (num_factors E) + unat (sentinel b n) \<le> unat tf"
    and "n_rels E = 0 \<longrightarrow> factor_offsets E = [0]"
  shows "merge_one (b, n) (padded tr tf E, num_relations E, num_factors E)
     = Some (padded tr tf (appended b (unat n) E), num_relations E + n, num_factors E + sentinel b n)"
proof (cases "n = 0")
  case True
  have "sentinel b 0 = 0" using b by (simp add: mergeable_def sentinel_def batch_ok_def offsets_ok_def)
  moreover have "appended b 0 E = E"
    using b by (simp add: appended_def mergeable_def char_image_def)
  ultimately show ?thesis using True by (simp add: merge_one_def)
next
  case False
  have ok: "batch_ok b" and le: "unat n \<le> n_rels b" and z: "factor_offsets b ! 0 = 0"
      and ch: "char_bits b = [] \<or> unat n \<le> length (char_bits b)"
    using b by (auto simp: mergeable_def word_le_nat_alt)
  have off: "offsets_ok b" using ok by (simp add: batch_ok_def)
  have len: "unat n \<le> length (sqrt_Q b)" "unat n \<le> length (signs b)" "unat n \<le> length (val_2_exps b)"
      "unat n \<le> length (large_primes b)" "unat n < length (factor_offsets b)"
    using ok le by (auto simp: batch_ok_def offsets_ok_def)
  have m: "sentinel b n = factor_offsets b ! unat n" using len(5) by (simp add: sentinel_def)
  have pos: "0 < unat n" using False by (simp add: unat_gt_0)
  then have mlen: "unat (sentinel b n) \<le> length (factor_indices b)" "unat (sentinel b n) \<le> length (factor_counts b)"
    using offsets_okD(3,4) [OF off, of "unat n - 1"] le by (simp_all add: m)
  let ?k = "unat tr - n_rels E" and ?m = "unat tf - unat (num_factors E)" and ?n = "unat n"
  let ?s = "unat (sentinel b n)"
  have room: "?n \<le> ?k" "?s \<le> ?m" using assms(3,4) by simp_all
  have El: "length (sqrt_Q E) = n_rels E" "length (signs E) = n_rels E" "length (val_2_exps E) = n_rels E"
      "length (large_primes E) = n_rels E" "length (char_bits E) = n_rels E"
      "length (factor_offsets E) = n_rels E + 1" "length (factor_indices E) = unat (num_factors E)"
      "length (factor_counts E) = unat (num_factors E)"
    using E by (auto simp: batch_exact_def)
  have chars: "(if ?n \<le> length (char_bits b) then blit (char_bits E @ replicate ?k 0) (n_rels E) (char_bits b) ?n
      else Some (char_bits E @ replicate ?k 0)) = Some (char_bits E @ char_image b ?n @ replicate (?k - ?n) 0)"
    using room(1) El(5) by (auto simp: blit_padded char_image_def replicate_add [symmetric])
  have facs: "(if 0 < sentinel b n then blit (xs @ replicate ?m 0) (unat (num_factors E)) ys ?s
      else Some (xs @ replicate ?m 0)) = Some (xs @ take ?s ys @ replicate (?m - ?s) 0)"
    if "length xs = unat (num_factors E)" "?s \<le> length ys" for xs ys :: "'z::zero list"
    using that room(2) by (auto simp: blit_padded word_pos_unat)
  have offs: "merge_offsets (num_relations E) (num_factors E) (factor_offsets b) n (factor_offsets E @ replicate ?k 0)
     = Some (factor_offsets E @ map (\<lambda>i. num_factors E + factor_offsets b ! (i + 1)) [0..<?n] @ replicate (?k - ?n) 0)"
    using merge_offsets_padded [OF E assms(5) room(1) len(5) z] by simp
  have n': "unat (num_relations E + n) = n_rels E + ?n" "unat (num_factors E + sentinel b n) = unat (num_factors E) + ?s"
    using assms(3,4) unat_lt64 [of tr] unat_lt64 [of tf] by (auto intro!: unat_add_exact simp del: unat_lt64)
  show ?thesis
    unfolding merge_one_def padded_def Let_def
    by (simp add: False blit_padded [OF El(1) len(1) room(1)] blit_padded [OF El(2) len(2) room(1)]
        blit_padded [OF El(3) len(3) room(1)] blit_padded [OF El(4) len(4) room(1)] chars
        facs [OF El(7) mlen(1)] facs [OF El(8) mlen(2)] offs cong: if_cong)
      (rule batch.equality, simp_all add: appended_def m [symmetric] n' diff_diff_add Let_def)
qed

section \<open>The whole merge\<close>

lemma appended_counters:
  assumes "mergeable (b, n)" and "n_rels E + unat n < 2 ^ 64" and "unat (num_factors E) + unat (sentinel b n) < 2 ^ 64"
  shows "num_relations (appended b (unat n) E) = num_relations E + n"
    and "num_factors (appended b (unat n) E) = num_factors E + sentinel b n"
    and "n_rels (appended b (unat n) E) = n_rels E + unat n"
    and "unat (num_factors (appended b (unat n) E)) = unat (num_factors E) + unat (sentinel b n)"
proof -
  have "unat n < length (factor_offsets b)"
    using assms(1) by (auto simp: mergeable_def batch_ok_def offsets_ok_def word_le_nat_alt)
  then show c: "num_relations (appended b (unat n) E) = num_relations E + n"
      "num_factors (appended b (unat n) E) = num_factors E + sentinel b n"
    by (simp_all add: appended_def sentinel_def Let_def)
  show "n_rels (appended b (unat n) E) = n_rels E + unat n"
      "unat (num_factors (appended b (unat n) E)) = unat (num_factors E) + unat (sentinel b n)"
    using assms(2,3) by (auto simp: c intro!: unat_add_exact)
qed

lemma sum_row_lengths:
  assumes "offsets_ok b" and "n \<le> n_rels b"
  shows "(\<Sum>r\<leftarrow>take n (rels b). length (r_factors r))
           = unat (factor_offsets b ! n) - unat (factor_offsets b ! 0)"
  using assms(2)
proof (induction n)
  case (Suc n)
  have n: "n < n_rels b" using Suc.prems by simp
  have "length (r_factors (rel_at b n)) = unat (factor_offsets b ! Suc n) - unat (factor_offsets b ! n)"
    using length_row [OF assms(1) n] offsets_okD(2) [OF assms(1) n]
    by (simp add: rel_at_def unat_sub word_le_nat_alt)
  then show ?case
    using Suc n offsets_mono [OF assms(1) less_imp_le [OF n], of 0] offsets_okD(2) [OF assms(1) n]
    by (simp add: take_Suc_conv_app_nth)
qed simp

lemma appended_exact:
  assumes "batch_exact E" and "mergeable (b, n)" and "n_rels E + unat n < 2 ^ 64"
    and "unat (num_factors E) + unat (sentinel b n) < 2 ^ 64"
  shows "batch_exact (appended b (unat n) E)" and "rels (appended b (unat n) E) = rels E @ take (unat n) (rels b)"
proof -
  have ok: "batch_ok b" "unat n \<le> n_rels b" "factor_offsets b ! 0 = 0" "char_bits b = [] \<or> unat n \<le> length (char_bits b)"
    using assms(2) by (auto simp: mergeable_def word_le_nat_alt)
  have off: "offsets_ok b" using ok(1) by (simp add: batch_ok_def)
  have "unat n < length (factor_offsets b)" using off ok(2) by (simp add: offsets_ok_def)
  then have "has_room E (take (unat n) (rels b))"
    using assms(3,4) ok(2,3) sum_row_lengths [OF off ok(2)] by (simp add: has_room_def sentinel_def)
  from push_all_exact [OF assms(1) this] push_all_take [OF ok order_refl, of E]
  show "batch_exact (appended b (unat n) E)" and "rels (appended b (unat n) E) = rels E @ take (unat n) (rels b)"
    by simp_all
qed

definition rel_sum :: "(batch \<times> u64) list \<Rightarrow> nat" where
  "rel_sum bs = (\<Sum>(b, n)\<leftarrow>bs. unat n)"

definition fac_sum :: "(batch \<times> u64) list \<Rightarrow> nat" where
  "fac_sum bs = (\<Sum>(b, n)\<leftarrow>bs. unat (sentinel b n))"

lemma sum_Cons [simp]:
  "rel_sum ((b, n) # bs) = unat n + rel_sum bs" "fac_sum ((b, n) # bs) = unat (sentinel b n) + fac_sum bs"
  "rel_sum [] = 0" "fac_sum [] = 0"
  by (simp_all add: rel_sum_def fac_sum_def)

lemma merge_loop:
  assumes "\<forall>bn \<in> set bs. mergeable bn" and "batch_exact E"
    and "n_rels E = 0 \<longrightarrow> factor_offsets E = [0]"
    and "n_rels E + rel_sum bs = unat tr" and "unat (num_factors E) + fac_sum bs = unat tf"
  shows "\<exists>E'. ofold merge_one bs (padded tr tf E, num_relations E, num_factors E)
            = Some (padded tr tf E', num_relations E', num_factors E') \<and> batch_exact E' \<and>
          rels E' = rels E @ concat (map (\<lambda>(b, n). take (unat n) (rels b)) bs) \<and>
          n_rels E' = unat tr \<and> unat (num_factors E') = unat tf"
  using assms
proof (induction bs arbitrary: E)
  case Nil
  then show ?case by auto
next
  case (Cons bn bs)
  obtain b n where bn: "bn = (b, n)" by (cases bn)
  have b: "mergeable (b, n)" using Cons.prems(1) bn by simp
  have s: "n_rels E + unat n + rel_sum bs = unat tr" "unat (num_factors E) + unat (sentinel b n) + fac_sum bs = unat tf"
    using Cons.prems(4,5) bn by simp_all
  have "n_rels E + unat n \<le> unat tr" "unat (num_factors E) + unat (sentinel b n) \<le> unat tf"
    using s by simp_all
  then have lt: "n_rels E + unat n < 2 ^ 64" "unat (num_factors E) + unat (sentinel b n) < 2 ^ 64"
    using unsigned_less [of tr] unsigned_less [of tf] by (simp_all add: order_le_less_trans)
  let ?E = "appended b (unat n) E"
  note cnt = appended_counters [OF b lt]
  have step: "merge_one bn (padded tr tf E, num_relations E, num_factors E)
      = Some (padded tr tf ?E, num_relations ?E, num_factors ?E)"
    using merge_one_appends [OF Cons.prems(2) b _ _ Cons.prems(3)] s by (simp add: bn cnt(1,2))
  have first: "n_rels ?E = 0 \<longrightarrow> factor_offsets ?E = [0]"
  proof
    assume "n_rels ?E = 0"
    then have "n_rels E = 0" "unat n = 0" using cnt(3) by simp_all
    then show "factor_offsets ?E = [0]" using Cons.prems(3) by (simp add: appended_def Let_def)
  qed
  note ex = appended_exact [OF Cons.prems(2) b lt]
  from Cons.IH [OF _ ex(1) first] Cons.prems(1) s cnt(3,4) obtain E' where
      "ofold merge_one bs (padded tr tf ?E, num_relations ?E, num_factors ?E)
         = Some (padded tr tf E', num_relations E', num_factors E')" "batch_exact E'"
      "rels E' = rels ?E @ concat (map (\<lambda>(b, n). take (unat n) (rels b)) bs)"
      "n_rels E' = unat tr" "unat (num_factors E') = unat tf"
    by auto
  then show ?case by (intro exI [of _ E']) (simp add: step [unfolded bn] ex(2) bn)
qed

lemma merge_totals_sums:
  assumes "\<forall>bn \<in> set bs. mergeable bn"
  shows "merge_totals bs = (of_nat (rel_sum bs), of_nat (fac_sum bs))"
proof -
  have z: "n = 0 \<Longrightarrow> sentinel b n = 0" if "mergeable (b, n)" for b n
    using that by (simp add: mergeable_def sentinel_def)
  have "fold (\<lambda>(b, n) (r, f). if n = 0 then (r, f) else (r + n, f + sentinel b n)) bs (r, f)
      = (r + of_nat (rel_sum bs), f + of_nat (fac_sum bs))" for r f
    using assms
  proof (induction bs arbitrary: r f)
    case (Cons bn bs)
    then show ?case using z by (cases bn) (auto simp: add.assoc)
  qed simp
  then show ?thesis by (simp add: merge_totals_def)
qed

lemma padded_full:
  assumes "batch_exact E" and "n_rels E = unat tr" and "unat (num_factors E) = unat tf"
  shows "padded tr tf E = E"
proof -
  have "num_relations E = tr" "num_factors E = tf" using assms(2,3) by (simp_all add: word_unat_eq_iff)
  then show ?thesis by (intro batch.equality) (simp_all add: padded_def)
qed

lemma merged_batches:
  assumes "\<forall>bn \<in> set bs. mergeable bn" and "rel_sum bs < 2 ^ 64 - 1" and "fac_sum bs < 2 ^ 64"
  shows "\<exists>out. mergeRelationBatches bs = Some out \<and>
           rels out = concat (map (\<lambda>(b, n). take (unat n) (rels b)) bs) \<and>
           (rel_sum bs \<noteq> 0 \<longrightarrow> batch_exact out)"
proof -
  define tr tf where "tr = (of_nat (rel_sum bs) :: u64)" and "tf = (of_nat (fac_sum bs) :: u64)"
  have u: "unat tr = rel_sum bs" "unat tf = fac_sum bs" "unat (tr + 1) = rel_sum bs + 1"
    using assms(2,3) by (simp_all add: tr_def tf_def unat_of_nat unat_word_ariths)
  have tot: "merge_totals bs = (tr, tf)" by (simp add: merge_totals_sums [OF assms(1)] tr_def tf_def)
  show ?thesis
  proof (cases "tr = 0")
    case True
    then have "rel_sum bs = 0" using u(1) by simp
    then have "\<forall>(b, n) \<in> set bs. unat n = 0" by (auto simp: rel_sum_def)
    then have "concat (map (\<lambda>(b, n). take (unat n) (rels b)) bs) = []" by auto
    then show ?thesis using True tot \<open>rel_sum bs = 0\<close>
      by (simp add: mergeRelationBatches_def rels_def empty_batch_def)
  next
    case False
    let ?E = "empty_batch\<lparr>factor_offsets := [0]\<rparr>"
    have start: "resize tr tf empty_batch = padded tr tf ?E"
      by (intro batch.equality) (simp_all add: resize_def padded_def grow_def empty_batch_def u Let_def)
    have "n_rels ?E = 0" "num_relations ?E = 0" "num_factors ?E = 0" by (simp_all add: empty_batch_def)
    then obtain E where loop: "ofold merge_one bs (padded tr tf ?E, 0, 0) = Some (padded tr tf E, num_relations E, num_factors E)"
        and E: "batch_exact E" "rels E = concat (map (\<lambda>(b, n). take (unat n) (rels b)) bs)"
          "n_rels E = unat tr" "unat (num_factors E) = unat tf"
      using merge_loop [OF assms(1) sentinel_batch_exact(1), of tr tf] sentinel_batch_exact(2) u by auto
    have w: "num_relations E = tr" "num_factors E = tf" using E(3,4) by (simp_all add: word_unat_eq_iff)
    have offs: "unat tr < length (factor_offsets E)" "factor_offsets E ! unat tr = tf"
      using E(1) w by (auto simp: batch_exact_def)
    have "E\<lparr>factor_offsets := (factor_offsets E)[unat tr := tf], num_relations := tr, num_factors := tf\<rparr> = E"
      using offs w by (intro batch.equality) (simp_all add: list_update_same_conv)
    then have "mergeRelationBatches bs = Some E"
      using False offs by (simp add: mergeRelationBatches_def tot start loop padded_full [OF E(1,3,4)])
    then show ?thesis using E(1,2) by simp
  qed
qed

text \<open>
  C15. Merging batches: no copy leaves its arrays, and the merged batch is well formed (one offset
  per relation, monotone, ending at the factor count, all arrays of exactly that length) and holds
  the requested relations of the inputs in order, with nothing lost, duplicated or renumbered.
\<close>

theorem mergeRelationBatches_concat:
  assumes "\<forall>bn \<in> set bs. mergeable bn" and "rel_sum bs < 2 ^ 64 - 1" and "fac_sum bs < 2 ^ 64"
  shows "\<exists>out. mergeRelationBatches bs = Some out \<and>
           rels out = concat (map (\<lambda>(b, n). take (unat n) (rels b)) bs) \<and>
           (rel_sum bs \<noteq> 0 \<longrightarrow> batch_exact out)"
  by (rule merged_batches [OF assms])

theorem mergeRelationBatches_concat_witness:
  "\<exists>out. mergeRelationBatches [(sample_batch, 2), (sample_batch, 0), (sample_batch, 1)] = Some out \<and>
     rels out = rels sample_batch @ take 1 (rels sample_batch)"
proof -
  let ?bs = "[(sample_batch, 2 :: u64), (sample_batch, 0), (sample_batch, 1)]"
  have "\<forall>bn \<in> set ?bs. mergeable bn"
    using batch_exact_ok [OF sample_batch_exact]
    by (simp add: mergeable_def sample_batch_def word_le_nat_alt)
  moreover have "rel_sum ?bs < 2 ^ 64 - 1" "fac_sum ?bs < 2 ^ 64"
    by (simp_all add: sentinel_def sample_batch_def)
  ultimately show ?thesis
    using mergeRelationBatches_concat [of ?bs] by (auto simp: sample_batch_size)
qed

end
