(* ===== verification/Uint512.thy ===== *)
theory Uint512
  imports Prelude
begin

text \<open>
  The 512-bit unsigned integer of \<^verbatim>\<open>src/src/common/uint512.cuh\<close>, limb by limb. A value is the
  list of its sixteen 32-bit limbs, least significant first; every loop over the limbs is a
  recursion over that list (over its reverse where the loop runs from the top), with the carry,
  borrow or running remainder at the width the source gives it. \<open>lval\<close> is the number a limb list
  stands for.
\<close>

unbundle bit_operations_syntax

type_synonym uint512 = "u32 list"

definition base :: nat where
  "base = 2 ^ 32"

primrec lval :: "u32 list \<Rightarrow> nat" where
  "lval [] = 0"
| "lval (x # xs) = unat x + base * lval xs"

section \<open>Constructors\<close>

definition clz32 :: "u32 \<Rightarrow> nat" where
  "clz32 x = length (takeWhile (\<lambda>i. \<not> bit x i) (rev [0..<32]))"

definition ctz32 :: "u32 \<Rightarrow> nat" where
  "ctz32 x = length (takeWhile (\<lambda>i. \<not> bit x i) [0..<32])"

definition zero512 :: uint512 where
  "zero512 = replicate 16 0"

definition uint512_u32 :: "u32 \<Rightarrow> uint512" where
  "uint512_u32 x = x # replicate 15 0"

definition uint512_u64 :: "u64 \<Rightarrow> uint512" where
  "uint512_u64 x = [ucast x, ucast (drop_bit 32 x)] @ replicate 14 0"

definition uint512_u128 :: "u128 \<Rightarrow> uint512" where
  "uint512_u128 x = [ucast x, ucast (drop_bit 32 x), ucast (drop_bit 64 x), ucast (drop_bit 96 x)]
     @ replicate 12 0"

definition max_value :: uint512 where
  "max_value = replicate 16 0xFFFFFFFF"

section \<open>Basic arithmetic\<close>

fun add_loop :: "u64 \<Rightarrow> u32 list \<Rightarrow> u32 list \<Rightarrow> u32 list" where
  "add_loop c (a # as) (b # bs) =
     (let res = ucast a + ucast b + c in ucast res # add_loop (drop_bit 32 res) as bs)"
| "add_loop c _ _ = []"

definition add512 :: "uint512 \<Rightarrow> uint512 \<Rightarrow> uint512" where
  "add512 x y = add_loop 0 x y"

fun ripple :: "u64 \<Rightarrow> u32 list \<Rightarrow> u32 list" where
  "ripple c [] = []"
| "ripple c (a # as) =
     (if c AND 1 \<noteq> 0 then
        let res = ucast a + c in ucast res # ripple (drop_bit 32 res) as
      else a # as)"

definition add_uint32 :: "u32 \<Rightarrow> uint512 \<Rightarrow> uint512" where
  "add_uint32 v x =
     (case x of
        [] \<Rightarrow> []
      | a # as \<Rightarrow> let res = ucast a + ucast v :: u64 in ucast res # ripple (drop_bit 32 res) as)"

fun sub_loop :: "u32 \<Rightarrow> u32 list \<Rightarrow> u32 list \<Rightarrow> u32 list" where
  "sub_loop borrow (a # as) (b # bs) =
     (a - b - borrow) # sub_loop (if a < b \<or> (borrow \<noteq> 0 \<and> a = b) then 1 else 0) as bs"
| "sub_loop borrow _ _ = []"

definition sub512 :: "uint512 \<Rightarrow> uint512 \<Rightarrow> uint512" where
  "sub512 x y = sub_loop 0 x y"

text \<open>One row of the schoolbook product: the new limbs at the row's offset and the last carry.\<close>

fun mul_row :: "u32 \<Rightarrow> u64 \<Rightarrow> u32 list \<Rightarrow> u32 list \<Rightarrow> u32 list \<times> u64" where
  "mul_row a c (y # ys) (r # rs) =
     (let prod = ucast a * ucast y + ucast r + c;
          (rs', c') = mul_row a (drop_bit 32 prod) ys rs
      in (ucast prod # rs', c'))"
| "mul_row a c _ _ = ([], c)"

definition mult512 :: "uint512 \<Rightarrow> uint512 \<Rightarrow> uint512" where
  "mult512 x y =
     fold (\<lambda>i res. if x ! i = 0 then res else take i res @ fst (mul_row (x ! i) 0 y (drop i res)))
       [0..<16] (replicate 16 0)"

fun mul_small :: "u64 \<Rightarrow> u32 \<Rightarrow> u32 list \<Rightarrow> u32 list" where
  "mul_small c v [] = []"
| "mul_small c v (a # as) =
     (let prod = ucast a * ucast v + c in ucast prod # mul_small (drop_bit 32 prod) v as)"

definition mult_uint32 :: "u32 \<Rightarrow> uint512 \<Rightarrow> uint512" where
  "mult_uint32 v x = (if v = 0 then uint512_u32 0 else if v = 1 then x else mul_small 0 v x)"

fun mul_wide :: "u64 \<Rightarrow> u64 \<Rightarrow> u32 list \<Rightarrow> u32 list \<times> u64" where
  "mul_wide c v [] = ([], c)"
| "mul_wide c v (a # as) =
     (let prod = ucast a * ucast v + ucast c :: u128;
          (rs, c') = mul_wide (ucast (drop_bit 32 prod)) v as
      in (ucast prod # rs, c'))"

definition mul_uint64_inplace :: "u64 \<Rightarrow> uint512 \<Rightarrow> u64 \<times> uint512" where
  "mul_uint64_inplace v x = (case mul_wide 0 v x of (rs, c) \<Rightarrow> (c, rs))"

text \<open>The 1024-bit product of \<^verbatim>\<open>mul_mod\<close> and \<^verbatim>\<open>abs_square_minus_N\<close>.\<close>

definition mul_full_row :: "uint512 \<Rightarrow> uint512 \<Rightarrow> nat \<Rightarrow> u32 list \<Rightarrow> u32 list" where
  "mul_full_row x y i p =
     (if x ! i = 0 then p
      else case mul_row (x ! i) 0 y (take 16 (drop i p)) of
             (row, c) \<Rightarrow>
               let p' = take i p @ row @ drop (i + 16) p
               in p'[i + 16 := p' ! (i + 16) + ucast c])"

definition mul_full :: "uint512 \<Rightarrow> uint512 \<Rightarrow> u32 list" where
  "mul_full x y = fold (mul_full_row x y) [0..<16] (replicate 32 0)"

section \<open>Tests and comparisons\<close>

definition is_zero :: "uint512 \<Rightarrow> bool" where
  "is_zero x \<longleftrightarrow> list_all (\<lambda>l. l = 0) x"

definition is_one :: "uint512 \<Rightarrow> bool" where
  "is_one x \<longleftrightarrow> x ! 0 = 1 \<and> list_all (\<lambda>l. l = 0) (drop 1 x)"

definition eq512 :: "uint512 \<Rightarrow> uint512 \<Rightarrow> bool" where
  "eq512 x y \<longleftrightarrow> list_all (\<lambda>i. x ! i = y ! i) [0..<16]"

fun less_rev :: "u32 list \<Rightarrow> u32 list \<Rightarrow> bool" where
  "less_rev (a # as) (b # bs) = (if a \<noteq> b then a < b else less_rev as bs)"
| "less_rev _ _ = False"

definition less512 :: "uint512 \<Rightarrow> uint512 \<Rightarrow> bool" where
  "less512 x y = less_rev (rev x) (rev y)"

definition geq512 :: "uint512 \<Rightarrow> uint512 \<Rightarrow> bool" where
  "geq512 x y \<longleftrightarrow> \<not> less512 x y"

definition eq_u32 :: "uint512 \<Rightarrow> u32 \<Rightarrow> bool" where
  "eq_u32 x v \<longleftrightarrow> x ! 0 = v \<and> list_all (\<lambda>l. l = 0) (drop 1 x)"

definition less_u32 :: "uint512 \<Rightarrow> u32 \<Rightarrow> bool" where
  "less_u32 x v \<longleftrightarrow> list_all (\<lambda>l. l = 0) (drop 1 x) \<and> x ! 0 < v"

definition gr_u32 :: "uint512 \<Rightarrow> u32 \<Rightarrow> bool" where
  "gr_u32 x v \<longleftrightarrow> \<not> list_all (\<lambda>l. l = 0) (drop 1 x) \<or> x ! 0 > v"

definition low64 :: "uint512 \<Rightarrow> u64" where
  "low64 x = ucast (x ! 0) OR push_bit 32 (ucast (x ! 1))"

definition eq_u64 :: "uint512 \<Rightarrow> u64 \<Rightarrow> bool" where
  "eq_u64 x v \<longleftrightarrow> x ! 0 = ucast v \<and> x ! 1 = ucast (drop_bit 32 v) \<and> list_all (\<lambda>l. l = 0) (drop 2 x)"

definition less_u64 :: "uint512 \<Rightarrow> u64 \<Rightarrow> bool" where
  "less_u64 x v \<longleftrightarrow> list_all (\<lambda>l. l = 0) (drop 2 x) \<and> low64 x < v"

definition gr_u64 :: "uint512 \<Rightarrow> u64 \<Rightarrow> bool" where
  "gr_u64 x v \<longleftrightarrow> \<not> list_all (\<lambda>l. l = 0) (drop 2 x) \<or> low64 x > v"

definition fits_in_128 :: "uint512 \<Rightarrow> bool" where
  "fits_in_128 x \<longleftrightarrow> list_all (\<lambda>l. l = 0) (drop 4 x)"

definition to_uint128 :: "uint512 \<Rightarrow> u128" where
  "to_uint128 x =
     (let lo = ucast (x ! 0) OR push_bit 32 (ucast (x ! 1));
          hi = ucast (x ! 2) OR push_bit 32 (ucast (x ! 3))
      in lo OR push_bit 64 hi)"

primrec msb_loop :: "uint512 \<Rightarrow> nat \<Rightarrow> nat" where
  "msb_loop x 0 = 0"
| "msb_loop x (Suc i) = (if x ! i \<noteq> 0 then (31 - clz32 (x ! i)) + i * 32 else msb_loop x i)"

definition msb512 :: "uint512 \<Rightarrow> nat" where
  "msb512 x = msb_loop x 16"

fun ctz_loop :: "nat \<Rightarrow> u32 list \<Rightarrow> nat" where
  "ctz_loop i [] = 512"
| "ctz_loop i (l # ls) = (if l \<noteq> 0 then ctz32 l + i * 32 else ctz_loop (i + 1) ls)"

definition countr_zero :: "uint512 \<Rightarrow> nat" where
  "countr_zero x = ctz_loop 0 x"

section \<open>Shifts and signs\<close>

fun shr_loop :: "nat \<Rightarrow> u32 list \<Rightarrow> u32 list" where
  "shr_loop b [] = []"
| "shr_loop b [l] = [drop_bit b l]"
| "shr_loop b (l # m # ls) = (drop_bit b l OR push_bit (32 - b) m) # shr_loop b (m # ls)"

definition rshift :: "nat \<Rightarrow> uint512 \<Rightarrow> uint512" where
  "rshift bits x =
     (if bits = 0 then x
      else if bits \<ge> 512 then uint512_u32 0
      else
        let ls = bits div 32; bs = bits mod 32;
            x1 = (if ls > 0 then drop ls x @ replicate ls 0 else x)
        in if bs > 0 then shr_loop bs x1 else x1)"

fun shl_loop :: "nat \<Rightarrow> u32 \<Rightarrow> u32 list \<Rightarrow> u32 list" where
  "shl_loop b below [] = []"
| "shl_loop b below (l # ls) = (push_bit b l OR drop_bit (32 - b) below) # shl_loop b l ls"

definition lshift :: "nat \<Rightarrow> uint512 \<Rightarrow> uint512" where
  "lshift bits x =
     (if bits = 0 then x
      else if bits \<ge> 512 then uint512_u32 0
      else
        let ls = bits div 32; bs = bits mod 32;
            x1 = (if ls > 0 then replicate ls 0 @ take (16 - ls) x else x)
        in if bs > 0 then shl_loop bs 0 x1 else x1)"

definition msb_is_set :: "uint512 \<Rightarrow> bool" where
  "msb_is_set x \<longleftrightarrow> x ! 15 AND 0x80000000 \<noteq> 0"

definition abs_twos_complement :: "uint512 \<Rightarrow> uint512 \<times> int" where
  "abs_twos_complement x =
     (if is_zero x then (x, 0)
      else if \<not> msb_is_set x then (x, 1)
      else (sub512 (uint512_u32 0) x, - 1))"

section \<open>Division\<close>

fun div_loop32 :: "u64 \<Rightarrow> u64 \<Rightarrow> u32 list \<Rightarrow> u32 list \<times> u64" where
  "div_loop32 d rem [] = ([], rem)"
| "div_loop32 d rem (l # ls) =
     (let cur = push_bit 32 rem OR ucast l;
          (qs, r) = div_loop32 d (cur mod d) ls
      in (ucast (cur div d) # qs, r))"

definition div_uint32_const :: "u32 \<Rightarrow> uint512 \<Rightarrow> uint512" where
  "div_uint32_const d x = (if d = 0 then zero512 else rev (fst (div_loop32 (ucast d) 0 (rev x))))"

definition div_uint32_inplace :: "u32 \<Rightarrow> uint512 \<Rightarrow> u32 \<times> uint512" where
  "div_uint32_inplace d x =
     (if d = 0 then (0, x)
      else case div_loop32 (ucast d) 0 (rev x) of (qs, r) \<Rightarrow> (ucast r, rev qs))"

fun div_loop64 :: "u128 \<Rightarrow> u128 \<Rightarrow> u32 list \<Rightarrow> u32 list \<times> u128" where
  "div_loop64 d rem [] = ([], rem)"
| "div_loop64 d rem (l # ls) =
     (let cur = push_bit 32 rem OR ucast l;
          (qs, r) = div_loop64 d (cur mod d) ls
      in (ucast (cur div d) # qs, r))"

definition div_uint64_inplace :: "u64 \<Rightarrow> uint512 \<Rightarrow> u64 \<times> uint512" where
  "div_uint64_inplace d x =
     (if d = 0 then (0, x)
      else case div_loop64 (ucast d) 0 (rev x) of (qs, r) \<Rightarrow> (ucast r, rev qs))"

definition mod_uint32 :: "u32 \<Rightarrow> uint512 \<Rightarrow> u32" where
  "mod_uint32 d x =
     (if d = 0 then 0
      else ucast (fold (\<lambda>l rem. (push_bit 32 rem OR ucast l) mod (ucast d :: u64)) (rev x) 0))"

definition mod_uint64 :: "u64 \<Rightarrow> uint512 \<Rightarrow> u64" where
  "mod_uint64 d x =
     (if d = 0 then 0
      else ucast (fold (\<lambda>l rem. (push_bit 32 rem OR ucast l) mod (ucast d :: u128)) (rev x) 0))"

text \<open>
  The pieces of the bit-serial division: shift the remainder left by one and keep the bit that
  falls out, bring in the next bit, compare, subtract.
\<close>

fun shl1 :: "u32 \<Rightarrow> u32 list \<Rightarrow> u32 list \<times> u32" where
  "shl1 c [] = ([], c)"
| "shl1 c (v # vs) = (case shl1 (drop_bit 31 v) vs of (ws, c') \<Rightarrow> ((push_bit 1 v OR c) # ws, c'))"

definition bit_at :: "u32 list \<Rightarrow> nat \<Rightarrow> u32" where
  "bit_at p i = drop_bit (i mod 32) (p ! (i div 32)) AND 1"

definition or_limb :: "nat \<Rightarrow> u32 \<Rightarrow> u32 list \<Rightarrow> u32 list" where
  "or_limb i w x = x[i := x ! i OR w]"

fun geq_rev :: "u32 list \<Rightarrow> u32 list \<Rightarrow> bool" where
  "geq_rev (a # as) (b # bs) = (if a < b then False else if a > b then True else geq_rev as bs)"
| "geq_rev _ _ = True"

definition div_step :: "uint512 \<Rightarrow> uint512 \<Rightarrow> nat \<Rightarrow> uint512 \<times> uint512 \<Rightarrow> uint512 \<times> uint512" where
  "div_step dividend divisor i st =
     (case st of (quot, remainder) \<Rightarrow>
        let (r1, overflow_bit) = shl1 0 remainder;
            r2 = or_limb 0 (bit_at dividend i) r1;
            geq = (if overflow_bit \<noteq> 0 then True else geq_rev (rev r2) (rev divisor))
        in if geq then (or_limb (i div 32) (push_bit (i mod 32) 1) quot, sub512 r2 divisor)
           else (quot, r2))"

text \<open>The quotient, and the remainder when it is written at all.\<close>

definition div_mod_core :: "uint512 \<Rightarrow> uint512 \<Rightarrow> uint512 \<times> uint512 option" where
  "div_mod_core x divisor =
     (if is_zero divisor then (x, None)
      else if less512 x divisor then (uint512_u32 0, Some x)
      else case fold (div_step x divisor) (rev [0..<msb512 x + 1]) (uint512_u32 0, uint512_u32 0) of
             (q, r) \<Rightarrow> (q, Some r))"

definition div512 :: "uint512 \<Rightarrow> uint512 \<Rightarrow> uint512" where
  "div512 x d = fst (div_mod_core x d)"

definition mod512 :: "uint512 \<Rightarrow> uint512 \<Rightarrow> uint512" where
  "mod512 x d = (case snd (div_mod_core x d) of None \<Rightarrow> zero512 | Some r \<Rightarrow> r)"

section \<open>Modular arithmetic\<close>

definition add_mod :: "uint512 \<Rightarrow> uint512 \<Rightarrow> uint512 \<Rightarrow> uint512" where
  "add_mod x y n =
     (let s = add512 x y in if less512 s x \<or> geq512 s n then sub512 s n else s)"

definition sub_mod :: "uint512 \<Rightarrow> uint512 \<Rightarrow> uint512 \<Rightarrow> uint512" where
  "sub_mod x y n = (if less512 x y then add512 (sub512 x y) n else sub512 x y)"

definition double_mod :: "uint512 \<Rightarrow> uint512 \<Rightarrow> uint512" where
  "double_mod x n =
     (let carry = drop_bit 31 (x ! 15); s = lshift 1 x
      in if carry \<noteq> 0 \<or> geq512 s n then sub512 s n else s)"

fun geq_rev_mul :: "u32 list \<Rightarrow> u32 list \<Rightarrow> bool" where
  "geq_rev_mul (a # as) (b # bs) =
     (if a > b then True else if a < b then False else if as = [] then True else geq_rev_mul as bs)"
| "geq_rev_mul _ _ = False"

primrec top_bit :: "u32 list \<Rightarrow> nat \<Rightarrow> nat" where
  "top_bit p 0 = 0"
| "top_bit p (Suc k) = (if bit_at p k = 0 then top_bit p k else Suc k)"

definition red_step :: "u32 list \<Rightarrow> uint512 \<Rightarrow> nat \<Rightarrow> uint512 \<Rightarrow> uint512" where
  "red_step p modulus i remainder =
     (let (r1, overflow_bit) = shl1 0 remainder;
          r2 = or_limb 0 (bit_at p i) r1;
          geq = (overflow_bit = 1 \<or> geq_rev_mul (rev r2) (rev modulus))
      in if geq then sub512 r2 modulus else r2)"

definition mul_mod :: "uint512 \<Rightarrow> uint512 \<Rightarrow> uint512 \<Rightarrow> uint512" where
  "mul_mod x y modulus =
     (if is_zero modulus then x
      else let p = mul_full x y
           in fold (red_step p modulus) (rev [0..<top_bit p 1024]) (uint512_u32 0))"

definition negate_mod_inplace :: "uint512 \<Rightarrow> uint512 \<Rightarrow> uint512" where
  "negate_mod_inplace x n = (if is_zero x then x else sub512 n x)"

definition mul_add_mod_signed :: "uint512 \<Rightarrow> u64 \<Rightarrow> uint512 \<Rightarrow> uint512 \<Rightarrow> uint512" where
  "mul_add_mod_signed this x b n =
     (let neg = sint x < 0;
          abs_x = (if neg then - x else x);
          (carry, prod) = mul_uint64_inplace abs_x this
      in if carry = 0 then
           if \<not> neg then
             let s = add512 prod b
             in if geq512 s n
                then let s' = sub512 s n in if geq512 s' n then mod512 s' n else s'
                else s
           else if geq512 b prod then sub512 b prod
           else negate_mod_inplace (sub512 prod b) n
         else
           let lo = mod512 prod n;
               r = sub512 (uint512_u32 0) n;
               r = snd (mul_uint64_inplace carry r);
               r = mod512 r n;
               t = add512 lo r;
               t = (if geq512 t n then sub512 t n else t)
           in if \<not> neg then add_mod t b n else sub_mod b t n)"

section \<open>Square root\<close>

primrec newton :: "uint512 \<Rightarrow> uint512 \<Rightarrow> nat \<Rightarrow> uint512" where
  "newton n x 0 = x"
| "newton n x (Suc k) =
     (let t = rshift 1 (add512 (div512 n x) x)
      in if \<not> less512 t x then x else newton n t k)"

definition sqrt512 :: "uint512 \<Rightarrow> uint512" where
  "sqrt512 n =
     (if is_zero n then uint512_u32 0
      else let b = msb512 n div 2 + 1
           in newton n (zero512[b div 32 := push_bit (b mod 32) 1]) 32)"

definition isqrt_2N :: "uint512 \<Rightarrow> uint512" where
  "isqrt_2N n =
     (if \<not> msb_is_set n then sqrt512 (lshift 1 n)
      else rshift 32 (snd (mul_uint64_inplace 6074001001 (sqrt512 n))))"

section \<open>The polynomial value\<close>

fun sub_loop64 :: "u32 \<Rightarrow> u32 list \<Rightarrow> u32 list \<Rightarrow> u32 list" where
  "sub_loop64 borrow (a # as) (b # bs) =
     (let ai = ucast a :: u64; bi = ucast b + ucast borrow
      in ucast (ai - bi) # sub_loop64 (if ai < bi then 1 else 0) as bs)"
| "sub_loop64 borrow _ _ = []"

definition square_ge :: "u32 list \<Rightarrow> uint512 \<Rightarrow> bool" where
  "square_ge p n =
     (if list_ex (\<lambda>l. l \<noteq> 0) (drop 16 p) then True
      else \<not> less_rev (rev (take 16 p)) (rev n))"

definition abs_square_minus_N :: "uint512 \<Rightarrow> uint512 \<Rightarrow> uint512 \<times> int" where
  "abs_square_minus_N s n =
     (let p = mul_full s s
      in if square_ge p n then (sub_loop64 0 (take 16 p) n, 1)
         else (sub_loop64 0 n (take 16 p), - 1))"

section \<open>Decimal and hexadecimal text\<close>

definition parse_step :: "char \<Rightarrow> uint512 \<Rightarrow> uint512" where
  "parse_step c res =
     (let k = of_char c :: nat
      in if 48 \<le> k \<and> k \<le> 57 then
           let res = mult_uint32 10 res; digit = k - 48
           in if 0 < digit \<and> digit < 10 then add_uint32 (of_nat digit) res else res
         else res)"

definition uint512_str :: "string \<Rightarrow> uint512" where
  "uint512_str str = fold parse_step str (uint512_u32 0)"

fun digits :: "nat \<Rightarrow> string" where
  "digits n = (if n < 10 then [char_of (48 + n)] else digits (n div 10) @ [char_of (48 + n mod 10)])"

declare digits.simps [simp del]

definition pad9 :: "nat \<Rightarrow> string" where
  "pad9 n = replicate (9 - length (digits n)) (char_of (48 :: nat)) @ digits n"

text \<open>The loop that fills the fixed array of 20 chunks; a 21st chunk would overflow it.\<close>

fun chunk_loop :: "nat \<Rightarrow> uint512 \<Rightarrow> u32 list option" where
  "chunk_loop room t =
     (if is_zero t then Some []
      else if room = 0 then None
      else case div_uint32_inplace 1000000000 t of
             (r, t') \<Rightarrow> map_option (\<lambda>cs. r # cs) (chunk_loop (room - 1) t'))"

declare chunk_loop.simps [simp del]

definition to_string :: "uint512 \<Rightarrow> string option" where
  "to_string x =
     (if is_zero x then Some [char_of (48 :: nat)]
      else case chunk_loop 20 x of
             None \<Rightarrow> None
           | Some cs \<Rightarrow>
               Some (digits (unat (last cs)) @ concat (map (\<lambda>c. pad9 (unat c)) (rev (butlast cs)))))"

section \<open>Limb lists as numbers\<close>

lemma base_pos [simp]: "0 < base" "base \<noteq> 0"
  by (simp_all add: base_def)

lemma unat_limb [simp]: "unat (x :: u32) < base"
  using unsigned_less [of x] by (simp add: base_def)

lemma lval_bound: "lval xs < base ^ length xs"
proof (induction xs)
  case (Cons x xs)
  have "unat x + base * lval xs < base + base * lval xs" by simp
  also have "\<dots> = base * (lval xs + 1)" by simp
  also have "\<dots> \<le> base * base ^ length xs" using Cons by (intro mult_le_mono2) simp
  finally show ?case by simp
qed simp

lemma lval_append: "lval (xs @ ys) = lval xs + base ^ length xs * lval ys"
  by (induction xs) (auto simp: algebra_simps)

lemma lval_replicate_0 [simp]: "lval (replicate n 0) = 0"
  by (induction n) auto

lemma lval_take_drop: "n \<le> length xs \<Longrightarrow> lval xs = lval (take n xs) + base ^ n * lval (drop n xs)"
  using lval_append [of "take n xs" "drop n xs"] by (simp add: min_absorb2)

lemma lval_take_Suc: "n < length xs \<Longrightarrow> lval (take (Suc n) xs) = lval (take n xs) + base ^ n * unat (xs ! n)"
  by (simp add: take_Suc_conv_app_nth lval_append)

lemma lval_mod: "lval (x # xs) mod base = unat x" "lval (x # xs) div base = lval xs"
  by simp_all

lemma lval_inj: "length xs = length ys \<Longrightarrow> lval xs = lval ys \<longleftrightarrow> xs = ys"
proof (induction xs ys rule: list_induct2)
  case (Cons x xs y ys)
  have "lval (x # xs) = lval (y # ys) \<longleftrightarrow> unat x = unat y \<and> lval xs = lval ys"
  proof
    assume e: "lval (x # xs) = lval (y # ys)"
    have "unat x = unat y" using arg_cong [OF e, of "\<lambda>v. v mod base"] by simp
    moreover have "lval xs = lval ys" using arg_cong [OF e, of "\<lambda>v. v div base"] by simp
    ultimately show "unat x = unat y \<and> lval xs = lval ys" by simp
  qed simp
  then show ?case using Cons.IH by (simp add: word_unat_eq_iff)
qed simp

text \<open>Splitting a wide intermediate into the limb that is stored and the carry that is kept.\<close>

lemma unat_low32:
  fixes w :: "'a::len word"
  shows "unat (ucast w :: u32) = unat w mod base"
  by (simp add: unsigned_ucast_eq take_bit_eq_mod base_def)

lemma unat_high32:
  fixes w :: "'a::len word"
  shows "unat (drop_bit 32 w) = unat w div base"
  unfolding base_def using unat_drop_bit_eq [of 32 w] by (simp only: drop_bit_eq_div)

lemma carry_step_nat: "x mod b + b * ((Y + x div b) mod m) = (x + b * Y) mod (b * m)" if "0 < b" for b :: nat
proof -
  have "(x + b * Y) mod (b * m) = b * ((x + b * Y) div b mod m) + (x + b * Y) mod b"
    by (rule mod_mult2_eq)
  also have "(x + b * Y) div b = Y + x div b" using that by simp
  finally show ?thesis by simp
qed

lemma carry_step_int: "x mod b + b * ((Y + x div b) mod m) = (x + b * Y) mod (b * m)" if "0 < b" "0 \<le> m" for b :: int
proof -
  have "(x + b * Y) mod (b * m) = b * ((x + b * Y) div b mod m) + (x + b * Y) mod b"
    using that by (simp add: zmod_zmult2_eq)
  also have "(x + b * Y) div b = Y + x div b" using that by simp
  finally show ?thesis by simp
qed

section \<open>Addition and subtraction\<close>

lemma small_sum64: "x < base \<Longrightarrow> y < base \<Longrightarrow> z < base \<Longrightarrow> x + y + z < 2 ^ 64"
  by (simp add: base_def)

lemma limb_sum:
  fixes c :: u64
  assumes "unat c < base"
  shows "unat (ucast (a :: u32) + ucast (b :: u32) + c :: u64) = unat a + unat b + unat c"
proof -
  have s: "unat a + unat b + unat c < 2 ^ 64"
    by (rule small_sum64 [OF unat_limb unat_limb assms])
  then have "unat (ucast a + ucast b :: u64) = unat a + unat b"
    using unat_add_exact [of "ucast a :: u64" "ucast b"] by simp
  then show ?thesis using unat_add_exact [of "ucast a + ucast b :: u64" c] s by simp
qed

lemma add_loop_val:
  assumes "length as = length bs" and "unat c \<le> 1"
  shows "length (add_loop c as bs) = length bs \<and>
    lval (add_loop c as bs) = (lval as + lval bs + unat c) mod base ^ length bs"
  using assms
proof (induction as bs arbitrary: c rule: list_induct2)
  case (Cons a as b bs)
  define s where "s = (ucast a + ucast b + c :: u64)"
  have c: "unat c < base" using Cons.prems by (simp add: base_def)
  have s: "unat s = unat a + unat b + unat c" unfolding s_def by (rule limb_sum [OF c])
  have "unat a < base" "unat b < base" by simp_all
  then have "unat s < 2 * base" using s Cons.prems by linarith
  then have hi: "unat (drop_bit 32 s) \<le> 1"
    by (simp add: unat_high32 less_mult_imp_div_less less_Suc_eq_le [symmetric])
  have "(unat s + base * (lval as + lval bs)) = lval (a # as) + lval (b # bs) + unat c"
    by (simp add: s algebra_simps)
  then show ?case
    using Cons.IH [OF hi] carry_step_nat [of base "unat s" "lval as + lval bs" "base ^ length bs"]
    by (simp add: Let_def s_def [symmetric] unat_low32 unat_high32)
qed simp

lemma borrow_div:
  fixes x y k :: nat
  assumes "x < base" and "y < base" and "k \<le> 1"
  shows "(int x - int y - int k) div int base = - (if x < y \<or> (k \<noteq> 0 \<and> x = y) then 1 else 0)"
proof (cases "x < y \<or> (k \<noteq> 0 \<and> x = y)")
  case True
  then have "0 \<le> int x - int y - int k + int base" "int x - int y - int k + int base < int base" using assms by auto
  then have "(int x - int y - int k + int base) div int base = 0" by (rule div_pos_pos_trivial)
  then show ?thesis using True by (simp only: div_add_self2 of_nat_eq_0_iff base_pos) simp
next
  case False
  then have "0 \<le> int x - int y - int k" "int x - int y - int k < int base" using assms by auto
  then show ?thesis using False by (simp add: div_pos_pos_trivial)
qed

lemma word_sub_borrow:
  fixes a b borrow :: u32
  assumes "borrow = 0 \<or> borrow = 1"
  shows "int (unat (a - b - borrow)) = (int (unat a) - int (unat b) - int (unat borrow)) mod int base"
    and "(int (unat a) - int (unat b) - int (unat borrow)) div int base
           = - int (unat (if a < b \<or> (borrow \<noteq> 0 \<and> a = b) then 1 else 0 :: u32))"
proof -
  have "uint (a - b - borrow) = (uint a - uint b - uint borrow) mod 2 ^ 32"
    by (simp add: uint_word_ariths mod_simps)
  then show "int (unat (a - b - borrow)) = (int (unat a) - int (unat b) - int (unat borrow)) mod int base"
    by (simp add: base_def)
  have k: "unat borrow \<le> 1" using assms by auto
  have e: "(a < b \<or> (borrow \<noteq> 0 \<and> a = b)) = (unat a < unat b \<or> (unat borrow \<noteq> 0 \<and> unat a = unat b))"
    using assms by (auto simp: word_less_nat_alt word_unat_eq_iff)
  show "(int (unat a) - int (unat b) - int (unat borrow)) div int base
           = - int (unat (if a < b \<or> (borrow \<noteq> 0 \<and> a = b) then 1 else 0 :: u32))"
    unfolding e borrow_div [OF unat_limb unat_limb k] by simp
qed

lemma sub_loop_val:
  assumes "length as = length bs" and "borrow = 0 \<or> borrow = 1"
  shows "length (sub_loop borrow as bs) = length bs \<and>
    int (lval (sub_loop borrow as bs))
      = (int (lval as) - int (lval bs) - int (unat borrow)) mod int base ^ length bs"
  using assms
proof (induction as bs arbitrary: borrow rule: list_induct2)
  case (Cons a as b bs)
  let ?b = "if a < b \<or> (borrow \<noteq> 0 \<and> a = b) then 1 else 0 :: u32"
  let ?x = "int (unat a) - int (unat b) - int (unat borrow)"
  have IH: "length (sub_loop ?b as bs) = length bs"
      "int (lval (sub_loop ?b as bs)) = (int (lval as) - int (lval bs) - int (unat ?b)) mod int base ^ length bs"
    using Cons.IH [of ?b] by simp_all
  note wb = word_sub_borrow [OF Cons.prems, of a b]
  have "int (lval (sub_loop borrow (a # as) (b # bs)))
      = ?x mod int base + int base * ((int (lval as) - int (lval bs) + ?x div int base) mod int base ^ length bs)"
    using IH(2) wb by (simp only: sub_loop.simps lval.simps of_nat_add of_nat_mult) simp
  also have "\<dots> = (?x + int base * (int (lval as) - int (lval bs))) mod (int base * int base ^ length bs)"
    by (rule carry_step_int) (simp_all add: base_def)
  also have "?x + int base * (int (lval as) - int (lval bs)) = int (lval (a # as)) - int (lval (b # bs)) - int (unat borrow)"
    by (simp add: algebra_simps)
  finally show ?case using IH(1) by simp
qed simp
section \<open>Small additions\<close>

lemma and_one_unat: "unat (c :: u64) \<le> 1 \<Longrightarrow> c AND 1 \<noteq> 0 \<longleftrightarrow> unat c = 1"
proof -
  assume "unat c \<le> 1"
  then have "c = 0 \<or> c = 1" by (auto simp: word_unat_eq_iff le_Suc_eq)
  then show ?thesis by auto
qed

lemma ripple_val:
  "unat c \<le> 1 \<Longrightarrow> length (ripple c as) = length as \<and> lval (ripple c as) = (lval as + unat c) mod base ^ length as"
proof (induction as arbitrary: c)
  case (Cons a as)
  show ?case
  proof (cases "unat c = 1")
    case False
    then have "unat c = 0" using Cons.prems by simp
    then show ?thesis using lval_bound [of "a # as"] and_one_unat [OF Cons.prems] by simp
  next
    case True
    define s where "s = (ucast a + c :: u64)"
    have s: "unat s = unat a + 1"
      using limb_sum [of c a 0] True by (simp add: s_def base_def)
    have "unat a < base" by simp
    then have "unat s < 2 * base" using s by linarith
    then have hi: "unat (drop_bit 32 s) \<le> 1"
      by (simp add: unat_high32 less_mult_imp_div_less less_Suc_eq_le [symmetric])
    have "unat s + base * lval as = lval (a # as) + unat c" by (simp add: s True)
    then show ?thesis
      using Cons.IH [OF hi] carry_step_nat [of base "unat s" "lval as" "base ^ length as"] True
        and_one_unat [OF Cons.prems]
      by (simp add: Let_def s_def [symmetric] unat_low32 unat_high32)
  qed
qed simp

lemma add_uint32_val:
  "x \<noteq> [] \<Longrightarrow> length (add_uint32 v x) = length x \<and> lval (add_uint32 v x) = (lval x + unat v) mod base ^ length x"
proof -
  assume "x \<noteq> []"
  then obtain a as where x: "x = a # as" by (cases x) auto
  define s where "s = (ucast a + ucast v :: u64)"
  have s: "unat s = unat a + unat v" using limb_sum [of 0 a v] by (simp add: s_def)
  have "unat a < base" "unat v < base" by simp_all
  then have "unat s < 2 * base" using s by linarith
  then have hi: "unat (drop_bit 32 s) \<le> 1"
    by (simp add: unat_high32 less_mult_imp_div_less less_Suc_eq_le [symmetric])
  show ?thesis
    using ripple_val [OF hi, of as] carry_step_nat [of base "unat s" "lval as" "base ^ length as"]
    by (simp add: x add_uint32_def Let_def s_def [symmetric] unat_low32 unat_high32 s algebra_simps)
qed

section \<open>Products\<close>

lemma limb_product_bound:
  "x < base \<Longrightarrow> y < base \<Longrightarrow> r < base \<Longrightarrow> c < base \<Longrightarrow> x * y + r + c < base * base"
proof -
  assume a: "x < base" "y < base" "r < base" "c < base"
  then have "x * y \<le> (base - 1) * (base - 1)" by (intro mult_le_mono) auto
  then have "x * y + r + c \<le> (base - 1) * (base - 1) + (base - 1) + (base - 1)" using a by linarith
  also have "\<dots> < base * base" by (simp add: base_def)
  finally show ?thesis .
qed

lemma limb_product:
  fixes c :: u64
  assumes "unat c < base"
  shows "unat (ucast (a :: u32) * ucast (y :: u32) + ucast (r :: u32) + c :: u64) = unat a * unat y + unat r + unat c"
    and "unat (drop_bit 32 (ucast a * ucast y + ucast r + c :: u64)) < base"
proof -
  have b: "unat a * unat y + unat r + unat c < base * base"
    by (rule limb_product_bound [OF unat_limb unat_limb unat_limb assms])
  then have lt: "unat a * unat y + unat r + unat c < 2 ^ 64" by (simp add: base_def)
  then have 1: "unat (ucast a * ucast y :: u64) = unat a * unat y"
    using unat_mult_exact [of "ucast a :: u64" "ucast y"] by simp
  have 2: "unat (ucast a * ucast y + ucast r :: u64) = unat a * unat y + unat r"
    using unat_add_exact [of "ucast a * ucast y :: u64" "ucast r"] lt 1 by simp
  show e: "unat (ucast a * ucast y + ucast r + c :: u64) = unat a * unat y + unat r + unat c"
    using unat_add_exact [of "ucast a * ucast y + ucast r :: u64" c] lt 2 by simp
  show "unat (drop_bit 32 (ucast a * ucast y + ucast r + c :: u64)) < base"
    using b by (simp only: unat_high32 e less_mult_imp_div_less)
qed

lemma mul_row_val:
  assumes "unat c < base" and "n = min (length ys) (length rs)"
  shows "case mul_row a c ys rs of (row, c') \<Rightarrow> length row = n \<and> unat c' < base \<and>
    lval row + base ^ n * unat c' = unat a * lval (take n ys) + lval (take n rs) + unat c"
  using assms
proof (induction a c ys rs arbitrary: n rule: mul_row.induct)
  case (1 a c y ys r rs)
  define p where "p = (ucast a * ucast y + ucast r + c :: u64)"
  have p: "unat p = unat a * unat y + unat r + unat c" and hi: "unat (drop_bit 32 p) < base"
    unfolding p_def by (rule limb_product [OF "1.prems"(1)])+
  define m where "m = min (length ys) (length rs)"
  obtain row c' where row: "mul_row a (drop_bit 32 p) ys rs = (row, c')" by fastforce
  have IH: "length row = m" "unat c' < base"
      "lval row + base ^ m * unat c' = unat a * lval (take m ys) + lval (take m rs) + unat (drop_bit 32 p)"
    using "1.IH" [OF p_def hi m_def] row by simp_all
  have n: "n = Suc m" using "1.prems"(2) by (simp add: m_def)
  have "unat p mod base + base * (lval row + base ^ m * unat c')
      = unat p + base * (unat a * lval (take m ys) + lval (take m rs))"
    unfolding IH(3) unat_high32 using mod_mult_div_eq [of "unat p" base] by (simp add: algebra_simps)
  then have "lval (ucast p # row) + base ^ n * unat c'
      = unat a * lval (take n (y # ys)) + lval (take n (r # rs)) + unat c"
    by (simp add: n p unat_low32 algebra_simps)
  then show ?case using IH(1,2) n by (simp add: Let_def p_def [symmetric] row)
qed simp_all

lemma mult512_val:
  assumes "length x = 16" and "length y = 16"
  shows "length (mult512 x y) = 16 \<and> lval (mult512 x y) = (lval x * lval y) mod base ^ 16"
proof -
  let ?f = "\<lambda>i res. if x ! i = 0 then res else take i res @ fst (mul_row (x ! i) 0 y (drop i res))"
  have "k \<le> 16 \<Longrightarrow> length (fold ?f [0..<k] (replicate 16 0)) = 16 \<and>
      (\<exists>q. lval (fold ?f [0..<k] (replicate 16 0)) + base ^ 16 * q = lval (take k x) * lval y)" for k
  proof (induction k)
    case 0
    then show ?case by simp
  next
    case (Suc k)
    define res where "res = fold ?f [0..<k] (replicate 16 (0 :: u32))"
    obtain q where len: "length res = 16" and q: "lval res + base ^ 16 * q = lval (take k x) * lval y"
      using Suc unfolding res_def by auto
    have tk: "lval (take (Suc k) x) = lval (take k x) + base ^ k * unat (x ! k)"
      using Suc.prems assms(1) by (simp add: lval_take_Suc)
    show ?case
    proof (cases "x ! k = 0")
      case True
      then show ?thesis using len q tk unfolding fold_append by (auto simp: res_def)
    next
      case False
      obtain row c where row: "mul_row (x ! k) 0 y (drop k res) = (row, c)" by fastforce
      have nk: "16 - k = min (length y) (length (drop k res))" using len assms(2) by simp
      have r: "length row = 16 - k"
          "lval row + base ^ (16 - k) * unat c = unat (x ! k) * lval (take (16 - k) y) + lval (drop k res)"
        using mul_row_val [OF _ nk, of 0 "x ! k"] row len assms(2) by simp_all
      have b: "base ^ k * base ^ (16 - k) = base ^ 16"
        using Suc.prems by (simp add: power_add [symmetric])
      have y: "lval y = lval (take (16 - k) y) + base ^ (16 - k) * lval (drop (16 - k) y)"
        using assms(2) by (intro lval_take_drop) simp
      have "lval (take k res @ row) + base ^ 16 * unat c
          = lval (take k res) + base ^ k * (lval row + base ^ (16 - k) * unat c)"
        using len Suc.prems by (simp add: lval_append b [symmetric] algebra_simps)
      also have "\<dots> = lval res + base ^ k * unat (x ! k) * lval (take (16 - k) y)"
        unfolding r(2) using lval_take_drop [of k res] len Suc.prems by (simp add: algebra_simps)
      finally have e: "lval (take k res @ row) + base ^ 16 * unat c
          = lval res + base ^ k * unat (x ! k) * lval (take (16 - k) y)" .
      define A where "A = unat (x ! k) * lval (drop (16 - k) y)"
      have "base ^ k * unat (x ! k) * lval y = base ^ k * unat (x ! k) * lval (take (16 - k) y) + base ^ 16 * A"
        by (subst y) (simp add: A_def b [symmetric] algebra_simps)
      then have "lval (take k res @ row) + base ^ 16 * unat c + base ^ 16 * A + base ^ 16 * q
          = (lval res + base ^ 16 * q) + base ^ k * unat (x ! k) * lval y"
        using e by linarith
      then have "lval (take k res @ row) + base ^ 16 * (unat c + A + q) = lval (take (Suc k) x) * lval y"
        unfolding q tk by (simp add: distrib_left distrib_right mult.assoc)
      moreover have "length (take k res @ row) = 16" using len r(1) Suc.prems by simp
      ultimately show ?thesis using False row by (auto simp: res_def [symmetric])
    qed
  qed
  from this [of 16] obtain q where len: "length (mult512 x y) = 16"
      and q: "lval (mult512 x y) + base ^ 16 * q = lval x * lval y"
    using assms(1) by (auto simp: mult512_def)
  have "lval (mult512 x y) = (lval (mult512 x y) + base ^ 16 * q) mod base ^ 16"
    using lval_bound [of "mult512 x y"] len by simp
  then show ?thesis using len q by simp
qed

lemma mul_small_val:
  "unat c < base \<Longrightarrow> length (mul_small c v as) = length as \<and>
     lval (mul_small c v as) = (unat v * lval as + unat c) mod base ^ length as"
proof (induction as arbitrary: c)
  case (Cons a as)
  define p where "p = (ucast a * ucast v + c :: u64)"
  have p: "unat p = unat a * unat v + unat c" and hi: "unat (drop_bit 32 p) < base"
    using limb_product [OF Cons.prems, of a v 0] by (simp_all add: p_def)
  have e: "unat p + base * (unat v * lval as) = unat v * lval (a # as) + unat c"
    by (simp add: p algebra_simps)
  show ?case
    using e Cons.IH [OF hi] carry_step_nat [of base "unat p" "unat v * lval as" "base ^ length as"]
    by (simp add: Let_def p_def [symmetric] unat_low32 unat_high32)
qed simp

lemma mult_uint32_val:
  assumes "length x = 16"
  shows "length (mult_uint32 v x) = 16 \<and> lval (mult_uint32 v x) = (unat v * lval x) mod base ^ 16"
  using mul_small_val [of 0 v x] lval_bound [of x] assms
  by (auto simp: mult_uint32_def uint512_u32_def)

lemma unat_ucast_up_128 [simp]: "unat (ucast (x :: u32) :: u128) = unat x" "unat (ucast (y :: u64) :: u128) = unat y"
  by (simp_all add: unat_ucast_up)

lemma wide_product:
  fixes a :: u32 and v c :: u64
  shows "unat (ucast a * ucast v + ucast c :: u128) = unat a * unat v + unat c"
    and "unat (ucast (drop_bit 32 (ucast a * ucast v + ucast c :: u128)) :: u64) = (unat a * unat v + unat c) div base"
proof -
  have a: "unat a \<le> base - 1" using unat_limb [of a] by linarith
  have v: "unat v \<le> 2 ^ 64 - 1" "unat c \<le> 2 ^ 64 - 1"
    using unat_lt64 [of v] unat_lt64 [of c] by (simp_all del: unat_lt64)
  have "unat a * unat v \<le> (base - 1) * (2 ^ 64 - 1)" by (rule mult_le_mono [OF a v(1)])
  then have le: "unat a * unat v + unat c \<le> (base - 1) * (2 ^ 64 - 1) + (2 ^ 64 - 1)" using v(2) by linarith
  also have "\<dots> < base * 2 ^ 64" by (simp add: base_def)
  finally have lt: "unat a * unat v + unat c < base * 2 ^ 64" .
  then have lt': "unat a * unat v + unat c < 2 ^ 128" by (simp add: base_def)
  then have 1: "unat (ucast a * ucast v :: u128) = unat a * unat v"
    using unat_mult_exact [of "ucast a :: u128" "ucast v"] by simp
  show e: "unat (ucast a * ucast v + ucast c :: u128) = unat a * unat v + unat c"
    using unat_add_exact [of "ucast a * ucast v :: u128" "ucast c"] lt' 1 by simp
  have "(unat a * unat v + unat c) div base < 2 ^ 64"
    using lt by (simp only: less_mult_imp_div_less mult.commute)
  then show "unat (ucast (drop_bit 32 (ucast a * ucast v + ucast c :: u128)) :: u64) = (unat a * unat v + unat c) div base"
    using e unat_high32 [of "ucast a * ucast v + ucast c :: u128"]
    by (simp only: unsigned_ucast_eq) (simp add: take_bit_eq_mod)
qed

lemma mul_wide_val:
  "case mul_wide c v as of (rs, c') \<Rightarrow> length rs = length as \<and>
     lval rs + base ^ length as * unat c' = unat v * lval as + unat c"
proof (induction as arbitrary: c)
  case (Cons a as)
  define p where "p = (ucast a * ucast v + ucast c :: u128)"
  have p: "unat p = unat a * unat v + unat c"
      "unat (ucast (drop_bit 32 p) :: u64) = (unat a * unat v + unat c) div base"
    unfolding p_def by (rule wide_product)+
  obtain rs c' where r: "mul_wide (ucast (drop_bit 32 p)) v as = (rs, c')" by fastforce
  have IH: "length rs = length as"
      "lval rs + base ^ length as * unat c' = unat v * lval as + (unat a * unat v + unat c) div base"
    using Cons.IH [of "ucast (drop_bit 32 p)"] r p(2) by simp_all
  have "lval (ucast p # rs) + base ^ length (a # as) * unat c'
      = unat p mod base + base * (lval rs + base ^ length as * unat c')"
    by (simp add: unat_low32 algebra_simps)
  also have "\<dots> = unat p + base * (unat v * lval as)"
    unfolding IH(2) p(1) using mod_mult_div_eq [of "unat a * unat v + unat c" base] by (simp add: algebra_simps)
  also have "\<dots> = unat v * lval (a # as) + unat c" by (simp add: p(1) algebra_simps)
  finally show ?case using IH(1) by (simp add: Let_def p_def [symmetric] r)
qed simp
lemma lval_update:
  "k < length xs \<Longrightarrow> lval (xs[k := v]) + base ^ k * unat (xs ! k) = lval xs + base ^ k * unat v"
proof (induction xs arbitrary: k)
  case (Cons x xs)
  show ?case
  proof (cases k)
    case (Suc j)
    have "base * (lval (xs[j := v]) + base ^ j * unat (xs ! j)) = base * (lval xs + base ^ j * unat v)"
      using Cons Suc by simp
    then show ?thesis using Suc by (simp add: algebra_simps)
  qed simp
qed simp

lemma mul_full_val:
  assumes "length x = 16" and "length y = 16"
  shows "length (mul_full x y) = 32 \<and> lval (mul_full x y) = lval x * lval y"
proof -
  let ?p = "\<lambda>k. fold (mul_full_row x y) [0..<k] (replicate 32 0)"
  have "k \<le> 16 \<Longrightarrow> length (?p k) = 32 \<and> drop (k + 16) (?p k) = replicate (16 - k) 0 \<and> lval (?p k) = lval (take k x) * lval y" for k
  proof (induction k)
    case 0
    then show ?case by simp
  next
    case (Suc k)
    define p where "p = ?p k"
    have len: "length p = 32" and z: "drop (k + 16) p = replicate (16 - k) 0" and v: "lval p = lval (take k x) * lval y"
      using Suc unfolding p_def by auto
    have tk: "lval (take (Suc k) x) = lval (take k x) + base ^ k * unat (x ! k)"
      using Suc.prems assms(1) by (simp add: lval_take_Suc)
    have k: "16 - k = Suc (15 - k)" using Suc.prems by simp
    have z': "drop (k + 17) p = replicate (15 - k) 0"
      using arg_cong [OF z, of tl] by (simp add: tl_drop drop_Suc [symmetric] k add.commute)
    show ?case
    proof (cases "x ! k = 0")
      case True
      then have "?p (Suc k) = p" by (simp add: p_def [symmetric] mul_full_row_def)
      then show ?thesis using len z' v tk True by (simp add: add.commute)
    next
      case False
      define mid where "mid = take 16 (drop k p)"
      have midl: "length mid = 16" using len Suc.prems by (simp add: mid_def)
      obtain row c where row: "mul_row (x ! k) 0 y mid = (row, c)" by fastforce
      have n: "16 = min (length y) (length mid)" using midl assms(2) by simp
      have r: "length row = 16" "unat c < base" "lval row + base ^ 16 * unat c = unat (x ! k) * lval y + lval mid"
        using mul_row_val [OF _ n, of 0 "x ! k"] row midl assms(2) by simp_all
      have c: "unat (ucast c :: u32) = unat c" using r(2) by (simp add: unat_low32)
      have "drop k p = mid @ replicate (16 - k) 0"
        using z append_take_drop_id [of 16 "drop k p"] by (simp add: mid_def add.commute)
      then have p: "lval p = lval (take k p) + base ^ k * lval mid"
        using lval_take_drop [of k p] len Suc.prems by (simp add: lval_append)
      have upd: "?p (Suc k) = take k p @ row @ ucast c # replicate (15 - k) 0"
        using False len r(1) Suc.prems row
        by (simp add: p_def [symmetric] mul_full_row_def mid_def [symmetric] z k list_update_append nth_append Let_def)
      have "lval (?p (Suc k)) = lval (take k p) + base ^ k * (lval row + base ^ 16 * unat c)"
        unfolding upd using len r(1) Suc.prems by (simp add: lval_append c min_absorb2)
      also have "\<dots> = lval p + base ^ k * unat (x ! k) * lval y"
        unfolding r(3) p by (simp add: algebra_simps)
      also have "\<dots> = lval (take (Suc k) x) * lval y" by (simp add: v tk algebra_simps)
      finally have "lval (?p (Suc k)) = lval (take (Suc k) x) * lval y" .
      moreover have "length (?p (Suc k)) = 32" "drop (Suc k + 16) (?p (Suc k)) = replicate (16 - Suc k) 0"
        unfolding upd using len r(1) Suc.prems by (simp_all add: k)
      ultimately show ?thesis by blast
    qed
  qed
  from this [of 16] show ?thesis using assms(1) by (simp add: mul_full_def)
qed

section \<open>Comparisons\<close>

lemma lex_less:
  fixes x y a b m :: nat
  assumes "x < m" and "y < m"
  shows "x + m * a < y + m * b \<longleftrightarrow> a < b \<or> a = b \<and> x < y"
proof -
  have *: "x + m * a < y + m * b" if "a < b" "x < m" for x y a b
  proof -
    have "x + m * a < m * Suc a" using that by simp
    also have "\<dots> \<le> m * b" using that(1) by (intro mult_le_mono2) simp
    finally show ?thesis by simp
  qed
  show ?thesis
    using * [of a b x y] * [of b a y x] assms by (cases a b rule: linorder_cases) auto
qed

lemma less_rev_val: "length as = length bs \<Longrightarrow> less_rev as bs \<longleftrightarrow> lval (rev as) < lval (rev bs)"
proof (induction as bs rule: list_induct2)
  case (Cons a as b bs)
  have "lval (rev as) < base ^ length bs" "lval (rev bs) < base ^ length bs"
    using lval_bound [of "rev as"] lval_bound [of "rev bs"] Cons.hyps by simp_all
  then show ?case
    using Cons by (auto simp: lval_append lex_less word_less_nat_alt word_unat_eq_iff)
qed simp

lemma less512_val: "length x = length y \<Longrightarrow> less512 x y \<longleftrightarrow> lval x < lval y"
  by (simp add: less512_def less_rev_val)

lemma geq512_val: "length x = length y \<Longrightarrow> geq512 x y \<longleftrightarrow> lval y \<le> lval x"
  by (auto simp: geq512_def less512_val)

lemma geq_rev_less: "length as = length bs \<Longrightarrow> geq_rev as bs \<longleftrightarrow> \<not> less_rev as bs"
  by (induction as bs rule: list_induct2) auto

lemma geq_rev_mul_less: "length as = length bs \<Longrightarrow> as \<noteq> [] \<Longrightarrow> geq_rev_mul as bs \<longleftrightarrow> \<not> less_rev as bs"
proof (induction as bs rule: list_induct2)
  case (Cons a as b bs)
  then show ?case by (cases as) auto
qed simp

lemma is_zero_val: "is_zero x \<longleftrightarrow> lval x = 0"
  by (induction x) (auto simp: is_zero_def unat_eq_zero)

section \<open>Bits\<close>

lemma bit_lval: "i < 32 * length xs \<Longrightarrow> bit (lval xs) i \<longleftrightarrow> bit (xs ! (i div 32)) (i mod 32)"
proof (induction xs arbitrary: i)
  case (Cons x xs)
  show ?case
  proof (cases "i < 32")
    case True
    have e: "base * lval xs = 2 ^ i * (2 ^ (32 - i) * lval xs)"
      using True by (simp add: base_def power_add [symmetric])
    have "(unat x + base * lval xs) div 2 ^ i = unat x div 2 ^ i + 2 ^ (32 - i) * lval xs"
      unfolding e by simp
    moreover have "even (2 ^ (32 - i) * lval xs :: nat)" using True by simp
    ultimately have "bit (lval (x # xs)) i \<longleftrightarrow> bit (unat x) i" by (simp add: bit_iff_odd)
    then show ?thesis using True by (simp add: bit_unsigned_iff)
  next
    case False
    then obtain j where j: "i = 32 + j" by (metis le_add_diff_inverse not_less)
    have "(unat x + base * lval xs) div 2 ^ i = (unat x + base * lval xs) div base div 2 ^ j"
      by (simp only: j power_add base_def div_mult2_eq)
    also have "\<dots> = lval xs div 2 ^ j" by simp
    finally have "bit (lval (x # xs)) i \<longleftrightarrow> bit (lval xs) j" by (simp add: bit_iff_odd)
    then show ?thesis using Cons j by simp
  qed
qed simp

lemma bit_at_val: "i < 32 * length p \<Longrightarrow> bit_at p i = of_bool (bit (lval p) i)"
proof -
  assume i: "i < 32 * length p"
  have "bit_at p i = of_bool (bit (p ! (i div 32)) (i mod 32))"
    by (simp add: bit_at_def and_one_eq mod_2_eq_odd bit_iff_odd_drop_bit)
  then show ?thesis using bit_lval [OF i] by simp
qed

lemma nat_bit_step: "(X :: nat) div 2 ^ i = 2 * (X div 2 ^ Suc i) + of_bool (bit X i)"
proof -
  have "X div 2 ^ Suc i = X div 2 ^ i div 2" by (simp only: power_Suc2 div_mult2_eq)
  then show ?thesis using mult_div_mod_eq [of 2 "X div 2 ^ i"] by (simp add: bit_iff_odd mod_2_eq_odd)
qed

section \<open>The shift-in step of the bit-serial loops\<close>

lemma parity_gap: "even m \<Longrightarrow> even b \<Longrightarrow> m < b \<Longrightarrow> m + 1 < (b :: nat)"
  by presburger

lemma shl1_limb:
  fixes v c :: u32
  assumes "unat c \<le> 1"
  shows "unat (push_bit 1 v OR c) = (2 * unat v) mod base + unat c"
    and "unat (drop_bit 31 v) = (2 * unat v) div base"
proof -
  have c: "c = 0 \<or> c = 1" using assms by (auto simp: word_unat_eq_iff le_Suc_eq)
  have "push_bit 1 v OR c = push_bit 1 v + c"
    by (rule disjunctive_add [symmetric]) (use c in \<open>auto simp: bit_simps bit_1_iff bit_0\<close>)
  moreover have p: "unat (push_bit 1 v) = (2 * unat v) mod base"
    by (simp add: push_bit_eq_mult unat_word_ariths base_def mult.commute)
  moreover have "(2 * unat v) mod base + 1 < base"
  proof -
    have "even ((2 * unat v) mod base)" by (simp add: base_def dvd_mod)
    moreover have "even base" by (simp add: base_def)
    moreover have "(2 * unat v) mod base < base" by simp
    ultimately show ?thesis by (rule parity_gap)
  qed
  ultimately show "unat (push_bit 1 v OR c) = (2 * unat v) mod base + unat c"
    using unat_add_exact [of "push_bit 1 v" c] c by (auto simp: base_def)
  have "unat (drop_bit 31 v) = unat v div 2 ^ 31"
    using unat_drop_bit_eq [of 31 v] by (simp only: drop_bit_eq_div)
  also have "\<dots> = (2 * unat v) div (2 * 2 ^ 31)" by (rule div_mult_mult1 [symmetric]) simp
  finally show "unat (drop_bit 31 v) = (2 * unat v) div base" by (simp add: base_def)
qed

lemma shl1_val:
  assumes "unat c \<le> 1"
  shows "case shl1 c vs of (ws, c') \<Rightarrow> length ws = length vs \<and> unat c' \<le> 1 \<and>
     lval ws + base ^ length vs * unat c' = 2 * lval vs + unat c"
  using assms
proof (induction vs arbitrary: c)
  case (Cons v vs)
  note l = shl1_limb [OF Cons.prems, of v]
  have "2 * unat v < 2 * base" by simp
  then have hi: "unat (drop_bit 31 v) \<le> 1"
    unfolding l(2) using less_mult_imp_div_less [of "2 * unat v" 2 base] by linarith
  obtain ws c' where w: "shl1 (drop_bit 31 v) vs = (ws, c')" by fastforce
  have IH: "length ws = length vs" "unat c' \<le> 1" "lval ws + base ^ length vs * unat c' = 2 * lval vs + unat (drop_bit 31 v)"
    using Cons.IH [OF hi] w by simp_all
  have "unat (push_bit 1 v OR c) + base * (lval ws + base ^ length vs * unat c')
      = 2 * unat v + base * (2 * lval vs) + unat c"
    unfolding IH(3) l using mod_mult_div_eq [of "2 * unat v" base] by (simp add: algebra_simps)
  then show ?case using IH(1,2) w by (simp add: algebra_simps)
qed simp

lemma or_limb_val:
  assumes "i < 32 * length q" and "\<not> bit (lval q) i"
  shows "length (or_limb (i div 32) (push_bit (i mod 32) 1) q) = length q \<and>
    lval (or_limb (i div 32) (push_bit (i mod 32) 1) q) = lval q + 2 ^ i"
proof -
  let ?k = "i div 32" and ?m = "i mod 32"
  have k: "?k < length q" using assms(1) by (simp add: less_mult_imp_div_less mult.commute)
  have nb: "\<not> bit (q ! ?k) ?m" using assms bit_lval by blast
  have "unat (q ! ?k OR push_bit ?m 1) = set_bit ?m (unat (q ! ?k))"
    by (rule bit_eqI) (auto simp: bit_unsigned_iff bit_or_iff bit_push_bit_iff bit_1_iff bit_set_bit_iff bit_exp_iff possible_bit_def)
  also have "\<dots> = unat (q ! ?k) + 2 ^ ?m"
    using nb by (simp add: set_bit_eq bit_unsigned_iff)
  finally have p: "unat (q ! ?k OR push_bit ?m 1) = unat (q ! ?k) + 2 ^ ?m" .
  have "base ^ ?k * 2 ^ ?m = 2 ^ (32 * ?k + ?m)"
    by (simp only: base_def power_mult power_add)
  then have "base ^ ?k * 2 ^ ?m = 2 ^ i" by simp
  then show ?thesis
    using lval_update [OF k, of "q ! ?k OR push_bit ?m 1"] by (simp add: or_limb_def p [simplified] distrib_left)
qed

lemma or_limb_zero:
  assumes "length r = 16" and "even (lval r)" and "b \<le> 1"
  shows "length (or_limb 0 (of_nat b) r) = 16 \<and> lval (or_limb 0 (of_nat b) r) = lval r + b"
proof (cases "b = 0")
  case True
  then show ?thesis using assms(1) by (simp add: or_limb_def)
next
  case False
  then have "b = 1" using assms(3) by simp
  then show ?thesis using or_limb_val [of 0 r] assms by (simp add: bit_0)
qed

text \<open>
  Shifting a remainder left by one and bringing in a bit: the 513-bit result is the shifted-out
  bit over the new limbs.
\<close>

lemma shift_in:
  assumes "length r = 16" and "shl1 0 r = (r1, ov)" and "r2 = or_limb 0 (of_bool b) r1"
  shows "length r2 = 16" and "unat ov \<le> 1" and "lval r2 + base ^ 16 * unat ov = 2 * lval r + of_bool b"
proof -
  have s: "length r1 = 16" "unat ov \<le> 1" "lval r1 + base ^ 16 * unat ov = 2 * lval r"
    using shl1_val [of 0 r] assms(1,2) by simp_all
  have "even (lval r1 + base ^ 16 * unat ov)" unfolding s(3) by simp
  moreover have "even (base ^ 16 * unat ov)" by (simp add: base_def)
  ultimately have ev: "even (lval r1)" using dvd_add_left_iff by blast
  have "length r2 = 16 \<and> lval r2 = lval r1 + of_bool b"
    using or_limb_zero [OF s(1) ev, of "of_bool b"] assms(3) by simp
  then show "length r2 = 16" and "unat ov \<le> 1" and "lval r2 + base ^ 16 * unat ov = 2 * lval r + of_bool b"
    using s(2,3) by simp_all
qed

lemma sub512_val:
  assumes "length x = 16" and "length y = 16"
  shows "length (sub512 x y) = 16"
    and "int (lval (sub512 x y)) = (int (lval x) - int (lval y)) mod int base ^ 16"
  using sub_loop_val [of x y 0] assms by (simp_all add: sub512_def)

lemma sub512_exact:
  assumes "length x = 16" and "length y = 16" and "lval x + base ^ 16 * k = lval y + d" and "d < base ^ 16"
  shows "lval (sub512 x y) = d"
proof -
  have "int (lval x) - int (lval y) = int d + int base ^ 16 * (- int k)"
    using arg_cong [OF assms(3), of int] by simp
  then have "int (lval (sub512 x y)) = (int d + int base ^ 16 * (- int k)) mod int base ^ 16"
    using sub512_val(2) [OF assms(1,2)] by simp
  also have "\<dots> = int d mod int base ^ 16" by (rule mod_mult_self2)
  also have "\<dots> = int d" using assms(4) by (simp flip: of_nat_power)
  finally show ?thesis by simp
qed

text \<open>One conditional subtraction keeps the remainder reduced.\<close>

lemma reduce_step:
  assumes "length r = 16" and "length d = 16" and "lval r < lval d"
    and "shl1 0 r = (r1, ov)" and "r2 = or_limb 0 (of_bool b) r1"
  defines "V \<equiv> 2 * lval r + of_bool b"
  shows "ov \<noteq> 0 \<or> \<not> less_rev (rev r2) (rev d) \<longleftrightarrow> lval d \<le> V"
    and "lval d \<le> V \<Longrightarrow> length (sub512 r2 d) = 16 \<and> lval (sub512 r2 d) = V - lval d"
    and "V < lval d \<Longrightarrow> length r2 = 16 \<and> lval r2 = V"
    and "V < 2 * lval d"
proof -
  note s = shift_in [OF assms(1,4,5)]
  have V: "lval r2 + base ^ 16 * unat ov = V" using s(3) by (simp add: V_def)
  have d: "lval d < base ^ 16" using lval_bound [of d] assms(2) by simp
  show bound: "V < 2 * lval d" using assms(3) by (simp add: V_def)
  have ov: "ov = 0 \<or> unat ov = 1" using s(2) by (auto simp: word_unat_eq_iff le_Suc_eq)
  have less: "less_rev (rev r2) (rev d) \<longleftrightarrow> lval r2 < lval d"
    using less_rev_val [of "rev r2" "rev d"] s(1) assms(2) by simp
  show "ov \<noteq> 0 \<or> \<not> less_rev (rev r2) (rev d) \<longleftrightarrow> lval d \<le> V"
    using ov V d less by (auto simp: not_less)
  show "length (sub512 r2 d) = 16 \<and> lval (sub512 r2 d) = V - lval d" if "lval d \<le> V"
    using sub512_exact [OF s(1) assms(2), of "unat ov" "V - lval d"] sub512_val(1) [OF s(1) assms(2)] that V bound d
    by simp
  show "length r2 = 16 \<and> lval r2 = V" if "V < lval d"
    using ov V d that s(1) by auto
qed

section \<open>Most significant bit\<close>

lemma top_bit_search:
  fixes x :: u32
  assumes "unat x < 2 ^ n" and "x \<noteq> 0" and "n \<le> 32"
  shows "2 ^ (n - 1 - length (takeWhile (\<lambda>i. \<not> bit x i) (rev [0..<n]))) \<le> unat x \<and>
         unat x < 2 ^ Suc (n - 1 - length (takeWhile (\<lambda>i. \<not> bit x i) (rev [0..<n]))) \<and>
         length (takeWhile (\<lambda>i. \<not> bit x i) (rev [0..<n])) < n"
  using assms
proof (induction n)
  case 0
  then show ?case by (simp add: unat_eq_zero)
next
  case (Suc n)
  show ?case
  proof (cases "bit x n")
    case True
    have "bit (unat x) n" using True by (simp add: bit_unsigned_iff)
    then have "odd (unat x div 2 ^ n)" by (simp add: bit_iff_odd)
    then have "unat x div 2 ^ n \<noteq> 0" by (metis even_zero)
    then have "2 ^ n \<le> unat x" by (meson div_less not_less)
    then show ?thesis using True Suc.prems(1) by simp
  next
    case False
    have "\<not> bit (unat x) n" using False by (simp add: bit_unsigned_iff)
    then have "even (unat x div 2 ^ n)" by (simp add: bit_iff_odd)
    moreover have "unat x div 2 ^ n < 2" using Suc.prems(1) by (simp add: less_mult_imp_div_less)
    ultimately have "unat x div 2 ^ n = 0" by (auto simp: less_2_cases_iff)
    then have "unat x < 2 ^ n" by (simp add: div_eq_0_iff)
    then show ?thesis using Suc.IH False Suc.prems(2,3) by simp
  qed
qed

lemma clz32_val:
  assumes "x \<noteq> 0"
  shows "2 ^ (31 - clz32 x) \<le> unat x" and "unat x < 2 ^ Suc (31 - clz32 x)"
  using top_bit_search [of x 32] assms unsigned_less [of x] by (simp_all add: clz32_def)

lemma lval_take_zero_rest:
  assumes "k \<le> length x" and "\<forall>i. k \<le> i \<and> i < length x \<longrightarrow> x ! i = 0"
  shows "lval x = lval (take k x)"
proof -
  have "drop k x = replicate (length x - k) 0"
    using assms by (intro nth_equalityI) auto
  then show ?thesis using lval_take_drop [OF assms(1)] by simp
qed

lemma msb_loop_val:
  assumes "k \<le> length x" and "lval (take k x) \<noteq> 0"
  shows "2 ^ msb_loop x k \<le> lval (take k x) \<and> lval (take k x) < 2 ^ Suc (msb_loop x k) \<and> msb_loop x k < 32 * k"
  using assms
proof (induction k)
  case 0
  then show ?case by simp
next
  case (Suc k)
  have tk: "lval (take (Suc k) x) = lval (take k x) + base ^ k * unat (x ! k)"
    using Suc.prems(1) by (simp add: lval_take_Suc)
  show ?case
  proof (cases "x ! k = 0")
    case True
    then show ?thesis using Suc tk by auto
  next
    case False
    define s where "s = 31 - clz32 (x ! k)"
    have s: "2 ^ s \<le> unat (x ! k)" "unat (x ! k) < 2 ^ Suc s" "s < 32"
      using clz32_val [OF False] by (simp_all add: s_def)
    have b: "base ^ k = 2 ^ (32 * k)" by (simp add: base_def power_mult)
    have lo: "lval (take k x) < base ^ k" using lval_bound [of "take k x"] Suc.prems(1) by simp
    have "base ^ k * 2 ^ s \<le> base ^ k * unat (x ! k)" using s(1) by simp
    moreover have "2 ^ (s + k * 32) = base ^ k * 2 ^ s" by (simp add: b power_add mult.commute)
    ultimately have 1: "2 ^ (s + k * 32) \<le> lval (take (Suc k) x)" unfolding tk by linarith
    have "lval (take (Suc k) x) < base ^ k + base ^ k * unat (x ! k)" using lo tk by simp
    also have "\<dots> = base ^ k * Suc (unat (x ! k))" by simp
    also have "\<dots> \<le> base ^ k * 2 ^ Suc s" using s(2) by (intro mult_le_mono2) simp
    finally have 2: "lval (take (Suc k) x) < 2 ^ Suc (s + k * 32)"
      by (simp add: b power_add mult.commute)
    show ?thesis using 1 2 s(3) False by (simp add: s_def)
  qed
qed

lemma msb512_val:
  assumes "length x = 16" and "lval x \<noteq> 0"
  shows "2 ^ msb512 x \<le> lval x" and "lval x < 2 ^ Suc (msb512 x)" and "msb512 x < 512"
  using msb_loop_val [of 16 x] assms by (simp_all add: msb512_def)

section \<open>Bit-serial division\<close>

lemma div_step_val:
  assumes "length x = 16" and "length d = 16" and "0 < lval d" and "i < 512"
    and "length q = 16" and "length r = 16"
    and "lval r = (lval x div 2 ^ Suc i) mod lval d"
    and "lval q = 2 ^ Suc i * ((lval x div 2 ^ Suc i) div lval d)"
  shows "case div_step x d i (q, r) of (q', r') \<Rightarrow> length q' = 16 \<and> length r' = 16 \<and>
     lval r' = (lval x div 2 ^ i) mod lval d \<and> lval q' = 2 ^ i * ((lval x div 2 ^ i) div lval d)"
proof -
  define Y where "Y = lval x div 2 ^ Suc i"
  define b where "b = bit (lval x) i"
  obtain r1 ov where sh: "shl1 0 r = (r1, ov)" by fastforce
  define r2 where "r2 = or_limb 0 (of_bool b) r1"
  define V where "V = 2 * lval r + of_bool b"
  have bit: "bit_at x i = of_bool b" using bit_at_val [of i x] assms(1,4) by (simp add: b_def)
  have rd: "lval r < lval d" using assms(3,7) by simp
  note red = reduce_step [OF assms(6,2) rd sh r2_def, folded V_def]
  have nb: "\<not> bit (lval q) i" unfolding assms(8) by (simp add: bit_iff_odd)
  have q: "lval q = 2 * 2 ^ i * (Y div lval d)" using assms(8) by (simp add: Y_def)
  have qi: "i < 32 * length q" using assms(4,5) by simp
  have geq: "(if ov \<noteq> 0 then True else geq_rev (rev r2) (rev d)) \<longleftrightarrow> lval d \<le> V"
    using red(1) geq_rev_less [of "rev r2" "rev d"] shift_in(1) [OF assms(6) sh r2_def] assms(2) by auto
  have X: "lval x div 2 ^ i = 2 * Y + of_bool b" unfolding Y_def b_def by (rule nat_bit_step)
  have YV: "2 * Y + of_bool b = V + lval d * (2 * (Y div lval d))"
    unfolding V_def assms(7) Y_def [symmetric] using mult_div_mod_eq [of "lval d" Y] by linarith
  show ?thesis
  proof (cases "lval d \<le> V")
    case True
    have "(2 * Y + of_bool b) div lval d = 2 * (Y div lval d) + 1" "(2 * Y + of_bool b) mod lval d = V - lval d"
      using True red(4) assms(3) YV div_mult_self2 [of "lval d" V "2 * (Y div lval d)"]
      by (simp_all add: YV le_div_geq le_mod_geq)
    then show ?thesis
      using True geq red(2) [OF True] or_limb_val [OF qi nb] assms(5) q X
      by (simp add: div_step_def sh bit r2_def [symmetric] Let_def algebra_simps)
  next
    case False
    then have "(2 * Y + of_bool b) div lval d = 2 * (Y div lval d)" "(2 * Y + of_bool b) mod lval d = V"
      using assms(3) YV by (simp_all add: YV)
    then show ?thesis
      using False geq red(3) assms(5) q X
      by (simp add: div_step_def sh bit r2_def [symmetric] Let_def split: if_splits)
  qed
qed

lemma zero_vals [simp]:
  "lval (uint512_u32 v) = unat v" "length (uint512_u32 v) = 16" "lval zero512 = 0" "length zero512 = 16"
  by (simp_all add: uint512_u32_def zero512_def)

lemma div_loop_val:
  assumes "length x = 16" and "length d = 16" and "0 < lval d" and "lval x < 2 ^ n" and "n \<le> 512"
  shows "case fold (div_step x d) (rev [0..<n]) (uint512_u32 0, uint512_u32 0) of (q, r) \<Rightarrow>
     length q = 16 \<and> length r = 16 \<and> lval r = lval x mod lval d \<and> lval q = lval x div lval d"
proof -
  have step: "case fold (div_step x d) (rev [0..<k]) (q, r) of (q', r') \<Rightarrow>
     length q' = 16 \<and> length r' = 16 \<and> lval r' = lval x mod lval d \<and> lval q' = lval x div lval d"
    if "k \<le> 512" "length q = 16" "length r = 16" "lval r = (lval x div 2 ^ k) mod lval d"
      "lval q = 2 ^ k * ((lval x div 2 ^ k) div lval d)" for k q r
    using that
  proof (induction k arbitrary: q r)
    case (Suc k)
    obtain q' r' where s: "div_step x d k (q, r) = (q', r')" by fastforce
    have "length q' = 16 \<and> length r' = 16 \<and> lval r' = (lval x div 2 ^ k) mod lval d \<and>
        lval q' = 2 ^ k * ((lval x div 2 ^ k) div lval d)"
      using div_step_val [OF assms(1-3) _ Suc.prems(2,3,4,5)] Suc.prems(1) s by simp
    then show ?case using Suc.IH [of q' r'] Suc.prems(1) s by simp
  qed simp
  show ?thesis using step [of n "uint512_u32 0" "uint512_u32 0"] assms(4,5) by simp
qed

lemma div_mod_core_val:
  assumes "length x = 16" and "length d = 16" and "lval d \<noteq> 0"
  obtains q r where "div_mod_core x d = (q, Some r)" "length q = 16" "length r = 16"
    "lval q = lval x div lval d" "lval r = lval x mod lval d"
proof (cases "lval x < lval d")
  case True
  then have "div_mod_core x d = (uint512_u32 0, Some x)"
    using assms by (simp add: div_mod_core_def is_zero_val less512_val)
  then show thesis using that [of "uint512_u32 0" x] True assms(1) by simp
next
  case False
  then have x: "lval x \<noteq> 0" using assms(3) by linarith
  note m = msb512_val [OF assms(1) x]
  obtain q r where f: "fold (div_step x d) (rev [0..<msb512 x + 1]) (uint512_u32 0, uint512_u32 0) = (q, r)" by fastforce
  have "length q = 16 \<and> length r = 16 \<and> lval r = lval x mod lval d \<and> lval q = lval x div lval d"
    using div_loop_val [OF assms(1,2), of "msb512 x + 1"] assms(3) m f by simp
  moreover have "div_mod_core x d = (q, Some r)"
    using False assms f by (simp add: div_mod_core_def is_zero_val less512_val del: upt_Suc)
  ultimately show thesis using that by blast
qed

lemma div512_val:
  assumes "length x = 16" and "length d = 16" and "lval d \<noteq> 0"
  shows "length (div512 x d) = 16 \<and> lval (div512 x d) = lval x div lval d"
    and "length (mod512 x d) = 16 \<and> lval (mod512 x d) = lval x mod lval d"
  using div_mod_core_val [OF assms] by (metis div512_def fst_conv) (metis div_mod_core_val [OF assms] mod512_def snd_conv option.simps(5))

end
