(* ===== verification/Uint512_Arith.thy ===== *)
theory Uint512_Arith
  imports Uint512
begin

text \<open>
  Correctness of the 512-bit integer against the natural numbers: shifts, division by machine
  integers, modular arithmetic, the Newton square root, the polynomial value and the decimal text.
\<close>

unbundle bit_operations_syntax

section \<open>Division by a machine integer\<close>

lemma join_bound: "x < m \<Longrightarrow> y < base \<Longrightarrow> x * base + y < m * base"
proof -
  assume "x < m" "y < base"
  then have "x * base + y < Suc x * base" by simp
  also have "\<dots> \<le> m * base" using \<open>x < m\<close> by (intro mult_le_mono1) simp
  finally show ?thesis .
qed

lemma join64:
  fixes w :: u64
  assumes "unat w < base"
  shows "unat (push_bit 32 w OR ucast (l :: u32)) = unat w * base + unat l"
proof -
  have "push_bit 32 w OR (ucast l :: u64) = push_bit 32 w + ucast l"
    by (rule disjunctive_add [symmetric]) (auto simp: bit_simps dest: bit_imp_le_length)
  moreover have "unat (push_bit 32 w) = unat w * base"
    using assms by (simp add: push_bit_eq_mult unat_word_ariths base_def)
  moreover have "unat w * base + unat l < 2 ^ 64"
    using join_bound [OF assms unat_limb [of l]] by (simp add: base_def)
  ultimately show ?thesis using unat_add_exact [of "push_bit 32 w" "ucast l :: u64"] by simp
qed

lemma join128:
  fixes w :: u128
  assumes "unat w < 2 ^ 64"
  shows "unat (push_bit 32 w OR ucast (l :: u32)) = unat w * base + unat l"
proof -
  have "push_bit 32 w OR (ucast l :: u128) = push_bit 32 w + ucast l"
    by (rule disjunctive_add [symmetric]) (auto simp: bit_simps dest: bit_imp_le_length)
  moreover have "unat (push_bit 32 w) = unat w * base"
    using assms by (simp add: push_bit_eq_mult unat_word_ariths base_def)
  moreover have "unat w * base + unat l < 2 ^ 128"
    using join_bound [OF assms unat_limb [of l]] by (simp add: base_def)
  ultimately show ?thesis using unat_add_exact [of "push_bit 32 w" "ucast l :: u128"] by simp
qed

text \<open>One digit of a long division: the quotient digit fits a limb and the remainder is reduced.\<close>

lemma long_division_digit:
  fixes rem d l n Q R q r :: nat
  assumes "rem < d" and "l < base"
    and "Q * d + R = ((rem * base + l) mod d) * base ^ n + T" and "R < d"
  shows "(rem * base + l) div d < base"
    and "(Q + base ^ n * ((rem * base + l) div d)) * d + R = rem * base ^ Suc n + (T + base ^ n * l)"
proof -
  have "rem * base + l < d * base" by (rule join_bound [OF assms(1,2)])
  then show "(rem * base + l) div d < base" by (simp add: less_mult_imp_div_less mult.commute)
  define a m where "a = (rem * base + l) div d" and "m = (rem * base + l) mod d"
  have c: "a * d + m = rem * base + l" by (simp add: a_def m_def)
  have "(Q + base ^ n * a) * d + R = (Q * d + R) + base ^ n * (a * d)" by (simp add: algebra_simps)
  also have "\<dots> = base ^ n * (a * d + m) + T"
    unfolding assms(3) m_def [symmetric] by (simp add: algebra_simps)
  finally show "(Q + base ^ n * ((rem * base + l) div d)) * d + R = rem * base ^ Suc n + (T + base ^ n * l)"
    unfolding c by (simp add: a_def algebra_simps)
qed

lemma div_loop32_val:
  assumes "unat rem < unat d" and "unat d < base"
  shows "case div_loop32 d rem ls of (qs, r) \<Rightarrow> length qs = length ls \<and> unat r < unat d \<and>
     lval (rev qs) * unat d + unat r = unat rem * base ^ length ls + lval (rev ls)"
  using assms(1)
proof (induction ls arbitrary: rem)
  case (Cons l ls)
  define cur where "cur = push_bit 32 rem OR (ucast l :: u64)"
  have cur: "unat cur = unat rem * base + unat l"
    unfolding cur_def using Cons.prems assms(2) by (intro join64) simp
  have m: "unat (cur mod d) = unat cur mod unat d" "unat (cur div d) = unat cur div unat d"
    by (simp_all add: unat_mod_distrib unat_div_distrib)
  have lt: "unat (cur mod d) < unat d" using Cons.prems by (simp add: m)
  obtain qs r where q: "div_loop32 d (cur mod d) ls = (qs, r)" by fastforce
  have IH: "length qs = length ls" "unat r < unat d"
      "lval (rev qs) * unat d + unat r = ((unat rem * base + unat l) mod unat d) * base ^ length ls + lval (rev ls)"
    using Cons.IH [OF lt] q by (simp_all add: m cur)
  note dig = long_division_digit [OF Cons.prems unat_limb IH(3,2)]
  have "unat (ucast (cur div d) :: u32) = (unat rem * base + unat l) div unat d"
    using dig(1) by (simp add: unat_low32 m cur)
  then show ?case using IH(1,2) dig(2) q
    by (simp add: Let_def cur_def [symmetric] lval_append)
qed simp

lemma div_loop64_val:
  assumes "unat rem < unat d" and "unat d < 2 ^ 64"
  shows "case div_loop64 d rem ls of (qs, r) \<Rightarrow> length qs = length ls \<and> unat r < unat d \<and>
     lval (rev qs) * unat d + unat r = unat rem * base ^ length ls + lval (rev ls)"
  using assms(1)
proof (induction ls arbitrary: rem)
  case (Cons l ls)
  define cur where "cur = push_bit 32 rem OR (ucast l :: u128)"
  have cur: "unat cur = unat rem * base + unat l"
    unfolding cur_def using Cons.prems assms(2) by (intro join128) simp
  have m: "unat (cur mod d) = unat cur mod unat d" "unat (cur div d) = unat cur div unat d"
    by (simp_all add: unat_mod_distrib unat_div_distrib)
  have lt: "unat (cur mod d) < unat d" using Cons.prems by (simp add: m)
  obtain qs r where q: "div_loop64 d (cur mod d) ls = (qs, r)" by fastforce
  have IH: "length qs = length ls" "unat r < unat d"
      "lval (rev qs) * unat d + unat r = ((unat rem * base + unat l) mod unat d) * base ^ length ls + lval (rev ls)"
    using Cons.IH [OF lt] q by (simp_all add: m cur)
  note dig = long_division_digit [OF Cons.prems unat_limb IH(3,2)]
  have "unat (ucast (cur div d) :: u32) = (unat rem * base + unat l) div unat d"
    using dig(1) by (simp add: unat_low32 m cur)
  then show ?case using IH(1,2) dig(2) q
    by (simp add: Let_def cur_def [symmetric] lval_append)
qed simp

lemma div_mod_unique: "(q :: nat) * d + r = x \<Longrightarrow> r < d \<Longrightarrow> q = x div d \<and> r = x mod d"
  by (metis add.commute add_cancel_right_right div_less div_mult_self3 less_nat_zero_code mod_less mod_mult_self3)

lemma fold_mod_div_loop32:
  "fold (\<lambda>l rem. (push_bit 32 rem OR ucast l) mod d) ls rem = snd (div_loop32 d rem ls)"
  by (induction ls arbitrary: rem) (simp_all add: Let_def split: prod.splits)

lemma fold_mod_div_loop64:
  "fold (\<lambda>l rem. (push_bit 32 rem OR ucast l) mod d) ls rem = snd (div_loop64 d rem ls)"
  by (induction ls arbitrary: rem) (simp_all add: Let_def split: prod.splits)

lemma div_uint32_val:
  assumes "length x = 16" and "d \<noteq> 0"
  obtains q where "div_uint32_inplace d x = (of_nat (lval x mod unat d), q)" "div_uint32_const d x = q"
    "mod_uint32 d x = of_nat (lval x mod unat d)" "length q = 16" "lval q = lval x div unat d"
proof -
  obtain qs r where q: "div_loop32 (ucast d) 0 (rev x) = (qs, r)" by fastforce
  have d: "0 < unat d" using assms(2) by (simp add: unat_gt_0)
  have v: "length qs = 16" "unat r < unat d" "lval (rev qs) * unat d + unat r = lval x"
    using div_loop32_val [of 0 "ucast d" "rev x"] q d assms(1) by simp_all
  have u: "lval (rev qs) = lval x div unat d" "unat r = lval x mod unat d"
    using div_mod_unique [OF v(3,2)] by simp_all
  have r: "ucast r = (of_nat (lval x mod unat d) :: u32)"
    by (simp add: u(2) [symmetric])
  show thesis
    by (rule that [of "rev qs"])
      (simp_all add: div_uint32_inplace_def div_uint32_const_def mod_uint32_def assms(2) fold_mod_div_loop32 q r v(1) u(1))
qed

lemma div_uint64_val:
  assumes "length x = 16" and "d \<noteq> 0"
  obtains q where "div_uint64_inplace d x = (of_nat (lval x mod unat d), q)"
    "mod_uint64 d x = of_nat (lval x mod unat d)" "length q = 16" "lval q = lval x div unat d"
proof -
  obtain qs r where q: "div_loop64 (ucast d) 0 (rev x) = (qs, r)" by fastforce
  have d: "0 < unat d" using assms(2) by (simp add: unat_gt_0)
  have v: "length qs = 16" "unat r < unat d" "lval (rev qs) * unat d + unat r = lval x"
    using div_loop64_val [of 0 "ucast d" "rev x"] q d assms(1) by simp_all
  have u: "lval (rev qs) = lval x div unat d" "unat r = lval x mod unat d"
    using div_mod_unique [OF v(3,2)] by simp_all
  have r: "ucast r = (of_nat (lval x mod unat d) :: u64)"
    by (simp add: u(2) [symmetric])
  show thesis
    by (rule that [of "rev qs"])
      (simp_all add: div_uint64_inplace_def mod_uint64_def assms(2) fold_mod_div_loop64 q r v(1) u(1))
qed

section \<open>Shifts\<close>

lemma unat_pow2: "k < 32 \<Longrightarrow> unat ((2 :: u32) ^ k) = 2 ^ k"
proof -
  assume "k < 32"
  then have "(2 :: nat) ^ k < 2 ^ 32" by (intro power_strict_increasing) simp_all
  moreover have "(2 :: u32) ^ k = of_nat (2 ^ k)" by simp
  ultimately show ?thesis by (simp only: unat_of_nat take_bit_eq_mod) simp
qed

lemma shr_limb:
  fixes l m :: u32
  assumes "0 < b" and "b < 32"
  shows "unat (drop_bit b l OR push_bit (32 - b) m) = unat l div 2 ^ b + 2 ^ (32 - b) * (unat m mod 2 ^ b)"
    and "unat (drop_bit b l) = unat l div 2 ^ b"
proof -
  show lo: "unat (drop_bit b l) = unat l div 2 ^ b"
    using unat_drop_bit_eq [of b l] by (simp only: drop_bit_eq_div)
  have "(2 :: nat) ^ 32 = 2 ^ (32 - b) * 2 ^ b" using assms by (simp flip: power_add)
  then have "unat (push_bit (32 - b) m) = (2 ^ (32 - b) * unat m) mod (2 ^ (32 - b) * 2 ^ b)"
    using assms by (simp add: push_bit_eq_mult unat_word_ariths unat_pow2 mult.commute)
  then have hi: "unat (push_bit (32 - b) m) = 2 ^ (32 - b) * (unat m mod 2 ^ b)" by (simp only: mult_mod_right)
  have "drop_bit b l OR push_bit (32 - b) m = drop_bit b l + push_bit (32 - b) m"
    by (rule disjunctive_add [symmetric]) (use assms in \<open>auto simp: bit_simps dest: bit_imp_le_length\<close>)
  moreover have "unat l div 2 ^ b + 2 ^ (32 - b) * (unat m mod 2 ^ b) < 2 ^ 32"
  proof -
    have "unat l < 2 ^ (32 - b) * 2 ^ b" using unsigned_less [of l] assms by (simp flip: power_add)
    then have "unat l div 2 ^ b < 2 ^ (32 - b)" by (simp add: less_mult_imp_div_less)
    moreover have "2 ^ (32 - b) * Suc (unat m mod 2 ^ b) \<le> 2 ^ (32 - b) * 2 ^ b"
      by (intro mult_le_mono2) (simp add: Suc_le_eq)
    moreover have "2 ^ (32 - b) * 2 ^ b = (2 :: nat) ^ 32" using assms by (simp flip: power_add)
    ultimately show ?thesis by simp
  qed
  ultimately show "unat (drop_bit b l OR push_bit (32 - b) m) = unat l div 2 ^ b + 2 ^ (32 - b) * (unat m mod 2 ^ b)"
    using unat_add_exact [of "drop_bit b l" "push_bit (32 - b) m"] lo hi by simp
qed

lemma base_split: "b \<le> 32 \<Longrightarrow> base = 2 ^ (32 - b) * 2 ^ b"
  by (simp add: base_def flip: power_add)

lemma shr_loop_val:
  assumes "0 < b" and "b < 32"
  shows "length (shr_loop b xs) = length xs \<and> lval (shr_loop b xs) = lval xs div 2 ^ b"
  using assms
proof (induction b xs rule: shr_loop.induct)
  case (3 b l m ls)
  define M where "M = lval (m # ls)"
  have bs: "base = 2 ^ (32 - b) * 2 ^ b" using "3.prems" by (intro base_split) simp
  have "lval (l # m # ls) div 2 ^ b = (unat l + 2 ^ b * (2 ^ (32 - b) * M)) div 2 ^ b"
    by (simp add: M_def bs algebra_simps)
  also have "\<dots> = unat l div 2 ^ b + 2 ^ (32 - b) * M" by simp
  also have "M = 2 ^ b * (M div 2 ^ b) + M mod 2 ^ b" by simp
  also have "M mod 2 ^ b = unat m mod 2 ^ b"
    unfolding M_def by (simp add: bs mult.assoc mult.left_commute [of _ "2 ^ b"])
  finally have "lval (l # m # ls) div 2 ^ b
      = unat l div 2 ^ b + 2 ^ (32 - b) * (unat m mod 2 ^ b) + base * (M div 2 ^ b)"
    by (simp add: bs algebra_simps)
  then show ?case using "3.IH" [OF "3.prems"] shr_limb(1) [OF "3.prems"] by (simp add: M_def)
qed (simp_all add: shr_limb(2))

lemma rshift_val:
  assumes "length x = 16"
  shows "length (rshift n x) = 16 \<and> lval (rshift n x) = lval x div 2 ^ n"
proof -
  consider (zero) "n = 0" | (big) "512 \<le> n" | (mid) "0 < n" "n < 512" by linarith
  then show ?thesis
  proof cases
    case big
    have "lval x < base ^ 16" using lval_bound [of x] assms by simp
    also have "\<dots> = 2 ^ 512" by (simp add: base_def flip: power_mult)
    also have "\<dots> \<le> 2 ^ n" using big by (intro power_increasing) simp_all
    finally show ?thesis using big by (simp add: rshift_def)
  next
    case mid
    let ?k = "n div 32" and ?b = "n mod 32"
    define x1 where "x1 = (if ?k > 0 then drop ?k x @ replicate ?k 0 else x)"
    have k: "?k < 16" using mid by (simp add: less_mult_imp_div_less)
    have "lval x = lval (take ?k x) + base ^ ?k * lval (drop ?k x)" using k assms by (intro lval_take_drop) simp
    moreover have "lval (take ?k x) < base ^ ?k" using lval_bound [of "take ?k x"] k assms by simp
    ultimately have "lval (drop ?k x) = lval x div base ^ ?k" by simp
    then have x1: "length x1 = 16" "lval x1 = lval x div 2 ^ (32 * ?k)"
      using k assms by (auto simp: x1_def lval_append base_def power_mult)
    have n: "n = 32 * ?k + ?b" by simp
    have "lval x1 div 2 ^ ?b = lval x div 2 ^ n"
      unfolding x1(2) by (subst (3) n) (simp only: power_add div_mult2_eq)
    then show ?thesis
      using mid shr_loop_val [of ?b x1] x1 by (cases "?b = 0") (simp_all add: rshift_def x1_def [symmetric] Let_def)
  qed (simp_all add: rshift_def assms)
qed

lemma shl_limb:
  fixes l below :: u32
  assumes "0 < b" and "b < 32"
  defines "X \<equiv> unat l * 2 ^ b + unat below div 2 ^ (32 - b)"
  shows "unat (push_bit b l OR drop_bit (32 - b) below) = X mod base"
    and "unat l div 2 ^ (32 - b) = X div base"
proof -
  have bs: "base = 2 ^ b * 2 ^ (32 - b)" using base_split [of b] assms(2) by (simp add: mult.commute)
  have lo: "unat below div 2 ^ (32 - b) < 2 ^ b"
    using unat_limb [of below] by (simp add: bs less_mult_imp_div_less)
  have hi: "unat (push_bit b l) = 2 ^ b * (unat l mod 2 ^ (32 - b))"
    using assms(2) by (simp add: push_bit_eq_mult unat_word_ariths unat_pow2 mult_mod_right mult.commute flip: power_add)
  have X: "X = unat below div 2 ^ (32 - b) + 2 ^ b * unat l" by (simp add: X_def)
  have "X div base = X div 2 ^ b div 2 ^ (32 - b)" by (simp only: bs div_mult2_eq)
  then show "unat l div 2 ^ (32 - b) = X div base" using lo by (simp add: X)
  have Xm: "X mod base = 2 ^ b * (unat l mod 2 ^ (32 - b)) + unat below div 2 ^ (32 - b)"
    using lo by (simp add: bs mod_mult2_eq X)
  have "push_bit b l OR drop_bit (32 - b) below = push_bit b l + drop_bit (32 - b) below"
    by (rule disjunctive_add [symmetric]) (use assms(1,2) in \<open>auto simp: bit_simps dest: bit_imp_le_length\<close>)
  moreover have "unat (drop_bit (32 - b) below) = unat below div 2 ^ (32 - b)"
    using unat_drop_bit_eq [of "32 - b" below] by (simp only: drop_bit_eq_div)
  moreover have "X mod base < 2 ^ 32" using mod_less_divisor [of base X] by (simp add: base_def)
  ultimately show "unat (push_bit b l OR drop_bit (32 - b) below) = X mod base"
    using unat_add_exact [of "push_bit b l" "drop_bit (32 - b) below"] hi Xm by simp
qed

lemma shl_loop_val:
  assumes "0 < b" and "b < 32"
  shows "length (shl_loop b below xs) = length xs \<and>
    lval (shl_loop b below xs) = (lval xs * 2 ^ b + unat below div 2 ^ (32 - b)) mod base ^ length xs"
proof (induction xs arbitrary: below)
  case (Cons l ls)
  define X where "X = unat l * 2 ^ b + unat below div 2 ^ (32 - b)"
  note s = shl_limb [OF assms, of l below, folded X_def]
  have "X + base * (lval ls * 2 ^ b) = lval (l # ls) * 2 ^ b + unat below div 2 ^ (32 - b)"
    by (simp add: X_def algebra_simps)
  then show ?case
    using Cons.IH [of l] carry_step_nat [of base X "lval ls * 2 ^ b" "base ^ length ls"] by (simp add: s)
qed simp

lemma pow512: "base ^ 16 = 2 ^ 512"
  by (simp add: base_def flip: power_mult)

lemma lshift_val:
  assumes "length x = 16"
  shows "length (lshift n x) = 16 \<and> lval (lshift n x) = (lval x * 2 ^ n) mod base ^ 16"
proof -
  consider (zero) "n = 0" | (big) "512 \<le> n" | (mid) "0 < n" "n < 512" by linarith
  then show ?thesis
  proof cases
    case zero
    then show ?thesis using lval_bound [of x] assms by (simp add: lshift_def)
  next
    case big
    then have "(2 :: nat) ^ n = base ^ 16 * 2 ^ (n - 512)"
      using power_add [of "2 :: nat" 512 "n - 512"] by (simp only: pow512 le_add_diff_inverse)
    then have "(lval x * 2 ^ n) mod base ^ 16 = 0" by simp
    then show ?thesis using big by (simp add: lshift_def)
  next
    case mid
    let ?k = "n div 32" and ?b = "n mod 32"
    define x1 where "x1 = (if ?k > 0 then replicate ?k 0 @ take (16 - ?k) x else x)"
    have k: "?k < 16" using mid by (simp add: less_mult_imp_div_less)
    have bk: "base ^ ?k * base ^ (16 - ?k) = base ^ 16" using k by (simp flip: power_add)
    have "lval x = lval (take (16 - ?k) x) + base ^ (16 - ?k) * lval (drop (16 - ?k) x)"
      using assms by (intro lval_take_drop) simp
    then have "base ^ ?k * lval x = base ^ ?k * lval (take (16 - ?k) x) + base ^ 16 * lval (drop (16 - ?k) x)"
      by (simp add: distrib_left flip: bk)
    then have "(base ^ ?k * lval x) mod base ^ 16 = (base ^ ?k * lval (take (16 - ?k) x)) mod base ^ 16" by simp
    moreover have "base ^ ?k * lval (take (16 - ?k) x) < base ^ 16"
      using lval_bound [of "take (16 - ?k) x"] assms k by (simp flip: bk)
    ultimately have "base ^ ?k * lval (take (16 - ?k) x) = (base ^ ?k * lval x) mod base ^ 16" by simp
    then have x1: "length x1 = 16" "lval x1 = (lval x * 2 ^ (32 * ?k)) mod base ^ 16"
      using k assms lval_bound [of x] by (auto simp: x1_def lval_append base_def power_mult mult.commute)
    have n: "n = 32 * ?k + ?b" by simp
    have "(lval x1 * 2 ^ ?b) mod base ^ 16 = (lval x * 2 ^ (32 * ?k) * 2 ^ ?b) mod base ^ 16"
      unfolding x1(2) by (rule mod_mult_left_eq)
    also have "lval x * 2 ^ (32 * ?k) * 2 ^ ?b = lval x * 2 ^ n" by (subst (3) n) (simp only: power_add mult.assoc)
    finally show ?thesis
      using mid shl_loop_val [of ?b 0 x1] x1 by (cases "?b = 0") (simp_all add: lshift_def x1_def [symmetric] Let_def)
  qed
qed


section \<open>The ring operations\<close>

lemma add512_val:
  assumes "length x = 16" and "length y = 16"
  shows "length (add512 x y) = 16 \<and> lval (add512 x y) = (lval x + lval y) mod base ^ 16"
  using add_loop_val [of x y 0] assms by (simp add: add512_def)

lemma mul_uint64_val:
  assumes "length x = 16"
  shows "length (snd (mul_uint64_inplace v x)) = 16 \<and>
    lval (snd (mul_uint64_inplace v x)) + base ^ 16 * unat (fst (mul_uint64_inplace v x)) = unat v * lval x"
  using mul_wide_val [where c = 0 and v = v and as = x] assms by (simp add: mul_uint64_inplace_def split: prod.splits)

section \<open>Modular arithmetic\<close>

lemma limb_bound512: "length x = 16 \<Longrightarrow> lval x < base ^ 16"
  using lval_bound [of x] by simp

lemma add_mod_val:
  assumes "length x = 16" "length y = 16" "length n = 16" and "lval x < lval n" "lval y < lval n"
  shows "length (add_mod x y n) = 16 \<and> lval (add_mod x y n) = (lval x + lval y) mod lval n"
proof -
  define s where "s = add512 x y"
  have s: "length s = 16" "lval s = (lval x + lval y) mod base ^ 16"
    using add512_val [OF assms(1,2)] by (simp_all add: s_def)
  note b = limb_bound512 [OF assms(1)] limb_bound512 [OF assms(2)] limb_bound512 [OF assms(3)]
  have wrap: "\<exists>k. lval s + base ^ 16 * k = lval x + lval y \<and> (k = 0 \<or> k = 1)"
  proof (cases "lval x + lval y < base ^ 16")
    case True
    then show ?thesis using s(2) by (intro exI [of _ 0]) simp
  next
    case False
    then have "lval s = lval x + lval y - base ^ 16" using b s(2) by (simp add: le_mod_geq)
    then show ?thesis using False by (intro exI [of _ 1]) simp
  qed
  then obtain k where k: "lval s + base ^ 16 * k = lval x + lval y" "k = 0 \<or> k = 1" by blast
  have test: "less512 s x \<or> geq512 s n \<longleftrightarrow> lval n \<le> lval x + lval y"
    using k b assms(4,5) by (auto simp: less512_val geq512_val s(1) assms(1,3))
  show ?thesis
  proof (cases "lval n \<le> lval x + lval y")
    case True
    then have "lval (sub512 s n) = lval x + lval y - lval n"
      using sub512_exact [OF s(1) assms(3), of k "lval x + lval y - lval n"] k b assms(4,5) by simp
    moreover have "(lval x + lval y) mod lval n = lval x + lval y - lval n"
      using True assms(4,5) by (simp add: le_mod_geq)
    ultimately show ?thesis
      using True test sub512_val(1) [OF s(1) assms(3)] by (simp add: add_mod_def s_def [symmetric])
  next
    case False
    then have "lval s = lval x + lval y" using k b by auto
    then show ?thesis using False test s(1) by (simp add: add_mod_def s_def [symmetric])
  qed
qed

lemma sub_mod_val:
  assumes "length x = 16" "length y = 16" "length n = 16" and "lval x < lval n" "lval y < lval n"
  shows "length (sub_mod x y n) = 16 \<and> lval (sub_mod x y n) = (lval x + lval n - lval y) mod lval n"
proof -
  define s where "s = sub512 x y"
  have len: "length s = 16" using sub512_val(1) [OF assms(1,2)] by (simp add: s_def)
  note b = limb_bound512 [OF assms(1)] limb_bound512 [OF assms(2)] limb_bound512 [OF assms(3)]
  show ?thesis
  proof (cases "lval x < lval y")
    case True
    have s: "lval s = base ^ 16 + lval x - lval y"
      using sub512_exact [OF assms(1,2), of 1 "base ^ 16 + lval x - lval y"] True b by (simp add: s_def)
    have "lval s + lval n = (lval x + lval n - lval y) + base ^ 16" using s True b assms(5) by linarith
    then have "(lval s + lval n) mod base ^ 16 = (lval x + lval n - lval y) mod base ^ 16" by simp
    also have "\<dots> = lval x + lval n - lval y" using True b assms(4) by simp
    also have "\<dots> = (lval x + lval n - lval y) mod lval n" using True assms(5) by simp
    finally show ?thesis
      using True add512_val [OF len assms(3)] assms(1,2) by (simp add: sub_mod_def less512_val s_def [symmetric])
  next
    case False
    have "lval s = lval x - lval y"
      using sub512_exact [OF assms(1,2), of 0 "lval x - lval y"] False b by (simp add: s_def)
    moreover have "(lval x + lval n - lval y) mod lval n = lval x - lval y"
    proof -
      have "lval x + lval n - lval y = lval x - lval y + lval n" using False by simp
      moreover have "(lval x - lval y + lval n) mod lval n = lval x - lval y"
        using less_imp_diff_less [OF assms(4), of "lval y"] by (simp only: mod_add_self2 mod_less)
      ultimately show ?thesis by (simp only:)
    qed
    ultimately show ?thesis
      using False len assms(1,2,4) by (simp add: sub_mod_def less512_val s_def [symmetric])
  qed
qed

lemma top_limb_carry:
  assumes "length x = 16"
  shows "drop_bit 31 (x ! 15) \<noteq> 0 \<longleftrightarrow> base ^ 16 \<le> 2 * lval x"
proof -
  have x: "lval x = lval (take 15 x) + base ^ 15 * unat (x ! 15)"
    using lval_take_Suc [of 15 x] assms by simp
  have lo: "lval (take 15 x) < base ^ 15" using lval_bound [of "take 15 x"] assms by simp
  have "unat (drop_bit 31 (x ! 15)) = unat (x ! 15) div 2 ^ 31"
    using unat_drop_bit_eq [of 31 "x ! 15"] by (simp only: drop_bit_eq_div)
  then have "drop_bit 31 (x ! 15) \<noteq> 0 \<longleftrightarrow> 2 ^ 31 \<le> unat (x ! 15)"
    by (auto simp: word_unat_eq_iff div_eq_0_iff not_less)
  also have "\<dots> \<longleftrightarrow> base ^ 16 \<le> 2 * lval x"
  proof
    assume "2 ^ 31 \<le> unat (x ! 15)"
    then have "base ^ 15 * 2 ^ 31 \<le> base ^ 15 * unat (x ! 15)" by (intro mult_le_mono2)
    then have "2 * (base ^ 15 * 2 ^ 31) \<le> 2 * lval x" using x by linarith
    moreover have "2 * (base ^ 15 * 2 ^ 31) = base ^ 16" by (simp add: base_def)
    ultimately show "base ^ 16 \<le> 2 * lval x" by simp
  next
    assume "base ^ 16 \<le> 2 * lval x"
    show "2 ^ 31 \<le> unat (x ! 15)"
    proof (rule ccontr)
      assume "\<not> 2 ^ 31 \<le> unat (x ! 15)"
      then have "base ^ 15 * Suc (unat (x ! 15)) \<le> base ^ 15 * 2 ^ 31" by (intro mult_le_mono2) simp
      then have "base ^ 15 + base ^ 15 * unat (x ! 15) \<le> base ^ 15 * 2 ^ 31" by (simp only: mult_Suc_right)
      then have "2 * lval x < 2 * (base ^ 15 * 2 ^ 31)" using x lo by linarith
      also have "\<dots> = base ^ 16" by (simp add: base_def)
      finally show False using \<open>base ^ 16 \<le> 2 * lval x\<close> by simp
    qed
  qed
  finally show ?thesis .
qed

lemma double_mod_val:
  assumes "length x = 16" "length n = 16" and "lval x < lval n"
  shows "length (double_mod x n) = 16 \<and> lval (double_mod x n) = (2 * lval x) mod lval n"
proof -
  define s where "s = lshift 1 x"
  have s: "length s = 16" "lval s = (2 * lval x) mod base ^ 16"
    using lshift_val [OF assms(1), of 1] by (simp_all add: s_def mult.commute)
  note b = limb_bound512 [OF assms(1)] limb_bound512 [OF assms(2)]
  define k where "k = (if base ^ 16 \<le> 2 * lval x then 1 else 0 :: nat)"
  have k: "lval s + base ^ 16 * k = 2 * lval x"
    using b s(2) by (auto simp: k_def le_mod_geq)
  have test: "drop_bit 31 (x ! 15) \<noteq> 0 \<or> geq512 s n \<longleftrightarrow> lval n \<le> 2 * lval x"
    unfolding top_limb_carry [OF assms(1)] using k b by (auto simp: geq512_val s(1) assms(2) k_def split: if_splits)
  show ?thesis
  proof (cases "lval n \<le> 2 * lval x")
    case True
    then have "lval (sub512 s n) = 2 * lval x - lval n"
      using sub512_exact [OF s(1) assms(2), of k "2 * lval x - lval n"] k b assms(3) by simp
    moreover have "(2 * lval x) mod lval n = 2 * lval x - lval n" using True assms(3) by (simp add: le_mod_geq)
    ultimately show ?thesis
      using True test sub512_val(1) [OF s(1) assms(2)] by (simp add: double_mod_def s_def [symmetric] Let_def del: One_nat_def)
  next
    case False
    then have "lval s = 2 * lval x" using k b by (auto simp: k_def split: if_splits)
    then show ?thesis using False test s(1) by (simp add: double_mod_def s_def [symmetric] Let_def del: One_nat_def)
  qed
qed

lemma negate_mod_val:
  assumes "length x = 16" "length n = 16" and "lval x < lval n"
  shows "length (negate_mod_inplace x n) = 16 \<and> lval (negate_mod_inplace x n) = (lval n - lval x) mod lval n"
proof (cases "lval x = 0")
  case True
  then show ?thesis using assms by (simp add: negate_mod_inplace_def is_zero_val)
next
  case False
  have "lval (sub512 n x) = lval n - lval x"
    using sub512_exact [OF assms(2,1), of 0 "lval n - lval x"] assms(3) limb_bound512 [OF assms(2)] by simp
  then show ?thesis
    using False assms sub512_val(1) [OF assms(2,1)] by (simp add: negate_mod_inplace_def is_zero_val)
qed

text \<open>The reduction of the 1024-bit product.\<close>

lemma top_bit_val: "k \<le> 32 * length p \<Longrightarrow> lval p < 2 ^ k \<Longrightarrow> lval p < 2 ^ top_bit p k \<and> top_bit p k \<le> k"
proof (induction k)
  case (Suc k)
  show ?case
  proof (cases "bit (lval p) k")
    case True
    then show ?thesis using Suc.prems bit_at_val [of k p] by simp
  next
    case False
    then have "even (lval p div 2 ^ k)" by (simp add: bit_iff_odd)
    moreover have "lval p div 2 ^ k < 2" using Suc.prems(2) by (simp add: less_mult_imp_div_less)
    ultimately have "lval p div 2 ^ k = 0" by (auto simp: less_2_cases_iff)
    then have "lval p < 2 ^ k" by (simp add: div_eq_0_iff)
    then show ?thesis using Suc False bit_at_val [of k p] by simp
  qed
qed simp

lemma red_step_val:
  assumes "length d = 16" and "0 < lval d" and "i < 32 * length p" and "length r = 16"
    and "lval r = (lval p div 2 ^ Suc i) mod lval d"
  shows "length (red_step p d i r) = 16 \<and> lval (red_step p d i r) = (lval p div 2 ^ i) mod lval d"
proof -
  define b where "b = bit (lval p) i"
  obtain r1 ov where sh: "shl1 0 r = (r1, ov)" by fastforce
  define r2 where "r2 = or_limb 0 (of_bool b) r1"
  define V where "V = 2 * lval r + of_bool b"
  have bit: "bit_at p i = of_bool b" using bit_at_val [OF assms(3)] by (simp add: b_def)
  have rd: "lval r < lval d" using assms(2,5) by simp
  note red = reduce_step [OF assms(4,1) rd sh r2_def, folded V_def]
  note sin = shift_in [OF assms(4) sh r2_def]
  have ov: "ov = 1 \<longleftrightarrow> ov \<noteq> 0" using sin(2) by (auto simp: word_unat_eq_iff le_Suc_eq)
  have ne: "rev r2 \<noteq> []" using sin(1) by auto
  have geq: "ov = 1 \<or> geq_rev_mul (rev r2) (rev d) \<longleftrightarrow> lval d \<le> V"
    unfolding ov using red(1) geq_rev_mul_less [of "rev r2" "rev d"] ne sin(1) assms(1) by auto
  have "(lval p div 2 ^ i) mod lval d = V mod lval d"
    unfolding nat_bit_step [of "lval p" i] V_def b_def assms(5) by (metis mod_add_left_eq mod_mult_right_eq)
  moreover have "V mod lval d = (if lval d \<le> V then V - lval d else V)"
    using red(4) by (simp add: le_mod_geq)
  ultimately show ?thesis
    using geq red(2,3) by (simp add: red_step_def sh bit r2_def [symmetric] Let_def not_le)
qed

lemma mul_mod_val:
  assumes "length x = 16" "length y = 16" "length n = 16" and "0 < lval n"
  shows "length (mul_mod x y n) = 16 \<and> lval (mul_mod x y n) = (lval x * lval y) mod lval n"
proof -
  define p where "p = mul_full x y"
  have p: "length p = 32" "lval p = lval x * lval y" using mul_full_val [OF assms(1,2)] by (simp_all add: p_def)
  have "lval p < base ^ 32" using lval_bound [of p] p(1) by simp
  also have "\<dots> = 2 ^ 1024" by (simp only: base_def flip: power_mult) simp
  finally have "lval p < 2 ^ 1024" .
  then have top: "lval p < 2 ^ top_bit p 1024" "top_bit p 1024 \<le> 1024"
    using top_bit_val [of 1024 p] p(1) by simp_all
  have loop: "length (fold (red_step p n) (rev [0..<k]) r) = 16 \<and>
      lval (fold (red_step p n) (rev [0..<k]) r) = lval p mod lval n"
    if "k \<le> 1024" "length r = 16" "lval r = (lval p div 2 ^ k) mod lval n" for k r
    using that
  proof (induction k arbitrary: r)
    case (Suc k)
    then show ?case using red_step_val [OF assms(3,4), of k p r] p(1) by simp
  qed simp
  show ?thesis
    using loop [OF top(2), of "uint512_u32 0"] top(1) assms(4)
    by (simp add: mul_mod_def is_zero_val p_def [symmetric] p(2) Let_def)
qed


lemma unat_rem_fits: "e \<noteq> 0 \<Longrightarrow> unat (of_nat (v mod unat e) :: 'a word) = v mod unat e" for e :: "'a :: len word"
proof -
  assume "e \<noteq> 0"
  then have "v mod unat e < unat e" by (simp add: unat_gt_0)
  also have "\<dots> < 2 ^ LENGTH('a)" by simp
  finally show ?thesis by (simp add: unat_of_nat take_bit_nat_eq_self)
qed

section \<open>The signed view\<close>

lemma msb_is_set_val:
  assumes "length n = 16"
  shows "msb_is_set n \<longleftrightarrow> 2 ^ 511 \<le> lval n"
proof -
  have "(0x80000000 :: u32) = 2 ^ 31" by simp
  then have "msb_is_set n \<longleftrightarrow> bit (n ! 15) 31" by (simp only: msb_is_set_def and_exp_eq_0_iff_not_bit not_not)
  also have "\<dots> \<longleftrightarrow> bit (lval n) 511" using bit_lval [of 511 n] assms by simp
  also have "\<dots> \<longleftrightarrow> odd (lval n div 2 ^ 511)" by (simp only: bit_iff_odd)
  also have "\<dots> \<longleftrightarrow> 2 ^ 511 \<le> lval n"
  proof -
    have "lval n < 2 * 2 ^ 511" using limb_bound512 [OF assms] unfolding pow512 by simp
    then have "lval n div 2 ^ 511 < 2" by (rule less_mult_imp_div_less)
    then have "odd (lval n div 2 ^ 511) \<longleftrightarrow> lval n div 2 ^ 511 \<noteq> 0" by (auto simp: less_2_cases_iff)
    then show ?thesis by (simp add: div_eq_0_iff not_less)
  qed
  finally show ?thesis .
qed

lemma abs_twos_complement_val:
  assumes "length x = 16" and "int (lval x) = v mod 2 ^ 512" and "- (2 ^ 511) \<le> v" and "v < 2 ^ 511"
  shows "length (fst (abs_twos_complement x)) = 16 \<and> int (lval (fst (abs_twos_complement x))) = \<bar>v\<bar> \<and>
    snd (abs_twos_complement x) = sgn v"
proof -
  consider (zero) "v = 0" | (pos) "0 < v" | (neg) "v < 0" by linarith
  then show ?thesis
  proof cases
    case zero
    then show ?thesis using assms(1,2) by (simp add: abs_twos_complement_def is_zero_val)
  next
    case pos
    then have x: "int (lval x) = v" using assms(2,4) by simp
    then have "lval x < 2 ^ 511" using assms(4) by simp
    then show ?thesis using x pos assms(1) by (simp add: abs_twos_complement_def is_zero_val msb_is_set_val)
  next
    case neg
    have "v mod 2 ^ 512 = (v + 2 ^ 512) mod 2 ^ 512" by (simp only: mod_add_self2)
    also have "\<dots> = v + 2 ^ 512" using neg assms(3) by (intro mod_pos_pos_trivial) simp_all
    finally have x: "int (lval x) = v + 2 ^ 512" using assms(2) by (simp only:)
    then have big: "2 ^ 511 \<le> lval x" using assms(3) by simp
    have "int (lval (sub512 (uint512_u32 0) x)) = (- (v + 2 ^ 512)) mod 2 ^ 512"
      using sub512_val(2) [of "uint512_u32 0" x] x assms(1) arg_cong [OF pow512, of int] by simp
    also have "\<dots> = (- v) mod 2 ^ 512" by (simp add: mod_simps)
    also have "\<dots> = - v" using neg assms(3) by (intro mod_pos_pos_trivial) simp_all
    finally show ?thesis
      using neg big sub512_val(1) [of "uint512_u32 0" x] assms(1)
      by (simp add: abs_twos_complement_def is_zero_val msb_is_set_val)
  qed
qed

section \<open>The contracts\<close>

text \<open>
  C16. The arithmetic of \<^verbatim>\<open>uint512\<close> on 16 limbs is arithmetic modulo \<open>2 ^ 512\<close>: addition, subtraction
  and multiplication wrap, so do the operations with a 32-bit operand; the product with a 64-bit
  word returns the exact carry-out, the double-width product is exact, shifts multiply and divide
  by powers of two for every shift count (also 512 and beyond), and the comparison is the
  comparison of the values.
\<close>

theorem uint512_ring:
  assumes "length x = 16" and "length y = 16"
  shows "lval (add512 x y) = (lval x + lval y) mod 2 ^ 512 \<and>
    int (lval (sub512 x y)) = (int (lval x) - int (lval y)) mod 2 ^ 512 \<and>
    lval (mult512 x y) = (lval x * lval y) mod 2 ^ 512 \<and>
    lval (add_uint32 v x) = (lval x + unat v) mod 2 ^ 512 \<and>
    lval (mult_uint32 v x) = (unat v * lval x) mod 2 ^ 512 \<and>
    lval (snd (mul_uint64_inplace w x)) + 2 ^ 512 * unat (fst (mul_uint64_inplace w x)) = unat w * lval x \<and>
    lval (mul_full x y) = lval x * lval y \<and>
    lval (lshift k x) = (lval x * 2 ^ k) mod 2 ^ 512 \<and>
    lval (rshift k x) = lval x div 2 ^ k \<and>
    (less512 x y \<longleftrightarrow> lval x < lval y)"
proof (intro conjI)
  have int512: "int base ^ 16 = 2 ^ 512" using arg_cong [OF pow512, of int] by simp
  show "int (lval (sub512 x y)) = (int (lval x) - int (lval y)) mod 2 ^ 512"
    using sub512_val(2) [OF assms] by (simp only: int512)
  show "lval (add_uint32 v x) = (lval x + unat v) mod 2 ^ 512"
  proof -
    have "x \<noteq> []" using assms(1) by auto
    then show ?thesis using add_uint32_val [of x v] unfolding assms(1) pow512 by blast
  qed
qed (use add512_val [OF assms] mult512_val [OF assms] mult_uint32_val [OF assms(1), of v]
    mul_uint64_val [OF assms(1), of w] mul_full_val [OF assms] lshift_val [OF assms(1), of k]
    rshift_val [OF assms(1), of k] less512_val [of x y] assms in \<open>simp_all only: pow512\<close>)

theorem uint512_ring_witness:
  "lval (sub512 (uint512_u32 3) (uint512_u32 5)) = 2 ^ 512 - 2 \<and>
   lval (mult512 (uint512_u32 7) (uint512_u32 6)) = 42 \<and> lval (lshift 512 (uint512_u32 7)) = 0"
  using uint512_ring [of "uint512_u32 3" "uint512_u32 5"] uint512_ring [of "uint512_u32 7" "uint512_u32 6" _ _ 512]
  by simp

text \<open>
  C17. Division: for a non-zero divisor \<open>div\<close> and \<open>mod\<close> return the quotient and the remainder of the
  values, and the routines with a 32-bit or a 64-bit divisor agree with them. A zero divisor is not an
  error in the code: \<open>div\<close> and the in-place variants leave the number alone, \<open>div_uint32_const\<close> returns 0, and
  every remainder (of \<open>mod\<close>, \<open>mod_uint32\<close>, \<open>mod_uint64\<close> and the in-place variants) is 0.
\<close>

theorem uint512_division:
  assumes "length x = 16" and "length d = 16"
  shows "(lval d \<noteq> 0 \<longrightarrow> lval (div512 x d) = lval x div lval d \<and> lval (mod512 x d) = lval x mod lval d) \<and>
    (e \<noteq> 0 \<longrightarrow> fst (div_uint32_inplace e x) = mod_uint32 e x \<and> unat (mod_uint32 e x) = lval x mod unat e \<and>
      lval (snd (div_uint32_inplace e x)) = lval x div unat e \<and> div_uint32_const e x = snd (div_uint32_inplace e x)) \<and>
    (f \<noteq> 0 \<longrightarrow> fst (div_uint64_inplace f x) = mod_uint64 f x \<and> unat (mod_uint64 f x) = lval x mod unat f \<and>
      lval (snd (div_uint64_inplace f x)) = lval x div unat f) \<and>
    div512 x zero512 = x \<and> mod512 x zero512 = zero512 \<and>
    div_uint32_inplace 0 x = (0, x) \<and> div_uint64_inplace 0 x = (0, x) \<and>
    div_uint32_const 0 x = zero512 \<and> mod_uint32 0 x = 0 \<and> mod_uint64 0 x = 0"
proof (intro conjI impI)
  assume "e \<noteq> 0"
  obtain q where q: "div_uint32_inplace e x = (of_nat (lval x mod unat e), q)" "div_uint32_const e x = q"
    "mod_uint32 e x = of_nat (lval x mod unat e)" "lval q = lval x div unat e"
    using div_uint32_val [OF assms(1) \<open>e \<noteq> 0\<close>] by metis
  show "fst (div_uint32_inplace e x) = mod_uint32 e x" "unat (mod_uint32 e x) = lval x mod unat e"
    "lval (snd (div_uint32_inplace e x)) = lval x div unat e" "div_uint32_const e x = snd (div_uint32_inplace e x)"
    using q unat_rem_fits [OF \<open>e \<noteq> 0\<close>, of "lval x"] by simp_all
next
  assume "f \<noteq> 0"
  obtain q where q: "div_uint64_inplace f x = (of_nat (lval x mod unat f), q)"
    "mod_uint64 f x = of_nat (lval x mod unat f)" "lval q = lval x div unat f"
    using div_uint64_val [OF assms(1) \<open>f \<noteq> 0\<close>] by metis
  show "fst (div_uint64_inplace f x) = mod_uint64 f x" "unat (mod_uint64 f x) = lval x mod unat f"
    "lval (snd (div_uint64_inplace f x)) = lval x div unat f"
    using q unat_rem_fits [OF \<open>f \<noteq> 0\<close>, of "lval x"] by simp_all
qed (use div512_val [OF assms] in \<open>simp_all add: div512_def mod512_def div_mod_core_def is_zero_val
    div_uint32_inplace_def div_uint64_inplace_def div_uint32_const_def mod_uint32_def mod_uint64_def\<close>)

theorem uint512_division_witness:
  "lval (div512 (uint512_u32 100) (uint512_u32 7)) = 14 \<and> lval (mod512 (uint512_u32 100) (uint512_u32 7)) = 2 \<and>
   unat (mod_uint32 9 (uint512_u32 100)) = 1 \<and> mod512 (uint512_u32 100) zero512 = zero512 \<and>
   div_uint32_const 0 (uint512_u32 100) = zero512 \<and> mod_uint32 0 (uint512_u32 100) = 0 \<and> mod_uint64 0 (uint512_u32 100) = 0"
  using uint512_division [of "uint512_u32 100" "uint512_u32 7" 9 1] by simp

text \<open>
  Modular arithmetic on reduced operands: \<open>add_mod\<close>, \<open>sub_mod\<close>, \<open>double_mod\<close>, \<open>negate_mod_inplace\<close> are
  the operations modulo \<open>N\<close> for every \<open>N < 2 ^ 512\<close>, also where the 512-bit sum or the doubled
  number overflows, and \<open>mul_mod\<close> reduces the 1024-bit product of any two numbers.
\<close>

theorem uint512_modular:
  assumes "length x = 16" "length y = 16" "length n = 16" and "lval x < lval n" "lval y < lval n"
  shows "lval (add_mod x y n) = (lval x + lval y) mod lval n \<and>
    lval (sub_mod x y n) = (lval x + lval n - lval y) mod lval n \<and>
    lval (double_mod x n) = (2 * lval x) mod lval n \<and>
    lval (negate_mod_inplace x n) = (lval n - lval x) mod lval n \<and>
    lval (mul_mod x y n) = (lval x * lval y) mod lval n"
  using add_mod_val [OF assms] sub_mod_val [OF assms] double_mod_val [OF assms(1,3,4)]
    negate_mod_val [OF assms(1,3,4)] mul_mod_val [OF assms(1-3)] assms(4)
  by simp

theorem uint512_modular_witness:
  "lval (add_mod (uint512_u32 5) (uint512_u32 6) (uint512_u32 7)) = 4 \<and>
   lval (sub_mod (uint512_u32 5) (uint512_u32 6) (uint512_u32 7)) = 6 \<and>
   lval (mul_mod (uint512_u32 5) (uint512_u32 6) (uint512_u32 7)) = 2"
  using uint512_modular [of "uint512_u32 5" "uint512_u32 6" "uint512_u32 7"] by simp

end
