(* ===== verification/Uint512_Sqrt.thy ===== *)
theory Uint512_Sqrt
  imports Uint512_Arith
begin

text \<open>
  The square root of \<^verbatim>\<open>uint512.cuh\<close>: Newton's iteration of \<open>sqrt\<close>, started above the root,
  returns the integer square root within the 32 iterations the loop allows, and \<open>isqrt_2N\<close>
  is the root of the doubled argument.  The iteration is first studied on natural numbers
  (\<open>heron\<close>) and the limb code is shown to run it without an overflow.
\<close>

section \<open>The iteration on natural numbers\<close>

primrec heron :: "nat \<Rightarrow> nat \<Rightarrow> nat \<Rightarrow> nat" where
  "heron n x 0 = x"
| "heron n x (Suc k) = (let t = (n div x + x) div 2 in if x \<le> t then x else heron n t k)"

text \<open>The integer square root, as a relation.\<close>

definition root_of :: "nat \<Rightarrow> nat \<Rightarrow> bool" where
  "root_of n s \<longleftrightarrow> s * s \<le> n \<and> n < Suc s * Suc s"

lemma root_of_unique: "root_of n s \<Longrightarrow> root_of n t \<Longrightarrow> s = t"
proof (rule ccontr)
  assume r: "root_of n s" "root_of n t" and "s \<noteq> t"
  then consider "Suc s \<le> t" | "Suc t \<le> s" by linarith
  then show False
  proof cases
    case 1
    then have "Suc s * Suc s \<le> t * t" by (intro mult_le_mono)
    then show False using r unfolding root_of_def by linarith
  next
    case 2
    then have "Suc t * Suc t \<le> s * s" by (intro mult_le_mono)
    then show False using r unfolding root_of_def by linarith
  qed
qed

lemma root_of_le: "root_of n s \<Longrightarrow> x * x \<le> n \<Longrightarrow> x \<le> s"
proof (rule ccontr)
  assume r: "root_of n s" "x * x \<le> n" and "\<not> x \<le> s"
  then have "Suc s * Suc s \<le> x * x" by (intro mult_le_mono) simp_all
  then show False using r unfolding root_of_def by linarith
qed

text \<open>A step from above stays above, stops only at the root, and its error \<open>e'\<close> satisfies
  \<open>2 e' (s + e) \<le> 2 s + e\<^sup>2\<close>.\<close>

lemma heron_above:
  assumes "root_of n s" and "0 < x"
  shows "s \<le> (n div x + x) div 2"
proof -
  have "2 * s \<le> n div x + x"
  proof (cases "2 * s \<le> x")
    case False
    define d where "d = 2 * s - x"
    have d: "2 * s = x + d" using False by (simp add: d_def)
    have "(2 * s) * (2 * s) = (x + d) * (x + d)" by (simp only: d)
    also have "\<dots> = 4 * (x * d) + (x * x + d * d - 2 * (x * d))"
    proof -
      have "2 * (x * d) \<le> x * x + d * d"
      proof (cases "x \<le> d")
        case True
        then obtain k where "d = x + k" using le_Suc_ex by blast
        then show ?thesis by (simp add: algebra_simps)
      next
        case False
        then obtain k where "x = d + k" using nat_le_linear le_Suc_ex by blast
        then show ?thesis by (simp add: algebra_simps)
      qed
      then show ?thesis by (simp add: algebra_simps)
    qed
    finally have "x * d \<le> s * s" by simp
    then have "d * x \<le> n" using assms(1) by (simp add: root_of_def mult.commute)
    then have "d \<le> n div x" using assms(2) by (simp add: less_eq_div_iff_mult_less_eq)
    then show ?thesis using d by simp
  qed simp
  then show ?thesis by simp
qed

lemma heron_stop:
  assumes "root_of n s" and "s \<le> x" and "0 < x" and "x \<le> (n div x + x) div 2"
  shows "x = s"
proof -
  have "x \<le> n div x" using assms(4) by simp
  then have "x * x \<le> n" using assms(3) by (simp add: less_eq_div_iff_mult_less_eq)
  then show ?thesis using root_of_le [OF assms(1)] assms(2) by (simp add: le_antisym)
qed

lemma heron_error:
  assumes "root_of n s" and "0 < s + e" and "(n div (s + e) + (s + e)) div 2 = s + e'"
  shows "2 * e' * (s + e) \<le> 2 * s + e * e"
proof -
  have "2 * (s + e') \<le> n div (s + e) + (s + e)"
    unfolding assms(3) [symmetric] by (rule times_div_less_eq_dividend)
  then have "2 * (s + e') * (s + e) \<le> (n div (s + e) + (s + e)) * (s + e)" by (rule mult_le_mono1)
  also have "\<dots> \<le> n + (s + e) * (s + e)"
    unfolding add_mult_distrib by (rule add_le_mono1) (rule div_times_less_eq_dividend)
  also have "\<dots> \<le> s * s + 2 * s + (s + e) * (s + e)" using assms(1) by (simp add: root_of_def)
  finally show ?thesis by (simp add: algebra_simps)
qed

lemma heron_halves:
  fixes e e' s :: nat
  assumes "2 * e' * (s + e) \<le> 2 * s + e * e" and "0 < e"
  shows "e' \<le> e div 2"
proof -
  consider "e = 1" | "2 \<le> e" using assms(2) by linarith
  then show ?thesis
  proof cases
    case 2
    then have "2 * s \<le> e * s" by (rule mult_le_mono1)
    then have "2 * e' * (s + e) \<le> e * s + e * e" using assms(1) by linarith
    then have "2 * e' * (s + e) \<le> e * (s + e)" by (simp only: distrib_left)
    then have "2 * e' \<le> e" using assms(2) by simp
    then show ?thesis by simp
  next
    case 1
    then show ?thesis using assms(1) by (cases e') simp_all
  qed
qed

lemma heron_quadratic:
  fixes e e' s A :: nat
  assumes "2 * e' * (s + e) \<le> 2 * s + e * e" and "e * A \<le> s + 2 * A" and "4 \<le> A" and "4 \<le> s"
  shows "e' * (2 * (A * A)) \<le> s + 2 * (2 * (A * A))"
proof -
  have "2 * e' * s \<le> 2 * s + e * e" using assms(1) by (simp add: algebra_simps)
  then have "2 * e' * s * (A * A) \<le> (2 * s + e * e) * (A * A)" by (rule mult_le_mono1)
  also have "\<dots> = 2 * s * (A * A) + (e * A) * (e * A)" by (simp add: algebra_simps)
  also have "\<dots> \<le> 2 * s * (A * A) + (s + 2 * A) * (s + 2 * A)" by (intro add_left_mono mult_le_mono assms(2))
  also have "\<dots> = 2 * s * (A * A) + s * s + s * (4 * A) + 4 * (A * A)" by (simp add: algebra_simps)
  also have "\<dots> \<le> 2 * s * (A * A) + s * s + s * (A * A) + s * (A * A)"
    by (intro add_mono order_refl mult_le_mono assms(3,4))
  also have "\<dots> = s * (s + 4 * (A * A))" by (simp add: algebra_simps)
  finally have "s * (e' * (2 * (A * A))) \<le> s * (s + 4 * (A * A))" by (simp add: algebra_simps)
  then show ?thesis using assms(4) by simp
qed

text \<open>One iteration, for any bound on the error that the step establishes.\<close>

lemma heron_step:
  assumes "root_of n s" and "0 < s" and "s \<le> x"
    and "\<And>e'. 2 * e' * x \<le> 2 * s + (x - s) * (x - s) \<Longrightarrow> s < x \<Longrightarrow> heron n (s + e') k = s"
  shows "heron n x (Suc k) = s"
proof (cases "x \<le> (n div x + x) div 2")
  case True
  then show ?thesis using heron_stop [OF assms(1,3)] assms(2,3) by simp
next
  case False
  have "0 < x" using assms(2,3) by simp
  obtain e' where e': "(n div x + x) div 2 = s + e'"
    using heron_above [OF assms(1) \<open>0 < x\<close>] le_Suc_ex by blast
  have "s < x" using e' False by linarith
  moreover have "2 * e' * x \<le> 2 * s + (x - s) * (x - s)"
    using heron_error [OF assms(1), of "x - s" e'] e' assms(3) \<open>0 < x\<close> by simp
  ultimately have "heron n (s + e') k = s" using assms(4) by blast
  then show ?thesis using False e' by simp
qed

text \<open>Once the error is below \<open>2 ^ j\<close>, \<open>j\<close> halvings reach the root.\<close>

lemma heron_small:
  assumes "root_of n s" and "0 < s"
  shows "s \<le> x \<Longrightarrow> x - s < 2 ^ j \<Longrightarrow> j \<le> k \<Longrightarrow> heron n x k = s"
proof (induction k arbitrary: x j)
  case (Suc k)
  show ?case
  proof (rule heron_step [OF assms Suc.prems(1)])
    fix e' assume e': "2 * e' * x \<le> 2 * s + (x - s) * (x - s)" "s < x"
    have "e' \<le> (x - s) div 2" using heron_halves [of e' s "x - s"] e' by simp
    moreover obtain i where "j = Suc i" using Suc.prems(2) e'(2) by (cases j) simp_all
    ultimately show "heron n (s + e') k = s"
      using Suc.prems(2,3) by (intro Suc.IH [of "s + e'" i]) simp_all
  qed
qed simp

text \<open>The error relative to the root: \<open>near a x\<close> says it is at most \<open>s / 2 ^ a + 2\<close>, and one step
  takes \<open>a\<close> to \<open>2 a + 1\<close>.\<close>

definition near :: "nat \<Rightarrow> nat \<Rightarrow> nat \<Rightarrow> bool" where
  "near s a x \<longleftrightarrow> s \<le> x \<and> (x - s) * 2 ^ a \<le> s + 2 * 2 ^ a"

lemma heron_near:
  assumes "root_of n s" and "4 \<le> s" and "2 \<le> a" and "near s a x"
    and "\<And>x'. near s (2 * a + 1) x' \<Longrightarrow> heron n x' k = s"
  shows "heron n x (Suc k) = s"
proof (rule heron_step [OF assms(1)])
  fix e' assume e': "2 * e' * x \<le> 2 * s + (x - s) * (x - s)" "s < x"
  have a: "(4 :: nat) \<le> 2 ^ a" using power_increasing [OF assms(3), of "2 :: nat"] by simp
  have "e' * (2 * (2 ^ a * 2 ^ a)) \<le> s + 2 * (2 * (2 ^ a * 2 ^ a))"
    by (rule heron_quadratic [OF _ _ a assms(2), of e' "x - s"]) (use e' assms(4) in \<open>simp_all add: near_def\<close>)
  moreover have "2 * (2 ^ a * 2 ^ a) = (2 :: nat) ^ (2 * a + 1)"
    by (simp add: power_add mult_2)
  ultimately have "near s (2 * a + 1) (s + e')" by (simp only: near_def) simp
  then show "heron n (s + e') k = s" by (rule assms(5))
qed (use assms(2,4) in \<open>simp_all add: near_def\<close>)

text \<open>From \<open>near s 2\<close> seven steps give \<open>near s 383\<close>, which for a root below \<open>2 ^ 256\<close> leaves an
  error of at most 2.\<close>

lemma heron_chain:
  assumes "root_of n s" and "4 \<le> s" and "s < 2 ^ 256"
  shows "j \<le> 7 \<Longrightarrow> near s (3 * 2 ^ (7 - j) - 1) x \<Longrightarrow> heron n x (j + 23) = s"
proof (induction j arbitrary: x)
  case 0
  have "\<not> 3 \<le> x - s"
  proof
    assume "3 \<le> x - s"
    then have "3 * 2 ^ 383 \<le> (x - s) * 2 ^ 383" by (rule mult_le_mono1)
    also have "\<dots> \<le> s + 2 * 2 ^ 383" using 0 by (simp add: near_def)
    finally have "2 ^ 383 \<le> s" by linarith
    moreover have "(2 :: nat) ^ 256 \<le> 2 ^ 383" by (rule power_increasing) simp_all
    ultimately show False using assms(3) by linarith
  qed
  then show ?case using 0 assms(2) by (intro heron_small [OF assms(1), of x 2]) (simp_all add: near_def)
next
  case (Suc j)
  define p where "p = (2 :: nat) ^ (7 - Suc j)"
  have p: "2 ^ (7 - j) = 2 * p" "1 \<le> p"
    using Suc.prems(1) by (simp_all add: p_def Suc_diff_Suc flip: power_Suc)
  have "heron n x (Suc (j + 23)) = s"
  proof (rule heron_near [OF assms(1,2)])
    show "near s (3 * p - 1) x" using Suc.prems(2) by (simp only: p_def)
    show "heron n x' (j + 23) = s" if "near s (2 * (3 * p - 1) + 1) x'" for x'
    proof (rule Suc.IH)
      have "2 * (3 * p - 1) + 1 = 3 * (2 * p) - 1" using p(2) by linarith
      then show "near s (3 * 2 ^ (7 - j) - 1) x'" using that by (simp only: p(1))
    qed (use Suc.prems(1) in simp)
  qed (use p(2) in linarith)
  then show ?case by simp
qed

lemma heron_root:
  assumes "root_of n s" and "0 < s" and "s < 2 ^ 256" and "s \<le> x" and "x \<le> 2 * s"
  shows "heron n x 32 = s"
proof (cases "4 \<le> s")
  case False
  then show ?thesis using assms by (intro heron_small [of n s x 2]) simp_all
next
  case True
  note halve = heron_step [OF assms(1,2)]
  have near: "heron n x 30 = s" if "near s 2 x" for x
    using heron_chain [OF assms(1) True assms(3), of 7 x] that by simp
  have half: "heron n x (Suc 30) = s" if "s \<le> x" "2 * (x - s) \<le> s" for x
    using heron_halves [of _ s "x - s"] that
    by (intro halve near) (fastforce simp: near_def)+
  have "heron n x (Suc 31) = s"
    using heron_halves [of _ s "x - s"] assms(4,5) half
    by (intro halve) fastforce+
  then show ?thesis by simp
qed

section \<open>The limb code runs the iteration\<close>

lemma root_of_ex: "\<exists>s. root_of n s"
proof (induction n)
  case 0
  then show ?case by (intro exI [of _ 0]) (simp add: root_of_def)
next
  case (Suc n)
  then obtain s where s: "root_of n s" by blast
  show ?case
  proof (cases "Suc n < Suc s * Suc s")
    case True
    then show ?thesis using s by (intro exI [of _ s]) (simp add: root_of_def)
  next
    case False
    then show ?thesis using s by (intro exI [of _ "Suc s"]) (simp add: root_of_def)
  qed
qed

lemma root_of_mono:
  assumes "root_of n s" and "n < x * x"
  shows "s < x"
proof (rule ccontr)
  assume "\<not> s < x"
  then have "x * x \<le> s * s" by (intro mult_le_mono) simp_all
  then show False using assms by (simp add: root_of_def)
qed

lemma quotient_bound:
  assumes "root_of n s" and "s \<le> x" and "0 < x"
  shows "n div x \<le> x + 2"
proof -
  have "Suc s * Suc s \<le> Suc x * Suc x" using assms(2) by (intro mult_le_mono) simp_all
  then have "n \<le> x * (x + 2)" using assms(1) by (simp add: root_of_def)
  then show ?thesis using div_le_mono [of n "x * (x + 2)" x] assms(3) by simp
qed

lemma newton_val:
  assumes "length n = 16" and "root_of (lval n) s" and "0 < s"
  shows "length x = 16 \<Longrightarrow> s \<le> lval x \<Longrightarrow> lval x < 2 ^ 300 \<Longrightarrow>
    length (newton n x k) = 16 \<and> lval (newton n x k) = heron (lval n) (lval x) k"
proof (induction k arbitrary: x)
  case (Suc k)
  define t where "t = rshift 1 (add512 (div512 n x) x)"
  have x: "0 < lval x" using assms(3) Suc.prems(2) by simp
  have q: "length (div512 n x) = 16" "lval (div512 n x) = lval n div lval x"
    using div512_val(1) [OF assms(1) Suc.prems(1)] x by simp_all
  have "(2 :: nat) * 2 ^ 300 + 2 \<le> base ^ 16" by (simp add: base_def)
  then have "lval n div lval x + lval x < base ^ 16"
    using quotient_bound [OF assms(2) Suc.prems(2) x] Suc.prems(3) by linarith
  then have t: "length t = 16" "lval t = (lval n div lval x + lval x) div 2"
    using add512_val [OF q(1) Suc.prems(1)] rshift_val [of "add512 (div512 n x) x" 1] q(2)
    by (simp_all add: t_def)
  have "s \<le> lval t" using heron_above [OF assms(2) x] t(2) by simp
  then show ?case
    using Suc.IH [OF t(1)] Suc.prems t less512_val [of t x]
    by (auto simp: t_def [symmetric] Let_def simp del: One_nat_def)
qed simp

lemma seed_val:
  assumes "b < 512"
  shows "length (zero512[b div 32 := push_bit (b mod 32) 1]) = 16"
    and "lval (zero512[b div 32 := push_bit (b mod 32) 1]) = 2 ^ b"
proof -
  have "unat (push_bit (b mod 32) 1 :: u32) = 2 ^ (b mod 32)"
    by (subst unsigned_push_bit_eq) (simp add: take_bit_nat_eq_self power_strict_increasing)
  moreover have "base ^ (b div 32) * 2 ^ (b mod 32) = 2 ^ b"
    unfolding base_def power_mult [symmetric] power_add [symmetric] by simp
  moreover have "unat (zero512 ! (b div 32)) = 0" using assms by (simp add: zero512_def)
  ultimately show "lval (zero512[b div 32 := push_bit (b mod 32) 1]) = 2 ^ b"
    using lval_update [of "b div 32" zero512 "push_bit (b mod 32) 1"] assms by simp
qed simp

lemma sqrt512_val:
  assumes "length n = 16"
  shows "length (sqrt512 n) = 16 \<and> root_of (lval n) (lval (sqrt512 n))"
proof (cases "lval n = 0")
  case True
  then show ?thesis by (simp add: sqrt512_def is_zero_val root_of_def)
next
  case False
  obtain s where s: "root_of (lval n) s" using root_of_ex by blast
  define b where "b = msb512 n div 2 + 1"
  define x where "x = zero512[b div 32 := push_bit (b mod 32) 1]"
  note m = msb512_val [OF assms False]
  have b: "b \<le> 256" using m(3) by (simp add: b_def)
  have x: "length x = 16" "lval x = 2 ^ b" using seed_val [of b] b by (simp_all add: x_def)
  have "0 < s" using s False by (cases s) (simp_all add: root_of_def)
  have "(2 :: nat) ^ Suc (msb512 n) \<le> 2 ^ (b + b)" by (rule power_increasing) (simp_all add: b_def)
  then have up: "s < 2 ^ b" using m(2) by (intro root_of_mono [OF s]) (simp add: power_add)
  have "(2 :: nat) ^ (msb512 n div 2 + msb512 n div 2) \<le> 2 ^ msb512 n" by (rule power_increasing) simp_all
  then have "2 ^ (msb512 n div 2) \<le> s" using m(1) by (intro root_of_le [OF s]) (simp add: power_add)
  then have lo: "2 ^ b \<le> 2 * s" by (simp add: b_def)
  have p: "(2 :: nat) ^ b \<le> 2 ^ 256" using b by (rule power_increasing) simp
  have "(2 :: nat) ^ 256 < 2 ^ 300" by simp
  then have "length (newton n x 32) = 16 \<and> lval (newton n x 32) = heron (lval n) (lval x) 32"
    using p up x(2) by (intro newton_val [OF assms s \<open>0 < s\<close> x(1)]) linarith+
  moreover have "heron (lval n) (lval x) 32 = s"
    using p up lo x(2) by (intro heron_root [OF s \<open>0 < s\<close>]) linarith+
  moreover have "sqrt512 n = newton n x 32"
    unfolding sqrt512_def x_def b_def Let_def using False by (simp only: is_zero_val if_False)
  ultimately show ?thesis using s by simp
qed

section \<open>The root of the doubled number\<close>

text \<open>The fixed-point constant lies above \<open>\<surd>2 * 2 ^ 32\<close> and below \<open>\<surd>2 * (2 ^ 32 + 1)\<close>.\<close>

lemma scaled_root_lower:
  fixes s t N :: nat
  assumes "root_of N s" and "root_of (2 * N) t" and "2 ^ 255 \<le> s"
  shows "t * 2 ^ 32 \<le> s * 6074001001"
proof (rule ccontr)
  assume "\<not> t * 2 ^ 32 \<le> s * 6074001001"
  then have "s * 6074001001 * (s * 6074001001) \<le> t * 2 ^ 32 * (t * 2 ^ 32)" by (intro mult_le_mono less_imp_le) (simp_all only: not_le)
  also have "\<dots> = t * t * 2 ^ 64" by simp
  also have "\<dots> \<le> 2 * N * 2 ^ 64" using assms(2) by (intro mult_le_mono1) (simp add: root_of_def)
  also have "\<dots> \<le> 2 * (s * s + 2 * s) * 2 ^ 64" using assms(1) by (intro mult_le_mono1) (simp add: root_of_def)
  finally have "12729898769 * (s * s) \<le> 2 ^ 66 * s" by simp
  moreover have "2 ^ 255 * s \<le> s * s" using assms(3) by (intro mult_le_mono1)
  moreover have "0 < s" using assms(3) by (cases s) simp_all
  ultimately show False by simp
qed

lemma scaled_root_upper:
  fixes s t N :: nat
  assumes "root_of N s" and "root_of (2 * N) t" and "2 ^ 255 \<le> s"
  shows "s * 6074001001 \<le> t * (2 ^ 32 + 1)"
proof (rule ccontr)
  assume gt: "\<not> s * 6074001001 \<le> t * (2 ^ 32 + 1)"
  have st: "s \<le> t" using assms(1) by (intro root_of_le [OF assms(2)]) (simp add: root_of_def)
  have "2 * (t * (2 ^ 32 + 1) * (t * (2 ^ 32 + 1))) \<le> 2 * (s * 6074001001 * (s * 6074001001))"
    using gt by (intro mult_le_mono2 mult_le_mono less_imp_le) (simp_all only: not_le)
  also have "\<dots> = 2 * (s * s) * (6074001001 * 6074001001)" by simp
  also have "\<dots> \<le> 2 * N * (6074001001 * 6074001001)" using assms(1) by (intro mult_le_mono1) (simp add: root_of_def)
  also have "\<dots> \<le> (t * t + 2 * t) * (6074001001 * 6074001001)" using assms(2) by (intro mult_le_mono1) (simp add: root_of_def)
  finally have "4449970417 * (t * t) \<le> 2 * (6074001001 * 6074001001) * t" by simp
  moreover have "2 ^ 255 * t \<le> t * t" using assms(3) st by (intro mult_le_mono1) simp
  moreover have "0 < t" using assms(3) st by (cases t) simp_all
  ultimately show False by simp
qed

lemma isqrt_2N_val:
  assumes "length n = 16"
  shows "length (isqrt_2N n) = 16"
    and "lval n < 2 ^ 511 \<Longrightarrow> root_of (2 * lval n) (lval (isqrt_2N n))"
    and "2 ^ 511 \<le> lval n \<Longrightarrow> root_of (2 * lval n) t \<Longrightarrow>
      t \<le> lval (isqrt_2N n) \<and> (lval (isqrt_2N n) - t) * 2 ^ 32 \<le> t"
proof -
  define s where "s = sqrt512 n"
  define m where "m = snd (mul_uint64_inplace 6074001001 s)"
  have s: "length s = 16" "root_of (lval n) (lval s)" using sqrt512_val [OF assms] by (simp_all add: s_def)
  have n: "lval n < 2 ^ 512" using limb_bound512 [OF assms] by (simp only: pow512)
  have l: "length (lshift 1 n) = 16" "lval (lshift 1 n) = (lval n * 2) mod 2 ^ 512"
    using lshift_val [OF assms, of 1] by (simp_all only: pow512 power_one_right)
  have m: "length m = 16" "lval m + base ^ 16 * unat (fst (mul_uint64_inplace 6074001001 s)) = 6074001001 * lval s"
    using mul_uint64_val [OF s(1), of 6074001001] by (simp_all add: m_def)
  have r: "length (rshift 32 m) = 16" "lval (rshift 32 m) = lval m div 2 ^ 32"
    using rshift_val [OF m(1), of 32] by simp_all
  have eq: "isqrt_2N n = (if 2 ^ 511 \<le> lval n then rshift 32 m else sqrt512 (lshift 1 n))"
    unfolding isqrt_2N_def m_def s_def msb_is_set_val [OF assms] by simp
  show "length (isqrt_2N n) = 16" using r(1) sqrt512_val [OF l(1)] by (simp add: eq)
  show "root_of (2 * lval n) (lval (isqrt_2N n))" if "lval n < 2 ^ 511"
  proof -
    have "lval (lshift 1 n) = 2 * lval n" using that l(2) by simp
    then show ?thesis using that sqrt512_val [OF l(1)] by (simp only: eq not_le [symmetric] if_False)
  qed
  show "t \<le> lval (isqrt_2N n) \<and> (lval (isqrt_2N n) - t) * 2 ^ 32 \<le> t"
    if big: "2 ^ 511 \<le> lval n" and t: "root_of (2 * lval n) t"
  proof -
    have s256: "lval s < 2 ^ 256" using n by (intro root_of_mono [OF s(2)]) simp
    have s255: "2 ^ 255 \<le> lval s" using big by (intro root_of_le [OF s(2)]) simp
    have "6074001001 * lval s < base ^ 16" using s256 by (simp add: pow512)
    then have mv: "lval m = 6074001001 * lval s" using m(2)
      by (cases "unat (fst (mul_uint64_inplace 6074001001 s))") simp_all
    define r where "r = lval m div 2 ^ 32"
    have "t \<le> r" using scaled_root_lower [OF s(2) t s255]
      by (simp only: r_def mv less_eq_div_iff_mult_less_eq zero_less_power zero_less_numeral mult.commute)
    moreover have "r * 2 ^ 32 \<le> t * (2 ^ 32 + 1)"
      using scaled_root_upper [OF s(2) t s255] div_times_less_eq_dividend [of "lval m" "2 ^ 32"]
      by (simp only: r_def mv mult.commute)
    then have "(r - t) * 2 ^ 32 \<le> t" by (simp add: diff_mult_distrib)
    ultimately show ?thesis using big by (simp add: eq r_def \<open>lval (rshift 32 m) = lval m div 2 ^ 32\<close>)
  qed
qed

text \<open>The comment at the constant says it is \<open>\<surd>2 * 2 ^ 32\<close> rounded; the rounded value is 6074001000,
  and the constant in the code is one larger.\<close>

lemma sqrt2_q32_rounding:
  "(2 * 6074001000 - 1) * (2 * 6074001000 - 1) < (8 * 2 ^ 64 :: nat)"
  "(8 * 2 ^ 64 :: nat) < (2 * 6074001000 + 1) * (2 * 6074001000 + 1)"
  by simp_all

section \<open>The contracts\<close>

text \<open>
  C18. \<open>sqrt\<close> returns the integer square root of every 512-bit number: Newton's iteration from the seed
  \<open>2 ^ (msb / 2 + 1)\<close> reaches it within the 32 iterations of the loop and no intermediate sum
  overflows.  \<open>isqrt_2N\<close> is the integer square root of \<open>2 N\<close> for \<open>N < 2 ^ 511\<close>; from \<open>2 ^ 511\<close> on, where
  \<open>2 N\<close> does not fit, the fixed-point product it uses instead is never below the root and exceeds it by
  at most a \<open>2 ^ -32\<close> part.
\<close>

theorem sqrt512_floor:
  assumes "length n = 16"
  shows "lval (sqrt512 n) * lval (sqrt512 n) \<le> lval n \<and> lval n < Suc (lval (sqrt512 n)) * Suc (lval (sqrt512 n)) \<and>
    (lval n < 2 ^ 511 \<longrightarrow> root_of (2 * lval n) (lval (isqrt_2N n))) \<and>
    (2 ^ 511 \<le> lval n \<longrightarrow> (\<exists>t. root_of (2 * lval n) t \<and> t \<le> lval (isqrt_2N n) \<and>
       (lval (isqrt_2N n) - t) * 2 ^ 32 \<le> t))"
proof -
  obtain t where t: "root_of (2 * lval n) t" using root_of_ex by blast
  show ?thesis
    using sqrt512_val [OF assms] isqrt_2N_val(2) [OF assms] isqrt_2N_val(3) [OF assms _ t] t
    unfolding root_of_def by blast
qed

theorem sqrt512_floor_witness:
  "lval (sqrt512 (uint512_u32 99)) * lval (sqrt512 (uint512_u32 99)) \<le> 99 \<and>
   99 < Suc (lval (sqrt512 (uint512_u32 99))) * Suc (lval (sqrt512 (uint512_u32 99))) \<and>
   root_of 198 (lval (isqrt_2N (uint512_u32 99)))"
  using sqrt512_floor [of "uint512_u32 99"] by simp

end
