(* ===== verification/Uint512_Text.thy ===== *)
theory Uint512_Text
  imports Uint512_Arith
begin

text \<open>
  The decimal text of \<^verbatim>\<open>uint512.cuh\<close>: the string constructor reads a number digit by digit,
  \<open>to_string\<close> writes it in chunks of nine digits.
\<close>

section \<open>Decimal numerals\<close>

text \<open>The number a string denotes when every character that is not a digit is skipped.\<close>

definition read_digit :: "char \<Rightarrow> nat \<Rightarrow> nat" where
  "read_digit c v = (if 48 \<le> (of_char c :: nat) \<and> of_char c \<le> (57 :: nat) then 10 * v + (of_char c - 48) else v)"

definition denotes :: "string \<Rightarrow> nat" where
  "denotes str = fold read_digit str 0"

definition numeral_text :: "string \<Rightarrow> bool" where
  "numeral_text str \<longleftrightarrow> (\<forall>c \<in> set str. 48 \<le> (of_char c :: nat) \<and> of_char c \<le> (57 :: nat))"

lemma read_digit_char: "d < 10 \<Longrightarrow> read_digit (char_of (48 + d)) v = 10 * v + d"
  by (simp add: read_digit_def of_char_of)

lemma read_digits: "fold read_digit (digits n) 0 = n"
proof (induction n rule: digits.induct)
  case (1 n)
  show ?case
  proof (cases "n < 10")
    case True
    then show ?thesis using read_digit_char [of n 0] by (simp add: digits.simps [of n])
  next
    case False
    then show ?thesis using 1 read_digit_char [of "n mod 10" "n div 10"] by (simp add: digits.simps [of n])
  qed
qed

text \<open>A numeral is the numeral of its leading part followed by the zero-padded rest.\<close>

definition pad :: "nat \<Rightarrow> nat \<Rightarrow> string" where
  "pad k n = replicate (k - length (digits n)) (char_of (48 :: nat)) @ digits n"

lemma pad_Suc:
  assumes "0 < k"
  shows "pad (Suc k) n = pad k (n div 10) @ [char_of (48 + n mod 10)]"
proof (cases "n < 10")
  case True
  then have "digits (n div 10) = [char_of (48 :: nat)]" "digits n = [char_of (48 + n mod 10)]"
    by (simp_all add: digits.simps [of n] digits.simps [of 0])
  then show ?thesis using assms by (cases k) (simp_all add: pad_def replicate_append_same)
next
  case False
  then have "digits n = digits (n div 10) @ [char_of (48 + n mod 10)]" by (simp add: digits.simps [of n])
  then show ?thesis by (simp add: pad_def)
qed

lemma digits_split:
  assumes "0 < q"
  shows "r < 10 ^ Suc k \<Longrightarrow> digits (q * 10 ^ Suc k + r) = digits q @ pad (Suc k) r"
proof (induction k arbitrary: r)
  case 0
  then have "digits r = [char_of (48 + r)]" by (simp add: digits.simps [of r])
  then show ?case using 0 assms digits.simps [of "q * 10 + r"] by (simp add: pad_def)
next
  case (Suc k)
  define n where "n = q * 10 ^ Suc (Suc k) + r"
  have n: "n = 10 * (q * 10 ^ Suc k) + r" by (simp add: n_def)
  have "0 < q * 10 ^ Suc k" using assms by simp
  then have "10 \<le> n" unfolding n by linarith
  then have "digits n = digits (n div 10) @ [char_of (48 + n mod 10)]" by (simp add: digits.simps [of n])
  moreover have "n div 10 = q * 10 ^ Suc k + r div 10" unfolding n by (simp del: power_Suc)
  moreover have "n mod 10 = r mod 10" unfolding n by (simp del: power_Suc)
  moreover have "digits (q * 10 ^ Suc k + r div 10) = digits q @ pad (Suc k) (r div 10)"
    using Suc.prems by (intro Suc.IH) (simp add: less_mult_imp_div_less)
  ultimately show ?case using pad_Suc [of "Suc k" r] by (simp only: n_def) simp
qed

section \<open>The routines\<close>

lemma parse_step_val:
  assumes "length res = 16"
  shows "length (parse_step c res) = 16 \<and> lval (parse_step c res) = read_digit c (lval res) mod base ^ 16"
proof -
  define k where "k = (of_char c :: nat)"
  show ?thesis
  proof (cases "48 \<le> k \<and> k \<le> 57")
    case False
    then show ?thesis using limb_bound512 [OF assms] assms
      by (auto simp: parse_step_def read_digit_def k_def [symmetric] Let_def)
  next
    case True
    then obtain d where d: "k = 48 + d" "d < 10" using le_Suc_ex [of 48 k] by auto
    define m where "m = mult_uint32 10 res"
    have m: "length m = 16" "lval m = (10 * lval res) mod base ^ 16"
      using mult_uint32_val [OF assms, of 10] by (simp_all add: m_def)
    have "m \<noteq> []" using m(1) by auto
    moreover have "unat (of_nat d :: u32) = d"
      using d(2) by (simp add: unat_of_nat take_bit_nat_eq_self)
    ultimately have a: "length (add_uint32 (of_nat d) m) = 16"
      "lval (add_uint32 (of_nat d) m) = (10 * lval res + d) mod base ^ 16"
      using add_uint32_val [of m "of_nat d"] m by (simp_all add: mod_simps)
    show ?thesis using True a m
      by (cases "d = 0") (simp_all add: parse_step_def read_digit_def k_def [symmetric] m_def [symmetric] Let_def d)
  qed
qed

lemma uint512_str_val: "length (uint512_str str) = 16 \<and> lval (uint512_str str) = denotes str mod base ^ 16"
proof -
  have loop: "length (fold parse_step str res) = 16 \<and> lval (fold parse_step str res) = fold read_digit str v mod base ^ 16"
    if "length res = 16" "lval res = v mod base ^ 16" for res v
    using that
  proof (induction str arbitrary: res v)
    case (Cons c str)
    have "(10 * (v mod m) + d) mod m = (10 * v + d) mod m" for d m :: nat
      by (metis mod_add_left_eq mod_mult_right_eq)
    then have "read_digit c (v mod base ^ 16) mod base ^ 16 = read_digit c v mod base ^ 16"
      unfolding read_digit_def by (simp only: mod_mod_trivial split: if_split) blast
    then show ?case using Cons parse_step_val [of res c] by simp
  qed simp
  show ?thesis using loop [of "uint512_u32 0" 0] by (simp add: uint512_str_def denotes_def)
qed

text \<open>The chunks, least significant first: their number, and the text they give.\<close>

lemma chunk_loop_val:
  "length t = 16 \<Longrightarrow> lval t < 10 ^ (9 * room) \<Longrightarrow> \<exists>cs. chunk_loop room t = Some cs \<and>
    (lval t \<noteq> 0 \<longrightarrow> cs \<noteq> [] \<and>
       digits (unat (last cs)) @ concat (map (\<lambda>c. pad9 (unat c)) (rev (butlast cs))) = digits (lval t))"
proof (induction room arbitrary: t)
  case 0
  then show ?case by (simp add: chunk_loop.simps [of 0 t] is_zero_val)
next
  case (Suc room)
  show ?case
  proof (cases "lval t = 0")
    case True
    then show ?thesis by (simp add: chunk_loop.simps [of _ t] is_zero_val)
  next
    case False
    define r :: u32 where "r = of_nat (lval t mod 1000000000)"
    obtain q where q: "div_uint32_inplace 1000000000 t = (r, q)" "length q = 16" "lval q = lval t div 1000000000"
      using div_uint32_val [OF Suc.prems(1), of 1000000000] by (auto simp: r_def)
    have r: "unat r = lval t mod 1000000000"
      using unat_rem_fits [of "1000000000 :: u32" "lval t"] by (simp add: r_def)
    have "lval q < 10 ^ (9 * room)"
      using Suc.prems(2) by (simp add: q(3) less_mult_imp_div_less power_add mult.commute)
    then obtain cs where cs: "chunk_loop room q = Some cs" "lval q \<noteq> 0 \<longrightarrow> cs \<noteq> [] \<and>
       digits (unat (last cs)) @ concat (map (\<lambda>c. pad9 (unat c)) (rev (butlast cs))) = digits (lval q)"
      using Suc.IH [OF q(2)] by blast
    have loop: "chunk_loop (Suc room) t = Some (r # cs)"
      using False q(1) cs(1) by (simp add: chunk_loop.simps [of "Suc room" t] is_zero_val)
    show ?thesis
    proof (cases "lval q = 0")
      case True
      then have "cs = []" using cs(1) by (simp add: chunk_loop.simps [of room q] is_zero_val)
      moreover have "unat r = lval t" using True r q(3) by (simp add: div_eq_0_iff)
      ultimately show ?thesis using loop by simp
    next
      case nz: False
      have "digits (lval q * 10 ^ Suc 8 + unat r) = digits (lval q) @ pad (Suc 8) (unat r)"
        using nz r by (intro digits_split) simp_all
      moreover have "lval q * 10 ^ Suc 8 + unat r = lval t" using r q(3) by simp
      moreover have "pad (Suc 8) (unat r) = pad9 (unat r)" by (simp add: pad_def pad9_def)
      ultimately show ?thesis using loop cs(2) nz by simp
    qed
  qed
qed

lemma to_string_val: "length x = 16 \<Longrightarrow> to_string x = Some (digits (lval x))"
proof -
  assume x: "length x = 16"
  have "lval x < 2 ^ 512" using limb_bound512 [OF x] by (simp only: pow512)
  also have "(2 :: nat) ^ 512 \<le> 10 ^ (9 * 20)" by simp
  finally show ?thesis using chunk_loop_val [OF x, of 20]
    by (auto simp: to_string_def is_zero_val digits.simps [of 0])
qed

section \<open>The contract\<close>

text \<open>
  C19. Decimal text: \<open>to_string\<close> writes the canonical decimal numeral of every 512-bit number (so the fixed
  array of 20 nine-digit chunks never overflows), the string constructor reads it back to the same
  limbs, and it reads every decimal numeral, leading zeros allowed, whose value is below \<open>2 ^ 512\<close> as
  that value.
\<close>

theorem decimal_roundtrip:
  assumes "length x = 16"
  shows "to_string x = Some (digits (lval x)) \<and> uint512_str (digits (lval x)) = x \<and>
    (numeral_text str \<and> denotes str < 2 ^ 512 \<longrightarrow> lval (uint512_str str) = denotes str)"
proof -
  have "lval (uint512_str (digits (lval x))) = lval x"
    using uint512_str_val [of "digits (lval x)"] read_digits [of "lval x"] limb_bound512 [OF assms]
    by (simp add: denotes_def)
  then have "uint512_str (digits (lval x)) = x"
    using uint512_str_val [of "digits (lval x)"] assms lval_inj [of "uint512_str (digits (lval x))" x] by metis
  moreover have "lval (uint512_str str) = denotes str" if "denotes str < 2 ^ 512"
    using uint512_str_val [of str] that unfolding pow512 by (metis mod_less)
  ultimately show ?thesis using to_string_val [OF assms] by blast
qed

theorem decimal_roundtrip_witness:
  "to_string (uint512_u32 1907) = Some ''1907'' \<and> uint512_str ''1907'' = uint512_u32 1907 \<and>
   lval (uint512_str ''001234'') = 1234"
proof -
  have d: "digits 1907 = ''1907''" by (simp add: digits.simps char_of_def bit_iff_odd)
  have "numeral_text ''001234''" "denotes ''001234'' = 1234" by (simp_all add: numeral_text_def denotes_def read_digit_def)
  then show ?thesis using decimal_roundtrip [of "uint512_u32 1907" "''001234''"] d by simp
qed

text \<open>On any other text the constructor does not return the documented \<open>2 ^ 512 - 1\<close>: it skips what is not a
  digit, and a numeral of \<open>2 ^ 512\<close> or more is reduced.\<close>

lemma malformed_text_accepted:
  "lval (uint512_str str) = denotes str mod 2 ^ 512" "lval (uint512_str ''12 34x'') = 1234" "lval (uint512_str []) = 0"
proof -
  show all: "lval (uint512_str str) = denotes str mod 2 ^ 512" for str using uint512_str_val [of str] by (simp only: pow512)
  show "lval (uint512_str ''12 34x'') = 1234" "lval (uint512_str []) = 0"
    unfolding all by (simp_all add: denotes_def read_digit_def)
qed

end
