(* ===== verification/Modular_Power.thy ===== *)
theory Modular_Power
  imports Uint512_Arith
begin

text \<open>
  Modular exponentiation: the right-to-left binary loop that \<^verbatim>\<open>math_utils.cuh\<close> (\<open>modpow\<close>, for 512-bit and
  for 32-bit exponents), \<^verbatim>\<open>montgomery.cuh\<close> (\<open>pow\<close>) and \<^verbatim>\<open>uint128_helper.cuh\<close> (\<open>pow_mod\<close>) share, with the
  modular helpers of \<^verbatim>\<open>uint128_helper.cuh\<close>.  The loop is proved once, in a locale that asks of the
  multiplication only that it multiplies what its operands represent.
\<close>

section \<open>The 64-bit helpers\<close>

definition add_mod64 :: "u64 \<Rightarrow> u64 \<Rightarrow> u64 \<Rightarrow> u64" where
  "add_mod64 a b m = ucast ((ucast a + ucast b :: u128) mod ucast m)"

definition sub_mod64 :: "u64 \<Rightarrow> u64 \<Rightarrow> u64 \<Rightarrow> u64" where
  "sub_mod64 a b m = (if a \<ge> b then a - b else m - (b - a))"

definition mul_mod64 :: "u64 \<Rightarrow> u64 \<Rightarrow> u64 \<Rightarrow> u64" where
  "mul_mod64 a b m = ucast ((ucast a * ucast b :: u128) mod ucast m)"

lemma unat_half: "unat (e div 2) = unat e div 2" for e :: u64
  by (simp add: unat_div)

lemma half_word_less: "0 < e \<Longrightarrow> unat (e div 2) < unat e" for e :: u64
  by (simp add: word_less_nat_alt unat_half)

function pow_loop64 :: "u64 \<Rightarrow> u64 \<Rightarrow> u64 \<Rightarrow> u64 \<Rightarrow> u64" where
  "pow_loop64 m e b res =
     (if e > 0 then
        pow_loop64 m (e div 2) (mul_mod64 b b m) (if e mod 2 = 1 then mul_mod64 res b m else res)
      else res)"
  by pat_completeness auto
termination
  by (relation "measure (\<lambda>(m, e, b, res). unat e)") (simp_all add: half_word_less)

declare pow_loop64.simps [simp del]

definition pow_mod64 :: "u64 \<Rightarrow> u64 \<Rightarrow> u64 \<Rightarrow> u64" where
  "pow_mod64 b e m = pow_loop64 m e (b mod m) 1"

section \<open>Exponentiation of 512-bit numbers\<close>

lemma halve_limbs: "lval (rshift 1 x) = lval x div 2" "length (rshift 1 x) = length x"
  using shr_loop_val [of 1 x] by (simp_all add: rshift_def)

lemma halve_limbs_less: "\<not> is_zero x \<Longrightarrow> lval (rshift 1 x) < lval x"
  by (simp add: halve_limbs is_zero_val del: One_nat_def)

function modpow_loop :: "uint512 \<Rightarrow> uint512 \<Rightarrow> uint512 \<Rightarrow> uint512 \<Rightarrow> uint512" where
  "modpow_loop md e b res =
     (if \<not> is_zero e then
        modpow_loop md (rshift 1 e) (mul_mod b b md) (if e ! 0 AND 1 \<noteq> 0 then mul_mod res b md else res)
      else res)"
  by pat_completeness auto
termination
  by (relation "measure (\<lambda>(md, e, b, res). lval e)") (simp_all add: halve_limbs_less del: One_nat_def)

declare modpow_loop.simps [simp del]

definition modpow :: "uint512 \<Rightarrow> uint512 \<Rightarrow> uint512 \<Rightarrow> uint512" where
  "modpow b e md = modpow_loop md e (mod512 b md) (uint512_u32 1)"

lemma unat_shift: "unat (drop_bit 1 e) = unat e div 2" for e :: u32
  using unat_drop_bit_eq [of 1 e] by (simp only: drop_bit_eq_div power_one_right)

lemma shift_word_less: "e \<noteq> 0 \<Longrightarrow> unat (drop_bit 1 e) < unat e" for e :: u32
  by (simp only: unat_shift) (simp add: unat_gt_0)

function modpow_loop32 :: "uint512 \<Rightarrow> u32 \<Rightarrow> uint512 \<Rightarrow> uint512 \<Rightarrow> uint512" where
  "modpow_loop32 md e b res =
     (if e \<noteq> 0 then
        modpow_loop32 md (drop_bit 1 e) (mul_mod b b md) (if e AND 1 \<noteq> 0 then mul_mod res b md else res)
      else res)"
  by pat_completeness auto
termination
  by (relation "measure (\<lambda>(md, e, b, res). unat e)") (simp_all add: shift_word_less del: One_nat_def)

declare modpow_loop32.simps [simp del]

definition modpow32 :: "uint512 \<Rightarrow> u32 \<Rightarrow> uint512 \<Rightarrow> uint512" where
  "modpow32 b e md = modpow_loop32 md e (mod512 b md) (uint512_u32 1)"

section \<open>The loop, for any multiplication of representatives\<close>

fun pow_nat :: "('a \<Rightarrow> 'a \<Rightarrow> 'a) \<Rightarrow> nat \<Rightarrow> 'a \<Rightarrow> 'a \<Rightarrow> 'a" where
  "pow_nat mul k b r =
     (if k = 0 then r else pow_nat mul (k div 2) (mul b b) (if odd k then mul r b else r))"

declare pow_nat.simps [simp del]

locale residue_mult =
  fixes mul :: "'a \<Rightarrow> 'a \<Rightarrow> 'a" and represents :: "'a \<Rightarrow> nat \<Rightarrow> bool"
  assumes mul_represents: "represents x v \<Longrightarrow> represents y w \<Longrightarrow> represents (mul x y) (v * w)"
begin

lemma pow_represents: "represents b v \<Longrightarrow> represents r u \<Longrightarrow> represents (pow_nat mul k b r) (u * v ^ k)"
proof (induction k arbitrary: b r u v rule: less_induct)
  case (less k)
  show ?case
  proof (cases "k = 0")
    case True
    then show ?thesis using less.prems by (simp add: pow_nat.simps [of mul 0])
  next
    case False
    have sq: "represents (mul b b) (v * v)" using less.prems(1) by (intro mul_represents)
    have r: "represents (if odd k then mul r b else r) (if odd k then u * v else u)"
      using less.prems by (simp add: mul_represents)
    have "represents (pow_nat mul (k div 2) (mul b b) (if odd k then mul r b else r))
        ((if odd k then u * v else u) * (v * v) ^ (k div 2))"
      using False by (intro less.IH sq r) simp
    moreover have "(if odd k then u * v else u) * (v * v) ^ (k div 2) = u * v ^ k"
      by (cases "odd k") (auto elim!: oddE evenE simp: power_mult_distrib power_add power_mult power2_eq_square algebra_simps)
    ultimately show ?thesis using False by (simp add: pow_nat.simps [of mul k])
  qed
qed

end

section \<open>The 512-bit loops\<close>

lemma limb_odd: "x \<noteq> [] \<Longrightarrow> x ! 0 AND 1 \<noteq> 0 \<longleftrightarrow> odd (lval x)"
proof -
  assume "x \<noteq> []"
  then obtain a as where x: "x = a # as" by (cases x) auto
  have "x ! 0 AND 1 \<noteq> 0 \<longleftrightarrow> bit a 0" using and_exp_eq_0_iff_not_bit [of a 0] by (simp add: x)
  also have "\<dots> \<longleftrightarrow> bit (unat a) 0" by (simp only: bit_unsigned_iff) simp
  also have "\<dots> \<longleftrightarrow> odd (lval x)" by (simp add: x base_def bit_0)
  finally show ?thesis .
qed

lemma modpow_loop_nat: "e \<noteq> [] \<Longrightarrow> modpow_loop md e b res = pow_nat (\<lambda>x y. mul_mod x y md) (lval e) b res"
proof (induction md e b res rule: modpow_loop.induct)
  case (1 md e b res)
  have "rshift 1 e \<noteq> []" using 1(2) halve_limbs(2) [of e] by (metis length_0_conv)
  then show ?case
    using 1 limb_odd [of e] halve_limbs(1) [of e]
    by (simp add: modpow_loop.simps [of md e] pow_nat.simps [of _ "lval e"] is_zero_val del: One_nat_def)
qed

lemma modpow_loop32_nat: "modpow_loop32 md e b res = pow_nat (\<lambda>x y. mul_mod x y md) (unat e) b res"
proof (induction md e b res rule: modpow_loop32.induct)
  case (1 md e b res)
  have "e AND 1 \<noteq> 0 \<longleftrightarrow> odd (unat e)"
    using limb_odd [of "[e]"] by simp
  then show ?case
    using 1 unat_shift [of e]
    by (simp add: modpow_loop32.simps [of md e] pow_nat.simps [of _ "unat e"] unat_eq_zero del: One_nat_def)
qed

definition reduced :: "uint512 \<Rightarrow> uint512 \<Rightarrow> nat \<Rightarrow> bool" where
  "reduced n x v \<longleftrightarrow> length x = 16 \<and> length n = 16 \<and> 0 < lval n \<and> lval x = v mod lval n"

interpretation mm: residue_mult "\<lambda>x y. mul_mod x y n" "reduced n" for n
  by unfold_locales (use mul_mod_val in \<open>auto simp: reduced_def mod_mult_eq\<close>)

lemma modpow_val:
  assumes "length b = 16" "length md = 16" and "1 < lval md"
  shows "length e = 16 \<Longrightarrow> length (modpow b e md) = 16 \<and> lval (modpow b e md) = lval b ^ lval e mod lval md"
    and "length (modpow32 b k md) = 16 \<and> lval (modpow32 b k md) = lval b ^ unat k mod lval md"
proof -
  have b: "reduced md (mod512 b md) (lval b)"
    using div512_val(2) [OF assms(1,2)] assms by (simp add: reduced_def)
  have one: "reduced md (uint512_u32 1) 1" using assms by (simp add: reduced_def)
  note pow = mm.pow_represents [OF b one, unfolded mult_1]
  show "length (modpow b e md) = 16 \<and> lval (modpow b e md) = lval b ^ lval e mod lval md" if "length e = 16"
    using pow [of "lval e"] that modpow_loop_nat [of e] by (cases e) (auto simp: modpow_def reduced_def)
  show "length (modpow32 b k md) = 16 \<and> lval (modpow32 b k md) = lval b ^ unat k mod lval md"
    using pow [of "unat k"] by (simp add: modpow32_def modpow_loop32_nat reduced_def)
qed

section \<open>The 64-bit loop\<close>

lemma unat_rem_down:
  fixes x :: u128 and m :: u64
  assumes "m \<noteq> 0"
  shows "unat (ucast (x mod ucast m) :: u64) = unat x mod unat m"
proof -
  have "unat x mod unat m < unat m" using assms by (simp add: unat_gt_0)
  also have "\<dots> < 2 ^ 64" using unsigned_less [of m] by simp
  finally have "take_bit 64 (unat x mod unat m) = unat x mod unat m" by (rule take_bit_nat_eq_self)
  then show ?thesis by (simp add: unsigned_ucast_eq unat_mod)
qed

lemma mod64_val:
  assumes "m \<noteq> 0"
  shows "unat (add_mod64 a b m) = (unat a + unat b) mod unat m"
    and "unat (mul_mod64 a b m) = (unat a * unat b) mod unat m"
    and "unat a < unat m \<Longrightarrow> unat b < unat m \<Longrightarrow> unat (sub_mod64 a b m) = (unat a + unat m - unat b) mod unat m"
proof -
  have lt: "unat x < 2 ^ 64" for x :: u64 using unsigned_less [of x] by simp
  have "(2 :: nat) ^ 64 + 2 ^ 64 \<le> 2 ^ 128" by simp
  then have "unat a + unat b < 2 ^ 128" using lt [of a] lt [of b] by linarith
  then have "unat (ucast a + ucast b :: u128) = unat a + unat b"
    by (simp add: unat_word_ariths)
  then show "unat (add_mod64 a b m) = (unat a + unat b) mod unat m"
    unfolding add_mod64_def unat_rem_down [OF assms] by simp
  have "unat a * unat b < 2 ^ 64 * 2 ^ 64" using lt [of a] lt [of b] by (intro mult_strict_mono) simp_all
  then have "unat a * unat b < 2 ^ 128" by simp
  then have "unat (ucast a * ucast b :: u128) = unat a * unat b"
    by (simp add: unat_word_ariths)
  then show "unat (mul_mod64 a b m) = (unat a * unat b) mod unat m"
    unfolding mul_mod64_def unat_rem_down [OF assms] by simp
  show "unat (sub_mod64 a b m) = (unat a + unat m - unat b) mod unat m" if "unat a < unat m" "unat b < unat m"
  proof (cases "b \<le> a")
    case True
    then have "unat b \<le> unat a" by (simp add: word_le_nat_alt)
    then have "(unat a + unat m - unat b) mod unat m = (unat a - unat b + unat m) mod unat m" by simp
    also have "\<dots> = unat a - unat b" using that(1) by (simp add: less_imp_diff_less)
    finally show ?thesis using True by (simp add: sub_mod64_def unat_sub)
  next
    case False
    then have ab: "unat a < unat b" "a \<le> b" by (simp_all add: word_le_nat_alt)
    then have "unat (b - a) = unat b - unat a" by (simp add: unat_sub)
    moreover have "b - a \<le> m" using calculation that(2) by (simp add: word_le_nat_alt)
    ultimately have "unat (m - (b - a)) = unat m - (unat b - unat a)" by (simp add: unat_sub)
    then show ?thesis using False ab(1) that by (simp add: sub_mod64_def)
  qed
qed

definition residue64 :: "u64 \<Rightarrow> u64 \<Rightarrow> nat \<Rightarrow> bool" where
  "residue64 m x v \<longleftrightarrow> m \<noteq> 0 \<and> unat x = v mod unat m"

interpretation m64: residue_mult "\<lambda>x y. mul_mod64 x y m" "residue64 m" for m
  by unfold_locales (use mod64_val(2) in \<open>auto simp: residue64_def mod_mult_eq\<close>)

lemma pow_loop64_nat: "pow_loop64 m e b res = pow_nat (\<lambda>x y. mul_mod64 x y m) (unat e) b res"
proof (induction m e b res rule: pow_loop64.induct)
  case (1 m e b res)
  have "e mod 2 = 1 \<longleftrightarrow> odd (unat e)" by (simp add: word_unat_eq_iff unat_mod odd_iff_mod_2_eq_one)
  then show ?case
    using 1 unat_half [of e]
    by (simp add: pow_loop64.simps [of m e] pow_nat.simps [of _ "unat e"] word_less_nat_alt)
qed

lemma pow_mod64_val:
  assumes "1 < unat m"
  shows "unat (pow_mod64 b e m) = unat b ^ unat e mod unat m"
proof -
  have "residue64 m (b mod m) (unat b)" "residue64 m 1 1"
    using assms by (auto simp: residue64_def unat_mod)
  then show ?thesis
    using m64.pow_represents [of m "b mod m" "unat b" 1 1 "unat e"]
    by (simp add: pow_mod64_def pow_loop64_nat residue64_def)
qed

end
