(* ===== verification/Montgomery.thy ===== *)
theory Montgomery
  imports Modular_Power
begin

text \<open>
  \<^verbatim>\<open>montgomery.cuh\<close>: the Montgomery context of an odd 512-bit modulus and its operations.  A record holds
  the modulus, \<open>R\<^sup>2 mod N\<close> and \<open>- 1 / N mod 2 ^ 32\<close> (\<open>R = 2 ^ 512\<close>); the multiplication is the coarsely
  integrated operand scanning loop, one \<open>cios_row\<close> per limb of the first factor.
\<close>

record montgomery =
  mont_N :: uint512
  mont_R2 :: uint512
  n_prime :: u32

definition newton_inv :: "u32 \<Rightarrow> u32 \<Rightarrow> u32" where
  "newton_inv n0 iv = iv * (2 - n0 * iv)"

definition Montgomery :: "uint512 \<Rightarrow> montgomery" where
  "Montgomery modulus =
     (let iv = (newton_inv (modulus ! 0) ^^ 5) 1;
          val = (uint512_u32 0)[15 := 0x80000000];
          val = mod512 val modulus;
          val = double_mod val modulus;
          val = mul_mod val val modulus
      in \<lparr>mont_N = modulus, mont_R2 = val, n_prime = - iv\<rparr>)"

text \<open>One pass of the inner loop: the low words of the sums and the final carry.\<close>

fun cios_row :: "u32 \<Rightarrow> u32 \<Rightarrow> u128 \<Rightarrow> u32 list \<Rightarrow> u32 list \<Rightarrow> u32 list \<Rightarrow> u32 list \<times> u128" where
  "cios_row ai u carry (t # ts) (b # bs) (n # ns) =
     (let s = ucast t + ucast ai * ucast b + ucast u * ucast n + carry
      in case cios_row ai u (drop_bit 32 s) ts bs ns of (lows, c) \<Rightarrow> (ucast s # lows, c))"
| "cios_row ai u carry _ _ _ = ([], carry)"

text \<open>One iteration of the outer loop: the lowest word is dropped, the top word and the extra limb
  come from the carry.\<close>

definition cios_step :: "montgomery \<Rightarrow> uint512 \<Rightarrow> u32 \<Rightarrow> uint512 \<times> u32 \<Rightarrow> uint512 \<times> u32" where
  "cios_step mc b ai st =
     (case st of (T, extra) \<Rightarrow>
        let u = (T ! 0 + ai * b ! 0) * n_prime mc;
            (lows, carry) = cios_row ai u 0 T b (mont_N mc);
            sum_top = ucast extra + carry
        in (tl lows @ [ucast sum_top], ucast (drop_bit 32 sum_top)))"

definition mont_mul :: "montgomery \<Rightarrow> uint512 \<Rightarrow> uint512 \<Rightarrow> uint512" where
  "mont_mul mc a b =
     (case fold (cios_step mc b) a (zero512, 0) of (T, extra) \<Rightarrow>
        if extra \<noteq> 0 \<or> geq512 T (mont_N mc) then sub512 T (mont_N mc) else T)"

definition transform :: "montgomery \<Rightarrow> uint512 \<Rightarrow> uint512" where
  "transform mc a = mont_mul mc a (mont_R2 mc)"

definition mont_reduce :: "montgomery \<Rightarrow> uint512 \<Rightarrow> uint512" where
  "mont_reduce mc a = mont_mul mc a (uint512_u32 1)"

definition mont_sqr :: "montgomery \<Rightarrow> uint512 \<Rightarrow> uint512" where
  "mont_sqr mc a = mont_mul mc a a"

function mont_pow_loop :: "montgomery \<Rightarrow> uint512 \<Rightarrow> uint512 \<Rightarrow> uint512 \<Rightarrow> uint512" where
  "mont_pow_loop mc e b res =
     (if \<not> is_zero e then
        mont_pow_loop mc (rshift 1 e) (mont_sqr mc b) (if e ! 0 AND 1 \<noteq> 0 then mont_mul mc res b else res)
      else res)"
  by pat_completeness auto
termination
  by (relation "measure (\<lambda>(mc, e, b, res). lval e)") (simp_all add: halve_limbs_less del: One_nat_def)

declare mont_pow_loop.simps [simp del]

definition mont_pow :: "montgomery \<Rightarrow> uint512 \<Rightarrow> uint512 \<Rightarrow> uint512" where
  "mont_pow mc base_mont e = mont_pow_loop mc e base_mont (transform mc (uint512_u32 1))"

section \<open>The constants\<close>

lemma newton_inv_error: "1 - n0 * newton_inv n0 iv = (1 - n0 * iv) * (1 - n0 * iv)"
  by (simp add: newton_inv_def algebra_simps)

lemma newton_inv_iter: "1 - n0 * (newton_inv n0 ^^ k) x = (1 - n0 * x) ^ 2 ^ k"
  by (induction k) (simp_all add: newton_inv_error mult_2 power_add)

lemma n_prime_inverse:
  fixes n0 :: u32
  assumes "odd (unat n0)"
  shows "n0 * (newton_inv n0 ^^ 5) 1 = 1"
proof -
  obtain k where k: "unat n0 = 2 * k + 1" using assms by (rule oddE)
  have "n0 = of_nat (unat n0)" by simp
  then have "n0 = 2 * of_nat k + 1" by (simp only: k of_nat_add of_nat_mult of_nat_1 of_nat_numeral)
  then obtain t :: u32 where t: "1 - n0 = 2 * t" by (intro that [of "- of_nat k"]) simp
  have "1 - n0 * (newton_inv n0 ^^ 5) 1 = (1 - n0) ^ 32"
    using newton_inv_iter [of n0 5 1] by (simp only: mult_1_right) simp
  also have "\<dots> = 2 ^ 32 * t ^ 32" by (simp only: t power_mult_distrib)
  also have "(2 :: u32) ^ 32 = 0" by simp
  finally show ?thesis by simp
qed

lemma Montgomery_val:
  assumes "length n = 16" and "odd (lval n)" and "1 < lval n"
  shows "mont_N (Montgomery n) = n" and "n ! 0 * n_prime (Montgomery n) = - 1"
    and "length (mont_R2 (Montgomery n)) = 16" and "lval (mont_R2 (Montgomery n)) = 2 ^ 1024 mod lval n"
proof -
  obtain a as where a: "n = a # as" using assms(1) by (cases n) auto
  have "odd (unat a)" using assms(2) by (simp add: a base_def)
  then show "n ! 0 * n_prime (Montgomery n) = - 1"
    using n_prime_inverse [of a] by (simp add: Montgomery_def Let_def a)
  show "mont_N (Montgomery n) = n" by (simp add: Montgomery_def Let_def)
  define v0 where "v0 = (uint512_u32 0)[15 := 0x80000000]"
  define v1 where "v1 = mod512 v0 n"
  define v2 where "v2 = double_mod v1 n"
  have n0: "lval n \<noteq> 0" using assms(3) by simp
  have "uint512_u32 0 ! 15 = 0" by (simp add: uint512_u32_def)
  then have "length v0 = 16" "lval v0 = base ^ 15 * 2 ^ 31"
    using lval_update [where k = 15 and xs = "uint512_u32 0" and v = "0x80000000"] by (simp_all add: v0_def)
  then have "length v0 = 16" "lval v0 = 2 ^ 511" by (simp_all add: base_def)
  then have v1: "length v1 = 16" "lval v1 = 2 ^ 511 mod lval n"
    using div512_val(2) [OF _ assms(1) n0, of v0] by (simp_all add: v1_def)
  have v2: "length v2 = 16" "lval v2 = 2 ^ 512 mod lval n"
  proof -
    have "length v2 = 16 \<and> lval v2 = (2 * lval v1) mod lval n"
      unfolding v2_def using v1 n0 by (intro double_mod_val assms(1)) simp_all
    moreover have "(2 * lval v1) mod lval n = 2 * 2 ^ 511 mod lval n" unfolding v1(2) by (rule mod_mult_right_eq)
    moreover have "(2 :: nat) * 2 ^ 511 = 2 ^ 512" by simp
    ultimately show "length v2 = 16" "lval v2 = 2 ^ 512 mod lval n" by (simp_all only:)
  qed
  have "(lval v2 * lval v2) mod lval n = (2 ^ 512 * 2 ^ 512) mod lval n" unfolding v2(2) by (rule mod_mult_eq)
  moreover have "(2 :: nat) ^ 512 * 2 ^ 512 = 2 ^ 1024" by simp
  ultimately have "length (mul_mod v2 v2 n) = 16 \<and> lval (mul_mod v2 v2 n) = 2 ^ 1024 mod lval n"
    using mul_mod_val [OF v2(1) v2(1) assms(1)] n0 by (simp only:)
  moreover have "mont_R2 (Montgomery n) = mul_mod v2 v2 n"
    by (simp only: Montgomery_def Let_def montgomery.select_convs v2_def v1_def v0_def)
  ultimately show "length (mont_R2 (Montgomery n)) = 16" "lval (mont_R2 (Montgomery n)) = 2 ^ 1024 mod lval n"
    by simp_all
qed

section \<open>The multiplication loop\<close>

lemma limb_product_le: "unat (x :: u32) * unat (y :: u32) \<le> (base - 1) * (base - 1)"
proof -
  have "unat x < base" "unat y < base" by simp_all
  then show ?thesis by (intro mult_le_mono) linarith+
qed

lemma cios_sum:
  fixes t ai b u n :: u32 and c :: u128
  assumes "unat c \<le> 2 * base"
  defines "s \<equiv> ucast t + ucast ai * ucast b + ucast u * ucast n + c"
    and "S \<equiv> unat t + unat ai * unat b + unat u * unat n + unat c"
  shows "unat s = S" and "S div base \<le> 2 * base" and "(ucast s :: u32) = t + ai * b + u * n + of_nat (unat c)"
proof -
  have "unat t < base" by simp
  then have S: "S \<le> base + 2 * ((base - 1) * (base - 1)) + 2 * base"
    unfolding S_def using limb_product_le [of ai b] limb_product_le [of u n] assms(1) by linarith
  have "base + 2 * ((base - 1) * (base - 1)) + 2 * base < 2 * base * base + base" by (simp add: base_def)
  then have lt: "S < (2 * base + 1) * base" using S by (simp add: algebra_simps)
  then have "S div base < 2 * base + 1" by (rule less_mult_imp_div_less)
  then show "S div base \<le> 2 * base" by simp
  have "(2 * base + 1) * base < 2 ^ 128" by (simp add: base_def)
  then have "S mod 2 ^ 128 = S" using lt by simp
  then show s: "unat s = S"
    unfolding s_def S_def by (simp add: unat_word_ariths mod_simps)
  show "(ucast s :: u32) = t + ai * b + u * n + of_nat (unat c)"
  proof -
    have "(ucast s :: u32) = of_nat (unat s)" by simp
    then show ?thesis unfolding s S_def by (simp only: of_nat_add of_nat_mult) simp
  qed
qed

lemma cios_row_val:
  assumes "length ts = length bs" and "length bs = length ns" and "unat c \<le> 2 * base"
  shows "case cios_row ai u c ts bs ns of (lows, c') \<Rightarrow> length lows = length ts \<and> unat c' \<le> 2 * base \<and>
    lval lows + base ^ length ts * unat c' = lval ts + unat ai * lval bs + unat u * lval ns + unat c"
  using assms
proof (induction ts bs ns arbitrary: c rule: list_induct3)
  case (Cons t ts b bs n ns)
  define s where "s = ucast t + ucast ai * ucast b + ucast u * ucast n + c"
  define S where "S = unat t + unat ai * unat b + unat u * unat n + unat c"
  note sum = cios_sum [OF Cons.prems, of t ai b u n, folded s_def S_def]
  obtain lows c' where r: "cios_row ai u (drop_bit 32 s) ts bs ns = (lows, c')" by fastforce
  have hi: "unat (drop_bit 32 s) = S div base" and lo: "unat (ucast s :: u32) = S mod base"
    using sum(1) by (simp_all add: unat_low32 unat_high32)
  have IH: "length lows = length ts" "unat c' \<le> 2 * base"
    "lval lows + base ^ length ts * unat c' = lval ts + unat ai * lval bs + unat u * lval ns + S div base"
    using Cons.IH [of "drop_bit 32 s"] r sum(2) hi by simp_all
  have "S mod base + base * (S div base) = S" by simp
  then have "S mod base + base * (lval lows + base ^ length ts * unat c') =
      S + base * (lval ts + unat ai * lval bs + unat u * lval ns)"
    unfolding IH(3) distrib_left by linarith
  moreover have "cios_row ai u c (t # ts) (b # bs) (n # ns) = (ucast s # lows, c')"
    using r by (simp add: s_def [symmetric] Let_def)
  ultimately show ?case using IH(1,2) lo by (simp add: S_def algebra_simps)
qed simp

text \<open>One outer step divides \<open>V + a\<^sub>i b + u N\<close> by the base, where \<open>V\<close> is the value of accumulator and extra
  limb; the value stays below \<open>b + N\<close>.\<close>

definition acc_val :: "uint512 \<times> u32 \<Rightarrow> nat" where
  "acc_val st = lval (fst st) + base ^ 16 * unat (snd st)"

lemma cios_step_val:
  assumes "length b = 16" "length (mont_N mc) = 16" "length (fst st) = 16"
    and "mont_N mc ! 0 * n_prime mc = - 1"
    and "acc_val st < lval b + lval (mont_N mc)"
  shows "length (fst (cios_step mc b ai st)) = 16"
    and "acc_val (cios_step mc b ai st) < lval b + lval (mont_N mc)"
    and "\<exists>u. base * acc_val (cios_step mc b ai st) = acc_val st + unat ai * lval b + u * lval (mont_N mc)"
proof -
  obtain T extra where st: "st = (T, extra)" by fastforce
  define u where "u = (T ! 0 + ai * b ! 0) * n_prime mc"
  obtain lows carry where r: "cios_row ai u 0 T b (mont_N mc) = (lows, carry)" by fastforce
  have T: "length T = 16" using assms(3) st by simp
  have row: "length lows = 16" "unat carry \<le> 2 * base"
    "lval lows + base ^ 16 * unat carry = lval T + unat ai * lval b + unat u * lval (mont_N mc)"
    using cios_row_val [of T b "mont_N mc" 0 ai u] r T assms(1,2) by simp_all
  obtain t ts b0 bs n0 ns where split: "T = t # ts" "b = b0 # bs" "mont_N mc = n0 # ns"
    using T assms(1,2) by (metis length_0_conv neq_Nil_conv zero_neq_numeral)
  have "hd lows = t + ai * b0 + u * n0"
    using r cios_sum(3) [of 0 t ai b0 u n0] by (auto simp: split split: prod.splits)
  also have "u * n0 = - (t + ai * b0)"
    using assms(4) by (simp add: u_def split mult.assoc mult.commute [of "n_prime mc"])
  finally have "hd lows = 0" by simp
  then obtain ls where lows: "lows = 0 # ls" "length ls = 15" using row(1) by (cases lows) auto
  define top where "top = (ucast extra + carry :: u128)"
  have "unat extra < base" by simp
  then have E: "unat extra + unat carry < 3 * base" using row(2) by linarith
  moreover have "3 * base < 2 ^ 128" by (simp add: base_def)
  ultimately have top: "unat top = unat extra + unat carry"
    using unat_add_exact [of "ucast extra :: u128" carry] by (simp add: top_def)
  have "(unat extra + unat carry) div base < 3" using E by (rule less_mult_imp_div_less)
  moreover have "3 < base" by (simp add: base_def)
  ultimately have hi: "unat (ucast (drop_bit 32 top) :: u32) = (unat extra + unat carry) div base"
    by (simp add: unat_low32 unat_high32 top)
  have res: "cios_step mc b ai st = (ls @ [ucast top], ucast (drop_bit 32 top))"
    using r by (simp add: cios_step_def st u_def [symmetric] lows top_def Let_def)
  show "length (fst (cios_step mc b ai st)) = 16" using lows by (simp add: res)
  have p16: "base ^ 16 = base ^ 15 * base" using power_Suc2 [of base 15] by simp
  have lo: "unat (ucast top :: u32) = unat top mod base" by (rule unat_low32)
  have "acc_val (cios_step mc b ai st) = lval ls + base ^ 15 * (unat top mod base + base * (unat top div base))"
    unfolding distrib_left mult.assoc [symmetric] p16 [symmetric]
    by (simp add: res acc_val_def lval_append lows(2) lo hi top)
  then have "base * acc_val (cios_step mc b ai st) = lval lows + base ^ 16 * (unat extra + unat carry)"
    using lows top p16 by (simp add: algebra_simps)
  then have eq: "base * acc_val (cios_step mc b ai st) = acc_val st + unat ai * lval b + unat u * lval (mont_N mc)"
    using row(3) by (simp add: acc_val_def st algebra_simps)
  then show "\<exists>u. base * acc_val (cios_step mc b ai st) = acc_val st + unat ai * lval b + u * lval (mont_N mc)" by blast
  have "unat ai * lval b \<le> (base - 1) * lval b" "unat u * lval (mont_N mc) \<le> (base - 1) * lval (mont_N mc)"
    using unat_limb [of ai] unat_limb [of u] by (intro mult_le_mono1; linarith)+
  then have "base * acc_val (cios_step mc b ai st) < (lval b + lval (mont_N mc)) + (base - 1) * (lval b + lval (mont_N mc))"
    using eq assms(5) by (simp only: distrib_left)
  also have "\<dots> = base * (lval b + lval (mont_N mc))" by (simp add: base_def)
  finally show "acc_val (cios_step mc b ai st) < lval b + lval (mont_N mc)" by simp
qed

lemma cios_fold_val:
  assumes "length b = 16" "length (mont_N mc) = 16" and "mont_N mc ! 0 * n_prime mc = - 1" and "0 < lval (mont_N mc)"
  shows "length (fst (fold (cios_step mc b) as (zero512, 0))) = 16 \<and>
    acc_val (fold (cios_step mc b) as (zero512, 0)) < lval b + lval (mont_N mc) \<and>
    (\<exists>m. acc_val (fold (cios_step mc b) as (zero512, 0)) * base ^ length as = lval as * lval b + m * lval (mont_N mc))"
proof (induction as rule: rev_induct)
  case Nil
  then show ?case using assms(4) by (simp add: acc_val_def)
next
  case (snoc a as)
  define st where "st = fold (cios_step mc b) as (zero512, 0)"
  have st: "length (fst st) = 16" "acc_val st < lval b + lval (mont_N mc)" using snoc by (simp_all add: st_def)
  obtain m where m: "acc_val st * base ^ length as = lval as * lval b + m * lval (mont_N mc)"
    using snoc by (auto simp: st_def)
  note step = cios_step_val [OF assms(1,2) st(1) assms(3) st(2), of a]
  obtain u where u: "base * acc_val (cios_step mc b a st) = acc_val st + unat a * lval b + u * lval (mont_N mc)"
    using step(3) by blast
  have "acc_val (cios_step mc b a st) * base ^ length (as @ [a]) = (base * acc_val (cios_step mc b a st)) * base ^ length as"
    by simp
  also have "\<dots> = lval (as @ [a]) * lval b + (m + u * base ^ length as) * lval (mont_N mc)"
    unfolding u using m by (simp add: lval_append algebra_simps)
  finally show ?case using step(1,2) by (auto simp: st_def)
qed

text \<open>The context of a modulus, and the contract of the multiplication.\<close>

definition mont_ok :: "montgomery \<Rightarrow> bool" where
  "mont_ok mc \<longleftrightarrow> length (mont_N mc) = 16 \<and> odd (lval (mont_N mc)) \<and> 1 < lval (mont_N mc) \<and>
     mont_N mc ! 0 * n_prime mc = - 1 \<and> length (mont_R2 mc) = 16 \<and> lval (mont_R2 mc) = 2 ^ 1024 mod lval (mont_N mc)"

lemma mont_mul_val:
  assumes "mont_ok mc" and "length a = 16" "length b = 16" and "lval b < lval (mont_N mc)"
  shows "length (mont_mul mc a b) = 16" and "lval (mont_mul mc a b) < lval (mont_N mc)"
    and "(lval (mont_mul mc a b) * 2 ^ 512) mod lval (mont_N mc) = (lval a * lval b) mod lval (mont_N mc)"
proof -
  define n where "n = mont_N mc"
  have n: "length n = 16" "0 < lval n" using assms(1) by (simp_all add: mont_ok_def n_def)
  obtain T extra where f: "fold (cios_step mc b) a (zero512, 0) = (T, extra)" by fastforce
  define V where "V = acc_val (T, extra)"
  obtain m where T: "length T = 16" "V < lval b + lval n" and m: "V * 2 ^ 512 = lval a * lval b + m * lval n"
    using cios_fold_val [of b mc a] assms f by (auto simp: mont_ok_def n_def V_def pow512)
  have V: "V = lval T + base ^ 16 * unat extra" by (simp add: V_def acc_val_def)
  note bound = limb_bound512 [OF n(1)] limb_bound512 [OF T(1)]
  have mult: "(V * 2 ^ 512) mod lval n = (lval a * lval b) mod lval n" unfolding m by simp
  have test: "extra \<noteq> 0 \<or> geq512 T n \<longleftrightarrow> lval n \<le> V"
  proof (cases "extra = 0")
    case True
    then show ?thesis by (simp add: V geq512_val T(1) n(1))
  next
    case False
    then have "base ^ 16 * 1 \<le> base ^ 16 * unat extra" by (intro mult_le_mono2) (simp add: unat_gt_0 Suc_le_eq)
    then show ?thesis using False V bound by linarith
  qed
  have "length (mont_mul mc a b) = 16 \<and> lval (mont_mul mc a b) < lval n \<and>
      (lval (mont_mul mc a b) * 2 ^ 512) mod lval n = (lval a * lval b) mod lval n"
  proof (cases "lval n \<le> V")
    case True
    have r: "mont_mul mc a b = sub512 T n" using True test f by (simp add: mont_mul_def n_def)
    have v: "lval (sub512 T n) = V - lval n"
      using True V T(2) assms(4) bound by (intro sub512_exact [OF T(1) n(1), of "unat extra"]) (auto simp: n_def)
    have "(V - lval n) * 2 ^ 512 + 2 ^ 512 * lval n = V * 2 ^ 512" using True by (simp add: diff_mult_distrib)
    then have "((V - lval n) * 2 ^ 512) mod lval n = (V * 2 ^ 512) mod lval n"
      by (metis mod_mult_self1)
    moreover have "V - lval n < lval n" using True T(2) assms(4) unfolding n_def by linarith
    ultimately show ?thesis using sub512_val(1) [OF T(1) n(1)] mult by (simp only: r v simp_thms)
  next
    case False
    have "mont_mul mc a b = T" using False test f by (simp add: mont_mul_def n_def)
    moreover have "lval T = V"
      using False V bound by (cases "unat extra") simp_all
    ultimately show ?thesis using False T(1) mult by simp
  qed
  then show "length (mont_mul mc a b) = 16" "lval (mont_mul mc a b) < lval (mont_N mc)"
    "(lval (mont_mul mc a b) * 2 ^ 512) mod lval (mont_N mc) = (lval a * lval b) mod lval (mont_N mc)"
    by (simp_all add: n_def)
qed

section \<open>Representation, powers and the round trip\<close>

lemma cancel_radix:
  assumes "odd (N :: nat)" and "(x * 2 ^ k) mod N = (y * 2 ^ k) mod N"
  shows "x mod N = y mod N"
proof -
  have "int N dvd int x * 2 ^ k - int y * 2 ^ k"
    using arg_cong [OF assms(2), of int] by (simp add: of_nat_mod mod_eq_dvd_iff)
  then have "int N dvd (int x - int y) * 2 ^ k" by (simp add: algebra_simps)
  moreover have "coprime (int N) (2 ^ k)" using assms(1) by simp
  ultimately have "int N dvd int x - int y" by (simp add: coprime_dvd_mult_left_iff)
  then have "int x mod int N = int y mod int N" by (simp only: mod_eq_dvd_iff)
  then show ?thesis by (simp only: of_nat_mod [symmetric] of_nat_eq_iff)
qed

definition mont_form :: "montgomery \<Rightarrow> uint512 \<Rightarrow> nat \<Rightarrow> bool" where
  "mont_form mc x v \<longleftrightarrow> mont_ok mc \<and> length x = 16 \<and> lval x = (v * 2 ^ 512) mod lval (mont_N mc)"

lemma mont_mul_form:
  assumes "mont_ok mc" and "length a = 16" "length b = 16" and "lval b < lval (mont_N mc)"
    and "(lval a * lval b) mod lval (mont_N mc) = (v * 2 ^ 512 * 2 ^ 512) mod lval (mont_N mc)"
  shows "mont_form mc (mont_mul mc a b) v"
proof -
  note mul = mont_mul_val [OF assms(1-4)]
  have "lval (mont_mul mc a b) mod lval (mont_N mc) = (v * 2 ^ 512) mod lval (mont_N mc)"
  proof (rule cancel_radix)
    show "odd (lval (mont_N mc))" using assms(1) by (simp add: mont_ok_def)
    show "(lval (mont_mul mc a b) * 2 ^ 512) mod lval (mont_N mc) = (v * 2 ^ 512 * 2 ^ 512) mod lval (mont_N mc)"
      using mul(3) assms(5) by (simp only:)
  qed
  then show ?thesis using mul(1,2) assms(1) by (simp add: mont_form_def)
qed

interpretation mont: residue_mult "mont_mul mc" "mont_form mc" for mc
proof
  fix x y v w
  assume x: "mont_form mc x v" and y: "mont_form mc y w"
  show "mont_form mc (mont_mul mc x y) (v * w)"
  proof (rule mont_mul_form)
    have "(lval x * lval y) mod lval (mont_N mc) = ((v * 2 ^ 512) * (w * 2 ^ 512)) mod lval (mont_N mc)"
      using x y unfolding mont_form_def by (simp only: mod_mult_eq)
    then show "(lval x * lval y) mod lval (mont_N mc) = (v * w * 2 ^ 512 * 2 ^ 512) mod lval (mont_N mc)"
      by (simp only: ac_simps)
    show "lval y < lval (mont_N mc)" using y by (simp add: mont_form_def mont_ok_def)
  qed (use x y in \<open>simp_all add: mont_form_def\<close>)
qed

lemma transform_form:
  assumes "mont_ok mc" and "length a = 16"
  shows "mont_form mc (transform mc a) (lval a)"
  unfolding transform_def
proof (rule mont_mul_form [OF assms])
  have "(2 :: nat) ^ 1024 = 2 ^ 512 * 2 ^ 512" by simp
  then show "(lval a * lval (mont_R2 mc)) mod lval (mont_N mc) = (lval a * 2 ^ 512 * 2 ^ 512) mod lval (mont_N mc)"
    using assms(1) by (simp only: mont_ok_def mod_mult_right_eq mult.assoc)
qed (use assms in \<open>simp_all add: mont_ok_def\<close>)

lemma mont_reduce_val:
  assumes "mont_form mc x v"
  shows "length (mont_reduce mc x) = 16" and "lval (mont_reduce mc x) = v mod lval (mont_N mc)"
proof -
  have ok: "mont_ok mc" "length x = 16" and n: "odd (lval (mont_N mc))" "1 < lval (mont_N mc)"
    using assms by (simp_all add: mont_form_def mont_ok_def)
  have mul: "length (mont_reduce mc x) = 16" "lval (mont_reduce mc x) < lval (mont_N mc)"
    "(lval (mont_reduce mc x) * 2 ^ 512) mod lval (mont_N mc) = lval x mod lval (mont_N mc)"
    unfolding mont_reduce_def using mont_mul_val [OF ok, of "uint512_u32 1"] n(2) by simp_all
  have "(lval (mont_reduce mc x) * 2 ^ 512) mod lval (mont_N mc) = (v * 2 ^ 512) mod lval (mont_N mc)"
    unfolding mul(3) using assms by (simp only: mont_form_def mod_mod_trivial)
  then have "lval (mont_reduce mc x) mod lval (mont_N mc) = v mod lval (mont_N mc)" by (rule cancel_radix [OF n(1)])
  then show "length (mont_reduce mc x) = 16" "lval (mont_reduce mc x) = v mod lval (mont_N mc)"
    using mul(1,2) by simp_all
qed

lemma mont_pow_loop_nat: "e \<noteq> [] \<Longrightarrow> mont_pow_loop mc e b res = pow_nat (mont_mul mc) (lval e) b res"
proof (induction mc e b res rule: mont_pow_loop.induct)
  case (1 mc e b res)
  have "rshift 1 e \<noteq> []" using 1(2) halve_limbs(2) [of e] by (metis length_0_conv)
  then show ?case
    using 1 limb_odd [of e] halve_limbs(1) [of e]
    by (simp add: mont_pow_loop.simps [of mc e] pow_nat.simps [of _ "lval e"] is_zero_val mont_sqr_def del: One_nat_def)
qed

lemma mont_pow_form:
  assumes "mont_form mc b v" and "length e = 16"
  shows "mont_form mc (mont_pow mc b e) (v ^ lval e)"
proof -
  have "mont_form mc (transform mc (uint512_u32 1)) 1"
    using transform_form [of mc "uint512_u32 1"] assms(1) by (simp add: mont_form_def)
  from mont.pow_represents [OF assms(1) this, of "lval e"] show ?thesis
    using assms(2) mont_pow_loop_nat [of e] by (cases e) (auto simp: mont_pow_def)
qed

lemma Montgomery_ok: "length n = 16 \<Longrightarrow> odd (lval n) \<Longrightarrow> 1 < lval n \<Longrightarrow> mont_ok (Montgomery n)"
  using Montgomery_val [of n] by (simp add: mont_ok_def)

text \<open>
  C20. Montgomery arithmetic: for every odd modulus \<open>N > 1\<close> the constants computed by the constructor make
  \<open>reduce\<close> undo \<open>transform\<close>, the product of two transformed numbers is the transform of the product and
  the power in Montgomery form is the transform of the power, each modulo \<open>N\<close> and reduced below \<open>N\<close>, for
  operands and exponents of any 512-bit value.
\<close>

theorem montgomery_arithmetic:
  assumes "length n = 16" and "odd (lval n)" and "1 < lval n"
    and "length a = 16" "length b = 16" "length e = 16"
  shows "lval (mont_reduce (Montgomery n) (transform (Montgomery n) a)) = lval a mod lval n \<and>
    lval (mont_reduce (Montgomery n) (mont_mul (Montgomery n) (transform (Montgomery n) a) (transform (Montgomery n) b)))
      = (lval a * lval b) mod lval n \<and>
    lval (mont_reduce (Montgomery n) (mont_pow (Montgomery n) (transform (Montgomery n) a) e)) = lval a ^ lval e mod lval n"
proof -
  have ok: "mont_ok (Montgomery n)" using assms by (intro Montgomery_ok)
  have N: "mont_N (Montgomery n) = n" using assms by (intro Montgomery_val)
  note a = transform_form [OF ok assms(4)] and b = transform_form [OF ok assms(5)]
  show ?thesis
    using mont_reduce_val(2) [OF a] mont_reduce_val(2) [OF mont.mul_represents [OF a b]]
      mont_reduce_val(2) [OF mont_pow_form [OF a assms(6)]]
    by (simp only: N simp_thms)
qed

theorem montgomery_arithmetic_witness:
  "lval (mont_reduce (Montgomery (uint512_u32 101)) (mont_pow (Montgomery (uint512_u32 101))
     (transform (Montgomery (uint512_u32 101)) (uint512_u32 2)) (uint512_u32 10))) = 14"
  using montgomery_arithmetic [of "uint512_u32 101" "uint512_u32 2" "uint512_u32 3" "uint512_u32 10"] by simp

end
