(* ===== verification/Math_Utils.thy ===== *)
theory Math_Utils
  imports Modular_Power
begin

text \<open>
  \<^verbatim>\<open>math_utils.cuh\<close>: greatest common divisor, modular inverses (512-bit and 32-bit modulus), Legendre
  symbol, square roots modulo a number that is 3 modulo 4, the Chinese remainder theorem for two
  congruences, and the polynomial values \<open>a x + b\<close> and \<open>(a x + b)\<^sup>2 - N\<close> in wrapping arithmetic.  The Euclidean
  loops over limbs are partial functions whose termination is proved.
\<close>

section \<open>Euclidean loops\<close>

partial_function (option) gcd512 :: "uint512 \<Rightarrow> uint512 \<Rightarrow> uint512 option" where
  "gcd512 a b = (if is_zero b then Some a else gcd512 b (mod512 a b))"

text \<open>The loop of the 512-bit \<open>mod_inverse\<close>: it ends with the last non-zero remainder and its coefficient.\<close>

partial_function (option) inverse_loop ::
  "uint512 \<Rightarrow> uint512 \<Rightarrow> uint512 \<Rightarrow> uint512 \<Rightarrow> uint512 \<Rightarrow> (uint512 \<times> uint512) option" where
  "inverse_loop m r0 r1 u0 u1 =
     (if is_zero r1 then Some (r0, u0)
      else
        let q = div512 r0 r1; r_next = mod512 r0 r1;
            trm = mul_mod q u1 m;
            u_next = (if less512 u0 trm then add512 u0 m else u0);
            u_next = sub512 u_next trm
        in inverse_loop m r1 r_next u1 u_next)"

definition mod_inverse :: "uint512 \<Rightarrow> uint512 \<Rightarrow> uint512 option" where
  "mod_inverse a m =
     (case inverse_loop m a m (uint512_u32 1) (uint512_u32 0) of
        None \<Rightarrow> None
      | Some (r0, u0) \<Rightarrow> Some (if \<not> is_one r0 then uint512_u32 0 else u0))"

lemma rem_word_less: "r1 \<noteq> 0 \<Longrightarrow> unat (r0 mod r1) < unat r1" for r0 r1 :: u32
  by (simp add: unat_mod unat_gt_0)

function inverse_loop32 :: "u32 \<Rightarrow> u32 \<Rightarrow> u32 \<Rightarrow> u32 \<Rightarrow> u32 \<Rightarrow> u32 \<times> u32" where
  "inverse_loop32 m r0 r1 u0 u1 =
     (if r1 \<noteq> 0 then
        let q = r0 div r1; r_next = r0 mod r1;
            trm = ucast ((ucast q * ucast u1 :: u64) mod ucast m);
            u_next = (if u0 < trm then (u0 + m) - trm else u0 - trm)
        in inverse_loop32 m r1 r_next u1 u_next
      else (r0, u0))"
  by pat_completeness auto
termination
  by (relation "measure (\<lambda>(m, r0, r1, u0, u1). unat r1)") (simp_all add: rem_word_less)

declare inverse_loop32.simps [simp del]

definition mod_inverse32 :: "uint512 \<Rightarrow> u32 \<Rightarrow> u32" where
  "mod_inverse32 a m =
     (case inverse_loop32 m (mod_uint32 m a) m 1 0 of (r0, u0) \<Rightarrow> if r0 \<noteq> 1 then 0 else u0)"

section \<open>Residues\<close>

definition legendre_symbol :: "uint512 \<Rightarrow> uint512 \<Rightarrow> uint512" where
  "legendre_symbol a p =
     (let a = mod512 a p
      in if is_zero a then uint512_u32 0
         else modpow a (rshift 1 (sub512 p (uint512_u32 1))) p)"

definition sqrt_mod_3mod4 :: "uint512 \<Rightarrow> uint512 \<Rightarrow> uint512" where
  "sqrt_mod_3mod4 n p =
     (if p ! 0 AND 3 \<noteq> 3 then uint512_u32 0
      else if \<not> is_one (legendre_symbol n p) then uint512_u32 0
      else modpow n (rshift 2 (add512 p (uint512_u32 1))) p)"

definition crt_2 :: "uint512 \<Rightarrow> uint512 \<Rightarrow> uint512 \<Rightarrow> uint512 \<Rightarrow> uint512 option" where
  "crt_2 r1 m1 r2 m2 =
     (let M = mult512 m1 m2
      in case mod_inverse m2 m1 of None \<Rightarrow> None
       | Some y1 \<Rightarrow> case mod_inverse m1 m2 of None \<Rightarrow> None
       | Some y2 \<Rightarrow>
           let term1 = mul_mod (mul_mod r1 m2 M) y1 M;
               term2 = mul_mod (mul_mod r2 m1 M) y2 M
           in Some (mod512 (add512 term1 term2) M))"

section \<open>Polynomial values\<close>

definition calculate_sqrt_of_QX :: "uint512 \<Rightarrow> uint512 \<Rightarrow> u32 \<Rightarrow> uint512 \<times> int" where
  "calculate_sqrt_of_QX a b x =
     (let neg = sint x < 0;
          abs_x = (if neg then - x else x);
          ax = mult_uint32 abs_x a;
          temp = (if \<not> neg then add512 ax b else sub512 b ax)
      in abs_twos_complement temp)"

definition calculateQ_unsigned :: "uint512 \<Rightarrow> uint512 \<Rightarrow> u32 \<Rightarrow> uint512 \<Rightarrow> uint512 \<times> int" where
  "calculateQ_unsigned a b x N =
     (let neg = sint x < 0;
          abs_x = (if neg then - x else x);
          ax = mult_uint32 abs_x a;
          temp = (if \<not> neg then add512 ax b else sub512 b ax);
          (abs, sign) = abs_twos_complement temp;
          abs = mult512 abs abs;
          abs = sub512 abs N
      in abs_twos_complement abs)"

section \<open>The Euclidean algorithm on natural numbers\<close>

function euclid :: "nat \<Rightarrow> nat \<Rightarrow> nat \<Rightarrow> nat \<Rightarrow> nat \<Rightarrow> nat \<times> nat" where
  "euclid m r0 r1 u0 u1 =
     (if r1 = 0 then (r0, u0)
      else euclid m r1 (r0 mod r1) u1 ((u0 + m - (r0 div r1 * u1) mod m) mod m))"
  by pat_completeness auto
termination
  by (relation "measure (\<lambda>(m, r0, r1, u0, u1). r1)") simp_all

declare euclid.simps [simp del]

lemma euclid_gcd: "fst (euclid m r0 r1 u0 u1) = gcd r0 r1"
proof (induction m r0 r1 u0 u1 rule: euclid.induct)
  case (1 m r0 r1 u0 u1)
  then show ?case by (simp add: euclid.simps [of m r0 r1] gcd_red_nat [of r0 r1])
qed

lemma euclid_step:
  assumes "0 < m" and "int m dvd int u0 * a - int r0" and "int m dvd int u1 * a - int r1"
  shows "int m dvd int ((u0 + m - (r0 div r1 * u1) mod m) mod m) * a - int (r0 mod r1)"
proof -
  define q where "q = r0 div r1"
  define t where "t = (q * u1) mod m"
  define u2 where "u2 = (u0 + m - t) mod m"
  have "t \<le> u0 + m" using assms(1) by (simp add: t_def less_imp_le trans_le_add2)
  then have d: "int (u0 + m - t) = int u0 + int m - int t" by simp
  have "int m dvd int u2 - int (u0 + m - t)"
    by (simp add: u2_def of_nat_mod flip: mod_eq_dvd_iff)
  then obtain k where k: "int u2 = int u0 + int m - int t + int m * k"
    unfolding d dvd_def by (metis diff_add_cancel add.commute)
  have "int m dvd int t - int q * int u1"
    by (simp add: t_def of_nat_mod flip: mod_eq_dvd_iff of_nat_mult)
  then obtain j where j: "int t = int q * int u1 + int m * j" unfolding dvd_def by (metis diff_add_cancel add.commute)
  have "int r0 = int (q * r1 + r0 mod r1)" by (simp add: q_def)
  then have r: "int (r0 mod r1) = int r0 - int q * int r1" by simp
  have "int u2 * a - int (r0 mod r1) =
      (int u0 * a - int r0) - int q * (int u1 * a - int r1) + int m * ((1 + k - j) * a)"
    unfolding k j r by (simp add: algebra_simps)
  then have "int m dvd int u2 * a - int (r0 mod r1)" using assms(2,3) by simp
  then show ?thesis by (simp only: u2_def t_def q_def)
qed

lemma euclid_coefficient:
  assumes "0 < m"
  shows "int m dvd int u0 * a - int r0 \<Longrightarrow> int m dvd int u1 * a - int r1 \<Longrightarrow>
    int m dvd int (snd (euclid m r0 r1 u0 u1)) * a - int (fst (euclid m r0 r1 u0 u1))"
  using assms
proof (induction m r0 r1 u0 u1 rule: euclid.induct)
  case (1 m r0 r1 u0 u1)
  then show ?case using euclid_step [of m u0 a r0 u1 r1] by (simp add: euclid.simps [of m r0 r1])
qed

lemma euclid_bound: "u0 < m \<Longrightarrow> u1 < m \<Longrightarrow> snd (euclid m r0 r1 u0 u1) < m"
proof (induction m r0 r1 u0 u1 rule: euclid.induct)
  case (1 m r0 r1 u0 u1)
  then show ?case by (simp add: euclid.simps [of m r0 r1])
qed

lemma euclid_inverse:
  assumes "1 < m" and "euclid m a m 1 0 = (g, u)"
  shows "g = gcd a m" and "u < m" and "g = 1 \<Longrightarrow> (u * a) mod m = 1"
proof -
  show "g = gcd a m" using euclid_gcd [of m a m 1 0] assms(2) by simp
  show "u < m" using euclid_bound [of 1 m 0 a m] assms by simp
  have "int m dvd int u * int a - int g"
    using euclid_coefficient [of m 1 "int a" a 0 m] assms by simp
  then have "(int (u * a)) mod int m = int g mod int m" by (simp add: mod_eq_dvd_iff)
  then show "(u * a) mod m = 1" if "g = 1"
    using that assms(1) by (simp only: of_nat_mod [symmetric] of_nat_eq_iff) simp
qed

section \<open>The limb loops\<close>

lemma is_one_val: "x \<noteq> [] \<Longrightarrow> is_one x \<longleftrightarrow> lval x = 1"
proof -
  assume "x \<noteq> []"
  then obtain a as where x: "x = a # as" by (cases x) auto
  have z: "list_all (\<lambda>l. l = 0) as \<longleftrightarrow> lval as = 0" using is_zero_val [of as] by (simp add: is_zero_def)
  have "a = 1 \<longleftrightarrow> unat a = 1" by (simp add: word_unat_eq_iff)
  moreover have "unat a + base * lval as = 1 \<longleftrightarrow> unat a = 1 \<and> lval as = 0"
    by (cases "lval as") (simp_all add: base_def)
  ultimately show ?thesis by (simp add: x is_one_def z)
qed

lemma gcd512_val:
  "length a = 16 \<Longrightarrow> length b = 16 \<Longrightarrow> \<exists>g. gcd512 a b = Some g \<and> length g = 16 \<and> lval g = gcd (lval a) (lval b)"
proof (induction "lval b" arbitrary: a b rule: less_induct)
  case less
  show ?case
  proof (cases "lval b = 0")
    case True
    then show ?thesis using less.prems by (subst gcd512.simps) (simp add: is_zero_val)
  next
    case False
    have r: "length (mod512 a b) = 16" "lval (mod512 a b) = lval a mod lval b"
      using div512_val(2) [OF less.prems False] by simp_all
    then have "lval (mod512 a b) < lval b" using False by simp
    then obtain g where "gcd512 b (mod512 a b) = Some g" "length g = 16" "lval g = gcd (lval b) (lval a mod lval b)"
      using less.hyps [OF _ less.prems(2) r(1)] r(2) by auto
    then show ?thesis
      using False gcd_red_nat [of "lval a" "lval b"] by (subst gcd512.simps) (simp add: is_zero_val)
  qed
qed

text \<open>The coefficient of the next remainder: the sum with the modulus may wrap, the difference does not.\<close>

lemma coefficient_val:
  assumes "length m = 16" "length u0 = 16" "length t = 16" and "lval u0 < lval m" "lval t < lval m"
  defines "u \<equiv> sub512 (if less512 u0 t then add512 u0 m else u0) t"
  shows "length u = 16 \<and> lval u = (lval u0 + lval m - lval t) mod lval m"
proof -
  note b = limb_bound512 [OF assms(1)] limb_bound512 [OF assms(2)]
  show ?thesis
  proof (cases "lval u0 < lval t")
    case True
    define s where "s = add512 u0 m"
    have s: "length s = 16" "lval s = (lval u0 + lval m) mod base ^ 16"
      using add512_val [OF assms(2,1)] by (simp_all add: s_def)
    have "lval s + base ^ 16 * ((lval u0 + lval m) div base ^ 16) = lval t + (lval u0 + lval m - lval t)"
      unfolding s(2) using assms(5) by simp
    then have "lval (sub512 s t) = lval u0 + lval m - lval t"
      using True b by (intro sub512_exact [OF s(1) assms(3)]) simp_all
    moreover have "(lval u0 + lval m - lval t) mod lval m = lval u0 + lval m - lval t" using True assms(5) by simp
    ultimately show ?thesis
      using True sub512_val(1) [OF s(1) assms(3)] assms(2,3) by (simp add: u_def s_def less512_val)
  next
    case False
    have "(lval u0 + lval m - lval t) mod lval m = (lval u0 - lval t + lval m) mod lval m" using False by simp
    also have "\<dots> = lval u0 - lval t" using assms(4) by (simp add: less_imp_diff_less)
    moreover have "lval (sub512 u0 t) = lval u0 - lval t"
      using False b by (intro sub512_exact [OF assms(2,3), of 0]) simp_all
    ultimately show ?thesis
      using False sub512_val(1) [OF assms(2,3)] assms(2,3) by (simp add: u_def less512_val)
  qed
qed

lemma inverse_loop_val:
  assumes "length m = 16" and "0 < lval m"
  shows "length r0 = 16 \<Longrightarrow> length r1 = 16 \<Longrightarrow> length u0 = 16 \<Longrightarrow> length u1 = 16 \<Longrightarrow> lval u0 < lval m \<Longrightarrow> lval u1 < lval m \<Longrightarrow>
    \<exists>r u. inverse_loop m r0 r1 u0 u1 = Some (r, u) \<and> length r = 16 \<and> length u = 16 \<and>
      (lval r, lval u) = euclid (lval m) (lval r0) (lval r1) (lval u0) (lval u1)"
proof (induction "lval r1" arbitrary: r0 r1 u0 u1 rule: less_induct)
  case less
  note p = less.prems
  show ?case
  proof (cases "lval r1 = 0")
    case True
    then show ?thesis using p
      by (subst inverse_loop.simps) (simp add: is_zero_val euclid.simps [of _ _ 0])
  next
    case False
    define q where "q = div512 r0 r1"
    define rn where "rn = mod512 r0 r1"
    define t where "t = mul_mod q u1 m"
    define un where "un = sub512 (if less512 u0 t then add512 u0 m else u0) t"
    have q: "length q = 16" "lval q = lval r0 div lval r1" and rn: "length rn = 16" "lval rn = lval r0 mod lval r1"
      using div512_val [OF p(1,2) False] by (simp_all add: q_def rn_def)
    have t: "length t = 16" "lval t = (lval r0 div lval r1 * lval u1) mod lval m"
      using mul_mod_val [OF q(1) p(4) assms] q(2) by (simp_all add: t_def)
    then have "lval t < lval m" using assms(2) by simp
    then have un: "length un = 16" "lval un = (lval u0 + lval m - lval t) mod lval m"
      using coefficient_val [OF assms(1) p(3) t(1) p(5)] by (simp_all add: un_def)
    have "lval un < lval m" using un(2) assms(2) by simp
    moreover have "lval rn < lval r1" using rn(2) False by simp
    ultimately obtain r u where IH: "inverse_loop m r1 rn u1 un = Some (r, u)" "length r = 16" "length u = 16"
      "(lval r, lval u) = euclid (lval m) (lval r1) (lval rn) (lval u1) (lval un)"
      using less.hyps [OF _ p(2) rn(1) p(4) un(1) p(6)] by blast
    have "inverse_loop m r0 r1 u0 u1 = Some (r, u)"
      using False IH(1) by (subst inverse_loop.simps)
        (simp add: is_zero_val q_def [symmetric] rn_def [symmetric] t_def [symmetric] un_def [symmetric] Let_def)
    then show ?thesis
      using False IH(2-4) rn(2) un(2) t(2) euclid.simps [of "lval m" "lval r0" "lval r1"] by auto
  qed
qed

lemma mod_inverse_val:
  assumes "length a = 16" "length m = 16" and "1 < lval m"
  obtains y where "mod_inverse a m = Some y" "length y = 16" "lval y < lval m"
    "coprime (lval a) (lval m) \<Longrightarrow> (lval y * lval a) mod lval m = 1"
    "\<not> coprime (lval a) (lval m) \<Longrightarrow> lval y = 0"
proof -
  obtain r u where l: "inverse_loop m a m (uint512_u32 1) (uint512_u32 0) = Some (r, u)" "length r = 16" "length u = 16"
    "euclid (lval m) (lval a) (lval m) 1 0 = (lval r, lval u)"
    using inverse_loop_val [of m a m "uint512_u32 1" "uint512_u32 0"] assms by auto
  note e = euclid_inverse [OF assms(3) l(4)]
  have "r \<noteq> []" using l(2) by auto
  then have one: "is_one r \<longleftrightarrow> coprime (lval a) (lval m)" using e(1) by (simp add: is_one_val coprime_iff_gcd_eq_1)
  show thesis
  proof (rule that [of "if \<not> is_one r then uint512_u32 0 else u"])
    show "mod_inverse a m = Some (if \<not> is_one r then uint512_u32 0 else u)" using l(1) by (simp add: mod_inverse_def)
  qed (use l(3) e assms(3) one in \<open>auto simp: coprime_iff_gcd_eq_1\<close>)
qed

section \<open>The 32-bit inverse\<close>

lemma inverse_loop32_step:
  fixes q u0 u1 m :: u32
  assumes "unat u0 < unat m"
  defines "t \<equiv> ucast ((ucast q * ucast u1 :: u64) mod ucast m)"
  shows "unat (if u0 < t then (u0 + m) - t else u0 - t) = (unat u0 + unat m - (unat q * unat u1) mod unat m) mod unat m"
proof -
  have lt: "unat x < 2 ^ 32" for x :: u32 using unsigned_less [of x] by simp
  have "unat q * unat u1 < 2 ^ 32 * 2 ^ 32" using lt [of q] lt [of u1] by (intro mult_strict_mono) simp_all
  then have prod: "unat (ucast q * ucast u1 :: u64) = unat q * unat u1" by (simp add: unat_word_ariths)
  have tm: "(unat q * unat u1) mod unat m < unat m" using assms(1) by (intro mod_less_divisor) linarith
  also note lt [of m]
  finally have t: "unat t = (unat q * unat u1) mod unat m"
    unfolding t_def by (simp add: unsigned_ucast_eq unat_mod prod take_bit_nat_eq_self)
  show ?thesis
  proof (cases "u0 < t")
    case True
    then have ut: "unat u0 < unat t" by (simp add: word_less_nat_alt)
    then have less: "unat u0 + unat m - unat t < unat m" using tm t by linarith
    have "unat t \<le> unat u0 + unat m" using tm t by linarith
    then have "(u0 + m) - t = of_nat (unat u0 + unat m - unat t)" by (simp add: of_nat_diff)
    moreover have fits: "unat (of_nat k :: u32) = k" if "k < 2 ^ 32" for k
      using that by (simp add: unat_of_nat take_bit_nat_eq_self)
    have "unat (of_nat (unat u0 + unat m - unat t) :: u32) = unat u0 + unat m - unat t"
      using less lt [of m] by (intro fits) linarith
    ultimately show ?thesis using True less by (simp add: t)
  next
    case False
    then have ut: "unat t \<le> unat u0" "t \<le> u0" by (simp_all add: word_le_nat_alt not_less)
    have "(unat u0 + unat m - unat t) mod unat m = (unat u0 - unat t + unat m) mod unat m" using ut(1) by simp
    also have "\<dots> = unat u0 - unat t" using assms(1) by (simp add: less_imp_diff_less)
    finally show ?thesis using False ut(2) by (simp add: unat_sub t)
  qed
qed

lemma inverse_loop32_val:
  "unat u0 < unat m \<Longrightarrow> unat u1 < unat m \<Longrightarrow>
   map_prod unat unat (inverse_loop32 m r0 r1 u0 u1) = euclid (unat m) (unat r0) (unat r1) (unat u0) (unat u1)"
proof (induction m r0 r1 u0 u1 rule: inverse_loop32.induct)
  case (1 m r0 r1 u0 u1)
  show ?case
  proof (cases "r1 = 0")
    case True
    then show ?thesis by (simp add: inverse_loop32.simps [of m r0] euclid.simps [of _ _ 0])
  next
    case False
    define t :: u32 where "t = ucast ((ucast (r0 div r1) * ucast u1 :: u64) mod ucast m)"
    define un where "un = (if u0 < t then (u0 + m) - t else u0 - t)"
    have un: "unat un = (unat u0 + unat m - (unat r0 div unat r1 * unat u1) mod unat m) mod unat m"
      using inverse_loop32_step [OF "1.prems"(1), of "r0 div r1" u1] by (simp only: un_def t_def unat_div)
    have "unat un < unat m" unfolding un using "1.prems"(1) by (intro mod_less_divisor) linarith
    then have "map_prod unat unat (inverse_loop32 m r1 (r0 mod r1) u1 un) =
        euclid (unat m) (unat r1) (unat (r0 mod r1)) (unat u1) (unat un)"
      using "1.IH" [OF False refl refl t_def un_def "1.prems"(2)] by blast
    moreover have "inverse_loop32 m r0 r1 u0 u1 = inverse_loop32 m r1 (r0 mod r1) u1 un"
      using False by (simp only: inverse_loop32.simps [of m r0 r1] Let_def t_def un_def if_True simp_thms)
    ultimately show ?thesis
      using False by (simp add: euclid.simps [of _ "unat r0"] unat_eq_zero un unat_mod)
  qed
qed

lemma mod_inverse32_val:
  assumes "length a = 16" and "1 < unat m"
  shows "unat (mod_inverse32 a m) < unat m"
    and "coprime (lval a) (unat m) \<Longrightarrow> (unat (mod_inverse32 a m) * lval a) mod unat m = 1"
    and "\<not> coprime (lval a) (unat m) \<Longrightarrow> mod_inverse32 a m = 0"
proof -
  have "m \<noteq> 0" using assms(2) by auto
  then have r: "unat (mod_uint32 m a) = lval a mod unat m"
    using div_uint32_val [OF assms(1), of m] unat_rem_fits [of m "lval a"] by metis
  obtain g u where l: "inverse_loop32 m (mod_uint32 m a) m 1 0 = (g, u)" by fastforce
  then have e: "euclid (unat m) (lval a mod unat m) (unat m) 1 0 = (unat g, unat u)"
    using inverse_loop32_val [of 1 m 0 "mod_uint32 m a" m] assms(2) r by simp
  note inv = euclid_inverse [OF assms(2) e]
  have g: "g = 1 \<longleftrightarrow> coprime (lval a) (unat m)"
    using inv(1) by (simp add: word_unat_eq_iff coprime_iff_gcd_eq_1 gcd.commute flip: gcd_red_nat)
  show "unat (mod_inverse32 a m) < unat m" using inv(2) l assms(2) by (simp add: mod_inverse32_def)
  show "(unat (mod_inverse32 a m) * lval a) mod unat m = 1" if "coprime (lval a) (unat m)"
    using that g inv(3) l by (simp add: mod_inverse32_def mod_mult_right_eq)
  show "mod_inverse32 a m = 0" if "\<not> coprime (lval a) (unat m)"
    using that g l by (simp add: mod_inverse32_def)
qed

section \<open>Residue symbols and roots\<close>

lemma low_two_bits: "x \<noteq> [] \<Longrightarrow> x ! 0 AND 3 = 3 \<longleftrightarrow> lval x mod 4 = 3"
proof -
  assume "x \<noteq> []"
  then obtain a as where x: "x = a # as" by (cases x) auto
  have "a AND 3 = take_bit 2 a" using take_bit_eq_mask [of 2 a] by (simp add: mask_eq_exp_minus_1)
  then have "unat (a AND 3) = unat a mod 4" by (simp add: take_bit_eq_mod unat_mod)
  then have "a AND 3 = 3 \<longleftrightarrow> unat a mod 4 = 3" by (simp add: word_unat_eq_iff)
  moreover have "lval x mod 4 = unat a mod 4"
  proof -
    have "lval x = unat a + 4 * (2 ^ 30 * lval as)" by (simp add: x base_def)
    then show ?thesis by (simp only: mod_mult_self2)
  qed
  ultimately show ?thesis by (simp add: x)
qed

lemma legendre_symbol_val:
  assumes "length a = 16" "length p = 16" and "1 < lval p"
  shows "length (legendre_symbol a p) = 16 \<and> lval (legendre_symbol a p) =
    (if lval a mod lval p = 0 then 0 else lval a ^ ((lval p - 1) div 2) mod lval p)"
proof -
  define r where "r = mod512 a p"
  have r: "length r = 16" "lval r = lval a mod lval p"
    using div512_val(2) [OF assms(1,2)] assms(3) by (simp_all add: r_def)
  define e where "e = rshift 1 (sub512 p (uint512_u32 1))"
  have "lval (sub512 p (uint512_u32 1)) = lval p - 1"
    using assms(3) limb_bound512 [OF assms(2)] by (intro sub512_exact [OF assms(2), of _ 0]) simp_all
  then have e: "length e = 16" "lval e = (lval p - 1) div 2"
    using rshift_val [of "sub512 p (uint512_u32 1)" 1] sub512_val(1) [of p "uint512_u32 1"] assms(2)
    by (simp_all add: e_def del: One_nat_def)
  have "length (modpow r e p) = 16 \<and> lval (modpow r e p) = lval a ^ ((lval p - 1) div 2) mod lval p"
    using modpow_val(1) [OF r(1) assms(2,3) e(1)] by (simp add: r(2) e(2) power_mod)
  then show ?thesis
    by (simp add: legendre_symbol_def r_def [symmetric] e_def [symmetric] is_zero_val r(2) Let_def del: One_nat_def)
qed

lemma sqrt_mod_3mod4_val:
  assumes "length n = 16" "length p = 16" and "1 < lval p" and "lval p + 1 < 2 ^ 512"
  shows "length (sqrt_mod_3mod4 n p) = 16"
    and "lval p mod 4 = 3 \<Longrightarrow> lval n ^ ((lval p - 1) div 2) mod lval p = 1 \<Longrightarrow>
      lval (sqrt_mod_3mod4 n p) < lval p \<and>
      (lval (sqrt_mod_3mod4 n p) * lval (sqrt_mod_3mod4 n p)) mod lval p = lval n mod lval p"
    and "lval p mod 4 \<noteq> 3 \<or> lval n ^ ((lval p - 1) div 2) mod lval p \<noteq> 1 \<Longrightarrow> lval (sqrt_mod_3mod4 n p) = 0"
proof -
  let ?N = "lval n" and ?P = "lval p"
  note leg = legendre_symbol_val [OF assms(1-3)]
  have ne: "p \<noteq> []" "legendre_symbol n p \<noteq> []" using assms(2) leg by auto
  define e where "e = rshift 2 (add512 p (uint512_u32 1))"
  have e: "length e = 16" "lval e = (?P + 1) div 4"
    using rshift_val [of "add512 p (uint512_u32 1)" 2] add512_val [OF assms(2), of "uint512_u32 1"] assms(4)
    by (simp_all add: e_def pow512)
  note pw = modpow_val(1) [OF assms(1-3) e(1), unfolded e(2)]
  have def: "sqrt_mod_3mod4 n p = (if ?P mod 4 \<noteq> 3 then uint512_u32 0
      else if lval (legendre_symbol n p) \<noteq> 1 then uint512_u32 0 else modpow n e p)"
    by (simp add: sqrt_mod_3mod4_def low_two_bits [OF ne(1)] is_one_val [OF ne(2)] e_def)
  have zero: "?N mod ?P = 0 \<Longrightarrow> ?P mod 4 = 3 \<Longrightarrow> ?N ^ ((?P - 1) div 2) mod ?P = 0"
  proof -
    assume "?N mod ?P = 0" "?P mod 4 = 3"
    from \<open>?P mod 4 = 3\<close> have "0 < (?P - 1) div 2" by presburger
    then show ?thesis using power_mod [of ?N ?P "(?P - 1) div 2"] \<open>?N mod ?P = 0\<close> by (simp add: zero_power)
  qed
  show "length (sqrt_mod_3mod4 n p) = 16" using pw by (simp add: def)
  show "lval (sqrt_mod_3mod4 n p) = 0" if "?P mod 4 \<noteq> 3 \<or> ?N ^ ((?P - 1) div 2) mod ?P \<noteq> 1"
    using that leg by (auto simp: def)
  show "lval (sqrt_mod_3mod4 n p) < ?P \<and>
      (lval (sqrt_mod_3mod4 n p) * lval (sqrt_mod_3mod4 n p)) mod ?P = ?N mod ?P"
    if three: "?P mod 4 = 3" and res: "?N ^ ((?P - 1) div 2) mod ?P = 1"
  proof -
    have "?N mod ?P \<noteq> 0" using zero three res by auto
    then have r: "sqrt_mod_3mod4 n p = modpow n e p" using three res leg by (simp add: def)
    have "(?P + 1) div 4 + (?P + 1) div 4 = Suc ((?P - 1) div 2)" using three by presburger
    then have "(?N ^ ((?P + 1) div 4) * ?N ^ ((?P + 1) div 4)) mod ?P = (?N * ?N ^ ((?P - 1) div 2)) mod ?P"
      by (simp flip: power_add)
    also have "\<dots> = ?N mod ?P" using mod_mult_right_eq [of ?N "?N ^ ((?P - 1) div 2)" ?P] res by simp
    finally show ?thesis using pw assms(3) by (simp add: r mod_mult_eq)
  qed
qed

section \<open>Chinese remainders\<close>

lemma crt_terms:
  fixes r m m' y :: nat
  assumes "(y * m') mod m = 1"
  shows "((r * m') mod (m * m') * y) mod (m * m') mod m = r mod m"
    and "((r * m') mod (m * m') * y) mod (m * m') mod m' = 0"
proof -
  define t where "t = ((r * m') mod (m * m') * y) mod (m * m')"
  have t: "t = (r * m' * y) mod (m * m')" unfolding t_def by (simp only: mod_mult_left_eq)
  have "t mod m = (r * m' * y) mod m" unfolding t by (rule mod_mod_cancel) simp
  also have "\<dots> = (r * (y * m')) mod m" by (simp only: ac_simps)
  also have "\<dots> = r mod m" using mod_mult_right_eq [of r "y * m'" m] assms by simp
  finally show "((r * m') mod (m * m') * y) mod (m * m') mod m = r mod m" by (simp only: t_def)
  have "t mod m' = 0" unfolding t by (simp add: mod_mod_cancel)
  then show "((r * m') mod (m * m') * y) mod (m * m') mod m' = 0" by (simp only: t_def)
qed

lemma crt_2_val:
  assumes "length r1 = 16" "length m1 = 16" "length r2 = 16" "length m2 = 16"
    and "1 < lval m1" "1 < lval m2" and "coprime (lval m1) (lval m2)" and "lval m1 * lval m2 < 2 ^ 512"
  obtains y1 y2 x where "crt_2 r1 m1 r2 m2 = Some x" "length x = 16"
    "lval y1 < lval m1" "(lval y1 * lval m2) mod lval m1 = 1" "lval y2 < lval m2" "(lval y2 * lval m1) mod lval m2 = 1"
    "lval x = ((((lval r1 * lval m2) mod (lval m1 * lval m2) * lval y1) mod (lval m1 * lval m2) +
       ((lval r2 * lval m1) mod (lval m1 * lval m2) * lval y2) mod (lval m1 * lval m2)) mod 2 ^ 512)
       mod (lval m1 * lval m2)"
proof -
  define M where "M = mult512 m1 m2"
  have M: "length M = 16" "lval M = lval m1 * lval m2"
    using mult512_val [OF assms(2,4)] assms(8) by (simp_all add: M_def pow512)
  have M0: "0 < lval M" using assms(5,6) M(2) by simp
  obtain y1 where y1: "mod_inverse m2 m1 = Some y1" "length y1 = 16" "lval y1 < lval m1" "(lval y1 * lval m2) mod lval m1 = 1"
    using mod_inverse_val [OF assms(4,2,5)] assms(7) by (metis coprime_commute)
  obtain y2 where y2: "mod_inverse m1 m2 = Some y2" "length y2 = 16" "lval y2 < lval m2" "(lval y2 * lval m1) mod lval m2 = 1"
    using mod_inverse_val [OF assms(2,4,6)] assms(7) by metis
  have tm: "length (mul_mod (mul_mod r m M) y M) = 16 \<and>
      lval (mul_mod (mul_mod r m M) y M) = ((lval r * lval m) mod lval M * lval y) mod lval M"
    if "length r = 16" "length m = 16" "length y = 16" for r m y
    using mul_mod_val [OF that(1,2) M(1) M0] mul_mod_val [OF _ that(3) M(1) M0, of "mul_mod r m M"] by simp
  define s where "s = add512 (mul_mod (mul_mod r1 m2 M) y1 M) (mul_mod (mul_mod r2 m1 M) y2 M)"
  have s: "length s = 16" "lval s = (((lval r1 * lval m2) mod lval M * lval y1) mod lval M +
      ((lval r2 * lval m1) mod lval M * lval y2) mod lval M) mod 2 ^ 512"
    using add512_val [of "mul_mod (mul_mod r1 m2 M) y1 M" "mul_mod (mul_mod r2 m1 M) y2 M"]
      tm [OF assms(1,4) y1(2)] tm [OF assms(3,2) y2(2)] by (simp_all only: s_def pow512)
  have "crt_2 r1 m1 r2 m2 = Some (mod512 s M)"
    by (simp add: crt_2_def M_def [symmetric] s_def y1(1) y2(1) Let_def)
  then show thesis
    using that [OF _ _ y1(3,4) y2(3,4)] div512_val(2) [OF s(1) M(1)] M0 by (simp only: s(2) M(2))
qed

section \<open>Polynomial values\<close>

lemma abs_word32: "int (unat (if sint x < 0 then - x else x)) = \<bar>sint x\<bar>" for x :: u32
proof -
  have "(if sint x < 0 then - x else x) = of_int \<bar>sint x\<bar>" by (simp add: abs_if)
  moreover have "\<bar>sint x\<bar> < 2 ^ 32" using sint_ge [of x] sint_lt [of x] by simp
  then have "uint (of_int \<bar>sint x\<bar> :: u32) = \<bar>sint x\<bar>"
    by (simp add: uint_word_of_int take_bit_int_eq_self)
  ultimately show ?thesis by simp
qed

definition linear_part :: "uint512 \<Rightarrow> uint512 \<Rightarrow> u32 \<Rightarrow> uint512" where
  "linear_part a b x =
     (if \<not> sint x < 0 then add512 (mult_uint32 (if sint x < 0 then - x else x) a) b
      else sub512 b (mult_uint32 (if sint x < 0 then - x else x) a))"

lemma linear_part_val:
  assumes "length a = 16" "length b = 16"
  shows "length (linear_part a b x) = 16"
    and "int (lval (linear_part a b x)) = (int (lval a) * sint x + int (lval b)) mod 2 ^ 512"
proof -
  define y where "y = (if sint x < 0 then - x else x)"
  define ax where "ax = mult_uint32 y a"
  have ax: "length ax = 16" "lval ax = (unat y * lval a) mod base ^ 16"
    using mult_uint32_val [OF assms(1), of y] by (simp_all add: ax_def)
  have P: "int (base ^ 16) = 2 ^ 512" using arg_cong [OF pow512, of int] by simp
  have iax: "int (lval ax) = (\<bar>sint x\<bar> * int (lval a)) mod 2 ^ 512"
    unfolding ax(2) of_nat_mod P using abs_word32 [of x] by (simp add: y_def)
  show "length (linear_part a b x) = 16"
    using add512_val [OF ax(1) assms(2)] sub512_val(1) [OF assms(2) ax(1)]
    unfolding linear_part_def y_def [symmetric] ax_def [symmetric] by simp
  show "int (lval (linear_part a b x)) = (int (lval a) * sint x + int (lval b)) mod 2 ^ 512"
  proof (cases "sint x < 0")
    case True
    then have "int (lval (linear_part a b x)) = (int (lval b) - int (lval ax)) mod 2 ^ 512"
      using sub512_val(2) [OF assms(2) ax(1)] P by (simp add: linear_part_def y_def ax_def)
    also have "\<dots> = (int (lval b) - \<bar>sint x\<bar> * int (lval a)) mod 2 ^ 512" unfolding iax by (rule mod_diff_right_eq)
    finally show ?thesis using True by (simp add: algebra_simps)
  next
    case False
    then have "int (lval (linear_part a b x)) = int ((lval ax + lval b) mod base ^ 16)"
      using add512_val [OF ax(1) assms(2)] by (simp add: linear_part_def y_def ax_def)
    also have "\<dots> = (int (lval ax) + int (lval b)) mod 2 ^ 512" unfolding of_nat_mod P by simp
    also have "\<dots> = (\<bar>sint x\<bar> * int (lval a) + int (lval b)) mod 2 ^ 512" unfolding iax by (rule mod_add_left_eq)
    finally show ?thesis using False by (simp add: algebra_simps)
  qed
qed

lemma calculate_sqrt_of_QX_val:
  assumes "length a = 16" "length b = 16" and "v = int (lval a) * sint x + int (lval b)"
    and "- (2 ^ 511) \<le> v" and "v < 2 ^ 511"
  shows "length (fst (calculate_sqrt_of_QX a b x)) = 16 \<and> int (lval (fst (calculate_sqrt_of_QX a b x))) = \<bar>v\<bar> \<and>
    snd (calculate_sqrt_of_QX a b x) = sgn v"
proof -
  have "calculate_sqrt_of_QX a b x = abs_twos_complement (linear_part a b x)"
    by (simp only: calculate_sqrt_of_QX_def linear_part_def Let_def)
  then show ?thesis
    using abs_twos_complement_val [OF linear_part_val(1) [OF assms(1,2)], of x v] linear_part_val(2) [OF assms(1,2), of x] assms(3-5)
    by simp
qed

lemma calculateQ_val:
  assumes "length a = 16" "length b = 16" "length N = 16" and "v = int (lval a) * sint x + int (lval b)"
    and "- (2 ^ 511) \<le> v" and "v < 2 ^ 511"
    and "- (2 ^ 511) \<le> v * v - int (lval N)" and "v * v - int (lval N) < 2 ^ 511"
  shows "length (fst (calculateQ_unsigned a b x N)) = 16 \<and>
    int (lval (fst (calculateQ_unsigned a b x N))) = \<bar>v * v - int (lval N)\<bar> \<and>
    snd (calculateQ_unsigned a b x N) = sgn (v * v - int (lval N))"
proof -
  define s where "s = fst (calculate_sqrt_of_QX a b x)"
  have s: "length s = 16" "int (lval s) = \<bar>v\<bar>"
    using calculate_sqrt_of_QX_val [OF assms(1,2,4-6)] by (simp_all add: s_def)
  have P: "int (base ^ 16) = 2 ^ 512" using arg_cong [OF pow512, of int] by simp
  define d where "d = sub512 (mult512 s s) N"
  have sq: "length (mult512 s s) = 16" "int (lval (mult512 s s)) = (v * v) mod 2 ^ 512"
    using mult512_val [OF s(1) s(1)] P s(2) by (simp_all add: of_nat_mod)
  have "int (lval d) = (int (lval (mult512 s s)) - int (lval N)) mod 2 ^ 512"
    using sub512_val(2) [OF sq(1) assms(3)] P by (simp add: d_def)
  also have "\<dots> = (v * v - int (lval N)) mod 2 ^ 512" unfolding sq(2) by (rule mod_diff_left_eq)
  finally have d: "length d = 16" "int (lval d) = (v * v - int (lval N)) mod 2 ^ 512"
    using sub512_val(1) [OF sq(1) assms(3)] by (simp_all add: d_def)
  have "calculateQ_unsigned a b x N = abs_twos_complement d"
    by (simp add: calculateQ_unsigned_def calculate_sqrt_of_QX_def d_def s_def Let_def split: prod.splits)
  then show ?thesis using abs_twos_complement_val [OF d assms(7,8)] by simp
qed

text \<open>The wide variant: the square is formed in 32 limbs, so it may exceed 512 bits.\<close>

lemma down_diff: "(ucast (x - y :: u64) :: u32) = of_int (uint x - uint y)"
proof -
  have "(ucast (x - y) :: u32) = of_int (uint (x - y))" by simp
  also have "uint (x - y) = take_bit 64 (uint x - uint y)" by (simp add: uint_word_ariths take_bit_eq_mod)
  also have "(of_int (take_bit 64 (uint x - uint y)) :: u32) = of_int (uint x - uint y)"
    by (simp only: word_of_int_eq_iff take_bit_take_bit) simp
  finally show ?thesis .
qed

lemma sub_loop64_eq:
  "borrow = 0 \<or> borrow = 1 \<Longrightarrow> sub_loop64 borrow as bs = sub_loop borrow as bs"
proof (induction borrow as bs rule: sub_loop64.induct)
  case (1 borrow a as b bs)
  define bi :: u64 where "bi = ucast b + ucast borrow"
  have up: "unat (ucast x :: u64) = unat x" for x :: u32 by (simp add: unat_ucast_up)
  have "base + base < 2 ^ 64" by (simp add: base_def)
  then have "unat b + unat borrow < 2 ^ 64" using unat_limb [of b] unat_limb [of borrow] by linarith
  then have bi: "unat bi = unat b + unat borrow"
    using unat_add_exact [of "ucast b :: u64" "ucast borrow"] by (simp add: bi_def up)
  have "(ucast a :: u64) < bi \<longleftrightarrow> a < b \<or> (borrow \<noteq> 0 \<and> a = b)"
    using "1.prems" by (auto simp: word_less_nat_alt bi up word_unat_eq_iff)
  moreover have "(ucast ((ucast a :: u64) - bi) :: u32) = a - b - borrow"
  proof -
    have "uint bi = uint b + uint borrow" using arg_cong [OF bi, of int] by (simp only: of_nat_unat of_nat_add)
    moreover have "uint (ucast a :: u64) = uint a" using arg_cong [OF up [of a], of int] by (simp only: of_nat_unat)
    ultimately show ?thesis unfolding down_diff by simp
  qed
  ultimately show ?case using 1 by (simp add: bi_def [symmetric] Let_def)
qed simp_all

lemma square_ge_val:
  assumes "length p = 32" "length n = 16"
  shows "square_ge p n \<longleftrightarrow> lval n \<le> lval p"
proof -
  have p: "lval p = lval (take 16 p) + base ^ 16 * lval (drop 16 p)" using assms by (intro lval_take_drop) simp
  have z: "list_ex (\<lambda>l. l \<noteq> 0) (drop 16 p) \<longleftrightarrow> lval (drop 16 p) \<noteq> 0"
    using is_zero_val [of "drop 16 p"] by (auto simp: is_zero_def list_ex_iff list_all_iff)
  show ?thesis
  proof (cases "lval (drop 16 p) = 0")
    case True
    then show ?thesis using p z assms by (simp add: square_ge_def less_rev_val not_less)
  next
    case False
    then have "base ^ 16 * 1 \<le> base ^ 16 * lval (drop 16 p)" by (intro mult_le_mono2) simp
    then have "lval n \<le> lval p" using p limb_bound512 [OF assms(2)] by linarith
    then show ?thesis using False z by (simp add: square_ge_def)
  qed
qed

lemma abs_square_minus_N_val:
  assumes "length s = 16" "length n = 16"
    and "d = int (lval s) * int (lval s) - int (lval n)" and "\<bar>d\<bar> < 2 ^ 512"
  shows "length (fst (abs_square_minus_N s n)) = 16 \<and> int (lval (fst (abs_square_minus_N s n))) = \<bar>d\<bar> \<and>
    snd (abs_square_minus_N s n) = (if 0 \<le> d then 1 else - 1)"
proof -
  define p where "p = mul_full s s"
  have p: "length p = 32" "lval p = lval s * lval s" using mul_full_val [OF assms(1,1)] by (simp_all add: p_def)
  have P: "int base ^ 16 = 2 ^ 512" using arg_cong [OF pow512, of int] by simp
  have lo: "length (take 16 p) = 16" using p(1) by simp
  have "int (lval p) = int (lval (take 16 p)) + 2 ^ 512 * int (lval (drop 16 p))"
    using arg_cong [OF lval_take_drop [of 16 p], of int] p(1) P by simp
  then have sq: "int (lval (take 16 p)) = int (lval s) * int (lval s) - 2 ^ 512 * int (lval (drop 16 p))"
    by (simp add: p(2))
  have shift: "(x - M * k - y) mod M = (x - y) mod M" "(y - (x - M * k)) mod M = (y - x) mod M" for x y k M :: int
    using mod_mult_self2 [of "x - y" M "- k"] mod_mult_self2 [of "y - x" M k] by (simp_all add: algebra_simps)
  have "int (lval (sub_loop64 0 (take 16 p) n)) = (int (lval (take 16 p)) - int (lval n)) mod 2 ^ 512"
    using sub_loop_val [of "take 16 p" n 0] lo assms(2) P by (simp add: sub_loop64_eq)
  also have "\<dots> = d mod 2 ^ 512" unfolding sq assms(3) by (rule shift)
  finally have up: "int (lval (sub_loop64 0 (take 16 p) n)) = d mod 2 ^ 512" .
  have "int (lval (sub_loop64 0 n (take 16 p))) = (int (lval n) - int (lval (take 16 p))) mod 2 ^ 512"
    using sub_loop_val [of n "take 16 p" 0] lo assms(2) P by (simp add: sub_loop64_eq)
  also have "\<dots> = (- d) mod 2 ^ 512" unfolding sq assms(3) minus_diff_eq by (rule shift)
  finally have down: "int (lval (sub_loop64 0 n (take 16 p))) = (- d) mod 2 ^ 512" .
  have len: "length (sub_loop64 0 (take 16 p) n) = 16" "length (sub_loop64 0 n (take 16 p)) = 16"
    using sub_loop_val [of "take 16 p" n 0] sub_loop_val [of n "take 16 p" 0] lo assms(2) by (simp_all add: sub_loop64_eq)
  have ge: "square_ge p n \<longleftrightarrow> 0 \<le> d"
    using square_ge_val [OF p(1) assms(2)] by (simp add: p(2) assms(3) flip: of_nat_mult)
  show ?thesis
  proof (cases "0 \<le> d")
    case True
    then have "d mod 2 ^ 512 = \<bar>d\<bar>" using assms(4) by simp
    then show ?thesis using True ge len(1) up by (simp add: abs_square_minus_N_def p_def [symmetric] Let_def)
  next
    case False
    then have "(- d) mod 2 ^ 512 = \<bar>d\<bar>" using assms(4) by simp
    then show ?thesis using False ge len(2) down by (simp add: abs_square_minus_N_def p_def [symmetric] Let_def)
  qed
qed

section \<open>Signed multiply-add\<close>

lemma abs_word64: "int (unat (if sint x < 0 then - x else x)) = \<bar>sint x\<bar>" for x :: u64
proof -
  have "(if sint x < 0 then - x else x) = of_int \<bar>sint x\<bar>" by (simp add: abs_if)
  moreover have "\<bar>sint x\<bar> < 2 ^ 64" using sint_ge [of x] sint_lt [of x] by simp
  then have "uint (of_int \<bar>sint x\<bar> :: u64) = \<bar>sint x\<bar>"
    by (simp add: uint_word_of_int take_bit_int_eq_self)
  ultimately show ?thesis by simp
qed

text \<open>The product without a carry out of 512 bits.\<close>

lemma mul_uint64_exact:
  assumes "length a = 16" and "unat y * lval a < 2 ^ 512"
  obtains p where "mul_uint64_inplace y a = (0, p)" "length p = 16" "lval p = unat y * lval a"
proof -
  obtain c p where cp: "mul_uint64_inplace y a = (c, p)" by fastforce
  have p: "length p = 16" "lval p + base ^ 16 * unat c = unat y * lval a"
    using mul_uint64_val [OF assms(1), of y] cp by simp_all
  have "unat c = 0" using p(2) assms(2) unfolding pow512 by (cases "unat c") simp_all
  then have "c = 0" by (simp add: unat_eq_zero)
  then show thesis using that cp p by simp
qed

lemma mul_add_mod_signed_val:
  assumes "length a = 16" "length b = 16" "length n = 16" and "lval b < lval n"
    and "\<bar>sint x\<bar> * int (lval a) + int (lval b) < 2 ^ 512"
    and "sint x < 0 \<Longrightarrow> \<bar>sint x\<bar> * int (lval a) < int (lval n) + int (lval b)"
  shows "int (lval (mul_add_mod_signed a x b n)) = (int (lval a) * sint x + int (lval b)) mod int (lval n)"
proof -
  define y where "y = (if sint x < 0 then - x else x)"
  have y: "int (unat y) = \<bar>sint x\<bar>" using abs_word64 [of x] by (simp only: y_def)
  define w where "w = unat y * lval a"
  have iw: "int w = \<bar>sint x\<bar> * int (lval a)" unfolding w_def of_nat_mult y ..
  have "int (w + lval b) < int (2 ^ 512)" using assms(5) iw by simp
  then have wb: "w + lval b < 2 ^ 512" by (simp only: of_nat_less_iff)
  then obtain p where p: "mul_uint64_inplace y a = (0, p)" "length p = 16" "lval p = w"
    using mul_uint64_exact [OF assms(1), of y] by (auto simp: w_def)
  note bn = limb_bound512 [OF assms(3)] limb_bound512 [OF assms(2)]
  show ?thesis
  proof (cases "sint x < 0")
    case False
    define t where "t = add512 p b"
    have t: "length t = 16" "lval t = w + lval b"
      using add512_val [OF p(2) assms(2)] wb p(3) by (simp_all add: t_def pow512)
    define s where "s = sub512 t n"
    have n0: "lval n \<noteq> 0" using assms(4) by simp
    have "lval (if geq512 t n then (if geq512 s n then mod512 s n else s) else t) = (w + lval b) mod lval n"
    proof (cases "lval n \<le> lval t")
      case True
      have s: "length s = 16" "lval s = lval t - lval n"
        using True sub512_val(1) [OF t(1) assms(3)] sub512_exact [OF t(1) assms(3), of 0 "lval t - lval n"] limb_bound512 [OF t(1)]
        by (simp_all add: s_def)
      have "(w + lval b) mod lval n = lval s mod lval n" using True s(2) t(2) by (simp add: le_mod_geq)
      then show ?thesis
        using True s t assms(3) div512_val(2) [OF s(1) assms(3) n0] by (simp add: geq512_val)
    next
      case F: False
      then show ?thesis using t assms(3) by (simp add: geq512_val)
    qed
    moreover have "mul_add_mod_signed a x b n = (if geq512 t n then (if geq512 s n then mod512 s n else s) else t)"
      using False p(1) by (simp add: mul_add_mod_signed_def y_def t_def [symmetric] s_def [symmetric] Let_def)
    ultimately have "lval (mul_add_mod_signed a x b n) = (w + lval b) mod lval n" by (simp only:)
    then show ?thesis using False iw by (simp add: of_nat_mod mult.commute)
  next
    case True
    have neg: "int (lval a) * sint x + int (lval b) = int (lval b) - int w" using True iw by (simp add: algebra_simps)
    show ?thesis
    proof (cases "w \<le> lval b")
      case le: True
      have "lval (sub512 b p) = lval b - w"
        using le p(3) bn by (intro sub512_exact [OF assms(2) p(2), of 0]) simp_all
      then have "lval (mul_add_mod_signed a x b n) = lval b - w"
        using True le p assms(2) by (simp add: mul_add_mod_signed_def y_def geq512_val Let_def)
      then show ?thesis unfolding neg using le assms(4) by (simp add: of_nat_diff)
    next
      case gt: False
      have d: "length (sub512 p b) = 16" "lval (sub512 p b) = w - lval b"
        using gt p bn wb sub512_val(1) [OF p(2) assms(2)] sub512_exact [OF p(2) assms(2), of 0 "w - lval b"]
        by (simp_all add: pow512)
      have "w - lval b < lval n" using assms(6) [OF True] iw gt by linarith
      then have "lval (negate_mod_inplace (sub512 p b) n) = (lval n - (w - lval b)) mod lval n"
        using negate_mod_val [OF d(1) assms(3)] d(2) by simp
      moreover have "lval (mul_add_mod_signed a x b n) = lval (negate_mod_inplace (sub512 p b) n)"
        using True gt p assms(2) by (simp add: mul_add_mod_signed_def y_def geq512_val Let_def)
      moreover have "int ((lval n - (w - lval b)) mod lval n) = (int (lval n) + (int (lval b) - int w)) mod int (lval n)"
        using \<open>w - lval b < lval n\<close> gt by (simp add: of_nat_mod of_nat_diff algebra_simps)
      ultimately show ?thesis unfolding neg by (simp only: mod_add_self1)
    qed
  qed
qed

text \<open>Outside that regime: a negative multiple beyond \<open>N\<close> is not reduced, although the comment there says that
  a product without carry is below \<open>N\<close>.\<close>

lemma mul_add_mod_signed_unreduced:
  "lval (mul_add_mod_signed (uint512_u32 5) (- 2) (uint512_u32 0) (uint512_u32 7)) = 2 ^ 512 - 3"
proof -
  obtain p where p: "mul_uint64_inplace 2 (uint512_u32 5) = (0, p)" "length p = 16" "lval p = 10"
    using mul_uint64_exact [of "uint512_u32 5" 2] by auto
  have s: "length (sub512 p (uint512_u32 0)) = 16" "lval (sub512 p (uint512_u32 0)) = 10"
    using sub512_val(1) [of p "uint512_u32 0"] sub512_exact [of p "uint512_u32 0" 0 10] p(2,3)
    by (simp_all add: base_def)
  have "lval (sub512 (uint512_u32 7) (sub512 p (uint512_u32 0))) = 2 ^ 512 - 3"
    using s by (intro sub512_exact [of _ _ 1]) (simp_all add: pow512)
  then show ?thesis
    using p s by (simp add: mul_add_mod_signed_def geq512_val negate_mod_inplace_def is_zero_val)
qed

text \<open>The sum of the two terms of \<open>crt_2\<close> is not reduced before it wraps: with a product of the moduli
  between \<open>2 ^ 511\<close> and \<open>2 ^ 512\<close>, which the comment allows, the result can be wrong.\<close>

lemma crt_wrap_value:
  fixes h m :: nat
  assumes "4 \<le> h" and "m + 1 = 2 * h"
  shows "(((1 * m) mod (2 * m) * 1) mod (2 * m) + ((3 * 2) mod (2 * m) * h) mod (2 * m)) mod (4 * h) mod (2 * m) = 1"
proof -
  have m: "7 \<le> m" using assms by simp
  have "6 * h = (m + 3) + 2 * m" using assms(2) by simp
  then have "(6 * h) mod (2 * m) = (m + 3) mod (2 * m)" by (simp only: mod_add_self2)
  also have "\<dots> = m + 3" using m by simp
  finally have t2: "(6 * h) mod (2 * m) = m + 3" .
  have "m + (m + 3) = 1 + 4 * h" using assms(2) by simp
  then have "(m + (m + 3)) mod (4 * h) = 1 mod (4 * h)" by (simp only: mod_add_self2)
  then show ?thesis using t2 m assms(1) by simp
qed

lemma crt_2_wraps:
  assumes "length m = 16" and "lval m = 2 ^ 511 - 1"
  shows "\<exists>x. crt_2 (uint512_u32 1) (uint512_u32 2) (uint512_u32 3) m = Some x \<and> lval x = 1 \<and> lval x mod lval m \<noteq> 3 mod lval m"
proof -
  have m: "lval m + 1 = 2 * 2 ^ 510" "3 < lval m" unfolding assms(2) by simp_all
  have p: "(2 :: nat) ^ 512 = 4 * 2 ^ 510" "(4 :: nat) \<le> 2 ^ 510" by simp_all
  have v: "lval (uint512_u32 1) = 1" "lval (uint512_u32 2) = 2" "lval (uint512_u32 3) = 3" by simp_all
  have "even (lval m + 1)" unfolding m(1) by (rule dvd_triv_left)
  then have "coprime 2 (lval m)" by (simp only: coprime_left_2_iff_odd) simp
  moreover have "2 * lval m < 2 ^ 512" "1 < lval m" using m p by linarith+
  ultimately have h: "coprime (lval (uint512_u32 2)) (lval m)" "lval (uint512_u32 2) * lval m < 2 ^ 512" "1 < lval m"
    "1 < lval (uint512_u32 2)"
    by (simp_all add: v del: zero_vals(1))
  obtain y1 y2 x where x: "crt_2 (uint512_u32 1) (uint512_u32 2) (uint512_u32 3) m = Some x"
    and y: "lval y1 < lval (uint512_u32 2)" "(lval y1 * lval m) mod lval (uint512_u32 2) = 1"
      "lval y2 < lval m" "(lval y2 * lval (uint512_u32 2)) mod lval m = 1"
    and xv: "lval x = ((((lval (uint512_u32 1) * lval m) mod (lval (uint512_u32 2) * lval m) * lval y1) mod (lval (uint512_u32 2) * lval m) +
       ((lval (uint512_u32 3) * lval (uint512_u32 2)) mod (lval (uint512_u32 2) * lval m) * lval y2)
         mod (lval (uint512_u32 2) * lval m)) mod 2 ^ 512) mod (lval (uint512_u32 2) * lval m)"
    by (rule crt_2_val [OF zero_vals(2) zero_vals(2) zero_vals(2) assms(1) h(4,3,1,2)])
  have y1: "lval y1 < 2" "(lval y1 * lval m) mod 2 = 1" and y2: "lval y2 < lval m" "(lval y2 * 2) mod lval m = 1"
    using y by (simp_all only: v)
  have y1v: "lval y1 = 1" using y1 by (auto simp: less_2_cases_iff)
  have y2v: "lval y2 = 2 ^ 510"
  proof -
    have "lval y2 * 2 = 1 \<or> lval y2 * 2 = 1 + lval m"
    proof (cases "lval y2 * 2 < lval m")
      case False
      then show ?thesis using y2 by (simp add: le_mod_geq)
    qed (use y2(2) in simp)
    moreover have "lval y2 * 2 \<noteq> 1" by simp
    ultimately have "2 * lval y2 = 2 * 2 ^ 510" using m(1) by linarith
    then show ?thesis by (simp only: mult_left_cancel zero_neq_numeral not_False_eq_True simp_thms)
  qed
  have "lval x = 1"
    using xv unfolding v y1v y2v p(1) crt_wrap_value [OF p(2) m(1)] .
  then show ?thesis using x m(2) by simp
qed

section \<open>The contracts\<close>

text \<open>
  C21. Inverses: the Euclidean loop of \<open>gcd\<close> ends with the greatest common divisor; \<open>mod_inverse\<close>, over 512-bit
  and over 32-bit moduli, ends with the inverse reduced below the modulus when the arguments are
  coprime and with 0 otherwise, although the intermediate sum \<open>u0 + m\<close> may wrap.
\<close>

theorem modular_inverse:
  assumes "length a = 16" "length m = 16" and "1 < lval m" and "1 < unat k"
  shows "(\<exists>g. gcd512 a m = Some g \<and> lval g = gcd (lval a) (lval m)) \<and>
    (\<exists>y. mod_inverse a m = Some y \<and> lval y < lval m \<and>
      (if coprime (lval a) (lval m) then (lval y * lval a) mod lval m = 1 else lval y = 0)) \<and>
    unat (mod_inverse32 a k) < unat k \<and>
    (if coprime (lval a) (unat k) then (unat (mod_inverse32 a k) * lval a) mod unat k = 1 else mod_inverse32 a k = 0)"
proof -
  obtain y where "mod_inverse a m = Some y" "lval y < lval m"
    "coprime (lval a) (lval m) \<Longrightarrow> (lval y * lval a) mod lval m = 1" "\<not> coprime (lval a) (lval m) \<Longrightarrow> lval y = 0"
    using mod_inverse_val [OF assms(1-3)] by metis
  then show ?thesis
    using gcd512_val [OF assms(1,2)] mod_inverse32_val [OF assms(1,4)] by auto
qed

theorem modular_inverse_witness:
  "\<exists>y. mod_inverse (uint512_u32 3) (uint512_u32 7) = Some y \<and> lval y < 7 \<and> (lval y * 3) mod 7 = 1"
  using modular_inverse [of "uint512_u32 3" "uint512_u32 7" 2] by (simp add: coprime_iff_gcd_eq_1 gcd_non_0_nat)

text \<open>
  Residues: \<open>sqrt_mod_3mod4\<close> returns a square root below the modulus whenever the modulus is 3 modulo 4 and
  Euler's criterion holds for the argument, and 0 otherwise; \<open>crt_2\<close> solves both congruences for coprime
  moduli whose product is at most \<open>2 ^ 511\<close>.
\<close>

theorem residue_solutions:
  assumes "length n = 16" "length p = 16" and "1 < lval p" and "lval p + 1 < 2 ^ 512"
    and "length r1 = 16" "length m1 = 16" "length r2 = 16" "length m2 = 16"
    and "1 < lval m1" "1 < lval m2" and "coprime (lval m1) (lval m2)" and "lval m1 * lval m2 \<le> 2 ^ 511"
  shows "(if lval p mod 4 = 3 \<and> lval n ^ ((lval p - 1) div 2) mod lval p = 1
      then lval (sqrt_mod_3mod4 n p) < lval p \<and>
        (lval (sqrt_mod_3mod4 n p) * lval (sqrt_mod_3mod4 n p)) mod lval p = lval n mod lval p
      else lval (sqrt_mod_3mod4 n p) = 0) \<and>
    (\<exists>x. crt_2 r1 m1 r2 m2 = Some x \<and> lval x < lval m1 * lval m2 \<and>
      lval x mod lval m1 = lval r1 mod lval m1 \<and> lval x mod lval m2 = lval r2 mod lval m2)"
proof -
  let ?M = "lval m1 * lval m2"
  have M: "?M < 2 ^ 512" using assms(12) by (rule le_less_trans) simp
  obtain y1 y2 x where x: "crt_2 r1 m1 r2 m2 = Some x"
    "(lval y1 * lval m2) mod lval m1 = 1" "(lval y2 * lval m1) mod lval m2 = 1"
    "lval x = ((((lval r1 * lval m2) mod ?M * lval y1) mod ?M + ((lval r2 * lval m1) mod ?M * lval y2) mod ?M) mod 2 ^ 512) mod ?M"
    using crt_2_val [OF assms(5-11) M] by metis
  define t1 where "t1 = ((lval r1 * lval m2) mod ?M * lval y1) mod ?M"
  define t2 where "t2 = ((lval r2 * lval m1) mod ?M * lval y2) mod ?M"
  have "0 < ?M" using assms(9,10) by simp
  then have lt: "t1 < ?M" "t2 < ?M" by (simp_all add: t1_def t2_def)
  have "(2 :: nat) ^ 511 + 2 ^ 511 = 2 ^ 512" by simp
  then have "t1 + t2 < 2 ^ 512" using lt assms(12) by linarith
  then have xv: "lval x = (t1 + t2) mod ?M" by (simp only: x(4) t1_def [symmetric] t2_def [symmetric] mod_less)
  have t: "t1 mod lval m1 = lval r1 mod lval m1" "t1 mod lval m2 = 0"
    using crt_terms [OF x(2), of "lval r1"] by (simp_all only: t1_def)
  have "?M = lval m2 * lval m1" by (rule mult.commute)
  then have t': "t2 mod lval m2 = lval r2 mod lval m2" "t2 mod lval m1 = 0"
    using crt_terms [OF x(3), of "lval r2"] by (simp_all only: t2_def)
  have "lval x mod lval m1 = (t1 + t2) mod lval m1" unfolding xv by (rule mod_mod_cancel) simp
  also have "\<dots> = lval r1 mod lval m1" using mod_add_eq [of t1 "lval m1" t2] t(1) t'(2) by simp
  finally have c1: "lval x mod lval m1 = lval r1 mod lval m1" .
  have "lval x mod lval m2 = (t1 + t2) mod lval m2" unfolding xv by (rule mod_mod_cancel) simp
  also have "\<dots> = lval r2 mod lval m2" using mod_add_eq [of t1 "lval m2" t2] t(2) t'(1) by simp
  finally have c2: "lval x mod lval m2 = lval r2 mod lval m2" .
  have "lval x < ?M" using \<open>0 < ?M\<close> by (simp add: xv)
  then show ?thesis
    using sqrt_mod_3mod4_val [OF assms(1-4)] x(1) c1 c2 by (simp split: if_split)
qed

theorem residue_solutions_witness:
  "\<exists>x. crt_2 (uint512_u32 2) (uint512_u32 3) (uint512_u32 3) (uint512_u32 5) = Some x \<and> lval x < 15 \<and>
     lval x mod 3 = 2 \<and> lval x mod 5 = 3"
proof -
  have "coprime (3 :: nat) 5" by (simp add: coprime_iff_gcd_eq_1 gcd_non_0_nat)
  then show ?thesis
    using residue_solutions [of "uint512_u32 2" "uint512_u32 7" "uint512_u32 2" "uint512_u32 3" "uint512_u32 3" "uint512_u32 5"]
    by simp
qed

text \<open>
  C22. Polynomial values: from the wrapping product and sum, \<open>calculate_sqrt_of_QX\<close> returns \<open>|a x + b|\<close> and its
  sign for every signed 32-bit \<open>x\<close> as long as \<open>a x + b\<close> lies in the signed 512-bit range, and
  \<open>calculateQ_unsigned\<close> returns \<open>|(a x + b)\<^sup>2 - N|\<close> and its sign under the same condition on that difference;
  \<open>abs_square_minus_N\<close> needs only that the difference itself has 512 bits, the square may be larger.
\<close>

theorem polynomial_value:
  assumes "length a = 16" "length b = 16" "length N = 16" and "v = int (lval a) * sint x + int (lval b)"
    and "- (2 ^ 511) \<le> v" and "v < 2 ^ 511" and "\<bar>v * v - int (lval N)\<bar> < 2 ^ 512"
  shows "int (lval (fst (calculate_sqrt_of_QX a b x))) = \<bar>v\<bar> \<and> snd (calculate_sqrt_of_QX a b x) = sgn v \<and>
    int (lval (fst (abs_square_minus_N (fst (calculate_sqrt_of_QX a b x)) N))) = \<bar>v * v - int (lval N)\<bar> \<and>
    snd (abs_square_minus_N (fst (calculate_sqrt_of_QX a b x)) N) = (if 0 \<le> v * v - int (lval N) then 1 else - 1) \<and>
    (- (2 ^ 511) \<le> v * v - int (lval N) \<and> v * v - int (lval N) < 2 ^ 511 \<longrightarrow>
      int (lval (fst (calculateQ_unsigned a b x N))) = \<bar>v * v - int (lval N)\<bar> \<and>
      snd (calculateQ_unsigned a b x N) = sgn (v * v - int (lval N)))"
proof -
  define s where "s = fst (calculate_sqrt_of_QX a b x)"
  have s: "length s = 16" "int (lval s) = \<bar>v\<bar>" "snd (calculate_sqrt_of_QX a b x) = sgn v"
    using calculate_sqrt_of_QX_val [OF assms(1,2,4-6)] by (simp_all add: s_def)
  have "\<bar>v\<bar> * \<bar>v\<bar> = v * v" by (rule abs_mult_self_eq)
  then have "int (lval (fst (abs_square_minus_N s N))) = \<bar>v * v - int (lval N)\<bar> \<and>
      snd (abs_square_minus_N s N) = (if 0 \<le> v * v - int (lval N) then 1 else - 1)"
    using abs_square_minus_N_val [OF s(1) assms(3) refl] assms(7) by (simp only: s(2) simp_thms)
  then show ?thesis
    using s calculateQ_val [OF assms(1-6)] unfolding s_def by blast
qed

theorem polynomial_value_witness:
  "int (lval (fst (calculate_sqrt_of_QX (uint512_u32 7) (uint512_u32 3) (- 2)))) = 11 \<and>
   snd (calculate_sqrt_of_QX (uint512_u32 7) (uint512_u32 3) (- 2)) = - 1"
  using polynomial_value [of "uint512_u32 7" "uint512_u32 3" "uint512_u32 100" "- 11" "- 2"] by simp

end
