(* ===== verification/Spsc_Ring.thy ===== *)
theory Spsc_Ring
  imports Prelude "HOL-Library.Sublist"
begin

text \<open>
  The lock-free ring buffer of \<^verbatim>\<open>src/cluster/spsc_ring.h\<close>, a Lamport queue between one producer
  thread and one consumer thread. The three operations are given twice: as functions on the
  memory of the ring (a call that is not interrupted), and as a step relation that interleaves
  the single atomic loads, slot accesses and stores of a producer and a consumer.

  In the step relation an atomic holds the list of all values stored to it. Its only writer
  reads the newest one; the other thread may read any value that is not older than the last
  one it read, which is what an acquire load guarantees. The slots are ordinary memory, and the
  invariant shows that the two threads never access the same slot at the same time.
\<close>

unbundle bit_operations_syntax

section \<open>The ring and its operations\<close>

record 'a spsc_ring =
  head :: u64
  tail :: u64
  slots :: "'a list"

text \<open>The static assertion on the capacity \<^verbatim>\<open>N\<close>, and the successor of an index.\<close>

definition valid_capacity :: "u64 \<Rightarrow> bool" where
  "valid_capacity n \<longleftrightarrow> n > 0 \<and> n AND (n - 1) = 0"

definition next_index :: "u64 \<Rightarrow> u64 \<Rightarrow> u64" where
  "next_index n i = (i + 1) AND (n - 1)"

text \<open>A default element fills the new ring; \<open>mv\<close> is what a move leaves behind in a slot.\<close>

definition SPSCRing :: "u64 \<Rightarrow> 'a \<Rightarrow> 'a spsc_ring" where
  "SPSCRing n dflt = \<lparr>head = 0, tail = 0, slots = replicate (unat n) dflt\<rparr>"

definition tryPush :: "u64 \<Rightarrow> 'a \<Rightarrow> 'a spsc_ring \<Rightarrow> bool \<times> 'a spsc_ring" where
  "tryPush n item r =
     (let t = tail r; nxt = next_index n t
      in if nxt = head r then (False, r)
         else (True, r\<lparr>slots := (slots r)[unat t := item], tail := nxt\<rparr>))"

definition tryPop :: "u64 \<Rightarrow> ('a \<Rightarrow> 'a) \<Rightarrow> 'a spsc_ring \<Rightarrow> 'a option \<times> 'a spsc_ring" where
  "tryPop n mv r =
     (let h = head r
      in if h = tail r then (None, r)
         else (Some (slots r ! unat h),
               r\<lparr>slots := (slots r)[unat h := mv (slots r ! unat h)], head := next_index n h\<rparr>))"

text \<open>The loop of \<^verbatim>\<open>popBatch\<close>: \<open>k\<close> elements may still be taken, the result is the list of the
  elements taken, the slots and the new head.\<close>

fun pop_loop :: "u64 \<Rightarrow> ('a \<Rightarrow> 'a) \<Rightarrow> nat \<Rightarrow> u64 \<Rightarrow> u64 \<Rightarrow> 'a list \<Rightarrow> 'a list \<times> 'a list \<times> u64" where
  "pop_loop n mv 0 t h sl = ([], sl, h)"
| "pop_loop n mv (Suc k) t h sl =
     (if h = t then ([], sl, h)
      else case pop_loop n mv k t (next_index n h) (sl[unat h := mv (sl ! unat h)]) of
        (out, sl', h') \<Rightarrow> (sl ! unat h # out, sl', h'))"

definition popBatch :: "u64 \<Rightarrow> ('a \<Rightarrow> 'a) \<Rightarrow> nat \<Rightarrow> 'a spsc_ring \<Rightarrow> 'a list \<times> 'a spsc_ring" where
  "popBatch n mv max_n r =
     (case pop_loop n mv max_n (tail r) (head r) (slots r) of
        (out, sl, h) \<Rightarrow> (out, r\<lparr>slots := sl, head := (if length out > 0 then h else head r)\<rparr>))"

definition approxSize :: "u64 \<Rightarrow> 'a spsc_ring \<Rightarrow> u64" where
  "approxSize n r = (tail r - head r) AND (n - 1)"

section \<open>Index arithmetic\<close>

lemma and_pred_zero: "0 < n \<Longrightarrow> n AND (n - 1) = 0 \<Longrightarrow> \<exists>k. n = 2 ^ k" for n :: nat
proof (induction n rule: less_induct)
  case (less n)
  show ?case
  proof (cases "even n")
    case True
    then obtain m where m: "n = 2 * m" by blast
    with less.prems(1) have "0 < m" by simp
    then have "(2 * m - 1) div 2 = m - 1" by simp
    then have "n AND (n - 1) = 2 * (m AND (m - 1))"
      using m by (subst and_rec) simp
    with less.prems(2) have "m AND (m - 1) = 0" by simp
    with less.IH [of m] \<open>0 < m\<close> m obtain k where "m = 2 ^ k" by auto
    with m have "n = 2 ^ Suc k" by simp
    then show ?thesis by blast
  next
    case False
    then obtain m where m: "n = 2 * m + 1" by (elim oddE)
    then have "n AND (n - 1) = 2 * m" by (subst and_rec) simp
    with less.prems(2) m have "n = 2 ^ 0" by simp
    then show ?thesis by blast
  qed
qed

lemma valid_capacity_power:
  assumes "valid_capacity n"
  obtains k where "unat n = 2 ^ k" "k < 64" "n - 1 = mask k"
proof -
  have pos: "0 < unat n" using assms by (auto simp: valid_capacity_def unat_gt_0)
  then have pred: "unat (n - 1) = unat n - 1" by (simp add: unat_minus_one unat_gt_0)
  have "unat n AND (unat n - 1) = unat (n AND (n - 1))" by (simp add: unsigned_and_eq pred)
  then have "unat n AND (unat n - 1) = 0" using assms by (simp add: valid_capacity_def)
  with pos obtain k where k: "unat n = 2 ^ k" using and_pred_zero by blast
  have "(2::nat) ^ k < 2 ^ 64" using k unat_lt64 [of n] by simp
  then have "k < 64" by (rule power_less_imp_less_exp [rotated]) simp
  moreover have "n = of_nat (2 ^ k)" using k by (metis of_nat_unat ucast_id)
  then have "n - 1 = mask k" by (simp add: mask_eq_exp_minus_1)
  ultimately show thesis using k that by blast
qed

text \<open>The index of the \<open>i\<close>-th element ever pushed.\<close>

definition index :: "u64 \<Rightarrow> nat \<Rightarrow> u64" where
  "index n i = of_nat (i mod unat n)"

lemma unat_index: "valid_capacity n \<Longrightarrow> unat (index n i) = i mod unat n"
proof -
  assume "valid_capacity n"
  then have "0 < unat n" by (auto simp: valid_capacity_def unat_gt_0)
  then have "i mod unat n < unat n" by simp
  then have "i mod unat n < 2 ^ 64" by (rule less_trans) simp
  then show ?thesis by (simp add: index_def unat_of_nat)
qed

lemma next_index_index: "valid_capacity n \<Longrightarrow> next_index n (index n i) = index n (Suc i)"
proof -
  assume v: "valid_capacity n"
  from v obtain k where k: "unat n = 2 ^ k" "k < 64" "n - 1 = mask k" by (rule valid_capacity_power)
  have "i mod 2 ^ k < 2 ^ 63"
  proof -
    have "i mod 2 ^ k < 2 ^ k" by simp
    also have "\<dots> \<le> (2::nat) ^ 63" using k(2) by (intro power_increasing) auto
    finally show ?thesis .
  qed
  then have "unat (index n i + 1) = Suc (i mod 2 ^ k)"
    using unat_index [OF v, of i] k(1) by (subst unat_add_exact) auto
  then have "unat (next_index n (index n i)) = Suc (i mod 2 ^ k) mod 2 ^ k"
    unfolding next_index_def k(3) take_bit_eq_mask [symmetric]
    by (simp only: unsigned_take_bit_eq) (simp add: take_bit_eq_mod)
  also have "\<dots> = Suc i mod 2 ^ k" by (simp add: mod_Suc_eq)
  finally show ?thesis using unat_index [OF v, of "Suc i"] k(1) by (simp add: word_unat_eq_iff)
qed

lemma index_eq_iff:
  assumes "valid_capacity n" and "i \<le> j" and "j < i + unat n"
  shows "index n i = index n j \<longleftrightarrow> i = j"
proof
  assume "index n i = index n j"
  then have "i mod unat n = j mod unat n" using unat_index [OF assms(1)] by metis
  then have "unat n dvd j - i" using assms(2) by (metis mod_eq_dvd_iff_nat)
  then show "i = j" using assms(2,3) by (auto dest: dvd_imp_le)
qed simp

section \<open>Uninterrupted calls\<close>

text \<open>The ring after \<open>c\<close> elements were taken, holding \<open>xs\<close>.\<close>

definition ring_holds :: "u64 \<Rightarrow> 'a spsc_ring \<Rightarrow> nat \<Rightarrow> 'a list \<Rightarrow> bool" where
  "ring_holds n r c xs \<longleftrightarrow> length (slots r) = unat n \<and> length xs < unat n
     \<and> head r = index n c \<and> tail r = index n (c + length xs)
     \<and> (\<forall>i < length xs. slots r ! ((c + i) mod unat n) = xs ! i)"

lemma valid_pos: "valid_capacity n \<Longrightarrow> 0 < unat n"
  by (auto simp: valid_capacity_def unat_gt_0)

lemma SPSCRing_holds: "valid_capacity n \<Longrightarrow> ring_holds n (SPSCRing n dflt) 0 []"
  using valid_pos [of n] by (simp add: ring_holds_def SPSCRing_def index_def)

lemma mod_eq_near:
  assumes "i mod n = j mod n" and "i \<le> j" and "j < i + n"
  shows "i = (j::nat)"
proof -
  have "n dvd j - i" using assms(1,2) by (metis mod_eq_dvd_iff_nat)
  then show ?thesis using assms(2,3) by (auto dest: dvd_imp_le)
qed

lemma tryPush_holds:
  assumes v: "valid_capacity n" and h: "ring_holds n r c xs"
  shows "fst (tryPush n x r) \<longleftrightarrow> length xs + 1 < unat n"
    and "ring_holds n (snd (tryPush n x r)) c (if length xs + 1 < unat n then xs @ [x] else xs)"
proof -
  note H = h [unfolded ring_holds_def]
  have nxt: "next_index n (tail r) = index n (c + length xs + 1)"
    using H next_index_index [OF v, of "c + length xs"] by simp
  have full: "index n (c + length xs + 1) = head r \<longleftrightarrow> length xs + 1 = unat n"
  proof (cases "length xs + 1 = unat n")
    case True
    then have "c + length xs + 1 = c + unat n" by simp
    then show ?thesis using H True by (simp only: index_def mod_add_self2 simp_thms)
  next
    case False
    then have "c + length xs + 1 < c + unat n" using H by simp
    from index_eq_iff [OF v _ this] H False show ?thesis by auto
  qed
  show f: "fst (tryPush n x r) \<longleftrightarrow> length xs + 1 < unat n"
    using H full unfolding tryPush_def Let_def nxt by (auto split: if_splits)
  show "ring_holds n (snd (tryPush n x r)) c (if length xs + 1 < unat n then xs @ [x] else xs)"
  proof (cases "length xs + 1 < unat n")
    case True
    then have ne: "index n (c + length xs + 1) \<noteq> head r" using full by auto
    have slot: "(slots r)[(c + length xs) mod unat n := x] ! ((c + i) mod unat n) = (xs @ [x]) ! i"
      if "i < Suc (length xs)" for i
    proof (cases "i = length xs")
      case True
      then show ?thesis using H valid_pos [OF v] by simp
    next
      case False
      then have "(c + i) mod unat n \<noteq> (c + length xs) mod unat n"
        using mod_eq_near [of "c + i" "unat n" "c + length xs"] that H by auto
      then show ?thesis using H False that by (simp add: nth_append)
    qed
    show ?thesis
      using H True ne slot
      by (simp add: tryPush_def next_index_index [OF v] Let_def ring_holds_def unat_index [OF v])
  next
    case False
    then show ?thesis using h H full by (simp add: tryPush_def next_index_index [OF v] Let_def)
  qed
qed

lemma pop_loop_holds:
  assumes v: "valid_capacity n" and "length sl = unat n" and "length xs < unat n"
    and "\<forall>i < length xs. sl ! ((c + i) mod unat n) = xs ! i"
  shows "\<exists>sl'. pop_loop n mv k (index n (c + length xs)) (index n c) sl
      = (take k xs, sl', index n (c + min k (length xs))) \<and> length sl' = unat n
      \<and> (\<forall>i < length (drop k xs). sl' ! ((c + min k (length xs) + i) mod unat n) = drop k xs ! i)"
  using assms(2-)
proof (induction k arbitrary: c xs sl)
  case 0
  then show ?case by simp
next
  case (Suc k)
  show ?case
  proof (cases xs)
    case Nil
    then show ?thesis using Suc.prems by simp
  next
    case (Cons x ys)
    let ?sl = "sl[c mod unat n := mv (sl ! (c mod unat n))]"
    have ne: "index n c \<noteq> index n (Suc (c + length ys))"
      using index_eq_iff [OF v, of c "Suc (c + length ys)"] Suc.prems(2) Cons by simp
    have x: "sl ! (c mod unat n) = x" using Suc.prems(3) Cons by force
    have "?sl ! ((Suc c + i) mod unat n) = ys ! i" if "i < length ys" for i
    proof -
      have "c mod unat n \<noteq> (Suc c + i) mod unat n"
        using mod_eq_near [of c "unat n" "Suc c + i"] that Suc.prems(2) Cons by auto
      then show ?thesis using Suc.prems(3) [rule_format, of "Suc i"] that Cons by simp
    qed
    then obtain sl' where "pop_loop n mv k (index n (Suc c + length ys)) (index n (Suc c)) ?sl
      = (take k ys, sl', index n (Suc c + min k (length ys)))" "length sl' = unat n"
      "\<forall>i < length (drop k ys). sl' ! ((Suc c + min k (length ys) + i) mod unat n) = drop k ys ! i"
      using Suc.IH [of ?sl ys "Suc c"] Suc.prems(1,2) Cons by auto
    then show ?thesis
      using ne Cons x by (auto simp: next_index_index [OF v] unat_index [OF v])
  qed
qed

lemma popBatch_holds:
  assumes v: "valid_capacity n" and h: "ring_holds n r c xs"
  shows "fst (popBatch n mv k r) = take k xs"
    and "ring_holds n (snd (popBatch n mv k r)) (c + min k (length xs)) (drop k xs)"
proof -
  note H = h [unfolded ring_holds_def]
  obtain sl' where p: "pop_loop n mv k (tail r) (head r) (slots r)
      = (take k xs, sl', index n (c + min k (length xs)))" "length sl' = unat n"
      "\<forall>i < length (drop k xs). sl' ! ((c + min k (length xs) + i) mod unat n) = drop k xs ! i"
    using pop_loop_holds [OF v, of "slots r" xs c mv k] H by auto
  have b: "popBatch n mv k r = (take k xs, r\<lparr>slots := sl', head := (if length (take k xs) > 0
      then index n (c + min k (length xs)) else head r)\<rparr>)"
    by (simp only: popBatch_def p(1) prod.case)
  then show "fst (popBatch n mv k r) = take k xs" by simp
  have tl: "c + min k (length xs) + length (drop k xs) = c + length xs" by simp
  show "ring_holds n (snd (popBatch n mv k r)) (c + min k (length xs)) (drop k xs)"
    using p(2,3) H unfolding ring_holds_def tl by (auto simp: b)
qed

lemma tryPop_popBatch:
  "tryPop n mv r = (case popBatch n mv 1 r of (out, r') \<Rightarrow> (if out = [] then None else Some (hd out), r'))"
  by (simp add: tryPop_def popBatch_def Let_def)

lemma tryPop_holds:
  assumes "valid_capacity n" and "ring_holds n r c xs"
  shows "fst (tryPop n mv r) = (case xs of [] \<Rightarrow> None | x # _ \<Rightarrow> Some x)"
    and "\<exists>c'. ring_holds n (snd (tryPop n mv r)) c' (drop 1 xs)"
  using popBatch_holds [OF assms, of mv 1]
  by (cases xs; cases "popBatch n mv 1 r"; auto simp: tryPop_popBatch)+

lemma approxSize_holds:
  assumes v: "valid_capacity n" and h: "ring_holds n r c xs"
  shows "unat (approxSize n r) = length xs"
proof -
  note H = h [unfolded ring_holds_def]
  from v obtain k where k: "unat n = 2 ^ k" "k < 64" "n - 1 = mask k" by (rule valid_capacity_power)
  let ?m = "(2::int) ^ k"
  have idx: "uint (index n i) = int i mod ?m" for i
    using arg_cong [OF unat_index [OF v, of i], of int] by (simp add: k(1) zmod_int)
  have "uint (approxSize n r) = ((uint (tail r) - uint (head r)) mod 2 ^ 64) mod ?m"
    unfolding approxSize_def k(3) take_bit_eq_mask [symmetric] unsigned_take_bit_eq
    by (simp add: take_bit_eq_mod uint_word_ariths)
  also have "\<dots> = (uint (tail r) - uint (head r)) mod ?m"
    by (rule mod_mod_cancel, rule le_imp_power_dvd) (use k(2) in simp)
  also have "\<dots> = (int (c + length xs) - int c) mod ?m"
    using H by (simp only: idx mod_diff_eq)
  also have "\<dots> = int (length xs)" using H k(1) by (simp add: zmod_int [symmetric] of_nat_power [symmetric])
  finally show ?thesis by (simp add: unat_eq_nat_uint)
qed

section \<open>Interleaved calls\<close>

text \<open>Where the two threads are inside an operation, with their local variables.\<close>

datatype 'a producer =
    PIdle
  | PLoaded 'a u64
  | PWriting 'a u64 u64
  | PStore 'a u64

datatype 'a consumer =
    CIdle
  | CLoaded u64
  | CReading u64
  | CStore u64 'a
  | CBatch nat u64 u64 "'a list"

text \<open>\<open>pushed\<close> and \<open>popped\<close> are the elements of the calls that returned; \<open>taken\<close> is the number of
  elements consumed at each store to \<^verbatim>\<open>head_\<close>, a ghost variable.\<close>

record 'a spsc =
  heads :: "u64 list"
  tails :: "u64 list"
  cells :: "'a list"
  head_view :: nat
  tail_view :: nat
  ppc :: "'a producer"
  cpc :: "'a consumer"
  pushed :: "'a list"
  popped :: "'a list"
  taken :: "nat list"

definition spsc_init :: "u64 \<Rightarrow> 'a \<Rightarrow> 'a spsc" where
  "spsc_init n dflt = \<lparr>heads = [0], tails = [0], cells = replicate (unat n) dflt, head_view = 0, tail_view = 0,
     ppc = PIdle, cpc = CIdle, pushed = [], popped = [], taken = [0]\<rparr>"

text \<open>The steps of \<^verbatim>\<open>tryPush\<close>.\<close>

inductive push_step :: "u64 \<Rightarrow> 'a spsc \<Rightarrow> 'a spsc \<Rightarrow> bool" for n where
  push_load: "ppc s = PIdle \<Longrightarrow> push_step n s (s\<lparr>ppc := PLoaded item (last (tails s))\<rparr>)"
| push_full: "ppc s = PLoaded item t \<Longrightarrow> head_view s \<le> v \<Longrightarrow> v < length (heads s) \<Longrightarrow>
    next_index n t = heads s ! v \<Longrightarrow> push_step n s (s\<lparr>ppc := PIdle, head_view := v\<rparr>)"
| push_room: "ppc s = PLoaded item t \<Longrightarrow> head_view s \<le> v \<Longrightarrow> v < length (heads s) \<Longrightarrow>
    next_index n t \<noteq> heads s ! v \<Longrightarrow>
    push_step n s (s\<lparr>ppc := PWriting item t (next_index n t), head_view := v\<rparr>)"
| push_write: "ppc s = PWriting item t nxt \<Longrightarrow>
    push_step n s (s\<lparr>ppc := PStore item nxt, cells := (cells s)[unat t := item]\<rparr>)"
| push_store: "ppc s = PStore item nxt \<Longrightarrow>
    push_step n s (s\<lparr>ppc := PIdle, tails := tails s @ [nxt], pushed := pushed s @ [item]\<rparr>)"

text \<open>The steps of \<^verbatim>\<open>tryPop\<close> and \<^verbatim>\<open>popBatch\<close>.\<close>

inductive pop_step :: "u64 \<Rightarrow> ('a \<Rightarrow> 'a) \<Rightarrow> 'a spsc \<Rightarrow> 'a spsc \<Rightarrow> bool" for n mv where
  pop_load: "cpc s = CIdle \<Longrightarrow> pop_step n mv s (s\<lparr>cpc := CLoaded (last (heads s))\<rparr>)"
| pop_empty: "cpc s = CLoaded h \<Longrightarrow> tail_view s \<le> v \<Longrightarrow> v < length (tails s) \<Longrightarrow>
    h = tails s ! v \<Longrightarrow> pop_step n mv s (s\<lparr>cpc := CIdle, tail_view := v\<rparr>)"
| pop_avail: "cpc s = CLoaded h \<Longrightarrow> tail_view s \<le> v \<Longrightarrow> v < length (tails s) \<Longrightarrow>
    h \<noteq> tails s ! v \<Longrightarrow> pop_step n mv s (s\<lparr>cpc := CReading h, tail_view := v\<rparr>)"
| pop_read: "cpc s = CReading h \<Longrightarrow>
    pop_step n mv s (s\<lparr>cpc := CStore (next_index n h) (cells s ! unat h),
      cells := (cells s)[unat h := mv (cells s ! unat h)]\<rparr>)"
| pop_store: "cpc s = CStore h out \<Longrightarrow>
    pop_step n mv s (s\<lparr>cpc := CIdle, heads := heads s @ [h], popped := popped s @ [out],
      taken := taken s @ [last (taken s) + 1]\<rparr>)"
| batch_load: "cpc s = CIdle \<Longrightarrow> tail_view s \<le> v \<Longrightarrow> v < length (tails s) \<Longrightarrow>
    pop_step n mv s (s\<lparr>cpc := CBatch max_n (tails s ! v) (last (heads s)) [], tail_view := v\<rparr>)"
| batch_read: "cpc s = CBatch max_n t h out \<Longrightarrow> length out < max_n \<Longrightarrow> h \<noteq> t \<Longrightarrow>
    pop_step n mv s (s\<lparr>cpc := CBatch max_n t (next_index n h) (out @ [cells s ! unat h]),
      cells := (cells s)[unat h := mv (cells s ! unat h)]\<rparr>)"
| batch_none: "cpc s = CBatch max_n t h [] \<Longrightarrow> 0 = max_n \<or> h = t \<Longrightarrow> pop_step n mv s (s\<lparr>cpc := CIdle\<rparr>)"
| batch_store: "cpc s = CBatch max_n t h out \<Longrightarrow> out \<noteq> [] \<Longrightarrow> length out = max_n \<or> h = t \<Longrightarrow>
    pop_step n mv s (s\<lparr>cpc := CIdle, heads := heads s @ [h], popped := popped s @ out,
      taken := taken s @ [last (taken s) + length out]\<rparr>)"

definition ring_step :: "u64 \<Rightarrow> ('a \<Rightarrow> 'a) \<Rightarrow> 'a spsc \<Rightarrow> 'a spsc \<Rightarrow> bool" where
  "ring_step n mv s s' \<longleftrightarrow> push_step n s s' \<or> pop_step n mv s s'"

text \<open>The slot a thread is about to access, and a data race.\<close>

definition writes_slot :: "'a spsc \<Rightarrow> u64 option" where
  "writes_slot s = (case ppc s of PWriting item t nxt \<Rightarrow> Some t | _ \<Rightarrow> None)"

definition reads_slot :: "'a spsc \<Rightarrow> u64 option" where
  "reads_slot s = (case cpc s of CReading h \<Rightarrow> Some h
     | CBatch max_n t h out \<Rightarrow> if length out < max_n \<and> h \<noteq> t then Some h else None | _ \<Rightarrow> None)"

definition data_race :: "'a spsc \<Rightarrow> bool" where
  "data_race s \<longleftrightarrow> writes_slot s \<noteq> None \<and> writes_slot s = reads_slot s"

definition producer_ok :: "u64 \<Rightarrow> 'a spsc \<Rightarrow> bool" where
  "producer_ok n s = (let p = length (pushed s); seen = taken s ! head_view s in
     p < seen + unat n \<and>
     (case ppc s of PIdle \<Rightarrow> True
      | PLoaded item t \<Rightarrow> t = index n p
      | PWriting item t nxt \<Rightarrow> t = index n p \<and> nxt = index n (Suc p) \<and> Suc p < seen + unat n
      | PStore item nxt \<Rightarrow> nxt = index n (Suc p) \<and> Suc p < seen + unat n \<and> cells s ! (p mod unat n) = item))"

text \<open>\<open>held\<close> is the number of elements an unfinished batch has already moved out of the ring.\<close>

definition held :: "'a spsc \<Rightarrow> 'a list" where
  "held s = (case cpc s of CStore h out \<Rightarrow> [out] | CBatch max_n t h out \<Rightarrow> out | _ \<Rightarrow> [])"

definition consumer_ok :: "u64 \<Rightarrow> 'a spsc \<Rightarrow> bool" where
  "consumer_ok n s = (let c = length (popped s) in
     c + length (held s) \<le> tail_view s \<and>
     (case cpc s of CIdle \<Rightarrow> True
      | CLoaded h \<Rightarrow> h = index n c
      | CReading h \<Rightarrow> h = index n c \<and> c < tail_view s
      | CStore h out \<Rightarrow> h = index n (Suc c)
      | CBatch max_n t h out \<Rightarrow> t = index n (tail_view s) \<and> h = index n (c + length out) \<and> length out \<le> max_n))"

definition ring_inv :: "u64 \<Rightarrow> 'a spsc \<Rightarrow> bool" where
  "ring_inv n s \<longleftrightarrow> length (cells s) = unat n
     \<and> tails s = map (index n) [0..<Suc (length (pushed s))] \<and> heads s = map (index n) (taken s)
     \<and> taken s \<noteq> [] \<and> sorted (taken s) \<and> last (taken s) = length (popped s)
     \<and> head_view s < length (taken s) \<and> tail_view s \<le> length (pushed s)
     \<and> prefix (popped s @ held s) (pushed s)
     \<and> (\<forall>i. length (popped s) + length (held s) \<le> i \<and> i < length (pushed s) \<longrightarrow> cells s ! (i mod unat n) = pushed s ! i)
     \<and> producer_ok n s \<and> consumer_ok n s"

lemma consumer_unaffected [simp]:
  "held (s\<lparr>ppc := a\<rparr>) = held s" "held (s\<lparr>head_view := v\<rparr>) = held s" "held (s\<lparr>cells := cs\<rparr>) = held s"
  "held (s\<lparr>tails := ts\<rparr>) = held s" "held (s\<lparr>pushed := ps\<rparr>) = held s"
  "consumer_ok n (s\<lparr>ppc := a\<rparr>) = consumer_ok n s" "consumer_ok n (s\<lparr>head_view := v\<rparr>) = consumer_ok n s"
  "consumer_ok n (s\<lparr>cells := cs\<rparr>) = consumer_ok n s" "consumer_ok n (s\<lparr>tails := ts\<rparr>) = consumer_ok n s"
  "consumer_ok n (s\<lparr>pushed := ps\<rparr>) = consumer_ok n s"
  by (simp_all add: held_def consumer_ok_def Let_def split: consumer.splits)

lemma producer_unaffected [simp]:
  "producer_ok n (s\<lparr>cpc := b\<rparr>) = producer_ok n s" "producer_ok n (s\<lparr>tail_view := v\<rparr>) = producer_ok n s"
  "producer_ok n (s\<lparr>heads := hs\<rparr>) = producer_ok n s" "producer_ok n (s\<lparr>popped := ps\<rparr>) = producer_ok n s"
  "producer_ok n (s\<lparr>cpc := b, cells := cs\<rparr>) = producer_ok n (s\<lparr>cells := cs\<rparr>)"
  by (simp_all add: producer_ok_def Let_def split: producer.splits)

lemma ring_invD:
  assumes "ring_inv n s"
  shows "length (cells s) = unat n" "tails s = map (index n) [0..<Suc (length (pushed s))]"
    "heads s = map (index n) (taken s)" "taken s \<noteq> []" "sorted (taken s)" "last (taken s) = length (popped s)"
    "head_view s < length (taken s)" "tail_view s \<le> length (pushed s)"
    "prefix (popped s @ held s) (pushed s)"
    "\<And>i. length (popped s) + length (held s) \<le> i \<Longrightarrow> i < length (pushed s) \<Longrightarrow> cells s ! (i mod unat n) = pushed s ! i"
    "producer_ok n s" "consumer_ok n s"
  using assms unfolding ring_inv_def by blast+

lemma view_bounds:
  assumes inv: "ring_inv n s" and "head_view s \<le> v" and "v < length (heads s)"
  shows "heads s ! v = index n (taken s ! v)" "taken s ! head_view s \<le> taken s ! v"
    "taken s ! v \<le> length (popped s)" "length (pushed s) < taken s ! v + unat n"
proof -
  note I = ring_invD [OF inv]
  show "heads s ! v = index n (taken s ! v)" using I(3) assms(3) by simp
  show le: "taken s ! head_view s \<le> taken s ! v" using I(3,5) assms(2,3) by (simp add: sorted_nth_mono)
  show "taken s ! v \<le> length (popped s)"
    using I(3,4,5,6) assms(3) sorted_nth_mono [of "taken s" v "length (taken s) - 1"]
    by (simp add: last_conv_nth)
  show "length (pushed s) < taken s ! v + unat n"
    using I(11) le by (simp add: producer_ok_def Let_def)
qed

lemma consumed_bounds:
  assumes inv: "ring_inv n s"
  shows "length (popped s) + length (held s) \<le> tail_view s" "length (pushed s) < length (popped s) + unat n"
proof -
  show "length (popped s) + length (held s) \<le> tail_view s"
    using ring_invD(12) [OF inv] by (simp add: consumer_ok_def Let_def)
  show "length (pushed s) < length (popped s) + unat n"
    using view_bounds(3,4) [OF inv order.refl] ring_invD(3,7) [OF inv] by simp
qed

lemma push_step_inv:
  assumes v: "valid_capacity n" and "push_step n s s'" and inv: "ring_inv n s"
  shows "ring_inv n s'"
  using assms(2)
proof cases
  case (push_load item)
  then show ?thesis
    using inv by (simp add: ring_inv_def producer_ok_def Let_def)
next
  case (push_full item t v)
  then show ?thesis
    using inv view_bounds [OF inv push_full(3,4)] ring_invD(3) [OF inv]
    by (simp add: ring_inv_def producer_ok_def Let_def)
next
  case (push_room item t w)
  note b = view_bounds [OF inv push_room(3,4)]
  have t: "t = index n (length (pushed s))"
    using ring_invD(11) [OF inv] push_room(2) by (simp add: producer_ok_def Let_def)
  have "Suc (length (pushed s)) < taken s ! w + unat n"
  proof (rule ccontr)
    assume "\<not> ?thesis"
    then have "Suc (length (pushed s)) = taken s ! w + unat n" using b(4) by simp
    then have "index n (Suc (length (pushed s))) = index n (taken s ! w)" by (simp only: index_def mod_add_self2)
    then show False using push_room(5) b(1) t next_index_index [OF v] by simp
  qed
  then show ?thesis
    using inv push_room b ring_invD(3) [OF inv] t
    by (simp add: ring_inv_def producer_ok_def Let_def next_index_index [OF v])
next
  case (push_write item t nxt)
  let ?p = "length (pushed s)"
  have t: "t = index n ?p" "nxt = index n (Suc ?p)" "Suc ?p < taken s ! head_view s + unat n"
    using ring_invD(11) [OF inv] push_write(2) by (simp_all add: producer_ok_def Let_def)
  have "i mod unat n \<noteq> ?p mod unat n" if "length (popped s) + length (held s) \<le> i" "i < ?p" for i
    using mod_eq_near [of i "unat n" ?p] that consumed_bounds(2) [OF inv] by auto
  then have "(cells s)[?p mod unat n := item] ! (i mod unat n) = pushed s ! i"
    if "length (popped s) + length (held s) \<le> i" "i < ?p" for i
    using that ring_invD(10) [OF inv, of i] by (metis nth_list_update_neq)
  then show ?thesis
    using inv push_write t valid_pos [OF v]
    by (simp add: ring_inv_def producer_ok_def Let_def unat_index [OF v])
next
  case (push_store item nxt)
  let ?p = "length (pushed s)"
  have t: "nxt = index n (Suc ?p)" "Suc ?p < taken s ! head_view s + unat n" "cells s ! (?p mod unat n) = item"
    using ring_invD(11) [OF inv] push_store(2) by (simp_all add: producer_ok_def Let_def)
  have h: "held s' = held s" by (simp add: push_store(1) held_def)
  have k: "length (popped s) + length (held s) \<le> ?p" using consumed_bounds(1) [OF inv] ring_invD(8) [OF inv] by simp
  have "cells s ! (i mod unat n) = (pushed s @ [item]) ! i"
    if "length (popped s) + length (held s) \<le> i" "i < Suc ?p" for i
    using that ring_invD(10) [OF inv, of i] t(3) by (cases "i = ?p") (simp_all add: nth_append)
  then show ?thesis
    using ring_invD [OF inv] push_store(1) t k h
    by (simp add: ring_inv_def producer_ok_def Let_def)
qed

lemma store_unaffected:
  "head_view s < length (taken s) \<Longrightarrow>
     producer_ok n (s\<lparr>cpc := b, heads := hs, popped := ps, taken := taken s @ xs\<rparr>) = producer_ok n s"
  by (simp add: producer_ok_def Let_def nth_append split: producer.splits)

text \<open>Moving the next element out of its slot.\<close>

lemma move_out:
  fixes s :: "'a spsc"
  assumes v: "valid_capacity n" and inv: "ring_inv n s" and avail: "length (popped s) + length (held s) < tail_view s"
  defines "k \<equiv> length (popped s) + length (held s)"
  shows "cells s ! (k mod unat n) = pushed s ! k"
    and "prefix (popped s @ held s @ [pushed s ! k]) (pushed s)"
    and "Suc k \<le> i \<Longrightarrow> i < length (pushed s) \<Longrightarrow> (cells s)[k mod unat n := x] ! (i mod unat n) = pushed s ! i"
    and "producer_ok n (s\<lparr>cells := (cells s)[k mod unat n := x]\<rparr>)"
proof -
  note I = ring_invD [OF inv]
  have k: "k < length (pushed s)" "length (pushed s) < k + unat n"
    using avail I(8) consumed_bounds(2) [OF inv] by (simp_all add: k_def)
  show "cells s ! (k mod unat n) = pushed s ! k" using I(10) [of k] k(1) by (simp add: k_def)
  show "prefix (popped s @ held s @ [pushed s ! k]) (pushed s)"
    using I(9) k(1) by (auto simp: prefix_def k_def nth_append neq_Nil_conv)
  have ne: "k mod unat n \<noteq> i mod unat n" if "Suc k \<le> i" "i \<le> length (pushed s)" for i
    using mod_eq_near [of k "unat n" i] that k(2) by auto
  show "(cells s)[k mod unat n := x] ! (i mod unat n) = pushed s ! i" if "Suc k \<le> i" "i < length (pushed s)"
    using ne [of i] that I(10) [of i] by (simp add: k_def)
  show "producer_ok n (s\<lparr>cells := (cells s)[k mod unat n := x]\<rparr>)"
    using I(11) ne [of "length (pushed s)"] k(1)
    by (simp add: producer_ok_def Let_def split: producer.splits)
qed

lemma last_heads: "ring_inv n s \<Longrightarrow> last (heads s) = index n (length (popped s))"
  by (simp add: ring_inv_def last_map)

lemma pop_step_inv:
  assumes v: "valid_capacity n" and "pop_step n mv s s'" and inv: "ring_inv n s"
  shows "ring_inv n s'"
proof -
  note I = ring_invD [OF inv] and B = consumed_bounds [OF inv]
  have tail: "tails s ! w = index n w" if "w < length (tails s)" for w
    using that I(2) by (simp del: upt_Suc)
  have len: "length (tails s) = Suc (length (pushed s))" using I(2) by simp
  have sorted: "sorted (taken s @ [length (popped s) + j])" for j
  proof -
    have "x \<le> length (popped s)" if "x \<in> set (taken s)" for x
      using that I(4-6) sorted_nth_mono [of "taken s" _ "length (taken s) - 1"]
      by (auto simp: in_set_conv_nth last_conv_nth)
    then show ?thesis using I(5) by (auto simp: sorted_append trans_le_add1)
  qed
  from assms(2) show ?thesis
  proof cases
    case pop_load
    then show ?thesis
      using inv B last_heads [OF inv] by (simp add: ring_inv_def consumer_ok_def held_def Let_def)
  next
    case (pop_empty h w)
    then show ?thesis using inv B len by (simp add: ring_inv_def consumer_ok_def held_def Let_def)
  next
    case (pop_avail h w)
    have h: "h = index n (length (popped s))" using I(12) pop_avail(2) by (simp add: consumer_ok_def Let_def)
    have c: "length (popped s) \<le> w" using B(1) pop_avail(3) by simp
    have "length (popped s) \<noteq> w" using tail [OF pop_avail(4)] pop_avail(5) h by auto
    then show ?thesis
      using inv pop_avail h c len by (simp add: ring_inv_def consumer_ok_def held_def Let_def)
  next
    case (pop_read h)
    have h: "h = index n (length (popped s))" "length (popped s) < tail_view s" and z: "held s = []"
      using I(12) pop_read(2) by (simp_all add: consumer_ok_def Let_def held_def)
    note m = move_out [OF v inv, unfolded z, simplified, OF h(2)]
    show ?thesis
      using inv pop_read h m z unfolding ring_inv_def
      by (simp add: consumer_ok_def held_def Let_def unat_index [OF v] next_index_index [OF v])
  next
    case (pop_store h out)
    have z: "held s = [out]" "h = index n (Suc (length (popped s)))"
      using I(12) pop_store(2) by (simp_all add: held_def consumer_ok_def Let_def)
    then show ?thesis
      using inv B sorted [of 1] pop_store(1) unfolding ring_inv_def
      by (simp add: store_unaffected) (simp add: consumer_ok_def held_def)
  next
    case (batch_load w max_n)
    then show ?thesis
      using inv B len tail last_heads [OF inv] by (simp add: ring_inv_def consumer_ok_def held_def Let_def)
  next
    case (batch_read max_n t h out)
    have z: "held s = out" "h = index n (length (popped s) + length out)" "t = index n (tail_view s)"
      using I(12) batch_read(2) by (simp_all add: held_def consumer_ok_def Let_def)
    have "length (popped s) + length out < tail_view s"
      using B(1) z batch_read(4) by (cases "length (popped s) + length out = tail_view s") auto
    note m = move_out [OF v inv, unfolded z(1), OF this] and k = this
    show ?thesis
      using inv batch_read k m z unfolding ring_inv_def
      by (simp add: consumer_ok_def held_def Let_def unat_index [OF v] next_index_index [OF v])
  next
    case (batch_none max_n t h)
    then show ?thesis using inv B by (simp add: ring_inv_def consumer_ok_def held_def Let_def)
  next
    case (batch_store max_n t h out)
    have z: "held s = out" "h = index n (length (popped s) + length out)"
      using I(12) batch_store(2) by (simp_all add: held_def consumer_ok_def Let_def)
    then show ?thesis
      using inv B sorted [of "length out"] batch_store(1) unfolding ring_inv_def
      by (simp add: store_unaffected) (simp add: consumer_ok_def held_def)
  qed
qed

lemma spsc_init_inv: "valid_capacity n \<Longrightarrow> ring_inv n (spsc_init n dflt)"
  using valid_pos [of n]
  by (simp add: ring_inv_def spsc_init_def producer_ok_def consumer_ok_def held_def index_def Let_def)

interpretation ring: inductive_invariant
    "\<lambda>s. s = spsc_init n dflt" "ring_step n mv" "\<lambda>s. valid_capacity n \<longrightarrow> ring_inv n s" for n dflt mv
  by unfold_locales (auto simp: ring_step_def intro: spsc_init_inv push_step_inv pop_step_inv)

lemma no_data_race:
  assumes v: "valid_capacity n" and inv: "ring_inv n s"
  shows "\<not> data_race s"
proof
  assume "data_race s"
  then obtain i where w: "writes_slot s = Some i" and r: "reads_slot s = Some i"
    by (cases "writes_slot s") (auto simp: data_race_def)
  note I = ring_invD [OF inv] and B = consumed_bounds [OF inv]
  have i: "i = index n (length (pushed s))"
    using w I(11) by (auto simp: writes_slot_def producer_ok_def Let_def split: producer.splits)
  obtain j where j: "i = index n j" "j \<noteq> tail_view s" "length (popped s) \<le> j" "j \<le> tail_view s"
    using r I(12) B(1)
    by (fastforce simp: reads_slot_def consumer_ok_def held_def Let_def split: consumer.splits if_splits)
  then have "j = length (pushed s)"
    using index_eq_iff [OF v, of j "length (pushed s)"] i I(8) B(2) by simp
  then show False using j I(8) by simp
qed

section \<open>Uninterrupted calls as runs of steps\<close>

definition memory :: "'a spsc \<Rightarrow> 'a spsc_ring" where
  "memory s = \<lparr>head = last (heads s), tail = last (tails s), slots = cells s\<rparr>"

lemma push_run:
  assumes idle: "ppc s = PIdle" and views: "heads s \<noteq> []" "head_view s < length (heads s)"
  shows "\<exists>s'. (push_step n)\<^sup>*\<^sup>* s s' \<and> ppc s' = PIdle \<and> memory s' = snd (tryPush n x (memory s))
    \<and> pushed s' = pushed s @ (if fst (tryPush n x (memory s)) then [x] else [])"
proof -
  let ?t = "last (tails s)" and ?v = "length (heads s) - 1"
  let ?s1 = "s\<lparr>ppc := PLoaded x ?t\<rparr>"
  have load: "push_step n s ?s1" using idle by (rule push_load)
  have v: "head_view ?s1 \<le> ?v" "?v < length (heads ?s1)" "heads ?s1 ! ?v = last (heads s)"
    using views by (auto simp: last_conv_nth)
  show ?thesis
  proof (cases "next_index n ?t = last (heads s)")
    case True
    have "push_step n ?s1 (?s1\<lparr>ppc := PIdle, head_view := ?v\<rparr>)"
      by (rule push_full [OF _ v(1,2)]) (use True v(3) in simp_all)
    with load have "(push_step n)\<^sup>*\<^sup>* s (?s1\<lparr>ppc := PIdle, head_view := ?v\<rparr>)" by force
    then show ?thesis using True by (intro exI [of _ "(?s1\<lparr>ppc := PIdle, head_view := ?v\<rparr>)"]) (simp add: memory_def tryPush_def Let_def)
  next
    case False
    let ?s2 = "?s1\<lparr>ppc := PWriting x ?t (next_index n ?t), head_view := ?v\<rparr>"
    let ?s3 = "?s2\<lparr>ppc := PStore x (next_index n ?t), cells := (cells s)[unat ?t := x]\<rparr>"
    let ?s4 = "?s3\<lparr>ppc := PIdle, tails := tails s @ [next_index n ?t], pushed := pushed s @ [x]\<rparr>"
    have "push_step n ?s1 ?s2" by (rule push_room [OF _ v(1,2)]) (use False v(3) in simp_all)
    moreover have "push_step n ?s2 ?s3" using push_write [of ?s2 x ?t "next_index n ?t" n] by simp
    moreover have "push_step n ?s3 ?s4" using push_store [of ?s3 x "next_index n ?t" n] by simp
    ultimately have "(push_step n)\<^sup>*\<^sup>* s ?s4"
      using load by (meson converse_rtranclp_into_rtranclp rtranclp.rtrancl_refl)
    then show ?thesis using False by (intro exI [of _ "?s4"]) (simp add: memory_def tryPush_def Let_def)
  qed
qed

lemma batch_run_loop:
  assumes "cpc s = CBatch (length out + k) t h out"
    and "pop_loop n mv k t h (cells s) = (took, sl, h')"
  shows "(pop_step n mv)\<^sup>*\<^sup>* s (s\<lparr>cpc := CBatch (length out + k) t h' (out @ took), cells := sl\<rparr>)
    \<and> (length took = k \<or> h' = t)"
  using assms
proof (induction k arbitrary: s out h took sl)
  case 0
  then show ?case by (cases s) auto
next
  case (Suc k)
  show ?case
  proof (cases "h = t")
    case True
    with Suc.prems show ?thesis by (cases s) auto
  next
    case False
    let ?s = "s\<lparr>cpc := CBatch (length out + Suc k) t (next_index n h) (out @ [cells s ! unat h]),
      cells := (cells s)[unat h := mv (cells s ! unat h)]\<rparr>"
    have "pop_step n mv s ?s" by (rule batch_read [OF Suc.prems(1)]) (use False in simp_all)
    moreover obtain took' where p: "pop_loop n mv k t (next_index n h) (cells ?s) = (took', sl, h')"
      "took = cells s ! unat h # took'"
      using Suc.prems(2) False by (auto split: prod.splits)
    moreover have "cpc ?s = CBatch (length (out @ [cells s ! unat h]) + k) t (next_index n h) (out @ [cells s ! unat h])"
      by simp
    note Suc.IH [OF this p(1)]
    ultimately show ?thesis by (auto intro: converse_rtranclp_into_rtranclp)
  qed
qed

lemma batch_run:
  assumes idle: "cpc s = CIdle" and views: "tails s \<noteq> []" "tail_view s < length (tails s)"
  shows "\<exists>s'. (pop_step n mv)\<^sup>*\<^sup>* s s' \<and> cpc s' = CIdle \<and> memory s' = snd (popBatch n mv k (memory s))
    \<and> popped s' = popped s @ fst (popBatch n mv k (memory s))"
proof -
  let ?t = "last (tails s)" and ?h = "last (heads s)" and ?v = "length (tails s) - 1"
  let ?s1 = "s\<lparr>cpc := CBatch k ?t ?h [], tail_view := ?v\<rparr>"
  have v: "tail_view s \<le> ?v" "?v < length (tails s)" "tails s ! ?v = ?t"
    using views by (auto simp: last_conv_nth)
  have load: "pop_step n mv s ?s1" using batch_load [OF idle v(1,2), of n mv k] v(3) by simp
  obtain took sl h' where p: "pop_loop n mv k ?t ?h (cells s) = (took, sl, h')" by (cases "pop_loop n mv k ?t ?h (cells s)")
  define s2 where "s2 = ?s1\<lparr>cpc := CBatch k ?t h' took, cells := sl\<rparr>"
  have "(pop_step n mv)\<^sup>*\<^sup>* ?s1 s2" and fin: "length took = k \<or> h' = ?t"
    using batch_run_loop [of ?s1 "[]" k ?t ?h n mv took sl h'] p by (simp_all add: s2_def)
  then have run: "(pop_step n mv)\<^sup>*\<^sup>* s s2" using load by (meson converse_rtranclp_into_rtranclp)
  show ?thesis
  proof (cases "took = []")
    case True
    then have "pop_step n mv s2 (s2\<lparr>cpc := CIdle\<rparr>)"
      using fin by (intro batch_none [of s2 k ?t h']) (auto simp: s2_def)
    with run have "(pop_step n mv)\<^sup>*\<^sup>* s (s2\<lparr>cpc := CIdle\<rparr>)" by (rule rtranclp.rtrancl_into_rtrancl)
    then show ?thesis using True p
      by (intro exI [of _ "s2\<lparr>cpc := CIdle\<rparr>"]) (simp add: memory_def popBatch_def s2_def)
  next
    case False
    let ?s3 = "s2\<lparr>cpc := CIdle, heads := heads s2 @ [h'], popped := popped s2 @ took,
      taken := taken s2 @ [last (taken s2) + length took]\<rparr>"
    have "pop_step n mv s2 ?s3" using fin False by (intro batch_store [of s2 k ?t]) (auto simp: s2_def)
    with run have "(pop_step n mv)\<^sup>*\<^sup>* s ?s3" by (rule rtranclp.rtrancl_into_rtrancl)
    then show ?thesis using False p
      by (intro exI [of _ ?s3]) (simp add: memory_def popBatch_def s2_def)
  qed
qed

text \<open>
  C24. The ring is a bounded FIFO queue under every interleaving of its producer and its consumer, with
  stale reads of the index the other thread owns: no slot is written and read at the same time, what was popped is
  a prefix of what was pushed, and at most \<open>n - 1\<close> elements are inside. A thread that is not disturbed
  completes its call, with the effect of the operation as a function; between calls the memory holds exactly the
  elements pushed and not yet popped.
\<close>

theorem spsc_ring_fifo:
  assumes v: "valid_capacity n" and r: "reachable (\<lambda>s. s = spsc_init n dflt) (ring_step n mv) s"
  shows "\<not> data_race s \<and> prefix (popped s) (pushed s) \<and> length (pushed s) < length (popped s) + unat n
    \<and> (ppc s = PIdle \<and> cpc s = CIdle \<longrightarrow>
        ring_holds n (memory s) (length (popped s)) (drop (length (popped s)) (pushed s)))
    \<and> (ppc s = PIdle \<longrightarrow> (\<exists>s'. (ring_step n mv)\<^sup>*\<^sup>* s s' \<and> ppc s' = PIdle \<and> memory s' = snd (tryPush n x (memory s))
        \<and> pushed s' = pushed s @ (if fst (tryPush n x (memory s)) then [x] else [])))
    \<and> (cpc s = CIdle \<longrightarrow> (\<exists>s'. (ring_step n mv)\<^sup>*\<^sup>* s s' \<and> cpc s' = CIdle \<and> memory s' = snd (popBatch n mv k (memory s))
        \<and> popped s' = popped s @ fst (popBatch n mv k (memory s))))"
proof -
  have inv: "ring_inv n s" using ring.reachable_inv [OF r] v by blast
  note I = ring_invD [OF inv] and B = consumed_bounds [OF inv]
  have pre: "prefix (popped s) (pushed s)" using I(9) by (rule append_prefixD)
  have sub: "(push_step n)\<^sup>*\<^sup>* a b \<Longrightarrow> (ring_step n mv)\<^sup>*\<^sup>* a b" "(pop_step n mv)\<^sup>*\<^sup>* a b \<Longrightarrow> (ring_step n mv)\<^sup>*\<^sup>* a b"
    for a b :: "'a spsc" by (rule rtranclp_mono [THEN predicate2D]; auto simp: ring_step_def)+
  have hold: "ring_holds n (memory s) (length (popped s)) (drop (length (popped s)) (pushed s))" if "cpc s = CIdle"
  proof -
    have "held s = []" using that by (simp add: held_def)
    then show ?thesis
      using I(1-8,10) B last_heads [OF inv] prefix_length_le [OF pre]
      by (auto simp: ring_holds_def memory_def)
  qed
  have views: "heads s \<noteq> []" "head_view s < length (heads s)" "tails s \<noteq> []" "tail_view s < length (tails s)"
    using I by auto
  show ?thesis
    using no_data_race [OF v inv] pre B(2) hold push_run [of s n x] batch_run [of s n mv k] views sub by metis
qed

text \<open>A ring of four slots after one complete push of 7 that a pop overlaps.\<close>

definition sample_ring :: "nat spsc" where
  "sample_ring = \<lparr>heads = [0], tails = [0, 1], cells = [7, 0, 0, 0], head_view = 0, tail_view = 0, ppc = PIdle,
     cpc = CLoaded 0, pushed = [7], popped = [], taken = [0]\<rparr>"

lemma reachable_chain:
  assumes "P a b" "P b c" "Q c d" "P d e" "P e f"
  shows "reachable (\<lambda>s. s = a) (\<lambda>s s'. P s s' \<or> Q s s') f"
proof -
  note ext = reach_step [where init = "\<lambda>s. s = a" and step = "\<lambda>s s'. P s s' \<or> Q s s'", OF _ disjI1]
    reach_step [where init = "\<lambda>s. s = a" and step = "\<lambda>s s'. P s s' \<or> Q s s'", OF _ disjI2]
  have "reachable (\<lambda>s. s = a) (\<lambda>s s'. P s s' \<or> Q s s') a" by (rule reach_init) simp
  from ext(1) [OF ext(1) [OF ext(2) [OF ext(1) [OF ext(1) [OF this assms(1)] assms(2)] assms(3)] assms(4)] assms(5)]
  show ?thesis .
qed

lemma sample_ring_reachable: "reachable (\<lambda>s. s = spsc_init 4 0) (ring_step 4 id) sample_ring"
proof -
  let ?s0 = "spsc_init 4 (0::nat)"
  let ?s1 = "?s0\<lparr>ppc := PLoaded 7 0\<rparr>"
  let ?s2 = "?s1\<lparr>ppc := PWriting 7 0 1, head_view := 0\<rparr>"
  let ?s3 = "?s2\<lparr>cpc := CLoaded 0\<rparr>"
  let ?s4 = "?s3\<lparr>ppc := PStore 7 1, cells := [7, 0, 0, 0]\<rparr>"
  have nxt: "next_index 4 0 = 1" by (simp add: next_index_def)
  have cells: "replicate 4 (0::nat) = [0, 0, 0, 0]" by (simp add: numeral_eq_Suc)
  have "push_step 4 ?s0 ?s1" using push_load [of ?s0 4 7] by (simp add: spsc_init_def)
  moreover have "push_step 4 ?s1 ?s2"
    using push_room [of ?s1 7 0 0 4] nxt by (simp add: spsc_init_def)
  moreover have "pop_step 4 id ?s2 ?s3" using pop_load [of ?s2 4 id] by (simp add: spsc_init_def)
  moreover have "push_step 4 ?s3 ?s4"
    using push_write [of ?s3 7 0 1 4] by (simp add: spsc_init_def cells)
  moreover have "push_step 4 ?s4 sample_ring"
    using push_store [of ?s4 7 1 4] by (simp add: spsc_init_def sample_ring_def)
  ultimately show ?thesis
    using reachable_chain [of "push_step 4" ?s0 ?s1 ?s2 "pop_step 4 id" ?s3 ?s4 sample_ring]
    by (simp only: ring_step_def [abs_def])
qed

theorem spsc_ring_fifo_witness:
  "\<not> data_race sample_ring \<and> prefix (popped sample_ring) (pushed sample_ring)
    \<and> length (pushed sample_ring) < length (popped sample_ring) + 4"
proof -
  have "valid_capacity 4" by (simp add: valid_capacity_def)
  from spsc_ring_fifo [OF this sample_ring_reachable] show ?thesis by simp
qed

end
