(* ===== verification/Data_Tap.thy ===== *)
theory Data_Tap
  imports Spsc_Ring Batch_Merge Accumulator
begin

text \<open>
  The worker's outlet for relations, \<^verbatim>\<open>src/cluster/async_network_data_tap.cpp\<close>: the sieve thread
  copies every batch into the ring, the I/O thread takes groups of batches out of it, merges and
  serialises them into one message, reads the coordinator's control messages and sends heartbeats.
  Next to it the coordinator's own outlet \<^verbatim>\<open>src/cluster/direct_channel.h\<close>, a circular buffer under a
  mutex that drops its oldest entry when full.

  The clock and the socket are arguments: whether the coalescing delay or the heartbeat interval
  has elapsed, and the message that was received. Messages to send are a result.
\<close>

section \<open>Messages\<close>

text \<open>The codes of \<^verbatim>\<open>MsgType\<close> the cluster loops dispatch on; a code from the wire can be any byte.\<close>

definition CHUNK_ASSIGN :: u8 where "CHUNK_ASSIGN = 0x13"
definition CHUNK_COMPLETE :: u8 where "CHUNK_COMPLETE = 0x14"
definition CHUNK_REQUEST :: u8 where "CHUNK_REQUEST = 0x15"
definition CHUNK_RECALL :: u8 where "CHUNK_RECALL = 0x17"
definition INCREMENTAL_BATCH :: u8 where "INCREMENTAL_BATCH = 0x22"
definition HEARTBEAT :: u8 where "HEARTBEAT = 0x30"
definition STOP :: u8 where "STOP = 0xF0"
definition FLUSH_ACK :: u8 where "FLUSH_ACK = 0xF1"
definition ERROR :: u8 where "ERROR = 0xFF"

lemmas msg_codes = CHUNK_ASSIGN_def CHUNK_COMPLETE_def CHUNK_REQUEST_def CHUNK_RECALL_def
  INCREMENTAL_BATCH_def HEARTBEAT_def STOP_def FLUSH_ACK_def ERROR_def

record recv_message =
  sender_id :: u8
  msg_type :: u8
  payload :: bytes
  msg_valid :: bool

type_synonym out_message = "u8 \<times> bytes"

text \<open>The packed payload structures and their memory images.\<close>

record chunk_assign =
  ca_chunk_id :: u32
  ca_start :: u64
  ca_count :: u64
  ca_flags :: u32

definition FLAG_OVERFLOW :: u32 where "FLAG_OVERFLOW = 4"

definition chunk_assign_bytes :: "chunk_assign \<Rightarrow> bytes" where
  "chunk_assign_bytes ca = to_le 4 (ca_chunk_id ca) @ to_le 8 (ca_start ca) @ to_le 8 (ca_count ca) @ to_le 4 (ca_flags ca)"

definition read_chunk_assign :: "bytes \<Rightarrow> chunk_assign" where
  "read_chunk_assign p = \<lparr>ca_chunk_id = of_le (slice 0 4 p), ca_start = of_le (slice 4 12 p),
     ca_count = of_le (slice 12 20 p), ca_flags = of_le (slice 20 24 p)\<rparr>"

record chunk_complete =
  cc_chunk_id :: u32
  cc_elapsed_ms :: u32
  cc_relations_found :: u64
  cc_partials_found :: u64
  cc_a_values_consumed :: u64

definition chunk_complete_bytes :: "chunk_complete \<Rightarrow> bytes" where
  "chunk_complete_bytes cc = to_le 4 (cc_chunk_id cc) @ to_le 4 (cc_elapsed_ms cc) @ to_le 8 (cc_relations_found cc)
     @ to_le 8 (cc_partials_found cc) @ to_le 8 (cc_a_values_consumed cc)"

definition read_chunk_complete :: "bytes \<Rightarrow> chunk_complete" where
  "read_chunk_complete p = \<lparr>cc_chunk_id = of_le (slice 0 4 p), cc_elapsed_ms = of_le (slice 4 8 p),
     cc_relations_found = of_le (slice 8 16 p), cc_partials_found = of_le (slice 16 24 p),
     cc_a_values_consumed = of_le (slice 24 32 p)\<rparr>"

text \<open>The image of a heartbeat: the two counters the worker does not track and the fields it never
  sets are zero.\<close>

definition heartbeat_bytes :: "u8 \<Rightarrow> u64 \<Rightarrow> bytes" where
  "heartbeat_bytes wid batches =
     [wid, 0, 0, 0] @ to_le 8 (0 :: u64) @ to_le 8 (0 :: u64) @ to_le 8 batches @ [0, 0] @ to_le 2 (0 :: u16) @ to_le 8 (0 :: u64)"

section \<open>The worker's outlet\<close>

record tap_slot =
  ts_full :: batch
  ts_partials :: batch
  ts_batch_index :: u64
  ts_a_values :: u64

definition empty_slot :: tap_slot where
  "empty_slot = \<lparr>ts_full = empty_batch, ts_partials = empty_batch, ts_batch_index = 0, ts_a_values = 0\<rparr>"

definition moved_slot :: "tap_slot \<Rightarrow> tap_slot" where
  "moved_slot s = s\<lparr>ts_full := Accumulator.moved_from (ts_full s), ts_partials := Accumulator.moved_from (ts_partials s)\<rparr>"

record data_tap =
  tap_self :: u8
  coalesce_count :: u32
  tap_ring :: "tap_slot spsc_ring"
  tap_shutdown :: bool
  batches_sent :: u64
  dropped_batches :: u64
  stop_flag :: bool
  recall_flag :: bool
  recalled_chunk_id :: u32
  pending_assign :: chunk_assign
  has_pending_assign :: bool
  range_a_limit :: u64
  range_a_consumed :: u64
  current_chunk_id :: u32
  batch_a_values :: u32

definition kRingSize :: u64 where "kRingSize = 32"

definition sendHeartbeat :: "data_tap \<Rightarrow> out_message" where
  "sendHeartbeat t = (HEARTBEAT, heartbeat_bytes (tap_self t) (batches_sent t))"

definition AsyncNetworkDataTap :: "u8 \<Rightarrow> u32 \<Rightarrow> data_tap \<times> out_message list" where
  "AsyncNetworkDataTap self cc =
     (let t = \<lparr>tap_self = self, coalesce_count = cc, tap_ring = SPSCRing kRingSize empty_slot, tap_shutdown = False,
        batches_sent = 0, dropped_batches = 0, stop_flag = False, recall_flag = False, recalled_chunk_id = 0,
        pending_assign = \<lparr>ca_chunk_id = 0, ca_start = 0, ca_count = 0, ca_flags = 0\<rparr>, has_pending_assign = False,
        range_a_limit = 0, range_a_consumed = 0, current_chunk_id = 0, batch_a_values = 1\<rparr>
      in (t, [sendHeartbeat t]))"

definition shutdown_tap :: "data_tap \<Rightarrow> data_tap" where
  "shutdown_tap t = t\<lparr>tap_shutdown := True\<rparr>"

definition preallocateSlots :: "u64 \<Rightarrow> u64 \<Rightarrow> data_tap \<Rightarrow> data_tap" where
  "preallocateSlots max_rels max_factors t =
     t\<lparr>tap_ring := (tap_ring t)\<lparr>slots := map (\<lambda>s. s\<lparr>ts_full := resize max_rels max_factors (ts_full s),
         ts_partials := resize max_rels max_factors (ts_partials s)\<rparr>) (slots (tap_ring t))\<rparr>\<rparr>"

definition onBatchComplete :: "batch \<Rightarrow> batch \<Rightarrow> u64 \<Rightarrow> u64 \<Rightarrow> data_tap \<Rightarrow> data_tap" where
  "onBatchComplete full partials batch_index a_values_advanced t =
     (if stop_flag t then t
      else
        let a_advanced = (if a_values_advanced > 0 then a_values_advanced else ucast (batch_a_values t));
            (pushed_ok, ring) = tryPush kRingSize \<lparr>ts_full = full, ts_partials = partials, ts_batch_index = batch_index,
               ts_a_values = a_advanced\<rparr> (tap_ring t);
            t = (if pushed_ok then t else t\<lparr>dropped_batches := dropped_batches t + 1\<rparr>)
        in t\<lparr>tap_ring := ring, batches_sent := batches_sent t + 1, range_a_consumed := range_a_consumed t + a_advanced\<rparr>)"

definition shouldStop :: "data_tap \<Rightarrow> bool" where
  "shouldStop t \<longleftrightarrow> stop_flag t \<or> (range_a_limit t > 0 \<and> range_a_consumed t \<ge> range_a_limit t)"

definition setRange :: "u64 \<Rightarrow> u32 \<Rightarrow> u32 \<Rightarrow> data_tap \<Rightarrow> data_tap" where
  "setRange cnt chunk_id batch_a_vals t =
     t\<lparr>range_a_limit := cnt, range_a_consumed := 0, current_chunk_id := chunk_id, batch_a_values := batch_a_vals\<rparr>"

definition clearRecall :: "data_tap \<Rightarrow> data_tap" where
  "clearRecall t = t\<lparr>recall_flag := False, recalled_chunk_id := 0\<rparr>"

definition tryTakeChunkAssign :: "data_tap \<Rightarrow> chunk_assign option \<times> data_tap" where
  "tryTakeChunkAssign t =
     (if \<not> has_pending_assign t then (None, t) else (Some (pending_assign t), t\<lparr>has_pending_assign := False\<rparr>))"

text \<open>One turn of the I/O thread: drain, coalesce and send, poll for a control message, heartbeat.\<close>

definition drain_ring :: "bool \<Rightarrow> data_tap \<Rightarrow> tap_slot list \<times> data_tap" where
  "drain_ring delay_elapsed t =
     (let (items, ring) = popBatch kRingSize moved_slot (unat (coalesce_count t)) (tap_ring t);
          t = t\<lparr>tap_ring := ring\<rparr>
      in if items = [] \<and> \<not> tap_shutdown t \<and> approxSize kRingSize (tap_ring t) > 0 \<and> delay_elapsed
         then let (items, ring) = popBatch kRingSize moved_slot (unat (coalesce_count t)) (tap_ring t)
              in (items, t\<lparr>tap_ring := ring\<rparr>)
         else (items, t))"

definition coalesce :: "tap_slot list \<Rightarrow> out_message list option" where
  "coalesce items =
     (if items = [] then Some []
      else do {
        merged_full \<leftarrow> mergeRelationBatches (map (\<lambda>s. (ts_full s, num_relations (ts_full s))) items);
        merged_partial \<leftarrow> mergeRelationBatches (map (\<lambda>s. (ts_partials s, num_relations (ts_partials s))) items);
        (buf, len) \<leftarrow> serializeIncrementalBatch merged_full (num_relations merged_full)
                       merged_partial (num_relations merged_partial);
        Some (if len > 0 then [(INCREMENTAL_BATCH, take (unat (of_nat len :: u32)) buf)] else [])
      })"

definition handle_control :: "recv_message \<Rightarrow> data_tap \<Rightarrow> data_tap" where
  "handle_control msg t =
     (if \<not> msg_valid msg then t
      else if msg_type msg = STOP \<or> msg_type msg = ERROR then t\<lparr>stop_flag := True\<rparr>
      else if msg_type msg = CHUNK_RECALL then
        let cr = (if length (payload msg) \<ge> 4 then of_le (slice 0 4 (payload msg)) else 0 :: u32)
        in if cr = current_chunk_id t then t\<lparr>recalled_chunk_id := cr, recall_flag := True\<rparr> else t
      else if msg_type msg = CHUNK_ASSIGN then
        if length (payload msg) \<ge> 24
        then t\<lparr>pending_assign := read_chunk_assign (payload msg), has_pending_assign := True\<rparr> else t
      else t)"

text \<open>The loop body; \<open>None\<close> in the second component is the exit of the loop.\<close>

definition io_turn :: "bool \<Rightarrow> recv_message option \<Rightarrow> bool \<Rightarrow> data_tap \<Rightarrow> (out_message list \<times> data_tap option) option" where
  "io_turn delay_elapsed incoming heartbeat_due t =
     (if tap_shutdown t \<and> approxSize kRingSize (tap_ring t) = 0 then Some ([sendHeartbeat t], None)
      else do {
        let (items, t) = drain_ring delay_elapsed t;
        sent \<leftarrow> coalesce items;
        let t = (case incoming of None \<Rightarrow> t | Some msg \<Rightarrow> handle_control msg t);
        Some (sent @ (if heartbeat_due then [sendHeartbeat t] else []), Some t)
      })"

section \<open>The coordinator's own outlet\<close>

record channel_payload =
  cp_full :: batch
  cp_partials :: batch
  cp_batch_idx :: u64

record direct_channel =
  ch_buffer :: "channel_payload list"
  ch_head :: nat
  ch_tail :: nat
  ch_count :: nat
  ch_capacity :: nat
  ch_stop :: bool
  ch_consumed :: u64
  ch_limit :: u64
  ch_batch_a_values :: u64

definition empty_payload :: channel_payload where
  "empty_payload = \<lparr>cp_full = empty_batch, cp_partials = empty_batch, cp_batch_idx = 0\<rparr>"

definition moved_payload :: "channel_payload \<Rightarrow> channel_payload" where
  "moved_payload p = p\<lparr>cp_full := Accumulator.moved_from (cp_full p), cp_partials := Accumulator.moved_from (cp_partials p)\<rparr>"

definition DirectChannel :: "nat \<Rightarrow> direct_channel" where
  "DirectChannel capacity = \<lparr>ch_buffer = replicate capacity empty_payload, ch_head = 0, ch_tail = 0, ch_count = 0,
     ch_capacity = capacity, ch_stop = False, ch_consumed = 0, ch_limit = 0, ch_batch_a_values = 1\<rparr>"

definition drop_oldest :: "direct_channel \<Rightarrow> direct_channel" where
  "drop_oldest c = (if ch_count c = ch_capacity c
     then c\<lparr>ch_head := (ch_head c + 1) mod ch_capacity c, ch_count := ch_count c - 1\<rparr> else c)"

definition channel_push :: "batch \<Rightarrow> batch \<Rightarrow> u64 \<Rightarrow> u64 \<Rightarrow> direct_channel \<Rightarrow> direct_channel" where
  "channel_push full partials batch_index a_values_advanced c =
     (let c = drop_oldest c;
          c = c\<lparr>ch_buffer := (ch_buffer c)[ch_tail c := \<lparr>cp_full = full, cp_partials = partials, cp_batch_idx = batch_index\<rparr>],
                ch_tail := (ch_tail c + 1) mod ch_capacity c, ch_count := ch_count c + 1\<rparr>;
          a_advanced = (if a_values_advanced > 0 then a_values_advanced else ch_batch_a_values c)
      in c\<lparr>ch_consumed := ch_consumed c + a_advanced\<rparr>)"

definition channel_shouldStop :: "direct_channel \<Rightarrow> bool" where
  "channel_shouldStop c \<longleftrightarrow> ch_stop c \<or> (ch_limit c > 0 \<and> ch_consumed c \<ge> ch_limit c)"

definition channel_setRange :: "u64 \<Rightarrow> u32 \<Rightarrow> direct_channel \<Rightarrow> direct_channel" where
  "channel_setRange cnt batch_a_vals c =
     c\<lparr>ch_limit := cnt, ch_consumed := 0, ch_batch_a_values := (if batch_a_vals > 0 then ucast batch_a_vals else 1)\<rparr>"

definition channel_tryPop :: "direct_channel \<Rightarrow> channel_payload option \<times> direct_channel" where
  "channel_tryPop c =
     (if ch_count c = 0 then (None, c)
      else (Some (ch_buffer c ! ch_head c),
            c\<lparr>ch_buffer := (ch_buffer c)[ch_head c := moved_payload (ch_buffer c ! ch_head c)],
              ch_head := (ch_head c + 1) mod ch_capacity c, ch_count := ch_count c - 1\<rparr>))"

definition signalStop :: "direct_channel \<Rightarrow> direct_channel" where
  "signalStop c = c\<lparr>ch_stop := True\<rparr>"

definition channel_empty :: "direct_channel \<Rightarrow> bool" where
  "channel_empty c \<longleftrightarrow> ch_count c = 0"

section \<open>Coalescing\<close>

text \<open>A batch of one sieving step: nothing, or a well-formed batch of bounded size. Thirty-one of
  them are what the ring can hold.\<close>

definition step_batch :: "batch \<Rightarrow> bool" where
  "step_batch b \<longleftrightarrow> num_relations b = 0 \<or>
     (batch_exact b \<and> factor_offsets b ! 0 = 0 \<and> n_rels b \<le> 65536 \<and> unat (num_factors b) \<le> 4194304)"

definition group_batch :: "batch \<Rightarrow> bool" where
  "group_batch b \<longleftrightarrow> num_relations b = 0 \<or>
     (batch_exact b \<and> n_rels b \<le> 31 * 65536 \<and> unat (num_factors b) \<le> 31 * 4194304)"

lemma merge_skips_empty:
  "mergeRelationBatches bs = mergeRelationBatches (filter (\<lambda>(b, n). n \<noteq> 0) bs)"
proof -
  have "fold (\<lambda>(b, n) (r, f). if n = 0 then (r, f) else (r + n, f + sentinel b n)) bs s
      = fold (\<lambda>(b, n) (r, f). if n = 0 then (r, f) else (r + n, f + sentinel b n)) (filter (\<lambda>(b, n). n \<noteq> 0) bs) s" for s
    by (induction bs arbitrary: s) auto
  moreover have "ofold merge_one bs s = ofold merge_one (filter (\<lambda>(b, n). n \<noteq> 0) bs) s" for s
    by (induction bs arbitrary: s) (auto simp: merge_one_def split: option.split prod.split)
  ultimately show ?thesis unfolding mergeRelationBatches_def merge_totals_def by (simp only:)
qed

lemma rels_none: "num_relations b = 0 \<Longrightarrow> rels b = []"
  by (simp add: rels_def)

lemma merge_group:
  assumes ok: "\<forall>b \<in> set bs. step_batch b" and len: "length bs \<le> 31"
  shows "\<exists>m. mergeRelationBatches (map (\<lambda>b. (b, num_relations b)) bs) = Some m \<and> group_batch m \<and> rels m = concat (map rels bs)"
proof -
  define cs where "cs = filter (\<lambda>b. num_relations b \<noteq> 0) bs"
  define xs where "xs = map (\<lambda>b. (b, num_relations b)) cs"
  have xs: "xs = filter (\<lambda>(b, n). n \<noteq> 0) (map (\<lambda>b. (b, num_relations b)) bs)"
    by (simp add: xs_def cs_def filter_map comp_def)
  have c: "\<forall>b \<in> set cs. batch_exact b \<and> factor_offsets b ! 0 = 0 \<and> n_rels b \<le> 65536 \<and> unat (num_factors b) \<le> 4194304"
    using ok by (auto simp: cs_def step_batch_def)
  have lc: "length cs \<le> 31" using len by (simp add: cs_def le_trans [OF length_filter_le])
  have mg: "\<forall>bn \<in> set xs. mergeable bn"
    using c by (auto simp: xs_def mergeable_def batch_exact_def intro: batch_exact_ok [unfolded batch_exact_def])
  have sent: "sentinel b (num_relations b) = num_factors b" if "b \<in> set cs" for b
    using c that by (auto simp: sentinel_def batch_exact_def)
  have "rel_sum xs \<le> length cs * 65536"
    using sum_list_mono [of cs n_rels "\<lambda>_. 65536"] c by (simp add: xs_def rel_sum_def comp_def sum_list_triv)
  then have rs: "rel_sum xs \<le> 31 * 65536" using lc by simp
  have "fac_sum xs \<le> length cs * 4194304"
    using sum_list_mono [of cs "\<lambda>b. unat (sentinel b (num_relations b))" "\<lambda>_. 4194304"] c sent
    by (simp add: xs_def fac_sum_def comp_def sum_list_triv)
  then have fs: "fac_sum xs \<le> 31 * 4194304" using lc by simp
  obtain m where m: "mergeRelationBatches xs = Some m" "rels m = concat (map (\<lambda>(b, n). take (unat n) (rels b)) xs)"
      "rel_sum xs \<noteq> 0 \<longrightarrow> batch_exact m"
    using merged_batches [OF mg] rs fs by auto
  have "concat (map rels bs) = concat (map rels cs)"
    unfolding cs_def by (induction bs) (auto simp: rels_none)
  then have r: "rels m = concat (map rels bs)" using m(2) by (simp add: xs_def comp_def)
  have "group_batch m"
  proof (cases "rel_sum xs = 0")
    case True
    then have "merge_totals xs = (0, of_nat (fac_sum xs))" by (simp add: merge_totals_sums [OF mg])
    then show ?thesis using m(1) by (auto simp: mergeRelationBatches_def group_batch_def empty_batch_def)
  next
    case False
    have u: "unat (of_nat (rel_sum xs) :: u64) = rel_sum xs" "unat (of_nat (fac_sum xs) :: u64) = fac_sum xs"
      using rs fs by (simp_all add: unat_of_nat)
    have "num_relations m = of_nat (rel_sum xs) \<and> num_factors m = of_nat (fac_sum xs)"
      using m(1) False u(1) by (auto simp: mergeRelationBatches_def merge_totals_sums [OF mg] split: if_splits Option.bind_splits)
    then show ?thesis using m(3) False rs fs u by (simp add: group_batch_def)
  qed
  then show ?thesis
    using m(1) r merge_skips_empty [of "map (\<lambda>b. (b, num_relations b)) bs"] by (simp add: xs)
qed

lemma resize_none: "num_relations (resize 0 0 out) = 0" "offsets_ok (resize 0 0 out)"
  by (simp_all add: resize_def offsets_ok_def grow_def)

lemma empty_image: "serializeRelationBatch b 0 = Some (replicate 16 0, 8)"
proof -
  have z: "to_le 4 (0 :: u32) = replicate 4 0" by (simp add: numeral_eq_Suc)
  show ?thesis
    unfolding serializeRelationBatch_def Let_def by (simp add: writeBytes_def z slice_def) (simp add: numeral_eq_Suc)
qed

lemma empty_received: "\<exists>b. deserializeRelationBatch (replicate 8 0) out = (0, b) \<and> batch_ok b \<and> rels b = []"
proof -
  have z: "of_le (replicate 4 0) = (0 :: u32)" by (simp add: of_le_def numeral_eq_Suc)
  have "deserializeRelationBatch (replicate 8 0) out
      = (0, (resize 0 0 out)\<lparr>num_relations := 0, num_factors := 0\<rparr>)"
    using z by (simp add: deserializeRelationBatch_def SafeReader_def read_int_def readBytes_def slice_def Let_def)
  then show ?thesis
    by (simp add: batch_ok_def rels_def offsets_ok_def resize_def grow_def)
qed

text \<open>What the receiver makes of one image, for both kinds of batch.\<close>

lemma image_received:
  assumes "group_batch b"
  shows "\<exists>img x. serializeRelationBatch b (num_relations b) = Some (img @ x, length img) \<and> length img < 2 ^ 30
    \<and> (\<exists>n b'. deserializeRelationBatch img empty_batch = (n, b') \<and> batch_ok b' \<and> rels b' = rels b)"
proof (cases "num_relations b = 0")
  case True
  then show ?thesis
    using empty_image [of b] empty_received [of empty_batch]
    by (intro exI [of _ "replicate 8 0"]) (auto simp: rels_none replicate_add [symmetric] intro!: exI [of _ "replicate 8 0"])
next
  case False
  let ?n = "num_relations b"
  have b: "batch_exact b" "n_rels b \<le> 31 * 65536" "unat (num_factors b) \<le> 31 * 4194304"
    using assms False by (simp_all add: group_batch_def)
  have sent: "sentinel b ?n = num_factors b" using b(1) by (simp add: sentinel_def batch_exact_def)
  have sh: "shippable b ?n"
    using b sent batch_exact_ok [OF b(1)] by (simp add: shippable_def batch_exact_def)
  let ?img = "batch_image b ?n (shipped_factors b ?n)"
  have "length ?img = image_size (n_rels b) (unat (shipped_factors b ?n))" by (rule length_batch_image [OF sh])
  also have "\<dots> < 2 ^ 30" using b sent by (simp add: image_size_def shipped_factors_def)
  finally have len: "length ?img < 2 ^ 30" .
  obtain x where x: "serializeRelationBatch b ?n = Some (?img @ x, length ?img)"
    using serialize_prefix [OF sh] by blast
  show ?thesis
    using x len deserializeRelationBatch_image [OF sh, of "[]" empty_batch] received_view(1,2) [OF sh, of empty_batch]
    by (intro exI [of _ ?img] exI [of _ x]) (auto simp: rels_def)
qed

lemma incremental_images:
  fixes A B :: bytes
  assumes 1: "serializeRelationBatch b cnt = Some (A @ x1, length A)" "length A < 2 ^ 30"
    and 2: "serializeRelationBatch p k = Some (B @ x2, length B)" "length B < 2 ^ 30"
  defines "buf \<equiv> to_le 4 (of_nat (length A) :: u32) @ A @ to_le 4 (of_nat (length B) :: u32) @ B"
  shows "serializeIncrementalBatch b cnt p k = Some (buf, length buf)"
    and "deserializeIncrementalBatch buf fo po
      = (True, snd (deserializeRelationBatch A fo), snd (deserializeRelationBatch B po))"
proof -
  have len: "unat (of_nat (length A) :: u32) = length A" "unat (of_nat (length B) :: u32) = length B"
    using 1(2) 2(2) by (simp_all add: unat_of_nat)
  show "serializeIncrementalBatch b cnt p k = Some (buf, length buf)"
    unfolding serializeIncrementalBatch_def 1 2 Let_def wbuf_init buf_def by simp (simp add: wbuf_def)
  have adv: "rdr (to_le 4 (of_nat (length A) :: u32)) (A @ v)\<lparr>rd_pos := 4 + length A\<rparr>
      = rdr (to_le 4 (of_nat (length A) :: u32) @ A) v" for v
    by (simp add: rdr_def)
  show "deserializeIncrementalBatch buf fo po
      = (True, snd (deserializeRelationBatch A fo), snd (deserializeRelationBatch B po))"
    by (simp add: deserializeIncrementalBatch_def SafeReader_rdr len Let_def slice_def adv buf_def)
qed

text \<open>A message that delivers the full relations \<open>fs\<close> and the partial relations \<open>ps\<close>.\<close>

definition carries :: "bytes \<Rightarrow> relation list \<Rightarrow> relation list \<Rightarrow> bool" where
  "carries buf fs ps \<longleftrightarrow> (\<exists>f p. deserializeIncrementalBatch buf empty_batch empty_batch = (True, f, p)
     \<and> batch_ok f \<and> rels f = fs \<and> batch_ok p \<and> rels p = ps)"

definition slot_ok :: "tap_slot \<Rightarrow> bool" where
  "slot_ok s \<longleftrightarrow> step_batch (ts_full s) \<and> step_batch (ts_partials s)"

definition full_rels :: "tap_slot list \<Rightarrow> relation list" where
  "full_rels items = concat (map (\<lambda>s. rels (ts_full s)) items)"

definition partial_rels :: "tap_slot list \<Rightarrow> relation list" where
  "partial_rels items = concat (map (\<lambda>s. rels (ts_partials s)) items)"

lemma coalesce_carries:
  assumes ok: "\<forall>s \<in> set items. slot_ok s" and len: "length items \<le> 31" and ne: "items \<noteq> []"
  shows "\<exists>buf. coalesce items = Some [(INCREMENTAL_BATCH, buf)] \<and> carries buf (full_rels items) (partial_rels items)"
proof -
  have "\<forall>b \<in> set (map ts_full items). step_batch b" "\<forall>b \<in> set (map ts_partials items). step_batch b"
    using ok by (auto simp: slot_ok_def)
  then obtain f p where f: "mergeRelationBatches (map (\<lambda>s. (ts_full s, num_relations (ts_full s))) items) = Some f"
      "group_batch f" "rels f = full_rels items"
    and p: "mergeRelationBatches (map (\<lambda>s. (ts_partials s, num_relations (ts_partials s))) items) = Some p"
      "group_batch p" "rels p = partial_rels items"
    using merge_group [of "map ts_full items"] merge_group [of "map ts_partials items"] len
    by (auto simp: comp_def full_rels_def partial_rels_def)
  obtain A x n f' where A: "serializeRelationBatch f (num_relations f) = Some (A @ x, length A)" "length A < 2 ^ 30"
      "deserializeRelationBatch A empty_batch = (n, f')" "batch_ok f'" "rels f' = rels f"
    using image_received [OF f(2)] by blast
  obtain B y k p' where B: "serializeRelationBatch p (num_relations p) = Some (B @ y, length B)" "length B < 2 ^ 30"
      "deserializeRelationBatch B empty_batch = (k, p')" "batch_ok p'" "rels p' = rels p"
    using image_received [OF p(2)] by blast
  let ?buf = "to_le 4 (of_nat (length A) :: u32) @ A @ to_le 4 (of_nat (length B) :: u32) @ B"
  note inc = incremental_images [OF A(1,2) B(1,2)]
  have l: "length ?buf = 8 + length A + length B" by simp
  have u: "unat (of_nat (length ?buf) :: u32) = length ?buf"
    unfolding l unat_of_nat by (rule mod_less) (use A(2) B(2) in simp)
  have "coalesce items = Some [(INCREMENTAL_BATCH, ?buf)]"
    using ne u by (simp add: coalesce_def f(1) p(1) inc(1) del: append_assoc)
  moreover have "carries ?buf (full_rels items) (partial_rels items)"
    using inc(2) [of empty_batch empty_batch] A B f p unfolding carries_def by auto
  ultimately show ?thesis by blast
qed

section \<open>Nothing is lost between the sieve thread and the wire\<close>

datatype tap_event =
    Produce batch batch u64 u64
  | Turn bool "recv_message option" bool
  | Set_range u64 u32 u32
  | Clear_recall
  | Take_assign
  | Shutdown

text \<open>The slots an event offers to the ring and the slots the ring accepts.\<close>

definition offers :: "tap_event \<Rightarrow> data_tap \<Rightarrow> tap_slot list" where
  "offers e t = (case e of
     Produce full partials i adv \<Rightarrow>
       if stop_flag t then []
       else [\<lparr>ts_full = full, ts_partials = partials, ts_batch_index = i,
              ts_a_values = (if adv > 0 then adv else ucast (batch_a_values t))\<rparr>]
   | _ \<Rightarrow> [])"

definition accepts :: "tap_event \<Rightarrow> data_tap \<Rightarrow> tap_slot list" where
  "accepts e t = filter (\<lambda>s. fst (tryPush kRingSize s (tap_ring t))) (offers e t)"

fun tap_step :: "tap_event \<Rightarrow> data_tap \<Rightarrow> (out_message list \<times> data_tap) option" where
  "tap_step (Produce full partials i adv) t = Some ([], onBatchComplete full partials i adv t)"
| "tap_step (Turn delay incoming hb) t =
     map_option (\<lambda>(out, t'). (out, case t' of None \<Rightarrow> t | Some t' \<Rightarrow> t')) (io_turn delay incoming hb t)"
| "tap_step (Set_range n cid av) t = Some ([], setRange n cid av t)"
| "tap_step Clear_recall t = Some ([], clearRecall t)"
| "tap_step Take_assign t = Some ([], snd (tryTakeChunkAssign t))"
| "tap_step Shutdown t = Some ([], shutdown_tap t)"

record tap_run =
  run_tap :: data_tap
  run_sent :: "out_message list"
  run_offered :: "tap_slot list"
  run_accepted :: "tap_slot list"

definition run_event :: "tap_event \<Rightarrow> tap_run \<Rightarrow> tap_run option" where
  "run_event e r = map_option (\<lambda>(out, t).
     \<lparr>run_tap = t, run_sent = run_sent r @ out, run_offered = run_offered r @ offers e (run_tap r),
      run_accepted = run_accepted r @ accepts e (run_tap r)\<rparr>) (tap_step e (run_tap r))"

definition event_ok :: "tap_event \<Rightarrow> bool" where
  "event_ok e = (case e of Produce full partials i adv \<Rightarrow> step_batch full \<and> step_batch partials | _ \<Rightarrow> True)"

text \<open>The relation messages among \<open>ms\<close> deliver the items in order, group by group.\<close>

definition delivered :: "out_message list \<Rightarrow> tap_slot list \<Rightarrow> bool" where
  "delivered ms items \<longleftrightarrow> (\<exists>groups. concat groups = items \<and>
     list_all2 (\<lambda>m g. carries (snd m) (full_rels g) (partial_rels g))
       (filter (\<lambda>m. fst m = INCREMENTAL_BATCH) ms) groups)"

lemma delivered_append: "delivered ms xs \<Longrightarrow> delivered ns ys \<Longrightarrow> delivered (ms @ ns) (xs @ ys)"
proof -
  let ?ok = "\<lambda>m g. carries (snd m) (full_rels g) (partial_rels g)" and ?sel = "filter (\<lambda>m. fst m = INCREMENTAL_BATCH)"
  assume "delivered ms xs" and "delivered ns ys"
  then obtain gs hs where "concat gs = xs" "list_all2 ?ok (?sel ms) gs" "concat hs = ys" "list_all2 ?ok (?sel ns) hs"
    by (auto simp: delivered_def)
  then show ?thesis
    unfolding delivered_def by (intro exI [of _ "gs @ hs"]) (simp add: list_all2_appendI)
qed

definition tap_inv :: "tap_run \<Rightarrow> bool" where
  "tap_inv r \<longleftrightarrow> (\<exists>c xs. ring_holds kRingSize (tap_ring (run_tap r)) c xs \<and> (\<forall>s \<in> set xs. slot_ok s) \<and>
     (\<exists>ys. run_accepted r = ys @ xs \<and> delivered (run_sent r) ys)) \<and>
     batches_sent (run_tap r) = of_nat (length (run_offered r)) \<and>
     batches_sent (run_tap r) = of_nat (length (run_accepted r)) + dropped_batches (run_tap r)"

lemma kRingSize_valid: "valid_capacity kRingSize" "unat kRingSize = 32"
  by (simp_all add: valid_capacity_def kRingSize_def)

lemma handle_control_ring:
  "tap_ring (handle_control m t) = tap_ring t" "batches_sent (handle_control m t) = batches_sent t"
  "dropped_batches (handle_control m t) = dropped_batches t" "coalesce_count (handle_control m t) = coalesce_count t"
  by (simp_all add: handle_control_def Let_def)

lemma drain_ring_holds:
  assumes h: "ring_holds kRingSize (tap_ring t) c xs"
  shows "\<exists>k t' c'. drain_ring d t = (take k xs, t') \<and> ring_holds kRingSize (tap_ring t') c' (drop k xs) \<and>
    batches_sent t' = batches_sent t \<and> dropped_batches t' = dropped_batches t \<and>
    k = unat (coalesce_count t) \<and> coalesce_count t' = coalesce_count t"
proof -
  let ?k = "unat (coalesce_count t)"
  note 1 = popBatch_holds [OF kRingSize_valid(1) h, of moved_slot ?k]
  note 2 = popBatch_holds [OF kRingSize_valid(1) 1(2), of moved_slot ?k]
  obtain r1 where r1: "popBatch kRingSize moved_slot ?k (tap_ring t) = (take ?k xs, r1)"
    using 1(1) by (metis prod.collapse)
  obtain r2 where r2: "popBatch kRingSize moved_slot ?k r1 = (take ?k (drop ?k xs), r2)"
    using 2(1) r1 by (metis prod.collapse snd_conv)
  show ?thesis
  proof (cases "take ?k xs = [] \<and> \<not> tap_shutdown t \<and> approxSize kRingSize r1 > 0 \<and> d")
    case True
    then have "drop ?k xs = xs" by (metis append_take_drop_id append_Nil)
    then have "ring_holds kRingSize r2 (c + min ?k (length xs) + min ?k (length xs)) (drop ?k xs)" "take ?k (drop ?k xs) = take ?k xs"
      using 2(2) r1 r2 by simp_all
    then show ?thesis using True r1 r2
      by (intro exI [of _ ?k] exI [of _ "t\<lparr>tap_ring := r2\<rparr>"] exI [of _ "c + min ?k (length xs) + min ?k (length xs)"])
         (auto simp: drain_ring_def Let_def)
  next
    case False
    then show ?thesis using 1(2) r1
      by (intro exI [of _ ?k] exI [of _ "t\<lparr>tap_ring := r1\<rparr>"] exI [of _ "c + min ?k (length xs)"])
         (auto simp: drain_ring_def Let_def)
  qed
qed

lemma delivered_none: "\<forall>m \<in> set ms. fst m \<noteq> INCREMENTAL_BATCH \<Longrightarrow> delivered ms []"
  by (simp add: delivered_def filter_False)

lemma io_turn_delivers:
  assumes h: "ring_holds kRingSize (tap_ring t) c xs" and ok: "\<forall>s \<in> set xs. slot_ok s"
  shows "\<exists>k out t' c'. tap_step (Turn d inc hb) t = Some (out, t') \<and> delivered out (take k xs) \<and>
    ring_holds kRingSize (tap_ring t') c' (drop k xs) \<and>
    batches_sent t' = batches_sent t \<and> dropped_batches t' = dropped_batches t \<and>
    k = unat (coalesce_count t) \<and> coalesce_count t' = coalesce_count t"
proof (cases "tap_shutdown t \<and> approxSize kRingSize (tap_ring t) = 0")
  case True
  then have "xs = []" using approxSize_holds [OF kRingSize_valid(1) h] by simp
  then show ?thesis using h True
    by (intro exI [of _ "unat (coalesce_count t)"] exI [of _ "[sendHeartbeat t]"] exI [of _ t] exI [of _ c])
       (auto simp: io_turn_def sendHeartbeat_def msg_codes intro!: delivered_none)
next
  case False
  obtain k t1 c' where d: "drain_ring d t = (take k xs, t1)" "ring_holds kRingSize (tap_ring t1) c' (drop k xs)"
      "batches_sent t1 = batches_sent t" "dropped_batches t1 = dropped_batches t"
      "k = unat (coalesce_count t)" "coalesce_count t1 = coalesce_count t"
    using drain_ring_holds [OF h] by blast
  have len: "length (take k xs) \<le> 31" using h kRingSize_valid(2) by (auto simp: ring_holds_def)
  obtain sent where sent: "coalesce (take k xs) = Some sent" "delivered sent (take k xs)"
  proof (cases "take k xs = []")
    case True
    then show ?thesis using that [of "[]"] by (auto simp: coalesce_def delivered_def)
  next
    case False
    moreover have "\<forall>s \<in> set (take k xs). slot_ok s" using ok by (auto dest: in_set_takeD)
    ultimately obtain buf where "coalesce (take k xs) = Some [(INCREMENTAL_BATCH, buf)]"
        "carries buf (full_rels (take k xs)) (partial_rels (take k xs))"
      using coalesce_carries [OF _ len] by blast
    moreover from this(2) have "delivered [(INCREMENTAL_BATCH, buf)] (take k xs)"
      unfolding delivered_def by (intro exI [of _ "[take k xs]"]) simp
    ultimately show ?thesis using that by blast
  qed
  let ?t = "case inc of None \<Rightarrow> t1 | Some msg \<Rightarrow> handle_control msg t1"
  let ?hb = "if hb then [sendHeartbeat ?t] else []"
  have "delivered ?hb []" by (rule delivered_none) (simp add: sendHeartbeat_def msg_codes)
  with sent(2) have "delivered (sent @ ?hb) (take k xs)" using delivered_append by fastforce
  moreover have "tap_ring ?t = tap_ring t1" "batches_sent ?t = batches_sent t1" "dropped_batches ?t = dropped_batches t1"
    "coalesce_count ?t = coalesce_count t1"
    by (simp_all add: handle_control_ring split: option.split)
  moreover have "io_turn d inc hb t = Some (sent @ ?hb, Some ?t)"
    unfolding io_turn_def if_not_P [OF False] by (simp add: d(1) sent(1) Let_def)
  then have "tap_step (Turn d inc hb) t = Some (sent @ ?hb, ?t)" by simp
  ultimately show ?thesis using d(2-6) by metis
qed

lemma tap_invI:
  assumes "ring_holds kRingSize (tap_ring (run_tap r)) c xs" and "\<forall>s \<in> set xs. slot_ok s"
    and "run_accepted r = ys @ xs" and "delivered (run_sent r) ys"
    and "batches_sent (run_tap r) = of_nat (length (run_offered r))"
    and "batches_sent (run_tap r) = of_nat (length (run_accepted r)) + dropped_batches (run_tap r)"
  shows "tap_inv r"
  using assms unfolding tap_inv_def by blast

lemma run_event_inv:
  assumes inv: "tap_inv r" and ev: "event_ok e"
  shows "\<exists>r'. run_event e r = Some r' \<and> tap_inv r'"
proof -
  let ?t = "run_tap r"
  obtain c xs ys where h: "ring_holds kRingSize (tap_ring ?t) c xs" "\<forall>s \<in> set xs. slot_ok s"
      "run_accepted r = ys @ xs" "delivered (run_sent r) ys"
    and n: "batches_sent ?t = of_nat (length (run_offered r))"
      "batches_sent ?t = of_nat (length (run_accepted r)) + dropped_batches ?t"
    using inv by (auto simp: tap_inv_def)
  have quiet: ?thesis if "tap_step e ?t = Some ([], t')" "tap_ring t' = tap_ring ?t" "offers e ?t = []"
      "batches_sent t' = batches_sent ?t" "dropped_batches t' = dropped_batches ?t" for t'
    using that inv by (simp add: run_event_def tap_inv_def accepts_def) metis
  show ?thesis
  proof (cases e)
    case (Produce full partials i adv)
    show ?thesis
    proof (cases "stop_flag ?t")
      case True
      then show ?thesis using quiet [of ?t] Produce by (simp add: onBatchComplete_def offers_def)
    next
      case False
      define s where "s = \<lparr>ts_full = full, ts_partials = partials, ts_batch_index = i,
              ts_a_values = (if adv > 0 then adv else ucast (batch_a_values ?t))\<rparr>"
      have s: "slot_ok s" using ev Produce by (simp add: slot_ok_def s_def event_ok_def)
      have o: "offers e ?t = [s]" using False Produce by (simp add: offers_def s_def)
      obtain pu ring where pr: "tryPush kRingSize s (tap_ring ?t) = (pu, ring)" by fastforce
      note push = tryPush_holds [OF kRingSize_valid(1) h(1), of s]
      have t': "tap_step e ?t = Some ([], (if pu then ?t else ?t\<lparr>dropped_batches := dropped_batches ?t + 1\<rparr>)
          \<lparr>tap_ring := ring, batches_sent := batches_sent ?t + 1, range_a_consumed := range_a_consumed ?t + ts_a_values s\<rparr>)"
        using False Produce pr by (simp add: onBatchComplete_def s_def Let_def)
      let ?t' = "(if pu then ?t else ?t\<lparr>dropped_batches := dropped_batches ?t + 1\<rparr>)
          \<lparr>tap_ring := ring, batches_sent := batches_sent ?t + 1, range_a_consumed := range_a_consumed ?t + ts_a_values s\<rparr>"
      let ?r' = "\<lparr>run_tap = ?t', run_sent = run_sent r, run_offered = run_offered r @ [s],
        run_accepted = run_accepted r @ (if pu then [s] else [])\<rparr>"
      have "run_event e r = Some ?r'" using t' o pr by (simp add: run_event_def accepts_def)
      moreover have "tap_inv ?r'"
      proof (rule tap_invI)
        show "ring_holds kRingSize (tap_ring (run_tap ?r')) c (if pu then xs @ [s] else xs)" using push pr by simp
        show "\<forall>x \<in> set (if pu then xs @ [s] else xs). slot_ok x" using h(2) s by simp
        show "run_accepted ?r' = ys @ (if pu then xs @ [s] else xs)" using h(3) by simp
        show "delivered (run_sent ?r') ys" using h(4) by simp
        show "batches_sent (run_tap ?r') = of_nat (length (run_offered ?r'))" using n(1) by simp
        show "batches_sent (run_tap ?r') = of_nat (length (run_accepted ?r')) + dropped_batches (run_tap ?r')" using n(2) by simp
      qed
      ultimately show ?thesis by blast
    qed
  next
    case (Turn d inc hb)
    obtain k out t' c' where o: "tap_step e ?t = Some (out, t')" "delivered out (take k xs)"
        "ring_holds kRingSize (tap_ring t') c' (drop k xs)" "batches_sent t' = batches_sent ?t"
        "dropped_batches t' = dropped_batches ?t"
      using io_turn_delivers [OF h(1,2)] Turn by metis
    have "delivered (run_sent r @ out) (ys @ take k xs)" by (rule delivered_append [OF h(4) o(2)])
    moreover have "offers e ?t = []" "accepts e ?t = []" using Turn by (simp_all add: offers_def accepts_def)
    moreover have "\<forall>s \<in> set (drop k xs). slot_ok s" using h(2) by (auto dest: in_set_dropD)
    ultimately show ?thesis using o n h(3) Turn
      by (intro exI [of _ "\<lparr>run_tap = t', run_sent = run_sent r @ out, run_offered = run_offered r, run_accepted = run_accepted r\<rparr>"] conjI
          tap_invI [of _ c' "drop k xs" "ys @ take k xs"]) (simp_all add: run_event_def)
  next
    case (Set_range k cid av)
    show ?thesis by (rule quiet [of "setRange k cid av ?t"]) (simp_all add: Set_range offers_def setRange_def)
  next
    case Clear_recall
    show ?thesis by (rule quiet [of "clearRecall ?t"]) (simp_all add: Clear_recall offers_def clearRecall_def)
  next
    case Take_assign
    show ?thesis
      by (rule quiet [of "snd (tryTakeChunkAssign ?t)"]) (simp_all add: Take_assign offers_def tryTakeChunkAssign_def)
  next
    case Shutdown
    show ?thesis by (rule quiet [of "shutdown_tap ?t"]) (simp_all add: Shutdown offers_def shutdown_tap_def)
  qed
qed

definition fresh_run :: "u8 \<Rightarrow> u32 \<Rightarrow> tap_run" where
  "fresh_run self cc = (case AsyncNetworkDataTap self cc of (t, ms) \<Rightarrow>
     \<lparr>run_tap = t, run_sent = ms, run_offered = [], run_accepted = []\<rparr>)"

lemma fresh_run_inv: "tap_inv (fresh_run self cc)"
  using SPSCRing_holds [OF kRingSize_valid(1), of empty_slot]
  by (auto simp: tap_inv_def fresh_run_def AsyncNetworkDataTap_def Let_def sendHeartbeat_def msg_codes
      intro!: exI [of _ 0] exI [of _ "[]"] delivered_none)

lemma runs_inv:
  assumes "tap_inv r" and "\<forall>e \<in> set evs. event_ok e"
  shows "\<exists>r'. ofold run_event evs r = Some r' \<and> tap_inv r'"
  using assms
proof (induction evs arbitrary: r)
  case (Cons e evs)
  obtain r1 where "run_event e r = Some r1" "tap_inv r1" using run_event_inv [of r e] Cons.prems by auto
  then show ?case using Cons by auto
qed simp

text \<open>Turns of the I/O thread empty the ring.\<close>

lemma turns_drain:
  assumes "ring_holds kRingSize (tap_ring (run_tap r)) c xs" and "\<forall>s \<in> set xs. slot_ok s" and "run_accepted r = ys @ xs"
    and "delivered (run_sent r) ys" and "coalesce_count (run_tap r) > 0" and "length xs \<le> k"
  shows "\<exists>r'. ofold run_event (replicate k (Turn d None hb)) r = Some r' \<and> delivered (run_sent r') (run_accepted r')
    \<and> run_accepted r' = run_accepted r"
  using assms
proof (induction k arbitrary: r c xs ys)
  case 0
  then show ?case by simp
next
  case (Suc k)
  let ?j = "unat (coalesce_count (run_tap r))"
  obtain out t' c' where o: "tap_step (Turn d None hb) (run_tap r) = Some (out, t')" "delivered out (take ?j xs)"
      "ring_holds kRingSize (tap_ring t') c' (drop ?j xs)" "coalesce_count t' = coalesce_count (run_tap r)"
    using io_turn_delivers [OF Suc.prems(1,2), of d None hb] by blast
  let ?r = "\<lparr>run_tap = t', run_sent = run_sent r @ out, run_offered = run_offered r, run_accepted = run_accepted r\<rparr>"
  have ev: "run_event (Turn d None hb) r = Some ?r" using o(1) by (simp add: run_event_def offers_def accepts_def)
  have pos: "0 < ?j" using Suc.prems(5) by (simp add: word_less_nat_alt)
  have del: "delivered (run_sent ?r) (ys @ take ?j xs)" using delivered_append [OF Suc.prems(4) o(2)] by simp
  have sub: "\<forall>s \<in> set (drop ?j xs). slot_ok s" using Suc.prems(2) by (auto dest: in_set_dropD)
  have "length (drop ?j xs) \<le> k" using pos Suc.prems(6) by simp
  then obtain r' where "ofold run_event (replicate k (Turn d None hb)) ?r = Some r'" "delivered (run_sent r') (run_accepted r')"
      "run_accepted r' = run_accepted ?r"
    using Suc.IH [of ?r c' "drop ?j xs" "ys @ take ?j xs"] o(3,4) Suc.prems(3,5) del sub by auto
  then show ?case using ev by auto
qed

lemma coalesce_count_kept: "run_event e r = Some r' \<Longrightarrow> coalesce_count (run_tap r') = coalesce_count (run_tap r)"
proof -
  have "coalesce_count t' = coalesce_count t" if "io_turn d inc hb t = Some (out, Some t')" for d inc hb t out t'
    using that by (auto simp: io_turn_def drain_ring_def Let_def handle_control_ring split: if_splits prod.splits option.splits Option.bind_splits)
  then show "run_event e r = Some r' \<Longrightarrow> coalesce_count (run_tap r') = coalesce_count (run_tap r)"
    by (cases e) (auto simp: run_event_def onBatchComplete_def setRange_def clearRecall_def tryTakeChunkAssign_def
        shutdown_tap_def Let_def split: prod.splits option.splits)
qed

lemma coalesce_count_runs:
  "ofold run_event evs r = Some r' \<Longrightarrow> coalesce_count (run_tap r') = coalesce_count (run_tap r)"
  by (induction evs arbitrary: r) (auto split: option.splits dest: coalesce_count_kept)

lemma outlet_delivers:
  assumes "\<forall>e \<in> set evs. event_ok e" and "cc > 0"
  shows "\<exists>r. ofold run_event evs (fresh_run self cc) = Some r
    \<and> (\<exists>sent waiting. run_accepted r = sent @ waiting \<and> delivered (run_sent r) sent \<and> length waiting \<le> 31)
    \<and> batches_sent (run_tap r) = of_nat (length (run_offered r))
    \<and> dropped_batches (run_tap r) = of_nat (length (run_offered r)) - of_nat (length (run_accepted r))
    \<and> (\<exists>r'. ofold run_event (replicate 31 (Turn d None hb)) r = Some r' \<and> run_accepted r' = run_accepted r
        \<and> delivered (run_sent r') (run_accepted r'))"
proof -
  obtain r where r: "ofold run_event evs (fresh_run self cc) = Some r" "tap_inv r"
    using runs_inv [OF fresh_run_inv assms(1)] by blast
  then obtain c xs ys where h: "ring_holds kRingSize (tap_ring (run_tap r)) c xs" "\<forall>s \<in> set xs. slot_ok s"
      "run_accepted r = ys @ xs" "delivered (run_sent r) ys"
    and n: "batches_sent (run_tap r) = of_nat (length (run_offered r))"
      "batches_sent (run_tap r) = of_nat (length (run_accepted r)) + dropped_batches (run_tap r)"
    unfolding tap_inv_def by blast
  have len: "length xs \<le> 31" using h(1) kRingSize_valid(2) by (auto simp: ring_holds_def)
  have "coalesce_count (run_tap r) > 0"
    using coalesce_count_runs [OF r(1)] assms(2) by (simp add: fresh_run_def AsyncNetworkDataTap_def Let_def)
  note drain = turns_drain [OF h this len, of d hb]
  have "dropped_batches (run_tap r) = of_nat (length (run_offered r)) - of_nat (length (run_accepted r))"
    using n by (metis add_diff_cancel_left')
  then show ?thesis using r(1) h(3,4) n(1) len drain by blast
qed

text \<open>
  C25. The worker's outlet loses nothing it accepted. From start-up, whatever the sieve thread produces and
  however the turns of the I/O thread, control messages, range changes and shutdown are interleaved with it, no
  operation fails; the relation messages sent deliver, group by group and in order, the accepted batches up to at most 31
  that still wait; every batch offered is counted as sent, and exactly the ones the full ring turned away as dropped. Thirty-one more
  turns of the I/O thread deliver all of them.
\<close>

theorem tap_delivers:
  assumes "\<forall>e \<in> set evs. event_ok e" and "cc > 0"
  shows "\<exists>r. ofold run_event evs (fresh_run self cc) = Some r
    \<and> (\<exists>sent waiting. run_accepted r = sent @ waiting \<and> delivered (run_sent r) sent \<and> length waiting \<le> 31)
    \<and> batches_sent (run_tap r) = of_nat (length (run_offered r))
    \<and> dropped_batches (run_tap r) = of_nat (length (run_offered r)) - of_nat (length (run_accepted r))
    \<and> (\<exists>r'. ofold run_event (replicate 31 (Turn d None hb)) r = Some r' \<and> run_accepted r' = run_accepted r
        \<and> delivered (run_sent r') (run_accepted r'))"
  by (rule outlet_delivers [OF assms])

text \<open>Two batches, a turn, a third batch.\<close>

lemma sample_batch_step: "step_batch sample_batch" "step_batch empty_batch"
  using sample_batch_exact by (auto simp: step_batch_def sample_batch_def empty_batch_def)

theorem tap_delivers_witness:
  "\<exists>r. ofold run_event [Produce sample_batch empty_batch 0 4, Produce empty_batch sample_batch 1 4, Turn False None True,
      Produce sample_batch sample_batch 2 0] (fresh_run 3 8) = Some r
    \<and> batches_sent (run_tap r) = of_nat (length (run_offered r))"
proof -
  let ?evs = "[Produce sample_batch empty_batch 0 4, Produce empty_batch sample_batch 1 4, Turn False None True,
      Produce sample_batch sample_batch 2 0]"
  have "\<forall>e \<in> set ?evs. event_ok e" using sample_batch_step by (simp add: event_ok_def)
  then show ?thesis using tap_delivers [of ?evs 8 3] by auto
qed

end
