(* ===== verification/Direct_Channel.thy ===== *)
theory Direct_Channel
  imports Data_Tap
begin

text \<open>
  Queues that a consumer empties with \<^verbatim>\<open>tryPop\<close>: the interface as a locale, its loop
  \<^verbatim>\<open>while (tryPop(p))\<close>, and the two providers, the lock-free ring and the coordinator's direct channel.
  The payload structures of the control messages survive the wire.
\<close>

section \<open>The interface of a queue that is drained\<close>

text \<open>The loop ends when the queue is empty; the value \<open>None\<close> is a loop that never ends.\<close>

partial_function (option) pop_all :: "('s \<Rightarrow> 'x option \<times> 's) \<Rightarrow> 's \<Rightarrow> ('x list \<times> 's) option" where
  "pop_all pop s = (case pop s of
       (None, s') \<Rightarrow> Some ([], s')
     | (Some x, s') \<Rightarrow> Option.bind (pop_all pop s') (\<lambda>(xs, t). Some (x # xs, t)))"

locale pop_queue =
  fixes pop :: "'s \<Rightarrow> 'x option \<times> 's" and holds :: "'s \<Rightarrow> 'x list \<Rightarrow> bool"
  assumes pop_none: "holds s [] \<Longrightarrow> fst (pop s) = None \<and> holds (snd (pop s)) []"
    and pop_some: "holds s (x # xs) \<Longrightarrow> fst (pop s) = Some x \<and> holds (snd (pop s)) xs"
begin

lemma drains: "holds s xs \<Longrightarrow> \<exists>s'. pop_all pop s = Some (xs, s') \<and> holds s' []"
proof (induction xs arbitrary: s)
  case Nil
  obtain s' where "pop s = (None, s')" "holds s' []" using pop_none [OF Nil] by (metis prod.collapse)
  then show ?case by (subst pop_all.simps) simp
next
  case (Cons x xs)
  obtain s1 where s1: "pop s = (Some x, s1)" "holds s1 xs" using pop_some [OF Cons.prems] by (metis prod.collapse)
  obtain s' where "pop_all pop s1 = Some (xs, s')" "holds s' []" using Cons.IH [OF s1(2)] by blast
  then show ?case using s1(1) by (subst pop_all.simps) simp
qed

end

interpretation ring_queue: pop_queue "tryPop n mv" "\<lambda>r xs. valid_capacity n \<and> (\<exists>c. ring_holds n r c xs)" for n mv
proof
  show "fst (tryPop n mv r) = None \<and> (valid_capacity n \<and> (\<exists>c. ring_holds n (snd (tryPop n mv r)) c []))"
    if "valid_capacity n \<and> (\<exists>c. ring_holds n r c [])" for r
    using that tryPop_holds [of n r _ "[]" mv] by auto
  show "fst (tryPop n mv r) = Some x \<and> (valid_capacity n \<and> (\<exists>c. ring_holds n (snd (tryPop n mv r)) c xs))"
    if "valid_capacity n \<and> (\<exists>c. ring_holds n r c (x # xs))" for r x xs
    using that tryPop_holds [of n r _ "x # xs" mv] by auto
qed

section \<open>The direct channel\<close>

definition channel_holds :: "direct_channel \<Rightarrow> channel_payload list \<Rightarrow> bool" where
  "channel_holds c xs \<longleftrightarrow> 0 < ch_capacity c \<and> length (ch_buffer c) = ch_capacity c \<and> ch_count c = length xs
     \<and> length xs \<le> ch_capacity c \<and> ch_head c < ch_capacity c \<and> ch_tail c = (ch_head c + length xs) mod ch_capacity c
     \<and> (\<forall>i < length xs. ch_buffer c ! ((ch_head c + i) mod ch_capacity c) = xs ! i)"

lemma DirectChannel_holds: "0 < n \<Longrightarrow> channel_holds (DirectChannel n) []"
  by (simp add: channel_holds_def DirectChannel_def)

lemma channel_pop_holds:
  assumes h: "channel_holds c (x # xs)"
  shows "fst (channel_tryPop c) = Some x \<and> channel_holds (snd (channel_tryPop c)) xs"
proof -
  let ?n = "ch_capacity c" and ?h = "ch_head c"
  note H = h [unfolded channel_holds_def]
  have x: "ch_buffer c ! ?h = x" using H by force
  have ne: "?h \<noteq> (Suc ?h + i) mod ?n" if "i < length xs" for i
  proof -
    have "?h mod ?n \<noteq> (Suc ?h + i) mod ?n" using mod_eq_near [of ?h ?n "Suc ?h + i"] that H by auto
    then show ?thesis using H by simp
  qed
  have "ch_buffer c ! ((Suc ?h + i) mod ?n) = xs ! i" if "i < length xs" for i
    using H that by (metis Suc_less_eq add_Suc_shift length_Cons nth_Cons_Suc)
  then have "(ch_buffer c)[?h := y] ! ((Suc ?h + i) mod ?n) = xs ! i" if "i < length xs" for i y
    using that ne by simp
  moreover have "(Suc ?h mod ?n + i) mod ?n = (Suc ?h + i) mod ?n" for i by (rule mod_add_left_eq)
  ultimately show ?thesis
    using H x by (simp add: channel_tryPop_def channel_holds_def)
qed

interpretation channel_queue: pop_queue channel_tryPop channel_holds
proof
  show "fst (channel_tryPop c) = None \<and> channel_holds (snd (channel_tryPop c)) []" if "channel_holds c []" for c
    using that by (simp add: channel_tryPop_def channel_holds_def)
qed (rule channel_pop_holds)

lemma drop_oldest_holds:
  assumes h: "channel_holds c xs"
  shows "channel_holds (drop_oldest c) (if length xs = ch_capacity c then drop 1 xs else xs)"
proof (cases "length xs = ch_capacity c")
  case True
  then obtain x ys where xs: "xs = x # ys" using h by (cases xs) (auto simp: channel_holds_def)
  have "channel_holds (snd (channel_tryPop c)) ys" using channel_pop_holds [of c x ys] h xs by simp
  moreover have "channel_holds (drop_oldest c) ys"
  proof -
    let ?n = "ch_capacity c" and ?h = "ch_head c"
    note H = h [unfolded channel_holds_def xs]
    have "ch_buffer c ! ((Suc ?h + i) mod ?n) = ys ! i" if "i < length ys" for i
      using H that by (metis Suc_less_eq add_Suc_shift length_Cons nth_Cons_Suc)
    moreover have "(Suc ?h mod ?n + i) mod ?n = (Suc ?h + i) mod ?n" for i by (rule mod_add_left_eq)
    ultimately show ?thesis using H True xs by (simp add: drop_oldest_def channel_holds_def)
  qed
  ultimately show ?thesis using True xs by simp
next
  case False
  then show ?thesis using h by (simp add: drop_oldest_def channel_holds_def)
qed

lemma channel_push_holds:
  assumes h: "channel_holds c xs"
  shows "channel_holds (channel_push f p i a c)
    ((if length xs = ch_capacity c then drop 1 xs else xs) @ [\<lparr>cp_full = f, cp_partials = p, cp_batch_idx = i\<rparr>])"
proof -
  define ys where "ys = (if length xs = ch_capacity c then drop 1 xs else xs)"
  let ?c = "drop_oldest c" and ?x = "\<lparr>cp_full = f, cp_partials = p, cp_batch_idx = i\<rparr>"
  let ?n = "ch_capacity ?c" and ?h = "ch_head ?c"
  have H: "channel_holds ?c ys" unfolding ys_def by (rule drop_oldest_holds [OF h])
  note H = H [unfolded channel_holds_def]
  have cap: "?n = ch_capacity c" by (simp add: drop_oldest_def)
  have room: "length ys < ?n" using h cap by (auto simp: ys_def channel_holds_def)
  have ne: "(?h + i) mod ?n \<noteq> (?h + length ys) mod ?n" if "i < length ys" for i
    using mod_eq_near [of "?h + i" ?n "?h + length ys"] that room by auto
  have "(ch_buffer ?c)[(?h + length ys) mod ?n := ?x] ! ((?h + i) mod ?n) = (ys @ [?x]) ! i" if "i < Suc (length ys)" for i
  proof (cases "i = length ys")
    case True
    then show ?thesis using H by simp
  next
    case False
    then have "i < length ys" using that by simp
    then show ?thesis using H ne [of i] by (simp add: nth_append)
  qed
  then have "channel_holds (channel_push f p i a c) (ys @ [?x])"
    using H room by (simp add: channel_push_def channel_holds_def Let_def mod_Suc_eq)
  then show ?thesis by (simp only: ys_def)
qed

section \<open>Payloads on the wire\<close>

lemma of_le_to_le_same [simp]: "of_le (to_le 4 (w :: u32)) = w" "of_le (to_le 8 (v :: u64)) = v"
  by (rule of_le_to_le; simp)+

lemma read_chunk_assign_bytes [simp]:
  "read_chunk_assign (chunk_assign_bytes ca) = ca" "length (chunk_assign_bytes ca) = 24"
  by (simp_all add: read_chunk_assign_def chunk_assign_bytes_def slice_def drop_append take_append del: to_le.simps)

lemma read_chunk_complete_bytes [simp]:
  "read_chunk_complete (chunk_complete_bytes cc) = cc" "length (chunk_complete_bytes cc) = 32"
  by (simp_all add: read_chunk_complete_def chunk_complete_bytes_def slice_def drop_append take_append del: to_le.simps)

lemma length_heartbeat: "length (heartbeat_bytes w n) = 40"
  by (simp add: heartbeat_bytes_def del: to_le.simps)

text \<open>A recall whose payload is cut off reads as a recall of chunk 0.\<close>

lemma short_recall_hits_chunk_0:
  assumes "current_chunk_id t = 0"
  shows "recall_flag (handle_control \<lparr>sender_id = 0, msg_type = CHUNK_RECALL, payload = [], msg_valid = True\<rparr> t)"
  using assms by (simp add: handle_control_def msg_codes)

end
