(* ===== verification/Cpu_Lp.thy ===== *)
theory Cpu_Lp
  imports Accumulator Montgomery "HOL-Library.AList"
begin

text \<open>
  \<^verbatim>\<open>src/cluster/cpu_lp.h\<close> and \<^verbatim>\<open>src/cluster/cpu_lp.cu\<close>: the coordinator's table of partial relations with one
  large prime.  The second partial with the same large prime is combined with the stored one into
  a full relation, whose square root is a Montgomery product, and handed to the accumulator.  The hash
  table is an association list; reads outside an array are \<open>None\<close>.
\<close>

section \<open>Data\<close>

record partial_relation =
  p_sqrt_Q :: u512
  p_sign :: u8
  p_val_2_exp :: u32
  p_large_prime :: u128
  p_factor_indices :: "u32 list"
  p_factor_counts :: "u8 list"
  p_char_bits :: u32

record lp_table =
  lp_bound :: u64
  lp_mont :: montgomery
  lp_entries :: "(u64 \<times> partial_relation) list"
  total_inserts :: u64
  total_matches :: u64
  total_combines :: u64
  total_dup_dropped :: u64

text \<open>The limb array of a 512-bit number and back.\<close>

definition limbs :: "u512 \<Rightarrow> uint512" where
  "limbs w = map (\<lambda>i. ucast (drop_bit (32 * i) w)) [0..<16]"

definition of_limbs :: "uint512 \<Rightarrow> u512" where
  "of_limbs x = of_nat (lval x)"

definition CPULargePrimeTable :: "u64 \<Rightarrow> u512 \<Rightarrow> lp_table" where
  "CPULargePrimeTable bound n =
     \<lparr>lp_bound = bound, lp_mont = Montgomery (limbs n), lp_entries = [],
      total_inserts = 0, total_matches = 0, total_combines = 0, total_dup_dropped = 0\<rparr>"

definition witnesses :: "lp_table \<Rightarrow> nat" where
  "witnesses t = length (lp_entries t)"

section \<open>Operations\<close>

definition vec_range :: "u64 \<Rightarrow> u64 \<Rightarrow> 'a list \<Rightarrow> 'a list option" where
  "vec_range s e xs = (if unat s \<le> unat e \<and> unat e \<le> length xs then Some (slice (unat s) (unat e) xs) else None)"

definition extractPartial :: "batch \<Rightarrow> nat \<Rightarrow> partial_relation option" where
  "extractPartial b idx = do {
     q \<leftarrow> vec_at (sqrt_Q b) idx;
     sg \<leftarrow> vec_at (signs b) idx;
     v2 \<leftarrow> vec_at (val_2_exps b) idx;
     lp \<leftarrow> vec_at (large_primes b) idx;
     let cb = (if idx < length (char_bits b) then char_bits b ! idx else 0);
     fstart \<leftarrow> vec_at (factor_offsets b) idx;
     fend \<leftarrow> vec_at (factor_offsets b) (idx + 1);
     ixs \<leftarrow> vec_range fstart fend (factor_indices b);
     cts \<leftarrow> vec_range fstart fend (factor_counts b);
     Some \<lparr>p_sqrt_Q = q, p_sign = sg, p_val_2_exp = v2, p_large_prime = lp,
           p_factor_indices = ixs, p_factor_counts = cts, p_char_bits = cb\<rparr>
   }"

text \<open>The merge of two factor lists; exponents are added in 8 bits.\<close>

definition emit :: "u32 \<Rightarrow> u8 \<Rightarrow> (u32 list \<times> u8 list) option \<Rightarrow> (u32 list \<times> u8 list) option" where
  "emit i c = map_option (\<lambda>(is, cs). (i # is, c # cs))"

fun mergeFactors :: "u32 list \<Rightarrow> u8 list \<Rightarrow> u32 list \<Rightarrow> u8 list \<Rightarrow> (u32 list \<times> u8 list) option" where
  "mergeFactors (a # as) (c # cs) (b # bs) (d # ds) =
     (if a < b then emit a c (mergeFactors as cs (b # bs) (d # ds))
      else if a > b then emit b d (mergeFactors (a # as) (c # cs) bs ds)
      else emit a (c + d) (mergeFactors as cs bs ds))"
| "mergeFactors (a # as) (c # cs) [] ds = emit a c (mergeFactors as cs [] ds)"
| "mergeFactors [] cs (b # bs) (d # ds) = emit b d (mergeFactors [] cs bs ds)"
| "mergeFactors [] cs [] ds = Some ([], [])"
| "mergeFactors _ _ _ _ = None"

text \<open>\<open>Some None\<close> is the duplicate that is dropped.\<close>

definition combinePartials :: "montgomery \<Rightarrow> partial_relation \<Rightarrow> batch \<Rightarrow> nat \<Rightarrow> batch \<Rightarrow> batch option option" where
  "combinePartials mont stored b idx output = do {
     q \<leftarrow> vec_at (sqrt_Q b) idx;
     if p_sqrt_Q stored = q then Some None
     else do {
       let a_mont = transform mont (limbs (p_sqrt_Q stored));
       let b_mont = transform mont (limbs q);
       let combined_sqrt_Q = of_limbs (mont_reduce mont (mont_mul mont a_mont b_mont));
       sg \<leftarrow> vec_at (signs b) idx;
       let neg_a = (p_sign stored \<noteq> 1);
       let neg_b = (sg \<noteq> 1);
       let combined_sign = (if neg_a \<noteq> neg_b then 0xFF else 1 :: u8);
       v2 \<leftarrow> vec_at (val_2_exps b) idx;
       let combined_v2 = p_val_2_exp stored + v2;
       fstart \<leftarrow> vec_at (factor_offsets b) idx;
       fend \<leftarrow> vec_at (factor_offsets b) (idx + 1);
       b_indices \<leftarrow> vec_range fstart fend (factor_indices b);
       b_counts \<leftarrow> vec_range fstart fend (factor_counts b);
       (merged_indices, merged_counts) \<leftarrow>
         mergeFactors (p_factor_indices stored) (p_factor_counts stored) b_indices b_counts;
       let cb = p_char_bits stored XOR (if idx < length (char_bits b) then char_bits b ! idx else 0);
       let nf = num_factors output + of_nat (length merged_indices);
       Some (Some (output\<lparr>sqrt_Q := sqrt_Q output @ [combined_sqrt_Q],
         signs := signs output @ [combined_sign],
         val_2_exps := val_2_exps output @ [combined_v2],
         large_primes := large_primes output @ [p_large_prime stored],
         char_bits := char_bits output @ [cb],
         factor_indices := factor_indices output @ merged_indices,
         factor_counts := factor_counts output @ merged_counts,
         num_factors := nf, factor_offsets := factor_offsets output @ [nf],
         num_relations := num_relations output + 1\<rparr>))
     }
   }"

definition lp_step :: "batch \<Rightarrow> nat \<Rightarrow> lp_table \<times> batch \<Rightarrow> (lp_table \<times> batch) option" where
  "lp_step partials i st = (case st of (t, output) \<Rightarrow> do {
     lp \<leftarrow> vec_at (large_primes partials) i;
     let lp_key = (ucast lp :: u64);
     if lp_key = 0 \<or> lp_key = 1 then Some (t, output)
     else case map_of (lp_entries t) lp_key of
       Some stored \<Rightarrow> do {
         res \<leftarrow> combinePartials (lp_mont t) stored partials i output;
         let t = t\<lparr>total_matches := total_matches t + 1, lp_entries := AList.delete lp_key (lp_entries t)\<rparr>;
         (case res of
            None \<Rightarrow> Some (t\<lparr>total_dup_dropped := total_dup_dropped t + 1\<rparr>, output)
          | Some output' \<Rightarrow> Some (t\<lparr>total_combines := total_combines t + 1\<rparr>, output'))
       }
     | None \<Rightarrow> do {
         p \<leftarrow> extractPartial partials i;
         Some (t\<lparr>total_inserts := total_inserts t + 1, lp_entries := (lp_key, p) # lp_entries t\<rparr>, output)
       }
   })"

definition insertAndMatch :: "batch \<Rightarrow> lp_table \<times> accumulator \<Rightarrow> (lp_table \<times> accumulator) option" where
  "insertAndMatch partials st = (case st of (t, acc) \<Rightarrow>
     if num_relations partials = 0 then Some (t, acc)
     else do {
       (t', combined_output) \<leftarrow> ofold (lp_step partials) [0..<n_rels partials]
         (t, empty_batch\<lparr>factor_offsets := factor_offsets empty_batch @ [0]\<rparr>);
       if num_relations combined_output > 0
       then map_option (\<lambda>acc'. (t', acc')) (addLPRelations combined_output acc)
       else Some (t', acc)
     })"

section \<open>Abstract view\<close>

text \<open>A stored partial as a relation, and the merge on lists of pairs.\<close>

definition as_rel :: "partial_relation \<Rightarrow> relation" where
  "as_rel p = \<lparr>r_sqrt_Q = p_sqrt_Q p, r_sign = p_sign p, r_val_2_exp = p_val_2_exp p,
     r_large_prime = p_large_prime p, r_char_bits = p_char_bits p,
     r_factors = zip (p_factor_indices p) (p_factor_counts p)\<rparr>"

fun merge_pairs :: "(u32 \<times> u8) list \<Rightarrow> (u32 \<times> u8) list \<Rightarrow> (u32 \<times> u8) list" where
  "merge_pairs ((a, c) # fs) ((b, d) # gs) =
     (if a < b then (a, c) # merge_pairs fs ((b, d) # gs)
      else if a > b then (b, d) # merge_pairs ((a, c) # fs) gs
      else (a, c + d) # merge_pairs fs gs)"
| "merge_pairs fs [] = fs"
| "merge_pairs [] gs = gs"

definition combine_rel :: "montgomery \<Rightarrow> relation \<Rightarrow> relation \<Rightarrow> relation" where
  "combine_rel mont p r = \<lparr>
     r_sqrt_Q = of_limbs (mont_reduce mont (mont_mul mont (transform mont (limbs (r_sqrt_Q p))) (transform mont (limbs (r_sqrt_Q r))))),
     r_sign = (if (r_sign p \<noteq> 1) \<noteq> (r_sign r \<noteq> 1) then 0xFF else 1),
     r_val_2_exp = r_val_2_exp p + r_val_2_exp r,
     r_large_prime = r_large_prime p,
     r_char_bits = r_char_bits p XOR r_char_bits r,
     r_factors = merge_pairs (r_factors p) (r_factors r)\<rparr>"

text \<open>The matching as a function on relations: the partial that waits for its large prime, and the
  relations combined so far.\<close>

definition lp_key :: "relation \<Rightarrow> u64" where
  "lp_key r = ucast (r_large_prime r)"

definition match_one :: "montgomery \<Rightarrow> relation \<Rightarrow> (u64 \<rightharpoonup> relation) \<times> relation list \<Rightarrow> (u64 \<rightharpoonup> relation) \<times> relation list" where
  "match_one mont r st = (case st of (T, out) \<Rightarrow>
     if lp_key r = 0 \<or> lp_key r = 1 then st
     else case T (lp_key r) of
       None \<Rightarrow> (T(lp_key r \<mapsto> r), out)
     | Some p \<Rightarrow> (T(lp_key r := None), if r_sqrt_Q p = r_sqrt_Q r then out else out @ [combine_rel mont p r]))"

definition waiting :: "lp_table \<Rightarrow> u64 \<rightharpoonup> relation" where
  "waiting t k = map_option as_rel (map_of (lp_entries t) k)"

definition lp_wf :: "lp_table \<Rightarrow> bool" where
  "lp_wf t \<longleftrightarrow> distinct (map fst (lp_entries t)) \<and>
     list_all (\<lambda>(k, p). length (p_factor_indices p) = length (p_factor_counts p)) (lp_entries t) \<and>
     total_inserts t = total_matches t + of_nat (length (lp_entries t)) \<and>
     total_matches t = total_combines t + total_dup_dropped t"

lemma mergeFactors_rest:
  "mergeFactors (map fst fs) (map snd fs) [] ds = Some (map fst fs, map snd fs)"
  "mergeFactors [] cs (map fst gs) (map snd gs) = Some (map fst gs, map snd gs)"
proof -
  show "mergeFactors (map fst fs) (map snd fs) [] ds = Some (map fst fs, map snd fs)"
    by (induction fs) (auto simp: emit_def)
  show "mergeFactors [] cs (map fst gs) (map snd gs) = Some (map fst gs, map snd gs)"
    by (induction gs) (auto simp: emit_def)
qed

lemma mergeFactors_pairs:
  "mergeFactors (map fst fs) (map snd fs) (map fst gs) (map snd gs) =
   Some (map fst (merge_pairs fs gs), map snd (merge_pairs fs gs))"
proof (induction fs gs rule: merge_pairs.induct)
  case (3 v gs)
  then show ?case using mergeFactors_rest(2) [of "[]" "v # gs"] by simp
qed (auto simp: emit_def mergeFactors_rest)

lemma length_merge_pairs: "length (merge_pairs fs gs) \<le> length fs + length gs"
  by (induction fs gs rule: merge_pairs.induct) auto

section \<open>Refinement\<close>

lemma vec_range_row:
  assumes "offsets_ok b" and "i < n_rels b"
  shows "vec_range (factor_offsets b ! i) (factor_offsets b ! (i + 1)) (factor_indices b) = Some (map fst (row b i))"
    and "vec_range (factor_offsets b ! i) (factor_offsets b ! (i + 1)) (factor_counts b) = Some (map snd (row b i))"
  using offsets_okD [OF assms]
  by (simp_all add: vec_range_def row_def Let_def length_slice)

lemma readable:
  assumes "batch_ok b" and "i < n_rels b"
  shows "offsets_ok b" "vec_at (sqrt_Q b) i = Some (r_sqrt_Q (rel_at b i))" "vec_at (signs b) i = Some (r_sign (rel_at b i))"
    "vec_at (val_2_exps b) i = Some (r_val_2_exp (rel_at b i))" "vec_at (large_primes b) i = Some (r_large_prime (rel_at b i))"
    "vec_at (factor_offsets b) i = Some (factor_offsets b ! i)"
    "vec_at (factor_offsets b) (i + 1) = Some (factor_offsets b ! (i + 1))"
    "(if i < length (char_bits b) then char_bits b ! i else 0) = r_char_bits (rel_at b i)"
    "r_factors (rel_at b i) = row b i"
  using assms offsets_okD(1) [of b i] by (auto simp: batch_ok_def rel_at_def)

lemma extractPartial_eq:
  assumes "batch_ok b" and "i < n_rels b"
  obtains p where "extractPartial b i = Some p" "as_rel p = rel_at b i"
    "length (p_factor_indices p) = length (p_factor_counts p)"
proof -
  note rd = readable [OF assms]
  note rng = vec_range_row [OF rd(1) assms(2)]
  define r where "r = rel_at b i"
  define p where "p = \<lparr>p_sqrt_Q = r_sqrt_Q r, p_sign = r_sign r, p_val_2_exp = r_val_2_exp r, p_large_prime = r_large_prime r,
    p_factor_indices = map fst (r_factors r), p_factor_counts = map snd (r_factors r), p_char_bits = r_char_bits r\<rparr>"
  have "extractPartial b i = Some p"
    unfolding extractPartial_def rd(8) p_def r_def using rd(2-7,9) rng by (simp add: Let_def)
  moreover have "as_rel p = r" by (simp add: as_rel_def p_def zip_map_fst_snd)
  ultimately show thesis using that by (simp add: p_def r_def)
qed

lemma combinePartials_eq:
  assumes "batch_ok b" and "i < n_rels b" and "length (p_factor_indices p) = length (p_factor_counts p)"
  shows "combinePartials mont p b i output = Some (if p_sqrt_Q p = r_sqrt_Q (rel_at b i) then None
    else Some (push_relation output (combine_rel mont (as_rel p) (rel_at b i))))"
proof -
  note rd = readable [OF assms(1,2)]
  note rng = vec_range_row [OF rd(1) assms(2)]
  define fs where "fs = zip (p_factor_indices p) (p_factor_counts p)"
  have "p_factor_indices p = map fst fs" "p_factor_counts p = map snd fs" using assms(3) by (simp_all add: fs_def)
  then have mg: "mergeFactors (p_factor_indices p) (p_factor_counts p) (map fst (row b i)) (map snd (row b i)) =
      Some (map fst (merge_pairs fs (row b i)), map snd (merge_pairs fs (row b i)))"
    by (simp only: mergeFactors_pairs)
  show ?thesis
    unfolding combinePartials_def rd(8)
    using rd(2-7,9) rng mg
    by (simp add: Let_def push_relation_def combine_rel_def as_rel_def fs_def [symmetric] cong: if_cong)
qed

lemma delete_split:
  assumes "distinct (map fst es)" and "map_of es k = Some p"
  obtains xs ys where "es = xs @ (k, p) # ys" "AList.delete k es = xs @ ys"
proof -
  have "(k, p) \<in> set es" using assms(2) by (rule map_of_SomeD)
  then obtain xs ys where es: "es = xs @ (k, p) # ys" by (meson split_list)
  have nk: "k \<notin> fst ` set xs" "k \<notin> fst ` set ys" using assms(1) by (auto simp: es)
  have "filter (\<lambda>(k', _). k \<noteq> k') xs = xs" using nk(1) by (intro filter_True) force
  moreover have "filter (\<lambda>(k', _). k \<noteq> k') ys = ys" using nk(2) by (intro filter_True) force
  ultimately have "AList.delete k es = xs @ ys" by (simp add: AList.delete_eq es)
  then show thesis using es that by blast
qed

definition table_factors :: "lp_table \<Rightarrow> nat" where
  "table_factors t = (\<Sum>(k, p)\<leftarrow>lp_entries t. length (p_factor_indices p))"

definition lp_room :: "lp_table \<Rightarrow> batch \<Rightarrow> relation list \<Rightarrow> bool" where
  "lp_room t out rs \<longleftrightarrow> n_rels out + length rs < 2 ^ 64
     \<and> unat (num_factors out) + table_factors t + (\<Sum>r\<leftarrow>rs. length (r_factors r)) < 2 ^ 64"

text \<open>The factors stored in the table and in a list of relations.\<close>

definition load :: "lp_table \<Rightarrow> relation list \<Rightarrow> nat" where
  "load t rs = table_factors t + (\<Sum>r\<leftarrow>rs. length (r_factors r))"

lemma lp_step_refines:
  assumes "batch_ok b" and "i < n_rels b" and "lp_wf t" and "batch_exact out" and "lp_room t out (rel_at b i # rs)"
  obtains t' out' where "lp_step b i (t, out) = Some (t', out')" "lp_wf t'" "lp_mont t' = lp_mont t" "batch_exact out'"
    "(waiting t', rels out') = match_one (lp_mont t) (rel_at b i) (waiting t, rels out)" "lp_room t' out' rs"
    "load t' (rels out') \<le> load t (rels out) + length (r_factors (rel_at b i))" "length (rels out') \<le> Suc (length (rels out))"
proof -
  define r where "r = rel_at b i"
  have lp: "vec_at (large_primes b) i = Some (r_large_prime r)" using readable(5) [OF assms(1,2)] by (simp add: r_def)
  consider (skip) "lp_key r = 0 \<or> lp_key r = 1"
    | (fresh) "lp_key r \<noteq> 0" "lp_key r \<noteq> 1" "map_of (lp_entries t) (lp_key r) = None"
    | (hit) p where "lp_key r \<noteq> 0" "lp_key r \<noteq> 1" "map_of (lp_entries t) (lp_key r) = Some p" by fastforce
  then show thesis
  proof cases
    case skip
    have "lp_room t out rs" using assms(5) by (simp add: lp_room_def)
    then show thesis using skip lp assms(3,4) that [of t out]
      by (simp add: lp_step_def match_one_def lp_key_def r_def [symmetric])
  next
    case fresh
    obtain p where p: "extractPartial b i = Some p" "as_rel p = r" "length (p_factor_indices p) = length (p_factor_counts p)"
      using extractPartial_eq [OF assms(1,2)] by (auto simp: r_def)
    let ?t = "t\<lparr>total_inserts := total_inserts t + 1, lp_entries := (lp_key r, p) # lp_entries t\<rparr>"
    have "lp_step b i (t, out) = Some (?t, out)" using fresh lp p(1) by (simp add: lp_step_def lp_key_def)
    moreover have "lp_wf ?t" using assms(3) p(3) fresh(3) by (auto simp: lp_wf_def map_of_eq_None_iff)
    moreover have "(waiting ?t, rels out) = match_one (lp_mont t) r (waiting t, rels out)"
      using fresh p(2) by (auto simp: match_one_def waiting_def fun_eq_iff)
    moreover have len: "length (r_factors r) = length (p_factor_indices p)" using p(2,3) by (auto simp: as_rel_def)
    then have "lp_room ?t out rs" using assms(5) by (simp add: lp_room_def table_factors_def r_def [symmetric])
    moreover have "load ?t (rels out) = load t (rels out) + length (r_factors r)" using len by (simp add: load_def table_factors_def)
    ultimately show thesis using that [of ?t out] assms(4) by (simp add: r_def)
  next
    case hit
    have wf: "distinct (map fst (lp_entries t))" "length (p_factor_indices p) = length (p_factor_counts p)"
      using assms(3) map_of_SomeD [OF hit(3)] by (auto simp: lp_wf_def list_all_iff)
    obtain xs ys where es: "lp_entries t = xs @ (lp_key r, p) # ys" "AList.delete (lp_key r) (lp_entries t) = xs @ ys"
      using delete_split [OF wf(1) hit(3)] by blast
    have w: "waiting t (lp_key r) = Some (as_rel p)" using hit(3) by (simp add: waiting_def)
    have T': "waiting u = (waiting t)(lp_key r := None)" if "lp_entries u = xs @ ys" for u
      unfolding waiting_def that es(2) [symmetric] by (auto simp: delete_conv' fun_eq_iff)
    let ?t = "t\<lparr>total_matches := total_matches t + 1, lp_entries := xs @ ys\<rparr>"
    have fac: "table_factors t = table_factors ?t + length (p_factor_indices p)"
      by (simp add: table_factors_def es(1))
    have cnt: "of_nat (length (lp_entries t)) = (of_nat (length (xs @ ys)) + 1 :: u64)" by (simp add: es(1))
    have ws: "total_inserts t = total_matches t + 1 + of_nat (length (xs @ ys))"
      "total_matches t = total_combines t + total_dup_dropped t" "distinct (map fst (xs @ ys))"
      "list_all (\<lambda>(k, p). length (p_factor_indices p) = length (p_factor_counts p)) (xs @ ys)"
      using assms(3) unfolding lp_wf_def cnt by (auto simp: es(1))
    note comb = combinePartials_eq [OF assms(1,2) wf(2), of "lp_mont t" out, folded r_def]
    show thesis
    proof (cases "p_sqrt_Q p = r_sqrt_Q r")
      case True
      let ?u = "?t\<lparr>total_dup_dropped := total_dup_dropped t + 1\<rparr>"
      have "lp_step b i (t, out) = Some (?u, out)"
        using hit lp comb True es(2) by (simp add: lp_step_def lp_key_def)
      moreover have "lp_wf ?u" using ws by (simp add: lp_wf_def)
      moreover have "(waiting ?u, rels out) = match_one (lp_mont t) r (waiting t, rels out)"
        using hit True w T' [of ?u] by (simp add: match_one_def as_rel_def)
      moreover have "lp_room ?u out rs" using assms(5) fac by (simp add: lp_room_def table_factors_def)
      moreover have "load ?u (rels out) \<le> load t (rels out)" using fac by (simp add: load_def table_factors_def)
      ultimately show thesis using that [of ?u out] assms(4) by (simp add: r_def)
    next
      case False
      let ?u = "?t\<lparr>total_combines := total_combines t + 1\<rparr>" and ?c = "combine_rel (lp_mont t) (as_rel p) r"
      have len: "length (r_factors ?c) \<le> length (p_factor_indices p) + length (r_factors r)"
        using length_merge_pairs [of "r_factors (as_rel p)" "r_factors r"] wf(2) by (simp add: combine_rel_def as_rel_def)
      have room: "has_room out [?c]"
        using assms(5) fac len unfolding has_room_def lp_room_def r_def [symmetric] by simp
      note push = push_relation_exact [OF assms(4) room] and pc = push_relation_counters [OF room]
      have "lp_step b i (t, out) = Some (?u, push_relation out ?c)"
        using hit lp comb False es(2) by (simp add: lp_step_def lp_key_def)
      moreover have "lp_wf ?u" using ws by (simp add: lp_wf_def)
      moreover have "(waiting ?u, rels (push_relation out ?c)) = match_one (lp_mont t) r (waiting t, rels out)"
        using hit False w T' [of ?u] push(2) by (simp add: match_one_def as_rel_def)
      moreover have "lp_room ?u (push_relation out ?c) rs"
        using assms(5) fac len pc unfolding lp_room_def r_def [symmetric] by (simp add: table_factors_def)
      moreover have "load ?u (rels (push_relation out ?c)) \<le> load t (rels out) + length (r_factors r)"
        using fac len push(2) by (simp add: load_def table_factors_def)
      ultimately show thesis using that [of ?u "push_relation out ?c"] push pc(1) by (simp add: r_def)
    qed
  qed
qed

lemma lp_steps_refine:
  assumes "batch_ok b"
  shows "list_all (\<lambda>i. i < n_rels b) is \<Longrightarrow> lp_wf t \<Longrightarrow> batch_exact out \<Longrightarrow> lp_room t out (map (rel_at b) is) \<Longrightarrow>
    \<exists>t' out'. ofold (lp_step b) is (t, out) = Some (t', out') \<and> lp_wf t' \<and> lp_mont t' = lp_mont t \<and> batch_exact out' \<and>
      (waiting t', rels out') = fold (match_one (lp_mont t)) (map (rel_at b) is) (waiting t, rels out) \<and>
      load t' (rels out') \<le> load t (rels out) + (\<Sum>i\<leftarrow>is. length (r_factors (rel_at b i))) \<and>
      length (rels out') \<le> length (rels out) + length is"
proof (induction "is" arbitrary: t out)
  case Nil
  then show ?case by simp
next
  case (Cons i "is")
  have i: "i < n_rels b" "list_all (\<lambda>i. i < n_rels b) is" using Cons.prems(1) by simp_all
  have room: "lp_room t out (rel_at b i # map (rel_at b) is)" using Cons.prems(4) by simp
  obtain t1 out1 where s: "lp_step b i (t, out) = Some (t1, out1)" "lp_wf t1" "lp_mont t1 = lp_mont t" "batch_exact out1"
    "(waiting t1, rels out1) = match_one (lp_mont t) (rel_at b i) (waiting t, rels out)" "lp_room t1 out1 (map (rel_at b) is)"
    "load t1 (rels out1) \<le> load t (rels out) + length (r_factors (rel_at b i))" "length (rels out1) \<le> Suc (length (rels out))"
    using lp_step_refines [OF assms i(1) Cons.prems(2,3) room] by blast
  show ?case using Cons.IH [OF i(2) s(2,4,6)] s(1,3,5,7,8) by fastforce
qed

section \<open>Limb arrays\<close>

lemma lval_limbs: "length (limbs w) = 16" "lval (limbs w) = unat w"
proof -
  have "lval (map (\<lambda>i. ucast (drop_bit (32 * i) w) :: u32) [0..<n]) = unat w mod base ^ n" for n
  proof (induction n)
    case (Suc n)
    have d: "unat (ucast (drop_bit (32 * n) w) :: u32) = (unat w div base ^ n) mod base"
      using unat_drop_bit_eq [of "32 * n" w]
      by (simp only: unat_low32 drop_bit_eq_div) (simp add: base_def power_mult)
    have "unat w mod base ^ Suc n = unat w mod base ^ n + base ^ n * ((unat w div base ^ n) mod base)"
      using mod_mult2_eq [of "unat w" "base ^ n" base] by (simp add: mult.commute)
    then show ?case using Suc by (simp add: lval_append d)
  qed simp
  moreover have "unat w < 2 ^ LENGTH(512)" by (rule unsigned_less)
  ultimately show "lval (limbs w) = unat w" by (simp add: limbs_def base_def)
qed (simp add: limbs_def)

lemma of_limbs_val: "length x = 16 \<Longrightarrow> unat (of_limbs x) = lval x"
proof -
  assume "length x = 16"
  then have "lval x < 2 ^ 512" using limb_bound512 [of x] by (simp only: pow512)
  then show ?thesis by (simp add: of_limbs_def unat_of_nat take_bit_nat_eq_self)
qed

section \<open>What relations mean\<close>

text \<open>
  Over a factor base \<open>fb\<close> a relation states \<open>s\<^sup>2 \<equiv> \<plusminus> 2 ^ v * \<Prod> p\<^sup>c * L (mod N)\<close>, where \<open>L\<close> is the large
  prime of a partial and its square for a combined relation.
\<close>

definition factor_product :: "(u32 \<Rightarrow> int) \<Rightarrow> (u32 \<times> u8) list \<Rightarrow> int" where
  "factor_product fb fs = (\<Prod>(i, c)\<leftarrow>fs. fb i ^ unat c)"

definition smooth_part :: "(u32 \<Rightarrow> int) \<Rightarrow> relation \<Rightarrow> int" where
  "smooth_part fb r = (if r_sign r = 1 then 1 else - 1) * 2 ^ nat (sint (r_val_2_exp r)) * factor_product fb (r_factors r)"

definition congruent_square :: "nat \<Rightarrow> (u32 \<Rightarrow> int) \<Rightarrow> relation \<Rightarrow> int \<Rightarrow> bool" where
  "congruent_square N fb r L \<longleftrightarrow> (int (unat (r_sqrt_Q r)) * int (unat (r_sqrt_Q r))) mod int N = (smooth_part fb r * L) mod int N"

definition small_exponents :: "relation \<Rightarrow> bool" where
  "small_exponents r \<longleftrightarrow> list_all (\<lambda>(i, c). unat c < 128) (r_factors r) \<and> 0 \<le> sint (r_val_2_exp r) \<and> sint (r_val_2_exp r) < 2 ^ 30"

definition partial_ok :: "nat \<Rightarrow> (u32 \<Rightarrow> int) \<Rightarrow> relation \<Rightarrow> bool" where
  "partial_ok N fb r \<longleftrightarrow> congruent_square N fb r (int (unat (r_large_prime r))) \<and> small_exponents r \<and> unat (r_large_prime r) < 2 ^ 64"

definition full_ok :: "nat \<Rightarrow> (u32 \<Rightarrow> int) \<Rightarrow> relation \<Rightarrow> bool" where
  "full_ok N fb r \<longleftrightarrow> congruent_square N fb r (int (unat (r_large_prime r)) * int (unat (r_large_prime r)))"

lemma merge_pairs_product:
  "list_all (\<lambda>(i, c). unat c < 128) fs \<Longrightarrow> list_all (\<lambda>(i, c). unat c < 128) gs \<Longrightarrow>
   factor_product fb (merge_pairs fs gs) = factor_product fb fs * factor_product fb gs"
proof (induction fs gs rule: merge_pairs.induct)
  case (1 a c fs b d gs)
  have "unat (c + d) = unat c + unat d" if "\<not> a < b" "\<not> b < a"
    using "1.prems" by (intro unat_add_exact) simp
  then show ?case using 1 by (auto simp: factor_product_def power_add not_less)
qed (simp_all add: factor_product_def)

lemma combine_rel_ok:
  assumes "mont_ok mc" and "N = lval (mont_N mc)" and "partial_ok N fb p" "partial_ok N fb r" and "lp_key p = lp_key r"
  shows "full_ok N fb (combine_rel mc p r)"
proof -
  let ?c = "combine_rel mc p r"
  let ?s = "int (unat (r_sqrt_Q p))" and ?t = "int (unat (r_sqrt_Q r))"
  let ?L = "int (unat (r_large_prime p))"
  have lp: "r_large_prime p = r_large_prime r"
    using assms(3-5) by (auto simp: partial_ok_def lp_key_def word_unat_eq_iff unsigned_ucast_eq take_bit_nat_eq_self)
  note f = mont.mul_represents [OF transform_form [OF assms(1) lval_limbs(1)] transform_form [OF assms(1) lval_limbs(1)]]
  have "unat (r_sqrt_Q ?c) = (unat (r_sqrt_Q p) * unat (r_sqrt_Q r)) mod N"
    using mont_reduce_val [OF f [of "r_sqrt_Q p" "r_sqrt_Q r"]] assms(2)
    by (simp add: combine_rel_def of_limbs_val lval_limbs(2))
  then have sq: "int (unat (r_sqrt_Q ?c)) = (?s * ?t) mod int N" by (simp only: of_nat_mod of_nat_mult)
  have v: "sint (r_val_2_exp ?c) = sint (r_val_2_exp p) + sint (r_val_2_exp r)"
    using assms(3,4) by (simp add: combine_rel_def sint_word_add signed_take_bit_int_eq_self partial_ok_def small_exponents_def)
  have fac: "factor_product fb (r_factors ?c) = factor_product fb (r_factors p) * factor_product fb (r_factors r)"
    using assms(3,4) by (simp add: combine_rel_def merge_pairs_product partial_ok_def small_exponents_def)
  have sm: "smooth_part fb ?c = smooth_part fb p * smooth_part fb r"
    using assms(3,4) unfolding smooth_part_def v fac
    by (auto simp: combine_rel_def nat_add_distrib power_add partial_ok_def small_exponents_def)
  have "(int (unat (r_sqrt_Q ?c)) * int (unat (r_sqrt_Q ?c))) mod int N = ((?s * ?s) * (?t * ?t)) mod int N"
    unfolding sq by (simp only: mod_mult_eq ac_simps)
  also have "\<dots> = ((smooth_part fb p * ?L) * (smooth_part fb r * ?L)) mod int N"
  proof (rule mod_mult_cong)
    show "(?s * ?s) mod int N = (smooth_part fb p * ?L) mod int N" "(?t * ?t) mod int N = (smooth_part fb r * ?L) mod int N"
      using assms(3,4) unfolding partial_ok_def congruent_square_def lp by blast+
  qed
  also have "\<dots> = (smooth_part fb ?c * (?L * ?L)) mod int N" unfolding sm by (simp only: ac_simps)
  finally show ?thesis by (simp add: full_ok_def congruent_square_def combine_rel_def)
qed

text \<open>The matching only ever combines partials with equal large primes.\<close>

definition table_ok :: "nat \<Rightarrow> (u32 \<Rightarrow> int) \<Rightarrow> (u64 \<rightharpoonup> relation) \<Rightarrow> bool" where
  "table_ok N fb T \<longleftrightarrow> (\<forall>k p. T k = Some p \<longrightarrow> partial_ok N fb p \<and> lp_key p = k)"

lemma match_one_ok:
  assumes "mont_ok mc" and "N = lval (mont_N mc)" and "table_ok N fb T" and "list_all (full_ok N fb) out"
    and "lp_key r \<noteq> 0 \<and> lp_key r \<noteq> 1 \<longrightarrow> partial_ok N fb r"
  shows "table_ok N fb (fst (match_one mc r (T, out))) \<and> list_all (full_ok N fb) (snd (match_one mc r (T, out)))"
  using assms combine_rel_ok [OF assms(1,2), of fb _ r]
  by (auto simp: match_one_def table_ok_def split: option.splits)

lemma match_all_ok:
  assumes "mont_ok mc" and "N = lval (mont_N mc)"
  shows "table_ok N fb T \<Longrightarrow> list_all (full_ok N fb) out \<Longrightarrow>
    list_all (\<lambda>r. lp_key r \<noteq> 0 \<and> lp_key r \<noteq> 1 \<longrightarrow> partial_ok N fb r) rs \<Longrightarrow>
    table_ok N fb (fst (fold (match_one mc) rs (T, out))) \<and> list_all (full_ok N fb) (snd (fold (match_one mc) rs (T, out)))"
proof (induction rs arbitrary: T out)
  case (Cons r rs)
  obtain T1 out1 where s: "match_one mc r (T, out) = (T1, out1)" by fastforce
  then show ?case using match_one_ok [OF assms Cons.prems(1,2), of r] Cons.prems(3) Cons.IH [of T1 out1] by simp
qed simp

section \<open>The contract\<close>

text \<open>The combined relations a call hands over.\<close>

definition combined :: "lp_table \<Rightarrow> batch \<Rightarrow> relation list" where
  "combined t b = snd (fold (match_one (lp_mont t)) (rels b) (waiting t, []))"

lemma insertAndMatch_refines:
  assumes "lp_wf t" and "batch_ok b" and "table_factors t + (\<Sum>r\<leftarrow>rels b. length (r_factors r)) < 2 ^ 64"
  shows "\<exists>t'. insertAndMatch b (t, acc) = Some (t', fold (add_one 255) (combined t b) acc) \<and>
    lp_wf t' \<and> lp_mont t' = lp_mont t \<and> waiting t' = fst (fold (match_one (lp_mont t)) (rels b) (waiting t, [])) \<and>
    load t' (combined t b) \<le> table_factors t + (\<Sum>r\<leftarrow>rels b. length (r_factors r)) \<and>
    length (combined t b) \<le> length (rels b)"
proof -
  let ?e = "empty_batch\<lparr>factor_offsets := [0]\<rparr>"
  have e: "batch_exact ?e" "rels ?e = []" by (rule sentinel_batch_exact)+
  have all: "list_all (\<lambda>i. i < n_rels b) [0..<n_rels b]" by (simp add: list_all_iff)
  have "lp_room t ?e (map (rel_at b) [0..<n_rels b])"
    using assms(3) unsigned_less [of "num_relations b"] by (simp add: lp_room_def empty_batch_def rels_def)
  from lp_steps_refine [OF assms(2) all assms(1) e(1) this]
  obtain t' out where s: "ofold (lp_step b) [0..<n_rels b] (t, ?e) = Some (t', out)" "lp_wf t'" "lp_mont t' = lp_mont t"
    "batch_exact out" "(waiting t', rels out) = fold (match_one (lp_mont t)) (rels b) (waiting t, [])"
    "load t' (rels out) \<le> load t [] + (\<Sum>i\<leftarrow>[0..<n_rels b]. length (r_factors (rel_at b i)))"
    "length (rels out) \<le> n_rels b"
    unfolding e(2) rels_def [symmetric] by auto
  have w: "waiting t' = fst (fold (match_one (lp_mont t)) (rels b) (waiting t, []))" and c: "rels out = combined t b"
    by (simp_all add: combined_def flip: s(5))
  have ld: "load t' (combined t b) \<le> table_factors t + (\<Sum>r\<leftarrow>rels b. length (r_factors r))"
      "length (combined t b) \<le> length (rels b)"
    using s(6,7) unfolding c by (simp_all add: load_def rels_def [of b] comp_def)
  show ?thesis
  proof (cases "num_relations b = 0")
    case True
    then have "rels b = []" by (simp add: rels_def)
    then show ?thesis using True assms(1) ld by (simp add: insertAndMatch_def combined_def load_def)
  next
    case False
    show ?thesis
    proof (cases "num_relations out = 0")
      case True
      then have "combined t b = []" using c by (simp add: rels_def)
      then show ?thesis using True False s(1-3) w ld by (simp add: insertAndMatch_def empty_batch_def)
    next
      case nz: False
      have "batch_ok out" using s(4) by (rule batch_exact_ok)
      then have "addLPRelations out acc = Some (fold (add_one 255) (combined t b) acc)"
        using addRelations_fold [of out 255 acc] by (simp add: addLPRelations_def c)
      then show ?thesis using False nz s(1-3) w ld
        by (simp add: insertAndMatch_def empty_batch_def word_gt_0)
    qed
  qed
qed

text \<open>
  C23. The large-prime table: a call of \<open>insertAndMatch\<close> on a readable batch is total, implements the
  matching on relations (a partial waits for the next one with its large prime, which takes it out of
  the table and, unless both have the same square root, yields one combined relation), keeps the
  table well formed and its counters balanced, and hands the combined relations to the accumulator;
  and when every partial states a true congruence \<open>s\<^sup>2 \<equiv> \<plusminus> 2 ^ v * \<Prod> p\<^sup>c * L (mod N)\<close>, every combined
  relation states one with the square \<open>L\<^sup>2\<close>.
\<close>

theorem cpu_lp_sound:
  assumes "mont_ok (lp_mont t)" and "N = lval (mont_N (lp_mont t))" and "lp_wf t" and "table_ok N fb (waiting t)"
    and "batch_ok b" and "list_all (\<lambda>r. lp_key r \<noteq> 0 \<and> lp_key r \<noteq> 1 \<longrightarrow> partial_ok N fb r) (rels b)"
    and "table_factors t + (\<Sum>r\<leftarrow>rels b. length (r_factors r)) < 2 ^ 64"
    and "acc_inv acc" and "has_room (accumulated acc) (combined t b)"
  shows "\<exists>t' acc'. insertAndMatch b (t, acc) = Some (t', acc') \<and>
    lp_wf t' \<and> lp_mont t' = lp_mont t \<and> waiting t' = fst (fold (match_one (lp_mont t)) (rels b) (waiting t, [])) \<and>
    table_ok N fb (waiting t') \<and> list_all (full_ok N fb) (combined t b) \<and> acc_inv acc' \<and>
    rels (accumulated acc') = rels (accumulated acc) @ fresh (seen acc) (combined t b)"
proof -
  obtain t' where t': "insertAndMatch b (t, acc) = Some (t', fold (add_one 255) (combined t b) acc)" "lp_wf t'"
    "lp_mont t' = lp_mont t" "waiting t' = fst (fold (match_one (lp_mont t)) (rels b) (waiting t, []))"
    using insertAndMatch_refines [OF assms(3,5,7), of acc] by blast
  then show ?thesis
    using match_all_ok [OF assms(1,2,4), of "[]" "rels b"] assms(6) fold_add_one [OF assms(8,9), of 255]
    by (simp add: combined_def)
qed

text \<open>Exponents are added in eight bits: a sum of 256 or more wraps.\<close>

lemma mergeFactors_wraps: "mergeFactors [5] [200] [5] [100] = Some ([5], [44])"
  by (simp add: emit_def)

section \<open>Witness\<close>

text \<open>Modulo 101, with the factor base \<open>i \<mapsto> i\<close>: \<open>15\<^sup>2 = 225 \<equiv> 23\<close> and \<open>17\<^sup>2 = 289 \<equiv> - 2 * 7\<close>.\<close>

definition sample_partials :: batch where
  "sample_partials = \<lparr>sqrt_Q = [15, 3], signs = [1, 0xFF], val_2_exps = [0, 0], large_primes = [23, 23],
     char_bits = [1, 3], factor_offsets = [0, 0, 1], factor_indices = [5], factor_counts = [2],
     num_relations = 2, num_factors = 1\<rparr>"

lemma sample_partials_rels:
  "batch_ok sample_partials"
  "rels sample_partials =
    [\<lparr>r_sqrt_Q = 15, r_sign = 1, r_val_2_exp = 0, r_large_prime = 23, r_char_bits = 1, r_factors = []\<rparr>,
     \<lparr>r_sqrt_Q = 3, r_sign = 0xFF, r_val_2_exp = 0, r_large_prime = 23, r_char_bits = 3, r_factors = [(5, 2)]\<rparr>]"
  by (simp_all add: sample_partials_def batch_ok_def offsets_ok_def less_2_cases rels_def rel_at_def row_def slice_def upt_rec)

lemma sample_table:
  defines "t \<equiv> CPULargePrimeTable 1000 101"
  shows "mont_ok (lp_mont t)" "lval (mont_N (lp_mont t)) = 101" "lp_wf t" "waiting t = Map.empty" "table_factors t = 0"
proof -
  have n: "lval (limbs 101) = 101" using lval_limbs(2) [of 101] by simp
  then show "mont_ok (lp_mont t)"
    using Montgomery_ok [OF lval_limbs(1) [of 101]] by (simp add: t_def CPULargePrimeTable_def)
  show "lval (mont_N (lp_mont t)) = 101"
    using Montgomery_val(1) [OF lval_limbs(1) [of 101]] n by (simp add: t_def CPULargePrimeTable_def)
qed (simp_all add: assms CPULargePrimeTable_def lp_wf_def waiting_def fun_eq_iff table_factors_def)

theorem cpu_lp_sound_witness:
  "\<exists>t' acc' c. insertAndMatch sample_partials (CPULargePrimeTable 1000 101, sample_acc) = Some (t', acc') \<and>
    waiting t' = Map.empty \<and> combined (CPULargePrimeTable 1000 101) sample_partials = [c] \<and> full_ok 101 (\<lambda>_. 2) c \<and>
    r_factors c = [(5, 2)] \<and> r_char_bits c = 2"
proof -
  let ?t = "CPULargePrimeTable 1000 101"
  note t = sample_table
  have fold: "fold (match_one (lp_mont ?t)) (rels sample_partials) (waiting ?t, []) =
      (Map.empty, [combine_rel (lp_mont ?t) (rels sample_partials ! 0) (rels sample_partials ! 1)])"
    by (simp add: sample_partials_rels t(4) match_one_def lp_key_def)
  have ok: "list_all (\<lambda>r. lp_key r \<noteq> 0 \<and> lp_key r \<noteq> 1 \<longrightarrow> partial_ok 101 (\<lambda>_. 2) r) (rels sample_partials)"
    by (simp add: sample_partials_rels partial_ok_def congruent_square_def smooth_part_def factor_product_def small_exponents_def)
  have c: "combined ?t sample_partials =
      [combine_rel (lp_mont ?t) (rels sample_partials ! 0) (rels sample_partials ! 1)]"
    by (simp only: combined_def fold snd_conv)
  have room: "has_room (accumulated sample_acc) (combined ?t sample_partials)"
    unfolding c by (simp add: sample_partials_rels combine_rel_def has_room_def sample_acc_def
        RelationAccumulator_def empty_batch_def)
  have "table_ok 101 (\<lambda>_. 2) (waiting ?t)" by (simp add: t(4) table_ok_def)
  moreover have "table_factors ?t + (\<Sum>r\<leftarrow>rels sample_partials. length (r_factors r)) < 2 ^ 64"
    by (simp add: t(5) sample_partials_rels)
  moreover have "acc_inv sample_acc" by (simp add: sample_acc_def RelationAccumulator_inv)
  ultimately obtain t' acc' where "insertAndMatch sample_partials (?t, sample_acc) = Some (t', acc')"
    "waiting t' = Map.empty" "list_all (full_ok 101 (\<lambda>_. 2)) (combined ?t sample_partials)"
    using cpu_lp_sound [OF t(1) t(2) [symmetric] t(3) _ sample_partials_rels(1) ok _ _ room] unfolding fold fst_conv by blast
  then show ?thesis unfolding c by (simp add: combine_rel_def sample_partials_rels)
qed

end
