(* ===== verification/Relation_Flow.thy ===== *)
theory Relation_Flow
  imports Direct_Channel Cpu_Lp
begin

text \<open>
  The data path of the coordinator's network thread, \<^verbatim>\<open>MPQSOrchestrator::networkLoop\<close> in
  \<^verbatim>\<open>src/orchestrator/orchestrator.cpp\<close>: what it does with a message of relations from a worker,
  with a batch of its own sieve thread and with the state of a resumed run, and the composition of
  the worker's outlet, the messages and the coordinator. The telemetry counters are
  modelled, the clock readings are not.
\<close>

section \<open>Operations\<close>

record node_telemetry =
  nt_full :: u64
  nt_partial :: u64
  nt_lp_combined :: u64
  nt_chunks :: u32
  nt_a_values :: u64

definition no_telemetry :: node_telemetry where
  "no_telemetry = \<lparr>nt_full = 0, nt_partial = 0, nt_lp_combined = 0, nt_chunks = 0, nt_a_values = 0\<rparr>"

record coord_data =
  cd_acc :: accumulator
  cd_lp :: "lp_table option"
  cd_raw :: batch
  cd_tel :: "node_telemetry list"

text \<open>The copy of raw partials for the expanded matrix; the character bits are not copied.\<close>

definition buffer_partial :: "batch \<Rightarrow> nat \<Rightarrow> batch \<Rightarrow> batch option" where
  "buffer_partial b i raw = do {
     q \<leftarrow> vec_at (sqrt_Q b) i;
     sg \<leftarrow> vec_at (signs b) i;
     v2 \<leftarrow> vec_at (val_2_exps b) i;
     lp \<leftarrow> vec_at (large_primes b) i;
     fstart \<leftarrow> vec_at (factor_offsets b) i;
     fend \<leftarrow> vec_at (factor_offsets b) (i + 1);
     (ixs, cts) \<leftarrow> ofold (\<lambda>j (ixs, cts). do {
           ix \<leftarrow> vec_at (factor_indices b) j;
           ct \<leftarrow> vec_at (factor_counts b) j;
           Some (ixs @ [ix], cts @ [ct])
         }) [unat fstart..<unat fend] (factor_indices raw, factor_counts raw);
     let nf = num_factors raw + (fend - fstart);
     Some (raw\<lparr>sqrt_Q := sqrt_Q raw @ [q], signs := signs raw @ [sg], val_2_exps := val_2_exps raw @ [v2],
       large_primes := large_primes raw @ [lp], factor_indices := ixs, factor_counts := cts, num_factors := nf,
       factor_offsets := factor_offsets raw @ [nf], num_relations := num_relations raw + 1\<rparr>)
   }"

definition bufferClusterPartials :: "batch \<Rightarrow> batch \<Rightarrow> batch option" where
  "bufferClusterPartials partials raw =
     (if num_relations partials = 0 then Some raw else ofold (buffer_partial partials) [0..<n_rels partials] raw)"

definition fresh_raw :: batch where
  "fresh_raw = empty_batch\<lparr>factor_offsets := factor_offsets empty_batch @ [0]\<rparr>"

definition update_node :: "nat \<Rightarrow> (node_telemetry \<Rightarrow> node_telemetry) \<Rightarrow> node_telemetry list \<Rightarrow> node_telemetry list" where
  "update_node i f ts = (if i < length ts then ts[i := f (ts ! i)] else ts)"

text \<open>The steps on one pair of batches that messages and local payloads share.\<close>

definition ingest_full :: "batch \<Rightarrow> u8 \<Rightarrow> coord_data \<Rightarrow> coord_data option" where
  "ingest_full full sid st =
     (if num_relations full > 0
      then map_option (\<lambda>acc. st\<lparr>cd_acc := acc\<rparr>) (addRelations full sid (cd_acc st)) else Some st)"

definition ingest_partials :: "batch \<Rightarrow> coord_data \<Rightarrow> coord_data option" where
  "ingest_partials partials st =
     (case cd_lp st of
        None \<Rightarrow> Some st
      | Some lp \<Rightarrow>
          if num_relations partials > 0 then do {
            raw \<leftarrow> bufferClusterPartials partials (cd_raw st);
            let lp_before = relationsFrom 255 (cd_acc st);
            (lp', acc') \<leftarrow> insertAndMatch partials (lp, cd_acc st);
            Some (st\<lparr>cd_raw := raw, cd_lp := Some lp', cd_acc := acc',
              cd_tel := update_node 0 (\<lambda>t. t\<lparr>nt_lp_combined := nt_lp_combined t + (relationsFrom 255 acc' - lp_before)\<rparr>)
                          (cd_tel st)\<rparr>)
          } else Some st)"

definition processIncrementalBatch :: "recv_message \<Rightarrow> coord_data \<Rightarrow> coord_data option" where
  "processIncrementalBatch m st =
     (case deserializeIncrementalBatch (payload m) empty_batch empty_batch of
        (False, _, _) \<Rightarrow> Some st
      | (True, full_batch, partial_batch) \<Rightarrow> do {
          st \<leftarrow> ingest_full full_batch (sender_id m) st;
          st \<leftarrow> ingest_partials partial_batch st;
          Some (st\<lparr>cd_tel := update_node (unat (sender_id m))
            (\<lambda>t. t\<lparr>nt_full := nt_full t + num_relations full_batch,
                   nt_partial := nt_partial t + num_relations partial_batch\<rparr>) (cd_tel st)\<rparr>)
        })"

definition local_counts :: "channel_payload \<Rightarrow> coord_data \<Rightarrow> node_telemetry list" where
  "local_counts p st =
     (let tel = (if num_relations (cp_full p) > 0
           then update_node 0 (\<lambda>t. t\<lparr>nt_full := nt_full t + num_relations (cp_full p)\<rparr>) (cd_tel st) else cd_tel st)
      in if cd_lp st \<noteq> None \<and> num_relations (cp_partials p) > 0
         then update_node 0 (\<lambda>t. t\<lparr>nt_partial := nt_partial t + num_relations (cp_partials p)\<rparr>) tel else tel)"

definition process_payload :: "channel_payload \<Rightarrow> coord_data \<Rightarrow> coord_data option" where
  "process_payload p st = do {
     st \<leftarrow> ingest_full (cp_full p) 0 st;
     ingest_partials (cp_partials p) (st\<lparr>cd_tel := local_counts p st\<rparr>)
   }"

text \<open>The poll of the direct channel: its loop pops and processes until the channel is empty.\<close>

partial_function (option) poll_channel :: "direct_channel \<Rightarrow> coord_data \<Rightarrow> (direct_channel \<times> coord_data) option" where
  "poll_channel c st = (case channel_tryPop c of
       (None, c') \<Rightarrow> Some (c', st)
     | (Some p, c') \<Rightarrow> Option.bind (process_payload p st) (poll_channel c'))"

text \<open>Re-injection of a loaded checkpoint before anything else is processed.\<close>

definition resume_reinject :: "batch \<Rightarrow> batch \<Rightarrow> coord_data \<Rightarrow> coord_data option" where
  "resume_reinject smooths partials st = do {
     acc \<leftarrow> addRelations smooths 0 (cd_acc st);
     (lp, acc) \<leftarrow> (case cd_lp st of None \<Rightarrow> Some (None, acc)
        | Some t \<Rightarrow> map_option (\<lambda>(t', acc'). (Some t', acc')) (insertAndMatch partials (t, acc)));
     raw \<leftarrow> bufferClusterPartials partials (cd_raw st);
     Some (st\<lparr>cd_acc := acc, cd_lp := lp, cd_raw := raw\<rparr>)
   }"

section \<open>Raw partials\<close>

definition strip_char :: "relation \<Rightarrow> relation" where
  "strip_char r = r\<lparr>r_char_bits := 0\<rparr>"

definition push_raw :: "relation \<Rightarrow> batch \<Rightarrow> batch" where
  "push_raw r raw = (push_relation raw r)\<lparr>char_bits := char_bits raw\<rparr>"

text \<open>A raw buffer, with the character bits it never gets filled in as zeros.\<close>

definition zero_chars :: "batch \<Rightarrow> batch" where
  "zero_chars raw = raw\<lparr>char_bits := replicate (n_rels raw) 0\<rparr>"

definition raw_ok :: "batch \<Rightarrow> bool" where
  "raw_ok raw \<longleftrightarrow> char_bits raw = [] \<and> batch_exact (zero_chars raw)"

lemma zero_chars_sel [simp]:
  "num_relations (zero_chars raw) = num_relations raw" "num_factors (zero_chars raw) = num_factors raw"
  by (simp_all add: zero_chars_def)

lemma rels_zero_chars: "char_bits raw = [] \<Longrightarrow> rels (zero_chars raw) = rels raw"
  by (simp add: rels_def rel_at_def row_def zero_chars_def)

lemma buffer_partial_eq:
  assumes "batch_ok b" and "i < n_rels b"
  shows "buffer_partial b i raw = Some (push_raw (rel_at b i) raw)"
proof -
  have "buffer_partial b i raw = map_option (\<lambda>d. d\<lparr>char_bits := char_bits raw\<rparr>) (appendSingleRelation raw b i)"
    by (simp add: buffer_partial_def appendSingleRelation_def Let_def map_option_bind comp_def split: prod.split cong: option.case_cong)
       (auto simp: Option.bind_eq_None_conv split: option.split intro!: Option.bind_cong)
  then show ?thesis by (simp add: appendSingleRelation_eq [OF assms] push_raw_def)
qed

lemma bufferClusterPartials_eq:
  assumes "batch_ok b"
  shows "bufferClusterPartials b raw = Some (fold push_raw (rels b) raw)"
proof -
  have "ofold (buffer_partial b) [0..<n_rels b] raw = Some (fold (\<lambda>i. push_raw (rel_at b i)) [0..<n_rels b] raw)"
    by (rule ofold_Some_fold) (simp add: buffer_partial_eq [OF assms])
  then show ?thesis by (simp add: bufferClusterPartials_def rels_def fold_map comp_def)
qed

lemma push_raw_view:
  assumes ok: "raw_ok raw" and room: "has_room raw (r # rs)"
  shows "raw_ok (push_raw r raw)" "rels (push_raw r raw) = rels raw @ [strip_char r]" "has_room (push_raw r raw) rs"
proof -
  have room': "has_room (zero_chars raw) (strip_char r # rs)" using room by (simp add: has_room_def strip_char_def)
  have n: "n_rels (push_raw r raw) = Suc (n_rels raw)"
    using push_relation_counters(1) [OF room] by (simp add: push_raw_def)
  have z: "zero_chars (push_raw r raw) = push_relation (zero_chars raw) (strip_char r)"
    using n by (simp add: zero_chars_def push_raw_def push_relation_def strip_char_def replicate_append_same)
  have ex: "batch_exact (zero_chars raw)" and no: "char_bits raw = []" using ok by (simp_all add: raw_ok_def)
  note push = push_relation_exact [OF ex room'] has_room_push [OF room']
  have no': "char_bits (push_raw r raw) = []" using no by (simp add: push_raw_def)
  show "raw_ok (push_raw r raw)" using push(1) no' by (simp add: raw_ok_def z)
  show "rels (push_raw r raw) = rels raw @ [strip_char r]"
    using push(2) rels_zero_chars [OF no] rels_zero_chars [OF no'] by (simp add: z)
  show "has_room (push_raw r raw) rs"
    using push(3) z zero_chars_sel [of "push_raw r raw"] by (simp add: has_room_def)
qed

lemma push_raws_view:
  "raw_ok raw \<Longrightarrow> has_room raw (rs @ ss) \<Longrightarrow> raw_ok (fold push_raw rs raw) \<and>
     rels (fold push_raw rs raw) = rels raw @ map strip_char rs \<and> has_room (fold push_raw rs raw) ss"
proof (induction rs arbitrary: raw)
  case (Cons r rs)
  then show ?case using push_raw_view [of raw r "rs @ ss"] by simp
qed simp

lemma fresh_raw_ok: "raw_ok fresh_raw" "rels fresh_raw = []"
  using sentinel_batch_exact by (simp_all add: raw_ok_def fresh_raw_def zero_chars_def empty_batch_def)

text \<open>The buffered partials carry no character bits, whatever the partials carried.\<close>

lemma buffered_char_bits_lost:
  assumes "raw_ok raw" and "has_room raw (rels b)" and "batch_ok b" and "bufferClusterPartials b raw = Some raw'"
  shows "char_bits raw' = []" and "drop (n_rels raw) (rels raw') = map strip_char (rels b)"
  using push_raws_view [OF assms(1), of "rels b" "[]"] assms(2-4) by (auto simp: bufferClusterPartials_eq raw_ok_def)

section \<open>Growth of the accumulator\<close>

definition weight :: "relation list \<Rightarrow> nat" where
  "weight rs = (\<Sum>r\<leftarrow>rs. length (r_factors r))"

lemma weight_simps [simp]: "weight [] = 0" "weight (r # rs) = length (r_factors r) + weight rs" "weight (rs @ ss) = weight rs + weight ss"
  by (simp_all add: weight_def)

lemma has_room_weight:
  "has_room b rs \<longleftrightarrow> n_rels b + length rs < 2 ^ 64 \<and> unat (num_factors b) + weight rs < 2 ^ 64"
  by (simp add: has_room_def weight_def)

lemma add_growth:
  "acc_inv a \<Longrightarrow> has_room (accumulated a) rs \<Longrightarrow>
     n_rels (accumulated (fold (add_one sid) rs a)) \<le> n_rels (accumulated a) + length rs \<and>
     unat (num_factors (accumulated (fold (add_one sid) rs a))) \<le> unat (num_factors (accumulated a)) + weight rs"
proof (induction rs arbitrary: a)
  case (Cons r rs)
  have "n_rels (accumulated (add_one sid r a)) \<le> Suc (n_rels (accumulated a)) \<and>
      unat (num_factors (accumulated (add_one sid r a))) \<le> unat (num_factors (accumulated a)) + length (r_factors r)"
    using push_relation_counters [OF Cons.prems(2)] by (simp add: add_one_def)
  then show ?case using Cons.IH [OF add_one_inv(1,3) [OF Cons.prems, of sid]] by fastforce
qed simp

lemma seen_add:
  assumes "acc_inv a" and "has_room (accumulated a) rs"
  shows "seen (fold (add_one sid) rs a) = seen a \<union> relation_hash ` set rs"
proof -
  note f = fold_add_one [OF assms, of sid]
  have "seen (fold (add_one sid) rs a) = relation_hash ` set (rels (accumulated a) @ fresh (seen a) rs)"
    using f by (simp add: acc_inv_def)
  also have "\<dots> = seen a \<union> relation_hash ` set (fresh (seen a) rs)" using assms(1) by (simp add: acc_inv_def image_Un)
  finally show ?thesis by (simp only: hashes_fresh)
qed

section \<open>One message\<close>

text \<open>The partials combined with a table that is the function of the large prime \<open>T\<close>.\<close>

definition combos :: "montgomery \<Rightarrow> (u64 \<rightharpoonup> relation) \<Rightarrow> relation list \<Rightarrow> relation list" where
  "combos mc T ps = snd (fold (match_one mc) ps (T, []))"

definition table_after :: "montgomery \<Rightarrow> (u64 \<rightharpoonup> relation) \<Rightarrow> relation list \<Rightarrow> (u64 \<rightharpoonup> relation)" where
  "table_after mc T ps = fst (fold (match_one mc) ps (T, []))"

lemma match_prefix: "fold (match_one mc) ps (T, out @ xs) = (case fold (match_one mc) ps (T, xs) of (T', ys) \<Rightarrow> (T', out @ ys))"
proof (induction ps arbitrary: T xs)
  case (Cons p ps)
  obtain T1 ys where "match_one mc p (T, xs) = (T1, ys)" by fastforce
  then have "match_one mc p (T, out @ xs) = (T1, out @ ys)"
    by (auto simp: match_one_def split: if_splits option.splits)
  then show ?case using Cons \<open>match_one mc p (T, xs) = (T1, ys)\<close> by simp
qed simp

lemma combos_append:
  "combos mc T (ps @ qs) = combos mc T ps @ combos mc (table_after mc T ps) qs"
  "table_after mc T (ps @ qs) = table_after mc (table_after mc T ps) qs"
proof -
  obtain T1 xs where "fold (match_one mc) ps (T, []) = (T1, xs)" by fastforce
  then show "combos mc T (ps @ qs) = combos mc T ps @ combos mc (table_after mc T ps) qs"
      "table_after mc T (ps @ qs) = table_after mc (table_after mc T ps) qs"
    using match_prefix [of mc qs T1 xs "[]"] by (simp_all add: combos_def table_after_def split: prod.split)
qed

definition table_of :: "coord_data \<Rightarrow> lp_table" where
  "table_of st = (case cd_lp st of Some t \<Rightarrow> t | None \<Rightarrow> undefined)"

definition data_inv :: "coord_data \<Rightarrow> bool" where
  "data_inv st \<longleftrightarrow> acc_inv (cd_acc st) \<and> raw_ok (cd_raw st) \<and> cd_lp st \<noteq> None \<and> lp_wf (table_of st)"

text \<open>Index space for full relations \<open>fs\<close> and partials \<open>ps\<close> that are still to come.\<close>

definition budget :: "coord_data \<Rightarrow> relation list \<Rightarrow> relation list \<Rightarrow> bool" where
  "budget st fs ps \<longleftrightarrow> n_rels (accumulated (cd_acc st)) + length fs + length ps < 2 ^ 64
     \<and> unat (num_factors (accumulated (cd_acc st))) + table_factors (table_of st) + weight fs + weight ps < 2 ^ 64
     \<and> has_room (cd_raw st) ps"

lemma ingest_full_eq: "batch_ok b \<Longrightarrow> ingest_full b sid st = Some (st\<lparr>cd_acc := fold (add_one sid) (rels b) (cd_acc st)\<rparr>)"
  by (cases "num_relations b = 0") (auto simp: ingest_full_def addRelations_fold rels_none word_gt_0)

lemma ingest_partials_eq:
  assumes "cd_lp st = Some t" and "lp_wf t" and "batch_ok b" and "table_factors t + weight (rels b) < 2 ^ 64"
  defines "cs \<equiv> combos (lp_mont t) (waiting t) (rels b)"
  shows "\<exists>t' tel. ingest_partials b st = Some (st\<lparr>cd_acc := fold (add_one 255) cs (cd_acc st), cd_lp := Some t',
      cd_raw := fold push_raw (rels b) (cd_raw st), cd_tel := tel\<rparr>) \<and> length tel = length (cd_tel st) \<and>
    lp_wf t' \<and> lp_mont t' = lp_mont t \<and> waiting t' = table_after (lp_mont t) (waiting t) (rels b) \<and>
    table_factors t' + weight cs \<le> table_factors t + weight (rels b) \<and> length cs \<le> length (rels b)"
proof (cases "num_relations b = 0")
  case True
  then have "rels b = []" by (rule rels_none)
  then show ?thesis using True assms(1,2)
    by (intro exI [of _ t] exI [of _ "cd_tel st"]) (auto simp: ingest_partials_def cs_def combos_def table_after_def)
next
  case False
  have cs: "cs = combined t b" by (simp add: cs_def combos_def combined_def)
  obtain t' where "insertAndMatch b (t, cd_acc st) = Some (t', fold (add_one 255) cs (cd_acc st))" "lp_wf t'"
      "lp_mont t' = lp_mont t" "waiting t' = table_after (lp_mont t) (waiting t) (rels b)"
      "load t' cs \<le> table_factors t + weight (rels b)" "length cs \<le> length (rels b)"
    using insertAndMatch_refines [OF assms(2,3), of "cd_acc st"] assms(4) by (auto simp: weight_def table_after_def cs)
  note m = this
  let ?acc = "fold (add_one 255) cs (cd_acc st)"
  let ?tel = "update_node 0 (\<lambda>t. t\<lparr>nt_lp_combined := nt_lp_combined t + (relationsFrom 255 ?acc - relationsFrom 255 (cd_acc st))\<rparr>) (cd_tel st)"
  have "ingest_partials b st = Some (st\<lparr>cd_acc := ?acc, cd_lp := Some t', cd_raw := fold push_raw (rels b) (cd_raw st), cd_tel := ?tel\<rparr>)"
    using False assms(1) m(1) by (simp add: ingest_partials_def bufferClusterPartials_eq [OF assms(3)] word_gt_0)
  moreover have "length ?tel = length (cd_tel st)" by (simp add: update_node_def)
  moreover have "table_factors t' + weight cs \<le> table_factors t + weight (rels b)" using m(5) by (simp add: load_def weight_def)
  ultimately show ?thesis using m(2-4,6) by blast
qed

text \<open>What a coordinator has taken in: the full relations \<open>fs\<close> and the partials \<open>ps\<close>.\<close>

definition took_in :: "coord_data \<Rightarrow> coord_data \<Rightarrow> relation list \<Rightarrow> relation list \<Rightarrow> bool" where
  "took_in st st' fs ps \<longleftrightarrow> data_inv st' \<and>
     lp_mont (table_of st') = lp_mont (table_of st) \<and>
     waiting (table_of st') = table_after (lp_mont (table_of st)) (waiting (table_of st)) ps \<and>
     rels (cd_raw st') = rels (cd_raw st) @ map strip_char ps \<and>
     relation_hash ` set (rels (accumulated (cd_acc st'))) = relation_hash ` (set (rels (accumulated (cd_acc st))) \<union> set fs \<union>
       set (combos (lp_mont (table_of st)) (waiting (table_of st)) ps))"

lemma took_in_trans:
  "took_in a b fs ps \<Longrightarrow> took_in b c gs qs \<Longrightarrow> took_in a c (fs @ gs) (ps @ qs)"
  unfolding took_in_def by (auto simp: combos_append image_Un)

lemma took_in_refl: "data_inv st \<Longrightarrow> took_in st st [] []"
  by (simp add: took_in_def table_after_def combos_def)

lemma ingest_takes_in:
  assumes inv: "data_inv st" and room: "budget st (rels f @ fs) (rels p @ ps)" and ok: "batch_ok f" "batch_ok p"
  shows "\<exists>st1 st2. ingest_full f sid st = Some st1 \<and> ingest_partials p st1 = Some st2 \<and>
    took_in st st2 (rels f) (rels p) \<and> budget st2 fs ps \<and> length (cd_tel st2) = length (cd_tel st) \<and>
    cd_lp st1 = cd_lp st \<and> cd_tel st1 = cd_tel st"
proof -
  let ?a = "cd_acc st" and ?t = "table_of st"
  define cs where "cs = combos (lp_mont ?t) (waiting ?t) (rels p)"
  have t: "cd_lp st = Some ?t" using inv by (auto simp: data_inv_def table_of_def)
  let ?st1 = "st\<lparr>cd_acc := fold (add_one sid) (rels f) ?a\<rparr>" and ?a1 = "fold (add_one sid) (rels f) ?a"
  have acc: "acc_inv ?a" "raw_ok (cd_raw st)" "lp_wf ?t" using inv by (simp_all add: data_inv_def)
  have room1: "has_room (accumulated ?a) (rels f)" using room by (simp add: budget_def has_room_weight)
  note a1 = fold_add_one [OF acc(1) room1, of sid] and g1 = add_growth [OF acc(1) room1, of sid]
  have "table_factors ?t + weight (rels p) < 2 ^ 64" using room by (simp add: budget_def)
  then obtain t' tel where p: "ingest_partials p ?st1 = Some (?st1\<lparr>cd_acc := fold (add_one 255) cs ?a1, cd_lp := Some t',
      cd_raw := fold push_raw (rels p) (cd_raw st), cd_tel := tel\<rparr>)" "length tel = length (cd_tel st)" "lp_wf t'"
      "lp_mont t' = lp_mont ?t" "waiting t' = table_after (lp_mont ?t) (waiting ?t) (rels p)"
      "table_factors t' + weight cs \<le> table_factors ?t + weight (rels p)" "length cs \<le> length (rels p)"
    using ingest_partials_eq [of ?st1 ?t p] t acc(3) ok(2) unfolding cs_def by auto
  let ?st2 = "?st1\<lparr>cd_acc := fold (add_one 255) cs ?a1, cd_lp := Some t', cd_raw := fold push_raw (rels p) (cd_raw st), cd_tel := tel\<rparr>"
  have room2: "has_room (accumulated ?a1) cs" using room g1 p(6,7) by (simp add: budget_def has_room_weight)
  have acc1: "acc_inv ?a1" using a1 by simp
  note a2 = fold_add_one [OF acc1 room2, of 255] and g2 = add_growth [OF acc1 room2, of 255]
  have raw: "raw_ok (fold push_raw (rels p) (cd_raw st))" "has_room (fold push_raw (rels p) (cd_raw st)) ps"
      "rels (fold push_raw (rels p) (cd_raw st)) = rels (cd_raw st) @ map strip_char (rels p)"
    using push_raws_view [OF acc(2), of "rels p" ps] room by (simp_all add: budget_def)
  have acc2: "acc_inv (fold (add_one 255) cs ?a1)" using a2 by simp
  then have "relation_hash ` set (rels (accumulated (fold (add_one 255) cs ?a1))) = seen (fold (add_one 255) cs ?a1)"
    by (simp add: acc_inv_def)
  also have "\<dots> = seen ?a \<union> relation_hash ` set (rels f) \<union> relation_hash ` set cs"
    by (simp only: seen_add [OF acc1 room2] seen_add [OF acc(1) room1])
  also have "seen ?a = relation_hash ` set (rels (accumulated ?a))" using acc(1) by (simp add: acc_inv_def)
  finally have hashes: "relation_hash ` set (rels (accumulated (fold (add_one 255) cs ?a1)))
      = relation_hash ` set (rels (accumulated ?a)) \<union> relation_hash ` set (rels f) \<union> relation_hash ` set cs" .
  have "took_in st ?st2 (rels f) (rels p)"
    using acc2 raw p(3-5) hashes unfolding took_in_def data_inv_def cs_def by (simp add: table_of_def image_Un)
  moreover have "budget ?st2 fs ps"
    using room g1 g2 p(6,7) raw(2) by (simp add: budget_def table_of_def)
  moreover have "ingest_full f sid st = Some ?st1" by (rule ingest_full_eq [OF ok(1)])
  ultimately show ?thesis using p(1,2) by auto
qed

lemma telemetry_irrelevant [simp]:
  "took_in a (b\<lparr>cd_tel := x\<rparr>) fs ps = took_in a b fs ps" "budget (b\<lparr>cd_tel := x\<rparr>) fs ps = budget b fs ps"
  "data_inv (b\<lparr>cd_tel := x\<rparr>) = data_inv b" "took_in (a\<lparr>cd_tel := x\<rparr>) b fs ps = took_in a b fs ps"
  by (simp_all add: took_in_def data_inv_def budget_def table_of_def)

lemma message_takes_in:
  assumes "data_inv st" and "carries (payload m) fs ps" and "budget st (fs @ fs') (ps @ ps')"
  shows "\<exists>st'. processIncrementalBatch m st = Some st' \<and> took_in st st' fs ps \<and> budget st' fs' ps'"
proof -
  obtain f p where d: "deserializeIncrementalBatch (payload m) empty_batch empty_batch = (True, f, p)" "batch_ok f" "batch_ok p"
      and fs: "rels f = fs" "rels p = ps"
    using assms(2) by (auto simp: carries_def)
  obtain st1 st2 where "ingest_full f (sender_id m) st = Some st1" "ingest_partials p st1 = Some st2"
      "took_in st st2 fs ps" "budget st2 fs' ps'"
    using ingest_takes_in [OF assms(1) _ d(2,3), of fs' ps' "sender_id m"] assms(3) unfolding fs by blast
  then show ?thesis by (simp add: processIncrementalBatch_def d(1))
qed

lemma payload_takes_in:
  assumes "data_inv st" and "batch_ok (cp_full p)" and "batch_ok (cp_partials p)"
    and "budget st (rels (cp_full p) @ fs) (rels (cp_partials p) @ ps)"
  shows "\<exists>st'. process_payload p st = Some st' \<and> took_in st st' (rels (cp_full p)) (rels (cp_partials p)) \<and> budget st' fs ps"
proof -
  define tel where "tel = local_counts p (st\<lparr>cd_acc := fold (add_one 0) (rels (cp_full p)) (cd_acc st)\<rparr>)"
  have inv: "data_inv (st\<lparr>cd_tel := tel\<rparr>)" and bud: "budget (st\<lparr>cd_tel := tel\<rparr>) (rels (cp_full p) @ fs) (rels (cp_partials p) @ ps)"
    using assms(1,4) by simp_all
  obtain st1 st2 where s: "ingest_full (cp_full p) 0 (st\<lparr>cd_tel := tel\<rparr>) = Some st1" "ingest_partials (cp_partials p) st1 = Some st2"
      "took_in st st2 (rels (cp_full p)) (rels (cp_partials p))" "budget st2 fs ps"
    using ingest_takes_in [OF inv bud assms(2,3)] unfolding telemetry_irrelevant by blast
  have "st1 = st\<lparr>cd_acc := fold (add_one 0) (rels (cp_full p)) (cd_acc st), cd_tel := tel\<rparr>"
    using s(1) by (auto simp: ingest_full_eq [OF assms(2)] intro!: coord_data.equality)
  then have "process_payload p st = ingest_partials (cp_partials p) st1"
    by (simp add: process_payload_def ingest_full_eq [OF assms(2)] tel_def [symmetric])
  then show ?thesis using s(2-4) by simp
qed

section \<open>From the sieve threads to the accumulator\<close>

text \<open>The relation messages of a worker as the coordinator receives them, in order.\<close>

definition inbox :: "u8 \<Rightarrow> out_message list \<Rightarrow> recv_message list" where
  "inbox wid ms = map (\<lambda>m. \<lparr>sender_id = wid, msg_type = fst m, payload = snd m, msg_valid = True\<rparr>)
     (filter (\<lambda>m. fst m = INCREMENTAL_BATCH) ms)"

lemma messages_take_in:
  assumes "list_all2 (\<lambda>m g. carries (payload m) (full_rels g) (partial_rels g)) ms gs" and "data_inv st"
    and "budget st (full_rels (concat gs)) (partial_rels (concat gs))"
  shows "\<exists>st'. ofold processIncrementalBatch ms st = Some st' \<and> took_in st st' (full_rels (concat gs)) (partial_rels (concat gs))"
  using assms
proof (induction arbitrary: st rule: list_all2_induct)
  case Nil
  then show ?case using took_in_refl by (auto simp: full_rels_def partial_rels_def)
next
  case (Cons m ms g gs)
  have app: "full_rels (concat (g # gs)) = full_rels g @ full_rels (concat gs)"
      "partial_rels (concat (g # gs)) = partial_rels g @ partial_rels (concat gs)"
    by (simp_all add: full_rels_def partial_rels_def)
  obtain st1 where s1: "processIncrementalBatch m st = Some st1" "took_in st st1 (full_rels g) (partial_rels g)"
      "budget st1 (full_rels (concat gs)) (partial_rels (concat gs))"
    using message_takes_in [OF Cons.prems(1) Cons.hyps(1)] Cons.prems(2) unfolding app by blast
  have "data_inv st1" using s1(2) by (simp add: took_in_def)
  from Cons.IH [OF this s1(3)] obtain st' where "ofold processIncrementalBatch ms st1 = Some st'"
      "took_in st1 st' (full_rels (concat gs)) (partial_rels (concat gs))" by blast
  then show ?case using s1(1) took_in_trans [OF s1(2)] unfolding app by auto
qed

lemma delivered_takes_in:
  assumes "delivered ms items" and "data_inv st" and "budget st (full_rels items) (partial_rels items)"
  shows "\<exists>st'. ofold processIncrementalBatch (inbox wid ms) st = Some st' \<and> took_in st st' (full_rels items) (partial_rels items)"
proof -
  obtain gs where gs: "concat gs = items" "list_all2 (\<lambda>m g. carries (snd m) (full_rels g) (partial_rels g))
       (filter (\<lambda>m. fst m = INCREMENTAL_BATCH) ms) gs"
    using assms(1) by (auto simp: delivered_def)
  then have "list_all2 (\<lambda>m g. carries (payload m) (full_rels g) (partial_rels g)) (inbox wid ms) gs"
    by (simp add: inbox_def list.rel_map)
  from messages_take_in [OF this assms(2)] show ?thesis using assms(3) gs(1) by blast
qed

text \<open>
  C26. Relations reach the accumulator. Whatever a worker's sieve thread produces and however its I/O thread
  groups it into messages, once the ring has been emptied the coordinator that receives the messages in
  order processes each of them, and what it ends with does not depend on the grouping: it counts the distinct
  hashes among the relations it had, the full relations of the accepted batches and the relations combined from
  the partials of the accepted batches in the order they were produced; its table holds the partials still
  unmatched and its raw buffer all partials.
\<close>

theorem relation_flow:
  assumes "\<forall>e \<in> set evs. event_ok e" and "cc > 0" and "data_inv st"
    and "\<And>r. ofold run_event evs (fresh_run self cc) = Some r \<Longrightarrow>
           budget st (full_rels (run_accepted r)) (partial_rels (run_accepted r))"
  shows "\<exists>r r' st'. ofold run_event evs (fresh_run self cc) = Some r
    \<and> ofold run_event (replicate 31 (Turn False None False)) r = Some r'
    \<and> ofold processIncrementalBatch (inbox self (run_sent r')) st = Some st'
    \<and> (let mc = lp_mont (table_of st); T = waiting (table_of st);
           fs = full_rels (run_accepted r); ps = partial_rels (run_accepted r)
       in unat (totalRelations (cd_acc st')) =
            card (relation_hash ` (set (rels (accumulated (cd_acc st))) \<union> set fs \<union> set (combos mc T ps)))
        \<and> waiting (table_of st') = table_after mc T ps
        \<and> rels (cd_raw st') = rels (cd_raw st) @ map strip_char ps)"
proof -
  obtain r r' where r: "ofold run_event evs (fresh_run self cc) = Some r" "run_accepted r' = run_accepted r"
      "ofold run_event (replicate 31 (Turn False None False)) r = Some r'" "delivered (run_sent r') (run_accepted r')"
    using outlet_delivers [OF assms(1,2), where d = False and hb = False and self = self] by blast
  have del: "delivered (run_sent r') (run_accepted r)" using r(2,4) by simp
  obtain st' where st': "ofold processIncrementalBatch (inbox self (run_sent r')) st = Some st'"
      "took_in st st' (full_rels (run_accepted r)) (partial_rels (run_accepted r))"
    using delivered_takes_in [OF del assms(3) assms(4) [OF r(1)]] by blast
  have "acc_inv (cd_acc st')" using st'(2) by (simp add: took_in_def data_inv_def)
  from acc_inv_card [OF this] show ?thesis
    using st'(2) by (intro exI [of _ r] exI [of _ r'] exI [of _ st'] conjI r(1,3) st'(1)) (simp add: took_in_def)
qed

text \<open>The poll of the coordinator's own channel ends and takes in everything the channel held.\<close>

definition payload_ok :: "channel_payload \<Rightarrow> bool" where
  "payload_ok p \<longleftrightarrow> batch_ok (cp_full p) \<and> batch_ok (cp_partials p)"

lemma poll_channel_drains:
  assumes "channel_holds c xs" and "data_inv st" and "\<forall>p \<in> set xs. payload_ok p"
    and "budget st (concat (map (\<lambda>p. rels (cp_full p)) xs)) (concat (map (\<lambda>p. rels (cp_partials p)) xs))"
  shows "\<exists>c' st'. poll_channel c st = Some (c', st') \<and> channel_holds c' [] \<and>
    took_in st st' (concat (map (\<lambda>p. rels (cp_full p)) xs)) (concat (map (\<lambda>p. rels (cp_partials p)) xs))"
  using assms
proof (induction xs arbitrary: c st)
  case Nil
  then show ?case using channel_queue.pop_none [OF Nil.prems(1)] took_in_refl
    by (subst poll_channel.simps) (auto split: prod.split option.split)
next
  case (Cons p xs)
  obtain c1 where c1: "channel_tryPop c = (Some p, c1)" "channel_holds c1 xs"
    using channel_queue.pop_some [OF Cons.prems(1)] by (metis prod.collapse)
  have ok: "batch_ok (cp_full p)" "batch_ok (cp_partials p)" using Cons.prems(3) by (simp_all add: payload_ok_def)
  obtain st1 where st1: "process_payload p st = Some st1" "took_in st st1 (rels (cp_full p)) (rels (cp_partials p))"
      "budget st1 (concat (map (\<lambda>p. rels (cp_full p)) xs)) (concat (map (\<lambda>p. rels (cp_partials p)) xs))"
    using payload_takes_in [OF Cons.prems(2) ok] Cons.prems(4) by (auto simp: comp_def)
  have "data_inv st1" using st1(2) by (simp add: took_in_def)
  then obtain c' st' where "poll_channel c1 st1 = Some (c', st')" "channel_holds c' []"
      "took_in st1 st' (concat (map (\<lambda>p. rels (cp_full p)) xs)) (concat (map (\<lambda>p. rels (cp_partials p)) xs))"
    using Cons.IH [OF c1(2) _ _ st1(3)] Cons.prems(3) by auto
  then show ?case using c1(1) st1(1) took_in_trans [OF st1(2)] by (subst poll_channel.simps) auto
qed

section \<open>Resuming from a checkpoint\<close>

lemma strip_char_sel [simp]: "r_sqrt_Q (strip_char r) = r_sqrt_Q r" "lp_key (strip_char r) = lp_key r"
  "relation_hash (strip_char r) = relation_hash r" "r_factors (strip_char r) = r_factors r"
  "strip_char (strip_char r) = strip_char r"
  by (simp_all add: strip_char_def lp_key_def relation_hash_def)

lemma combine_strip: "combine_rel mc (strip_char p) (strip_char r) = strip_char (combine_rel mc p r)"
  by (simp add: combine_rel_def strip_char_def)

lemma match_strip:
  "fold (match_one mc) (map strip_char ps) (\<lambda>k. map_option strip_char (T k), map strip_char out) =
   (case fold (match_one mc) ps (T, out) of (T', out') \<Rightarrow> (\<lambda>k. map_option strip_char (T' k), map strip_char out'))"
proof (induction ps arbitrary: T out)
  case (Cons p ps)
  have m: "match_one mc (strip_char p) (\<lambda>k. map_option strip_char (T k), map strip_char out)
      = (case match_one mc p (T, out) of (T1, out1) \<Rightarrow> (\<lambda>k. map_option strip_char (T1 k), map strip_char out1))"
    by (cases "T (lp_key p)") (auto simp: match_one_def combine_strip fun_eq_iff)
  then show ?case using Cons by (simp split: prod.split)
qed simp

lemma combos_strip:
  "combos mc (\<lambda>k. map_option strip_char (T k)) (map strip_char ps) = map strip_char (combos mc T ps)"
  "table_after mc (\<lambda>k. map_option strip_char (T k)) (map strip_char ps) = (\<lambda>k. map_option strip_char (table_after mc T ps k))"
  using match_strip [of mc ps T "[]"] by (simp_all add: combos_def table_after_def split: prod.splits)

text \<open>Combining stripped partials with unstripped ones changes character bits only.\<close>

lemma match_hashes:
  assumes "\<And>k. map_option strip_char (T k) = map_option strip_char (U k)"
  shows "map strip_char (combos mc T ps) = map strip_char (combos mc U ps)"
proof -
  have "combos mc (\<lambda>k. map_option strip_char (T k)) (map strip_char ps)
      = combos mc (\<lambda>k. map_option strip_char (U k)) (map strip_char ps)" by (simp only: assms)
  then show ?thesis by (simp only: combos_strip)
qed

lemma hashes_strip: "relation_hash ` set (map strip_char rs) = relation_hash ` set rs"
  by (auto simp: image_iff)

lemma add_known: "relation_hash ` set rs \<subseteq> seen a \<Longrightarrow> fold (add_one sid) rs a = a"
  by (induction rs) (auto simp: add_one_def)

lemma fresh_distinct:
  "distinct (map relation_hash rs) \<Longrightarrow> relation_hash ` set rs \<inter> S = {} \<Longrightarrow> fresh S rs = rs"
  by (induction rs arbitrary: S) auto

lemma raw_batch_ok: "raw_ok raw \<Longrightarrow> batch_ok raw"
  using batch_exact_ok [of "zero_chars raw"] by (simp add: raw_ok_def batch_ok_def offsets_ok_def zero_chars_def)

text \<open>
  C27. A resumed run continues where the checkpoint was taken. When the pooled relations and the raw
  partials of a coordinator that started empty are re-injected into a fresh coordinator, every step succeeds and it has
  the same accumulated relations, the same raw partials and the same unmatched partials up to character bits: the
  combined relations that the replay of the partials produces again are recognised as duplicates. Whatever both
  coordinators take in afterwards, they count the same.
\<close>

theorem resume_restores:
  assumes start: "data_inv st0" "rels (accumulated (cd_acc st0)) = []" "waiting (table_of st0) = Map.empty" "rels (cd_raw st0) = []"
    and reached: "took_in st0 st fs ps"
    and room: "budget st0 (rels (accumulated (cd_acc st))) (rels (cd_raw st))"
  shows "\<exists>st'. resume_reinject (accumulated (cd_acc st)) (cd_raw st) st0 = Some st' \<and> data_inv st'
    \<and> rels (accumulated (cd_acc st')) = rels (accumulated (cd_acc st)) \<and> rels (cd_raw st') = rels (cd_raw st)
    \<and> waiting (table_of st') = (\<lambda>k. map_option strip_char (waiting (table_of st) k))
    \<and> (\<forall>u u' gs qs. took_in st u gs qs \<longrightarrow> took_in st' u' gs qs \<longrightarrow> totalRelations (cd_acc u') = totalRelations (cd_acc u))"
proof -
  let ?old = "cd_acc st0" and ?tab = "table_of st0" and ?raw = "cd_raw st"
  let ?mc = "lp_mont ?tab" and ?rs = "rels (accumulated (cd_acc st))"
  have inv: "data_inv st" and mc: "lp_mont (table_of st) = ?mc" and w: "waiting (table_of st) = table_after ?mc Map.empty ps"
    and raw: "rels ?raw = map strip_char ps"
    and hs: "relation_hash ` set ?rs = relation_hash ` (set fs \<union> set (combos ?mc Map.empty ps))"
    using reached start(2-4) by (auto simp: took_in_def)
  have acc: "acc_inv (cd_acc st)" "raw_ok ?raw" using inv by (simp_all add: data_inv_def)
  have acc0: "acc_inv ?old" "raw_ok (cd_raw st0)" "lp_wf ?tab" "cd_lp st0 = Some ?tab" and seen0: "seen ?old = {}"
    using start(1,2) by (auto simp: data_inv_def acc_inv_def table_of_def)
  have emp: "(\<lambda>k. map_option strip_char (Map.empty k)) = Map.empty" by simp
  define cs where "cs = combos ?mc Map.empty (map strip_char ps)"
  have cs: "cs = map strip_char (combos ?mc Map.empty ps)"
    using combos_strip(1) [of ?mc Map.empty ps] by (simp add: cs_def)
  have room1: "has_room (accumulated ?old) ?rs" using room by (simp add: budget_def has_room_weight)
  let ?a = "fold (add_one 0) ?rs ?old"
  note f = fold_add_one [OF acc0(1) room1, of 0]
  have same: "rels (accumulated ?a) = ?rs"
    using f start(2) seen0 fresh_distinct [of ?rs "{}"] acc(1) by (simp add: acc_inv_def)
  have "relation_hash ` set cs \<subseteq> seen ?a"
    using seen_add [OF acc0(1) room1, of 0] hs by (auto simp: cs image_iff)
  then have known: "fold (add_one 255) cs ?a = ?a" by (rule add_known)
  have add: "addRelations (accumulated (cd_acc st)) 0 ?old = Some ?a"
    using acc(1) by (intro addRelations_fold batch_exact_ok) (simp add: acc_inv_def)
  have "table_factors ?tab + weight (rels ?raw) < 2 ^ 64" using room by (simp add: budget_def)
  then obtain t' where t': "insertAndMatch ?raw (?tab, ?a) = Some (t', ?a)" "lp_wf t'" "lp_mont t' = ?mc"
      "waiting t' = table_after ?mc Map.empty (map strip_char ps)"
    using insertAndMatch_refines [OF acc0(3) raw_batch_ok [OF acc(2)], of ?a] known start(3)
    by (auto simp: weight_def combined_def cs_def combos_def table_after_def raw)
  have w': "waiting t' = (\<lambda>k. map_option strip_char (waiting (table_of st) k))"
    using combos_strip(2) [of ?mc Map.empty ps] by (simp add: t'(4) w)
  have rawr: "bufferClusterPartials ?raw (cd_raw st0) = Some (fold push_raw (rels ?raw) (cd_raw st0))"
    by (rule bufferClusterPartials_eq [OF raw_batch_ok [OF acc(2)]])
  note pr = push_raws_view [OF acc0(2), of "rels ?raw" "[]"]
  let ?st' = "st0\<lparr>cd_acc := ?a, cd_lp := Some t', cd_raw := fold push_raw (rels ?raw) (cd_raw st0)\<rparr>"
  have res: "resume_reinject (accumulated (cd_acc st)) ?raw st0 = Some ?st'"
    by (simp add: resume_reinject_def add acc0(4) t'(1) rawr)
  have inv': "data_inv ?st'" using f t'(2) pr room by (simp add: data_inv_def table_of_def budget_def)
  have raw': "rels (cd_raw ?st') = rels ?raw" using pr room start(4) raw by (simp add: budget_def comp_def strip_char_def)
  have count: "totalRelations (cd_acc u') = totalRelations (cd_acc u)" if u: "took_in st u gs qs" "took_in ?st' u' gs qs" for u u' gs qs
  proof -
    have "map strip_char (combos ?mc (waiting t') qs) = map strip_char (combos ?mc (waiting (table_of st)) qs)"
      by (rule match_hashes) (simp add: w' option.map_comp comp_def)
    then have "relation_hash ` set (combos ?mc (waiting t') qs) = relation_hash ` set (combos ?mc (waiting (table_of st)) qs)"
      using hashes_strip by metis
    then have "relation_hash ` set (rels (accumulated (cd_acc u'))) = relation_hash ` set (rels (accumulated (cd_acc u)))"
      using u mc t'(3) same unfolding took_in_def by (simp add: table_of_def image_Un)
    moreover have "acc_inv (cd_acc u)" "acc_inv (cd_acc u')" using u by (simp_all add: took_in_def data_inv_def)
    ultimately show ?thesis using acc_inv_card by (metis word_unat_eq_iff)
  qed
  show ?thesis
    by (intro exI [of _ ?st'] conjI res inv' raw') (use same w' count in \<open>auto simp: table_of_def\<close>)
qed

section \<open>Concrete runs\<close>

definition sample_coord :: coord_data where
  "sample_coord = \<lparr>cd_acc = sample_acc, cd_lp = Some (CPULargePrimeTable 1000 101), cd_raw = fresh_raw,
     cd_tel = replicate 4 no_telemetry\<rparr>"

lemma sample_coord_start:
  "data_inv sample_coord" "rels (accumulated (cd_acc sample_coord)) = []" "waiting (table_of sample_coord) = Map.empty"
  "rels (cd_raw sample_coord) = []" "table_of sample_coord = CPULargePrimeTable 1000 101"
  using sample_table fresh_raw_ok RelationAccumulator_inv
  by (simp_all add: sample_coord_def data_inv_def table_of_def sample_acc_def)

lemma sample_coord_budget:
  "length fs + length ps < 2 ^ 64 \<Longrightarrow> weight fs + weight ps < 2 ^ 64 \<Longrightarrow> budget sample_coord fs ps"
  using sample_table(5)
  by (simp add: budget_def sample_coord_start has_room_weight)
     (simp add: sample_coord_def sample_acc_def RelationAccumulator_def empty_batch_def fresh_raw_def)

lemma sample_partials_step: "step_batch sample_partials"
  by (simp add: step_batch_def batch_exact_def offsets_ok_def sample_partials_def less_2_cases)

definition sample_events :: "tap_event list" where
  "sample_events = [Produce sample_batch sample_partials 0 4, Turn False None True]"

lemma sample_events_run:
  "\<exists>r. ofold run_event sample_events (fresh_run 3 8) = Some r \<and>
    full_rels (run_accepted r) = rels sample_batch \<and> partial_rels (run_accepted r) = rels sample_partials"
proof -
  let ?s = "\<lparr>ts_full = sample_batch, ts_partials = sample_partials, ts_batch_index = 0, ts_a_values = 4\<rparr>"
  let ?r = "fresh_run 3 8"
  have ok: "event_ok (Produce sample_batch sample_partials 0 4)" "event_ok (Turn False None True)"
    using sample_batch_step sample_partials_step by (simp_all add: event_ok_def)
  have off: "offers (Produce sample_batch sample_partials 0 4) (run_tap ?r) = [?s]" "run_accepted ?r = []"
    by (simp_all add: offers_def fresh_run_def AsyncNetworkDataTap_def Let_def)
  have "fst (tryPush kRingSize ?s (tap_ring (run_tap ?r)))"
    using tryPush_holds(1) [OF kRingSize_valid(1) SPSCRing_holds [OF kRingSize_valid(1), of empty_slot], of ?s] kRingSize_valid(2)
    by (simp add: fresh_run_def AsyncNetworkDataTap_def Let_def)
  then have acc: "accepts (Produce sample_batch sample_partials 0 4) (run_tap ?r) = [?s]" by (simp add: accepts_def off)
  obtain r1 where r1: "run_event (Produce sample_batch sample_partials 0 4) ?r = Some r1" "tap_inv r1"
    using run_event_inv [OF fresh_run_inv ok(1)] by blast
  obtain r2 where r2: "run_event (Turn False None True) r1 = Some r2" using run_event_inv [OF r1(2) ok(2)] by blast
  have "run_accepted r2 = [?s]"
    using r1(1) r2 acc off(2) by (auto simp: run_event_def accepts_def [of "Turn _ _ _"] offers_def [of "Turn _ _ _"])
  then show ?thesis using r1(1) r2 by (simp add: sample_events_def full_rels_def partial_rels_def)
qed

theorem relation_flow_witness:
  "\<exists>r r' st'. ofold run_event sample_events (fresh_run 3 8) = Some r
    \<and> ofold run_event (replicate 31 (Turn False None False)) r = Some r'
    \<and> ofold processIncrementalBatch (inbox 3 (run_sent r')) sample_coord = Some st'
    \<and> rels (cd_raw st') = map strip_char (rels sample_partials)"
proof -
  have ok: "\<forall>e \<in> set sample_events. event_ok e"
    using sample_batch_step sample_partials_step by (simp add: event_ok_def sample_events_def)
  obtain q where q: "ofold run_event sample_events (fresh_run 3 8) = Some q"
      "full_rels (run_accepted q) = rels sample_batch" "partial_rels (run_accepted q) = rels sample_partials"
    using sample_events_run by blast
  have "budget sample_coord (rels sample_batch) (rels sample_partials)"
    by (rule sample_coord_budget) (simp_all add: sample_batch_size sample_partials_rels, simp_all add: rels_def sample_batch_size upt_rec sample_rels)
  then have bud: "budget sample_coord (full_rels (run_accepted r)) (partial_rels (run_accepted r))"
    if "ofold run_event sample_events (fresh_run 3 8) = Some r" for r
    using that q by simp
  show ?thesis using relation_flow [where cc = 8 and self = 3, OF ok _ sample_coord_start(1) bud] q sample_coord_start(4)
    by (auto simp: Let_def)
qed

lemma fresh_bounds: "length (fresh S rs) \<le> length rs \<and> weight (fresh S rs) \<le> weight rs"
  by (induction S rs rule: fresh.induct) auto

theorem resume_restores_witness:
  "\<exists>st st'. took_in sample_coord st (rels sample_batch) [] \<and> rels (accumulated (cd_acc st)) \<noteq> [] \<and>
    resume_reinject (accumulated (cd_acc st)) (cd_raw st) sample_coord = Some st' \<and>
    rels (accumulated (cd_acc st')) = rels (accumulated (cd_acc st))"
proof -
  note start = sample_coord_start
  have size: "length (rels sample_batch) = 2" "weight (rels sample_batch) = 4"
    by (simp_all add: sample_batch_size) (simp add: rels_def sample_batch_size upt_rec sample_rels)
  let ?e = "empty_batch\<lparr>factor_offsets := [0]\<rparr>"
  have e: "batch_ok ?e" "rels ?e = []" "num_relations ?e = 0"
    using sentinel_batch_exact batch_exact_ok by (auto simp: empty_batch_def)
  have b: "batch_ok sample_batch" by (rule batch_exact_ok [OF sample_batch_exact])
  have "budget sample_coord (rels sample_batch @ []) (rels ?e @ [])"
    using size e by (intro sample_coord_budget) simp_all
  then obtain st1 st where st: "ingest_full sample_batch 0 sample_coord = Some st1" "ingest_partials ?e st1 = Some st"
      "took_in sample_coord st (rels sample_batch) []"
    using ingest_takes_in [OF start(1) _ b e(1), of "[]" "[]" 0] unfolding e(2) by blast
  have "st = sample_coord\<lparr>cd_acc := fold (add_one 0) (rels sample_batch) sample_acc\<rparr>"
    using st(1,2) e(3) by (auto simp: ingest_full_eq [OF b] ingest_partials_def sample_coord_def)
  then have acc: "rels (accumulated (cd_acc st)) = fresh {} (rels sample_batch)" and raw: "rels (cd_raw st) = []"
    using fold_add_one [of sample_acc "rels sample_batch" 0] RelationAccumulator_inv sample_room(1) start(4)
    by (simp_all add: sample_acc_def)
  have "budget sample_coord (rels (accumulated (cd_acc st))) (rels (cd_raw st))"
    using fresh_bounds [of "{}" "rels sample_batch"] size unfolding acc raw by (intro sample_coord_budget) simp_all
  from resume_restores [OF start(1-4) st(3) this]
  obtain st' where "resume_reinject (accumulated (cd_acc st)) (cd_raw st) sample_coord = Some st'"
      "rels (accumulated (cd_acc st')) = rels (accumulated (cd_acc st))" by blast
  moreover have "rels sample_batch \<noteq> []" using size by auto
  then have "fresh {} (rels sample_batch) \<noteq> []" by (cases "rels sample_batch") auto
  ultimately show ?thesis using st(3) acc by auto
qed

end
