(* ===== verification/Coordinator.thy ===== *)
theory Coordinator
  imports Relation_Flow Work_Pool Chunk_Scheduler
begin

text \<open>
  The control plane of the coordinator's network thread, \<^verbatim>\<open>MPQSOrchestrator::networkLoop\<close> in
  \<^verbatim>\<open>src/orchestrator/orchestrator.cpp\<close>: what every worker is believed to hold, the hand-out of
  chunks, the handlers of the control messages, the heartbeat timeout with its sweep over idle
  workers, straggler recall, and the deferral of relation messages within a pass. Next to it the
  loop with which the coordinator's own sieve thread takes chunks from the same pool.

  The model has remote workers, a pool and a scheduler, so the null checks on these pointers are
  true and are left out. Clock readings (nanoseconds of the steady clock) and the results of
  \<^verbatim>\<open>send\<close> are arguments; messages handed to the transport are appended to a log. A handler is
  one step for the other thread: its calls on the pool and the scheduler lock separately, but the
  sieve thread touches only its own chunk.
\<close>

section \<open>State\<close>

definition IDLE :: u32 where "IDLE = 0xFFFFFFFF"

definition kInitialChunk :: u32 where "kInitialChunk = 0xFFFFFFFE"

definition kFlushTimeoutMs :: nat where "kFlushTimeoutMs = 120000"

record worker_tracker =
  wt_heartbeat :: nat
  wt_chunk :: u32
  wt_rels :: u64
  wt_alive :: bool

definition new_tracker :: worker_tracker where
  "new_tracker = \<lparr>wt_heartbeat = 0, wt_chunk = IDLE, wt_rels = 0, wt_alive = True\<rparr>"

text \<open>\<^verbatim>\<open>operator[]\<close> of an \<^verbatim>\<open>unordered_map\<close>, in its iteration order: a missing key is created with a
  default.\<close>

fun update_entry :: "'v \<Rightarrow> 'k \<Rightarrow> ('v \<Rightarrow> 'v) \<Rightarrow> ('k \<times> 'v) list \<Rightarrow> ('k \<times> 'v) list" where
  "update_entry d k f [] = [(k, f d)]"
| "update_entry d k f ((j, v) # kvs) = (if j = k then (j, f v) # kvs else (j, v) # update_entry d k f kvs)"

definition entry :: "'v \<Rightarrow> 'k \<Rightarrow> ('k \<times> 'v) list \<Rightarrow> 'v" where
  "entry d k kvs = (case map_of kvs k of Some v \<Rightarrow> v | None \<Rightarrow> d)"

text \<open>The parsed value of \<^verbatim>\<open>MPQS_DEBUG_DROP_CHUNK_ASSIGN\<close>.\<close>

record drop_spec =
  ds_armed :: bool
  ds_worker :: u8
  ds_all :: bool
  ds_occurrence :: u64

definition mpqsDebugShouldDropChunkAssign :: "drop_spec \<Rightarrow> u8 \<Rightarrow> u64 \<Rightarrow> bool" where
  "mpqsDebugShouldDropChunkAssign s wid occurrence \<longleftrightarrow>
     ds_armed s \<and> wid = ds_worker s \<and> (ds_all s \<or> occurrence = ds_occurrence s)"

record coordinator =
  co_workers :: u32
  co_ranges :: "(u64 \<times> u64) list"
  co_offsets :: "u64 list"
  co_drop :: drop_spec
  co_data :: coord_data
  co_pool :: work_pool
  co_sched :: chunk_scheduler
  co_trackers :: "(u8 \<times> worker_tracker) list"
  co_occurrence :: "(u8 \<times> u64) list"
  co_failed_sends :: u64
  co_redispatched :: u64
  co_initial_hw :: "u64 list"
  co_last_recall :: "(u8 \<times> nat) list"
  co_flushed :: u32
  co_all_flushed :: bool
  co_timeout_check :: nat
  co_log :: "(u8 \<times> out_message) list"
  co_disconnected :: "u8 list"
  co_overlaps :: "(u32 \<times> u32) list"
  co_local :: "u32 option"
  co_node0_hw :: u64

definition tracker :: "coordinator \<Rightarrow> u8 \<Rightarrow> worker_tracker" where
  "tracker c w = entry new_tracker w (co_trackers c)"

definition update_tracker :: "u8 \<Rightarrow> (worker_tracker \<Rightarrow> worker_tracker) \<Rightarrow> coordinator \<Rightarrow> coordinator" where
  "update_tracker w f c = c\<lparr>co_trackers := update_entry new_tracker w f (co_trackers c)\<rparr>"

text \<open>What the world contributes to one handler: the clock where it stamps a checkout and where it
  looks for stragglers, and whether a send to a worker succeeds.\<close>

record turn =
  tn_checkout :: "u8 \<Rightarrow> nat"
  tn_clock :: nat
  tn_send :: "u8 \<Rightarrow> bool"

definition initial_trackers :: "nat \<Rightarrow> u32 \<Rightarrow> (u8 \<times> worker_tracker) list" where
  "initial_trackers now n = map (\<lambda>w. (of_nat w,
     new_tracker\<lparr>wt_heartbeat := now, wt_chunk := kInitialChunk\<rparr>)) [1..<Suc (unat n)]"

text \<open>The high-water marks start at the offsets a resumed run was trimmed by.\<close>

definition initial_high_water :: "nat \<Rightarrow> u64 list \<Rightarrow> u64 list" where
  "initial_high_water n offs = map (\<lambda>i. if i < length offs then offs ! i else 0) [0..<n]"

section \<open>Handing out a chunk\<close>

text \<open>The diagnosis of overlapping chunks, a half-open interval test in 64-bit arithmetic.\<close>

definition overlaps_with :: "checked_out_work \<Rightarrow> checked_out_work \<Rightarrow> bool" where
  "overlaps_with cw d \<longleftrightarrow> (let new_lo = wu_start (co_unit cw); new_hi = new_lo + wu_count (co_unit cw);
       c_lo = wu_start (co_unit d); c_hi = c_lo + wu_count (co_unit d)
     in new_lo < c_hi \<and> c_lo < new_hi)"

definition overlap_reports :: "checked_out_work \<Rightarrow> work_pool \<Rightarrow> (u32 \<times> u32) list" where
  "overlap_reports cw p = map (\<lambda>d. (chunk_id cw, chunk_id d))
     (filter (\<lambda>d. chunk_id d \<noteq> chunk_id cw \<and> overlaps_with cw d) (inFlightChunks p))"

definition assign_message :: "checked_out_work \<Rightarrow> out_message" where
  "assign_message cw = (CHUNK_ASSIGN, chunk_assign_bytes \<lparr>ca_chunk_id = chunk_id cw,
     ca_start = wu_start (co_unit cw), ca_count = wu_count (co_unit cw), ca_flags = FLAG_OVERFLOW\<rparr>)"

text \<open>The send of an assignment, with the debug hook on the droppable path.\<close>

definition send_assignment :: "turn \<Rightarrow> u8 \<Rightarrow> bool \<Rightarrow> checked_out_work \<Rightarrow> coordinator \<Rightarrow> bool \<times> coordinator" where
  "send_assignment tn wid droppable cw c =
     (let c = (if droppable then c\<lparr>co_occurrence := update_entry 0 wid (\<lambda>n. n + 1) (co_occurrence c)\<rparr> else c)
      in if droppable \<and> mpqsDebugShouldDropChunkAssign (co_drop c) wid (entry 0 wid (co_occurrence c))
         then (False, c)
         else (tn_send tn wid, c\<lparr>co_log := co_log c @ [(wid, assign_message cw)]\<rparr>))"

definition assignChunkTo :: "float_env \<Rightarrow> turn \<Rightarrow> u8 \<Rightarrow> bool \<Rightarrow> bool \<Rightarrow> coordinator \<Rightarrow> bool \<times> coordinator" where
  "assignChunkTo F tn wid debug_droppable is_redispatch c =
     (let c = update_tracker wid id c in
      if wt_chunk (tracker c wid) \<noteq> IDLE then (False, c)
      else if targetReached (cd_acc (co_data c)) \<or> exhausted (co_pool c) then (False, c)
      else case checkoutWork (tn_checkout tn wid) (nextChunkSize F (co_sched c) wid) wid (co_pool c) of
          (None, p) \<Rightarrow> (False, c\<lparr>co_pool := p\<rparr>)
        | (Some cw, p) \<Rightarrow>
            let c = c\<lparr>co_pool := p, co_overlaps := co_overlaps c @ overlap_reports cw p\<rparr> in
            (case send_assignment tn wid debug_droppable cw c of
               (False, c) \<Rightarrow>
                 (False, c\<lparr>co_pool := snd (returnChunk (chunk_id cw) (co_pool c)),
                           co_failed_sends := co_failed_sends c + 1\<rparr>)
             | (True, c) \<Rightarrow>
                 (True, update_tracker wid (\<lambda>t. t\<lparr>wt_chunk := chunk_id cw\<rparr>)
                    (if is_redispatch then c\<lparr>co_redispatched := co_redispatched c + 1\<rparr> else c))))"

section \<open>Stragglers\<close>

text \<open>Seconds as a \<^verbatim>\<open>double\<close>.\<close>

definition seconds :: "float_env \<Rightarrow> nat \<Rightarrow> rat" where
  "seconds F ns = fl F (fl F (of_nat ns) / 1000000000)"

definition fastest_rate :: "chunk_scheduler \<Rightarrow> u32 \<Rightarrow> rat" where
  "fastest_rate s n = fold (\<lambda>w m. let tp = throughput s (of_nat w) in
     if chunks_completed tp > 0 then max m (rels_per_sec tp) else m) [1..<Suc (unat n)] 0"

definition is_straggler :: "float_env \<Rightarrow> nat \<Rightarrow> rat \<Rightarrow> checked_out_work \<Rightarrow> coordinator \<Rightarrow> bool" where
  "is_straggler F now fastest cow c \<longleftrightarrow>
     (let wid = worker_id cow; tp = throughput (co_sched c) wid;
          remaining_a = fl F (of_u64 (wu_count (co_unit cow)));
          straggler_time = fl F (remaining_a / a_vals_per_sec tp);
          fastest_time = fl F (remaining_a / fastest)
      in \<not> (a_vals_per_sec tp \<le> 0 \<or> chunks_completed tp < 1)
         \<and> \<not> seconds F (now - checkout_time cow) < 30
         \<and> (case map_of (co_last_recall c) wid of None \<Rightarrow> True | Some t \<Rightarrow> \<not> seconds F (now - t) < 60)
         \<and> straggler_time > fl F (2 * fastest_time))"

definition check_straggler :: "float_env \<Rightarrow> nat \<Rightarrow> rat \<Rightarrow> checked_out_work \<Rightarrow> coordinator \<Rightarrow> coordinator" where
  "check_straggler F now fastest cow c =
     (if is_straggler F now fastest cow c
      then c\<lparr>co_log := co_log c @ [(worker_id cow, CHUNK_RECALL, to_le 4 (chunk_id cow))],
             co_last_recall := update_entry 0 (worker_id cow) (\<lambda>_. now) (co_last_recall c)\<rparr>
      else c)"

definition checkStragglers :: "float_env \<Rightarrow> nat \<Rightarrow> coordinator \<Rightarrow> coordinator" where
  "checkStragglers F now c =
     (let fastest = fastest_rate (co_sched c) (co_workers c)
      in if fastest \<le> 0 then c else fold (check_straggler F now fastest) (inFlightChunks (co_pool c)) c)"

section \<open>Message handlers\<close>

text \<open>The pool chunk a worker is believed to hold, if any.\<close>

definition holds_pool_chunk :: "worker_tracker \<Rightarrow> bool" where
  "holds_pool_chunk wt \<longleftrightarrow> wt_chunk wt \<noteq> IDLE \<and> wt_chunk wt \<noteq> kInitialChunk"

text \<open>The first completion of a worker reports how far it came in its initial range.\<close>

definition capture_high_water :: "u8 \<Rightarrow> chunk_complete \<Rightarrow> coordinator \<Rightarrow> coordinator" where
  "capture_high_water w cc c =
     (if wt_chunk (tracker c w) = kInitialChunk \<and> unat w < length (co_initial_hw c)
      then let cap = (if unat w < length (co_ranges c) then snd (co_ranges c ! unat w) else cc_a_values_consumed cc);
               off = (if unat w < length (co_offsets c) then co_offsets c ! unat w else 0)
           in c\<lparr>co_initial_hw := (co_initial_hw c)[unat w := min (off + cc_a_values_consumed cc) cap]\<rparr>
      else c)"

text \<open>The bookkeeping of a completion, before the next assignment.\<close>

definition record_complete :: "float_env \<Rightarrow> u8 \<Rightarrow> chunk_complete \<Rightarrow> coordinator \<Rightarrow> coordinator" where
  "record_complete F w cc c =
     (let c = c\<lparr>co_sched := recordCompletion F w (cc_relations_found cc) (cc_a_values_consumed cc)
                  (fl F (of_nat (unat (cc_elapsed_ms cc)) / 1000)) (co_sched c)\<rparr>;
          c = update_tracker w id c;
          wt = tracker c w;
          c = (if wt_chunk wt = cc_chunk_id cc \<and> holds_pool_chunk wt
               then c\<lparr>co_pool := reclaimPartial (cc_chunk_id cc) (cc_a_values_consumed cc) (co_pool c)\<rparr> else c);
          c = capture_high_water w cc c;
          c = update_tracker w (\<lambda>t. t\<lparr>wt_rels := wt_rels t + cc_relations_found cc, wt_chunk := IDLE\<rparr>) c
      in c\<lparr>co_data := (co_data c)\<lparr>cd_tel := update_node (unat w)
             (\<lambda>t. t\<lparr>nt_chunks := nt_chunks t + 1, nt_a_values := nt_a_values t + cc_a_values_consumed cc\<rparr>)
             (cd_tel (co_data c))\<rparr>\<rparr>)"

definition on_chunk_complete :: "float_env \<Rightarrow> turn \<Rightarrow> recv_message \<Rightarrow> coordinator \<Rightarrow> coordinator" where
  "on_chunk_complete F tn m c =
     (if length (payload m) \<ge> 32
      then let c = record_complete F (sender_id m) (read_chunk_complete (payload m)) c;
               c = snd (assignChunkTo F tn (sender_id m) True False c)
           in checkStragglers F (tn_clock tn) c
      else c)"

text \<open>A request for work takes back whatever the worker was believed to hold.\<close>

definition take_back :: "nat \<Rightarrow> u8 \<Rightarrow> coordinator \<Rightarrow> coordinator" where
  "take_back now w c =
     (let c = update_tracker w (\<lambda>t. t\<lparr>wt_heartbeat := now\<rparr>) c;
          c = (if holds_pool_chunk (tracker c w)
               then c\<lparr>co_pool := snd (returnChunk (wt_chunk (tracker c w)) (co_pool c))\<rparr> else c)
      in update_tracker w (\<lambda>t. t\<lparr>wt_chunk := IDLE\<rparr>) c)"

definition on_chunk_request :: "float_env \<Rightarrow> nat \<Rightarrow> turn \<Rightarrow> recv_message \<Rightarrow> coordinator \<Rightarrow> coordinator" where
  "on_chunk_request F now tn m c = snd (assignChunkTo F tn (sender_id m) False True (take_back now (sender_id m) c))"

definition on_heartbeat :: "nat \<Rightarrow> recv_message \<Rightarrow> coordinator \<Rightarrow> coordinator" where
  "on_heartbeat now m c =
     (if length (payload m) \<ge> 40 then update_tracker (sender_id m) (\<lambda>t. t\<lparr>wt_heartbeat := now\<rparr>) c else c)"

text \<open>A worker that is done, by its acknowledgement or by its death.\<close>

definition count_flushed :: "coordinator \<Rightarrow> coordinator" where
  "count_flushed c =
     (let n = co_flushed c + 1
      in c\<lparr>co_flushed := n, co_all_flushed := co_all_flushed c \<or> n \<ge> co_workers c\<rparr>)"

definition on_control :: "float_env \<Rightarrow> nat \<Rightarrow> turn \<Rightarrow> recv_message \<Rightarrow> coordinator \<Rightarrow> coordinator" where
  "on_control F now tn m c =
     (if msg_type m = CHUNK_COMPLETE then on_chunk_complete F tn m c
      else if msg_type m = CHUNK_REQUEST then on_chunk_request F now tn m c
      else if msg_type m = HEARTBEAT then on_heartbeat now m c
      else if msg_type m = FLUSH_ACK then count_flushed c
      else c)"

section \<open>A pass of the loop\<close>

text \<open>The receive loop: control messages at once, relation messages deferred.\<close>

definition dispatch ::
    "float_env \<Rightarrow> nat \<Rightarrow> turn \<times> recv_message \<Rightarrow> recv_message list \<times> coordinator \<Rightarrow> recv_message list \<times> coordinator" where
  "dispatch F now = (\<lambda>(tn, m) (deferred, c).
     if \<not> msg_valid m then (deferred, c)
     else if msg_type m = INCREMENTAL_BATCH then (deferred @ [m], c)
     else (deferred, on_control F now tn m c))"

definition process_batch :: "recv_message \<Rightarrow> coordinator \<Rightarrow> coordinator option" where
  "process_batch m c = map_option (\<lambda>st. c\<lparr>co_data := st\<rparr>) (processIncrementalBatch m (co_data c))"

definition receive_pass :: "float_env \<Rightarrow> nat \<Rightarrow> (turn \<times> recv_message) list \<Rightarrow> coordinator \<Rightarrow> coordinator option" where
  "receive_pass F now ins c =
     (case fold (dispatch F now) ins ([], c) of (deferred, c) \<Rightarrow> ofold process_batch deferred c)"

text \<open>The heartbeat timeout of one worker.\<close>

definition check_heartbeat :: "nat \<Rightarrow> u8 \<Rightarrow> coordinator \<Rightarrow> coordinator" where
  "check_heartbeat now w c =
     (let wt = tracker c w in
      if wt_alive wt \<and> (now - wt_heartbeat wt) div 1000000000 > kFlushTimeoutMs div 1000
      then let c = update_tracker w (\<lambda>t. t\<lparr>wt_alive := False\<rparr>) c;
               c = (if holds_pool_chunk wt then c\<lparr>co_pool := snd (reclaimWork w (co_pool c))\<rparr> else c);
               c = update_tracker w (\<lambda>t. t\<lparr>wt_chunk := IDLE\<rparr>) c
           in count_flushed (c\<lparr>co_disconnected := co_disconnected c @ [w]\<rparr>)
      else c)"

text \<open>The sweep that offers returned chunks to idle workers; it stops when the pool is exhausted.\<close>

fun sweep :: "float_env \<Rightarrow> turn \<Rightarrow> u8 list \<Rightarrow> coordinator \<Rightarrow> coordinator" where
  "sweep F tn [] c = c"
| "sweep F tn (w # ws) c =
     (if \<not> wt_alive (tracker c w) \<or> wt_chunk (tracker c w) \<noteq> IDLE then sweep F tn ws c
      else if exhausted (co_pool c) then c
      else sweep F tn ws (snd (assignChunkTo F tn w False True c)))"

definition timeout_pass :: "float_env \<Rightarrow> nat \<Rightarrow> turn \<Rightarrow> coordinator \<Rightarrow> coordinator" where
  "timeout_pass F now tn c =
     (if now - co_timeout_check c > 5000000000
      then let c = c\<lparr>co_timeout_check := now\<rparr>;
               c = fold (check_heartbeat now) (map fst (co_trackers c)) c
           in if \<not> targetReached (cd_acc (co_data c)) \<and> \<not> exhausted (co_pool c)
              then sweep F tn (map fst (co_trackers c)) c else c
      else c)"

section \<open>The coordinator's own sieve thread\<close>

definition local_initial_done :: "float_env \<Rightarrow> u64 \<Rightarrow> rat \<Rightarrow> coordinator \<Rightarrow> coordinator" where
  "local_initial_done F consumed el c =
     (let off = (if co_offsets c = [] then 0 else co_offsets c ! 0);
          cap = (if co_ranges c \<noteq> [] then snd (co_ranges c ! 0) else - 1)
      in c\<lparr>co_sched := recordCompletion F 0 0 consumed el (co_sched c), co_node0_hw := min (off + consumed) cap\<rparr>)"

text \<open>The head of its loop: \<open>None\<close> leaves the loop.\<close>

definition local_checkout :: "float_env \<Rightarrow> bool \<Rightarrow> nat \<Rightarrow> coordinator \<Rightarrow> coordinator option" where
  "local_checkout F stopped clock c =
     (if stopped \<or> targetReached (cd_acc (co_data c)) \<or> exhausted (co_pool c) then None
      else case checkoutWork clock (nextChunkSize F (co_sched c) 0) 0 (co_pool c) of
          (None, p) \<Rightarrow> None
        | (Some cw, p) \<Rightarrow> Some (c\<lparr>co_pool := p, co_local := Some (chunk_id cw)\<rparr>))"

definition local_complete :: "float_env \<Rightarrow> u64 \<Rightarrow> rat \<Rightarrow> coordinator \<Rightarrow> coordinator option" where
  "local_complete F consumed el c =
     (case co_local c of
        None \<Rightarrow> None
      | Some cid \<Rightarrow> Some (c\<lparr>co_sched := recordCompletion F 0 0 consumed el (co_sched c),
          co_pool := reclaimPartial cid consumed (co_pool c), co_local := None\<rparr>))"

section \<open>The start of the network thread\<close>

definition start_coordinator ::
    "nat \<Rightarrow> u32 \<Rightarrow> (u64 \<times> u64) list \<Rightarrow> u64 list \<Rightarrow> drop_spec \<Rightarrow> coord_data \<Rightarrow> work_pool \<Rightarrow> chunk_scheduler \<Rightarrow> coordinator" where
  "start_coordinator now workers ranges offs dr st p s =
     \<lparr>co_workers = workers, co_ranges = ranges, co_offsets = offs, co_drop = dr,
      co_data = st\<lparr>cd_tel := replicate (Suc (unat workers)) no_telemetry\<rparr>, co_pool = p, co_sched = s,
      co_trackers = initial_trackers now workers, co_occurrence = [], co_failed_sends = 0, co_redispatched = 0,
      co_initial_hw = initial_high_water (Suc (unat workers)) offs, co_last_recall = [], co_flushed = 0,
      co_all_flushed = (workers = 0), co_timeout_check = now, co_log = [], co_disconnected = [], co_overlaps = [],
      co_local = None, co_node0_hw = (if offs = [] then 0 else offs ! 0)\<rparr>"

section \<open>Who holds which chunk\<close>

lemma entry_update [simp]: "entry d j (update_entry d k f kvs) = (if j = k then f (entry d k kvs) else entry d j kvs)"
  by (induction kvs) (auto simp: entry_def)

lemma tracker_update [simp]: "tracker (update_tracker w f c) v = (if v = w then f (tracker c w) else tracker c v)"
  by (simp add: tracker_def update_tracker_def)

lemma tracker_frame [simp]:
  "tracker (c\<lparr>co_data := xa\<rparr>) w = tracker c w" "tracker (c\<lparr>co_pool := xb\<rparr>) w = tracker c w"
  "tracker (c\<lparr>co_sched := xc\<rparr>) w = tracker c w" "tracker (c\<lparr>co_occurrence := xd\<rparr>) w = tracker c w"
  "tracker (c\<lparr>co_failed_sends := xe\<rparr>) w = tracker c w" "tracker (c\<lparr>co_redispatched := xf\<rparr>) w = tracker c w"
  "tracker (c\<lparr>co_initial_hw := xg\<rparr>) w = tracker c w" "tracker (c\<lparr>co_last_recall := xh\<rparr>) w = tracker c w"
  "tracker (c\<lparr>co_flushed := xi\<rparr>) w = tracker c w" "tracker (c\<lparr>co_all_flushed := xj\<rparr>) w = tracker c w"
  "tracker (c\<lparr>co_timeout_check := xk\<rparr>) w = tracker c w" "tracker (c\<lparr>co_log := xl\<rparr>) w = tracker c w"
  "tracker (c\<lparr>co_disconnected := xm\<rparr>) w = tracker c w" "tracker (c\<lparr>co_overlaps := xn\<rparr>) w = tracker c w"
  "tracker (c\<lparr>co_local := xo\<rparr>) w = tracker c w" "tracker (c\<lparr>co_node0_hw := xp\<rparr>) w = tracker c w"
  by (simp_all add: tracker_def)

lemma update_tracker_sel [simp]:
  "co_pool (update_tracker w f c) = co_pool c" "co_sched (update_tracker w f c) = co_sched c"
  "co_data (update_tracker w f c) = co_data c" "co_overlaps (update_tracker w f c) = co_overlaps c"
  "co_local (update_tracker w f c) = co_local c" "co_log (update_tracker w f c) = co_log c"
  "co_workers (update_tracker w f c) = co_workers c" "co_ranges (update_tracker w f c) = co_ranges c"
  "co_offsets (update_tracker w f c) = co_offsets c" "co_initial_hw (update_tracker w f c) = co_initial_hw c"
  "co_drop (update_tracker w f c) = co_drop c" "co_flushed (update_tracker w f c) = co_flushed c"
  "co_all_flushed (update_tracker w f c) = co_all_flushed c" "co_occurrence (update_tracker w f c) = co_occurrence c"
  by (simp_all add: update_tracker_def)

definition holder :: "work_pool \<Rightarrow> (u32 \<rightharpoonup> u8)" where
  "holder p = map_of (map (\<lambda>cw. (chunk_id cw, worker_id cw)) (in_flight p))"

definition pool_ids :: "work_pool \<Rightarrow> bool" where
  "pool_ids p \<longleftrightarrow> distinct (map chunk_id (in_flight p)) \<and> (\<forall>cw \<in> set (in_flight p). chunk_id cw < next_chunk_id p)
     \<and> next_chunk_id p \<le> kInitialChunk"

definition positive :: "work_pool \<Rightarrow> bool" where
  "positive p \<longleftrightarrow> (\<forall>u \<in> set (outstanding p). 0 < wu_count u)"

lemma holder_dom: "holder p cid \<noteq> None \<longleftrightarrow> cid \<in> chunk_id ` set (in_flight p)"
  by (simp add: holder_def map_of_eq_None_iff image_image)

lemma holder_some: "pool_ids p \<Longrightarrow> holder p cid = Some w \<longleftrightarrow> (\<exists>cw \<in> set (in_flight p). chunk_id cw = cid \<and> worker_id cw = w)"
  by (auto simp: holder_def pool_ids_def map_of_eq_Some_iff comp_def)

lemma checkoutWork_shape:
  assumes "checkoutWork now n w p = (r, p')"
  shows "r = None \<Longrightarrow> p' = p"
    and "r = Some cw \<Longrightarrow> chunk_id cw = next_chunk_id p \<and> worker_id cw = w \<and> in_flight p' = in_flight p @ [cw]
           \<and> next_chunk_id p' = next_chunk_id p + 1"
    and "positive p \<Longrightarrow> 0 < n \<Longrightarrow> positive p'"
proof -
  show "r = None \<Longrightarrow> p' = p" using assms by (auto simp: checkoutWork_def Let_def split: if_splits)
  show "r = Some cw \<Longrightarrow> chunk_id cw = next_chunk_id p \<and> worker_id cw = w \<and> in_flight p' = in_flight p @ [cw]
      \<and> next_chunk_id p' = next_chunk_id p + 1"
    using assms by (auto simp: checkoutWork_def Let_def split: if_splits)
  assume pos: "positive p" and n: "0 < n"
  have last: "returned p \<noteq> [] \<Longrightarrow> 0 < wu_count (last (returned p))"
    using pos by (simp add: positive_def outstanding_def)
  have rest: "u \<in> set (butlast (returned p)) \<Longrightarrow> 0 < wu_count u" for u
    using pos by (auto simp: positive_def outstanding_def dest: in_set_butlastD)
  have flying: "cw \<in> set (in_flight p) \<Longrightarrow> 0 < wu_count (co_unit cw)" for cw
    using pos by (auto simp: positive_def outstanding_def)
  have lin: "wp_next p < wp_end p \<Longrightarrow> 0 < min n (wp_end p - wp_next p)"
    using n by (auto simp: min_def word_gt_0)
  have more: "n < x \<Longrightarrow> 0 < x - n" for x by (auto simp: word_gt_0)
  show "positive p'"
    using assms last rest flying lin more n
    by (auto simp: checkoutWork_def Let_def positive_def outstanding_def not_le split: if_splits)
qed

lemma checkout_ids:
  assumes "checkoutWork now n w p = (Some cw, p')" and "pool_ids p" and "next_chunk_id p < kInitialChunk"
  shows "pool_ids p'" and "holder p' = (holder p)(chunk_id cw \<mapsto> w)" and "holder p (chunk_id cw) = None"
    and "holder p' (chunk_id cw) = Some w" and "chunk_id cw < kInitialChunk"
proof -
  note s = checkoutWork_shape(2) [OF assms(1) refl]
  have inc: "next_chunk_id p + 1 \<le> kInitialChunk" "next_chunk_id p < next_chunk_id p + 1"
    using assms(3) by (auto simp: kInitialChunk_def word_le_nat_alt word_less_nat_alt unat_word_ariths)
  show none: "holder p (chunk_id cw) = None"
    using assms(2) s holder_dom [of p "chunk_id cw"] by (auto simp: pool_ids_def)
  show ids: "pool_ids p'" using assms(2) s inc by (auto simp: pool_ids_def)
  show h: "holder p' = (holder p)(chunk_id cw \<mapsto> w)"
    using s none by (auto simp: holder_def map_add_def fun_eq_iff split: option.split)
  then show "holder p' (chunk_id cw) = Some w" by simp
  show "chunk_id cw < kInitialChunk" using s assms(3) by simp
qed

lemma take_chunk_ids:
  assumes "take_chunk cid (in_flight p) = Some (c, rest)" and "pool_ids p" and "in_flight p' = rest"
    and "next_chunk_id p' = next_chunk_id p"
  shows "pool_ids p'" and "holder p' = (holder p)(cid := None)"
proof -
  from take_chunk_split [OF assms(1)] obtain pre post where
    s: "in_flight p = pre @ c # post" "rest = pre @ post" "chunk_id c = cid" by blast
  show "pool_ids p'" using assms s by (auto simp: pool_ids_def)
  have "cid \<notin> chunk_id ` set pre" "cid \<notin> chunk_id ` set post" using assms(2) s by (auto simp: pool_ids_def)
  then have "map_of (map (\<lambda>cw. (chunk_id cw, worker_id cw)) pre) cid = None"
      "map_of (map (\<lambda>cw. (chunk_id cw, worker_id cw)) post) cid = None"
    by (simp_all add: map_of_eq_None_iff image_image)
  then show "holder p' = (holder p)(cid := None)"
    using s assms(3) by (auto simp: holder_def fun_eq_iff map_add_def split: option.split)
qed

text \<open>What the three operations that take a chunk out of flight do to the holders.\<close>

lemma release_ids:
  assumes "pool_ids p" and "positive p"
  shows "pool_ids (snd (returnChunk cid p))" "holder (snd (returnChunk cid p)) = (holder p)(cid := None)"
    "positive (snd (returnChunk cid p))"
    and "pool_ids (reclaimPartial cid n p)" "holder (reclaimPartial cid n p) = (holder p)(cid := None)"
    "positive (reclaimPartial cid n p)"
proof -
  have none: "take_chunk cid (in_flight p) = None \<Longrightarrow> (holder p)(cid := None) = holder p"
    using holder_dom [of p cid] by (auto simp: take_chunk_None_iff fun_eq_iff)
  have sub: "u \<in> set (map co_unit rest) \<union> set (returned p) \<Longrightarrow> 0 < wu_count u"
    "0 < wu_count (co_unit c)"
    if "take_chunk cid (in_flight p) = Some (c, rest)" for c rest u
    using outstanding_split(2) [OF that] assms(2) by (auto simp: positive_def)
  show "pool_ids (snd (returnChunk cid p))" "holder (snd (returnChunk cid p)) = (holder p)(cid := None)"
    using none take_chunk_ids [OF _ assms(1)] assms(1)
    by (auto simp: returnChunk_def split: option.split)
  show "pool_ids (reclaimPartial cid n p)" "holder (reclaimPartial cid n p) = (holder p)(cid := None)"
    using none take_chunk_ids [OF _ assms(1)] assms(1)
    by (auto simp: reclaimPartial_def Let_def split: option.split)
  show "positive (snd (returnChunk cid p))"
    using sub assms(2) by (auto simp: returnChunk_def positive_def outstanding_def split: option.split)
  show "positive (reclaimPartial cid n p)"
    using sub assms(2) by (auto simp: reclaimPartial_def Let_def positive_def outstanding_def split: option.split)
qed

lemma reclaimWork_eq:
  "in_flight (snd (reclaimWork w p)) = filter (\<lambda>cw. worker_id cw \<noteq> w) (in_flight p)"
  "returned (snd (reclaimWork w p)) = returned p @ map co_unit (filter (\<lambda>cw. worker_id cw = w) (in_flight p))"
  "next_chunk_id (snd (reclaimWork w p)) = next_chunk_id p"
  by (simp_all add: reclaimWork_def reclaim_loop_spec)

lemma reclaimWork_ids:
  assumes "pool_ids p"
  shows "pool_ids (snd (reclaimWork w p))"
    and "holder (snd (reclaimWork w p)) cid = (if holder p cid = Some w then None else holder p cid)"
    and "positive p \<Longrightarrow> positive (snd (reclaimWork w p))"
proof -
  show ids: "pool_ids (snd (reclaimWork w p))"
    using assms by (auto simp: pool_ids_def reclaimWork_eq distinct_map_filter)
  have "holder (snd (reclaimWork w p)) cid = Some v \<longleftrightarrow> holder p cid = Some v \<and> v \<noteq> w" for v
    using holder_some [OF ids] holder_some [OF assms] by (auto simp: reclaimWork_eq)
  then show "holder (snd (reclaimWork w p)) cid = (if holder p cid = Some w then None else holder p cid)"
    by (metis option.collapse option.inject)
  show "positive p \<Longrightarrow> positive (snd (reclaimWork w p))"
    by (auto simp: positive_def outstanding_def reclaimWork_eq)
qed

section \<open>The invariant\<close>

text \<open>
  The ledger of the pool holds, chunk identifiers in flight are distinct and below the next one,
  no outstanding range is empty, every worker that is believed to hold a pool chunk holds it in
  the pool, and so does the coordinator's own sieve thread, under worker id 0.
\<close>

definition pool_ok :: "nat \<Rightarrow> nat \<Rightarrow> work_pool \<Rightarrow> nat set \<Rightarrow> bool" where
  "pool_ok a0 n p d \<longleftrightarrow> pool_inv a0 n (p, d) \<and> positive p \<and> pool_ids p"

definition claims_ok :: "coordinator \<Rightarrow> bool" where
  "claims_ok c \<longleftrightarrow>
     (\<forall>w. holds_pool_chunk (tracker c w) \<longrightarrow> w \<noteq> 0 \<and> holder (co_pool c) (wt_chunk (tracker c w)) = Some w)
     \<and> (\<forall>cid. co_local c = Some cid \<longrightarrow> holder (co_pool c) cid = Some 0)"

definition coord_inv :: "nat \<Rightarrow> nat \<Rightarrow> coordinator \<times> nat set \<Rightarrow> bool" where
  "coord_inv a0 n = (\<lambda>(c, d). pool_ok a0 n (co_pool c) d \<and> claims_ok c
     \<and> cap_windows (co_sched c) = 0 \<and> co_overlaps c = [])"

lemma owners_two:
  assumes "x \<in> set xs" and "y \<in> set xs" and "x \<noteq> y" and "i \<in> span (co_unit x)" and "i \<in> span (co_unit y)"
  shows "2 \<le> owners i (map co_unit xs)"
proof -
  obtain pre post where xs: "xs = pre @ x # post" using assms(1) by (meson split_list)
  have "y \<in> set pre \<or> y \<in> set post" using assms(2,3) xs by auto
  then have "1 \<le> owners i (map co_unit pre) + owners i (map co_unit post)"
    using owners_pos [of "co_unit y" "map co_unit pre" i] owners_pos [of "co_unit y" "map co_unit post" i] assms(5)
    by auto
  then show ?thesis using xs assms(4) by simp
qed

text \<open>The diagnosis of overlapping chunks never fires on a pool that satisfies its invariant.\<close>

lemma no_overlap_reports:
  assumes ok: "pool_ok a0 n p d" and cw: "cw \<in> set (in_flight p)"
  shows "overlap_reports cw p = []"
proof -
  have "\<not> overlaps_with cw x" if x: "x \<in> set (in_flight p)" "chunk_id x \<noteq> chunk_id cw" for x
  proof
    assume o: "overlaps_with cw x"
    have inv: "pool_inv a0 n (p, d)" and pos: "positive p" using ok by (simp_all add: pool_ok_def)
    have mem: "co_unit u \<in> set (outstanding p)" if "u \<in> set (in_flight p)" for u using that by (simp add: outstanding_def)
    have hi: "unat (wu_start (co_unit u) + wu_count (co_unit u)) = unat (wu_start (co_unit u)) + unat (wu_count (co_unit u))"
      if "u \<in> set (in_flight p)" for u
      using unit_ok_no_wrap [OF pool_inv_unit_ok [OF inv mem [OF that]]] by (simp add: unat_add_exact)
    have cnt: "0 < unat (wu_count (co_unit u))" if "u \<in> set (in_flight p)" for u
      using pos mem [OF that] by (simp add: positive_def word_less_nat_alt)
    let ?i = "max (unat (wu_start (co_unit cw))) (unat (wu_start (co_unit x)))"
    have "?i \<in> span (co_unit cw)" "?i \<in> span (co_unit x)"
      using o cnt [OF cw] cnt [OF x(1)]
      by (auto simp: overlaps_with_def Let_def span_def word_less_nat_alt hi [OF cw] hi [OF x(1)])
    then have "2 \<le> owners ?i (map co_unit (in_flight p))" using owners_two [OF cw x(1)] x(2) by blast
    then show False using pool_inv_owner_le [OF inv, of ?i] by (simp add: outstanding_def split: if_splits)
  qed
  then show ?thesis by (auto simp: overlap_reports_def inFlightChunks_def filter_empty_conv)
qed

lemma send_assignment_frame:
  assumes "send_assignment tn w dr cw c = (b, c')"
  shows "co_pool c' = co_pool c" "tracker c' v = tracker c v" "co_sched c' = co_sched c" "co_data c' = co_data c"
    "co_local c' = co_local c" "co_overlaps c' = co_overlaps c"
  using assms by (auto simp: send_assignment_def Let_def tracker_def split: if_splits)

lemma checkout_ok:
  assumes ok: "pool_ok a0 n p d" and c: "checkoutWork now k w p = (Some cw, p')" and k: "0 < k"
    and room: "next_chunk_id p < kInitialChunk"
  shows "pool_ok a0 n p' d" "overlap_reports cw p' = []"
proof -
  show "pool_ok a0 n p' d"
    using checkoutWork_inv [of a0 n p d now k w] checkout_ids(1) [OF c _ room] checkoutWork_shape(3) [OF c _ k] ok c
    by (simp add: pool_ok_def)
  then show "overlap_reports cw p' = []"
    by (rule no_overlap_reports) (use checkoutWork_shape(2) [OF c refl] in simp)
qed

lemma returnChunk_ok: "pool_ok a0 n p d \<Longrightarrow> pool_ok a0 n (snd (returnChunk cid p)) d"
  by (simp add: pool_ok_def returnChunk_inv release_ids)

lemma reclaimWork_ok: "pool_ok a0 n p d \<Longrightarrow> pool_ok a0 n (snd (reclaimWork w p)) d"
  by (simp add: pool_ok_def reclaimWork_inv reclaimWork_ids)

lemma reclaimPartial_ok: "pool_ok a0 n p d \<Longrightarrow> pool_ok a0 n (reclaimPartial cid k p) (d \<union> finished_by_partial cid k p)"
  by (simp add: pool_ok_def reclaimPartial_inv release_ids)

lemma chunk_size_pos: "cap_windows s = 0 \<Longrightarrow> 0 < nextChunkSize F s w"
  using next_chunk_range [of F s w] by (auto simp: word_le_nat_alt word_less_nat_alt)

lemmas coord_defs = coord_inv_def claims_ok_def

lemma coord_invI:
  assumes "pool_ok a0 n (co_pool c) d" "cap_windows (co_sched c) = 0" "co_overlaps c = []"
    and "\<And>w. holds_pool_chunk (tracker c w) \<Longrightarrow> w \<noteq> 0 \<and> holder (co_pool c) (wt_chunk (tracker c w)) = Some w"
    and "\<And>cid. co_local c = Some cid \<Longrightarrow> holder (co_pool c) cid = Some 0"
  shows "coord_inv a0 n (c, d)"
  using assms by (simp add: coord_defs)

lemma coord_invD:
  assumes "coord_inv a0 n (c, d)"
  shows "pool_ok a0 n (co_pool c) d" "cap_windows (co_sched c) = 0" "co_overlaps c = []" "pool_ids (co_pool c)" "positive (co_pool c)"
    and "holds_pool_chunk (tracker c w) \<Longrightarrow> w \<noteq> 0 \<and> holder (co_pool c) (wt_chunk (tracker c w)) = Some w"
    and "co_local c = Some cid \<Longrightarrow> holder (co_pool c) cid = Some 0"
  using assms by (simp_all add: coord_defs pool_ok_def)

lemma coord_inv_frame:
  assumes "coord_inv a0 n (c, d)" and "co_pool c' = co_pool c" and "co_sched c' = co_sched c" and "co_overlaps c' = co_overlaps c"
    and "co_local c' = co_local c" and "\<And>w. wt_chunk (tracker c' w) = wt_chunk (tracker c w) \<or> wt_chunk (tracker c' w) = IDLE"
  shows "coord_inv a0 n (c', d)"
proof -
  note inv = coord_invD [OF assms(1)]
  show ?thesis
  proof (rule coord_invI)
    fix w assume h: "holds_pool_chunk (tracker c' w)"
    then have "wt_chunk (tracker c' w) = wt_chunk (tracker c w)" using assms(6) [of w] by (auto simp: holds_pool_chunk_def)
    then show "w \<noteq> 0 \<and> holder (co_pool c') (wt_chunk (tracker c' w)) = Some w"
      using inv(6) [of w] h assms(2) by (simp add: holds_pool_chunk_def)
  qed (use assms(2-5) inv in simp_all)
qed

section \<open>Every handler keeps the invariant\<close>

text \<open>The outcomes of an assignment.\<close>

lemma assignChunkTo_idle:
  assumes "wt_chunk (tracker c w) = IDLE" and "\<not> targetReached (cd_acc (co_data c))" and "\<not> exhausted (co_pool c)"
  obtains cw p c' where
    "checkoutWork (tn_checkout tn w) (nextChunkSize F (co_sched c) w) w (co_pool c) = (Some cw, p)"
    "co_pool c' = p" "co_sched c' = co_sched c" "co_data c' = co_data c" "co_local c' = co_local c"
    "co_overlaps c' = co_overlaps c @ overlap_reports cw p" "\<And>v. tracker c' v = tracker c v"
    "assignChunkTo F tn w dr re c = (True, update_tracker w (\<lambda>t. t\<lparr>wt_chunk := chunk_id cw\<rparr>)
        (if re then c'\<lparr>co_redispatched := co_redispatched c' + 1\<rparr> else c'))
     \<or> assignChunkTo F tn w dr re c = (False, c'\<lparr>co_pool := snd (returnChunk (chunk_id cw) p), co_failed_sends := co_failed_sends c' + 1\<rparr>)"
    "tn_send tn w \<Longrightarrow> \<not> (dr \<and> ds_armed (co_drop c)) \<Longrightarrow> fst (assignChunkTo F tn w dr re c)"
proof -
  obtain cw p where k: "checkoutWork (tn_checkout tn w) (nextChunkSize F (co_sched c) w) w (co_pool c) = (Some cw, p)"
    using assms(3) by (fastforce simp: exhausted_def checkoutWork_def Let_def)
  let ?c = "(update_tracker w id c)\<lparr>co_pool := p, co_overlaps := co_overlaps c @ overlap_reports cw p\<rparr>"
  obtain b c' where s: "send_assignment tn w dr cw ?c = (b, c')" by fastforce
  have f: "co_pool c' = p" "co_sched c' = co_sched c" "co_data c' = co_data c" "co_local c' = co_local c"
      "co_overlaps c' = co_overlaps c @ overlap_reports cw p" "tracker c' v = tracker c v" for v
    using send_assignment_frame [OF s] by auto
  have sent: "b" if "tn_send tn w" "\<not> (dr \<and> ds_armed (co_drop c))"
    using s that by (auto simp: send_assignment_def Let_def mpqsDebugShouldDropChunkAssign_def split: if_splits)
  have eq: "assignChunkTo F tn w dr re c = (if b then (True, update_tracker w (\<lambda>t. t\<lparr>wt_chunk := chunk_id cw\<rparr>)
        (if re then c'\<lparr>co_redispatched := co_redispatched c' + 1\<rparr> else c'))
     else (False, c'\<lparr>co_pool := snd (returnChunk (chunk_id cw) p), co_failed_sends := co_failed_sends c' + 1\<rparr>))"
    using assms k s f(1) by (simp add: assignChunkTo_def Let_def)
  show ?thesis
    by (rule that [OF k f]) (use eq sent in auto)
qed

lemma assignChunkTo_refused:
  assumes "\<not> (wt_chunk (tracker c w) = IDLE \<and> \<not> targetReached (cd_acc (co_data c)) \<and> \<not> exhausted (co_pool c))"
  shows "assignChunkTo F tn w dr re c = (False, update_tracker w id c)"
  using assms by (auto simp: assignChunkTo_def Let_def)

lemma assign_inv:
  assumes inv: "coord_inv a0 n (c, d)" and w: "w \<noteq> 0" and room: "unat (next_chunk_id (co_pool c)) < unat kInitialChunk"
  shows "coord_inv a0 n (snd (assignChunkTo F tn w dr re c), d)"
    and "unat (next_chunk_id (co_pool (snd (assignChunkTo F tn w dr re c)))) \<le> unat (next_chunk_id (co_pool c)) + 1"
proof (atomize (full), cases "wt_chunk (tracker c w) = IDLE \<and> \<not> targetReached (cd_acc (co_data c)) \<and> \<not> exhausted (co_pool c)")
  case False
  then show "coord_inv a0 n (snd (assignChunkTo F tn w dr re c), d) \<and>
      unat (next_chunk_id (co_pool (snd (assignChunkTo F tn w dr re c)))) \<le> unat (next_chunk_id (co_pool c)) + 1"
    using coord_inv_frame [OF inv, of "update_tracker w id c"] by (simp add: assignChunkTo_refused)
next
  case True
  then have ready: "wt_chunk (tracker c w) = IDLE" "\<not> targetReached (cd_acc (co_data c))" "\<not> exhausted (co_pool c)" by simp_all
  note i = coord_invD [OF inv]
  obtain cw p c' where k: "checkoutWork (tn_checkout tn w) (nextChunkSize F (co_sched c) w) w (co_pool c) = (Some cw, p)"
    and f: "co_pool c' = p" "co_sched c' = co_sched c" "co_data c' = co_data c" "co_local c' = co_local c"
      "co_overlaps c' = co_overlaps c @ overlap_reports cw p" "\<And>v. tracker c' v = tracker c v"
    and r: "assignChunkTo F tn w dr re c = (True, update_tracker w (\<lambda>t. t\<lparr>wt_chunk := chunk_id cw\<rparr>)
        (if re then c'\<lparr>co_redispatched := co_redispatched c' + 1\<rparr> else c'))
     \<or> assignChunkTo F tn w dr re c = (False, c'\<lparr>co_pool := snd (returnChunk (chunk_id cw) p), co_failed_sends := co_failed_sends c' + 1\<rparr>)"
    using assignChunkTo_idle [OF ready, of tn F dr re] by metis
  have room': "next_chunk_id (co_pool c) < kInitialChunk" using room by (simp add: word_less_nat_alt)
  note ids = checkout_ids [OF k i(4) room']
  note ok = checkout_ok [OF i(1) k chunk_size_pos [OF i(2)] room']
  have nxt: "unat (next_chunk_id p) \<le> unat (next_chunk_id (co_pool c)) + 1"
    using checkoutWork_shape(2) [OF k refl] room by (simp add: unat_word_ariths)
  have kept: "holder p cid = holder (co_pool c) cid" if "holder (co_pool c) cid \<noteq> None" for cid
    using ids(2,3) that by auto
  from r show "coord_inv a0 n (snd (assignChunkTo F tn w dr re c), d) \<and>
      unat (next_chunk_id (co_pool (snd (assignChunkTo F tn w dr re c)))) \<le> unat (next_chunk_id (co_pool c)) + 1"
  proof (elim disjE)
    assume r: "assignChunkTo F tn w dr re c = (True, update_tracker w (\<lambda>t. t\<lparr>wt_chunk := chunk_id cw\<rparr>)
        (if re then c'\<lparr>co_redispatched := co_redispatched c' + 1\<rparr> else c'))"
    let ?c = "snd (assignChunkTo F tn w dr re c)"
    have pool: "co_pool ?c = p" "co_sched ?c = co_sched c" "co_overlaps ?c = co_overlaps c" "co_local ?c = co_local c"
      and tr: "wt_chunk (tracker ?c v) = (if v = w then chunk_id cw else wt_chunk (tracker c v))" for v
      using r f ok(2) by auto
    have "coord_inv a0 n (?c, d)"
    proof (rule coord_invI)
      fix v assume h: "holds_pool_chunk (tracker ?c v)"
      show "v \<noteq> 0 \<and> holder (co_pool ?c) (wt_chunk (tracker ?c v)) = Some v"
      proof (cases "v = w")
        case False
        then have "v \<noteq> 0 \<and> holder (co_pool c) (wt_chunk (tracker c v)) = Some v"
          using i(6) [of v] h tr [of v] by (simp add: holds_pool_chunk_def)
        then show ?thesis using False kept [of "wt_chunk (tracker c v)"] pool tr [of v] by simp
      qed (use w ids pool tr in simp)
    next
      fix cid assume "co_local ?c = Some cid"
      then have "holder (co_pool c) cid = Some 0" using i(7) pool by simp
      then show "holder (co_pool ?c) cid = Some 0" using kept [of cid] pool by simp
    qed (use ok i pool in simp_all)
    then show ?thesis using nxt pool by simp
  next
    assume r: "assignChunkTo F tn w dr re c = (False, c'\<lparr>co_pool := snd (returnChunk (chunk_id cw) p), co_failed_sends := co_failed_sends c' + 1\<rparr>)"
    let ?c = "snd (assignChunkTo F tn w dr re c)"
    have pos: "positive p" using ok(1) by (simp add: pool_ok_def)
    have same: "holder (snd (returnChunk (chunk_id cw) p)) = holder (co_pool c)"
      using release_ids(2) [OF ids(1) pos, of "chunk_id cw"] ids(2,3) by auto
    have pool: "co_pool ?c = snd (returnChunk (chunk_id cw) p)" "co_sched ?c = co_sched c" "co_overlaps ?c = co_overlaps c"
        "co_local ?c = co_local c" "tracker ?c v = tracker c v" for v
      using r f ok(2) by auto
    have "coord_inv a0 n (?c, d)"
      by (rule coord_invI) (use returnChunk_ok [OF ok(1)] i same pool in simp_all)
    moreover have "next_chunk_id (snd (returnChunk cid p)) = next_chunk_id p" for cid
      by (simp add: returnChunk_def split: option.split)
    ultimately show ?thesis using nxt pool by simp
  qed
qed

text \<open>Taking back what one worker holds and making it idle.\<close>

lemma coord_inv_release:
  assumes inv: "coord_inv a0 n (c, d)" and w: "w \<noteq> 0" and ok: "pool_ok a0 n (co_pool c') d'"
    and kept: "\<And>cid. holder (co_pool c) cid \<noteq> Some w \<Longrightarrow> holder (co_pool c') cid = holder (co_pool c) cid"
    and same: "cap_windows (co_sched c') = cap_windows (co_sched c)" "co_overlaps c' = co_overlaps c" "co_local c' = co_local c"
    and idle: "wt_chunk (tracker c' w) = IDLE" and others: "\<And>v. v \<noteq> w \<Longrightarrow> wt_chunk (tracker c' v) = wt_chunk (tracker c v)"
  shows "coord_inv a0 n (c', d')"
proof (rule coord_invI)
  note i = coord_invD [OF inv]
  fix v assume h: "holds_pool_chunk (tracker c' v)"
  then have v: "v \<noteq> w" using idle by (auto simp: holds_pool_chunk_def)
  then have "v \<noteq> 0 \<and> holder (co_pool c) (wt_chunk (tracker c v)) = Some v"
    using i(6) [of v] h others [OF v] by (simp add: holds_pool_chunk_def)
  then show "v \<noteq> 0 \<and> holder (co_pool c') (wt_chunk (tracker c' v)) = Some v"
    using v kept [of "wt_chunk (tracker c v)"] others [OF v] by simp
next
  fix cid assume "co_local c' = Some cid"
  then have "holder (co_pool c) cid = Some 0" using coord_invD(7) [OF inv] same by simp
  then show "holder (co_pool c') cid = Some 0" using w kept [of cid] by simp
qed (use ok same coord_invD [OF inv] in simp_all)

text \<open>What a completion lets the ledger count as finished.\<close>

definition completion_finishes :: "u8 \<Rightarrow> chunk_complete \<Rightarrow> coordinator \<Rightarrow> nat set" where
  "completion_finishes w cc c =
     (if wt_chunk (tracker c w) = cc_chunk_id cc \<and> holds_pool_chunk (tracker c w)
      then finished_by_partial (cc_chunk_id cc) (cc_a_values_consumed cc) (co_pool c) else {})"

lemma capture_high_water_frame [simp]:
  "co_pool (capture_high_water w cc c) = co_pool c" "co_sched (capture_high_water w cc c) = co_sched c"
  "tracker (capture_high_water w cc c) v = tracker c v" "co_overlaps (capture_high_water w cc c) = co_overlaps c"
  "co_local (capture_high_water w cc c) = co_local c" "co_data (capture_high_water w cc c) = co_data c"
  "co_drop (capture_high_water w cc c) = co_drop c" "co_all_flushed (capture_high_water w cc c) = co_all_flushed c"
  "co_log (capture_high_water w cc c) = co_log c"
  by (simp_all add: capture_high_water_def Let_def)

lemma recordCompletion_cap [simp]: "cap_windows (recordCompletion F w r a e s) = cap_windows s"
  by (simp add: recordCompletion_def)

lemma record_complete_frame:
  "co_pool (record_complete F w cc c) = (if wt_chunk (tracker c w) = cc_chunk_id cc \<and> holds_pool_chunk (tracker c w)
     then reclaimPartial (cc_chunk_id cc) (cc_a_values_consumed cc) (co_pool c) else co_pool c)"
  "cap_windows (co_sched (record_complete F w cc c)) = cap_windows (co_sched c)"
  "co_overlaps (record_complete F w cc c) = co_overlaps c" "co_local (record_complete F w cc c) = co_local c"
  "wt_chunk (tracker (record_complete F w cc c) v) = (if v = w then IDLE else wt_chunk (tracker c v))"
  "cd_acc (co_data (record_complete F w cc c)) = cd_acc (co_data c)"
  by (auto simp: record_complete_def Let_def)

lemma reclaimPartial_next [simp]: "next_chunk_id (reclaimPartial cid k p) = next_chunk_id p"
  by (simp add: reclaimPartial_def Let_def split: option.split)

lemma returnChunk_next [simp]: "next_chunk_id (snd (returnChunk cid p)) = next_chunk_id p"
  by (simp add: returnChunk_def split: option.split)

lemma record_complete_inv:
  assumes inv: "coord_inv a0 n (c, d)" and w: "w \<noteq> 0"
  shows "coord_inv a0 n (record_complete F w cc c, d \<union> completion_finishes w cc c)"
    and "next_chunk_id (co_pool (record_complete F w cc c)) = next_chunk_id (co_pool c)"
proof -
  note i = coord_invD [OF inv] and f = record_complete_frame [of F w cc c]
  show "next_chunk_id (co_pool (record_complete F w cc c)) = next_chunk_id (co_pool c)" by (simp add: f)
  show "coord_inv a0 n (record_complete F w cc c, d \<union> completion_finishes w cc c)"
  proof (rule coord_inv_release [OF inv w])
    show "pool_ok a0 n (co_pool (record_complete F w cc c)) (d \<union> completion_finishes w cc c)"
      using i(1) reclaimPartial_ok [OF i(1)] by (simp add: f completion_finishes_def)
    show "holder (co_pool (record_complete F w cc c)) cid = holder (co_pool c) cid" if "holder (co_pool c) cid \<noteq> Some w" for cid
      using that i(6) [of w] release_ids(5) [OF i(4,5)] by (auto simp: f)
  qed (simp_all add: f)
qed

lemma take_back_frame:
  "co_pool (take_back now w c) = (if holds_pool_chunk (tracker c w)
     then snd (returnChunk (wt_chunk (tracker c w)) (co_pool c)) else co_pool c)"
  "co_sched (take_back now w c) = co_sched c" "co_overlaps (take_back now w c) = co_overlaps c"
  "co_local (take_back now w c) = co_local c" "co_data (take_back now w c) = co_data c"
  "wt_chunk (tracker (take_back now w c) v) = (if v = w then IDLE else wt_chunk (tracker c v))"
  by (auto simp: take_back_def Let_def holds_pool_chunk_def)

lemma take_back_inv:
  assumes inv: "coord_inv a0 n (c, d)" and w: "w \<noteq> 0"
  shows "coord_inv a0 n (take_back now w c, d)" and "next_chunk_id (co_pool (take_back now w c)) = next_chunk_id (co_pool c)"
proof -
  note i = coord_invD [OF inv] and f = take_back_frame [of now w c]
  show "next_chunk_id (co_pool (take_back now w c)) = next_chunk_id (co_pool c)" by (simp add: f)
  show "coord_inv a0 n (take_back now w c, d)"
  proof (rule coord_inv_release [OF inv w])
    show "pool_ok a0 n (co_pool (take_back now w c)) d" using i(1) returnChunk_ok [OF i(1)] by (simp add: f)
    show "holder (co_pool (take_back now w c)) cid = holder (co_pool c) cid" if "holder (co_pool c) cid \<noteq> Some w" for cid
      using that i(6) [of w] release_ids(2) [OF i(4,5)] by (auto simp: f)
  qed (simp_all add: f)
qed

lemma check_straggler_frame:
  "co_pool (check_straggler F now r cow c) = co_pool c" "co_sched (check_straggler F now r cow c) = co_sched c"
  "co_overlaps (check_straggler F now r cow c) = co_overlaps c" "co_local (check_straggler F now r cow c) = co_local c"
  "tracker (check_straggler F now r cow c) v = tracker c v" "co_data (check_straggler F now r cow c) = co_data c"
  by (simp_all add: check_straggler_def)

lemma checkStragglers_frame [simp]:
  "co_pool (checkStragglers F now c) = co_pool c" "co_sched (checkStragglers F now c) = co_sched c"
  "co_overlaps (checkStragglers F now c) = co_overlaps c" "co_local (checkStragglers F now c) = co_local c"
  "tracker (checkStragglers F now c) v = tracker c v" "co_data (checkStragglers F now c) = co_data c"
proof -
  have "co_pool (fold (check_straggler F now r) cs c) = co_pool c \<and> co_sched (fold (check_straggler F now r) cs c) = co_sched c
      \<and> co_overlaps (fold (check_straggler F now r) cs c) = co_overlaps c \<and> co_local (fold (check_straggler F now r) cs c) = co_local c
      \<and> tracker (fold (check_straggler F now r) cs c) v = tracker c v \<and> co_data (fold (check_straggler F now r) cs c) = co_data c" for r cs
    by (induction cs arbitrary: c) (auto simp: check_straggler_frame)
  then show "co_pool (checkStragglers F now c) = co_pool c" "co_sched (checkStragglers F now c) = co_sched c"
    "co_overlaps (checkStragglers F now c) = co_overlaps c" "co_local (checkStragglers F now c) = co_local c"
    "tracker (checkStragglers F now c) v = tracker c v" "co_data (checkStragglers F now c) = co_data c"
    by (simp_all add: checkStragglers_def Let_def)
qed

text \<open>A control message; only completions finish a-values.\<close>

definition control_finishes :: "recv_message \<Rightarrow> coordinator \<Rightarrow> nat set" where
  "control_finishes m c =
     (if msg_type m = CHUNK_COMPLETE \<and> length (payload m) \<ge> 32
      then completion_finishes (sender_id m) (read_chunk_complete (payload m)) c else {})"

lemma on_control_inv:
  assumes inv: "coord_inv a0 n (c, d)" and w: "sender_id m \<noteq> 0" and room: "unat (next_chunk_id (co_pool c)) < unat kInitialChunk"
  shows "coord_inv a0 n (on_control F now tn m c, d \<union> control_finishes m c)"
    and "unat (next_chunk_id (co_pool (on_control F now tn m c))) \<le> unat (next_chunk_id (co_pool c)) + 1"
proof -
  let ?w = "sender_id m" and ?cc = "read_chunk_complete (payload m)"
  note recd = record_complete_inv [OF inv w, of F ?cc]
  note fin = assign_inv [OF recd(1) w, of F tn True False]
  note bk = take_back_inv [OF inv w, of now]
  note req = assign_inv [OF bk(1) w, of F tn False True]
  have hb: "coord_inv a0 n (update_tracker ?w (\<lambda>t. t\<lparr>wt_heartbeat := now\<rparr>) c, d)"
    by (rule coord_inv_frame [OF inv]) simp_all
  have fl: "coord_inv a0 n (count_flushed c, d)"
    by (rule coord_inv_frame [OF inv]) (simp_all add: count_flushed_def Let_def tracker_def)
  have straggle: "coord_inv a0 n (checkStragglers F k x, e)" if "coord_inv a0 n (x, e)" for k x e
    by (rule coord_inv_frame [OF that]) simp_all
  show "coord_inv a0 n (on_control F now tn m c, d \<union> control_finishes m c)"
    using inv straggle fin(1) req(1) hb fl room recd(2) bk(2)
    by (auto simp: on_control_def on_chunk_complete_def on_chunk_request_def on_heartbeat_def control_finishes_def Let_def msg_codes)
  show "unat (next_chunk_id (co_pool (on_control F now tn m c))) \<le> unat (next_chunk_id (co_pool c)) + 1"
    using fin(2) req(2) room recd(2) bk(2)
    by (auto simp: on_control_def on_chunk_complete_def on_chunk_request_def on_heartbeat_def count_flushed_def Let_def)
qed

section \<open>Timeouts and the sweep\<close>

text \<open>The workers that have an entry in the map of trackers.\<close>

definition known :: "coordinator \<Rightarrow> u8 list" where
  "known c = map fst (co_trackers c)"

lemma keys_update: "map fst (update_entry d k f kvs) = (if k \<in> set (map fst kvs) then map fst kvs else map fst kvs @ [k])"
  by (induction kvs) (simp_all add: split_paired_all)

lemma known_update [simp]: "known (update_tracker w f c) = (if w \<in> set (known c) then known c else known c @ [w])"
  by (simp add: known_def update_tracker_def keys_update del: set_map)

lemma known_frame [simp]:
  "known (c\<lparr>co_pool := p\<rparr>) = known c" "known (c\<lparr>co_sched := s\<rparr>) = known c" "known (c\<lparr>co_data := st\<rparr>) = known c"
  "known (c\<lparr>co_disconnected := ws\<rparr>) = known c" "known (c\<lparr>co_timeout_check := n\<rparr>) = known c"
  "known (c\<lparr>co_redispatched := r\<rparr>) = known c" "known (c\<lparr>co_local := l\<rparr>) = known c"
  "known (c\<lparr>co_failed_sends := r\<rparr>) = known c" "known (c\<lparr>co_node0_hw := h\<rparr>) = known c"
  by (simp_all add: known_def)

lemma send_assignment_known: "known (snd (send_assignment tn w dr cw c)) = known c"
  by (simp add: send_assignment_def Let_def known_def)

lemma known_assign: "set (known (snd (assignChunkTo F tn w dr re c))) = insert w (set (known c))"
proof -
  have k: "known c' = known (update_tracker w id c)"
    if "send_assignment tn w dr cw ((update_tracker w id c)\<lparr>co_pool := p, co_overlaps := ov\<rparr>) = (b, c')" for cw p ov b c'
    using send_assignment_known [of tn w dr cw "(update_tracker w id c)\<lparr>co_pool := p, co_overlaps := ov\<rparr>"] that
    by (simp add: known_def)
  show ?thesis
    by (auto simp: assignChunkTo_def Let_def split: option.split prod.split bool.split dest!: k)
qed

lemma known_control: "set (known (on_control F now tn m c)) \<subseteq> insert (sender_id m) (set (known c))"
proof -
  have cap: "known (capture_high_water w cc x) = known x" for w cc x by (simp add: capture_high_water_def Let_def known_def)
  have rc: "set (known (record_complete F w cc c)) \<subseteq> insert w (set (known c))" for w cc
    by (auto simp: record_complete_def Let_def cap)
  have tb: "set (known (take_back k w c)) \<subseteq> insert w (set (known c))" for k w
    by (auto simp: take_back_def Let_def)
  have one: "known (check_straggler F k r cow x) = known x" for k r cow x by (simp add: check_straggler_def known_def)
  have "known (fold (check_straggler F k r) cs x) = known x" for k r cs x
    by (induction cs arbitrary: x) (simp_all add: one)
  then have st: "known (checkStragglers F k x) = known x" for k x by (simp add: checkStragglers_def Let_def)
  have fl: "known (count_flushed c) = known c" by (simp add: count_flushed_def Let_def known_def)
  show ?thesis
    using rc tb by (auto simp: on_control_def on_chunk_complete_def on_chunk_request_def on_heartbeat_def Let_def st known_assign fl)
qed

lemma count_flushed_frame [simp]:
  "co_pool (count_flushed c) = co_pool c" "co_sched (count_flushed c) = co_sched c" "co_overlaps (count_flushed c) = co_overlaps c"
  "co_local (count_flushed c) = co_local c" "tracker (count_flushed c) v = tracker c v" "co_data (count_flushed c) = co_data c"
  "known (count_flushed c) = known c"
  by (simp_all add: count_flushed_def Let_def known_def)

lemma check_heartbeat_inv:
  assumes inv: "coord_inv a0 n (c, d)" and w: "w \<noteq> 0" "w \<in> set (known c)"
  shows "coord_inv a0 n (check_heartbeat now w c, d)" "known (check_heartbeat now w c) = known c"
    "next_chunk_id (co_pool (check_heartbeat now w c)) = next_chunk_id (co_pool c)"
    "co_data (check_heartbeat now w c) = co_data c"
proof -
  note i = coord_invD [OF inv]
  let ?c = "check_heartbeat now w c"
  show "known ?c = known c" "next_chunk_id (co_pool ?c) = next_chunk_id (co_pool c)" "co_data ?c = co_data c"
    using w by (simp_all add: check_heartbeat_def Let_def reclaimWork_eq)
  show "coord_inv a0 n (?c, d)"
  proof (cases "wt_alive (tracker c w) \<and> (now - wt_heartbeat (tracker c w)) div 1000000000 > kFlushTimeoutMs div 1000")
    case False
    then show ?thesis using inv by (auto simp: check_heartbeat_def Let_def)
  next
    case True
    then have f: "co_pool ?c = (if holds_pool_chunk (tracker c w) then snd (reclaimWork w (co_pool c)) else co_pool c)"
        "co_sched ?c = co_sched c" "co_overlaps ?c = co_overlaps c" "co_local ?c = co_local c"
        "wt_chunk (tracker ?c v) = (if v = w then IDLE else wt_chunk (tracker c v))" for v
      by (auto simp: check_heartbeat_def Let_def)
    show ?thesis
    proof (rule coord_inv_release [OF inv w(1)])
      show "pool_ok a0 n (co_pool ?c) d" using i(1) reclaimWork_ok [OF i(1)] by (simp add: f)
      show "holder (co_pool ?c) cid = holder (co_pool c) cid" if "holder (co_pool c) cid \<noteq> Some w" for cid
        using that reclaimWork_ids(2) [OF i(4)] by (simp add: f)
    qed (simp_all add: f)
  qed
qed

lemma check_heartbeats_inv:
  assumes "coord_inv a0 n (c, d)" and "0 \<notin> set (known c)" and "set ws \<subseteq> set (known c)"
  shows "coord_inv a0 n (fold (check_heartbeat now) ws c, d) \<and> known (fold (check_heartbeat now) ws c) = known c
    \<and> next_chunk_id (co_pool (fold (check_heartbeat now) ws c)) = next_chunk_id (co_pool c)
    \<and> co_data (fold (check_heartbeat now) ws c) = co_data c"
  using assms
proof (induction ws arbitrary: c)
  case (Cons w ws)
  have "w \<noteq> 0" "w \<in> set (known c)" using Cons.prems by auto
  note h = check_heartbeat_inv [OF Cons.prems(1) this, of now]
  show ?case using Cons.IH [OF h(1)] Cons.prems h by simp
qed simp

lemma sweep_inv:
  assumes "coord_inv a0 n (c, d)" and "0 \<notin> set ws" and "unat (next_chunk_id (co_pool c)) + length ws \<le> unat kInitialChunk"
    and "set ws \<subseteq> set (known c)"
  shows "coord_inv a0 n (sweep F tn ws c, d) \<and> set (known (sweep F tn ws c)) = set (known c)"
  using assms
proof (induction F tn ws c rule: sweep.induct)
  case (2 F tn w ws c)
  show ?case
  proof (cases "\<not> wt_alive (tracker c w) \<or> wt_chunk (tracker c w) \<noteq> IDLE")
    case True
    then show ?thesis using 2 by simp
  next
    case False
    show ?thesis
    proof (cases "exhausted (co_pool c)")
      case True
      then show ?thesis using False 2(3) by simp
    next
      case pool: False
      have w: "w \<noteq> 0" "unat (next_chunk_id (co_pool c)) < unat kInitialChunk" using 2(4,5) by auto
      note a = assign_inv [OF 2(3) w, of F tn False True]
      have k: "set (known (snd (assignChunkTo F tn w False True c))) = set (known c)" using 2(6) by (auto simp: known_assign)
      show ?thesis using 2(2) [OF False pool a(1)] 2(4,5,6) a(2) k False pool by auto
    qed
  qed
qed simp

lemma timeout_pass_inv:
  assumes inv: "coord_inv a0 n (c, d)" and z: "0 \<notin> set (known c)"
    and room: "unat (next_chunk_id (co_pool c)) + length (known c) \<le> unat kInitialChunk"
  shows "coord_inv a0 n (timeout_pass F now tn c, d)" "set (known (timeout_pass F now tn c)) = set (known c)"
proof (atomize (full), cases "now - co_timeout_check c > 5000000000")
  case True
  let ?b = "c\<lparr>co_timeout_check := now\<rparr>" let ?h = "fold (check_heartbeat now) (map fst (co_trackers ?b)) ?b"
  have b: "coord_inv a0 n (?b, d)" by (rule coord_inv_frame [OF inv]) simp_all
  have h: "coord_inv a0 n (?h, d)" "known ?h = known c" "next_chunk_id (co_pool ?h) = next_chunk_id (co_pool c)"
    using check_heartbeats_inv [OF b, of "map fst (co_trackers ?b)" now] z by (simp_all add: known_def)
  have "coord_inv a0 n (sweep F tn (map fst (co_trackers ?h)) ?h, d) \<and> set (known (sweep F tn (map fst (co_trackers ?h)) ?h)) = set (known ?h)"
    by (rule sweep_inv) (use h z room in \<open>simp_all add: known_def\<close>)
  then show "coord_inv a0 n (timeout_pass F now tn c, d) \<and> set (known (timeout_pass F now tn c)) = set (known c)"
    using True h(1,2) by (auto simp: timeout_pass_def Let_def)
next
  case False
  then show "coord_inv a0 n (timeout_pass F now tn c, d) \<and> set (known (timeout_pass F now tn c)) = set (known c)"
    using inv by (simp add: timeout_pass_def)
qed

section \<open>Executions\<close>

lemma local_checkout_inv:
  assumes inv: "coord_inv a0 n (c, d)" and step: "local_checkout F stopped now c = Some c'" and none: "co_local c = None"
    and room: "unat (next_chunk_id (co_pool c)) < unat kInitialChunk"
  shows "coord_inv a0 n (c', d)" and "known c' = known c"
proof -
  note i = coord_invD [OF inv]
  obtain cw p where k: "checkoutWork now (nextChunkSize F (co_sched c) 0) 0 (co_pool c) = (Some cw, p)"
    and c': "c' = c\<lparr>co_pool := p, co_local := Some (chunk_id cw)\<rparr>"
    using step by (auto simp: local_checkout_def split: if_splits option.splits prod.splits)
  have room': "next_chunk_id (co_pool c) < kInitialChunk" using room by (simp add: word_less_nat_alt)
  note ids = checkout_ids [OF k i(4) room'] and ok = checkout_ok [OF i(1) k chunk_size_pos [OF i(2)] room']
  show "coord_inv a0 n (c', d)"
  proof (rule coord_invI)
    fix v assume "holds_pool_chunk (tracker c' v)"
    then have "v \<noteq> 0 \<and> holder (co_pool c) (wt_chunk (tracker c v)) = Some v" using i(6) c' by simp
    then show "v \<noteq> 0 \<and> holder (co_pool c') (wt_chunk (tracker c' v)) = Some v" using ids(2,3) c' by auto
  qed (use ok i ids none c' in auto)
  show "known c' = known c" by (simp add: c')
qed

lemma local_complete_inv:
  assumes inv: "coord_inv a0 n (c, d)" and step: "local_complete F consumed el c = Some c'" and cid: "co_local c = Some cid"
  shows "coord_inv a0 n (c', d \<union> finished_by_partial cid consumed (co_pool c))" and "known c' = known c"
proof -
  note i = coord_invD [OF inv]
  have c': "c' = c\<lparr>co_sched := recordCompletion F 0 0 consumed el (co_sched c),
      co_pool := reclaimPartial cid consumed (co_pool c), co_local := None\<rparr>"
    using step cid by (simp add: local_complete_def)
  show "coord_inv a0 n (c', d \<union> finished_by_partial cid consumed (co_pool c))"
  proof (rule coord_invI)
    fix v assume "holds_pool_chunk (tracker c' v)"
    then have "v \<noteq> 0 \<and> holder (co_pool c) (wt_chunk (tracker c v)) = Some v" using i(6) c' by simp
    then show "v \<noteq> 0 \<and> holder (co_pool c') (wt_chunk (tracker c' v)) = Some v"
      using i(7) [OF cid] c' release_ids(5) [OF i(4,5)] by auto
  qed (use reclaimPartial_ok [OF i(1)] i c' in simp_all)
  show "known c' = known c" by (simp add: c')
qed

text \<open>
  The steps of the two threads, with the ledger of finished a-values. Identifiers of pool chunks
  are 32-bit and the two largest values are sentinels: a run hands out fewer than \<open>2^32 - 2\<close> of them.
\<close>

inductive coord_step :: "float_env \<Rightarrow> coordinator \<times> nat set \<Rightarrow> coordinator \<times> nat set \<Rightarrow> bool" for F where
  step_control: "sender_id m \<noteq> 0 \<Longrightarrow> unat (next_chunk_id (co_pool c)) < unat kInitialChunk \<Longrightarrow>
     coord_step F (c, d) (on_control F now tn m c, d \<union> control_finishes m c)"
| step_batch: "process_batch m c = Some c' \<Longrightarrow> coord_step F (c, d) (c', d)"
| step_local_data: "poll_channel ch (co_data c) = Some (ch', st) \<Longrightarrow> coord_step F (c, d) (c\<lparr>co_data := st\<rparr>, d)"
| step_timeout: "unat (next_chunk_id (co_pool c)) + length (known c) \<le> unat kInitialChunk \<Longrightarrow>
     coord_step F (c, d) (timeout_pass F now tn c, d)"
| step_local_initial: "coord_step F (c, d) (local_initial_done F consumed el c, d)"
| step_local_checkout: "co_local c = None \<Longrightarrow> unat (next_chunk_id (co_pool c)) < unat kInitialChunk \<Longrightarrow>
     local_checkout F stopped now c = Some c' \<Longrightarrow> coord_step F (c, d) (c', d)"
| step_local_complete: "co_local c = Some cid \<Longrightarrow> local_complete F consumed el c = Some c' \<Longrightarrow>
     coord_step F (c, d) (c', d \<union> finished_by_partial cid consumed (co_pool c))"

text \<open>A run starts with a pool at the cursor of a checkpoint, below which everything is finished;
  a fresh run starts with the cursor at the beginning.\<close>

definition coord_start :: "u64 \<Rightarrow> u64 \<Rightarrow> coordinator \<times> nat set \<Rightarrow> bool" where
  "coord_start a tot s \<longleftrightarrow> unat a + unat tot < 2 ^ 64 \<and>
     (\<exists>now workers ranges offs dr st usize sch cursor p. a \<le> cursor \<and> setCursor cursor (WorkPool a tot usize) = Some p
        \<and> unat workers < 255 \<and> cap_windows sch = 0
        \<and> s = (start_coordinator now workers ranges offs dr st p sch, {unat a ..< unat cursor}))"

definition run_inv :: "u64 \<Rightarrow> u64 \<Rightarrow> coordinator \<times> nat set \<Rightarrow> bool" where
  "run_inv a tot s \<longleftrightarrow> coord_inv (unat a) (unat tot) s \<and> 0 \<notin> set (known (fst s))"

lemma entry_initial: "wt_chunk (entry new_tracker w (initial_trackers now n)) \<in> {IDLE, kInitialChunk}"
proof (cases "map_of (initial_trackers now n) w")
  case (Some t)
  then have "(w, t) \<in> set (initial_trackers now n)" by (rule map_of_SomeD)
  then show ?thesis using Some by (auto simp: entry_def initial_trackers_def)
qed (simp add: entry_def new_tracker_def)

lemma coord_start_inv: "coord_start a tot s \<Longrightarrow> run_inv a tot s"
proof -
  assume "coord_start a tot s"
  then obtain now workers ranges offs dr st usize sch cursor p where
    fit: "unat a + unat tot < 2 ^ 64" and cur: "a \<le> cursor" and set: "setCursor cursor (WorkPool a tot usize) = Some p"
    and w: "unat workers < 255" and cap: "cap_windows sch = 0"
    and s: "s = (start_coordinator now workers ranges offs dr st p sch, {unat a ..< unat cursor})"
    unfolding coord_start_def by blast
  let ?c = "start_coordinator now workers ranges offs dr st p sch"
  have p: "in_flight p = []" "returned p = []" "wp_next p = cursor" "wp_end p = a + tot" "next_chunk_id p = 0" "cursor \<le> a + tot"
    using set by (auto simp: setCursor_def WorkPool_def split: if_splits)
  have "unat cursor \<le> unat a + unat tot" using p(6) fit by (simp add: word_le_nat_alt unat_add_exact)
  then have ok: "pool_ok (unat a) (unat tot) p {unat a ..< unat cursor}"
    using p cur fit
    by (auto simp: pool_ok_def pool_inv_def positive_def pool_ids_def outstanding_def word_le_nat_alt unat_add_exact kInitialChunk_def)
  have idle: "\<not> holds_pool_chunk (tracker ?c v)" for v
    using entry_initial [of v now workers] by (auto simp: holds_pool_chunk_def tracker_def start_coordinator_def)
  have "coord_inv (unat a) (unat tot) (?c, {unat a ..< unat cursor})"
    by (rule coord_invI) (use ok cap idle in \<open>simp_all add: start_coordinator_def\<close>)
  moreover have "0 \<notin> set (known ?c)"
  proof
    have k: "known ?c = map of_nat [1..<Suc (unat workers)]"
      by (simp add: known_def start_coordinator_def initial_trackers_def comp_def del: upt_Suc)
    assume "0 \<in> set (known ?c)"
    then obtain v where v: "v \<in> {1..<Suc (unat workers)}" and z: "(of_nat v :: u8) = 0"
      unfolding k set_map set_upt by (metis imageE)
    then show False using w by (simp add: word_of_nat_eq_0_iff nat_dvd_not_less)
  qed
  ultimately show "run_inv a tot s" by (simp add: run_inv_def s)
qed

lemma coord_step_inv: "run_inv a tot s \<Longrightarrow> coord_step F s t \<Longrightarrow> run_inv a tot t"
proof -
  have data: "coord_inv a0 n (c\<lparr>co_data := st\<rparr>, d)" if "coord_inv a0 n (c, d)" for a0 n c d st
    by (rule coord_inv_frame [OF that]) simp_all
  have init: "coord_inv a0 n (local_initial_done F k el c, d)" if "coord_inv a0 n (c, d)" for a0 n k el c d
    by (rule coord_invI) (use coord_invD [OF that] in \<open>simp_all add: local_initial_done_def Let_def\<close>)
  assume inv: "run_inv a tot s" and step: "coord_step F s t"
  from step inv show "run_inv a tot t"
  proof (induction rule: coord_step.induct)
    case (step_control m c d now tn)
    then show ?case using on_control_inv(1) [of _ _ c d m F now tn] known_control [of F now tn m c] by (auto simp: run_inv_def)
  next
    case (step_batch m c c' d)
    then show ?case using data by (auto simp: run_inv_def process_batch_def)
  next
    case (step_timeout c d now tn)
    then show ?case using timeout_pass_inv [of _ _ c d F now tn] by (auto simp: run_inv_def)
  next
    case (step_local_initial c d k el)
    then show ?case using init by (auto simp: run_inv_def local_initial_done_def Let_def known_def)
  next
    case (step_local_checkout c stopped now c' d)
    then show ?case using local_checkout_inv by (auto simp: run_inv_def)
  next
    case (step_local_complete c cid consumed el c' d)
    then show ?case using local_complete_inv by (auto simp: run_inv_def)
  qed (use data in \<open>auto simp: run_inv_def\<close>)
qed

interpretation coord: inductive_invariant "coord_start a t" "coord_step F" "run_inv a t" for a t F
  by unfold_locales (auto intro: coord_start_inv coord_step_inv)

section \<open>What an assignment and the sweep achieve\<close>

lemma assign_shape:
  obtains (refused) "assignChunkTo F tn w dr re c = (False, update_tracker w id c)"
  | (failed) c' where "assignChunkTo F tn w dr re c = (False, c')" "co_data c' = co_data c" "\<And>u. tracker c' u = tracker c u"
      "wt_chunk (tracker c w) = IDLE"
  | (sent) c' cid where "assignChunkTo F tn w dr re c = (True, update_tracker w (\<lambda>t. t\<lparr>wt_chunk := cid\<rparr>) c')"
      "co_data c' = co_data c" "\<And>u. tracker c' u = tracker c u" "wt_chunk (tracker c w) = IDLE"
      "pool_ids (co_pool c) \<Longrightarrow> next_chunk_id (co_pool c) < kInitialChunk \<Longrightarrow> cid < kInitialChunk"
proof (cases "wt_chunk (tracker c w) = IDLE \<and> \<not> targetReached (cd_acc (co_data c)) \<and> \<not> exhausted (co_pool c)")
  case False
  then show ?thesis using refused by (simp add: assignChunkTo_refused)
next
  case True
  then have ready: "wt_chunk (tracker c w) = IDLE" "\<not> targetReached (cd_acc (co_data c))" "\<not> exhausted (co_pool c)" by simp_all
  show ?thesis
  proof (rule assignChunkTo_idle [OF ready, of tn F dr re])
    fix cw p c'
    assume k: "checkoutWork (tn_checkout tn w) (nextChunkSize F (co_sched c) w) w (co_pool c) = (Some cw, p)"
      and f: "co_data c' = co_data c" "\<And>v. tracker c' v = tracker c v"
      and r: "assignChunkTo F tn w dr re c = (True, update_tracker w (\<lambda>t. t\<lparr>wt_chunk := chunk_id cw\<rparr>)
        (if re then c'\<lparr>co_redispatched := co_redispatched c' + 1\<rparr> else c'))
     \<or> assignChunkTo F tn w dr re c = (False, c'\<lparr>co_pool := snd (returnChunk (chunk_id cw) p), co_failed_sends := co_failed_sends c' + 1\<rparr>)"
    from r show ?thesis
    proof (elim disjE)
      assume r: "assignChunkTo F tn w dr re c = (True, update_tracker w (\<lambda>t. t\<lparr>wt_chunk := chunk_id cw\<rparr>)
          (if re then c'\<lparr>co_redispatched := co_redispatched c' + 1\<rparr> else c'))"
      show ?thesis by (rule sent [OF r]) (use f ready checkout_ids(5) [OF k] in auto)
    next
      assume r: "assignChunkTo F tn w dr re c = (False, c'\<lparr>co_pool := snd (returnChunk (chunk_id cw) p), co_failed_sends := co_failed_sends c' + 1\<rparr>)"
      show ?thesis by (rule failed [OF r]) (use f ready in simp_all)
    qed
  qed
qed

lemma assign_frame:
  "v \<noteq> w \<or> wt_chunk (tracker c w) \<noteq> IDLE \<Longrightarrow> tracker (snd (assignChunkTo F tn w dr re c)) v = tracker c v"
  "co_data (snd (assignChunkTo F tn w dr re c)) = co_data c"
  "wt_alive (tracker (snd (assignChunkTo F tn w dr re c)) v) = wt_alive (tracker c v)"
  "wt_heartbeat (tracker (snd (assignChunkTo F tn w dr re c)) v) = wt_heartbeat (tracker c v)"
  by (rule assign_shape [of F tn w dr re c]; auto)+

text \<open>A confirmed assignment: the worker is no longer idle, and what it holds is a pool chunk.\<close>

lemma assign_confirmed:
  assumes inv: "coord_inv a0 n (c, d)" and room: "unat (next_chunk_id (co_pool c)) < unat kInitialChunk"
    and sent: "fst (assignChunkTo F tn w dr re c)"
  shows "holds_pool_chunk (tracker (snd (assignChunkTo F tn w dr re c)) w)"
  using coord_invD(4) [OF inv] room sent
  by (rule_tac assign_shape [of F tn w dr re c])
    (auto simp: holds_pool_chunk_def kInitialChunk_def IDLE_def word_less_nat_alt)

lemma sweep_other: "\<not> wt_alive (tracker c v) \<or> wt_chunk (tracker c v) \<noteq> IDLE \<Longrightarrow> tracker (sweep F tn ws c) v = tracker c v"
proof (induction F tn ws c rule: sweep.induct)
  case (2 F tn w ws c)
  then show ?case using assign_frame(1) [of v w c F tn False True] by (cases "v = w") auto
qed simp

lemma sweep_data: "co_data (sweep F tn ws c) = co_data c"
  by (induction F tn ws c rule: sweep.induct) (simp_all add: assign_frame)

lemma sweep_meta:
  "wt_alive (tracker (sweep F tn ws c) v) = wt_alive (tracker c v) \<and> wt_heartbeat (tracker (sweep F tn ws c) v) = wt_heartbeat (tracker c v)"
  by (induction F tn ws c rule: sweep.induct) (simp_all add: assign_frame)

lemma sweep_serves:
  assumes "coord_inv a0 n (c, d)" and "0 \<notin> set ws" and "unat (next_chunk_id (co_pool c)) + length ws \<le> unat kInitialChunk"
    and "\<not> targetReached (cd_acc (co_data c))"
  shows "exhausted (co_pool (sweep F tn ws c))
    \<or> (\<forall>w \<in> set ws. tn_send tn w \<and> wt_alive (tracker (sweep F tn ws c) w) \<longrightarrow> wt_chunk (tracker (sweep F tn ws c) w) \<noteq> IDLE)"
  using assms
proof (induction F tn ws c rule: sweep.induct)
  case (2 F tn w ws c)
  show ?case
  proof (cases "\<not> wt_alive (tracker c w) \<or> wt_chunk (tracker c w) \<noteq> IDLE")
    case True
    then show ?thesis using 2(1) 2(3-) sweep_other [of c w F tn ws] by auto
  next
    case False
    show ?thesis
    proof (cases "exhausted (co_pool c)")
      case pool: False
      have w: "w \<noteq> 0" "unat (next_chunk_id (co_pool c)) < unat kInitialChunk" using 2(4,5) by auto
      let ?c = "snd (assignChunkTo F tn w False True c)"
      note a = assign_inv [OF 2(3) w, of F tn False True]
      have "tracker (sweep F tn ws ?c) w = tracker ?c w \<and> wt_chunk (tracker ?c w) \<noteq> IDLE" if "tn_send tn w"
      proof -
        have "fst (assignChunkTo F tn w False True c)"
          by (rule assignChunkTo_idle [of c w tn F False True]) (use False pool that 2(6) in simp_all)
        then have "holds_pool_chunk (tracker ?c w)" by (rule assign_confirmed [OF 2(3) w(2)])
        then show ?thesis by (auto simp: holds_pool_chunk_def intro: sweep_other)
      qed
      then show ?thesis
        using 2(2) [OF False pool a(1)] 2(4,5,6) a(2) False pool assign_frame(2) [of F tn w False True c] by auto
    qed (use False in simp)
  qed
qed simp

lemma check_heartbeat_others: "v \<noteq> w \<Longrightarrow> tracker (check_heartbeat now w c) v = tracker c v"
  by (simp add: check_heartbeat_def Let_def)

lemma check_heartbeat_alive:
  "wt_alive (tracker (check_heartbeat now w c) w) \<Longrightarrow> (now - wt_heartbeat (tracker (check_heartbeat now w c) w)) div 1000000000 \<le> 120"
  by (auto simp: check_heartbeat_def Let_def kFlushTimeoutMs_def not_less split: if_splits)

lemma check_heartbeat_dead: "\<not> wt_alive (tracker c v) \<Longrightarrow> \<not> wt_alive (tracker (check_heartbeat now w c) v)"
  by (simp add: check_heartbeat_def Let_def)

lemma check_heartbeat_beat: "wt_heartbeat (tracker (check_heartbeat now w c) v) = wt_heartbeat (tracker c v)"
  by (simp add: check_heartbeat_def Let_def)

lemma check_heartbeats_alive:
  assumes "w \<in> set ws" and "wt_alive (tracker (fold (check_heartbeat now) ws c) w)"
  shows "(now - wt_heartbeat (tracker (fold (check_heartbeat now) ws c) w)) div 1000000000 \<le> 120"
proof -
  have dead: "\<not> wt_alive (tracker c w) \<Longrightarrow> \<not> wt_alive (tracker (fold (check_heartbeat now) vs c) w)" for c vs
    by (induction vs arbitrary: c) (simp_all add: check_heartbeat_dead)
  have beat: "wt_heartbeat (tracker (fold (check_heartbeat now) vs c) w) = wt_heartbeat (tracker c w)" for c vs
    by (induction vs arbitrary: c) (simp_all add: check_heartbeat_beat)
  obtain pre post where ws: "ws = pre @ w # post" using assms(1) by (meson split_list)
  let ?c = "check_heartbeat now w (fold (check_heartbeat now) pre c)"
  have "wt_alive (tracker ?c w)" using assms(2) dead [of ?c post] ws by auto
  then show ?thesis using check_heartbeat_alive [of now w] beat [of post ?c] ws by simp
qed

section \<open>Deferral of relation messages\<close>

text \<open>What one message does to the relation data: a batch is taken in, a completion is counted.\<close>

definition count_completion :: "recv_message \<Rightarrow> coord_data \<Rightarrow> coord_data" where
  "count_completion m st =
     (if msg_type m = CHUNK_COMPLETE \<and> length (payload m) \<ge> 32
      then st\<lparr>cd_tel := update_node (unat (sender_id m))
             (\<lambda>t. t\<lparr>nt_chunks := nt_chunks t + 1,
                    nt_a_values := nt_a_values t + cc_a_values_consumed (read_chunk_complete (payload m))\<rparr>)
             (cd_tel st)\<rparr>
      else st)"

definition message_data :: "recv_message \<Rightarrow> coord_data \<Rightarrow> coord_data option" where
  "message_data m st =
     (if msg_type m = INCREMENTAL_BATCH then processIncrementalBatch m st else Some (count_completion m st))"

text \<open>The pass the deferral replaced: every message handled when it is received.\<close>

definition inline_step :: "float_env \<Rightarrow> nat \<Rightarrow> turn \<times> recv_message \<Rightarrow> coordinator \<Rightarrow> coordinator option" where
  "inline_step F now = (\<lambda>(tn, m) c.
     if \<not> msg_valid m then Some c
     else if msg_type m = INCREMENTAL_BATCH then process_batch m c
     else Some (on_control F now tn m c))"

definition inline_pass :: "float_env \<Rightarrow> nat \<Rightarrow> (turn \<times> recv_message) list \<Rightarrow> coordinator \<Rightarrow> coordinator option" where
  "inline_pass F now = ofold (inline_step F now)"

lemma record_complete_data:
  "co_data (record_complete F w cc c) = (co_data c)\<lparr>cd_tel := update_node (unat w)
     (\<lambda>t. t\<lparr>nt_chunks := nt_chunks t + 1, nt_a_values := nt_a_values t + cc_a_values_consumed cc\<rparr>) (cd_tel (co_data c))\<rparr>"
  by (simp add: record_complete_def Let_def)

lemma control_data: "co_data (on_control F now tn m c) = count_completion m (co_data c)"
  by (simp add: on_control_def on_chunk_complete_def on_chunk_request_def on_heartbeat_def Let_def assign_frame take_back_frame
      record_complete_data count_completion_def msg_codes)

lemma update_node_commute:
  "(\<And>t. f (g t) = g (f t)) \<Longrightarrow> update_node i f (update_node j g ts) = update_node j g (update_node i f ts)"
  by (cases "i = j") (simp_all add: update_node_def list_update_swap)

lemma count_completion_frame [simp]:
  "cd_acc (count_completion m st) = cd_acc st" "cd_lp (count_completion m st) = cd_lp st" "cd_raw (count_completion m st) = cd_raw st"
  by (simp_all add: count_completion_def)

text \<open>Counting a completion commutes with taking in a batch: they touch different counters.\<close>

lemma count_set_acc:
  "count_completion m (st\<lparr>cd_acc := a\<rparr>) = (count_completion m st)\<lparr>cd_acc := a\<rparr>"
  by (simp add: count_completion_def)

lemma ingest_full_count: "ingest_full b sid (count_completion m st) = map_option (count_completion m) (ingest_full b sid st)"
  by (simp add: ingest_full_def count_set_acc option.map_comp comp_def)

lemma ingest_partials_count: "ingest_partials b (count_completion m st) = map_option (count_completion m) (ingest_partials b st)"
proof (cases "cd_lp st")
  case (Some lp)
  have tel: "(count_completion m st)\<lparr>cd_raw := r, cd_lp := l, cd_acc := a,
        cd_tel := update_node 0 (\<lambda>t. t\<lparr>nt_lp_combined := nt_lp_combined t + x\<rparr>) (cd_tel (count_completion m st))\<rparr>
      = count_completion m (st\<lparr>cd_raw := r, cd_lp := l, cd_acc := a,
        cd_tel := update_node 0 (\<lambda>t. t\<lparr>nt_lp_combined := nt_lp_combined t + x\<rparr>) (cd_tel st)\<rparr>)" for r l a x
    by (simp add: count_completion_def update_node_commute)
  show ?thesis
    using Some by (simp add: ingest_partials_def tel Let_def map_option_bind comp_def prod.case_distrib [of "map_option (count_completion m)"])
qed (simp add: ingest_partials_def)

lemma batch_count: "processIncrementalBatch b (count_completion m st) = map_option (count_completion m) (processIncrementalBatch b st)"
proof -
  have up: "(count_completion m st)\<lparr>cd_tel := update_node i (\<lambda>t. t\<lparr>nt_full := nt_full t + y, nt_partial := nt_partial t + z\<rparr>) (cd_tel (count_completion m st))\<rparr>
      = count_completion m (st\<lparr>cd_tel := update_node i (\<lambda>t. t\<lparr>nt_full := nt_full t + y, nt_partial := nt_partial t + z\<rparr>) (cd_tel st)\<rparr>)" for st i y z
    by (simp add: count_completion_def update_node_commute)
  show ?thesis
    by (simp add: processIncrementalBatch_def ingest_full_count ingest_partials_count bind_map_option map_option_bind comp_def up
        split: prod.split bool.split)
qed

text \<open>The relation messages and the other messages of a pass.\<close>

definition batches :: "recv_message list \<Rightarrow> recv_message list" where
  "batches = filter (\<lambda>m. msg_type m = INCREMENTAL_BATCH)"

definition controls :: "recv_message list \<Rightarrow> recv_message list" where
  "controls = filter (\<lambda>m. msg_type m \<noteq> INCREMENTAL_BATCH)"

lemma fold_dispatch:
  "case fold (dispatch F now) ins (ds, c) of (es, c') \<Rightarrow>
     es = ds @ batches (filter msg_valid (map snd ins)) \<and> co_data c' = fold count_completion (controls (filter msg_valid (map snd ins))) (co_data c)"
proof (induction ins arbitrary: ds c)
  case (Cons x ins)
  obtain tn m where x: "x = (tn, m)" by fastforce
  show ?case
    using Cons.IH [of "ds @ [m]" c] Cons.IH [of ds "on_control F now tn m c"] Cons.IH [of ds c] x
    by (auto simp: dispatch_def batches_def controls_def control_data split: prod.splits)
qed (simp add: batches_def controls_def)

lemma process_batches_data: "map_option co_data (ofold process_batch ds c) = ofold processIncrementalBatch ds (co_data c)"
  by (induction ds arbitrary: c) (auto simp: process_batch_def split: option.split)

lemma batches_after_counts:
  "ofold processIncrementalBatch ds (count_completion m st) = map_option (count_completion m) (ofold processIncrementalBatch ds st)"
  by (induction ds arbitrary: st) (auto simp: batch_count split: option.split)

lemma batches_after_controls:
  "ofold processIncrementalBatch ds (fold count_completion cs st) = map_option (fold count_completion cs) (ofold processIncrementalBatch ds st)"
  by (induction cs arbitrary: st) (simp_all add: batches_after_counts option.map_comp comp_def option.map_id0)

lemma messages_sorted:
  "ofold message_data ms st = map_option (fold count_completion (controls ms)) (ofold processIncrementalBatch (batches ms) st)"
proof (induction ms arbitrary: st)
  case (Cons m ms)
  then show ?case
    by (auto simp: message_data_def batches_def controls_def batches_after_counts option.map_comp comp_def split: option.split)
qed (simp add: batches_def controls_def)

lemma inline_data: "map_option co_data (inline_pass F now ins c) = ofold message_data (filter msg_valid (map snd ins)) (co_data c)"
proof (induction ins arbitrary: c)
  case (Cons x ins)
  obtain tn m where x: "x = (tn, m)" by fastforce
  then show ?case
    using Cons by (auto simp: inline_pass_def inline_step_def message_data_def process_batch_def control_data split: option.split)
qed (simp add: inline_pass_def)

section \<open>Completions that do not match\<close>

text \<open>
  A completion that names another chunk than the one the coordinator assigned last takes nothing
  out of flight but makes the worker idle: the assigned chunk stays in flight without a
  tracker, and neither a request nor the death of the worker returns it.
\<close>

lemma stale_completion_strands_chunk:
  assumes "holds_pool_chunk (tracker c w)" and "cc_chunk_id cc \<noteq> wt_chunk (tracker c w)"
  shows "co_pool (record_complete F w cc c) = co_pool c" and "wt_chunk (tracker (record_complete F w cc c) w) = IDLE"
  using assms by (simp_all add: record_complete_frame)

lemma idle_worker_returns_nothing:
  assumes "wt_chunk (tracker c w) = IDLE"
  shows "co_pool (take_back now w c) = co_pool c" and "co_pool (check_heartbeat now w c) = co_pool c"
  using assms by (simp_all add: take_back_frame check_heartbeat_def Let_def holds_pool_chunk_def)

text \<open>A worker that acknowledges its flush and then falls silent is counted twice.\<close>

lemma silent_worker_counted_twice:
  assumes "msg_type m = FLUSH_ACK" and "sender_id m = w" and "wt_alive (tracker c w)"
    and "kFlushTimeoutMs div 1000 < (later - wt_heartbeat (tracker c w)) div 1000000000"
  shows "co_flushed (check_heartbeat later w (on_control F now tn m c)) = co_flushed c + 2"
  using assms by (simp add: on_control_def msg_codes check_heartbeat_def Let_def count_flushed_def tracker_def update_tracker_def)

text \<open>
  The straggler test compares a time computed from a-values per second with one computed from
  relations per second: a single worker, the fastest there is, is recalled although it is on time.
\<close>

lemma lone_worker_recalled:
  assumes "fl F = id" and "throughput s 1 = \<lparr>rels_per_sec = 100, a_vals_per_sec = 1, chunks_completed = 1, total_rels = 0, total_a_vals = 0\<rparr>"
    and "co_sched c = s" and "co_last_recall c = []" and "worker_id cow = 1" and "wu_count (co_unit cow) = 60"
    and "checkout_time cow + 30000000000 \<le> now"
  shows "fastest_rate s 1 = 100" and "is_straggler F now (fastest_rate s 1) cow c"
proof -
  show f: "fastest_rate s 1 = 100" using assms(2) by (simp add: fastest_rate_def Let_def)
  have "(of_nat (now - checkout_time cow) :: rat) \<ge> of_nat 30000000000"
    using assms(7) by (subst of_nat_le_iff) simp
  then show "is_straggler F now (fastest_rate s 1) cow c"
    using assms f by (simp add: is_straggler_def Let_def seconds_def of_u64_def)
qed

section \<open>An example run\<close>

definition example_data :: coord_data where
  "example_data = \<lparr>cd_acc = RelationAccumulator exact_float 100 1, cd_lp = None, cd_raw = fresh_raw, cd_tel = []\<rparr>"

definition example_coord :: coordinator where
  "example_coord = start_coordinator 0 2 [(0, 16), (16, 16), (32, 16)] []
     \<lparr>ds_armed = False, ds_worker = 0, ds_all = False, ds_occurrence = 0\<rparr> example_data
     (WorkPool 48 1000 1) (ChunkScheduler 0 3 1048 8 1)"

definition example_turn :: turn where
  "example_turn = \<lparr>tn_checkout = (\<lambda>_. 0), tn_clock = 0, tn_send = (\<lambda>_. True)\<rparr>"

definition example_complete :: recv_message where
  "example_complete = \<lparr>sender_id = 1, msg_type = CHUNK_COMPLETE, payload = chunk_complete_bytes
     \<lparr>cc_chunk_id = 0, cc_elapsed_ms = 1000, cc_relations_found = 5, cc_partials_found = 0, cc_a_values_consumed = 16\<rparr>,
     msg_valid = True\<rparr>"

lemma coord_startI:
  assumes "unat a + unat tot < 2 ^ 64" "a \<le> cursor" "setCursor cursor (WorkPool a tot usize) = Some p" "unat workers < 255"
    "cap_windows sch = 0"
  shows "coord_start a tot (start_coordinator now workers ranges offs dr st p sch, {unat a ..< unat cursor})"
  using assms unfolding coord_start_def by blast

lemma example_start: "coord_start 48 1000 (example_coord, {})"
  using coord_startI [of 48 1000 48 1 "WorkPool 48 1000 1" 2]
  by (simp add: example_coord_def setCursor_def WorkPool_def ChunkScheduler_def)

definition example_after :: coordinator where
  "example_after = on_control exact_float 0 example_turn example_complete example_coord"

lemma example_reach: "reachable (coord_start 48 1000) (coord_step exact_float) (example_after, {})"
proof -
  have start: "reachable (coord_start 48 1000) (coord_step exact_float) (example_coord, {})"
    by (rule reach_init) (rule example_start)
  have "control_finishes example_complete example_coord = {}"
    by (simp add: control_finishes_def completion_finishes_def example_complete_def example_coord_def start_coordinator_def
        tracker_def entry_def initial_trackers_def upt_rec holds_pool_chunk_def kInitialChunk_def)
  moreover have "coord_step exact_float (example_coord, {}) (example_after, {} \<union> control_finishes example_complete example_coord)"
    unfolding example_after_def
    by (rule step_control) (simp_all add: example_complete_def example_coord_def start_coordinator_def WorkPool_def kInitialChunk_def)
  ultimately show ?thesis
    using reach_step [OF start] by simp
qed

lemma example_known: "known example_coord = [1, 2]"
  by (simp add: known_def example_coord_def start_coordinator_def initial_trackers_def upt_rec)

definition example_recorded :: coordinator where
  "example_recorded = record_complete exact_float 1 (read_chunk_complete (payload example_complete)) example_coord"

lemma example_recorded_fields:
  "co_pool example_recorded = WorkPool 48 1000 1" "wt_chunk (tracker example_recorded 1) = IDLE"
  "\<not> targetReached (cd_acc (co_data example_recorded))" "nextChunkSize exact_float (co_sched example_recorded) 1 = 26"
  "co_drop example_recorded = co_drop example_coord"
proof -
  have t: "wt_chunk (tracker example_coord 1) = kInitialChunk"
    by (simp add: example_coord_def start_coordinator_def tracker_def entry_def initial_trackers_def upt_rec)
  then show "co_pool example_recorded = WorkPool 48 1000 1"
    by (simp add: example_recorded_def record_complete_frame holds_pool_chunk_def) (simp add: example_coord_def start_coordinator_def)
  show "wt_chunk (tracker example_recorded 1) = IDLE" by (simp add: example_recorded_def record_complete_frame)
  show "\<not> targetReached (cd_acc (co_data example_recorded))"
    by (simp add: example_recorded_def record_complete_frame example_coord_def start_coordinator_def example_data_def
        targetReached_def RelationAccumulator_def exact_float_def of_u64_def empty_batch_def)
  have s: "co_sched example_recorded = recordCompletion exact_float 1 5 16 1 (ChunkScheduler 0 3 1048 8 1)"
    by (simp add: example_recorded_def record_complete_def Let_def example_complete_def capture_high_water_def
        example_coord_def start_coordinator_def update_tracker_def exact_float_def)
  show "nextChunkSize exact_float (co_sched example_recorded) 1 = 26"
    by (simp add: s recordCompletion_def ChunkScheduler_def update_throughput_def empty_throughput_def nextChunkSize_def
        kCalibrationChunks_def baseChunk_def maxChunk_def minChunk_def kMinChunkFallback_def applyDebugWindowCap_def Let_def)
  show "co_drop example_recorded = co_drop example_coord"
    by (simp add: example_recorded_def record_complete_def Let_def update_tracker_def)
qed

lemma example_after_fields:
  "in_flight (co_pool example_after) = [\<lparr>chunk_id = 0, co_unit = \<lparr>wu_start = 48, wu_count = 26\<rparr>, worker_id = 1, checkout_time = 0\<rparr>]"
  "wt_chunk (tracker example_after 1) = 0" "wp_next (co_pool example_after) = 74" "next_chunk_id (co_pool example_after) = 1"
proof -
  have a: "example_after = checkStragglers exact_float 0 (snd (assignChunkTo exact_float example_turn 1 True False example_recorded))"
    by (simp add: example_after_def on_control_def on_chunk_complete_def example_complete_def example_recorded_def msg_codes example_turn_def Let_def)
  show "in_flight (co_pool example_after) = [\<lparr>chunk_id = 0, co_unit = \<lparr>wu_start = 48, wu_count = 26\<rparr>, worker_id = 1, checkout_time = 0\<rparr>]"
    "wt_chunk (tracker example_after 1) = 0" "wp_next (co_pool example_after) = 74" "next_chunk_id (co_pool example_after) = 1"
    using example_recorded_fields
    by (simp_all add: a assignChunkTo_def Let_def exhausted_def WorkPool_def checkoutWork_def example_turn_def send_assignment_def
        mpqsDebugShouldDropChunkAssign_def) (simp_all add: example_coord_def start_coordinator_def)
qed

section \<open>Properties\<close>

text \<open>
  C28. Work is neither lost nor done twice by the coordinator's bookkeeping. In every state the two
  threads can reach, for all messages, clocks, send failures, dropped assignments, worker deaths
  and rounding: every a-value below the cursor is held by exactly one outstanding range or
  finished; everything below the checkpoint cursor is finished; a worker that is believed to hold
  a pool chunk is the one the pool has it in flight for, no two workers hold the same chunk, the
  coordinator's own sieve thread holds its chunk under id 0, and the diagnosis of overlapping
  chunks has never fired.
\<close>

theorem coordinator_ownership:
  assumes "reachable (coord_start a tot) (coord_step F) (c, finished)"
  shows "owners i (outstanding (co_pool c)) + (if i \<in> finished then 1 else 0)
       = (if unat a \<le> i \<and> i < unat (wp_next (co_pool c)) then 1 else 0)
     \<and> {unat a ..< unat (completedPrefixCursor (co_pool c))} \<subseteq> finished
     \<and> (holds_pool_chunk (tracker c w) \<longrightarrow> w \<noteq> 0 \<and>
          (\<exists>!cw. cw \<in> set (in_flight (co_pool c)) \<and> chunk_id cw = wt_chunk (tracker c w)) \<and>
          (\<exists>cw \<in> set (in_flight (co_pool c)). chunk_id cw = wt_chunk (tracker c w) \<and> worker_id cw = w))
     \<and> (holds_pool_chunk (tracker c v) \<and> holds_pool_chunk (tracker c w) \<and> v \<noteq> w
          \<longrightarrow> wt_chunk (tracker c v) \<noteq> wt_chunk (tracker c w))
     \<and> (\<forall>cid. co_local c = Some cid \<longrightarrow> (\<exists>cw \<in> set (in_flight (co_pool c)). chunk_id cw = cid \<and> worker_id cw = 0))
     \<and> co_overlaps c = []"
proof -
  have inv: "coord_inv (unat a) (unat tot) (c, finished)"
    using coord.reachable_inv [OF assms] by (simp add: run_inv_def)
  note i = coord_invD [OF inv]
  have led: "pool_inv (unat a) (unat tot) (co_pool c, finished)" using i(1) by (simp add: pool_ok_def)
  have dist: "distinct (map chunk_id (in_flight (co_pool c)))" using i(4) by (simp add: pool_ids_def)
  have one: "\<exists>cw \<in> set (in_flight (co_pool c)). chunk_id cw = wt_chunk (tracker c u) \<and> worker_id cw = u"
    if "holds_pool_chunk (tracker c u)" for u using i(6) [OF that] holder_some [OF i(4)] by blast
  have uniq: "x = y" if "x \<in> set (in_flight (co_pool c))" "y \<in> set (in_flight (co_pool c))" "chunk_id x = chunk_id y" for x y
    using dist that by (auto simp: distinct_map inj_on_def)
  have diff: "wt_chunk (tracker c v) \<noteq> wt_chunk (tracker c w)" if "holds_pool_chunk (tracker c v)" "holds_pool_chunk (tracker c w)" "v \<noteq> w"
    using i(6) [of v] i(6) [of w] that by auto
  have loc: "\<exists>cw \<in> set (in_flight (co_pool c)). chunk_id cw = cid \<and> worker_id cw = 0" if "co_local c = Some cid" for cid
    using i(7) [OF that] holder_some [OF i(4)] by blast
  have ex1: "\<exists>!cw. cw \<in> set (in_flight (co_pool c)) \<and> chunk_id cw = wt_chunk (tracker c w)" if h: "holds_pool_chunk (tracker c w)"
  proof -
    obtain cw where cw: "cw \<in> set (in_flight (co_pool c))" "chunk_id cw = wt_chunk (tracker c w)" using one [OF h] by auto
    show ?thesis
    proof (rule ex1I [of _ cw])
      show "x = cw" if "x \<in> set (in_flight (co_pool c)) \<and> chunk_id x = wt_chunk (tracker c w)" for x
        using uniq [of x cw] cw that by simp
    qed (use cw in simp)
  qed
  show ?thesis
  proof (intro conjI impI allI)
    assume h: "holds_pool_chunk (tracker c w)"
    show "w \<noteq> 0" using i(6) [OF h] by simp
    show "\<exists>!cw. cw \<in> set (in_flight (co_pool c)) \<and> chunk_id cw = wt_chunk (tracker c w)" by (rule ex1 [OF h])
    show "\<exists>cw \<in> set (in_flight (co_pool c)). chunk_id cw = wt_chunk (tracker c w) \<and> worker_id cw = w" by (rule one [OF h])
  next
    assume "holds_pool_chunk (tracker c v) \<and> holds_pool_chunk (tracker c w) \<and> v \<noteq> w"
    then show "wt_chunk (tracker c v) \<noteq> wt_chunk (tracker c w)" by (intro diff) simp_all
  qed (rule pool_inv_owner [OF led] completed_prefix_below [OF led] loc i(3), assumption?)+
qed

theorem coordinator_ownership_witness:
  "owners 60 (outstanding (co_pool example_after)) = 1 \<and> holds_pool_chunk (tracker example_after 1) \<and>
   (\<exists>cw \<in> set (in_flight (co_pool example_after)). chunk_id cw = 0 \<and> worker_id cw = 1)"
  using coordinator_ownership [OF example_reach, of 60 1] example_after_fields
  by (simp add: holds_pool_chunk_def IDLE_def kInitialChunk_def)

text \<open>
  C29. The sweep leaves no worker idle while there is work. When the timeout check has run, no live worker
  has been silent for more than 120 seconds, and either the target is reached, or the pool has nothing
  to hand out, or every live worker is busy except those the coordinator could not send to: a failed
  send neither ends the sweep nor keeps the work it was for from the workers after it.
\<close>

theorem sweep_serves_idle_workers:
  assumes "reachable (coord_start a tot) (coord_step F) (c, finished)"
    and "co_timeout_check c + 5000000000 < now"
    and "unat (next_chunk_id (co_pool c)) + length (known c) \<le> unat kInitialChunk"
  shows "(\<forall>w \<in> set (known c). wt_alive (tracker (timeout_pass F now tn c) w)
            \<longrightarrow> (now - wt_heartbeat (tracker (timeout_pass F now tn c) w)) div 1000000000 \<le> 120)
     \<and> (targetReached (cd_acc (co_data c)) \<or> exhausted (co_pool (timeout_pass F now tn c))
        \<or> (\<forall>w \<in> set (known c). tn_send tn w \<and> wt_alive (tracker (timeout_pass F now tn c) w)
             \<longrightarrow> wt_chunk (tracker (timeout_pass F now tn c) w) \<noteq> IDLE))"
proof -
  let ?b = "c\<lparr>co_timeout_check := now\<rparr>" let ?h = "fold (check_heartbeat now) (known c) ?b"
  have inv: "coord_inv (unat a) (unat tot) (c, finished)" and z: "0 \<notin> set (known c)"
    using coord.reachable_inv [OF assms(1)] by (simp_all add: run_inv_def)
  have b: "coord_inv (unat a) (unat tot) (?b, finished)" by (rule coord_inv_frame [OF inv]) simp_all
  have "coord_inv (unat a) (unat tot) (?h, finished) \<and> known ?h = known c
      \<and> next_chunk_id (co_pool ?h) = next_chunk_id (co_pool c) \<and> co_data ?h = co_data c"
    using check_heartbeats_inv [OF b, of "known c" now] z by simp
  note h = this [THEN conjunct1] this [THEN conjunct2, THEN conjunct1] this [THEN conjunct2, THEN conjunct2, THEN conjunct1]
    this [THEN conjunct2, THEN conjunct2, THEN conjunct2]
  have ks: "map fst (co_trackers ?b) = known c" "map fst (co_trackers ?h) = known c"
    using h(2) by (simp_all add: known_def)
  have eq: "timeout_pass F now tn c = (if \<not> targetReached (cd_acc (co_data c)) \<and> \<not> exhausted (co_pool ?h) then sweep F tn (known c) ?h else ?h)"
    unfolding timeout_pass_def Let_def ks using assms(2) h(4) ks(2) by simp
  have beat: "(now - wt_heartbeat (tracker ?h w)) div 1000000000 \<le> 120" if "w \<in> set (known c)" "wt_alive (tracker ?h w)" for w
    by (rule check_heartbeats_alive [OF that])
  have serve: "exhausted (co_pool (sweep F tn (known c) ?h)) \<or> (\<forall>w \<in> set (known c).
      tn_send tn w \<and> wt_alive (tracker (sweep F tn (known c) ?h) w) \<longrightarrow> wt_chunk (tracker (sweep F tn (known c) ?h) w) \<noteq> IDLE)"
    if "\<not> targetReached (cd_acc (co_data c))"
    by (rule sweep_serves [OF h(1) z]) (use h assms(3) that in simp_all)
  show ?thesis
    using beat serve sweep_meta [of F tn "known c" ?h] by (auto simp: eq)
qed

text \<open>Six seconds after the start of the example, with the connection to worker 1 broken: worker 2 is served.\<close>

definition broken_turn :: turn where
  "broken_turn = example_turn\<lparr>tn_send := (\<lambda>w. w \<noteq> 1)\<rparr>"

theorem sweep_serves_idle_workers_witness:
  "targetReached (cd_acc (co_data example_coord)) \<or> exhausted (co_pool (timeout_pass exact_float 6000000000 broken_turn example_coord))
   \<or> (wt_alive (tracker (timeout_pass exact_float 6000000000 broken_turn example_coord) 2)
        \<longrightarrow> wt_chunk (tracker (timeout_pass exact_float 6000000000 broken_turn example_coord) 2) \<noteq> IDLE)"
proof -
  have "co_timeout_check example_coord + 5000000000 < 6000000000"
    "unat (next_chunk_id (co_pool example_coord)) + length (known example_coord) \<le> unat kInitialChunk"
    unfolding example_known by (simp_all add: example_coord_def start_coordinator_def WorkPool_def kInitialChunk_def)
  from sweep_serves_idle_workers [OF reach_init [of "coord_start 48 1000" "(example_coord, {})" "coord_step exact_float", OF example_start] this,
      of broken_turn, THEN conjunct2, unfolded example_known list.set]
  show ?thesis by (simp add: broken_turn_def)
qed

text \<open>
  C30. Deferring the relation messages of a pass does not change what happens to the data. The pass
  that serves all control messages first and then replays the relation messages ends with the same
  relation data, table of partials, raw partials and counters as the pass that handles every
  message when it arrives, and fails in the same cases.
\<close>

theorem deferral_same_data:
  "map_option co_data (receive_pass F now ins c) = map_option co_data (inline_pass F now ins c)"
proof -
  obtain es c' where d: "fold (dispatch F now) ins ([], c) = (es, c')" by fastforce
  let ?ms = "filter msg_valid (map snd ins)"
  have "es = batches ?ms" "co_data c' = fold count_completion (controls ?ms) (co_data c)"
    using fold_dispatch [where F = F and now = now and ins = ins and ds = "[]" and c = c] d by simp_all
  then have "map_option co_data (receive_pass F now ins c) = ofold message_data ?ms (co_data c)"
    by (simp add: receive_pass_def d process_batches_data messages_sorted batches_after_controls)
  then show ?thesis by (simp add: inline_data)
qed

end
