(* ===== verification/Relation_Io.thy ===== *)
theory Relation_Io
  imports Serialization
begin

text \<open>
  The relation files, \<^verbatim>\<open>src/common/relation_io.cpp\<close>: the v1 format with one batch and the v2 format
  with metadata, smooth relations and raw partials.

  A file is its list of bytes. An input stream has a position and the sticky good bit: a read that
  meets the end of the file stores what is there and clears the bit, later reads store nothing.
  The outcome \<open>None\<close> of a reading operation is one that has no defined result: a variable that was
  never initialised is used after a failed read, or \<^verbatim>\<open>resize\<close> is asked for more than a vector can
  hold and throws.
\<close>

section \<open>Streams\<close>

record in_stream =
  is_data :: bytes
  is_pos :: nat
  is_good :: bool

definition open_file :: "bytes \<Rightarrow> in_stream" where
  "open_file bs = \<lparr>is_data = bs, is_pos = 0, is_good = True\<rparr>"

definition fread :: "nat \<Rightarrow> in_stream \<Rightarrow> bytes \<times> in_stream" where
  "fread n f =
     (if is_good f
      then let got = take n (drop (is_pos f) (is_data f))
           in (got, f\<lparr>is_pos := is_pos f + length got, is_good := (length got = n)\<rparr>)
      else ([], f))"

type_synonym 'a reading = "in_stream \<Rightarrow> ('a \<times> in_stream) option"

definition pbind :: "'a reading \<Rightarrow> ('a \<Rightarrow> 'b reading) \<Rightarrow> 'b reading" where
  "pbind p g f = (case p f of None \<Rightarrow> None | Some (x, f') \<Rightarrow> g x f')"

definition preturn :: "'a \<Rightarrow> 'a reading" where
  "preturn x f = Some (x, f)"

text \<open>Reading over a buffer: the bytes that were not there keep their old value.\<close>

definition read_over :: "bytes \<Rightarrow> bytes reading" where
  "read_over old f = (case fread (length old) f of (got, f') \<Rightarrow> Some (got @ drop (length got) old, f'))"

text \<open>Reading into an integer variable with a value, and into one that has none yet.\<close>

definition read_var :: "nat \<Rightarrow> 'a::len word \<Rightarrow> 'a word reading" where
  "read_var k old = pbind (read_over (to_le k old)) (\<lambda>bs. preturn (of_le bs))"

definition read_fresh :: "nat \<Rightarrow> 'a::len word reading" where
  "read_fresh k f = (case fread k f of (got, f') \<Rightarrow> if length got = k then Some (of_le got, f') else None)"

text \<open>A magic is read into an uninitialised array and compared.\<close>

definition read_magic :: "bytes \<Rightarrow> bool reading" where
  "read_magic magic f = (case fread (length magic) f of (got, f') \<Rightarrow>
     if length got = length magic then Some (got = magic, f')
     else if got \<noteq> take (length got) magic then Some (False, f') else None)"

definition resize_to :: "nat \<Rightarrow> 'a::zero list \<Rightarrow> 'a list" where
  "resize_to n xs = take n xs @ replicate (n - length xs) 0"

text \<open>The elements of a vector after \<^verbatim>\<open>resize\<close>.\<close>

definition read_elems :: "nat \<Rightarrow> nat \<Rightarrow> 'a::len word list \<Rightarrow> 'a word list reading" where
  "read_elems k n old f =
     (if n * k < 2 ^ 63 then pbind (read_over (arr k (resize_to n old))) (\<lambda>bs. preturn (un_arr k n bs)) f else None)"

section \<open>Vectors and batches\<close>

definition write_vec :: "nat \<Rightarrow> 'a::len word list \<Rightarrow> bytes" where
  "write_vec k v = to_le 8 (of_nat (length v) :: u64) @ arr k v"

definition read_vec :: "nat \<Rightarrow> 'a::len word list \<Rightarrow> 'a word list reading" where
  "read_vec k old = pbind (read_fresh 8) (\<lambda>n :: u64. read_elems k (unat n) old)"

definition write_batch :: "batch \<Rightarrow> bytes" where
  "write_batch b = write_vec 64 (sqrt_Q b) @ write_vec 1 (signs b) @ write_vec 4 (val_2_exps b)
     @ write_vec 16 (large_primes b) @ write_vec 8 (factor_offsets b) @ write_vec 4 (factor_indices b)
     @ write_vec 1 (factor_counts b)"

definition read_batch :: "batch \<Rightarrow> batch reading" where
  "read_batch b =
     pbind (read_vec 64 (sqrt_Q b)) (\<lambda>q. pbind (read_vec 1 (signs b)) (\<lambda>sg.
     pbind (read_vec 4 (val_2_exps b)) (\<lambda>v2. pbind (read_vec 16 (large_primes b)) (\<lambda>lp.
     pbind (read_vec 8 (factor_offsets b)) (\<lambda>fo. pbind (read_vec 4 (factor_indices b)) (\<lambda>ix.
     pbind (read_vec 1 (factor_counts b)) (\<lambda>ct.
     preturn (b\<lparr>sqrt_Q := q, signs := sg, val_2_exps := v2, large_primes := lp, factor_offsets := fo,
       factor_indices := ix, factor_counts := ct\<rparr>))))))))"

section \<open>The v1 format\<close>

definition V1_MAGIC :: bytes where "V1_MAGIC = [77, 80, 81, 83, 95, 83, 79, 65]"
definition V2_MAGIC :: bytes where "V2_MAGIC = [77, 80, 81, 83, 95, 86, 50, 0]"

text \<open>The bytes a successful write leaves in the file.\<close>

definition serialize_v1 :: "batch \<Rightarrow> bytes" where
  "serialize_v1 b = V1_MAGIC @ to_le 8 (num_relations b) @ to_le 8 (num_factors b) @ write_batch b"

definition good_result :: "'a \<Rightarrow> (bool \<times> 'a) reading" where
  "good_result x f = Some ((is_good f, x), f)"

definition deserialize_v1 :: "batch \<Rightarrow> (bool \<times> batch) reading" where
  "deserialize_v1 b =
     pbind (read_magic V1_MAGIC) (\<lambda>same. if \<not> same then preturn (False, b) else
     pbind (read_fresh 8) (\<lambda>nr. pbind (read_fresh 8) (\<lambda>nf.
     pbind (read_batch (b\<lparr>num_relations := nr, num_factors := nf\<rparr>)) good_result)))"

section \<open>The v2 format\<close>

definition FLAG_HAS_PARTIALS :: u32 where "FLAG_HAS_PARTIALS = 1"
definition FLAG_HAS_METADATA :: u32 where "FLAG_HAS_METADATA = 2"
definition FLAG_HAS_CHAR_BITS :: u32 where "FLAG_HAS_CHAR_BITS = 4"

record v2_metadata =
  md_N :: u512
  md_factor_base :: "u32 list"
  md_lp_bound :: u64
  md_sieve_bound :: u32
  md_aux_primes :: "u64 list"
  md_t_s :: "u64 list"
  md_r :: u32
  md_has_char_bits :: bool

definition v2_flags :: "batch \<Rightarrow> v2_metadata \<Rightarrow> u32" where
  "v2_flags partials meta = FLAG_HAS_METADATA OR (if num_relations partials > 0 then FLAG_HAS_PARTIALS else 0)
     OR (if md_r meta > 0 then FLAG_HAS_CHAR_BITS else 0)"

text \<open>\<^verbatim>\<open>data()\<close> of the auxiliary vectors is read for \<^verbatim>\<open>r\<close> elements: out of range when they are shorter.\<close>

definition metadata_image :: "v2_metadata \<Rightarrow> bytes option" where
  "metadata_image meta =
     (if md_r meta > 0 \<and> (length (md_aux_primes meta) < unat (md_r meta) \<or> length (md_t_s meta) < unat (md_r meta)) then None
      else Some (to_le 64 (md_N meta) @ to_le 4 (of_nat (length (md_factor_base meta)) :: u32)
        @ arr 4 (take (unat (of_nat (length (md_factor_base meta)) :: u32)) (md_factor_base meta))
        @ to_le 8 (md_lp_bound meta) @ to_le 4 (md_sieve_bound meta)
        @ (if md_r meta > 0 then to_le 4 (md_r meta) @ arr 8 (take (unat (md_r meta)) (md_aux_primes meta))
             @ arr 8 (take (unat (md_r meta)) (md_t_s meta)) else [])))"

definition section_image :: "bool \<Rightarrow> batch \<Rightarrow> bytes" where
  "section_image has_char b = to_le 8 (num_relations b) @ to_le 8 (num_factors b) @ write_batch b
     @ (if has_char then write_vec 4 (char_bits b) else [])"

definition serialize_v2 :: "batch \<Rightarrow> batch \<Rightarrow> v2_metadata \<Rightarrow> bytes option" where
  "serialize_v2 smooths partials meta = map_option (\<lambda>md.
     V2_MAGIC @ to_le 4 (2 :: u32) @ to_le 4 (v2_flags partials meta) @ md
       @ section_image (md_r meta > 0) smooths
       @ (if num_relations partials > 0 then section_image (md_r meta > 0) partials else []))
     (metadata_image meta)"

definition read_metadata :: "bool \<Rightarrow> v2_metadata \<Rightarrow> v2_metadata reading" where
  "read_metadata has_char meta =
     pbind (read_var 64 (md_N meta)) (\<lambda>N. pbind (read_fresh 4) (\<lambda>fb_size :: u32.
     pbind (read_elems 4 (unat fb_size) (md_factor_base meta)) (\<lambda>fb.
     pbind (read_var 8 (md_lp_bound meta)) (\<lambda>lp. pbind (read_var 4 (md_sieve_bound meta)) (\<lambda>sb.
     let meta = meta\<lparr>md_N := N, md_factor_base := fb, md_lp_bound := lp, md_sieve_bound := sb\<rparr> in
     if has_char then
       pbind (read_var 4 (md_r meta)) (\<lambda>r. pbind (read_elems 8 (unat r) (md_aux_primes meta)) (\<lambda>aux.
       pbind (read_elems 8 (unat r) (md_t_s meta)) (\<lambda>ts.
       preturn (meta\<lparr>md_r := r, md_aux_primes := aux, md_t_s := ts\<rparr>))))
     else preturn meta)))))"

definition read_section :: "bool \<Rightarrow> batch \<Rightarrow> batch reading" where
  "read_section has_char b =
     pbind (read_fresh 8) (\<lambda>nr. pbind (read_fresh 8) (\<lambda>nf.
     pbind (read_batch (b\<lparr>num_relations := nr, num_factors := nf\<rparr>)) (\<lambda>b.
     if has_char then pbind (read_vec 4 (char_bits b)) (\<lambda>cb. preturn (b\<lparr>char_bits := cb\<rparr>)) else preturn b)))"

type_synonym v2_out = "batch \<times> batch \<times> v2_metadata"

definition deserialize_v2 :: "v2_out \<Rightarrow> (bool \<times> v2_out) reading" where
  "deserialize_v2 = (\<lambda>(smooths, partials, meta).
     pbind (read_magic V2_MAGIC) (\<lambda>same. if \<not> same then preturn (False, smooths, partials, meta) else
     pbind (read_fresh 4) (\<lambda>version :: u32. if version \<noteq> 2 then preturn (False, smooths, partials, meta) else
     pbind (read_fresh 4) (\<lambda>flags :: u32.
     let has_char = flags AND FLAG_HAS_CHAR_BITS \<noteq> 0; meta = meta\<lparr>md_has_char_bits := has_char\<rparr> in
     pbind (if flags AND FLAG_HAS_METADATA \<noteq> 0 then read_metadata has_char meta else preturn meta) (\<lambda>meta.
     pbind (read_section has_char smooths) (\<lambda>smooths.
     pbind (if flags AND FLAG_HAS_PARTIALS \<noteq> 0 then read_section has_char partials else preturn (clear partials)) (\<lambda>partials.
     good_result (smooths, partials, meta))))))))"

text \<open>The format is chosen by the first eight bytes; the answer is 1, 2 or 0, which is failure.\<close>

definition detect_and_deserialize :: "bytes \<Rightarrow> batch \<Rightarrow> v2_out \<Rightarrow> (nat \<times> batch \<times> v2_out) option" where
  "detect_and_deserialize bs batch out =
     (case fread 8 (open_file bs) of (magic, f) \<Rightarrow>
        if \<not> is_good f then Some (0, batch, out)
        else if magic = V2_MAGIC
        then map_option (\<lambda>((ok, out'), _). (if ok then 2 else 0, batch, out')) (deserialize_v2 out (open_file bs))
        else if magic = V1_MAGIC
        then map_option (\<lambda>((ok, b'), _). (if ok then 1 else 0, b', out)) (deserialize_v1 batch (open_file bs))
        else Some (0, batch, out))"

section \<open>What a reader consumes\<close>

text \<open>A stream inside a file, and \<open>p\<close> reads \<open>bs\<close> as \<open>x\<close>, whatever surrounds it.\<close>

definition stream_at :: "bytes \<Rightarrow> bytes \<Rightarrow> in_stream" where
  "stream_at pre rest = \<lparr>is_data = pre @ rest, is_pos = length pre, is_good = True\<rparr>"

definition reads :: "'a reading \<Rightarrow> bytes \<Rightarrow> 'a \<Rightarrow> bool" where
  "reads p bs x \<longleftrightarrow> (\<forall>pre rest. p (stream_at pre (bs @ rest)) = Some (x, stream_at (pre @ bs) rest))"

named_theorems reads_intro \<open>readers and what they consume\<close>

lemma open_file_at: "open_file bs = stream_at [] bs"
  by (simp add: open_file_def stream_at_def)

lemma fread_at: "length a = n \<Longrightarrow> fread n (stream_at pre (a @ rest)) = (a, stream_at (pre @ a) rest)"
  by (auto simp: fread_def stream_at_def Let_def)

lemma reads_preturn [reads_intro]: "reads (preturn x) [] x"
  by (simp add: reads_def preturn_def)

lemma reads_pbind: "reads p a x \<Longrightarrow> reads (g x) b y \<Longrightarrow> reads (pbind p g) (a @ b) y"
  by (simp add: reads_def pbind_def)

lemma reads_last: "reads p a x \<Longrightarrow> reads (g x) [] y \<Longrightarrow> reads (pbind p g) a y"
  using reads_pbind [of p a x g "[]" y] by simp

lemma reads_over [reads_intro]: "length bs = length old \<Longrightarrow> reads (read_over old) bs bs"
  by (simp add: reads_def read_over_def fread_at)

lemma reads_fresh [reads_intro]: "LENGTH('a::len) \<le> 8 * k \<Longrightarrow> reads (read_fresh k) (to_le k w) (w :: 'a word)"
  by (simp add: reads_def read_fresh_def fread_at of_le_to_le)

lemma reads_var [reads_intro]: "LENGTH('a::len) \<le> 8 * k \<Longrightarrow> reads (read_var k old) (to_le k w) (w :: 'a word)"
  unfolding read_var_def
  by (rule reads_last, rule reads_over) (simp_all add: of_le_to_le reads_preturn [of w])

lemma reads_magic [reads_intro]: "reads (read_magic m) m True"
  by (simp add: reads_def read_magic_def fread_at)

lemma length_resize_to [simp]: "length (resize_to n xs) = n"
  by (simp add: resize_to_def)

lemma reads_elems [reads_intro]:
  assumes "LENGTH('a::len) \<le> 8 * k" and "length xs * k < 2 ^ 63"
  shows "reads (read_elems k (length xs) old) (arr k xs) (xs :: 'a word list)"
proof -
  have "reads (pbind (read_over (arr k (resize_to (length xs) old))) (\<lambda>bs. preturn (un_arr k (length xs) bs))) (arr k xs) xs"
    by (rule reads_last, rule reads_over) (use un_arr_arr [OF assms(1), of xs "[]"] in \<open>simp_all add: reads_preturn [of xs]\<close>)
  then show ?thesis using assms(2) by (simp add: reads_def read_elems_def)
qed

lemma reads_vec [reads_intro]:
  assumes "LENGTH('a::len) \<le> 8 * k" and "length xs * k < 2 ^ 63" and "0 < k"
  shows "reads (read_vec k old) (write_vec k xs) (xs :: 'a word list)"
proof -
  have "length xs * 1 \<le> length xs * k" using assms(3) by (intro mult_le_mono) simp_all
  from le_less_trans [OF this assms(2)] have "length xs < 2 ^ 63" by simp
  then have n: "unat (of_nat (length xs) :: u64) = length xs" by (simp add: unat_of_nat)
  have "reads (read_elems k (unat (of_nat (length xs) :: u64)) old) (arr k xs) xs"
    unfolding n by (rule reads_elems [OF assms(1,2)])
  then show ?thesis
    unfolding read_vec_def write_vec_def by (rule reads_pbind [OF reads_fresh, rotated]) simp
qed

text \<open>Every vector of a batch is short enough to exist.\<close>

definition vectors_fit :: "batch \<Rightarrow> bool" where
  "vectors_fit b \<longleftrightarrow> length (sqrt_Q b) * 64 < 2 ^ 63 \<and> length (signs b) < 2 ^ 63 \<and> length (val_2_exps b) * 4 < 2 ^ 63
     \<and> length (large_primes b) * 16 < 2 ^ 63 \<and> length (factor_offsets b) * 8 < 2 ^ 63
     \<and> length (factor_indices b) * 4 < 2 ^ 63 \<and> length (factor_counts b) < 2 ^ 63 \<and> length (char_bits b) * 4 < 2 ^ 63"

lemma reads_batch:
  assumes "vectors_fit b"
  shows "reads (read_batch old) (write_batch b) (b\<lparr>num_relations := num_relations old, num_factors := num_factors old, char_bits := char_bits old\<rparr>)"
proof -
  note fit = assms [unfolded vectors_fit_def]
  have r: "reads (read_vec 64 (sqrt_Q old)) (write_vec 64 (sqrt_Q b)) (sqrt_Q b)"
    "reads (read_vec 1 (signs old)) (write_vec 1 (signs b)) (signs b)"
    "reads (read_vec 4 (val_2_exps old)) (write_vec 4 (val_2_exps b)) (val_2_exps b)"
    "reads (read_vec 16 (large_primes old)) (write_vec 16 (large_primes b)) (large_primes b)"
    "reads (read_vec 8 (factor_offsets old)) (write_vec 8 (factor_offsets b)) (factor_offsets b)"
    "reads (read_vec 4 (factor_indices old)) (write_vec 4 (factor_indices b)) (factor_indices b)"
    "reads (read_vec 1 (factor_counts old)) (write_vec 1 (factor_counts b)) (factor_counts b)"
    by (rule reads_vec; use fit in simp)+
  show ?thesis
    unfolding read_batch_def write_batch_def
    by (rule reads_pbind [OF r(1)], rule reads_pbind [OF r(2)], rule reads_pbind [OF r(3)], rule reads_pbind [OF r(4)],
        rule reads_pbind [OF r(5)], rule reads_pbind [OF r(6)], rule reads_last [OF r(7)]) (simp add: reads_def preturn_def)
qed

text \<open>A section as it is read back: counters and vectors of \<open>b\<close>, character bits only if the file has them.\<close>

definition section_read :: "bool \<Rightarrow> batch \<Rightarrow> batch \<Rightarrow> batch" where
  "section_read has_char b old = b\<lparr>char_bits := (if has_char then char_bits b else char_bits old)\<rparr>"

lemma reads_section:
  assumes "vectors_fit b"
  shows "reads (read_section hc old) (section_image hc b) (section_read hc b old)"
proof -
  let ?b = "b\<lparr>char_bits := char_bits old\<rparr>"
  have batch: "reads (read_batch (old\<lparr>num_relations := num_relations b, num_factors := num_factors b\<rparr>)) (write_batch b) ?b"
    using reads_batch [OF assms, of "old\<lparr>num_relations := num_relations b, num_factors := num_factors b\<rparr>"] by simp
  have cb: "reads (read_vec 4 (char_bits x)) (write_vec 4 (char_bits b)) (char_bits b)" for x
    by (rule reads_vec) (use assms in \<open>simp_all add: vectors_fit_def\<close>)
  have "reads (if hc then pbind (read_vec 4 (char_bits ?b)) (\<lambda>cb. preturn (?b\<lparr>char_bits := cb\<rparr>)) else preturn ?b)
      (if hc then write_vec 4 (char_bits b) else []) (section_read hc b old)"
  proof (cases hc)
    case True
    then show ?thesis
      using reads_last [OF cb [of ?b], of "\<lambda>cb. preturn (?b\<lparr>char_bits := cb\<rparr>)"] reads_preturn [of b] by (simp add: section_read_def)
  qed (simp add: section_read_def reads_preturn)
  then show ?thesis
    unfolding read_section_def section_image_def
    by (intro reads_pbind [OF reads_fresh] reads_pbind [OF batch]) simp_all
qed

lemma reads_metadata:
  assumes img: "metadata_image meta = Some bs" and fb: "length (md_factor_base meta) < 2 ^ 32"
  shows "reads (read_metadata (md_r meta > 0) old) bs
    (old\<lparr>md_N := md_N meta, md_factor_base := md_factor_base meta, md_lp_bound := md_lp_bound meta, md_sieve_bound := md_sieve_bound meta,
      md_r := (if md_r meta > 0 then md_r meta else md_r old),
      md_aux_primes := (if md_r meta > 0 then take (unat (md_r meta)) (md_aux_primes meta) else md_aux_primes old),
      md_t_s := (if md_r meta > 0 then take (unat (md_r meta)) (md_t_s meta) else md_t_s old)\<rparr>)"
proof -
  have n: "unat (of_nat (length (md_factor_base meta)) :: u32) = length (md_factor_base meta)" using fb by (simp add: unat_of_nat)
  have fbr: "reads (read_elems 4 (unat (of_nat (length (md_factor_base meta)) :: u32)) o') (arr 4 (md_factor_base meta)) (md_factor_base meta)" for o'
    unfolding n by (rule reads_elems) (use fb in simp_all)
  have aux: "reads (read_elems 8 (unat (md_r meta)) o') (arr 8 (take (unat (md_r meta)) v)) (take (unat (md_r meta)) v)"
    if "unat (md_r meta) \<le> length v" for o' v :: "u64 list"
  proof -
    have l: "length (take (unat (md_r meta)) v) = unat (md_r meta)" using that by simp
    have "unat (md_r meta) < 4294967296" by (rule unat_lt32)
    then have "unat (md_r meta) * 8 < 9223372036854775808" by linarith
    then have "length (take (unat (md_r meta)) v) * 8 < 2 ^ 63" unfolding l by simp
    then show ?thesis using reads_elems [of 8 "take (unat (md_r meta)) v" o'] unfolding l by simp
  qed
  have v: "reads (read_var 64 o1) (to_le 64 (md_N meta)) (md_N meta)" "reads (read_var 8 o2) (to_le 8 (md_lp_bound meta)) (md_lp_bound meta)"
    "reads (read_var 4 o3) (to_le 4 (md_sieve_bound meta)) (md_sieve_bound meta)" "reads (read_var 4 o3) (to_le 4 (md_r meta)) (md_r meta)"
    "reads (read_fresh 4) (to_le 4 x) x" for o1 o2 o3 and x :: u32
    by (rule reads_intro; simp)+
  show ?thesis
  proof (cases "md_r meta > 0")
    case True
    then have l: "unat (md_r meta) \<le> length (md_aux_primes meta)" "unat (md_r meta) \<le> length (md_t_s meta)"
      using img by (auto simp: metadata_image_def split: if_splits)
    have bs: "bs = to_le 64 (md_N meta) @ to_le 4 (of_nat (length (md_factor_base meta)) :: u32) @ arr 4 (md_factor_base meta)
        @ to_le 8 (md_lp_bound meta) @ to_le 4 (md_sieve_bound meta) @ to_le 4 (md_r meta)
        @ arr 8 (take (unat (md_r meta)) (md_aux_primes meta)) @ arr 8 (take (unat (md_r meta)) (md_t_s meta))"
      using img True l n by (auto simp: metadata_image_def split: if_splits)
    show ?thesis
      unfolding read_metadata_def Let_def bs if_P [OF True]
      by (rule reads_pbind [OF v(1)], rule reads_pbind [OF v(5)], rule reads_pbind [OF fbr], rule reads_pbind [OF v(2)],
          rule reads_pbind [OF v(3)], rule reads_pbind [OF v(4)], rule reads_pbind [OF aux [OF l(1)]], rule reads_last [OF aux [OF l(2)]])
        (simp add: reads_def preturn_def)
  next
    case False
    have bs: "bs = to_le 64 (md_N meta) @ to_le 4 (of_nat (length (md_factor_base meta)) :: u32) @ arr 4 (md_factor_base meta)
        @ to_le 8 (md_lp_bound meta) @ to_le 4 (md_sieve_bound meta)"
      using img False n by (auto simp: metadata_image_def split: if_splits)
    show ?thesis
      unfolding read_metadata_def Let_def bs if_not_P [OF False]
      by (rule reads_pbind [OF v(1)], rule reads_pbind [OF v(5)], rule reads_pbind [OF fbr], rule reads_pbind [OF v(2)],
          rule reads_last [OF v(3)]) (simp add: reads_def preturn_def)
  qed
qed

text \<open>What \<^verbatim>\<open>deserialize_v2\<close> stores for a file with the given contents, over the old values of its
  output arguments.\<close>

definition v2_read :: "batch \<Rightarrow> batch \<Rightarrow> v2_metadata \<Rightarrow> v2_out \<Rightarrow> v2_out" where
  "v2_read smooths partials meta = (\<lambda>(os, op, om). let hc = md_r meta > 0 in
     (section_read hc smooths os,
      if num_relations partials > 0 then section_read hc partials op else clear op,
      om\<lparr>md_N := md_N meta, md_factor_base := md_factor_base meta, md_lp_bound := md_lp_bound meta, md_sieve_bound := md_sieve_bound meta,
        md_aux_primes := (if hc then take (unat (md_r meta)) (md_aux_primes meta) else md_aux_primes om),
        md_t_s := (if hc then take (unat (md_r meta)) (md_t_s meta) else md_t_s om),
        md_r := (if hc then md_r meta else md_r om), md_has_char_bits := hc\<rparr>))"

lemma v2_flag_bits:
  "(v2_flags p m AND FLAG_HAS_CHAR_BITS \<noteq> 0) = (md_r m > 0)" "(v2_flags p m AND FLAG_HAS_METADATA \<noteq> 0) = True"
  "(v2_flags p m AND FLAG_HAS_PARTIALS \<noteq> 0) = (num_relations p > 0)"
  by (simp_all add: v2_flags_def FLAG_HAS_CHAR_BITS_def FLAG_HAS_METADATA_def FLAG_HAS_PARTIALS_def)

text \<open>Reading with a check of the stream at the end, for a good stream.\<close>

definition delivers :: "(bool \<times> 'a) reading \<Rightarrow> bytes \<Rightarrow> 'a \<Rightarrow> bool" where
  "delivers p bs x \<longleftrightarrow> (\<forall>pre rest. p (stream_at pre (bs @ rest)) = Some ((True, x), stream_at (pre @ bs) rest))"

lemma delivers_reads: "delivers p bs x \<longleftrightarrow> reads p bs (True, x)"
  by (simp add: delivers_def reads_def)

lemma reads_good: "reads (good_result x) [] (True, x)"
  by (simp add: reads_def good_result_def stream_at_def)

lemma deserialize_v1_reads:
  assumes "vectors_fit b"
  shows "reads (deserialize_v1 old) (serialize_v1 b) (True, b\<lparr>char_bits := char_bits old\<rparr>)"
proof -
  have batch: "reads (read_batch (old\<lparr>num_relations := num_relations b, num_factors := num_factors b\<rparr>)) (write_batch b) (b\<lparr>char_bits := char_bits old\<rparr>)"
    using reads_batch [OF assms, of "old\<lparr>num_relations := num_relations b, num_factors := num_factors b\<rparr>"] by simp
  have c: "reads (read_fresh 8) (to_le 8 x) x" for x :: u64 by (rule reads_fresh) simp
  have "reads (pbind (read_fresh 8) (\<lambda>nr. pbind (read_fresh 8) (\<lambda>nf.
      pbind (read_batch (old\<lparr>num_relations := nr, num_factors := nf\<rparr>)) good_result)))
     (to_le 8 (num_relations b) @ to_le 8 (num_factors b) @ write_batch b) (True, b\<lparr>char_bits := char_bits old\<rparr>)"
    by (rule reads_pbind [OF c], rule reads_pbind [OF c], rule reads_last [OF batch reads_good])
  then show ?thesis
    unfolding deserialize_v1_def serialize_v1_def by (intro reads_pbind [OF reads_magic]) simp
qed

lemma deserialize_v2_reads:
  assumes img: "serialize_v2 smooths partials meta = Some bs" and fit: "vectors_fit smooths" "vectors_fit partials"
    and fb: "length (md_factor_base meta) < 2 ^ 32"
  shows "reads (deserialize_v2 old) bs (True, v2_read smooths partials meta old)"
proof -
  obtain os op om where old: "old = (os, op, om)" by (cases old) auto
  let ?hc = "md_r meta > 0" let ?om = "om\<lparr>md_has_char_bits := ?hc\<rparr>"
  obtain md where md: "metadata_image meta = Some md"
    and bs: "bs = V2_MAGIC @ to_le 4 (2 :: u32) @ to_le 4 (v2_flags partials meta) @ md @ section_image ?hc smooths
       @ (if num_relations partials > 0 then section_image ?hc partials else [])"
    using img by (auto simp: serialize_v2_def)
  note rmeta = reads_metadata [OF md fb, of ?om]
  note rsm = reads_section [OF fit(1), of ?hc os]
  have rpart: "reads (if num_relations partials > 0 then read_section ?hc op else preturn (clear op))
      (if num_relations partials > 0 then section_image ?hc partials else [])
      (if num_relations partials > 0 then section_read ?hc partials op else clear op)"
    using reads_section [OF fit(2), of ?hc op] reads_preturn [of "clear op"] by simp
  have v: "reads (read_fresh 4) (to_le 4 x) x" for x :: u32 by (rule reads_fresh) simp
  let ?x = "v2_read smooths partials meta (os, op, om)"
  have last: "reads (pbind (read_metadata ?hc ?om) (\<lambda>meta.
       pbind (read_section ?hc os) (\<lambda>smooths.
       pbind (if num_relations partials > 0 then read_section ?hc op else preturn (clear op)) (\<lambda>partials.
       good_result (smooths, partials, meta)))))
     (md @ section_image ?hc smooths @ (if num_relations partials > 0 then section_image ?hc partials else [])) (True, ?x)"
    by (rule reads_pbind [OF rmeta], rule reads_pbind [OF rsm], rule reads_last [OF rpart])
      (simp add: reads_good v2_read_def Let_def reads_def good_result_def stream_at_def)
  let ?bad = "preturn (False, os, op, om)"
  let ?tail = "md @ section_image ?hc smooths @ (if num_relations partials > 0 then section_image ?hc partials else [])"
  define body where "body = (\<lambda>flags :: u32.
     let has_char = flags AND FLAG_HAS_CHAR_BITS \<noteq> 0; meta = om\<lparr>md_has_char_bits := has_char\<rparr> in
     pbind (if flags AND FLAG_HAS_METADATA \<noteq> 0 then read_metadata has_char meta else preturn meta) (\<lambda>meta.
     pbind (read_section has_char os) (\<lambda>smooths.
     pbind (if flags AND FLAG_HAS_PARTIALS \<noteq> 0 then read_section has_char op else preturn (clear op)) (\<lambda>partials.
     good_result (smooths, partials, meta)))))"
  define versioned where "versioned = (\<lambda>version :: u32. if version \<noteq> 2 then ?bad else pbind (read_fresh 4) body)"
  have "reads (body (v2_flags partials meta)) ?tail (True, ?x)"
    using last by (simp only: body_def Let_def v2_flag_bits if_True)
  then have "reads (versioned 2) (to_le 4 (v2_flags partials meta) @ ?tail) (True, ?x)"
    unfolding versioned_def by (simp add: reads_pbind [OF v])
  then have "reads (if \<not> True then ?bad else pbind (read_fresh 4) versioned)
      (to_le 4 (2 :: u32) @ to_le 4 (v2_flags partials meta) @ ?tail) (True, ?x)"
    by (simp add: reads_pbind [OF v])
  then have "reads (pbind (read_magic V2_MAGIC) (\<lambda>same. if \<not> same then ?bad else pbind (read_fresh 4) versioned)) bs (True, ?x)"
    unfolding bs by (rule reads_pbind [OF reads_magic])
  then show ?thesis
    unfolding deserialize_v2_def old split versioned_def body_def .
qed

section \<open>Truncated files\<close>

text \<open>A reader that ends with a good stream has read only bytes that were there: it does the same on
  every longer file.\<close>

definition longer :: "bytes \<Rightarrow> in_stream \<Rightarrow> in_stream" where
  "longer rest f = f\<lparr>is_data := is_data f @ rest\<rparr>"

definition stable :: "'a reading \<Rightarrow> bool" where
  "stable p \<longleftrightarrow> (\<forall>f x f'. p f = Some (x, f') \<and> is_pos f \<le> length (is_data f) \<longrightarrow>
     is_data f' = is_data f \<and> is_pos f' \<le> length (is_data f) \<and>
     (is_good f' \<longrightarrow> is_good f \<and> (\<forall>rest. p (longer rest f) = Some (x, longer rest f'))))"

named_theorems stable_intro \<open>readers that do the same on longer files\<close>

lemma longer_sel [simp]: "is_good (longer rest f) = is_good f" "is_pos (longer rest f) = is_pos f"
  "is_data (longer rest f) = is_data f @ rest"
  by (simp_all add: longer_def)

lemma stableD:
  assumes "stable p" "p f = Some (x, f')" "is_pos f \<le> length (is_data f)"
  shows "is_data f' = is_data f" "is_pos f' \<le> length (is_data f)" "is_good f' \<Longrightarrow> is_good f"
    "is_good f' \<Longrightarrow> p (longer rest f) = Some (x, longer rest f')"
  using assms unfolding stable_def by blast+

lemma stable_preturn [stable_intro]: "stable (preturn x)"
  by (simp add: stable_def preturn_def longer_def)

lemma stable_good [stable_intro]: "stable (good_result x)"
  by (simp add: stable_def good_result_def longer_def)

lemma stable_pbind [stable_intro]:
  assumes p: "stable p" and g: "\<And>x. stable (g x)"
  shows "stable (pbind p g)"
  unfolding stable_def
proof (intro allI impI)
  fix f y f'
  assume "pbind p g f = Some (y, f') \<and> is_pos f \<le> length (is_data f)"
  then obtain x m where m: "p f = Some (x, m)" "g x m = Some (y, f')" and pos: "is_pos f \<le> length (is_data f)"
    by (auto simp: pbind_def split: option.splits)
  note a = stableD [OF p m(1) pos]
  have "is_pos m \<le> length (is_data m)" using a(1,2) by simp
  note b = stableD [OF g m(2) this]
  show "is_data f' = is_data f \<and> is_pos f' \<le> length (is_data f) \<and>
      (is_good f' \<longrightarrow> is_good f \<and> (\<forall>rest. pbind p g (longer rest f) = Some (y, longer rest f')))"
    using a b by (simp add: pbind_def)
qed

lemma fread_stable:
  assumes "is_pos f \<le> length (is_data f)" and "fread n f = (got, f')"
  shows "is_data f' = is_data f" "is_pos f' \<le> length (is_data f)" "length got \<le> n"
    "is_good f' \<Longrightarrow> is_good f \<and> length got = n \<and> fread n (longer rest f) = (got, longer rest f')"
  using assms by (auto simp: fread_def Let_def longer_def min_def split: if_splits)

lemma stable_over [stable_intro]: "stable (read_over old)"
  unfolding stable_def
proof (intro allI impI)
  fix f x f' assume run: "read_over old f = Some (x, f') \<and> is_pos f \<le> length (is_data f)"
  obtain got g where r: "fread (length old) f = (got, g)" by fastforce
  note s = fread_stable [OF conjunct2 [OF run] r]
  show "is_data f' = is_data f \<and> is_pos f' \<le> length (is_data f) \<and>
      (is_good f' \<longrightarrow> is_good f \<and> (\<forall>rest. read_over old (longer rest f) = Some (x, longer rest f')))"
    using run r s by (auto simp: read_over_def)
qed

lemma stable_fresh [stable_intro]: "stable (read_fresh k)"
  unfolding stable_def
proof (intro allI impI)
  fix f x f' assume run: "read_fresh k f = Some (x, f') \<and> is_pos f \<le> length (is_data f)"
  obtain got g where r: "fread k f = (got, g)" by fastforce
  note s = fread_stable [OF conjunct2 [OF run] r]
  show "is_data f' = is_data f \<and> is_pos f' \<le> length (is_data f) \<and>
      (is_good f' \<longrightarrow> is_good f \<and> (\<forall>rest. read_fresh k (longer rest f) = Some (x, longer rest f')))"
    using run r s by (auto simp: read_fresh_def split: if_splits)
qed

lemma stable_magic [stable_intro]: "stable (read_magic m)"
  unfolding stable_def
proof (intro allI impI)
  fix f x f' assume run: "read_magic m f = Some (x, f') \<and> is_pos f \<le> length (is_data f)"
  obtain got g where r: "fread (length m) f = (got, g)" by fastforce
  note s = fread_stable [OF conjunct2 [OF run] r]
  show "is_data f' = is_data f \<and> is_pos f' \<le> length (is_data f) \<and>
      (is_good f' \<longrightarrow> is_good f \<and> (\<forall>rest. read_magic m (longer rest f) = Some (x, longer rest f')))"
    using run r s by (auto simp: read_magic_def split: if_splits)
qed

lemma stable_var [stable_intro]: "stable (read_var k old)"
  unfolding read_var_def by (intro stable_intro)

lemma stable_none: "stable (\<lambda>_. None)"
  by (simp add: stable_def)

lemma stable_elems [stable_intro]: "stable (read_elems k n old)"
proof -
  have "stable (pbind (read_over (arr k (resize_to n old))) (\<lambda>bs. preturn (un_arr k n bs)))" by (intro stable_intro)
  moreover have "read_elems k n old = (if n * k < 2 ^ 63
      then pbind (read_over (arr k (resize_to n old))) (\<lambda>bs. preturn (un_arr k n bs)) else (\<lambda>_. None))"
    by (rule ext) (simp add: read_elems_def)
  ultimately show ?thesis using stable_none by (simp split: if_splits)
qed

lemma stable_vec [stable_intro]: "stable (read_vec k old)"
  unfolding read_vec_def by (intro stable_intro)

lemma stable_batch [stable_intro]: "stable (read_batch b)"
  unfolding read_batch_def by (intro stable_intro)

lemma stable_section [stable_intro]: "stable (read_section hc b)"
  unfolding read_section_def by (cases hc; simp; intro stable_intro)

lemma stable_metadata [stable_intro]: "stable (read_metadata hc m)"
  unfolding read_metadata_def Let_def by (cases hc; simp; intro stable_intro)

lemma stable_if [stable_intro]: "stable p \<Longrightarrow> stable q \<Longrightarrow> stable (if b then p else q)"
  by simp

lemma stable_v1 [stable_intro]: "stable (deserialize_v1 b)"
  unfolding deserialize_v1_def by (intro stable_intro)

lemma stable_v2 [stable_intro]: "stable (deserialize_v2 old)"
  unfolding deserialize_v2_def Let_def by (cases old, simp only: split, intro stable_intro)

text \<open>A reader that ends well only on a whole image does not end well on a strict prefix of it.\<close>

lemma truncated_not_good:
  assumes "stable p" and "reads p bs y" and "k < length bs" and "p (open_file (take k bs)) = Some (x, f')"
  shows "\<not> is_good f'"
proof
  assume good: "is_good f'"
  have pos: "is_pos (open_file (take k bs)) \<le> length (is_data (open_file (take k bs)))" by (simp add: open_file_def)
  note s = stableD [OF assms(1,4) pos]
  have "longer (drop k bs) (open_file (take k bs)) = open_file bs" by (simp add: longer_def open_file_def)
  then have "p (open_file bs) = Some (x, longer (drop k bs) f')" using s(4) [OF good, of "drop k bs"] by simp
  moreover have "p (open_file bs) = Some (y, stream_at bs [])"
    using assms(2) by (simp add: reads_def open_file_at) (metis append_Nil append_Nil2)
  ultimately have "is_pos (longer (drop k bs) f') = is_pos (stream_at bs [])" by simp
  then have "is_pos f' = length bs" by (simp add: stream_at_def)
  then show False using s(2) assms(3) by (simp add: open_file_def)
qed

lemma good_means_ok:
  "deserialize_v1 b f = Some ((True, x), f') \<Longrightarrow> is_good f'"
  "deserialize_v2 old f = Some ((True, y), f') \<Longrightarrow> is_good f'"
  by (auto simp: deserialize_v1_def deserialize_v2_def pbind_def preturn_def good_result_def Let_def
      split: option.splits if_splits prod.splits)

section \<open>Properties\<close>

text \<open>
  C33. Relation files round-trip. A v1 file gives back the batch without its character bits. A v2
  file gives back both batches and the metadata, with character bits and auxiliary primes exactly
  when the run has some, whatever bytes follow the payload in the file; and the format is
  recognised by its magic.
\<close>

theorem relation_file_roundtrip:
  assumes "vectors_fit smooths" and "vectors_fit partials" and "length (md_factor_base meta) < 2 ^ 32"
    and "serialize_v2 smooths partials meta = Some bs"
  shows "(\<exists>f. deserialize_v1 old1 (open_file (serialize_v1 smooths @ tail)) = Some ((True, smooths\<lparr>char_bits := char_bits old1\<rparr>), f))
     \<and> (\<exists>f. deserialize_v2 old (open_file (bs @ tail)) = Some ((True, v2_read smooths partials meta old), f) \<and> is_pos f = length bs)
     \<and> detect_and_deserialize (bs @ tail) old1 old = Some (2, old1, v2_read smooths partials meta old)
     \<and> detect_and_deserialize (serialize_v1 smooths @ tail) old1 old = Some (1, smooths\<lparr>char_bits := char_bits old1\<rparr>, old)"
proof -
  have one: "deserialize_v1 old1 (open_file (serialize_v1 smooths @ tail))
      = Some ((True, smooths\<lparr>char_bits := char_bits old1\<rparr>), stream_at (serialize_v1 smooths) tail)"
    using deserialize_v1_reads [OF assms(1), of old1] unfolding reads_def open_file_at by (metis append_Nil)
  have two: "deserialize_v2 old (open_file (bs @ tail)) = Some ((True, v2_read smooths partials meta old), stream_at bs tail)"
    using deserialize_v2_reads [OF assms(4,1,2,3), of old] unfolding reads_def open_file_at by (metis append_Nil)
  have "take 8 (bs @ tail) = V2_MAGIC" using assms(4) by (auto simp: serialize_v2_def V2_MAGIC_def)
  moreover have "take 8 (serialize_v1 smooths @ tail) = V1_MAGIC" by (simp add: serialize_v1_def V1_MAGIC_def)
  moreover have "V1_MAGIC \<noteq> V2_MAGIC" "length V1_MAGIC = 8" "length V2_MAGIC = 8" by (simp_all add: V1_MAGIC_def V2_MAGIC_def)
  ultimately show ?thesis
    using one two by (auto simp: detect_and_deserialize_def fread_def open_file_def stream_at_def Let_def)
qed

text \<open>
  C34. A relation file cut short anywhere is never accepted: reading a strict prefix of a written
  file either reports failure or has no defined result.
\<close>

theorem truncated_file_rejected:
  assumes "vectors_fit smooths" and "vectors_fit partials" and "length (md_factor_base meta) < 2 ^ 32"
    and "serialize_v2 smooths partials meta = Some bs"
  shows "(k < length (serialize_v1 smooths) \<longrightarrow>
            (\<forall>x f. deserialize_v1 old1 (open_file (take k (serialize_v1 smooths))) \<noteq> Some ((True, x), f)))
     \<and> (k < length bs \<longrightarrow> (\<forall>x f. deserialize_v2 old (open_file (take k bs)) \<noteq> Some ((True, x), f)))"
proof (intro conjI impI allI notI)
  fix x f assume "k < length (serialize_v1 smooths)" "deserialize_v1 old1 (open_file (take k (serialize_v1 smooths))) = Some ((True, x), f)"
  then show False
    using truncated_not_good [OF stable_v1 deserialize_v1_reads [OF assms(1)]] good_means_ok(1) by blast
next
  fix x f assume "k < length bs" "deserialize_v2 old (open_file (take k bs)) = Some ((True, x), f)"
  then show False
    using truncated_not_good [OF stable_v2 deserialize_v2_reads [OF assms(4,1,2,3)]] good_means_ok(2) by blast
qed

text \<open>A file that ends right after its magic makes the readers use variables that were never set.\<close>

lemma truncated_header_undefined:
  "deserialize_v1 b (open_file V1_MAGIC) = None" "deserialize_v2 old (open_file V2_MAGIC) = None"
  by (auto simp: deserialize_v1_def deserialize_v2_def pbind_def read_magic_def read_fresh_def fread_def open_file_def Let_def
      split: prod.split)

definition sample_meta :: v2_metadata where
  "sample_meta = \<lparr>md_N = 8051, md_factor_base = [2, 5, 7], md_lp_bound = 100, md_sieve_bound = 64, md_aux_primes = [101],
     md_t_s = [7], md_r = 1, md_has_char_bits = False\<rparr>"

lemma sample_fits: "vectors_fit sample_batch" "length (md_factor_base sample_meta) < 2 ^ 32"
    "\<exists>bs. serialize_v2 sample_batch sample_batch sample_meta = Some bs \<and> 100 < length bs"
  by (simp_all add: vectors_fit_def sample_batch_def sample_meta_def serialize_v2_def metadata_image_def V2_MAGIC_def
      write_vec_def section_image_def write_batch_def)

theorem relation_file_roundtrip_witness:
  "\<exists>bs. detect_and_deserialize (bs @ [1, 2, 3]) empty_batch (empty_batch, empty_batch, sample_meta)
     = Some (2, empty_batch, v2_read sample_batch sample_batch sample_meta (empty_batch, empty_batch, sample_meta))"
proof -
  obtain bs where bs: "serialize_v2 sample_batch sample_batch sample_meta = Some bs" using sample_fits(3) by blast
  show ?thesis
    using relation_file_roundtrip [OF sample_fits(1,1,2) bs, of empty_batch "[1, 2, 3]" "(empty_batch, empty_batch, sample_meta)"] by blast
qed

theorem truncated_file_rejected_witness:
  "\<exists>bs. serialize_v2 sample_batch sample_batch sample_meta = Some bs \<and>
     (\<forall>x f. deserialize_v2 (empty_batch, empty_batch, sample_meta) (open_file (take 100 bs)) \<noteq> Some ((True, x), f))"
proof -
  obtain bs where bs: "serialize_v2 sample_batch sample_batch sample_meta = Some bs" "100 < length bs" using sample_fits(3) by blast
  then show ?thesis
    using truncated_file_rejected [OF sample_fits(1,1,2) bs(1), of 100 empty_batch "(empty_batch, empty_batch, sample_meta)"] by blast
qed

end
