(* ===== verification/Sieve_Checkpoint.thy ===== *)
theory Sieve_Checkpoint
  imports Relation_Io Accumulator
begin

text \<open>
  The mid-sieve checkpoint, \<^verbatim>\<open>src/common/sieve_checkpoint.cpp\<close> and \<^verbatim>\<open>sieve_checkpoint.h\<close>: the file
  layout (relation payload, progress trailer, optional cluster block, fixed footer), the sequence
  of system calls that installs a new file, reading with its sanity checks, the fall-back to the
  previous generation, and the arithmetic of a cluster resume.

  A file system maps names to contents. A write is the list of file systems a kill can leave
  behind, one per system call and one for every length the payload has while it is written; what
  the calls return is an argument.
\<close>

section \<open>Layout\<close>

definition CKPT_TRAILER_MAGIC :: bytes where "CKPT_TRAILER_MAGIC = [77, 80, 81, 83, 95, 67, 75, 80, 84]"
definition CKPT_FOOTER_MAGIC :: bytes where "CKPT_FOOTER_MAGIC = [77, 80, 81, 83, 95, 67, 75, 70, 84]"
definition CKPT_SCHEMA_VERSION :: u32 where "CKPT_SCHEMA_VERSION = 1"
definition CKPT_FOOTER_SIZE :: nat where "CKPT_FOOTER_SIZE = 9 + 8 + 8 + 4"

record checkpoint_trailer =
  ct_global_a_index :: u64
  ct_target_relations :: u64
  ct_smooths_raw :: u64
  ct_smooths_dedup :: u64
  ct_partials :: u64
  ct_lp1_bound :: u64
  ct_sieve_bound :: u32
  ct_N :: u512
  ct_cluster_present :: u8
  ct_elapsed_sec :: u64

record cluster_block =
  cb_prefix :: u64
  cb_high_water :: "u64 list"

definition serializeTrailer :: "checkpoint_trailer \<Rightarrow> bytes" where
  "serializeTrailer t = CKPT_TRAILER_MAGIC @ to_le 4 CKPT_SCHEMA_VERSION @ to_le 8 (ct_global_a_index t)
     @ to_le 8 (ct_target_relations t) @ to_le 8 (ct_smooths_raw t) @ to_le 8 (ct_smooths_dedup t)
     @ to_le 8 (ct_partials t) @ to_le 8 (ct_lp1_bound t) @ to_le 4 (ct_sieve_bound t) @ to_le 64 (ct_N t)
     @ to_le 1 (ct_cluster_present t) @ to_le 8 (ct_elapsed_sec t)"

definition serializeClusterBlock :: "cluster_block \<Rightarrow> bytes" where
  "serializeClusterBlock cb = to_le 8 (cb_prefix cb) @ to_le 4 (of_nat (length (cb_high_water cb)) :: u32)
     @ arr 8 (cb_high_water cb)"

text \<open>The bytes appended to the payload.\<close>

definition checkpoint_tail :: "u64 \<Rightarrow> checkpoint_trailer \<Rightarrow> cluster_block option \<Rightarrow> bytes" where
  "checkpoint_tail trailer_offset t cb =
     (let tail = serializeTrailer t @ (case cb of Some b \<Rightarrow> if ct_cluster_present t \<noteq> 0 then serializeClusterBlock b else [] | None \<Rightarrow> [])
      in tail @ CKPT_FOOTER_MAGIC @ to_le 8 trailer_offset @ to_le 8 (of_nat (length tail) :: u64) @ to_le 4 CKPT_SCHEMA_VERSION)"

section \<open>Reading\<close>

record load_result =
  lr_ok :: bool
  lr_trailer :: checkpoint_trailer
  lr_cluster :: cluster_block
  lr_smooths :: batch
  lr_partials :: batch
  lr_meta :: v2_metadata

text \<open>\<^verbatim>\<open>get\<close> into one field: its answer is the state of the stream. A sequence stops at the first failure,
  with what was read so far stored.\<close>

definition get_field :: "nat \<Rightarrow> ('r \<Rightarrow> 'a::len word) \<Rightarrow> (('a word \<Rightarrow> 'a word) \<Rightarrow> 'r \<Rightarrow> 'r) \<Rightarrow> 'r \<Rightarrow> (bool \<times> 'r) reading" where
  "get_field k sel upd t = pbind (read_var k (sel t)) (\<lambda>v. good_result (upd (\<lambda>_. v) t))"

definition and_then :: "(bool \<times> 'r) reading \<Rightarrow> ('r \<Rightarrow> (bool \<times> 'r) reading) \<Rightarrow> (bool \<times> 'r) reading" where
  "and_then p g = pbind p (\<lambda>(ok, t). if ok then g t else preturn (False, t))"

text \<open>The magic is read into an array; a short read answers before the comparison.\<close>

definition get_magic :: "bytes \<Rightarrow> bool reading" where
  "get_magic m f = (case fread (length m) f of (got, f') \<Rightarrow> Some (is_good f' \<and> got = m, f'))"

definition readTrailer :: "checkpoint_trailer \<Rightarrow> (bool \<times> checkpoint_trailer) reading" where
  "readTrailer t = pbind (get_magic CKPT_TRAILER_MAGIC) (\<lambda>ok. if \<not> ok then preturn (False, t) else
     pbind (read_var 4 0) (\<lambda>schema f. if \<not> is_good f \<or> schema \<noteq> CKPT_SCHEMA_VERSION then Some ((False, t), f) else
     and_then (get_field 8 ct_global_a_index ct_global_a_index_update t) (\<lambda>t.
     and_then (get_field 8 ct_target_relations ct_target_relations_update t) (\<lambda>t.
     and_then (get_field 8 ct_smooths_raw ct_smooths_raw_update t) (\<lambda>t.
     and_then (get_field 8 ct_smooths_dedup ct_smooths_dedup_update t) (\<lambda>t.
     and_then (get_field 8 ct_partials ct_partials_update t) (\<lambda>t.
     and_then (get_field 8 ct_lp1_bound ct_lp1_bound_update t) (\<lambda>t.
     and_then (get_field 4 ct_sieve_bound ct_sieve_bound_update t) (\<lambda>t.
     and_then (get_field 64 ct_N ct_N_update t) (\<lambda>t.
     and_then (get_field 1 ct_cluster_present ct_cluster_present_update t) (\<lambda>t.
     get_field 8 ct_elapsed_sec ct_elapsed_sec_update t))))))))) f))"

fun read_entries :: "nat list \<Rightarrow> cluster_block \<Rightarrow> (bool \<times> cluster_block) reading" where
  "read_entries [] cb = preturn (True, cb)"
| "read_entries (i # is) cb =
     and_then (pbind (read_var 8 (cb_high_water cb ! i)) (\<lambda>v. good_result (cb\<lparr>cb_high_water := (cb_high_water cb)[i := v]\<rparr>)))
       (read_entries is)"

definition readClusterBlock :: "u64 \<Rightarrow> cluster_block \<Rightarrow> (bool \<times> cluster_block) reading" where
  "readClusterBlock region_left cb =
     and_then (get_field 8 cb_prefix cb_prefix_update cb) (\<lambda>cb.
     pbind (read_var 4 (0 :: u32)) (\<lambda>node_count f. if \<not> is_good f then Some ((False, cb), f)
       else if (ucast node_count :: u64) * 8 + 12 > region_left then Some ((False, cb), f)
       else read_entries [0..<unat node_count] (cb\<lparr>cb_high_water := resize_to (unat node_count) (cb_high_water cb)\<rparr>) f))"

definition seekg :: "u64 \<Rightarrow> in_stream \<Rightarrow> in_stream" where
  "seekg off f = (if \<not> is_good f then f else if unat off < 2 ^ 63 then f\<lparr>is_pos := unat off\<rparr> else f\<lparr>is_good := False\<rparr>)"

text \<open>The footer: answer, trailer offset and trailer length.\<close>

definition read_footer :: "bytes \<Rightarrow> (u64 \<times> u64) option" where
  "read_footer bs =
     (let fsz = of_nat (length bs) :: u64; f = seekg (fsz - of_nat CKPT_FOOTER_SIZE) (open_file bs);
          (magic, f) = fread 9 f; (off, f) = fread 8 f; (len, f) = fread 8 f; (ver, f) = fread 4 f
      in if is_good f \<and> magic = CKPT_FOOTER_MAGIC \<and> (of_le ver :: u32) = CKPT_SCHEMA_VERSION
            \<and> (of_le off :: u64) + of_le len + of_nat CKPT_FOOTER_SIZE = fsz
         then Some (of_le off, of_le len) else None)"

text \<open>The cluster block behind the trailer, where the trailer announces one.\<close>

definition read_cluster :: "u64 \<Rightarrow> u64 \<Rightarrow> checkpoint_trailer \<Rightarrow> cluster_block \<Rightarrow> (bool \<times> cluster_block) reading" where
  "read_cluster off len t cb f =
     (if ct_cluster_present t = 0 then Some ((True, cb), f)
      else let consumed = of_nat (is_pos f) - off; region_left = (if len > consumed then len - consumed else 0)
           in map_option (\<lambda>((ok, cb), f). ((ok \<and> of_nat (is_pos f) = off + len, cb), f)) (readClusterBlock region_left cb f))"

definition readCheckpoint :: "bytes option \<Rightarrow> load_result \<Rightarrow> (bool \<times> load_result) option" where
  "readCheckpoint file out =
     (let out = out\<lparr>lr_ok := False\<rparr> in
      case file of
        None \<Rightarrow> Some (False, out)
      | Some bs \<Rightarrow>
          if length bs < CKPT_FOOTER_SIZE then Some (False, out)
          else case read_footer bs of
            None \<Rightarrow> Some (False, out)
          | Some (off, len) \<Rightarrow>
              (case readTrailer (lr_trailer out) (seekg off (open_file bs)) of
                 None \<Rightarrow> None
               | Some ((ok, t), f) \<Rightarrow>
                   let out = out\<lparr>lr_trailer := t\<rparr> in
                   if \<not> ok then Some (False, out)
                   else (case read_cluster off len t (lr_cluster out) f of
                      None \<Rightarrow> None
                    | Some ((ok, cb), _) \<Rightarrow>
                        let out = out\<lparr>lr_cluster := cb\<rparr> in
                        if \<not> ok then Some (False, out)
                        else (case deserialize_v2 (lr_smooths out, lr_partials out, lr_meta out) (open_file bs) of
                           None \<Rightarrow> None
                         | Some ((ok, sm, pt, md), _) \<Rightarrow>
                             let out = out\<lparr>lr_smooths := sm, lr_partials := pt, lr_meta := md\<rparr>
                             in Some (ok, out\<lparr>lr_ok := ok\<rparr>)))))"

type_synonym file_system = "string \<rightharpoonup> bytes"

definition live_name :: "string \<Rightarrow> string" where "live_name dir = dir @ ''/sieve.ckpt''"
definition tmp_name :: "string \<Rightarrow> string" where "tmp_name dir = dir @ ''/sieve.ckpt.tmp''"
definition prev_name :: "string \<Rightarrow> string" where "prev_name dir = dir @ ''/sieve.ckpt.prev''"

text \<open>The freshest file that loads; the second attempt reads over what the first one left.\<close>

definition loadLatestCheckpoint :: "string \<Rightarrow> file_system \<Rightarrow> load_result \<Rightarrow> (bool \<times> load_result) option" where
  "loadLatestCheckpoint dir fs out =
     (case (if fs (live_name dir) \<noteq> None then readCheckpoint (fs (live_name dir)) out else Some (False, out)) of
        None \<Rightarrow> None
      | Some (True, out) \<Rightarrow> Some (True, out)
      | Some (False, out) \<Rightarrow>
          if fs (prev_name dir) \<noteq> None then readCheckpoint (fs (prev_name dir)) out else Some (False, out))"

section \<open>Writing\<close>

text \<open>What the system calls answer: the lengths the payload passes through in the file, its length
  when the stream is closed, and the bytes each \<^verbatim>\<open>write\<close> accepts (0 is an error).\<close>

record io_env =
  io_open :: bool
  io_flushes :: "nat list"
  io_written :: nat
  io_payload_ok :: bool
  io_size_ok :: bool
  io_append :: bool
  io_writes :: "nat list"
  io_fsync :: bool
  io_prev :: bool
  io_commit :: bool

text \<open>The loop of \<^verbatim>\<open>write\<close> calls: the lengths reached, and whether everything was written.\<close>

fun append_loop :: "nat \<Rightarrow> nat list \<Rightarrow> nat \<Rightarrow> nat list \<times> bool" where
  "append_loop len [] off = ([], \<not> off < len)"
| "append_loop len (n # ns) off =
     (if \<not> off < len then ([], True)
      else if n = 0 then ([], False)
      else (case append_loop len ns (min len (off + n)) of (reached, ok) \<Rightarrow> (min len (off + n) # reached, ok)))"

definition rename_file :: "string \<Rightarrow> string \<Rightarrow> file_system \<Rightarrow> file_system" where
  "rename_file a b fs = fs(b := fs a, a := None)"

definition write_payload :: "io_env \<Rightarrow> string \<Rightarrow> bytes \<Rightarrow> file_system \<Rightarrow> bool \<times> file_system list" where
  "write_payload E tmp payload fs =
     (if \<not> io_open E then (False, [])
      else (io_payload_ok E, map (\<lambda>k. fs(tmp \<mapsto> take k payload)) (io_flushes E @ [io_written E])))"

text \<open>All file systems a kill can leave behind, in order, and the answer of the call.\<close>

definition writeCheckpointAtomic ::
    "io_env \<Rightarrow> string \<Rightarrow> batch \<Rightarrow> batch \<Rightarrow> v2_metadata \<Rightarrow> checkpoint_trailer \<Rightarrow> cluster_block option \<Rightarrow> file_system
       \<Rightarrow> (bool \<times> file_system list) option" where
  "writeCheckpointAtomic E dir smooths partials meta t cb fs =
     (case serialize_v2 smooths partials meta of
        None \<Rightarrow> None
      | Some payload \<Rightarrow>
          let live = live_name dir; tmp = tmp_name dir; prev = prev_name dir;
              s0 = fs(tmp := None);
              (ok, states) = write_payload E tmp payload s0
          in if \<not> ok \<or> \<not> io_size_ok E then Some (False, s0 # states)
          else let base = take (io_written E) payload;
                   tail = checkpoint_tail (of_nat (length base)) t cb;
                   (reached, complete) = (if io_append E then append_loop (length tail) (io_writes E) 0 else ([], False));
                   states = s0 # states @ map (\<lambda>k. s0(tmp \<mapsto> base @ take k tail)) reached
               in if \<not> complete \<or> \<not> io_fsync E then Some (False, states)
               else let s1 = s0(tmp \<mapsto> base @ tail);
                        s2 = (if s1 live \<noteq> None \<and> io_prev E then rename_file live prev s1 else s1)
                    in if \<not> io_commit E then Some (False, states @ [s1, s2])
                       else Some (True, states @ [s1, s2, rename_file tmp live s2]))"

section \<open>Deduplication of a scratch copy\<close>

definition dedup_step :: "batch \<Rightarrow> nat \<Rightarrow> u64 set \<times> batch \<Rightarrow> (u64 set \<times> batch) option" where
  "dedup_step b i = (\<lambda>(seen, out). do {
     h \<leftarrow> computeRelationHash b i;
     if h \<in> seen then Some (seen, out) else do {
       q \<leftarrow> vec_at (sqrt_Q b) i; sg \<leftarrow> vec_at (signs b) i; v2 \<leftarrow> vec_at (val_2_exps b) i; lp \<leftarrow> vec_at (large_primes b) i;
       cb \<leftarrow> (if length (char_bits b) = n_rels b then vec_at (char_bits b) i else Some 0);
       fs \<leftarrow> vec_at (factor_offsets b) i; fe \<leftarrow> vec_at (factor_offsets b) (i + 1);
       (ixs, cts) \<leftarrow> ofold (\<lambda>j (ixs, cts). do {
           ix \<leftarrow> vec_at (factor_indices b) j; ct \<leftarrow> vec_at (factor_counts b) j; Some (ixs @ [ix], cts @ [ct])
         }) [unat fs..<unat fe] (factor_indices out, factor_counts out);
       let nf = num_factors out + (fe - fs);
       Some (insert h seen, out\<lparr>sqrt_Q := sqrt_Q out @ [q], signs := signs out @ [sg], val_2_exps := val_2_exps out @ [v2],
         large_primes := large_primes out @ [lp], char_bits := char_bits out @ [cb], factor_indices := ixs, factor_counts := cts,
         num_factors := nf, factor_offsets := factor_offsets out @ [nf], num_relations := num_relations out + 1\<rparr>)
     }
   })"

definition dedupRelationsInPlace :: "batch \<Rightarrow> batch option" where
  "dedupRelationsInPlace b =
     (if num_relations b = 0 then Some b
      else map_option snd (ofold (dedup_step b) [0..<n_rels b] ({}, empty_batch\<lparr>factor_offsets := [0]\<rparr>)))"

section \<open>Cluster resume\<close>

record resume_trim =
  rt_start :: u64
  rt_count :: u64
  rt_eff_hw :: u64

definition computeResumeTrim :: "u64 \<Rightarrow> u64 \<Rightarrow> u64 \<Rightarrow> u64 \<Rightarrow> resume_trim" where
  "computeResumeTrim orig_start orig_count hw H =
     (let hw = (if hw > orig_count then orig_count else hw); count = orig_count - hw;
          (eff_hw, count) = (if count = 0 \<and> orig_count \<ge> H \<and> H > 0 then (orig_count - H, H) else (hw, count))
      in \<lparr>rt_start = orig_start + eff_hw, rt_count = count, rt_eff_hw = eff_hw\<rparr>)"

definition clusterResumeTopologyOk :: "u64 \<Rightarrow> u64 \<Rightarrow> u64 \<Rightarrow> u64 \<Rightarrow> u64 \<Rightarrow> bool" where
  "clusterResumeTopologyOk loaded_nodes current_nodes prefix overflow_start overflow_end \<longleftrightarrow>
     loaded_nodes = current_nodes \<and> overflow_start \<le> prefix \<and> prefix \<le> overflow_end"

section \<open>A written checkpoint is read back\<close>

lemma reads_get_field:
  "LENGTH('a::len) \<le> 8 * k \<Longrightarrow> reads (get_field k sel upd t) (to_le k (w :: 'a word)) (True, upd (\<lambda>_. w) t)"
  unfolding get_field_def by (rule reads_last [OF reads_var]) (simp_all add: reads_good)

lemma reads_and_then: "reads p a (True, x) \<Longrightarrow> reads (g x) b y \<Longrightarrow> reads (and_then p g) (a @ b) y"
  unfolding and_then_def by (erule reads_pbind) simp

lemma reads_get_magic: "reads (get_magic m) m True"
  by (simp add: reads_def get_magic_def fread_at) (simp add: stream_at_def)

lemma reads_trailer: "reads (readTrailer old) (serializeTrailer t) (True, t)"
proof -
  let ?f1 = "\<lambda>t. and_then (get_field 8 ct_global_a_index ct_global_a_index_update t) (\<lambda>t.
     and_then (get_field 8 ct_target_relations ct_target_relations_update t) (\<lambda>t.
     and_then (get_field 8 ct_smooths_raw ct_smooths_raw_update t) (\<lambda>t.
     and_then (get_field 8 ct_smooths_dedup ct_smooths_dedup_update t) (\<lambda>t.
     and_then (get_field 8 ct_partials ct_partials_update t) (\<lambda>t.
     and_then (get_field 8 ct_lp1_bound ct_lp1_bound_update t) (\<lambda>t.
     and_then (get_field 4 ct_sieve_bound ct_sieve_bound_update t) (\<lambda>t.
     and_then (get_field 64 ct_N ct_N_update t) (\<lambda>t.
     and_then (get_field 1 ct_cluster_present ct_cluster_present_update t) (\<lambda>t.
     get_field 8 ct_elapsed_sec ct_elapsed_sec_update t)))))))))"
  have last: "reads (get_field 8 ct_elapsed_sec ct_elapsed_sec_update x) (to_le 8 (ct_elapsed_sec t)) (True, t)"
    if "x\<lparr>ct_elapsed_sec := ct_elapsed_sec t\<rparr> = t" for x
    using reads_get_field [of 8 ct_elapsed_sec ct_elapsed_sec_update x "ct_elapsed_sec t"] that by simp
  have fields: "reads (?f1 old) (to_le 8 (ct_global_a_index t)
     @ to_le 8 (ct_target_relations t) @ to_le 8 (ct_smooths_raw t) @ to_le 8 (ct_smooths_dedup t)
     @ to_le 8 (ct_partials t) @ to_le 8 (ct_lp1_bound t) @ to_le 4 (ct_sieve_bound t) @ to_le 64 (ct_N t)
     @ to_le 1 (ct_cluster_present t) @ to_le 8 (ct_elapsed_sec t)) (True, t)"
    by (rule reads_and_then, rule reads_get_field, simp)+ (rule last, simp)
  have "reads (\<lambda>f. if \<not> is_good f \<or> CKPT_SCHEMA_VERSION \<noteq> CKPT_SCHEMA_VERSION then Some ((False, old), f) else ?f1 old f) bs y"
    if "reads (?f1 old) bs y" for bs y
    using that by (simp add: reads_def) (simp add: stream_at_def)
  note this [OF fields]
  then have "reads (pbind (read_var 4 0) (\<lambda>schema f. if \<not> is_good f \<or> schema \<noteq> CKPT_SCHEMA_VERSION then Some ((False, old), f) else ?f1 old f))
      (to_le 4 CKPT_SCHEMA_VERSION @ to_le 8 (ct_global_a_index t)
     @ to_le 8 (ct_target_relations t) @ to_le 8 (ct_smooths_raw t) @ to_le 8 (ct_smooths_dedup t)
     @ to_le 8 (ct_partials t) @ to_le 8 (ct_lp1_bound t) @ to_le 4 (ct_sieve_bound t) @ to_le 64 (ct_N t)
     @ to_le 1 (ct_cluster_present t) @ to_le 8 (ct_elapsed_sec t)) (True, t)"
    by (rule reads_pbind [OF reads_var, rotated]) simp
  then show ?thesis
    unfolding readTrailer_def serializeTrailer_def by (intro reads_pbind [OF reads_get_magic]) simp
qed

lemma reads_entries:
  "length (cb_high_water cb) = i + length xs \<Longrightarrow>
     reads (read_entries [i..<i + length xs] cb) (arr 8 xs) (True, cb\<lparr>cb_high_water := take i (cb_high_water cb) @ xs\<rparr>)"
proof (induction xs arbitrary: i cb)
  case Nil
  then show ?case by (simp add: reads_preturn)
next
  case (Cons x xs)
  let ?cb = "cb\<lparr>cb_high_water := (cb_high_water cb)[i := x]\<rparr>"
  have one: "reads (pbind (read_var 8 (cb_high_water cb ! i)) (\<lambda>v. good_result (cb\<lparr>cb_high_water := (cb_high_water cb)[i := v]\<rparr>)))
      (to_le 8 x) (True, ?cb)"
    by (rule reads_last [OF reads_var]) (simp_all add: reads_good)
  have len: "length (cb_high_water ?cb) = Suc i + length xs" using Cons.prems by simp
  have "take (Suc i) ((cb_high_water cb)[i := x]) = take i (cb_high_water cb) @ [x]"
    using Cons.prems by (simp add: take_Suc_conv_app_nth)
  then have "reads (read_entries [Suc i..<Suc i + length xs] ?cb) (arr 8 xs) (True, cb\<lparr>cb_high_water := take i (cb_high_water cb) @ x # xs\<rparr>)"
    using Cons.IH [OF len] by simp
  then have "reads (read_entries (i # [Suc i..<Suc i + length xs]) cb) (to_le 8 x @ arr 8 xs)
      (True, cb\<lparr>cb_high_water := take i (cb_high_water cb) @ x # xs\<rparr>)"
    by (simp only: read_entries.simps reads_and_then [OF one])
  moreover have "[i..<i + length (x # xs)] = i # [Suc i..<Suc i + length xs]" by (subst upt_conv_Cons) simp_all
  ultimately show ?case by (simp del: upt_Suc)
qed

lemma reads_cluster_block:
  assumes n: "length (cb_high_water b) < 2 ^ 32" and room: "length (cb_high_water b) * 8 + 12 \<le> unat region_left"
  shows "reads (readClusterBlock region_left old) (serializeClusterBlock b) (True, b)"
proof -
  let ?n = "of_nat (length (cb_high_water b)) :: u32"
  have un: "unat ?n = length (cb_high_water b)" using n by (simp add: unat_of_nat)
  have "unat ((ucast ?n :: u64) * 8 + 12) = length (cb_high_water b) * 8 + 12"
    using n by (simp add: unat_word_ariths un)
  then have fits: "\<not> (ucast ?n :: u64) * 8 + 12 > region_left" using room by (simp add: word_less_nat_alt)
  let ?cb = "old\<lparr>cb_prefix := cb_prefix b\<rparr>"
  let ?sz = "?cb\<lparr>cb_high_water := resize_to (length (cb_high_water b)) (cb_high_water ?cb)\<rparr>"
  have "reads (read_entries [0..<length (cb_high_water b)] ?sz) (arr 8 (cb_high_water b)) (True, b)"
  proof -
    have eq: "old\<lparr>cb_prefix := cb_prefix b, cb_high_water := cb_high_water b\<rparr> = b" by simp
    have "reads (read_entries [0..<length (cb_high_water b)] ?sz) (arr 8 (cb_high_water b))
        (True, old\<lparr>cb_prefix := cb_prefix b, cb_high_water := cb_high_water b\<rparr>)"
      using reads_entries [of ?sz 0 "cb_high_water b"] by (simp del: read_entries.simps)
    then show ?thesis unfolding eq .
  qed
  then have "reads (\<lambda>f. if \<not> is_good f then Some ((False, ?cb), f)
       else if (ucast ?n :: u64) * 8 + 12 > region_left then Some ((False, ?cb), f)
       else read_entries [0..<unat ?n] (?cb\<lparr>cb_high_water := resize_to (unat ?n) (cb_high_water ?cb)\<rparr>) f) (arr 8 (cb_high_water b)) (True, b)"
    using fits un by (simp add: reads_def) (simp add: stream_at_def)
  then have rest: "reads (pbind (read_var 4 (0 :: u32)) (\<lambda>node_count f. if \<not> is_good f then Some ((False, ?cb), f)
       else if (ucast node_count :: u64) * 8 + 12 > region_left then Some ((False, ?cb), f)
       else read_entries [0..<unat node_count] (?cb\<lparr>cb_high_water := resize_to (unat node_count) (cb_high_water ?cb)\<rparr>) f))
     (to_le 4 ?n @ arr 8 (cb_high_water b)) (True, b)"
    by (rule reads_pbind [OF reads_var, rotated]) simp
  have first: "reads (get_field 8 cb_prefix cb_prefix_update old) (to_le 8 (cb_prefix b)) (True, ?cb)"
    using reads_get_field [of 8 cb_prefix cb_prefix_update old "cb_prefix b"] by simp
  show ?thesis
    unfolding readClusterBlock_def serializeClusterBlock_def by (rule reads_and_then [OF first]) (rule rest)
qed

text \<open>The region between payload and footer.\<close>

definition region_image :: "checkpoint_trailer \<Rightarrow> cluster_block option \<Rightarrow> bytes" where
  "region_image t cb = serializeTrailer t @ (case cb of Some b \<Rightarrow> if ct_cluster_present t \<noteq> 0 then serializeClusterBlock b else [] | None \<Rightarrow> [])"

definition footer_image :: "u64 \<Rightarrow> u64 \<Rightarrow> bytes" where
  "footer_image off len = CKPT_FOOTER_MAGIC @ to_le 8 off @ to_le 8 len @ to_le 4 CKPT_SCHEMA_VERSION"

lemma checkpoint_tail_parts: "checkpoint_tail off t cb = region_image t cb @ footer_image off (of_nat (length (region_image t cb)))"
  by (simp add: checkpoint_tail_def region_image_def footer_image_def Let_def split: option.split)

lemma length_footer: "length (footer_image off len) = CKPT_FOOTER_SIZE"
  by (simp add: footer_image_def CKPT_FOOTER_SIZE_def CKPT_FOOTER_MAGIC_def)

lemma length_trailer: "length (serializeTrailer t) = 138"
  by (simp add: serializeTrailer_def CKPT_TRAILER_MAGIC_def)

lemma seekg_at: "length pre < 2 ^ 63 \<Longrightarrow> seekg (of_nat (length pre)) (open_file (pre @ rest)) = stream_at pre rest"
  by (simp add: seekg_def open_file_def stream_at_def unat_of_nat)

lemma read_footer_image:
  assumes "length (pre @ footer_image off len) < 2 ^ 63" and "off + len = of_nat (length pre)"
  shows "read_footer (pre @ footer_image off len) = Some (off, len)"
proof -
  let ?bs = "pre @ footer_image off len"
  have fsz: "of_nat (length ?bs) - of_nat CKPT_FOOTER_SIZE = (of_nat (length pre) :: u64)"
    by (simp add: length_footer)
  have pos: "length pre < 2 ^ 63" using assms(1) by simp
  have at0: "seekg (of_nat (length pre)) (open_file ?bs) = stream_at pre (CKPT_FOOTER_MAGIC @ to_le 8 off @ to_le 8 len @ to_le 4 CKPT_SCHEMA_VERSION)"
    using seekg_at [OF pos] by (simp add: footer_image_def)
  have m: "length CKPT_FOOTER_MAGIC = 9" by (simp add: CKPT_FOOTER_MAGIC_def)
  have last: "fread 4 (stream_at x (to_le 4 CKPT_SCHEMA_VERSION)) = (to_le 4 CKPT_SCHEMA_VERSION, stream_at (x @ to_le 4 CKPT_SCHEMA_VERSION) [])" for x
    using fread_at [of "to_le 4 CKPT_SCHEMA_VERSION" 4 x "[]"] by simp
  have sum: "off + len + of_nat CKPT_FOOTER_SIZE = of_nat (length ?bs)" using assms(2) by (simp add: length_footer)
  show ?thesis
    unfolding read_footer_def Let_def fsz at0 fread_at [OF m] split fread_at [OF length_to_le] last
    using sum by (simp add: of_le_to_le) (simp add: stream_at_def)
qed

text \<open>What a load of the written file stores over \<open>out\<close>.\<close>

definition loaded :: "batch \<Rightarrow> batch \<Rightarrow> v2_metadata \<Rightarrow> checkpoint_trailer \<Rightarrow> cluster_block option \<Rightarrow> load_result \<Rightarrow> load_result" where
  "loaded smooths partials meta t cb out =
     (case v2_read smooths partials meta (lr_smooths out, lr_partials out, lr_meta out) of (sm, pt, md) \<Rightarrow>
        \<lparr>lr_ok = True, lr_trailer = t,
         lr_cluster = (if ct_cluster_present t = 0 then lr_cluster out else case cb of Some b \<Rightarrow> b | None \<Rightarrow> lr_cluster out),
         lr_smooths = sm, lr_partials = pt, lr_meta = md\<rparr>)"

text \<open>The data of a checkpoint that can be written: vectors of possible length, a cluster block exactly
  when the trailer announces one, and a file below \<open>2^63\<close> bytes.\<close>

definition writable :: "batch \<Rightarrow> batch \<Rightarrow> v2_metadata \<Rightarrow> checkpoint_trailer \<Rightarrow> cluster_block option \<Rightarrow> bytes \<Rightarrow> bool" where
  "writable smooths partials meta t cb payload \<longleftrightarrow> serialize_v2 smooths partials meta = Some payload
     \<and> vectors_fit smooths \<and> vectors_fit partials \<and> length (md_factor_base meta) < 2 ^ 32
     \<and> (ct_cluster_present t \<noteq> 0 \<longrightarrow> (\<exists>b. cb = Some b \<and> length (cb_high_water b) < 2 ^ 32))
     \<and> length payload + length (region_image t cb) + CKPT_FOOTER_SIZE < 2 ^ 63"

lemma read_cluster_image:
  assumes "ct_cluster_present t \<noteq> 0 \<longrightarrow> (\<exists>b. cb = Some b \<and> length (cb_high_water b) < 2 ^ 32)"
    and "length payload + length (region_image t cb) < 2 ^ 63"
  shows "\<exists>f. read_cluster (of_nat (length payload)) (of_nat (length (region_image t cb))) t old
      (stream_at (payload @ serializeTrailer t) (drop 138 (region_image t cb) @ rest))
    = Some ((True, if ct_cluster_present t = 0 then old else case cb of Some b \<Rightarrow> b | None \<Rightarrow> old), f)"
proof (cases "ct_cluster_present t = 0")
  case True
  then show ?thesis by (simp add: read_cluster_def)
next
  case False
  then obtain b where cb: "cb = Some b" "length (cb_high_water b) < 2 ^ 32" using assms(1) by blast
  have reg: "region_image t cb = serializeTrailer t @ serializeClusterBlock b" using False cb by (simp add: region_image_def)
  have lb: "length (serializeClusterBlock b) = length (cb_high_water b) * 8 + 12" by (simp add: serializeClusterBlock_def)
  let ?L = "of_nat (length (region_image t cb)) :: u64"
  have L: "unat ?L = 138 + (length (cb_high_water b) * 8 + 12)"
  proof -
    have "length (region_image t cb) < 18446744073709551616" using assms(2) by simp
    then have "unat ?L = length (region_image t cb)" by (simp only: unat_of_nat) simp
    then show ?thesis using lb reg by (simp add: length_trailer)
  qed
  have cons: "of_nat (is_pos (stream_at (payload @ serializeTrailer t) r)) - of_nat (length payload) = (138 :: u64)" for r
    by (simp add: stream_at_def length_trailer)
  have gt: "(138 :: u64) < ?L" using L by (simp add: word_less_nat_alt)
  have left: "unat (?L - 138) = length (cb_high_water b) * 8 + 12"
    using gt L by (simp add: unat_sub_exact)
  have "readClusterBlock (?L - 138) old (stream_at (payload @ serializeTrailer t) (serializeClusterBlock b @ rest))
      = Some ((True, b), stream_at ((payload @ serializeTrailer t) @ serializeClusterBlock b) rest)"
    using reads_cluster_block [OF cb(2), of "?L - 138" old] left by (simp add: reads_def)
  moreover have "drop 138 (region_image t cb) = serializeClusterBlock b" by (simp add: reg length_trailer)
  moreover have "of_nat (is_pos (stream_at ((payload @ serializeTrailer t) @ serializeClusterBlock b) rest))
      = of_nat (length payload) + ?L" by (simp add: stream_at_def reg)
  ultimately show ?thesis
    using False gt cons cb by (simp add: read_cluster_def Let_def)
qed

lemma checkpoint_file_read:
  assumes w: "writable smooths partials meta t cb payload"
  shows "readCheckpoint (Some (payload @ checkpoint_tail (of_nat (length payload)) t cb)) out
    = Some (True, loaded smooths partials meta t cb out)"
proof -
  let ?off = "of_nat (length payload) :: u64" let ?len = "of_nat (length (region_image t cb)) :: u64"
  let ?bs = "payload @ checkpoint_tail ?off t cb"
  note wd = w [unfolded writable_def]
  have bs: "?bs = (payload @ region_image t cb) @ footer_image ?off ?len" by (simp add: checkpoint_tail_parts)
  have small: "length ((payload @ region_image t cb) @ footer_image ?off ?len) < 2 ^ 63" using wd by (simp add: length_footer)
  have foot: "read_footer ?bs = Some (?off, ?len)"
    unfolding bs by (rule read_footer_image [OF small]) simp
  have reg: "region_image t cb = serializeTrailer t @ drop 138 (region_image t cb)"
    by (simp add: region_image_def length_trailer)
  have lp: "length payload < 2 ^ 63" using wd by simp
  have seek: "seekg ?off (open_file ?bs) = stream_at payload (serializeTrailer t @ drop 138 (region_image t cb) @ footer_image ?off ?len)"
    using seekg_at [OF lp] reg unfolding bs by (metis append.assoc)
  have tr: "readTrailer x (seekg ?off (open_file ?bs)) = Some ((True, t), stream_at (payload @ serializeTrailer t) (drop 138 (region_image t cb) @ footer_image ?off ?len))" for x
    using reads_trailer [of x t] unfolding seek reads_def by blast
  obtain f where cl: "read_cluster ?off ?len t (lr_cluster out) (stream_at (payload @ serializeTrailer t) (drop 138 (region_image t cb) @ footer_image ?off ?len))
      = Some ((True, if ct_cluster_present t = 0 then lr_cluster out else case cb of Some b \<Rightarrow> b | None \<Rightarrow> lr_cluster out), f)"
    using read_cluster_image [of t cb payload "lr_cluster out" "footer_image ?off ?len"] wd by auto
  have pay: "deserialize_v2 o' (open_file ?bs) = Some ((True, v2_read smooths partials meta o'), stream_at payload (checkpoint_tail ?off t cb))" for o'
    using deserialize_v2_reads [of smooths partials meta payload o'] wd unfolding reads_def open_file_at by (metis append_Nil)
  obtain sm pt md where v: "v2_read smooths partials meta (lr_smooths out, lr_partials out, lr_meta out) = (sm, pt, md)"
    by (cases "v2_read smooths partials meta (lr_smooths out, lr_partials out, lr_meta out)") auto
  have "\<not> length ?bs < CKPT_FOOTER_SIZE" unfolding bs by (simp add: length_footer)
  then show ?thesis
    using foot tr cl pay v by (simp add: readCheckpoint_def Let_def loaded_def)
qed

section \<open>Kills while a checkpoint is written\<close>

lemma names_differ [simp]:
  "live_name d \<noteq> tmp_name d" "prev_name d \<noteq> tmp_name d" "live_name d \<noteq> prev_name d"
  "tmp_name d \<noteq> live_name d" "tmp_name d \<noteq> prev_name d" "prev_name d \<noteq> live_name d"
  by (simp_all add: live_name_def tmp_name_def prev_name_def)

text \<open>The three kinds of file system a kill can leave: both generations as before, the live file moved
  to the previous generation, and the new file installed.\<close>

definition untouched :: "string \<Rightarrow> file_system \<Rightarrow> file_system \<Rightarrow> bool" where
  "untouched dir fs s \<longleftrightarrow> s (live_name dir) = fs (live_name dir) \<and> s (prev_name dir) = fs (prev_name dir)"

definition retired :: "string \<Rightarrow> file_system \<Rightarrow> file_system \<Rightarrow> bool" where
  "retired dir fs s \<longleftrightarrow> fs (live_name dir) \<noteq> None \<and> s (live_name dir) = None \<and> s (prev_name dir) = fs (live_name dir)"

definition installed :: "string \<Rightarrow> bytes \<Rightarrow> file_system \<Rightarrow> bool" where
  "installed dir file s \<longleftrightarrow> s (live_name dir) = Some file"

lemma write_states:
  assumes run: "writeCheckpointAtomic E dir smooths partials meta t cb fs = Some (ok, states)"
    and img: "serialize_v2 smooths partials meta = Some payload"
    and closed: "io_payload_ok E \<longrightarrow> length payload \<le> io_written E"
  defines "file \<equiv> payload @ checkpoint_tail (of_nat (length payload)) t cb"
  shows "(\<forall>s \<in> set states. untouched dir fs s \<or> retired dir fs s \<or> installed dir file s) \<and> states \<noteq> []
     \<and> (ok \<longrightarrow> installed dir file (last states))"
proof -
  let ?tmp = "tmp_name dir" let ?s0 = "fs(?tmp := None)"
  have keep: "untouched dir fs (?s0(?tmp := x))" "untouched dir fs ?s0" for x by (simp_all add: untouched_def)
  obtain good st where wp: "write_payload E ?tmp payload ?s0 = (good, st)" by fastforce
  have st: "\<forall>s \<in> set st. untouched dir fs s" and good: "good \<Longrightarrow> io_payload_ok E"
    using wp keep by (auto simp: write_payload_def split: if_splits)
  show ?thesis
  proof (cases "\<not> good \<or> \<not> io_size_ok E")
    case True
    then have "states = ?s0 # st" "\<not> ok" using run img wp by (auto simp: writeCheckpointAtomic_def Let_def)
    then show ?thesis using st keep by simp
  next
    case False
    then have base: "take (io_written E) payload = payload" using good closed by simp
    let ?tail = "checkpoint_tail (of_nat (length payload)) t cb"
    obtain reached complete where ap: "(if io_append E then append_loop (length ?tail) (io_writes E) 0 else ([], False)) = (reached, complete)" by fastforce
    let ?st = "?s0 # st @ map (\<lambda>k. ?s0(?tmp \<mapsto> payload @ take k ?tail)) reached"
    let ?s1 = "?s0(?tmp \<mapsto> file)"
    let ?s2 = "if ?s1 (live_name dir) \<noteq> None \<and> io_prev E then rename_file (live_name dir) (prev_name dir) ?s1 else ?s1"
    have pre: "\<forall>s \<in> set ?st. untouched dir fs s" using st keep by auto
    have s2: "untouched dir fs ?s2 \<or> retired dir fs ?s2"
      by (auto simp: untouched_def retired_def rename_file_def)
    have tmp2: "?s2 ?tmp = Some file" by (simp add: rename_file_def)
    have inst: "installed dir file (rename_file ?tmp (live_name dir) ?s2)"
      using tmp2 by (simp add: installed_def rename_file_def)
    have "writeCheckpointAtomic E dir smooths partials meta t cb fs = (if \<not> good \<or> \<not> io_size_ok E then Some (False, ?s0 # st)
        else if \<not> complete \<or> \<not> io_fsync E then Some (False, ?st)
        else if \<not> io_commit E then Some (False, ?st @ [?s1, ?s2])
        else Some (True, ?st @ [?s1, ?s2, rename_file ?tmp (live_name dir) ?s2]))"
      unfolding writeCheckpointAtomic_def img option.case Let_def wp split base ap file_def by (rule refl)
    then have "Some (ok, states) = (if \<not> complete \<or> \<not> io_fsync E then Some (False, ?st)
        else if \<not> io_commit E then Some (False, ?st @ [?s1, ?s2])
        else Some (True, ?st @ [?s1, ?s2, rename_file ?tmp (live_name dir) ?s2]))"
      unfolding run if_not_P [OF False] .
    then show ?thesis
      using pre s2 inst keep(1) [of "Some file"] by (auto split: if_splits)
  qed
qed

text \<open>
  C31. A checkpoint survives a kill at any point of the next write. If the committed generation
  loads (the live file, or the previous one while there is no live file), then whatever the system
  calls answer and wherever the process is killed, the directory still loads, as the old
  checkpoint or completely as the new one; and when the write reports success, as the new one. The
  closing flush of the payload is assumed to succeed when the stream was good before it.
\<close>

theorem checkpoint_crash_safe:
  assumes "writable smooths partials meta t cb payload"
    and "io_payload_ok E \<longrightarrow> length payload \<le> io_written E"
    and "(\<exists>b. fs (live_name dir) = Some b \<and> readCheckpoint (Some b) out = Some (True, old))
       \<or> (\<exists>b. fs (live_name dir) = None \<and> fs (prev_name dir) = Some b \<and> readCheckpoint (Some b) out = Some (True, old))"
    and "writeCheckpointAtomic E dir smooths partials meta t cb fs = Some (ok, states)"
  shows "(\<forall>s \<in> set states. loadLatestCheckpoint dir s out = Some (True, old)
            \<or> loadLatestCheckpoint dir s out = Some (True, loaded smooths partials meta t cb out))
     \<and> (ok \<longrightarrow> loadLatestCheckpoint dir (last states) out = Some (True, loaded smooths partials meta t cb out))"
proof -
  let ?file = "payload @ checkpoint_tail (of_nat (length payload)) t cb"
  note states = write_states [OF assms(4) _ assms(2)] and written = checkpoint_file_read [OF assms(1), of out]
  have img: "serialize_v2 smooths partials meta = Some payload" using assms(1) by (simp add: writable_def)
  have new: "loadLatestCheckpoint dir s out = Some (True, loaded smooths partials meta t cb out)" if "installed dir ?file s" for s
    using that written by (simp add: installed_def loadLatestCheckpoint_def)
  have same: "loadLatestCheckpoint dir s out = Some (True, old)" if "untouched dir fs s" for s
    using that assms(3) by (auto simp: untouched_def loadLatestCheckpoint_def)
  have moved: "loadLatestCheckpoint dir s out = Some (True, old)" if "retired dir fs s" for s
    using that assms(3) by (auto simp: retired_def loadLatestCheckpoint_def)
  show ?thesis using states [OF img] new same moved by auto
qed

text \<open>
  Without the assumption on the live file the window between the two renames loses the last loadable
  generation: a live file that does not load is moved over the previous one that does.
\<close>

lemma torn_live_file_replaces_good_generation:
  assumes "serialize_v2 smooths partials meta = Some payload" and "fs (live_name dir) = Some torn"
    and "io_open E" "io_payload_ok E" "io_size_ok E" "io_append E" "io_fsync E" "io_prev E" "io_written E = length payload"
    and "append_loop (length (checkpoint_tail (of_nat (length payload)) t cb)) (io_writes E) 0 = (reached, True)"
  shows "\<exists>ok states s. writeCheckpointAtomic E dir smooths partials meta t cb fs = Some (ok, states) \<and> s \<in> set states
     \<and> s (live_name dir) = None \<and> s (prev_name dir) = Some torn"
proof -
  let ?tmp = "tmp_name dir" let ?s1 = "fs(?tmp := None, ?tmp \<mapsto> payload @ checkpoint_tail (of_nat (length payload)) t cb)"
  let ?s = "rename_file (live_name dir) (prev_name dir) ?s1"
  have "?s (live_name dir) = None" "?s (prev_name dir) = Some torn" using assms(2) by (simp_all add: rename_file_def)
  moreover have "\<exists>ok states. writeCheckpointAtomic E dir smooths partials meta t cb fs = Some (ok, states) \<and> ?s \<in> set states"
    using assms by (cases "io_commit E") (auto simp: writeCheckpointAtomic_def write_payload_def Let_def)
  ultimately show ?thesis by blast
qed

section \<open>Deduplication and resume\<close>

text \<open>
  Resuming a node's initial range re-issues everything that is not below its high-water mark:
  the trimmed range ends where the original one ended, starts at or before the mark, and the
  offset plus its length is the length of the original range, so a later checkpoint can add them.
  Unless the range was empty the trimmed range is not, so no range limit of 0, which means
  unbounded, is ever set.
\<close>

lemma resume_trim_bounds:
  assumes "unat orig_start + unat orig_count < 2 ^ 64" and "0 < H" and "orig_count = 0 \<or> H \<le> orig_count"
  shows "let r = computeResumeTrim orig_start orig_count hw H in
       unat (rt_start r) + unat (rt_count r) = unat orig_start + unat orig_count
     \<and> unat orig_start \<le> unat (rt_start r) \<and> unat (rt_start r) \<le> unat orig_start + unat hw
     \<and> unat (rt_eff_hw r) + unat (rt_count r) = unat orig_count
     \<and> (rt_count r = 0 \<longleftrightarrow> orig_count = 0)"
proof -
  define r where "r = computeResumeTrim orig_start orig_count hw H"
  define h where "h = (if hw > orig_count then orig_count else hw)"
  have h: "h \<le> orig_count" "unat h \<le> unat hw" by (auto simp: h_def word_less_nat_alt word_le_nat_alt not_less)
  have r: "r = (if orig_count - h = 0 \<and> orig_count \<ge> H \<and> H > 0
      then \<lparr>rt_start = orig_start + (orig_count - H), rt_count = H, rt_eff_hw = orig_count - H\<rparr>
      else \<lparr>rt_start = orig_start + h, rt_count = orig_count - h, rt_eff_hw = h\<rparr>)"
    unfolding r_def computeResumeTrim_def h_def [symmetric] Let_def
    by (simp only: split if_distrib [of "case_prod (\<lambda>eff count. \<lparr>rt_start = orig_start + eff, rt_count = count, rt_eff_hw = eff\<rparr>)"])
  have sum: "unat (orig_start + x) = unat orig_start + unat x" if "x \<le> orig_count" for x
    by (rule unat_add_exact) (use assms(1) that in \<open>simp add: word_le_nat_alt\<close>)
  have sub: "unat (orig_count - x) = unat orig_count - unat x" if "x \<le> orig_count" for x using that by (rule unat_sub_exact)
  have "unat (rt_start r) + unat (rt_count r) = unat orig_start + unat orig_count
     \<and> unat orig_start \<le> unat (rt_start r) \<and> unat (rt_start r) \<le> unat orig_start + unat hw
     \<and> unat (rt_eff_hw r) + unat (rt_count r) = unat orig_count
     \<and> (rt_count r = 0 \<longleftrightarrow> orig_count = 0)"
  proof (cases "orig_count - h = 0 \<and> orig_count \<ge> H \<and> H > 0")
    case True
    then have "h = orig_count" "H \<le> orig_count" by auto
    moreover have "orig_count - H \<le> orig_count" using \<open>H \<le> orig_count\<close> by (simp add: word_le_nat_alt sub)
    moreover have "0 < unat H" using assms(2) by (simp add: word_less_nat_alt)
    ultimately show ?thesis
      using h assms(1) sum [of "orig_count - H"] sub [of H] unfolding r if_P [OF True]
      by (auto simp: word_le_nat_alt)
  next
    case False
    then have "orig_count - h = 0 \<longleftrightarrow> orig_count = 0" using assms(2,3) h(1) by auto
    then show ?thesis
      using h sum [OF h(1)] sub [OF h(1)] unfolding r if_not_P [OF False] by (auto simp: word_le_nat_alt)
  qed
  then show ?thesis by (simp add: r_def Let_def)
qed

text \<open>The scratch copy after deduplication: the first relation of every hash, in order.\<close>

definition keep_chars :: "batch \<Rightarrow> batch" where
  "keep_chars b = (if length (char_bits b) = n_rels b then b else b\<lparr>char_bits := []\<rparr>)"

lemma keep_chars_sel [simp]:
  "num_relations (keep_chars b) = num_relations b" "batch_ok (keep_chars b) = batch_ok b"
  by (simp_all add: keep_chars_def batch_ok_def offsets_ok_def)

lemma relation_hash_keep: "relation_hash (rel_at (keep_chars b) i) = relation_hash (rel_at b i)"
  by (simp add: keep_chars_def rel_at_def row_def relation_hash_def)

lemma dedup_step_eq:
  assumes ok: "batch_ok b" and i: "i < n_rels b"
  shows "dedup_step b i (sn, out) = Some (if relation_hash (rel_at b i) \<in> sn then (sn, out)
     else (insert (relation_hash (rel_at b i)) sn, push_relation out (rel_at (keep_chars b) i)))"
proof -
  have "appendSingleRelation out (keep_chars b) i = Some (push_relation out (rel_at (keep_chars b) i))"
    by (rule appendSingleRelation_eq) (use assms in simp_all)
  moreover have "dedup_step b i (sn, out) = (if relation_hash (rel_at b i) \<in> sn then Some (sn, out)
      else map_option (\<lambda>d. (insert (relation_hash (rel_at b i)) sn, d)) (appendSingleRelation out (keep_chars b) i))"
    using i computeRelationHash_eq [OF ok i]
    by (simp add: dedup_step_def appendSingleRelation_def keep_chars_def Let_def map_option_bind comp_def split: prod.split)
       (auto simp: Option.bind_eq_None_conv split: option.split intro!: Option.bind_cong)
  ultimately show ?thesis by simp
qed

lemma dedup_loop:
  assumes ok: "batch_ok b"
  shows "set is \<subseteq> {0..<n_rels b} \<Longrightarrow> ofold (dedup_step b) is (sn, out)
    = Some (sn \<union> relation_hash ` set (map (rel_at b) is), fold (\<lambda>r d. push_relation d r) (fresh sn (map (rel_at (keep_chars b)) is)) out)"
proof (induction "is" arbitrary: sn out)
  case (Cons i js)
  then have i: "i < n_rels b" by simp
  show ?case
    using Cons dedup_step_eq [OF ok i, of sn out] by (auto simp: relation_hash_keep)
qed simp

lemma push_relations_exact:
  "batch_exact d \<Longrightarrow> has_room d rs \<Longrightarrow> batch_exact (fold (\<lambda>r d. push_relation d r) rs d)
     \<and> rels (fold (\<lambda>r d. push_relation d r) rs d) = rels d @ rs"
proof (induction rs arbitrary: d)
  case (Cons r rs)
  show ?case
    using Cons.IH [OF push_relation_exact(1) [OF Cons.prems] has_room_push [OF Cons.prems(2)]] push_relation_exact(2) [OF Cons.prems] by simp
qed simp

lemma has_room_fresh: "has_room d rs \<Longrightarrow> has_room d (fresh sn rs)"
proof -
  have "length (fresh sn rs) \<le> length rs \<and> (\<Sum>r\<leftarrow>fresh sn rs. length (r_factors r)) \<le> (\<Sum>r\<leftarrow>rs. length (r_factors r))" for sn
    by (induction rs arbitrary: sn) (auto simp: le_SucI trans_le_add2)
  note this [of sn]
  moreover assume "has_room d rs"
  ultimately show "has_room d (fresh sn rs)" by (auto simp: has_room_def)
qed

lemma dedup_refines:
  assumes "batch_ok b" and "0 < num_relations b" and "has_room (empty_batch\<lparr>factor_offsets := [0]\<rparr>) (rels (keep_chars b))"
  shows "\<exists>d. dedupRelationsInPlace b = Some d \<and> batch_exact d \<and> rels d = fresh {} (rels (keep_chars b))
    \<and> relation_hash ` set (rels d) = relation_hash ` set (rels b)"
proof -
  have start: "batch_exact (empty_batch\<lparr>factor_offsets := [0]\<rparr>)" "rels (empty_batch\<lparr>factor_offsets := [0]\<rparr>) = []"
    by (simp_all add: batch_exact_def offsets_ok_def empty_batch_def rels_def)
  have e: "rels (keep_chars b) = map (rel_at (keep_chars b)) [0..<n_rels b]" by (simp add: rels_def)
  let ?d = "fold (\<lambda>r d. push_relation d r) (fresh {} (rels (keep_chars b))) (empty_batch\<lparr>factor_offsets := [0]\<rparr>)"
  have "dedupRelationsInPlace b = Some ?d"
    using assms(2) dedup_loop [OF assms(1), of "[0..<n_rels b]" "{}"] by (simp add: dedupRelationsInPlace_def e word_gt_0)
  moreover have "batch_exact ?d \<and> rels ?d = fresh {} (rels (keep_chars b))"
    using push_relations_exact [OF start(1) has_room_fresh [OF assms(3), of "{}"]] start(2) by simp
  moreover have "relation_hash ` set (fresh {} (rels (keep_chars b))) = relation_hash ` set (rels (keep_chars b))"
    using hashes_fresh [of "{}" "rels (keep_chars b)"] by simp
  moreover have "relation_hash ` set (rels (keep_chars b)) = relation_hash ` set (rels b)"
    by (auto simp: rels_def relation_hash_keep image_image)
  ultimately show ?thesis by metis
qed

section \<open>Witnesses\<close>

definition sample_trailer :: checkpoint_trailer where
  "sample_trailer = \<lparr>ct_global_a_index = 0, ct_target_relations = 100, ct_smooths_raw = 2, ct_smooths_dedup = 2, ct_partials = 2,
     ct_lp1_bound = 100, ct_sieve_bound = 64, ct_N = 8051, ct_cluster_present = 1, ct_elapsed_sec = 9\<rparr>"

definition sample_cluster :: cluster_block where
  "sample_cluster = \<lparr>cb_prefix = 48, cb_high_water = [16, 8, 0]\<rparr>"

definition all_ok :: "nat \<Rightarrow> io_env" where
  "all_ok n = \<lparr>io_open = True, io_flushes = [0, 40], io_written = n, io_payload_ok = True, io_size_ok = True, io_append = True,
     io_writes = [10, 1000], io_fsync = True, io_prev = True, io_commit = True\<rparr>"

lemma sample_writable: "\<exists>payload. writable sample_batch sample_batch sample_meta sample_trailer (Some sample_cluster) payload"
proof -
  obtain bs where bs: "serialize_v2 sample_batch sample_batch sample_meta = Some bs" and l: "length bs < 1000"
    by (simp add: sample_batch_def sample_meta_def serialize_v2_def metadata_image_def V2_MAGIC_def
      write_vec_def section_image_def write_batch_def)
  have "length (region_image sample_trailer (Some sample_cluster)) \<le> 1000"
    by (simp add: region_image_def length_trailer sample_trailer_def serializeClusterBlock_def sample_cluster_def)
  with l have "length bs + length (region_image sample_trailer (Some sample_cluster)) + CKPT_FOOTER_SIZE < 2 ^ 63"
    by (simp add: CKPT_FOOTER_SIZE_def)
  then have "writable sample_batch sample_batch sample_meta sample_trailer (Some sample_cluster) bs"
    using bs sample_fits by (simp add: writable_def sample_cluster_def sample_trailer_def)
  then show ?thesis ..
qed

text \<open>A first checkpoint is rewritten; the write is killed at every point.\<close>

theorem checkpoint_crash_safe_witness:
  "\<forall>out. \<exists>fs old states. loadLatestCheckpoint ''d'' fs out = Some (True, old)
     \<and> writeCheckpointAtomic (all_ok 2000) ''d'' sample_batch sample_batch sample_meta sample_trailer (Some sample_cluster) fs = Some (True, states)
     \<and> length states = 9 \<and> (\<forall>s \<in> set states. \<exists>r. loadLatestCheckpoint ''d'' s out = Some (True, r))"
proof
  fix out
  obtain payload where w: "writable sample_batch sample_batch sample_meta sample_trailer (Some sample_cluster) payload"
    using sample_writable by blast
  let ?file = "payload @ checkpoint_tail (of_nat (length payload)) sample_trailer (Some sample_cluster)"
  let ?fs = "[live_name ''d'' \<mapsto> ?file]" let ?old = "loaded sample_batch sample_batch sample_meta sample_trailer (Some sample_cluster) out"
  note old = checkpoint_file_read [OF w, of out]
  have img: "serialize_v2 sample_batch sample_batch sample_meta = Some payload" using w by (simp add: writable_def)
  have short: "length payload < 1000"
    using img by (auto simp: sample_batch_def sample_meta_def serialize_v2_def metadata_image_def V2_MAGIC_def
      write_vec_def section_image_def write_batch_def)
  then have all: "take 2000 payload = payload" by simp
  have tl: "length (checkpoint_tail x sample_trailer (Some sample_cluster)) = 203" for x
    by (simp add: checkpoint_tail_parts length_footer region_image_def length_trailer sample_trailer_def serializeClusterBlock_def
        sample_cluster_def CKPT_FOOTER_SIZE_def)
  have "append_loop 203 [10, 1000] 0 = ([10, 203], True)" by simp
  then have "\<exists>states. writeCheckpointAtomic (all_ok 2000) ''d'' sample_batch sample_batch sample_meta sample_trailer (Some sample_cluster) ?fs
      = Some (True, states) \<and> length states = 9"
    by (simp add: writeCheckpointAtomic_def img write_payload_def all_ok_def Let_def tl del: append_loop.simps)
  then obtain states where run: "writeCheckpointAtomic (all_ok 2000) ''d'' sample_batch sample_batch sample_meta sample_trailer
      (Some sample_cluster) ?fs = Some (True, states)" and len: "length states = 9" by blast
  have "\<forall>s \<in> set states. loadLatestCheckpoint ''d'' s out = Some (True, ?old) \<or> loadLatestCheckpoint ''d'' s out = Some (True, ?old)"
    by (rule checkpoint_crash_safe [OF w _ _ run, THEN conjunct1]) (use old short in \<open>simp_all add: all_ok_def\<close>)
  moreover have "loadLatestCheckpoint ''d'' ?fs out = Some (True, ?old)" using old by (simp add: loadLatestCheckpoint_def)
  ultimately show "\<exists>fs old states. loadLatestCheckpoint ''d'' fs out = Some (True, old)
     \<and> writeCheckpointAtomic (all_ok 2000) ''d'' sample_batch sample_batch sample_meta sample_trailer (Some sample_cluster) fs = Some (True, states)
     \<and> length states = 9 \<and> (\<forall>s \<in> set states. \<exists>r. loadLatestCheckpoint ''d'' s out = Some (True, r))"
    using run len by blast
qed

end
