(* ===== verification/Cluster_Resume.thy ===== *)
theory Cluster_Resume
  imports Coordinator Sieve_Checkpoint
begin

text \<open>
  Checkpoint and resume of a cluster run, \<^verbatim>\<open>MPQSOrchestrator::writeClusterCheckpoint\<close> and the
  resume block of the coordinator start in \<^verbatim>\<open>src/orchestrator/orchestrator.cpp\<close>: what of the
  coordinator's state goes into the file, which files a later run accepts, and the pool cursor and
  initial ranges it starts with. The composition of the coordinator, the checkpoint file and the
  work pool: a resumed run re-issues every a-value that was not finished.
\<close>

section \<open>Writing\<close>

record cluster_config =
  cfg_N :: u512
  cfg_target :: u64
  cfg_lp1_bound :: u64
  cfg_sieve_bound :: u32
  cfg_factor_base :: "u32 list"
  cfg_branch :: bool
  cfg_aux_primes :: "u64 list"
  cfg_t_s :: "u64 list"

definition cluster_meta :: "cluster_config \<Rightarrow> v2_metadata" where
  "cluster_meta g =
     (let aux = cfg_branch g \<and> cfg_aux_primes g \<noteq> []
      in \<lparr>md_N = cfg_N g, md_factor_base = cfg_factor_base g, md_lp_bound = cfg_lp1_bound g, md_sieve_bound = cfg_sieve_bound g,
          md_aux_primes = (if aux then cfg_aux_primes g else []), md_t_s = (if aux then cfg_t_s g else []),
          md_r = (if aux then of_nat (length (cfg_aux_primes g)) else 0), md_has_char_bits = False\<rparr>)"

text \<open>Node 0's mark is filled in when the checkpoint is written.\<close>

definition high_water_marks :: "coordinator \<Rightarrow> u64 list" where
  "high_water_marks c =
     (if co_initial_hw c = [] then []
      else (co_initial_hw c)[0 := min (co_node0_hw c) (if co_ranges c \<noteq> [] then snd (co_ranges c ! 0) else co_node0_hw c)])"

definition cluster_trailer :: "cluster_config \<Rightarrow> u64 \<Rightarrow> coordinator \<Rightarrow> checkpoint_trailer" where
  "cluster_trailer g elapsed c =
     (let n = num_relations (peek (cd_acc (co_data c)))
      in \<lparr>ct_global_a_index = 0, ct_target_relations = cfg_target g, ct_smooths_raw = n, ct_smooths_dedup = n,
          ct_partials = num_relations (cd_raw (co_data c)), ct_lp1_bound = cfg_lp1_bound g, ct_sieve_bound = cfg_sieve_bound g,
          ct_N = cfg_N g, ct_cluster_present = 1, ct_elapsed_sec = elapsed\<rparr>)"

definition cluster_section :: "coordinator \<Rightarrow> cluster_block" where
  "cluster_section c = \<lparr>cb_prefix = completedPrefixCursor (co_pool c), cb_high_water = high_water_marks c\<rparr>"

definition writeClusterCheckpoint ::
    "io_env \<Rightarrow> string \<Rightarrow> cluster_config \<Rightarrow> u64 \<Rightarrow> coordinator \<Rightarrow> file_system \<Rightarrow> (bool \<times> file_system list) option" where
  "writeClusterCheckpoint E dir g elapsed c fs =
     writeCheckpointAtomic E dir (peek (cd_acc (co_data c))) (cd_raw (co_data c)) (cluster_meta g) (cluster_trailer g elapsed c)
       (Some (cluster_section c)) fs"

section \<open>Resuming\<close>

record resumed =
  rs_pool :: work_pool
  rs_trims :: "resume_trim list"
  rs_offsets :: "u64 list"
  rs_smooths :: batch
  rs_partials :: batch

text \<open>The checks on a loaded file; \<open>None\<close> starts a fresh run.\<close>

definition accepts_resume :: "cluster_config \<Rightarrow> nat \<Rightarrow> u64 \<Rightarrow> u64 \<Rightarrow> load_result \<Rightarrow> bool" where
  "accepts_resume g num_nodes overflow_start overflow_end lr \<longleftrightarrow>
     ct_N (lr_trailer lr) = cfg_N g \<and> ct_cluster_present (lr_trailer lr) = 1
     \<and> ct_smooths_dedup (lr_trailer lr) = num_relations (lr_smooths lr)
     \<and> clusterResumeTopologyOk (of_nat (length (cb_high_water (lr_cluster lr)))) (of_nat num_nodes)
         (cb_prefix (lr_cluster lr)) overflow_start overflow_end"

text \<open>\<open>None\<close> is a failed assertion of \<^verbatim>\<open>setCursor\<close> or an index out of range.\<close>

definition restore_cluster ::
    "cluster_config \<Rightarrow> contiguous_range list \<Rightarrow> nat \<Rightarrow> u64 \<Rightarrow> u64 \<Rightarrow> u32 \<Rightarrow> u64 \<Rightarrow> bool \<times> load_result \<Rightarrow> resumed option option" where
  "restore_cluster g ranges num_nodes overflow_start overflow_size unit_sz H = (\<lambda>(found, lr).
     if \<not> found \<or> \<not> accepts_resume g num_nodes overflow_start (overflow_start + overflow_size) lr then Some None
     else do {
       p \<leftarrow> setCursor (cb_prefix (lr_cluster lr)) (WorkPool overflow_start overflow_size unit_sz);
       trims \<leftarrow> ofold (\<lambda>i ts. do {
           r \<leftarrow> vec_at ranges i;
           let hw = (if i < length (cb_high_water (lr_cluster lr)) then cb_high_water (lr_cluster lr) ! i else 0);
           Some (ts @ [computeResumeTrim (cr_start r) (cr_count r) hw H])
         }) [0..<num_nodes] [];
       Some (Some \<lparr>rs_pool = p, rs_trims = trims, rs_offsets = map rt_eff_hw trims,
         rs_smooths = lr_smooths lr, rs_partials = lr_partials lr\<rparr>)
     })"

section \<open>A written checkpoint is accepted\<close>

lemma high_water_length [simp]: "length (high_water_marks c) = length (co_initial_hw c)"
  by (simp add: high_water_marks_def)

lemma loaded_cluster:
  "lr_trailer (loaded sm pt md (cluster_trailer g el c) cb out) = cluster_trailer g el c"
  "lr_cluster (loaded sm pt md (cluster_trailer g el c) (Some b) out) = b"
  "num_relations (lr_smooths (loaded sm pt md t cb out)) = num_relations sm"
  by (simp_all add: loaded_def v2_read_def section_read_def cluster_trailer_def Let_def split: prod.splits)

text \<open>The cursor that is written lies in the overflow pool of the run.\<close>

lemma cluster_prefix:
  assumes "run_inv a tot (c, d)"
  shows "{unat a ..< unat (completedPrefixCursor (co_pool c))} \<subseteq> d" "a \<le> completedPrefixCursor (co_pool c)"
    "completedPrefixCursor (co_pool c) \<le> a + tot" "unat (a + tot) = unat a + unat tot"
proof -
  have inv: "pool_inv (unat a) (unat tot) (co_pool c, d)"
    using assms by (simp add: run_inv_def coord_inv_def pool_ok_def)
  show "{unat a ..< unat (completedPrefixCursor (co_pool c))} \<subseteq> d" by (rule completed_prefix_below [OF inv])
  have e: "unat (wp_end (co_pool c)) = unat a + unat tot" using inv by (simp add: pool_inv_def)
  then show sum: "unat (a + tot) = unat a + unat tot"
    using unsigned_less [of "wp_end (co_pool c)", where ?'a = nat] by (intro unat_add_exact) simp
  show "completedPrefixCursor (co_pool c) \<le> a + tot"
    using completedPrefixCursor_le_next [of "co_pool c"] inv sum by (auto simp: pool_inv_def word_le_nat_alt)
  show "a \<le> completedPrefixCursor (co_pool c)"
    using completedPrefixCursor_cases [of "co_pool c"] inv
    by (auto simp: pool_inv_def word_le_nat_alt unit_ok_def)
qed

text \<open>What the loop over the nodes computes.\<close>

lemma trim_loop:
  assumes "n \<le> length ranges"
  shows "ofold (\<lambda>i ts. do { r \<leftarrow> vec_at ranges i; Some (ts @ [f i r]) }) [0..<n] [] = Some (map (\<lambda>i. f i (ranges ! i)) [0..<n])"
  using assms by (induction n) (simp_all add: ofold_append)

definition trims_of :: "contiguous_range list \<Rightarrow> u64 \<Rightarrow> coordinator \<Rightarrow> resume_trim list" where
  "trims_of ranges H c =
     map (\<lambda>i. computeResumeTrim (cr_start (ranges ! i)) (cr_count (ranges ! i)) (high_water_marks c ! i) H) [0..<length ranges]"

lemma restore_written:
  assumes inv: "run_inv a tot (c, d)" and n: "length ranges = length (co_initial_hw c)"
    and lr_def: "lr = loaded (peek (cd_acc (co_data c))) (cd_raw (co_data c)) (cluster_meta g) (cluster_trailer g el c) (Some (cluster_section c)) out"
  shows "restore_cluster g ranges (length ranges) a tot usize H (True, lr)
    = Some (Some \<lparr>rs_pool = (WorkPool a tot usize)\<lparr>wp_next := completedPrefixCursor (co_pool c)\<rparr>, rs_trims = trims_of ranges H c,
        rs_offsets = map rt_eff_hw (trims_of ranges H c), rs_smooths = lr_smooths lr, rs_partials = lr_partials lr\<rparr>)"
proof -
  note lc = loaded_cluster [of "peek (cd_acc (co_data c))" "cd_raw (co_data c)" "cluster_meta g"]
  have ok: "accepts_resume g (length ranges) a (a + tot) lr"
    using cluster_prefix(2,3) [OF inv] n
    by (simp add: accepts_resume_def lr_def lc clusterResumeTopologyOk_def) (simp add: cluster_trailer_def cluster_section_def Let_def)
  have set: "setCursor (cb_prefix (lr_cluster lr)) (WorkPool a tot usize)
      = Some ((WorkPool a tot usize)\<lparr>wp_next := completedPrefixCursor (co_pool c)\<rparr>)"
    using cluster_prefix(3) [OF inv] by (simp add: lr_def lc setCursor_def WorkPool_def cluster_section_def)
  have hw: "cb_high_water (lr_cluster lr) = high_water_marks c" by (simp add: lr_def lc cluster_section_def)
  have trims: "ofold (\<lambda>i ts. do {
           r \<leftarrow> vec_at ranges i;
           let m = (if i < length (high_water_marks c) then high_water_marks c ! i else 0);
           Some (ts @ [computeResumeTrim (cr_start r) (cr_count r) m H])
         }) [0..<length ranges] [] = Some (trims_of ranges H c)"
    using trim_loop [of "length ranges" ranges "\<lambda>i r. computeResumeTrim (cr_start r) (cr_count r)
        (if i < length (high_water_marks c) then high_water_marks c ! i else 0) H"] n
    by (simp add: trims_of_def cong: if_cong)
  show ?thesis using ok set trims by (simp add: restore_cluster_def hw cong: if_cong)
qed

section \<open>An example\<close>

definition example_cfg :: cluster_config where
  "example_cfg = \<lparr>cfg_N = 8051, cfg_target = 100, cfg_lp1_bound = 100, cfg_sieve_bound = 64, cfg_factor_base = [2, 5, 7],
     cfg_branch = True, cfg_aux_primes = [101], cfg_t_s = [7]\<rparr>"

lemma example_pooled:
  "peek (cd_acc (co_data example_after)) = fresh_raw" "cd_raw (co_data example_after) = fresh_raw"
  by (simp_all add: example_after_def control_data example_coord_def start_coordinator_def example_data_def peek_def
      RelationAccumulator_def fresh_raw_def)

lemma assign_marks: "co_initial_hw (snd (assignChunkTo F tn w dr re c)) = co_initial_hw c"
  by (simp add: assignChunkTo_def send_assignment_def update_tracker_def Let_def split: option.split prod.split bool.split)

lemma stragglers_marks: "co_initial_hw (checkStragglers F now c) = co_initial_hw c"
proof -
  have "co_initial_hw (fold (check_straggler F now r) cs c) = co_initial_hw c" for r cs
    by (induction cs arbitrary: c) (simp_all add: check_straggler_def)
  then show ?thesis by (simp add: checkStragglers_def Let_def)
qed

lemma record_marks: "length (co_initial_hw (record_complete F w cc c)) = length (co_initial_hw c)"
  by (simp add: record_complete_def capture_high_water_def Let_def update_tracker_def)

lemma example_marks: "length (co_initial_hw example_after) = 3"
proof -
  have "length (co_initial_hw example_coord) = 3"
    by (simp add: example_coord_def start_coordinator_def initial_high_water_def)
  then show ?thesis
    by (simp add: example_after_def on_control_def on_chunk_complete_def example_complete_def msg_codes Let_def
        stragglers_marks assign_marks record_marks)
qed

lemma example_content:
  "\<exists>content. writable fresh_raw fresh_raw (cluster_meta example_cfg) (cluster_trailer example_cfg 9 example_after)
     (Some (cluster_section example_after)) content \<and> length content < 1000"
proof -
  obtain bs where bs: "serialize_v2 fresh_raw fresh_raw (cluster_meta example_cfg) = Some bs" and l: "length bs < 1000"
    by (simp add: fresh_raw_def empty_batch_def cluster_meta_def example_cfg_def serialize_v2_def metadata_image_def V2_MAGIC_def
      write_vec_def section_image_def write_batch_def)
  have "writable fresh_raw fresh_raw (cluster_meta example_cfg) (cluster_trailer example_cfg 9 example_after)
     (Some (cluster_section example_after)) bs"
    using bs l
    by (simp add: writable_def vectors_fit_def fresh_raw_def empty_batch_def cluster_meta_def example_cfg_def cluster_section_def example_marks
        region_image_def length_trailer serializeClusterBlock_def CKPT_FOOTER_SIZE_def)
  with l show ?thesis by blast
qed

lemma example_write:
  "\<exists>states. writeClusterCheckpoint (all_ok 2000) ''d'' example_cfg 9 example_after Map.empty = Some (True, states)"
proof -
  obtain content where w: "writable fresh_raw fresh_raw (cluster_meta example_cfg) (cluster_trailer example_cfg 9 example_after)
     (Some (cluster_section example_after)) content" and l: "length content < 1000"
    using example_content by blast
  have img: "serialize_v2 fresh_raw fresh_raw (cluster_meta example_cfg) = Some content" using w by (simp add: writable_def)
  have all: "take 2000 content = content" using l by simp
  have tl: "length (checkpoint_tail x (cluster_trailer example_cfg 9 example_after) (Some (cluster_section example_after))) = 203" for x
    by (simp add: checkpoint_tail_parts length_footer region_image_def length_trailer cluster_trailer_def Let_def serializeClusterBlock_def
        cluster_section_def example_marks CKPT_FOOTER_SIZE_def)
  have "append_loop 203 [10, 1000] 0 = ([10, 203], True)" by simp
  then show ?thesis
    by (simp add: writeClusterCheckpoint_def writeCheckpointAtomic_def example_pooled img write_payload_def all_ok_def Let_def tl
        del: append_loop.simps)
qed

section \<open>Properties\<close>

text \<open>
  C32. A resumed cluster run skips nothing. Take any state the coordinator can reach and a checkpoint
  it reports as written: the directory loads, the run with the same number of nodes, number to
  factor and overflow geometry accepts the file, the restored pool still hands out every overflow
  a-value that was not finished, and every node re-sieves its initial range from its high-water
  mark or earlier up to the end, never with an empty range, which would mean no limit. The
  relations that come back are as many as were pooled.
\<close>

theorem cluster_resume_no_skip:
  assumes "reachable (coord_start a tot) (coord_step F) (c, d)"
    and "writable (peek (cd_acc (co_data c))) (cd_raw (co_data c)) (cluster_meta g) (cluster_trailer g el c) (Some (cluster_section c)) content"
    and "io_payload_ok E \<longrightarrow> length content \<le> io_written E"
    and "writeClusterCheckpoint E dir g el c fs = Some (True, states)"
    and "length ranges = length (co_initial_hw c)" and "0 < H"
    and "\<forall>r \<in> set ranges. unat (cr_start r) + unat (cr_count r) < 2 ^ 64 \<and> (cr_count r = 0 \<or> H \<le> cr_count r)"
  shows "\<exists>r rs. loadLatestCheckpoint dir (last states) out = Some r
     \<and> restore_cluster g ranges (length ranges) a tot usize H r = Some (Some rs)
     \<and> {unat a ..< unat a + unat tot} - d \<subseteq> {unat (wp_next (rs_pool rs)) ..< unat (wp_end (rs_pool rs))}
     \<and> num_relations (rs_smooths rs) = num_relations (peek (cd_acc (co_data c)))
     \<and> length (rs_trims rs) = length ranges
     \<and> (\<forall>i < length ranges. let t = rs_trims rs ! i; q = ranges ! i in
          unat (rt_start t) + unat (rt_count t) = unat (cr_start q) + unat (cr_count q)
        \<and> unat (rt_start t) \<le> unat (cr_start q) + unat (high_water_marks c ! i)
        \<and> (rt_count t = 0 \<longleftrightarrow> cr_count q = 0))"
proof -
  note inv = coord.reachable_inv [OF assms(1)]
  let ?lr = "loaded (peek (cd_acc (co_data c))) (cd_raw (co_data c)) (cluster_meta g) (cluster_trailer g el c) (Some (cluster_section c)) out"
  have img: "serialize_v2 (peek (cd_acc (co_data c))) (cd_raw (co_data c)) (cluster_meta g) = Some content"
    using assms(2) by (simp add: writable_def)
  have "loadLatestCheckpoint dir (last states) out = Some (True, ?lr)"
    using write_states [OF assms(4) [unfolded writeClusterCheckpoint_def] img assms(3)] checkpoint_file_read [OF assms(2), of out]
    by (simp add: installed_def loadLatestCheckpoint_def)
  moreover note restore_written [OF inv assms(5) refl, of g usize H el out]
  moreover have "{unat a ..< unat a + unat tot} - d \<subseteq> {unat (completedPrefixCursor (co_pool c)) ..< unat (a + tot)}"
    using cluster_prefix [OF inv] by (auto simp: not_less)
  moreover have "let t = trims_of ranges H c ! i; q = ranges ! i in
          unat (rt_start t) + unat (rt_count t) = unat (cr_start q) + unat (cr_count q)
        \<and> unat (rt_start t) \<le> unat (cr_start q) + unat (high_water_marks c ! i)
        \<and> (rt_count t = 0 \<longleftrightarrow> cr_count q = 0)" if "i < length ranges" for i
    using resume_trim_bounds [of "cr_start (ranges ! i)" "cr_count (ranges ! i)" H "high_water_marks c ! i"] assms(6,7) that
    by (simp add: trims_of_def Let_def)
  ultimately show ?thesis
    by (intro exI [of _ "(True, ?lr)"] exI conjI) (assumption | simp add: WorkPool_def trims_of_def loaded_cluster)+
qed

theorem cluster_resume_no_skip_witness:
  "let ranges = map (\<lambda>i. \<lparr>node_id = 0, cr_start = of_nat (16 * i), cr_count = 16\<rparr>) [0..<3] in
   \<forall>out. \<exists>states r rs. writeClusterCheckpoint (all_ok 2000) ''d'' example_cfg 9 example_after Map.empty = Some (True, states)
     \<and> loadLatestCheckpoint ''d'' (last states) out = Some r
     \<and> restore_cluster example_cfg ranges 3 48 1000 1 8 r = Some (Some rs)
     \<and> 48 \<in> {unat (wp_next (rs_pool rs)) ..< unat (wp_end (rs_pool rs))} \<and> rt_count (rs_trims rs ! 1) \<noteq> 0"
proof -
  let ?ranges = "map (\<lambda>i. \<lparr>node_id = 0, cr_start = of_nat (16 * i), cr_count = 16\<rparr>) [0..<3] :: contiguous_range list"
  obtain states where run: "writeClusterCheckpoint (all_ok 2000) ''d'' example_cfg 9 example_after Map.empty = Some (True, states)"
    using example_write by blast
  obtain content where w: "writable fresh_raw fresh_raw (cluster_meta example_cfg) (cluster_trailer example_cfg 9 example_after)
     (Some (cluster_section example_after)) content" and l: "length content < 1000"
    using example_content by blast
  have res: "\<exists>states r rs. writeClusterCheckpoint (all_ok 2000) ''d'' example_cfg 9 example_after Map.empty = Some (True, states)
     \<and> loadLatestCheckpoint ''d'' (last states) out = Some r
     \<and> restore_cluster example_cfg ?ranges 3 48 1000 1 8 r = Some (Some rs)
     \<and> 48 \<in> {unat (wp_next (rs_pool rs)) ..< unat (wp_end (rs_pool rs))} \<and> rt_count (rs_trims rs ! 1) \<noteq> 0" for out
  proof -
  have "unat (cr_start q) + unat (cr_count q) < 2 ^ 64 \<and> (cr_count q = 0 \<or> 8 \<le> cr_count q)" if "q \<in> set ?ranges" for q
    using that by (auto simp: upt_rec)
  then obtain r rs where "loadLatestCheckpoint ''d'' (last states) out = Some r"
     "restore_cluster example_cfg ?ranges 3 48 1000 1 8 r = Some (Some rs)"
     "{48 ..< 1048} \<subseteq> {unat (wp_next (rs_pool rs)) ..< unat (wp_end (rs_pool rs))}"
     and t: "\<forall>i < 3. let t = rs_trims rs ! i; q = ?ranges ! i in
          unat (rt_start t) + unat (rt_count t) = unat (cr_start q) + unat (cr_count q)
        \<and> unat (rt_start t) \<le> unat (cr_start q) + unat (high_water_marks example_after ! i)
        \<and> (rt_count t = 0 \<longleftrightarrow> cr_count q = 0)"
    using cluster_resume_no_skip [OF example_reach _ _ run, of content ?ranges 8 out 1] w l example_pooled
    by (auto simp: all_ok_def example_marks)
  moreover from t have "rt_count (rs_trims rs ! 1) \<noteq> 0" by (simp add: Let_def)
  moreover have "48 \<in> {unat (wp_next (rs_pool rs)) ..< unat (wp_end (rs_pool rs))}"
    by (rule subsetD [OF \<open>{48 ..< 1048} \<subseteq> _\<close>]) simp
  ultimately show ?thesis using run by blast
  qed
  then show ?thesis unfolding Let_def by blast
qed

end
