(* ===== verification/Expanded_Matrix.thy ===== *)
theory Expanded_Matrix
  imports Merge_Filter Relation_Batch
begin

text \<open>
  The matrix of the linear algebra phase, \<^verbatim>\<open>src/matrix/expanded_matrix.h\<close> and
  \<^verbatim>\<open>expanded_matrix.cpp\<close>: one row per full relation and per raw partial, a column for the sign, for
  the parity of the exponent of 2, for every factor base prime and for every large prime.

  Column indices are natural numbers below \<open>2 ^ 32\<close>, with the wrap of the 32-bit arithmetic written
  out; a read or write outside a vector and a failed \<^verbatim>\<open>assert\<close> are \<open>None\<close>. The statistics that are
  only logged are left out. The last sections say what the null space of this matrix means: the
  product of the values of the chosen relations is a square.
\<close>

section \<open>Rows\<close>

text \<open>\<open>UINT32_MAX\<close> stands for a row without a large prime.\<close>

definition countRowCols :: "batch \<Rightarrow> nat \<Rightarrow> nat \<Rightarrow> nat option" where
  "countRowCols b i lp_col = do {
     sg \<leftarrow> vec_at (signs b) i;
     v2 \<leftarrow> vec_at (val_2_exps b) i;
     s \<leftarrow> vec_at (factor_offsets b) i;
     e \<leftarrow> vec_at (factor_offsets b) (i + 1);
     let count = (if sg \<noteq> 1 then 1 else 0) + (if v2 AND 1 \<noteq> 0 then 1 else 0);
     count \<leftarrow> ofold (\<lambda>j n. do {
         c \<leftarrow> vec_at (factor_counts b) j;
         Some (if c AND 1 \<noteq> 0 then n + 1 else n)
       }) [unat s..<unat e] count;
     Some ((if lp_col \<noteq> UINT32_MAX then count + 1 else count) mod 2 ^ 32)
   }"

definition fillRowCols :: "batch \<Rightarrow> nat \<Rightarrow> nat \<Rightarrow> nat list option" where
  "fillRowCols b i lp_col = do {
     sg \<leftarrow> vec_at (signs b) i;
     v2 \<leftarrow> vec_at (val_2_exps b) i;
     s \<leftarrow> vec_at (factor_offsets b) i;
     e \<leftarrow> vec_at (factor_offsets b) (i + 1);
     fb \<leftarrow> ofold (\<lambda>j out. do {
         c \<leftarrow> vec_at (factor_counts b) j;
         if c AND 1 \<noteq> 0 then do { ix \<leftarrow> vec_at (factor_indices b) j; Some (out @ [unat (ix + 2)]) } else Some out
       }) [unat s..<unat e] [];
     Some ((if sg \<noteq> 1 then [0] else []) @ (if v2 AND 1 \<noteq> 0 then [1] else []) @ sort fb
       @ (if lp_col \<noteq> UINT32_MAX then [lp_col] else []))
   }"

text \<open>The output pointer of \<^verbatim>\<open>fillRowCols\<close> points into the column vector.\<close>

definition put_row :: "nat \<Rightarrow> nat list \<Rightarrow> nat list \<Rightarrow> nat list option" where
  "put_row off cs out =
     (if off + length cs \<le> length out then Some (take off out @ cs @ drop (off + length cs) out) else None)"

section \<open>Large-prime columns\<close>

record expanded =
  er_matrix :: csr
  er_lp_col_map :: "u64 \<rightharpoonup> nat"
  er_num_lp_cols :: nat

definition assign_lp_cols :: "batch \<Rightarrow> nat \<Rightarrow> ((u64 \<rightharpoonup> nat) \<times> nat) option" where
  "assign_lp_cols partials first =
     ofold (\<lambda>i (m, next). do {
         lp128 \<leftarrow> vec_at (large_primes partials) i;
         let lp = (ucast lp128 :: u64);
         if \<not> lp > 1 \<or> \<not> lp < push_bit 48 1 then None
         else Some (case m lp of Some _ \<Rightarrow> (m, next) | None \<Rightarrow> (m(lp \<mapsto> next), (next + 1) mod 2 ^ 32))
       }) [0..<n_rels partials] (Map.empty, first)"

text \<open>\<open>lp_col_map[lp]\<close> inserts 0 for a missing key.\<close>

definition lp_col :: "batch \<Rightarrow> (u64 \<rightharpoonup> nat) \<Rightarrow> nat \<Rightarrow> nat option" where
  "lp_col partials m i = map_option (\<lambda>lp. case m (ucast lp) of Some c \<Rightarrow> c | None \<Rightarrow> 0) (vec_at (large_primes partials) i)"

section \<open>Building the matrix\<close>

definition row_sizes :: "batch \<Rightarrow> batch \<Rightarrow> (u64 \<rightharpoonup> nat) \<Rightarrow> nat list option" where
  "row_sizes smooths partials m = do {
     a \<leftarrow> those (map (\<lambda>i. countRowCols smooths i UINT32_MAX) [0..<n_rels smooths]);
     b \<leftarrow> those (map (\<lambda>i. do { c \<leftarrow> lp_col partials m i; countRowCols partials i c }) [0..<n_rels partials]);
     Some (a @ b)
   }"

definition prefix_sums :: "nat list \<Rightarrow> nat list" where
  "prefix_sums cs = fold (\<lambda>c offs. offs @ [(last offs + c) mod 2 ^ 32]) cs [0]"

definition fill_rows :: "batch \<Rightarrow> batch \<Rightarrow> (u64 \<rightharpoonup> nat) \<Rightarrow> nat list \<Rightarrow> nat list \<Rightarrow> nat list option" where
  "fill_rows smooths partials m offs out = do {
     out \<leftarrow> ofold (\<lambda>i out. do {
         off \<leftarrow> vec_at offs i;
         cs \<leftarrow> fillRowCols smooths i UINT32_MAX;
         put_row off cs out
       }) [0..<n_rels smooths] out;
     ofold (\<lambda>i out. do {
         c \<leftarrow> lp_col partials m i;
         off \<leftarrow> vec_at offs (n_rels smooths + i);
         cs \<leftarrow> fillRowCols partials i c;
         put_row off cs out
       }) [0..<n_rels partials] out
   }"

definition empty_expanded :: expanded where
  "empty_expanded = \<lparr>er_matrix = \<lparr>row_offsets = [], col_indices = [], n_rows = 0, n_cols = 0\<rparr>,
     er_lp_col_map = Map.empty, er_num_lp_cols = 0\<rparr>"

text \<open>
  The row counter of the code has 32 bits; the model has no value for more rows than that, where the
  offset vector would be too short.
\<close>

definition build :: "batch \<Rightarrow> batch \<Rightarrow> u32 \<Rightarrow> expanded option" where
  "build smooths partials fb_size = do {
     (m, next) \<leftarrow> assign_lp_cols partials (unat (fb_size + 2));
     let num_lp_cols = unat (of_nat next - (fb_size + 2) :: u32);
     if 2 ^ 32 \<le> n_rels smooths + n_rels partials then None else do {
       sizes \<leftarrow> row_sizes smooths partials m;
       let offs = prefix_sums sizes;
       cols \<leftarrow> fill_rows smooths partials m offs (replicate (last offs) 0);
       let csr = \<lparr>row_offsets = offs, col_indices = cols, n_rows = n_rels smooths + n_rels partials,
                  n_cols = unat (fb_size + 2 + of_nat num_lp_cols :: u32)\<rparr>;
       if \<not> ValidateHostMatrixCSR csr then Some empty_expanded
       else Some \<lparr>er_matrix = csr, er_lp_col_map = m, er_num_lp_cols = num_lp_cols\<rparr>
     }
   }"

section \<open>The columns of a relation\<close>

definition odd_factors :: "relation \<Rightarrow> nat list" where
  "odd_factors r = map (\<lambda>(ix, c). unat (ix + 2)) (filter (\<lambda>(ix, c). odd c) (r_factors r))"

definition row_cols :: "relation \<Rightarrow> nat \<Rightarrow> nat list" where
  "row_cols r lpc = (if r_sign r \<noteq> 1 then [0] else []) @ (if odd (r_val_2_exp r) then [1] else []) @ sort (odd_factors r)
     @ (if lpc \<noteq> UINT32_MAX then [lpc] else [])"

lemma and_1_odd_word: "(w :: 'a::len word) AND 1 \<noteq> 0 \<longleftrightarrow> odd w"
  by (simp add: and_one_eq odd_iff_mod_2_eq_one)

lemma fold_odd_factors:
  "fold (\<lambda>(ix, c) out. if odd c then out @ [unat (ix + 2)] else out) fs acc
     = acc @ map (\<lambda>(ix, c). unat (ix + 2)) (filter (\<lambda>(ix, c). odd c) fs)" for fs :: "(u32 \<times> u8) list"
  by (induction fs arbitrary: acc) auto

lemma fold_count_factors:
  "fold (\<lambda>(ix, c) n. if odd c then n + 1 else n) fs acc = acc + length (filter (\<lambda>(ix, c). odd c) fs)" for fs :: "(u32 \<times> u8) list"
  by (induction fs arbitrary: acc) auto

lemma fillRowCols_eq:
  assumes "batch_ok b" and "i < n_rels b"
  shows "fillRowCols b i lpc = Some (row_cols (rel_at b i) lpc)"
proof -
  have off: "offsets_ok b" and len: "i < length (signs b)" "i < length (val_2_exps b)"
    using assms by (auto simp: batch_ok_def)
  have "ofold (\<lambda>j out. do {
         c \<leftarrow> vec_at (factor_counts b) j;
         if c AND 1 \<noteq> 0 then do { ix \<leftarrow> vec_at (factor_indices b) j; Some (out @ [unat (ix + 2)]) } else Some out
       }) [unat (factor_offsets b ! i)..<unat (factor_offsets b ! (i + 1))] []
      = Some (fold (\<lambda>(ix, c) out. if odd c then out @ [unat (ix + 2)] else out) (row b i) [])"
    by (rule ofold_row [OF off assms(2)]) (simp add: and_1_odd_word)
  then show ?thesis
    using offsets_okD(1) [OF off assms(2)] len
    by (simp add: fillRowCols_def row_cols_def odd_factors_def rel_at_def fold_odd_factors and_1_odd_word)
qed

lemma countRowCols_eq:
  assumes "batch_ok b" and "i < n_rels b"
  shows "countRowCols b i lpc = Some (length (row_cols (rel_at b i) lpc) mod 2 ^ 32)"
proof -
  have off: "offsets_ok b" and len: "i < length (signs b)" "i < length (val_2_exps b)"
    using assms by (auto simp: batch_ok_def)
  have "ofold (\<lambda>j n. do {
         c \<leftarrow> vec_at (factor_counts b) j;
         Some (if c AND 1 \<noteq> 0 then n + 1 else n)
       }) [unat (factor_offsets b ! i)..<unat (factor_offsets b ! (i + 1))] k
      = Some (fold (\<lambda>(ix, c) n. if odd c then n + 1 else n) (row b i) k)" for k :: nat
    by (rule ofold_row [OF off assms(2)]) (simp add: and_1_odd_word)
  then show ?thesis
    using offsets_okD(1) [OF off assms(2)] len
    by (simp add: countRowCols_def row_cols_def odd_factors_def rel_at_def fold_count_factors and_1_odd_word Let_def)
qed

section \<open>Offsets and filling\<close>

lemma prefix_sums_offsets:
  assumes "length (concat rws) < 2 ^ 32"
  shows "prefix_sums (map (\<lambda>rw. length rw mod 2 ^ 32) rws) = offsets_of rws"
  using assms
proof (induction rws rule: rev_induct)
  case Nil
  then show ?case by (simp add: prefix_sums_def offsets_of_def)
next
  case (snoc rw rws)
  then have "prefix_sums (map (\<lambda>rw. length rw mod 2 ^ 32) rws) = offsets_of rws" by simp
  then have "prefix_sums (map (\<lambda>rw. length rw mod 2 ^ 32) (rws @ [rw]))
      = offsets_of rws @ [(last (offsets_of rws) + length rw mod 2 ^ 32) mod 2 ^ 32]"
    by (simp add: prefix_sums_def)
  also have "\<dots> = offsets_of (rws @ [rw])" using snoc.prems by (simp add: offsets_of_snoc)
  finally show ?case .
qed

lemma put_row_next:
  assumes "k < length rws"
  shows "put_row (offsets_of rws ! k) (rws ! k) (concat (take k rws) @ replicate (length (concat (drop k rws))) 0)
    = Some (concat (take (Suc k) rws) @ replicate (length (concat (drop (Suc k) rws))) 0)"
  using assms Cons_nth_drop_Suc [OF assms, symmetric]
  by (simp add: put_row_def take_Suc_conv_app_nth)

lemma fill_loop:
  assumes "\<And>i out. i < n \<Longrightarrow> f i out = put_row (offsets_of rws ! (k + i)) (rws ! (k + i)) out" and "k + n \<le> length rws"
  shows "ofold f [0..<n] (concat (take k rws) @ replicate (length (concat (drop k rws))) 0)
    = Some (concat (take (k + n) rws) @ replicate (length (concat (drop (k + n) rws))) 0)"
  using assms
proof (induction n)
  case (Suc n)
  then show ?case using put_row_next [of "k + n" rws] by (simp add: ofold_append)
qed simp

section \<open>Large primes\<close>

definition lp_value :: "batch \<Rightarrow> nat \<Rightarrow> u64" where
  "lp_value b i = ucast (large_primes b ! i)"

definition lp_map_ok :: "nat \<Rightarrow> (u64 \<rightharpoonup> nat) \<Rightarrow> nat \<Rightarrow> bool" where
  "lp_map_ok first m next \<longleftrightarrow> first \<le> next \<and> inj_on m (dom m) \<and> ran m = {first..<next}"

lemma assign_lp_cols_ok:
  assumes "k \<le> length (large_primes b)" and "\<And>i. i < k \<Longrightarrow> 1 < lp_value b i \<and> lp_value b i < 2 ^ 48" and "first + k < 2 ^ 32"
  shows "\<exists>m next. ofold (\<lambda>i (m, next). do {
         lp128 \<leftarrow> vec_at (large_primes b) i;
         let lp = (ucast lp128 :: u64);
         if \<not> lp > 1 \<or> \<not> lp < push_bit 48 1 then None
         else Some (case m lp of Some _ \<Rightarrow> (m, next) | None \<Rightarrow> (m(lp \<mapsto> next), (next + 1) mod 2 ^ 32))
       }) [0..<k] (Map.empty, first) = Some (m, next)
    \<and> lp_map_ok first m next \<and> next \<le> first + k \<and> dom m = lp_value b ` {0..<k}"
  using assms
proof (induction k)
  case 0
  then show ?case by (simp add: lp_map_ok_def)
next
  case (Suc k)
  then obtain m nx where IH: "ofold (\<lambda>i (m, next). do {
         lp128 \<leftarrow> vec_at (large_primes b) i;
         let lp = (ucast lp128 :: u64);
         if \<not> lp > 1 \<or> \<not> lp < push_bit 48 1 then None
         else Some (case m lp of Some _ \<Rightarrow> (m, next) | None \<Rightarrow> (m(lp \<mapsto> next), (next + 1) mod 2 ^ 32))
       }) [0..<k] (Map.empty, first) = Some (m, nx)" "lp_map_ok first m nx" "nx \<le> first + k" "dom m = lp_value b ` {0..<k}"
    by fastforce
  have lp: "1 < lp_value b k" "lp_value b k < push_bit 48 1" using Suc.prems(2) [of k] by simp_all
  show ?case
  proof (cases "m (lp_value b k)")
    case (Some c)
    then have "lp_value b k \<in> lp_value b ` {0..<k}" using IH(4) by auto
    then show ?thesis
      using IH lp Some Suc.prems(1) by (auto simp: ofold_append lp_value_def atLeast0_lessThan_Suc)
  next
    case None
    have "lp_map_ok first (m(lp_value b k \<mapsto> nx)) (nx + 1)"
    proof -
      have r: "ran m = {first..<nx}" "first \<le> nx" "inj_on m (dom m)" using IH(2) by (auto simp: lp_map_ok_def)
      have "m a \<noteq> Some nx" for a using r(1) ranI [of m a nx] by auto
      then have "inj_on (m(lp_value b k \<mapsto> nx)) (dom (m(lp_value b k \<mapsto> nx)))"
        using r(3) None unfolding inj_on_def by (auto simp: dom_def split: if_splits)
      moreover have "ran (m(lp_value b k \<mapsto> nx)) = {first..<nx + 1}"
        using r(1,2) None by (auto simp: ran_map_upd)
      ultimately show ?thesis using r(2) by (simp add: lp_map_ok_def)
    qed
    moreover have "(nx + 1) mod 2 ^ 32 = nx + 1" using IH(3) Suc.prems(3) by simp
    ultimately show ?thesis
      using IH lp None Suc.prems(1) by (auto simp: ofold_append lp_value_def atLeast0_lessThan_Suc)
  qed
qed

section \<open>The matrix that is built\<close>

definition rel_fits :: "nat \<Rightarrow> relation \<Rightarrow> bool" where
  "rel_fits F r \<longleftrightarrow> distinct (map fst (r_factors r)) \<and> (\<forall>ix \<in> fst ` set (r_factors r). unat ix < F)"

definition row_bound :: "relation list \<Rightarrow> nat" where
  "row_bound rs = (\<Sum>r \<leftarrow> rs. length (r_factors r) + 3)"

text \<open>The input of the builder: readable batches, factor indices below the factor base size and
  distinct within a relation, large primes in the asserted range, and sizes that fit 32 bits.\<close>

definition buildable :: "batch \<Rightarrow> batch \<Rightarrow> u32 \<Rightarrow> bool" where
  "buildable smooths partials fb_size \<longleftrightarrow> batch_ok smooths \<and> batch_ok partials
     \<and> unat fb_size + 2 + n_rels partials < 2 ^ 32 - 1 \<and> n_rels smooths + n_rels partials < 2 ^ 32
     \<and> row_bound (rels smooths @ rels partials) < 2 ^ 32
     \<and> (\<forall>r \<in> set (rels smooths @ rels partials). rel_fits (unat fb_size) r)
     \<and> (\<forall>i < n_rels partials. 1 < large_primes partials ! i \<and> large_primes partials ! i < 2 ^ 48)"

lemma odd_factors_facts:
  assumes "rel_fits F r" and "F + 2 < 2 ^ 32"
  shows "distinct (odd_factors r)" "\<forall>c \<in> set (odd_factors r). 2 \<le> c \<and> c < F + 2"
    "set (odd_factors r) = {unat ix + 2 |ix c. (ix, c) \<in> set (r_factors r) \<and> odd c}"
    "length (odd_factors r) \<le> length (r_factors r)"
proof -
  have col: "unat (ix + 2) = unat ix + 2" if "(ix, c) \<in> set (r_factors r)" for ix c
  proof -
    have "unat ix < F" using assms(1) that by (force simp: rel_fits_def)
    then show ?thesis using assms(2) by (intro trans [OF unat_add_exact]) simp_all
  qed
  show set: "set (odd_factors r) = {unat ix + 2 |ix c. (ix, c) \<in> set (r_factors r) \<and> odd c}"
    using col by (force simp: odd_factors_def)
  then show "\<forall>c \<in> set (odd_factors r). 2 \<le> c \<and> c < F + 2"
    using assms(1) by (force simp: rel_fits_def)
  have "odd_factors r = map (\<lambda>ix. unat ix + 2) (map fst (filter (\<lambda>(ix, c). odd c) (r_factors r)))"
    using col by (auto simp: odd_factors_def)
  moreover have "distinct (map fst (filter (\<lambda>(ix, c). odd c) (r_factors r)))"
    using assms(1) by (simp add: rel_fits_def distinct_map_filter)
  ultimately show "distinct (odd_factors r)"
    by (simp only: distinct_map) (auto intro: inj_onI simp: unsigned_word_eqI)
  show "length (odd_factors r) \<le> length (r_factors r)" by (simp add: odd_factors_def)
qed

lemma row_cols_good:
  assumes "rel_fits F r" and "F + 2 < 2 ^ 32" and "lpc \<noteq> UINT32_MAX \<longrightarrow> F + 2 \<le> lpc \<and> lpc < nc" and "F + 2 \<le> nc"
  shows "sorted_wrt (<) (row_cols r lpc)" "\<forall>c \<in> set (row_cols r lpc). c < nc"
    "length (row_cols r lpc) \<le> length (r_factors r) + 3"
proof -
  note o = odd_factors_facts [OF assms(1,2)]
  have "sorted_wrt (<) (sort (odd_factors r))" using o(1) by (simp add: strict_sorted_iff)
  then show "sorted_wrt (<) (row_cols r lpc)"
    using o(2) assms(3) unfolding row_cols_def sorted_wrt_append by (intro conjI ballI) (auto split: if_splits)
  show "\<forall>c \<in> set (row_cols r lpc). c < nc"
    using o(2) assms(3,4) by (fastforce simp: row_cols_def)
  show "length (row_cols r lpc) \<le> length (r_factors r) + 3" using o(4) by (simp add: row_cols_def)
qed

definition row_list :: "batch \<Rightarrow> batch \<Rightarrow> (u64 \<rightharpoonup> nat) \<Rightarrow> nat list list" where
  "row_list smooths partials m =
     map (\<lambda>i. row_cols (rel_at smooths i) UINT32_MAX) [0..<n_rels smooths]
     @ map (\<lambda>i. row_cols (rel_at partials i) (the (m (lp_value partials i)))) [0..<n_rels partials]"

lemma row_list_facts:
  assumes b: "buildable smooths partials fb_size" and m: "lp_map_ok (unat fb_size + 2) m nx"
    and d: "dom m = lp_value partials ` {0..<n_rels partials}" and nx: "nx \<le> unat fb_size + 2 + n_rels partials"
  shows "rows_good nx (row_list smooths partials m)" "length (concat (row_list smooths partials m)) < 2 ^ 32"
    "i < n_rels partials \<Longrightarrow> the (m (lp_value partials i)) \<noteq> UINT32_MAX"
    "i < n_rels partials \<Longrightarrow> m (lp_value partials i) = Some (the (m (lp_value partials i)))"
proof -
  note bd = b [unfolded buildable_def]
  have some: "m (lp_value partials i) = Some (the (m (lp_value partials i)))" if "i < n_rels partials" for i
  proof -
    have "lp_value partials i \<in> dom m" using d that by auto
    then show ?thesis by (auto simp: dom_def)
  qed
  have col: "unat fb_size + 2 \<le> the (m (lp_value partials i)) \<and> the (m (lp_value partials i)) < nx" if "i < n_rels partials" for i
  proof -
    have "the (m (lp_value partials i)) \<in> ran m" by (rule ranI, rule some [OF that])
    then show ?thesis using m by (simp add: lp_map_ok_def)
  qed
  show ne: "i < n_rels partials \<Longrightarrow> the (m (lp_value partials i)) \<noteq> UINT32_MAX" for i
    using col [of i] nx bd by (simp add: UINT32_MAX_def)
  show "i < n_rels partials \<Longrightarrow> m (lp_value partials i) = Some (the (m (lp_value partials i)))" by (rule some)
  have F: "unat fb_size + 2 < 2 ^ 32" "unat fb_size + 2 \<le> nx" using bd m by (auto simp: lp_map_ok_def)
  have fits: "rel_fits (unat fb_size) (rel_at smooths i)" if "i < n_rels smooths" for i
    using bd that by (auto simp: rels_def)
  have fitp: "rel_fits (unat fb_size) (rel_at partials i)" if "i < n_rels partials" for i
    using bd that by (auto simp: rels_def)
  have gs: "sorted_wrt (<) rw \<and> (\<forall>c \<in> set rw. c < nx) \<and> length rw \<le> length (r_factors (rel_at smooths i)) + 3"
    if "i < n_rels smooths" "rw = row_cols (rel_at smooths i) UINT32_MAX" for i rw
    using row_cols_good [OF fits [OF that(1)] F(1) _ F(2), of UINT32_MAX] that(2) by simp
  have gp: "sorted_wrt (<) rw \<and> (\<forall>c \<in> set rw. c < nx) \<and> length rw \<le> length (r_factors (rel_at partials i)) + 3"
    if "i < n_rels partials" "rw = row_cols (rel_at partials i) (the (m (lp_value partials i)))" for i rw
    using row_cols_good [OF fitp [OF that(1)] F(1) _ F(2), of "the (m (lp_value partials i))"] col [OF that(1)] that(2) by simp
  show "rows_good nx (row_list smooths partials m)"
    unfolding rows_good_def row_list_def set_append set_map set_upt using gs gp by fastforce
  have bound: "length (concat (map f xs)) \<le> (\<Sum>i \<leftarrow> xs. g i)" if "\<And>i. i \<in> set xs \<Longrightarrow> length (f i) \<le> g i"
    for f :: "nat \<Rightarrow> nat list" and g xs
    using that by (induction xs) (auto intro: add_mono)
  have "length (concat (row_list smooths partials m))
      \<le> (\<Sum>i \<leftarrow> [0..<n_rels smooths]. length (r_factors (rel_at smooths i)) + 3)
        + (\<Sum>i \<leftarrow> [0..<n_rels partials]. length (r_factors (rel_at partials i)) + 3)"
    unfolding row_list_def concat_append length_append
    by (rule add_mono; rule bound) (simp_all add: gs gp)
  also have "\<dots> = row_bound (rels smooths @ rels partials)"
    by (simp add: row_bound_def rels_def comp_def)
  finally show "length (concat (row_list smooths partials m)) < 2 ^ 32" using bd by simp
qed

lemma row_list_nth:
  "i < n_rels smooths \<Longrightarrow> row_list smooths partials m ! i = row_cols (rel_at smooths i) UINT32_MAX"
  "i < n_rels partials \<Longrightarrow> row_list smooths partials m ! (n_rels smooths + i)
     = row_cols (rel_at partials i) (the (m (lp_value partials i)))"
  "length (row_list smooths partials m) = n_rels smooths + n_rels partials"
  by (simp_all add: row_list_def nth_append)

lemma lp_col_eq:
  assumes "batch_ok b" and "i < n_rels b" and "m (lp_value b i) = Some c"
  shows "lp_col b m i = Some c"
  using assms by (simp add: lp_col_def lp_value_def batch_ok_def)

lemma row_sizes_eq:
  assumes ok: "batch_ok smooths" "batch_ok partials"
    and m: "\<And>i. i < n_rels partials \<Longrightarrow> m (lp_value partials i) = Some (the (m (lp_value partials i)))"
  shows "row_sizes smooths partials m = Some (map (\<lambda>rw. length rw mod 2 ^ 32) (row_list smooths partials m))"
proof -
  have lpc: "lp_col partials m i = Some (the (m (lp_value partials i)))" if "i < n_rels partials" for i
    by (rule lp_col_eq [OF ok(2) that]) (rule m [OF that])
  have "those (map (\<lambda>i. countRowCols smooths i UINT32_MAX) [0..<n_rels smooths])
      = Some (map (\<lambda>i. length (row_cols (rel_at smooths i) UINT32_MAX) mod 2 ^ 32) [0..<n_rels smooths])"
    by (rule those_Some) (simp add: countRowCols_eq [OF ok(1)])
  moreover have "those (map (\<lambda>i. do { c \<leftarrow> lp_col partials m i; countRowCols partials i c }) [0..<n_rels partials])
      = Some (map (\<lambda>i. length (row_cols (rel_at partials i) (the (m (lp_value partials i)))) mod 2 ^ 32) [0..<n_rels partials])"
    by (rule those_Some) (simp add: lpc countRowCols_eq [OF ok(2)])
  ultimately show ?thesis by (simp add: row_sizes_def row_list_def comp_def)
qed

lemma fill_rows_eq:
  assumes ok: "batch_ok smooths" "batch_ok partials"
    and m: "\<And>i. i < n_rels partials \<Longrightarrow> m (lp_value partials i) = Some (the (m (lp_value partials i)))"
  shows "fill_rows smooths partials m (offsets_of (row_list smooths partials m))
      (replicate (length (concat (row_list smooths partials m))) 0) = Some (concat (row_list smooths partials m))"
proof -
  have lpc: "lp_col partials m i = Some (the (m (lp_value partials i)))" if "i < n_rels partials" for i
    by (rule lp_col_eq [OF ok(2) that]) (rule m [OF that])
  let ?rws = "row_list smooths partials m" and ?ns = "n_rels smooths" and ?np = "n_rels partials"
  have off: "vec_at (offsets_of ?rws) i = Some (offsets_of ?rws ! i)" if "i < ?ns + ?np" for i
    using that by (simp add: row_list_nth(3) del: offsets_of_simps(3))
  have "ofold (\<lambda>i out. do {
         off \<leftarrow> vec_at (offsets_of ?rws) i;
         cs \<leftarrow> fillRowCols smooths i UINT32_MAX;
         put_row off cs out
       }) [0..<?ns] (concat (take 0 ?rws) @ replicate (length (concat (drop 0 ?rws))) 0)
     = Some (concat (take (0 + ?ns) ?rws) @ replicate (length (concat (drop (0 + ?ns) ?rws))) 0)"
    by (rule fill_loop) (simp_all add: off fillRowCols_eq [OF ok(1)] row_list_nth del: offsets_of_simps(3))
  moreover have "ofold (\<lambda>i out. do {
         c \<leftarrow> lp_col partials m i;
         off \<leftarrow> vec_at (offsets_of ?rws) (?ns + i);
         cs \<leftarrow> fillRowCols partials i c;
         put_row off cs out
       }) [0..<?np] (concat (take ?ns ?rws) @ replicate (length (concat (drop ?ns ?rws))) 0)
     = Some (concat (take (?ns + ?np) ?rws) @ replicate (length (concat (drop (?ns + ?np) ?rws))) 0)"
    by (rule fill_loop)
       (simp_all add: off fillRowCols_eq [OF ok(2)] lpc row_list_nth del: offsets_of_simps(3))
  ultimately show ?thesis by (simp add: fill_rows_def row_list_nth(3))
qed

lemma build_correct:
  assumes b: "buildable smooths partials fb_size"
  shows "\<exists>er nx. build smooths partials fb_size = Some er \<and> ValidateHostMatrixCSR (er_matrix er)
    \<and> n_rows (er_matrix er) = n_rels smooths + n_rels partials \<and> n_cols (er_matrix er) = nx
    \<and> nx = unat fb_size + 2 + er_num_lp_cols er \<and> nx \<le> unat fb_size + 2 + n_rels partials
    \<and> lp_map_ok (unat fb_size + 2) (er_lp_col_map er) nx
    \<and> dom (er_lp_col_map er) = lp_value partials ` {0..<n_rels partials}
    \<and> (\<forall>i < n_rels smooths + n_rels partials. crow (er_matrix er) i = row_list smooths partials (er_lp_col_map er) ! i)
    \<and> length (col_indices (er_matrix er)) < 2 ^ 32 \<and> n_cols (er_matrix er) < 2 ^ 32"
proof -
  note bd = b [unfolded buildable_def]
  have lps: "1 < lp_value partials i \<and> lp_value partials i < 2 ^ 48" if "i < n_rels partials" for i
  proof -
    have l: "1 < large_primes partials ! i" "large_primes partials ! i < 2 ^ 48" using bd that by auto
    then have "unat (lp_value partials i) = unat (large_primes partials ! i)"
      by (simp add: lp_value_def unsigned_ucast_eq take_bit_nat_eq_self word_less_nat_alt)
    then show ?thesis using l by (simp add: word_less_nat_alt)
  qed
  have first: "unat (fb_size + 2) = unat fb_size + 2" by (intro trans [OF unat_add_exact]) (use bd in simp_all)
  have lenp: "n_rels partials \<le> length (large_primes partials)" using bd by (simp add: batch_ok_def)
  have fit: "unat fb_size + 2 + n_rels partials < 2 ^ 32" using bd by simp
  obtain m nx where m: "assign_lp_cols partials (unat (fb_size + 2)) = Some (m, nx)" "lp_map_ok (unat fb_size + 2) m nx"
      "nx \<le> unat fb_size + 2 + n_rels partials" "dom m = lp_value partials ` {0..<n_rels partials}"
    using assign_lp_cols_ok [OF lenp lps fit] unfolding assign_lp_cols_def first by auto
  note rl = row_list_facts [OF b m(2,4,3)]
  have nx: "nx < 2 ^ 32" "unat fb_size + 2 \<le> nx" using m(2,3) fit by (auto simp: lp_map_ok_def)
  have num: "unat (of_nat nx - (fb_size + 2) :: u32) = nx - (unat fb_size + 2)"
    using nx first by (subst unat_sub_exact) (simp_all add: word_le_nat_alt unat_of_nat)
  have cols: "unat (fb_size + 2 + of_nat (nx - (unat fb_size + 2)) :: u32) = nx"
  proof -
    define k where "k = nx - (unat fb_size + 2)"
    have "unat (of_nat k :: u32) = k" using nx by (simp add: k_def [symmetric] unat_of_nat take_bit_nat_eq_self) (simp add: k_def)
    then have "unat (fb_size + 2 + of_nat k :: u32) = unat fb_size + 2 + k"
      using nx by (subst unat_add_exact) (simp_all add: first k_def)
    then show ?thesis using nx by (simp add: k_def [symmetric]) (simp add: k_def)
  qed
  have sums: "prefix_sums (map (\<lambda>rw. length rw mod 2 ^ 32) (row_list smooths partials m)) = offsets_of (row_list smooths partials m)"
    by (rule prefix_sums_offsets) (rule rl(2))
  have nxw: "unat (of_nat nx :: u32) = nx" using nx by (simp add: unat_of_nat take_bit_nat_eq_self)
  define M where "M = \<lparr>row_offsets = offsets_of (row_list smooths partials m), col_indices = concat (row_list smooths partials m),
      n_rows = length (row_list smooths partials m), n_cols = nx\<rparr>"
  have valid: "ValidateHostMatrixCSR M" and rows: "\<And>i. i < length (row_list smooths partials m) \<Longrightarrow> crow M i = row_list smooths partials m ! i"
    using built_csr [OF M_def rl(1)] by blast+
  have "build smooths partials fb_size = Some \<lparr>er_matrix = M, er_lp_col_map = m, er_num_lp_cols = nx - (unat fb_size + 2)\<rparr>"
    using bd valid row_sizes_eq [of smooths partials m] fill_rows_eq [of smooths partials m] rl(4)
    by (simp add: build_def m(1) nxw num [simplified] cols [simplified] sums [simplified] M_def row_list_nth(3) Let_def)
  then show ?thesis
    using valid rows m(2,3,4) nx rl(2) by (auto simp: M_def row_list_nth(3))
qed

section \<open>What the null space means\<close>

text \<open>The exponent of factor base prime number \<open>p\<close> in a relation.\<close>

definition fb_exp :: "relation \<Rightarrow> nat \<Rightarrow> nat" where
  "fb_exp r p = (\<Sum>(ix, c) \<leftarrow> r_factors r. if unat ix = p then unat c else 0)"

definition even_selection :: "batch \<Rightarrow> batch \<Rightarrow> nat set \<Rightarrow> bool" where
  "even_selection smooths partials D \<longleftrightarrow> (let rs = rels smooths @ rels partials; ns = n_rels smooths in
       even (card {i \<in> D. r_sign (rs ! i) \<noteq> 1})
     \<and> even (\<Sum>i \<in> D. unat (r_val_2_exp (rs ! i)))
     \<and> (\<forall>p. even (\<Sum>i \<in> D. fb_exp (rs ! i) p))
     \<and> (\<forall>l. even (card {i \<in> D. ns \<le> i \<and> lp_value partials (i - ns) = l})))"

text \<open>The value of row \<open>i\<close> over a factor base \<open>fb\<close>: sign, power of two, factor base part and, for a
  partial, its large prime. Exponents of 2 are read without a sign.\<close>

definition row_value :: "(nat \<Rightarrow> int) \<Rightarrow> batch \<Rightarrow> batch \<Rightarrow> nat \<Rightarrow> int" where
  "row_value fb smooths partials i =
     (let r = (rels smooths @ rels partials) ! i in
        (if r_sign r \<noteq> 1 then -1 else 1) * 2 ^ unat (r_val_2_exp r) * (\<Prod>(ix, c) \<leftarrow> r_factors r. fb (unat ix) ^ unat c)
        * (if n_rels smooths \<le> i then int (unat (lp_value partials (i - n_rels smooths))) else 1))"

lemma odd_unat: "odd (unat w) \<longleftrightarrow> odd w" for w :: "'a::len word"
proof -
  have "bit (unat w) 0 \<longleftrightarrow> bit w 0" by (simp add: bit_unsigned_iff del: bit_0)
  then show ?thesis by (simp add: bit_0)
qed

lemma odd_fb_exp:
  assumes "distinct (map fst fs)"
  shows "odd (\<Sum>(ix, c) \<leftarrow> fs. if unat ix = p then unat (c :: u8) else 0) \<longleftrightarrow> (\<exists>ix c. (ix, c) \<in> set fs \<and> unat (ix :: u32) = p \<and> odd c)"
  using assms
proof (induction fs)
  case (Cons f fs)
  obtain ix c where f: "f = (ix, c)" by fastforce
  have "(\<Sum>(ix, c) \<leftarrow> fs. if unat ix = p then unat (c :: u8) else 0) = 0" if "unat ix = p"
    using Cons.prems that f by (auto simp: sum_list_eq_0_iff image_iff split: if_splits) (metis fst_conv unsigned_word_eqI)
  moreover have "\<not> (\<exists>ix' c. (ix', c) \<in> set fs \<and> unat ix' = p \<and> odd c)" if "unat ix = p"
    using Cons.prems that f by (auto simp: image_iff) (metis fst_conv unsigned_word_eqI)
  moreover have "odd (unat c) \<longleftrightarrow> odd c" by (rule odd_unat)
  ultimately show ?case using Cons f by auto
qed simp

lemma in_row_list:
  assumes b: "buildable smooths partials fb_size" and m: "lp_map_ok (unat fb_size + 2) m nx"
    and d: "dom m = lp_value partials ` {0..<n_rels partials}" and nx: "nx \<le> unat fb_size + 2 + n_rels partials"
    and i: "i < n_rels smooths + n_rels partials"
  defines "r \<equiv> (rels smooths @ rels partials) ! i" and "ns \<equiv> n_rels smooths"
  shows "c \<in> set (row_list smooths partials m ! i) \<longleftrightarrow>
     (if c = 0 then r_sign r \<noteq> 1 else if c = 1 then odd (r_val_2_exp r)
      else if c < unat fb_size + 2 then odd (fb_exp r (c - 2))
      else ns \<le> i \<and> m (lp_value partials (i - ns)) = Some c)"
proof -
  have rl: "row_list smooths partials m ! i = row_cols r (if ns \<le> i then the (m (lp_value partials (i - ns))) else UINT32_MAX)"
    using i row_list_nth(1) [of i smooths partials m] row_list_nth(2) [of "i - ns" partials smooths m]
    by (auto simp: r_def ns_def rels_def nth_append)
  have fit: "rel_fits (unat fb_size) r" and F: "unat fb_size + 2 < 2 ^ 32"
    using b i by (auto simp: buildable_def r_def rels_def nth_append)
  note o = odd_factors_facts [OF fit F]
  have ex: "odd (fb_exp r p) \<longleftrightarrow> p + 2 \<in> set (odd_factors r)" for p
    unfolding o(3) fb_exp_def using odd_fb_exp [of "r_factors r" p] fit by (auto simp: rel_fits_def)
  have lp: "the (m (lp_value partials (i - ns))) \<noteq> UINT32_MAX"
      "m (lp_value partials (i - ns)) = Some (the (m (lp_value partials (i - ns))))"
      "unat fb_size + 2 \<le> the (m (lp_value partials (i - ns)))" if "ns \<le> i"
  proof -
    have k: "i - ns < n_rels partials" using i that by (simp add: ns_def)
    show "the (m (lp_value partials (i - ns))) \<noteq> UINT32_MAX"
      "m (lp_value partials (i - ns)) = Some (the (m (lp_value partials (i - ns))))"
      by (rule row_list_facts(3,4) [OF b m d nx k])+
    then have "the (m (lp_value partials (i - ns))) \<in> ran m" by (intro ranI)
    then show "unat fb_size + 2 \<le> the (m (lp_value partials (i - ns)))" using m by (simp add: lp_map_ok_def)
  qed
  have lpc: "c = the (m (lp_value partials (i - ns))) \<longleftrightarrow> m (lp_value partials (i - ns)) = Some c" if "ns \<le> i"
    using lp(2) [OF that] by auto
  have lo: "2 \<le> c \<and> c < unat fb_size + 2" if "c \<in> set (odd_factors r)" using o(2) that by blast
  have e2: "c \<in> set (odd_factors r) \<longleftrightarrow> odd (fb_exp r (c - 2))" if "2 \<le> c" using ex [of "c - 2", unfolded le_add_diff_inverse2 [OF that]] by simp
  consider "c = 0" | "c = 1" | "2 \<le> c" "c < unat fb_size + 2" | "unat fb_size + 2 \<le> c" by linarith
  then show ?thesis
  proof cases
    case 1
    then show ?thesis using lo lp(1,3) by (auto simp: rl row_cols_def)
  next
    case 2
    then show ?thesis using lo lp(1,3) by (auto simp: rl row_cols_def)
  next
    case 3
    then show ?thesis using e2 lp(1,3) by (auto simp: rl row_cols_def)
  next
    case 4
    then show ?thesis using lo lp(1) lpc by (auto simp: rl row_cols_def)
  qed
qed

lemma even_card_sum: "finite D \<Longrightarrow> even (card {i \<in> D. odd (f i)}) \<longleftrightarrow> even (\<Sum>i \<in> D. f i)" for f :: "nat \<Rightarrow> nat"
  by (simp add: even_sum_iff)

lemma gsum_empty_iff: "gsum R D = {} \<longleftrightarrow> (\<forall>c. even (card {i \<in> D. c \<in> R i}))"
  by (auto simp: gsum_def)

lemma dependency_even:
  assumes b: "buildable smooths partials fb_size" and er: "build smooths partials fb_size = Some er"
  shows "dependency (matrix_rows (er_matrix er)) {0..<n_rows (er_matrix er)} D
    \<longleftrightarrow> D \<subseteq> {0..<n_rels smooths + n_rels partials} \<and> even_selection smooths partials D"
proof (cases "D \<subseteq> {0..<n_rels smooths + n_rels partials}")
  case sub: True
  then have fin: "finite D" by (rule finite_subset) simp
  let ?n = "n_rels smooths + n_rels partials" and ?ns = "n_rels smooths" and ?m = "er_lp_col_map er"
  let ?rs = "rels smooths @ rels partials" and ?F = "unat fb_size"
  obtain nx where n: "n_rows (er_matrix er) = ?n" and nxb: "nx \<le> ?F + 2 + n_rels partials"
    and m: "lp_map_ok (?F + 2) ?m nx" and d: "dom ?m = lp_value partials ` {0..<n_rels partials}"
    and rows: "\<And>i. i < ?n \<Longrightarrow> crow (er_matrix er) i = row_list smooths partials ?m ! i"
    using build_correct [OF b] er by auto
  note mem = in_row_list [OF b m d nxb]
  have col: "card {i \<in> D. c \<in> matrix_rows (er_matrix er) i} = card {i \<in> D.
     (if c = 0 then r_sign (?rs ! i) \<noteq> 1 else if c = 1 then odd (r_val_2_exp (?rs ! i))
      else if c < ?F + 2 then odd (fb_exp (?rs ! i) (c - 2))
      else ?ns \<le> i \<and> ?m (lp_value partials (i - ?ns)) = Some c)}" for c
    by (rule arg_cong [of _ _ card], rule Collect_cong) (use sub in \<open>auto simp: matrix_rows_def rows mem\<close>)
  have F0: "fb_exp (?rs ! i) p = 0" if "i \<in> D" "?F \<le> p" for i p
  proof -
    have "rel_fits ?F (?rs ! i)" using b sub that(1) by (force simp: buildable_def rels_def nth_append)
    then show ?thesis using that(2) by (fastforce simp: fb_exp_def rel_fits_def sum_list_eq_0_iff)
  qed
  have v2: "even (card {i \<in> D. odd (r_val_2_exp (?rs ! i))}) \<longleftrightarrow> even (\<Sum>i \<in> D. unat (r_val_2_exp (?rs ! i)))"
    using even_card_sum [OF fin, of "\<lambda>i. unat (r_val_2_exp (?rs ! i))"] by (simp add: odd_unat)
  have fbs: "(\<forall>c. 2 \<le> c \<and> c < ?F + 2 \<longrightarrow> even (card {i \<in> D. odd (fb_exp (?rs ! i) (c - 2))}))
      \<longleftrightarrow> (\<forall>p. even (\<Sum>i \<in> D. fb_exp (?rs ! i) p))" (is "?L \<longleftrightarrow> ?R")
  proof
    assume L: ?L
    show ?R
    proof
      fix p show "even (\<Sum>i \<in> D. fb_exp (?rs ! i) p)"
        using spec [OF L, of "p + 2"] F0 [of _ p] even_card_sum [OF fin, of "\<lambda>i. fb_exp (?rs ! i) p"]
        by (cases "p < ?F") auto
    qed
  qed (simp add: even_card_sum [OF fin])
  have lps: "(\<forall>c. ?F + 2 \<le> c \<longrightarrow> even (card {i \<in> D. ?ns \<le> i \<and> ?m (lp_value partials (i - ?ns)) = Some c}))
      \<longleftrightarrow> (\<forall>l. even (card {i \<in> D. ?ns \<le> i \<and> lp_value partials (i - ?ns) = l}))" (is "?L \<longleftrightarrow> ?R")
  proof
    have same: "{i \<in> D. ?ns \<le> i \<and> ?m (lp_value partials (i - ?ns)) = Some c}
        = {i \<in> D. ?ns \<le> i \<and> lp_value partials (i - ?ns) = l}" if "?m l = Some c" for l c
      using m that by (auto simp: lp_map_ok_def inj_on_def dom_def)
    {
      assume L: ?L
      show ?R
      proof
        fix l show "even (card {i \<in> D. ?ns \<le> i \<and> lp_value partials (i - ?ns) = l})"
        proof (cases "?m l")
          case (Some c)
          then have "c \<in> ran ?m" by (rule ranI)
          then have "?F + 2 \<le> c" using m by (simp add: lp_map_ok_def)
          with L have "even (card {i \<in> D. ?ns \<le> i \<and> ?m (lp_value partials (i - ?ns)) = Some c})" by blast
          then show ?thesis unfolding same [OF Some] .
        next
          case None
          then have "l \<notin> lp_value partials ` {0..<n_rels partials}" unfolding d [symmetric] by (simp add: domIff)
          then have none: "{i \<in> D. ?ns \<le> i \<and> lp_value partials (i - ?ns) = l} = {}" using sub by force
          show ?thesis unfolding none by simp
        qed
      qed
    next
      assume R: ?R
      show ?L
      proof (intro allI impI)
        fix c show "even (card {i \<in> D. ?ns \<le> i \<and> ?m (lp_value partials (i - ?ns)) = Some c})"
        proof (cases "\<exists>l. ?m l = Some c")
          case True
          then show ?thesis using R same by auto
        next
          case False
          then have none: "{i \<in> D. ?ns \<le> i \<and> ?m (lp_value partials (i - ?ns)) = Some c} = {}" by auto
          show ?thesis unfolding none by simp
        qed
      qed
    }
  qed
  have split: "(\<forall>c. P c) \<longleftrightarrow> P 0 \<and> P 1 \<and> (\<forall>c. 2 \<le> c \<and> c < ?F + 2 \<longrightarrow> P c) \<and> (\<forall>c. ?F + 2 \<le> c \<longrightarrow> P c)" for P
    by (metis One_nat_def Suc_leI le0 le_neq_implies_less linorder_not_le numeral_2_eq_2)
  have "(\<forall>c. even (card {i \<in> D. c \<in> matrix_rows (er_matrix er) i})) \<longleftrightarrow> even_selection smooths partials D"
    unfolding even_selection_def Let_def fbs [symmetric] lps [symmetric] v2 [symmetric] col
    by (subst split) (intro arg_cong2 [of _ _ _ _ "(\<and>)"] all_cong1 imp_cong refl; simp)
  then show ?thesis using sub by (simp add: dependency_def n gsum_empty_iff)
next
  case False
  then show ?thesis using build_correct [OF b] er by (auto simp: dependency_def)
qed

section \<open>Squares\<close>

definition is_square_int :: "int \<Rightarrow> bool" where
  "is_square_int x \<longleftrightarrow> (\<exists>z. x = z\<^sup>2)"

lemma is_square_intros [intro]:
  "is_square_int 1" "is_square_int x \<Longrightarrow> is_square_int y \<Longrightarrow> is_square_int (x * y)" "even n \<Longrightarrow> is_square_int (x ^ n)"
proof -
  show "is_square_int 1" unfolding is_square_int_def by (rule exI [of _ 1]) simp
  show "is_square_int x \<Longrightarrow> is_square_int y \<Longrightarrow> is_square_int (x * y)"
    unfolding is_square_int_def by (metis power_mult_distrib)
  show "even n \<Longrightarrow> is_square_int (x ^ n)"
    unfolding is_square_int_def by (metis dvd_mult_div_cancel mult.commute power_mult)
qed

lemma is_square_prod: "finite A \<Longrightarrow> (\<And>a. a \<in> A \<Longrightarrow> is_square_int (f a)) \<Longrightarrow> is_square_int (prod f A)"
  by (induction A rule: finite_induct) auto

lemma prod_sign: "finite D \<Longrightarrow> (\<Prod>i \<in> D. if P i then - 1 else 1 :: int) = (- 1) ^ card {i \<in> D. P i}"
  by (simp add: prod.If_cases Int_def)

lemma prod_factors:
  fixes fs :: "(u32 \<times> u8) list" and fb :: "nat \<Rightarrow> int"
  assumes "\<forall>ix \<in> fst ` set fs. unat ix < F"
  shows "(\<Prod>(ix, c) \<leftarrow> fs. fb (unat ix) ^ unat c) = (\<Prod>p < F. fb p ^ (\<Sum>(ix, c) \<leftarrow> fs. if unat ix = p then unat c else 0))"
  using assms
proof (induction fs)
  case (Cons f fs)
  obtain ix c where f: "f = (ix, c)" by fastforce
  have "(\<Prod>p < F. fb p ^ (if unat ix = p then unat c else 0)) = fb (unat ix) ^ unat c"
    using Cons.prems f by (simp add: if_distrib [of "\<lambda>e. fb _ ^ e"] prod.delta' cong: if_cong)
  then show ?case using Cons f by (simp add: power_add prod.distrib)
qed simp

lemma prod_by_value:
  assumes "finite A"
  shows "(\<Prod>i \<in> A. int (f i)) = (\<Prod>l \<in> f ` A. int l ^ card {i \<in> A. f i = l})"
proof -
  have "(\<Prod>i \<in> A. int (f i)) = (\<Prod>l \<in> f ` A. \<Prod>i \<in> {i \<in> A. f i = l}. int (f i))"
    by (rule prod.image_gen [OF assms])
  also have "\<dots> = (\<Prod>l \<in> f ` A. int l ^ card {i \<in> A. f i = l})" by (rule prod.cong) simp_all
  finally show ?thesis .
qed

lemma even_selection_square:
  assumes b: "buildable smooths partials fb_size" and sub: "D \<subseteq> {0..<n_rels smooths + n_rels partials}"
    and ev: "even_selection smooths partials D"
  shows "is_square_int (\<Prod>i \<in> D. row_value fb smooths partials i)"
proof -
  let ?rs = "rels smooths @ rels partials" and ?ns = "n_rels smooths" and ?F = "unat fb_size"
  have fin: "finite D" by (rule finite_subset [OF sub]) simp
  note ev = ev [unfolded even_selection_def Let_def]
  let ?A = "{i \<in> D. ?ns \<le> i}" and ?lp = "\<lambda>i. unat (lp_value partials (i - ?ns))"
  have fit: "\<forall>ix \<in> fst ` set (r_factors (?rs ! i)). unat ix < ?F" if "i \<in> D" for i
    using b sub that by (force simp: buildable_def rels_def nth_append rel_fits_def)
  have "(\<Prod>i \<in> D. row_value fb smooths partials i) =
     (\<Prod>i \<in> D. if r_sign (?rs ! i) \<noteq> 1 then - 1 else 1) * (\<Prod>i \<in> D. 2 ^ unat (r_val_2_exp (?rs ! i)))
     * (\<Prod>i \<in> D. \<Prod>(ix, c) \<leftarrow> r_factors (?rs ! i). fb (unat ix) ^ unat c) * (\<Prod>i \<in> D. if ?ns \<le> i then int (?lp i) else 1)"
    by (simp add: row_value_def Let_def prod.distrib)
  moreover have "is_square_int (\<Prod>i \<in> D. if r_sign (?rs ! i) \<noteq> 1 then - 1 else 1)"
    unfolding prod_sign [OF fin] using ev by blast
  moreover have "is_square_int (\<Prod>i \<in> D. 2 ^ unat (r_val_2_exp (?rs ! i)))"
    using ev by (simp add: power_sum [symmetric] is_square_intros(3))
  moreover have "is_square_int (\<Prod>i \<in> D. \<Prod>(ix, c) \<leftarrow> r_factors (?rs ! i). fb (unat ix) ^ unat c)"
  proof -
    have "(\<Prod>i \<in> D. \<Prod>(ix, c) \<leftarrow> r_factors (?rs ! i). fb (unat ix) ^ unat c)
        = (\<Prod>i \<in> D. \<Prod>p < ?F. fb p ^ fb_exp (?rs ! i) p)"
      using fit by (intro prod.cong) (simp_all add: prod_factors fb_exp_def)
    also have "\<dots> = (\<Prod>p < ?F. fb p ^ (\<Sum>i \<in> D. fb_exp (?rs ! i) p))"
      by (subst prod.swap) (simp add: power_sum)
    also have "is_square_int \<dots>" using ev by (intro is_square_prod) auto
    finally show ?thesis .
  qed
  moreover have "is_square_int (\<Prod>i \<in> D. if ?ns \<le> i then int (?lp i) else 1)"
  proof -
    have "(\<Prod>i \<in> D. if ?ns \<le> i then int (?lp i) else 1) = (\<Prod>i \<in> ?A. int (?lp i))"
      by (simp only: prod.inter_filter [OF fin])
    also have "\<dots> = (\<Prod>l \<in> ?lp ` ?A. int l ^ card {i \<in> ?A. ?lp i = l})" by (rule prod_by_value) (simp add: fin)
    also have "is_square_int \<dots>"
    proof (intro is_square_prod is_square_intros(3))
      fix l assume "l \<in> ?lp ` ?A"
      then obtain j where j: "l = ?lp j" by blast
      have "{i \<in> ?A. ?lp i = l} = {i \<in> D. ?ns \<le> i \<and> lp_value partials (i - ?ns) = lp_value partials (j - ?ns)}"
        unfolding j by (auto simp: unsigned_word_eqI)
      then show "even (card {i \<in> ?A. ?lp i = l})" using ev by simp
    qed (simp add: fin)
    finally show ?thesis .
  qed
  ultimately show ?thesis by (simp add: is_square_intros(2))
qed

section \<open>Properties\<close>

text \<open>
  C35. The matrix describes the products of relations. For readable batches whose factor indices lie
  below the factor base size, with large primes in the asserted range and within 32-bit sizes, the
  builder succeeds with a valid matrix, one row per relation and one column per distinct large
  prime; and a set of rows sums to zero exactly when sign, exponent of 2, every factor base exponent
  and the occurrences of every large prime are even over the chosen relations, so that the
  product of their values over any factor base is a square.
\<close>

theorem expanded_matrix_squares:
  assumes "buildable smooths partials fb_size"
  shows "\<exists>er. build smooths partials fb_size = Some er \<and> ValidateHostMatrixCSR (er_matrix er)
    \<and> n_rows (er_matrix er) = n_rels smooths + n_rels partials
    \<and> n_cols (er_matrix er) = unat fb_size + 2 + card (lp_value partials ` {0..<n_rels partials})
    \<and> (\<forall>D. dependency (matrix_rows (er_matrix er)) {0..<n_rows (er_matrix er)} D
           \<longleftrightarrow> D \<subseteq> {0..<n_rels smooths + n_rels partials} \<and> even_selection smooths partials D)
    \<and> (\<forall>D fb. dependency (matrix_rows (er_matrix er)) {0..<n_rows (er_matrix er)} D
           \<longrightarrow> (\<exists>z. (\<Prod>i \<in> D. row_value fb smooths partials i) = z\<^sup>2))"
proof -
  obtain er nx where er: "build smooths partials fb_size = Some er" "ValidateHostMatrixCSR (er_matrix er)"
      "n_rows (er_matrix er) = n_rels smooths + n_rels partials" "n_cols (er_matrix er) = nx"
      "lp_map_ok (unat fb_size + 2) (er_lp_col_map er) nx"
      "dom (er_lp_col_map er) = lp_value partials ` {0..<n_rels partials}"
    using build_correct [OF assms] by blast
  have "card (dom (er_lp_col_map er)) = card (ran (er_lp_col_map er))"
  proof -
    have "ran (er_lp_col_map er) = (\<lambda>l. the (er_lp_col_map er l)) ` dom (er_lp_col_map er)" by (force simp: ran_def dom_def)
    moreover have "inj_on (\<lambda>l. the (er_lp_col_map er l)) (dom (er_lp_col_map er))"
      using er(5) by (auto simp: lp_map_ok_def inj_on_def dom_def)
    ultimately show ?thesis by (simp add: card_image)
  qed
  then have "card (lp_value partials ` {0..<n_rels partials}) = nx - (unat fb_size + 2)" "unat fb_size + 2 \<le> nx"
    using er(5) unfolding er(6) lp_map_ok_def by auto
  then have "n_cols (er_matrix er) = unat fb_size + 2 + card (lp_value partials ` {0..<n_rels partials})"
    using er(4) by linarith
  moreover have "\<exists>z. (\<Prod>i \<in> D. row_value fb smooths partials i) = z\<^sup>2"
    if "dependency (matrix_rows (er_matrix er)) {0..<n_rows (er_matrix er)} D" for D fb
    using even_selection_square [OF assms] that unfolding dependency_even [OF assms er(1)] is_square_int_def by blast
  ultimately show ?thesis using er(1,2,3) dependency_even [OF assms er(1)] by blast
qed

text \<open>Two partials with the large prime 101: their product is a square.\<close>

definition two_partials :: batch where
  "two_partials = sample_batch\<lparr>large_primes := [101, 101]\<rparr>"

lemma two_partials_facts:
  "n_rels sample_batch = 2" "n_rels two_partials = 2"
  "rels sample_batch = [rel_at sample_batch 0, rel_at sample_batch 1]"
  "rels two_partials = [rel_at sample_batch 0\<lparr>r_large_prime := 101\<rparr>, rel_at sample_batch 1\<lparr>r_large_prime := 101\<rparr>]"
  by (simp_all add: two_partials_def sample_batch_def rels_def upt_rec rel_at_def row_def slice_def)

lemma two_partials_ok: "batch_ok sample_batch" "batch_ok two_partials"
  by (simp_all add: batch_ok_def offsets_ok_def two_partials_def sample_batch_def less_2_cases)

lemma two_partials_buildable: "buildable sample_batch two_partials 10"
  unfolding buildable_def two_partials_facts
proof (intro conjI two_partials_ok)
  show "\<forall>i < 2. 1 < large_primes two_partials ! i \<and> large_primes two_partials ! i < 2 ^ 48"
    by (simp add: two_partials_def sample_batch_def less_2_cases_iff)
qed (simp_all add: row_bound_def rel_fits_def sample_rels)

theorem expanded_matrix_squares_witness:
  "\<exists>er. build sample_batch two_partials 10 = Some er \<and> n_rows (er_matrix er) = 4 \<and> n_cols (er_matrix er) = 13
    \<and> dependency (matrix_rows (er_matrix er)) {0..<4} {2, 3}"
proof -
  have lp: "lp_value two_partials 0 = 101" "lp_value two_partials (Suc 0) = 101"
    by (simp_all add: lp_value_def two_partials_def sample_batch_def)
  have "{0..<2} = {0, Suc 0}" by auto
  then have img: "lp_value two_partials ` {0..<2} = {101}" by (simp add: lp)
  have two: "{i \<in> {2, 3}. P i} = (if P 2 then {2} else {}) \<union> (if P 3 then {3} else {})" for P :: "nat \<Rightarrow> bool" by auto
  have "even_selection sample_batch two_partials {2, 3}"
    unfolding even_selection_def Let_def two_partials_facts two
    by (simp add: sample_rels fb_exp_def lp)
  moreover obtain er where er: "build sample_batch two_partials 10 = Some er" "n_rows (er_matrix er) = 2 + 2"
    "n_cols (er_matrix er) = unat (10 :: u32) + 2 + card (lp_value two_partials ` {0..<2})"
    "\<forall>D. dependency (matrix_rows (er_matrix er)) {0..<n_rows (er_matrix er)} D
       \<longleftrightarrow> D \<subseteq> {0..<2 + 2} \<and> even_selection sample_batch two_partials D"
    using expanded_matrix_squares [OF two_partials_buildable] unfolding two_partials_facts by blast
  ultimately show ?thesis by (intro exI [of _ er]) (simp add: img)
qed

end
