(* ===== verification/Truncation.thy ===== *)
theory Truncation
  imports Merge_Filter
begin

text \<open>
  Truncation of the reduced matrix before linear algebra, \<^verbatim>\<open>src/matrix/matrix_truncation.h\<close> and
  \<^verbatim>\<open>matrix_truncation.cpp\<close>: rows are chosen greedily so that every column that occurs stays covered,
  then filled up with the lightest rows, and empty columns are dropped.

  Row and coverage counters are natural numbers: none exceeds the number of rows or entries, which
  the 32-bit offsets bound. Reads outside a vector are \<open>None\<close>; logging is left out.
\<close>

section \<open>Choosing rows\<close>

definition kCoverageThreshold :: nat where "kCoverageThreshold = 1"

definition kRelaxationMaxIters :: nat where "kRelaxationMaxIters = 64"

record truncation_result =
  tr_truncated :: csr
  tr_row_map :: "nat list"
  tr_rows_removed :: nat
  tr_cols_removed :: nat

record admission =
  ad_admitted :: "bool list"
  ad_coverage :: "nat list"
  ad_count :: nat
  ad_covered :: nat

definition row_weight :: "csr \<Rightarrow> nat \<Rightarrow> nat option" where
  "row_weight M r = do { b \<leftarrow> vec_at (row_offsets M) r; e \<leftarrow> vec_at (row_offsets M) (r + 1); Some ((e + 2 ^ 32 - b) mod 2 ^ 32) }"

definition cover_col :: "nat \<Rightarrow> nat \<Rightarrow> admission \<Rightarrow> admission" where
  "cover_col nc c st =
     (if c < nc then st\<lparr>ad_covered := (if ad_coverage st ! c = 0 then ad_covered st + 1 else ad_covered st),
                      ad_coverage := (ad_coverage st)[c := ad_coverage st ! c + 1]\<rparr>
      else st)"

definition admit_row :: "csr \<Rightarrow> nat \<Rightarrow> admission \<Rightarrow> admission option" where
  "admit_row M r st = do {
     cs \<leftarrow> csr_row M r;
     Some (fold (cover_col (n_cols M)) cs (st\<lparr>ad_admitted := (ad_admitted st)[r := True], ad_count := ad_count st + 1\<rparr>))
   }"

definition useful :: "csr \<Rightarrow> nat \<Rightarrow> admission \<Rightarrow> bool option" where
  "useful M r st = map_option (list_ex (\<lambda>c. c < n_cols M \<and> ad_coverage st ! c < kCoverageThreshold)) (csr_row M r)"

text \<open>One pass over the rows in order of weight: stops at the target, skips admitted rows where the
  code does, and admits the useful ones or, when filling, every one.\<close>

definition admit_pass :: "csr \<Rightarrow> nat \<Rightarrow> bool \<Rightarrow> bool \<Rightarrow> nat list \<Rightarrow> admission \<Rightarrow> admission option" where
  "admit_pass M target skip only_useful indices st =
     ofold (\<lambda>r st. if ad_count st \<ge> target then Some st
       else if skip \<and> ad_admitted st ! r then Some st
       else if only_useful then do { u \<leftarrow> useful M r st; if u then admit_row M r st else Some st }
       else admit_row M r st) indices st"

text \<open>The relaxation loop, at most \<^verbatim>\<open>kRelaxationMaxIters\<close> times.\<close>

fun relax :: "float_env \<Rightarrow> csr \<Rightarrow> nat list \<Rightarrow> nat \<Rightarrow> nat \<Rightarrow> nat \<Rightarrow> admission \<Rightarrow> admission option" where
  "relax F M indices need 0 target st = Some st"
| "relax F M indices need (Suc iters) target st =
     (if ad_covered st \<ge> need \<or> target \<ge> n_rows M then Some st
      else let grown = unat (d2u F (of_int \<lceil>fl F (of_nat target * fl F (11 / 10))\<rceil>));
               new_target = min grown (n_rows M);
               target' = (if new_target = target then min (target + 1) (n_rows M) else new_target)
           in do {
             st \<leftarrow> admit_pass M target' True True indices st;
             st \<leftarrow> (if ad_count st < target' then admit_pass M target' True False indices st else Some st);
             relax F M indices need iters target' st
           })"

section \<open>The truncated matrix\<close>

definition truncated_rows :: "csr \<Rightarrow> nat list \<Rightarrow> nat list \<Rightarrow> (nat list \<times> nat list \<times> nat list) option" where
  "truncated_rows M rm sel =
     ofold (\<lambda>r (rms, offs, cols). do {
         orig \<leftarrow> vec_at rm r;
         cs \<leftarrow> csr_row M r;
         Some (rms @ [orig], offs @ [length (cols @ cs) mod 2 ^ 32], cols @ cs)
       }) sel ([], [0], [])"

definition compacted :: "nat \<Rightarrow> nat list \<Rightarrow> (nat list \<times> nat) option" where
  "compacted nc cols = do {
     w \<leftarrow> incr_cols cols (replicate nc 0);
     let (o2n, kept) = compact_cols w 0 0;
     cols' \<leftarrow> those (map (vec_at o2n) cols);
     Some (cols', length kept)
   }"

definition initial_admission :: "csr \<Rightarrow> admission" where
  "initial_admission M = \<lparr>ad_admitted = replicate (n_rows M) False, ad_coverage = replicate (n_cols M) 0, ad_count = 0, ad_covered = 0\<rparr>"

definition cols_with_coverage :: "csr \<Rightarrow> nat" where
  "cols_with_coverage M = length (filter (\<lambda>c. c \<in> set (col_indices M)) [0..<n_cols M])"

definition truncateMatrix :: "float_env \<Rightarrow> csr \<Rightarrow> nat list \<Rightarrow> rat \<Rightarrow> u32 \<Rightarrow> u32 \<Rightarrow> truncation_result option" where
  "truncateMatrix F M rm factor n_extra_cols k_excess =
     (let unchanged = \<lparr>tr_truncated = M, tr_row_map = rm, tr_rows_removed = 0, tr_cols_removed = 0\<rparr>;
          target = min (n_cols M + unat n_extra_cols + unat k_excess) (n_rows M)
      in if factor \<le> 0 \<or> n_rows M \<le> target then Some unchanged
      else do {
        ws \<leftarrow> those (map (row_weight M) [0..<n_rows M]);
        let indices = sort_key ((!) ws) [0..<n_rows M];
        st \<leftarrow> admit_pass M target False True indices (initial_admission M);
        st \<leftarrow> (if ad_count st < target then admit_pass M target True False indices st else Some st);
        let need = cols_with_coverage M;
        st \<leftarrow> (if ad_covered st < need then relax F M indices need kRelaxationMaxIters target st else Some st);
        if ad_covered st < need then Some unchanged
        else do {
          let sel = filter ((!) (ad_admitted st)) [0..<n_rows M];
          (rms, offs, cols) \<leftarrow> truncated_rows M rm sel;
          (cols, nc) \<leftarrow> compacted (n_cols M) cols;
          Some \<lparr>tr_truncated = \<lparr>row_offsets = offs, col_indices = cols, n_rows = length sel, n_cols = nc\<rparr>,
             tr_row_map = rms, tr_rows_removed = n_rows M - length sel, tr_cols_removed = n_cols M - nc\<rparr>
        }
      })"

section \<open>What the passes maintain\<close>

definition covered_by :: "csr \<Rightarrow> nat set \<Rightarrow> nat set" where
  "covered_by M A = (\<Union>r \<in> A. set (crow M r))"

definition adm_inv :: "csr \<Rightarrow> nat set \<Rightarrow> admission \<Rightarrow> bool" where
  "adm_inv M A st \<longleftrightarrow> A \<subseteq> {0..<n_rows M} \<and> length (ad_admitted st) = n_rows M
     \<and> (\<forall>r < n_rows M. ad_admitted st ! r \<longleftrightarrow> r \<in> A) \<and> length (ad_coverage st) = n_cols M
     \<and> (\<forall>c < n_cols M. ad_coverage st ! c = 0 \<longleftrightarrow> c \<notin> covered_by M A)
     \<and> ad_count st = card A \<and> ad_covered st = card (covered_by M A)"

lemma cover_cols:
  assumes "\<forall>c \<in> set cs. c < length (ad_coverage st)" and "distinct cs" and "finite C"
    and "\<forall>c < length (ad_coverage st). ad_coverage st ! c = 0 \<longleftrightarrow> c \<notin> C" and "ad_covered st = card C"
  shows "let st' = fold (cover_col (length (ad_coverage st))) cs st in
     length (ad_coverage st') = length (ad_coverage st) \<and> ad_admitted st' = ad_admitted st \<and> ad_count st' = ad_count st
     \<and> (\<forall>c < length (ad_coverage st). ad_coverage st' ! c = 0 \<longleftrightarrow> c \<notin> C \<union> set cs) \<and> ad_covered st' = card (C \<union> set cs)"
  using assms
proof (induction cs arbitrary: st C)
  case (Cons c cs)
  define st1 where "st1 = cover_col (length (ad_coverage st)) c st"
  have len: "length (ad_coverage st1) = length (ad_coverage st)" by (simp add: st1_def cover_col_def)
  have "\<forall>d < length (ad_coverage st1). ad_coverage st1 ! d = 0 \<longleftrightarrow> d \<notin> insert c C"
    using Cons.prems by (auto simp: st1_def cover_col_def nth_list_update)
  moreover have "ad_covered st1 = card (insert c C)"
    using Cons.prems by (auto simp: st1_def cover_col_def card_insert_if)
  ultimately show ?case
    using Cons.IH [of st1 "insert c C"] Cons.prems len
    by (simp add: Let_def st1_def [symmetric]) (simp add: st1_def cover_col_def)
qed simp

lemma covered_by_finite [simp]: "A \<subseteq> {0..<n_rows M} \<Longrightarrow> finite (covered_by M A)"
  by (auto simp: covered_by_def intro: finite_subset)

lemma covered_by_insert: "covered_by M (insert r A) = covered_by M A \<union> set (crow M r)"
  by (auto simp: covered_by_def)

lemma admit_row_inv:
  assumes v: "ValidateHostMatrixCSR M" and inv: "adm_inv M A st" and r: "r < n_rows M" "r \<notin> A"
  shows "\<exists>st'. admit_row M r st = Some st' \<and> adm_inv M (insert r A) st'"
proof -
  note i = inv [unfolded adm_inv_def]
  let ?st = "st\<lparr>ad_admitted := (ad_admitted st)[r := True], ad_count := ad_count st + 1\<rparr>"
  have fin: "finite A" using i by (auto intro: finite_subset)
  have "let st' = fold (cover_col (length (ad_coverage ?st))) (crow M r) ?st in
     length (ad_coverage st') = length (ad_coverage ?st) \<and> ad_admitted st' = ad_admitted ?st \<and> ad_count st' = ad_count ?st
     \<and> (\<forall>c < length (ad_coverage ?st). ad_coverage st' ! c = 0 \<longleftrightarrow> c \<notin> covered_by M A \<union> set (crow M r))
     \<and> ad_covered st' = card (covered_by M A \<union> set (crow M r))"
    by (rule cover_cols) (use i valid_row [OF v r(1)] in auto)
  then show ?thesis
    using i r fin by (auto simp: admit_row_def valid_csr_row [OF v r(1)] adm_inv_def covered_by_insert Let_def nth_list_update)
qed

lemma useful_iff:
  assumes v: "ValidateHostMatrixCSR M" and inv: "adm_inv M A st" and r: "r < n_rows M"
  shows "useful M r st = Some (\<not> set (crow M r) \<subseteq> covered_by M A)"
  using valid_row(1) [OF v r] inv
  by (auto simp: useful_def valid_csr_row [OF v r] adm_inv_def kCoverageThreshold_def list_ex_iff)

text \<open>
  The coverage pass: it stays at or below the target and at or below the number of covered columns,
  and unless it stopped at the target every row it saw is covered.
\<close>

lemma coverage_pass:
  assumes v: "ValidateHostMatrixCSR M" and rs: "distinct rs" "set rs \<subseteq> {0..<n_rows M} - A"
    and inv: "adm_inv M A st" and le: "card A \<le> card (covered_by M A)" "card A \<le> target"
  shows "\<exists>st' A'. admit_pass M target False True rs st = Some st' \<and> adm_inv M A' st' \<and> A \<subseteq> A'
     \<and> card A' \<le> card (covered_by M A') \<and> card A' \<le> target
     \<and> (card A' = target \<or> (\<forall>r \<in> set rs. set (crow M r) \<subseteq> covered_by M A'))"
  using rs inv le
proof (induction rs arbitrary: A st)
  case Nil
  then show ?case by (auto simp: admit_pass_def)
next
  case (Cons r rs)
  note i = Cons.prems(3) [unfolded adm_inv_def]
  have r: "r < n_rows M" "r \<notin> A" and fin: "finite A" using Cons.prems i by (auto intro: finite_subset)
  have stay: ?case if same: "admit_pass M target False True (r # rs) st = admit_pass M target False True rs st"
    and seen: "card A = target \<or> set (crow M r) \<subseteq> covered_by M A"
  proof -
    obtain st' A' where "admit_pass M target False True rs st = Some st'" "adm_inv M A' st'" "A \<subseteq> A'"
      "card A' \<le> card (covered_by M A')" "card A' \<le> target" "card A' = target \<or> (\<forall>r \<in> set rs. set (crow M r) \<subseteq> covered_by M A')"
      using Cons.IH [of A st] Cons.prems by auto
    moreover have "card A \<le> card A'" using \<open>A \<subseteq> A'\<close> \<open>adm_inv M A' st'\<close>
      by (intro card_mono) (auto simp: adm_inv_def intro: finite_subset)
    moreover have "covered_by M A \<subseteq> covered_by M A'" using \<open>A \<subseteq> A'\<close> by (auto simp: covered_by_def)
    ultimately show ?thesis using same seen by (intro exI [of _ st'] exI [of _ A']) fastforce
  qed
  show ?case
  proof (cases "target \<le> card A \<or> set (crow M r) \<subseteq> covered_by M A")
    case True
    show ?thesis
      by (rule stay) (use True Cons.prems(5) i useful_iff [OF v Cons.prems(3) r(1)] in \<open>auto simp: admit_pass_def\<close>)
  next
    case False
    obtain st1 where st1: "admit_row M r st = Some st1" "adm_inv M (insert r A) st1"
      using admit_row_inv [OF v Cons.prems(3) r] by blast
    have step: "admit_pass M target False True (r # rs) st = admit_pass M target False True rs st1"
      using False i useful_iff [OF v Cons.prems(3) r(1)] st1(1) by (simp add: admit_pass_def)
    have grow: "card (covered_by M A) < card (covered_by M (insert r A))"
      using False i r(1) by (intro psubset_card_mono) (auto simp: covered_by_insert)
    have "card (insert r A) \<le> card (covered_by M (insert r A))" "card (insert r A) \<le> target"
      using grow Cons.prems(4) False fin r(2) by auto
    moreover have "set rs \<subseteq> {0..<n_rows M} - insert r A" "distinct rs" using Cons.prems(1,2) by auto
    ultimately obtain st' A' where "admit_pass M target False True rs st1 = Some st'" "adm_inv M A' st'" and sub: "insert r A \<subseteq> A'"
      and "card A' \<le> card (covered_by M A')" "card A' \<le> target" "card A' = target \<or> (\<forall>r \<in> set rs. set (crow M r) \<subseteq> covered_by M A')"
      using Cons.IH [of "insert r A" st1] st1(2) by blast
    moreover have "set (crow M r) \<subseteq> covered_by M A'" using sub by (auto simp: covered_by_def)
    ultimately show ?thesis using step sub by (intro exI [of _ st'] exI [of _ A']) auto
  qed
qed

text \<open>The fill pass ends at the target exactly.\<close>

lemma fill_pass:
  assumes v: "ValidateHostMatrixCSR M" and rs: "set rs \<subseteq> {0..<n_rows M}" and inv: "adm_inv M A st" and le: "card A \<le> target"
  shows "\<exists>st' A'. admit_pass M target True False rs st = Some st' \<and> adm_inv M A' st' \<and> A \<subseteq> A' \<and> card A' \<le> target
     \<and> (card A' = target \<or> set rs \<subseteq> A')"
  using rs inv le
proof (induction rs arbitrary: A st)
  case Nil
  then show ?case by (auto simp: admit_pass_def)
next
  case (Cons r rs)
  note i = Cons.prems(2) [unfolded adm_inv_def]
  have r: "r < n_rows M" and fin: "finite A" using Cons.prems i by (auto intro: finite_subset)
  show ?case
  proof (cases "target \<le> card A \<or> r \<in> A")
    case True
    then have "admit_pass M target True False (r # rs) st = admit_pass M target True False rs st"
      using i r by (auto simp: admit_pass_def)
    moreover obtain st' A' where "admit_pass M target True False rs st = Some st'" "adm_inv M A' st'" "A \<subseteq> A'" "card A' \<le> target"
      "card A' = target \<or> set rs \<subseteq> A'"
      using Cons.IH [of A st] Cons.prems by auto
    moreover have "card A \<le> card A'" using \<open>A \<subseteq> A'\<close> \<open>adm_inv M A' st'\<close>
      by (intro card_mono) (auto simp: adm_inv_def intro: finite_subset)
    ultimately show ?thesis using True by (intro exI [of _ st'] exI [of _ A']) auto
  next
    case False
    obtain st1 where st1: "admit_row M r st = Some st1" "adm_inv M (insert r A) st1"
      using admit_row_inv [OF v Cons.prems(2) r] False by blast
    have "admit_pass M target True False (r # rs) st = admit_pass M target True False rs st1"
      using False i r st1(1) by (simp add: admit_pass_def)
    then show ?thesis
      using Cons.IH [of "insert r A" st1] Cons.prems False st1(2) fin by auto
  qed
qed

section \<open>Rebuilding\<close>

lemma weights_of:
  assumes "\<forall>c \<in> set cols. c < nc" and "length cols < 2 ^ 32"
  shows "\<exists>w. incr_cols cols (replicate nc 0) = Some w \<and> length w = nc \<and> kept w = set cols"
proof -
  have "\<exists>w. incr_cols cols (replicate nc 0) = Some w \<and> length w = nc \<and> (\<forall>c < nc. w ! c = of_nat (count_list cols c))"
    using assms(1)
  proof (induction cols rule: rev_induct)
    case (snoc c cols)
    then obtain w where "incr_cols cols (replicate nc 0) = Some w" "length w = nc" "\<forall>c < nc. w ! c = of_nat (count_list cols c)"
      by auto
    then show ?case using snoc.prems by (auto simp: for_cols_def ofold_append nth_list_update)
  qed (simp add: for_cols_def)
  then obtain w where w: "incr_cols cols (replicate nc 0) = Some w" "length w = nc" "\<forall>c < nc. w ! c = of_nat (count_list cols c)" by blast
  have "0 < (of_nat (count_list cols c) :: u32) \<longleftrightarrow> c \<in> set cols" for c
  proof -
    have "count_list cols c < 2 ^ 32" using assms(2) count_le_length [of cols c] by linarith
    then have "unat (of_nat (count_list cols c) :: u32) = count_list cols c" by (simp add: unat_of_nat take_bit_nat_eq_self)
    then show ?thesis by (metis count_list_0_iff gr0I unat_gt_0 unsigned_0 word_gt_0)
  qed
  with w assms(1) have "kept w = set cols" by (auto simp: kept_def)
  with w show ?thesis by blast
qed

lemma compact_cols_count: "compact_cols ws c k = (o2n, m) \<Longrightarrow> length m = length (filter (\<lambda>w. w > 0) ws)"
  by (induction ws c k arbitrary: o2n m rule: compact_cols.induct) (auto split: if_splits prod.splits)

lemma compacted_eq:
  assumes "\<forall>c \<in> set cols. c < nc" and "length cols < 2 ^ 32" and "nc < 2 ^ 32"
  shows "\<exists>o2n. compacted nc cols = Some (map ((!) o2n) cols, card (set cols)) \<and> inj_on ((!) o2n) (set cols)
     \<and> (\<forall>c \<in> set cols. o2n ! c < card (set cols)) \<and> (\<forall>c \<in> set cols. \<forall>d \<in> set cols. c < d \<longrightarrow> o2n ! c < o2n ! d)"
proof -
  obtain w where w: "incr_cols cols (replicate nc 0) = Some w" "length w = nc" "kept w = set cols"
    using weights_of [OF assms(1,2)] by blast
  obtain o2n m where cc: "compact_cols w 0 0 = (o2n, m)" by fastforce
  note km = kept_remap [OF cc] and w(2) [simp]
  have "length m = card (set cols)"
    using compact_cols_count [OF cc] w(3) by (simp add: length_filter_conv_card kept_def)
  moreover have "those (map (vec_at o2n) cols) = Some (map ((!) o2n) cols)"
    by (rule those_Some) (use km(1) assms(3) w(3) in auto)
  ultimately show ?thesis
    using km assms(3) w by (intro exI [of _ o2n]) (simp add: compacted_def cc)
qed

lemma truncated_rows_eq:
  assumes v: "ValidateHostMatrixCSR M" and sel: "\<forall>r \<in> set sel. r < n_rows M" and rm: "length rm = n_rows M"
    and nnz: "length (concat (map (crow M) sel)) < 2 ^ 32"
  shows "truncated_rows M rm sel = Some (map ((!) rm) sel, offsets_of (map (crow M) sel), concat (map (crow M) sel))"
  using sel nnz
proof (induction sel rule: rev_induct)
  case Nil
  then show ?case by (simp add: truncated_rows_def offsets_of_def)
next
  case (snoc r sel)
  then show ?case
    by (simp add: truncated_rows_def ofold_append rm valid_csr_row [OF v] offsets_of_snoc)
qed

lemma subset_nnz:
  assumes v: "ValidateHostMatrixCSR M"
  shows "length (concat (map (crow M) (filter P [0..<n_rows M]))) \<le> length (col_indices M)"
proof -
  have "length (concat (map (crow M) (filter P is))) \<le> length (concat (map (crow M) is))" for "is" by (induction "is") auto
  also have "length (concat (map (crow M) [0..<n_rows M])) = length (col_indices M)"
    using valid_nnz [OF v] by (simp add: length_concat comp_def interv_sum_list_conv_sum_set_nat atLeast0LessThan)
  finally show ?thesis .
qed

section \<open>The main fact\<close>

definition same_kernel :: "csr \<Rightarrow> csr \<Rightarrow> nat list \<Rightarrow> bool" where
  "same_kernel M R sel \<longleftrightarrow>
     (\<forall>T \<subseteq> {0..<length sel}. gsum (matrix_rows R) T = {} \<longleftrightarrow> gsum (matrix_rows M) ((!) sel ` T) = {})"

lemma rebuilt:
  assumes v: "ValidateHostMatrixCSR M" and nc: "n_cols M < 2 ^ 32" and nnz: "length (col_indices M) < 2 ^ 32"
    and rm: "length rm = n_rows M" and sel: "sel = filter P [0..<n_rows M]"
  shows "\<exists>cols R. truncated_rows M rm sel = Some (map ((!) rm) sel, offsets_of (map (crow M) sel), concat (map (crow M) sel))
     \<and> compacted (n_cols M) (concat (map (crow M) sel)) = Some (cols, card (covered_by M (set sel)))
     \<and> R = \<lparr>row_offsets = offsets_of (map (crow M) sel), col_indices = cols, n_rows = length sel,
             n_cols = card (covered_by M (set sel))\<rparr>
     \<and> ValidateHostMatrixCSR R \<and> same_kernel M R sel"
proof -
  have in_sel: "\<forall>r \<in> set sel. r < n_rows M" and dist: "distinct sel" by (auto simp: sel)
  have small: "length (concat (map (crow M) sel)) < 2 ^ 32" using subset_nnz [OF v, of P] nnz by (simp add: sel)
  let ?cols = "concat (map (crow M) sel)"
  have cov: "set ?cols = covered_by M (set sel)" by (simp add: covered_by_def)
  have cb: "\<forall>c \<in> set ?cols. c < n_cols M" using valid_row(1) [OF v] in_sel by auto
  obtain o2n where o: "compacted (n_cols M) ?cols = Some (map ((!) o2n) ?cols, card (set ?cols))" "inj_on ((!) o2n) (set ?cols)"
      "\<forall>c \<in> set ?cols. o2n ! c < card (set ?cols)" "\<forall>c \<in> set ?cols. \<forall>d \<in> set ?cols. c < d \<longrightarrow> o2n ! c < o2n ! d"
    using compacted_eq [OF cb small nc] by blast
  define rws where "rws = map (\<lambda>r. map ((!) o2n) (crow M r)) sel"
  define R where "R = \<lparr>row_offsets = offsets_of rws, col_indices = concat rws, n_rows = length rws, n_cols = card (set ?cols)\<rparr>"
  have good: "rows_good (card (set ?cols)) rws"
    unfolding rows_good_def rws_def set_map
  proof (intro ballI conjI)
    fix rw assume "rw \<in> (\<lambda>r. map ((!) o2n) (crow M r)) ` set sel"
    then obtain r where r: "r \<in> set sel" "rw = map ((!) o2n) (crow M r)" by blast
    then have "set (crow M r) \<subseteq> set ?cols" by auto
    then show "sorted_wrt (<) rw"
      unfolding r(2) using o(4) valid_row(3) [OF v] in_sel r(1) by (intro strict_mono_map_sorted) auto
    show "c < card (set ?cols)" if "c \<in> set rw" for c
      using that o(3) \<open>set (crow M r) \<subseteq> set ?cols\<close> unfolding r(2) by auto
  qed
  have valid: "ValidateHostMatrixCSR R" and rows: "\<And>i. i < length rws \<Longrightarrow> crow R i = rws ! i"
    using built_csr [OF R_def good] by blast+
  have "same_kernel M R sel"
    unfolding same_kernel_def
  proof (intro allI impI)
    fix T assume T: "T \<subseteq> {0..<length sel}"
    have "gsum (matrix_rows R) T = gsum (\<lambda>i. (!) o2n ` set (crow M (sel ! i))) T"
      by (rule gsum_cong) (use T in \<open>auto simp: matrix_rows_def rows rws_def\<close>)
    also have "\<dots> = (!) o2n ` gsum (\<lambda>i. set (crow M (sel ! i))) T"
    proof (rule gsum_rename)
      show "finite T" using T by (rule finite_subset) simp
      show "inj_on ((!) o2n) (\<Union>i \<in> T. set (crow M (sel ! i)))"
        by (rule inj_on_subset [OF o(2)]) (use T in fastforce)
    qed
    also have "gsum (\<lambda>i. set (crow M (sel ! i))) T = gsum (matrix_rows M) ((!) sel ` T)"
      unfolding matrix_rows_def [abs_def]
      by (rule gsum_reindex [symmetric], rule inj_on_nth [OF dist]) (use T in auto)
    finally show "gsum (matrix_rows R) T = {} \<longleftrightarrow> gsum (matrix_rows M) ((!) sel ` T) = {}" by simp
  qed
  moreover have "offsets_of rws = offsets_of (map (crow M) sel)"
    by (simp add: offsets_of_def rws_def length_concat take_map comp_def del: upt_Suc)
  moreover have "map ((!) o2n) ?cols = concat rws" by (simp add: rws_def map_concat comp_def)
  moreover have "R = \<lparr>row_offsets = offsets_of rws, col_indices = concat rws, n_rows = length sel, n_cols = card (covered_by M (set sel))\<rparr>"
    by (simp only: R_def cov) (simp add: rws_def)
  ultimately show ?thesis
    using truncated_rows_eq [OF v in_sel rm small] o(1) [unfolded cov] valid
    by (intro exI [of _ "concat rws"] exI [of _ R]) metis
qed

lemma cols_with_coverage_eq:
  assumes v: "ValidateHostMatrixCSR M"
  shows "cols_with_coverage M = card (covered_by M {0..<n_rows M})"
proof -
  have "concat (map (crow M) [0..<n_rows M]) = col_indices M"
  proof -
    have "concat (map (crow M) [0..<k]) = take (row_offsets M ! k) (col_indices M)" if "k \<le> n_rows M" for k
      using that
    proof (induction k)
      case 0
      then show ?case using v by (simp add: validate_iff)
    next
      case (Suc k)
      then have "row_offsets M ! k \<le> row_offsets M ! (k + 1)" using v by (simp add: validate_iff)
      then show ?case using Suc by (simp add: crow_def slice_def take_add [symmetric])
    qed
    then show ?thesis using valid_last [OF v] by simp
  qed
  then have "set (col_indices M) = covered_by M {0..<n_rows M}"
    by (metis covered_by_def set_concat image_image set_map set_upt)
  moreover have "covered_by M {0..<n_rows M} \<subseteq> {0..<n_cols M}" using valid_row(1) [OF v] by (auto simp: covered_by_def)
  ultimately have "set (filter (\<lambda>c. c \<in> set (col_indices M)) [0..<n_cols M]) = covered_by M {0..<n_rows M}" by auto
  then show ?thesis unfolding cols_with_coverage_def by (metis distinct_card distinct_filter distinct_upt)
qed

text \<open>After the two passes exactly the target is admitted, every column that occurs is covered, and
  so the relaxation loop is never entered.\<close>

lemma passes_cover:
  assumes v: "ValidateHostMatrixCSR M" and t: "n_cols M \<le> target" "target < n_rows M"
    and rs: "distinct rs" "set rs = {0..<n_rows M}"
  shows "\<exists>st st' A. admit_pass M target False True rs (initial_admission M) = Some st
     \<and> (if ad_count st < target then admit_pass M target True False rs st else Some st) = Some st'
     \<and> adm_inv M A st' \<and> card A = target \<and> covered_by M A = covered_by M {0..<n_rows M}"
proof -
  have "adm_inv M {} (initial_admission M)" by (simp add: adm_inv_def initial_admission_def covered_by_def)
  then obtain st A where st: "admit_pass M target False True rs (initial_admission M) = Some st" "adm_inv M A st"
      "card A \<le> card (covered_by M A)" "card A \<le> target" "card A = target \<or> (\<forall>r \<in> set rs. set (crow M r) \<subseteq> covered_by M A)"
    using coverage_pass [OF v rs(1), of "{}" "initial_admission M" target] rs(2) by (auto simp: covered_by_def)
  have A: "A \<subseteq> {0..<n_rows M}" using st(2) by (simp add: adm_inv_def)
  have bound: "covered_by M B \<subseteq> {0..<n_cols M}" if "B \<subseteq> {0..<n_rows M}" for B
    using valid_row(1) [OF v] that by (fastforce simp: covered_by_def)
  have full: "covered_by M A = covered_by M {0..<n_rows M}"
  proof (cases "card A = target")
    case True
    then have "card {0..<n_cols M} \<le> card (covered_by M A)" using st(3) t(1) by simp
    then have "covered_by M A = {0..<n_cols M}" by (intro card_seteq bound A) simp
    moreover have "covered_by M A \<subseteq> covered_by M {0..<n_rows M}" using A by (auto simp: covered_by_def)
    ultimately show ?thesis using bound [OF order_refl] by auto
  next
    case False
    then show ?thesis using st(5) rs(2) A by (auto simp: covered_by_def)
  qed
  obtain st' A' where st': "(if ad_count st < target then admit_pass M target True False rs st else Some st) = Some st'"
      "adm_inv M A' st'" "A \<subseteq> A'" "card A' = target"
  proof (cases "card A < target")
    case True
    obtain st' A' where r: "admit_pass M target True False rs st = Some st'" "adm_inv M A' st'" "A \<subseteq> A'" "card A' \<le> target"
        "card A' = target \<or> set rs \<subseteq> A'"
      using fill_pass [OF v _ st(2,4), of rs] rs(2) by auto
    have "card A' = target"
    proof (rule ccontr)
      assume "card A' \<noteq> target"
      then have "A' = {0..<n_rows M}" using r(2,5) rs(2) by (auto simp: adm_inv_def)
      then show False using r(4) t(2) by simp
    qed
    moreover have "ad_count st < target" using st(2) True by (simp add: adm_inv_def)
    ultimately show ?thesis using r that by simp
  next
    case False
    then have "\<not> ad_count st < target" "card A = target" using st(2,4) by (auto simp: adm_inv_def)
    then show ?thesis using that [of st A] st(2) by simp
  qed
  have "covered_by M A' = covered_by M {0..<n_rows M}"
  proof (rule antisym)
    have "A' \<subseteq> {0..<n_rows M}" using st'(2) by (simp add: adm_inv_def)
    then show "covered_by M A' \<subseteq> covered_by M {0..<n_rows M}" unfolding covered_by_def by (rule UN_mono) simp
    have "covered_by M A \<subseteq> covered_by M A'" unfolding covered_by_def by (rule UN_mono [OF st'(3)]) simp
    then show "covered_by M {0..<n_rows M} \<subseteq> covered_by M A'" by (simp only: full)
  qed
  with st st' show ?thesis by blast
qed

lemma truncation_exact:
  assumes v: "ValidateHostMatrixCSR M" and rm: "length rm = n_rows M" and size: "n_cols M < 2 ^ 32" "length (col_indices M) < 2 ^ 32"
    and f: "0 < factor"
    and cut: "n_cols M + unat extra + unat excess < n_rows M"
  shows "\<exists>res sel. (\<forall>F. truncateMatrix F M rm factor extra excess = Some res) \<and> ValidateHostMatrixCSR (tr_truncated res)
    \<and> n_rows (tr_truncated res) = n_cols M + unat extra + unat excess
    \<and> sorted_wrt (<) sel \<and> set sel \<subseteq> {0..<n_rows M} \<and> length sel = n_rows (tr_truncated res)
    \<and> tr_row_map res = map ((!) rm) sel \<and> same_kernel M (tr_truncated res) sel
    \<and> covered_by M (set sel) = covered_by M {0..<n_rows M} \<and> n_cols (tr_truncated res) = card (covered_by M {0..<n_rows M})
    \<and> tr_rows_removed res + n_rows (tr_truncated res) = n_rows M \<and> tr_cols_removed res + n_cols (tr_truncated res) = n_cols M"
proof -
  let ?t = "n_cols M + unat extra + unat excess"
  have t: "min ?t (n_rows M) = ?t" "n_cols M \<le> ?t" using cut by auto
  define ws where "ws = map (\<lambda>r. (row_offsets M ! (r + 1) + 2 ^ 32 - row_offsets M ! r) mod 2 ^ 32) [0..<n_rows M]"
  define indices where "indices = sort_key ((!) ws) [0..<n_rows M]"
  have ws: "those (map (row_weight M) [0..<n_rows M]) = Some ws"
    unfolding ws_def by (rule those_Some) (use v in \<open>simp add: row_weight_def validate_iff\<close>)
  have ind: "distinct indices" "set indices = {0..<n_rows M}" by (simp_all add: indices_def)
  obtain st st' A where p: "admit_pass M ?t False True indices (initial_admission M) = Some st"
      "(if ad_count st < ?t then admit_pass M ?t True False indices st else Some st) = Some st'"
      "adm_inv M A st'" "card A = ?t" "covered_by M A = covered_by M {0..<n_rows M}"
    using passes_cover [OF v t(2) cut ind] by blast
  define sel where "sel = filter ((!) (ad_admitted st')) [0..<n_rows M]"
  have A: "set sel = A" "A \<subseteq> {0..<n_rows M}" using p(3) by (auto simp: sel_def adm_inv_def)
  then have len: "length sel = ?t" using p(4) distinct_card [of sel] by (simp add: sel_def)
  have need: "\<not> ad_covered st' < cols_with_coverage M"
    using p(3,5) by (simp add: adm_inv_def cols_with_coverage_eq [OF v])
  obtain cols R where r: "truncated_rows M rm sel = Some (map ((!) rm) sel, offsets_of (map (crow M) sel), concat (map (crow M) sel))"
      "compacted (n_cols M) (concat (map (crow M) sel)) = Some (cols, card (covered_by M (set sel)))"
      "R = \<lparr>row_offsets = offsets_of (map (crow M) sel), col_indices = cols, n_rows = length sel, n_cols = card (covered_by M (set sel))\<rparr>"
      "ValidateHostMatrixCSR R" "same_kernel M R sel"
    using rebuilt [OF v size rm sel_def] by blast
  let ?res = "\<lparr>tr_truncated = R, tr_row_map = map ((!) rm) sel, tr_rows_removed = n_rows M - length sel,
      tr_cols_removed = n_cols M - card (covered_by M (set sel))\<rparr>"
  have "truncateMatrix F M rm factor extra excess = Some ?res" for F
  proof -
    have go: "\<not> (factor \<le> 0 \<or> n_rows M \<le> ?t)" using f cut by simp
    show ?thesis
      by (simp only: truncateMatrix_def Let_def t(1) go if_False ws indices_def [symmetric] bind.bind_lunit p(1,2) need
          sel_def [symmetric] r(1,2) prod.case) (simp add: r(3))
  qed
  moreover have "card (covered_by M (set sel)) \<le> n_cols M"
  proof -
    have "covered_by M (set sel) \<subseteq> {0..<n_cols M}" using valid_row(1) [OF v] A by (fastforce simp: covered_by_def)
    then show ?thesis using card_mono [of "{0..<n_cols M}"] by simp
  qed
  ultimately show ?thesis
    using r(3,4,5) A p(5) len cut
    by (intro exI [of _ ?res] exI [of _ sel]) (simp add: sel_def sorted_wrt_filter)
qed

section \<open>Properties\<close>

text \<open>
  C36. Truncation keeps the null space and the columns. On a valid matrix the function reads in range
  and returns a valid matrix with exactly the requested number of rows (all rows where the matrix has
  no more, or where truncation is off): original rows in their order, mapped by the row map, with
  columns renumbered so that a set of rows sums to zero exactly when the original rows do, and
  every column that occurs in the input occurs in a kept row. The relaxation loop never runs: its
  floating-point growth does not influence the result.
\<close>

theorem truncation_keeps_dependencies:
  assumes "ValidateHostMatrixCSR M" and "length rm = n_rows M" and "n_cols M < 2 ^ 32" and "length (col_indices M) < 2 ^ 32"
  shows "\<exists>res sel. (\<forall>F. truncateMatrix F M rm factor extra excess = Some res) \<and> ValidateHostMatrixCSR (tr_truncated res)
    \<and> n_rows (tr_truncated res) = (if factor \<le> 0 then n_rows M else min (n_cols M + unat extra + unat excess) (n_rows M))
    \<and> sorted_wrt (<) sel \<and> set sel \<subseteq> {0..<n_rows M} \<and> length sel = n_rows (tr_truncated res)
    \<and> tr_row_map res = map ((!) rm) sel
    \<and> (\<forall>T \<subseteq> {0..<length sel}. gsum (matrix_rows (tr_truncated res)) T = {} \<longleftrightarrow> gsum (matrix_rows M) ((!) sel ` T) = {})
    \<and> (\<forall>c. (\<exists>r < n_rows M. c \<in> matrix_rows M r) \<longrightarrow> (\<exists>r \<in> set sel. c \<in> matrix_rows M r))"
proof (cases "0 < factor \<and> n_cols M + unat extra + unat excess < n_rows M")
  case True
  then obtain res sel where r: "\<forall>F. truncateMatrix F M rm factor extra excess = Some res" "ValidateHostMatrixCSR (tr_truncated res)"
      "n_rows (tr_truncated res) = n_cols M + unat extra + unat excess" "sorted_wrt (<) sel" "set sel \<subseteq> {0..<n_rows M}"
      "length sel = n_rows (tr_truncated res)" "tr_row_map res = map ((!) rm) sel" "same_kernel M (tr_truncated res) sel"
      "covered_by M (set sel) = covered_by M {0..<n_rows M}"
    using truncation_exact [OF assms, of factor extra excess] by blast
  have "\<exists>r \<in> set sel. c \<in> matrix_rows M r" if "\<exists>r < n_rows M. c \<in> matrix_rows M r" for c
  proof -
    from that have "c \<in> covered_by M {0..<n_rows M}" by (auto simp: covered_by_def matrix_rows_def)
    then have "c \<in> covered_by M (set sel)" by (simp only: r(9))
    then show ?thesis using r(5) by (auto simp: covered_by_def matrix_rows_def)
  qed
  with r True show ?thesis
    by (intro exI [of _ res] exI [of _ sel]) (simp add: same_kernel_def)
next
  case False
  then have "truncateMatrix F M rm factor extra excess
      = Some \<lparr>tr_truncated = M, tr_row_map = rm, tr_rows_removed = 0, tr_cols_removed = 0\<rparr>" for F
    by (auto simp: truncateMatrix_def Let_def)
  moreover have "(!) [0..<n_rows M] ` T = T" if "T \<subseteq> {0..<n_rows M}" for T using that by (force simp: image_iff)
  moreover have "rm = map ((!) rm) [0..<n_rows M]" using map_nth [of rm] assms(2) by simp
  ultimately show ?thesis
    using False assms(1)
    by (intro exI [of _ "\<lparr>tr_truncated = M, tr_row_map = rm, tr_rows_removed = 0, tr_cols_removed = 0\<rparr>"] exI [of _ "[0..<n_rows M]"])
       auto
qed

theorem truncation_keeps_dependencies_witness:
  "\<exists>res. truncateMatrix exact_float shared_matrix [5, 6, 7, 8, 9] 1 0 0 = Some res
    \<and> n_rows (tr_truncated res) = 4 \<and> ValidateHostMatrixCSR (tr_truncated res) \<and> length (tr_row_map res) = 4"
proof -
  have v: "ValidateHostMatrixCSR shared_matrix" using shared_matrix_weight_one by blast
  have "length [5, 6, 7, 8, 9 :: nat] = n_rows shared_matrix" "n_cols shared_matrix < 2 ^ 32" "length (col_indices shared_matrix) < 2 ^ 32"
    "n_rows shared_matrix = 5" "n_cols shared_matrix = 4"
    by (simp_all add: shared_matrix_def)
  with truncation_keeps_dependencies [OF v this(1,2,3), of 1 0 0] show ?thesis by auto
qed

end
