(* ===== verification/Sqrt_Step.thy ===== *)
theory Sqrt_Step
  imports Expanded_Matrix Cpu_Lp Math_Utils
begin

text \<open>
  The square-root step for one solution, the host path of \<^verbatim>\<open>src/sqrt/sqrt_step.cu\<close>: from the
  relations a kernel vector selects, \<open>X\<close> is the product of their square roots and \<open>Y\<close> the root of
  the product of their right-hand sides, obtained by halving the summed exponents; if
  \<open>X\<^sup>2 \<equiv> Y\<^sup>2 (mod N)\<close> then \<open>gcd(X - Y, N)\<close> or \<open>gcd(X + Y, N)\<close> may split \<open>N\<close>.

  A read outside a vector is \<open>None\<close>. Log output and the debugging comparisons with the device path
  (compiled only with \<^verbatim>\<open>MPQS_DEBUG\<close>) are left out.
\<close>

section \<open>The solution mask\<close>

definition unpack_bits_local :: "u64 list \<Rightarrow> nat \<Rightarrow> u8 list option" where
  "unpack_bits_local packed n_bits =
     ofold (\<lambda>i unpacked. do {
         w \<leftarrow> vec_at packed (i div 64);
         Some (unpacked @ [if drop_bit (i mod 64) w AND 1 \<noteq> 0 then 1 else 0])
       }) [0..<n_bits] []"

section \<open>The product of the left-hand sides\<close>

definition ComputeX :: "u8 list \<Rightarrow> batch \<Rightarrow> montgomery \<Rightarrow> uint512 option" where
  "ComputeX sol_mask b mont = do {
     X_mont \<leftarrow> ofold (\<lambda>i X_mont. do {
         m \<leftarrow> vec_at sol_mask i;
         if m \<noteq> 0 then do {
           val \<leftarrow> vec_at (sqrt_Q b) i;
           Some (mont_mul mont X_mont (transform mont (limbs val)))
         } else Some X_mont
       }) [0..<min (length sol_mask) (n_rels b)] (transform mont (uint512_u32 1));
     Some (mont_reduce mont X_mont)
   }"

section \<open>The root of the right-hand side\<close>

record y_state =
  total_exponents :: "u64 list"
  total_exp_minus_1 :: u64
  total_exp_2 :: u64
  Y_large_primes_mont :: uint512

definition add_exponent :: "batch \<Rightarrow> nat \<Rightarrow> y_state \<Rightarrow> y_state option" where
  "add_exponent b k st = do {
     fb_idx \<leftarrow> vec_at (factor_indices b) k;
     count \<leftarrow> vec_at (factor_counts b) k;
     let i = unat fb_idx;
     Some (if i < length (total_exponents st)
           then st\<lparr>total_exponents := (total_exponents st)[i := total_exponents st ! i + ucast count]\<rparr>
           else st)
   }"

definition add_relation :: "batch \<Rightarrow> montgomery \<Rightarrow> nat \<Rightarrow> y_state \<Rightarrow> y_state option" where
  "add_relation b mont i st = do {
     sg \<leftarrow> vec_at (signs b) i;
     let st = (if sg \<noteq> 1 then st\<lparr>total_exp_minus_1 := total_exp_minus_1 st + 1\<rparr> else st);
     v2 \<leftarrow> vec_at (val_2_exps b) i;
     let st = st\<lparr>total_exp_2 := total_exp_2 st + scast v2\<rparr>;
     lp \<leftarrow> vec_at (large_primes b) i;
     let st = (if lp > 1
               then st\<lparr>Y_large_primes_mont := mont_mul mont (Y_large_primes_mont st) (transform mont (uint512_u128 lp))\<rparr>
               else st);
     s \<leftarrow> vec_at (factor_offsets b) i;
     e \<leftarrow> vec_at (factor_offsets b) (i + 1);
     ofold (add_exponent b) [unat s..<unat e] st
   }"

text \<open>The exponent is cut to 32 bits before it is halved.\<close>

definition half_exp :: "u64 \<Rightarrow> uint512" where
  "half_exp t = uint512_u32 (ucast t div 2)"

definition times_power :: "montgomery \<Rightarrow> u32 \<Rightarrow> u64 \<Rightarrow> uint512 \<Rightarrow> uint512" where
  "times_power mont p t Y_mont = mont_mul mont Y_mont (mont_pow mont (transform mont (uint512_u32 p)) (half_exp t))"

definition Y_product :: "uint512 \<Rightarrow> u32 list \<Rightarrow> montgomery \<Rightarrow> y_state \<Rightarrow> uint512" where
  "Y_product N factor_base mont st =
     (let Y_mont = transform mont (uint512_u32 1);
          Y_mont = (if (total_exp_minus_1 st div 2) AND 1 \<noteq> 0 then negate_mod_inplace Y_mont N else Y_mont);
          Y_mont = (if total_exp_2 st > 0 then times_power mont 2 (total_exp_2 st) Y_mont else Y_mont);
          Y_mont = fold (\<lambda>(p, t) Y_mont. if t = 0 then Y_mont else times_power mont p t Y_mont)
                     (zip factor_base (total_exponents st)) Y_mont;
          Y_mont = mont_mul mont Y_mont (Y_large_primes_mont st)
      in mont_reduce mont Y_mont)"

definition ComputeY :: "u8 list \<Rightarrow> batch \<Rightarrow> u32 list \<Rightarrow> uint512 \<Rightarrow> montgomery \<Rightarrow> uint512 option" where
  "ComputeY sol_mask b factor_base N mont = do {
     st \<leftarrow> ofold (\<lambda>i st. do {
         m \<leftarrow> vec_at sol_mask i;
         if m \<noteq> 0 then add_relation b mont i st else Some st
       }) [0..<min (length sol_mask) (n_rels b)]
       \<lparr>total_exponents = replicate (length factor_base) 0, total_exp_minus_1 = 0, total_exp_2 = 0,
        Y_large_primes_mont = transform mont (uint512_u32 1)\<rparr>;
     Some (Y_product N factor_base mont st)
   }"

section \<open>Splitting N\<close>

definition SanityCheck :: "uint512 \<Rightarrow> uint512 \<Rightarrow> uint512 \<Rightarrow> bool" where
  "SanityCheck N X Y \<longleftrightarrow> eq512 (modpow32 X 2 N) (modpow32 Y 2 N)"

definition abs_diff :: "uint512 \<Rightarrow> uint512 \<Rightarrow> uint512" where
  "abs_diff X Y = (if less512 X Y then sub512 Y X else sub512 X Y)"

definition trivial_factor :: "uint512 \<Rightarrow> uint512 \<Rightarrow> bool" where
  "trivial_factor N f \<longleftrightarrow> is_one f \<or> eq512 f N"

definition factor_pair :: "uint512 \<Rightarrow> uint512 \<Rightarrow> uint512 \<Rightarrow> (uint512 \<times> uint512) option" where
  "factor_pair N X Y = do {
     factor1 \<leftarrow> gcd512 (abs_diff X Y) N;
     factor2 \<leftarrow> gcd512 (add_mod X Y N) N;
     Some (if \<not> trivial_factor N factor1 then (factor1, div512 N factor1)
           else if \<not> trivial_factor N factor2 then (factor2, div512 N factor2)
           else (uint512_u32 1, N))
   }"

definition correct_Y :: "montgomery \<Rightarrow> uint512 option \<Rightarrow> uint512 \<Rightarrow> uint512" where
  "correct_Y mont lp_correction Y =
     (case lp_correction of None \<Rightarrow> Y | Some c \<Rightarrow> mont_reduce mont (mont_mul mont (transform mont Y) c))"

definition Perform ::
    "uint512 \<Rightarrow> u64 list \<Rightarrow> batch \<Rightarrow> u32 list \<Rightarrow> uint512 option \<Rightarrow> (uint512 \<times> uint512) option" where
  "Perform N solution_bits b factor_base lp_correction = do {
     sol_mask \<leftarrow> unpack_bits_local solution_bits (n_rels b);
     let mont = Montgomery N;
     X \<leftarrow> ComputeX sol_mask b mont;
     Y \<leftarrow> ComputeY sol_mask b factor_base N mont;
     let Y = correct_Y mont lp_correction Y;
     if is_zero Y then Some (uint512_u32 0, uint512_u32 0)
     else if \<not> SanityCheck N X Y then Some (uint512_u32 0, uint512_u32 0)
     else factor_pair N X Y
   }"

section \<open>Loops over the selected relations\<close>

lemma ofold_filter:
  assumes "\<And>x s. x \<in> set xs \<Longrightarrow> f x s = (if P x then g x s else Some s)"
  shows "ofold f xs s = ofold g (filter P xs) s"
  using assms by (induction xs arbitrary: s) (auto split: option.split)

context residue_mult
begin

lemma fold_represents:
  "(\<And>x. x \<in> set xs \<Longrightarrow> represents (f x) (v x)) \<Longrightarrow> represents r u \<Longrightarrow>
   represents (fold (\<lambda>x r. mul r (f x)) xs r) (u * (\<Prod>x\<leftarrow>xs. v x))"
proof (induction xs arbitrary: r u)
  case (Cons x xs)
  then have "represents (fold (\<lambda>x r. mul r (f x)) xs (mul r (f x))) (u * v x * (\<Prod>x\<leftarrow>xs. v x))"
    by (intro Cons.IH mul_represents) simp_all
  then show ?case by (simp add: mult.assoc)
qed simp

lemma fold_represents_if:
  assumes "\<And>x. x \<in> set xs \<Longrightarrow> P x \<Longrightarrow> represents (f x) (v x)" and "represents r u"
  shows "represents (fold (\<lambda>x r. if P x then mul r (f x) else r) xs r) (u * (\<Prod>x\<leftarrow>xs. if P x then v x else 1))"
proof -
  have "fold (\<lambda>x r. if P x then mul r (f x) else r) xs r = fold (\<lambda>x r. mul r (f x)) (filter P xs) r" for r
    by (induction xs arbitrary: r) simp_all
  moreover have "(\<Prod>x\<leftarrow>xs. if P x then v x else 1) = (\<Prod>x\<leftarrow>filter P xs. v x)" by (induction xs) simp_all
  ultimately show ?thesis using fold_represents [of "filter P xs" f v r u] assms by simp
qed

end

text \<open>The relations a mask selects.\<close>

definition picked :: "u8 list \<Rightarrow> batch \<Rightarrow> nat list" where
  "picked sol_mask b = filter (\<lambda>i. sol_mask ! i \<noteq> 0) [0..<min (length sol_mask) (n_rels b)]"

lemma picked_bound: "i \<in> set (picked sol_mask b) \<Longrightarrow> i < n_rels b"
  by (simp add: picked_def)

lemma distinct_picked: "distinct (picked sol_mask b)"
  by (simp add: picked_def)

lemma unpack_bits_local_eq:
  assumes "n_bits \<le> 64 * length packed"
  shows "unpack_bits_local packed n_bits = Some (map (\<lambda>i. if bit_set packed i then 1 else 0) [0..<n_bits])"
proof -
  have b: "drop_bit (i mod 64) w AND 1 \<noteq> 0 \<longleftrightarrow> w AND push_bit (i mod 64) 1 \<noteq> 0" for i and w :: u64
    by (simp add: and_one_eq bit_iff_odd_drop_bit [symmetric] bit_iff_and_push_bit_not_eq_0 odd_iff_mod_2_eq_one [symmetric])
  have "ofold (\<lambda>i unpacked. do {
         w \<leftarrow> vec_at packed (i div 64);
         Some (unpacked @ [if drop_bit (i mod 64) w AND 1 \<noteq> 0 then 1 else 0])
       }) [0..<n] [] = Some (map (\<lambda>i. if bit_set packed i then 1 else 0) [0..<n])" if "n \<le> 64 * length packed" for n
    using that
  proof (induction n)
    case (Suc n)
    then have "n div 64 < length packed" by (simp add: less_mult_imp_div_less mult.commute)
    with Suc show ?case by (simp add: ofold_append b bit_set_def)
  qed simp
  with assms show ?thesis by (simp add: unpack_bits_local_def)
qed

lemma ComputeX_val:
  assumes "batch_ok b" and "mont_ok mont"
  shows "\<exists>X. ComputeX sol_mask b mont = Some X \<and> length X = 16
    \<and> lval X = (\<Prod>i\<leftarrow>picked sol_mask b. unat (sqrt_Q b ! i)) mod lval (mont_N mont)"
proof -
  let ?f = "\<lambda>i. transform mont (limbs (sqrt_Q b ! i))"
  have one: "mont_form mont (transform mont (uint512_u32 1)) 1"
    using transform_form [OF assms(2), of "uint512_u32 1"] by simp
  have "ofold (\<lambda>i X_mont. do {
         m \<leftarrow> vec_at sol_mask i;
         if m \<noteq> 0 then do {
           val \<leftarrow> vec_at (sqrt_Q b) i;
           Some (mont_mul mont X_mont (transform mont (limbs val)))
         } else Some X_mont
       }) [0..<min (length sol_mask) (n_rels b)] s
      = ofold (\<lambda>i X_mont. Some (mont_mul mont X_mont (?f i))) (picked sol_mask b) s" for s
    unfolding picked_def by (rule ofold_filter) (use assms(1) in \<open>auto simp: batch_ok_def\<close>)
  also have "\<dots> s = Some (fold (\<lambda>i X_mont. mont_mul mont X_mont (?f i)) (picked sol_mask b) s)" for s
    by (rule ofold_Some_fold) simp
  finally have run: "ComputeX sol_mask b mont
      = Some (mont_reduce mont (fold (\<lambda>i X_mont. mont_mul mont X_mont (?f i)) (picked sol_mask b) (transform mont (uint512_u32 1))))"
    by (simp add: ComputeX_def)
  have "mont_form mont (fold (\<lambda>i X_mont. mont_mul mont X_mont (?f i)) (picked sol_mask b) (transform mont (uint512_u32 1)))
      (1 * (\<Prod>i\<leftarrow>picked sol_mask b. unat (sqrt_Q b ! i)))"
    using transform_form [OF assms(2) lval_limbs(1)] by (intro mont.fold_represents one) (simp add: lval_limbs(2))
  from mont_reduce_val [OF this] run show ?thesis by simp
qed

section \<open>Exponents\<close>

lemma ucast_u8_of_nat: "(ucast (c :: u8) :: u64) = of_nat (unat c)"
  by simp

lemma add_exponents:
  "fold (\<lambda>(ix, c) es. if unat ix < length es then es[unat ix := es ! unat ix + ucast c] else es) fs es
     = map (\<lambda>p. es ! p + of_nat (\<Sum>(ix, c)\<leftarrow>fs. if unat ix = p then unat c else 0)) [0..<length es]"
  for fs :: "(u32 \<times> u8) list" and es :: "u64 list"
proof (induction fs arbitrary: es)
  case Nil
  then show ?case by (simp add: map_nth)
next
  case (Cons f fs)
  obtain ix c where f: "f = (ix, c)" by fastforce
  show ?case
  proof (cases "unat ix < length es")
    case True
    then show ?thesis
      using Cons [of "es[unat ix := es ! unat ix + ucast c]"]
      by (auto simp: f nth_list_update intro!: nth_equalityI)
  next
    case False
    then show ?thesis using Cons [of es] by (auto simp: f intro!: nth_equalityI)
  qed
qed

text \<open>What one relation adds.\<close>

definition y_add :: "montgomery \<Rightarrow> relation \<Rightarrow> y_state \<Rightarrow> y_state" where
  "y_add mont r st =
     \<lparr>total_exponents = map (\<lambda>p. total_exponents st ! p + of_nat (fb_exp r p)) [0..<length (total_exponents st)],
      total_exp_minus_1 = total_exp_minus_1 st + (if r_sign r \<noteq> 1 then 1 else 0),
      total_exp_2 = total_exp_2 st + scast (r_val_2_exp r),
      Y_large_primes_mont = (if r_large_prime r > 1
        then mont_mul mont (Y_large_primes_mont st) (transform mont (uint512_u128 (r_large_prime r)))
        else Y_large_primes_mont st)\<rparr>"

lemma add_exponent_fold:
  assumes "offsets_ok b" and "i < n_rels b"
  shows "ofold (add_exponent b) [unat (factor_offsets b ! i)..<unat (factor_offsets b ! (i + 1))] st
    = Some (st\<lparr>total_exponents := map (\<lambda>p. total_exponents st ! p + of_nat (fb_exp (rel_at b i) p)) [0..<length (total_exponents st)]\<rparr>)"
proof -
  let ?g = "\<lambda>(ix, c) st. st\<lparr>total_exponents := (if unat ix < length (total_exponents st)
      then (total_exponents st)[unat ix := total_exponents st ! unat ix + ucast (c :: u8)] else total_exponents st)\<rparr>"
  have "ofold (add_exponent b) [unat (factor_offsets b ! i)..<unat (factor_offsets b ! (i + 1))] st
      = Some (fold ?g (row b i) st)"
    by (rule ofold_row [OF assms]) (simp add: add_exponent_def Let_def)
  moreover have "fold ?g fs st = st\<lparr>total_exponents :=
      fold (\<lambda>(ix, c) es. if unat ix < length es then es[unat ix := es ! unat ix + ucast c] else es) fs (total_exponents st)\<rparr>"
    for fs :: "(u32 \<times> u8) list"
    by (induction fs arbitrary: st) auto
  ultimately show ?thesis by (simp add: add_exponents fb_exp_def rel_at_def)
qed

lemma add_relation_eq:
  assumes "batch_ok b" and "i < n_rels b"
  shows "add_relation b mont i st = Some (y_add mont (rel_at b i) st)"
proof -
  have off: "offsets_ok b" and len: "i < length (signs b)" "i < length (val_2_exps b)" "i < length (large_primes b)"
    using assms by (auto simp: batch_ok_def)
  have sel: "r_sign (rel_at b i) = signs b ! i" "r_val_2_exp (rel_at b i) = val_2_exps b ! i"
      "r_large_prime (rel_at b i) = large_primes b ! i"
    by (simp_all add: rel_at_def)
  show ?thesis
    using offsets_okD(1) [OF off assms(2)] len
    by (simp add: add_relation_def Let_def add_exponent_fold [OF off assms(2), simplified] y_add_def sel)
qed

text \<open>The sums over a list of relations, and the root they give.\<close>

definition neg_count :: "relation list \<Rightarrow> nat" where
  "neg_count rs = length (filter (\<lambda>r. r_sign r \<noteq> 1) rs)"

definition two_exp :: "relation list \<Rightarrow> nat" where
  "two_exp rs = (\<Sum>r\<leftarrow>rs. unat (r_val_2_exp r))"

definition prime_exp :: "relation list \<Rightarrow> nat \<Rightarrow> nat" where
  "prime_exp rs p = (\<Sum>r\<leftarrow>rs. fb_exp r p)"

definition lp_root :: "relation \<Rightarrow> nat" where
  "lp_root r = (if r_large_prime r > 1 then unat (r_large_prime r) else 1)"

definition root_value :: "nat \<Rightarrow> u32 list \<Rightarrow> relation list \<Rightarrow> nat" where
  "root_value N fb rs = (if odd (neg_count rs div 2) then N - 1 else 1) * 2 ^ (two_exp rs div 2)
     * (\<Prod>p\<leftarrow>[0..<length fb]. unat (fb ! p) ^ (prime_exp rs p div 2)) * (\<Prod>r\<leftarrow>rs. lp_root r)"

text \<open>The sums fit the 32 bits to which they are cut, and exponents of 2 are not negative.\<close>

definition exponents_fit :: "u32 list \<Rightarrow> relation list \<Rightarrow> bool" where
  "exponents_fit fb rs \<longleftrightarrow> two_exp rs < 2 ^ 32 \<and> (\<forall>p < length fb. prime_exp rs p < 2 ^ 32)
     \<and> (\<forall>r \<in> set rs. 0 \<le> sint (r_val_2_exp r))"

lemma fold_y_add:
  "fold (y_add mont) rs st =
     \<lparr>total_exponents = map (\<lambda>p. total_exponents st ! p + of_nat (prime_exp rs p)) [0..<length (total_exponents st)],
      total_exp_minus_1 = total_exp_minus_1 st + of_nat (neg_count rs),
      total_exp_2 = total_exp_2 st + (\<Sum>r\<leftarrow>rs. scast (r_val_2_exp r)),
      Y_large_primes_mont = fold (\<lambda>r y. if r_large_prime r > 1 then mont_mul mont y (transform mont (uint512_u128 (r_large_prime r))) else y)
        rs (Y_large_primes_mont st)\<rparr>"
proof (induction rs arbitrary: st)
  case Nil
  then show ?case by (simp add: prime_exp_def neg_count_def map_nth)
next
  case (Cons r rs)
  then show ?case by (simp add: y_add_def prime_exp_def neg_count_def add.assoc)
qed

lemma scast_nonneg: "0 \<le> sint v \<Longrightarrow> (scast (v :: u32) :: u64) = of_nat (unat v)"
proof -
  assume "0 \<le> sint v"
  then have "sint v = int (unat v)" using abs_word32 [of v] by simp
  then show ?thesis by (metis of_int_of_nat_eq of_int_sint)
qed

lemma sum_scast: "\<forall>r \<in> set rs. 0 \<le> sint (r_val_2_exp r) \<Longrightarrow> (\<Sum>r\<leftarrow>rs. (scast (r_val_2_exp r) :: u64)) = of_nat (two_exp rs)"
  by (induction rs) (simp_all add: two_exp_def scast_nonneg)

lemma uint512_u128_val: "length (uint512_u128 w) = 16" "lval (uint512_u128 w) = unat w"
proof -
  show "length (uint512_u128 w) = 16" by (simp add: uint512_u128_def)
  have d: "unat (drop_bit k w) = unat w div 2 ^ k" for k using unat_drop_bit_eq [of k w] by (simp only: drop_bit_eq_div)
  have z: "lval (replicate n 0) = 0" for n by (induction n) simp_all
  have w: "unat w < base ^ 4" using unsigned_less [of w] by (simp add: base_def)
  have "unat w = unat w mod base + base * (unat w div base mod base + base * (unat w div base ^ 2 mod base + base * (unat w div base ^ 3)))"
    using div_mod_decomp [of "unat w" base] by (simp add: power2_eq_square power3_eq_cube div_mult2_eq)
  moreover have "unat w div base ^ 3 < base" using w by (intro less_mult_imp_div_less) (simp add: power3_eq_cube eval_nat_numeral)
  ultimately show "lval (uint512_u128 w) = unat w"
    unfolding uint512_u128_def by (simp add: unat_low32 d z) (simp add: base_def)
qed

lemma mod_cancel_nat: "(a + c) mod N = (b + c) mod N \<Longrightarrow> a mod N = b mod N" for a b c N :: nat
proof -
  assume "(a + c) mod N = (b + c) mod N"
  then have "int N dvd int (a + c) - int (b + c)" using mod_eq_dvd_iff [of "int (a + c)" "int N" "int (b + c)"] by (metis of_nat_mod)
  then have "int a mod int N = int b mod int N" by (simp add: mod_eq_dvd_iff)
  then show "a mod N = b mod N" by (simp only: of_nat_mod [symmetric] of_nat_eq_iff)
qed

lemma negate_form:
  assumes "mont_form mont x v"
  shows "mont_form mont (negate_mod_inplace x (mont_N mont)) (v * (lval (mont_N mont) - 1))"
proof -
  let ?N = "lval (mont_N mont)"
  have ok: "mont_ok mont" "length x = 16" "length (mont_N mont) = 16" "1 < ?N" and x: "lval x = v * 2 ^ 512 mod ?N"
    using assms by (simp_all add: mont_form_def mont_ok_def)
  have "(v * (?N - 1) * 2 ^ 512 + v * 2 ^ 512) mod ?N = 0"
  proof -
    have "v * (?N - 1) * 2 ^ 512 + v * 2 ^ 512 = v * 2 ^ 512 * (?N - 1 + 1)" by (simp add: algebra_simps)
    then show ?thesis using ok(4) by simp
  qed
  moreover have "((?N - lval x) mod ?N + lval x) mod ?N = 0"
    using ok(4) x mod_less_divisor [of ?N "v * 2 ^ 512"] by (simp add: mod_add_left_eq)
  ultimately have "((?N - lval x) mod ?N + v * 2 ^ 512) mod ?N = (v * (?N - 1) * 2 ^ 512 + v * 2 ^ 512) mod ?N"
    unfolding x by (simp add: mod_add_right_eq)
  then have "(?N - lval x) mod ?N mod ?N = (v * (?N - 1) * 2 ^ 512) mod ?N" by (rule mod_cancel_nat)
  then show ?thesis
    using negate_mod_val [OF ok(2,3)] ok x mod_less_divisor [of ?N "v * 2 ^ 512"] by (simp add: mont_form_def)
qed

lemma times_power_form:
  assumes "mont_form mont Y v" and "unat t < 2 ^ 32"
  shows "mont_form mont (times_power mont p t Y) (v * unat p ^ (unat t div 2))"
proof -
  have ok: "mont_ok mont" using assms(1) by (simp add: mont_form_def)
  have "unat (ucast t :: u32) = unat t" using assms(2) by (simp add: unat_low32 base_def)
  then have e: "lval (half_exp t) = unat t div 2" "length (half_exp t) = 16"
    by (simp_all add: half_exp_def unat_div)
  have "mont_form mont (transform mont (uint512_u32 p)) (unat p)"
    using transform_form [OF ok, of "uint512_u32 p"] by simp
  from mont_pow_form [OF this e(2)] show ?thesis
    unfolding times_power_def e(1) by (rule mont.mul_represents [OF assms(1)])
qed

lemma Y_product_val:
  assumes ok: "mont_ok mont" and fit: "exponents_fit fb rs" and len: "length rs < 2 ^ 64"
  defines "st \<equiv> fold (y_add mont) rs \<lparr>total_exponents = replicate (length fb) 0, total_exp_minus_1 = 0, total_exp_2 = 0,
        Y_large_primes_mont = transform mont (uint512_u32 1)\<rparr>"
  shows "length (Y_product (mont_N mont) fb mont st) = 16
    \<and> lval (Y_product (mont_N mont) fb mont st) = root_value (lval (mont_N mont)) fb rs mod lval (mont_N mont)"
proof -
  let ?N = "lval (mont_N mont)"
  have one: "mont_form mont (transform mont (uint512_u32 1)) 1"
    using transform_form [OF ok, of "uint512_u32 1"] by simp
  define Y1 where "Y1 = (if (total_exp_minus_1 st div 2) AND 1 \<noteq> 0 then negate_mod_inplace (transform mont (uint512_u32 1)) (mont_N mont)
    else transform mont (uint512_u32 1))"
  define Y2 where "Y2 = (if total_exp_2 st > 0 then times_power mont 2 (total_exp_2 st) Y1 else Y1)"
  define Y3 where "Y3 = fold (\<lambda>(p, t) Y_mont. if t = 0 then Y_mont else times_power mont p t Y_mont) (zip fb (total_exponents st)) Y2"
  have neg: "neg_count rs < 2 ^ 64" using len by (simp add: neg_count_def le_less_trans [OF length_filter_le])
  have f1: "mont_form mont Y1 (if odd (neg_count rs div 2) then ?N - 1 else 1)"
  proof -
    have "total_exp_minus_1 st = of_nat (neg_count rs)" by (simp add: st_def fold_y_add)
    then have "(total_exp_minus_1 st div 2) AND 1 \<noteq> 0 \<longleftrightarrow> odd (neg_count rs div 2)"
      using neg by (simp add: and_1_odd_word odd_unat [symmetric] unat_div unat_of_nat take_bit_nat_eq_self)
    then show ?thesis using negate_form [OF one] one by (simp add: Y1_def)
  qed
  have f2: "mont_form mont Y2 ((if odd (neg_count rs div 2) then ?N - 1 else 1) * 2 ^ (two_exp rs div 2))"
  proof -
    have t: "total_exp_2 st = of_nat (two_exp rs)" using fit by (simp add: st_def fold_y_add sum_scast exponents_fit_def)
    have u: "unat (total_exp_2 st) = two_exp rs" using fit by (simp add: t exponents_fit_def unat_of_nat take_bit_nat_eq_self)
    have "total_exp_2 st > 0 \<longleftrightarrow> two_exp rs \<noteq> 0" by (simp add: word_less_nat_alt u)
    then show ?thesis using times_power_form [OF f1, of "total_exp_2 st" 2] f1 fit by (simp add: Y2_def u exponents_fit_def)
  qed
  have f3: "mont_form mont Y3 ((if odd (neg_count rs div 2) then ?N - 1 else 1) * 2 ^ (two_exp rs div 2)
     * (\<Prod>p\<leftarrow>[0..<length fb]. unat (fb ! p) ^ (prime_exp rs p div 2)))"
  proof -
    define w where "w p = (of_nat (prime_exp rs p) :: u64)" for p
    have u: "unat (w p) = prime_exp rs p" if "p < length fb" for p
    proof -
      have "prime_exp rs p < 2 ^ 32" using fit that by (simp add: exponents_fit_def)
      then show ?thesis by (simp add: w_def unat_of_nat take_bit_nat_eq_self)
    qed
    have z: "w p = 0 \<longleftrightarrow> prime_exp rs p = 0" if "p < length fb" for p
      using u [OF that] by (simp add: unat_eq_zero [symmetric] del: unat_eq_zero)
    let ?g = "\<lambda>p. mont_pow mont (transform mont (uint512_u32 (fb ! p))) (half_exp (w p))"
    have "zip fb (total_exponents st) = map (\<lambda>p. (fb ! p, w p)) [0..<length fb]"
      by (rule nth_equalityI) (simp_all add: st_def fold_y_add w_def)
    then have Y3: "Y3 = fold (\<lambda>p Y. if w p \<noteq> 0 then mont_mul mont Y (?g p) else Y) [0..<length fb] Y2"
      by (simp add: Y3_def fold_map comp_def times_power_def if_distrib cong: if_cong) (metis (no_types, lifting))
    have g: "mont_form mont (?g p) (unat (fb ! p) ^ (prime_exp rs p div 2))" if "p \<in> set [0..<length fb]" for p
    proof -
      have p: "p < length fb" using that by simp
      have e: "lval (half_exp (w p)) = prime_exp rs p div 2" "length (half_exp (w p)) = 16"
        using u [OF p] fit p by (simp_all add: half_exp_def unat_div unat_low32 base_def exponents_fit_def)
      show ?thesis
        using mont_pow_form [OF transform_form [OF ok, of "uint512_u32 (fb ! p)"] e(2)] by (simp add: e(1))
    qed
    have prods: "(\<Prod>p\<leftarrow>[0..<length fb]. if w p \<noteq> 0 then unat (fb ! p) ^ (prime_exp rs p div 2) else 1)
        = (\<Prod>p\<leftarrow>[0..<length fb]. unat (fb ! p) ^ (prime_exp rs p div 2))"
      by (rule arg_cong [where f = prod_list]) (simp add: z)
    have "mont_form mont (fold (\<lambda>p Y. if w p \<noteq> 0 then mont_mul mont Y (?g p) else Y) [0..<length fb] Y2)
        ((if odd (neg_count rs div 2) then ?N - 1 else 1) * 2 ^ (two_exp rs div 2)
          * (\<Prod>p\<leftarrow>[0..<length fb]. if w p \<noteq> 0 then unat (fb ! p) ^ (prime_exp rs p div 2) else 1))"
      by (rule mont.fold_represents_if [OF _ f2]) (rule g)
    then show ?thesis unfolding Y3 prods .
  qed
  have lp: "mont_form mont (Y_large_primes_mont st) (\<Prod>r\<leftarrow>rs. lp_root r)"
  proof -
    have "mont_form mont (transform mont (uint512_u128 (r_large_prime r))) (unat (r_large_prime r))" for r
      using transform_form [OF ok uint512_u128_val(1)] by (simp add: uint512_u128_val(2))
    from mont.fold_represents_if [where xs = rs and P = "\<lambda>r. r_large_prime r > 1", OF this one]
    show ?thesis by (simp add: st_def fold_y_add lp_root_def [abs_def])
  qed
  have "Y_product (mont_N mont) fb mont st = mont_reduce mont (mont_mul mont Y3 (Y_large_primes_mont st))"
    by (simp add: Y_product_def Let_def Y1_def Y2_def Y3_def)
  with mont_reduce_val [OF mont.mul_represents [OF f3 lp]] show ?thesis by (simp add: root_value_def)
qed

lemma ComputeY_val:
  assumes "batch_ok b" and "mont_ok mont" and "exponents_fit fb (map (rel_at b) (picked sol_mask b))"
  shows "\<exists>Y. ComputeY sol_mask b fb (mont_N mont) mont = Some Y \<and> length Y = 16
    \<and> lval Y = root_value (lval (mont_N mont)) fb (map (rel_at b) (picked sol_mask b)) mod lval (mont_N mont)"
proof -
  let ?rs = "map (rel_at b) (picked sol_mask b)"
  have "ofold (\<lambda>i st. do {
         m \<leftarrow> vec_at sol_mask i;
         if m \<noteq> 0 then add_relation b mont i st else Some st
       }) [0..<min (length sol_mask) (n_rels b)] s = ofold (add_relation b mont) (picked sol_mask b) s" for s
    unfolding picked_def by (rule ofold_filter) simp
  also have "\<dots> s = Some (fold (\<lambda>i. y_add mont (rel_at b i)) (picked sol_mask b) s)" for s
    by (rule ofold_Some_fold) (rule add_relation_eq [OF assms(1) picked_bound])
  finally have "ComputeY sol_mask b fb (mont_N mont) mont
      = Some (Y_product (mont_N mont) fb mont (fold (y_add mont) ?rs \<lparr>total_exponents = replicate (length fb) 0,
          total_exp_minus_1 = 0, total_exp_2 = 0, Y_large_primes_mont = transform mont (uint512_u32 1)\<rparr>))"
    by (simp add: ComputeY_def fold_map comp_def)
  moreover have "length ?rs < 2 ^ 64"
  proof -
    have "length ?rs \<le> n_rels b" by (simp add: picked_def le_trans [OF length_filter_le])
    also have "\<dots> < 2 ^ 64" using unat_lt64 by simp
    finally show ?thesis .
  qed
  ultimately show ?thesis using Y_product_val [OF assms(2,3)] by simp
qed

section \<open>Congruence of squares\<close>

definition fb_val :: "u32 list \<Rightarrow> u32 \<Rightarrow> int" where
  "fb_val fb ix = int (unat (fb ! unat ix))"

text \<open>A relation over the factor base whose right-hand side has the additional factor \<open>L\<close>.\<close>

definition rel_congruent :: "nat \<Rightarrow> u32 list \<Rightarrow> relation \<Rightarrow> int \<Rightarrow> bool" where
  "rel_congruent N fb r L \<longleftrightarrow> (\<forall>ix \<in> fst ` set (r_factors r). unat ix < length fb) \<and> congruent_square N (fb_val fb) r L"

definition square_exponents :: "u32 list \<Rightarrow> relation list \<Rightarrow> bool" where
  "square_exponents fb rs \<longleftrightarrow> even (neg_count rs) \<and> even (two_exp rs) \<and> (\<forall>p < length fb. even (prime_exp rs p))"

lemma smooth_part_val:
  assumes "\<forall>ix \<in> fst ` set (r_factors r). unat ix < length fb" and "0 \<le> sint (r_val_2_exp r)"
  shows "smooth_part (fb_val fb) r
    = (if r_sign r \<noteq> 1 then - 1 else 1) * 2 ^ unat (r_val_2_exp r) * (\<Prod>p < length fb. int (unat (fb ! p)) ^ fb_exp r p)"
proof -
  have "int (unat (r_val_2_exp r)) = sint (r_val_2_exp r)" using assms(2) abs_word32 [of "r_val_2_exp r"] by (simp del: of_nat_unat)
  then have "nat (sint (r_val_2_exp r)) = unat (r_val_2_exp r)" by (metis nat_int)
  moreover have "factor_product (fb_val fb) (r_factors r) = (\<Prod>p < length fb. int (unat (fb ! p)) ^ fb_exp r p)"
    using prod_factors [OF assms(1), of "\<lambda>p. int (unat (fb ! p))"] by (simp add: factor_product_def fb_val_def fb_exp_def)
  ultimately show ?thesis by (simp add: smooth_part_def)
qed

lemma smooth_parts_val:
  assumes "\<And>r. r \<in> set rs \<Longrightarrow> (\<forall>ix \<in> fst ` set (r_factors r). unat ix < length fb) \<and> 0 \<le> sint (r_val_2_exp r)"
  shows "(\<Prod>r\<leftarrow>rs. smooth_part (fb_val fb) r)
    = (- 1) ^ neg_count rs * 2 ^ two_exp rs * (\<Prod>p < length fb. int (unat (fb ! p)) ^ prime_exp rs p)"
  using assms
proof (induction rs)
  case (Cons r rs)
  have "(\<Prod>r\<leftarrow>r # rs. smooth_part (fb_val fb) r)
      = ((if r_sign r \<noteq> 1 then - 1 else 1) * 2 ^ unat (r_val_2_exp r) * (\<Prod>p < length fb. int (unat (fb ! p)) ^ fb_exp r p))
        * ((- 1) ^ neg_count rs * 2 ^ two_exp rs * (\<Prod>p < length fb. int (unat (fb ! p)) ^ prime_exp rs p))"
  proof -
    have "(\<Prod>r\<leftarrow>rs. smooth_part (fb_val fb) r)
        = (- 1) ^ neg_count rs * 2 ^ two_exp rs * (\<Prod>p < length fb. int (unat (fb ! p)) ^ prime_exp rs p)"
      by (rule Cons.IH) (use Cons.prems in auto)
    moreover have "smooth_part (fb_val fb) r
        = (if r_sign r \<noteq> 1 then - 1 else 1) * 2 ^ unat (r_val_2_exp r) * (\<Prod>p < length fb. int (unat (fb ! p)) ^ fb_exp r p)"
      by (rule smooth_part_val) (use Cons.prems [of r] in auto)
    ultimately show ?thesis by (simp only: list.map prod_list.Cons)
  qed
  then show ?case
    by (simp add: neg_count_def two_exp_def prime_exp_def power_add prod.distrib del: of_nat_unat)
qed (simp add: neg_count_def two_exp_def prime_exp_def)

text \<open>The root without the large primes: its square is the product of the smooth parts.\<close>

definition smooth_root :: "nat \<Rightarrow> u32 list \<Rightarrow> relation list \<Rightarrow> nat" where
  "smooth_root N fb rs = (if odd (neg_count rs div 2) then N - 1 else 1) * 2 ^ (two_exp rs div 2)
     * (\<Prod>p\<leftarrow>[0..<length fb]. unat (fb ! p) ^ (prime_exp rs p div 2))"

lemma root_value_smooth: "root_value N fb rs = smooth_root N fb rs * (\<Prod>r\<leftarrow>rs. lp_root r)"
  by (simp add: root_value_def smooth_root_def)

lemma smooth_root_square:
  assumes "square_exponents fb rs" and "0 < N"
    and "\<And>r. r \<in> set rs \<Longrightarrow> (\<forall>ix \<in> fst ` set (r_factors r). unat ix < length fb) \<and> 0 \<le> sint (r_val_2_exp r)"
  shows "(int (smooth_root N fb rs))\<^sup>2 mod int N = (\<Prod>r\<leftarrow>rs. smooth_part (fb_val fb) r) mod int N"
proof -
  let ?s = "int (if odd (neg_count rs div 2) then N - 1 else 1)"
  let ?P = "\<Prod>p < length fb. int (unat (fb ! p)) ^ (prime_exp rs p div 2)"
  have sq: "(x ^ (k div 2))\<^sup>2 = x ^ k" if "even k" for x :: int and k
    using that by (metis dvd_mult_div_cancel mult.commute power_mult)
  have s: "?s\<^sup>2 mod int N = 1 mod int N"
  proof (cases "odd (neg_count rs div 2)")
    case True
    have "(int N - 1)\<^sup>2 = 1 + int N * (int N - 2)" by (simp add: power2_eq_square algebra_simps)
    then have "(int N - 1)\<^sup>2 mod int N = 1 mod int N" by (metis mod_mult_self2)
    then show ?thesis using True assms(2) by (simp add: of_nat_diff)
  qed simp
  have P: "?P\<^sup>2 = (\<Prod>p < length fb. int (unat (fb ! p)) ^ prime_exp rs p)"
    unfolding prod_power_distrib using assms(1) by (intro prod.cong) (simp_all add: sq square_exponents_def)
  have T: "(2 ^ (two_exp rs div 2))\<^sup>2 = (2 :: int) ^ two_exp rs" using assms(1) by (intro sq) (simp add: square_exponents_def)
  have "(\<Prod>p\<leftarrow>[0..<length fb]. unat (fb ! p) ^ (prime_exp rs p div 2)) = (\<Prod>p < length fb. unat (fb ! p) ^ (prime_exp rs p div 2))"
    by (simp add: prod.distinct_set_conv_list [symmetric] atLeast0LessThan)
  then have "int (smooth_root N fb rs) = ?s * (2 ^ (two_exp rs div 2) * ?P)" by (simp add: smooth_root_def del: of_nat_unat)
  then have "(int (smooth_root N fb rs))\<^sup>2 mod int N
      = (?s\<^sup>2 * (2 ^ two_exp rs * (\<Prod>p < length fb. int (unat (fb ! p)) ^ prime_exp rs p))) mod int N"
    by (simp only: power_mult_distrib P T)
  also have "\<dots> = (1 * (2 ^ two_exp rs * (\<Prod>p < length fb. int (unat (fb ! p)) ^ prime_exp rs p))) mod int N"
    by (rule mod_mult_cong [OF s refl])
  finally have "(int (smooth_root N fb rs))\<^sup>2 mod int N
      = (1 * (2 ^ two_exp rs * (\<Prod>p < length fb. int (unat (fb ! p)) ^ prime_exp rs p))) mod int N" .
  moreover have "(- 1 :: int) ^ neg_count rs = 1" using assms(1) by (simp add: square_exponents_def)
  ultimately show ?thesis by (simp add: smooth_parts_val [OF assms(3)])
qed

lemma prod_congruent:
  assumes "\<And>i. i \<in> set ixs \<Longrightarrow> congruent_square N fbv (rl i) (L i)"
  shows "(\<Prod>i\<leftarrow>ixs. int (unat (r_sqrt_Q (rl i))))\<^sup>2 mod int N = ((\<Prod>i\<leftarrow>ixs. smooth_part fbv (rl i)) * (\<Prod>i\<leftarrow>ixs. L i)) mod int N"
  using assms
proof (induction ixs)
  case (Cons i ixs)
  let ?s = "int (unat (r_sqrt_Q (rl i)))"
  have "(?s * ?s * (\<Prod>i\<leftarrow>ixs. int (unat (r_sqrt_Q (rl i))))\<^sup>2) mod int N
      = ((smooth_part fbv (rl i) * L i) * ((\<Prod>i\<leftarrow>ixs. smooth_part fbv (rl i)) * (\<Prod>i\<leftarrow>ixs. L i))) mod int N"
    by (rule mod_mult_cong) (use Cons in \<open>simp_all add: congruent_square_def\<close>)
  then show ?case by (simp add: power_mult_distrib power2_eq_square ac_simps)
qed simp

lemma int_prod_list: "int (\<Prod>x\<leftarrow>xs. f x) = (\<Prod>x\<leftarrow>xs. int (f x))"
  by (induction xs) simp_all

text \<open>The list of selected relations: if its exponents are even and the correction \<open>C\<close> is a root of the
  additional factors, then both products have the same square.\<close>

lemma squares_congruent:
  fixes rl :: "nat \<Rightarrow> relation" and ixs :: "nat list"
  defines "rs \<equiv> map rl ixs"
  assumes "0 < N" and "square_exponents fb rs" and "\<And>i. i \<in> set ixs \<Longrightarrow> rel_congruent N fb (rl i) (L i) \<and> 0 \<le> sint (r_val_2_exp (rl i))"
    and "(int (C * (\<Prod>r\<leftarrow>rs. lp_root r)))\<^sup>2 mod int N = (\<Prod>i\<leftarrow>ixs. L i) mod int N"
  shows "(\<Prod>i\<leftarrow>ixs. unat (r_sqrt_Q (rl i)))\<^sup>2 mod N = (root_value N fb rs * C)\<^sup>2 mod N"
proof -
  have "(\<Prod>i\<leftarrow>ixs. int (unat (r_sqrt_Q (rl i))))\<^sup>2 mod int N
      = ((\<Prod>i\<leftarrow>ixs. smooth_part (fb_val fb) (rl i)) * (\<Prod>i\<leftarrow>ixs. L i)) mod int N"
    using assms(4) by (intro prod_congruent) (auto simp: rel_congruent_def)
  also have "\<dots> = ((\<Prod>r\<leftarrow>rs. smooth_part (fb_val fb) r) * (\<Prod>i\<leftarrow>ixs. L i)) mod int N"
    by (simp add: rs_def comp_def)
  also have "\<dots> = ((int (smooth_root N fb rs))\<^sup>2 * (int (C * (\<Prod>r\<leftarrow>rs. lp_root r)))\<^sup>2) mod int N"
  proof (intro mod_mult_cong)
    have "(int (smooth_root N fb rs))\<^sup>2 mod int N = (\<Prod>r\<leftarrow>rs. smooth_part (fb_val fb) r) mod int N"
      by (rule smooth_root_square [OF assms(3,2)]) (use assms(4) in \<open>auto simp: rel_congruent_def rs_def\<close>)
    then show "(\<Prod>r\<leftarrow>rs. smooth_part (fb_val fb) r) mod int N = (int (smooth_root N fb rs))\<^sup>2 mod int N" ..
  qed (rule assms(5) [symmetric])
  also have "\<dots> = int ((root_value N fb rs * C)\<^sup>2) mod int N"
    by (simp add: root_value_smooth power_mult_distrib ac_simps)
  finally have "int ((\<Prod>i\<leftarrow>ixs. unat (r_sqrt_Q (rl i)))\<^sup>2) mod int N = int ((root_value N fb rs * C)\<^sup>2) mod int N"
    by (simp only: int_prod_list of_nat_power)
  then show ?thesis by (simp only: of_nat_mod [symmetric] of_nat_eq_iff)
qed

section \<open>Splitting N from two roots\<close>

lemma eq512_val: "length x = 16 \<Longrightarrow> length y = 16 \<Longrightarrow> eq512 x y \<longleftrightarrow> lval x = lval y"
proof -
  assume len: "length x = 16" "length y = 16"
  have "eq512 x y \<longleftrightarrow> x = y" using len by (auto simp: eq512_def list_all_iff intro!: nth_equalityI)
  then show ?thesis using lval_inj [of x y] len by simp
qed

lemma abs_diff_val:
  assumes "length X = 16" and "length Y = 16"
  shows "length (abs_diff X Y) = 16" and "lval (abs_diff X Y) = (if lval X < lval Y then lval Y - lval X else lval X - lval Y)"
  using sub512_exact [OF assms, of 0 "lval X - lval Y"] sub512_exact [OF assms(2,1), of 0 "lval Y - lval X"]
    sub512_val(1) [OF assms] sub512_val(1) [OF assms(2,1)] limb_bound512 [OF assms(1)] limb_bound512 [OF assms(2)] assms
  by (auto simp: abs_diff_def less512_val)

lemma trivial_factor_val: "length f = 16 \<Longrightarrow> length N = 16 \<Longrightarrow> trivial_factor N f \<longleftrightarrow> lval f = 1 \<or> lval f = lval N"
  using is_one_val [of f] by (cases f) (auto simp: trivial_factor_def eq512_val)

text \<open>A pair of factors, proper when a congruence of squares is not trivial.\<close>

definition splits :: "uint512 \<Rightarrow> uint512 \<times> uint512 \<Rightarrow> bool" where
  "splits N ff \<longleftrightarrow> length (fst ff) = 16 \<and> length (snd ff) = 16 \<and> lval (fst ff) * lval (snd ff) = lval N
     \<and> (lval (fst ff) = 1 \<or> 1 < lval (fst ff) \<and> lval (fst ff) < lval N)"

lemma nontrivial_divisor:
  assumes "length f = 16" "length N = 16" "1 < lval N" and "lval f dvd lval N" and "\<not> trivial_factor N f"
  shows "splits N (f, div512 N f)" and "1 < lval f" and "lval f < lval N"
proof -
  have f: "lval f \<noteq> 0" "lval f \<noteq> 1" "lval f \<noteq> lval N" using assms trivial_factor_val [OF assms(1,2)] by auto
  have "lval f \<le> lval N" using assms(3,4) by (simp add: dvd_imp_le)
  then show lt: "1 < lval f" "lval f < lval N" using f by simp_all
  show "splits N (f, div512 N f)" using div512_val(1) [OF assms(2,1) f(1)] assms lt by (simp add: splits_def)
qed

lemma gcd_square_roots:
  fixes x y N :: nat
  assumes sq: "x\<^sup>2 mod N = y\<^sup>2 mod N" and ne: "x mod N \<noteq> y mod N" "(x + y) mod N \<noteq> 0" and "x < N" "y < N"
  shows "gcd (if x < y then y - x else x - y) N \<noteq> 1" and "gcd (if x < y then y - x else x - y) N \<noteq> N"
proof -
  let ?d = "if x < y then y - x else x - y"
  have "int N dvd (int x)\<^sup>2 - (int y)\<^sup>2"
    using arg_cong [OF sq, of int] by (simp add: of_nat_mod mod_eq_dvd_iff)
  moreover have "(int x)\<^sup>2 - (int y)\<^sup>2 = (int x - int y) * int (x + y)" by (simp add: power2_eq_square algebra_simps)
  ultimately have dv: "int N dvd (int x - int y) * int (x + y)" by simp
  have "int N dvd int ?d * int (x + y)"
  proof (cases "x < y")
    case True
    then have "int ?d * int (x + y) = - ((int x - int y) * int (x + y))" by (simp add: of_nat_diff algebra_simps)
    then show ?thesis using dv by (simp only: dvd_minus_iff)
  next
    case False
    then show ?thesis using dv by (simp add: of_nat_diff)
  qed
  then have dv: "N dvd ?d * (x + y)" by (simp only: of_nat_mult [symmetric] of_nat_dvd_iff)
  show "gcd ?d N \<noteq> 1"
  proof
    assume "gcd ?d N = 1"
    then have "coprime N ?d" by (simp add: coprime_iff_gcd_eq_1 gcd.commute)
    then have "N dvd x + y" using dv by (simp add: coprime_dvd_mult_right_iff)
    then show False using ne(2) by simp
  qed
  have "?d < N" "?d \<noteq> 0" using assms(4,5) ne(1) by auto
  then show "gcd ?d N \<noteq> N" by (metis dvd_imp_le gcd_dvd1 leD neq0_conv)
qed

lemma factor_pair_val:
  assumes "length N = 16" "1 < lval N" "length X = 16" "length Y = 16" "lval X < lval N" "lval Y < lval N"
  shows "\<exists>ff. factor_pair N X Y = Some ff \<and> splits N ff
    \<and> ((lval X)\<^sup>2 mod lval N = (lval Y)\<^sup>2 mod lval N \<and> lval X \<noteq> lval Y \<and> (lval X + lval Y) mod lval N \<noteq> 0
        \<longrightarrow> 1 < lval (fst ff) \<and> lval (fst ff) < lval N)"
proof -
  note d = abs_diff_val [OF assms(3,4)]
  have s: "length (add_mod X Y N) = 16" "lval (add_mod X Y N) = (lval X + lval Y) mod lval N"
    using add_mod_val [OF assms(3,4,1,5,6)] by simp_all
  obtain f1 where f1: "gcd512 (abs_diff X Y) N = Some f1" "length f1 = 16" "lval f1 = gcd (lval (abs_diff X Y)) (lval N)"
    using gcd512_val [OF d(1) assms(1)] by blast
  obtain f2 where f2: "gcd512 (add_mod X Y N) N = Some f2" "length f2 = 16" "lval f2 = gcd (lval (add_mod X Y N)) (lval N)"
    using gcd512_val [OF s(1) assms(1)] by blast
  have dv: "lval f1 dvd lval N" "lval f2 dvd lval N" by (simp_all add: f1(3) f2(3))
  have one: "splits N (uint512_u32 1, N)" using assms(1) by (simp add: splits_def)
  show ?thesis
  proof (cases "trivial_factor N f1")
    case False
    then show ?thesis
      using nontrivial_divisor [OF f1(2) assms(1,2) dv(1)] f1(1) f2(1) by (simp add: factor_pair_def)
  next
    case True
    have triv: "\<not> ((lval X)\<^sup>2 mod lval N = (lval Y)\<^sup>2 mod lval N \<and> lval X \<noteq> lval Y \<and> (lval X + lval Y) mod lval N \<noteq> 0)"
      using gcd_square_roots [of "lval X" "lval N" "lval Y"] True assms(5,6)
      by (auto simp: trivial_factor_val [OF f1(2) assms(1)] f1(3) d(2))
    show ?thesis
    proof (cases "trivial_factor N f2")
      case False
      then show ?thesis
        using nontrivial_divisor [OF f2(2) assms(1,2) dv(2)] f1(1) f2(1) True by (simp add: factor_pair_def)
    next
      case True': True
      then have "factor_pair N X Y = Some (uint512_u32 1, N)" using True f1(1) f2(1) by (simp add: factor_pair_def)
      then show ?thesis using triv one by simp
    qed
  qed
qed

lemma SanityCheck_val:
  assumes "length N = 16" "1 < lval N" "length X = 16" "length Y = 16"
  shows "SanityCheck N X Y \<longleftrightarrow> (lval X)\<^sup>2 mod lval N = (lval Y)\<^sup>2 mod lval N"
  using modpow_val(2) [OF assms(3,1,2), of 2] modpow_val(2) [OF assms(4,1,2), of 2]
  by (simp add: SanityCheck_def eq512_val)

section \<open>One solution\<close>

text \<open>The relations a packed solution selects, and what a correction stands for.\<close>

definition chosen :: "u64 list \<Rightarrow> batch \<Rightarrow> nat list" where
  "chosen bits b = filter (bit_set bits) [0..<n_rels b]"

definition corrects :: "montgomery \<Rightarrow> uint512 option \<Rightarrow> nat \<Rightarrow> bool" where
  "corrects mont lpc C \<longleftrightarrow> (case lpc of None \<Rightarrow> C = 1 | Some c \<Rightarrow> mont_form mont c C)"

lemma picked_unpacked:
  "picked (map (\<lambda>i. if bit_set bits i then 1 else 0) [0..<n_rels b]) b = chosen bits b"
  unfolding picked_def chosen_def by (rule filter_cong) auto

lemma correct_Y_val:
  assumes "mont_ok mont" "length Y = 16" "corrects mont lpc C" and "lval Y < lval (mont_N mont)"
  shows "length (correct_Y mont lpc Y) = 16" and "lval (correct_Y mont lpc Y) = (lval Y * C) mod lval (mont_N mont)"
proof -
  have "mont_form mont (transform mont Y) (lval Y)" by (rule transform_form [OF assms(1,2)])
  then show "length (correct_Y mont lpc Y) = 16" "lval (correct_Y mont lpc Y) = (lval Y * C) mod lval (mont_N mont)"
    using mont_reduce_val [OF mont.mul_represents] assms
    by (auto simp: correct_Y_def corrects_def split: option.splits)
qed

lemma Perform_val:
  assumes b: "batch_ok b" "n_rels b \<le> 64 * length bits" and N: "length N = 16" "odd (lval N)" "1 < lval N"
    and fit: "exponents_fit fb (map (rel_at b) (chosen bits b))" and corr: "corrects (Montgomery N) lpc C"
  defines "X \<equiv> (\<Prod>i\<leftarrow>chosen bits b. unat (sqrt_Q b ! i)) mod lval N"
    and "Y \<equiv> (root_value (lval N) fb (map (rel_at b) (chosen bits b)) * C) mod lval N"
  shows "\<exists>ff. Perform N bits b fb lpc = Some ff
    \<and> (if Y = 0 \<or> X\<^sup>2 mod lval N \<noteq> Y\<^sup>2 mod lval N then ff = (uint512_u32 0, uint512_u32 0)
       else splits N ff \<and> (X \<noteq> Y \<and> (X + Y) mod lval N \<noteq> 0 \<longrightarrow> 1 < lval (fst ff) \<and> lval (fst ff) < lval N))"
proof -
  let ?mont = "Montgomery N" and ?m = "map (\<lambda>i. if bit_set bits i then 1 else 0) [0..<n_rels b]"
  have ok: "mont_ok ?mont" by (rule Montgomery_ok [OF N])
  have n: "mont_N ?mont = N" by (simp add: Montgomery_def Let_def)
  obtain Xw where Xw: "ComputeX ?m b ?mont = Some Xw" "length Xw = 16" "lval Xw = X"
    using ComputeX_val [OF b(1) ok, of ?m] by (auto simp: n picked_unpacked X_def)
  obtain Yw where Yw: "ComputeY ?m b fb N ?mont = Some Yw" "length Yw = 16"
      "lval Yw = root_value (lval N) fb (map (rel_at b) (chosen bits b)) mod lval N"
    using ComputeY_val [OF b(1) ok, of fb ?m] fit by (auto simp: n picked_unpacked)
  define Z where "Z = correct_Y ?mont lpc Yw"
  have Z: "length Z = 16" "lval Z = Y"
    using correct_Y_val [OF ok Yw(2) corr] Yw(3) N(3) by (simp_all add: n Z_def Y_def mod_mult_left_eq)
  have lt: "X < lval N" "Y < lval N" using N(3) by (simp_all add: X_def Y_def)
  have run: "Perform N bits b fb lpc = (if is_zero Z then Some (uint512_u32 0, uint512_u32 0)
     else if \<not> SanityCheck N Xw Z then Some (uint512_u32 0, uint512_u32 0) else factor_pair N Xw Z)"
    using Xw(1) Yw(1) by (simp add: Perform_def unpack_bits_local_eq [OF b(2)] Let_def Z_def)
  show ?thesis
    using factor_pair_val [OF N(1,3) Xw(2) Z(1)] lt
    by (auto simp: run is_zero_val SanityCheck_val [OF N(1,3) Xw(2) Z(1)] Xw(3) Z(2))
qed

section \<open>Properties\<close>

text \<open>
  C37. The square-root step for one solution. For a readable batch and an odd modulus \<open>N > 1\<close>, if every
  selected relation \<open>s\<close> states \<open>s\<^sup>2 \<equiv> \<plusminus> 2 ^ v * \<Prod> p ^ c * L (mod N)\<close> over the factor base, all summed exponents
  are even and below \<open>2 ^ 32\<close>, and the correction times the large primes of the batch is a root of the
  product of the \<open>L\<close>, then both roots have the same square modulo \<open>N\<close>, the check of the code passes and
  the call returns two factors whose product is \<open>N\<close>: proper ones whenever \<open>X \<noteq> \<plusminus> Y (mod N)\<close>. (Only
  \<open>Y \<equiv> 0\<close> is reported as a failure.)
\<close>

theorem perform_splits:
  assumes "batch_ok b" "n_rels b \<le> 64 * length bits" and "length N = 16" "odd (lval N)" "1 < lval N"
    and "exponents_fit fb (map (rel_at b) (chosen bits b))" "square_exponents fb (map (rel_at b) (chosen bits b))"
    and "\<And>i. i \<in> set (chosen bits b) \<Longrightarrow> rel_congruent (lval N) fb (rel_at b i) (L i)"
    and "corrects (Montgomery N) lpc C"
    and "(int (C * (\<Prod>i\<leftarrow>chosen bits b. lp_root (rel_at b i))))\<^sup>2 mod int (lval N) = (\<Prod>i\<leftarrow>chosen bits b. L i) mod int (lval N)"
  defines "X \<equiv> (\<Prod>i\<leftarrow>chosen bits b. unat (sqrt_Q b ! i)) mod lval N"
    and "Y \<equiv> (root_value (lval N) fb (map (rel_at b) (chosen bits b)) * C) mod lval N"
  shows "X\<^sup>2 mod lval N = Y\<^sup>2 mod lval N \<and> (\<exists>f1 f2. Perform N bits b fb lpc = Some (f1, f2)
    \<and> (if Y = 0 then lval f1 = 0 \<and> lval f2 = 0
       else lval f1 * lval f2 = lval N \<and> (lval f1 = 1 \<or> 1 < lval f1 \<and> lval f1 < lval N)
         \<and> (X \<noteq> Y \<and> (X + Y) mod lval N \<noteq> 0 \<longrightarrow> 1 < lval f1 \<and> lval f1 < lval N)))"
proof -
  have "X\<^sup>2 mod lval N = Y\<^sup>2 mod lval N"
    using squares_congruent [of "lval N" fb "rel_at b" "chosen bits b" L C] assms(5-8,10)
    by (simp add: X_def Y_def power_mod rel_at_def comp_def exponents_fit_def)
  then show ?thesis
    using Perform_val [OF assms(1-6,9)] by (auto simp: X_def Y_def splits_def split: if_splits)
qed

text \<open>One relation, \<open>10\<^sup>2 \<equiv> 3\<^sup>2 (mod 91)\<close>.\<close>

definition one_relation :: batch where
  "one_relation = \<lparr>sqrt_Q = [10], signs = [1], val_2_exps = [0], large_primes = [1], char_bits = [0],
     factor_offsets = [0, 1], factor_indices = [0], factor_counts = [2], num_relations = 1, num_factors = 1\<rparr>"

lemma one_relation_chosen: "chosen [1] one_relation = [0]"
  by (simp add: chosen_def one_relation_def bit_set_def)

lemma one_relation_at:
  "rel_at one_relation 0 = \<lparr>r_sqrt_Q = 10, r_sign = 1, r_val_2_exp = 0, r_large_prime = 1, r_char_bits = 0, r_factors = [(0, 2)]\<rparr>"
  by (simp add: rel_at_def row_def slice_def one_relation_def)

lemma one_relation_ok: "batch_ok one_relation" "n_rels one_relation = 1"
  by (simp_all add: batch_ok_def offsets_ok_def one_relation_def)

theorem perform_splits_witness:
  "\<exists>f1 f2. Perform (uint512_u32 91) [1] one_relation [3] None = Some (f1, f2)
    \<and> lval f1 * lval f2 = 91 \<and> 1 < lval f1 \<and> lval f1 < 91"
proof -
  let ?r = "\<lparr>r_sqrt_Q = 10, r_sign = 1, r_val_2_exp = 0, r_large_prime = 1, r_char_bits = 0, r_factors = [(0, 2)]\<rparr> :: relation"
  have sums: "neg_count [?r] = 0" "two_exp [?r] = 0" "prime_exp [?r] 0 = 2"
    by (simp_all add: neg_count_def two_exp_def prime_exp_def fb_exp_def)
  have fit: "exponents_fit [3] [?r]" and sq: "square_exponents [3] [?r]"
    by (simp_all add: exponents_fit_def square_exponents_def sums)
  have cong: "rel_congruent 91 [3] ?r 1"
    by (simp add: rel_congruent_def congruent_square_def smooth_part_def factor_product_def fb_val_def)
  have root: "root_value 91 [3] [?r] = 3" by (simp add: root_value_def sums lp_root_def)
  have len: "n_rels one_relation \<le> 64 * length [1 :: u64]" "sqrt_Q one_relation ! 0 = 10"
    by (simp_all add: one_relation_ok one_relation_def)
  have c: "corrects (Montgomery (uint512_u32 91)) None 1" by (simp add: corrects_def)
  note p = perform_splits [OF one_relation_ok(1) len(1), of "uint512_u32 91" "[3]" "\<lambda>_. 1" None 1,
    unfolded one_relation_chosen list.map one_relation_at len(2), OF _ _ _ fit sq _ c]
  have "\<exists>f1 f2. Perform (uint512_u32 91) [1] one_relation [3] None = Some (f1, f2)
    \<and> lval f1 * lval f2 = lval (uint512_u32 91) \<and> 1 < lval f1 \<and> lval f1 < lval (uint512_u32 91)"
    using p cong root by (simp add: one_relation_at lp_root_def del: One_nat_def) blast
  then show ?thesis by simp
qed

end
