(* ===== verification/Sqrt_Gpu.thy ===== *)
theory Sqrt_Gpu
  imports Sqrt_Step
begin

text \<open>
  The batched device path of \<^verbatim>\<open>src/sqrt/sqrt_step.cu\<close>: the kernels that compute \<open>X\<close> and \<open>Y\<close> for all
  solutions at once, and the host code that launches them. A kernel is what each of its threads or
  blocks does, run in an arbitrary order: threads of a launch, lanes of a block between two barriers
  and atomic additions are ordered by an argument (\<open>gpu_env\<close>), and the results are shown not to depend
  on it.

  Index arithmetic of \<^verbatim>\<open>uint32_t\<close> values is written with its wrap; an access outside a buffer is \<open>None\<close>.
  Streams, events, failed CUDA calls and log output are not modelled.
\<close>

section \<open>Launches\<close>

datatype cell = SignCount nat | Exp2 nat | ExpMatrix nat

text \<open>\<open>order l n\<close> is the order in which launch \<open>l\<close> runs its \<open>n\<close> threads or blocks, \<open>lanes l b s\<close> the order of
  the 256 lanes of block \<open>b\<close> at stride \<open>s\<close> of a reduction, \<open>atomics\<close> the order of atomic additions; \<open>junk\<close> and
  \<open>junk8\<close> are the content of uninitialised buffers.\<close>

record gpu_env =
  order :: "nat \<Rightarrow> nat \<Rightarrow> nat list"
  lanes :: "nat \<Rightarrow> nat \<Rightarrow> nat \<Rightarrow> nat list"
  atomics :: "(cell \<times> u32) list \<Rightarrow> (cell \<times> u32) list"
  junk :: "nat \<Rightarrow> uint512"
  junk8 :: "nat \<Rightarrow> u8"

definition schedule :: "nat \<Rightarrow> nat list \<Rightarrow> bool" where
  "schedule n xs \<longleftrightarrow> distinct xs \<and> set xs = {0..<n}"

definition gpu_ok :: "gpu_env \<Rightarrow> bool" where
  "gpu_ok env \<longleftrightarrow> (\<forall>l n. schedule n (order env l n)) \<and> (\<forall>l b s. schedule 256 (lanes env l b s))
     \<and> (\<forall>ops. mset (atomics env ops) = mset ops)"

definition vec_put :: "nat \<Rightarrow> 'a \<Rightarrow> 'a list \<Rightarrow> 'a list option" where
  "vec_put i v xs = (if i < length xs then Some (xs[i := v]) else None)"

text \<open>Blocks of 256 threads that cover \<open>n\<close> elements, and a kernel that stores one element per thread.\<close>

definition grid :: "nat \<Rightarrow> nat" where
  "grid n = (n + 255) mod 2 ^ 32 div 256"

definition store_kernel :: "nat list \<Rightarrow> nat \<Rightarrow> (nat \<Rightarrow> 'a option) \<Rightarrow> 'a list \<Rightarrow> 'a list option" where
  "store_kernel threads n f out =
     ofold (\<lambda>idx out. if n \<le> idx then Some out else do { v \<leftarrow> f idx; vec_put idx v out }) threads out"

definition TransformSqrtQ :: "nat list \<Rightarrow> montgomery \<Rightarrow> u512 list \<Rightarrow> nat \<Rightarrow> uint512 list \<Rightarrow> uint512 list option" where
  "TransformSqrtQ threads mont d_sqrt_Q K =
     store_kernel threads K (\<lambda>idx. map_option (\<lambda>v. transform mont (limbs v)) (vec_at d_sqrt_Q idx))"

definition TransformLargePrimes :: "nat list \<Rightarrow> montgomery \<Rightarrow> u128 list \<Rightarrow> nat \<Rightarrow> uint512 list \<Rightarrow> uint512 list option" where
  "TransformLargePrimes threads mont d_large_primes K =
     store_kernel threads K (\<lambda>idx. map_option
       (\<lambda>lp. if lp > 1 then transform mont (uint512_u128 lp) else transform mont (uint512_u32 1)) (vec_at d_large_primes idx))"

definition TransformFactorBase :: "nat list \<Rightarrow> montgomery \<Rightarrow> u32 list \<Rightarrow> nat \<Rightarrow> uint512 list \<Rightarrow> uint512 list option" where
  "TransformFactorBase threads mont d_factor_base fb_size =
     store_kernel threads fb_size (\<lambda>idx. map_option (\<lambda>p. transform mont (uint512_u32 p)) (vec_at d_factor_base idx))"

section \<open>Products by tree reduction\<close>

record solution_view =
  d_data :: "u64 list"
  num_solutions :: nat
  words_per_vec :: nat

definition solution_bit :: "solution_view \<Rightarrow> nat \<Rightarrow> nat \<Rightarrow> bool option" where
  "solution_bit sv sol_idx rel_idx = do {
     mask_word \<leftarrow> vec_at (d_data sv) ((sol_idx * words_per_vec sv + rel_idx div 64) mod 2 ^ 32);
     Some (drop_bit (rel_idx mod 64) mask_word AND 1 \<noteq> 0)
   }"

text \<open>The lanes below the stride multiply in place; a barrier ends each step.\<close>

definition reduce_step :: "('a \<Rightarrow> 'a \<Rightarrow> 'a) \<Rightarrow> nat list \<Rightarrow> nat \<Rightarrow> 'a list \<Rightarrow> 'a list" where
  "reduce_step mul tids stride shared =
     fold (\<lambda>tid shared. if tid < stride then shared[tid := mul (shared ! tid) (shared ! (tid + stride))] else shared) tids shared"

fun tree_reduce :: "('a \<Rightarrow> 'a \<Rightarrow> 'a) \<Rightarrow> (nat \<Rightarrow> nat list) \<Rightarrow> nat \<Rightarrow> 'a list \<Rightarrow> 'a list" where
  "tree_reduce mul tids stride shared =
     (if stride = 0 then shared else tree_reduce mul tids (stride div 2) (reduce_step mul (tids stride) stride shared))"

declare tree_reduce.simps [simp del]

definition SQRT_CHUNK_SIZE :: nat where "SQRT_CHUNK_SIZE = 256"

definition SQRT_REDUCE_BLOCK :: nat where "SQRT_REDUCE_BLOCK = 256"

definition chunk_value ::
    "uint512 list \<Rightarrow> solution_view \<Rightarrow> montgomery \<Rightarrow> nat \<Rightarrow> nat \<Rightarrow> nat \<Rightarrow> nat \<Rightarrow> uint512 option" where
  "chunk_value vals sv mont K chunk_idx sol_idx tid =
     (let rel_idx = (chunk_idx * SQRT_CHUNK_SIZE + tid) mod 2 ^ 32; one = transform mont (uint512_u32 1)
      in if rel_idx < K then do {
           m \<leftarrow> solution_bit sv sol_idx rel_idx;
           if m then vec_at vals rel_idx else Some one
         } else Some one)"

definition chunk_block ::
    "(nat \<Rightarrow> nat list) \<Rightarrow> uint512 list \<Rightarrow> solution_view \<Rightarrow> montgomery \<Rightarrow> nat \<Rightarrow> nat \<Rightarrow> nat \<Rightarrow> uint512 list \<Rightarrow> uint512 list option" where
  "chunk_block tids vals sv mont K chunk_idx sol_idx partials =
     (if num_solutions sv \<le> sol_idx then Some partials else do {
        shared \<leftarrow> those (map (chunk_value vals sv mont K chunk_idx sol_idx) [0..<SQRT_CHUNK_SIZE]);
        vec_put ((chunk_idx * num_solutions sv + sol_idx) mod 2 ^ 32)
          (tree_reduce (mont_mul mont) tids (SQRT_CHUNK_SIZE div 2) shared ! 0) partials
      })"

text \<open>Block number \<open>k\<close> of the grid is chunk \<open>k mod n_chunks\<close> of solution \<open>k div n_chunks\<close>.\<close>

definition ComputeX_ChunkReduce ::
    "gpu_env \<Rightarrow> nat \<Rightarrow> uint512 list \<Rightarrow> solution_view \<Rightarrow> montgomery \<Rightarrow> nat \<Rightarrow> nat \<Rightarrow> uint512 list \<Rightarrow> uint512 list option" where
  "ComputeX_ChunkReduce env l vals sv mont K n_chunks =
     ofold (\<lambda>k. chunk_block (lanes env l k) vals sv mont K (k mod n_chunks) (k div n_chunks))
       (order env l (n_chunks * num_solutions sv))"

function grid_stride :: "nat \<Rightarrow> nat \<Rightarrow> nat \<Rightarrow> nat list" where
  "grid_stride c step n = (if c < n \<and> 0 < step then c # grid_stride (c + step) step n else [])"
  by pat_completeness auto
termination by (relation "measure (\<lambda>(c, step, n). n - c)") auto

declare grid_stride.simps [simp del]

definition final_block ::
    "(nat \<Rightarrow> nat list) \<Rightarrow> uint512 list \<Rightarrow> montgomery \<Rightarrow> nat \<Rightarrow> nat \<Rightarrow> bool \<Rightarrow> nat \<Rightarrow> uint512 list \<Rightarrow> uint512 list option" where
  "final_block tids partials mont n_chunks n_solutions do_reduce sol_idx out =
     (if n_solutions \<le> sol_idx then Some out else do {
        shared \<leftarrow> those (map (\<lambda>tid. ofold (\<lambda>c acc. do {
              v \<leftarrow> vec_at partials ((c * n_solutions + sol_idx) mod 2 ^ 32);
              Some (mont_mul mont acc v)
            }) (grid_stride tid SQRT_REDUCE_BLOCK n_chunks) (transform mont (uint512_u32 1))) [0..<SQRT_REDUCE_BLOCK]);
        let shared = tree_reduce (mont_mul mont) tids (SQRT_REDUCE_BLOCK div 2) shared;
        vec_put sol_idx (if do_reduce then mont_reduce mont (shared ! 0) else shared ! 0) out
      })"

definition FinalReduce ::
    "gpu_env \<Rightarrow> nat \<Rightarrow> uint512 list \<Rightarrow> montgomery \<Rightarrow> nat \<Rightarrow> nat \<Rightarrow> bool \<Rightarrow> uint512 list \<Rightarrow> uint512 list option" where
  "FinalReduce env l partials mont n_chunks n_solutions do_reduce =
     ofold (\<lambda>sol. final_block (lanes env l sol) partials mont n_chunks n_solutions do_reduce sol) (order env l n_solutions)"

section \<open>Exponents\<close>

record exp_mem =
  d_exp_matrix :: "u32 list"
  d_sign_counts :: "u32 list"
  d_exp2_accum :: "u32 list"

definition atomic_add :: "cell \<times> u32 \<Rightarrow> exp_mem \<Rightarrow> exp_mem option" where
  "atomic_add op mem = (case op of (c, v) \<Rightarrow> case c of
       SignCount i \<Rightarrow> do { x \<leftarrow> vec_at (d_sign_counts mem) i; Some (mem\<lparr>d_sign_counts := (d_sign_counts mem)[i := x + v]\<rparr>) }
     | Exp2 i \<Rightarrow> do { x \<leftarrow> vec_at (d_exp2_accum mem) i; Some (mem\<lparr>d_exp2_accum := (d_exp2_accum mem)[i := x + v]\<rparr>) }
     | ExpMatrix i \<Rightarrow> do { x \<leftarrow> vec_at (d_exp_matrix mem) i; Some (mem\<lparr>d_exp_matrix := (d_exp_matrix mem)[i := x + v]\<rparr>) })"

text \<open>The atomic additions of the thread of relation \<open>rel_idx\<close> and solution \<open>sol_idx\<close>.\<close>

definition thread_adds :: "solution_view \<Rightarrow> batch \<Rightarrow> nat \<Rightarrow> nat \<Rightarrow> nat \<Rightarrow> nat \<Rightarrow> (cell \<times> u32) list option" where
  "thread_adds sv b K fb_size sol_idx rel_idx =
     (if num_solutions sv \<le> sol_idx \<or> K \<le> rel_idx then Some [] else do {
        m \<leftarrow> solution_bit sv sol_idx rel_idx;
        if \<not> m then Some [] else do {
          sg \<leftarrow> vec_at (signs b) rel_idx;
          v2 \<leftarrow> vec_at (val_2_exps b) rel_idx;
          csr_start \<leftarrow> vec_at (factor_offsets b) rel_idx;
          csr_end \<leftarrow> vec_at (factor_offsets b) (rel_idx + 1);
          ofold (\<lambda>k ops. do {
              fb_idx \<leftarrow> vec_at (factor_indices b) k;
              count \<leftarrow> vec_at (factor_counts b) k;
              Some (ops @ [(ExpMatrix ((sol_idx * fb_size + unat fb_idx) mod 2 ^ 32), ucast count)])
            }) [unat csr_start..<unat csr_end] ((if sg \<noteq> 1 then [(SignCount sol_idx, 1)] else []) @ [(Exp2 sol_idx, v2)])
        }
      })"

definition AccumExponents_Parallel ::
    "gpu_env \<Rightarrow> solution_view \<Rightarrow> batch \<Rightarrow> nat \<Rightarrow> nat \<Rightarrow> nat \<Rightarrow> exp_mem \<Rightarrow> exp_mem option" where
  "AccumExponents_Parallel env sv b K fb_size n_chunks mem = do {
     adds \<leftarrow> those (map (\<lambda>t. thread_adds sv b K fb_size (t div (n_chunks * SQRT_CHUNK_SIZE))
         (t mod (n_chunks * SQRT_CHUNK_SIZE) mod 2 ^ 32)) [0..<num_solutions sv * (n_chunks * SQRT_CHUNK_SIZE)]);
     ofold atomic_add (atomics env (concat adds)) mem
   }"

text \<open>Halving: every thread halves one exponent, the first of a solution also the exponent of 2; an odd
  sum clears the flag of the solution.\<close>

definition flag_odd :: "u32 \<Rightarrow> nat \<Rightarrow> u8 list \<Rightarrow> u8 list option" where
  "flag_odd v sol_idx d_valid = (if v AND 1 \<noteq> 0 then vec_put sol_idx 0 d_valid else Some d_valid)"

definition halve_thread :: "nat \<Rightarrow> nat \<Rightarrow> nat \<Rightarrow> nat \<Rightarrow> exp_mem \<times> u8 list \<Rightarrow> (exp_mem \<times> u8 list) option" where
  "halve_thread n_solutions fb_size sol_idx p_idx st = (case st of (mem, d_valid) \<Rightarrow>
     if n_solutions \<le> sol_idx then Some (mem, d_valid) else do {
       (mem, d_valid) \<leftarrow> (if p_idx = 0 then do {
           sc \<leftarrow> vec_at (d_sign_counts mem) sol_idx;
           d_valid \<leftarrow> flag_odd sc sol_idx d_valid;
           e2 \<leftarrow> vec_at (d_exp2_accum mem) sol_idx;
           d_valid \<leftarrow> flag_odd e2 sol_idx d_valid;
           Some (mem\<lparr>d_exp2_accum := (d_exp2_accum mem)[sol_idx := drop_bit 1 e2]\<rparr>, d_valid)
         } else Some (mem, d_valid));
       if fb_size \<le> p_idx then Some (mem, d_valid) else do {
         let idx = (sol_idx * fb_size + p_idx) mod 2 ^ 32;
         val \<leftarrow> vec_at (d_exp_matrix mem) idx;
         d_valid \<leftarrow> flag_odd val sol_idx d_valid;
         Some (mem\<lparr>d_exp_matrix := (d_exp_matrix mem)[idx := drop_bit 1 val]\<rparr>, d_valid)
       }
     })"

definition HalveExponents ::
    "gpu_env \<Rightarrow> nat \<Rightarrow> nat \<Rightarrow> nat \<Rightarrow> exp_mem \<times> u8 list \<Rightarrow> (exp_mem \<times> u8 list) option" where
  "HalveExponents env l n_solutions fb_size =
     (let width = 256 * grid fb_size
      in ofold (\<lambda>t. halve_thread n_solutions fb_size (t div width) (t mod width)) (order env l (n_solutions * width)))"

section \<open>Powers and the root\<close>

definition SQRT_WINDOW_BITS :: nat where "SQRT_WINDOW_BITS = 4"

definition SQRT_WINDOW_THRESHOLD :: u32 where "SQRT_WINDOW_THRESHOLD = 16"

text \<open>The table of the first 15 powers and the windows of the exponent from the top.\<close>

definition window_table :: "montgomery \<Rightarrow> uint512 \<Rightarrow> uint512 list" where
  "window_table mont b = fold (\<lambda>i table. table @ [mont_mul mont (table ! (i - 1)) b]) [1..<2 ^ SQRT_WINDOW_BITS - 1] [b]"

definition window_step :: "montgomery \<Rightarrow> uint512 list \<Rightarrow> u32 \<Rightarrow> nat \<Rightarrow> uint512 \<Rightarrow> uint512" where
  "window_step mont table e pos result =
     (let result = ((\<lambda>r. mont_mul mont r r) ^^ SQRT_WINDOW_BITS) result;
          window = unat (drop_bit (pos - (SQRT_WINDOW_BITS - 1)) e AND (2 ^ SQRT_WINDOW_BITS - 1))
      in if window > 0 then mont_mul mont result (table ! (window - 1)) else result)"

definition window_pow :: "montgomery \<Rightarrow> uint512 \<Rightarrow> u32 \<Rightarrow> uint512" where
  "window_pow mont b e =
     (let bit_pos = (31 - clz32 e + SQRT_WINDOW_BITS) div SQRT_WINDOW_BITS * SQRT_WINDOW_BITS - 1
      in fold (window_step mont (window_table mont b) e)
           (map (\<lambda>j. bit_pos - j * SQRT_WINDOW_BITS) [0..<(bit_pos + 1) div SQRT_WINDOW_BITS])
           (transform mont (uint512_u32 1)))"

definition times_prime_gpu :: "montgomery \<Rightarrow> u32 \<Rightarrow> uint512 \<Rightarrow> uint512 \<Rightarrow> uint512" where
  "times_prime_gpu mont exp_val b partial =
     (if exp_val = 1 then mont_mul mont partial b
      else if exp_val \<le> SQRT_WINDOW_THRESHOLD then mont_mul mont partial (mont_pow mont b (uint512_u32 exp_val))
      else mont_mul mont partial (window_pow mont b exp_val))"

definition exponentiate_block ::
    "(nat \<Rightarrow> nat list) \<Rightarrow> exp_mem \<Rightarrow> uint512 list \<Rightarrow> uint512 list \<Rightarrow> u8 list \<Rightarrow> montgomery \<Rightarrow> uint512 \<Rightarrow> nat \<Rightarrow> nat \<Rightarrow> nat
      \<Rightarrow> uint512 list \<Rightarrow> uint512 list option" where
  "exponentiate_block tids mem d_Y_lp_mont d_factor_base_mont d_valid mont N n_solutions fb_size sol_idx d_Y =
     (if n_solutions \<le> sol_idx then Some d_Y else do {
        ok \<leftarrow> vec_at d_valid sol_idx;
        if ok = 0 then Some d_Y else do {
          shared_prods \<leftarrow> those (map (\<lambda>tid. ofold (\<lambda>p partial. do {
                exp_val \<leftarrow> vec_at (d_exp_matrix mem) ((sol_idx * fb_size + p) mod 2 ^ 32);
                if exp_val = 0 then Some partial else do {
                  b \<leftarrow> vec_at d_factor_base_mont p;
                  Some (times_prime_gpu mont exp_val b partial)
                }
              }) (grid_stride tid 256 fb_size) (transform mont (uint512_u32 1))) [0..<256]);
          let Y_mont = tree_reduce (mont_mul mont) tids (256 div 2) shared_prods ! 0;
          sc \<leftarrow> vec_at (d_sign_counts mem) sol_idx;
          let Y_mont = (if (sc div 2) AND 1 \<noteq> 0 then negate_mod_inplace Y_mont N else Y_mont);
          exp2_half \<leftarrow> vec_at (d_exp2_accum mem) sol_idx;
          let Y_mont = (if exp2_half > 0
            then mont_mul mont Y_mont (mont_pow mont (transform mont (uint512_u32 2)) (uint512_u32 exp2_half)) else Y_mont);
          lp \<leftarrow> vec_at d_Y_lp_mont sol_idx;
          vec_put sol_idx (mont_reduce mont (mont_mul mont Y_mont lp)) d_Y
        }
      })"

definition BatchedExponentiateY ::
    "gpu_env \<Rightarrow> nat \<Rightarrow> exp_mem \<Rightarrow> uint512 list \<Rightarrow> uint512 list \<Rightarrow> u8 list \<Rightarrow> montgomery \<Rightarrow> uint512 \<Rightarrow> nat \<Rightarrow> nat
      \<Rightarrow> uint512 list \<Rightarrow> uint512 list option" where
  "BatchedExponentiateY env l mem d_Y_lp_mont d_factor_base_mont d_valid mont N n_solutions fb_size =
     ofold (\<lambda>sol. exponentiate_block (lanes env l sol) mem d_Y_lp_mont d_factor_base_mont d_valid mont N n_solutions fb_size sol)
       (order env l n_solutions)"

section \<open>The host side\<close>

record sqrt_bufs =
  max_K :: nat
  max_nnz :: nat
  max_fb :: nat
  max_n :: nat
  allocated :: bool
  fb_transformed :: bool
  d_factor_base_mont :: "uint512 list"
  d_X :: "uint512 list"
  d_Y :: "uint512 list"
  d_valid :: "u8 list"

text \<open>Growing the pool frees all buffers: the new ones are uninitialised and have half as much room again
  as asked for. Buffers that only carry data between the launches of one call are local to it and start
  uninitialised in every call.\<close>

definition room :: "nat \<Rightarrow> nat" where
  "room n = 3 * n div 2 mod 2 ^ 32"

definition allocateDeviceBuffers ::
    "gpu_env \<Rightarrow> nat \<Rightarrow> nat \<Rightarrow> nat \<Rightarrow> nat \<Rightarrow> sqrt_bufs \<Rightarrow> sqrt_bufs" where
  "allocateDeviceBuffers env K nnz fb n bufs =
     (if allocated bufs \<and> K \<le> max_K bufs \<and> nnz \<le> max_nnz bufs \<and> fb \<le> max_fb bufs \<and> n \<le> max_n bufs then bufs
      else \<lparr>max_K = room K, max_nnz = room nnz, max_fb = room fb, max_n = room n, allocated = True,
            fb_transformed = (if allocated bufs then False else fb_transformed bufs),
            d_factor_base_mont = map (junk env) [0..<room fb], d_X = map (junk env) [0..<room n],
            d_Y = map (junk env) [0..<room n], d_valid = map (junk8 env) [0..<room n]\<rparr>)"

text \<open>Copies to the device are of the first elements of a host vector.\<close>

definition upload :: "nat \<Rightarrow> 'a list \<Rightarrow> 'a list option" where
  "upload n xs = (if n \<le> length xs then Some (take n xs) else None)"

definition ComputeXBatchedGPU ::
    "gpu_env \<Rightarrow> uint512 \<Rightarrow> solution_view \<Rightarrow> batch \<Rightarrow> sqrt_bufs \<Rightarrow> sqrt_bufs option" where
  "ComputeXBatchedGPU env N sv b bufs = (
     let K = n_rels b mod 2 ^ 32; n = num_solutions sv; mont = Montgomery N;
         bufs = allocateDeviceBuffers env K (unat (num_factors b) mod 2 ^ 32) 0 n bufs
     in do {
       d_sqrt_Q \<leftarrow> upload K (sqrt_Q b);
       d_sqrt_Q_mont \<leftarrow> TransformSqrtQ (order env 0 (256 * grid K)) mont d_sqrt_Q K (map (junk env) [0..<max_K bufs]);
       let n_chunks = grid K;
       partials \<leftarrow> ComputeX_ChunkReduce env 1 d_sqrt_Q_mont sv mont K n_chunks (map (junk env) [0..<grid (max_K bufs) * max_n bufs]);
       x \<leftarrow> FinalReduce env 2 partials mont n_chunks n True (d_X bufs);
       Some (bufs\<lparr>d_X := x\<rparr>)
     })"

definition ComputeYBatchedGPU ::
    "gpu_env \<Rightarrow> uint512 \<Rightarrow> solution_view \<Rightarrow> batch \<Rightarrow> u32 list \<Rightarrow> sqrt_bufs \<Rightarrow> sqrt_bufs option" where
  "ComputeYBatchedGPU env N sv b factor_base bufs = (
     let K = n_rels b mod 2 ^ 32; n = num_solutions sv; fb_size = length factor_base mod 2 ^ 32;
         nnz = unat (num_factors b) mod 2 ^ 32; mont = Montgomery N;
         bufs = allocateDeviceBuffers env K nnz fb_size n bufs
     in do {
       d_signs \<leftarrow> upload K (signs b);
       d_val_2_exps \<leftarrow> upload K (val_2_exps b);
       d_lps \<leftarrow> upload K (large_primes b);
       d_factor_offsets \<leftarrow> upload ((K + 1) mod 2 ^ 32) (factor_offsets b);
       d_factor_indices \<leftarrow> upload nnz (factor_indices b);
       d_factor_counts \<leftarrow> upload nnz (factor_counts b);
       let d_b = b\<lparr>signs := d_signs, val_2_exps := d_val_2_exps, large_primes := d_lps, factor_offsets := d_factor_offsets,
                   factor_indices := d_factor_indices, factor_counts := d_factor_counts\<rparr>;
       fb_u32 \<leftarrow> upload fb_size factor_base;
       bufs \<leftarrow> (if fb_transformed bufs then Some bufs else do {
           fbm \<leftarrow> TransformFactorBase (order env 3 (256 * grid fb_size)) mont fb_u32 fb_size (d_factor_base_mont bufs);
           Some (bufs\<lparr>d_factor_base_mont := fbm, fb_transformed := True\<rparr>)
         });
       let mem = \<lparr>d_exp_matrix = replicate (n * fb_size) 0, d_sign_counts = replicate n 0, d_exp2_accum = replicate n 0\<rparr>;
       let valid = replicate n 1 @ drop n (d_valid bufs);
       let y = replicate n zero512 @ drop n (d_Y bufs);
       let n_chunks = grid K;
       d_lp_mont \<leftarrow> TransformLargePrimes (order env 4 (256 * grid K)) mont d_lps K (map (junk env) [0..<max_K bufs]);
       partials \<leftarrow> ComputeX_ChunkReduce env 5 d_lp_mont sv mont K n_chunks (map (junk env) [0..<grid (max_K bufs) * max_n bufs]);
       d_Y_lp_mont \<leftarrow> FinalReduce env 6 partials mont n_chunks n False (map (junk env) [0..<max_n bufs]);
       mem \<leftarrow> AccumExponents_Parallel env sv d_b K fb_size n_chunks mem;
       (mem, valid) \<leftarrow> HalveExponents env 7 n fb_size (mem, valid);
       y \<leftarrow> BatchedExponentiateY env 8 mem d_Y_lp_mont (d_factor_base_mont bufs) valid mont N n fb_size y;
       Some (bufs\<lparr>d_Y := y, d_valid := valid\<rparr>)
     })"

definition ApplyLPCorrection ::
    "gpu_env \<Rightarrow> uint512 \<Rightarrow> uint512 list \<Rightarrow> nat \<Rightarrow> sqrt_bufs \<Rightarrow> sqrt_bufs option" where
  "ApplyLPCorrection env N d_correction_mont n_solutions bufs =
     (let mont = Montgomery N
      in map_option (\<lambda>y. bufs\<lparr>d_Y := y\<rparr>)
        (ofold (\<lambda>sol y. if n_solutions \<le> sol then Some y else do {
            v \<leftarrow> vec_at y sol;
            c \<leftarrow> vec_at d_correction_mont sol;
            vec_put sol (mont_reduce mont (mont_mul mont (transform mont v) c)) y
          }) (order env 9 (256 * grid n_solutions)) (d_Y bufs)))"

section \<open>Independence of the order\<close>

text \<open>Threads that each update a cell of their own.\<close>

lemma scatter:
  assumes "\<And>i out. i \<in> set xs \<Longrightarrow> length out = L \<Longrightarrow> f i out = (if P i then vec_put (pos i) (v i (out ! pos i)) out else Some out)"
    and "\<forall>i \<in> set xs. P i \<longrightarrow> pos i < L" and "length out = L" and "distinct xs" and "inj_on pos {i \<in> set xs. P i}"
  shows "\<exists>out'. ofold f xs out = Some out' \<and> length out' = L
    \<and> (\<forall>i \<in> set xs. P i \<longrightarrow> out' ! pos i = v i (out ! pos i)) \<and> (\<forall>p. p \<notin> pos ` {i \<in> set xs. P i} \<longrightarrow> out' ! p = out ! p)"
  using assms
proof (induction xs arbitrary: out)
  case (Cons x xs)
  define out1 where "out1 = (if P x then out[pos x := v x (out ! pos x)] else out)"
  have step: "f x out = Some out1" using Cons.prems(1) [of x out] Cons.prems(2,3) by (simp add: out1_def vec_put_def)
  have inj: "inj_on pos {i \<in> set xs. P i}" by (rule inj_on_subset [OF Cons.prems(5)]) auto
  have sep: "P x \<Longrightarrow> i \<in> set xs \<Longrightarrow> P i \<Longrightarrow> pos x \<noteq> pos i" for i
    using inj_onD [OF Cons.prems(5), of x i] Cons.prems(4) by auto
  have len: "length out1 = L" using Cons.prems(3) by (simp add: out1_def)
  obtain out' where out': "ofold f xs out1 = Some out'" "length out' = L"
      "\<forall>i \<in> set xs. P i \<longrightarrow> out' ! pos i = v i (out1 ! pos i)" "\<forall>p. p \<notin> pos ` {i \<in> set xs. P i} \<longrightarrow> out' ! p = out1 ! p"
    using Cons.IH [of out1] Cons.prems(1,2,4) len inj by auto
  have "out' ! pos x = v x (out ! pos x)" if "P x"
  proof -
    have "pos x \<notin> pos ` {i \<in> set xs. P i}" using sep that by force
    then show ?thesis using out'(4) Cons.prems(2,3) that by (simp add: out1_def)
  qed
  moreover have "out' ! pos i = v i (out ! pos i)" if "i \<in> set xs" "P i" for i
    using out'(3) that sep by (simp add: out1_def)
  moreover have "out' ! p = out ! p" if "p \<notin> pos ` {i \<in> set (x # xs). P i}" for p
  proof -
    have "p \<notin> pos ` {i \<in> set xs. P i}" "P x \<Longrightarrow> pos x \<noteq> p" using that by auto
    then show ?thesis using out'(4) by (simp add: out1_def)
  qed
  ultimately show ?case using step out'(1,2) by auto
qed simp

lemma store_kernel_val:
  assumes "schedule m xs" and "n \<le> m" "n \<le> length out" and "\<And>i. i < n \<Longrightarrow> f i = Some (w i)"
  shows "store_kernel xs n f out = Some (map w [0..<n] @ drop n out)"
proof -
  have "\<exists>out'. store_kernel xs n f out = Some out' \<and> length out' = length out
      \<and> (\<forall>i \<in> set xs. i < n \<longrightarrow> out' ! i = w i) \<and> (\<forall>p. p \<notin> (\<lambda>i. i) ` {i \<in> set xs. i < n} \<longrightarrow> out' ! p = out ! p)"
    unfolding store_kernel_def
    by (rule scatter [where pos = "\<lambda>i. i" and P = "\<lambda>i. i < n" and v = "\<lambda>i _. w i"])
       (use assms in \<open>auto simp: schedule_def\<close>)
  then obtain out' where o: "store_kernel xs n f out = Some out'" "length out' = length out"
      "\<forall>i \<in> set xs. i < n \<longrightarrow> out' ! i = w i" "\<forall>p. p \<notin> {i \<in> set xs. i < n} \<longrightarrow> out' ! p = out ! p"
    by (auto simp: image_def)
  have "out' = map w [0..<n] @ drop n out"
  proof (rule nth_equalityI)
    fix p assume "p < length out'"
    then show "out' ! p = (map w [0..<n] @ drop n out) ! p"
      using o(2-4) assms(1-3) by (cases "p < n") (auto simp: schedule_def nth_append)
  qed (use o(2) assms(3) in simp)
  with o(1) show ?thesis by simp
qed

lemma grid_covers:
  assumes "n + 255 < 2 ^ 32"
  shows "n \<le> 256 * grid n" and "256 * grid n \<le> n + 255" and "grid n \<le> n"
  using assms by (simp_all add: grid_def)

section \<open>Reductions\<close>

lemma reduce_step_nth:
  assumes "schedule n tids" and "2 * stride \<le> length sh" and "stride \<le> n"
  shows "length (reduce_step mul tids stride sh) = length sh"
    and "t < stride \<Longrightarrow> reduce_step mul tids stride sh ! t = mul (sh ! t) (sh ! (t + stride))"
proof -
  let ?f = "\<lambda>tid shared. if tid < stride then shared[tid := mul (shared ! tid) (shared ! (tid + stride))] else shared"
  have len: "length (fold ?f xs sh) = length sh" for xs by (induction xs rule: rev_induct) simp_all
  then show "length (reduce_step mul tids stride sh) = length sh" by (simp add: reduce_step_def)
  have "distinct xs \<Longrightarrow> fold ?f xs sh ! i = (if i \<in> set xs \<and> i < stride then mul (sh ! i) (sh ! (i + stride)) else sh ! i)"
    if "i < length sh" for xs i
    using that
  proof (induction xs arbitrary: i rule: rev_induct)
    case (snoc x xs)
    then show ?case using len [of xs] assms(2) by (auto simp: nth_list_update)
  qed simp
  then show "t < stride \<Longrightarrow> reduce_step mul tids stride sh ! t = mul (sh ! t) (sh ! (t + stride))"
    using assms by (simp add: reduce_step_def schedule_def)
qed

context residue_mult
begin

lemma tree_reduce_represents:
  assumes "\<And>s. schedule n (tids s)" and "2 ^ k \<le> n"
  shows "2 ^ Suc k \<le> length sh \<Longrightarrow> (\<And>t. t < 2 ^ Suc k \<Longrightarrow> represents (sh ! t) (v t)) \<Longrightarrow>
    represents (tree_reduce mul tids (2 ^ k) sh ! 0) (\<Prod>t < 2 ^ Suc k. v t)"
  using assms(2)
proof (induction k arbitrary: sh v)
  case 0
  have "represents (reduce_step mul (tids 1) 1 sh ! 0) (v 0 * v 1)"
    using reduce_step_nth(2) [OF assms(1), of 1 sh 0 mul 1] 0 by (simp add: mul_represents)
  then show ?case by (simp add: tree_reduce.simps [of mul tids "Suc 0"] tree_reduce.simps [of mul tids 0] lessThan_Suc numeral_2_eq_2 mult.commute)
next
  case (Suc k)
  let ?s = "2 ^ Suc k :: nat"
  let ?sh = "reduce_step mul (tids ?s) ?s sh"
  have "represents (tree_reduce mul tids (2 ^ k) ?sh ! 0) (\<Prod>t < ?s. v t * v (t + ?s))"
  proof (rule Suc.IH)
    show "2 ^ Suc k \<le> length ?sh" using reduce_step_nth(1) [OF assms(1), of ?s sh mul ?s] Suc.prems by simp
    fix t assume t: "t < ?s"
    then have "?sh ! t = mul (sh ! t) (sh ! (t + ?s))" using Suc.prems(1,3) by (intro reduce_step_nth(2) [OF assms(1)]) simp_all
    then show "represents (?sh ! t) (v t * v (t + ?s))" using Suc.prems(2) [of t] Suc.prems(2) [of "t + ?s"] t by (simp add: mul_represents)
  qed (use Suc.prems in simp)
  moreover have "(\<Prod>t < 2 * ?s. v t) = (\<Prod>t < ?s. v t * v (t + ?s))"
  proof -
    have "(\<Prod>t < 2 * ?s. v t) = (\<Prod>t < ?s. v t) * (\<Prod>t \<in> {?s..<2 * ?s}. v t)"
      by (subst prod.union_disjoint [symmetric]) (auto intro: prod.cong)
    moreover have "(\<Prod>t \<in> {?s..<2 * ?s}. v t) = (\<Prod>t < ?s. v (t + ?s))"
      using prod.shift_bounds_nat_ivl [of v 0 ?s ?s] by (simp add: atLeast0LessThan mult_2)
    ultimately show ?thesis by (simp only: prod.distrib)
  qed
  moreover have "tree_reduce mul tids ?s sh = tree_reduce mul tids (2 ^ k) ?sh"
    by (subst tree_reduce.simps) simp
  ultimately show ?case by simp
qed

end

lemma those_map_Some: "(\<And>x. x \<in> set xs \<Longrightarrow> f x = Some (g x)) \<Longrightarrow> those (map f xs) = Some (map g xs)"
  by (induction xs) simp_all

lemma grid_stride_set:
  "distinct (grid_stride c step n)"
  "set (grid_stride c step n) = (if 0 < step then {x. c \<le> x \<and> x < n \<and> x mod step = c mod step} else {})"
proof (induction c step n rule: grid_stride.induct)
  case (1 c step n)
  { case 1
    show ?case using "1.IH" by (subst grid_stride.simps) auto
  next
    case 2
    show ?case
    proof (cases "c < n \<and> 0 < step")
      case True
      have "x = c \<or> c + step \<le> x" if "c \<le> x" "x mod step = c mod step" for x
      proof -
        have "step dvd x - c" using that by (simp add: mod_eq_dvd_iff_nat)
        then show ?thesis using that(1) True by (metis dvd_imp_le le_diff_conv2 le_add_diff_inverse zero_less_diff add.commute le_neq_implies_less diff_is_0_eq')
      qed
      then have "{x. c \<le> x \<and> x < n \<and> x mod step = c mod step}
          = insert c {x. c + step \<le> x \<and> x < n \<and> x mod step = (c + step) mod step}" using True by auto
      then show ?thesis using "1.IH"(2) True by (subst grid_stride.simps) simp
    next
      case False
      then show ?thesis by (subst grid_stride.simps) auto
    qed
  }
qed

lemma prod_grid_stride:
  fixes f :: "nat \<Rightarrow> nat"
  assumes "0 < step"
  shows "(\<Prod>tid < step. \<Prod>c\<leftarrow>grid_stride tid step n. f c) = (\<Prod>c < n. f c)"
proof -
  have "(\<Prod>c\<leftarrow>grid_stride tid step n. f c) = (\<Prod>c \<in> {c \<in> {..<n}. c mod step = tid}. f c)" if "tid < step" for tid
  proof -
    have "set (grid_stride tid step n) = {c \<in> {..<n}. c mod step = tid}"
      using that assms mod_less_eq_dividend [of _ step] by (auto simp: grid_stride_set(2))
    then show ?thesis using prod.distinct_set_conv_list [OF grid_stride_set(1), of f tid step n] by simp
  qed
  then have "(\<Prod>tid < step. \<Prod>c\<leftarrow>grid_stride tid step n. f c) = (\<Prod>tid < step. \<Prod>c \<in> {c \<in> {..<n}. c mod step = tid}. f c)"
    by (intro prod.cong) simp_all
  also have "\<dots> = (\<Prod>c < n. f c)" using assms by (intro prod.group) auto
  finally show ?thesis .
qed

text \<open>The product over the selected elements, cut into chunks of 256.\<close>

definition sel_prod :: "(nat \<Rightarrow> bool) \<Rightarrow> (nat \<Rightarrow> nat) \<Rightarrow> nat \<Rightarrow> nat \<Rightarrow> nat" where
  "sel_prod sb q K c = (\<Prod>tid < 256. if c * 256 + tid < K \<and> sb (c * 256 + tid) then q (c * 256 + tid) else 1)"

lemma prod_sel_prod:
  assumes "K \<le> 256 * nc"
  shows "(\<Prod>c < nc. sel_prod sb q K c) = (\<Prod>i < K. if sb i then q i else 1)"
proof -
  let ?g = "\<lambda>i. if i < K \<and> sb i then q i else 1"
  have "sel_prod sb q K c = prod ?g {c * 256..<c * 256 + 256}" for c
    using prod.shift_bounds_nat_ivl [of ?g 0 "c * 256" 256] by (simp add: sel_prod_def atLeast0LessThan ac_simps cong: if_cong)
  then have "(\<Prod>c < nc. sel_prod sb q K c) = prod ?g {..<nc * 256}" by (simp add: prod.nat_group)
  also have "\<dots> = prod ?g {..<K}" using assms by (intro prod.mono_neutral_right) auto
  also have "\<dots> = (\<Prod>i < K. if sb i then q i else 1)" by (rule prod.cong) simp_all
  finally show ?thesis .
qed

text \<open>The input of a product: values in Montgomery form and readable solution bits.\<close>

definition product_input :: "solution_view \<Rightarrow> montgomery \<Rightarrow> nat \<Rightarrow> uint512 list \<Rightarrow> (nat \<Rightarrow> nat \<Rightarrow> bool) \<Rightarrow> (nat \<Rightarrow> nat) \<Rightarrow> bool" where
  "product_input sv mont K vals sb q \<longleftrightarrow> mont_ok mont \<and> K \<le> length vals \<and> (\<forall>i < K. mont_form mont (vals ! i) (q i))
     \<and> (\<forall>sol < num_solutions sv. \<forall>i < K. solution_bit sv sol i = Some (sb sol i))"

lemma mont_one: "mont_ok mont \<Longrightarrow> mont_form mont (transform mont (uint512_u32 1)) 1"
  using transform_form [of mont "uint512_u32 1"] by simp

lemma chunk_value_form:
  assumes "product_input sv mont K vals sb q" and "sol < num_solutions sv" and "c * 256 + tid < 2 ^ 32"
  shows "\<exists>x. chunk_value vals sv mont K c sol tid = Some x
    \<and> mont_form mont x (if c * 256 + tid < K \<and> sb sol (c * 256 + tid) then q (c * 256 + tid) else 1)"
  using assms mont_one [of mont] by (auto simp: chunk_value_def SQRT_CHUNK_SIZE_def product_input_def Let_def)

lemma chunk_reduce_form:
  assumes p: "product_input sv mont K vals sb q" and env: "gpu_ok env" and K: "K + 255 < 2 ^ 32"
    and len: "grid K * num_solutions sv \<le> length out" "grid K * num_solutions sv \<le> 2 ^ 32"
  shows "\<exists>out'. ComputeX_ChunkReduce env l vals sv mont K (grid K) out = Some out' \<and> length out' = length out
    \<and> (\<forall>c < grid K. \<forall>sol < num_solutions sv. mont_form mont (out' ! (c * num_solutions sv + sol)) (sel_prod (sb sol) q K c))"
proof -
  let ?nc = "grid K" and ?ns = "num_solutions sv"
  define w where "w k = tree_reduce (mont_mul mont) (lanes env l k) 128
    (map (\<lambda>tid. the (chunk_value vals sv mont K (k mod ?nc) (k div ?nc) tid)) [0..<256]) ! 0" for k
  let ?pos = "\<lambda>k. (k mod ?nc) * ?ns + k div ?nc"
  have small: "c * 256 + tid < 2 ^ 32" if "c < ?nc" "tid < 256" for c tid
    using that grid_covers(2) [OF K] K by linarith
  have idx: "k mod ?nc < ?nc" "k div ?nc < ?ns" if "k < ?nc * ?ns" for k
    using that less_mult_imp_div_less [of k ?ns ?nc] by (cases "?nc = 0"; simp add: mult.commute)+
  have pos: "?pos k < ?nc * ?ns" if "k < ?nc * ?ns" for k
  proof -
    have "?pos k < (k mod ?nc) * ?ns + ?ns" using idx(2) [OF that] by simp
    also have "\<dots> \<le> ?nc * ?ns" using idx(1) [OF that] by (metis Suc_leI add.commute mult_Suc mult_le_mono1)
    finally show ?thesis .
  qed
  have val: "\<exists>x. chunk_value vals sv mont K (k mod ?nc) (k div ?nc) tid = Some x \<and> mont_form mont x
       (if k mod ?nc * 256 + tid < K \<and> sb (k div ?nc) (k mod ?nc * 256 + tid) then q (k mod ?nc * 256 + tid) else 1)"
    if "k < ?nc * ?ns" "tid < 256" for k tid
    by (rule chunk_value_form [OF p idx(2) [OF that(1)] small [OF idx(1) [OF that(1)] that(2)]])
  have form: "mont_form mont (w k) (sel_prod (sb (k div ?nc)) q K (k mod ?nc))" if "k < ?nc * ?ns" for k
  proof -
    have "mont_form mont (tree_reduce (mont_mul mont) (lanes env l k) (2 ^ 7)
        (map (\<lambda>tid. the (chunk_value vals sv mont K (k mod ?nc) (k div ?nc) tid)) [0..<256]) ! 0)
      (\<Prod>t < 2 ^ Suc 7. if k mod ?nc * 256 + t < K \<and> sb (k div ?nc) (k mod ?nc * 256 + t) then q (k mod ?nc * 256 + t) else 1)"
    proof (rule mont.tree_reduce_represents [where n = 256])
      fix t :: nat assume "t < 2 ^ Suc 7"
      then show "mont_form mont (map (\<lambda>tid. the (chunk_value vals sv mont K (k mod ?nc) (k div ?nc) tid)) [0..<256] ! t)
        (if k mod ?nc * 256 + t < K \<and> sb (k div ?nc) (k mod ?nc * 256 + t) then q (k mod ?nc * 256 + t) else 1)"
        using val [OF that, of t] by auto
    qed (use env in \<open>simp_all add: gpu_ok_def\<close>)
    then show ?thesis by (simp add: w_def sel_prod_def)
  qed
  have run: "chunk_block (lanes env l k) vals sv mont K (k mod ?nc) (k div ?nc) o' = vec_put (?pos k) (w k) o'"
    if "k < ?nc * ?ns" for k o'
  proof -
    have "those (map (chunk_value vals sv mont K (k mod ?nc) (k div ?nc)) [0..<256])
        = Some (map (\<lambda>tid. the (chunk_value vals sv mont K (k mod ?nc) (k div ?nc) tid)) [0..<256])"
      by (rule those_map_Some) (use val [OF that] in fastforce)
    then show ?thesis
      using idx(2) [OF that] pos [OF that] len(2) by (simp add: chunk_block_def SQRT_CHUNK_SIZE_def w_def Let_def)
  qed
  have inj: "inj_on ?pos {0..<?nc * ?ns}"
  proof (rule inj_onI)
    fix k k' assume k: "k \<in> {0..<?nc * ?ns}" "k' \<in> {0..<?nc * ?ns}" and eq: "?pos k = ?pos k'"
    then have d: "k div ?nc < ?ns" "k' div ?nc < ?ns" using idx(2) by simp_all
    then have "k div ?nc = k' div ?nc" using arg_cong [OF eq, of "\<lambda>x. x mod ?ns"] by simp
    moreover from this have "k mod ?nc = k' mod ?nc" using eq d by simp
    ultimately show "k = k'" by (metis div_mult_mod_eq)
  qed
  have s: "schedule (?nc * ?ns) (order env l (?nc * ?ns))" using env by (simp add: gpu_ok_def)
  have "\<exists>out'. ComputeX_ChunkReduce env l vals sv mont K ?nc out = Some out' \<and> length out' = length out
      \<and> (\<forall>k \<in> set (order env l (?nc * ?ns)). True \<longrightarrow> out' ! ?pos k = w k)
      \<and> (\<forall>p. p \<notin> ?pos ` {k \<in> set (order env l (?nc * ?ns)). True} \<longrightarrow> out' ! p = out ! p)"
    unfolding ComputeX_ChunkReduce_def
  proof (rule scatter [where v = "\<lambda>k _. w k"])
    show "inj_on ?pos {k \<in> set (order env l (?nc * ?ns)). True}" using s inj by (simp add: schedule_def atLeast0LessThan lessThan_def)
    show "\<forall>k \<in> set (order env l (?nc * ?ns)). True \<longrightarrow> ?pos k < length out"
      using s less_le_trans [OF pos len(1)] by (simp add: schedule_def)
  qed (use s run in \<open>simp_all add: schedule_def\<close>)
  then obtain out' where o: "ComputeX_ChunkReduce env l vals sv mont K ?nc out = Some out'" "length out' = length out"
      "\<forall>k < ?nc * ?ns. out' ! ?pos k = w k"
    using s by (auto simp: schedule_def)
  have "mont_form mont (out' ! (c * ?ns + sol)) (sel_prod (sb sol) q K c)" if "c < ?nc" "sol < ?ns" for c sol
  proof -
    let ?k = "sol * ?nc + c"
    have k: "?k mod ?nc = c" "?k div ?nc = sol" using that(1) by simp_all
    have "?k < Suc sol * ?nc" using that(1) by simp
    also have "\<dots> \<le> ?ns * ?nc" using that(2) by (intro mult_le_mono1) simp
    finally have "?k < ?nc * ?ns" by (simp only: mult.commute)
    then show ?thesis using o(3) form [of ?k] k by (metis (no_types, lifting))
  qed
  with o show ?thesis by blast
qed

lemma final_reduce_form:
  assumes ok: "mont_ok mont" and env: "gpu_ok env"
    and parts: "\<And>c sol. c < nc \<Longrightarrow> sol < ns \<Longrightarrow> mont_form mont (partials ! (c * ns + sol)) (P c sol)"
    and len: "nc * ns \<le> length partials" "nc * ns \<le> 2 ^ 32" "ns \<le> length out"
  shows "\<exists>out'. FinalReduce env l partials mont nc ns do_reduce out = Some out' \<and> length out' = length out
    \<and> (\<forall>sol < ns. \<exists>x. mont_form mont x (\<Prod>c < nc. P c sol) \<and> out' ! sol = (if do_reduce then mont_reduce mont x else x))"
proof -
  let ?one = "transform mont (uint512_u32 1)"
  define acc where "acc sol tid = fold (\<lambda>c acc. mont_mul mont acc (partials ! (c * ns + sol))) (grid_stride tid 256 nc) ?one" for sol tid
  define w where "w sol = tree_reduce (mont_mul mont) (lanes env l sol) 128 (map (acc sol) [0..<256]) ! 0" for sol
  have idx: "c * ns + sol < nc * ns" if "c < nc" "sol < ns" for c sol
  proof -
    have "c * ns + sol < Suc c * ns" using that by simp
    also have "\<dots> \<le> nc * ns" using that(1) by (intro mult_le_mono1) simp
    finally show ?thesis .
  qed
  have in_stride: "c < nc" if "c \<in> set (grid_stride tid 256 nc)" for c tid using that by (simp add: grid_stride_set(2))
  have accs: "mont_form mont (acc sol tid) (\<Prod>c\<leftarrow>grid_stride tid 256 nc. P c sol)" if "sol < ns" for sol tid
  proof -
    have "mont_form mont (acc sol tid) (1 * (\<Prod>c\<leftarrow>grid_stride tid 256 nc. P c sol))"
      unfolding acc_def by (rule mont.fold_represents [OF _ mont_one [OF ok]]) (rule parts [OF in_stride that])
    then show ?thesis by simp
  qed
  have form: "mont_form mont (w sol) (\<Prod>c < nc. P c sol)" if "sol < ns" for sol
  proof -
    have "mont_form mont (tree_reduce (mont_mul mont) (lanes env l sol) (2 ^ 7) (map (acc sol) [0..<256]) ! 0)
      (\<Prod>t < 2 ^ Suc 7. \<Prod>c\<leftarrow>grid_stride t 256 nc. P c sol)"
      by (rule mont.tree_reduce_represents [where n = 256]) (use env accs [OF that] in \<open>simp_all add: gpu_ok_def\<close>)
    then show ?thesis using prod_grid_stride [where step = 256 and n = nc and f = "\<lambda>c. P c sol"] by (simp add: w_def)
  qed
  have run: "final_block (lanes env l sol) partials mont nc ns do_reduce sol o'
      = vec_put sol (if do_reduce then mont_reduce mont (w sol) else w sol) o'" if "sol < ns" for sol o'
  proof -
    have "ofold (\<lambda>c acc. do { v \<leftarrow> vec_at partials ((c * ns + sol) mod 2 ^ 32); Some (mont_mul mont acc v) })
        (grid_stride tid 256 nc) ?one = Some (acc sol tid)" for tid
      unfolding acc_def
    proof (rule ofold_Some_fold)
      fix c a assume "c \<in> set (grid_stride tid 256 nc)"
      then have i: "c * ns + sol < nc * ns" by (rule idx [OF in_stride that])
      have "c * ns + sol < length partials" "c * ns + sol < 2 ^ 32" using less_le_trans [OF i len(1)] less_le_trans [OF i len(2)] by blast+
      then show "do { v \<leftarrow> vec_at partials ((c * ns + sol) mod 2 ^ 32); Some (mont_mul mont a v) } = Some (mont_mul mont a (partials ! (c * ns + sol)))"
        by simp
    qed
    then have "those (map (\<lambda>tid. ofold (\<lambda>c acc. do { v \<leftarrow> vec_at partials ((c * ns + sol) mod 2 ^ 32); Some (mont_mul mont acc v) })
        (grid_stride tid 256 nc) ?one) [0..<256]) = Some (map (acc sol) [0..<256])"
      by (intro those_map_Some)
    then show ?thesis using that by (simp add: final_block_def SQRT_REDUCE_BLOCK_def w_def Let_def)
  qed
  have s: "schedule ns (order env l ns)" using env by (simp add: gpu_ok_def)
  have "\<exists>out'. FinalReduce env l partials mont nc ns do_reduce out = Some out' \<and> length out' = length out
      \<and> (\<forall>k \<in> set (order env l ns). True \<longrightarrow> out' ! k = (if do_reduce then mont_reduce mont (w k) else w k))
      \<and> (\<forall>p. p \<notin> (\<lambda>k. k) ` {k \<in> set (order env l ns). True} \<longrightarrow> out' ! p = out ! p)"
    unfolding FinalReduce_def
    by (rule scatter [where v = "\<lambda>k _. if do_reduce then mont_reduce mont (w k) else w k" and pos = "\<lambda>k. k"])
       (use s run len(3) in \<open>auto simp: schedule_def\<close>)
  then show ?thesis using s form by (fastforce simp: schedule_def)
qed

lemma product_form:
  assumes p: "product_input sv mont K vals sb q" and env: "gpu_ok env" and K: "K + 255 < 2 ^ 32"
    and len: "grid K * num_solutions sv \<le> length out" "grid K * num_solutions sv \<le> 2 ^ 32" "num_solutions sv \<le> length out2"
  shows "\<exists>parts res. ComputeX_ChunkReduce env l vals sv mont K (grid K) out = Some parts
    \<and> FinalReduce env l2 parts mont (grid K) (num_solutions sv) do_reduce out2 = Some res \<and> length res = length out2
    \<and> (\<forall>sol < num_solutions sv. \<exists>x. mont_form mont x (\<Prod>i < K. if sb sol i then q i else 1)
        \<and> res ! sol = (if do_reduce then mont_reduce mont x else x))"
proof -
  obtain parts where parts: "ComputeX_ChunkReduce env l vals sv mont K (grid K) out = Some parts" "length parts = length out"
      "\<And>c sol. c < grid K \<Longrightarrow> sol < num_solutions sv \<Longrightarrow> mont_form mont (parts ! (c * num_solutions sv + sol)) (sel_prod (sb sol) q K c)"
    using chunk_reduce_form [OF p env K len(1,2)] by blast
  have "mont_ok mont" using p by (simp add: product_input_def)
  then have "\<exists>res. FinalReduce env l2 parts mont (grid K) (num_solutions sv) do_reduce out2 = Some res \<and> length res = length out2
    \<and> (\<forall>sol < num_solutions sv. \<exists>x. mont_form mont x (\<Prod>c < grid K. sel_prod (sb sol) q K c)
        \<and> res ! sol = (if do_reduce then mont_reduce mont x else x))"
    by (rule final_reduce_form [OF _ env]) (use parts(2,3) len in simp_all)
  then show ?thesis using parts(1) unfolding prod_sel_prod [OF grid_covers(1) [OF K]] by blast
qed

section \<open>The product X of all solutions\<close>

definition sol_bits :: "solution_view \<Rightarrow> nat \<Rightarrow> u64 list" where
  "sol_bits sv sol = take (words_per_vec sv) (drop (sol * words_per_vec sv) (d_data sv))"

text \<open>A readable solution matrix over \<open>K\<close> relations, and buffers large enough for a call.\<close>

definition view_ok :: "solution_view \<Rightarrow> nat \<Rightarrow> bool" where
  "view_ok sv K \<longleftrightarrow> K \<le> 64 * words_per_vec sv \<and> num_solutions sv * words_per_vec sv \<le> length (d_data sv)
     \<and> length (d_data sv) < 2 ^ 32"

definition sized :: "sqrt_bufs \<Rightarrow> nat \<Rightarrow> nat \<Rightarrow> nat \<Rightarrow> nat \<Rightarrow> bool" where
  "sized bufs K nnz fb n \<longleftrightarrow> allocated bufs \<and> K \<le> max_K bufs \<and> nnz \<le> max_nnz bufs \<and> fb \<le> max_fb bufs \<and> n \<le> max_n bufs
     \<and> length (d_X bufs) = max_n bufs \<and> length (d_Y bufs) = max_n bufs \<and> length (d_valid bufs) = max_n bufs
     \<and> length (d_factor_base_mont bufs) = max_fb bufs \<and> max_K bufs + 255 < 2 ^ 32 \<and> grid (max_K bufs) * max_n bufs \<le> 2 ^ 32"

lemma sized_alloc: "sized bufs K nnz fb n \<Longrightarrow> allocateDeviceBuffers env K nnz fb n bufs = bufs"
  by (simp add: sized_def allocateDeviceBuffers_def)

lemma sized_less: "sized bufs K nnz fb n \<Longrightarrow> sized bufs K nnz 0 n"
  by (simp add: sized_def)

lemma sized_grid:
  assumes "sized bufs K nnz fb n"
  shows "grid K * n \<le> grid (max_K bufs) * max_n bufs" and "grid K * n \<le> 2 ^ 32" and "K + 255 < 2 ^ 32"
proof -
  have "grid K \<le> grid (max_K bufs)" using assms by (simp add: sized_def grid_def div_le_mono)
  then show le: "grid K * n \<le> grid (max_K bufs) * max_n bufs" using assms by (simp add: sized_def mult_le_mono)
  then show "grid K * n \<le> 2 ^ 32" "K + 255 < 2 ^ 32" using assms by (simp_all add: sized_def)
qed

lemma fresh_sized:
  assumes "\<not> allocated bufs" and "K < 2 ^ 31 - 256" "nnz < 2 ^ 31" "fb < 2 ^ 31" "n < 2 ^ 31" and "grid (room K) * room n \<le> 2 ^ 32"
  shows "sized (allocateDeviceBuffers env K nnz fb n bufs) K nnz fb n"
proof -
  have r: "room m = 3 * m div 2" if "m < 2 ^ 31" for m using that by (simp add: room_def)
  have h: "k \<le> 3 * k div 2" for k :: nat by presburger
  have "K < 2147483392" using assms(2) by simp
  then have "3 * K div 2 + 255 < 4294967296" by presburger
  then show ?thesis
    using assms r [of K] r [of n] r [of nnz] r [of fb] h [of K] h [of n] h [of nnz] h [of fb]
    by (simp add: allocateDeviceBuffers_def sized_def)
qed

lemma bit_test: "drop_bit k w AND 1 \<noteq> 0 \<longleftrightarrow> w AND push_bit k 1 \<noteq> 0" for w :: u64
  by (simp add: and_one_eq bit_iff_odd_drop_bit [symmetric] bit_iff_and_push_bit_not_eq_0 odd_iff_mod_2_eq_one [symmetric])

lemma solution_bit_val:
  assumes "view_ok sv K" and "sol < num_solutions sv" and "i < K"
  shows "solution_bit sv sol i = Some (bit_set (sol_bits sv sol) i)"
proof -
  let ?w = "words_per_vec sv"
  have k: "i div 64 < ?w" using assms(1,3) by (simp add: view_ok_def less_mult_imp_div_less mult.commute)
  have "sol * ?w + i div 64 < Suc sol * ?w" using k by simp
  also have "\<dots> \<le> num_solutions sv * ?w" using assms(2) by (intro mult_le_mono1) simp
  finally have lt: "sol * ?w + i div 64 < length (d_data sv)" using assms(1) by (simp add: view_ok_def)
  then have "(sol * ?w + i div 64) mod 2 ^ 32 = sol * ?w + i div 64" using assms(1) by (simp add: view_ok_def)
  moreover have "sol_bits sv sol ! (i div 64) = d_data sv ! (sol * ?w + i div 64)"
    using k lt by (simp add: sol_bits_def)
  ultimately show ?thesis using lt by (simp add: solution_bit_def bit_set_def bit_test)
qed

lemma sol_bits_length:
  assumes "view_ok sv K" and "sol < num_solutions sv"
  shows "length (sol_bits sv sol) = words_per_vec sv"
proof -
  have "Suc sol * words_per_vec sv \<le> num_solutions sv * words_per_vec sv" using assms(2) by (intro mult_le_mono1) simp
  then have "sol * words_per_vec sv + words_per_vec sv \<le> length (d_data sv)" using assms(1) by (simp add: view_ok_def)
  then show ?thesis by (simp add: sol_bits_def)
qed

lemma prod_filter: "(\<Prod>i\<leftarrow>filter P [0..<n]. f i) = (\<Prod>i < n. if P i then f i else 1)" for f :: "nat \<Rightarrow> nat"
  by (induction n) (simp_all add: lessThan_Suc mult.commute)

lemma ComputeXBatchedGPU_val:
  assumes b: "batch_ok b" "n_rels b < 2 ^ 32" and N: "length N = 16" "odd (lval N)" "1 < lval N" and env: "gpu_ok env"
    and sv: "view_ok sv (n_rels b)"
    and sz: "sized bufs (n_rels b) (unat (num_factors b) mod 2 ^ 32) fb (num_solutions sv)"
  shows "\<exists>x. ComputeXBatchedGPU env N sv b bufs = Some (bufs\<lparr>d_X := x\<rparr>) \<and> length x = length (d_X bufs)
    \<and> (\<forall>sol < num_solutions sv. length (x ! sol) = 16
        \<and> lval (x ! sol) = (\<Prod>i\<leftarrow>chosen (sol_bits sv sol) b. unat (sqrt_Q b ! i)) mod lval N)"
proof -
  let ?K = "n_rels b" and ?mont = "Montgomery N"
  note g = sized_grid [OF sz]
  have ok: "mont_ok ?mont" by (rule Montgomery_ok [OF N])
  have n: "mont_N ?mont = N" by (simp add: Montgomery_def Let_def)
  have q: "?K \<le> length (sqrt_Q b)" using b(1) by (simp add: batch_ok_def)
  have qm: "TransformSqrtQ (order env 0 (256 * grid ?K)) ?mont (take ?K (sqrt_Q b)) ?K (map (junk env) [0..<max_K bufs])
      = Some (map (\<lambda>i. transform ?mont (limbs (sqrt_Q b ! i))) [0..<?K] @ drop ?K (map (junk env) [0..<max_K bufs]))"
    unfolding TransformSqrtQ_def
    by (rule store_kernel_val [where m = "256 * grid ?K"])
       (use env q sz grid_covers(1) [OF g(3)] in \<open>simp_all add: gpu_ok_def sized_def\<close>)
  define qs where "qs = map (\<lambda>i. transform ?mont (limbs (sqrt_Q b ! i))) [0..<?K] @ drop ?K (map (junk env) [0..<max_K bufs])"
  have "mont_form ?mont (transform ?mont (limbs (sqrt_Q b ! i))) (unat (sqrt_Q b ! i))" for i
    using transform_form [OF ok lval_limbs(1)] by (simp add: lval_limbs(2))
  then have inp: "product_input sv ?mont ?K qs (\<lambda>sol. bit_set (sol_bits sv sol)) (\<lambda>i. unat (sqrt_Q b ! i))"
    using ok solution_bit_val [OF sv] by (simp add: product_input_def qs_def nth_append)
  obtain parts x where px: "ComputeX_ChunkReduce env 1 qs sv ?mont ?K (grid ?K) (map (junk env) [0..<grid (max_K bufs) * max_n bufs]) = Some parts"
      "FinalReduce env 2 parts ?mont (grid ?K) (num_solutions sv) True (d_X bufs) = Some x" "length x = length (d_X bufs)"
      "\<forall>sol < num_solutions sv. \<exists>y. mont_form ?mont y (\<Prod>i < ?K. if bit_set (sol_bits sv sol) i then unat (sqrt_Q b ! i) else 1)
          \<and> x ! sol = mont_reduce ?mont y"
    using product_form [OF inp env g(3), of "map (junk env) [0..<grid (max_K bufs) * max_n bufs]" "d_X bufs" 1 2 True] g(1,2) sz
    by (auto simp: sized_def)
  have K: "?K mod 2 ^ 32 = ?K" using b(2) by simp
  have "ComputeXBatchedGPU env N sv b bufs = Some (bufs\<lparr>d_X := x\<rparr>)"
    unfolding ComputeXBatchedGPU_def Let_def K sized_alloc [OF sized_less [OF sz]]
    using q qm px(1,2) by (simp add: upload_def qs_def)
  moreover have "length (x ! sol) = 16 \<and> lval (x ! sol) = (\<Prod>i\<leftarrow>chosen (sol_bits sv sol) b. unat (sqrt_Q b ! i)) mod lval N"
    if "sol < num_solutions sv" for sol
    using px(4) that mont_reduce_val [where mc = ?mont] by (auto simp: n chosen_def prod_filter)
  ultimately show ?thesis using px(3) by blast
qed

section \<open>Summed exponents\<close>

definition cell_val :: "exp_mem \<Rightarrow> cell \<Rightarrow> u32" where
  "cell_val mem c = (case c of SignCount i \<Rightarrow> d_sign_counts mem ! i | Exp2 i \<Rightarrow> d_exp2_accum mem ! i | ExpMatrix i \<Rightarrow> d_exp_matrix mem ! i)"

definition cell_ok :: "exp_mem \<Rightarrow> cell \<Rightarrow> bool" where
  "cell_ok mem c \<longleftrightarrow> (case c of SignCount i \<Rightarrow> i < length (d_sign_counts mem) | Exp2 i \<Rightarrow> i < length (d_exp2_accum mem)
     | ExpMatrix i \<Rightarrow> i < length (d_exp_matrix mem))"

definition same_shape :: "exp_mem \<Rightarrow> exp_mem \<Rightarrow> bool" where
  "same_shape mem mem' \<longleftrightarrow> length (d_sign_counts mem) = length (d_sign_counts mem')
     \<and> length (d_exp2_accum mem) = length (d_exp2_accum mem') \<and> length (d_exp_matrix mem) = length (d_exp_matrix mem')"

definition amount :: "(cell \<times> u32) list \<Rightarrow> cell \<Rightarrow> u32" where
  "amount ops c = (\<Sum>(c', v)\<leftarrow>ops. if c' = c then v else 0)"

lemma amount_simps [simp]:
  "amount [] c = 0" "amount ((c', v) # ops) c = (if c' = c then v else 0) + amount ops c"
  "amount (ops @ ops') c = amount ops c + amount ops' c"
  by (simp_all add: amount_def)

lemma amount_mset: "mset ops = mset ops' \<Longrightarrow> amount ops c = amount ops' c"
  by (simp only: amount_def sum_mset_sum_list [symmetric] mset_map)

lemma amount_concat: "amount (concat (map f [0..<n])) c = (\<Sum>t < n. amount (f t) c)"
  by (induction n) (simp_all add: lessThan_Suc add.commute)

lemma atomic_adds:
  assumes "\<forall>op \<in> set ops. cell_ok mem (fst op)"
  shows "\<exists>mem'. ofold atomic_add ops mem = Some mem' \<and> same_shape mem mem'
    \<and> (\<forall>c. cell_ok mem c \<longrightarrow> cell_val mem' c = cell_val mem c + amount ops c)"
  using assms
proof (induction ops arbitrary: mem)
  case Nil
  then show ?case by (simp add: same_shape_def)
next
  case (Cons op ops)
  obtain c v where op: "op = (c, v)" by fastforce
  obtain mem1 where mem1: "atomic_add (c, v) mem = Some mem1" "same_shape mem mem1"
      "\<And>c'. cell_ok mem c' \<Longrightarrow> cell_val mem1 c' = cell_val mem c' + (if c = c' then v else 0)"
  proof (rule that)
    have ok: "cell_ok mem c" using Cons.prems by (simp add: op)
    define mem1 where "mem1 = the (atomic_add (c, v) mem)"
    show "atomic_add (c, v) mem = Some mem1" "same_shape mem mem1"
      using ok by (auto simp: mem1_def atomic_add_def cell_ok_def same_shape_def split: cell.splits)
    show "cell_val mem1 c' = cell_val mem c' + (if c = c' then v else 0)" if "cell_ok mem c'" for c'
      using ok that by (auto simp: mem1_def atomic_add_def cell_ok_def cell_val_def nth_list_update split: cell.splits)
  qed
  have ok: "cell_ok mem1 c' \<longleftrightarrow> cell_ok mem c'" for c'
    using mem1(2) by (auto simp: cell_ok_def same_shape_def split: cell.splits)
  then have "\<forall>op \<in> set ops. cell_ok mem1 (fst op)" using Cons.prems by simp
  from Cons.IH [OF this] obtain mem' where mem': "ofold atomic_add ops mem1 = Some mem'" "same_shape mem1 mem'"
      "\<forall>c. cell_ok mem c \<longrightarrow> cell_val mem' c = cell_val mem1 c + amount ops c"
    by (auto simp: ok)
  have "same_shape mem mem'" using mem1(2) mem'(2) by (simp add: same_shape_def)
  with mem1 mem' show ?case by (simp add: op add.assoc)
qed

text \<open>The additions of one relation.\<close>

definition relation_adds :: "nat \<Rightarrow> nat \<Rightarrow> relation \<Rightarrow> (cell \<times> u32) list" where
  "relation_adds fb_size sol r = (if r_sign r \<noteq> 1 then [(SignCount sol, 1)] else []) @ [(Exp2 sol, r_val_2_exp r)]
     @ map (\<lambda>(ix, c). (ExpMatrix ((sol * fb_size + unat ix) mod 2 ^ 32), ucast c)) (r_factors r)"

lemma thread_adds_eq:
  assumes "batch_ok b" and "view_ok sv K" and "K \<le> n_rels b"
  shows "thread_adds sv b K fb_size sol i = Some (if sol < num_solutions sv \<and> i < K \<and> bit_set (sol_bits sv sol) i
      then relation_adds fb_size sol (rel_at b i) else [])"
proof (cases "sol < num_solutions sv \<and> i < K \<and> bit_set (sol_bits sv sol) i")
  case True
  then have i: "i < n_rels b" using assms(3) by simp
  have off: "offsets_ok b" and len: "i < length (signs b)" "i < length (val_2_exps b)"
    using assms(1) i by (auto simp: batch_ok_def)
  have app: "fold (\<lambda>(ix, c) ops. ops @ [(ExpMatrix ((sol * fb_size + unat ix) mod 2 ^ 32), ucast c)]) fs ops
      = ops @ map (\<lambda>(ix, c). (ExpMatrix ((sol * fb_size + unat ix) mod 2 ^ 32), ucast c)) fs" for fs :: "(u32 \<times> u8) list" and ops :: "(cell \<times> u32) list"
    by (induction fs arbitrary: ops) auto
  have run: "ofold (\<lambda>k ops. do {
         fb_idx \<leftarrow> vec_at (factor_indices b) k;
         count \<leftarrow> vec_at (factor_counts b) k;
         Some (ops @ [(ExpMatrix ((sol * fb_size + unat fb_idx) mod 2 ^ 32), ucast count)])
       }) [unat (factor_offsets b ! i)..<unat (factor_offsets b ! (i + 1))] ops
      = Some (ops @ map (\<lambda>(ix, c). (ExpMatrix ((sol * fb_size + unat ix) mod 2 ^ 32), ucast c)) (row b i))" for ops :: "(cell \<times> u32) list"
  proof -
    have "ofold (\<lambda>k ops. do {
         fb_idx \<leftarrow> vec_at (factor_indices b) k;
         count \<leftarrow> vec_at (factor_counts b) k;
         Some (ops @ [(ExpMatrix ((sol * fb_size + unat fb_idx) mod 2 ^ 32), ucast count)])
       }) [unat (factor_offsets b ! i)..<unat (factor_offsets b ! (i + 1))] ops
      = Some (fold (\<lambda>(ix, c) ops. ops @ [(ExpMatrix ((sol * fb_size + unat ix) mod 2 ^ 32), ucast c)]) (row b i) ops)"
      by (rule ofold_row [OF off i]) simp
    then show ?thesis by (simp only: app)
  qed
  show ?thesis
    using True offsets_okD(1) [OF off i] len solution_bit_val [OF assms(2)]
    by (simp add: thread_adds_def relation_adds_def rel_at_def run [simplified])
next
  case False
  then show ?thesis using solution_bit_val [OF assms(2)] by (auto simp: thread_adds_def)
qed

lemma relation_amount:
  assumes "\<forall>ix \<in> fst ` set (r_factors r). unat ix < fb_size" and "ns * fb_size \<le> 2 ^ 32" "sol < ns" "s < ns"
  shows "amount (relation_adds fb_size sol r) (SignCount s) = (if sol = s \<and> r_sign r \<noteq> 1 then 1 else 0)"
    and "amount (relation_adds fb_size sol r) (Exp2 s) = (if sol = s then r_val_2_exp r else 0)"
    and "p < fb_size \<Longrightarrow> amount (relation_adds fb_size sol r) (ExpMatrix (s * fb_size + p)) = (if sol = s then of_nat (fb_exp r p) else 0)"
    and "\<forall>op \<in> set (relation_adds fb_size sol r). case fst op of SignCount i \<Rightarrow> i = sol | Exp2 i \<Rightarrow> i = sol | ExpMatrix i \<Rightarrow> i < ns * fb_size"
proof -
  let ?ops = "map (\<lambda>(ix, c). (ExpMatrix ((sol * fb_size + unat ix) mod 2 ^ 32), ucast c)) :: (u32 \<times> u8) list \<Rightarrow> (cell \<times> u32) list"
  have z: "amount (?ops fs) (SignCount s) = 0" "amount (?ops fs) (Exp2 s) = 0" for fs
    by (induction fs) auto
  show "amount (relation_adds fb_size sol r) (SignCount s) = (if sol = s \<and> r_sign r \<noteq> 1 then 1 else 0)"
    "amount (relation_adds fb_size sol r) (Exp2 s) = (if sol = s then r_val_2_exp r else 0)"
    using z [of "r_factors r"] by (simp_all add: relation_adds_def)
  have lt: "m * fb_size + x < ns * fb_size" if "x < fb_size" "m < ns" for x m
  proof -
    have "m * fb_size + x < Suc m * fb_size" using that(1) by simp
    also have "\<dots> \<le> ns * fb_size" using that(2) by (intro mult_le_mono1) simp
    finally show ?thesis .
  qed
  have idx: "(m * fb_size + x) mod 2 ^ 32 = m * fb_size + x" if "x < fb_size" "m < ns" for x m
    using less_le_trans [OF lt [OF that] assms(2)] by simp
  have eq: "sol * fb_size + x = s * fb_size + p \<longleftrightarrow> sol = s \<and> x = p" if "x < fb_size" "p < fb_size" for x p
  proof
    assume e: "sol * fb_size + x = s * fb_size + p"
    have "sol = s" using arg_cong [OF e, of "\<lambda>v. v div fb_size"] that by simp
    then show "sol = s \<and> x = p" using e by simp
  qed simp
  show "amount (relation_adds fb_size sol r) (ExpMatrix (s * fb_size + p)) = (if sol = s then of_nat (fb_exp r p) else 0)" if "p < fb_size"
  proof -
    have "\<forall>ix \<in> fst ` set fs. unat ix < fb_size \<Longrightarrow> amount (?ops fs) (ExpMatrix (s * fb_size + p))
        = (if sol = s then of_nat (\<Sum>(ix, c)\<leftarrow>fs. if unat ix = p then unat c else 0) else 0)" for fs
      by (induction fs) (auto simp: idx [simplified] eq that assms(3,4))
    from this [OF assms(1)] show ?thesis by (simp add: relation_adds_def fb_exp_def)
  qed
  show "\<forall>op \<in> set (relation_adds fb_size sol r). case fst op of SignCount i \<Rightarrow> i = sol | Exp2 i \<Rightarrow> i = sol | ExpMatrix i \<Rightarrow> i < ns * fb_size"
    using assms(1,3) lt by (force simp: relation_adds_def idx [simplified])
qed

lemma sum_div_mod:
  fixes h :: "nat \<Rightarrow> nat \<Rightarrow> 'a::comm_monoid_add"
  assumes "0 < W"
  shows "(\<Sum>t < n * W. h (t div W) (t mod W)) = (\<Sum>m < n. \<Sum>i < W. h m i)"
proof -
  have "(\<Sum>i < W. h m i) = (\<Sum>t \<in> {m * W..<m * W + W}. h (t div W) (t mod W))" for m
    using sum.shift_bounds_nat_ivl [of "\<lambda>t. h (t div W) (t mod W)" 0 "m * W" W] assms
    by (simp add: atLeast0LessThan add.commute)
  then show ?thesis by (simp add: sum.nat_group)
qed

lemma sum_filter: "(\<Sum>i\<leftarrow>filter P [0..<n]. f i) = (\<Sum>i < n. if P i then f i else 0)" for f :: "nat \<Rightarrow> 'a::comm_monoid_add"
  by (induction n) (simp_all add: lessThan_Suc add.commute)

text \<open>The relations of a solution.\<close>

definition sol_rels :: "solution_view \<Rightarrow> batch \<Rightarrow> nat \<Rightarrow> relation list" where
  "sol_rels sv b sol = map (rel_at b) (chosen (sol_bits sv sol) b)"

definition factors_fit :: "nat \<Rightarrow> relation list \<Rightarrow> bool" where
  "factors_fit fb_size rs \<longleftrightarrow> (\<forall>r \<in> set rs. \<forall>ix \<in> fst ` set (r_factors r). unat ix < fb_size)"

lemma cell_amount:
  fixes c :: cell and w :: "relation \<Rightarrow> u32"
  assumes "0 < W" "n_rels b \<le> W" "s < ns"
    and "\<And>sol r. sol < ns \<Longrightarrow> r \<in> set (sol_rels sv b sol) \<Longrightarrow> amount (relation_adds fb_size sol r) c = (if sol = s then w r else 0)"
  shows "(\<Sum>t < ns * W. amount (if t div W < ns \<and> t mod W < n_rels b \<and> bit_set (sol_bits sv (t div W)) (t mod W)
      then relation_adds fb_size (t div W) (rel_at b (t mod W)) else []) c) = (\<Sum>r\<leftarrow>sol_rels sv b s. w r)"
proof -
  define h where "h m i = amount (if m < ns \<and> i < n_rels b \<and> bit_set (sol_bits sv m) i
      then relation_adds fb_size m (rel_at b i) else []) c" for m i
  have h: "h m i = (if m = s \<and> i < n_rels b \<and> bit_set (sol_bits sv s) i then w (rel_at b i) else 0)" if "m < ns" for m i
    using assms(4) [OF that, of "rel_at b i"] that by (auto simp: h_def sol_rels_def chosen_def)
  have "(\<Sum>t < ns * W. h (t div W) (t mod W)) = (\<Sum>m < ns. \<Sum>i < W. h m i)" by (rule sum_div_mod [OF assms(1)])
  also have "\<dots> = (\<Sum>m < ns. if m = s then \<Sum>i < W. if i < n_rels b \<and> bit_set (sol_bits sv s) i then w (rel_at b i) else 0 else 0)"
    by (intro sum.cong) (auto simp: h intro!: sum.neutral)
  also have "\<dots> = (\<Sum>i < W. if i < n_rels b \<and> bit_set (sol_bits sv s) i then w (rel_at b i) else 0)"
    using assms(3) by simp
  also have "\<dots> = (\<Sum>i < n_rels b. if bit_set (sol_bits sv s) i then w (rel_at b i) else 0)"
    using assms(2) by (intro sum.mono_neutral_cong_right) auto
  also have "\<dots> = (\<Sum>r\<leftarrow>sol_rels sv b s. w r)" by (simp add: sol_rels_def chosen_def sum_filter comp_def)
  finally show ?thesis by (simp add: h_def)
qed

lemma AccumExponents_val:
  fixes fb_size :: nat
  assumes b: "batch_ok b" and sv: "view_ok sv (n_rels b)" and env: "gpu_ok env" and K: "n_rels b + 255 < 2 ^ 32" "0 < n_rels b"
    and fit: "\<And>sol. sol < num_solutions sv \<Longrightarrow> factors_fit fb_size (sol_rels sv b sol)"
    and size: "num_solutions sv * fb_size \<le> 2 ^ 32"
  defines "mem \<equiv> \<lparr>d_exp_matrix = replicate (num_solutions sv * fb_size) 0, d_sign_counts = replicate (num_solutions sv) 0,
      d_exp2_accum = replicate (num_solutions sv) 0\<rparr>"
  shows "\<exists>mem'. AccumExponents_Parallel env sv b (n_rels b) fb_size (grid (n_rels b)) mem = Some mem' \<and> same_shape mem mem'
    \<and> (\<forall>s < num_solutions sv. d_sign_counts mem' ! s = of_nat (neg_count (sol_rels sv b s))
        \<and> d_exp2_accum mem' ! s = (\<Sum>r\<leftarrow>sol_rels sv b s. r_val_2_exp r)
        \<and> (\<forall>p < fb_size. d_exp_matrix mem' ! (s * fb_size + p) = of_nat (prime_exp (sol_rels sv b s) p)))"
proof -
  let ?ns = "num_solutions sv" and ?K = "n_rels b" and ?W = "grid (n_rels b) * 256"
  define g where "g t = (if t div ?W < ?ns \<and> t mod ?W < ?K \<and> bit_set (sol_bits sv (t div ?W)) (t mod ?W)
      then relation_adds fb_size (t div ?W) (rel_at b (t mod ?W)) else [])" for t
  note gc = grid_covers [OF K(1)]
  have W: "0 < ?W" "?K \<le> ?W" "?W < 2 ^ 32" using gc K by simp_all
  have mm: "t mod ?W mod 2 ^ 32 = t mod ?W" for t using mod_less_divisor [OF W(1), of t] W(3) by simp
  have ops: "those (map (\<lambda>t. thread_adds sv b ?K fb_size (t div ?W) (t mod ?W mod 2 ^ 32)) [0..<?ns * ?W]) = Some (map g [0..<?ns * ?W])"
    unfolding mm g_def by (rule those_map_Some) (rule thread_adds_eq [OF b sv order_refl])
  define ops' where "ops' = atomics env (concat (map g [0..<?ns * ?W]))"
  have ms: "mset ops' = mset (concat (map g [0..<?ns * ?W]))" using env by (simp add: gpu_ok_def ops'_def)
  have ra: "amount (relation_adds fb_size sol r) (SignCount s) = (if sol = s then if r_sign r \<noteq> 1 then 1 else 0 else 0)"
    "amount (relation_adds fb_size sol r) (Exp2 s) = (if sol = s then r_val_2_exp r else 0)"
    "p < fb_size \<Longrightarrow> amount (relation_adds fb_size sol r) (ExpMatrix (s * fb_size + p)) = (if sol = s then of_nat (fb_exp r p) else 0)"
    "\<forall>op \<in> set (relation_adds fb_size sol r). case fst op of SignCount i \<Rightarrow> i = sol | Exp2 i \<Rightarrow> i = sol | ExpMatrix i \<Rightarrow> i < ?ns * fb_size"
    if "sol < ?ns" "s < ?ns" "r \<in> set (sol_rels sv b sol)" for sol s r p
  proof -
    have f: "\<forall>ix \<in> fst ` set (r_factors r). unat ix < fb_size" using fit [OF that(1)] that(3) by (simp add: factors_fit_def)
    note ra = relation_amount [OF f size that(1,2)]
    show "amount (relation_adds fb_size sol r) (SignCount s) = (if sol = s then if r_sign r \<noteq> 1 then 1 else 0 else 0)" using ra(1) by simp
    show "amount (relation_adds fb_size sol r) (Exp2 s) = (if sol = s then r_val_2_exp r else 0)" by (rule ra(2))
    show "p < fb_size \<Longrightarrow> amount (relation_adds fb_size sol r) (ExpMatrix (s * fb_size + p)) = (if sol = s then of_nat (fb_exp r p) else 0)" by (rule ra(3))
    show "\<forall>op \<in> set (relation_adds fb_size sol r). case fst op of SignCount i \<Rightarrow> i = sol | Exp2 i \<Rightarrow> i = sol | ExpMatrix i \<Rightarrow> i < ?ns * fb_size" by (rule ra(4))
  qed
  have cells: "cell_ok mem (fst op)" if "op \<in> set ops'" for op
  proof -
    have "op \<in> set (concat (map g [0..<?ns * ?W]))" using that ms by (metis set_mset_mset)
    then obtain t where t: "t div ?W < ?ns" "t mod ?W < ?K" "bit_set (sol_bits sv (t div ?W)) (t mod ?W)"
        "op \<in> set (relation_adds fb_size (t div ?W) (rel_at b (t mod ?W)))"
      by (auto simp: g_def split: if_splits)
    then have "rel_at b (t mod ?W) \<in> set (sol_rels sv b (t div ?W))" by (simp add: sol_rels_def chosen_def)
    from ra(4) [OF t(1) t(1) this] t(1,4) show ?thesis by (fastforce simp: cell_ok_def mem_def split: cell.splits)
  qed
  then obtain mem' where mem': "ofold atomic_add ops' mem = Some mem'" "same_shape mem mem'"
      "\<forall>c. cell_ok mem c \<longrightarrow> cell_val mem' c = cell_val mem c + amount ops' c"
    using atomic_adds [of ops' mem] by blast
  have am: "amount ops' c = (\<Sum>t < ?ns * ?W. amount (g t) c)" for c using amount_mset [OF ms] amount_concat by simp
  have tot: "amount ops' c = (\<Sum>r\<leftarrow>sol_rels sv b s. w r)"
    if "s < ?ns" "\<And>sol r. sol < ?ns \<Longrightarrow> r \<in> set (sol_rels sv b sol) \<Longrightarrow> amount (relation_adds fb_size sol r) c = (if sol = s then w r else 0)"
    for s w c
    unfolding am g_def by (rule cell_amount [OF W(1,2) that])
  have "d_sign_counts mem' ! s = of_nat (neg_count (sol_rels sv b s)) \<and> d_exp2_accum mem' ! s = (\<Sum>r\<leftarrow>sol_rels sv b s. r_val_2_exp r)
        \<and> (\<forall>p < fb_size. d_exp_matrix mem' ! (s * fb_size + p) = of_nat (prime_exp (sol_rels sv b s) p))" if s: "s < ?ns" for s
  proof (intro conjI allI impI)
    have "d_sign_counts mem' ! s = (\<Sum>r\<leftarrow>sol_rels sv b s. if r_sign r \<noteq> 1 then 1 else 0)"
      using mem'(3) [rule_format, of "SignCount s"] s tot [OF s, of "SignCount s" "\<lambda>r. if r_sign r \<noteq> 1 then 1 else 0"] ra(1)
      by (simp add: cell_ok_def cell_val_def mem_def)
    also have "\<dots> = of_nat (neg_count (sol_rels sv b s))"
    proof -
      have "(\<Sum>r\<leftarrow>rs. if r_sign r \<noteq> 1 then 1 else 0) = (of_nat (neg_count rs) :: u32)" for rs by (induction rs) (simp_all add: neg_count_def)
      then show ?thesis .
    qed
    finally show "d_sign_counts mem' ! s = of_nat (neg_count (sol_rels sv b s))" .
    show "d_exp2_accum mem' ! s = (\<Sum>r\<leftarrow>sol_rels sv b s. r_val_2_exp r)"
      using mem'(3) [rule_format, of "Exp2 s"] s tot [OF s, of "Exp2 s" r_val_2_exp] ra(2)
      by (simp add: cell_ok_def cell_val_def mem_def)
    fix p assume p: "p < fb_size"
    have "s * fb_size + p < Suc s * fb_size" using p by simp
    also have "\<dots> \<le> ?ns * fb_size" using s by (intro mult_le_mono1) simp
    finally have "d_exp_matrix mem' ! (s * fb_size + p) = (\<Sum>r\<leftarrow>sol_rels sv b s. of_nat (fb_exp r p))"
      using mem'(3) [rule_format, of "ExpMatrix (s * fb_size + p)"] s
        tot [OF s, of "ExpMatrix (s * fb_size + p)" "\<lambda>r. of_nat (fb_exp r p)"] ra(3) [OF _ s _ p]
      by (simp add: cell_ok_def cell_val_def mem_def)
    moreover have "(\<Sum>r\<leftarrow>rs. of_nat (fb_exp r p)) = (of_nat (prime_exp rs p) :: u32)" for rs
      by (induction rs) (simp_all add: prime_exp_def)
    ultimately show "d_exp_matrix mem' ! (s * fb_size + p) = of_nat (prime_exp (sol_rels sv b s) p)" by simp
  qed
  moreover have "AccumExponents_Parallel env sv b ?K fb_size (grid ?K) mem = Some mem'"
    using ops mem'(1) by (simp add: AccumExponents_Parallel_def SQRT_CHUNK_SIZE_def ops'_def)
  ultimately show ?thesis using mem'(2) by blast
qed

section \<open>Halving\<close>

lemma flat_index:
  fixes sol ns x w :: nat
  assumes "sol < ns" and "x < w"
  shows "sol * w + x < ns * w"
proof -
  have "sol * w + x < Suc sol * w" using assms(2) by simp
  also have "\<dots> \<le> ns * w" using assms(1) by (intro mult_le_mono1) simp
  finally show ?thesis .
qed

lemma flat_index_eq: "x < w \<Longrightarrow> y < w \<Longrightarrow> a * w + x = b * w + y \<longleftrightarrow> a = b \<and> x = y" for a b x y w :: nat
proof
  assume lt: "x < w" "y < w" and e: "a * w + x = b * w + y"
  have "a = b" using arg_cong [OF e, of "\<lambda>v. v div w"] lt by simp
  then show "a = b \<and> x = y" using e by simp
qed simp

lemma or_split: "Z' \<longleftrightarrow> Z \<or> e \<and> z \<Longrightarrow> M' \<longleftrightarrow> M \<or> e \<and> x \<Longrightarrow> (e \<Longrightarrow> A \<longleftrightarrow> B)
    \<Longrightarrow> Z' \<and> A \<or> M' \<longleftrightarrow> (Z \<and> A \<or> M) \<or> e \<and> (z \<and> B \<or> x)"
  by (cases e) auto

lemma halve_thread_eq:
  assumes "sol < ns" "ns \<le> length (d_sign_counts mem)" "ns \<le> length (d_exp2_accum mem)" "ns * fb \<le> length (d_exp_matrix mem)"
    and "ns * fb \<le> 2 ^ 32" "ns \<le> length valid"
  shows "halve_thread ns fb sol p (mem, valid) = Some (mem\<lparr>
      d_exp2_accum := (if p = 0 then (d_exp2_accum mem)[sol := drop_bit 1 (d_exp2_accum mem ! sol)] else d_exp2_accum mem),
      d_exp_matrix := (if p < fb then (d_exp_matrix mem)[sol * fb + p := drop_bit 1 (d_exp_matrix mem ! (sol * fb + p))] else d_exp_matrix mem)\<rparr>,
    if p = 0 \<and> (odd (d_sign_counts mem ! sol) \<or> odd (d_exp2_accum mem ! sol)) \<or> p < fb \<and> odd (d_exp_matrix mem ! (sol * fb + p))
    then valid[sol := 0] else valid)"
proof -
  have f: "flag_odd v sol va = Some (if odd v then va[sol := 0] else va)" if "length va = length valid" for v va
    using assms(1,6) that by (simp add: flag_odd_def and_1_odd_word vec_put_def)
  have i: "(sol * fb + p) mod 2 ^ 32 = sol * fb + p" "sol * fb + p < length (d_exp_matrix mem)" if "p < fb"
    using flat_index [OF assms(1) that] assms(4,5) by simp_all
  show ?thesis
    using assms(1-3) i by (cases "p < fb"; cases "p = 0") (simp_all add: halve_thread_def f Let_def)
qed

lemma HalveExponents_val:
  fixes fb ns :: nat
  assumes env: "gpu_ok env" and fb: "fb + 255 < 2 ^ 32" "0 < fb" and size: "ns * fb \<le> 2 ^ 32"
    and len: "length (d_sign_counts mem) = ns" "length (d_exp2_accum mem) = ns" "length (d_exp_matrix mem) = ns * fb" "ns \<le> length valid"
  shows "\<exists>mem' valid'. HalveExponents env l ns fb (mem, valid) = Some (mem', valid') \<and> same_shape mem mem' \<and> length valid' = length valid
    \<and> d_sign_counts mem' = d_sign_counts mem
    \<and> (\<forall>s < ns. d_exp2_accum mem' ! s = drop_bit 1 (d_exp2_accum mem ! s)
        \<and> (\<forall>p < fb. d_exp_matrix mem' ! (s * fb + p) = drop_bit 1 (d_exp_matrix mem ! (s * fb + p)))
        \<and> valid' ! s = (if odd (d_sign_counts mem ! s) \<or> odd (d_exp2_accum mem ! s) \<or> (\<exists>p < fb. odd (d_exp_matrix mem ! (s * fb + p)))
            then 0 else valid ! s))"
proof -
  let ?W = "256 * grid fb"
  note gc = grid_covers [OF fb(1)]
  have W: "fb \<le> ?W" "0 < ?W" using gc fb(2) by simp_all
  define bad where "bad T s \<longleftrightarrow> s * ?W \<in> T \<and> (odd (d_sign_counts mem ! s) \<or> odd (d_exp2_accum mem ! s))
      \<or> (\<exists>p < fb. s * ?W + p \<in> T \<and> odd (d_exp_matrix mem ! (s * fb + p)))" for T s
  define inv where "inv T m va \<longleftrightarrow> same_shape mem m \<and> length va = length valid \<and> d_sign_counts m = d_sign_counts mem
      \<and> (\<forall>s < ns. d_exp2_accum m ! s = (if s * ?W \<in> T then drop_bit 1 (d_exp2_accum mem ! s) else d_exp2_accum mem ! s)
        \<and> (\<forall>p < fb. d_exp_matrix m ! (s * fb + p) = (if s * ?W + p \<in> T then drop_bit 1 (d_exp_matrix mem ! (s * fb + p)) else d_exp_matrix mem ! (s * fb + p)))
        \<and> va ! s = (if bad T s then 0 else valid ! s))" for T m va
  have step: "\<exists>m' va'. halve_thread ns fb (t div ?W) (t mod ?W) (m, va) = Some (m', va') \<and> inv (insert t T) m' va'"
    if I: "inv T m va" and t: "t < ns * ?W" "t \<notin> T" for T m va t
  proof -
    define sol p where "sol = t div ?W" and "p = t mod ?W"
    have sp: "sol < ns" "p < ?W" "t = sol * ?W + p"
      using less_mult_imp_div_less [OF t(1)] mod_less_divisor [OF W(2)] div_mult_mod_eq [of t ?W] by (simp_all only: sol_def p_def)
    have mem_t: "s * ?W + q = t \<longleftrightarrow> s = sol \<and> q = p" if "q < ?W" for s q
      unfolding sp(3) by (rule flat_index_eq [OF that sp(2)])
    have mem_t0: "s * ?W = t \<longleftrightarrow> s = sol \<and> p = 0" for s using mem_t [of 0 s] W(2) by auto
    have same: "same_shape mem m" using I by (simp only: inv_def)
    have shape: "length (d_sign_counts m) = ns" "length (d_exp2_accum m) = ns" "length (d_exp_matrix m) = ns * fb" "length va = length valid"
    proof -
      have "length va = length valid" using I by (simp only: inv_def)
      with same show "length (d_sign_counts m) = ns" "length (d_exp2_accum m) = ns" "length (d_exp_matrix m) = ns * fb" "length va = length valid"
        using len unfolding same_shape_def by metis+
    qed
    have E: "d_exp_matrix m ! (sol * fb + p) = d_exp_matrix mem ! (sol * fb + p)" if "p < fb"
      using I sp(1,3) t(2) that by (simp add: inv_def)
    have X: "d_exp2_accum m ! sol = d_exp2_accum mem ! sol" if "p = 0" using I sp(1,3) t(2) that by (simp add: inv_def)
    have S: "d_sign_counts m = d_sign_counts mem" using I by (simp add: inv_def)
    define m' where "m' = m\<lparr>
      d_exp2_accum := (if p = 0 then (d_exp2_accum m)[sol := drop_bit 1 (d_exp2_accum m ! sol)] else d_exp2_accum m),
      d_exp_matrix := (if p < fb then (d_exp_matrix m)[sol * fb + p := drop_bit 1 (d_exp_matrix m ! (sol * fb + p))] else d_exp_matrix m)\<rparr>"
    define odd_now where "odd_now \<longleftrightarrow> p = 0 \<and> (odd (d_sign_counts m ! sol) \<or> odd (d_exp2_accum m ! sol)) \<or> p < fb \<and> odd (d_exp_matrix m ! (sol * fb + p))"
    have run: "halve_thread ns fb sol p (m, va) = Some (m', if odd_now then va[sol := 0] else va)"
      using halve_thread_eq [OF sp(1), of m fb va p] shape len(4) size by (simp add: m'_def odd_now_def)
    have bad': "bad (insert t T) s \<longleftrightarrow> bad T s \<or> s = sol \<and> odd_now" for s
    proof -
      have "(\<exists>q < fb. s * ?W + q \<in> insert t T \<and> odd (d_exp_matrix mem ! (s * fb + q)))
          \<longleftrightarrow> (\<exists>q < fb. s * ?W + q \<in> T \<and> odd (d_exp_matrix mem ! (s * fb + q))) \<or> s = sol \<and> p < fb \<and> odd (d_exp_matrix mem ! (sol * fb + p))"
        (is "?l \<longleftrightarrow> ?r")
      proof
        assume ?l
        then obtain q where q: "q < fb" "s * ?W + q \<in> insert t T" "odd (d_exp_matrix mem ! (s * fb + q))" by blast
        then show ?r using mem_t [OF less_le_trans [OF q(1) W(1)], of s] by (cases "s * ?W + q = t") auto
      next
        assume ?r
        then show ?l using sp(3) by auto
      qed
      note m1 = this
      have o1: "odd_now \<longleftrightarrow> p = 0 \<and> (odd (d_sign_counts mem ! sol) \<or> odd (d_exp2_accum mem ! sol)) \<or> p < fb \<and> odd (d_exp_matrix mem ! (sol * fb + p))"
        unfolding odd_now_def S using E X by (cases "p = 0"; cases "p < fb") simp_all
      have o2: "s * ?W \<in> insert t T \<longleftrightarrow> s * ?W \<in> T \<or> s = sol \<and> p = 0" using mem_t0 [of s] by blast
      show ?thesis unfolding bad_def o1 by (rule or_split [OF o2 m1]) (simp only:)
    qed
    have "inv (insert t T) m' (if odd_now then va[sol := 0] else va)"
      unfolding inv_def
    proof (intro conjI allI impI)
      show "same_shape mem m'" using same by (simp add: same_shape_def m'_def)
      show "length (if odd_now then va[sol := 0] else va) = length valid" using shape(4) by simp
      show "d_sign_counts m' = d_sign_counts mem" using S by (simp add: m'_def)
      fix s assume s: "s < ns"
      show "d_exp2_accum m' ! s = (if s * ?W \<in> insert t T then drop_bit 1 (d_exp2_accum mem ! s) else d_exp2_accum mem ! s)"
        using I s shape(2) sp(1) X by (auto simp: inv_def m'_def mem_t0 nth_list_update)
      show "(if odd_now then va[sol := 0] else va) ! s = (if bad (insert t T) s then 0 else valid ! s)"
        using I s shape(4) sp(1) len(4) by (auto simp: inv_def bad' nth_list_update)
      fix q assume q: "q < fb"
      have i: "sol * fb + p < ns * fb" if "p < fb" by (rule flat_index [OF sp(1) that])
      show "d_exp_matrix m' ! (s * fb + q)
          = (if s * ?W + q \<in> insert t T then drop_bit 1 (d_exp_matrix mem ! (s * fb + q)) else d_exp_matrix mem ! (s * fb + q))"
        using I s q shape(3) E i mem_t [OF less_le_trans [OF q W(1)], of s] flat_index_eq [OF q, of p s sol]
        by (cases "p < fb") (auto simp: inv_def m'_def nth_list_update)
    qed
    with run show ?thesis by (auto simp: sol_def p_def)
  qed
  have loop: "\<exists>m' va'. ofold (\<lambda>t. halve_thread ns fb (t div ?W) (t mod ?W)) ts (m, va) = Some (m', va') \<and> inv (T \<union> set ts) m' va'"
    if "inv T m va" "distinct ts" "set ts \<subseteq> {0..<ns * ?W}" "set ts \<inter> T = {}" for ts T m va
    using that
  proof (induction ts arbitrary: T m va)
    case (Cons t ts)
    then obtain m1 va1 where m1: "halve_thread ns fb (t div ?W) (t mod ?W) (m, va) = Some (m1, va1)" "inv (insert t T) m1 va1"
      using step [of T m va t] by auto
    from Cons.IH [OF m1(2)] Cons.prems m1(1) show ?case by auto
  qed auto
  have s: "schedule (ns * ?W) (order env l (ns * ?W))" using env by (simp add: gpu_ok_def)
  have "inv {} mem valid" by (simp add: inv_def bad_def same_shape_def)
  from loop [OF this, of "order env l (ns * ?W)"] s obtain m' va' where
    m': "HalveExponents env l ns fb (mem, valid) = Some (m', va')" "inv {0..<ns * ?W} m' va'"
    by (auto simp: HalveExponents_def schedule_def Let_def)
  have in_T: "s * ?W + p < ns * ?W" if "s < ns" "p < fb" for s p by (rule flat_index [OF that(1) less_le_trans [OF that(2) W(1)]])
  have in_T0: "s * ?W < ns * ?W" if "s < ns" for s using in_T [OF that fb(2)] by simp
  have "bad {0..<ns * ?W} s \<longleftrightarrow> odd (d_sign_counts mem ! s) \<or> odd (d_exp2_accum mem ! s) \<or> (\<exists>p < fb. odd (d_exp_matrix mem ! (s * fb + p)))"
    if "s < ns" for s using in_T [OF that] in_T0 [OF that] by (auto simp: bad_def)
  then show ?thesis using m' in_T in_T0 by (intro exI [of _ m'] exI [of _ va']) (auto simp: inv_def)
qed

section \<open>Windowed powers\<close>

lemma window_table_form:
  assumes "mont_form mont b v"
  shows "length (fold (\<lambda>i table. table @ [mont_mul mont (table ! (i - 1)) b]) [1..<Suc n] [b]) = Suc n
    \<and> (\<forall>i \<le> n. mont_form mont (fold (\<lambda>i table. table @ [mont_mul mont (table ! (i - 1)) b]) [1..<Suc n] [b] ! i) (v ^ Suc i))"
proof (induction n)
  case (Suc n)
  then show ?case using mont.mul_represents [OF _ assms, of _ "v ^ Suc n"]
    by (auto simp: nth_append le_Suc_eq mult.commute [of v])
qed (simp add: assms)

lemma squared: "mont_form mont x v \<Longrightarrow> mont_form mont (((\<lambda>r. mont_mul mont r r) ^^ k) x) (v ^ 2 ^ k)"
proof (induction k)
  case (Suc k)
  from mont.mul_represents [OF Suc.IH [OF Suc.prems] Suc.IH [OF Suc.prems]] show ?case
    by (simp add: power2_eq_square power_mult mult.commute [of 2])
qed simp

lemma window_step_form:
  assumes b: "mont_form mont b v" and r: "mont_form mont r (v ^ (unat e div 16 ^ Suc k))"
  shows "mont_form mont (window_step mont (window_table mont b) e (4 * k + 3) r) (v ^ (unat e div 16 ^ k))"
proof -
  define x where "x = unat e div 16 ^ k"
  have w: "unat (drop_bit (4 * k) e AND 15) = x mod 16"
  proof -
    have "drop_bit (4 * k) e AND 15 = take_bit 4 (drop_bit (4 * k) e)" by (simp add: take_bit_eq_mask mask_eq_exp_minus_1)
    moreover have "unat (take_bit 4 (drop_bit (4 * k) e)) = unat e div 2 ^ (4 * k) mod 2 ^ 4"
      unfolding unsigned_take_bit_eq unat_drop_bit_eq by (simp only: take_bit_eq_mod drop_bit_eq_div)
    ultimately have "unat (drop_bit (4 * k) e AND 15) = unat e div 2 ^ (4 * k) mod 2 ^ 4" by (simp only:)
    then show ?thesis by (simp add: x_def power_mult)
  qed
  have sq: "mont_form mont (((\<lambda>r. mont_mul mont r r) ^^ 4) r) (v ^ (x div 16 * 16))"
    using squared [OF r, of 4] by (simp add: x_def power_mult [symmetric] div_mult2_eq [symmetric] mult.commute [of 16])
  have tab: "mont_form mont (window_table mont b ! (x mod 16 - 1)) (v ^ (x mod 16))" if "0 < x mod 16"
  proof -
    have "2 ^ SQRT_WINDOW_BITS - 1 = Suc 14" by (simp add: SQRT_WINDOW_BITS_def)
    then have "mont_form mont (window_table mont b ! i) (v ^ Suc i)" if "i \<le> 14" for i
      using window_table_form [OF b, of 14] that by (simp only: window_table_def)
    from this [of "x mod 16 - 1"] show ?thesis using that by simp
  qed
  have "v ^ (x div 16 * 16) * v ^ (x mod 16) = v ^ x" by (simp add: power_add [symmetric])
  then show ?thesis
    using mont.mul_represents [OF sq tab] sq w
    by (auto simp: window_step_def SQRT_WINDOW_BITS_def Let_def x_def [symmetric] simp flip: div_mult_mod_eq)
qed

lemma window_pow_form:
  assumes "mont_form mont b v" and "e \<noteq> 0"
  shows "mont_form mont (window_pow mont b e) (v ^ unat e)"
proof -
  define m where "m = (31 - clz32 e + 4) div 4"
  let ?f = "window_step mont (window_table mont b) e"
  have one: "mont_form mont (transform mont (uint512_u32 1)) 1" using assms(1) mont_one by (simp add: mont_form_def)
  have m: "0 < m" "unat e < 16 ^ m"
  proof -
    show "0 < m" by (simp add: m_def)
    have "unat e < 2 ^ Suc (31 - clz32 e)" by (rule clz32_val(2) [OF assms(2)])
    also have "\<dots> \<le> 2 ^ (4 * m)" by (rule power_increasing) (simp_all add: m_def)
    finally show "unat e < 16 ^ m" by (simp add: power_mult)
  qed
  have "mont_form mont (fold ?f (map (\<lambda>j. 4 * m - 1 - j * 4) [0..<j]) (transform mont (uint512_u32 1))) (v ^ (unat e div 16 ^ (m - j)))"
    if "j \<le> m" for j
    using that
  proof (induction j)
    case 0
    then show ?case using m one by simp
  next
    case (Suc j)
    have "4 * m - 1 - j * 4 = 4 * (m - Suc j) + 3" "m - j = Suc (m - Suc j)" using Suc.prems by simp_all
    then show ?case using window_step_form [OF assms(1), of _ e "m - Suc j"] Suc by simp
  qed
  from this [of m] show ?thesis
    using m(1) by (simp add: window_pow_def SQRT_WINDOW_BITS_def m_def [symmetric] Let_def mult.commute [of m])
qed

lemma times_prime_gpu_form:
  assumes "mont_form mont partial u" and b: "mont_form mont b v" and "e \<noteq> 0"
  shows "mont_form mont (times_prime_gpu mont e b partial) (u * v ^ unat e)"
  using mont.mul_represents [OF assms(1) b] mont.mul_represents [OF assms(1) mont_pow_form [OF b, of "uint512_u32 e"]]
    mont.mul_represents [OF assms(1) window_pow_form [OF b assms(3)]]
  by (cases "e = 1") (auto simp: times_prime_gpu_def)

section \<open>The root Y of all solutions\<close>

lemma partial_product_form:
  assumes one: "mont_form mont r u" and fbm: "\<And>p. p \<in> set ps \<Longrightarrow> p < length fbm \<and> mont_form mont (fbm ! p) (q p)"
    and ex: "\<And>p. p \<in> set ps \<Longrightarrow> vec_at es (ix p) = Some (e p)"
  shows "\<exists>x. ofold (\<lambda>p partial. do {
        exp_val \<leftarrow> vec_at es (ix p);
        if exp_val = 0 then Some partial else do { b \<leftarrow> vec_at fbm p; Some (times_prime_gpu mont exp_val b partial) }
      }) ps r = Some x \<and> mont_form mont x (u * (\<Prod>p\<leftarrow>ps. q p ^ unat (e p)))"
  using assms
proof (induction ps arbitrary: r u)
  case (Cons p ps)
  show ?case
  proof (cases "e p = 0")
    case True
    then show ?thesis using Cons.IH [OF Cons.prems(1)] Cons.prems(2,3) by simp
  next
    case False
    then have "mont_form mont (times_prime_gpu mont (e p) (fbm ! p) r) (u * q p ^ unat (e p))"
      using Cons.prems(1,2) by (intro times_prime_gpu_form) simp_all
    from Cons.IH [OF this] show ?thesis using Cons.prems(2,3) False by (simp add: mult.assoc)
  qed
qed simp

lemma exponentiate_form:
  assumes ok: "mont_ok mont" and env: "gpu_ok env" and size: "ns * fb \<le> 2 ^ 32"
    and len: "ns * fb \<le> length (d_exp_matrix mem)" "ns \<le> length (d_sign_counts mem)" "ns \<le> length (d_exp2_accum mem)"
      "ns \<le> length valid" "ns \<le> length lpm" "ns \<le> length Y" "fb \<le> length fbm"
    and fbm: "\<And>p. p < fb \<Longrightarrow> mont_form mont (fbm ! p) (q p)"
    and lpm: "\<And>s. s < ns \<Longrightarrow> mont_form mont (lpm ! s) (L s)"
  shows "\<exists>Y'. BatchedExponentiateY env l mem lpm fbm valid mont (mont_N mont) ns fb Y = Some Y' \<and> length Y' = length Y
    \<and> (\<forall>s < ns. if valid ! s = 0 then Y' ! s = Y ! s else length (Y' ! s) = 16
        \<and> lval (Y' ! s) = ((if odd (unat (d_sign_counts mem ! s) div 2) then lval (mont_N mont) - 1 else 1) * 2 ^ unat (d_exp2_accum mem ! s)
            * (\<Prod>p < fb. q p ^ unat (d_exp_matrix mem ! (s * fb + p))) * L s) mod lval (mont_N mont))"
proof -
  let ?N = "lval (mont_N mont)" and ?one = "transform mont (uint512_u32 1)"
  define V where "V s = (if odd (unat (d_sign_counts mem ! s) div 2) then ?N - 1 else 1) * 2 ^ unat (d_exp2_accum mem ! s)
      * (\<Prod>p < fb. q p ^ unat (d_exp_matrix mem ! (s * fb + p))) * L s" for s
  have block: "\<exists>v. (\<forall>out. exponentiate_block (lanes env l s) mem lpm fbm valid mont (mont_N mont) ns fb s out = vec_put s v out)
      \<and> length v = 16 \<and> lval v = V s mod ?N" if s: "s < ns" "valid ! s \<noteq> 0" for s
  proof -
    let ?run = "\<lambda>tid. ofold (\<lambda>p partial. do {
        exp_val \<leftarrow> vec_at (d_exp_matrix mem) ((s * fb + p) mod 2 ^ 32);
        if exp_val = 0 then Some partial else do { b \<leftarrow> vec_at fbm p; Some (times_prime_gpu mont exp_val b partial) }
      }) (grid_stride tid 256 fb) ?one"
    define e where "e p = d_exp_matrix mem ! (s * fb + p)" for p
    define part where "part tid = the (?run tid)" for tid
    have ex: "vec_at (d_exp_matrix mem) ((s * fb + p) mod 2 ^ 32) = Some (e p)" if "p < fb" for p
      using flat_index [OF s(1) that] size len(1) by (simp add: e_def)
    have "\<exists>x. ?run tid = Some x \<and> mont_form mont x (1 * (\<Prod>p\<leftarrow>grid_stride tid 256 fb. q p ^ unat (e p)))" for tid
      by (rule partial_product_form [OF mont_one [OF ok]]) (use fbm len(7) ex in \<open>auto simp: grid_stride_set(2)\<close>)
    then have part: "?run tid = Some (part tid)" "mont_form mont (part tid) (\<Prod>p\<leftarrow>grid_stride tid 256 fb. q p ^ unat (e p))" for tid
      unfolding part_def by (metis mult_1 option.sel)+
    define Y1 where "Y1 = tree_reduce (mont_mul mont) (lanes env l s) 128 (map part [0..<256]) ! 0"
    have f1: "mont_form mont Y1 (\<Prod>p < fb. q p ^ unat (e p))"
    proof -
      have "mont_form mont (tree_reduce (mont_mul mont) (lanes env l s) (2 ^ 7) (map part [0..<256]) ! 0)
        (\<Prod>t < 2 ^ Suc 7. \<Prod>p\<leftarrow>grid_stride t 256 fb. q p ^ unat (e p))"
        by (rule mont.tree_reduce_represents [where n = 256]) (use env part(2) in \<open>simp_all add: gpu_ok_def\<close>)
      then show ?thesis using prod_grid_stride [where step = 256 and n = fb and f = "\<lambda>p. q p ^ unat (e p)"] by (simp add: Y1_def)
    qed
    define Y2 where "Y2 = (if (d_sign_counts mem ! s div 2) AND 1 \<noteq> 0 then negate_mod_inplace Y1 (mont_N mont) else Y1)"
    have f2: "mont_form mont Y2 ((\<Prod>p < fb. q p ^ unat (e p)) * (if odd (unat (d_sign_counts mem ! s) div 2) then ?N - 1 else 1))"
      using negate_form [OF f1] f1 by (simp add: Y2_def and_1_odd_word odd_unat [symmetric] unat_div)
    define Y3 where "Y3 = (if d_exp2_accum mem ! s > 0
        then mont_mul mont Y2 (mont_pow mont (transform mont (uint512_u32 2)) (uint512_u32 (d_exp2_accum mem ! s))) else Y2)"
    have two: "mont_form mont (transform mont (uint512_u32 2)) 2" using transform_form [OF ok, of "uint512_u32 2"] by simp
    have f3: "mont_form mont Y3 ((\<Prod>p < fb. q p ^ unat (e p)) * (if odd (unat (d_sign_counts mem ! s) div 2) then ?N - 1 else 1)
        * 2 ^ unat (d_exp2_accum mem ! s))"
    proof (cases "d_exp2_accum mem ! s = 0")
      case False
      then show ?thesis using mont.mul_represents [OF f2 mont_pow_form [OF two, of "uint512_u32 (d_exp2_accum mem ! s)"]]
        by (simp add: Y3_def word_neq_0_conv [symmetric])
    qed (use f2 in \<open>simp add: Y3_def\<close>)
    have "exponentiate_block (lanes env l s) mem lpm fbm valid mont (mont_N mont) ns fb s out = vec_put s (mont_reduce mont (mont_mul mont Y3 (lpm ! s))) out" for out
      using s len those_map_Some [of "[0..<256]" ?run part] part(1)
      by (simp add: exponentiate_block_def Let_def Y1_def [symmetric]) (simp add: Y2_def Y3_def)
    then show ?thesis using mont_reduce_val [OF mont.mul_represents [OF f3 lpm [OF s(1)]]]
      by (auto simp: V_def e_def ac_simps)
  qed
  then obtain v where v: "\<And>s out. s < ns \<Longrightarrow> valid ! s \<noteq> 0 \<Longrightarrow>
        exponentiate_block (lanes env l s) mem lpm fbm valid mont (mont_N mont) ns fb s out = vec_put s (v s) out"
      "\<And>s. s < ns \<Longrightarrow> valid ! s \<noteq> 0 \<Longrightarrow> length (v s) = 16 \<and> lval (v s) = V s mod ?N"
    by metis
  have skip: "exponentiate_block (lanes env l s) mem lpm fbm valid mont (mont_N mont) ns fb s out = Some out" if "s < ns" "valid ! s = 0" for s out
    using that len(4) by (simp add: exponentiate_block_def)
  have o: "schedule ns (order env l ns)" using env by (simp add: gpu_ok_def)
  have "\<exists>out'. BatchedExponentiateY env l mem lpm fbm valid mont (mont_N mont) ns fb Y = Some out' \<and> length out' = length Y
      \<and> (\<forall>s \<in> set (order env l ns). valid ! s \<noteq> 0 \<longrightarrow> out' ! s = v s)
      \<and> (\<forall>p. p \<notin> (\<lambda>s. s) ` {s \<in> set (order env l ns). valid ! s \<noteq> 0} \<longrightarrow> out' ! p = Y ! p)"
    unfolding BatchedExponentiateY_def
    by (rule scatter [where v = "\<lambda>s _. v s" and pos = "\<lambda>s. s" and P = "\<lambda>s. valid ! s \<noteq> 0"])
       (use o v(1) skip len(6) in \<open>auto simp: schedule_def\<close>)
  then show ?thesis using o v(2) by (auto simp: schedule_def V_def)
qed

text \<open>The transformed factor base is kept between calls.\<close>

definition fb_ready :: "sqrt_bufs \<Rightarrow> uint512 \<Rightarrow> u32 list \<Rightarrow> bool" where
  "fb_ready bufs N fb \<longleftrightarrow> fb_transformed bufs \<longrightarrow> (\<forall>p < length fb. mont_form (Montgomery N) (d_factor_base_mont bufs ! p) (unat (fb ! p)))"

lemma sum_two_exp: "(\<Sum>r\<leftarrow>rs. r_val_2_exp r) = of_nat (two_exp rs)"
  by (induction rs) (simp_all add: two_exp_def)

lemma small_word32:
  assumes "x < 2 ^ 32"
  shows "unat (of_nat x :: u32) = x" and "odd (of_nat x :: u32) \<longleftrightarrow> odd x" and "unat (drop_bit 1 (of_nat x :: u32)) = x div 2"
proof -
  show u: "unat (of_nat x :: u32) = x" using assms by (simp add: unat_of_nat take_bit_nat_eq_self)
  show "odd (of_nat x :: u32) \<longleftrightarrow> odd x" by (simp add: odd_unat [symmetric] u)
  show "unat (drop_bit 1 (of_nat x :: u32)) = x div 2" unfolding unat_drop_bit_eq u by (simp add: drop_bit_eq_div)
qed

lemma lp_products:
  assumes b: "batch_ok b" and N: "length N = 16" "odd (lval N)" "1 < lval N" and env: "gpu_ok env"
    and sv: "view_ok sv (n_rels b)"
    and sz: "sized bufs (n_rels b) nnz fb (num_solutions sv)"
  shows "\<exists>lpm parts res. TransformLargePrimes (order env 4 (256 * grid (n_rels b))) (Montgomery N) (take (n_rels b) (large_primes b)) (n_rels b)
        (map (junk env) [0..<max_K bufs]) = Some lpm
    \<and> ComputeX_ChunkReduce env 5 lpm sv (Montgomery N) (n_rels b) (grid (n_rels b)) (map (junk env) [0..<grid (max_K bufs) * max_n bufs]) = Some parts
    \<and> FinalReduce env 6 parts (Montgomery N) (grid (n_rels b)) (num_solutions sv) False (map (junk env) [0..<max_n bufs]) = Some res
    \<and> length res = max_n bufs
    \<and> (\<forall>s < num_solutions sv. mont_form (Montgomery N) (res ! s) (\<Prod>r\<leftarrow>sol_rels sv b s. lp_root r))"
proof -
  let ?K = "n_rels b" and ?mont = "Montgomery N"
  note g = sized_grid [OF sz]
  have ok: "mont_ok ?mont" by (rule Montgomery_ok [OF N])
  have q: "?K \<le> length (large_primes b)" using b by (simp add: batch_ok_def)
  define w where "w i = (if large_primes b ! i > 1 then transform ?mont (uint512_u128 (large_primes b ! i)) else transform ?mont (uint512_u32 1))" for i
  define lpm where "lpm = map w [0..<?K] @ drop ?K (map (junk env) [0..<max_K bufs])"
  have t: "TransformLargePrimes (order env 4 (256 * grid ?K)) ?mont (take ?K (large_primes b)) ?K (map (junk env) [0..<max_K bufs]) = Some lpm"
    unfolding TransformLargePrimes_def lpm_def
    by (rule store_kernel_val [where m = "256 * grid ?K"])
       (use env q sz grid_covers(1) [OF g(3)] in \<open>simp_all add: gpu_ok_def sized_def w_def\<close>)
  have "mont_form ?mont (w i) (lp_root (rel_at b i))" for i
    using transform_form [OF ok uint512_u128_val(1), of "large_primes b ! i"] mont_one [OF ok]
    by (simp add: w_def lp_root_def rel_at_def uint512_u128_val(2))
  then have inp: "product_input sv ?mont ?K lpm (\<lambda>sol. bit_set (sol_bits sv sol)) (\<lambda>i. lp_root (rel_at b i))"
    using ok solution_bit_val [OF sv] by (simp add: product_input_def lpm_def nth_append)
  have "(\<Prod>i < ?K. if bit_set (sol_bits sv s) i then lp_root (rel_at b i) else 1) = (\<Prod>r\<leftarrow>sol_rels sv b s. lp_root r)" for s
    by (simp add: sol_rels_def chosen_def prod_filter [symmetric] comp_def)
  with product_form [OF inp env g(3), of "map (junk env) [0..<grid (max_K bufs) * max_n bufs]" "map (junk env) [0..<max_n bufs]" 5 6 False] g(1,2) sz t
  show ?thesis by (fastforce simp: sized_def)
qed

lemma ComputeYBatchedGPU_val:
  fixes fb :: "u32 list"
  assumes b: "batch_ok b" "0 < n_rels b" "batch_exact b" "unat (num_factors b) < 2 ^ 32" and N: "length N = 16" "odd (lval N)" "1 < lval N" and env: "gpu_ok env"
    and sv: "view_ok sv (n_rels b)"
    and sz: "sized bufs (n_rels b) (unat (num_factors b) mod 2 ^ 32) (length fb) (num_solutions sv)"
    and fb: "0 < length fb" "length fb + 255 < 2 ^ 32" "num_solutions sv * length fb \<le> 2 ^ 32" "fb_ready bufs N fb"
    and fit: "\<And>s. s < num_solutions sv \<Longrightarrow> exponents_fit fb (sol_rels sv b s) \<and> factors_fit (length fb) (sol_rels sv b s)"
  shows "\<exists>bufs'. ComputeYBatchedGPU env N sv b fb bufs = Some bufs' \<and> d_X bufs' = d_X bufs \<and> fb_ready bufs' N fb
    \<and> sized bufs' (n_rels b) (unat (num_factors b) mod 2 ^ 32) (length fb) (num_solutions sv)
    \<and> (\<forall>s < num_solutions sv. if square_exponents fb (sol_rels sv b s)
        then d_valid bufs' ! s = 1 \<and> length (d_Y bufs' ! s) = 16 \<and> lval (d_Y bufs' ! s) = root_value (lval N) fb (sol_rels sv b s) mod lval N
        else d_valid bufs' ! s = 0 \<and> d_Y bufs' ! s = zero512)"
proof -
  let ?K = "n_rels b" and ?mont = "Montgomery N" and ?ns = "num_solutions sv" and ?fb = "length fb"
  note g = sized_grid [OF sz]
  have ok: "mont_ok ?mont" by (rule Montgomery_ok [OF N])
  have n: "mont_N ?mont = N" by (simp add: Montgomery_def Let_def)
  obtain lpm parts res where lp: "TransformLargePrimes (order env 4 (256 * grid ?K)) ?mont (take ?K (large_primes b)) ?K (map (junk env) [0..<max_K bufs]) = Some lpm"
      "ComputeX_ChunkReduce env 5 lpm sv ?mont ?K (grid ?K) (map (junk env) [0..<grid (max_K bufs) * max_n bufs]) = Some parts"
      "FinalReduce env 6 parts ?mont (grid ?K) ?ns False (map (junk env) [0..<max_n bufs]) = Some res" "length res = max_n bufs"
      "\<And>s. s < ?ns \<Longrightarrow> mont_form ?mont (res ! s) (\<Prod>r\<leftarrow>sol_rels sv b s. lp_root r)"
    using lp_products [OF b(1) N env sv sz] by blast
  define fbm where "fbm = (if fb_transformed bufs then d_factor_base_mont bufs
    else map (\<lambda>p. transform ?mont (uint512_u32 (fb ! p))) [0..<?fb] @ drop ?fb (d_factor_base_mont bufs))"
  have fbm_len: "length fbm = max_fb bufs" "?fb \<le> max_fb bufs" using sz by (simp_all add: fbm_def sized_def)
  have fbm: "mont_form ?mont (fbm ! p) (unat (fb ! p))" if "p < ?fb" for p
    using transform_form [OF ok, of "uint512_u32 (fb ! p)"] fb(4) that by (simp add: fbm_def fb_ready_def nth_append)
  have tf: "TransformFactorBase (order env 3 (256 * grid ?fb)) ?mont fb ?fb (d_factor_base_mont bufs) = Some fbm" if "\<not> fb_transformed bufs"
  proof -
    have "TransformFactorBase (order env 3 (256 * grid ?fb)) ?mont fb ?fb (d_factor_base_mont bufs)
        = Some (map (\<lambda>p. transform ?mont (uint512_u32 (fb ! p))) [0..<?fb] @ drop ?fb (d_factor_base_mont bufs))"
      unfolding TransformFactorBase_def
      by (rule store_kernel_val [where m = "256 * grid ?fb"])
         (use env sz grid_covers(1) [OF fb(2)] in \<open>simp_all add: gpu_ok_def sized_def\<close>)
    then show ?thesis using that by (simp add: fbm_def)
  qed
  obtain mem1 where mem1: "AccumExponents_Parallel env sv b ?K ?fb (grid ?K) \<lparr>d_exp_matrix = replicate (?ns * ?fb) 0,
        d_sign_counts = replicate ?ns 0, d_exp2_accum = replicate ?ns 0\<rparr> = Some mem1"
      "length (d_sign_counts mem1) = ?ns" "length (d_exp2_accum mem1) = ?ns" "length (d_exp_matrix mem1) = ?ns * ?fb"
      "\<And>s. s < ?ns \<Longrightarrow> d_sign_counts mem1 ! s = of_nat (neg_count (sol_rels sv b s))"
      "\<And>s. s < ?ns \<Longrightarrow> d_exp2_accum mem1 ! s = of_nat (two_exp (sol_rels sv b s))"
      "\<And>s p. s < ?ns \<Longrightarrow> p < ?fb \<Longrightarrow> d_exp_matrix mem1 ! (s * ?fb + p) = of_nat (prime_exp (sol_rels sv b s) p)"
    using AccumExponents_val [OF b(1) sv env g(3) b(2) _ fb(3)] fit by (auto simp: same_shape_def sum_two_exp)
  let ?valid = "replicate ?ns 1 @ drop ?ns (d_valid bufs)" and ?y = "replicate ?ns zero512 @ drop ?ns (d_Y bufs)"
  have lens: "?ns \<le> max_n bufs" "length ?valid = max_n bufs" "length ?y = max_n bufs" using sz by (simp_all add: sized_def)
  obtain mem2 valid2 where h: "HalveExponents env 7 ?ns ?fb (mem1, ?valid) = Some (mem2, valid2)" "same_shape mem1 mem2" "length valid2 = max_n bufs"
      "d_sign_counts mem2 = d_sign_counts mem1"
      "\<And>s. s < ?ns \<Longrightarrow> d_exp2_accum mem2 ! s = drop_bit 1 (d_exp2_accum mem1 ! s)"
      "\<And>s p. s < ?ns \<Longrightarrow> p < ?fb \<Longrightarrow> d_exp_matrix mem2 ! (s * ?fb + p) = drop_bit 1 (d_exp_matrix mem1 ! (s * ?fb + p))"
      "\<And>s. s < ?ns \<Longrightarrow> valid2 ! s = (if odd (d_sign_counts mem1 ! s) \<or> odd (d_exp2_accum mem1 ! s) \<or> (\<exists>p < ?fb. odd (d_exp_matrix mem1 ! (s * ?fb + p)))
            then 0 else ?valid ! s)"
    using HalveExponents_val [OF env fb(2,1,3) mem1(2-4), of ?valid 7] lens by auto
  have neg: "neg_count (sol_rels sv b s) < 2 ^ 32" for s
  proof -
    have "neg_count (sol_rels sv b s) \<le> ?K"
      unfolding neg_count_def sol_rels_def chosen_def
      by (rule le_trans [OF length_filter_le]) (simp add: le_trans [OF length_filter_le])
    then show ?thesis using g(3) by simp
  qed
  have vals: "valid2 ! s = (if square_exponents fb (sol_rels sv b s) then 1 else 0)" if s: "s < ?ns" for s
  proof -
    have "?valid ! s = 1" using s by (simp add: nth_append)
    moreover have "odd (d_exp_matrix mem1 ! (s * ?fb + p)) \<longleftrightarrow> odd (prime_exp (sol_rels sv b s) p)" if "p < ?fb" for p
      using fit [OF s] mem1(7) [OF s that] small_word32(2) that by (simp add: exponents_fit_def)
    moreover have "odd (d_exp2_accum mem1 ! s) \<longleftrightarrow> odd (two_exp (sol_rels sv b s))"
      using fit [OF s] mem1(6) [OF s] small_word32(2) by (simp add: exponents_fit_def)
    moreover have "odd (d_sign_counts mem1 ! s) \<longleftrightarrow> odd (neg_count (sol_rels sv b s))"
      using mem1(5) [OF s] small_word32(2) [OF neg] by simp
    ultimately show ?thesis by (auto simp: h(7) [OF s] square_exponents_def)
  qed
  have shape2: "length (d_exp_matrix mem2) = ?ns * ?fb" "length (d_sign_counts mem2) = ?ns" "length (d_exp2_accum mem2) = ?ns"
    using h(2) mem1(2-4) unfolding same_shape_def by metis+
  obtain Y' where Y': "BatchedExponentiateY env 8 mem2 res fbm valid2 ?mont N ?ns ?fb ?y = Some Y'" "length Y' = max_n bufs"
      "\<And>s. s < ?ns \<Longrightarrow> if valid2 ! s = 0 then Y' ! s = ?y ! s else length (Y' ! s) = 16
        \<and> lval (Y' ! s) = ((if odd (unat (d_sign_counts mem2 ! s) div 2) then lval N - 1 else 1) * 2 ^ unat (d_exp2_accum mem2 ! s)
            * (\<Prod>p < ?fb. unat (fb ! p) ^ unat (d_exp_matrix mem2 ! (s * ?fb + p))) * (\<Prod>r\<leftarrow>sol_rels sv b s. lp_root r)) mod lval N"
    using exponentiate_form [OF ok env fb(3), where mem = mem2 and valid = valid2 and lpm = res and Y = ?y and fbm = fbm and l = 8
        and q = "\<lambda>p. unat (fb ! p)" and L = "\<lambda>s. \<Prod>r\<leftarrow>sol_rels sv b s. lp_root r"] shape2 lens lp(4,5) h(3) fbm_len fbm
    unfolding n by auto
  have root: "((if odd (unat (d_sign_counts mem2 ! s) div 2) then lval N - 1 else 1) * 2 ^ unat (d_exp2_accum mem2 ! s)
            * (\<Prod>p < ?fb. unat (fb ! p) ^ unat (d_exp_matrix mem2 ! (s * ?fb + p))) * (\<Prod>r\<leftarrow>sol_rels sv b s. lp_root r))
      = root_value (lval N) fb (sol_rels sv b s)" if s: "s < ?ns" for s
  proof -
    have "unat (d_exp_matrix mem2 ! (s * ?fb + p)) = prime_exp (sol_rels sv b s) p div 2" if "p < ?fb" for p
      using fit [OF s] h(6) [OF s that] mem1(7) [OF s that] small_word32(3) that by (simp add: exponents_fit_def)
    then have "(\<Prod>p < ?fb. unat (fb ! p) ^ unat (d_exp_matrix mem2 ! (s * ?fb + p)))
        = (\<Prod>p\<leftarrow>[0..<?fb]. unat (fb ! p) ^ (prime_exp (sol_rels sv b s) p div 2))"
      using prod_filter [of "\<lambda>p. unat (fb ! p) ^ (prime_exp (sol_rels sv b s) p div 2)" "\<lambda>_. True" ?fb] by simp
    moreover have "unat (d_exp2_accum mem2 ! s) = two_exp (sol_rels sv b s) div 2"
      using fit [OF s] h(5) [OF s] mem1(6) [OF s] small_word32(3) by (simp add: exponents_fit_def)
    moreover have "unat (d_sign_counts mem2 ! s) = neg_count (sol_rels sv b s)"
      using mem1(5) [OF s] small_word32(1) [OF neg] by (simp only: h(4))
    ultimately show ?thesis by (simp only: root_value_def)
  qed
  have K: "?K mod 2 ^ 32 = ?K" "?fb mod 2 ^ 32 = ?fb" using g(3) fb(2) by simp_all
  have nnz: "unat (num_factors b) mod 2 ^ 32 = unat (num_factors b)" "(?K + 1) mod 2 ^ 32 = ?K + 1" using b(4) g(3) by simp_all
  have same: "b\<lparr>signs := signs b, val_2_exps := val_2_exps b, large_primes := large_primes b, factor_offsets := factor_offsets b,
      factor_indices := factor_indices b, factor_counts := factor_counts b\<rparr> = b" by simp
  have lpk: "?K \<le> length (large_primes b)" using b(1) by (simp add: batch_ok_def)
  define bufs' where "bufs' = bufs\<lparr>d_factor_base_mont := fbm, fb_transformed := True, d_Y := Y', d_valid := valid2\<rparr>"
  have "ComputeYBatchedGPU env N sv b fb bufs = Some bufs'"
    unfolding ComputeYBatchedGPU_def Let_def K sized_alloc [OF sz]
    using lpk lp(1-3) mem1(1) h(1) Y'(1) tf b(3) unfolding nnz batch_exact_def
    by (cases "fb_transformed bufs") (simp_all add: upload_def bufs'_def fbm_def)
  moreover have "fb_ready bufs' N fb" using fbm by (simp add: fb_ready_def bufs'_def)
  moreover have "sized bufs' ?K (unat (num_factors b) mod 2 ^ 32) ?fb ?ns"
    using sz fbm_len Y'(2) h(3) by (simp add: sized_def bufs'_def)
  moreover have "if square_exponents fb (sol_rels sv b s)
        then d_valid bufs' ! s = 1 \<and> length (d_Y bufs' ! s) = 16 \<and> lval (d_Y bufs' ! s) = root_value (lval N) fb (sol_rels sv b s) mod lval N
        else d_valid bufs' ! s = 0 \<and> d_Y bufs' ! s = zero512" if s: "s < ?ns" for s
    using Y'(3) [OF s] vals [OF s] s by (simp add: bufs'_def root [OF s] nth_append split: if_splits)
  moreover have "d_X bufs' = d_X bufs" by (simp add: bufs'_def)
  ultimately show ?thesis by blast
qed

lemma ApplyLPCorrection_val:
  assumes env: "gpu_ok env" and n: "n + 255 < 2 ^ 32" "n \<le> length (d_Y bufs)" "n \<le> length cs"
  shows "\<exists>y. ApplyLPCorrection env N cs n bufs = Some (bufs\<lparr>d_Y := y\<rparr>) \<and> length y = length (d_Y bufs)
    \<and> (\<forall>s < n. y ! s = correct_Y (Montgomery N) (Some (cs ! s)) (d_Y bufs ! s))"
proof -
  let ?mont = "Montgomery N" and ?xs = "order env 9 (256 * grid n)"
  have o: "schedule (256 * grid n) ?xs" using env by (simp add: gpu_ok_def)
  have "\<exists>y. ofold (\<lambda>sol y. if n \<le> sol then Some y else do {
            v \<leftarrow> vec_at y sol;
            c \<leftarrow> vec_at cs sol;
            vec_put sol (mont_reduce ?mont (mont_mul ?mont (transform ?mont v) c)) y
          }) ?xs (d_Y bufs) = Some y \<and> length y = length (d_Y bufs)
      \<and> (\<forall>s \<in> set ?xs. s < n \<longrightarrow> y ! s = mont_reduce ?mont (mont_mul ?mont (transform ?mont (d_Y bufs ! s)) (cs ! s)))
      \<and> (\<forall>p. p \<notin> (\<lambda>s. s) ` {s \<in> set ?xs. s < n} \<longrightarrow> y ! p = d_Y bufs ! p)"
    by (rule scatter [where v = "\<lambda>s v. mont_reduce ?mont (mont_mul ?mont (transform ?mont v) (cs ! s))" and pos = "\<lambda>s. s" and P = "\<lambda>s. s < n"])
       (use o n in \<open>auto simp: schedule_def\<close>)
  then show ?thesis using o grid_covers(1) [OF n(1)] by (fastforce simp: ApplyLPCorrection_def Let_def schedule_def correct_Y_def)
qed

lemma lval_eqI: "length x = 16 \<Longrightarrow> length y = 16 \<Longrightarrow> lval x = lval y \<Longrightarrow> x = y"
  using lval_inj [of x y] by simp

text \<open>The roots that both calls leave on the device.\<close>

lemma device_roots:
  fixes fb :: "u32 list"
  assumes b: "batch_ok b" "0 < n_rels b" "batch_exact b" "unat (num_factors b) < 2 ^ 32"
    and N: "length N = 16" "odd (lval N)" "1 < lval N" and env: "gpu_ok env" "gpu_ok env'"
    and sv: "view_ok sv (n_rels b)"
    and sz: "sized bufs (n_rels b) (unat (num_factors b) mod 2 ^ 32) (length fb) (num_solutions sv)"
    and fb: "0 < length fb" "length fb + 255 < 2 ^ 32" "num_solutions sv * length fb \<le> 2 ^ 32" "fb_ready bufs N fb"
    and fit: "\<And>s. s < num_solutions sv \<Longrightarrow> exponents_fit fb (sol_rels sv b s) \<and> factors_fit (length fb) (sol_rels sv b s)"
  shows "\<exists>bufs1 bufs2. ComputeXBatchedGPU env N sv b bufs = Some bufs1 \<and> ComputeYBatchedGPU env' N sv b fb bufs1 = Some bufs2
    \<and> num_solutions sv \<le> length (d_X bufs2) \<and> num_solutions sv \<le> length (d_Y bufs2)
    \<and> (\<forall>s < num_solutions sv. length (d_X bufs2 ! s) = 16
        \<and> lval (d_X bufs2 ! s) = (\<Prod>i\<leftarrow>chosen (sol_bits sv s) b. unat (sqrt_Q b ! i)) mod lval N
        \<and> (if square_exponents fb (sol_rels sv b s)
           then d_valid bufs2 ! s = 1 \<and> length (d_Y bufs2 ! s) = 16 \<and> lval (d_Y bufs2 ! s) = root_value (lval N) fb (sol_rels sv b s) mod lval N
           else d_valid bufs2 ! s = 0 \<and> d_Y bufs2 ! s = zero512))"
proof -
  have K: "n_rels b < 2 ^ 32" using sized_grid(3) [OF sz] by simp
  obtain x where x: "ComputeXBatchedGPU env N sv b bufs = Some (bufs\<lparr>d_X := x\<rparr>)" "length x = length (d_X bufs)"
      "\<And>s. s < num_solutions sv \<Longrightarrow> length (x ! s) = 16 \<and> lval (x ! s) = (\<Prod>i\<leftarrow>chosen (sol_bits sv s) b. unat (sqrt_Q b ! i)) mod lval N"
    using ComputeXBatchedGPU_val [OF b(1) K N env(1) sv sz] by blast
  have sz1: "sized (bufs\<lparr>d_X := x\<rparr>) (n_rels b) (unat (num_factors b) mod 2 ^ 32) (length fb) (num_solutions sv)"
    and r1: "fb_ready (bufs\<lparr>d_X := x\<rparr>) N fb"
    using sz x(2) fb(4) by (simp_all add: sized_def fb_ready_def)
  obtain bufs2 where y: "ComputeYBatchedGPU env' N sv b fb (bufs\<lparr>d_X := x\<rparr>) = Some bufs2" "d_X bufs2 = x"
      "sized bufs2 (n_rels b) (unat (num_factors b) mod 2 ^ 32) (length fb) (num_solutions sv)"
      "\<And>s. s < num_solutions sv \<Longrightarrow> if square_exponents fb (sol_rels sv b s)
        then d_valid bufs2 ! s = 1 \<and> length (d_Y bufs2 ! s) = 16 \<and> lval (d_Y bufs2 ! s) = root_value (lval N) fb (sol_rels sv b s) mod lval N
        else d_valid bufs2 ! s = 0 \<and> d_Y bufs2 ! s = zero512"
    using ComputeYBatchedGPU_val [OF b N env(2) sv sz1 fb(1-3) r1 fit] by auto
  have "num_solutions sv \<le> length (d_X bufs2)" "num_solutions sv \<le> length (d_Y bufs2)" using y(3) by (simp_all add: sized_def)
  then show ?thesis using x(1,3) y(1,2,4) by blast
qed

lemma gpu_pipeline:
  fixes fb :: "u32 list"
  assumes b: "batch_ok b" "0 < n_rels b" "batch_exact b" "unat (num_factors b) < 2 ^ 32" and N: "length N = 16" "odd (lval N)" "1 < lval N" and env: "gpu_ok env" "gpu_ok env'"
    and sv: "view_ok sv (n_rels b)"
    and sz: "sized bufs (n_rels b) (unat (num_factors b) mod 2 ^ 32) (length fb) (num_solutions sv)"
    and fb: "0 < length fb" "length fb + 255 < 2 ^ 32" "num_solutions sv * length fb \<le> 2 ^ 32" "fb_ready bufs N fb"
    and fit: "\<And>s. s < num_solutions sv \<Longrightarrow> exponents_fit fb (sol_rels sv b s) \<and> factors_fit (length fb) (sol_rels sv b s)"
  shows "\<exists>bufs1 bufs2. ComputeXBatchedGPU env N sv b bufs = Some bufs1 \<and> ComputeYBatchedGPU env' N sv b fb bufs1 = Some bufs2
    \<and> (\<forall>s < num_solutions sv. \<exists>bits. unpack_bits_local (sol_bits sv s) (n_rels b) = Some bits
        \<and> ComputeX bits b (Montgomery N) = Some (d_X bufs2 ! s)
        \<and> (if square_exponents fb (sol_rels sv b s)
           then d_valid bufs2 ! s = 1 \<and> ComputeY bits b fb N (Montgomery N) = Some (d_Y bufs2 ! s)
           else d_valid bufs2 ! s = 0 \<and> is_zero (d_Y bufs2 ! s)))"
proof -
  let ?mont = "Montgomery N" and ?ns = "num_solutions sv"
  have ok: "mont_ok ?mont" by (rule Montgomery_ok [OF N])
  have n: "mont_N ?mont = N" by (simp add: Montgomery_def Let_def)
  obtain bufs1 bufs2 where r: "ComputeXBatchedGPU env N sv b bufs = Some bufs1" "ComputeYBatchedGPU env' N sv b fb bufs1 = Some bufs2"
      "\<And>s. s < ?ns \<Longrightarrow> length (d_X bufs2 ! s) = 16
        \<and> lval (d_X bufs2 ! s) = (\<Prod>i\<leftarrow>chosen (sol_bits sv s) b. unat (sqrt_Q b ! i)) mod lval N
        \<and> (if square_exponents fb (sol_rels sv b s)
           then d_valid bufs2 ! s = 1 \<and> length (d_Y bufs2 ! s) = 16 \<and> lval (d_Y bufs2 ! s) = root_value (lval N) fb (sol_rels sv b s) mod lval N
           else d_valid bufs2 ! s = 0 \<and> d_Y bufs2 ! s = zero512)"
    using device_roots [OF b N env sv sz fb fit] by blast
  have "\<exists>bits. unpack_bits_local (sol_bits sv s) (n_rels b) = Some bits \<and> ComputeX bits b ?mont = Some (d_X bufs2 ! s)
        \<and> (if square_exponents fb (sol_rels sv b s)
           then d_valid bufs2 ! s = 1 \<and> ComputeY bits b fb N ?mont = Some (d_Y bufs2 ! s)
           else d_valid bufs2 ! s = 0 \<and> is_zero (d_Y bufs2 ! s))" if s: "s < ?ns" for s
  proof -
    let ?m = "map (\<lambda>i. if bit_set (sol_bits sv s) i then 1 else 0) [0..<n_rels b] :: u8 list"
    have m: "unpack_bits_local (sol_bits sv s) (n_rels b) = Some ?m"
      using sv sol_bits_length [OF sv s] by (intro unpack_bits_local_eq) (simp add: view_ok_def)
    obtain X where X: "ComputeX ?m b ?mont = Some X" "length X = 16" "lval X = lval (d_X bufs2 ! s)"
      using ComputeX_val [OF b(1) ok, of ?m] r(3) [OF s] by (auto simp: picked_unpacked n)
    obtain Y where Y: "ComputeY ?m b fb N ?mont = Some Y" "length Y = 16" "lval Y = root_value (lval N) fb (sol_rels sv b s) mod lval N"
      using ComputeY_val [OF b(1) ok, of fb ?m] fit [OF s] by (auto simp: picked_unpacked n sol_rels_def)
    have "X = d_X bufs2 ! s" using X r(3) [OF s] by (intro lval_eqI) simp_all
    moreover have "Y = d_Y bufs2 ! s" if "square_exponents fb (sol_rels sv b s)"
      using Y r(3) [OF s] that by (intro lval_eqI) simp_all
    moreover have "is_zero zero512" by (simp add: is_zero_val)
    ultimately show ?thesis using m X(1) Y(1) r(3) [OF s] by (auto split: if_splits)
  qed
  then show ?thesis using r(1,2) by blast
qed

section \<open>Properties\<close>

text \<open>
  C38. The batched device computation of the square-root step agrees with the host computation. For a
  readable batch and solution matrix, sums below \<open>2 ^ 32\<close> and buffers of sufficient size, and for every
  order in which threads, lanes and atomic additions run, the device kernels leave for each solution the
  \<open>X\<close> of the host, and, when all summed exponents of the solution are even, the \<open>Y\<close> of the host with the
  solution marked valid; a solution with an odd exponent is marked invalid with \<open>Y = 0\<close>.
\<close>

theorem gpu_roots_match_host:
  fixes fb :: "u32 list"
  assumes "batch_ok b" "0 < n_rels b" "batch_exact b" "unat (num_factors b) < 2 ^ 32" and "length N = 16" "odd (lval N)" "1 < lval N" and "gpu_ok env" "gpu_ok env'"
    and "view_ok sv (n_rels b)"
    and "sized bufs (n_rels b) (unat (num_factors b) mod 2 ^ 32) (length fb) (num_solutions sv)"
    and "0 < length fb" "length fb + 255 < 2 ^ 32" "num_solutions sv * length fb \<le> 2 ^ 32" "fb_ready bufs N fb"
    and "\<And>s. s < num_solutions sv \<Longrightarrow> exponents_fit fb (sol_rels sv b s) \<and> factors_fit (length fb) (sol_rels sv b s)"
  shows "\<exists>bufs1 bufs2. ComputeXBatchedGPU env N sv b bufs = Some bufs1 \<and> ComputeYBatchedGPU env' N sv b fb bufs1 = Some bufs2
    \<and> (\<forall>s < num_solutions sv. \<exists>bits. unpack_bits_local (sol_bits sv s) (n_rels b) = Some bits
        \<and> ComputeX bits b (Montgomery N) = Some (d_X bufs2 ! s)
        \<and> (if square_exponents fb (sol_rels sv b s)
           then d_valid bufs2 ! s = 1 \<and> ComputeY bits b fb N (Montgomery N) = Some (d_Y bufs2 ! s)
           else d_valid bufs2 ! s = 0 \<and> is_zero (d_Y bufs2 ! s)))"
  by (rule gpu_pipeline [OF assms])

definition in_order :: gpu_env where
  "in_order = \<lparr>order = \<lambda>_ n. [0..<n], lanes = \<lambda>_ _ _. [0..<256], atomics = id, junk = \<lambda>_. zero512, junk8 = \<lambda>_. 0\<rparr>"

definition small_bufs :: sqrt_bufs where
  "small_bufs = \<lparr>max_K = 1, max_nnz = 1, max_fb = 1, max_n = 1, allocated = True, fb_transformed = False,
     d_factor_base_mont = [zero512], d_X = [zero512], d_Y = [zero512], d_valid = [0]\<rparr>"

text \<open>The device path on the relation \<open>10\<^sup>2 = 3\<^sup>2 (mod 91)\<close>.\<close>

abbreviation small_sv :: solution_view where
  "small_sv \<equiv> \<lparr>d_data = [1], num_solutions = 1, words_per_vec = 1\<rparr>"

lemma in_order_ok: "gpu_ok in_order"
  by (simp add: gpu_ok_def in_order_def schedule_def)

lemma one_relation_exact: "batch_exact one_relation" and one_relation_few: "unat (num_factors one_relation) = 1"
  by (simp_all add: batch_exact_def offsets_ok_def one_relation_def)

lemma small_view: "view_ok small_sv (n_rels one_relation)"
  by (simp add: view_ok_def one_relation_ok)

lemma small_sized: "sized small_bufs (n_rels one_relation) (unat (num_factors one_relation) mod 2 ^ 32) (length [3 :: u32]) (num_solutions small_sv)"
  by (simp add: sized_def small_bufs_def one_relation_ok grid_def one_relation_few)

lemma small_ready: "fb_ready small_bufs (uint512_u32 91) [3]"
  by (simp add: fb_ready_def small_bufs_def)

lemma one_relation_fits:
  "exponents_fit [3] (sol_rels small_sv one_relation 0)" "factors_fit (length [3 :: u32]) (sol_rels small_sv one_relation 0)"
  "square_exponents [3] (sol_rels small_sv one_relation 0)"
proof -
  have bits: "sol_bits small_sv 0 = [1]" by (simp add: sol_bits_def)
  have rels: "sol_rels small_sv one_relation 0 = [rel_at one_relation 0]"
    by (simp only: sol_rels_def bits one_relation_chosen list.map)
  have sums: "neg_count [rel_at one_relation 0] = 0" "two_exp [rel_at one_relation 0] = 0" "prime_exp [rel_at one_relation 0] 0 = 2"
    by (simp_all add: one_relation_at neg_count_def two_exp_def prime_exp_def fb_exp_def)
  show "exponents_fit [3] (sol_rels small_sv one_relation 0)" "factors_fit (length [3 :: u32]) (sol_rels small_sv one_relation 0)"
    "square_exponents [3] (sol_rels small_sv one_relation 0)"
    unfolding rels by (simp_all add: exponents_fit_def factors_fit_def square_exponents_def sums) (simp_all add: one_relation_at)
qed

lemma one_relation_device:
  "0 < n_rels one_relation" "unat (num_factors one_relation) < 2 ^ 32" "0 < length [3 :: u32]" "length [3 :: u32] + 255 < 2 ^ 32"
  "num_solutions small_sv * length [3 :: u32] \<le> 2 ^ 32" "length (uint512_u32 91) = 16" "odd (lval (uint512_u32 91))" "1 < lval (uint512_u32 91)"
  by (simp_all add: one_relation_ok one_relation_few)

theorem gpu_roots_match_host_witness:
  "\<exists>bufs1 bufs2. ComputeXBatchedGPU in_order (uint512_u32 91) small_sv one_relation small_bufs = Some bufs1
    \<and> ComputeYBatchedGPU in_order (uint512_u32 91) small_sv one_relation [3] bufs1 = Some bufs2 \<and> d_valid bufs2 ! 0 = 1"
proof -
  have "exponents_fit [3] (sol_rels small_sv one_relation s) \<and> factors_fit (length [3 :: u32]) (sol_rels small_sv one_relation s)"
    if "s < num_solutions small_sv" for s using one_relation_fits that by simp
  note t = gpu_roots_match_host [OF one_relation_ok(1) one_relation_device(1) one_relation_exact one_relation_device(2,6-8) in_order_ok in_order_ok
    small_view small_sized one_relation_device(3-5) small_ready this]
  have "0 < num_solutions small_sv" by simp
  with t one_relation_fits(3) show ?thesis by (meson)
qed

end
