(* ===== verification/Factor_Refine.thy ===== *)
theory Factor_Refine
  imports Sqrt_Gpu
begin

text \<open>
  From the roots of all solutions to a pair of factors, \<^verbatim>\<open>BatchedGCD\<close> of \<^verbatim>\<open>src/sqrt/sqrt_step.cu\<close> with its two
  kernels: one gcd thread per solution, and a single block that collects the factors found, splits them by
  pairwise gcds and sorts what is left. Threads run in the order given by \<open>gpu_env\<close>; the content of the
  buffers before the call is an argument. Statistics, log output and the checks compiled only with
  \<^verbatim>\<open>MPQS_DEBUG\<close> are left out.
\<close>

section \<open>One gcd thread per solution\<close>

definition gcd_thread ::
    "uint512 list \<Rightarrow> uint512 list \<Rightarrow> uint512 \<Rightarrow> nat \<Rightarrow> nat \<Rightarrow> uint512 list \<times> int list \<Rightarrow> (uint512 list \<times> int list) option" where
  "gcd_thread Xs Ys N n j st = (case st of (d_factors, d_factor_status) \<Rightarrow>
     if n \<le> j then Some st else do {
       Xj \<leftarrow> vec_at Xs j;
       Yj \<leftarrow> vec_at Ys j;
       f1 \<leftarrow> gcd512 (abs_diff Xj Yj) N;
       if \<not> trivial_factor N f1 then do {
         d_factors \<leftarrow> vec_put j f1 d_factors;
         d_factor_status \<leftarrow> vec_put j 1 d_factor_status;
         Some (d_factors, d_factor_status)
       } else do {
         f2 \<leftarrow> gcd512 (add_mod Xj Yj N) N;
         if \<not> trivial_factor N f2 then do {
           d_factors \<leftarrow> vec_put j f2 d_factors;
           d_factor_status \<leftarrow> vec_put j 2 d_factor_status;
           Some (d_factors, d_factor_status)
         } else do {
           d_factor_status \<leftarrow> vec_put j 0 d_factor_status;
           Some (d_factors, d_factor_status)
         }
       }
     })"

definition BatchedGCDKernel ::
    "gpu_env \<Rightarrow> uint512 list \<Rightarrow> uint512 list \<Rightarrow> uint512 \<Rightarrow> nat \<Rightarrow> uint512 list \<times> int list \<Rightarrow> (uint512 list \<times> int list) option" where
  "BatchedGCDKernel env Xs Ys N n = ofold (gcd_thread Xs Ys N n) (order env 20 n)"

section \<open>Refinement by pairwise gcds\<close>

definition REFINE_BLOCK_SIZE :: nat where "REFINE_BLOCK_SIZE = 128"

definition MAX_POOL :: nat where "MAX_POOL = 64"

definition MAX_REFINE_ROUNDS :: nat where "MAX_REFINE_ROUNDS = 8"

partial_function (option) decode_loop :: "int \<Rightarrow> int \<Rightarrow> int \<Rightarrow> int \<Rightarrow> (int \<times> int) option" where
  "decode_loop p m r acc =
     (if acc + (m - 1 - r) \<le> p then decode_loop p m (r + 1) (acc + (m - 1 - r)) else Some (r, r + 1 + (p - acc)))"

definition decode_triangular :: "int \<Rightarrow> int \<Rightarrow> (int \<times> int) option" where
  "decode_triangular p m = decode_loop p m 0 0"

text \<open>Threads take slots of the pool in the order in which they run.\<close>

definition collect_thread :: "uint512 list \<Rightarrow> int list \<Rightarrow> nat \<Rightarrow> nat \<Rightarrow> uint512 list \<Rightarrow> uint512 list option" where
  "collect_thread d_factors d_factor_status n tid pool =
     (if tid < n then do {
        s \<leftarrow> vec_at d_factor_status tid;
        if s \<noteq> 0 then do {
          f \<leftarrow> vec_at d_factors tid;
          Some (if length pool < MAX_POOL then pool @ [f] else pool)
        } else Some pool
      } else Some pool)"

text \<open>The inner loop of the insertion sort shifts larger elements up and puts the key below them.\<close>

definition insert_key :: "uint512 \<Rightarrow> uint512 list \<Rightarrow> uint512 list" where
  "insert_key key xs =
     (let larger = length (takeWhile (\<lambda>x. less512 key x) (rev xs)); k = length xs - larger
      in take k xs @ [key] @ drop k xs)"

definition insertion_sort :: "uint512 list \<Rightarrow> uint512 list" where
  "insertion_sort xs = fold insert_key xs []"

text \<open>An element is dropped when it equals its predecessor or is trivial.\<close>

definition dropped :: "uint512 \<Rightarrow> uint512 list \<Rightarrow> nat \<Rightarrow> bool" where
  "dropped N xs i \<longleftrightarrow> i > 0 \<and> eq512 (xs ! i) (xs ! (i - 1)) \<or> is_one (xs ! i) \<or> eq512 (xs ! i) N"

definition dedup_in_place :: "uint512 \<Rightarrow> uint512 list \<Rightarrow> uint512 list" where
  "dedup_in_place N pool =
     (let (pool, write) = fold (\<lambda>i (pool, write). if dropped N pool i then (pool, write) else (pool[write := pool ! i], write + 1))
            [0..<length pool] (pool, 0)
      in take write pool)"

definition dedup_into_pool :: "uint512 \<Rightarrow> uint512 list \<Rightarrow> uint512 list" where
  "dedup_into_pool N tmp =
     fold (\<lambda>i pool. if dropped N tmp i then pool else if length pool < MAX_POOL then pool @ [tmp ! i] else pool) [0..<length tmp] []"

text \<open>Thread \<open>tid\<close> takes the pair number \<open>tid\<close>; a split is recorded as \<open>g\<close>, \<open>a / g\<close>, \<open>b / g\<close>.\<close>

definition split_thread ::
    "uint512 list \<Rightarrow> nat \<Rightarrow> bool \<times> (uint512 \<times> uint512 \<times> uint512) list \<Rightarrow> (bool \<times> (uint512 \<times> uint512 \<times> uint512) list) option" where
  "split_thread pool tid st = (case st of (changed, scratch) \<Rightarrow>
     let m = length pool in
     if tid < m * (m - 1) div 2 then do {
       (i, j) \<leftarrow> decode_triangular (int tid) (int m);
       a \<leftarrow> vec_at pool (nat i);
       b \<leftarrow> vec_at pool (nat j);
       g \<leftarrow> gcd512 a b;
       Some (if \<not> is_one g \<and> \<not> eq512 g a \<and> \<not> eq512 g b
             then (True, if length scratch < MAX_POOL then scratch @ [(g, div512 a g, div512 b g)] else scratch)
             else (changed, scratch))
     } else Some (changed, scratch))"

definition add_fragment :: "uint512 \<Rightarrow> uint512 \<Rightarrow> uint512 list \<Rightarrow> uint512 list" where
  "add_fragment N f tmp = (if \<not> is_one f \<and> \<not> eq512 f N \<and> length tmp < MAX_POOL * 2 then tmp @ [f] else tmp)"

definition apply_split :: "uint512 \<Rightarrow> uint512 list \<Rightarrow> uint512 \<times> uint512 \<times> uint512 \<Rightarrow> uint512 list \<times> u64 \<Rightarrow> uint512 list \<times> u64" where
  "apply_split N pool sp st = (case (sp, st) of ((g, a_dg, b_dg), (tmp, involved)) \<Rightarrow>
     let A = mult512 g a_dg; B = mult512 g b_dg;
         involved = fold (\<lambda>k involved. if eq512 (pool ! k) A \<or> eq512 (pool ! k) B then involved OR push_bit k 1 else involved)
                      [0..<length pool] involved
     in (add_fragment N b_dg (add_fragment N a_dg (add_fragment N g tmp)), involved))"

definition rebuild_pool :: "uint512 \<Rightarrow> uint512 list \<Rightarrow> (uint512 \<times> uint512 \<times> uint512) list \<Rightarrow> uint512 list" where
  "rebuild_pool N pool scratch =
     (let (tmp, involved) = fold (apply_split N pool) scratch ([], 0);
          tmp = fold (\<lambda>k tmp. if involved AND push_bit k 1 = 0 \<and> length tmp < MAX_POOL * 2 then tmp @ [pool ! k] else tmp)
                  [0..<length pool] tmp
      in dedup_into_pool N (insertion_sort tmp))"

fun refine_rounds :: "gpu_env \<Rightarrow> uint512 \<Rightarrow> nat \<Rightarrow> uint512 list \<Rightarrow> uint512 list option" where
  "refine_rounds env N 0 pool = Some pool"
| "refine_rounds env N (Suc k) pool = do {
     (changed, scratch) \<leftarrow> ofold (split_thread pool) (order env (30 + k) REFINE_BLOCK_SIZE) (False, []);
     if changed then refine_rounds env N k (rebuild_pool N pool scratch) else Some pool
   }"

definition RefineFactorsKernel :: "gpu_env \<Rightarrow> uint512 list \<Rightarrow> int list \<Rightarrow> uint512 \<Rightarrow> nat \<Rightarrow> uint512 list option" where
  "RefineFactorsKernel env d_factors d_factor_status N n = do {
     pool \<leftarrow> ofold (collect_thread d_factors d_factor_status n) (order env 21 REFINE_BLOCK_SIZE) [];
     if pool = [] then Some [] else
       let pool = dedup_in_place N (insertion_sort pool)
       in if pool = [] then Some [] else refine_rounds env N MAX_REFINE_ROUNDS pool
   }"

section \<open>The host side\<close>

datatype gcd_outcome = Thrown | Factors uint512 uint512

fun raw_scan :: "uint512 \<Rightarrow> uint512 list \<Rightarrow> int list \<Rightarrow> nat list \<Rightarrow> gcd_outcome option" where
  "raw_scan N h_factors h_status [] = Some (Factors (uint512_u32 1) N)"
| "raw_scan N h_factors h_status (j # js) = do {
     s \<leftarrow> vec_at h_status j;
     if s \<noteq> 0 then do {
       f \<leftarrow> vec_at h_factors j;
       let cofactor = div512 N f;
       if \<not> eq512 (mult512 f cofactor) N then raw_scan N h_factors h_status js
       else Some (Factors f cofactor)
     } else raw_scan N h_factors h_status js
   }"

definition BatchedGCD ::
    "gpu_env \<Rightarrow> uint512 \<Rightarrow> uint512 list \<Rightarrow> uint512 list \<Rightarrow> nat \<Rightarrow> uint512 list \<times> int list \<Rightarrow> gcd_outcome option" where
  "BatchedGCD env N Xs Ys n bufs = (case bufs of (d_factors, d_factor_status) \<Rightarrow>
     if n > 1024 then Some Thrown else do {
       (d_factors, d_factor_status) \<leftarrow> BatchedGCDKernel env Xs Ys N n (d_factors, replicate n 0 @ drop n d_factor_status);
       h_refined \<leftarrow> RefineFactorsKernel env d_factors d_factor_status N n;
       h_factors \<leftarrow> upload n d_factors;
       h_status \<leftarrow> upload n d_factor_status;
       if h_refined \<noteq> [] then Some (Factors (h_refined ! 0) (div512 N (h_refined ! 0)))
       else raw_scan N h_factors h_status [0..<n]
     })"

section \<open>Pairs\<close>

text \<open>The number of the first pair whose smaller index is \<open>i\<close>.\<close>

fun first_pair :: "nat \<Rightarrow> nat \<Rightarrow> nat" where
  "first_pair m 0 = 0"
| "first_pair m (Suc i) = first_pair m i + (m - 1 - i)"

lemma first_pair_mono: "i \<le> k \<Longrightarrow> first_pair m i \<le> first_pair m k"
  by (induction k) (auto simp: le_Suc_eq)

lemma first_pair_total: "2 * first_pair m i = i * (2 * m - 1 - i)" if "i \<le> m"
  using that
proof (induction i)
  case (Suc i)
  obtain d where d: "m = Suc i + d" using Suc.prems le_Suc_ex by blast
  show ?case using Suc by (simp add: d algebra_simps)
qed simp

lemma decode_loop_val:
  assumes "r \<le> i" "i < m" "first_pair m i \<le> p" "p < first_pair m (Suc i)"
  shows "decode_loop (int p) (int m) (int r) (int (first_pair m r)) = Some (int i, int (i + 1 + (p - first_pair m i)))"
  using assms
proof (induction "i - r" arbitrary: r)
  case 0
  then have "r = i" by simp
  moreover have "int p < int (first_pair m i) + (int m - 1 - int i)" using 0 by (simp add: of_nat_diff)
  ultimately show ?case using 0 by (subst decode_loop.simps) (simp add: of_nat_diff)
next
  case (Suc k)
  then have r: "Suc r \<le> i" "k = i - Suc r" by simp_all
  have "first_pair m (Suc r) \<le> p" using first_pair_mono [OF r(1), of m] Suc.prems(3) by simp
  moreover have f: "int (first_pair m (Suc r)) = int (first_pair m r) + (int m - 1 - int r)" "int (Suc r) = int r + 1"
    using r(1) Suc.prems(2) by (simp_all add: of_nat_diff)
  ultimately have "int (first_pair m r) + (int m - 1 - int r) \<le> int p" by linarith
  then show ?case
    using Suc.hyps(1) [OF r(2,1) Suc.prems(2-4)] unfolding f by (subst decode_loop.simps) simp
qed

lemma pair_number:
  assumes "i < j" "j < m"
  shows "decode_triangular (int (first_pair m i + (j - i - 1))) (int m) = Some (int i, int j)"
  using decode_loop_val [of 0 i m "first_pair m i + (j - i - 1)"] assms by (simp add: decode_triangular_def)

lemma decode_triangular_val:
  assumes "p < m * (m - 1) div 2"
  shows "\<exists>i j. decode_triangular (int p) (int m) = Some (int i, int j) \<and> i < j \<and> j < m"
proof -
  have t: "p < first_pair m m" using assms first_pair_total [of m m] by simp
  define i where "i = (LEAST k. p < first_pair m (Suc k))"
  have m: "m \<noteq> 0" using t by (cases m) auto
  then have ex: "p < first_pair m (Suc (m - 1))" using t by simp
  have i: "p < first_pair m (Suc i)" "i \<le> m - 1" 
    unfolding i_def by (rule LeastI [where P = "\<lambda>k. p < first_pair m (Suc k)", OF ex], rule Least_le [where P = "\<lambda>k. p < first_pair m (Suc k)", OF ex])
  have lo: "first_pair m i \<le> p"
  proof (cases i)
    case (Suc k)
    then have "\<not> p < first_pair m (Suc k)" using not_less_Least [of k "\<lambda>k. p < first_pair m (Suc k)"] by (simp add: i_def)
    then show ?thesis using Suc by simp
  qed simp
  have "i < m" using i(2) m by simp
  have j: "i + 1 + (p - first_pair m i) < m" using i(1) lo \<open>i < m\<close> by simp
  have "decode_triangular (int p) (int m) = Some (int i, int (i + 1 + (p - first_pair m i)))"
    using decode_loop_val [of 0 i m p] \<open>i < m\<close> i(1) lo by (simp add: decode_triangular_def)
  with j show ?thesis by (intro exI [of _ i] exI [of _ "i + 1 + (p - first_pair m i)"]) simp
qed

section \<open>Pools of proper divisors\<close>

definition divisor :: "uint512 \<Rightarrow> uint512 \<Rightarrow> bool" where
  "divisor N f \<longleftrightarrow> length f = 16 \<and> lval f dvd lval N"

definition proper :: "uint512 \<Rightarrow> uint512 \<Rightarrow> bool" where
  "proper N f \<longleftrightarrow> divisor N f \<and> 1 < lval f \<and> lval f < lval N"

lemma is_one512: "length x = 16 \<Longrightarrow> is_one x \<longleftrightarrow> lval x = 1"
  by (rule is_one_val) auto

lemma proper_iff:
  assumes "length N = 16" "1 < lval N" and "divisor N f"
  shows "proper N f \<longleftrightarrow> \<not> is_one f \<and> \<not> eq512 f N"
proof -
  have "lval f \<noteq> 0" using assms(2,3) by (metis divisor_def dvd_0_left_iff not_less_zero)
  moreover have "lval f \<le> lval N" using assms by (simp add: divisor_def dvd_imp_le)
  ultimately show ?thesis using assms is_one512 [of f] eq512_val [of f N] by (auto simp: proper_def divisor_def)
qed

lemma insert_key_set: "set (insert_key x xs) = insert x (set xs)"
proof -
  define k where "k = length xs - length (takeWhile (\<lambda>y. less512 x y) (rev xs))"
  have "set (take k xs) \<union> set (drop k xs) = set xs" by (metis append_take_drop_id set_append)
  then show ?thesis by (auto simp: insert_key_def Let_def k_def [symmetric])
qed

lemma insertion_sort_set: "set (insertion_sort xs) = set xs"
proof -
  have "set (fold insert_key xs acc) = set xs \<union> set acc" for acc
    by (induction xs arbitrary: acc) (simp_all add: insert_key_set)
  then show ?thesis by (simp add: insertion_sort_def)
qed

lemma dedup_in_place_set:
  assumes "length N = 16" "1 < lval N" and "xs \<noteq> []" "\<And>x. x \<in> set xs \<Longrightarrow> proper N x"
  shows "dedup_in_place N xs \<noteq> []" and "set (dedup_in_place N xs) \<subseteq> set xs" and "length (dedup_in_place N xs) \<le> length xs"
proof -
  let ?f = "\<lambda>i (pool, write). if dropped N pool i then (pool, write) else (pool[write := pool ! i], write + 1)"
  have keep: "\<not> is_one x" "\<not> eq512 x N" if "x \<in> set xs" for x
    using proper_iff [OF assms(1,2), of x] assms(4) [OF that] by (simp_all add: proper_def)
  have inv: "case fold ?f [0..<k] (xs, 0) of (pool, write) \<Rightarrow> length pool = length xs \<and> set pool \<subseteq> set xs \<and> write \<le> k \<and> (0 < k \<longrightarrow> 0 < write)"
    if "k \<le> length xs" for k
    using that
  proof (induction k)
    case (Suc k)
    obtain pool wr where st: "fold ?f [0..<k] (xs, 0) = (pool, wr)" by fastforce
    have p: "length pool = length xs" "set pool \<subseteq> set xs" "wr \<le> k" "0 < k \<longrightarrow> 0 < wr" using Suc st by simp_all
    have "pool ! k \<in> set xs" using p(1,2) Suc.prems nth_mem [of k pool] by auto
    then have "\<not> dropped N pool k" if "k = 0" using keep that by (simp add: dropped_def)
    then show ?case
      using p Suc.prems set_update_subset_insert [of pool wr "pool ! k"] \<open>pool ! k \<in> set xs\<close> by (auto simp: st)
  qed simp
  obtain pool wr where st: "fold ?f [0..<length xs] (xs, 0) = (pool, wr)" by fastforce
  have p: "length pool = length xs" "set pool \<subseteq> set xs" "wr \<le> length xs" "0 < wr" using inv [of "length xs"] st assms(3) by simp_all
  have d: "dedup_in_place N xs = take wr pool" using st by (simp add: dedup_in_place_def)
  show "dedup_in_place N xs \<noteq> []" using p assms(3) by (auto simp: d)
  show "set (dedup_in_place N xs) \<subseteq> set xs" using p(2) set_take_subset [of wr pool] by (simp add: d)
  show "length (dedup_in_place N xs) \<le> length xs" using p by (simp add: d)
qed

lemma dedup_into_pool_set:
  assumes "length N = 16" "1 < lval N" and "\<And>x. x \<in> set tmp \<Longrightarrow> proper N x"
  shows "tmp \<noteq> [] \<Longrightarrow> dedup_into_pool N tmp \<noteq> []" and "set (dedup_into_pool N tmp) \<subseteq> set tmp" and "length (dedup_into_pool N tmp) \<le> MAX_POOL"
proof -
  let ?f = "\<lambda>i pool. if dropped N tmp i then pool else if length pool < MAX_POOL then pool @ [tmp ! i] else pool"
  have keep: "\<not> is_one x" "\<not> eq512 x N" if "x \<in> set tmp" for x
    using proper_iff [OF assms(1,2), of x] assms(3) [OF that] by (simp_all add: proper_def)
  have "set (fold ?f [0..<k] []) \<subseteq> set tmp \<and> length (fold ?f [0..<k] []) \<le> MAX_POOL \<and> (0 < k \<longrightarrow> fold ?f [0..<k] [] \<noteq> [])"
    if "k \<le> length tmp" for k
    using that
  proof (induction k)
    case (Suc k)
    have "tmp ! k \<in> set tmp" using Suc.prems by simp
    then have "\<not> dropped N tmp k" if "k = 0" using keep that by (simp add: dropped_def)
    then show ?case using Suc \<open>tmp ! k \<in> set tmp\<close> by (auto simp: MAX_POOL_def)
  qed simp
  from this [of "length tmp"] show "tmp \<noteq> [] \<Longrightarrow> dedup_into_pool N tmp \<noteq> []" "set (dedup_into_pool N tmp) \<subseteq> set tmp"
    "length (dedup_into_pool N tmp) \<le> MAX_POOL"
    by (simp_all add: dedup_into_pool_def)
qed

section \<open>Refinement keeps proper divisors\<close>

definition split_ok :: "uint512 \<Rightarrow> uint512 \<times> uint512 \<times> uint512 \<Rightarrow> bool" where
  "split_ok N sp \<longleftrightarrow> (case sp of (g, a, b) \<Rightarrow> proper N g \<and> divisor N a \<and> divisor N b)"

lemma divisor_quotient:
  assumes "divisor N a" and "length g = 16" "lval g dvd lval a" "lval g \<noteq> 0"
  shows "divisor N (div512 a g)"
proof -
  have "length (div512 a g) = 16" "lval (div512 a g) = lval a div lval g"
    using div512_val(1) [of a g] assms by (simp_all add: divisor_def)
  moreover have "lval a div lval g dvd lval a" using assms(3) by (metis dvd_triv_right dvd_div_mult_self dvdI)
  ultimately show ?thesis using assms(1) by (auto simp: divisor_def intro: dvd_trans)
qed

lemma split_thread_val:
  assumes pool: "\<And>x. x \<in> set pool \<Longrightarrow> proper N x" and "\<forall>sp \<in> set scratch. split_ok N sp" "changed \<longrightarrow> scratch \<noteq> []"
  shows "\<exists>changed' scratch'. split_thread pool tid (changed, scratch) = Some (changed', scratch')
    \<and> (\<forall>sp \<in> set scratch'. split_ok N sp) \<and> (changed' \<longrightarrow> scratch' \<noteq> [])"
proof (cases "tid < length pool * (length pool - 1) div 2")
  case True
  obtain i j where ij: "decode_triangular (int tid) (int (length pool)) = Some (int i, int j)" "i < j" "j < length pool"
    using decode_triangular_val [OF True] by blast
  have ab: "proper N (pool ! i)" "proper N (pool ! j)" using pool ij by simp_all
  then have len: "length (pool ! i) = 16" "length (pool ! j) = 16" by (simp_all add: proper_def divisor_def)
  obtain g where g: "gcd512 (pool ! i) (pool ! j) = Some g" "length g = 16" "lval g = gcd (lval (pool ! i)) (lval (pool ! j))"
    using gcd512_val [OF len] by blast
  have dv: "lval g dvd lval (pool ! i)" "lval g dvd lval (pool ! j)" by (simp_all add: g(3))
  have pos: "lval (pool ! i) > 1" "lval (pool ! i) < lval N" using ab(1) by (simp_all add: proper_def)
  then have "lval g \<noteq> 0" "lval g \<le> lval (pool ! i)" using g(3) dvd_imp_le [OF dv(1)] by auto
  moreover have "divisor N g" using g(2) dv(1) ab(1) by (auto simp: proper_def divisor_def intro: dvd_trans)
  ultimately have "split_ok N (g, div512 (pool ! i) g, div512 (pool ! j) g)" if "\<not> is_one g"
    using divisor_quotient [OF _ g(2) dv(1)] divisor_quotient [OF _ g(2) dv(2)] ab pos is_one512 [OF g(2)] that
    by (auto simp: split_ok_def proper_def)
  moreover have "split_thread pool tid (changed, scratch) = Some (if \<not> is_one g \<and> \<not> eq512 g (pool ! i) \<and> \<not> eq512 g (pool ! j)
      then (True, if length scratch < MAX_POOL then scratch @ [(g, div512 (pool ! i) g, div512 (pool ! j) g)] else scratch) else (changed, scratch))"
    using ij g(1) True by (simp add: split_thread_def Let_def)
  moreover have "length scratch < MAX_POOL \<or> scratch \<noteq> []" by (auto simp: MAX_POOL_def)
  ultimately show ?thesis using assms(2,3) by (cases "length scratch < MAX_POOL") (auto split: if_splits)
next
  case False
  then show ?thesis using assms(2,3) by (auto simp: split_thread_def Let_def)
qed

lemma split_threads_val:
  assumes pool: "\<And>x. x \<in> set pool \<Longrightarrow> proper N x"
  shows "\<forall>sp \<in> set scratch. split_ok N sp \<Longrightarrow> changed \<longrightarrow> scratch \<noteq> [] \<Longrightarrow>
    \<exists>changed' scratch'. ofold (split_thread pool) tids (changed, scratch) = Some (changed', scratch')
      \<and> (\<forall>sp \<in> set scratch'. split_ok N sp) \<and> (changed' \<longrightarrow> scratch' \<noteq> [])"
proof (induction tids arbitrary: changed scratch)
  case (Cons t tids)
  obtain c1 s1 where "split_thread pool t (changed, scratch) = Some (c1, s1)" "\<forall>sp \<in> set s1. split_ok N sp" "c1 \<longrightarrow> s1 \<noteq> []"
    using split_thread_val [OF pool Cons.prems] by blast
  then show ?case using Cons.IH [of s1 c1] by simp
qed auto

definition all_proper :: "uint512 \<Rightarrow> uint512 list \<Rightarrow> bool" where
  "all_proper N xs \<longleftrightarrow> (\<forall>x \<in> set xs. proper N x)"

lemma add_fragment_set:
  assumes "length N = 16" "1 < lval N" "divisor N f" "all_proper N tmp"
  shows "all_proper N (add_fragment N f tmp)" and "tmp \<noteq> [] \<or> proper N f \<longrightarrow> add_fragment N f tmp \<noteq> []"
  using assms(4) proper_iff [OF assms(1-3)] by (auto simp: add_fragment_def all_proper_def MAX_POOL_def)

lemma apply_split_set:
  assumes N: "length N = 16" "1 < lval N" and "split_ok N sp" "all_proper N (fst st)"
  shows "all_proper N (fst (apply_split N pool sp st))" and "fst (apply_split N pool sp st) \<noteq> []"
proof -
  obtain g a b where sp: "sp = (g, a, b)" by (metis prod.exhaust)
  have d: "divisor N g" "divisor N a" "divisor N b" "proper N g" using assms(3) by (simp_all add: sp split_ok_def proper_def)
  note s1 = add_fragment_set [OF N d(1) assms(4)]
  note s2 = add_fragment_set [OF N d(2) s1(1)]
  note s3 = add_fragment_set [OF N d(3) s2(1)]
  have "fst (apply_split N pool sp st) = add_fragment N b (add_fragment N a (add_fragment N g (fst st)))"
    by (cases st) (simp add: apply_split_def sp Let_def)
  then show "all_proper N (fst (apply_split N pool sp st))" "fst (apply_split N pool sp st) \<noteq> []"
    using s1(2) s2(2) s3 d(4) by simp_all
qed

lemma rebuild_pool_set:
  assumes N: "length N = 16" "1 < lval N" and pool: "\<And>x. x \<in> set pool \<Longrightarrow> proper N x"
    and scratch: "\<forall>sp \<in> set scratch. split_ok N sp" "scratch \<noteq> []"
  shows "rebuild_pool N pool scratch \<noteq> []" and "x \<in> set (rebuild_pool N pool scratch) \<Longrightarrow> proper N x"
    and "length (rebuild_pool N pool scratch) \<le> MAX_POOL"
proof -
  have f: "all_proper N (fst (fold (apply_split N pool) sc st)) \<and> (sc \<noteq> [] \<or> fst st \<noteq> [] \<longrightarrow> fst (fold (apply_split N pool) sc st) \<noteq> [])"
    if "\<forall>sp \<in> set sc. split_ok N sp" "all_proper N (fst st)" for sc st
    using that
  proof (induction sc arbitrary: st)
    case (Cons sp sc)
    then have "split_ok N sp" by simp
    note a = apply_split_set [OF N this Cons.prems(2), of pool]
    show ?case using Cons.IH [OF _ a(1)] Cons.prems(1) a(2) by simp
  qed simp
  obtain tmp involved where st: "fold (apply_split N pool) scratch ([], 0) = (tmp, involved)" by fastforce
  have tmp: "tmp \<noteq> []" "\<And>x. x \<in> set tmp \<Longrightarrow> proper N x" using f [OF scratch(1), of "([], 0)"] scratch(2) st by (simp_all add: all_proper_def)
  let ?keep = "\<lambda>k tmp. if involved AND push_bit k 1 = 0 \<and> length tmp < MAX_POOL * 2 then tmp @ [pool ! k] else tmp"
  define all where "all = fold ?keep [0..<length pool] tmp"
  have step: "(\<forall>x \<in> set (?keep k t). proper N x) \<and> ?keep k t \<noteq> []" if "\<forall>x \<in> set t. proper N x" "t \<noteq> []" "k < length pool" for k t
    using that pool by auto
  have "(\<forall>x \<in> set (fold ?keep ks t). proper N x) \<and> fold ?keep ks t \<noteq> []"
    if "\<forall>x \<in> set t. proper N x" "t \<noteq> []" "set ks \<subseteq> {0..<length pool}" for ks t
    using that
  proof (induction ks arbitrary: t)
    case (Cons k ks)
    define t' where "t' = ?keep k t"
    have k: "k < length pool" "set ks \<subseteq> {0..<length pool}" using Cons.prems(3) by simp_all
    have t': "\<forall>x \<in> set t'. proper N x" "t' \<noteq> []" using step [OF Cons.prems(1,2) k(1)] unfolding t'_def by blast+
    have f: "fold ?keep (k # ks) t = fold ?keep ks t'" unfolding t'_def by (simp only: fold_simps)
    show ?case unfolding f by (rule Cons.IH [OF t' k(2)])
  qed simp
  from this [of tmp "[0..<length pool]"] tmp have all: "all \<noteq> []" "\<And>x. x \<in> set all \<Longrightarrow> proper N x" unfolding all_def by auto
  have r: "rebuild_pool N pool scratch = dedup_into_pool N (insertion_sort all)" using st by (simp add: rebuild_pool_def all_def)
  have srt: "\<And>x. x \<in> set (insertion_sort all) \<Longrightarrow> proper N x" "insertion_sort all \<noteq> []"
    using all insertion_sort_set [of all] by auto
  note d = dedup_into_pool_set [OF N srt(1)]
  show "rebuild_pool N pool scratch \<noteq> []" "length (rebuild_pool N pool scratch) \<le> MAX_POOL" using d(1) [OF _ srt(2)] d(3) unfolding r by blast+
  show "x \<in> set (rebuild_pool N pool scratch) \<Longrightarrow> proper N x" using d(2) srt(1) unfolding r by blast
qed

lemma refine_rounds_val:
  assumes N: "length N = 16" "1 < lval N"
  shows "pool \<noteq> [] \<Longrightarrow> (\<And>x. x \<in> set pool \<Longrightarrow> proper N x) \<Longrightarrow> length pool \<le> MAX_POOL \<Longrightarrow>
    \<exists>ps. refine_rounds env N k pool = Some ps \<and> ps \<noteq> [] \<and> (\<forall>x \<in> set ps. proper N x) \<and> length ps \<le> MAX_POOL"
proof (induction k arbitrary: pool)
  case (Suc k)
  obtain changed scratch where run: "ofold (split_thread pool) (order env (30 + k) REFINE_BLOCK_SIZE) (False, []) = Some (changed, scratch)"
      "\<forall>sp \<in> set scratch. split_ok N sp" "changed \<longrightarrow> scratch \<noteq> []"
    using split_threads_val [where pool = pool and N = N and scratch = "[]" and changed = False and tids = "order env (30 + k) REFINE_BLOCK_SIZE"]
      Suc.prems(2) by auto
  note r = rebuild_pool_set [OF N Suc.prems(2) run(2)]
  show ?case
  proof (cases changed)
    case True
    then have "scratch \<noteq> []" using run(3) by simp
    then show ?thesis using Suc.IH [of "rebuild_pool N pool scratch"] r run(1) True by simp
  qed (use Suc.prems run(1) in simp)
qed auto

section \<open>The kernels\<close>

text \<open>Whether one of the two gcds of a solution is a proper divisor.\<close>

definition gcd_splits :: "nat \<Rightarrow> nat \<Rightarrow> nat \<Rightarrow> bool" where
  "gcd_splits N x y \<longleftrightarrow> gcd (if x < y then y - x else x - y) N \<notin> {1, N} \<or> gcd ((x + y) mod N) N \<notin> {1, N}"

lemma square_roots_split:
  assumes "x\<^sup>2 mod N = y\<^sup>2 mod N" "x \<noteq> y" "(x + y) mod N \<noteq> 0" "x < N" "y < N"
  shows "gcd_splits N x y"
  using gcd_square_roots [of x N y] assms by (simp add: gcd_splits_def)

lemma gcd_thread_val:
  assumes N: "length N = 16" "1 < lval N" and j: "j < n" "j < length Xs" "j < length Ys"
    and X: "length (Xs ! j) = 16" "lval (Xs ! j) < lval N" and Y: "length (Ys ! j) = 16" "lval (Ys ! j) < lval N"
  shows "\<exists>s f. (\<forall>F S. n \<le> length F \<longrightarrow> n \<le> length S \<longrightarrow>
        gcd_thread Xs Ys N n j (F, S) = Some (if s \<noteq> 0 then F[j := f] else F, S[j := s]))
    \<and> (s \<noteq> 0 \<longleftrightarrow> gcd_splits (lval N) (lval (Xs ! j)) (lval (Ys ! j))) \<and> (s \<noteq> 0 \<longrightarrow> proper N f)"
proof -
  let ?x = "lval (Xs ! j)" and ?y = "lval (Ys ! j)"
  note d = abs_diff_val [OF X(1) Y(1)]
  have a: "length (add_mod (Xs ! j) (Ys ! j) N) = 16" "lval (add_mod (Xs ! j) (Ys ! j) N) = (?x + ?y) mod lval N"
    using add_mod_val [OF X(1) Y(1) N(1) X(2) Y(2)] by simp_all
  obtain f1 where f1: "gcd512 (abs_diff (Xs ! j) (Ys ! j)) N = Some f1" "length f1 = 16" "lval f1 = gcd (if ?x < ?y then ?y - ?x else ?x - ?y) (lval N)"
    using gcd512_val [OF d(1) N(1)] d(2) by auto
  obtain f2 where f2: "gcd512 (add_mod (Xs ! j) (Ys ! j) N) N = Some f2" "length f2 = 16" "lval f2 = gcd ((?x + ?y) mod lval N) (lval N)"
    using gcd512_val [OF a(1) N(1)] a(2) by auto
  have dv: "divisor N f1" "divisor N f2" using f1(2,3) f2(2,3) by (simp_all add: divisor_def)
  have p: "proper N f \<longleftrightarrow> \<not> trivial_factor N f" if "divisor N f" for f
    using proper_iff [OF N that] by (simp add: trivial_factor_def)
  have g: "gcd_splits (lval N) ?x ?y \<longleftrightarrow> \<not> trivial_factor N f1 \<or> \<not> trivial_factor N f2"
    by (simp add: gcd_splits_def trivial_factor_val [OF f1(2) N(1)] trivial_factor_val [OF f2(2) N(1)] f1(3) f2(3))
  define s :: int where "s = (if \<not> trivial_factor N f1 then 1 else if \<not> trivial_factor N f2 then 2 else 0)"
  define f where "f = (if \<not> trivial_factor N f1 then f1 else f2)"
  have "gcd_thread Xs Ys N n j (F, S) = Some (if s \<noteq> 0 then F[j := f] else F, S[j := s])"
    if "n \<le> length F" "n \<le> length S" for F S
    using j that f1(1) f2(1) by (simp add: gcd_thread_def vec_put_def s_def f_def)
  moreover have "s \<noteq> 0 \<longleftrightarrow> gcd_splits (lval N) ?x ?y" by (simp add: g s_def)
  moreover have "s \<noteq> 0 \<longrightarrow> proper N f" using p dv by (simp add: s_def f_def)
  ultimately show ?thesis by blast
qed

text \<open>Roots below \<open>N\<close> for all solutions.\<close>

definition roots_ok :: "uint512 \<Rightarrow> nat \<Rightarrow> uint512 list \<Rightarrow> bool" where
  "roots_ok N n xs \<longleftrightarrow> n \<le> length xs \<and> (\<forall>j < n. length (xs ! j) = 16 \<and> lval (xs ! j) < lval N)"

definition statuses_ok :: "uint512 \<Rightarrow> nat \<Rightarrow> uint512 list \<Rightarrow> uint512 list \<Rightarrow> uint512 list \<times> int list \<Rightarrow> bool" where
  "statuses_ok N n Xs Ys FS \<longleftrightarrow> n \<le> length (fst FS) \<and> n \<le> length (snd FS)
     \<and> (\<forall>j < n. (snd FS ! j \<noteq> 0 \<longleftrightarrow> gcd_splits (lval N) (lval (Xs ! j)) (lval (Ys ! j))) \<and> (snd FS ! j \<noteq> 0 \<longrightarrow> proper N (fst FS ! j)))"

lemma BatchedGCDKernel_val:
  assumes N: "length N = 16" "1 < lval N" and env: "gpu_ok env" and X: "roots_ok N n Xs" and Y: "roots_ok N n Ys"
    and len: "n \<le> length F" "n \<le> length S"
  shows "\<exists>FS. BatchedGCDKernel env Xs Ys N n (F, S) = Some FS \<and> statuses_ok N n Xs Ys FS"
proof -
  define P where "P j s f \<longleftrightarrow> (\<forall>F S. n \<le> length F \<longrightarrow> n \<le> length S \<longrightarrow>
        gcd_thread Xs Ys N n j (F, S) = Some (if s \<noteq> 0 then F[j := f] else F, S[j := s]))
    \<and> (s \<noteq> 0 \<longleftrightarrow> gcd_splits (lval N) (lval (Xs ! j)) (lval (Ys ! j))) \<and> (s \<noteq> 0 \<longrightarrow> proper N f)" for j and s :: int and f
  have "\<exists>s f. P j s f" if j: "j < n" for j
  proof -
    have xy: "j < length Xs" "j < length Ys" using X Y j by (simp_all add: roots_ok_def)
    have "length (Xs ! j) = 16" "lval (Xs ! j) < lval N" "length (Ys ! j) = 16" "lval (Ys ! j) < lval N"
      using X Y j by (simp_all add: roots_ok_def)
    from gcd_thread_val [OF N j xy this] show ?thesis unfolding P_def .
  qed
  then obtain s f where sf: "\<And>j. j < n \<Longrightarrow> P j (s j) (f j)" by metis
  have run: "gcd_thread Xs Ys N n j (F, S) = Some (if s j \<noteq> 0 then F[j := f j] else F, S[j := s j])"
    if "j < n" "n \<le> length F" "n \<le> length S" for j F S
    using sf [OF that(1)] that(2,3) by (simp only: P_def)
  have ok: "(s j \<noteq> 0 \<longleftrightarrow> gcd_splits (lval N) (lval (Xs ! j)) (lval (Ys ! j))) \<and> (s j \<noteq> 0 \<longrightarrow> proper N (f j))" if "j < n" for j
    using sf [OF that] unfolding P_def by blast
  have "\<exists>F' S'. ofold (gcd_thread Xs Ys N n) ts (F, S) = Some (F', S') \<and> n \<le> length F' \<and> n \<le> length S'
      \<and> (\<forall>j \<in> set ts \<union> T. S' ! j = s j \<and> (s j \<noteq> 0 \<longrightarrow> F' ! j = f j))"
    if "set ts \<subseteq> {0..<n}" "T \<subseteq> {0..<n}" "n \<le> length F" "n \<le> length S" "\<forall>j \<in> T. S ! j = s j \<and> (s j \<noteq> 0 \<longrightarrow> F ! j = f j)" for ts T F S
    using that
  proof (induction ts arbitrary: T F S)
    case (Cons t ts)
    define F1 where "F1 = (if s t \<noteq> 0 then F[t := f t] else F)"
    have t: "t < n" using Cons.prems(1) by simp
    have F1: "n \<le> length F1" using Cons.prems(3) by (simp add: F1_def)
    have "\<forall>j \<in> insert t T. S[t := s t] ! j = s j \<and> (s j \<noteq> 0 \<longrightarrow> F1 ! j = f j)"
      using Cons.prems(3-5) t by (auto simp: F1_def nth_list_update)
    from Cons.IH [OF _ _ _ _ this] obtain F' S' where r: "ofold (gcd_thread Xs Ys N n) ts (F1, S[t := s t]) = Some (F', S')"
        "n \<le> length F'" "n \<le> length S'" "\<forall>j \<in> set ts \<union> insert t T. S' ! j = s j \<and> (s j \<noteq> 0 \<longrightarrow> F' ! j = f j)"
      using Cons.prems(1,2,4) t F1 by auto
    then show ?case using run [OF t Cons.prems(3,4)] by (simp add: F1_def)
  qed auto
  from this [of "order env 20 n" "{}" F S] len env obtain F' S' where
    r: "BatchedGCDKernel env Xs Ys N n (F, S) = Some (F', S')" "n \<le> length F'" "n \<le> length S'"
      "\<forall>j < n. S' ! j = s j \<and> (s j \<noteq> 0 \<longrightarrow> F' ! j = f j)"
    by (auto simp: BatchedGCDKernel_def gpu_ok_def schedule_def)
  then show ?thesis using ok by (auto simp: statuses_ok_def)
qed

lemma collect_val:
  assumes "\<And>j. j < n \<Longrightarrow> S ! j \<noteq> 0 \<Longrightarrow> proper N (F ! j)" and "n \<le> length F" "n \<le> length S"
  shows "all_proper N pool \<Longrightarrow> length pool \<le> MAX_POOL \<Longrightarrow>
    \<exists>pool'. ofold (collect_thread F S n) tids pool = Some pool' \<and> all_proper N pool' \<and> length pool' \<le> MAX_POOL
      \<and> (pool' = [] \<longleftrightarrow> pool = [] \<and> (\<forall>t \<in> set tids. t < n \<longrightarrow> S ! t = 0))"
proof (induction tids arbitrary: pool)
  case (Cons t tids)
  define p where "p = (if t < n \<and> S ! t \<noteq> 0 \<and> length pool < MAX_POOL then pool @ [F ! t] else pool)"
  have run: "collect_thread F S n t pool = Some p"
    using assms(2,3) by (simp add: collect_thread_def p_def)
  have "all_proper N p" "length p \<le> MAX_POOL" using Cons.prems assms(1) [of t] by (auto simp: p_def all_proper_def)
  moreover have "p = [] \<longleftrightarrow> pool = [] \<and> (t < n \<longrightarrow> S ! t = 0)" by (auto simp: p_def MAX_POOL_def)
  ultimately show ?case using Cons.IH [of p] run by auto
qed simp

lemma RefineFactorsKernel_val:
  assumes N: "length N = 16" "1 < lval N" and env: "gpu_ok env" and st: "statuses_ok N n Xs Ys (F, S)"
  shows "\<exists>ps. RefineFactorsKernel env F S N n = Some ps \<and> all_proper N ps \<and> length ps \<le> MAX_POOL
    \<and> (ps = [] \<longleftrightarrow> (\<forall>j < min n REFINE_BLOCK_SIZE. S ! j = 0))"
proof -
  have c: "schedule REFINE_BLOCK_SIZE (order env 21 REFINE_BLOCK_SIZE)" using env by (simp add: gpu_ok_def)
  have F: "\<And>j. j < n \<Longrightarrow> S ! j \<noteq> 0 \<Longrightarrow> proper N (F ! j)" "n \<le> length F" "n \<le> length S" using st by (simp_all add: statuses_ok_def)
  obtain pool where pool: "ofold (collect_thread F S n) (order env 21 REFINE_BLOCK_SIZE) [] = Some pool" "all_proper N pool" "length pool \<le> MAX_POOL"
      and empty: "pool = [] \<longleftrightarrow> (\<forall>t \<in> set (order env 21 REFINE_BLOCK_SIZE). t < n \<longrightarrow> S ! t = 0)"
    using collect_val [OF F, of "[]" "order env 21 REFINE_BLOCK_SIZE"] by (auto simp: all_proper_def)
  have empty: "pool = [] \<longleftrightarrow> (\<forall>j < min n REFINE_BLOCK_SIZE. S ! j = 0)"
    using c unfolding empty by (auto simp: schedule_def)
  show ?thesis
  proof (cases "pool = []")
    case True
    then show ?thesis using pool empty by (simp add: RefineFactorsKernel_def all_proper_def)
  next
    case False
    let ?s = "insertion_sort pool"
    have srt: "?s \<noteq> []" "\<And>x. x \<in> set ?s \<Longrightarrow> proper N x" using False pool(2) insertion_sort_set [of pool] by (auto simp: all_proper_def)
    have len: "length ?s = length pool"
    proof -
      have "length (insert_key k xs) = Suc (length xs)" for k xs by (simp add: insert_key_def Let_def)
      then have "length (fold insert_key xs acc) = length xs + length acc" for xs acc by (induction xs arbitrary: acc) simp_all
      then show ?thesis by (simp add: insertion_sort_def)
    qed
    note d = dedup_in_place_set [OF N srt]
    have "length (dedup_in_place N ?s) \<le> MAX_POOL" using d(3) len pool(3) by simp
    from refine_rounds_val [OF N d(1) _ this, of env MAX_REFINE_ROUNDS] d(2) srt(2) obtain ps where
      ps: "refine_rounds env N MAX_REFINE_ROUNDS (dedup_in_place N ?s) = Some ps" "ps \<noteq> []" "all_proper N ps" "length ps \<le> MAX_POOL"
      by (auto simp: all_proper_def)
    then show ?thesis using pool empty False d(1) by (simp add: RefineFactorsKernel_def Let_def)
  qed
qed

lemma proper_pair:
  assumes "length N = 16" "1 < lval N" and "proper N f"
  shows "lval f * lval (div512 N f) = lval N" and "eq512 (mult512 f (div512 N f)) N"
proof -
  have f: "length f = 16" "lval f dvd lval N" "lval f \<noteq> 0" using assms(3) by (auto simp: proper_def divisor_def)
  have d: "length (div512 N f) = 16" "lval (div512 N f) = lval N div lval f" using div512_val(1) [OF assms(1) f(1,3)] by simp_all
  show p: "lval f * lval (div512 N f) = lval N" using f(2) by (simp add: d(2))
  show "eq512 (mult512 f (div512 N f)) N"
    using mult512_val [OF f(1) d(1)] p limb_bound512 [OF assms(1)] assms(1) by (simp add: eq512_val)
qed

lemma raw_scan_val:
  assumes N: "length N = 16" "1 < lval N"
    and F: "\<And>j. j \<in> set js \<Longrightarrow> j < length F \<and> j < length S \<and> (S ! j \<noteq> 0 \<longrightarrow> proper N (F ! j))"
  shows "\<exists>f1 f2. raw_scan N F S js = Some (Factors f1 f2) \<and> lval f1 * lval f2 = lval N
    \<and> (if \<exists>j \<in> set js. S ! j \<noteq> 0 then 1 < lval f1 \<and> lval f1 < lval N else lval f1 = 1)"
  using F
proof (induction js)
  case (Cons j js)
  then show ?case using proper_pair [OF N, of "F ! j"] by (cases "S ! j = 0") (auto simp: proper_def)
qed simp

lemma BatchedGCD_val:
  assumes N: "length N = 16" "1 < lval N" and env: "gpu_ok env" and X: "roots_ok N n Xs" and Y: "roots_ok N n Ys"
    and n: "n \<le> 1024" and len: "n \<le> length F" "n \<le> length S"
  shows "\<exists>f1 f2. BatchedGCD env N Xs Ys n (F, S) = Some (Factors f1 f2) \<and> lval f1 * lval f2 = lval N
    \<and> (if \<exists>j < n. gcd_splits (lval N) (lval (Xs ! j)) (lval (Ys ! j)) then 1 < lval f1 \<and> lval f1 < lval N else lval f1 = 1)"
proof -
  obtain F1 S1 where k: "BatchedGCDKernel env Xs Ys N n (F, replicate n 0 @ drop n S) = Some (F1, S1)" "statuses_ok N n Xs Ys (F1, S1)"
    using BatchedGCDKernel_val [OF N env X Y len(1), of "replicate n 0 @ drop n S"] len(2) by auto
  obtain ps where ps: "RefineFactorsKernel env F1 S1 N n = Some ps" "all_proper N ps"
      "ps = [] \<longleftrightarrow> (\<forall>j < min n REFINE_BLOCK_SIZE. S1 ! j = 0)"
    using RefineFactorsKernel_val [OF N env k(2)] by blast
  have F1: "n \<le> length F1" "n \<le> length S1" "\<And>j. j < n \<Longrightarrow> S1 ! j \<noteq> 0 \<longleftrightarrow> gcd_splits (lval N) (lval (Xs ! j)) (lval (Ys ! j))"
      "\<And>j. j < n \<Longrightarrow> S1 ! j \<noteq> 0 \<Longrightarrow> proper N (F1 ! j)"
    using k(2) by (simp_all add: statuses_ok_def)
  have run: "BatchedGCD env N Xs Ys n (F, S) = (if ps \<noteq> [] then Some (Factors (ps ! 0) (div512 N (ps ! 0)))
      else raw_scan N (take n F1) (take n S1) [0..<n])"
    using n k(1) ps(1) F1(1,2) by (simp add: BatchedGCD_def upload_def)
  show ?thesis
  proof (cases "ps = []")
    case False
    then have p: "proper N (ps ! 0)" using ps(2) by (simp add: all_proper_def)
    obtain j where "j < n" "S1 ! j \<noteq> 0" using False ps(3) by auto
    then have "\<exists>j < n. gcd_splits (lval N) (lval (Xs ! j)) (lval (Ys ! j))" using F1(3) by blast
    then show ?thesis using False p proper_pair(1) [OF N p] by (simp add: run proper_def)
  next
    case True
    have "\<exists>f1 f2. raw_scan N (take n F1) (take n S1) [0..<n] = Some (Factors f1 f2) \<and> lval f1 * lval f2 = lval N
      \<and> (if \<exists>j \<in> set [0..<n]. take n S1 ! j \<noteq> 0 then 1 < lval f1 \<and> lval f1 < lval N else lval f1 = 1)"
      by (rule raw_scan_val [OF N]) (use F1 in auto)
    moreover have "(\<exists>j \<in> set [0..<n]. take n S1 ! j \<noteq> 0) \<longleftrightarrow> (\<exists>j < n. gcd_splits (lval N) (lval (Xs ! j)) (lval (Ys ! j)))"
      using F1(3) by auto
    ultimately show ?thesis using True by (simp only: run if_False simp_thms)
  qed
qed

text \<open>Two factors of which one divides the other are never split, so the pool need not end pairwise coprime.\<close>

lemma divisor_pair_kept:
  assumes "length a = 16" "length b = 16" "lval a dvd lval b"
  shows "split_thread [a, b] tid (False, []) = Some (False, [])"
proof (cases "tid = 0")
  case True
  obtain g where g: "gcd512 a b = Some g" "length g = 16" "lval g = lval a"
    using gcd512_val [OF assms(1,2)] assms(3) by (auto simp: gcd_nat.absorb1)
  have "decode_triangular 0 2 = Some (0, 1)"
    using pair_number [of 0 1 2] by simp
  moreover have "eq512 g a" using g assms(1) by (simp add: eq512_val)
  ultimately show ?thesis using g(1) True by (simp add: split_thread_def)
qed (simp add: split_thread_def)

section \<open>Properties\<close>

text \<open>
  C39. Factors from the roots of all solutions. For at most 1024 solutions with roots below \<open>N\<close>, any content
  of the buffers and any order of the threads, the call returns two numbers whose product is \<open>N\<close>, and they
  are proper factors exactly when \<open>gcd(|X - Y|, N)\<close> or \<open>gcd(X + Y mod N, N)\<close> of some solution is one: the rounds
  of refinement and the bounded pool (64 factors, 128 solutions, 8 rounds) lose no factorisation and invent
  none. More solutions are refused.
\<close>

theorem batched_gcd_splits:
  assumes "length N = 16" "1 < lval N" and "gpu_ok env" and "roots_ok N n Xs" "roots_ok N n Ys"
    and "n \<le> length F" "n \<le> length S"
  shows "if n > 1024 then BatchedGCD env N Xs Ys n (F, S) = Some Thrown
    else \<exists>f1 f2. BatchedGCD env N Xs Ys n (F, S) = Some (Factors f1 f2) \<and> lval f1 * lval f2 = lval N
      \<and> (if \<exists>j < n. gcd_splits (lval N) (lval (Xs ! j)) (lval (Ys ! j)) then 1 < lval f1 \<and> lval f1 < lval N else lval f1 = 1)"
  using BatchedGCD_val [OF assms(1-5) _ assms(6,7)] by (simp add: BatchedGCD_def)

theorem batched_gcd_splits_witness:
  "\<exists>f1 f2. BatchedGCD in_order (uint512_u32 91) [uint512_u32 5, uint512_u32 10] [uint512_u32 5, uint512_u32 3] 2
      ([zero512, zero512], [0, 0]) = Some (Factors f1 f2)
    \<and> lval f1 * lval f2 = 91 \<and> 1 < lval f1 \<and> lval f1 < 91"
proof -
  have env: "gpu_ok in_order" by (simp add: gpu_ok_def in_order_def schedule_def)
  have r: "roots_ok (uint512_u32 91) 2 [uint512_u32 5, uint512_u32 10]" "roots_ok (uint512_u32 91) 2 [uint512_u32 5, uint512_u32 3]"
    by (auto simp: roots_ok_def less_2_cases_iff)
  have "gcd_splits 91 10 3" using square_roots_split [of 10 91 3] by simp
  then have "\<exists>j < 2. gcd_splits 91 (lval ([uint512_u32 5, uint512_u32 10] ! j)) (lval ([uint512_u32 5, uint512_u32 3] ! j))"
    by (intro exI [of _ 1]) simp
  with batched_gcd_splits [OF _ _ env r, of "[zero512, zero512]" "[0, 0]"] show ?thesis by simp
qed

text \<open>
  C40. The whole device path, from relations to factors. If every selected relation of a solution \<open>s\<close> states
  \<open>x\<^sup>2 = \<plusminus> 2 ^ v * \<Prod> p ^ c * L\<^sup>2 (mod N)\<close> with its large prime \<open>L\<close> and the summed exponents are even, then the roots
  the kernels leave for \<open>s\<close> have equal squares modulo \<open>N\<close>; the gcd stage returns two numbers with product \<open>N\<close>,
  proper factors as soon as one such solution has \<open>X \<noteq> \<plusminus> Y (mod N)\<close>. Solutions with an odd exponent, whose
  root the kernels leave at zero, do no harm.
\<close>

theorem device_path_splits:
  fixes fb :: "u32 list" and n :: nat
  assumes "batch_ok b" "0 < n_rels b" "batch_exact b" "unat (num_factors b) < 2 ^ 32"
    and "length N = 16" "odd (lval N)" "1 < lval N" and "gpu_ok env"
    and "view_ok sv (n_rels b)"
    and "sized bufs (n_rels b) (unat (num_factors b) mod 2 ^ 32) (length fb) (num_solutions sv)"
    and "0 < length fb" "length fb + 255 < 2 ^ 32" "num_solutions sv * length fb \<le> 2 ^ 32" "fb_ready bufs N fb"
    and "\<And>s. s < num_solutions sv \<Longrightarrow> exponents_fit fb (sol_rels sv b s) \<and> factors_fit (length fb) (sol_rels sv b s)"
    and "num_solutions sv \<le> 1024" "num_solutions sv \<le> length F" "num_solutions sv \<le> length S"
  defines "good \<equiv> {s. s < num_solutions sv \<and> square_exponents fb (sol_rels sv b s)
      \<and> (\<forall>r \<in> set (sol_rels sv b s). rel_congruent (lval N) fb r ((int (lp_root r))\<^sup>2))}"
  shows "\<exists>bufs1 bufs2 f1 f2. ComputeXBatchedGPU env N sv b bufs = Some bufs1 \<and> ComputeYBatchedGPU env N sv b fb bufs1 = Some bufs2
    \<and> BatchedGCD env N (d_X bufs2) (d_Y bufs2) (num_solutions sv) (F, S) = Some (Factors f1 f2) \<and> lval f1 * lval f2 = lval N
    \<and> (\<forall>s \<in> good. (lval (d_X bufs2 ! s))\<^sup>2 mod lval N = (lval (d_Y bufs2 ! s))\<^sup>2 mod lval N
        \<and> (lval (d_X bufs2 ! s) \<noteq> lval (d_Y bufs2 ! s) \<and> (lval (d_X bufs2 ! s) + lval (d_Y bufs2 ! s)) mod lval N \<noteq> 0
            \<longrightarrow> 1 < lval f1 \<and> lval f1 < lval N))"
proof -
  let ?ns = "num_solutions sv" and ?N = "lval N"
  obtain bufs1 bufs2 where r: "ComputeXBatchedGPU env N sv b bufs = Some bufs1" "ComputeYBatchedGPU env N sv b fb bufs1 = Some bufs2"
      "?ns \<le> length (d_X bufs2)" "?ns \<le> length (d_Y bufs2)"
      "\<And>s. s < ?ns \<Longrightarrow> length (d_X bufs2 ! s) = 16
        \<and> lval (d_X bufs2 ! s) = (\<Prod>i\<leftarrow>chosen (sol_bits sv s) b. unat (sqrt_Q b ! i)) mod ?N
        \<and> (if square_exponents fb (sol_rels sv b s)
           then d_valid bufs2 ! s = 1 \<and> length (d_Y bufs2 ! s) = 16 \<and> lval (d_Y bufs2 ! s) = root_value ?N fb (sol_rels sv b s) mod ?N
           else d_valid bufs2 ! s = 0 \<and> d_Y bufs2 ! s = zero512)"
    using device_roots [OF assms(1-8,8-14) assms(15)] by blast
  have X: "roots_ok N ?ns (d_X bufs2)" using r(3,5) assms(7) by (simp add: roots_ok_def)
  have z: "length zero512 = 16" "lval zero512 = 0" by simp_all
  have "length (d_Y bufs2 ! s) = 16 \<and> lval (d_Y bufs2 ! s) < ?N" if "s < ?ns" for s
    using r(5) [OF that] assms(7) z by (cases "square_exponents fb (sol_rels sv b s)") simp_all
  then have Y: "roots_ok N ?ns (d_Y bufs2)" using r(4) by (simp add: roots_ok_def)
  obtain f1 f2 where f: "BatchedGCD env N (d_X bufs2) (d_Y bufs2) ?ns (F, S) = Some (Factors f1 f2)" "lval f1 * lval f2 = ?N"
      "if \<exists>j < ?ns. gcd_splits ?N (lval (d_X bufs2 ! j)) (lval (d_Y bufs2 ! j)) then 1 < lval f1 \<and> lval f1 < ?N else lval f1 = 1"
    using BatchedGCD_val [OF assms(5,7,8) X Y assms(16-18)] by blast
  have sq: "(lval (d_X bufs2 ! s))\<^sup>2 mod ?N = (lval (d_Y bufs2 ! s))\<^sup>2 mod ?N" if s: "s \<in> good" for s
  proof -
    let ?ixs = "chosen (sol_bits sv s) b"
    have rs: "sol_rels sv b s = map (rel_at b) ?ixs" by (simp add: sol_rels_def)
    have cong: "rel_congruent ?N fb (rel_at b i) ((int (lp_root (rel_at b i)))\<^sup>2) \<and> 0 \<le> sint (r_val_2_exp (rel_at b i))" if "i \<in> set ?ixs" for i
      using s that assms(15) [of s] by (simp add: good_def rs exponents_fit_def)
    have p: "(int (1 * (\<Prod>r\<leftarrow>map (rel_at b) ixs. lp_root r)))\<^sup>2 = (\<Prod>i\<leftarrow>ixs. (int (lp_root (rel_at b i)))\<^sup>2)" for ixs
      by (induction ixs) (simp_all add: power_mult_distrib)
    have "(\<Prod>i\<leftarrow>?ixs. unat (r_sqrt_Q (rel_at b i)))\<^sup>2 mod ?N = (root_value ?N fb (map (rel_at b) ?ixs) * 1)\<^sup>2 mod ?N"
      by (rule squares_congruent [where L = "\<lambda>i. (int (lp_root (rel_at b i)))\<^sup>2"])
         (use s assms(7) cong p [of ?ixs] in \<open>simp_all add: good_def rs\<close>)
    then show ?thesis using r(5) [of s] s by (simp add: good_def rs power_mod rel_at_def)
  qed
  have "1 < lval f1 \<and> lval f1 < ?N"
    if s: "s \<in> good" "lval (d_X bufs2 ! s) \<noteq> lval (d_Y bufs2 ! s)" "(lval (d_X bufs2 ! s) + lval (d_Y bufs2 ! s)) mod ?N \<noteq> 0" for s
  proof -
    have n: "s < ?ns" using s(1) by (simp add: good_def)
    have "gcd_splits ?N (lval (d_X bufs2 ! s)) (lval (d_Y bufs2 ! s))"
      by (rule square_roots_split [OF sq [OF s(1)] s(2,3)]) (use X Y n in \<open>simp_all add: roots_ok_def\<close>)
    with n f(3) show ?thesis by (auto split: if_splits)
  qed
  with r(1,2) f(1,2) sq show ?thesis by blast
qed

theorem device_path_splits_witness:
  "\<exists>bufs1 bufs2 f1 f2. ComputeXBatchedGPU in_order (uint512_u32 91) small_sv one_relation small_bufs = Some bufs1
    \<and> ComputeYBatchedGPU in_order (uint512_u32 91) small_sv one_relation [3] bufs1 = Some bufs2
    \<and> BatchedGCD in_order (uint512_u32 91) (d_X bufs2) (d_Y bufs2) 1 ([zero512], [0]) = Some (Factors f1 f2) \<and> lval f1 * lval f2 = 91"
proof -
  have "exponents_fit [3] (sol_rels small_sv one_relation s) \<and> factors_fit (length [3 :: u32]) (sol_rels small_sv one_relation s)"
    if "s < num_solutions small_sv" for s using one_relation_fits that by simp
  note t = device_path_splits [OF one_relation_ok(1) one_relation_device(1) one_relation_exact one_relation_device(2,6-8) in_order_ok
    small_view small_sized one_relation_device(3-5) small_ready this, of "[zero512]" "[0]"]
  have "num_solutions small_sv \<le> 1024" "num_solutions small_sv \<le> length [zero512]" "num_solutions small_sv \<le> length [0 :: int]" by simp_all
  with t have "\<exists>bufs1 bufs2 f1 f2. ComputeXBatchedGPU in_order (uint512_u32 91) small_sv one_relation small_bufs = Some bufs1
    \<and> ComputeYBatchedGPU in_order (uint512_u32 91) small_sv one_relation [3] bufs1 = Some bufs2
    \<and> BatchedGCD in_order (uint512_u32 91) (d_X bufs2) (d_Y bufs2) (num_solutions small_sv) ([zero512], [0]) = Some (Factors f1 f2)
    \<and> lval f1 * lval f2 = lval (uint512_u32 91)" by meson
  then show ?thesis by simp
qed

end
