(* ===== verification/Spec2Isabelle.thy ===== *)
theory Spec2Isabelle
  imports Prelude Work_Pool Chunk_Scheduler Relation_Batch Accumulator Merge_Tree Merge_Filter Tcp_Frame Serialization Batch_Merge Uint512_Sqrt Uint512_Text Montgomery Math_Utils Relation_Flow Cluster_Resume Expanded_Matrix Truncation Factor_Refine
begin

text \<open>
  Verification development for a distributed self-initialising quadratic sieve (\<^verbatim>\<open>src/src\<close>).

  \<^bold>\<open>The program.\<close> A coordinator hands out ranges of polynomial coefficients (a-values) to worker nodes and
  to its own sieve. A node sieves its range and produces relations: a number \<open>s\<close> whose square is, modulo
  \<open>N\<close>, a product of small primes, possibly with one large prime. Workers send relations over TCP; the
  coordinator removes duplicates, combines relations with equal large primes, keeps a checkpoint, and at
  the target builds a sparse matrix over GF(2). The matrix is filtered and truncated, a linear-algebra
  stage returns kernel vectors, these are expanded to sets of relations, and the square-root step turns
  each set into \<open>X\<^sup>2 = Y\<^sup>2\<close> modulo \<open>N\<close> and two gcds.

  \<^bold>\<open>Theories, in the order of the data flow.\<close>
  \<^item> Arithmetic. \<open>Uint512\<close>, \<open>Uint512_Arith\<close>, \<open>Uint512_Sqrt\<close>, \<open>Uint512_Text\<close> (\<^verbatim>\<open>common/uint512.cuh\<close>): sixteen
    32-bit limbs, whose meaning is \<open>lval\<close>; every operation is shown equal to the operation on naturals
    modulo \<open>2 ^ 512\<close>. \<open>Modular_Power\<close>, \<open>Math_Utils\<close> (\<^verbatim>\<open>common/math_utils.cuh\<close>, \<^verbatim>\<open>uint128_helper.cuh\<close>):
    powers, inverses, square roots, polynomial values. \<open>Montgomery\<close> (\<^verbatim>\<open>common/montgomery.cuh\<close>).
  \<^item> Relations. \<open>Relation_Batch\<close> (\<^verbatim>\<open>common/mpqs_soa.h\<close>, \<^verbatim>\<open>relation_hash.h\<close>): the structure of arrays as a
    record, read as a list of relations (\<open>rel_at\<close>, \<open>row\<close>). \<open>Relation_Io\<close> (\<^verbatim>\<open>common/relation_io.cpp\<close>): the files.
    \<open>Serialization\<close>, \<open>Batch_Merge\<close> (\<^verbatim>\<open>cluster/serialization.cpp\<close>): the messages. \<open>Tcp_Frame\<close>
    (\<^verbatim>\<open>cluster/tcp_transport.cpp\<close>): frames, checksum, resynchronisation.
  \<^item> Distribution of work. \<open>Work_Pool\<close> (\<^verbatim>\<open>cluster/work_pool.cpp\<close>), \<open>Chunk_Scheduler\<close>
    (\<^verbatim>\<open>cluster/chunk_scheduler.cpp\<close>), \<open>Coordinator\<close> (the control part of \<open>networkLoop\<close> in
    \<^verbatim>\<open>orchestrator/orchestrator.cpp\<close>), \<open>Sieve_Checkpoint\<close> (\<^verbatim>\<open>common/sieve_checkpoint.cpp\<close>) and
    \<open>Cluster_Resume\<close> (writing and accepting checkpoints in the orchestrator).
  \<^item> Flow of relations. \<open>Spsc_Ring\<close> (\<^verbatim>\<open>cluster/spsc_ring.h\<close>), \<open>Data_Tap\<close> (\<^verbatim>\<open>cluster/async_network_data_tap.cpp\<close>),
    \<open>Direct_Channel\<close> (\<^verbatim>\<open>cluster/direct_channel.h\<close>), \<open>Accumulator\<close> (\<^verbatim>\<open>cluster/accumulator.h\<close>), \<open>Cpu_Lp\<close>
    (\<^verbatim>\<open>cluster/cpu_lp.cu\<close>), \<open>Relation_Flow\<close> (the data part of \<open>networkLoop\<close>).
  \<^item> Matrix. \<open>Gf2_Algebra\<close>, \<open>Merge_Tree\<close>, \<open>Merge_Filter\<close> (\<^verbatim>\<open>matrix/merge_tree.cpp\<close>, \<^verbatim>\<open>merge_filter.cpp\<close>),
    \<open>Expanded_Matrix\<close> (\<^verbatim>\<open>matrix/expanded_matrix.cpp\<close>), \<open>Truncation\<close> (\<^verbatim>\<open>matrix/matrix_truncation.cpp\<close>).
  \<^item> Square root. \<open>Sqrt_Step\<close>, \<open>Sqrt_Gpu\<close> and \<open>Factor_Refine\<close> (host path, device path and gcd stage of \<^verbatim>\<open>sqrt/sqrt_step.cu\<close>).
  \<open>Prelude\<close> holds what they share: loops that may fail (\<open>ofold\<close>), vector access (\<open>vec_at\<close>), byte encodings,
  the \<open>word_nat\<close> and \<open>csr_simps\<close> collections and the locale of inductive invariants.

  \<^bold>\<open>Modelling.\<close> A class is a record of its members and each method a function on it; machine integers are
  words; a read outside a vector, an exception or an early error return is \<open>None\<close> or a value of a sum.
  Concurrent code is a step relation: the ring is a relation over the loads and stores of both sides in
  which a load may return an old value; the coordinator is a relation over received messages, timeouts
  and the local sieve; a checkpoint write is the list of the directory states a kill can leave; a kernel
  launch is a fold over its threads in an order that is an argument. Clocks, floating-point rounding,
  hash iteration orders and the results of system calls are arguments as well, and the theorems hold for
  all of them, or name what they need.

  \<^bold>\<open>Interfaces.\<close> \<open>inductive_invariant\<close> (instances: pool, ring, coordinator) gives reachability proofs;
  \<open>drained_channel\<close> (four instances) the laws of a queue that is drained into the accumulator; \<open>pop_queue\<close>
  (ring and channel) the law that polling yields the elements in order; \<open>residue_mult\<close> (\<open>mul_mod\<close>,
  \<open>mul_mod64\<close>, Montgomery multiplication) products and powers of represented residues, extended in
  \<open>Sqrt_Step\<close> by products over loops and in \<open>Sqrt_Gpu\<close> by tree reductions.

  \<^bold>\<open>What the lemmas show.\<close> Invariants: no a-value is lost or handed out twice, in the pool alone and in the
  whole coordinator. Refinement: accumulator, ring, data tap, large-prime table and batch merge implement
  lists, sets and multisets of relations; the filter keeps the left null space up to the merge tree; the
  built matrix has exactly the even products as its dependencies; Montgomery arithmetic implements residues.
  Round trips: frames, messages, decimal text, files, checkpoints. Errors: damaged frames and truncated
  files are rejected. Crash safety and resumption of checkpoints. Equivalence: table-driven and serial
  checksum, deferral of messages and immediate processing, device and host roots. Finally, relations with
  even exponents pass the congruence check of the square-root step and yield a pair of factors of \<open>N\<close>.

  \<^bold>\<open>Bounds.\<close> Newton inversion runs 32 steps and text conversion at most 20 chunks of decimal digits, as in the
  code; loops whose end is not structural are \<open>partial_function\<close>s that are shown to return. A batch step
  assumes fewer than \<open>65536\<close> relations and \<open>2 ^ 22\<close> factors per message, fewer than \<open>2 ^ 32 - 2\<close> chunk ids per
  run, files below \<open>2 ^ 63\<close> bytes, matrix dimensions and exponent sums below \<open>2 ^ 32\<close>. These are the points at
  which the integers of the code would wrap.

  \<^bold>\<open>Not modelled.\<close> The CUDA sieve, trial division, GPU large-prime matching, the GPU matrix pipeline and the
  block Wiedemann solver: they rest on device libraries and racing threads, and their results are checked
  by the parts that are modelled (duplicate and validity checks, the congruence check). The factor base and
  the choice of the polynomials (\<open>sieve/prime_algorithms.cu\<close>): they need quadratic reciprocity and the proven
  Miller-Rabin witness set, and what they produce is an argument of the parts that are modelled. Option parsing,
  logging, autotuning, sockets and the driving of the stages: input, output and heuristics. The phase of
  the coordinator after the target is reached is modelled only as the final hand-off of the accumulator.
\<close>

end
